(* ===== verification/Prelude.thy ===== *)
theory Prelude
  imports Main "HOL-Library.Word"
begin

text \<open>
  Shared vocabulary of the Novaris kernel development.

  \<^item> \<open>byte\<close>, \<open>u32\<close>, \<open>u64\<close>: the machine integers of the C sources as words.
  \<^item> \<open>memory\<close>: byte-addressed memory as a function of the address. Addresses are natural
    numbers; the kernel never lets a pointer walk past the top of the address space, so
    pointer increments do not wrap.
  \<^item> \<open>add64\<close>, \<open>mul64\<close>, \<open>sub64\<close>: \<open>uint64_t\<close> arithmetic where a component keeps its
    counters as natural numbers; the wrap-around is written out.
  \<^item> \<open>bytes_at\<close> and \<open>cstr\<close>: the bytes and the NUL-terminated string at an address.
  \<^item> generic facts on list updates, \<open>find\<close> and bit tests that the components share.
\<close>

unbundle bit_operations_syntax

type_synonym byte = "8 word"
type_synonym u32 = "32 word"
type_synonym u64 = "64 word"
type_synonym memory = "nat \<Rightarrow> byte"

named_theorems mem_simps \<open>reading back after a store\<close>
named_theorems wrap_simps \<open>64-bit counters that do not overflow\<close>

section \<open>64-bit unsigned counters kept as natural numbers\<close>

definition add64 :: "nat \<Rightarrow> nat \<Rightarrow> nat" where
  "add64 a b = (a + b) mod 2 ^ 64"

definition mul64 :: "nat \<Rightarrow> nat \<Rightarrow> nat" where
  "mul64 a b = (a * b) mod 2 ^ 64"

definition sub64 :: "nat \<Rightarrow> nat \<Rightarrow> nat" where
  "sub64 a b = nat ((int a - int b) mod 2 ^ 64)"

lemma add64_exact [wrap_simps]: "a + b < 2 ^ 64 \<Longrightarrow> add64 a b = a + b"
  by (simp add: add64_def)

lemma mul64_exact [wrap_simps]: "a * b < 2 ^ 64 \<Longrightarrow> mul64 a b = a * b"
  by (simp add: mul64_def)

lemma sub64_exact [wrap_simps]: "b \<le> a \<Longrightarrow> a < 2 ^ 64 \<Longrightarrow> sub64 a b = a - b"
  by (simp add: sub64_def nat_diff_distrib')

lemma add64_lt: "add64 a b < 2 ^ 64"
  by (simp add: add64_def)

lemma unat_lt_8: "unat (w :: byte) < 256"
  by (rule order_less_le_trans [OF unsigned_less]) simp

lemma unat_lt_32: "unat (w :: u32) < 2 ^ 32"
  by (rule order_less_le_trans [OF unsigned_less]) simp

lemma unat_lt_64: "unat (w :: u64) < 2 ^ 64"
  by (rule order_less_le_trans [OF unsigned_less]) simp

section \<open>Memory\<close>

definition bytes_at :: "memory \<Rightarrow> nat \<Rightarrow> nat \<Rightarrow> byte list" where
  "bytes_at m a n = map (\<lambda>i. m (a + i)) [0..<n]"

lemma length_bytes_at [simp]: "length (bytes_at m a n) = n"
  by (simp add: bytes_at_def)

lemma nth_bytes_at [simp]: "i < n \<Longrightarrow> bytes_at m a n ! i = m (a + i)"
  by (simp add: bytes_at_def)

lemma bytes_at_0 [simp]: "bytes_at m a 0 = []"
  by (simp add: bytes_at_def)

lemma bytes_at_cong: "(\<And>i. i < n \<Longrightarrow> m (a + i) = m' (b + i)) \<Longrightarrow> bytes_at m a n = bytes_at m' b n"
  by (simp add: bytes_at_def)

lemma bytes_at_Suc: "bytes_at m a (Suc n) = m a # bytes_at m (Suc a) n"
  by (rule nth_equalityI) (auto simp: nth_Cons' Suc_diff_Suc split: nat.splits)

text \<open>A NUL-terminated string: the bytes before the first zero.\<close>

primrec cstr :: "memory \<Rightarrow> nat \<Rightarrow> byte list \<Rightarrow> bool" where
  "cstr m a [] \<longleftrightarrow> m a = 0"
| "cstr m a (x # xs) \<longleftrightarrow> m a = x \<and> x \<noteq> 0 \<and> cstr m (Suc a) xs"

lemma cstr_conv:
  "cstr m a xs \<longleftrightarrow> bytes_at m a (length xs) = xs \<and> m (a + length xs) = 0 \<and> 0 \<notin> set xs"
  by (induction xs arbitrary: a) (auto simp: bytes_at_Suc)

lemma cstr_nth: "cstr m a xs \<Longrightarrow> i < length xs \<Longrightarrow> m (a + i) = xs ! i"
  by (metis cstr_conv nth_bytes_at)

lemma cstr_nth_nonzero: "cstr m a xs \<Longrightarrow> i < length xs \<Longrightarrow> m (a + i) \<noteq> 0"
  by (metis cstr_conv cstr_nth nth_mem)

lemma cstr_end: "cstr m a xs \<Longrightarrow> m (a + length xs) = 0"
  by (simp add: cstr_conv)

lemma cstr_drop: "cstr m a xs \<Longrightarrow> i \<le> length xs \<Longrightarrow> cstr m (a + i) (drop i xs)"
proof (induction i arbitrary: a xs)
  case (Suc i)
  then show ?case by (cases xs) fastforce+
qed simp

lemma cstr_unique: "cstr m a xs \<Longrightarrow> cstr m a ys \<Longrightarrow> xs = ys"
proof (induction xs arbitrary: a ys)
  case Nil
  then show ?case by (cases ys) auto
next
  case (Cons x xs)
  then show ?case by (cases ys) auto
qed

lemma cstr_frame: "cstr m a xs \<Longrightarrow> (\<And>i. i \<le> length xs \<Longrightarrow> m' (a + i) = m (a + i)) \<Longrightarrow> cstr m' a xs"
proof (induction xs arbitrary: a)
  case Nil
  then show ?case by (metis add.right_neutral cstr.simps(1) le0)
next
  case (Cons x xs)
  have "m' a = m a" using Cons.prems(2) [of 0] by simp
  moreover have "cstr m' (Suc a) xs"
  proof (rule Cons.IH)
    show "cstr m (Suc a) xs" using Cons.prems by simp
    fix i assume "i \<le> length xs"
    then show "m' (Suc a + i) = m (Suc a + i)" using Cons.prems(2) [of "Suc i"] by simp
  qed
  ultimately show ?case using Cons.prems(1) by simp
qed

text \<open>Storing a run of bytes.\<close>

definition write_bytes :: "memory \<Rightarrow> nat \<Rightarrow> byte list \<Rightarrow> memory" where
  "write_bytes m a xs = (\<lambda>i. if a \<le> i \<and> i < a + length xs then xs ! (i - a) else m i)"

lemma write_bytes_Nil [simp]: "write_bytes m a [] = m"
  by (rule ext) (auto simp: write_bytes_def)

lemma write_bytes_in [mem_simps]: "i < length xs \<Longrightarrow> write_bytes m a xs (a + i) = xs ! i"
  by (simp add: write_bytes_def)

lemma write_bytes_out [mem_simps]:
  "i < a \<or> a + length xs \<le> i \<Longrightarrow> write_bytes m a xs i = m i"
  by (auto simp: write_bytes_def)

lemma write_bytes_append:
  "write_bytes (write_bytes m a xs) (a + length xs) ys = write_bytes m a (xs @ ys)"
  by (rule ext) (auto simp: write_bytes_def nth_append)

lemma write_bytes_upd: "m(a := x) = write_bytes m a [x]"
  by (rule ext) (auto simp: write_bytes_def)

lemma bytes_at_write_same: "bytes_at (write_bytes m a xs) a (length xs) = xs"
  by (rule nth_equalityI) (auto simp: mem_simps)

lemma bytes_at_write_disjoint:
  "b + n \<le> a \<or> a + length xs \<le> b \<Longrightarrow> bytes_at (write_bytes m a xs) b n = bytes_at m b n"
  by (rule bytes_at_cong) (auto simp: write_bytes_def)

lemma bytes_at_split: "k \<le> n \<Longrightarrow> bytes_at m a n = bytes_at m a k @ bytes_at m (a + k) (n - k)"
  by (rule nth_equalityI) (auto simp: nth_append)

lemma cstr_write_bytes: "0 \<notin> set xs \<Longrightarrow> cstr (write_bytes m a (xs @ [0])) a xs"
proof -
  assume nz: "0 \<notin> set xs"
  let ?m = "write_bytes m a (xs @ [0])"
  have "bytes_at ?m a (length xs) = xs"
    by (rule nth_equalityI) (auto simp: write_bytes_def nth_append)
  moreover have "?m (a + length xs) = 0"
    by (simp add: write_bytes_def)
  ultimately show ?thesis using nz by (simp add: cstr_conv)
qed

text \<open>A concrete memory that holds a list of bytes from an address on, and zero elsewhere.\<close>

definition mem_of :: "nat \<Rightarrow> byte list \<Rightarrow> memory" where
  "mem_of a xs i = (if a \<le> i \<and> i < a + length xs then xs ! (i - a) else 0)"

section \<open>Lists\<close>

lemma list_update_same_conv': "i < length xs \<Longrightarrow> xs ! i = x \<Longrightarrow> xs[i := x] = xs"
  by auto

lemma filter_upt_cong_except:
  assumes "x < n" and "\<And>y. y \<noteq> x \<Longrightarrow> P y = Q y" and "\<not> P x" and "Q x"
  shows "length (filter Q [0..<n]) = Suc (length (filter P [0..<n]))"
proof -
  have "{y. y < n \<and> Q y} = insert x {y. y < n \<and> P y}"
    using assms by (auto; metis)
  then show ?thesis
    using assms by (simp add: length_filter_conv_card cong: conj_cong)
qed

end
