(* ===== verification/KString.thy ===== *)
theory KString
  imports Prelude
begin

text \<open>
  \<^verbatim>\<open>kernel/kstring.c\<close>: the freestanding string and memory routines every other part of the
  kernel is built on. Memory is a function from addresses to bytes and every routine that
  stores returns the new memory. A \<open>for\<close> loop with an early return is a \<open>find\<close> over its
  index range; a loop that ends only at a NUL byte is a \<^theory_text>\<open>partial_function\<close> whose
  value \<open>None\<close> means it runs on forever, so each correctness statement for a C string also says
  the loop stops. A \<open>NULL\<close> result is \<open>None\<close> of the inner option.

  The \<open>rep movsq\<close>/\<open>rep stosq\<close> instructions are modelled as the processor runs them: \<open>count\<close>
  word transfers upwards, then the tail byte by byte. Plain \<open>char\<close> is signed on this target;
  the only orderings the code tests against letters and digits give the same answer for bytes of
  128 and above either way, so bytes are compared unsigned.
\<close>

section \<open>Copying and filling\<close>

fun rep_movs :: "nat \<Rightarrow> nat \<Rightarrow> memory \<Rightarrow> nat \<Rightarrow> nat \<Rightarrow> memory \<times> nat \<times> nat" where
  "rep_movs w 0 m d s = (m, d, s)"
| "rep_movs w (Suc c) m d s = rep_movs w c (write_bytes m d (bytes_at m s w)) (d + w) (s + w)"

definition kmemcpy :: "memory \<Rightarrow> nat \<Rightarrow> nat \<Rightarrow> nat \<Rightarrow> memory" where
  "kmemcpy m dst src n =
     (let words = n div 8; rest = n mod 8;
          (m1, d1, s1) = rep_movs 8 words m dst src;
          (m2, d2, s2) = rep_movs 1 rest m1 d1 s1
      in m2)"

definition kmemmove :: "memory \<Rightarrow> nat \<Rightarrow> nat \<Rightarrow> nat \<Rightarrow> memory" where
  "kmemmove m d s n =
     (if d = s \<or> n = 0 then m
      else if d < s then fold (\<lambda>i m. m(d + i := m (s + i))) [0..<n] m
      else fold (\<lambda>i m. m(d + (i - 1) := m (s + (i - 1)))) (rev [1..<Suc n]) m)"

definition word_bytes :: "u64 \<Rightarrow> byte list" where
  "word_bytes w = map (\<lambda>i. ucast (drop_bit (8 * i) w)) [0..<8]"

fun rep_stos :: "byte list \<Rightarrow> nat \<Rightarrow> memory \<Rightarrow> nat \<Rightarrow> memory \<times> nat" where
  "rep_stos pat 0 m d = (m, d)"
| "rep_stos pat (Suc c) m d = rep_stos pat c (write_bytes m d pat) (d + length pat)"

definition kmemset :: "memory \<Rightarrow> nat \<Rightarrow> byte \<Rightarrow> nat \<Rightarrow> memory" where
  "kmemset m dst value n =
     (let pattern = (ucast value :: u64) * ((NOT 0) div 0xFF);
          words = n div 8; rest = n mod 8;
          (m1, d1) = rep_stos (word_bytes pattern) words m dst;
          (m2, d2) = rep_stos [ucast pattern] rest m1 d1
      in m2)"

definition kmemcmp :: "memory \<Rightarrow> nat \<Rightarrow> nat \<Rightarrow> nat \<Rightarrow> int" where
  "kmemcmp m a b n =
     (case find (\<lambda>i. m (a + i) \<noteq> m (b + i)) [0..<n] of
        Some i \<Rightarrow> uint (m (a + i)) - uint (m (b + i))
      | None \<Rightarrow> 0)"

definition kmemchr :: "memory \<Rightarrow> nat \<Rightarrow> byte \<Rightarrow> nat \<Rightarrow> nat option" where
  "kmemchr m s c n =
     (case find (\<lambda>i. m (s + i) = c) [0..<n] of Some i \<Rightarrow> Some (s + i) | None \<Rightarrow> None)"

section \<open>Lengths and comparison\<close>

partial_function (option) strlen_loop :: "memory \<Rightarrow> nat \<Rightarrow> nat \<Rightarrow> nat option" where
  "strlen_loop m s n = (if m (s + n) \<noteq> 0 then strlen_loop m s (n + 1) else Some n)"

definition kstrlen :: "memory \<Rightarrow> nat \<Rightarrow> nat option" where
  "kstrlen m s = strlen_loop m s 0"

definition kstrnlen :: "memory \<Rightarrow> nat \<Rightarrow> nat \<Rightarrow> nat" where
  "kstrnlen m s mx = (case find (\<lambda>n. m (s + n) = 0) [0..<mx] of Some n \<Rightarrow> n | None \<Rightarrow> mx)"

partial_function (option) kstrcmp :: "memory \<Rightarrow> nat \<Rightarrow> nat \<Rightarrow> int option" where
  "kstrcmp m a b =
     (if m a \<noteq> 0 \<and> m a = m b then kstrcmp m (a + 1) (b + 1)
      else Some (uint (m a) - uint (m b)))"

definition kstrncmp :: "memory \<Rightarrow> nat \<Rightarrow> nat \<Rightarrow> nat \<Rightarrow> int" where
  "kstrncmp m a b n =
     (case find (\<lambda>i. m (a + i) \<noteq> m (b + i) \<or> m (a + i) = 0) [0..<n] of
        Some i \<Rightarrow> (if m (a + i) \<noteq> m (b + i) then uint (m (a + i)) - uint (m (b + i)) else 0)
      | None \<Rightarrow> 0)"

definition lower :: "byte \<Rightarrow> byte" where
  "lower c = (if 65 \<le> c \<and> c \<le> 90 then c + 32 else c)"

definition kstrncasecmp :: "memory \<Rightarrow> nat \<Rightarrow> nat \<Rightarrow> nat \<Rightarrow> int" where
  "kstrncasecmp m a b n =
     (let ca = (\<lambda>i. if 65 \<le> m (a + i) \<and> m (a + i) \<le> 90 then m (a + i) - 65 + 97 else m (a + i));
          cb = (\<lambda>i. if 65 \<le> m (b + i) \<and> m (b + i) \<le> 90 then m (b + i) - 65 + 97 else m (b + i))
      in case find (\<lambda>i. ca i \<noteq> cb i \<or> ca i = 0) [0..<n] of
           Some i \<Rightarrow> (if ca i \<noteq> cb i then uint (ca i) - uint (cb i) else 0)
         | None \<Rightarrow> 0)"

partial_function (option) kstricmp :: "memory \<Rightarrow> nat \<Rightarrow> nat \<Rightarrow> int option" where
  "kstricmp m a b =
     (if m a \<noteq> 0 \<and> lower (m a) = lower (m b) then kstricmp m (a + 1) (b + 1)
      else Some (uint (lower (m a)) - uint (lower (m b))))"

section \<open>Copying and joining strings\<close>

partial_function (option) strcpy_loop :: "memory \<Rightarrow> nat \<Rightarrow> nat \<Rightarrow> memory option" where
  "strcpy_loop m out src =
     (if m src \<noteq> 0 then strcpy_loop (m(out := m src)) (out + 1) (src + 1)
      else Some (m(out := m src)))"

definition kstrcpy :: "memory \<Rightarrow> nat \<Rightarrow> nat \<Rightarrow> memory option" where
  "kstrcpy m dst src = strcpy_loop m dst src"

function strlcpy_loop :: "memory \<Rightarrow> nat \<Rightarrow> nat \<Rightarrow> nat \<Rightarrow> nat \<Rightarrow> memory" where
  "strlcpy_loop m dst src sz i =
     (if i + 1 < sz \<and> m (src + i) \<noteq> 0
      then strlcpy_loop (m(dst + i := m (src + i))) dst src sz (i + 1)
      else m(dst + i := 0))"
  by pat_completeness auto
termination
  by (relation "measure (\<lambda>(m, dst, src, sz, i). sz - i)") auto

definition kstrlcpy :: "memory \<Rightarrow> nat \<Rightarrow> nat \<Rightarrow> nat \<Rightarrow> memory" where
  "kstrlcpy m dst src sz = (if sz = 0 then m else strlcpy_loop m dst src sz 0)"

definition kstrcat :: "memory \<Rightarrow> nat \<Rightarrow> nat \<Rightarrow> memory option" where
  "kstrcat m dst src =
     (case kstrlen m dst of None \<Rightarrow> None | Some n \<Rightarrow> strcpy_loop m (dst + n) src)"

section \<open>Searching\<close>

partial_function (option) kstrchr :: "memory \<Rightarrow> nat \<Rightarrow> byte \<Rightarrow> nat option option" where
  "kstrchr m s c =
     (if m s = c then Some (Some s)
      else if m s = 0 then Some None
      else kstrchr m (s + 1) c)"

partial_function (option) strrchr_loop ::
    "memory \<Rightarrow> nat \<Rightarrow> byte \<Rightarrow> nat option \<Rightarrow> nat option option" where
  "strrchr_loop m s c found =
     (if m s = 0 then Some (if m s = c then Some s else found)
      else strrchr_loop m (s + 1) c (if m s = c then Some s else found))"

definition kstrrchr :: "memory \<Rightarrow> nat \<Rightarrow> byte \<Rightarrow> nat option option" where
  "kstrrchr m s c = strrchr_loop m s c None"

partial_function (option) strstr_match :: "memory \<Rightarrow> nat \<Rightarrow> nat \<Rightarrow> nat option" where
  "strstr_match m h n =
     (if m h \<noteq> 0 \<and> m n \<noteq> 0 \<and> m h = m n then strstr_match m (h + 1) (n + 1) else Some n)"

partial_function (option) strstr_loop :: "memory \<Rightarrow> nat \<Rightarrow> nat \<Rightarrow> nat option option" where
  "strstr_loop m haystack needle =
     (if m haystack = 0 then Some None
      else Option.bind (strstr_match m haystack needle)
        (\<lambda>n. if m n = 0 then Some (Some haystack) else strstr_loop m (haystack + 1) needle))"

definition kstrstr :: "memory \<Rightarrow> nat \<Rightarrow> nat \<Rightarrow> nat option option" where
  "kstrstr m haystack needle =
     (if m needle = 0 then Some (Some haystack) else strstr_loop m haystack needle)"

definition kstr_ends_with_ci :: "memory \<Rightarrow> nat \<Rightarrow> nat \<Rightarrow> bool option" where
  "kstr_ends_with_ci m s suffix =
     (case kstrlen m s of None \<Rightarrow> None | Some l1 \<Rightarrow>
      case kstrlen m suffix of None \<Rightarrow> None | Some l2 \<Rightarrow>
        (let ls = l1 mod 2 ^ 32; lx = l2 mod 2 ^ 32
         in if lx > ls then Some False
            else case kstricmp m (s + (ls - lx)) suffix of
                   None \<Rightarrow> None | Some r \<Rightarrow> Some (r = 0)))"

section \<open>Numbers\<close>

fun dec_digits :: "nat \<Rightarrow> byte list" where
  "dec_digits value =
     (if value > 0 then of_nat (48 + value mod 10) # dec_digits (value div 10) else [])"

definition ku32_to_dec :: "memory \<Rightarrow> u32 \<Rightarrow> nat \<Rightarrow> nat \<times> memory" where
  "ku32_to_dec m value out =
     (let tmp = (if value = 0 then [48] else dec_digits (unat value));
          i = length tmp
      in (i, write_bytes m out (map (\<lambda>j. tmp ! (i - 1 - j)) [0..<i] @ [0])))"

definition hex_digit :: "bool \<Rightarrow> nat \<Rightarrow> byte" where
  "hex_digit uppercase d =
     (if d < 10 then of_nat (48 + d) else of_nat ((if uppercase then 65 else 97) + (d - 10)))"

fun hex_digits :: "bool \<Rightarrow> nat \<Rightarrow> byte list" where
  "hex_digits up value =
     (if value > 0 then hex_digit up (value mod 16) # hex_digits up (value div 16) else [])"

definition ku32_to_hex :: "memory \<Rightarrow> u32 \<Rightarrow> nat \<Rightarrow> bool \<Rightarrow> int \<Rightarrow> nat \<times> memory" where
  "ku32_to_hex m value out uppercase width =
     (let tmp = (if value = 0 then [48] else hex_digits uppercase (unat value));
          i = length tmp;
          pad = (if width > int i then nat (width - int i) else 0)
      in (pad + i,
          write_bytes m out (replicate pad 48 @ map (\<lambda>j. tmp ! (i - 1 - j)) [0..<i] @ [0])))"

text \<open>\<open>divl\<close>: \<open>None\<close> is the divide error, raised for a zero divisor and for a quotient that
  does not fit 32 bits.\<close>

definition kdiv_hi_lo :: "u32 \<Rightarrow> u32 \<Rightarrow> u32 \<Rightarrow> (u32 \<times> u32) option" where
  "kdiv_hi_lo hi lo divisor =
     (let dividend = unat hi * 2 ^ 32 + unat lo; q = dividend div unat divisor
      in if divisor = 0 \<or> q \<ge> 2 ^ 32 then None
         else Some (of_nat q, of_nat (dividend mod unat divisor)))"

definition kdiv64 :: "u64 \<Rightarrow> u32 \<Rightarrow> (u64 \<times> u32) option" where
  "kdiv64 value divisor =
     (let hi = (ucast (drop_bit 32 value) :: u32); lo = (ucast value :: u32)
      in case kdiv_hi_lo 0 hi divisor of None \<Rightarrow> None
         | Some (q_hi, rem1) \<Rightarrow>
           (case kdiv_hi_lo rem1 lo divisor of None \<Rightarrow> None
            | Some (q_lo, rem2) \<Rightarrow> Some (push_bit 32 (ucast q_hi) OR ucast q_lo, rem2)))"

text \<open>Signed overflow is undefined in C: \<open>None\<close> covers it as well as a run of digits that
  never ends.\<close>

partial_function (option) skip_blanks :: "memory \<Rightarrow> nat \<Rightarrow> nat option" where
  "skip_blanks m s = (if m s = 32 \<or> m s = 9 then skip_blanks m (s + 1) else Some s)"

partial_function (option) digits_loop :: "memory \<Rightarrow> nat \<Rightarrow> int \<Rightarrow> int option" where
  "digits_loop m s v =
     (if 48 \<le> m s \<and> m s \<le> 57
      then (let v' = v * 10 + (uint (m s) - 48)
            in if v' < 2 ^ 31 then digits_loop m (s + 1) v' else None)
      else Some v)"

definition kstr_to_int :: "memory \<Rightarrow> nat \<Rightarrow> int option" where
  "kstr_to_int m s =
     (case skip_blanks m s of None \<Rightarrow> None | Some s1 \<Rightarrow>
        (let neg = (m s1 = 45);
             s2 = (if m s1 = 45 then s1 + 1 else if m s1 = 43 then s1 + 1 else s1)
         in case digits_loop m s2 0 of None \<Rightarrow> None
            | Some v \<Rightarrow> Some (if neg then - v else v)))"

declare dec_digits.simps [simp del] hex_digits.simps [simp del] strlcpy_loop.simps [simp del]

section \<open>Copying and filling: correctness\<close>

lemma rep_movs_disjoint:
  assumes "d + w * c \<le> s \<or> s + w * c \<le> d"
  shows "rep_movs w c m d s = (write_bytes m d (bytes_at m s (w * c)), d + w * c, s + w * c)"
  using assms
proof (induction c arbitrary: m d s)
  case 0
  then show ?case by simp
next
  case (Suc c)
  let ?m = "write_bytes m d (bytes_at m s w)"
  have disj: "d + w + w * c \<le> s + w \<or> s + w + w * c \<le> d + w"
    using Suc.prems by auto
  have same: "bytes_at ?m (s + w) (w * c) = bytes_at m (s + w) (w * c)"
    using Suc.prems by (intro bytes_at_write_disjoint) auto
  have "bytes_at m s (w * Suc c) = bytes_at m s w @ bytes_at m (s + w) (w * c)"
    using bytes_at_split [of w "w * Suc c" m s] by simp
  then show ?case
    using Suc.IH [OF disj, of ?m] write_bytes_append [of m d "bytes_at m s w" "bytes_at m (s + w) (w * c)"]
    by (simp add: same add.assoc)
qed

lemma kmemcpy_disjoint:
  assumes "dst + n \<le> src \<or> src + n \<le> dst"
  shows "kmemcpy m dst src n = write_bytes m dst (bytes_at m src n)"
proof -
  let ?w = "8 * (n div 8)" and ?r = "n mod 8"
  have n: "?w + ?r = n" by simp
  let ?m = "write_bytes m dst (bytes_at m src ?w)"
  have one: "rep_movs 8 (n div 8) m dst src = (?m, dst + ?w, src + ?w)"
    using assms n by (intro rep_movs_disjoint) arith
  have "rep_movs 1 ?r ?m (dst + ?w) (src + ?w)
      = (write_bytes ?m (dst + ?w) (bytes_at ?m (src + ?w) (1 * ?r)), dst + ?w + 1 * ?r, src + ?w + 1 * ?r)"
    using assms n by (intro rep_movs_disjoint) arith
  moreover have "bytes_at ?m (src + ?w) ?r = bytes_at m (src + ?w) ?r"
    using assms n by (intro bytes_at_write_disjoint) (simp, arith)
  moreover have "bytes_at m src n = bytes_at m src ?w @ bytes_at m (src + ?w) ?r"
    using bytes_at_split [of ?w n m src] n by (metis add_diff_cancel_left' le_add1)
  ultimately show ?thesis
    using one write_bytes_append [of m dst "bytes_at m src ?w" "bytes_at m (src + ?w) ?r"]
    by (simp add: kmemcpy_def)
qed

lemma move_up:
  assumes "d < s"
  shows "fold (\<lambda>i m. m(d + i := m (s + i))) [0..<n] m = write_bytes m d (bytes_at m s n)"
proof (induction n)
  case (Suc n)
  have "write_bytes m d (bytes_at m s n) (s + n) = m (s + n)"
    using assms by (simp add: write_bytes_def)
  moreover have "bytes_at m s (Suc n) = bytes_at m s n @ [m (s + n)]"
    by (simp add: bytes_at_def)
  ultimately show ?case
    using Suc write_bytes_append [of m d "bytes_at m s n" "[m (s + n)]"]
    by (simp add: write_bytes_upd)
qed simp

lemma move_down:
  assumes "s < d" and "k \<le> n"
  shows "fold (\<lambda>i m. m(d + (i - 1) := m (s + (i - 1)))) (rev [Suc k..<Suc n]) m
       = write_bytes m (d + k) (bytes_at m (s + k) (n - k))"
  using assms(2)
proof (induction k rule: inc_induct)
  case base
  then show ?case by simp
next
  case (step k)
  let ?m = "write_bytes m (d + Suc k) (bytes_at m (s + Suc k) (n - Suc k))"
  have rd: "?m (s + k) = m (s + k)"
    using assms by (simp add: write_bytes_def)
  have up: "[Suc k..<Suc n] = Suc k # [Suc (Suc k)..<Suc n]"
    using step by (simp add: upt_rec)
  have nk: "n - k = Suc (n - Suc k)" using step by simp
  have "?m(d + k := m (s + k)) = write_bytes m (d + k) (bytes_at m (s + k) (n - k))"
    by (rule ext) (auto simp: nk bytes_at_Suc write_bytes_def nth_Cons' split: nat.splits)
  moreover have "fold f (rev (Suc k # ks)) m' = f (Suc k) (fold f (rev ks) m')"
    for f :: "nat \<Rightarrow> memory \<Rightarrow> memory" and ks m' by simp
  ultimately show ?case unfolding up step.IH by (simp only: step.IH rd diff_Suc_1)
qed

lemma kmemmove_eq: "kmemmove m d s n = write_bytes m d (bytes_at m s n)"
proof -
  consider "d = s" | "d < s" | "s < d" by linarith
  then show ?thesis
  proof cases
    case 1
    then have "write_bytes m d (bytes_at m s n) = m"
      by (auto simp: write_bytes_def fun_eq_iff)
    with 1 show ?thesis by (simp add: kmemmove_def)
  next
    case 2
    then show ?thesis by (simp add: kmemmove_def move_up)
  next
    case 3
    then show ?thesis using move_down [of s d 0 n m] by (auto simp: kmemmove_def)
  qed
qed

lemma rep_stos_replicate:
  "pat = replicate w v \<Longrightarrow> rep_stos pat c m d = (write_bytes m d (replicate (w * c) v), d + w * c)"
proof (induction c arbitrary: m d)
  case (Suc c)
  then show ?case
    using write_bytes_append [of m d "replicate w v" "replicate (w * c) v"]
    by (simp add: replicate_add [symmetric] add.assoc)
qed simp

lemma spread_step:
  fixes v :: nat
  assumes "v < 256" and "v * B < P" and "K = P * (256 * A + 1) + B"
  shows "v * K div P mod 256 = v"
proof -
  have "v * K = P * (v * (256 * A + 1)) + v * B"
    by (simp add: assms(3) algebra_simps)
  then have "v * K div P = v * (256 * A + 1)"
    using assms(2) by simp
  also have "\<dots> mod 256 = v"
  proof -
    have "v * (256 * A + 1) = v + 256 * (v * A)" by (simp add: algebra_simps)
    then show ?thesis using assms(1) by (simp only: mod_mult_self2 mod_less)
  qed
  finally show ?thesis .
qed

lemma spread_byte:
  fixes v :: nat
  assumes "v < 256" and "i < 8"
  shows "v * 72340172838076673 div 2 ^ (8 * i) mod 256 = v"
proof -
  consider "i = 0" | "i = 1" | "i = 2" | "i = 3" | "i = 4" | "i = 5" | "i = 6" | "i = 7"
    using assms(2) by linarith
  then show ?thesis
  proof cases
    case 1
    then show ?thesis using spread_step [of v 0 "2 ^ 0" 72340172838076673 282578800148737] assms(1) by simp
  next
    case 2
    then show ?thesis using spread_step [of v 1 "2 ^ 8" 72340172838076673 1103823438081] assms(1) by simp
  next
    case 3
    then show ?thesis using spread_step [of v 257 "2 ^ 16" 72340172838076673 4311810305] assms(1) by simp
  next
    case 4
    then show ?thesis using spread_step [of v 65793 "2 ^ 24" 72340172838076673 16843009] assms(1) by simp
  next
    case 5
    then show ?thesis using spread_step [of v 16843009 "2 ^ 32" 72340172838076673 65793] assms(1) by simp
  next
    case 6
    then show ?thesis using spread_step [of v 4311810305 "2 ^ 40" 72340172838076673 257] assms(1) by simp
  next
    case 7
    then show ?thesis using spread_step [of v 1103823438081 "2 ^ 48" 72340172838076673 1] assms(1) by simp
  next
    case 8
    then show ?thesis using spread_step [of v 282578800148737 "2 ^ 56" 72340172838076673 0] assms(1) by simp
  qed
qed

lemma word_bytes_spread:
  "word_bytes ((ucast v :: u64) * 72340172838076673) = replicate 8 v"
proof -
  have v: "unat v < 256" using unat_lt_8 [of v] by simp
  have p: "unat ((ucast v :: u64) * 72340172838076673) = unat v * 72340172838076673"
    using v by (simp add: unat_word_ariths unsigned_ucast_eq take_bit_nat_eq_self)
  have "ucast (drop_bit (8 * i) ((ucast v :: u64) * 72340172838076673)) = v" if "i < 8" for i
  proof -
    have "unat (ucast (drop_bit (8 * i) ((ucast v :: u64) * 72340172838076673)) :: byte)
        = unat v * 72340172838076673 div 2 ^ (8 * i) mod 256"
      by (simp add: unsigned_ucast_eq take_bit_eq_mod unat_drop_bit_eq p)
         (simp add: drop_bit_eq_div)
    then show ?thesis using spread_byte [OF v that] by (simp add: word_unat_eq_iff)
  qed
  then show ?thesis
    unfolding word_bytes_def by (intro nth_equalityI) auto
qed

lemma kmemset_eq: "kmemset m dst v n = write_bytes m dst (replicate n v)"
proof -
  let ?p = "(ucast v :: u64) * 72340172838076673"
  have "hd (word_bytes ?p) = v" by (simp add: word_bytes_spread)
  then have low: "[ucast ?p] = replicate 1 v"
    by (simp add: word_bytes_def upt_rec)
  have "rep_stos (word_bytes ?p) (n div 8) m dst
      = (write_bytes m dst (replicate (8 * (n div 8)) v), dst + 8 * (n div 8))"
    by (rule rep_stos_replicate [OF word_bytes_spread])
  moreover have "rep_stos [ucast ?p] (n mod 8) (write_bytes m dst (replicate (8 * (n div 8)) v)) (dst + 8 * (n div 8))
      = (write_bytes (write_bytes m dst (replicate (8 * (n div 8)) v)) (dst + 8 * (n div 8)) (replicate (1 * (n mod 8)) v),
         dst + 8 * (n div 8) + 1 * (n mod 8))"
    by (rule rep_stos_replicate [OF low])
  ultimately show ?thesis
    using write_bytes_append [of m dst "replicate (8 * (n div 8)) v" "replicate (n mod 8) v"]
    by (simp add: kmemset_def replicate_add [symmetric])
qed

section \<open>Strings: correctness\<close>

lemma strlen_loop_cstr: "cstr m (s + n) xs \<Longrightarrow> strlen_loop m s n = Some (n + length xs)"
proof (induction xs arbitrary: n)
  case Nil
  then show ?case by (subst strlen_loop.simps) simp
next
  case (Cons x xs)
  then have "strlen_loop m s (n + 1) = Some (n + 1 + length xs)" by simp
  with Cons.prems show ?case by (subst strlen_loop.simps) simp
qed

lemma kstrlen_cstr: "cstr m s xs \<Longrightarrow> kstrlen m s = Some (length xs)"
  using strlen_loop_cstr [of m s 0 xs] by (simp add: kstrlen_def)

lemma find_upt_Some:
  "find P [0..<n] = Some i \<longleftrightarrow> i < n \<and> P i \<and> (\<forall>j < i. \<not> P j)"
  by (auto simp: find_Some_iff)

lemma find_upt_None: "find P [0..<n] = None \<longleftrightarrow> (\<forall>i < n. \<not> P i)"
  by (auto simp: find_None_iff)

lemma kstrnlen_cstr: "cstr m s xs \<Longrightarrow> kstrnlen m s n = min n (length xs)"
proof -
  assume c: "cstr m s xs"
  show ?thesis
  proof (cases "length xs < n")
    case True
    have "find (\<lambda>k. m (s + k) = 0) [0..<n] = Some (length xs)"
      using c True cstr_end cstr_nth_nonzero by (simp add: find_upt_Some)
    with True show ?thesis by (simp add: kstrnlen_def)
  next
    case False
    then have "find (\<lambda>k. m (s + k) = 0) [0..<n] = None"
      using c cstr_nth_nonzero by (simp add: find_upt_None)
    with False show ?thesis by (simp add: kstrnlen_def)
  qed
qed

lemma find_map_opt: "find P (map f xs) = map_option f (find (P \<circ> f) xs)"
  by (induction xs) auto

lemma find_upt_Suc:
  "find P [0..<Suc n] = (if P 0 then Some 0 else map_option Suc (find (\<lambda>i. P (Suc i)) [0..<n]))"
proof -
  have "[0..<Suc n] = 0 # map Suc [0..<n]"
    by (metis map_Suc_upt upt_conv_Cons zero_less_Suc)
  then show ?thesis by (simp add: find_map_opt comp_def del: upt_Suc)
qed

lemma uint_eq [simp]: "(uint a = uint b) = (a = b)" for a b :: byte
  by (simp add: word_uint_eq_iff)

lemma uint_is_0 [simp]: "(uint w = 0) = (w = 0)" for w :: byte
  using uint_eq [of w 0] by simp

lemma uint_pos [simp]: "(0 < uint w) = (w \<noteq> 0)" for w :: byte
  by (simp add: order_less_le eq_commute [of 0])

text \<open>The order \<open>strcmp\<close> decides: lexicographic on unsigned bytes, a proper prefix first.\<close>

definition byte_less :: "(byte \<times> byte) set" where
  "byte_less = {(x, y). x < y}"

lemma kstrcmp_cstr:
  assumes "cstr m a xs" and "cstr m b ys"
  shows "\<exists>r. kstrcmp m a b = Some r \<and> (r = 0 \<longleftrightarrow> xs = ys)
             \<and> (r < 0 \<longleftrightarrow> (xs, ys) \<in> lexord byte_less)"
  using assms
proof (induction xs arbitrary: a b ys)
  case Nil
  then show ?case
    by (cases ys) (subst kstrcmp.simps; auto simp: byte_less_def word_less_def)+
next
  case (Cons x xs)
  show ?case
  proof (cases ys)
    case Nil
    then show ?thesis
      using Cons.prems by (subst kstrcmp.simps) (auto simp: byte_less_def not_less)
  next
    case (Cons y zs)
    show ?thesis
    proof (cases "x = y")
      case True
      then show ?thesis
        using Cons.IH [of "Suc a" "Suc b" zs] Cons.prems \<open>ys = y # zs\<close>
        by (subst kstrcmp.simps) (auto simp: byte_less_def)
    next
      case False
      then show ?thesis
        using Cons.prems \<open>ys = y # zs\<close>
        by (subst kstrcmp.simps) (auto simp: byte_less_def word_less_def)
    qed
  qed
qed

lemma kstrncmp_0 [simp]: "kstrncmp m a b 0 = 0"
  by (simp add: kstrncmp_def)

lemma kstrncmp_Suc:
  "kstrncmp m a b (Suc n) =
     (if m a \<noteq> m b then uint (m a) - uint (m b)
      else if m a = 0 then 0 else kstrncmp m (Suc a) (Suc b) n)"
  by (simp add: kstrncmp_def find_upt_Suc del: upt_Suc split: option.splits)

lemma kstrncmp_eq_0:
  "cstr m a xs \<Longrightarrow> cstr m b ys \<Longrightarrow> kstrncmp m a b n = 0 \<longleftrightarrow> take n xs = take n ys"
proof (induction n arbitrary: a b xs ys)
  case (Suc n)
  then show ?case
    by (cases xs; cases ys) (auto simp: kstrncmp_Suc)
qed simp

lemma kmemcmp_0 [simp]: "kmemcmp m a b 0 = 0"
  by (simp add: kmemcmp_def)

lemma kmemcmp_Suc:
  "kmemcmp m a b (Suc n) =
     (if m a \<noteq> m b then uint (m a) - uint (m b) else kmemcmp m (Suc a) (Suc b) n)"
  by (simp add: kmemcmp_def find_upt_Suc del: upt_Suc split: option.splits)

lemma kmemcmp_spec:
  "(kmemcmp m a b n = 0 \<longleftrightarrow> bytes_at m a n = bytes_at m b n)
   \<and> (kmemcmp m a b n < 0 \<longleftrightarrow> (bytes_at m a n, bytes_at m b n) \<in> lexord byte_less)"
proof (induction n arbitrary: a b)
  case (Suc n)
  then show ?case
    by (auto simp: kmemcmp_Suc bytes_at_Suc byte_less_def word_less_def)
qed simp

lemma strcpy_loop_cstr:
  assumes "cstr m src xs" and "out + length xs < src \<or> src + length xs < out"
  shows "strcpy_loop m out src = Some (write_bytes m out (xs @ [0]))"
  using assms
proof (induction xs arbitrary: m out src)
  case Nil
  then show ?case by (subst strcpy_loop.simps) (simp add: write_bytes_upd)
next
  case (Cons x xs)
  let ?m = "m(out := x)"
  have "cstr ?m (Suc src) xs"
    by (rule cstr_frame [of m]) (use Cons.prems in auto)
  then have "strcpy_loop ?m (Suc out) (Suc src) = Some (write_bytes ?m (Suc out) (xs @ [0]))"
    using Cons.prems(2) by (intro Cons.IH) (auto simp: fun_upd_def)
  moreover have "write_bytes ?m (Suc out) (xs @ [0]) = write_bytes m out ((x # xs) @ [0])"
    using write_bytes_append [of m out "[x]" "xs @ [0]"] by (simp add: write_bytes_upd)
  ultimately show ?case
    using Cons.prems(1) by (subst strcpy_loop.simps) (simp add: fun_upd_def)
qed

lemma strlcpy_loop_cstr:
  assumes "cstr m (src + i) xs" and "i < sz" and "dst + sz \<le> src \<or> src + i + length xs < dst"
  shows "strlcpy_loop m dst src sz i = write_bytes m (dst + i) (take (sz - 1 - i) xs @ [0])"
  using assms
proof (induction xs arbitrary: m i)
  case Nil
  then show ?case by (subst strlcpy_loop.simps) (simp add: write_bytes_upd)
next
  case (Cons x xs)
  show ?case
  proof (cases "i + 1 < sz")
    case True
    let ?m = "m(dst + i := x)"
    have "cstr ?m (src + Suc i) xs"
      by (rule cstr_frame [of m]) (use Cons.prems True in auto)
    then have "strlcpy_loop ?m dst src sz (Suc i)
        = write_bytes ?m (dst + Suc i) (take (sz - 1 - Suc i) xs @ [0])"
      using Cons.prems True by (intro Cons.IH) (auto simp: fun_upd_def)
    moreover have "write_bytes ?m (dst + Suc i) (take (sz - 1 - Suc i) xs @ [0])
        = write_bytes m (dst + i) (take (sz - 1 - i) (x # xs) @ [0])"
    proof -
      have "sz - 1 - i = Suc (sz - 1 - Suc i)" using True by simp
      then show ?thesis
        using write_bytes_append [of m "dst + i" "[x]" "take (sz - 1 - Suc i) xs @ [0]"]
        by (simp add: write_bytes_upd)
    qed
    ultimately show ?thesis
      using Cons.prems(1) True by (subst strlcpy_loop.simps) simp
  next
    case False
    then show ?thesis
      using Cons.prems by (subst strlcpy_loop.simps) (simp add: write_bytes_upd)
  qed
qed

lemma kstrlcpy_cstr:
  assumes "cstr m src xs" and "0 < sz" and "dst + sz \<le> src \<or> src + length xs < dst"
  shows "kstrlcpy m dst src sz = write_bytes m dst (take (sz - 1) xs @ [0])"
  using strlcpy_loop_cstr [of m src 0 xs sz dst] assms by (simp add: kstrlcpy_def)

lemma kstrlcpy_result:
  assumes "cstr m src xs" and "0 < sz" and "dst + sz \<le> src \<or> src + length xs < dst"
  shows "cstr (kstrlcpy m dst src sz) dst (take (sz - 1) xs)
       \<and> (\<forall>i. i < dst \<or> dst + sz \<le> i \<longrightarrow> kstrlcpy m dst src sz i = m i)"
proof -
  have "0 \<notin> set (take (sz - 1) xs)"
    using assms(1) by (meson cstr_conv in_set_takeD)
  then show ?thesis
    unfolding kstrlcpy_cstr [OF assms] using assms(2)
    by (auto intro: cstr_write_bytes write_bytes_out)
qed

lemma kstrcat_cstr:
  assumes "cstr m dst xs" and "cstr m src ys"
    and "dst + length xs + length ys < src \<or> src + length ys < dst"
  shows "\<exists>m'. kstrcat m dst src = Some m' \<and> cstr m' dst (xs @ ys)"
proof -
  let ?m = "write_bytes m (dst + length xs) (ys @ [0])"
  have "strcpy_loop m (dst + length xs) src = Some ?m"
    using assms by (intro strcpy_loop_cstr) auto
  then have "kstrcat m dst src = Some ?m"
    by (simp add: kstrcat_def kstrlen_cstr [OF assms(1)])
  moreover have "cstr ?m dst (xs @ ys)"
  proof -
    have "bytes_at ?m dst (length (xs @ ys)) = xs @ ys"
      using assms(1) by (intro nth_equalityI) (auto simp: write_bytes_def nth_append cstr_nth)
    moreover have "?m (dst + length (xs @ ys)) = 0"
      by (simp add: write_bytes_def nth_append)
    moreover have "0 \<notin> set (xs @ ys)"
      using assms(1,2) by (simp add: cstr_conv)
    ultimately show ?thesis by (simp add: cstr_conv)
  qed
  ultimately show ?thesis by blast
qed

section \<open>Searching: correctness\<close>

lemma kstrchr_cstr:
  "cstr m s xs \<Longrightarrow> c \<noteq> 0 \<Longrightarrow>
     kstrchr m s c = Some (map_option (\<lambda>i. s + i) (find (\<lambda>i. xs ! i = c) [0..<length xs]))"
proof (induction xs arbitrary: s)
  case Nil
  then show ?case by (subst kstrchr.simps) simp
next
  case (Cons x xs)
  have "find (\<lambda>i. (x # xs) ! i = c) [0..<length (x # xs)]
      = (if x = c then Some 0 else map_option Suc (find (\<lambda>i. xs ! i = c) [0..<length xs]))"
    using find_upt_Suc [of "\<lambda>i. (x # xs) ! i = c" "length xs"] by (simp del: upt_Suc)
  then show ?case
    using Cons by (subst kstrchr.simps) (auto simp: option.map_comp comp_def simp del: upt_Suc intro!: option.map_cong)
qed

lemma strrchr_loop_cstr:
  "cstr m s xs \<Longrightarrow> c \<noteq> 0 \<Longrightarrow>
     strrchr_loop m s c found
     = Some (case find (\<lambda>i. xs ! i = c) (rev [0..<length xs]) of Some i \<Rightarrow> Some (s + i) | None \<Rightarrow> found)"
proof (induction xs arbitrary: s found)
  case Nil
  then show ?case by (subst strrchr_loop.simps) simp
next
  case (Cons x xs)
  have up: "rev [0..<length (x # xs)] = map Suc (rev [0..<length xs]) @ [0]"
    by (metis length_Cons map_Suc_upt rev.simps(2) rev_map upt_conv_Cons zero_less_Suc)
  have app: "find P (as @ bs) = (case find P as of Some r \<Rightarrow> Some r | None \<Rightarrow> find P bs)"
    for P and as bs :: "nat list"
    by (induction as) auto
  have fd: "find (\<lambda>i. (x # xs) ! i = c) (rev [0..<length (x # xs)])
      = (case find (\<lambda>i. xs ! i = c) (rev [0..<length xs]) of
           Some i \<Rightarrow> Some (Suc i) | None \<Rightarrow> if x = c then Some 0 else None)"
    unfolding up app by (simp add: find_map_opt comp_def split: option.splits)
  show ?case
    unfolding fd using Cons by (subst strrchr_loop.simps) (auto split: option.splits)
qed

lemma strstr_match_cstr:
  assumes "cstr m h xs" and "cstr m n ys"
  shows "\<exists>k. strstr_match m h n = Some k \<and> (m k = 0 \<longleftrightarrow> (\<exists>zs. xs = ys @ zs))"
  using assms
proof (induction ys arbitrary: h n xs)
  case Nil
  then show ?case by (subst strstr_match.simps) auto
next
  case (Cons y ys)
  show ?case
  proof (cases xs)
    case Nil
    then show ?thesis using Cons.prems by (subst strstr_match.simps) auto
  next
    case (Cons x ws)
    then show ?thesis
      using Cons.IH [of "Suc h" ws "Suc n"] Cons.prems by (subst strstr_match.simps) auto
  qed
qed

lemma kstrstr_cstr:
  assumes "cstr m h xs" and "cstr m n ys"
  shows "kstrstr m h n
       = Some (map_option (\<lambda>i. h + i) (find (\<lambda>i. \<exists>zs. drop i xs = ys @ zs) [0..<Suc (length xs)]))"
proof (cases "ys = []")
  case True
  then show ?thesis
    using assms find_upt_Suc [of "\<lambda>i. \<exists>zs. drop i xs = ys @ zs" "length xs"]
    by (simp add: kstrstr_def del: upt_Suc)
next
  case False
  have "strstr_loop m h n
       = Some (map_option (\<lambda>i. h + i) (find (\<lambda>i. \<exists>zs. drop i xs = ys @ zs) [0..<Suc (length xs)]))"
    using assms
  proof (induction xs arbitrary: h)
    case Nil
    then show ?case using False by (subst strstr_loop.simps) simp
  next
    case (Cons x xs)
    have fd: "find (\<lambda>i. \<exists>zs. drop i (x # xs) = ys @ zs) [0..<Suc (length (x # xs))]
        = (if \<exists>zs. x # xs = ys @ zs then Some 0
           else map_option Suc (find (\<lambda>i. \<exists>zs. drop i xs = ys @ zs) [0..<Suc (length xs)]))"
      using find_upt_Suc [of "\<lambda>i. \<exists>zs. drop i (x # xs) = ys @ zs" "Suc (length xs)"]
      by (simp del: upt_Suc)
    obtain k where k: "strstr_match m h n = Some k" "m k = 0 \<longleftrightarrow> (\<exists>zs. x # xs = ys @ zs)"
      using strstr_match_cstr [OF Cons.prems] by blast
    have "cstr m (Suc h) xs" using Cons.prems(1) by simp
    then have IH: "strstr_loop m (Suc h) n
       = Some (map_option (\<lambda>i. Suc h + i) (find (\<lambda>i. \<exists>zs. drop i xs = ys @ zs) [0..<Suc (length xs)]))"
      using Cons.IH Cons.prems(2) by blast
    show ?case
      unfolding fd using Cons.prems k IH
      by (subst strstr_loop.simps) (simp add: option.map_comp comp_def del: upt_Suc)
  qed
  moreover have "m n \<noteq> 0" using False assms(2) by (cases ys) auto
  ultimately show ?thesis by (simp add: kstrstr_def del: upt_Suc)
qed

section \<open>Numbers: correctness\<close>

lemma kdiv_hi_lo_ok:
  assumes "hi < divisor"
  shows "kdiv_hi_lo hi lo divisor
       = Some (of_nat ((unat hi * 2 ^ 32 + unat lo) div unat divisor),
               of_nat ((unat hi * 2 ^ 32 + unat lo) mod unat divisor))"
proof -
  let ?d = "unat divisor"
  have lt: "unat hi < ?d" using assms by (simp add: word_less_nat_alt)
  have lo: "unat lo < 2 ^ 32" using unat_lt_32 [of lo] by simp
  have "unat hi * 2 ^ 32 + unat lo < Suc (unat hi) * 2 ^ 32" using lo by simp
  also have "\<dots> \<le> ?d * 2 ^ 32" using lt by (intro mult_right_mono) simp_all
  finally have "(unat hi * 2 ^ 32 + unat lo) div ?d < 2 ^ 32"
    using lt by (simp add: less_mult_imp_div_less mult.commute)
  moreover have "divisor \<noteq> 0" using lt by auto
  ultimately show ?thesis by (simp add: kdiv_hi_lo_def Let_def)
qed

lemma unat_push_or:
  fixes a b :: u32
  shows "unat (push_bit 32 (ucast a) OR ucast b :: u64) = unat a * 2 ^ 32 + unat b"
proof -
  have "push_bit 32 (ucast a :: u64) AND ucast b = 0"
    by (rule bit_word_eqI) (auto simp: bit_simps dest: bit_imp_le_length)
  then have "push_bit 32 (ucast a :: u64) OR ucast b = push_bit 32 (ucast a) + ucast b"
    by (simp add: disjunctive_add_eq_or)
  moreover have "unat (push_bit 32 (ucast a :: u64)) = unat a * 2 ^ 32"
  proof -
    have "unat a * 2 ^ 32 < 2 ^ 64" using unat_lt_32 [of a] by simp
    then show ?thesis
      by (simp add: push_bit_eq_mult unat_word_ariths unsigned_ucast_eq take_bit_nat_eq_self)
  qed
  moreover have "unat (ucast b :: u64) = unat b"
    by (simp add: unsigned_ucast_eq take_bit_nat_eq_self order_less_trans [OF unsigned_less])
  moreover have "unat a * 2 ^ 32 + unat b < 2 ^ 64"
    using unat_lt_32 [of a] unat_lt_32 [of b] by simp
  ultimately show ?thesis by (simp add: unat_word_ariths)
qed

lemma two_step_division:
  fixes h l d :: nat
  shows "(h * B + l) div d = (h div d) * B + ((h mod d) * B + l) div d"
    and "(h * B + l) mod d = ((h mod d) * B + l) mod d"
proof -
  have split: "h * B + l = ((h mod d) * B + l) + d * ((h div d) * B)"
  proof -
    have "h * B = (d * (h div d) + h mod d) * B" by (simp only: mult_div_mod_eq)
    then show ?thesis by (simp only: distrib_right mult.assoc add.assoc add.commute)
  qed
  show "(h * B + l) div d = (h div d) * B + ((h mod d) * B + l) div d"
    by (cases "d = 0") (simp, subst split, simp)
  show "(h * B + l) mod d = ((h mod d) * B + l) mod d"
    by (subst split) simp
qed

lemma kdiv64_spec:
  assumes "divisor \<noteq> 0"
  shows "\<exists>q r. kdiv64 value divisor = Some (q, r)
             \<and> unat q = unat value div unat divisor \<and> unat r = unat value mod unat divisor"
proof -
  let ?hi = "ucast (drop_bit 32 value) :: u32" and ?lo = "ucast value :: u32"
  let ?d = "unat divisor" and ?h = "unat value div 2 ^ 32" and ?l = "unat value mod 2 ^ 32"
  have d: "0 < ?d" "?d < 2 ^ 32" using assms unat_lt_32 [of divisor] by (auto simp: unat_gt_0)
  have lt: "unat value < 2 ^ 64" using unat_lt_64 [of "value"] by simp
  have hb: "?h < 2 ^ 32" using lt by (simp add: less_mult_imp_div_less)
  have hi: "unat ?hi = ?h"
    using hb by (simp add: unsigned_ucast_eq unat_drop_bit_eq take_bit_nat_eq_self)
      (simp add: drop_bit_eq_div take_bit_nat_eq_self)
  have lo: "unat ?lo = ?l"
    by (simp add: unsigned_ucast_eq take_bit_eq_mod)
  have fit: "unat (of_nat k :: u32) = k" if "k < 2 ^ 32" for k
    using that by (simp add: unat_of_nat take_bit_nat_eq_self)
  define r1 where "r1 = (of_nat (?h mod ?d) :: u32)"
  have r1: "unat r1 = ?h mod ?d"
    unfolding r1_def using d by (intro fit) (meson mod_less_divisor order_less_trans)
  have one: "kdiv_hi_lo 0 ?hi divisor = Some (of_nat (?h div ?d), r1)"
    using kdiv_hi_lo_ok [of 0 divisor ?hi] assms hi
    by (simp add: r1_def word_gt_0)
  have "r1 < divisor" using r1 d by (simp add: word_less_nat_alt)
  then have two: "kdiv_hi_lo r1 ?lo divisor
      = Some (of_nat ((?h mod ?d * 2 ^ 32 + ?l) div ?d), of_nat ((?h mod ?d * 2 ^ 32 + ?l) mod ?d))"
    using kdiv_hi_lo_ok [of r1 divisor ?lo] r1 lo by simp
  let ?q = "(?h mod ?d * 2 ^ 32 + ?l) div ?d" and ?r = "(?h mod ?d * 2 ^ 32 + ?l) mod ?d"
  have "?h mod ?d * 2 ^ 32 + ?l < Suc (?h mod ?d) * 2 ^ 32" by simp
  also have "\<dots> \<le> ?d * 2 ^ 32" using d by (intro mult_right_mono) (simp_all add: Suc_leI)
  finally have q: "?q < 2 ^ 32"
    using d by (simp add: less_mult_imp_div_less mult.commute)
  have r: "?r < 2 ^ 32" using d by (meson mod_less_divisor order_less_trans)
  have qh: "?h div ?d < 2 ^ 32" using hb by (meson div_le_dividend order_le_less_trans)
  have v: "unat value = ?h * 2 ^ 32 + ?l" by simp
  have "kdiv64 value divisor
      = Some (push_bit 32 (ucast (of_nat (?h div ?d) :: u32)) OR ucast (of_nat ?q :: u32), of_nat ?r)"
    using one two by (simp add: kdiv64_def)
  moreover have "unat (push_bit 32 (ucast (of_nat (?h div ?d) :: u32)) OR ucast (of_nat ?q :: u32) :: u64)
      = unat value div ?d"
    unfolding unat_push_or fit [OF q] fit [OF qh]
    using two_step_division(1) [of ?h "2 ^ 32" ?l ?d] v by simp
  moreover have "unat (of_nat ?r :: u32) = unat value mod ?d"
    unfolding fit [OF r] using two_step_division(2) [of ?h "2 ^ 32" ?l ?d] v by simp
  ultimately show ?thesis by blast
qed

definition dec_step :: "int \<Rightarrow> byte \<Rightarrow> int" where
  "dec_step v d = v * 10 + (uint d - 48)"

abbreviation is_digit :: "byte \<Rightarrow> bool" where
  "is_digit d \<equiv> 48 \<le> d \<and> d \<le> 57"

lemma is_digit_uint: "is_digit d \<Longrightarrow> 48 \<le> uint d \<and> uint d \<le> 57"
  by (simp add: word_le_def)

lemma foldl_dec_ge:
  "(\<forall>d \<in> set ds. is_digit d) \<Longrightarrow> 0 \<le> v \<Longrightarrow> v \<le> foldl dec_step v ds"
proof (induction ds arbitrary: v)
  case (Cons d ds)
  have "48 \<le> uint d" using Cons.prems(1) is_digit_uint [of d] by simp
  then have "v \<le> dec_step v d" "0 \<le> dec_step v d"
    using Cons.prems(2) by (auto simp: dec_step_def)
  then show ?case using Cons.IH [of "dec_step v d"] Cons.prems(1) by simp
qed simp

lemma digits_loop_cstr:
  "cstr m s ds \<Longrightarrow> (\<forall>d \<in> set ds. is_digit d) \<Longrightarrow> 0 \<le> v \<Longrightarrow> foldl dec_step v ds < 2 ^ 31 \<Longrightarrow>
     digits_loop m s v = Some (foldl dec_step v ds)"
proof (induction ds arbitrary: s v)
  case Nil
  then show ?case by (subst digits_loop.simps) simp
next
  case (Cons d ds)
  have d: "is_digit d" "48 \<le> uint d" using Cons.prems(2) is_digit_uint [of d] by auto
  have step: "0 \<le> dec_step v d" using d Cons.prems(3) by (simp add: dec_step_def)
  have "dec_step v d \<le> foldl dec_step (dec_step v d) ds"
    using Cons.prems(2) step by (intro foldl_dec_ge) auto
  then have lt: "dec_step v d < 2 ^ 31" using Cons.prems(4) by simp
  have IH: "digits_loop m (Suc s) (dec_step v d) = Some (foldl dec_step (dec_step v d) ds)"
    using Cons.prems step by (intro Cons.IH) auto
  show ?case
    using Cons.prems(1) d lt IH by (subst digits_loop.simps) (simp add: dec_step_def)
qed

lemma dec_digits_0 [simp]: "dec_digits 0 = []"
  by (subst dec_digits.simps) simp

lemma dec_digits_digit: "d \<in> set (dec_digits n) \<Longrightarrow> is_digit d"
proof (induction n rule: dec_digits.induct)
  case (1 n)
  have "is_digit (of_nat (48 + n mod 10))"
  proof -
    have k: "48 + n mod 10 < 58" by simp
    then have "unat (of_nat (48 + n mod 10) :: byte) = 48 + n mod 10"
      by (simp only: unat_of_nat) (simp add: take_bit_nat_eq_self)
    then show ?thesis using k by (simp only: word_le_nat_alt) simp
  qed
  then show ?case
    using 1 by (subst (asm) (2) dec_digits.simps) (auto split: if_splits)
qed

lemma dec_value: "foldl dec_step 0 (rev (dec_digits n)) = int n"
proof (induction n rule: dec_digits.induct)
  case (1 n)
  show ?case
  proof (cases "n = 0")
    case False
    have "uint (of_nat (48 + n mod 10) :: byte) = int (48 + n mod 10)"
    proof -
      have "48 + n mod 10 < 256" by simp
      then show ?thesis by (simp only: uint_nat unat_of_nat) (simp add: take_bit_nat_eq_self)
    qed
    moreover have "foldl dec_step 0 (rev (dec_digits (n div 10))) = int (n div 10)"
      using 1 False by simp
    moreover have "int (n div 10) * 10 + int (n mod 10) = int n" by presburger
    ultimately show ?thesis
      using False by (subst dec_digits.simps) (simp add: dec_step_def)
  qed simp
qed

lemma length_dec_digits: "n < 10 ^ k \<Longrightarrow> length (dec_digits n) \<le> k"
proof (induction k arbitrary: n)
  case (Suc k)
  have "n div 10 < 10 ^ k" using Suc.prems by (simp add: less_mult_imp_div_less mult.commute)
  then show ?case using Suc.IH [of "n div 10"] by (subst dec_digits.simps) simp
qed simp

lemma length_hex_digits: "n < 16 ^ k \<Longrightarrow> length (hex_digits up n) \<le> k"
proof (induction k arbitrary: n)
  case 0
  then show ?case by (subst hex_digits.simps) simp
next
  case (Suc k)
  have "n div 16 < 16 ^ k" using Suc.prems by (simp add: less_mult_imp_div_less mult.commute)
  then show ?case using Suc.IH [of "n div 16"] by (subst hex_digits.simps) simp
qed

lemma rev_via_index: "map (\<lambda>j. tmp ! (length tmp - 1 - j)) [0..<length tmp] = rev tmp"
  by (rule nth_equalityI) (auto simp: rev_nth)

definition dec_string :: "u32 \<Rightarrow> byte list" where
  "dec_string v = (if v = 0 then [48] else rev (dec_digits (unat v)))"

lemma ku32_to_dec_eq:
  "ku32_to_dec m v out = (length (dec_string v), write_bytes m out (dec_string v @ [0]))"
  using rev_via_index [of "if v = 0 then [48] else dec_digits (unat v)"]
  unfolding ku32_to_dec_def dec_string_def Let_def by (cases "v = 0") (simp_all only: if_True if_False simp_thms length_rev rev.simps append_Nil)

lemma dec_string_digits: "d \<in> set (dec_string v) \<Longrightarrow> is_digit d"
  by (auto simp: dec_string_def dest: dec_digits_digit split: if_splits)

lemma dec_string_value: "foldl dec_step 0 (dec_string v) = uint v"
  by (cases "v = 0") (simp_all add: dec_string_def dec_value dec_step_def)

lemma dec_string_length: "1 \<le> length (dec_string v) \<and> length (dec_string v) \<le> 10"
proof (cases "v = 0")
  case False
  have "unat v < 10 ^ 10" using unat_lt_32 [of v] by simp
  then have "length (dec_digits (unat v)) \<le> 10" by (rule length_dec_digits)
  moreover have "dec_digits (unat v) \<noteq> []"
    using False by (subst dec_digits.simps) (simp add: unat_gt_0)
  ultimately show ?thesis using False by (simp add: dec_string_def Suc_le_eq)
qed (simp add: dec_string_def)

lemma ku32_to_dec_cstr: "cstr (snd (ku32_to_dec m v out)) out (dec_string v)"
proof -
  have "0 \<notin> set (dec_string v)" using dec_string_digits [of 0 v] by auto
  then show ?thesis by (simp add: ku32_to_dec_eq cstr_write_bytes)
qed

lemma kstr_to_int_digits:
  assumes "cstr m s ds" and "\<forall>d \<in> set ds. is_digit d" and "ds \<noteq> []"
    and "foldl dec_step 0 ds < 2 ^ 31"
  shows "kstr_to_int m s = Some (foldl dec_step 0 ds)"
proof -
  obtain d es where ds: "ds = d # es" using assms(3) by (cases ds) auto
  then have d: "m s = d" "is_digit d" using assms(1,2) by auto
  have "d \<noteq> 32 \<and> d \<noteq> 9 \<and> d \<noteq> 45 \<and> d \<noteq> 43" using d(2) by auto
  then show ?thesis
    using d digits_loop_cstr [OF assms(1,2) _ assms(4)]
    by (simp add: kstr_to_int_def skip_blanks.simps)
qed

lemma kstrstr_occurrence:
  assumes "cstr m h xs" and "cstr m n ys"
  shows "\<exists>r. kstrstr m h n = Some r
     \<and> (case r of
          Some p \<Rightarrow> (\<exists>us vs. p = h + length us \<and> xs = us @ ys @ vs
                       \<and> (\<forall>us' vs'. xs = us' @ ys @ vs' \<longrightarrow> length us \<le> length us'))
        | None \<Rightarrow> \<not> (\<exists>us vs. xs = us @ ys @ vs))"
proof -
  let ?P = "\<lambda>i. \<exists>zs. drop i xs = ys @ zs"
  have P: "?P (length us)" "length us < Suc (length xs)" if "xs = us @ ys @ vs" for us vs
    using that by auto
  show ?thesis
  proof (cases "find ?P [0..<Suc (length xs)]")
    case None
    then have "\<not> (\<exists>us vs. xs = us @ ys @ vs)" using P unfolding find_upt_None by metis
    then show ?thesis using kstrstr_cstr [OF assms] None by simp
  next
    case (Some i)
    then have i: "i < Suc (length xs)" "?P i" "\<And>j. j < i \<Longrightarrow> \<not> ?P j" unfolding find_upt_Some by auto
    then obtain zs where "drop i xs = ys @ zs" by blast
    then have "xs = take i xs @ ys @ zs" by (metis append_take_drop_id)
    moreover have "length (take i xs) = i" using i(1) by simp
    moreover have "i \<le> length us'" if "xs = us' @ ys @ vs'" for us' vs'
      using P(1) [OF that] i(3) [of "length us'"] by (meson not_le)
    moreover have "kstrstr m h n = Some (Some (h + i))" using kstrstr_cstr [OF assms] Some by simp
    ultimately show ?thesis by (simp only: option.inject ex_simps option.case simp_thms) metis
  qed
qed

section \<open>Properties\<close>

text \<open>\<open>kmemmove\<close> is correct for every overlap: afterwards the destination holds the bytes the
  source held before the call, and no byte outside the destination changes.\<close>

theorem kmemmove_any_overlap:
  "bytes_at (kmemmove m d s n) d n = bytes_at m s n
   \<and> (\<forall>a. a < d \<or> d + n \<le> a \<longrightarrow> kmemmove m d s n a = m a)"
  using bytes_at_write_same [of m d "bytes_at m s n"] by (simp add: kmemmove_eq mem_simps)

theorem kmemmove_any_overlap_witness:
  "bytes_at (kmemmove (mem_of 0 [1, 2, 3, 4]) 1 0 3) 1 3 = [1, 2, 3]"
  using kmemmove_any_overlap [of "mem_of 0 [1, 2, 3, 4]" 1 0 3]
  by (simp add: mem_of_def bytes_at_def upt_rec)

text \<open>On blocks that do not overlap, \<open>kmemcpy\<close>, which moves eight bytes at a time and the rest
  singly, leaves exactly what \<open>kmemmove\<close> leaves.\<close>

theorem kmemcpy_is_kmemmove:
  assumes "dst + n \<le> src \<or> src + n \<le> dst"
  shows "kmemcpy m dst src n = kmemmove m dst src n"
  using assms by (simp add: kmemcpy_disjoint kmemmove_eq)

theorem kmemcpy_is_kmemmove_witness:
  "kmemcpy (mem_of 0 [1, 2, 3, 4, 5, 6, 7, 8, 9]) 100 0 9 = kmemmove (mem_of 0 [1, 2, 3, 4, 5, 6, 7, 8, 9]) 100 0 9"
  by (rule kmemcpy_is_kmemmove) simp

text \<open>\<open>kmemset\<close>, which spreads the byte over a 64-bit pattern by a multiplication and stores
  whole words first, fills exactly the \<open>n\<close> bytes asked for with that byte.\<close>

theorem kmemset_fills:
  "bytes_at (kmemset m dst v n) dst n = replicate n v
   \<and> (\<forall>a. a < dst \<or> dst + n \<le> a \<longrightarrow> kmemset m dst v n a = m a)"
  using bytes_at_write_same [of m dst "replicate n v"]
  by (simp add: kmemset_eq mem_simps)

theorem kmemset_fills_witness: "bytes_at (kmemset (mem_of 0 []) 5 0xA5 11) 5 11 = replicate 11 0xA5"
  using kmemset_fills by blast

text \<open>On terminated strings \<open>kstrcmp\<close> returns, is zero exactly on equal strings and negative
  exactly when the first comes first in the lexicographic order of unsigned bytes.\<close>

theorem kstrcmp_decides_order:
  assumes "cstr m a xs" and "cstr m b ys"
  shows "\<exists>r. kstrcmp m a b = Some r \<and> (r = 0 \<longleftrightarrow> xs = ys)
             \<and> (r < 0 \<longleftrightarrow> (xs, ys) \<in> lexord {(x, y). x < y})"
  using kstrcmp_cstr [OF assms] by (simp add: byte_less_def)

theorem kstrcmp_decides_order_witness:
  "\<exists>r. kstrcmp (mem_of 0 [97, 98, 0, 97, 200, 0]) 0 3 = Some r \<and> r < 0"
proof -
  let ?m = "mem_of 0 [97, 98, 0, 97, 200, 0]"
  have "cstr ?m 0 [97, 98]" "cstr ?m 3 [97, 200]" by (simp_all add: mem_of_def)
  from kstrcmp_decides_order [OF this] show ?thesis by auto
qed

text \<open>\<open>kstrlcpy\<close> never writes outside its buffer of \<open>sz\<close> bytes and always leaves it a
  terminated string: the longest prefix of the source that fits.\<close>

theorem kstrlcpy_bounded:
  assumes "cstr m src xs" and "0 < sz" and "dst + sz \<le> src \<or> src + length xs < dst"
  shows "cstr (kstrlcpy m dst src sz) dst (take (sz - 1) xs)
       \<and> (\<forall>i. i < dst \<or> dst + sz \<le> i \<longrightarrow> kstrlcpy m dst src sz i = m i)"
  by (rule kstrlcpy_result [OF assms])

theorem kstrlcpy_bounded_witness:
  "cstr (kstrlcpy (mem_of 0 [110, 111, 118, 97, 0]) 50 0 3) 50 [110, 111]"
proof -
  have "cstr (mem_of 0 [110, 111, 118, 97, 0]) 0 [110, 111, 118, 97]" by (simp add: mem_of_def)
  from kstrlcpy_bounded [OF this, of 3 50] show ?thesis by simp
qed

text \<open>\<open>kstrstr\<close> returns the first position of the needle in the haystack, and a null pointer
  exactly when there is none.\<close>

theorem kstrstr_first_occurrence:
  assumes "cstr m h xs" and "cstr m n ys"
  shows "\<exists>r. kstrstr m h n = Some r
     \<and> (case r of
          Some p \<Rightarrow> (\<exists>us vs. p = h + length us \<and> xs = us @ ys @ vs
                       \<and> (\<forall>us' vs'. xs = us' @ ys @ vs' \<longrightarrow> length us \<le> length us'))
        | None \<Rightarrow> \<not> (\<exists>us vs. xs = us @ ys @ vs))"
  using kstrstr_occurrence [OF assms] .

theorem kstrstr_first_occurrence_witness:
  "\<exists>r. kstrstr (mem_of 0 [97, 98, 97, 98, 0, 98, 97, 0]) 0 5 = Some (Some r)"
proof -
  let ?m = "mem_of 0 [97, 98, 97, 98, 0, 98, 97, 0]"
  have "cstr ?m 0 [97, 98, 97, 98]" "cstr ?m 5 [98, 97]" by (simp_all add: mem_of_def)
  from kstrstr_first_occurrence [OF this] obtain r where r: "kstrstr ?m 0 5 = Some r"
      "r = None \<Longrightarrow> \<not> (\<exists>us vs. [97, 98, 97, 98 :: byte] = us @ [98, 97] @ vs)" by (auto split: option.splits)
  have "[97, 98, 97, 98 :: byte] = [97] @ [98, 97] @ [98]" by simp
  then show ?thesis using r by (metis option.exhaust)
qed

text \<open>\<open>ku32_to_dec\<close> followed by \<open>kstr_to_int\<close> gives the number back for every value a C
  \<open>int\<close> can hold; the digits, at most ten of them, fit the routine's twelve-byte buffer, and nothing
  past the terminator is written.\<close>

theorem dec_round_trip:
  assumes "uint v < 2 ^ 31"
  shows "kstr_to_int (snd (ku32_to_dec m v out)) out = Some (uint v)
     \<and> fst (ku32_to_dec m v out) \<le> 10
     \<and> (\<forall>a. a < out \<or> out + fst (ku32_to_dec m v out) < a \<longrightarrow> snd (ku32_to_dec m v out) a = m a)"
proof -
  have "dec_string v \<noteq> []" using dec_string_length [of v] by auto
  then have "kstr_to_int (snd (ku32_to_dec m v out)) out = Some (uint v)"
    using kstr_to_int_digits [OF ku32_to_dec_cstr, of v m out] dec_string_digits [of _ v] assms
    unfolding dec_string_value by blast
  then show ?thesis
    using dec_string_length [of v] by (simp add: ku32_to_dec_eq mem_simps)
qed

theorem dec_round_trip_witness:
  "kstr_to_int (snd (ku32_to_dec (mem_of 0 []) 2147483647 4)) 4 = Some 2147483647"
  using dec_round_trip [of 2147483647] by simp

text \<open>\<open>kdiv64\<close>, two 64-by-32 divisions chained through the remainder, never raises the divide
  error for a non-zero divisor and gives the full 64-bit quotient and remainder.\<close>

theorem kdiv64_divides:
  assumes "divisor \<noteq> 0"
  shows "\<exists>q r. kdiv64 value divisor = Some (q, r)
             \<and> unat q = unat value div unat divisor \<and> unat r = unat value mod unat divisor"
  by (rule kdiv64_spec [OF assms])

theorem kdiv64_divides_witness:
  "\<exists>q r. kdiv64 0xFFFFFFFFFFFFFFFF 10 = Some (q, r) \<and> unat r = 5"
  using kdiv64_divides [of 10 "0xFFFFFFFFFFFFFFFF"] by auto

end
