(* ===== verification/Ring.thy ===== *)
theory Ring
  imports Prelude
begin

text \<open>
  Circular arrays. Pipes, the descriptors in flight on them, pending connections and input events
  are all kept in an array with the index of the oldest element and a count. \<open>ring_list xs h n\<close> is the
  queue such an array holds, oldest first; the lemmas say what reading a run and writing a run do
  to it. The locale \<open>byte_stream\<close> is what a client of a pipe relies on.
\<close>

section \<open>The queue in a circular array\<close>

definition ring_list :: "'a list \<Rightarrow> nat \<Rightarrow> nat \<Rightarrow> 'a list" where
  "ring_list xs h n = map (\<lambda>k. xs ! ((h + k) mod length xs)) [0..<n]"

lemma length_ring_list [simp]: "length (ring_list xs h n) = n"
  by (simp add: ring_list_def)

lemma nth_ring_list [simp]: "k < n \<Longrightarrow> ring_list xs h n ! k = xs ! ((h + k) mod length xs)"
  by (simp add: ring_list_def)

lemma ring_list_0 [simp]: "ring_list xs h 0 = []"
  by (simp add: ring_list_def)

lemma ring_list_drop: "ring_list xs ((h + k) mod length xs) (n - k) = drop k (ring_list xs h n)"
  by (rule nth_equalityI) (auto simp: mod_add_left_eq add.assoc)

lemma ring_list_pop: "0 < n \<Longrightarrow> h < length xs \<Longrightarrow> ring_list xs h n = xs ! h # ring_list xs ((h + 1) mod length xs) (n - 1)"
  using ring_list_drop [of xs h 1 n] by (simp add: ring_list_def upt_conv_Cons)

lemma ring_list_run:
  assumes "h + k \<le> length xs" and "k \<le> n"
  shows "take k (drop h xs) = take k (ring_list xs h n)"
  using assms by (intro nth_equalityI) auto

lemma mod_run: "r \<le> n \<Longrightarrow> ((h + r) mod N + (n - r)) mod N = (h + n :: nat) mod N"
  using mod_add_left_eq [of "h + r" N "n - r"] by simp

text \<open>Writing past the end of the queue, up to the wrap.\<close>

lemma mod_ring_eq:
  fixes i j N :: nat
  assumes "i < N" and "j < N" and "(h + i) mod N = (h + j) mod N"
  shows "i = j"
proof -
  have "int N dvd int (h + i) - int (h + j)"
    using assms(3) by (metis mod_eq_dvd_iff of_nat_mod)
  then have "int N dvd int i - int j" by simp
  moreover have "\<bar>int i - int j\<bar> < int N" using assms(1,2) by linarith
  ultimately have "int i - int j = 0" using dvd_imp_le_int [of "int i - int j" "int N"] by linarith
  then show ?thesis by simp
qed

lemma nth_overwritten:
  "t + length ys \<le> length xs \<Longrightarrow> i < length xs \<Longrightarrow> \<not> (t \<le> i \<and> i < t + length ys) \<Longrightarrow>
   (take t xs @ ys @ drop (t + length ys) xs) ! i = xs ! i"
  by (cases "i < t") (auto simp: nth_append)

lemma nth_written: "j < length ys \<Longrightarrow> t \<le> length xs \<Longrightarrow> (take t xs @ ys @ zs) ! (t + j) = ys ! j"
  by (simp add: nth_append)

lemma ring_list_append:
  assumes n: "n + length ys \<le> length xs" and t: "t = (h + n) mod length xs" and r: "t + length ys \<le> length xs"
  shows "ring_list (take t xs @ ys @ drop (t + length ys) xs) h (n + length ys) = ring_list xs h n @ ys"
proof (rule nth_equalityI)
  let ?xs = "take t xs @ ys @ drop (t + length ys) xs"
  have len: "length ?xs = length xs" using r by simp
  fix k assume "k < length (ring_list ?xs h (n + length ys))"
  then have k: "k < n + length ys" by simp
  then have N: "0 < length xs" using n by linarith
  let ?i = "(h + k) mod length xs"
  have i: "?i < length xs" using N by simp
  show "ring_list ?xs h (n + length ys) ! k = (ring_list xs h n @ ys) ! k"
  proof (cases "k < n")
    case True
    have "\<not> (t \<le> ?i \<and> ?i < t + length ys)"
    proof
      assume a: "t \<le> ?i \<and> ?i < t + length ys"
      define d where "d = ?i - t"
      have d: "?i = t + d" "d < length ys" using a by (auto simp: d_def)
      then have "?i = (t + d) mod length xs" using i by simp
      also have "\<dots> = (h + (n + d)) mod length xs" by (simp add: t mod_add_left_eq add.assoc)
      finally have eq: "(h + k) mod length xs = (h + (n + d)) mod length xs" .
      have "k = n + d" by (rule mod_ring_eq [OF _ _ eq]) (use d True n in linarith)+
      then show False using True by simp
    qed
    then have "?xs ! ?i = xs ! ?i" using nth_overwritten [OF r i] by simp
    moreover have "ring_list ?xs h (n + length ys) ! k = ?xs ! ?i" using k len nth_ring_list [of k _ ?xs h] by simp
    moreover have "(ring_list xs h n @ ys) ! k = xs ! ?i" using True by (simp add: nth_append)
    ultimately show ?thesis by simp
  next
    case False
    have "(t + (k - n)) mod length xs = (h + n + (k - n)) mod length xs" unfolding t by (rule mod_add_left_eq)
    then have "?i = (t + (k - n)) mod length xs" using False by simp
    then have "?i = t + (k - n)" using False k r by simp
    then have "?xs ! ?i = ys ! (k - n)" using False k r nth_written [of "k - n" ys t xs] by simp
    moreover have "ring_list ?xs h (n + length ys) ! k = ?xs ! ?i" using k len nth_ring_list [of k _ ?xs h] by simp
    moreover have "(ring_list xs h n @ ys) ! k = ys ! (k - n)" using False by (simp add: nth_append)
    ultimately show ?thesis by simp
  qed
qed simp

lemma ring_list_push:
  assumes "n < length xs"
  shows "ring_list (xs[(h + n) mod length xs := x]) h (Suc n) = ring_list xs h n @ [x]"
proof -
  have t: "(h + n) mod length xs < length xs" using assms by (intro mod_less_divisor) linarith
  have "xs[(h + n) mod length xs := x] = take ((h + n) mod length xs) xs @ [x] @ drop ((h + n) mod length xs + length [x]) xs"
    using t by (simp add: upd_conv_take_nth_drop)
  then show ?thesis using ring_list_append [of n "[x]" xs _ h] assms t by simp
qed

section \<open>What a client of a byte stream relies on\<close>

text \<open>\<open>content\<close> is what has been written and not read. A write takes a prefix of its bytes or reports an
  error and changes nothing; a read takes a prefix of the content.\<close>

locale byte_stream =
  fixes ok :: "'s \<Rightarrow> bool"
    and content :: "'s \<Rightarrow> byte list"
    and wr :: "byte list \<Rightarrow> 's \<Rightarrow> (int \<times> 's) option"
    and rd :: "nat \<Rightarrow> 's \<Rightarrow> (int \<times> byte list \<times> 's) option"
  assumes write_law: "ok s \<Longrightarrow> \<exists>r t. wr xs s = Some (r, t) \<and> ok t
      \<and> content t = content s @ take (nat r) xs \<and> nat r \<le> length xs"
    and read_law: "ok s \<Longrightarrow> \<exists>r ys t. rd n s = Some (r, ys, t) \<and> ok t
      \<and> content s = ys @ content t \<and> length ys = nat r"
begin

text \<open>A run of reads and writes: what went in and what came out.\<close>

fun stream_run :: "(byte list + nat) list \<Rightarrow> byte list \<Rightarrow> byte list \<Rightarrow> 's \<Rightarrow> (byte list \<times> byte list \<times> 's) option" where
  "stream_run [] w r s = Some (w, r, s)"
| "stream_run (Inl xs # ops) w r s = (case wr xs s of None \<Rightarrow> None | Some (k, t) \<Rightarrow> stream_run ops (w @ take (nat k) xs) r t)"
| "stream_run (Inr n # ops) w r s = (case rd n s of None \<Rightarrow> None | Some (k, ys, t) \<Rightarrow> stream_run ops w (r @ ys) t)"

lemma stream_integrity:
  "ok s \<Longrightarrow> r @ content s = c @ w \<Longrightarrow>
   \<exists>w' r' t. stream_run ops w r s = Some (w', r', t) \<and> ok t \<and> r' @ content t = c @ w'"
proof (induction ops arbitrary: w r s)
  case (Cons x ops)
  show ?case
  proof (cases x)
    case (Inl xs)
    obtain k t where t: "wr xs s = Some (k, t)" "ok t" "content t = content s @ take (nat k) xs"
      using write_law [OF Cons.prems(1), of xs] by blast
    have "r @ content t = c @ (w @ take (nat k) xs)" using Cons.prems(2) t(3) by simp
    from Cons.IH [OF t(2) this] show ?thesis using Inl t(1) by simp
  next
    case (Inr n)
    obtain k ys t where t: "rd n s = Some (k, ys, t)" "ok t" "content s = ys @ content t"
      using read_law [OF Cons.prems(1), of n] by blast
    have "(r @ ys) @ content t = c @ w" using Cons.prems(2) t(3) by simp
    from Cons.IH [OF t(2) this] show ?thesis using Inr t(1) by simp
  qed
qed simp

end

end
