(* ===== verification/Frame_Allocator.thy ===== *)
theory Frame_Allocator
  imports Prelude
begin

text \<open>
  The contract between the frame allocator and everything that takes frames from it: the page
  tables, the heap, the address spaces and the file system. An allocator keeps a count of
  owners per frame. Allocating gives a frame that had none, sharing adds one, freeing drops one.

  The clients' side of the contract is a ledger: how many references to each frame the clients
  have been given and not yet given back. A client frees only what it holds. \<open>ledger_run\<close> runs a
  sequence of such operations, whoever issues them and in whatever order; the locale shows that
  the ledger never exceeds the allocator's counts, so an allocation never returns a frame that
  anybody still holds.
\<close>

datatype frame_op = OpAlloc | OpRef nat | OpFree nat

fun ledger_step ::
    "('s \<Rightarrow> nat \<times> 's) \<Rightarrow> (nat \<Rightarrow> 's \<Rightarrow> bool \<times> 's) \<Rightarrow> (nat \<Rightarrow> 's \<Rightarrow> 's) \<Rightarrow> nat \<Rightarrow>
     frame_op \<Rightarrow> 's \<times> (nat \<Rightarrow> nat) \<Rightarrow> 's \<times> (nat \<Rightarrow> nat)" where
  "ledger_step alloc ref free fsize OpAlloc (s, held) =
     (let (p, s') = alloc s
      in (s', if p = 0 then held else held(p div fsize := held (p div fsize) + 1)))"
| "ledger_step alloc ref free fsize (OpRef p) (s, held) =
     (let (ok, s') = ref p s
      in (s', if ok then held(p div fsize := held (p div fsize) + 1) else held))"
| "ledger_step alloc ref free fsize (OpFree p) (s, held) =
     (if held (p div fsize) = 0 then (s, held)
      else (free p s, held(p div fsize := held (p div fsize) - 1)))"

definition ledger_run ::
    "('s \<Rightarrow> nat \<times> 's) \<Rightarrow> (nat \<Rightarrow> 's \<Rightarrow> bool \<times> 's) \<Rightarrow> (nat \<Rightarrow> 's \<Rightarrow> 's) \<Rightarrow> nat \<Rightarrow>
     frame_op list \<Rightarrow> 's \<Rightarrow> 's \<times> (nat \<Rightarrow> nat)" where
  "ledger_run alloc ref free fsize ops s = fold (ledger_step alloc ref free fsize) ops (s, \<lambda>_. 0)"

locale frame_allocator =
  fixes inv :: "'s \<Rightarrow> bool"
    and alloc :: "'s \<Rightarrow> nat \<times> 's"
    and ref :: "nat \<Rightarrow> 's \<Rightarrow> bool \<times> 's"
    and free :: "nat \<Rightarrow> 's \<Rightarrow> 's"
    and fsize :: nat
    and owner_count :: "'s \<Rightarrow> nat \<Rightarrow> nat"
  assumes alloc_inv: "inv s \<Longrightarrow> inv (snd (alloc s))"
    and alloc_fresh: "inv s \<Longrightarrow> fst (alloc s) \<noteq> 0 \<Longrightarrow>
          owner_count s (fst (alloc s) div fsize) = 0
          \<and> owner_count (snd (alloc s)) = (owner_count s)(fst (alloc s) div fsize := 1)
          \<and> fst (alloc s) div fsize \<noteq> 0"
    and alloc_full: "inv s \<Longrightarrow> fst (alloc s) = 0 \<Longrightarrow> owner_count (snd (alloc s)) = owner_count s"
    and ref_inv: "inv s \<Longrightarrow> inv (snd (ref p s))"
    and ref_counts: "inv s \<Longrightarrow> owner_count (snd (ref p s))
          = (if fst (ref p s) then (owner_count s)(p div fsize := owner_count s (p div fsize) + 1)
             else owner_count s)"
    and free_inv: "inv s \<Longrightarrow> p div fsize \<noteq> 0 \<Longrightarrow> inv (free p s)"
    and free_counts: "inv s \<Longrightarrow>
          owner_count (free p s) = (owner_count s)(p div fsize := owner_count s (p div fsize) - 1)"
begin

definition ledger_ok :: "'s \<times> (nat \<Rightarrow> nat) \<Rightarrow> bool" where
  "ledger_ok x \<longleftrightarrow> inv (fst x) \<and> (\<forall>f. snd x f \<le> owner_count (fst x) f)"

lemma ledger_step_ok:
  assumes "ledger_ok x" and "\<forall>p. e = OpFree p \<or> e = OpRef p \<longrightarrow> p div fsize \<noteq> 0"
  shows "ledger_ok (ledger_step alloc ref free fsize e x)"
proof -
  obtain s held where x: "x = (s, held)" by (cases x)
  have s: "inv s" "\<And>f. held f \<le> owner_count s f" using assms(1) by (auto simp: ledger_ok_def x)
  show ?thesis
  proof (cases e)
    case OpAlloc
    show ?thesis
    proof (cases "fst (alloc s) = 0")
      case True
      then show ?thesis using s alloc_inv [of s] alloc_full [of s]
        by (simp add: OpAlloc x ledger_ok_def case_prod_unfold Let_def)
    next
      case False
      moreover from this have "held (fst (alloc s) div fsize) = 0"
        using alloc_fresh [OF s(1)] s(2) by (metis le_zero_eq)
      ultimately show ?thesis using s alloc_inv [of s] alloc_fresh [of s]
        by (simp add: OpAlloc x ledger_ok_def case_prod_unfold Let_def)
    qed
  next
    case (OpRef p)
    then show ?thesis using s ref_inv [of s p] ref_counts [of s p]
      by (simp add: x ledger_ok_def case_prod_unfold Let_def)
  next
    case (OpFree p)
    then show ?thesis using s free_inv [of s p] free_counts [of s p] assms(2)
      by (auto simp: x ledger_ok_def diff_le_mono)
  qed
qed

lemma ledger_steps_ok:
  "ledger_ok x \<Longrightarrow> (\<forall>p. OpFree p \<in> set ops \<or> OpRef p \<in> set ops \<longrightarrow> p div fsize \<noteq> 0) \<Longrightarrow>
     ledger_ok (fold (ledger_step alloc ref free fsize) ops x)"
proof (induction ops arbitrary: x)
  case (Cons e ops)
  have "ledger_ok (ledger_step alloc ref free fsize e x)"
    using Cons.prems by (intro ledger_step_ok) auto
  then show ?case using Cons by simp
qed simp

lemma never_hand_out_held:
  assumes "inv s" and "\<forall>p. OpFree p \<in> set ops \<or> OpRef p \<in> set ops \<longrightarrow> p div fsize \<noteq> 0"
    and "ledger_run alloc ref free fsize ops s = (s', held)"
  shows "(\<forall>f. held f \<le> owner_count s' f)
       \<and> (fst (alloc s') \<noteq> 0 \<longrightarrow> held (fst (alloc s') div fsize) = 0)"
proof -
  have "ledger_ok (s, \<lambda>_. 0)" using assms(1) by (simp add: ledger_ok_def)
  then have "ledger_ok (s', held)"
    using ledger_steps_ok [of "(s, \<lambda>_. 0)", OF _ assms(2)] assms(3) by (simp add: ledger_run_def)
  then have "inv s'" "\<And>f. held f \<le> owner_count s' f" by (auto simp: ledger_ok_def)
  then show ?thesis using alloc_fresh [of s'] by (metis le_zero_eq)
qed

end

end
