(* ===== verification/Pmm64.thy ===== *)
theory Pmm64
  imports Frame_Allocator
begin

text \<open>
  \<^verbatim>\<open>kernel/pmm64.c\<close>: the physical frame allocator. One bit per 4KB frame, a byte of extra
  owners per frame for copy-on-write, and a second bitmap that says which frames are RAM at all.

  The record \<open>pmm64\<close> holds the file's static variables; a null table pointer is \<open>None\<close>.
  \<open>uint64_t\<close> counters are natural numbers with the wrap-around written out (\<open>add64\<close>, \<open>sub64\<close>,
  \<open>mul64\<close>). The scans of the bitmap are recursive functions with the byte-at-a-time skip of the
  source. Reports of the watched frame go to \<open>watch_log\<close> in place of the serial port.

  The file shows that the running count of used frames always equals a recount of the bitmap,
  that the skipping scans find exactly what a frame-by-frame scan finds, that an allocation fails
  only when nothing is free, and that the allocator implements an abstract table of owners
  (the locale \<open>frame_allocator\<close>), so a frame that somebody holds is never handed out again.
\<close>

section \<open>Multiboot data\<close>

record mmap_entry =
  e_addr :: nat
  e_len :: nat
  e_type :: nat

text \<open>The memory map is the list of entries the walk from \<open>mmap_addr\<close> meets; the modules are
  given by their end addresses.\<close>

record multiboot_info =
  mb_flags :: u32
  mem_lower :: nat
  mem_upper :: nat
  mmap :: "mmap_entry list"
  mod_ends :: "nat list"

section \<open>State\<close>

definition FRAME_SIZE :: nat where "FRAME_SIZE = 4096"
definition BOOT_WINDOW_BYTES :: nat where "BOOT_WINDOW_BYTES = 0x40000000"
definition USER_RESERVE :: nat where "USER_RESERVE = 2048"

record pmm64 =
  bitmap :: "byte list"
  bitmap_phys_addr :: nat
  bitmap_size_bytes :: nat
  frame_count :: nat
  refs :: "byte list option"
  refs_phys_addr :: nat
  refs_size_bytes :: nat
  ram :: "byte list option"
  ram_phys_addr :: nat
  ram_size_bytes :: nat
  highest_addr :: nat
  double_frees :: nat
  alloc_hint :: nat
  high_hint :: nat
  ready :: bool
  used_count :: nat
  user_oom :: bool
  watch_phys :: nat
  watch_log :: "(string \<times> nat) list"

definition pmm64_zero :: pmm64 where
  "pmm64_zero = \<lparr>bitmap = [], bitmap_phys_addr = 0, bitmap_size_bytes = 0, frame_count = 0,
     refs = None, refs_phys_addr = 0, refs_size_bytes = 0,
     ram = None, ram_phys_addr = 0, ram_size_bytes = 0,
     highest_addr = 0, double_frees = 0, alloc_hint = 0, high_hint = 0, ready = False,
     used_count = 0, user_oom = False, watch_phys = 0, watch_log = []\<rparr>"

section \<open>The bitmap\<close>

definition bm_mask :: "nat \<Rightarrow> byte" where
  "bm_mask b = push_bit (b mod 8) 1"

definition bm_test :: "byte list \<Rightarrow> nat \<Rightarrow> bool" where
  "bm_test bm b \<longleftrightarrow> (bm ! (b div 8)) AND bm_mask b \<noteq> 0"

definition bm_set :: "byte list \<Rightarrow> nat \<Rightarrow> byte list" where
  "bm_set bm b = bm[b div 8 := (bm ! (b div 8)) OR bm_mask b]"

definition bm_clear :: "byte list \<Rightarrow> nat \<Rightarrow> byte list" where
  "bm_clear bm b = bm[b div 8 := (bm ! (b div 8)) AND NOT (bm_mask b)]"

definition bitmap_set :: "nat \<Rightarrow> pmm64 \<Rightarrow> pmm64" where
  "bitmap_set b s =
     s\<lparr>used_count := (if \<not> bm_test (bitmap s) b \<and> b < frame_count s
                      then add64 (used_count s) 1 else used_count s),
       bitmap := bm_set (bitmap s) b\<rparr>"

definition bitmap_clear :: "nat \<Rightarrow> pmm64 \<Rightarrow> pmm64" where
  "bitmap_clear b s =
     s\<lparr>used_count := (if bm_test (bitmap s) b \<and> b < frame_count s
                      then sub64 (used_count s) 1 else used_count s),
       bitmap := bm_clear (bitmap s) b\<rparr>"

definition bitmap_test :: "nat \<Rightarrow> pmm64 \<Rightarrow> bool" where
  "bitmap_test b s = bm_test (bitmap s) b"

text \<open>The loop leaves at the first frame past \<open>frame_count\<close>; the frames rise, so what it visits
  is the range cut off there.\<close>

definition mark_range :: "nat \<Rightarrow> nat \<Rightarrow> bool \<Rightarrow> pmm64 \<Rightarrow> pmm64" where
  "mark_range start_frame count used s =
     fold (\<lambda>f s. if used then bitmap_set f s else bitmap_clear f s)
       [start_frame..<min (start_frame + count) (frame_count s)] s"

section \<open>Initialisation\<close>

definition for_each_available ::
    "multiboot_info \<Rightarrow> (nat \<Rightarrow> nat \<Rightarrow> pmm64 \<Rightarrow> pmm64) \<Rightarrow> pmm64 \<Rightarrow> pmm64" where
  "for_each_available mbi fn s =
     (if \<not> bit (mb_flags mbi) 6
      then fn 0x100000 (0x100000 + mem_upper mbi * 1024) (fn 0 (mem_lower mbi * 1024) s)
      else fold (\<lambda>e s. if e_type e = 1 \<and> e_len e > 0
                       then fn (e_addr e) (add64 (e_addr e) (e_len e)) s else s) (mmap mbi) s)"

definition note_highest :: "nat \<Rightarrow> nat \<Rightarrow> pmm64 \<Rightarrow> pmm64" where
  "note_highest start end s = (if end > highest_addr s then s\<lparr>highest_addr := end\<rparr> else s)"

definition free_region :: "nat \<Rightarrow> nat \<Rightarrow> pmm64 \<Rightarrow> pmm64" where
  "free_region start end s =
     (let sf = start div FRAME_SIZE;
          ef = end div FRAME_SIZE;
          s1 = (if ef > sf then mark_range sf (ef - sf) False s else s)
      in case ram s1 of
           None \<Rightarrow> s1
         | Some r \<Rightarrow> s1\<lparr>ram := Some (fold (\<lambda>f r. bm_set r f) [sf..<min ef (frame_count s1)] r)\<rparr>)"

definition pmm64_reserve_region :: "nat \<Rightarrow> nat \<Rightarrow> pmm64 \<Rightarrow> pmm64" where
  "pmm64_reserve_region start_addr end_addr s =
     (let sf = start_addr div FRAME_SIZE;
          ef = add64 end_addr (FRAME_SIZE - 1) div FRAME_SIZE
      in if ef > sf then mark_range sf (ef - sf) True s else s)"

definition align_frame :: "nat \<Rightarrow> nat" where
  "align_frame place = add64 place (FRAME_SIZE - 1) div FRAME_SIZE * FRAME_SIZE"

text \<open>The second half of \<open>pmm64_init\<close>, from the window check on: lay the three tables out at
  \<open>place\<close>, mark everything used, free what the map vouches for, and take back what is not ours.\<close>

definition init_tables :: "multiboot_info \<Rightarrow> nat \<Rightarrow> nat \<Rightarrow> nat \<Rightarrow> pmm64 \<Rightarrow> pmm64" where
  "init_tables mbi kernel_phys_start kernel_phys_end place s =
     (let s = s\<lparr>bitmap_phys_addr := place,
                refs_phys_addr := place + bitmap_size_bytes s,
                refs := Some (replicate (refs_size_bytes s) 0),
                ram_phys_addr := place + bitmap_size_bytes s + refs_size_bytes s,
                ram := Some (replicate (ram_size_bytes s) 0),
                bitmap := replicate (bitmap_size_bytes s) 0xFF,
                used_count := frame_count s\<rparr>;
          s = for_each_available mbi free_region s;
          s = mark_range 0 (0x100000 div FRAME_SIZE) True s;
          s = pmm64_reserve_region kernel_phys_start kernel_phys_end s;
          s = pmm64_reserve_region (bitmap_phys_addr s) (ram_phys_addr s + ram_size_bytes s) s
      in s\<lparr>ready := True\<rparr>)"

definition pmm64_init :: "multiboot_info \<Rightarrow> nat \<Rightarrow> nat \<Rightarrow> pmm64 \<Rightarrow> pmm64" where
  "pmm64_init mbi kernel_phys_start kernel_phys_end s0 =
     (let s = s0\<lparr>ready := False, highest_addr := 0, double_frees := 0, alloc_hint := 0\<rparr>;
          s = for_each_available mbi note_highest s
      in if highest_addr s = 0 then s
         else
      (let fc = add64 (highest_addr s) (FRAME_SIZE - 1) div FRAME_SIZE;
           s = s\<lparr>frame_count := fc, bitmap_size_bytes := (fc + 7) div 8, high_hint := fc\<rparr>;
           place = (if bit (mb_flags mbi) 3
                    then fold (\<lambda>e place. if e > place then e else place) (mod_ends mbi) kernel_phys_end
                    else kernel_phys_end);
           place = align_frame place;
           s = s\<lparr>refs_size_bytes := fc, ram_size_bytes := (fc + 7) div 8\<rparr>
       in if add64 (add64 (add64 place (bitmap_size_bytes s)) (refs_size_bytes s)) (ram_size_bytes s)
             > BOOT_WINDOW_BYTES
          then s\<lparr>bitmap_phys_addr := 0, refs_phys_addr := 0, ram_phys_addr := 0\<rparr>
          else init_tables mbi kernel_phys_start kernel_phys_end place s))"

section \<open>Watching one frame\<close>

definition pmm64_watch_frame :: "nat \<Rightarrow> pmm64 \<Rightarrow> pmm64" where
  "pmm64_watch_frame phys s = s\<lparr>watch_phys := phys div FRAME_SIZE * FRAME_SIZE\<rparr>"

definition extra_owners :: "nat \<Rightarrow> pmm64 \<Rightarrow> nat" where
  "extra_owners f s = (case refs s of None \<Rightarrow> 0 | Some r \<Rightarrow> unat (r ! f))"

definition watch_report :: "string \<Rightarrow> nat \<Rightarrow> pmm64 \<Rightarrow> pmm64" where
  "watch_report what f s =
     (if watch_phys s = 0 \<or> f \<noteq> watch_phys s div FRAME_SIZE then s
      else s\<lparr>watch_log := watch_log s @
               [(what, if bitmap_test f s then 1 + extra_owners f s else 0)]\<rparr>)"

section \<open>Allocation\<close>

function scan_up :: "byte list \<Rightarrow> nat \<Rightarrow> nat \<Rightarrow> nat option" where
  "scan_up bm f stop =
     (if f < stop then
        if f mod 8 = 0 \<and> f + 8 \<le> stop \<and> bm ! (f div 8) = 0xFF then scan_up bm (f + 8) stop
        else if \<not> bm_test bm f then Some f
        else scan_up bm (f + 1) stop
      else None)"
  by pat_completeness auto
termination
  by (relation "measure (\<lambda>(bm, f, stop). stop - f)") auto

definition take_frame :: "nat \<Rightarrow> pmm64 \<Rightarrow> pmm64" where
  "take_frame f s = watch_report ''ALLOCATED to a new owner'' f (bitmap_set f s)"

definition pmm64_alloc_frame :: "pmm64 \<Rightarrow> nat \<times> pmm64" where
  "pmm64_alloc_frame s =
     (if \<not> ready s then (0, s)
      else case scan_up (bitmap s) (alloc_hint s) (frame_count s) of
        Some f \<Rightarrow> (mul64 f FRAME_SIZE, (take_frame f s)\<lparr>alloc_hint := f + 1\<rparr>)
      | None \<Rightarrow>
          (case scan_up (bitmap s) 0 (alloc_hint s) of
             Some f \<Rightarrow> (mul64 f FRAME_SIZE, (take_frame f s)\<lparr>alloc_hint := f + 1\<rparr>)
           | None \<Rightarrow> (0, s)))"

function scan_down :: "byte list \<Rightarrow> nat \<Rightarrow> nat \<Rightarrow> nat option" where
  "scan_down bm f stop =
     (if f > stop then
        (let g = f - 1
         in if g mod 8 = 7 \<and> g \<ge> stop + 7 \<and> bm ! (g div 8) = 0xFF then scan_down bm (g - 7) stop
            else if \<not> bm_test bm g then Some g
            else scan_down bm g stop)
      else None)"
  by pat_completeness auto
termination
  by (relation "measure (\<lambda>(bm, f, stop). f)") auto

definition pmm64_alloc_high :: "pmm64 \<Rightarrow> nat \<times> pmm64" where
  "pmm64_alloc_high s0 =
     (if \<not> ready s0 then (0, s0)
      else
      (let s = (if high_hint s0 > frame_count s0 then s0\<lparr>high_hint := frame_count s0\<rparr> else s0)
       in case scan_down (bitmap s) (high_hint s) 0 of
            Some f \<Rightarrow> (mul64 f FRAME_SIZE, (take_frame f s)\<lparr>high_hint := f\<rparr>)
          | None \<Rightarrow>
              (case scan_down (bitmap s) (frame_count s) (high_hint s) of
                 Some f \<Rightarrow> (mul64 f FRAME_SIZE, (take_frame f s)\<lparr>high_hint := f\<rparr>)
               | None \<Rightarrow> pmm64_alloc_frame s)))"

definition pmm64_free_frames :: "pmm64 \<Rightarrow> nat" where
  "pmm64_free_frames s = (if \<not> ready s then 0 else sub64 (frame_count s) (used_count s))"

definition pmm64_alloc_user :: "pmm64 \<Rightarrow> nat \<times> pmm64" where
  "pmm64_alloc_user s =
     (if pmm64_free_frames s < USER_RESERVE then (0, s\<lparr>user_oom := True\<rparr>)
      else (let (f, s1) = pmm64_alloc_high s
            in (f, if f = 0 then s1\<lparr>user_oom := True\<rparr> else s1)))"

definition pmm64_take_user_oom :: "pmm64 \<Rightarrow> bool \<times> pmm64" where
  "pmm64_take_user_oom s = (user_oom s, s\<lparr>user_oom := False\<rparr>)"

definition pmm64_alloc_above :: "nat \<Rightarrow> pmm64 \<Rightarrow> nat \<times> pmm64" where
  "pmm64_alloc_above min_phys s =
     (let first = add64 min_phys (FRAME_SIZE - 1) div FRAME_SIZE
      in if \<not> ready s then (0, s)
         else case find (\<lambda>f. \<not> bm_test (bitmap s) f) [first..<frame_count s] of
                Some f \<Rightarrow> (mul64 f FRAME_SIZE, take_frame f s)
              | None \<Rightarrow> (0, s))"

section \<open>Freeing and sharing\<close>

definition pmm64_free_frame :: "nat \<Rightarrow> pmm64 \<Rightarrow> pmm64" where
  "pmm64_free_frame phys s =
     (let f = phys div FRAME_SIZE
      in if \<not> ready s \<or> f \<ge> frame_count s then s
         else if \<not> bitmap_test f s
              then watch_report ''double-free'' f (s\<lparr>double_frees := add64 (double_frees s) 1\<rparr>)
         else if extra_owners f s \<noteq> 0
              then watch_report ''unref'' f (s\<lparr>refs := map_option (\<lambda>r. r[f := r ! f - 1]) (refs s)\<rparr>)
         else (let s = watch_report ''FREED to allocator'' f (bitmap_clear f s);
                   s = (if f < alloc_hint s then s\<lparr>alloc_hint := f\<rparr> else s)
               in if f \<ge> high_hint s then s\<lparr>high_hint := f + 1\<rparr> else s))"

definition pmm64_ref_frame :: "nat \<Rightarrow> pmm64 \<Rightarrow> bool \<times> pmm64" where
  "pmm64_ref_frame phys s =
     (let f = phys div FRAME_SIZE
      in case refs s of
           None \<Rightarrow> (False, s)
         | Some r \<Rightarrow>
             if \<not> ready s \<or> f \<ge> frame_count s then (False, s)
             else if \<not> bitmap_test f s then (False, s)
             else if r ! f \<ge> 255 then (False, s)
             else (True, watch_report ''ref'' f (s\<lparr>refs := Some (r[f := r ! f + 1])\<rparr>)))"

definition pmm64_frame_owners :: "nat \<Rightarrow> pmm64 \<Rightarrow> nat" where
  "pmm64_frame_owners phys s =
     (let f = phys div FRAME_SIZE
      in if \<not> ready s \<or> f \<ge> frame_count s then 0
         else if \<not> bitmap_test f s then 0
         else 1 + extra_owners f s)"

definition pmm64_owns :: "nat \<Rightarrow> pmm64 \<Rightarrow> bool" where
  "pmm64_owns phys s =
     (let f = phys div FRAME_SIZE
      in case ram s of
           None \<Rightarrow> False
         | Some r \<Rightarrow> if \<not> ready s \<or> f \<ge> frame_count s then False
                     else (drop_bit (f mod 8) (r ! (f div 8))) AND 1 \<noteq> 0)"

section \<open>Counting\<close>

definition pmm64_total_frames :: "pmm64 \<Rightarrow> nat" where
  "pmm64_total_frames s = (if ready s then frame_count s else 0)"

definition used_bits :: "nat list" where
  "used_bits = [0, 1, 1, 2, 1, 2, 2, 3, 1, 2, 2, 3, 2, 3, 3, 4]"

definition pmm64_free_frames_scanned :: "pmm64 \<Rightarrow> nat" where
  "pmm64_free_frames_scanned s =
     (let whole = frame_count s div 8
      in if \<not> ready s then 0
         else
         (let used = fold (\<lambda>b used. let v = bitmap s ! b
                                   in if v = 0xFF then used + 8
                                      else used + used_bits ! unat (v AND 0xF)
                                                + used_bits ! unat (drop_bit 4 v)) [0..<whole] 0;
              used = fold (\<lambda>f used. if bitmap_test f s then used + 1 else used)
                       [whole * 8..<frame_count s] used
          in frame_count s - used))"

definition pmm64_used_frames :: "pmm64 \<Rightarrow> nat" where
  "pmm64_used_frames s = pmm64_total_frames s - pmm64_free_frames s"

declare scan_up.simps [simp del] scan_down.simps [simp del]

section \<open>Bits of the bitmap\<close>

lemma bm_test_bit: "bm_test bm b = bit (bm ! (b div 8)) (b mod 8)"
  by (simp add: bm_test_def bm_mask_def bit_iff_and_push_bit_not_eq_0)

lemma bit_bm_mask: "j < 8 \<Longrightarrow> bit (bm_mask f) j \<longleftrightarrow> j = f mod 8"
  by (auto simp: bm_mask_def bit_simps)

lemma same_bit: "g div 8 = f div 8 \<Longrightarrow> g mod 8 = f mod 8 \<Longrightarrow> g = (f :: nat)"
  by (metis mult_div_mod_eq)

lemma bm_test_set:
  "f div 8 < length bm \<Longrightarrow> bm_test (bm_set bm f) g \<longleftrightarrow> g = f \<or> bm_test bm g"
  by (cases "g div 8 = f div 8")
     (auto simp: bm_test_bit bm_set_def bit_or_iff bit_bm_mask dest: same_bit)

lemma bm_test_clear:
  "f div 8 < length bm \<Longrightarrow> bm_test (bm_clear bm f) g \<longleftrightarrow> g \<noteq> f \<and> bm_test bm g"
  by (cases "g div 8 = f div 8")
     (auto simp: bm_test_bit bm_clear_def bit_and_iff bit_not_iff bit_bm_mask dest: same_bit)

lemma length_bm [simp]: "length (bm_set bm f) = length bm" "length (bm_clear bm f) = length bm"
  by (simp_all add: bm_set_def bm_clear_def)

lemma full_byte_bit: "j < 8 \<Longrightarrow> bit (0xFF :: byte) j"
proof -
  assume "j < 8"
  then consider "j = 0" | "j = 1" | "j = 2" | "j = 3" | "j = 4" | "j = 5" | "j = 6" | "j = 7"
    by linarith
  then show ?thesis by cases simp_all
qed

lemma full_byte_test: "bm ! (g div 8) = 0xFF \<Longrightarrow> bm_test bm g"
  unfolding bm_test_bit by (simp only: full_byte_bit mod_less_divisor zero_less_numeral)

section \<open>The scans find what a frame-by-frame scan finds\<close>

lemma find_append: "find P (xs @ ys) = (case find P xs of Some r \<Rightarrow> Some r | None \<Rightarrow> find P ys)"
  by (induction xs) auto

lemma find_none_prefix: "(\<And>x. x \<in> set xs \<Longrightarrow> \<not> P x) \<Longrightarrow> find P (xs @ ys) = find P ys"
  by (induction xs) auto

lemma scan_up_find: "scan_up bm f stop = find (\<lambda>g. \<not> bm_test bm g) [f..<stop]"
proof (induction bm f stop rule: scan_up.induct)
  case (1 bm f stop)
  show ?case
  proof (cases "f < stop")
    case False
    then show ?thesis by (simp add: scan_up.simps [of bm f stop])
  next
    case True
    show ?thesis
    proof (cases "f mod 8 = 0 \<and> f + 8 \<le> stop \<and> bm ! (f div 8) = 0xFF")
      case skip: True
      have "bm_test bm g" if "g \<in> set [f..<f + 8]" for g
      proof -
        have "g div 8 = f div 8" using that skip by auto
        then show ?thesis using skip by (intro full_byte_test) simp
      qed
      moreover have "[f..<stop] = [f..<f + 8] @ [f + 8..<stop]"
        using skip upt_add_eq_append [of f "f + 8" "stop - (f + 8)"] by simp
      ultimately have "find (\<lambda>g. \<not> bm_test bm g) [f..<stop] = find (\<lambda>g. \<not> bm_test bm g) [f + 8..<stop]"
        by (simp only: find_none_prefix simp_thms)
      then show ?thesis
        using "1.IH"(1) [OF True skip] True skip by (simp add: scan_up.simps [of bm f stop])
    next
      case noskip: False
      have "[f..<stop] = f # [Suc f..<stop]" using True by (simp add: upt_conv_Cons)
      then show ?thesis
        using "1.IH"(2) [OF True noskip] True noskip
        by (auto simp: scan_up.simps [of bm f stop])
    qed
  qed
qed

lemma scan_down_find: "scan_down bm f stop = find (\<lambda>g. \<not> bm_test bm g) (rev [stop..<f])"
proof (induction bm f stop rule: scan_down.induct)
  case (1 bm f stop)
  show ?case
  proof (cases "f > stop")
    case False
    then show ?thesis by (simp add: scan_down.simps [of bm f stop])
  next
    case True
    let ?g = "f - 1"
    show ?thesis
    proof (cases "?g mod 8 = 7 \<and> ?g \<ge> stop + 7 \<and> bm ! (?g div 8) = 0xFF")
      case skip: True
      have "bm_test bm h" if "h \<in> set (rev [?g - 7..<f])" for h
      proof -
        define q where "q = ?g div 8"
        have "?g = 8 * q + 7" using skip unfolding q_def by (metis mult_div_mod_eq)
        moreover have "?g - 7 \<le> h" "h \<le> ?g" using that by auto
        ultimately have "8 * q \<le> h" "h < 8 * Suc q" by auto
        then have "h div 8 = ?g div 8" unfolding q_def by (rule div_nat_eqI)
        then show ?thesis using skip by (intro full_byte_test) simp
      qed
      moreover have "stop \<le> f - 8" using skip by linarith
      then have "rev [stop..<f] = rev [?g - 7..<f] @ rev [stop..<?g - 7]"
        using True upt_add_eq_append [of stop "?g - 7" "f - (?g - 7)"]
        by (simp flip: rev_append)
      ultimately have "find (\<lambda>g. \<not> bm_test bm g) (rev [stop..<f])
          = find (\<lambda>g. \<not> bm_test bm g) (rev [stop..<?g - 7])"
        by (simp only: find_none_prefix simp_thms)
      then show ?thesis
        using "1.IH"(1) [OF True refl skip] True skip by (simp add: scan_down.simps [of bm f stop])
    next
      case noskip: False
      have "[stop..<f] = [stop..<?g] @ [?g]" using True
        by (metis Suc_diff_1 Suc_leI Suc_le_mono diff_Suc_1 gr_implies_not0 less_imp_le_nat neq0_conv upt_Suc_append)
      then have "rev [stop..<f] = ?g # rev [stop..<?g]" by simp
      then show ?thesis
        using "1.IH"(2) [OF True refl noskip] True noskip
        by (auto simp: scan_down.simps [of bm f stop])
    qed
  qed
qed

section \<open>Well-formedness: the running count equals the bitmap\<close>

definition used_set :: "pmm64 \<Rightarrow> nat set" where
  "used_set s = {f. f < frame_count s \<and> bm_test (bitmap s) f}"

definition pmm_wf :: "pmm64 \<Rightarrow> bool" where
  "pmm_wf s \<longleftrightarrow> frame_count s \<le> 2 ^ 52 \<and> frame_count s \<le> 8 * length (bitmap s)
               \<and> used_count s = card (used_set s)"

lemma finite_used_set [simp]: "finite (used_set s)"
  by (rule finite_subset [of _ "{..<frame_count s}"]) (auto simp: used_set_def)

lemma card_used_le: "card (used_set s) \<le> frame_count s"
  using card_mono [of "{..<frame_count s}" "used_set s"] by (auto simp: used_set_def)

lemma pmm_wf_byte: "pmm_wf s \<Longrightarrow> f < frame_count s \<Longrightarrow> f div 8 < length (bitmap s)"
  by (simp add: pmm_wf_def less_mult_imp_div_less mult.commute)

lemma bitmap_set_fields [simp]:
  "frame_count (bitmap_set f s) = frame_count s" "refs (bitmap_set f s) = refs s"
  "ram (bitmap_set f s) = ram s" "ready (bitmap_set f s) = ready s"
  "alloc_hint (bitmap_set f s) = alloc_hint s" "high_hint (bitmap_set f s) = high_hint s"
  "bitmap (bitmap_set f s) = bm_set (bitmap s) f" "highest_addr (bitmap_set f s) = highest_addr s"
  "user_oom (bitmap_set f s) = user_oom s" "double_frees (bitmap_set f s) = double_frees s"
  "bitmap_phys_addr (bitmap_set f s) = bitmap_phys_addr s"
  "ram_phys_addr (bitmap_set f s) = ram_phys_addr s"
  "ram_size_bytes (bitmap_set f s) = ram_size_bytes s"
  by (simp_all add: bitmap_set_def)

lemma bitmap_clear_fields [simp]:
  "frame_count (bitmap_clear f s) = frame_count s" "refs (bitmap_clear f s) = refs s"
  "ram (bitmap_clear f s) = ram s" "ready (bitmap_clear f s) = ready s"
  "alloc_hint (bitmap_clear f s) = alloc_hint s" "high_hint (bitmap_clear f s) = high_hint s"
  "bitmap (bitmap_clear f s) = bm_clear (bitmap s) f" "highest_addr (bitmap_clear f s) = highest_addr s"
  "user_oom (bitmap_clear f s) = user_oom s" "double_frees (bitmap_clear f s) = double_frees s"
  "bitmap_phys_addr (bitmap_clear f s) = bitmap_phys_addr s"
  "ram_phys_addr (bitmap_clear f s) = ram_phys_addr s"
  "ram_size_bytes (bitmap_clear f s) = ram_size_bytes s"
  by (simp_all add: bitmap_clear_def)

lemma watch_report_fields [simp]:
  "frame_count (watch_report w f s) = frame_count s" "refs (watch_report w f s) = refs s"
  "ram (watch_report w f s) = ram s" "ready (watch_report w f s) = ready s"
  "alloc_hint (watch_report w f s) = alloc_hint s" "high_hint (watch_report w f s) = high_hint s"
  "bitmap (watch_report w f s) = bitmap s" "used_count (watch_report w f s) = used_count s"
  "user_oom (watch_report w f s) = user_oom s" "double_frees (watch_report w f s) = double_frees s"
  by (simp_all add: watch_report_def)

lemma used_set_bitmap_set:
  "pmm_wf s \<Longrightarrow> f < frame_count s \<Longrightarrow> used_set (bitmap_set f s) = insert f (used_set s)"
  using bm_test_set [OF pmm_wf_byte] by (auto simp: used_set_def)

lemma used_set_bitmap_clear:
  "pmm_wf s \<Longrightarrow> f < frame_count s \<Longrightarrow> used_set (bitmap_clear f s) = used_set s - {f}"
  using bm_test_clear [OF pmm_wf_byte] by (auto simp: used_set_def)

lemma bitmap_set_wf: "pmm_wf s \<Longrightarrow> f < frame_count s \<Longrightarrow> pmm_wf (bitmap_set f s)"
proof -
  assume wf: "pmm_wf s" and f: "f < frame_count s"
  have "used_count (bitmap_set f s) = card (insert f (used_set s))"
  proof (cases "f \<in> used_set s")
    case True
    then show ?thesis using wf by (simp add: bitmap_set_def insert_absorb used_set_def pmm_wf_def)
  next
    case False
    have "used_count s + 1 < 2 ^ 64"
      using wf card_used_le [of s] by (simp add: pmm_wf_def)
    then show ?thesis using wf f False
      by (auto simp: bitmap_set_def used_set_def pmm_wf_def wrap_simps)
  qed
  then show ?thesis
    using wf used_set_bitmap_set [OF wf f] by (simp add: pmm_wf_def)
qed

lemma bitmap_clear_wf: "pmm_wf s \<Longrightarrow> f < frame_count s \<Longrightarrow> pmm_wf (bitmap_clear f s)"
proof -
  assume wf: "pmm_wf s" and f: "f < frame_count s"
  have "used_count (bitmap_clear f s) = card (used_set s - {f})"
  proof (cases "f \<in> used_set s")
    case True
    have "1 \<le> used_count s" "used_count s < 2 ^ 64"
      using wf True card_used_le [of s] card_gt_0_iff [of "used_set s"]
      by (auto simp: pmm_wf_def Suc_le_eq)
    then show ?thesis using wf f True
      by (auto simp: bitmap_clear_def used_set_def pmm_wf_def sub64_exact card_Diff_singleton)
  next
    case False
    then show ?thesis using wf f by (auto simp: bitmap_clear_def used_set_def pmm_wf_def)
  qed
  then show ?thesis
    using wf used_set_bitmap_clear [OF wf f] by (simp add: pmm_wf_def)
qed

lemma pmm_wf_cong:
  "frame_count t = frame_count s \<Longrightarrow> bitmap t = bitmap s \<Longrightarrow> used_count t = used_count s \<Longrightarrow>
     pmm_wf t = pmm_wf s \<and> used_set t = used_set s"
  by (simp add: pmm_wf_def used_set_def)

lemma take_frame_wf:
  "pmm_wf s \<Longrightarrow> f < frame_count s \<Longrightarrow>
     pmm_wf (take_frame f s) \<and> used_set (take_frame f s) = insert f (used_set s)"
  using pmm_wf_cong [of "take_frame f s" "bitmap_set f s"]
  by (simp add: take_frame_def bitmap_set_wf used_set_bitmap_set)

section \<open>Marking ranges\<close>

definition pmm_frame_eq :: "pmm64 \<Rightarrow> pmm64 \<Rightarrow> bool" where
  "pmm_frame_eq s t \<longleftrightarrow> frame_count t = frame_count s \<and> refs t = refs s
     \<and> ready t = ready s \<and> alloc_hint t = alloc_hint s \<and> high_hint t = high_hint s
     \<and> highest_addr t = highest_addr s \<and> bitmap_phys_addr t = bitmap_phys_addr s
     \<and> ram_phys_addr t = ram_phys_addr s \<and> ram_size_bytes t = ram_size_bytes s"

lemma pmm_frame_eq_refl [simp]: "pmm_frame_eq s s"
  by (simp add: pmm_frame_eq_def)

lemma mark_list:
  assumes "pmm_wf s" and "\<forall>f \<in> set fs. f < frame_count s"
  shows "let t = fold (\<lambda>f s. if used then bitmap_set f s else bitmap_clear f s) fs s
         in pmm_wf t \<and> pmm_frame_eq s t \<and> ram t = ram s \<and>
            used_set t = (if used then used_set s \<union> set fs else used_set s - set fs)"
  using assms
proof (induction fs arbitrary: s)
  case (Cons f fs)
  let ?s = "if used then bitmap_set f s else bitmap_clear f s"
  have "pmm_wf ?s" "frame_count ?s = frame_count s"
    using Cons.prems by (auto simp: bitmap_set_wf bitmap_clear_wf)
  moreover have "used_set ?s = (if used then insert f (used_set s) else used_set s - {f})"
    using Cons.prems by (auto simp: used_set_bitmap_set used_set_bitmap_clear)
  moreover have "pmm_frame_eq s ?s" "ram ?s = ram s" by (auto simp: pmm_frame_eq_def)
  ultimately show ?case
    using Cons.IH [of ?s] Cons.prems by (auto simp: Let_def pmm_frame_eq_def)
qed simp

lemma mark_range_spec:
  fixes a n :: nat and used :: bool
  assumes "pmm_wf s"
  defines "t \<equiv> mark_range a n used s" and "R \<equiv> {f. a \<le> f \<and> f < a + n \<and> f < frame_count s}"
  shows "pmm_wf t \<and> pmm_frame_eq s t \<and> ram t = ram s
       \<and> used_set t = (if used then used_set s \<union> R else used_set s - R)"
proof -
  have R: "set [a..<min (a + n) (frame_count s)] = R" by (auto simp: R_def)
  have "\<forall>f \<in> set [a..<min (a + n) (frame_count s)]. f < frame_count s" by simp
  from mark_list [OF assms(1) this, of used] show ?thesis
    by (simp only: Let_def t_def mark_range_def R)
qed

section \<open>Initialisation: what is free afterwards\<close>

definition ram_wf :: "pmm64 \<Rightarrow> bool" where
  "ram_wf s \<longleftrightarrow> (\<exists>r. ram s = Some r \<and> frame_count s \<le> 8 * length r)"

definition ram_set :: "pmm64 \<Rightarrow> nat set" where
  "ram_set s = {f. f < frame_count s \<and> (\<exists>r. ram s = Some r \<and> bm_test r f)}"

text \<open>The regions the memory map offers, in the order both passes visit them, and the whole
  frames inside one of them.\<close>

definition regions :: "multiboot_info \<Rightarrow> (nat \<times> nat) list" where
  "regions mbi =
     (if \<not> bit (mb_flags mbi) 6
      then [(0, mem_lower mbi * 1024), (0x100000, 0x100000 + mem_upper mbi * 1024)]
      else map (\<lambda>e. (e_addr e, add64 (e_addr e) (e_len e)))
             (filter (\<lambda>e. e_type e = 1 \<and> e_len e > 0) (mmap mbi)))"

definition region_frames :: "nat \<times> nat \<Rightarrow> nat set" where
  "region_frames r = {f. fst r div FRAME_SIZE \<le> f \<and> f < snd r div FRAME_SIZE}"

definition touched_frames :: "nat \<Rightarrow> nat \<Rightarrow> nat set" where
  "touched_frames a b = {f. a div FRAME_SIZE \<le> f \<and> f < add64 b (FRAME_SIZE - 1) div FRAME_SIZE}"

lemma for_each_available_fold:
  "for_each_available mbi fn s = fold (\<lambda>r. fn (fst r) (snd r)) (regions mbi) s"
proof -
  have "fold (\<lambda>e s. if e_type e = 1 \<and> e_len e > 0
                 then fn (e_addr e) (add64 (e_addr e) (e_len e)) s else s) es s
      = fold (\<lambda>r. fn (fst r) (snd r)) (map (\<lambda>e. (e_addr e, add64 (e_addr e) (e_len e)))
             (filter (\<lambda>e. e_type e = 1 \<and> e_len e > 0) es)) s" for es
    by (induction es arbitrary: s) auto
  then show ?thesis
    by (cases "bit (mb_flags mbi) 6")
       (simp_all only: for_each_available_def regions_def if_True if_False simp_thms fold_simps fst_conv snd_conv)
qed

lemma note_highest_fields:
  "pmm_frame_eq (s\<lparr>highest_addr := 0\<rparr>) ((fold (\<lambda>r. note_highest (fst r) (snd r)) rs s)\<lparr>highest_addr := 0\<rparr>)"
proof (induction rs arbitrary: s)
  case (Cons r rs)
  show ?case using Cons [of "note_highest (fst r) (snd r) s"]
    by (auto simp: note_highest_def pmm_frame_eq_def split: if_splits)
qed simp

lemma bm_set_list:
  assumes "\<forall>f \<in> set fs. f div 8 < length r"
  shows "length (fold (\<lambda>f r. bm_set r f) fs r) = length r
       \<and> (\<forall>g. bm_test (fold (\<lambda>f r. bm_set r f) fs r) g \<longleftrightarrow> g \<in> set fs \<or> bm_test r g)"
  using assms by (induction fs arbitrary: r) (auto simp: bm_test_set)

lemma free_region_spec:
  fixes a b :: nat
  assumes "pmm_wf s" and "ram_wf s"
  defines "t \<equiv> free_region a b s" and "R \<equiv> region_frames (a, b) \<inter> {f. f < frame_count s}"
  shows "pmm_wf t \<and> ram_wf t \<and> pmm_frame_eq s t
       \<and> used_set t = used_set s - R \<and> ram_set t = ram_set s \<union> R"
proof -
  let ?sf = "a div FRAME_SIZE" and ?ef = "b div FRAME_SIZE"
  define s1 where "s1 = (if ?ef > ?sf then mark_range ?sf (?ef - ?sf) False s else s)"
  have s1: "pmm_wf s1 \<and> pmm_frame_eq s s1 \<and> ram s1 = ram s \<and> used_set s1 = used_set s - R"
    using mark_range_spec [OF assms(1), of ?sf "?ef - ?sf" False] assms(1)
    by (auto simp: s1_def R_def region_frames_def)
  obtain r where r: "ram s = Some r" "frame_count s \<le> 8 * length r"
    using assms(2) by (auto simp: ram_wf_def)
  have fc: "frame_count s1 = frame_count s" using s1 by (simp add: pmm_frame_eq_def)
  let ?fs = "[?sf..<min ?ef (frame_count s)]"
  have "\<forall>f \<in> set ?fs. f div 8 < length r"
    using r(2) by (auto simp: less_mult_imp_div_less mult.commute)
  note rs = bm_set_list [OF this]
  have t: "t = s1\<lparr>ram := Some (fold (\<lambda>f r. bm_set r f) ?fs r)\<rparr>"
    using s1 r fc by (simp add: t_def free_region_def s1_def Let_def)
  have "set ?fs = R" by (auto simp: R_def region_frames_def)
  then show ?thesis
    using s1 rs r fc pmm_wf_cong [of t s1]
    by (auto simp: t ram_wf_def ram_set_def pmm_frame_eq_def)
qed

lemma free_regions_spec:
  fixes rs :: "(nat \<times> nat) list"
  assumes "pmm_wf s" and "ram_wf s"
  defines "t \<equiv> fold (\<lambda>r. free_region (fst r) (snd r)) rs s"
    and "R \<equiv> (\<Union>r \<in> set rs. region_frames r) \<inter> {f. f < frame_count s}"
  shows "pmm_wf t \<and> ram_wf t \<and> pmm_frame_eq s t
       \<and> used_set t = used_set s - R \<and> ram_set t = ram_set s \<union> R"
  using assms(1,2) unfolding t_def R_def
proof (induction rs arbitrary: s)
  case (Cons r rs)
  let ?s = "free_region (fst r) (snd r) s"
  note one = free_region_spec [OF Cons.prems, of "fst r" "snd r"]
  show ?case
    using Cons.IH [of ?s] one by (auto simp: pmm_frame_eq_def)
qed simp

lemma reserve_region_spec:
  fixes a b :: nat
  assumes "pmm_wf s"
  defines "t \<equiv> pmm64_reserve_region a b s"
  shows "pmm_wf t \<and> pmm_frame_eq s t \<and> ram t = ram s
       \<and> used_set t = used_set s \<union> (touched_frames a b \<inter> {f. f < frame_count s})"
  using mark_range_spec [OF assms(1), of "a div FRAME_SIZE"
      "add64 b (FRAME_SIZE - 1) div FRAME_SIZE - a div FRAME_SIZE" True] assms(1)
  by (auto simp: t_def pmm64_reserve_region_def touched_frames_def Let_def)

text \<open>The invariant of the allocator once it is ready.\<close>

definition pmm_inv :: "pmm64 \<Rightarrow> bool" where
  "pmm_inv s \<longleftrightarrow> (ready s \<longrightarrow> pmm_wf s
     \<and> (\<exists>rs. refs s = Some rs \<and> length rs = frame_count s
             \<and> (\<forall>f < frame_count s. \<not> bm_test (bitmap s) f \<longrightarrow> rs ! f = 0))
     \<and> alloc_hint s \<le> frame_count s \<and> high_hint s \<le> frame_count s)"

definition offered :: "multiboot_info \<Rightarrow> nat set" where
  "offered mbi = (\<Union>r \<in> set (regions mbi). region_frames r)"

definition taken_back :: "nat \<Rightarrow> nat \<Rightarrow> pmm64 \<Rightarrow> nat set" where
  "taken_back ks ke s = {f. f < 256} \<union> touched_frames ks ke
     \<union> touched_frames (bitmap_phys_addr s) (ram_phys_addr s + ram_size_bytes s)"

definition init_post :: "multiboot_info \<Rightarrow> nat \<Rightarrow> nat \<Rightarrow> pmm64 \<Rightarrow> bool" where
  "init_post mbi ks ke s \<longleftrightarrow> pmm_inv s \<and> ram_wf s
     \<and> ram_set s = offered mbi \<inter> {f. f < frame_count s}
     \<and> used_set s = {f. f < frame_count s} - (offered mbi - taken_back ks ke s)
     \<and> refs s = Some (replicate (frame_count s) 0)"

lemma init_tables_spec:
  assumes fc: "frame_count s0 \<le> 2 ^ 52"
    and sizes: "bitmap_size_bytes s0 = (frame_count s0 + 7) div 8" "refs_size_bytes s0 = frame_count s0"
       "ram_size_bytes s0 = (frame_count s0 + 7) div 8"
    and hints: "alloc_hint s0 = 0" "high_hint s0 = frame_count s0"
  shows "init_post mbi ks ke (init_tables mbi ks ke place s0)"
proof -
  let ?fc = "frame_count s0"
  define s2 where "s2 = s0\<lparr>bitmap_phys_addr := place,
                refs_phys_addr := place + bitmap_size_bytes s0,
                refs := Some (replicate (refs_size_bytes s0) 0),
                ram_phys_addr := place + bitmap_size_bytes s0 + refs_size_bytes s0,
                ram := Some (replicate (ram_size_bytes s0) 0),
                bitmap := replicate (bitmap_size_bytes s0) 0xFF,
                used_count := frame_count s0\<rparr>"
  define s3 where "s3 = for_each_available mbi free_region s2"
  define s4 where "s4 = mark_range 0 (0x100000 div FRAME_SIZE) True s3"
  define s5 where "s5 = pmm64_reserve_region ks ke s4"
  define s6 where "s6 = pmm64_reserve_region (bitmap_phys_addr s5) (ram_phys_addr s5 + ram_size_bytes s5) s5"
  have s: "init_tables mbi ks ke place s0 = s6\<lparr>ready := True\<rparr>"
    unfolding init_tables_def Let_def s2_def [symmetric] s3_def [symmetric] s4_def [symmetric]
      s5_def [symmetric] s6_def [symmetric] ..
  have in_table: "f div 8 < (?fc + 7) div 8" if "f < ?fc" for f
    using that by (simp add: less_mult_imp_div_less div_less_iff_less_mult)
  have us2: "used_set s2 = {f. f < ?fc}"
    using in_table by (auto simp: used_set_def s2_def sizes intro!: full_byte_test)
  have wf2: "pmm_wf s2" using fc us2 by (simp add: pmm_wf_def s2_def sizes)
  have rw2: "ram_wf s2" by (simp add: ram_wf_def s2_def sizes)
  have rs2: "ram_set s2 = {}"
    using in_table by (auto simp: ram_set_def s2_def sizes bm_test_bit)
  have s2: "frame_count s2 = ?fc" "refs s2 = Some (replicate ?fc 0)" "alloc_hint s2 = 0" "high_hint s2 = ?fc"
    using hints sizes by (simp_all add: s2_def)
  note s3 = free_regions_spec [OF wf2 rw2, of "regions mbi",
      folded for_each_available_fold s3_def offered_def]
  note s4 = mark_range_spec [of s3 0 "0x100000 div FRAME_SIZE" True, folded s4_def]
  note s5 = reserve_region_spec [of s4 ks ke, folded s5_def]
  note s6 = reserve_region_spec [of s5 "bitmap_phys_addr s5" "ram_phys_addr s5 + ram_size_bytes s5", folded s6_def]
  have 4: "pmm_wf s4" "pmm_frame_eq s3 s4" "ram s4 = ram s3"
      "used_set s4 = used_set s3 \<union> {f. f < 256 \<and> f < ?fc}"
    using s3 s4 s2 by (auto simp: FRAME_SIZE_def pmm_frame_eq_def)
  have 5: "pmm_wf s5" "pmm_frame_eq s3 s5" "ram s5 = ram s3"
      "used_set s5 = used_set s3 \<union> {f. f < 256 \<and> f < ?fc} \<union> (touched_frames ks ke \<inter> {f. f < ?fc})"
    using s5 4 s3 s2 by (auto simp: pmm_frame_eq_def)
  have 6: "pmm_wf s6" "pmm_frame_eq s3 s6" "ram s6 = ram s3"
      "used_set s6 = used_set s3 \<union> (taken_back ks ke s6 \<inter> {f. f < ?fc})"
    using s6 5 s3 s2 by (auto simp: pmm_frame_eq_def taken_back_def)
  have fc6: "frame_count s6 = ?fc" "refs s6 = Some (replicate ?fc 0)" "alloc_hint s6 = 0" "high_hint s6 = ?fc"
    using 6 s3 s2 by (auto simp: pmm_frame_eq_def)
  let ?t = "s6\<lparr>ready := True\<rparr>"
  have u: "used_set ?t = used_set s6" "ram_set ?t = ram_set s6" "taken_back ks ke ?t = taken_back ks ke s6"
    by (simp_all add: used_set_def ram_set_def taken_back_def)
  have "pmm_wf ?t" using 6 pmm_wf_cong [of ?t s6] by simp
  then have "pmm_inv ?t" using fc6 by (simp add: pmm_inv_def)
  moreover have "ram_wf ?t"
    using 6 s3 by (auto simp: ram_wf_def pmm_frame_eq_def)
  moreover have "ram_set ?t = offered mbi \<inter> {f. f < ?fc}"
  proof -
    have "ram_set s6 = ram_set s3" using 6 by (simp add: ram_set_def pmm_frame_eq_def)
    then show ?thesis using s3 s2 rs2 by (simp add: u)
  qed
  moreover have "used_set ?t = {f. f < ?fc} - (offered mbi - taken_back ks ke ?t)"
    using 6 s3 s2 us2 unfolding u by auto
  ultimately show ?thesis by (simp add: s init_post_def fc6)
qed

lemma pmm64_init_spec:
  "\<not> ready (pmm64_init mbi ks ke s0) \<or> init_post mbi ks ke (pmm64_init mbi ks ke s0)"
proof -
  define s1 where "s1 = for_each_available mbi note_highest
     (s0\<lparr>ready := False, highest_addr := 0, double_frees := 0, alloc_hint := 0\<rparr>)"
  define fc where "fc = add64 (highest_addr s1) (FRAME_SIZE - 1) div FRAME_SIZE"
  have s1: "ready s1 = False" "alloc_hint s1 = 0"
    using note_highest_fields [of "s0\<lparr>ready := False, highest_addr := 0, double_frees := 0, alloc_hint := 0\<rparr>" "regions mbi"]
    by (simp_all add: s1_def for_each_available_fold pmm_frame_eq_def)
  have fc: "fc \<le> 2 ^ 52"
    using add64_lt [of "highest_addr s1" "FRAME_SIZE - 1"] by (simp add: fc_def FRAME_SIZE_def)
  define s2 where "s2 = s1\<lparr>frame_count := fc, bitmap_size_bytes := (fc + 7) div 8, high_hint := fc,
      refs_size_bytes := fc, ram_size_bytes := (fc + 7) div 8\<rparr>"
  have post: "init_post mbi ks ke (init_tables mbi ks ke place s2)" for place
    using fc s1 by (intro init_tables_spec) (simp_all add: s2_def)
  then show ?thesis
    using s1 unfolding pmm64_init_def Let_def s1_def [symmetric] fc_def [symmetric]
    by (simp add: s2_def)
qed

section \<open>Allocation, freeing and sharing\<close>

lemma used_set_upd [simp]:
  "used_set (s\<lparr>alloc_hint := a\<rparr>) = used_set s" "used_set (s\<lparr>high_hint := a\<rparr>) = used_set s"
  "used_set (s\<lparr>user_oom := b\<rparr>) = used_set s" "used_set (s\<lparr>double_frees := a\<rparr>) = used_set s"
  "used_set (s\<lparr>refs := r\<rparr>) = used_set s" "used_set (watch_report w f s) = used_set s"
  by (simp_all add: used_set_def)

lemma pmm_wf_upd [simp]:
  "pmm_wf (s\<lparr>alloc_hint := a\<rparr>) = pmm_wf s" "pmm_wf (s\<lparr>high_hint := a\<rparr>) = pmm_wf s"
  "pmm_wf (s\<lparr>user_oom := b\<rparr>) = pmm_wf s" "pmm_wf (s\<lparr>double_frees := a\<rparr>) = pmm_wf s"
  "pmm_wf (s\<lparr>refs := r\<rparr>) = pmm_wf s" "pmm_wf (watch_report w f s) = pmm_wf s"
  by (simp_all add: pmm_wf_def)

definition free_frame_of :: "pmm64 \<Rightarrow> nat \<Rightarrow> bool" where
  "free_frame_of s f \<longleftrightarrow> f < frame_count s \<and> \<not> bm_test (bitmap s) f"

text \<open>Which frame each allocator picks: the first free one in its order of search.\<close>

definition low_order :: "pmm64 \<Rightarrow> nat list" where
  "low_order s = [alloc_hint s..<frame_count s] @ [0..<alloc_hint s]"

definition high_order :: "pmm64 \<Rightarrow> nat list" where
  "high_order s = rev [0..<high_hint s] @ rev [high_hint s..<frame_count s]"

lemma pmm64_alloc_frame_find:
  "ready s \<Longrightarrow> pmm64_alloc_frame s =
     (case find (\<lambda>f. \<not> bm_test (bitmap s) f) (low_order s) of
        Some f \<Rightarrow> (mul64 f FRAME_SIZE, (take_frame f s)\<lparr>alloc_hint := f + 1\<rparr>)
      | None \<Rightarrow> (0, s))"
  by (simp add: pmm64_alloc_frame_def scan_up_find low_order_def find_append split: option.splits)

lemma set_low_order: "alloc_hint s \<le> frame_count s \<Longrightarrow> set (low_order s) = {f. f < frame_count s}"
  by (auto simp: low_order_def)

lemma set_high_order: "high_hint s \<le> frame_count s \<Longrightarrow> set (high_order s) = {f. f < frame_count s}"
  by (auto simp: high_order_def)

lemma find_no_free: "find (\<lambda>f. \<not> bm_test (bitmap s) f) xs = None \<Longrightarrow> set xs = {f. f < frame_count s} \<Longrightarrow>
    \<not> free_frame_of s f"
  by (auto simp: find_None_iff free_frame_of_def)

lemma pmm64_alloc_high_find:
  assumes "ready s" and "pmm_inv s"
  shows "pmm64_alloc_high s =
     (case find (\<lambda>f. \<not> bm_test (bitmap s) f) (high_order s) of
        Some f \<Rightarrow> (mul64 f FRAME_SIZE, (take_frame f s)\<lparr>high_hint := f\<rparr>)
      | None \<Rightarrow> (0, s))"
proof -
  have le: "high_hint s \<le> frame_count s" "alloc_hint s \<le> frame_count s"
    using assms by (auto simp: pmm_inv_def)
  have none: "pmm64_alloc_frame s = (0, s)"
    if "find (\<lambda>f. \<not> bm_test (bitmap s) f) (high_order s) = None"
  proof -
    have "find (\<lambda>f. \<not> bm_test (bitmap s) f) (low_order s) = None"
      using that by (simp add: find_None_iff set_low_order [OF le(2)] set_high_order [OF le(1)])
    then show ?thesis by (simp add: pmm64_alloc_frame_find [OF assms(1)])
  qed
  show ?thesis
    using assms(1) le none
    by (auto simp: pmm64_alloc_high_def scan_down_find high_order_def find_append Let_def
          split: option.splits)
qed

lemma frame_fits: "pmm_wf s \<Longrightarrow> f < frame_count s \<Longrightarrow> mul64 f FRAME_SIZE = f * FRAME_SIZE"
  by (rule mul64_exact) (simp add: pmm_wf_def FRAME_SIZE_def)

lemma frame_back [simp]: "f * FRAME_SIZE div FRAME_SIZE = f"
  by (simp add: FRAME_SIZE_def)

lemma take_frame_fields [simp]:
  "frame_count (take_frame f s) = frame_count s" "refs (take_frame f s) = refs s"
  "ram (take_frame f s) = ram s" "ready (take_frame f s) = ready s"
  "alloc_hint (take_frame f s) = alloc_hint s" "high_hint (take_frame f s) = high_hint s"
  "user_oom (take_frame f s) = user_oom s" "bitmap (take_frame f s) = bm_set (bitmap s) f"
  by (simp_all add: take_frame_def)

lemma pmm_inv_take:
  assumes "pmm_inv s" and "ready s" and "f < frame_count s"
  shows "pmm_inv (take_frame f s)"
  using assms take_frame_wf [of s f] bm_test_set [OF pmm_wf_byte, of s f]
  by (auto simp: pmm_inv_def)

text \<open>The table of owners the allocator maintains: 0 for a frame that is free or not described.\<close>

definition owners :: "pmm64 \<Rightarrow> nat \<Rightarrow> nat" where
  "owners s f = (if ready s \<and> f < frame_count s \<and> bm_test (bitmap s) f
                 then 1 + extra_owners f s else 0)"

lemma pmm64_frame_owners_eq: "pmm64_frame_owners p s = owners s (p div FRAME_SIZE)"
  by (simp add: pmm64_frame_owners_def owners_def bitmap_test_def Let_def)

lemma extra_owners_cong: "refs t = refs s \<Longrightarrow> extra_owners f t = extra_owners f s"
  by (simp add: extra_owners_def)

lemma free_no_extra: "pmm_inv s \<Longrightarrow> ready s \<Longrightarrow> free_frame_of s f \<Longrightarrow> extra_owners f s = 0"
  by (auto simp: pmm_inv_def free_frame_of_def extra_owners_def)

lemma owners_take:
  assumes "pmm_inv s" and "ready s" and "free_frame_of s f"
  shows "owners (take_frame f s) = (owners s)(f := 1)"
proof -
  have "pmm_wf s" "f < frame_count s" using assms by (auto simp: pmm_inv_def free_frame_of_def)
  then show ?thesis
    using assms free_no_extra [OF assms] bm_test_set [OF pmm_wf_byte, of s f]
    by (auto simp: owners_def fun_eq_iff extra_owners_cong [of "take_frame f s" s])
qed

lemma owners_upd [simp]:
  "owners (s\<lparr>alloc_hint := a\<rparr>) = owners s" "owners (s\<lparr>high_hint := a\<rparr>) = owners s"
  "owners (s\<lparr>user_oom := b\<rparr>) = owners s" "owners (s\<lparr>double_frees := a\<rparr>) = owners s"
  "owners (watch_report w f s) = owners s"
  by (simp_all add: owners_def extra_owners_def fun_eq_iff)

lemma pmm_inv_upd:
  "pmm_inv s \<Longrightarrow> (ready s \<longrightarrow> a \<le> frame_count s) \<Longrightarrow> pmm_inv (s\<lparr>alloc_hint := a\<rparr>)"
  "pmm_inv s \<Longrightarrow> (ready s \<longrightarrow> a \<le> frame_count s) \<Longrightarrow> pmm_inv (s\<lparr>high_hint := a\<rparr>)"
  "pmm_inv s \<Longrightarrow> pmm_inv (s\<lparr>user_oom := b\<rparr>)"
  "pmm_inv s \<Longrightarrow> pmm_inv (s\<lparr>double_frees := a\<rparr>)"
  "pmm_inv s \<Longrightarrow> pmm_inv (watch_report w f s)"
  by (auto simp: pmm_inv_def)

lemma owners_free_iff: "pmm_inv s \<Longrightarrow> ready s \<Longrightarrow> f < frame_count s \<Longrightarrow> free_frame_of s f \<longleftrightarrow> owners s f = 0"
  by (simp add: owners_def free_frame_of_def)

text \<open>What both searches do, as one relation between the result and the two states.\<close>

definition alloc_step :: "pmm64 \<Rightarrow> nat \<Rightarrow> pmm64 \<Rightarrow> bool" where
  "alloc_step s p s' \<longleftrightarrow> pmm_inv s' \<and> ready s' = ready s \<and> frame_count s' = frame_count s \<and> ram s' = ram s \<and>
     ((p = 0 \<and> owners s' = owners s \<and> (\<forall>f. \<not> (ready s \<and> free_frame_of s f)))
      \<or> (ready s \<and> (\<exists>f. p = f * FRAME_SIZE \<and> free_frame_of s f \<and> owners s' = (owners s)(f := 1))))"

lemma alloc_frame_step:
  assumes "pmm_inv s"
  shows "alloc_step s (fst (pmm64_alloc_frame s)) (snd (pmm64_alloc_frame s))"
proof (cases "ready s")
  case True
  then have wf: "pmm_wf s" and le: "alloc_hint s \<le> frame_count s"
    using assms by (auto simp: pmm_inv_def)
  show ?thesis
  proof (cases "find (\<lambda>f. \<not> bm_test (bitmap s) f) (low_order s)")
    case None
    then show ?thesis
      using True assms find_no_free [OF None set_low_order [OF le]]
      by (simp add: pmm64_alloc_frame_find alloc_step_def)
  next
    case (Some f)
    then have "free_frame_of s f"
      using set_low_order [OF le] by (auto simp: find_Some_iff free_frame_of_def)
    moreover from this have "f < frame_count s" by (simp add: free_frame_of_def)
    ultimately show ?thesis
      using True assms Some frame_fits [OF wf] owners_take [OF assms True]
        pmm_inv_upd(1) [OF pmm_inv_take [OF assms True]]
      by (auto simp: pmm64_alloc_frame_find alloc_step_def Suc_le_eq)
  qed
qed (use assms in \<open>simp add: pmm64_alloc_frame_def alloc_step_def\<close>)

lemma alloc_high_step:
  assumes "pmm_inv s"
  shows "alloc_step s (fst (pmm64_alloc_high s)) (snd (pmm64_alloc_high s))"
proof (cases "ready s")
  case True
  then have wf: "pmm_wf s" and le: "high_hint s \<le> frame_count s"
    using assms by (auto simp: pmm_inv_def)
  show ?thesis
  proof (cases "find (\<lambda>f. \<not> bm_test (bitmap s) f) (high_order s)")
    case None
    then show ?thesis
      using True assms find_no_free [OF None set_high_order [OF le]]
      by (simp add: pmm64_alloc_high_find alloc_step_def)
  next
    case (Some f)
    then have "free_frame_of s f"
      using set_high_order [OF le] by (auto simp: find_Some_iff free_frame_of_def)
    moreover from this have "f < frame_count s" by (simp add: free_frame_of_def)
    ultimately show ?thesis
      using True assms Some frame_fits [OF wf] owners_take [OF assms True]
        pmm_inv_upd(2) [OF pmm_inv_take [OF assms True]]
      by (auto simp: pmm64_alloc_high_find alloc_step_def)
  qed
qed (use assms in \<open>simp add: pmm64_alloc_high_def alloc_step_def\<close>)

lemma pmm_invE:
  assumes "pmm_inv s" and "ready s"
  obtains rs where "pmm_wf s" "refs s = Some rs" "length rs = frame_count s"
    "\<forall>f < frame_count s. \<not> bm_test (bitmap s) f \<longrightarrow> rs ! f = 0"
    "alloc_hint s \<le> frame_count s" "high_hint s \<le> frame_count s"
  using assms unfolding pmm_inv_def by blast

lemma owners_drop_ref:
  assumes "refs s = Some rs" and "length rs = frame_count s" and "ready s" and "f < frame_count s"
    and "bm_test (bitmap s) f" and "rs ! f \<noteq> 0"
  shows "owners (s\<lparr>refs := Some (rs[f := rs ! f - 1])\<rparr>) = (owners s)(f := owners s f - 1)"
proof -
  have pos: "0 < unat (rs ! f)" using assms(6) by (simp add: unat_gt_0)
  then have "unat (rs ! f - 1) = unat (rs ! f) - 1"
    using assms(6) unat_minus_one by blast
  then show ?thesis using assms pos by (auto simp: owners_def extra_owners_def fun_eq_iff)
qed

lemma owners_add_ref:
  assumes "refs s = Some rs" and "length rs = frame_count s" and "ready s" and "f < frame_count s"
    and "bm_test (bitmap s) f" and "rs ! f < 255"
  shows "owners (s\<lparr>refs := Some (rs[f := rs ! f + 1])\<rparr>) = (owners s)(f := owners s f + 1)"
proof -
  have "unat (rs ! f) < 255" using assms(6) by (simp add: word_less_nat_alt)
  then have "unat (rs ! f + 1) = unat (rs ! f) + 1" by (simp add: unat_word_ariths)
  then show ?thesis using assms by (auto simp: owners_def extra_owners_def fun_eq_iff)
qed

lemma owners_clear:
  assumes "pmm_wf s" and "ready s" and "f < frame_count s"
  shows "owners (bitmap_clear f s) = (owners s)(f := 0)"
  using assms bm_test_clear [OF pmm_wf_byte, of s f]
  by (auto simp: owners_def fun_eq_iff extra_owners_cong [of "bitmap_clear f s" s])

text \<open>The branch of \<open>pmm64_free_frame\<close> that gives the frame back.\<close>

definition give_back :: "nat \<Rightarrow> pmm64 \<Rightarrow> pmm64" where
  "give_back f s =
     (let s = watch_report ''FREED to allocator'' f (bitmap_clear f s);
          s = (if f < alloc_hint s then s\<lparr>alloc_hint := f\<rparr> else s)
      in if f \<ge> high_hint s then s\<lparr>high_hint := f + 1\<rparr> else s)"

lemma give_back_step:
  assumes "pmm_inv s" and "ready s" and "f < frame_count s" and "extra_owners f s = 0"
  shows "pmm_inv (give_back f s) \<and> ready (give_back f s) \<and> frame_count (give_back f s) = frame_count s
       \<and> ram (give_back f s) = ram s \<and> owners (give_back f s) = (owners s)(f := 0)"
proof -
  from assms(1,2) obtain rs where rs: "pmm_wf s" "refs s = Some rs" "length rs = frame_count s"
    "\<forall>f < frame_count s. \<not> bm_test (bitmap s) f \<longrightarrow> rs ! f = 0"
    "alloc_hint s \<le> frame_count s" "high_hint s \<le> frame_count s" by (rule pmm_invE)
  have "rs ! f = 0" using assms(4) rs(2) by (simp add: extra_owners_def unsigned_eq_0_iff)
  then have "pmm_inv (bitmap_clear f s)"
    using assms rs bitmap_clear_wf [OF rs(1) assms(3)] bm_test_clear [OF pmm_wf_byte, OF rs(1) assms(3)]
    by (auto simp: pmm_inv_def)
  then show ?thesis
    using assms rs owners_clear [OF rs(1) assms(2,3)]
    by (auto simp: give_back_def Let_def intro!: pmm_inv_upd)
qed

lemma free_frame_step:
  fixes p :: nat
  assumes "pmm_inv s"
  defines "s' \<equiv> pmm64_free_frame p s" and "f \<equiv> p div FRAME_SIZE"
  shows "pmm_inv s' \<and> ready s' = ready s \<and> frame_count s' = frame_count s \<and> ram s' = ram s
       \<and> owners s' = (owners s)(f := owners s f - 1)"
proof (cases "ready s \<and> f < frame_count s \<and> bm_test (bitmap s) f")
  case False
  then have z: "owners s f = 0" by (auto simp: owners_def)
  have same: "(owners s)(f := 0) = owners s" using z by (metis fun_upd_triv)
  show ?thesis using False assms(1) same z
    by (auto simp: s'_def pmm64_free_frame_def f_def [symmetric] bitmap_test_def Let_def pmm_inv_upd)
next
  case True
  then have "ready s" by simp
  with assms(1) obtain rs where rs: "pmm_wf s" "refs s = Some rs" "length rs = frame_count s"
    "\<forall>f < frame_count s. \<not> bm_test (bitmap s) f \<longrightarrow> rs ! f = 0"
    "alloc_hint s \<le> frame_count s" "high_hint s \<le> frame_count s"
    by (rule pmm_invE)
  show ?thesis
  proof (cases "extra_owners f s = 0")
    case True: True
    then have "s' = give_back f s" and "owners s f = 1"
      using \<open>ready s \<and> f < frame_count s \<and> bm_test (bitmap s) f\<close>
      by (auto simp: s'_def pmm64_free_frame_def f_def [symmetric] bitmap_test_def Let_def give_back_def owners_def)
    then show ?thesis
      using give_back_step [OF assms(1) _ _ True] \<open>ready s \<and> f < frame_count s \<and> bm_test (bitmap s) f\<close>
      by simp
  next
    case False
    then have nz: "rs ! f \<noteq> 0" using rs(2) by (auto simp: extra_owners_def)
    let ?t = "s\<lparr>refs := Some (rs[f := rs ! f - 1])\<rparr>"
    have "s' = watch_report ''unref'' f ?t"
      using False True rs(2)
      by (auto simp: s'_def pmm64_free_frame_def f_def [symmetric] bitmap_test_def Let_def)
    moreover have "pmm_inv ?t"
      using assms(1) True rs by (auto simp: pmm_inv_def nth_list_update)
    ultimately show ?thesis
      using True rs(2,3) owners_drop_ref [of s rs f] nz by (simp add: pmm_inv_upd)
  qed
qed

lemma ref_frame_step:
  fixes p :: nat
  assumes "pmm_inv s"
  defines "r \<equiv> pmm64_ref_frame p s" and "f \<equiv> p div FRAME_SIZE"
  shows "(fst r \<longleftrightarrow> 0 < owners s f \<and> owners s f < 256)
       \<and> pmm_inv (snd r) \<and> ready (snd r) = ready s \<and> frame_count (snd r) = frame_count s \<and> ram (snd r) = ram s
       \<and> owners (snd r) = (if fst r then (owners s)(f := owners s f + 1) else owners s)"
proof (cases "ready s \<and> f < frame_count s \<and> bm_test (bitmap s) f")
  case False
  then show ?thesis
    using assms(1)
    by (auto simp: r_def pmm64_ref_frame_def f_def [symmetric] bitmap_test_def Let_def owners_def
        split: option.splits)
next
  case True
  then have "ready s" by simp
  with assms(1) obtain rs where rs: "pmm_wf s" "refs s = Some rs" "length rs = frame_count s"
    "\<forall>f < frame_count s. \<not> bm_test (bitmap s) f \<longrightarrow> rs ! f = 0"
    "alloc_hint s \<le> frame_count s" "high_hint s \<le> frame_count s"
    by (rule pmm_invE)
  have ow: "owners s f = 1 + unat (rs ! f)" using True rs(2) by (simp add: owners_def extra_owners_def)
  show ?thesis
  proof (cases "rs ! f < 255")
    case True: True
    let ?t = "s\<lparr>refs := Some (rs[f := rs ! f + 1])\<rparr>"
    have "r = (True, watch_report ''ref'' f ?t)"
      using True rs(2) \<open>ready s \<and> f < frame_count s \<and> bm_test (bitmap s) f\<close>
      by (auto simp: r_def pmm64_ref_frame_def f_def [symmetric] bitmap_test_def Let_def)
    moreover have "pmm_inv ?t"
      using assms(1) rs \<open>ready s \<and> f < frame_count s \<and> bm_test (bitmap s) f\<close>
      by (auto simp: pmm_inv_def nth_list_update)
    moreover have "unat (rs ! f) < 255" using True by (simp add: word_less_nat_alt)
    ultimately show ?thesis
      using True rs(2,3) owners_add_ref [of s rs f] ow \<open>ready s \<and> f < frame_count s \<and> bm_test (bitmap s) f\<close>
      by (simp add: pmm_inv_upd)
  next
    case False
    then have "255 \<le> unat (rs ! f)" by (simp add: word_less_nat_alt)
    moreover have "r = (False, s)"
      using False rs(2) True by (auto simp: r_def pmm64_ref_frame_def f_def [symmetric] bitmap_test_def Let_def)
    ultimately show ?thesis using assms(1) ow by simp
  qed
qed

section \<open>Counting the bitmap a byte at a time\<close>

definition byte_count :: "byte \<Rightarrow> nat" where
  "byte_count v = length (filter (bit v) [0..<8])"

lemma nibble_table:
  "\<forall>n \<in> set [0..<16].
     used_bits ! n = length (filter (\<lambda>k. odd (n div 2 ^ k)) [0, 1, 2, 3])"
  by (simp add: used_bits_def upt_rec)

lemma nibble_count:
  fixes w :: byte
  assumes "unat w < 16"
  shows "used_bits ! unat w = length (filter (bit w) [0, 1, 2, 3])"
proof -
  have "unat w \<in> set [0..<16]" using assms by simp
  then have "used_bits ! unat w = length (filter (\<lambda>k. odd (unat w div 2 ^ k)) [0, 1, 2, 3])"
    using nibble_table by blast
  also have "(\<lambda>k. odd (unat w div 2 ^ k)) = bit w"
    by (rule ext) (simp only: bit_iff_odd [of "unat w", symmetric] bit_unsigned_iff possible_bit_nat simp_thms)
  finally show ?thesis .
qed

lemma used_bits_byte:
  "used_bits ! unat (v AND 0xF) + used_bits ! unat (drop_bit 4 v) = byte_count v"
proof -
  have lo: "unat (v AND 0xF) < 16"
    using word_and_le1 [of v 15] by (simp add: word_le_nat_alt)
  have hi: "unat (drop_bit 4 v) < 16"
  proof -
    have "unat (drop_bit 4 v) = unat v div 16"
      using unat_drop_bit_eq [of 4 v] by (simp only: drop_bit_eq_div) simp
    then show ?thesis using unat_lt_8 [of v] by (simp add: less_mult_imp_div_less)
  qed
  have mask: "(0xF :: byte) = mask 4" by (simp add: mask_eq_exp_minus_1)
  have "filter (bit (v AND 0xF)) [0, 1, 2, 3] = filter (bit v) [0, 1, 2, 3]"
    unfolding mask by (simp add: bit_and_iff bit_mask_iff)
  moreover have "length (filter (bit (drop_bit 4 v)) [0, 1, 2, 3]) = length (filter (bit v) [4, 5, 6, 7])"
    by (simp add: bit_drop_bit_eq)
  moreover have "[0..<8] = [0, 1, 2, 3] @ [4, 5, 6, 7 :: nat]" by (simp add: upt_rec)
  ultimately show ?thesis
    unfolding nibble_count [OF lo] nibble_count [OF hi] byte_count_def by simp
qed

lemma fold_count: "fold (\<lambda>x acc. acc + g x) xs a = a + (\<Sum>x \<leftarrow> xs. g x)"
  for a :: nat
  by (induction xs arbitrary: a) auto

lemma byte_count_card: "byte_count (bm ! b) = card {f. 8 * b \<le> f \<and> f < 8 * b + 8 \<and> bm_test bm f}"
proof -
  have "{f. 8 * b \<le> f \<and> f < 8 * b + 8 \<and> bm_test bm f} = (\<lambda>k. 8 * b + k) ` {k. k < 8 \<and> bit (bm ! b) k}"
    (is "?L = ?R")
  proof (rule set_eqI, rule iffI)
    fix f assume "f \<in> ?L"
    then have f: "f = 8 * b + (f - 8 * b)" "f - 8 * b < 8" "f div 8 = b" and "bm_test bm f"
      by (auto intro: div_nat_eqI)
    moreover have "f mod 8 = f - 8 * b"
      using minus_div_mult_eq_mod [of f 8] f(3) by (simp add: mult.commute)
    ultimately show "f \<in> ?R"
      by (intro image_eqI [where x = "f - 8 * b"]) (simp_all add: bm_test_bit)
  next
    fix f assume "f \<in> ?R"
    then show "f \<in> ?L" by (auto simp: bm_test_bit)
  qed
  then have "card ?L = card {k. k < 8 \<and> bit (bm ! b) k}"
    by (simp add: card_image inj_on_def)
  then show ?thesis
    by (simp add: byte_count_def length_filter_conv_card cong: conj_cong)
qed

lemma whole_bytes_count:
  "(\<Sum>b \<leftarrow> [0..<n]. byte_count (bm ! b)) = card {f. f < 8 * n \<and> bm_test bm f}"
proof (induction n)
  case (Suc n)
  have "{f. f < 8 * Suc n \<and> bm_test bm f}
      = {f. f < 8 * n \<and> bm_test bm f} \<union> {f. 8 * n \<le> f \<and> f < 8 * n + 8 \<and> bm_test bm f}"
    by auto
  moreover have "finite {f. f < 8 * n \<and> bm_test bm f}" "finite {f. 8 * n \<le> f \<and> f < 8 * n + 8 \<and> bm_test bm f}"
    by simp_all
  moreover have "{f. f < 8 * n \<and> bm_test bm f} \<inter> {f. 8 * n \<le> f \<and> f < 8 * n + 8 \<and> bm_test bm f} = {}"
    by auto
  ultimately have "card {f. f < 8 * Suc n \<and> bm_test bm f}
      = card {f. f < 8 * n \<and> bm_test bm f} + card {f. 8 * n \<le> f \<and> f < 8 * n + 8 \<and> bm_test bm f}"
    by (simp only: card_Un_disjoint)
  then show ?case using Suc by (simp add: byte_count_card)
qed simp

lemma tail_count:
  "fold (\<lambda>f used. if P f then used + 1 else used) [a..<b] u = u + card {f. a \<le> f \<and> f < b \<and> P f}"
  for u :: nat
proof -
  have "fold (\<lambda>f used. if P f then used + 1 else used) xs u = u + length (filter P xs)" for xs :: "nat list"
    by (induction xs arbitrary: u) auto
  moreover have "length (filter P [a..<b]) = card {f. a \<le> f \<and> f < b \<and> P f}"
    using distinct_length_filter [of "[a..<b]" P]
    by (simp add: Int_def conj_commute conj_left_commute cong: conj_cong)
  ultimately show ?thesis by simp
qed

lemma scanned_count:
  assumes "ready s"
  shows "pmm64_free_frames_scanned s = frame_count s - card (used_set s)"
proof -
  let ?w = "frame_count s div 8"
  have body: "(\<lambda>b used. if bitmap s ! b = 0xFF then used + 8
        else used + used_bits ! unat (bitmap s ! b AND 0xF) + used_bits ! unat (drop_bit 4 (bitmap s ! b)))
      = (\<lambda>b used. used + byte_count (bitmap s ! b))"
  proof -
    have "byte_count 0xFF = 8"
    proof -
      have "filter (bit (0xFF :: byte)) [0..<8] = [0..<8]"
        by (intro filter_True ballI full_byte_bit) simp
      then show ?thesis by (simp add: byte_count_def)
    qed
    then show ?thesis by (auto simp: fun_eq_iff used_bits_byte [symmetric] add.assoc)
  qed
  have le: "?w * 8 \<le> frame_count s" by simp
  have "used_set s = {f. f < 8 * ?w \<and> bm_test (bitmap s) f}
        \<union> {f. ?w * 8 \<le> f \<and> f < frame_count s \<and> bm_test (bitmap s) f}"
    using le unfolding used_set_def by (auto simp: mult.commute)
  moreover have "{f. f < 8 * ?w \<and> bm_test (bitmap s) f}
        \<inter> {f. ?w * 8 \<le> f \<and> f < frame_count s \<and> bm_test (bitmap s) f} = {}"
    by (auto simp: mult.commute)
  ultimately have "card (used_set s) = card {f. f < 8 * ?w \<and> bm_test (bitmap s) f}
        + card {f. ?w * 8 \<le> f \<and> f < frame_count s \<and> bm_test (bitmap s) f}"
    by (simp add: card_Un_disjoint)
  then show ?thesis
    using assms unfolding pmm64_free_frames_scanned_def Let_def
    by (simp only: body fold_count whole_bytes_count tail_count bitmap_test_def simp_thms if_False Let_def add_0)
qed

section \<open>The allocator meets its contract\<close>

text \<open>Frame 0 is where a null result would be; it is reserved at initialisation and stays so as
  long as nobody frees an address in the first page.\<close>

definition pmm_live :: "pmm64 \<Rightarrow> bool" where
  "pmm_live s \<longleftrightarrow> pmm_inv s \<and> \<not> (ready s \<and> free_frame_of s 0)"

lemma free_frame_of_owners: "ready s \<and> free_frame_of s f \<longleftrightarrow> ready s \<and> f < frame_count s \<and> owners s f = 0"
  by (auto simp: free_frame_of_def owners_def)

lemma alloc_step_cases:
  assumes "alloc_step s p s'" and "pmm_live s"
  shows "pmm_live s'"
    and "p \<noteq> 0 \<Longrightarrow> owners s (p div FRAME_SIZE) = 0 \<and> owners s' = (owners s)(p div FRAME_SIZE := 1)
           \<and> p div FRAME_SIZE \<noteq> 0"
    and "p = 0 \<Longrightarrow> owners s' = owners s"
proof -
  have no0: "\<not> (ready s \<and> free_frame_of s 0)" using assms(2) by (simp add: pmm_live_def)
  have f0: "f \<noteq> 0" if "ready s" "free_frame_of s f" for f using no0 that by metis
  have zb: "owners s' 0 = 0 \<Longrightarrow> owners s 0 = 0"
    using assms(1) unfolding alloc_step_def by (metis fun_upd_apply zero_neq_one)
  have "pmm_inv s'" "ready s' = ready s" "frame_count s' = frame_count s"
    using assms(1) unfolding alloc_step_def by blast+
  then show "pmm_live s'"
    using zb no0 unfolding pmm_live_def free_frame_of_owners by metis
  show "p \<noteq> 0 \<Longrightarrow> owners s (p div FRAME_SIZE) = 0 \<and> owners s' = (owners s)(p div FRAME_SIZE := 1)
           \<and> p div FRAME_SIZE \<noteq> 0"
  proof -
    assume "p \<noteq> 0"
    then obtain f where f: "ready s" "p = f * FRAME_SIZE" "free_frame_of s f" "owners s' = (owners s)(f := 1)"
      using assms(1) unfolding alloc_step_def by blast
    then have "owners s f = 0" using free_frame_of_owners [of s f] by simp
    then show ?thesis using f f0 [OF f(1,3)] by simp
  qed
  show "p = 0 \<Longrightarrow> owners s' = owners s"
    using assms(1) f0 by (auto simp: alloc_step_def FRAME_SIZE_def)
qed

lemma free_live:
  assumes "pmm_live s" and "p div FRAME_SIZE \<noteq> 0"
  shows "pmm_live (pmm64_free_frame p s)"
  using free_frame_step [of s p] assms unfolding pmm_live_def free_frame_of_owners
  by (metis fun_upd_apply)

lemma ref_live: "pmm_live s \<Longrightarrow> pmm_live (snd (pmm64_ref_frame p s))"
  using ref_frame_step [of s p] unfolding pmm_live_def free_frame_of_owners
  by (metis add_is_0 fun_upd_apply)

interpretation low: frame_allocator pmm_live pmm64_alloc_frame pmm64_ref_frame pmm64_free_frame FRAME_SIZE owners
proof unfold_locales
  fix s p
  assume live: "pmm_live s"
  then have step: "alloc_step s (fst (pmm64_alloc_frame s)) (snd (pmm64_alloc_frame s))"
    by (simp add: alloc_frame_step pmm_live_def)
  note c = alloc_step_cases [OF step live]
  show "pmm_live (snd (pmm64_alloc_frame s))" by (rule c)
  show "fst (pmm64_alloc_frame s) \<noteq> 0 \<Longrightarrow> owners s (fst (pmm64_alloc_frame s) div FRAME_SIZE) = 0
      \<and> owners (snd (pmm64_alloc_frame s)) = (owners s)(fst (pmm64_alloc_frame s) div FRAME_SIZE := 1)
      \<and> fst (pmm64_alloc_frame s) div FRAME_SIZE \<noteq> 0" by (rule c)
  show "fst (pmm64_alloc_frame s) = 0 \<Longrightarrow> owners (snd (pmm64_alloc_frame s)) = owners s" by (rule c)
  show "pmm_live (snd (pmm64_ref_frame p s))" using live by (rule ref_live)
  show "owners (snd (pmm64_ref_frame p s)) = (if fst (pmm64_ref_frame p s)
      then (owners s)(p div FRAME_SIZE := owners s (p div FRAME_SIZE) + 1) else owners s)"
    using ref_frame_step [of s p] live by (simp add: pmm_live_def)
  show "p div FRAME_SIZE \<noteq> 0 \<Longrightarrow> pmm_live (pmm64_free_frame p s)" using live by (rule free_live)
  show "owners (pmm64_free_frame p s) = (owners s)(p div FRAME_SIZE := owners s (p div FRAME_SIZE) - 1)"
    using free_frame_step [of s p] live by (simp add: pmm_live_def)
qed

interpretation high: frame_allocator pmm_live pmm64_alloc_high pmm64_ref_frame pmm64_free_frame FRAME_SIZE owners
proof unfold_locales
  fix s p
  assume live: "pmm_live s"
  then have step: "alloc_step s (fst (pmm64_alloc_high s)) (snd (pmm64_alloc_high s))"
    by (simp add: alloc_high_step pmm_live_def)
  note c = alloc_step_cases [OF step live]
  show "pmm_live (snd (pmm64_alloc_high s))" by (rule c)
  show "fst (pmm64_alloc_high s) \<noteq> 0 \<Longrightarrow> owners s (fst (pmm64_alloc_high s) div FRAME_SIZE) = 0
      \<and> owners (snd (pmm64_alloc_high s)) = (owners s)(fst (pmm64_alloc_high s) div FRAME_SIZE := 1)
      \<and> fst (pmm64_alloc_high s) div FRAME_SIZE \<noteq> 0" by (rule c)
  show "fst (pmm64_alloc_high s) = 0 \<Longrightarrow> owners (snd (pmm64_alloc_high s)) = owners s" by (rule c)
qed (fact low.ref_inv low.ref_counts low.free_inv low.free_counts)+

section \<open>The remaining operations\<close>

lemma alloc_above_step:
  assumes "pmm_inv s"
  shows "pmm_inv (snd (pmm64_alloc_above m s))
    \<and> (fst (pmm64_alloc_above m s) \<noteq> 0 \<longrightarrow>
         m \<le> fst (pmm64_alloc_above m s) \<or> 2 ^ 64 \<le> m + (FRAME_SIZE - 1))"
proof (cases "ready s")
  case True
  then have wf: "pmm_wf s" using assms by (simp add: pmm_inv_def)
  let ?first = "add64 m (FRAME_SIZE - 1) div FRAME_SIZE"
  show ?thesis
  proof (cases "find (\<lambda>f. \<not> bm_test (bitmap s) f) [?first..<frame_count s]")
    case None
    then show ?thesis using True assms by (simp add: pmm64_alloc_above_def)
  next
    case (Some f)
    then have f: "?first \<le> f" "f < frame_count s"
      by (auto simp: find_Some_iff)
    have "m \<le> f * FRAME_SIZE" if "m + (FRAME_SIZE - 1) < 2 ^ 64"
    proof -
      have "?first = (m + (FRAME_SIZE - 1)) div FRAME_SIZE" using that by (simp add: add64_exact)
      moreover have "m \<le> (m + (FRAME_SIZE - 1)) div FRAME_SIZE * FRAME_SIZE"
        by (simp add: FRAME_SIZE_def)
      ultimately show ?thesis using f(1) by (metis le_trans mult_le_mono1)
    qed
    then show ?thesis
      using True Some pmm_inv_take [OF assms True f(2)] frame_fits [OF wf f(2)]
      by (auto simp: pmm64_alloc_above_def not_less)
  qed
qed (use assms in \<open>simp add: pmm64_alloc_above_def\<close>)

lemma reserve_inv:
  assumes "pmm_inv s"
  shows "pmm_inv (pmm64_reserve_region a b s)"
proof (cases "ready s")
  case True
  then have wf: "pmm_wf s" using assms by (simp add: pmm_inv_def)
  let ?t = "pmm64_reserve_region a b s"
  have t: "pmm_wf ?t" "pmm_frame_eq s ?t" "used_set s \<subseteq> used_set ?t"
    using reserve_region_spec [OF wf, of a b] by auto
  then have "bm_test (bitmap s) f \<longrightarrow> bm_test (bitmap ?t) f" if "f < frame_count s" for f
    using that by (auto simp: used_set_def pmm_frame_eq_def)
  then show ?thesis
    using assms True t unfolding pmm_inv_def pmm_frame_eq_def by metis
next
  case False
  have rd: "ready (if used then bitmap_set f s else bitmap_clear f s) = ready s" for used f and s
    by simp
  have "ready (fold (\<lambda>f s. if used then bitmap_set f s else bitmap_clear f s) fs s) = ready s" for used fs and s
    by (induction fs arbitrary: s) (simp_all only: fold_simps rd)
  then have "ready (pmm64_reserve_region a b s) = ready s"
    by (simp only: pmm64_reserve_region_def mark_range_def Let_def simp_thms split: if_splits)
  then show ?thesis using False by (simp add: pmm_inv_def)
qed

lemma alloc_user_inv: "pmm_inv s \<Longrightarrow> pmm_inv (snd (pmm64_alloc_user s))"
  using alloc_high_step [of s]
  by (auto simp: pmm64_alloc_user_def alloc_step_def case_prod_unfold Let_def intro: pmm_inv_upd)

section \<open>A small machine\<close>

text \<open>Sixteen frames: the first eight reserved RAM, the next four a hole in the memory map (so
  they start out marked used), the last four free RAM.\<close>

definition pmm_demo :: pmm64 where
  "pmm_demo = pmm64_zero\<lparr>bitmap := [0xFF, 0x0F], frame_count := 16,
     refs := Some (replicate 16 0), ram := Some [0xFF, 0xF0],
     high_hint := 16, ready := True, used_count := 12\<rparr>"

lemma used_set_filter: "used_set s = set (filter (bm_test (bitmap s)) [0..<frame_count s])"
  by (auto simp: used_set_def)

lemma used_set_demo: "used_set pmm_demo = set [0..<12]"
  unfolding used_set_filter
  by (simp add: pmm_demo_def pmm64_zero_def bm_test_def bm_mask_def upt_rec)

lemma pmm_demo_inv: "pmm_inv pmm_demo"
proof -
  have "pmm_wf pmm_demo"
    unfolding pmm_wf_def used_set_demo by (simp add: pmm_demo_def pmm64_zero_def)
  then show ?thesis
    by (auto simp: pmm_inv_def pmm_demo_def pmm64_zero_def)
qed

lemma pmm_demo_test: "f < 16 \<Longrightarrow> bm_test (bitmap pmm_demo) f \<longleftrightarrow> f < 12"
proof -
  assume "f < 16"
  moreover have "frame_count pmm_demo = 16" by (simp add: pmm_demo_def)
  moreover have "f \<in> used_set pmm_demo \<longleftrightarrow> f < 12" unfolding used_set_demo by simp
  ultimately show ?thesis by (simp add: used_set_def)
qed

lemma pmm_demo_live: "pmm_live pmm_demo"
  using pmm_demo_inv pmm_demo_test [of 0] by (simp add: pmm_live_def free_frame_of_def)

section \<open>Properties\<close>

lemma owns_ram: "ready s \<Longrightarrow> pmm64_owns p s \<longleftrightarrow> p div FRAME_SIZE \<in> ram_set s"
  by (auto simp: pmm64_owns_def ram_set_def bm_test_bit Let_def and_one_eq bit_iff_odd_drop_bit
        odd_iff_mod_2_eq_one split: option.splits)

lemma free_frames_card:
  assumes "pmm_inv s" and "ready s"
  shows "pmm64_free_frames s = card {f. free_frame_of s f}"
proof -
  have "pmm_wf s" using assms by (simp add: pmm_inv_def)
  then have "sub64 (frame_count s) (used_count s) = frame_count s - card (used_set s)"
    using card_used_le [of s] by (simp add: pmm_wf_def sub64_exact)
  moreover have "{f. free_frame_of s f} = {..<frame_count s} - used_set s"
    by (auto simp: free_frame_of_def used_set_def)
  moreover have "used_set s \<subseteq> {..<frame_count s}" by (auto simp: used_set_def)
  ultimately show ?thesis using assms(2)
    by (simp add: pmm64_free_frames_def card_Diff_subset finite_subset)
qed

lemma alloc_step_user_oom [simp]: "user_oom (snd (pmm64_alloc_high s)) = user_oom s"
  by (auto simp: pmm64_alloc_high_def pmm64_alloc_frame_def take_frame_def watch_report_def
        bitmap_set_def Let_def split: option.splits)

lemma alloc_user_reserve:
  assumes "pmm_inv s" and "ready s" and "\<not> free_frame_of s 0"
  shows "(if pmm64_free_frames s < USER_RESERVE
          then pmm64_alloc_user s = (0, s\<lparr>user_oom := True\<rparr>)
          else fst (pmm64_alloc_user s) \<noteq> 0
             \<and> pmm64_alloc_user s = pmm64_alloc_high s
             \<and> user_oom (snd (pmm64_alloc_user s)) = user_oom s
             \<and> pmm64_free_frames (snd (pmm64_alloc_user s)) + 1 = pmm64_free_frames s
             \<and> USER_RESERVE - 1 \<le> pmm64_free_frames (snd (pmm64_alloc_user s)))"
proof (cases "pmm64_free_frames s < USER_RESERVE")
  case False
  define p s' where "p = fst (pmm64_alloc_high s)" and "s' = snd (pmm64_alloc_high s)"
  have step: "alloc_step s p s'" using alloc_high_step [OF assms(1)] by (simp add: p_def s'_def)
  have "{f. free_frame_of s f} \<noteq> {}"
    using False free_frames_card [OF assms(1,2)] unfolding USER_RESERVE_def
    by (metis card.empty zero_less_numeral)
  then obtain f where f: "p = f * FRAME_SIZE" "free_frame_of s f" "owners s' = (owners s)(f := 1)"
    using step assms(2) unfolding alloc_step_def by blast
  have p0: "p \<noteq> 0" using f assms(3) by (metis FRAME_SIZE_def mult_eq_0_iff zero_neq_numeral)
  have s': "pmm_inv s'" "ready s'" "frame_count s' = frame_count s"
    using step assms(2) by (auto simp: alloc_step_def)
  have "free_frame_of s' g \<longleftrightarrow> free_frame_of s g \<and> g \<noteq> f" for g
    using f s' assms(2) free_frame_of_owners [of s' g] free_frame_of_owners [of s g] by auto
  then have "{f. free_frame_of s' f} = {f. free_frame_of s f} - {f}" by auto
  moreover have "finite {f. free_frame_of s f}" by (simp add: free_frame_of_def)
  ultimately have "pmm64_free_frames s' + 1 = pmm64_free_frames s"
    using f(2) free_frames_card [OF assms(1,2)] free_frames_card [OF s'(1,2)]
    by (simp add: card_Diff_singleton card_gt_0_iff) (metis Suc_pred card_gt_0_iff empty_iff mem_Collect_eq)
  then show ?thesis
    using False p0 by (simp add: pmm64_alloc_user_def case_prod_unfold Let_def p_def s'_def)
qed (simp add: pmm64_alloc_user_def)

lemma free_non_ram:
  assumes "pmm_inv s" and "ready s" and "p div FRAME_SIZE < frame_count s"
    and "\<not> pmm64_owns p s" and "pmm64_frame_owners p s = 1"
  shows "free_frame_of (pmm64_free_frame p s) (p div FRAME_SIZE)
     \<and> \<not> pmm64_owns p (pmm64_free_frame p s)"
proof -
  let ?t = "pmm64_free_frame p s"
  have t: "ready ?t" "frame_count ?t = frame_count s" "ram ?t = ram s" "owners ?t (p div FRAME_SIZE) = 0"
    using free_frame_step [OF assms(1), of p] assms(2,5) by (simp_all add: pmm64_frame_owners_eq)
  then have "free_frame_of ?t (p div FRAME_SIZE)"
    using assms(3) free_frame_of_owners [of ?t "p div FRAME_SIZE"] by simp
  moreover have "pmm64_owns p ?t = pmm64_owns p s"
    using t assms(2) by (simp add: pmm64_owns_def Let_def split: option.split)
  ultimately show ?thesis using assms(4) by simp
qed


lemma ready_init_tables: "ready (init_tables mbi ks ke place s)"
  by (simp add: init_tables_def Let_def)

lemma ready_pmm64_init:
  "for_each_available mbi note_highest (s0\<lparr>ready := False, highest_addr := 0, double_frees := 0, alloc_hint := 0\<rparr>) = s1 \<Longrightarrow>
   highest_addr s1 \<noteq> 0 \<Longrightarrow> fc = add64 (highest_addr s1) (FRAME_SIZE - 1) div FRAME_SIZE \<Longrightarrow>
   \<not> bit (mb_flags mbi) 3 \<Longrightarrow>
   add64 (add64 (add64 (align_frame ke) ((fc + 7) div 8)) fc) ((fc + 7) div 8) \<le> BOOT_WINDOW_BYTES \<Longrightarrow>
   ready (pmm64_init mbi ks ke s0)"
  by (simp add: pmm64_init_def Let_def ready_init_tables)

definition demo_mbi :: multiboot_info where
  "demo_mbi = \<lparr>mb_flags = 0x40, mem_lower = 0, mem_upper = 0,
     mmap = [\<lparr>e_addr = 0, e_len = 0x9F000, e_type = 1\<rparr>, \<lparr>e_addr = 0x100000, e_len = 0x700000, e_type = 1\<rparr>,
             \<lparr>e_addr = 0xFD000000, e_len = 0x1000000, e_type = 2\<rparr>], mod_ends = []\<rparr>"

lemma demo_mbi_ready: "ready (pmm64_init demo_mbi 0x100000 0x180000 pmm64_zero)"
  by (rule ready_pmm64_init [OF refl _ refl])
     (simp_all add: for_each_available_def note_highest_def demo_mbi_def pmm64_zero_def add64_def
        FRAME_SIZE_def align_frame_def BOOT_WINDOW_BYTES_def bit_numeral_simps)


text \<open>Every operation of the allocator keeps its invariant: the running count of used frames
  is the number of set bits, a free frame has no extra owners, and both search hints stay inside
  the table.\<close>

theorem pmm64_operations_keep_inv:
  assumes "pmm_inv s"
  shows "pmm_inv (snd (pmm64_alloc_frame s)) \<and> pmm_inv (snd (pmm64_alloc_high s))
    \<and> pmm_inv (snd (pmm64_alloc_user s)) \<and> pmm_inv (snd (pmm64_alloc_above m s))
    \<and> pmm_inv (pmm64_free_frame p s) \<and> pmm_inv (snd (pmm64_ref_frame p s))
    \<and> pmm_inv (pmm64_reserve_region a b s) \<and> pmm_inv (snd (pmm64_take_user_oom s))
    \<and> pmm_inv (pmm64_watch_frame p s)"
proof -
  have "pmm_inv (snd (pmm64_alloc_frame s))" using alloc_frame_step [OF assms] by (simp add: alloc_step_def)
  moreover have "pmm_inv (snd (pmm64_alloc_high s))" using alloc_high_step [OF assms] by (simp add: alloc_step_def)
  moreover have "pmm_inv (pmm64_watch_frame p s)"
    using assms by (simp add: pmm_inv_def pmm64_watch_frame_def pmm_wf_def used_set_def)
  ultimately show ?thesis
    using assms by (simp add: alloc_user_inv alloc_above_step free_frame_step ref_frame_step
        reserve_inv pmm64_take_user_oom_def pmm_inv_upd)
qed

theorem pmm64_operations_keep_inv_witness:
  "pmm_inv pmm_demo \<and> pmm_inv (snd (pmm64_alloc_frame pmm_demo)) \<and> pmm_inv (pmm64_free_frame 0xB000 pmm_demo)"
  using pmm64_operations_keep_inv [OF pmm_demo_inv, where p = "0xB000"] pmm_demo_inv by blast

text \<open>The count \<open>pmm64_free_frames\<close> keeps as the bits change is the count
  \<open>pmm64_free_frames_scanned\<close> takes from the bitmap, byte by byte through the nibble table.\<close>

theorem pmm64_free_frames_agree:
  assumes "pmm_inv s"
  shows "pmm64_free_frames s = pmm64_free_frames_scanned s"
proof (cases "ready s")
  case True
  then have "pmm_wf s" using assms by (simp add: pmm_inv_def)
  then have "sub64 (frame_count s) (used_count s) = frame_count s - card (used_set s)"
    using card_used_le [of s] by (simp add: pmm_wf_def sub64_exact)
  then show ?thesis using True by (simp add: pmm64_free_frames_def scanned_count)
qed (simp add: pmm64_free_frames_def pmm64_free_frames_scanned_def)

theorem pmm64_free_frames_agree_witness:
  "pmm64_free_frames_scanned pmm_demo = 4"
proof -
  have "pmm64_free_frames pmm_demo = 4"
    by (simp add: pmm64_free_frames_def pmm_demo_def pmm64_zero_def sub64_def)
  then show ?thesis using pmm64_free_frames_agree [OF pmm_demo_inv] by simp
qed

text \<open>\<open>pmm64_alloc_frame\<close>, with its byte-at-a-time skip over full bytes and its two sweeps,
  returns the first free frame at or after the hint, else the first below it; it returns 0 without
  changing anything only when no frame is free.\<close>

theorem pmm64_alloc_frame_first_fit:
  assumes "pmm_inv s" and "ready s"
  shows "(case find (free_frame_of s) ([alloc_hint s..<frame_count s] @ [0..<alloc_hint s]) of
            Some f \<Rightarrow> pmm64_alloc_frame s = (f * FRAME_SIZE, (take_frame f s)\<lparr>alloc_hint := f + 1\<rparr>)
                      \<and> used_set (snd (pmm64_alloc_frame s)) = insert f (used_set s) \<and> f \<notin> used_set s
          | None \<Rightarrow> pmm64_alloc_frame s = (0, s) \<and> used_set s = {f. f < frame_count s})"
proof -
  have wf: "pmm_wf s" and le: "alloc_hint s \<le> frame_count s" using assms by (auto simp: pmm_inv_def)
  have set: "set (low_order s) = {f. f < frame_count s}" by (rule set_low_order [OF le])
  have eq: "find (free_frame_of s) (low_order s) = find (\<lambda>f. \<not> bm_test (bitmap s) f) (low_order s)"
    using set by (intro find_cong) (auto simp: free_frame_of_def)
  show ?thesis
  proof (cases "find (free_frame_of s) (low_order s)")
    case None
    then have "used_set s = {f. f < frame_count s}"
      using set by (auto simp: find_None_iff free_frame_of_def used_set_def)
    then show ?thesis
      using None eq pmm64_alloc_frame_find [OF assms(2)] by (simp add: low_order_def [symmetric])
  next
    case (Some f)
    then have f: "free_frame_of s f" by (auto simp: find_Some_iff)
    then have "f < frame_count s" by (simp add: free_frame_of_def)
    then show ?thesis
      using Some eq f pmm64_alloc_frame_find [OF assms(2)] frame_fits [OF wf] take_frame_wf [OF wf]
      by (auto simp: low_order_def [symmetric] free_frame_of_def used_set_def)
  qed
qed

theorem pmm64_alloc_frame_first_fit_witness: "fst (pmm64_alloc_frame pmm_demo) = 0xC000"
proof -
  have r: "ready pmm_demo" "alloc_hint pmm_demo = 0" "frame_count pmm_demo = 16"
    by (simp_all add: pmm_demo_def pmm64_zero_def)
  have "find (free_frame_of pmm_demo) ([0..<16] @ [0..<0]) = Some 12"
    using pmm_demo_test by (auto simp: find_Some_iff free_frame_of_def r intro!: exI [of _ 12])
  then show ?thesis
    using pmm64_alloc_frame_first_fit [OF pmm_demo_inv r(1)] by (simp add: r FRAME_SIZE_def)
qed

text \<open>\<open>pmm64_alloc_high\<close> hands out the highest free frame below its hint, else the highest
  above it, and fails only when no frame at all is free.\<close>

theorem pmm64_alloc_high_top_fit:
  assumes "pmm_inv s" and "ready s"
  shows "(case find (free_frame_of s) (rev [0..<high_hint s] @ rev [high_hint s..<frame_count s]) of
            Some f \<Rightarrow> pmm64_alloc_high s = (f * FRAME_SIZE, (take_frame f s)\<lparr>high_hint := f\<rparr>)
                      \<and> used_set (snd (pmm64_alloc_high s)) = insert f (used_set s) \<and> f \<notin> used_set s
          | None \<Rightarrow> pmm64_alloc_high s = (0, s) \<and> used_set s = {f. f < frame_count s})"
proof -
  have wf: "pmm_wf s" and le: "high_hint s \<le> frame_count s" using assms by (auto simp: pmm_inv_def)
  have set: "set (high_order s) = {f. f < frame_count s}" by (rule set_high_order [OF le])
  have eq: "find (free_frame_of s) (high_order s) = find (\<lambda>f. \<not> bm_test (bitmap s) f) (high_order s)"
    using set by (intro find_cong) (auto simp: free_frame_of_def)
  show ?thesis
  proof (cases "find (free_frame_of s) (high_order s)")
    case None
    then have "used_set s = {f. f < frame_count s}"
      using set by (auto simp: find_None_iff free_frame_of_def used_set_def)
    then show ?thesis
      using None eq pmm64_alloc_high_find [OF assms(2,1)] by (simp add: high_order_def [symmetric])
  next
    case (Some f)
    then have f: "free_frame_of s f" by (auto simp: find_Some_iff)
    then have "f < frame_count s" by (simp add: free_frame_of_def)
    then show ?thesis
      using Some eq f pmm64_alloc_high_find [OF assms(2,1)] frame_fits [OF wf] take_frame_wf [OF wf]
      by (auto simp: high_order_def [symmetric] free_frame_of_def used_set_def)
  qed
qed

theorem pmm64_alloc_high_top_fit_witness: "fst (pmm64_alloc_high pmm_demo) = 0xF000"
proof -
  have r: "ready pmm_demo" "high_hint pmm_demo = 16" "frame_count pmm_demo = 16"
    by (simp_all add: pmm_demo_def pmm64_zero_def)
  have "rev [0..<16] @ rev [16..<16] = 15 # rev [0..<15 :: nat]" by (simp add: upt_rec)
  then have "find (free_frame_of pmm_demo) (rev [0..<16] @ rev [16..<16]) = Some 15"
    using pmm_demo_test [of 15] by (simp add: free_frame_of_def r)
  then show ?thesis
    using pmm64_alloc_high_top_fit [OF pmm_demo_inv r(1)] by (simp only: r option.case) (simp add: FRAME_SIZE_def)
qed

text \<open>C1: However clients interleave allocations, extra references and releases, as long as each
  gives back only what it holds and nobody names the first page, the clients never hold more
  references to a frame than the allocator has counted, and neither allocator ever returns a frame
  somebody holds.\<close>

theorem pmm64_never_hands_out_held:
  assumes "pmm_inv s" and "\<not> (ready s \<and> free_frame_of s 0)"
    and "\<forall>p. OpFree p \<in> set ops \<or> OpRef p \<in> set ops \<longrightarrow> p div FRAME_SIZE \<noteq> 0"
    and "alloc = pmm64_alloc_frame \<or> alloc = pmm64_alloc_high"
    and "ledger_run alloc pmm64_ref_frame pmm64_free_frame FRAME_SIZE ops s = (s', held)"
  shows "(\<forall>f. held f \<le> pmm64_frame_owners (f * FRAME_SIZE) s')
     \<and> (fst (alloc s') \<noteq> 0 \<longrightarrow> held (fst (alloc s') div FRAME_SIZE) = 0)"
proof -
  have live: "pmm_live s" using assms(1,2) by (simp add: pmm_live_def)
  have "owners s' f = pmm64_frame_owners (f * FRAME_SIZE) s'" for f
    by (simp add: pmm64_frame_owners_eq FRAME_SIZE_def)
  then show ?thesis
    using assms(4) low.never_hand_out_held [OF live assms(3), of s' held]
      high.never_hand_out_held [OF live assms(3), of s' held] assms(5) by metis
qed

theorem pmm64_never_hands_out_held_witness:
  "\<exists>s' held. ledger_run pmm64_alloc_high pmm64_ref_frame pmm64_free_frame FRAME_SIZE
       [OpAlloc, OpRef 0xF000, OpFree 0xF000, OpAlloc] pmm_demo = (s', held)
     \<and> (fst (pmm64_alloc_high s') \<noteq> 0 \<longrightarrow> held (fst (pmm64_alloc_high s') div FRAME_SIZE) = 0)"
proof -
  obtain s' held where run: "ledger_run pmm64_alloc_high pmm64_ref_frame pmm64_free_frame FRAME_SIZE
       [OpAlloc, OpRef 0xF000, OpFree 0xF000, OpAlloc] pmm_demo = (s', held)"
    by fastforce
  have "\<forall>p. OpFree p \<in> set [OpAlloc, OpRef 0xF000, OpFree 0xF000, OpAlloc]
        \<or> OpRef p \<in> set [OpAlloc, OpRef 0xF000, OpFree 0xF000, OpAlloc] \<longrightarrow> p div FRAME_SIZE \<noteq> 0"
    by (simp add: FRAME_SIZE_def)
  moreover have "\<not> (ready pmm_demo \<and> free_frame_of pmm_demo 0)"
    using pmm_demo_live by (simp add: pmm_live_def)
  ultimately show ?thesis
    using pmm64_never_hands_out_held [OF pmm_demo_inv, of _ pmm64_alloc_high, OF _ _ _ run] run by blast
qed

text \<open>\<open>pmm64_alloc_user\<close> leaves the kernel its reserve: with fewer than \<open>USER_RESERVE\<close>
  frames free it returns 0 and raises the out-of-memory flag; otherwise it always succeeds, the
  flag is untouched, exactly one frame is taken and at least \<open>USER_RESERVE - 1\<close> stay free.\<close>

theorem pmm64_alloc_user_reserve:
  assumes "pmm_inv s" and "ready s" and "\<not> free_frame_of s 0"
  shows "(if pmm64_free_frames s < USER_RESERVE
          then pmm64_alloc_user s = (0, s\<lparr>user_oom := True\<rparr>)
          else fst (pmm64_alloc_user s) \<noteq> 0
             \<and> pmm64_alloc_user s = pmm64_alloc_high s
             \<and> user_oom (snd (pmm64_alloc_user s)) = user_oom s
             \<and> pmm64_free_frames (snd (pmm64_alloc_user s)) + 1 = pmm64_free_frames s
             \<and> USER_RESERVE - 1 \<le> pmm64_free_frames (snd (pmm64_alloc_user s)))"
  by (rule alloc_user_reserve [OF assms])

theorem pmm64_alloc_user_reserve_witness:
  "pmm64_alloc_user pmm_demo = (0, pmm_demo\<lparr>user_oom := True\<rparr>)"
proof -
  have "pmm64_free_frames pmm_demo < USER_RESERVE" "ready pmm_demo"
    by (simp_all add: pmm64_free_frames_def pmm_demo_def pmm64_zero_def sub64_def USER_RESERVE_def)
  moreover have "\<not> free_frame_of pmm_demo 0" using pmm_demo_test [of 0] by (simp add: free_frame_of_def)
  ultimately show ?thesis using pmm64_alloc_user_reserve [OF pmm_demo_inv] by simp
qed

text \<open>\<open>pmm64_free_frame\<close> does not consult the RAM map. A marked frame below the top of memory
  that is not RAM (a hole, a device aperture) and has no extra owners becomes allocatable when it
  is freed, so a caller that relies on the allocator to ignore such addresses hands device memory
  to the next allocation.\<close>

theorem pmm64_free_frame_releases_non_ram:
  assumes "pmm_inv s" and "ready s" and "p div FRAME_SIZE < frame_count s"
    and "\<not> pmm64_owns p s" and "pmm64_frame_owners p s = 1"
  shows "free_frame_of (pmm64_free_frame p s) (p div FRAME_SIZE)
     \<and> \<not> pmm64_owns p (pmm64_free_frame p s)"
  using free_non_ram [OF assms] .

theorem pmm64_free_frame_releases_non_ram_witness:
  "free_frame_of (pmm64_free_frame 0x9000 pmm_demo) 9 \<and> \<not> pmm64_owns 0x9000 (pmm64_free_frame 0x9000 pmm_demo)"
proof -
  have "ready pmm_demo" "0x9000 div FRAME_SIZE < frame_count pmm_demo" "\<not> pmm64_owns 0x9000 pmm_demo"
    by (simp_all add: pmm_demo_def pmm64_zero_def FRAME_SIZE_def pmm64_owns_def Let_def)
  moreover have "pmm64_frame_owners 0x9000 pmm_demo = 1"
    using pmm_demo_test [of 9]
    by (simp add: pmm64_frame_owners_eq owners_def FRAME_SIZE_def pmm_demo_def pmm64_zero_def extra_owners_def)
  ultimately show ?thesis
    using pmm64_free_frame_releases_non_ram [OF pmm_demo_inv, of "0x9000"] by (simp add: FRAME_SIZE_def)
qed

end
