(* ===== verification/Paging64.thy ===== *)
theory Paging64
  imports Pmm64 "HOL-Library.Monad_Syntax"
begin

text \<open>
  The page tables of \<open>kernel/paging64.c\<close>, and the hardware that reads them.

  Physical memory is a function from a frame number and the index of a quadword in that frame to
  the quadword, so a frame may hold a page table or data and nothing keeps the two apart except
  the code. \<open>mmu_frame\<close> is the four-level walk the processor makes from CR3. The kernel edits its
  tables through virtual addresses built on the PML4's self-reference, so every table access of
  the code is a load or a store at such an address, resolved by that same walk; an access the
  walk cannot resolve is a page fault, the value \<open>None\<close>.

  Translations are read from memory each time: the TLB is not modelled, so \<open>invlpg\<close> and the
  reload of CR3 leave no trace in the state.
\<close>

unbundle bit_operations_syntax

section \<open>Entries and addresses\<close>

definition PAGE64_SIZE :: u64 where "PAGE64_SIZE = 4096"
definition PAGE64_PRESENT :: u64 where "PAGE64_PRESENT = 1"
definition PAGE64_WRITE :: u64 where "PAGE64_WRITE = 2"
definition PAGE64_USER :: u64 where "PAGE64_USER = 4"
definition PAGE64_PWT :: u64 where "PAGE64_PWT = 8"
definition PAGE64_PCD :: u64 where "PAGE64_PCD = 16"
definition PAGE64_HUGE :: u64 where "PAGE64_HUGE = 128"
definition PAGE64_COW :: u64 where "PAGE64_COW = 512"
definition PAGE64_COW_RW :: u64 where "PAGE64_COW_RW = 1024"
definition PAGE64_SHARED :: u64 where "PAGE64_SHARED = 2048"
definition ADDR_MASK :: u64 where "ADDR_MASK = 0x000FFFFFFFFFF000"
definition REC :: u64 where "REC = 510"
definition SIGN_EXT :: u64 where "SIGN_EXT = 0xFFFF000000000000"
definition HUGE_SIZE :: u64 where "HUGE_SIZE = 0x200000"
definition PHYSMAP64_BASE :: u64 where "PHYSMAP64_BASE = 0xFFFF880000000000"

definition PML4_IDX :: "u64 \<Rightarrow> u64" where "PML4_IDX v = drop_bit 39 v AND 0x1FF"
definition PDPT_IDX :: "u64 \<Rightarrow> u64" where "PDPT_IDX v = drop_bit 30 v AND 0x1FF"
definition PD_IDX :: "u64 \<Rightarrow> u64" where "PD_IDX v = drop_bit 21 v AND 0x1FF"
definition PT_IDX :: "u64 \<Rightarrow> u64" where "PT_IDX v = drop_bit 12 v AND 0x1FF"

datatype rc = PAGING64_OK | PAGING64_NOMEM | PAGING64_HUGE_IN_WAY | PAGING64_NOT_MAPPED

definition has :: "u64 \<Rightarrow> u64 \<Rightarrow> bool" where
  "has e flag \<longleftrightarrow> e AND flag \<noteq> 0"

definition frame_of :: "u64 \<Rightarrow> nat" where
  "frame_of e = unat (drop_bit 12 (e AND ADDR_MASK))"

section \<open>The machine\<close>

record machine =
  cr3 :: u64
  mem :: "nat \<Rightarrow> nat \<Rightarrow> u64"
  pmm :: pmm64
  tables_allocated :: nat
  physmap_bytes :: u64

definition store_word :: "nat \<Rightarrow> nat \<Rightarrow> u64 \<Rightarrow> machine \<Rightarrow> machine" where
  "store_word f i e m = m\<lparr>mem := (mem m)(f := (mem m f)(i := e))\<rparr>"

definition canonical :: "u64 \<Rightarrow> bool" where
  "canonical v \<longleftrightarrow> drop_bit 47 v = 0 \<or> drop_bit 47 v = mask 17"

text \<open>The frame the processor finds for the page of a virtual address: not-present entries, a
  PML4 entry with the reserved bit 7 and an address that is not canonical all fault; bit 7 ends
  the walk early one and two levels up from the page tables.\<close>

definition mmu_frame :: "machine \<Rightarrow> u64 \<Rightarrow> nat option" where
  "mmu_frame m v =
     (if \<not> canonical v then None else
      (let e4 = mem m (frame_of (cr3 m)) (unat (PML4_IDX v))
       in if \<not> has e4 PAGE64_PRESENT \<or> has e4 PAGE64_HUGE then None else
      (let e3 = mem m (frame_of e4) (unat (PDPT_IDX v))
       in if \<not> has e3 PAGE64_PRESENT then None
          else if has e3 PAGE64_HUGE
               then Some (unat (drop_bit 12 ((e3 AND ADDR_MASK AND NOT 0x3FFFFFFF) OR (v AND 0x3FFFFFFF)))) else
      (let e2 = mem m (frame_of e3) (unat (PD_IDX v))
       in if \<not> has e2 PAGE64_PRESENT then None
          else if has e2 PAGE64_HUGE
               then Some (unat (drop_bit 12 ((e2 AND ADDR_MASK AND NOT 0x1FFFFF) OR (v AND 0x1FFFFF)))) else
      (let e1 = mem m (frame_of e2) (unat (PT_IDX v))
       in if \<not> has e1 PAGE64_PRESENT then None else Some (frame_of e1))))))"

definition vload :: "machine \<Rightarrow> u64 \<Rightarrow> u64 \<Rightarrow> u64 option" where
  "vload m table i = map_option (\<lambda>f. mem m f (unat i)) (mmu_frame m table)"

definition vstore :: "machine \<Rightarrow> u64 \<Rightarrow> u64 \<Rightarrow> u64 \<Rightarrow> machine option" where
  "vstore m table i e = map_option (\<lambda>f. store_word f (unat i) e m) (mmu_frame m table)"

section \<open>The recursive addresses\<close>

definition pml4_addr :: u64 where
  "pml4_addr = SIGN_EXT OR push_bit 39 REC OR push_bit 30 REC OR push_bit 21 REC OR push_bit 12 REC"

definition pdpt_addr :: "u64 \<Rightarrow> u64" where
  "pdpt_addr v = SIGN_EXT OR push_bit 39 REC OR push_bit 30 REC OR push_bit 21 REC OR push_bit 12 (PML4_IDX v)"

definition pd_addr :: "u64 \<Rightarrow> u64" where
  "pd_addr v = SIGN_EXT OR push_bit 39 REC OR push_bit 30 REC OR push_bit 21 (PML4_IDX v) OR push_bit 12 (PDPT_IDX v)"

definition pt_addr :: "u64 \<Rightarrow> u64" where
  "pt_addr v = SIGN_EXT OR push_bit 39 REC OR push_bit 30 (PML4_IDX v) OR push_bit 21 (PDPT_IDX v) OR push_bit 12 (PD_IDX v)"

section \<open>Operations\<close>

text \<open>Called once with the boot tables loaded; the PML4 is reached through the kernel's window on
  low memory, so by its frame.\<close>

definition paging64_init :: "machine \<Rightarrow> machine" where
  "paging64_init m =
     (let pml4_phys = cr3 m AND ADDR_MASK
      in (store_word (frame_of pml4_phys) (unat REC) (pml4_phys OR PAGE64_PRESENT OR PAGE64_WRITE) m)
           \<lparr>cr3 := pml4_phys, tables_allocated := 0\<rparr>)"

definition zero_table :: "u64 \<Rightarrow> machine \<Rightarrow> machine option" where
  "zero_table table m = fold (\<lambda>i r. Option.bind r (\<lambda>m. vstore m table (of_nat i) 0)) [0..<512] (Some m)"

definition ensure_table :: "u64 \<Rightarrow> u64 \<Rightarrow> u64 \<Rightarrow> u64 \<Rightarrow> machine \<Rightarrow> (rc \<times> machine) option" where
  "ensure_table table idx child flags m = do {
     e \<leftarrow> vload m table idx;
     if has e PAGE64_PRESENT then do {
       m \<leftarrow> vstore m table idx (e OR (flags AND (PAGE64_WRITE OR PAGE64_USER)));
       Some (PAGING64_OK, m)
     } else
       (case pmm64_alloc_frame (pmm m) of (frame, p) \<Rightarrow>
         if frame = 0 then Some (PAGING64_NOMEM, m\<lparr>pmm := p\<rparr>)
         else do {
           m \<leftarrow> vstore (m\<lparr>pmm := p\<rparr>) table idx
                  (of_nat frame OR PAGE64_PRESENT OR PAGE64_WRITE OR (flags AND PAGE64_USER));
           m \<leftarrow> zero_table child m;
           Some (PAGING64_OK, m\<lparr>tables_allocated := tables_allocated m + 1\<rparr>)
         })
   }"

definition paging64_map :: "u64 \<Rightarrow> u64 \<Rightarrow> u64 \<Rightarrow> machine \<Rightarrow> (rc \<times> machine) option" where
  "paging64_map virt0 phys0 flags m = (
     let pdpt = pdpt_addr virt0; pd = pd_addr virt0; pt = pt_addr virt0;
         virt = virt0 AND NOT (PAGE64_SIZE - 1);
         phys = phys0 AND NOT (PAGE64_SIZE - 1)
     in do {
       (rc, m) \<leftarrow> ensure_table pml4_addr (PML4_IDX virt) pdpt flags m;
       if rc \<noteq> PAGING64_OK then Some (rc, m) else do {
       e \<leftarrow> vload m pdpt (PDPT_IDX virt);
       if has e PAGE64_HUGE then Some (PAGING64_HUGE_IN_WAY, m) else do {
       (rc, m) \<leftarrow> ensure_table pdpt (PDPT_IDX virt) pd flags m;
       if rc \<noteq> PAGING64_OK then Some (rc, m) else do {
       e \<leftarrow> vload m pd (PD_IDX virt);
       if has e PAGE64_HUGE then Some (PAGING64_HUGE_IN_WAY, m) else do {
       (rc, m) \<leftarrow> ensure_table pd (PD_IDX virt) pt flags m;
       if rc \<noteq> PAGING64_OK then Some (rc, m) else do {
       m \<leftarrow> vstore m pt (PT_IDX virt) (phys OR flags OR PAGE64_PRESENT);
       Some (PAGING64_OK, m)
     }}}}}})"

definition paging64_unmap :: "u64 \<Rightarrow> machine \<Rightarrow> (rc \<times> machine) option" where
  "paging64_unmap virt0 m = (
     let pdpt = pdpt_addr virt0; pd = pd_addr virt0; pt = pt_addr virt0;
         virt = virt0 AND NOT (PAGE64_SIZE - 1)
     in do {
       e \<leftarrow> vload m pml4_addr (PML4_IDX virt);
       if \<not> has e PAGE64_PRESENT then Some (PAGING64_NOT_MAPPED, m) else do {
       e \<leftarrow> vload m pdpt (PDPT_IDX virt);
       if \<not> has e PAGE64_PRESENT then Some (PAGING64_NOT_MAPPED, m) else
       if has e PAGE64_HUGE then Some (PAGING64_HUGE_IN_WAY, m) else do {
       e \<leftarrow> vload m pd (PD_IDX virt);
       if \<not> has e PAGE64_PRESENT then Some (PAGING64_NOT_MAPPED, m) else
       if has e PAGE64_HUGE then Some (PAGING64_HUGE_IN_WAY, m) else do {
       e \<leftarrow> vload m pt (PT_IDX virt);
       if \<not> has e PAGE64_PRESENT then Some (PAGING64_NOT_MAPPED, m) else do {
       m \<leftarrow> vstore m pt (PT_IDX virt) 0;
       Some (PAGING64_OK, m)
     }}}}})"

text \<open>The address goes out through a pointer that is written only on success: the second
  component is the address found.\<close>

definition paging64_translate :: "u64 \<Rightarrow> machine \<Rightarrow> (rc \<times> u64 option) option" where
  "paging64_translate virt m = do {
     e \<leftarrow> vload m pml4_addr (PML4_IDX virt);
     if \<not> has e PAGE64_PRESENT then Some (PAGING64_NOT_MAPPED, None) else do {
     e \<leftarrow> vload m (pdpt_addr virt) (PDPT_IDX virt);
     if \<not> has e PAGE64_PRESENT then Some (PAGING64_NOT_MAPPED, None) else
     if has e PAGE64_HUGE
     then Some (PAGING64_OK, Some ((e AND ADDR_MASK AND NOT 0x3FFFFFFF) OR (virt AND 0x3FFFFFFF))) else do {
     e \<leftarrow> vload m (pd_addr virt) (PD_IDX virt);
     if \<not> has e PAGE64_PRESENT then Some (PAGING64_NOT_MAPPED, None) else
     if has e PAGE64_HUGE
     then Some (PAGING64_OK, Some ((e AND ADDR_MASK AND NOT 0x1FFFFF) OR (virt AND 0x1FFFFF))) else do {
     e \<leftarrow> vload m (pt_addr virt) (PT_IDX virt);
     if \<not> has e PAGE64_PRESENT then Some (PAGING64_NOT_MAPPED, None)
     else Some (PAGING64_OK, Some ((e AND ADDR_MASK) OR (virt AND (PAGE64_SIZE - 1))))
   }}}}"

definition paging64_map_huge :: "u64 \<Rightarrow> u64 \<Rightarrow> u64 \<Rightarrow> machine \<Rightarrow> (rc \<times> machine) option" where
  "paging64_map_huge virt0 phys0 flags m = (
     let pdpt = pdpt_addr virt0; pd = pd_addr virt0;
         virt = virt0 AND NOT (HUGE_SIZE - 1);
         phys = phys0 AND NOT (HUGE_SIZE - 1)
     in do {
       (rc, m) \<leftarrow> ensure_table pml4_addr (PML4_IDX virt) pdpt flags m;
       if rc \<noteq> PAGING64_OK then Some (rc, m) else do {
       e \<leftarrow> vload m pdpt (PDPT_IDX virt);
       if has e PAGE64_HUGE then Some (PAGING64_HUGE_IN_WAY, m) else do {
       (rc, m) \<leftarrow> ensure_table pdpt (PDPT_IDX virt) pd flags m;
       if rc \<noteq> PAGING64_OK then Some (rc, m) else do {
       m \<leftarrow> vstore m pd (PD_IDX virt) (phys OR flags OR PAGE64_PRESENT OR PAGE64_HUGE);
       Some (PAGING64_OK, m)
     }}}})"

partial_function (option) physmap_loop :: "u64 \<Rightarrow> u64 \<Rightarrow> machine \<Rightarrow> (bool \<times> machine) option" where
  "physmap_loop covered bytes m =
     (if covered < bytes then do {
        (rc, m) \<leftarrow> paging64_map_huge (PHYSMAP64_BASE + covered) covered (PAGE64_PRESENT OR PAGE64_WRITE) m;
        if rc \<noteq> PAGING64_OK then Some (False, m\<lparr>physmap_bytes := covered\<rparr>)
        else physmap_loop (covered + HUGE_SIZE) bytes m
      } else Some (True, m\<lparr>physmap_bytes := bytes\<rparr>))"

definition paging64_physmap_init :: "u64 \<Rightarrow> machine \<Rightarrow> (bool \<times> machine) option" where
  "paging64_physmap_init bytes m =
     physmap_loop 0 ((bytes + HUGE_SIZE - 1) AND NOT (HUGE_SIZE - 1)) m"

partial_function (option) mmio_loop :: "u64 \<Rightarrow> u64 \<Rightarrow> u64 \<Rightarrow> u64 \<Rightarrow> machine \<Rightarrow> (rc \<times> machine) option" where
  "mmio_loop virt phys end off m =
     (if phys + off < end then do {
        (rc, m) \<leftarrow> paging64_map_huge (virt + off) (phys + off)
                     (PAGE64_PRESENT OR PAGE64_WRITE OR PAGE64_PCD OR PAGE64_PWT) m;
        if rc \<noteq> PAGING64_OK then Some (rc, m) else mmio_loop virt phys end (off + HUGE_SIZE) m
      } else Some (PAGING64_OK, m))"

definition paging64_map_mmio :: "u64 \<Rightarrow> u64 \<Rightarrow> u64 \<Rightarrow> machine \<Rightarrow> (rc \<times> machine) option" where
  "paging64_map_mmio virt phys bytes m =
     (if has (virt OR phys) (HUGE_SIZE - 1) then Some (PAGING64_NOT_MAPPED, m)
      else mmio_loop virt phys (phys + bytes) 0 m)"

definition paging64_tables_allocated :: "machine \<Rightarrow> nat" where
  "paging64_tables_allocated m = tables_allocated m"

definition paging64_physmap_bytes :: "machine \<Rightarrow> u64" where
  "paging64_physmap_bytes m = physmap_bytes m"

section \<open>Bits of entries and addresses\<close>

lemma idx_take_bit:
  "PML4_IDX v = take_bit 9 (drop_bit 39 v)" "PDPT_IDX v = take_bit 9 (drop_bit 30 v)"
  "PD_IDX v = take_bit 9 (drop_bit 21 v)" "PT_IDX v = take_bit 9 (drop_bit 12 v)"
proof -
  have "(0x1FF :: u64) = mask 9" by (simp add: mask_eq_exp_minus_1)
  then show "PML4_IDX v = take_bit 9 (drop_bit 39 v)" "PDPT_IDX v = take_bit 9 (drop_bit 30 v)"
    "PD_IDX v = take_bit 9 (drop_bit 21 v)" "PT_IDX v = take_bit 9 (drop_bit 12 v)"
    by (simp_all add: PML4_IDX_def PDPT_IDX_def PD_IDX_def PT_IDX_def take_bit_eq_mask)
qed

lemma take_bit_idx [simp]:
  "take_bit 9 (PML4_IDX v) = PML4_IDX v" "take_bit 9 (PDPT_IDX v) = PDPT_IDX v"
  "take_bit 9 (PD_IDX v) = PD_IDX v" "take_bit 9 (PT_IDX v) = PT_IDX v" "take_bit 9 REC = REC"
  by (simp_all add: idx_take_bit REC_def)

lemma idx_less [simp]:
  "unat (PML4_IDX v) < 512" "unat (PDPT_IDX v) < 512" "unat (PD_IDX v) < 512" "unat (PT_IDX v) < 512"
  using take_bit_nat_less_exp [of 9]
  by (simp_all add: idx_take_bit unsigned_take_bit_eq)

lemma bit_REC: "bit REC n \<longleftrightarrow> 1 \<le> n \<and> n < 9"
proof -
  have eq: "REC = push_bit 1 (mask 8)" by (simp add: REC_def mask_eq_exp_minus_1 push_bit_eq_mult)
  show ?thesis unfolding eq bit_push_bit_iff bit_mask_iff by auto
qed

lemma bit_SIGN_EXT: "bit SIGN_EXT n \<longleftrightarrow> 48 \<le> n \<and> n < 64"
proof -
  have eq: "SIGN_EXT = push_bit 48 (mask 16)" by (simp add: SIGN_EXT_def mask_eq_exp_minus_1 push_bit_eq_mult)
  show ?thesis by (auto simp: eq bit_push_bit_iff bit_mask_iff)
qed

lemma bit_ADDR_MASK: "bit ADDR_MASK n \<longleftrightarrow> 12 \<le> n \<and> n < 52"
proof -
  have eq: "ADDR_MASK = push_bit 12 (mask 40)" by (simp add: ADDR_MASK_def mask_eq_exp_minus_1 push_bit_eq_mult)
  show ?thesis by (auto simp: eq bit_push_bit_iff bit_mask_iff)
qed

definition fields :: "u64 \<Rightarrow> u64 \<Rightarrow> u64 \<Rightarrow> u64 \<Rightarrow> u64" where
  "fields a b c d = SIGN_EXT OR push_bit 39 a OR push_bit 30 b OR push_bit 21 c OR push_bit 12 d"

lemma field_bound: "take_bit 9 a = a \<Longrightarrow> bit a n \<Longrightarrow> n < 9" for a :: u64
  by (metis bit_take_bit_iff)

lemma fields_idx:
  assumes "take_bit 9 a = a" "take_bit 9 b = b" "take_bit 9 c = c" "take_bit 9 d = d"
  shows "PML4_IDX (fields a b c d) = a" "PDPT_IDX (fields a b c d) = b"
    "PD_IDX (fields a b c d) = c" "PT_IDX (fields a b c d) = d"
  unfolding idx_take_bit fields_def
  by (rule bit_word_eqI; use assms in \<open>auto simp: bit_simps bit_SIGN_EXT dest: field_bound\<close>)+

lemma canonical_fields:
  assumes "take_bit 9 b = b" "take_bit 9 c = c" "take_bit 9 d = d"
  shows "canonical (fields REC b c d)"
proof -
  have "drop_bit 47 (fields REC b c d) = mask 17"
    unfolding fields_def
    by (rule bit_word_eqI; use assms in \<open>auto simp: bit_simps bit_SIGN_EXT bit_REC dest: field_bound\<close>)
  then show ?thesis by (simp add: canonical_def)
qed

lemma addr_fields:
  "pml4_addr = fields REC REC REC REC" "pdpt_addr v = fields REC REC REC (PML4_IDX v)"
  "pd_addr v = fields REC REC (PML4_IDX v) (PDPT_IDX v)"
  "pt_addr v = fields REC (PML4_IDX v) (PDPT_IDX v) (PD_IDX v)"
  by (simp_all add: fields_def pml4_addr_def pdpt_addr_def pd_addr_def pt_addr_def)

lemma has_bit:
  "has e PAGE64_PRESENT \<longleftrightarrow> bit e 0" "has e PAGE64_WRITE \<longleftrightarrow> bit e 1" "has e PAGE64_USER \<longleftrightarrow> bit e 2"
  "has e PAGE64_HUGE \<longleftrightarrow> bit e 7" "has e PAGE64_COW \<longleftrightarrow> bit e 9" "has e PAGE64_COW_RW \<longleftrightarrow> bit e 10"
  "has e PAGE64_SHARED \<longleftrightarrow> bit e 11"
proof -
  have "has e (push_bit k 1) \<longleftrightarrow> bit e k" for k
    by (simp add: has_def bit_iff_and_push_bit_not_eq_0)
  from this [of 0] this [of 1] this [of 2] this [of 7] this [of 9] this [of 10] this [of 11]
  show "has e PAGE64_PRESENT \<longleftrightarrow> bit e 0" "has e PAGE64_WRITE \<longleftrightarrow> bit e 1" "has e PAGE64_USER \<longleftrightarrow> bit e 2"
    "has e PAGE64_HUGE \<longleftrightarrow> bit e 7" "has e PAGE64_COW \<longleftrightarrow> bit e 9" "has e PAGE64_COW_RW \<longleftrightarrow> bit e 10"
    "has e PAGE64_SHARED \<longleftrightarrow> bit e 11"
    by (simp_all add: PAGE64_PRESENT_def PAGE64_WRITE_def PAGE64_USER_def PAGE64_HUGE_def
        PAGE64_COW_def PAGE64_COW_RW_def PAGE64_SHARED_def push_bit_eq_mult)
qed

section \<open>The window onto the tables\<close>

abbreviation root :: "machine \<Rightarrow> nat" where
  "root m \<equiv> frame_of (cr3 m)"

definition self_ref :: "machine \<Rightarrow> bool" where
  "self_ref m \<longleftrightarrow> bit (mem m (root m) 510) 0 \<and> \<not> bit (mem m (root m) 510) 7
     \<and> frame_of (mem m (root m) 510) = root m"

lemma unat_REC [simp]: "unat REC = 510"
  by (simp add: REC_def)

text \<open>With the self-reference in place the four recursive addresses reach the PML4 and the tables
  of an address one, two and three levels below it.\<close>

lemma mmu_pml4: "self_ref m \<Longrightarrow> mmu_frame m pml4_addr = Some (root m)"
  by (simp add: mmu_frame_def addr_fields fields_idx canonical_fields self_ref_def has_bit)

lemma mmu_pdpt:
  "self_ref m \<Longrightarrow> bit (mem m (root m) (unat (PML4_IDX v))) 0 \<Longrightarrow>
     mmu_frame m (pdpt_addr v) = Some (frame_of (mem m (root m) (unat (PML4_IDX v))))"
  by (simp add: mmu_frame_def addr_fields fields_idx canonical_fields self_ref_def has_bit)

lemma mmu_pd:
  "self_ref m \<Longrightarrow> e4 = mem m (root m) (unat (PML4_IDX v)) \<Longrightarrow> bit e4 0 \<Longrightarrow> \<not> bit e4 7 \<Longrightarrow>
   e3 = mem m (frame_of e4) (unat (PDPT_IDX v)) \<Longrightarrow> bit e3 0 \<Longrightarrow>
     mmu_frame m (pd_addr v) = Some (frame_of e3)"
  by (simp add: mmu_frame_def addr_fields fields_idx canonical_fields self_ref_def has_bit)

lemma mmu_pt:
  "self_ref m \<Longrightarrow> e4 = mem m (root m) (unat (PML4_IDX v)) \<Longrightarrow> bit e4 0 \<Longrightarrow> \<not> bit e4 7 \<Longrightarrow>
   e3 = mem m (frame_of e4) (unat (PDPT_IDX v)) \<Longrightarrow> bit e3 0 \<Longrightarrow> \<not> bit e3 7 \<Longrightarrow>
   e2 = mem m (frame_of e3) (unat (PD_IDX v)) \<Longrightarrow> bit e2 0 \<Longrightarrow>
     mmu_frame m (pt_addr v) = Some (frame_of e2)"
  by (simp add: mmu_frame_def addr_fields fields_idx canonical_fields self_ref_def has_bit)

section \<open>Tables by their path\<close>

definition tstep :: "machine \<Rightarrow> nat \<Rightarrow> nat \<Rightarrow> nat option" where
  "tstep m f i = (let e = mem m f i in if bit e 0 \<and> \<not> bit e 7 then Some (frame_of e) else None)"

definition tpath :: "machine \<Rightarrow> nat list \<Rightarrow> nat option" where
  "tpath m p = foldl (\<lambda>r i. Option.bind r (\<lambda>f. tstep m f i)) (Some (root m)) p"

lemma tpath_Nil [simp]: "tpath m [] = Some (root m)"
  by (simp add: tpath_def)

lemma tpath_snoc [simp]: "tpath m (p @ [i]) = Option.bind (tpath m p) (\<lambda>f. tstep m f i)"
  by (simp add: tpath_def)

lemma tpath_1: "tpath m [i] = tstep m (root m) i"
  using tpath_snoc [of m "[]" i] by simp

lemma tpath_2: "tpath m [i, j] = Option.bind (tpath m [i]) (\<lambda>f. tstep m f j)"
  using tpath_snoc [of m "[i]" j] by simp

lemma tpath_3: "tpath m [i, j, k] = Option.bind (tpath m [i, j]) (\<lambda>f. tstep m f k)"
  using tpath_snoc [of m "[i, j]" k] by simp

definition valid_path :: "nat list \<Rightarrow> bool" where
  "valid_path p \<longleftrightarrow> length p \<le> 3 \<and> (\<forall>i \<in> set p. i < 512) \<and> (p \<noteq> [] \<longrightarrow> hd p \<noteq> 510)"

definition path_of :: "u64 \<Rightarrow> nat list" where
  "path_of v = [unat (PML4_IDX v), unat (PDPT_IDX v), unat (PD_IDX v)]"

lemma valid_path_of: "PML4_IDX v \<noteq> REC \<Longrightarrow> valid_path (take k (path_of v))"
proof -
  assume "PML4_IDX v \<noteq> REC"
  then have "unat (PML4_IDX v) \<noteq> 510" using unat_REC by (metis word_unat_eq_iff)
  moreover have "set (take k (path_of v)) \<subseteq> set (path_of v)" by (rule set_take_subset)
  moreover have "hd (take k (path_of v)) = unat (PML4_IDX v)" if "take k (path_of v) \<noteq> []"
    using that by (cases k) (simp_all add: path_of_def)
  moreover have "\<forall>i \<in> set (path_of v). i < 512" by (simp add: path_of_def)
  ultimately show ?thesis unfolding valid_path_def by (auto simp: path_of_def min_def)
qed

lemma valid_snoc: "valid_path (p @ [i]) \<Longrightarrow> valid_path p"
  by (cases p) (auto simp: valid_path_def)

text \<open>The invariant of a loaded address space: the self-reference is in place, no PML4 entry
  claims to be a page, every table is a frame the allocator counts as used, and no table below
  the PML4 is the PML4.\<close>

definition paging_inv :: "machine \<Rightarrow> bool" where
  "paging_inv m \<longleftrightarrow> self_ref m \<and> pmm_live (pmm m) \<and> ready (pmm m) \<and> frame_count (pmm m) \<le> 2 ^ 40
     \<and> (\<forall>i < 512. \<not> (bit (mem m (root m) i) 0 \<and> bit (mem m (root m) i) 7))
     \<and> (\<forall>p f. valid_path p \<longrightarrow> tpath m p = Some f \<longrightarrow> owners (pmm m) f > 0 \<and> (p \<noteq> [] \<longrightarrow> f \<noteq> root m))"

text \<open>The tables on the way to an address belong to it alone.\<close>

definition private_path :: "machine \<Rightarrow> u64 \<Rightarrow> bool" where
  "private_path m v \<longleftrightarrow> (\<forall>k q f. k \<le> 3 \<longrightarrow> valid_path q \<longrightarrow> tpath m (take k (path_of v)) = Some f \<longrightarrow>
      tpath m q = Some f \<longrightarrow> q = take k (path_of v))"

section \<open>Walks through the window\<close>

definition tbl_addr :: "u64 \<Rightarrow> nat \<Rightarrow> u64" where
  "tbl_addr v k = (if k = 0 then pml4_addr else if k = 1 then pdpt_addr v else if k = 2 then pd_addr v else pt_addr v)"

definition idx_at :: "u64 \<Rightarrow> nat \<Rightarrow> u64" where
  "idx_at v k = (if k = 0 then PML4_IDX v else if k = 1 then PDPT_IDX v else if k = 2 then PD_IDX v else PT_IDX v)"

lemma idx_at_less [simp]: "unat (idx_at v k) < 512"
  by (simp add: idx_at_def)

lemma path_of_Suc: "k < 3 \<Longrightarrow> take (Suc k) (path_of v) = take k (path_of v) @ [unat (idx_at v k)]"
  by (auto simp: path_of_def idx_at_def less_Suc_eq numeral_3_eq_3 take_Suc_conv_app_nth)

lemma path_of_take:
  "take 0 (path_of v) = []" "take 1 (path_of v) = [unat (PML4_IDX v)]"
  "take 2 (path_of v) = [unat (PML4_IDX v), unat (PDPT_IDX v)]"
  "take 3 (path_of v) = [unat (PML4_IDX v), unat (PDPT_IDX v), unat (PD_IDX v)]"
  "take (Suc 0) (path_of v) = [unat (PML4_IDX v)]"
  by (simp_all add: path_of_def)

lemma tstep_Some: "tstep m f i = Some g \<longleftrightarrow> bit (mem m f i) 0 \<and> \<not> bit (mem m f i) 7 \<and> g = frame_of (mem m f i)"
  by (auto simp: tstep_def Let_def)

lemma mmu_tbl:
  assumes "self_ref m" and "k \<le> 3" and "tpath m (take k (path_of v)) = Some f"
  shows "mmu_frame m (tbl_addr v k) = Some f"
proof -
  consider "k = 0" | "k = 1" | "k = 2" | "k = 3" using assms(2) by linarith
  then show ?thesis
  proof cases
    case 1
    then show ?thesis using assms by (simp add: tbl_addr_def mmu_pml4)
  next
    case 2
    then show ?thesis using assms(1,3) mmu_pdpt [of m v]
      by (simp add: tbl_addr_def path_of_take tpath_1 tstep_Some)
  next
    case 3
    then show ?thesis using assms(1,3) mmu_pd [OF assms(1) refl, where v = v, OF _ _ refl]
      by (auto simp: tbl_addr_def path_of_take tpath_1 tpath_2 tstep_Some Option.bind_eq_Some_conv)
  next
    case 4
    then show ?thesis using assms(1,3) mmu_pt [OF assms(1) refl, where v = v, OF _ _ refl _ _ refl]
      by (auto simp: tbl_addr_def path_of_take tpath_1 tpath_2 tpath_3 tstep_Some Option.bind_eq_Some_conv)
  qed
qed

lemma mmu_frame_cong: "cr3 m' = cr3 m \<Longrightarrow> mem m' = mem m \<Longrightarrow> mmu_frame m' v = mmu_frame m v"
  unfolding mmu_frame_def by (simp only:)

definition frame_1g :: "u64 \<Rightarrow> u64 \<Rightarrow> nat" where
  "frame_1g e v = unat (drop_bit 12 ((e AND ADDR_MASK AND NOT 0x3FFFFFFF) OR (v AND 0x3FFFFFFF)))"

definition frame_2m :: "u64 \<Rightarrow> u64 \<Rightarrow> nat" where
  "frame_2m e v = unat (drop_bit 12 ((e AND ADDR_MASK AND NOT 0x1FFFFF) OR (v AND 0x1FFFFF)))"

text \<open>The walk of an ordinary address, by the tables on its path.\<close>

lemma mmu_frame_path:
  assumes "\<forall>i < 512. \<not> (bit (mem m (root m) i) 0 \<and> bit (mem m (root m) i) 7)"
  shows "mmu_frame m w =
     (if \<not> canonical w then None else
      case tpath m (take 1 (path_of w)) of None \<Rightarrow> None | Some f4 \<Rightarrow>
      (let e3 = mem m f4 (unat (PDPT_IDX w)) in
       if bit e3 0 \<and> bit e3 7
       then Some (frame_1g e3 w) else
       case tpath m (take 2 (path_of w)) of None \<Rightarrow> None | Some f3 \<Rightarrow>
       (let e2 = mem m f3 (unat (PD_IDX w)) in
        if bit e2 0 \<and> bit e2 7
        then Some (frame_2m e2 w) else
        case tpath m (take 3 (path_of w)) of None \<Rightarrow> None | Some f2 \<Rightarrow>
        (let e1 = mem m f2 (unat (PT_IDX w)) in
         if bit e1 0 then Some (frame_of e1) else None))))"
  using assms idx_less(1) [of w] unfolding mmu_frame_def frame_1g_def [symmetric] frame_2m_def [symmetric]
  by (auto simp: has_bit path_of_take tpath_1 tpath_2 tpath_3 tstep_def Let_def)

section \<open>Creating a table\<close>

text \<open>What installing a fresh, zeroed table \<open>g\<close> in the empty entry \<open>i\<close> of the table \<open>f\<close> at
  path \<open>p\<close> does to the machine, when no other path reaches \<open>f\<close>.\<close>

definition table_created ::
    "machine \<Rightarrow> machine \<Rightarrow> nat list \<Rightarrow> nat \<Rightarrow> nat \<Rightarrow> nat \<Rightarrow> u64 \<Rightarrow> (nat \<Rightarrow> u64) \<Rightarrow> bool" where
  "table_created m m' p i f g E Z \<longleftrightarrow> paging_inv m
     \<and> tpath m p = Some f \<and> length p \<le> 2 \<and> valid_path (p @ [i])
     \<and> (\<forall>q. valid_path q \<longrightarrow> tpath m q = Some f \<longrightarrow> q = p)
     \<and> \<not> bit (mem m f i) 0 \<and> owners (pmm m) g = 0
     \<and> bit E 0 \<and> \<not> bit E 7 \<and> frame_of E = g \<and> (\<forall>j < 512. Z j = 0)
     \<and> cr3 m' = cr3 m \<and> mem m' = (mem m)(f := (mem m f)(i := E), g := Z)"

lemma table_createdD:
  assumes "table_created m m' p i f g E Z"
  shows "paging_inv m" "tpath m p = Some f" "length p \<le> 2" "valid_path (p @ [i])"
    "\<And>q. valid_path q \<Longrightarrow> tpath m q = Some f \<Longrightarrow> q = p" "\<not> bit (mem m f i) 0" "owners (pmm m) g = 0"
    "bit E 0" "\<not> bit E 7" "frame_of E = g" "\<And>j. j < 512 \<Longrightarrow> Z j = 0"
    "cr3 m' = cr3 m" "mem m' = (mem m)(f := (mem m f)(i := E), g := Z)"
  using assms by (auto simp: table_created_def)

lemma tc_used:
  assumes "table_created m m' p i f g E Z" and "valid_path q" and "tpath m q = Some h"
  shows "h \<noteq> g"
  using table_createdD(1,7) [OF assms(1)] assms(2,3) unfolding paging_inv_def by (metis less_irrefl)

lemma tc_f_not_g: "table_created m m' p i f g E Z \<Longrightarrow> f \<noteq> g"
  using tc_used [OF _ valid_snoc] table_createdD(2,4) by metis

lemma tc_was_absent: "table_created m m' p i f g E Z \<Longrightarrow> tpath m (p @ [i]) = None"
  using table_createdD(2,6) by (simp add: tstep_def Let_def)

lemma tc_tpath:
  assumes tc: "table_created m m' p i f g E Z"
  shows "valid_path q \<Longrightarrow> tpath m' q = (if q = p @ [i] then Some g else tpath m q)"
proof (induction q rule: rev_induct)
  case Nil
  then show ?case by (simp add: table_createdD(12,13) [OF tc])
next
  case (snoc j q)
  have q: "valid_path q" and j: "j < 512" using snoc.prems by (auto simp: valid_path_def dest: valid_snoc)
  show ?case
  proof (cases "q = p @ [i]")
    case True
    have "tpath m' (q @ [j]) = None"
      using snoc.IH [OF q] True table_createdD(11) [OF tc j] unfolding tpath_snoc
      by (simp add: tstep_def table_createdD(12,13) [OF tc])
    moreover have "tpath m (q @ [j]) = None"
      using tc_was_absent [OF tc] unfolding True tpath_snoc [of m "p @ [i]"] by simp
    ultimately show ?thesis by (simp add: True)
  next
    case False
    then have IH: "tpath m' q = tpath m q" using snoc.IH [OF q] by simp
    show ?thesis
    proof (cases "tpath m q")
      case None
      then show ?thesis using IH table_createdD(2) [OF tc] by auto
    next
      case (Some h)
      then have "h \<noteq> g" using tc_used [OF tc] q by blast
      then show ?thesis using IH Some table_createdD(5) [OF tc q] table_createdD(2) [OF tc] table_createdD(8-10) [OF tc] tc_f_not_g [OF tc]
        by (cases "h = f \<and> j = i") (auto simp: tstep_def table_createdD(12,13) [OF tc] Let_def)
    qed
  qed
qed

lemma tc_same_cell:
  assumes tc: "table_created m m' p i f g E Z"
    and "valid_path q" and "tpath m q = Some h" and "(q, j) \<noteq> (p, i)"
  shows "mem m' h j = mem m h j"
  using tc_used [OF tc assms(2,3)] table_createdD(5) [OF tc, of q] tc_f_not_g [OF tc] assms(2-4) by (auto simp: table_createdD(12,13) [OF tc])

lemma tc_root_cell:
  assumes tc: "table_created m m' p i f g E Z"
  shows "j = i \<and> p = [] \<or> mem m' (root m) j = mem m (root m) j"
  using tc_same_cell [OF tc, of "[]" "root m" j] by (auto simp: valid_path_def)

lemma tc_self_ref:
  assumes tc: "table_created m m' p i f g E Z"
  shows "self_ref m'"
proof -
  have "\<not> (510 = i \<and> p = [])" using table_createdD(4) [OF tc] by (auto simp: valid_path_def)
  then show ?thesis using tc_root_cell [OF tc, of 510] table_createdD(1) [OF tc] by (auto simp: self_ref_def table_createdD(12) [OF tc] paging_inv_def)
qed

lemma tc_no_huge:
  assumes tc: "table_created m m' p i f g E Z"
  shows "\<forall>j < 512. \<not> (bit (mem m' (root m') j) 0 \<and> bit (mem m' (root m') j) 7)"
proof (intro allI impI)
  fix j :: nat assume j: "j < 512"
  have "mem m' (root m) j = E" if "j = i \<and> p = []"
    using that table_createdD(2) [OF tc] tc_f_not_g [OF tc] by (simp add: table_createdD(12,13) [OF tc])
  then show "\<not> (bit (mem m' (root m') j) 0 \<and> bit (mem m' (root m') j) 7)"
    using tc_root_cell [OF tc, of j] table_createdD(1) [OF tc] j table_createdD(8-10) [OF tc] by (auto simp: table_createdD(12) [OF tc] paging_inv_def)
qed

lemma tc_huge:
  assumes tc: "table_created m m' p i f g E Z" and "valid_path (q @ [j])" and "tpath m q = Some h"
  shows "(bit (mem m' h j) 0 \<and> bit (mem m' h j) 7) = (bit (mem m h j) 0 \<and> bit (mem m h j) 7)
       \<and> (bit (mem m h j) 0 \<and> bit (mem m h j) 7 \<longrightarrow> mem m' h j = mem m h j)"
proof (cases "(q, j) = (p, i)")
  case True
  then have "h = f" using assms(3) table_createdD(2) [OF tc] by simp
  then show ?thesis using True table_createdD(8-10) [OF tc] table_createdD(6) [OF tc] tc_f_not_g [OF tc] by (simp add: table_createdD(12,13) [OF tc])
qed (simp add: tc_same_cell [OF tc valid_snoc [OF assms(2)] assms(3)])

lemma tpath_take_None:
  "tpath m (take 1 (path_of w)) = None \<Longrightarrow> tpath m (take 2 (path_of w)) = None"
  "tpath m (take 2 (path_of w)) = None \<Longrightarrow> tpath m (take 3 (path_of w)) = None"
  by (simp_all add: path_of_take tpath_2 tpath_3)

lemma tc_zero: "table_created m m' p i f g E Z \<Longrightarrow> j < 512 \<Longrightarrow> mem m' g j = 0"
  using table_createdD(11,13) by simp

lemma tc_mmu:
  assumes tc: "table_created m m' p i f g E Z" and "PML4_IDX w \<noteq> REC"
  shows "mmu_frame m' w = mmu_frame m w"
proof -
  note v = valid_path_of [OF assms(2)]
  have nh: "\<forall>i < 512. \<not> (bit (mem m (root m) i) 0 \<and> bit (mem m (root m) i) 7)"
    using table_createdD(1) [OF tc] by (simp add: paging_inv_def)
  have t: "tpath m' (take k (path_of w)) = (if take k (path_of w) = p @ [i] then Some g else tpath m (take k (path_of w)))" for k
    by (rule tc_tpath [OF tc v])
  have l3: "take 3 (path_of w) \<noteq> p" using table_createdD(3) [OF tc] by (auto simp: path_of_def)
  have v2: "valid_path (take 1 (path_of w) @ [unat (PDPT_IDX w)])" "valid_path (take 2 (path_of w) @ [unat (PD_IDX w)])"
    using v [of 2] v [of 3] by (simp_all add: path_of_take)
  have len: "length p + 1 = k" if "take k (path_of w) = p @ [i]" and "k \<le> 3" for k
    using arg_cong [OF that(1), of length] that(2) by (simp add: path_of_def)
  consider (a) "take 1 (path_of w) = p @ [i]" | (b) "take 2 (path_of w) = p @ [i]" | (c) "take 3 (path_of w) = p @ [i]"
    | (d) "\<forall>k \<in> {1, 2, 3}. take k (path_of w) \<noteq> p @ [i]" by blast
  then show ?thesis
  proof cases
    case a
    then have "take 2 (path_of w) \<noteq> p @ [i]" using len [of 1] len [of 2] by fastforce
    then have "tpath m' (take 1 (path_of w)) = Some g" "tpath m' (take 2 (path_of w)) = None"
        "tpath m (take 1 (path_of w)) = None" "mem m' g (unat (PDPT_IDX w)) = 0"
      using a t [of 1] t [of 2] tc_was_absent [OF tc] tc_zero [OF tc] tpath_take_None(1) [of m w] by auto
    then show ?thesis
      unfolding mmu_frame_path [OF nh] mmu_frame_path [OF tc_no_huge [OF tc]] by (simp del: One_nat_def)
  next
    case b
    then have "take 1 (path_of w) \<noteq> p @ [i]" "take 3 (path_of w) \<noteq> p @ [i]"
      using len [of 1] len [of 2] len [of 3] by fastforce+
    then have "tpath m' (take 1 (path_of w)) = tpath m (take 1 (path_of w))" "tpath m' (take 2 (path_of w)) = Some g"
        "tpath m' (take 3 (path_of w)) = None" "tpath m (take 2 (path_of w)) = None" "mem m' g (unat (PD_IDX w)) = 0"
      using b t [of 1] t [of 2] t [of 3] tc_was_absent [OF tc] tc_zero [OF tc] tpath_take_None(2) [of m w] by auto
    note eqs = this mmu_frame_path [OF nh] mmu_frame_path [OF tc_no_huge [OF tc]]
    show ?thesis
    proof (cases "tpath m (take 1 (path_of w))")
      case (Some f4)
      then show ?thesis using tc_huge [OF tc v2(1) Some]
        by (cases "bit (mem m f4 (unat (PDPT_IDX w))) 0 \<and> bit (mem m f4 (unat (PDPT_IDX w))) 7")
           (auto simp: eqs Let_def simp del: One_nat_def)
    qed (simp add: eqs del: One_nat_def)
  next
    case c
    then have "take 1 (path_of w) \<noteq> p @ [i]" "take 2 (path_of w) \<noteq> p @ [i]"
      using len [of 1] len [of 2] len [of 3] by fastforce+
    then have "tpath m' (take 1 (path_of w)) = tpath m (take 1 (path_of w))" "tpath m' (take 2 (path_of w)) = tpath m (take 2 (path_of w))"
        "tpath m' (take 3 (path_of w)) = Some g" "tpath m (take 3 (path_of w)) = None" "mem m' g (unat (PT_IDX w)) = 0"
      using c t [of 1] t [of 2] t [of 3] tc_was_absent [OF tc] tc_zero [OF tc] by auto
    note eqs = this mmu_frame_path [OF nh] mmu_frame_path [OF tc_no_huge [OF tc]]
    show ?thesis
    proof (cases "tpath m (take 1 (path_of w))")
      case f4: (Some f4)
      show ?thesis
      proof (cases "tpath m (take 2 (path_of w))")
        case (Some f3)
        then show ?thesis using f4 tc_huge [OF tc v2(1) f4] tc_huge [OF tc v2(2) Some]
          by (cases "bit (mem m f4 (unat (PDPT_IDX w))) 0 \<and> bit (mem m f4 (unat (PDPT_IDX w))) 7";
              cases "bit (mem m f3 (unat (PD_IDX w))) 0 \<and> bit (mem m f3 (unat (PD_IDX w))) 7")
             (auto simp: eqs Let_def simp del: One_nat_def)
      qed (use f4 tc_huge [OF tc v2(1) f4] in \<open>auto simp: eqs Let_def simp del: One_nat_def\<close>)
    qed (simp add: eqs del: One_nat_def)
  next
    case d
    then have "tpath m' (take k (path_of w)) = tpath m (take k (path_of w))" if "k \<in> {1, 2, 3}" for k
      using t [of k] bspec [OF d that] by simp
    then have "tpath m' (take 1 (path_of w)) = tpath m (take 1 (path_of w))" "tpath m' (take 2 (path_of w)) = tpath m (take 2 (path_of w))"
        "tpath m' (take 3 (path_of w)) = tpath m (take 3 (path_of w))" by simp_all
    note eqs = this mmu_frame_path [OF nh] mmu_frame_path [OF tc_no_huge [OF tc]]
    show ?thesis
    proof (cases "tpath m (take 1 (path_of w))")
      case f4: (Some f4)
      show ?thesis
      proof (cases "tpath m (take 2 (path_of w))")
        case f3: (Some f3)
        have e1: "mem m' f2 (unat (PT_IDX w)) = mem m f2 (unat (PT_IDX w))" if "tpath m (take 3 (path_of w)) = Some f2" for f2
          using tc_same_cell [OF tc v [of 3] that] l3 by simp
        show ?thesis using f4 f3 tc_huge [OF tc v2(1) f4] tc_huge [OF tc v2(2) f3] e1
          by (cases "bit (mem m f4 (unat (PDPT_IDX w))) 0 \<and> bit (mem m f4 (unat (PDPT_IDX w))) 7";
              cases "bit (mem m f3 (unat (PD_IDX w))) 0 \<and> bit (mem m f3 (unat (PD_IDX w))) 7";
              cases "tpath m (take 3 (path_of w))")
             (auto simp: eqs Let_def simp del: One_nat_def)
      qed (use f4 tc_huge [OF tc v2(1) f4] in \<open>auto simp: eqs Let_def simp del: One_nat_def\<close>)
    qed (simp add: eqs del: One_nat_def)
  qed
qed


section \<open>One level of the walk down\<close>

lemma frame_entry:
  assumes "g < 2 ^ 40" and "x AND ADDR_MASK = 0"
  shows "frame_of (of_nat (g * 4096) OR x) = g"
proof -
  have g: "(of_nat (g * 4096) :: u64) = push_bit 12 (of_nat g)"
    by (simp add: push_bit_eq_mult mult.commute)
  have x: "\<not> bit x (12 + n)" if "n < 40" for n
  proof -
    have "\<not> bit (x AND ADDR_MASK) (12 + n)" using assms(2) by simp
    then show ?thesis using that by (simp add: bit_and_iff bit_ADDR_MASK)
  qed
  have gb: "n < 40" if "bit g n" for n
    using assms(1) that by (metis bit_take_bit_iff take_bit_nat_eq_self)
  have "drop_bit 12 ((push_bit 12 (of_nat g) OR x) AND ADDR_MASK) = (of_nat g :: u64)"
    by (intro bit_word_eqI) (auto simp: bit_simps bit_ADDR_MASK x dest: gb)
  moreover have "unat (of_nat g :: u64) = g"
    using assms(1) by (simp add: unsigned_of_nat take_bit_nat_eq_self)
  ultimately show ?thesis unfolding frame_of_def g by simp
qed

lemma bit_frame_low: "n < 12 \<Longrightarrow> \<not> bit (of_nat (g * 4096) :: u64) n"
proof -
  assume "n < 12"
  moreover have "(of_nat (g * 4096) :: u64) = push_bit 12 (of_nat g)"
    by (simp add: push_bit_eq_mult mult.commute)
  ultimately show ?thesis by (simp add: bit_push_bit_iff)
qed

lemma alloc_frame_fresh:
  assumes "pmm_live P" and "ready P" and "frame_count P \<le> 2 ^ 40" and "pmm64_alloc_frame P = (fr, P')"
  shows "pmm_live P' \<and> ready P' \<and> frame_count P' = frame_count P"
    and "fr = 0 \<Longrightarrow> owners P' = owners P \<and> (\<forall>f. \<not> free_frame_of P f)"
    and "fr \<noteq> 0 \<Longrightarrow> \<exists>g. fr = g * 4096 \<and> g < 2 ^ 40 \<and> g \<noteq> 0 \<and> owners P g = 0 \<and> owners P' = (owners P)(g := 1)"
proof -
  have step: "alloc_step P fr P'"
    using alloc_frame_step [of P] assms(1,4) by (simp add: pmm_live_def)
  note c = alloc_step_cases [OF step assms(1)]
  show "pmm_live P' \<and> ready P' \<and> frame_count P' = frame_count P"
    using c(1) step assms(2) by (simp add: alloc_step_def)
  have no0: "\<not> free_frame_of P 0" using assms(1,2) by (simp add: pmm_live_def)
  then show "fr = 0 \<Longrightarrow> owners P' = owners P \<and> (\<forall>f. \<not> free_frame_of P f)"
    using step assms(2) unfolding alloc_step_def FRAME_SIZE_def by (metis mult_is_0 zero_neq_numeral)
  assume "fr \<noteq> 0"
  then obtain g where "fr = g * 4096" "free_frame_of P g" "owners P' = (owners P)(g := 1)"
    using step unfolding alloc_step_def FRAME_SIZE_def by blast
  then show "\<exists>g. fr = g * 4096 \<and> g < 2 ^ 40 \<and> g \<noteq> 0 \<and> owners P g = 0 \<and> owners P' = (owners P)(g := 1)"
    using assms(2,3) \<open>fr \<noteq> 0\<close> free_frame_of_owners [of P g] by (auto simp: free_frame_of_def)
qed

text \<open>Widening an entry's permissions changes no walk.\<close>

definition same_view :: "machine \<Rightarrow> machine \<Rightarrow> bool" where
  "same_view m m' \<longleftrightarrow> cr3 m' = cr3 m \<and> (\<forall>f i. bit (mem m' f i) 0 = bit (mem m f i) 0
     \<and> bit (mem m' f i) 7 = bit (mem m f i) 7 \<and> mem m' f i AND ADDR_MASK = mem m f i AND ADDR_MASK)"

lemma same_view_walk:
  assumes "same_view m m'"
  shows "mmu_frame m' v = mmu_frame m v" and "tpath m' p = tpath m p" and "self_ref m' = self_ref m"
proof -
  have v: "bit (mem m' f i) 0 = bit (mem m f i) 0" "bit (mem m' f i) 7 = bit (mem m f i) 7"
    "mem m' f i AND ADDR_MASK = mem m f i AND ADDR_MASK" "cr3 m' = cr3 m" for f i
    using assms by (auto simp: same_view_def)
  then have fr: "frame_of (mem m' f i) = frame_of (mem m f i)" for f i by (simp add: frame_of_def)
  have big: "frame_1g (mem m' f i) w = frame_1g (mem m f i) w" "frame_2m (mem m' f i) w = frame_2m (mem m f i) w" for f i w
    by (simp_all only: frame_1g_def frame_2m_def and.assoc [symmetric] v)
  show "mmu_frame m' v = mmu_frame m v"
    unfolding mmu_frame_def frame_1g_def [symmetric] frame_2m_def [symmetric] has_bit Let_def v fr big ..
  have "tstep m' = tstep m" by (intro ext) (simp only: tstep_def Let_def v fr)
  then show "tpath m' p = tpath m p" by (simp add: tpath_def v)
  show "self_ref m' = self_ref m" unfolding self_ref_def v fr ..
qed

lemma same_view_inv:
  assumes "same_view m m'" and "pmm m' = pmm m"
  shows "paging_inv m' = paging_inv m" and "private_path m' v = private_path m v"
proof -
  have v: "bit (mem m' f i) 0 = bit (mem m f i) 0" "bit (mem m' f i) 7 = bit (mem m f i) 7" "cr3 m' = cr3 m" for f i
    using assms(1) by (auto simp: same_view_def)
  show "paging_inv m' = paging_inv m"
    unfolding paging_inv_def same_view_walk [OF assms(1)] v assms(2) ..
  show "private_path m' v = private_path m v"
    unfolding private_path_def same_view_walk [OF assms(1)] ..
qed

lemma same_view_widen:
  "same_view m (store_word f i (mem m f i OR (flags AND (PAGE64_WRITE OR PAGE64_USER))) m)"
proof -
  have "PAGE64_WRITE OR PAGE64_USER = 6" by (simp add: PAGE64_WRITE_def PAGE64_USER_def)
  moreover have "(6 :: u64) AND ADDR_MASK = 0" by (simp add: ADDR_MASK_def)
  moreover have "\<not> bit (6 :: u64) 0" "\<not> bit (6 :: u64) 7" by (simp_all add: bit_numeral_simps)
  ultimately show ?thesis
    by (auto simp: same_view_def store_word_def bit_or_iff bit_and_iff bit.conj_disj_distrib2
        and.assoc)
qed

lemma zero_table_spec:
  assumes "\<And>m'. cr3 m' = cr3 m \<Longrightarrow> (\<forall>f. f \<noteq> g \<longrightarrow> mem m' f = mem m f) \<Longrightarrow> mmu_frame m' child = Some g"
  shows "zero_table child m = Some (m\<lparr>mem := (mem m)(g := (\<lambda>i. if i < 512 then 0 else mem m g i))\<rparr>)"
proof -
  have "n \<le> 512 \<Longrightarrow> fold (\<lambda>i r. Option.bind r (\<lambda>m. vstore m child (of_nat i) 0)) [0..<n] (Some m)
      = Some (m\<lparr>mem := (mem m)(g := (\<lambda>i. if i < n then 0 else mem m g i))\<rparr>)" for n
  proof (induction n)
    case (Suc n)
    define m1 where "m1 = m\<lparr>mem := (mem m)(g := (\<lambda>i. if i < n then 0 else mem m g i))\<rparr>"
    have "unat (of_nat n :: u64) = n" using Suc.prems by (simp add: unsigned_of_nat take_bit_nat_eq_self)
    moreover have "mmu_frame m1 child = Some g" by (rule assms) (simp_all add: m1_def)
    ultimately have "vstore m1 child (of_nat n) 0 = Some (store_word g n 0 m1)" by (simp add: vstore_def)
    moreover have "(mem m1)(g := (mem m1 g)(n := 0)) = (mem m)(g := (\<lambda>i. if i < Suc n then 0 else mem m g i))"
      by (auto simp: m1_def fun_eq_iff)
    ultimately show ?case using Suc by (simp add: m1_def [symmetric] store_word_def) (simp add: m1_def fun_upd_def)
  qed simp
  then show ?thesis by (simp add: zero_table_def)
qed

text \<open>What a step of the map operation leaves alone: every translation outside the recursive slot,
  the owners of every frame that had one, and the contents of every frame in use that is no table
  of this address space.\<close>

definition undisturbed :: "machine \<Rightarrow> machine \<Rightarrow> bool" where
  "undisturbed m m' \<longleftrightarrow> cr3 m' = cr3 m \<and> paging_inv m'
     \<and> (\<forall>w. PML4_IDX w \<noteq> REC \<longrightarrow> private_path m w \<longrightarrow> private_path m' w)
     \<and> (\<forall>w. PML4_IDX w \<noteq> REC \<longrightarrow> mmu_frame m' w = mmu_frame m w)
     \<and> (\<forall>f. owners (pmm m) f > 0 \<longrightarrow> owners (pmm m') f = owners (pmm m) f
          \<and> ((\<forall>p. valid_path p \<longrightarrow> tpath m p \<noteq> Some f) \<longrightarrow>
               mem m' f = mem m f \<and> (\<forall>p. valid_path p \<longrightarrow> tpath m' p \<noteq> Some f)))"

lemma undisturbed_trans [trans]: "undisturbed m m' \<Longrightarrow> undisturbed m' m'' \<Longrightarrow> undisturbed m m''"
  unfolding undisturbed_def by metis

lemma undisturbed_refl: "paging_inv m \<Longrightarrow> undisturbed m m"
  by (simp add: undisturbed_def)

lemma undisturbed_view:
  assumes "same_view m m'" and "pmm m' = pmm m" and "paging_inv m" and "tpath m p = Some f" and "valid_path p"
    and "\<And>h. h \<noteq> f \<Longrightarrow> mem m' h = mem m h"
  shows "undisturbed m m'"
  using assms same_view_walk [OF assms(1)] same_view_inv [OF assms(1,2)]
  unfolding undisturbed_def same_view_def by metis

lemma undisturbed_pmm:
  assumes "paging_inv m" and "pmm_live P" and "ready P" and "frame_count P = frame_count (pmm m)"
    and "owners P = owners (pmm m)"
  shows "undisturbed m (m\<lparr>pmm := P\<rparr>)" and "private_path (m\<lparr>pmm := P\<rparr>) v = private_path m v"
proof -
  have "same_view m (m\<lparr>pmm := P\<rparr>)" by (simp add: same_view_def)
  note w = same_view_walk [OF this]
  have "paging_inv (m\<lparr>pmm := P\<rparr>)"
    using assms unfolding paging_inv_def w by simp
  moreover have pr: "private_path (m\<lparr>pmm := P\<rparr>) v = private_path m v" for v unfolding private_path_def w ..
  ultimately show "undisturbed m (m\<lparr>pmm := P\<rparr>)" using assms(5) by (simp add: undisturbed_def w)
  show "private_path (m\<lparr>pmm := P\<rparr>) v = private_path m v" by (rule pr)
qed

lemma tc_private:
  assumes tc: "table_created m m' p i f g E Z" and "private_path m v" and "PML4_IDX v \<noteq> REC"
  shows "private_path m' v"
  unfolding private_path_def
proof (intro allI impI)
  fix l q h
  assume l: "l \<le> 3" and q: "valid_path q" and at: "tpath m' (take l (path_of v)) = Some h" "tpath m' q = Some h"
  note t = tc_tpath [OF tc]
  have vl: "valid_path (take l (path_of v))" by (rule valid_path_of [OF assms(3)])
  show "q = take l (path_of v)"
  proof (cases "q = p @ [i] \<or> take l (path_of v) = p @ [i]")
    case True
    then show ?thesis using at t [OF q] t [OF vl] tc_used [OF tc q] tc_used [OF tc vl] by (auto split: if_splits)
  next
    case False
    then show ?thesis using at t [OF q] t [OF vl] assms(2) l q by (auto simp: private_path_def)
  qed
qed

lemma tc_undisturbed:
  assumes tc: "table_created m m' p i f g E Z"
    and P: "pmm_live (pmm m')" "ready (pmm m')" "frame_count (pmm m') = frame_count (pmm m)"
       "owners (pmm m') = (owners (pmm m))(g := 1)"
  shows "undisturbed m m'"
proof -
  note inv = table_createdD(1) [OF tc]
  have g: "owners (pmm m) g = 0" using table_createdD(7) [OF tc] .
  have r: "root m' = root m" using table_createdD(12) [OF tc] by simp
  have paths: "owners (pmm m') h > 0 \<and> (q \<noteq> [] \<longrightarrow> h \<noteq> root m')" if q: "valid_path q" "tpath m' q = Some h" for q h
  proof (cases "q = p @ [i]")
    case True
    then have "h = g" using tc_tpath [OF tc q(1)] q(2) by simp
    moreover have "root m \<noteq> g" using tc_used [OF tc, of "[]"] by (simp add: valid_path_def)
    ultimately show ?thesis using P(4) r by auto
  next
    case False
    then have "tpath m q = Some h" using tc_tpath [OF tc q(1)] q(2) by simp
    then show ?thesis using inv q(1) P(4) r g unfolding paging_inv_def by auto
  qed
  have "paging_inv m'"
    unfolding paging_inv_def
    using tc_self_ref [OF tc] tc_no_huge [OF tc] paths P inv by (simp add: paging_inv_def)
  moreover have "mem m' h = mem m h \<and> (\<forall>q. valid_path q \<longrightarrow> tpath m' q \<noteq> Some h)"
    if h: "owners (pmm m) h > 0" "\<forall>q. valid_path q \<longrightarrow> tpath m q \<noteq> Some h" for h
  proof -
    have "h \<noteq> g" using h(1) g by auto
    moreover have "h \<noteq> f" using h(2) table_createdD(2) [OF tc] valid_snoc [OF table_createdD(4) [OF tc]] by auto
    ultimately show ?thesis using h(2) tc_tpath [OF tc] by (auto simp: table_createdD(13) [OF tc])
  qed
  moreover have "owners (pmm m') h = owners (pmm m) h" if "owners (pmm m) h > 0" for h
    using that g P(4) by auto
  ultimately show ?thesis
    unfolding undisturbed_def using tc_mmu [OF tc] tc_private [OF tc] table_createdD(12) [OF tc] by blast
qed

text \<open>The recursive address of the new table reaches it while it is being cleared.\<close>

lemma child_resolves:
  assumes tc: "table_created m m' (take k (path_of v)) (unat (idx_at v k)) f g E Z" and k: "k < 3"
    and "cr3 n = cr3 m" and n: "\<forall>h. h \<noteq> g \<longrightarrow> mem n h = ((mem m)(f := (mem m f)(unat (idx_at v k) := E))) h"
  shows "mmu_frame n (tbl_addr v (Suc k)) = Some g"
proof -
  let ?p = "take k (path_of v)" and ?i = "unat (idx_at v k)"
  have root: "root m \<noteq> g" using tc_used [OF tc, of "[]"] by (simp add: valid_path_def)
  have same: "mem n h j = mem m' h j" if "h \<noteq> g" for h j
    using n that by (simp add: table_createdD(13) [OF tc])
  have "self_ref n" using tc_self_ref [OF tc] same [OF root] assms(3)
    by (simp add: self_ref_def table_createdD(12) [OF tc])
  moreover have tp: "tpath n q = tpath m' q" if "valid_path q" "\<forall>j < length q. take j q \<noteq> ?p @ [?i]" for q
    using that
  proof (induction q rule: rev_induct)
    case (snoc j q)
    have vq: "valid_path q" using valid_snoc snoc.prems(1) by blast
    have "take l q \<noteq> ?p @ [?i]" if "l \<le> length q" for l
      using snoc.prems(2) [rule_format, of l] that by simp
    note t = this
    have q: "q \<noteq> ?p @ [?i]" using t [of "length q"] by (metis order_refl take_all)
    have IH: "tpath n q = tpath m' q" using t by (intro snoc.IH vq allI impI) (metis less_imp_le)
    show ?case
    proof (cases "tpath m' q")
      case (Some h)
      then have "tpath m q = Some h" using tc_tpath [OF tc vq] q by simp
      then have "h \<noteq> g" using tc_used [OF tc vq] by blast
      then show ?thesis using IH Some same by (simp add: tstep_def)
    qed (simp add: IH)
  qed (simp add: assms(3) table_createdD(12) [OF tc])
  have vs: "valid_path (?p @ [?i])" using table_createdD(4) [OF tc] .
  have "tpath n (take (Suc k) (path_of v)) = Some g"
  proof -
    have "take j (?p @ [?i]) \<noteq> ?p @ [?i]" if "j < length (?p @ [?i])" for j
      using that by (metis length_take less_irrefl min.absorb4)
    then show ?thesis using tp [OF vs] tc_tpath [OF tc vs] unfolding path_of_Suc [OF k] by simp
  qed
  ultimately show ?thesis using mmu_tbl [of n "Suc k" v g] k by simp
qed

lemma ensure_level:
  assumes inv: "paging_inv m" and priv: "private_path m v" and k: "k < 3" and nrec: "PML4_IDX v \<noteq> REC"
    and at: "tpath m (take k (path_of v)) = Some f"
    and nh: "bit (mem m f (unat (idx_at v k))) 0 \<longrightarrow> \<not> bit (mem m f (unat (idx_at v k))) 7"
  obtains rc m' where "ensure_table (tbl_addr v k) (idx_at v k) (tbl_addr v (Suc k)) flags m = Some (rc, m')"
    and "undisturbed m m'" and "private_path m' v"
    and "rc = PAGING64_OK \<and> tpath m' (take (Suc k) (path_of v)) \<noteq> None
         \<or> rc = PAGING64_NOMEM \<and> (\<forall>f. \<not> free_frame_of (pmm m) f)"
proof -
  let ?i = "unat (idx_at v k)" and ?e = "mem m f (unat (idx_at v k))"
  have sr: "self_ref m" using inv by (simp add: paging_inv_def)
  have T: "mmu_frame m (tbl_addr v k) = Some f" using mmu_tbl [OF sr _ at] k by simp
  have vk: "valid_path (take k (path_of v))" by (rule valid_path_of [OF nrec])
  show thesis
  proof (cases "bit ?e 0")
    case True
    let ?m = "store_word f ?i (?e OR (flags AND (PAGE64_WRITE OR PAGE64_USER))) m"
    have sv: "same_view m ?m" by (rule same_view_widen)
    have "ensure_table (tbl_addr v k) (idx_at v k) (tbl_addr v (Suc k)) flags m = Some (PAGING64_OK, ?m)"
      using T True by (simp add: ensure_table_def vload_def vstore_def has_bit)
    moreover have "undisturbed m ?m"
      by (rule undisturbed_view [OF sv _ inv at vk]) (simp_all add: store_word_def)
    moreover have "private_path ?m v" using priv same_view_inv(2) [OF sv, of v] by (simp add: store_word_def)
    moreover have "tpath ?m (take (Suc k) (path_of v)) \<noteq> None"
      unfolding same_view_walk(2) [OF sv] using True nh at by (simp add: path_of_Suc [OF k] tstep_def Let_def)
    ultimately show thesis using that by blast
  next
    case False
    obtain fr P where alloc: "pmm64_alloc_frame (pmm m) = (fr, P)" by fastforce
    have pm: "pmm_live (pmm m)" "ready (pmm m)" "frame_count (pmm m) \<le> 2 ^ 40" using inv by (auto simp: paging_inv_def)
    note a = alloc_frame_fresh [OF pm alloc]
    show thesis
    proof (cases "fr = 0")
      case True
      have "ensure_table (tbl_addr v k) (idx_at v k) (tbl_addr v (Suc k)) flags m = Some (PAGING64_NOMEM, m\<lparr>pmm := P\<rparr>)"
        using T False True alloc by (simp add: ensure_table_def vload_def has_bit)
      moreover have "undisturbed m (m\<lparr>pmm := P\<rparr>)" "private_path (m\<lparr>pmm := P\<rparr>) v"
        using undisturbed_pmm(1) [OF inv, of P] undisturbed_pmm(2) [OF inv, of P v] a(1) a(2) [OF True] priv by auto
      ultimately show thesis using that a(2) [OF True] by blast
    next
      case fr: False
      then obtain g where g: "fr = g * 4096" "g < 2 ^ 40" "g \<noteq> 0" "owners (pmm m) g = 0" "owners P = (owners (pmm m))(g := 1)"
        using a(3) by blast
      define E where "E = (of_nat fr OR PAGE64_PRESENT OR PAGE64_WRITE OR (flags AND PAGE64_USER) :: u64)"
      define m1 where "m1 = store_word f ?i E (m\<lparr>pmm := P\<rparr>)"
      define Z where "Z = (\<lambda>i. if i < 512 then 0 else mem m1 g i)"
      define m2 where "m2 = m1\<lparr>mem := (mem m1)(g := Z)\<rparr>"
      define m' where "m' = m2\<lparr>tables_allocated := tables_allocated m2 + 1\<rparr>"
      have low: "(PAGE64_PRESENT OR PAGE64_WRITE OR (flags AND PAGE64_USER)) AND ADDR_MASK = 0"
      proof -
        have "PAGE64_PRESENT AND ADDR_MASK = 0" "PAGE64_WRITE AND ADDR_MASK = 0" "PAGE64_USER AND ADDR_MASK = 0"
          by (simp_all add: PAGE64_PRESENT_def PAGE64_WRITE_def PAGE64_USER_def ADDR_MASK_def)
        then show ?thesis by (simp add: bit.conj_disj_distrib2 and.assoc)
      qed
      have E: "bit E 0" "\<not> bit E 7" "frame_of E = g"
      proof -
        show "frame_of E = g" using frame_entry [OF g(2) low] by (simp add: E_def g(1))
        show "bit E 0" by (simp add: E_def bit_or_iff PAGE64_PRESENT_def)
        have "\<not> bit PAGE64_PRESENT 7" "\<not> bit PAGE64_WRITE 7" "\<not> bit PAGE64_USER 7"
          by (simp_all add: PAGE64_PRESENT_def PAGE64_WRITE_def PAGE64_USER_def bit_numeral_simps)
        then show "\<not> bit E 7" using bit_frame_low [of 7 g] by (simp add: E_def g(1) bit_or_iff bit_and_iff)
      qed
      have alone: "q = take k (path_of v)" if "valid_path q" "tpath m q = Some f" for q
        using priv that at k by (auto simp: private_path_def)
      have vs: "valid_path (take k (path_of v) @ [?i])"
        using valid_path_of [OF nrec, of "Suc k"] by (simp add: path_of_Suc [OF k])
      have created: "table_created m n (take k (path_of v)) ?i f g E z"
        if "cr3 n = cr3 m" "mem n = (mem m)(f := (mem m f)(?i := E), g := z)" "\<And>j. j < 512 \<Longrightarrow> z j = 0" for n z
        using that inv at k vs alone False g(4) E by (auto simp: table_created_def path_of_def)
      have tc: "table_created m m' (take k (path_of v)) ?i f g E Z"
        by (rule created) (simp_all add: m'_def m2_def m1_def store_word_def Z_def)
      have child: "mmu_frame n (tbl_addr v (Suc k)) = Some g"
        if "cr3 n = cr3 m1" "\<forall>h. h \<noteq> g \<longrightarrow> mem n h = mem m1 h" for n
        using that by (intro child_resolves [OF tc k]) (simp_all add: m1_def store_word_def)
      have "zero_table (tbl_addr v (Suc k)) m1 = Some m2"
        using zero_table_spec [of m1 g "tbl_addr v (Suc k)"] child by (simp add: m2_def Z_def)
      moreover have "vstore (m\<lparr>pmm := P\<rparr>) (tbl_addr v k) (idx_at v k) E = Some m1"
        using T mmu_frame_cong [of "m\<lparr>pmm := P\<rparr>" m] by (simp add: vstore_def m1_def)
      ultimately have "ensure_table (tbl_addr v k) (idx_at v k) (tbl_addr v (Suc k)) flags m = Some (PAGING64_OK, m')"
        using T False fr alloc by (simp add: ensure_table_def vload_def has_bit m'_def E_def [symmetric])
      moreover have "undisturbed m m'"
        using a(1) g(5) by (intro tc_undisturbed [OF tc]) (simp_all add: m'_def m2_def m1_def store_word_def)
      moreover have "private_path m' v" by (rule tc_private [OF tc priv nrec])
      moreover have "tpath m' (take (Suc k) (path_of v)) \<noteq> None"
        using tc_tpath [OF tc vs] by (simp add: path_of_Suc [OF k])
      ultimately show thesis using that by blast
    qed
  qed
qed

lemma ensure_level_ex:
  assumes "paging_inv m" and "private_path m v" and "k < 3" and "PML4_IDX v \<noteq> REC"
    and "tpath m (take k (path_of v)) = Some f"
    and "bit (mem m f (unat (idx_at v k))) 0 \<longrightarrow> \<not> bit (mem m f (unat (idx_at v k))) 7"
  shows "\<exists>rc m'. ensure_table (tbl_addr v k) (idx_at v k) (tbl_addr v (Suc k)) flags m = Some (rc, m')
    \<and> undisturbed m m' \<and> private_path m' v
    \<and> (rc = PAGING64_OK \<and> tpath m' (take (Suc k) (path_of v)) \<noteq> None \<or> rc = PAGING64_NOMEM)"
  using ensure_level [OF assms, of flags] by metis

section \<open>The last level\<close>

lemma leaf_tpath:
  assumes "private_path m v" and at: "tpath m (take 3 (path_of v)) = Some f"
  shows "valid_path q \<Longrightarrow> tpath (store_word f i E m) q = tpath m q"
proof (induction q rule: rev_induct)
  case (snoc j q)
  have q: "valid_path q" using snoc.prems valid_snoc by blast
  have "length q \<le> 2" using snoc.prems by (simp add: valid_path_def)
  then have "q \<noteq> take 3 (path_of v)" by (auto simp: path_of_def)
  then have "tpath m q \<noteq> Some f" using assms q unfolding private_path_def by (metis order_refl)
  then show ?case using snoc.IH [OF q] by (cases "tpath m q") (auto simp: tstep_def store_word_def)
qed (simp add: store_word_def)

definition same_slot :: "u64 \<Rightarrow> u64 \<Rightarrow> bool" where
  "same_slot v w \<longleftrightarrow> path_of v = path_of w \<and> PT_IDX v = PT_IDX w"

lemma leaf_store:
  fixes E :: u64
  assumes inv: "paging_inv m" and priv: "private_path m v" and nrec: "PML4_IDX v \<noteq> REC"
    and at: "tpath m (take 3 (path_of v)) = Some f"
  defines "m' \<equiv> store_word f (unat (PT_IDX v)) E m"
  shows "paging_inv m'" and "PML4_IDX u \<noteq> REC \<Longrightarrow> private_path m u \<Longrightarrow> private_path m' u"
    and "PML4_IDX w \<noteq> REC \<Longrightarrow> \<not> same_slot v w \<Longrightarrow> mmu_frame m' w = mmu_frame m w"
    and "canonical v \<Longrightarrow> mmu_frame m' v = (if bit E 0 then Some (frame_of E) else None)"
proof -
  note t = leaf_tpath [OF priv at, where i = "unat (PT_IDX v)" and E = E, folded m'_def]
  have vp: "valid_path (take k (path_of v))" for k by (rule valid_path_of [OF nrec])
  have vt: "tpath m' (take k (path_of v)) = tpath m (take k (path_of v))" for k by (rule t [OF vp])
  have m': "cr3 m' = cr3 m" "pmm m' = pmm m" "mem m' = (mem m)(f := (mem m f)(unat (PT_IDX v) := E))"
    by (simp_all add: m'_def store_word_def)
  have "f \<noteq> root m" using inv at vp [of 3] by (auto simp: paging_inv_def path_of_def)
  then have root: "mem m' (root m) = mem m (root m)" by (simp add: m')
  show inv': "paging_inv m'"
    using inv t root by (simp add: paging_inv_def self_ref_def m')
  show "PML4_IDX u \<noteq> REC \<Longrightarrow> private_path m u \<Longrightarrow> private_path m' u"
    using t t [OF valid_path_of] unfolding private_path_def by metis
  have nh: "\<forall>i < 512. \<not> (bit (mem n (root n) i) 0 \<and> bit (mem n (root n) i) 7)" if "paging_inv n" for n
    using that by (simp add: paging_inv_def)
  note eqs = mmu_frame_path [OF nh [OF inv]] mmu_frame_path [OF nh [OF inv']]
  have other: "mem m' h j = mem m h j" if "valid_path q" "tpath m q = Some h" "(q, j) \<noteq> (path_of v, unat (PT_IDX v))" for q h j
  proof (cases "h = f")
    case True
    then have "q = take 3 (path_of v)" using priv that(1,2) at unfolding private_path_def by (metis order_refl)
    then show ?thesis using that(3) by (simp add: path_of_def m')
  qed (simp add: m')
  show "PML4_IDX w \<noteq> REC \<Longrightarrow> \<not> same_slot v w \<Longrightarrow> mmu_frame m' w = mmu_frame m w"
  proof -
    assume w: "PML4_IDX w \<noteq> REC" "\<not> same_slot v w"
    note vw = valid_path_of [OF w(1)]
    have short: "take 1 (path_of w) \<noteq> path_of v" "take 2 (path_of w) \<noteq> path_of v" by (simp_all add: path_of_def)
    have leaf: "(take 3 (path_of w), unat (PT_IDX w)) \<noteq> (path_of v, unat (PT_IDX v))"
      using w(2) by (auto simp: same_slot_def path_of_def word_unat_eq_iff)
    have c: "tpath m (take 1 (path_of w)) = Some h \<Longrightarrow> mem m' h j = mem m h j"
      "tpath m (take 2 (path_of w)) = Some h \<Longrightarrow> mem m' h j = mem m h j"
      "tpath m (take 3 (path_of w)) = Some h \<Longrightarrow> mem m' h (unat (PT_IDX w)) = mem m h (unat (PT_IDX w))" for h j
      using other [OF vw [of 1]] other [OF vw [of 2]] other [OF vw [of 3]] short leaf by blast+
    show ?thesis
      unfolding eqs t [OF vw]
      by (auto simp: Let_def c simp del: One_nat_def split: option.split)
  qed
  have up: "take (Suc k) (path_of v) = take k (path_of v) @ [unat (idx_at v k)]" if "k < 3" for k
    by (rule path_of_Suc [OF that])
  obtain f4 f3 where f4: "tpath m (take 1 (path_of v)) = Some f4" and f3: "tpath m (take 2 (path_of v)) = Some f3"
    using at tpath_take_None [of m v] by fastforce
  have "\<not> bit (mem m f4 (unat (PDPT_IDX v))) 7" "\<not> bit (mem m f3 (unat (PD_IDX v))) 7"
    using f4 f3 at by (auto simp: path_of_take tpath_2 tpath_3 tstep_Some Option.bind_eq_Some_conv)
  moreover have "mem m' f4 (unat (PDPT_IDX v)) = mem m f4 (unat (PDPT_IDX v))" "mem m' f3 (unat (PD_IDX v)) = mem m f3 (unat (PD_IDX v))"
    using other [OF vp f4] other [OF vp f3] by (simp_all add: path_of_def)
  ultimately show "canonical v \<Longrightarrow> mmu_frame m' v = (if bit E 0 then Some (frame_of E) else None)"
    unfolding eqs vt using f4 f3 at by (simp add: Let_def m' del: One_nat_def)
qed

lemma idx_page [simp]:
  "PML4_IDX (v AND NOT (PAGE64_SIZE - 1)) = PML4_IDX v" "PDPT_IDX (v AND NOT (PAGE64_SIZE - 1)) = PDPT_IDX v"
  "PD_IDX (v AND NOT (PAGE64_SIZE - 1)) = PD_IDX v" "PT_IDX (v AND NOT (PAGE64_SIZE - 1)) = PT_IDX v"
proof -
  have m: "PAGE64_SIZE - 1 = mask 12" by (simp add: PAGE64_SIZE_def mask_eq_exp_minus_1)
  show "PML4_IDX (v AND NOT (PAGE64_SIZE - 1)) = PML4_IDX v" "PDPT_IDX (v AND NOT (PAGE64_SIZE - 1)) = PDPT_IDX v"
    "PD_IDX (v AND NOT (PAGE64_SIZE - 1)) = PD_IDX v" "PT_IDX (v AND NOT (PAGE64_SIZE - 1)) = PT_IDX v"
    unfolding idx_take_bit m by (rule bit_word_eqI; auto simp: bit_simps)+
qed

lemma leaf_entry:
  assumes "unat phys < 2 ^ 52" and "flags AND ADDR_MASK = 0"
  shows "frame_of ((phys AND NOT (PAGE64_SIZE - 1)) OR flags OR PAGE64_PRESENT) = unat phys div 4096"
proof -
  have m: "PAGE64_SIZE - 1 = mask 12" by (simp add: PAGE64_SIZE_def mask_eq_exp_minus_1)
  have x: "(flags OR PAGE64_PRESENT) AND ADDR_MASK = 0"
    using assms(2) by (simp add: bit.conj_disj_distrib2 PAGE64_PRESENT_def ADDR_MASK_def)
  have "phys AND NOT (mask 12) = push_bit 12 (drop_bit 12 phys)"
    by (rule bit_word_eqI) (auto simp: bit_simps)
  also have "drop_bit 12 phys = of_nat (unat phys div 4096)"
    by (rule word_unat_eq_iff [THEN iffD2])
       (use assms(1) in \<open>simp add: unat_div drop_bit_eq_div unsigned_of_nat take_bit_nat_eq_self\<close>)
  also have "push_bit 12 (of_nat (unat phys div 4096)) = (of_nat (unat phys div 4096 * 4096) :: u64)"
    by (simp add: push_bit_eq_mult mult.commute)
  finally show ?thesis
    using frame_entry [OF _ x, of "unat phys div 4096"] assms(1) by (simp add: m)
qed

lemma tbl_addr_simps [simp]:
  "tbl_addr v 0 = pml4_addr" "tbl_addr v 1 = pdpt_addr v" "tbl_addr v 2 = pd_addr v" "tbl_addr v 3 = pt_addr v"
  "tbl_addr v (Suc 0) = pdpt_addr v" "tbl_addr v (Suc (Suc 0)) = pd_addr v" "tbl_addr v (Suc 2) = pt_addr v"
  by (simp_all add: tbl_addr_def)

lemma idx_at_simps [simp]:
  "idx_at v 0 = PML4_IDX v" "idx_at v 1 = PDPT_IDX v" "idx_at v 2 = PD_IDX v" "idx_at v (Suc 0) = PDPT_IDX v"
  by (simp_all add: idx_at_def)

lemma paging_invD:
  assumes "paging_inv m"
  shows "self_ref m" and "i < 512 \<Longrightarrow> bit (mem m (root m) i) 0 \<Longrightarrow> \<not> bit (mem m (root m) i) 7"
  using assms by (auto simp: paging_inv_def)

text \<open>The outcome of \<open>paging64_map\<close>: it never faults on its own tables; either the page is in place
  and no other translation has changed, or nothing has.\<close>

definition map_post :: "u64 \<Rightarrow> u64 \<Rightarrow> machine \<Rightarrow> rc \<Rightarrow> machine \<Rightarrow> bool" where
  "map_post v phys m rc m' \<longleftrightarrow> cr3 m' = cr3 m \<and> paging_inv m'
     \<and> (\<forall>w. PML4_IDX w \<noteq> REC \<longrightarrow> private_path m w \<longrightarrow> private_path m' w)
     \<and> (\<forall>f. owners (pmm m) f > 0 \<longrightarrow> owners (pmm m') f = owners (pmm m) f
          \<and> ((\<forall>p. valid_path p \<longrightarrow> tpath m p \<noteq> Some f) \<longrightarrow>
               mem m' f = mem m f \<and> (\<forall>p. valid_path p \<longrightarrow> tpath m' p \<noteq> Some f)))
     \<and> (case rc of
          PAGING64_OK \<Rightarrow> (canonical v \<longrightarrow> mmu_frame m' v = Some (unat phys div 4096))
             \<and> (\<forall>w. PML4_IDX w \<noteq> REC \<longrightarrow> \<not> same_slot v w \<longrightarrow> mmu_frame m' w = mmu_frame m w)
        | _ \<Rightarrow> (\<forall>w. PML4_IDX w \<noteq> REC \<longrightarrow> mmu_frame m' w = mmu_frame m w))"

lemma map_post_failed:
  "undisturbed m m' \<Longrightarrow> private_path m' v \<Longrightarrow> rc \<noteq> PAGING64_OK \<Longrightarrow> map_post v phys m rc m'"
  by (cases rc) (simp_all add: map_post_def undisturbed_def)

lemma map_post_leaf:
  assumes u: "undisturbed m m'" and p: "private_path m' v" and nrec: "PML4_IDX v \<noteq> REC"
    and at: "tpath m' (take 3 (path_of v)) = Some f"
    and "bit E 0" and "frame_of E = unat phys div 4096"
  shows "map_post v phys m PAGING64_OK (store_word f (unat (PT_IDX v)) E m')"
proof -
  let ?n = "store_word f (unat (PT_IDX v)) E m'"
  have inv: "paging_inv m'" using u by (simp add: undisturbed_def)
  have vp: "valid_path (take 3 (path_of v))" by (rule valid_path_of [OF nrec])
  note l = leaf_store [OF inv p nrec at, where E = E] and t = leaf_tpath [OF p at, of _ "unat (PT_IDX v)" E]
  have "mem ?n h = mem m h \<and> (\<forall>q. valid_path q \<longrightarrow> tpath ?n q \<noteq> Some h)"
    if "owners (pmm m) h > 0" "\<forall>q. valid_path q \<longrightarrow> tpath m q \<noteq> Some h" for h
  proof -
    have "mem m' h = mem m h" "\<forall>q. valid_path q \<longrightarrow> tpath m' q \<noteq> Some h"
      using u that by (auto simp: undisturbed_def)
    then show ?thesis using t at vp by (auto simp: store_word_def)
  qed
  moreover have "mmu_frame ?n w = mmu_frame m w" if "PML4_IDX w \<noteq> REC" "\<not> same_slot v w" for w
    using l(3) [OF that] u that(1) by (simp add: undisturbed_def)
  moreover have "private_path ?n w" if "PML4_IDX w \<noteq> REC" "private_path m w" for w
    using l(2) u that by (simp add: undisturbed_def)
  ultimately show ?thesis
    using u l(1,4) assms(5,6) by (simp add: map_post_def undisturbed_def store_word_def)
qed

lemma paging64_map_spec:
  assumes inv: "paging_inv m" and priv: "private_path m v" and nrec: "PML4_IDX v \<noteq> REC"
    and phys: "unat phys < 2 ^ 52" and flags: "flags AND ADDR_MASK = 0"
  obtains rc m' where "paging64_map v phys flags m = Some (rc, m')" and "map_post v phys m rc m'"
proof -
  let ?E = "(phys AND NOT (PAGE64_SIZE - 1)) OR flags OR PAGE64_PRESENT"
  have E: "bit ?E 0" "frame_of ?E = unat phys div 4096"
    using leaf_entry [OF phys flags] by (simp_all add: bit_or_iff PAGE64_PRESENT_def)
  have T: "vload n (tbl_addr v k) i = Some (mem n f (unat i))"
    if "undisturbed m n" "tpath n (take k (path_of v)) = Some f" "k \<le> 3" for n k f i
    using mmu_tbl [OF _ that(3,2)] paging_invD(1) that(1) by (auto simp: vload_def undisturbed_def)
  note fin = map_post_failed [of m _ v _ phys] and go = that
  have nh0: "bit (mem m (root m) (unat (idx_at v 0))) 0 \<longrightarrow> \<not> bit (mem m (root m) (unat (idx_at v 0))) 7"
    using paging_invD(2) [OF inv] by simp
  obtain rc1 m1 where e1: "ensure_table pml4_addr (PML4_IDX v) (pdpt_addr v) flags m = Some (rc1, m1)"
    and u1: "undisturbed m m1" "private_path m1 v"
    and r1: "rc1 = PAGING64_OK \<and> tpath m1 (take 1 (path_of v)) \<noteq> None \<or> rc1 = PAGING64_NOMEM"
    using ensure_level_ex [OF inv priv _ nrec _ nh0, of flags] by auto
  show thesis
  proof (cases "rc1 = PAGING64_OK")
    case False
    then have "paging64_map v phys flags m = Some (rc1, m1)" using e1 by (simp add: paging64_map_def)
    then show thesis using go fin u1 False by blast
  next
    case ok1: True
    then obtain f4 where f4: "tpath m1 (take 1 (path_of v)) = Some f4" using r1 by auto
    let ?e3 = "mem m1 f4 (unat (PDPT_IDX v))"
    have l3: "vload m1 (pdpt_addr v) (PDPT_IDX v) = Some ?e3" using T [OF u1(1) f4] by simp
    show thesis
    proof (cases "bit ?e3 7")
      case True
      then have "paging64_map v phys flags m = Some (PAGING64_HUGE_IN_WAY, m1)"
        using e1 ok1 l3 by (simp add: paging64_map_def has_bit)
      then show thesis using go fin u1 by blast
    next
      case h3: False
      have inv1: "paging_inv m1" using u1(1) by (simp add: undisturbed_def)
      obtain rc2 m2 where e2: "ensure_table (pdpt_addr v) (PDPT_IDX v) (pd_addr v) flags m1 = Some (rc2, m2)"
        and u2: "undisturbed m1 m2" "private_path m2 v"
        and r2: "rc2 = PAGING64_OK \<and> tpath m2 (take 2 (path_of v)) \<noteq> None \<or> rc2 = PAGING64_NOMEM"
        using ensure_level_ex [OF inv1 u1(2) _ nrec f4, of flags] h3
        by (auto simp: numeral_2_eq_2)
      note u12 = undisturbed_trans [OF u1(1) u2(1)]
      show thesis
      proof (cases "rc2 = PAGING64_OK")
        case False
        then have "paging64_map v phys flags m = Some (rc2, m2)"
          using e1 ok1 l3 h3 e2 by (simp add: paging64_map_def has_bit)
        then show thesis using go fin u12 u2(2) False by blast
      next
        case ok2: True
        then obtain f3 where f3: "tpath m2 (take 2 (path_of v)) = Some f3" using r2 by auto
        let ?e2 = "mem m2 f3 (unat (PD_IDX v))"
        have l2: "vload m2 (pd_addr v) (PD_IDX v) = Some ?e2" using T [OF u12 f3] by simp
        show thesis
        proof (cases "bit ?e2 7")
          case True
          then have "paging64_map v phys flags m = Some (PAGING64_HUGE_IN_WAY, m2)"
            using e1 ok1 l3 h3 e2 ok2 l2 by (simp add: paging64_map_def has_bit)
          then show thesis using go fin u12 u2(2) by blast
        next
          case h2: False
          have inv2: "paging_inv m2" using u12 by (simp add: undisturbed_def)
          obtain rc3 m3 where e3: "ensure_table (pd_addr v) (PD_IDX v) (pt_addr v) flags m2 = Some (rc3, m3)"
            and u3: "undisturbed m2 m3" "private_path m3 v"
            and r3: "rc3 = PAGING64_OK \<and> tpath m3 (take 3 (path_of v)) \<noteq> None \<or> rc3 = PAGING64_NOMEM"
            using ensure_level_ex [OF inv2 u2(2) _ nrec f3, of flags] h2
            by auto
          note u13 = undisturbed_trans [OF u12 u3(1)]
          show thesis
          proof (cases "rc3 = PAGING64_OK")
            case False
            then have "paging64_map v phys flags m = Some (rc3, m3)"
              using e1 ok1 l3 h3 e2 ok2 l2 h2 e3 by (simp add: paging64_map_def has_bit)
            then show thesis using go fin u13 u3(2) False by blast
          next
            case ok3: True
            then obtain f2 where f2: "tpath m3 (take 3 (path_of v)) = Some f2" using r3 by auto
            have "mmu_frame m3 (pt_addr v) = Some f2"
              using mmu_tbl [OF _ _ f2] u13 paging_invD(1) by (simp add: undisturbed_def)
            then have "vstore m3 (pt_addr v) (PT_IDX v) ?E = Some (store_word f2 (unat (PT_IDX v)) ?E m3)"
              by (simp add: vstore_def)
            then have "paging64_map v phys flags m = Some (PAGING64_OK, store_word f2 (unat (PT_IDX v)) ?E m3)"
              using e1 ok1 l3 h3 e2 ok2 l2 h2 e3 ok3 by (simp add: paging64_map_def has_bit)
            then show thesis using go map_post_leaf [OF u13 u3(2) nrec f2 E] by blast
          qed
        qed
      qed
    qed
  qed
qed

section \<open>Translating and unmapping\<close>

lemma vload_tbl:
  assumes "paging_inv m" and "tpath m (take k (path_of v)) = Some f" and "k \<le> 3"
  shows "vload m (tbl_addr v k) i = Some (mem m f (unat i))"
  using mmu_tbl [OF paging_invD(1) [OF assms(1)] assms(3,2)] by (simp add: vload_def)

lemma page_split:
  assumes "(x :: u64) AND 0xFFF = v AND 0xFFF"
  shows "x = push_bit 12 (of_nat (unat (drop_bit 12 x))) OR (v AND (PAGE64_SIZE - 1))"
proof -
  have m: "PAGE64_SIZE - 1 = mask 12" "(0xFFF :: u64) = mask 12"
    by (simp_all add: PAGE64_SIZE_def mask_eq_exp_minus_1)
  have "x = push_bit 12 (drop_bit 12 x) OR (x AND mask 12)"
    by (rule bit_word_eqI) (auto simp: bit_simps)
  then show ?thesis using assms by (simp add: m)
qed

definition addr_1g :: "u64 \<Rightarrow> u64 \<Rightarrow> u64" where
  "addr_1g e v = ((e AND ADDR_MASK AND NOT 0x3FFFFFFF) OR (v AND 0x3FFFFFFF))"

definition addr_2m :: "u64 \<Rightarrow> u64 \<Rightarrow> u64" where
  "addr_2m e v = ((e AND ADDR_MASK AND NOT 0x1FFFFF) OR (v AND 0x1FFFFF))"

definition addr_4k :: "u64 \<Rightarrow> u64 \<Rightarrow> u64" where
  "addr_4k e v = ((e AND ADDR_MASK) OR (v AND (PAGE64_SIZE - 1)))"

lemma page_offset_kept:
  "addr_1g e v AND 0xFFF = v AND 0xFFF" "addr_2m e v AND 0xFFF = v AND 0xFFF" "addr_4k e v AND 0xFFF = v AND 0xFFF"
proof -
  have m: "PAGE64_SIZE - 1 = (mask 12 :: u64)" "(0xFFF :: u64) = mask 12" "(0x3FFFFFFF :: u64) = mask 30" "(0x1FFFFF :: u64) = mask 21"
    by (simp_all add: PAGE64_SIZE_def mask_eq_exp_minus_1)
  show "addr_1g e v AND 0xFFF = v AND 0xFFF" "addr_2m e v AND 0xFFF = v AND 0xFFF" "addr_4k e v AND 0xFFF = v AND 0xFFF"
    unfolding addr_1g_def addr_2m_def addr_4k_def m
    by (rule bit_word_eqI; auto simp: bit_simps bit_ADDR_MASK)+
qed

lemma frame_leaf: "unat (drop_bit 12 (addr_4k e v)) = frame_of e"
proof -
  have m: "PAGE64_SIZE - 1 = (mask 12 :: u64)" by (simp add: PAGE64_SIZE_def mask_eq_exp_minus_1)
  have "drop_bit 12 ((e AND ADDR_MASK) OR (v AND (PAGE64_SIZE - 1))) = drop_bit 12 (e AND ADDR_MASK)"
    unfolding m by (rule bit_word_eqI) (auto simp: bit_simps)
  then show ?thesis by (simp add: frame_of_def addr_4k_def)
qed

lemma addr_frames: "unat (drop_bit 12 (addr_1g e v)) = frame_1g e v" "unat (drop_bit 12 (addr_2m e v)) = frame_2m e v"
  by (simp_all add: addr_1g_def addr_2m_def frame_1g_def frame_2m_def)

definition translation :: "machine \<Rightarrow> u64 \<Rightarrow> rc \<times> u64 option" where
  "translation m v =
     (case mmu_frame m v of
        None \<Rightarrow> (PAGING64_NOT_MAPPED, None)
      | Some f \<Rightarrow> (PAGING64_OK, Some (push_bit 12 (of_nat f) OR (v AND (PAGE64_SIZE - 1)))))"

lemma paging64_translate_spec:
  assumes inv: "paging_inv m" and can: "canonical v"
  shows "paging64_translate v m = Some (translation m v)"
proof -
  have nh: "\<forall>i < 512. \<not> (bit (mem m (root m) i) 0 \<and> bit (mem m (root m) i) 7)"
    using inv by (simp add: paging_inv_def)
  note mmu = mmu_frame_path [OF nh, of v]
  have l4: "vload m pml4_addr (PML4_IDX v) = Some (mem m (root m) (unat (PML4_IDX v)))"
    using vload_tbl [OF inv, of 0 v] by simp
  note tr = paging64_translate_def [folded addr_1g_def addr_2m_def addr_4k_def]
  note big = page_split [OF page_offset_kept(1) [of _ v], unfolded addr_frames]
    page_split [OF page_offset_kept(2) [of _ v], unfolded addr_frames]
    page_split [OF page_offset_kept(3) [of _ v], unfolded frame_leaf]
  show ?thesis
  proof (cases "tpath m (take 1 (path_of v))")
    case None
    then have "\<not> bit (mem m (root m) (unat (PML4_IDX v))) 0"
      using nh idx_less(1) [of v] by (auto simp: path_of_take tpath_1 tstep_def Let_def split: if_splits)
    then show ?thesis using mmu None can by (simp add: tr l4 has_bit translation_def)
  next
    case f4: (Some f4)
    then have p4: "bit (mem m (root m) (unat (PML4_IDX v))) 0" by (simp add: path_of_take tpath_1 tstep_Some)
    have l3: "vload m (pdpt_addr v) (PDPT_IDX v) = Some (mem m f4 (unat (PDPT_IDX v)))"
      using vload_tbl [OF inv f4] by simp
    let ?e3 = "mem m f4 (unat (PDPT_IDX v))"
    show ?thesis
    proof (cases "tpath m (take 2 (path_of v))")
      case None
      then have "\<not> bit ?e3 0 \<or> bit ?e3 7"
        using f4 by (auto simp: path_of_take tpath_2 tstep_def Let_def split: if_splits)
      then show ?thesis using mmu None can f4 p4
        by (auto simp: tr l4 l3 has_bit translation_def big(1) [of ?e3] Let_def simp del: One_nat_def)
    next
      case f3: (Some f3)
      then have p3: "bit ?e3 0" "\<not> bit ?e3 7" using f4 by (simp_all add: path_of_take tpath_2 tstep_Some)
      have l2: "vload m (pd_addr v) (PD_IDX v) = Some (mem m f3 (unat (PD_IDX v)))"
        using vload_tbl [OF inv f3] by simp
      let ?e2 = "mem m f3 (unat (PD_IDX v))"
      show ?thesis
      proof (cases "tpath m (take 3 (path_of v))")
        case None
        then have "\<not> bit ?e2 0 \<or> bit ?e2 7"
          using f3 by (auto simp: path_of_take tpath_3 tstep_def Let_def split: if_splits)
        then show ?thesis using mmu None can f4 p4 f3 p3
          by (auto simp: tr l4 l3 l2 has_bit translation_def big(2) [of ?e2] Let_def simp del: One_nat_def)
      next
        case f2: (Some f2)
        then have p2: "bit ?e2 0" "\<not> bit ?e2 7" using f3 by (simp_all add: path_of_take tpath_3 tstep_Some)
        have l1: "vload m (pt_addr v) (PT_IDX v) = Some (mem m f2 (unat (PT_IDX v)))"
          using vload_tbl [OF inv f2] by simp
        show ?thesis using mmu can f4 p4 f3 p3 f2 p2
          by (auto simp: tr l4 l3 l2 l1 has_bit translation_def
              big(3) [of "mem m f2 (unat (PT_IDX v))"] Let_def simp del: One_nat_def)
      qed
    qed
  qed
qed

text \<open>What \<open>paging64_unmap\<close> does, by what the walk finds.\<close>

lemma paging64_unmap_spec:
  assumes inv: "paging_inv m" and nrec: "PML4_IDX v \<noteq> REC" and can: "canonical v"
  shows "(\<exists>f. tpath m (take 3 (path_of v)) = Some f \<and> bit (mem m f (unat (PT_IDX v))) 0
            \<and> paging64_unmap v m = Some (PAGING64_OK, store_word f (unat (PT_IDX v)) 0 m))
       \<or> (paging64_unmap v m = Some (PAGING64_NOT_MAPPED, m) \<and> mmu_frame m v = None)
       \<or> (paging64_unmap v m = Some (PAGING64_HUGE_IN_WAY, m) \<and> mmu_frame m v \<noteq> None \<and> tpath m (take 3 (path_of v)) = None)"
proof -
  have nh: "\<forall>i < 512. \<not> (bit (mem m (root m) i) 0 \<and> bit (mem m (root m) i) 7)"
    using inv by (simp add: paging_inv_def)
  note mmu = mmu_frame_path [OF nh, of v]
  have l4: "vload m pml4_addr (PML4_IDX v) = Some (mem m (root m) (unat (PML4_IDX v)))"
    using vload_tbl [OF inv, of 0 v] by simp
  show ?thesis
  proof (cases "tpath m (take 1 (path_of v))")
    case None
    then have "\<not> bit (mem m (root m) (unat (PML4_IDX v))) 0"
      using nh idx_less(1) [of v] by (auto simp: path_of_take tpath_1 tstep_def Let_def split: if_splits)
    then show ?thesis using mmu None by (simp add: paging64_unmap_def l4 has_bit)
  next
    case f4: (Some f4)
    then have p4: "bit (mem m (root m) (unat (PML4_IDX v))) 0" by (simp add: path_of_take tpath_1 tstep_Some)
    have l3: "vload m (pdpt_addr v) (PDPT_IDX v) = Some (mem m f4 (unat (PDPT_IDX v)))"
      using vload_tbl [OF inv f4] by simp
    let ?e3 = "mem m f4 (unat (PDPT_IDX v))"
    show ?thesis
    proof (cases "tpath m (take 2 (path_of v))")
      case None
      then have "\<not> bit ?e3 0 \<or> bit ?e3 7"
        using f4 by (auto simp: path_of_take tpath_2 tstep_def Let_def split: if_splits)
      moreover have "tpath m (take 3 (path_of v)) = None" using None by (simp add: path_of_take tpath_3)
      ultimately show ?thesis using mmu None can f4 p4
        by (auto simp: paging64_unmap_def l4 l3 has_bit Let_def simp del: One_nat_def)
    next
      case f3: (Some f3)
      then have p3: "bit ?e3 0" "\<not> bit ?e3 7" using f4 by (simp_all add: path_of_take tpath_2 tstep_Some)
      have l2: "vload m (pd_addr v) (PD_IDX v) = Some (mem m f3 (unat (PD_IDX v)))"
        using vload_tbl [OF inv f3] by simp
      let ?e2 = "mem m f3 (unat (PD_IDX v))"
      show ?thesis
      proof (cases "tpath m (take 3 (path_of v))")
        case None
        then have "\<not> bit ?e2 0 \<or> bit ?e2 7"
          using f3 by (auto simp: path_of_take tpath_3 tstep_def Let_def split: if_splits)
        then show ?thesis using mmu None can f4 p4 f3 p3
          by (auto simp: paging64_unmap_def l4 l3 l2 has_bit Let_def simp del: One_nat_def)
      next
        case f2: (Some f2)
        then have p2: "bit ?e2 0" "\<not> bit ?e2 7" using f3 by (simp_all add: path_of_take tpath_3 tstep_Some)
        have l1: "vload m (pt_addr v) (PT_IDX v) = Some (mem m f2 (unat (PT_IDX v)))"
          using vload_tbl [OF inv f2] by simp
        have s1: "vstore m (pt_addr v) (PT_IDX v) 0 = Some (store_word f2 (unat (PT_IDX v)) 0 m)"
          using mmu_tbl [OF paging_invD(1) [OF inv] _ f2] by (simp add: vstore_def)
        show ?thesis using mmu can f4 p4 f3 p3 f2 p2
          by (auto simp: paging64_unmap_def l4 l3 l2 l1 s1 has_bit Let_def simp del: One_nat_def)
      qed
    qed
  qed
qed

lemma canonical_slot:
  assumes "canonical v" and "canonical w" and "same_slot v w"
  shows "drop_bit 12 v = drop_bit 12 w"
proof (rule bit_word_eqI)
  fix n :: nat
  assume "n < LENGTH(64)"
  have high: "bit u k = bit u 47" if "canonical u" "47 \<le> k" "k < 64" for u :: u64 and k
  proof -
    have "bit (drop_bit 47 u) (k - 47) = bit (drop_bit 47 u) 0"
      using that by (auto simp: canonical_def bit_mask_iff)
    then show ?thesis using that by (simp add: bit_drop_bit_eq)
  qed
  have idx: "take_bit 9 (drop_bit k v) = take_bit 9 (drop_bit k w)" if "k \<in> {12, 21, 30, 39}" for k
    using assms(3) that by (auto simp: same_slot_def path_of_def idx_take_bit [symmetric] word_unat_eq_iff)
  have low: "bit v (k + j) = bit w (k + j)" if "k \<in> {12, 21, 30, 39}" "j < 9" for k j
  proof -
    have "bit (take_bit 9 (drop_bit k v)) j = bit (take_bit 9 (drop_bit k w)) j" using idx [OF that(1)] by simp
    then show ?thesis using that(2) by (simp add: bit_take_bit_iff bit_drop_bit_eq)
  qed
  have le47: "bit v k = bit w k" if "12 \<le> k" "k < 48" for k
  proof -
    consider "k < 21" | "21 \<le> k \<and> k < 30" | "30 \<le> k \<and> k < 39" | "39 \<le> k" by linarith
    then show ?thesis
      using that low [of 12 "k - 12"] low [of 21 "k - 21"] low [of 30 "k - 30"] low [of 39 "k - 39"]
      by cases (simp_all add: less_diff_conv2)
  qed
  have "bit v (12 + n) = bit w (12 + n)" if "12 + n < 64"
    using that le47 [of "12 + n"] le47 [of 47] high [OF assms(1), of "12 + n"] high [OF assms(2), of "12 + n"]
    by (cases "12 + n < 48") auto
  then show "bit (drop_bit 12 v) n = bit (drop_bit 12 w) n"
    by (cases "12 + n < 64") (auto simp: bit_drop_bit_eq dest: bit_imp_le_length)
qed

section \<open>A small machine\<close>

definition machine_demo :: machine where
  "machine_demo = \<lparr>cr3 = 0x1000, mem = (\<lambda>_ _. 0)(1 := (\<lambda>_. 0)(510 := 0x1003)), pmm = pmm_demo,
     tables_allocated = 0, physmap_bytes = 0\<rparr>"

lemma machine_demo_root: "root machine_demo = 1"
  by (simp add: machine_demo_def frame_of_def ADDR_MASK_def)

lemma machine_demo_paths: "valid_path p \<Longrightarrow> tpath machine_demo p = (if p = [] then Some 1 else None)"
proof (induction p rule: rev_induct)
  case (snoc j p)
  have "p = [] \<Longrightarrow> j \<noteq> 510" using snoc.prems by (auto simp: valid_path_def)
  then have "p = [] \<Longrightarrow> tstep machine_demo 1 j = None" by (simp add: tstep_def machine_demo_def)
  then show ?case using snoc.IH [OF valid_snoc [OF snoc.prems]] by simp
qed (simp add: machine_demo_root)

lemma machine_demo_inv: "paging_inv machine_demo"
proof -
  have "frame_of 0x1003 = 1" by (simp add: frame_of_def ADDR_MASK_def)
  moreover have "bit (0x1003 :: u64) 0" "\<not> bit (0x1003 :: u64) 7" by (simp_all add: bit_numeral_simps)
  ultimately have "self_ref machine_demo"
    unfolding self_ref_def machine_demo_root by (simp add: machine_demo_def)
  moreover have "owners pmm_demo 1 > 0"
    using pmm_demo_test [of 1] by (simp add: owners_def pmm_demo_def)
  moreover have "\<forall>i. \<not> (bit (mem machine_demo 1 i) 0 \<and> bit (mem machine_demo 1 i) 7)"
    using \<open>\<not> bit (0x1003 :: u64) 7\<close> by (simp add: machine_demo_def)
  ultimately show ?thesis
    using pmm_demo_live unfolding paging_inv_def machine_demo_root
    by (auto simp: machine_demo_paths split: if_splits) (simp_all add: machine_demo_def pmm_demo_def)
qed

lemma machine_demo_private: "PML4_IDX v \<noteq> REC \<Longrightarrow> private_path machine_demo v"
  using valid_path_of [of v] by (auto simp: private_path_def machine_demo_paths split: if_splits)

section \<open>Properties\<close>

text \<open>The recursive addresses are right: in an address space whose PML4 refers to itself, the
  address \<open>paging64.c\<close> computes for the table \<open>k\<close> levels below the PML4 on the way to \<open>v\<close> is
  translated by the processor to exactly the frame of that table.\<close>

theorem recursive_addresses_reach_tables:
  assumes "self_ref m" and "tpath m (take k (path_of v)) = Some f" and "k \<le> 3"
  shows "mmu_frame m ([pml4_addr, pdpt_addr v, pd_addr v, pt_addr v] ! k) = Some f"
proof -
  have "[pml4_addr, pdpt_addr v, pd_addr v, pt_addr v] ! k = tbl_addr v k"
    using assms(3) by (cases k rule: nat.exhaust; cases "k - 1" rule: nat.exhaust; cases "k - 2" rule: nat.exhaust)
      (auto simp: tbl_addr_def numeral_3_eq_3 numeral_2_eq_2 less_Suc_eq_le le_Suc_eq)
  then show ?thesis using mmu_tbl [OF assms(1,3,2)] by simp
qed

theorem recursive_addresses_reach_tables_witness:
  "mmu_frame machine_demo pml4_addr = Some 1"
  using recursive_addresses_reach_tables [of machine_demo 0 0 1] machine_demo_inv machine_demo_root
  by (simp add: paging_inv_def)

text \<open>C2: \<open>paging64_map\<close>, working through the recursive addresses, never faults on a table, always
  returns, and keeps the invariant of the address space. When it reports success the processor
  translates the page to the frame asked for and every other page exactly as before; when it fails,
  for want of a frame or because a huge page is in the way, no translation has changed.\<close>

theorem paging64_map_correct:
  assumes "paging_inv m" and "private_path m v" and "PML4_IDX v \<noteq> REC" and "canonical v"
    and "unat phys < 2 ^ 52" and "flags AND ADDR_MASK = 0"
  shows "\<exists>rc m'. paging64_map v phys flags m = Some (rc, m') \<and> paging_inv m'
     \<and> (if rc = PAGING64_OK
        then mmu_frame m' v = Some (unat phys div 4096)
           \<and> (\<forall>w. PML4_IDX w \<noteq> REC \<and> drop_bit 12 w \<noteq> drop_bit 12 v \<longrightarrow> mmu_frame m' w = mmu_frame m w)
        else \<forall>w. PML4_IDX w \<noteq> REC \<longrightarrow> mmu_frame m' w = mmu_frame m w)"
proof -
  obtain rc m' where map: "paging64_map v phys flags m = Some (rc, m')" and post: "map_post v phys m rc m'"
    using paging64_map_spec [OF assms(1-3,5,6)] by blast
  have none: "mmu_frame n w = None" if "\<not> canonical w" for n w using that by (simp add: mmu_frame_def)
  have "mmu_frame m' w = mmu_frame m w"
    if "rc = PAGING64_OK" "PML4_IDX w \<noteq> REC" "drop_bit 12 w \<noteq> drop_bit 12 v" for w
    using post that none [of w] canonical_slot [OF assms(4), of w] by (cases "canonical w") (auto simp: map_post_def)
  then show ?thesis using map post assms(4) by (cases rc) (auto simp: map_post_def)
qed

theorem paging64_map_correct_witness:
  "\<exists>rc m'. paging64_map 0x400000 0xD000 (PAGE64_PRESENT OR PAGE64_WRITE) machine_demo = Some (rc, m') \<and> paging_inv m'"
proof -
  have "PML4_IDX 0x400000 \<noteq> REC" "canonical 0x400000" by (simp_all add: PML4_IDX_def REC_def canonical_def)
  moreover have "(PAGE64_PRESENT OR PAGE64_WRITE) AND ADDR_MASK = 0"
    by (simp add: PAGE64_PRESENT_def PAGE64_WRITE_def ADDR_MASK_def)
  ultimately show ?thesis
    using paging64_map_correct [OF machine_demo_inv machine_demo_private, of "0x400000" "0xD000" "PAGE64_PRESENT OR PAGE64_WRITE"]
    by auto
qed

text \<open>C9: The walk \<open>paging64_translate\<close> makes in software, through the recursive addresses, agrees
  with the processor's on every canonical address: it says not mapped exactly when an access would
  fault, and otherwise gives the address the access would reach, 4KB, 2MB and 1GB pages alike.\<close>

theorem paging64_translate_agrees_with_mmu:
  assumes "paging_inv m" and "canonical v"
  shows "paging64_translate v m = Some (case mmu_frame m v of
        None \<Rightarrow> (PAGING64_NOT_MAPPED, None)
      | Some f \<Rightarrow> (PAGING64_OK, Some (push_bit 12 (of_nat f) OR (v AND 0xFFF))))"
proof -
  have m: "PAGE64_SIZE - 1 = 0xFFF" by (simp add: PAGE64_SIZE_def)
  show ?thesis using paging64_translate_spec [OF assms] unfolding translation_def m .
qed

theorem paging64_translate_agrees_with_mmu_witness:
  "paging64_translate 0xFFFFFF7FBFDFE010 machine_demo = Some (PAGING64_OK, Some 0x1010)"
proof -
  have c: "canonical 0xFFFFFF7FBFDFE010" by (simp add: canonical_def mask_eq_exp_minus_1)
  have "mmu_frame machine_demo 0xFFFFFF7FBFDFE010 = Some 1"
    by (simp add: mmu_frame_def c machine_demo_root machine_demo_def has_bit frame_of_def ADDR_MASK_def
        PML4_IDX_def PDPT_IDX_def PD_IDX_def PT_IDX_def bit_numeral_simps Let_def)
  then show ?thesis using paging64_translate_agrees_with_mmu [OF machine_demo_inv c] by simp
qed

text \<open>\<open>paging64_unmap\<close> removes exactly one page: after success an access to it faults and every
  other page translates as before; otherwise the tables are untouched, and it reports "not mapped"
  exactly when there was nothing to remove.\<close>

theorem paging64_unmap_correct:
  assumes "paging_inv m" and "private_path m v" and "PML4_IDX v \<noteq> REC" and "canonical v"
  shows "\<exists>rc m'. paging64_unmap v m = Some (rc, m') \<and> paging_inv m'
     \<and> (rc = PAGING64_NOT_MAPPED \<longleftrightarrow> mmu_frame m v = None)
     \<and> (if rc = PAGING64_OK
        then mmu_frame m' v = None
           \<and> (\<forall>w. PML4_IDX w \<noteq> REC \<and> drop_bit 12 w \<noteq> drop_bit 12 v \<longrightarrow> mmu_frame m' w = mmu_frame m w)
        else m' = m)"
proof -
  have none: "mmu_frame n w = None" if "\<not> canonical w" for n w using that by (simp add: mmu_frame_def)
  show ?thesis
    using paging64_unmap_spec [OF assms(1,3,4)]
  proof (elim disjE exE conjE)
    fix f
    assume f: "tpath m (take 3 (path_of v)) = Some f" "bit (mem m f (unat (PT_IDX v))) 0"
      and u: "paging64_unmap v m = Some (PAGING64_OK, store_word f (unat (PT_IDX v)) 0 m)"
    note l = leaf_store [OF assms(1-3) f(1), where E = 0]
    have same: "store_word f (unat (PT_IDX v)) (mem m f (unat (PT_IDX v))) m = m" by (simp add: store_word_def)
    have mapped: "mmu_frame m v \<noteq> None"
      using leaf_store(4) [OF assms(1-3) f(1), where E = "mem m f (unat (PT_IDX v))"] assms(4) f(2) unfolding same by simp
    have "mmu_frame (store_word f (unat (PT_IDX v)) 0 m) w = mmu_frame m w"
      if "PML4_IDX w \<noteq> REC" "drop_bit 12 w \<noteq> drop_bit 12 v" for w
      using l(3) [OF that(1)] none [of w] canonical_slot [OF assms(4), of w] that(2) by (cases "canonical w") auto
    then show ?thesis using u l(1,4) assms(4) mapped by auto
  qed (use assms(1) in auto)
qed

theorem paging64_unmap_correct_witness:
  "\<exists>rc m'. paging64_unmap 0x400000 machine_demo = Some (rc, m') \<and> paging_inv m'"
proof -
  have "PML4_IDX 0x400000 \<noteq> REC" "canonical 0x400000" by (simp_all add: PML4_IDX_def REC_def canonical_def)
  then show ?thesis
    using paging64_unmap_correct [OF machine_demo_inv machine_demo_private, of "0x400000"] by auto
qed

end
