(* ===== verification/Linked_List.thy ===== *)
theory Linked_List
  imports Prelude
begin

text \<open>
  Doubly linked lists in a heap of records, for the structures the kernel threads through its
  blocks. A list is described by two pointer functions, \<open>nx\<close> and \<open>pv\<close>, from an address to the next
  and the previous one; the null pointer is 0. \<open>dls nx pv p xs t\<close> says that the addresses \<open>xs\<close> are
  linked both ways, that the first one's back pointer is \<open>p\<close> and the last one's forward pointer
  is \<open>t\<close>.
\<close>

definition hd_or :: "nat \<Rightarrow> nat list \<Rightarrow> nat" where
  "hd_or t xs = (if xs = [] then t else hd xs)"

definition last_or :: "nat \<Rightarrow> nat list \<Rightarrow> nat" where
  "last_or p xs = (if xs = [] then p else last xs)"

lemma hd_or_simps [simp]: "hd_or t [] = t" "hd_or t (x # xs) = x"
  by (simp_all add: hd_or_def)

lemma last_or_simps [simp]: "last_or p [] = p" "last_or p (xs @ [x]) = x" "last_or p (x # xs) = last_or x xs"
  by (simp_all add: last_or_def)

lemma hd_or_append: "hd_or t (xs @ ys) = hd_or (hd_or t ys) xs"
  by (simp add: hd_or_def)

lemma last_or_append: "last_or p (xs @ ys) = last_or (last_or p xs) ys"
  by (simp add: last_or_def)

lemma last_or_in: "xs \<noteq> [] \<Longrightarrow> last_or p xs \<in> set xs"
  by (simp add: last_or_def)

lemma hd_or_in: "xs \<noteq> [] \<Longrightarrow> hd_or t xs \<in> set xs"
  by (simp add: hd_or_def)

fun dls :: "(nat \<Rightarrow> nat) \<Rightarrow> (nat \<Rightarrow> nat) \<Rightarrow> nat \<Rightarrow> nat list \<Rightarrow> nat \<Rightarrow> bool" where
  "dls nx pv p [] t \<longleftrightarrow> True"
| "dls nx pv p (x # xs) t \<longleftrightarrow> x \<noteq> 0 \<and> pv x = p \<and> nx x = hd_or t xs \<and> dls nx pv x xs t"

lemma dls_append:
  "dls nx pv p (xs @ ys) t \<longleftrightarrow> dls nx pv p xs (hd_or t ys) \<and> dls nx pv (last_or p xs) ys t"
  by (induction xs arbitrary: p) (auto simp: hd_or_append)

lemma dls_cong:
  "(\<And>x. x \<in> set xs \<Longrightarrow> nx' x = nx x \<and> pv' x = pv x) \<Longrightarrow> dls nx' pv' p xs t = dls nx pv p xs t"
  by (induction xs arbitrary: p) auto

lemma dls_nonzero: "dls nx pv p xs t \<Longrightarrow> 0 \<notin> set xs"
  by (induction xs arbitrary: p) auto

text \<open>Changing where a list ends, where it starts, and following it.\<close>

lemma dls_retail:
  assumes "dls nx pv p xs t" and "distinct xs"
    and "\<And>x. x \<in> set xs \<Longrightarrow> pv' x = pv x" and "\<And>x. x \<in> set xs \<Longrightarrow> x \<noteq> last_or p xs \<Longrightarrow> nx' x = nx x"
    and "xs \<noteq> [] \<Longrightarrow> nx' (last xs) = t'"
  shows "dls nx' pv' p xs t'"
  using assms
proof (induction xs arbitrary: p)
  case (Cons x xs)
  show ?case
  proof (cases "xs = []")
    case True
    then show ?thesis using Cons.prems by simp
  next
    case False
    then have "x \<noteq> last_or p (x # xs)" using Cons.prems(2) last_or_in [OF False, of x] by auto
    moreover have "dls nx' pv' x xs t'"
      using Cons.prems False by (intro Cons.IH) (auto simp: last_or_def)
    ultimately show ?thesis using Cons.prems False by (auto simp: hd_or_def)
  qed
qed simp

lemma dls_rehead:
  assumes "dls nx pv p xs t" and "distinct xs"
    and "\<And>x. x \<in> set xs \<Longrightarrow> nx' x = nx x" and "\<And>x. x \<in> set xs \<Longrightarrow> x \<noteq> hd_or t xs \<Longrightarrow> pv' x = pv x"
    and "xs \<noteq> [] \<Longrightarrow> pv' (hd xs) = p'"
  shows "dls nx' pv' p' xs t"
proof (cases xs)
  case (Cons x ys)
  have "dls nx' pv' x ys t = dls nx pv x ys t"
    using assms(2-4) Cons by (intro dls_cong) (auto simp: hd_or_def)
  then show ?thesis using assms Cons by simp
qed simp

text \<open>Unlinking one element: its predecessor and its successor are joined.\<close>

lemma dls_remove:
  assumes d: "dls nx pv p (us @ b # vs) t" and dist: "distinct (us @ b # vs)"
    and nx': "\<And>x. x \<in> set (us @ vs) \<Longrightarrow> nx' x = (if us \<noteq> [] \<and> x = last us then hd_or t vs else nx x)"
    and pv': "\<And>x. x \<in> set (us @ vs) \<Longrightarrow> pv' x = (if vs \<noteq> [] \<and> x = hd vs then last_or p us else pv x)"
  shows "dls nx' pv' p (us @ vs) t"
proof -
  have us: "dls nx pv p us b" and vs: "dls nx pv b vs t" using d by (simp_all add: dls_append)
  have "dls nx' pv' p us (hd_or t vs)"
  proof (rule dls_retail [OF us])
    fix x assume x: "x \<in> set us"
    have "\<not> (vs \<noteq> [] \<and> x = hd vs)" using x dist by auto
    then show "pv' x = pv x" using x pv' by auto
    show "x \<noteq> last_or p us \<Longrightarrow> nx' x = nx x" using x nx' by (auto simp: last_or_def)
  next
    assume "us \<noteq> []"
    then show "nx' (last us) = hd_or t vs" using nx' [of "last us"] by simp
  qed (use dist in simp)
  moreover have "dls nx' pv' (last_or p us) vs t"
  proof (rule dls_rehead [OF vs])
    fix x assume x: "x \<in> set vs"
    have "\<not> (us \<noteq> [] \<and> x = last us)" using x dist last_in_set [of us] by (auto simp: disjoint_iff)
    then show "nx' x = nx x" using x nx' by auto
    show "x \<noteq> hd_or t vs \<Longrightarrow> pv' x = pv x" using x pv' by (auto simp: hd_or_def)
  next
    assume "vs \<noteq> []"
    then show "pv' (hd vs) = last_or p us" using pv' [of "hd vs"] by simp
  qed (use dist in simp)
  ultimately show ?thesis by (simp add: dls_append)
qed

text \<open>Linking a new element in after the part \<open>us\<close>.\<close>

lemma dls_insert:
  assumes d: "dls nx pv p (us @ vs) t" and dist: "distinct (us @ b # vs)" and b: "b \<noteq> 0"
    and nx': "\<And>x. x \<in> set (us @ vs) \<Longrightarrow> nx' x = (if us \<noteq> [] \<and> x = last us then b else nx x)"
    and pv': "\<And>x. x \<in> set (us @ vs) \<Longrightarrow> pv' x = (if vs \<noteq> [] \<and> x = hd vs then b else pv x)"
    and "nx' b = hd_or t vs" and "pv' b = last_or p us"
  shows "dls nx' pv' p (us @ b # vs) t"
proof -
  have us: "dls nx pv p us (hd_or t vs)" and vs: "dls nx pv (last_or p us) vs t" using d by (simp_all add: dls_append)
  have "dls nx' pv' p us b"
  proof (rule dls_retail [OF us])
    fix x assume x: "x \<in> set us"
    have "\<not> (vs \<noteq> [] \<and> x = hd vs)" using x dist by auto
    then show "pv' x = pv x" using x pv' by auto
    show "x \<noteq> last_or p us \<Longrightarrow> nx' x = nx x" using x nx' by (auto simp: last_or_def)
  next
    assume "us \<noteq> []"
    then show "nx' (last us) = b" using nx' [of "last us"] by simp
  qed (use dist in simp)
  moreover have "dls nx' pv' b vs t"
  proof (rule dls_rehead [OF vs])
    fix x assume x: "x \<in> set vs"
    have "\<not> (us \<noteq> [] \<and> x = last us)" using x dist last_in_set [of us] by (auto simp: disjoint_iff)
    then show "nx' x = nx x" using x nx' by auto
    show "x \<noteq> hd_or t vs \<Longrightarrow> pv' x = pv x" using x pv' by (auto simp: hd_or_def)
  next
    assume "vs \<noteq> []"
    then show "pv' (hd vs) = b" using pv' [of "hd vs"] by simp
  qed (use dist in simp)
  ultimately show ?thesis using b assms(6,7) by (simp add: dls_append)
qed

end
