(* ===== verification/Heap_Allocator.thy ===== *)
theory Heap_Allocator
  imports Prelude "HOL-Library.Monad_Syntax"
begin

text \<open>
  The contract between the kernel heap and the components that allocate from it. The heap has a
  set of allocations, pointers with the sizes behind them. Allocating adds one that was not there,
  or fails and adds none; freeing removes the one named; allocations never overlap.

  A client remembers what it asked for and was given. \<open>heap_run\<close> runs any sequence of requests and
  releases in which a client releases only what it holds, and the locale shows that such a run
  always completes and that no two regions held at the same time overlap.
\<close>

datatype heap_op = HMalloc nat | HFree nat

fun heap_step ::
    "(nat \<Rightarrow> 's \<Rightarrow> (nat \<times> 's) option) \<Rightarrow> (nat \<Rightarrow> 's \<Rightarrow> 's) \<Rightarrow> heap_op \<Rightarrow>
     's \<times> (nat \<times> nat) list \<Rightarrow> ('s \<times> (nat \<times> nat) list) option" where
  "heap_step malloc free (HMalloc n) (s, held) = do {
     (p, s') \<leftarrow> malloc n s;
     Some (s', if p = 0 then held else (p, n) # held)
   }"
| "heap_step malloc free (HFree p) (s, held) =
     (if p \<in> fst ` set held then Some (free p s, filter (\<lambda>x. fst x \<noteq> p) held) else Some (s, held))"

definition heap_run ::
    "(nat \<Rightarrow> 's \<Rightarrow> (nat \<times> 's) option) \<Rightarrow> (nat \<Rightarrow> 's \<Rightarrow> 's) \<Rightarrow> heap_op list \<Rightarrow>
     's \<times> (nat \<times> nat) list \<Rightarrow> ('s \<times> (nat \<times> nat) list) option" where
  "heap_run malloc free ops x = fold (\<lambda>e r. Option.bind r (heap_step malloc free e)) ops (Some x)"

definition apart_list :: "(nat \<times> nat) list \<Rightarrow> bool" where
  "apart_list held \<longleftrightarrow> distinct (map fst held)
     \<and> (\<forall>(p, n) \<in> set held. \<forall>(q, m) \<in> set held. p \<noteq> q \<longrightarrow> p + n \<le> q \<or> q + m \<le> p)"

locale heap_allocator =
  fixes state :: "'s \<Rightarrow> (nat \<times> nat) set \<Rightarrow> bool"
    and malloc :: "nat \<Rightarrow> 's \<Rightarrow> (nat \<times> 's) option"
    and free :: "nat \<Rightarrow> 's \<Rightarrow> 's"
    and limit :: nat
  assumes malloc_ok: "state s A \<Longrightarrow> 0 < n \<Longrightarrow> n \<le> limit \<Longrightarrow>
        \<exists>p s'. malloc n s = Some (p, s')
          \<and> (p = 0 \<and> state s' A
             \<or> p \<noteq> 0 \<and> p \<notin> fst ` A \<and> (\<exists>k \<ge> n. state s' (insert (p, k) A)))"
    and free_ok: "state s A \<Longrightarrow> (p, k) \<in> A \<Longrightarrow> state (free p s) (A - {(p, k)})"
    and apart: "state s A \<Longrightarrow> (p, k) \<in> A \<Longrightarrow> (q, l) \<in> A \<Longrightarrow> p < q \<Longrightarrow> p + k \<le> q"
    and unique: "state s A \<Longrightarrow> (p, k) \<in> A \<Longrightarrow> (p, l) \<in> A \<Longrightarrow> k = l"
begin

definition holds :: "'s \<times> (nat \<times> nat) list \<Rightarrow> bool" where
  "holds x \<longleftrightarrow> (\<exists>A. state (fst x) A \<and> distinct (map fst (snd x))
     \<and> (\<forall>(p, n) \<in> set (snd x). \<exists>k \<ge> n. (p, k) \<in> A))"

lemma step_ok:
  assumes "holds x" and "\<forall>n. e = HMalloc n \<longrightarrow> 0 < n \<and> n \<le> limit"
  shows "\<exists>y. heap_step malloc free e x = Some y \<and> holds y"
proof -
  obtain s held A where x: "x = (s, held)" and s: "state s A" and d: "distinct (map fst held)"
    and h: "\<forall>(p, n) \<in> set held. \<exists>k \<ge> n. (p, k) \<in> A"
    using assms(1) by (cases x) (auto simp: holds_def)
  show ?thesis
  proof (cases e)
    case (HMalloc n)
    then obtain p s' where m: "malloc n s = Some (p, s')"
      and c: "p = 0 \<and> state s' A \<or> p \<noteq> 0 \<and> p \<notin> fst ` A \<and> (\<exists>k \<ge> n. state s' (insert (p, k) A))"
      using malloc_ok [OF s, of n] assms(2) by blast
    show ?thesis
    proof (cases "p = 0")
      case True
      then have "holds (s', held)" using c d h by (auto simp: holds_def)
      then show ?thesis using m True by (simp add: x HMalloc)
    next
      case False
      then obtain k where k: "n \<le> k" "state s' (insert (p, k) A)" and p: "p \<notin> fst ` A" using c by auto
      have "p \<notin> fst ` set held" using h p by (force simp: image_iff)
      then have "holds (s', (p, n) # held)"
        unfolding holds_def using k d h by (intro exI [of _ "insert (p, k) A"]) auto
      then show ?thesis using m False by (simp add: x HMalloc)
    qed
  next
    case (HFree p)
    show ?thesis
    proof (cases "p \<in> fst ` set held")
      case True
      then obtain n where "(p, n) \<in> set held" by auto
      then obtain k where k: "(p, k) \<in> A" using h by auto
      have "holds (free p s, filter (\<lambda>x. fst x \<noteq> p) held)"
        unfolding holds_def using free_ok [OF s k] d h
        by (intro exI [of _ "A - {(p, k)}"]) (auto simp: distinct_map inj_on_def)
      then show ?thesis using True by (simp add: x HFree)
    qed (use assms(1) in \<open>simp add: x HFree\<close>)
  qed
qed

lemma run_ok:
  assumes "holds x" and "\<forall>n. HMalloc n \<in> set ops \<longrightarrow> 0 < n \<and> n \<le> limit"
  shows "\<exists>y. heap_run malloc free ops x = Some y \<and> holds y"
  using assms unfolding heap_run_def
proof (induction ops arbitrary: x)
  case (Cons e ops)
  obtain y where "heap_step malloc free e x = Some y" "holds y" using step_ok [of x e] Cons.prems by auto
  then show ?case using Cons.IH [of y] Cons.prems(2) by simp
qed simp

lemma holds_apart: "holds (s, held) \<Longrightarrow> apart_list held"
proof -
  assume "holds (s, held)"
  then obtain A where s: "state s A" and d: "distinct (map fst held)" and h: "\<forall>(p, n) \<in> set held. \<exists>k \<ge> n. (p, k) \<in> A"
    by (auto simp: holds_def)
  have "p + n \<le> q \<or> q + m \<le> p" if "(p, n) \<in> set held" "(q, m) \<in> set held" "p \<noteq> q" for p n q m
  proof -
    obtain k l where "n \<le> k" "(p, k) \<in> A" "m \<le> l" "(q, l) \<in> A" using h \<open>(p, n) \<in> set held\<close> \<open>(q, m) \<in> set held\<close> by blast
    then show ?thesis using apart [OF s, of p k q l] apart [OF s, of q l p k] that(3) by linarith
  qed
  then show ?thesis using d by (auto simp: apart_list_def)
qed

lemma regions_never_overlap:
  assumes "state s A" and "\<forall>n. HMalloc n \<in> set ops \<longrightarrow> 0 < n \<and> n \<le> limit"
  shows "\<exists>s' held. heap_run malloc free ops (s, []) = Some (s', held) \<and> apart_list held"
proof -
  have "holds (s, [])" using assms(1) by (auto simp: holds_def)
  then show ?thesis using run_ok [of "(s, [])" ops] assms(2) holds_apart by fastforce
qed

end

end
