(* ===== verification/Kheap64.thy ===== *)
theory Kheap64
  imports Paging64 Linked_List Heap_Allocator
begin

text \<open>
  The kernel heap of \<open>kernel/kheap64.c\<close>: blocks that tile the mapped part of the heap, threaded on
  a list in address order and, when free, on a second list searched by \<open>kmalloc64\<close>.

  A block is a record at the address of its header; the two links of the free list, which the code
  overlays on the payload of a free block, are fields of that record. The payload itself belongs to
  whoever allocated it. Growing the heap takes frames from the allocator and maps them, so the
  state carries the machine of the page tables.
\<close>

section \<open>State\<close>

definition KHEAP64_BASE :: nat where "KHEAP64_BASE = 0xFFFF900000000000"
definition KHEAP64_MAX_SIZE :: nat where "KHEAP64_MAX_SIZE = 256 * 1024 * 1024"
definition KHEAP64_INITIAL :: nat where "KHEAP64_INITIAL = 64 * 1024"
definition KHEAP64_ALIGN :: nat where "KHEAP64_ALIGN = 16"
definition BLOCK_BYTES :: nat where "BLOCK_BYTES = 32"
definition MIN_PAYLOAD :: nat where "MIN_PAYLOAD = 16"
definition PAGE_BYTES :: nat where "PAGE_BYTES = 4096"

record block =
  bsize :: nat
  prev :: nat
  nxt :: nat
  used :: bool
  fnext :: nat
  fprev :: nat

record kheap =
  heap_head :: nat
  heap_tail :: nat
  free_head :: nat
  heap_end :: nat
  blk :: "nat \<Rightarrow> block"
  stat_steps :: nat
  stat_calls :: nat
  heap_double_frees :: nat
  mach :: machine

definition blk_upd :: "nat \<Rightarrow> (block \<Rightarrow> block) \<Rightarrow> kheap \<Rightarrow> kheap" where
  "blk_upd b f h = h\<lparr>blk := (blk h)(b := f (blk h b))\<rparr>"

definition payload :: "nat \<Rightarrow> nat" where
  "payload b = add64 b BLOCK_BYTES"

definition align_up :: "nat \<Rightarrow> nat \<Rightarrow> nat" where
  "align_up v a = (let x = add64 v (a - 1) in x - x mod a)"

definition adjacent :: "nat \<Rightarrow> nat \<Rightarrow> kheap \<Rightarrow> bool" where
  "adjacent a b h \<longleftrightarrow> add64 (payload a) (bsize (blk h a)) = b"

section \<open>The two lists\<close>

definition freelist_insert :: "nat \<Rightarrow> kheap \<Rightarrow> kheap" where
  "freelist_insert b h =
     (let h = blk_upd b (\<lambda>x. x\<lparr>fprev := 0, fnext := free_head h\<rparr>) h;
          h = (if free_head h \<noteq> 0 then blk_upd (free_head h) (\<lambda>x. x\<lparr>fprev := b\<rparr>) h else h)
      in h\<lparr>free_head := b\<rparr>)"

definition freelist_remove :: "nat \<Rightarrow> kheap \<Rightarrow> kheap" where
  "freelist_remove b h =
     (let p = fprev (blk h b); n = fnext (blk h b);
          h = (if p \<noteq> 0 then blk_upd p (\<lambda>x. x\<lparr>fnext := n\<rparr>) h else h\<lparr>free_head := n\<rparr>)
      in if n \<noteq> 0 then blk_upd n (\<lambda>x. x\<lparr>fprev := p\<rparr>) h else h)"

definition merge_next :: "nat \<Rightarrow> kheap \<Rightarrow> kheap" where
  "merge_next b h =
     (let n = nxt (blk h b);
          h = freelist_remove n h;
          h = blk_upd b (\<lambda>x. x\<lparr>bsize := add64 (bsize x) (add64 BLOCK_BYTES (bsize (blk h n)))\<rparr>) h;
          h = blk_upd b (\<lambda>x. x\<lparr>nxt := nxt (blk h n)\<rparr>) h;
          h = (if nxt (blk h n) \<noteq> 0 then blk_upd (nxt (blk h n)) (\<lambda>x. x\<lparr>prev := b\<rparr>) h else h)
      in if n = heap_tail h then h\<lparr>heap_tail := b\<rparr> else h)"

definition split :: "nat \<Rightarrow> nat \<Rightarrow> kheap \<Rightarrow> kheap" where
  "split b sz h =
     (if bsize (blk h b) < add64 (add64 sz BLOCK_BYTES) MIN_PAYLOAD then h
      else
      (let rest = add64 (payload b) sz;
           h = blk_upd rest (\<lambda>x. x\<lparr>bsize := sub64 (sub64 (bsize (blk h b)) sz) BLOCK_BYTES, used := False,
                                   prev := b, nxt := nxt (blk h b)\<rparr>) h;
           h = (if nxt (blk h b) \<noteq> 0 then blk_upd (nxt (blk h b)) (\<lambda>x. x\<lparr>prev := rest\<rparr>) h else h);
           h = blk_upd b (\<lambda>x. x\<lparr>nxt := rest\<rparr>) h;
           h = (if b = heap_tail h then h\<lparr>heap_tail := rest\<rparr> else h);
           h = blk_upd b (\<lambda>x. x\<lparr>bsize := sz\<rparr>) h
       in freelist_insert rest h))"

section \<open>Growing\<close>

partial_function (option) heap_expand :: "nat \<Rightarrow> kheap \<Rightarrow> (bool \<times> kheap) option" where
  "heap_expand new_end h =
     (if heap_end h < new_end then
        (let (phys, p) = pmm64_alloc_frame (pmm (mach h));
             h = h\<lparr>mach := (mach h)\<lparr>pmm := p\<rparr>\<rparr>
         in if phys = 0 then Some (False, h)
            else do {
              (rc, m) \<leftarrow> paging64_map (of_nat (heap_end h)) (of_nat phys) (PAGE64_PRESENT OR PAGE64_WRITE) (mach h);
              if rc \<noteq> PAGING64_OK
              then Some (False, h\<lparr>mach := m\<lparr>pmm := pmm64_free_frame phys (pmm m)\<rparr>\<rparr>)
              else heap_expand new_end (h\<lparr>mach := m, heap_end := add64 (heap_end h) PAGE_BYTES\<rparr>)
            })
      else Some (True, h))"

definition kheap64_init :: "kheap \<Rightarrow> kheap option" where
  "kheap64_init h0 =
     (let h = h0\<lparr>heap_head := 0, heap_tail := 0, free_head := 0, heap_end := KHEAP64_BASE,
                  stat_steps := 0, stat_calls := 0, heap_double_frees := 0\<rparr>
      in do {
        (ok, h) \<leftarrow> heap_expand (KHEAP64_BASE + KHEAP64_INITIAL) h;
        if \<not> ok then Some h
        else if heap_end h = KHEAP64_BASE then Some h
        else
          (let h = h\<lparr>heap_head := KHEAP64_BASE\<rparr>;
               h = blk_upd KHEAP64_BASE (\<lambda>x. x\<lparr>bsize := sub64 (sub64 (heap_end h) KHEAP64_BASE) BLOCK_BYTES,
                                               used := False, prev := 0, nxt := 0\<rparr>) h;
               h = h\<lparr>heap_tail := heap_head h\<rparr>
           in Some (freelist_insert (heap_head h) h))
      })"

definition grow :: "nat \<Rightarrow> kheap \<Rightarrow> (bool \<times> kheap) option" where
  "grow payload_needed h =
     (let want = align_up (add64 BLOCK_BYTES payload_needed) PAGE_BYTES;
          old_end = heap_end h
      in if add64 (heap_end h) want > KHEAP64_BASE + KHEAP64_MAX_SIZE then Some (False, h)
         else do {
           (ok, h) \<leftarrow> heap_expand (add64 (heap_end h) want) h;
           if \<not> ok \<and> sub64 (heap_end h) old_end < BLOCK_BYTES + MIN_PAYLOAD then Some (False, h)
           else
             (let b = old_end;
                  h = blk_upd b (\<lambda>x. x\<lparr>bsize := sub64 (sub64 (heap_end h) old_end) BLOCK_BYTES, used := False,
                                       prev := heap_tail h, nxt := 0\<rparr>) h;
                  h = (if heap_tail h \<noteq> 0 then blk_upd (heap_tail h) (\<lambda>x. x\<lparr>nxt := b\<rparr>) h
                       else h\<lparr>heap_head := b\<rparr>);
                  h = h\<lparr>heap_tail := b\<rparr>;
                  h = freelist_insert b h;
                  p = prev (blk h b);
                  h = (if p \<noteq> 0 \<and> \<not> used (blk h p) \<and> adjacent p b h then merge_next p h else h)
              in Some (True, h))
         })"

section \<open>Allocating and freeing\<close>

partial_function (option) search :: "nat \<Rightarrow> nat \<Rightarrow> kheap \<Rightarrow> (nat \<times> kheap) option" where
  "search b want h =
     (if b = 0 then Some (0, h)
      else (let h = h\<lparr>stat_steps := add64 (stat_steps h) 1\<rparr>
            in if bsize (blk h b) \<ge> want then Some (b, h) else search (fnext (blk h b)) want h))"

definition take_block :: "nat \<Rightarrow> nat \<Rightarrow> kheap \<Rightarrow> nat \<times> kheap" where
  "take_block b want h =
     (payload b, blk_upd b (\<lambda>x. x\<lparr>used := True\<rparr>) (split b want (freelist_remove b h)))"

definition kmalloc64 :: "nat \<Rightarrow> kheap \<Rightarrow> (nat \<times> kheap) option" where
  "kmalloc64 sz h =
     (if sz = 0 then Some (0, h)
      else
      (let want = align_up (if sz < MIN_PAYLOAD then MIN_PAYLOAD else sz) KHEAP64_ALIGN;
           h = h\<lparr>stat_calls := add64 (stat_calls h) 1\<rparr>
       in do {
         (b, h) \<leftarrow> search (free_head h) want h;
         if b \<noteq> 0 then Some (take_block b want h)
         else do {
           (ok, h) \<leftarrow> grow want h;
           if \<not> ok then Some (0, h)
           else do {
             (b, h) \<leftarrow> search (free_head h) want h;
             if b \<noteq> 0 then Some (take_block b want h) else Some (0, h)
           }
         }
       }))"

definition kfree64 :: "nat \<Rightarrow> kheap \<Rightarrow> kheap" where
  "kfree64 ptr h =
     (if ptr = 0 then h
      else
      (let b = sub64 ptr BLOCK_BYTES
       in if \<not> used (blk h b) then h\<lparr>heap_double_frees := add64 (heap_double_frees h) 1\<rparr>
          else
          (let h = blk_upd b (\<lambda>x. x\<lparr>used := False\<rparr>) h;
               h = freelist_insert b h;
               n = nxt (blk h b);
               h = (if n \<noteq> 0 \<and> \<not> used (blk h n) \<and> adjacent b n h then merge_next b h else h);
               p = prev (blk h b)
           in if p \<noteq> 0 \<and> \<not> used (blk h p) \<and> adjacent p b h then merge_next p h else h)))"

section \<open>Statistics\<close>

partial_function (option) stats_loop :: "nat \<Rightarrow> nat \<Rightarrow> nat \<Rightarrow> kheap \<Rightarrow> (nat \<times> nat) option" where
  "stats_loop b u t h =
     (if b = 0 then Some (u, t)
      else (let sz = add64 (bsize (blk h b)) BLOCK_BYTES
            in stats_loop (nxt (blk h b)) (if used (blk h b) then add64 u sz else u) (add64 t sz) h))"

definition kheap64_stats :: "kheap \<Rightarrow> (nat \<times> nat) option" where
  "kheap64_stats h = stats_loop (heap_head h) 0 0 h"

definition kheap64_walk_stats :: "kheap \<Rightarrow> nat \<times> nat" where
  "kheap64_walk_stats h = (stat_steps h, stat_calls h)"

definition kheap64_double_frees :: "kheap \<Rightarrow> nat" where
  "kheap64_double_frees h = heap_double_frees h"

partial_function (option) free_blocks_loop :: "nat \<Rightarrow> nat \<Rightarrow> kheap \<Rightarrow> nat option" where
  "free_blocks_loop b n h = (if b = 0 then Some n else free_blocks_loop (fnext (blk h b)) (n + 1) h)"

definition kheap64_free_blocks :: "kheap \<Rightarrow> nat option" where
  "kheap64_free_blocks h = free_blocks_loop (free_head h) 0 h"

section \<open>Tilings\<close>

fun tiles :: "(nat \<Rightarrow> nat) \<Rightarrow> nat \<Rightarrow> nat list \<Rightarrow> nat \<Rightarrow> bool" where
  "tiles sz a [] e \<longleftrightarrow> a = e"
| "tiles sz a (x # xs) e \<longleftrightarrow> x = a \<and> 16 \<le> sz x \<and> 16 dvd sz x \<and> tiles sz (a + 32 + sz x) xs e"

lemma tiles_append: "tiles sz a (xs @ ys) e \<longleftrightarrow> (\<exists>m. tiles sz a xs m \<and> tiles sz m ys e)"
  by (induction xs arbitrary: a) auto

lemma tiles_cong: "(\<And>x. x \<in> set xs \<Longrightarrow> sz' x = sz x) \<Longrightarrow> tiles sz' a xs e = tiles sz a xs e"
  by (induction xs arbitrary: a) auto

lemma tiles_le: "tiles sz a xs e \<Longrightarrow> a \<le> e"
proof (induction xs arbitrary: a)
  case (Cons x xs)
  then have "a + 32 + sz x \<le> e" by auto
  then show ?case by simp
qed simp

lemma tiles_bounds: "tiles sz a xs e \<Longrightarrow> x \<in> set xs \<Longrightarrow> a \<le> x \<and> x + 32 + sz x \<le> e \<and> 16 \<le> sz x \<and> 16 dvd sz x"
proof (induction xs arbitrary: a)
  case (Cons y ys)
  show ?case
  proof (cases "x = y")
    case True
    then show ?thesis using Cons.prems tiles_le [of sz "a + 32 + sz y" ys e] by auto
  next
    case False
    then have "a + 32 + sz y \<le> x \<and> x + 32 + sz x \<le> e \<and> 16 \<le> sz x \<and> 16 dvd sz x" using Cons by auto
    then show ?thesis by simp
  qed
qed simp

lemma tiles_sorted: "tiles sz a xs e \<Longrightarrow> sorted_wrt (<) xs"
proof (induction xs arbitrary: a)
  case (Cons x xs)
  then have "x < y" if "y \<in> set xs" for y
    using tiles_bounds [of sz "a + 32 + sz x" xs e y] that by auto
  then show ?case using Cons by auto
qed simp

lemma tiles_distinct: "tiles sz a xs e \<Longrightarrow> distinct xs"
  using tiles_sorted strict_sorted_iff by blast

lemma tiles_apart: "tiles sz a xs e \<Longrightarrow> x \<in> set xs \<Longrightarrow> y \<in> set xs \<Longrightarrow> x < y \<Longrightarrow> x + 32 + sz x \<le> y"
proof (induction xs arbitrary: a)
  case (Cons z zs)
  then show ?case using tiles_bounds [of sz "a + 32 + sz z" zs e x] tiles_bounds [of sz "a + 32 + sz z" zs e y]
    by auto
qed simp

lemma tiles_aligned: "tiles sz a xs e \<Longrightarrow> 16 dvd a \<Longrightarrow> x \<in> set xs \<Longrightarrow> 16 dvd x"
proof (induction xs arbitrary: a)
  case (Cons y ys)
  then have "16 dvd a + 32 + sz y" by (auto intro: dvd_add)
  then show ?case using Cons by auto
qed simp

lemma tiles_merge:
  assumes "tiles sz a (us @ b # n # vs) e" and "\<And>x. sz' x = (if x = b then sz b + 32 + sz n else sz x)"
  shows "tiles sz' a (us @ b # vs) e"
proof -
  have dist: "distinct (us @ b # n # vs)" by (rule tiles_distinct [OF assms(1)])
  obtain m where m: "tiles sz a us m" "tiles sz m (b # n # vs) e" using assms(1) by (auto simp: tiles_append)
  have "tiles sz' a us m = tiles sz a us m" "tiles sz' k vs e = tiles sz k vs e" for k
    using dist assms(2) by (auto intro!: tiles_cong)
  moreover have "16 dvd sz b + 32 + sz n" using m(2) by (auto intro!: dvd_add)
  ultimately show ?thesis
    using m assms(2) by (auto simp: tiles_append add.assoc intro!: exI [of _ m])
qed

lemma tiles_split:
  assumes "tiles sz a (us @ b # vs) e" and "k + 48 \<le> sz b" and "16 \<le> k" and "16 dvd k"
    and r: "r = b + 32 + k" and "\<And>x. x \<in> set (us @ vs) \<Longrightarrow> sz' x = sz x" and "sz' b = k" and "sz' r = sz b - k - 32"
  shows "tiles sz' a (us @ b # r # vs) e"
proof -
  obtain m where m: "tiles sz a us m" "tiles sz m (b # vs) e" using assms(1) by (auto simp: tiles_append)
  have "tiles sz' a us m = tiles sz a us m" "tiles sz' j vs e = tiles sz j vs e" for j
    using assms(6) by (auto intro!: tiles_cong)
  moreover have "16 dvd sz b - k - 32" using m(2) assms(4) by (auto intro!: dvd_diff_nat)
  moreover have "b + 32 + k + 32 + (sz b - k - 32) = b + 32 + sz b" using assms(2) by simp
  ultimately show ?thesis
    using m assms by (auto simp: tiles_append add_ac intro!: exI [of _ m])
qed

section \<open>The structure of the heap\<close>

lemma blk_upd_simps [simp]:
  "blk (blk_upd b f h) = (blk h)(b := f (blk h b))" "heap_head (blk_upd b f h) = heap_head h"
  "heap_tail (blk_upd b f h) = heap_tail h" "free_head (blk_upd b f h) = free_head h"
  "heap_end (blk_upd b f h) = heap_end h" "mach (blk_upd b f h) = mach h"
  "stat_steps (blk_upd b f h) = stat_steps h" "stat_calls (blk_upd b f h) = stat_calls h"
  "heap_double_frees (blk_upd b f h) = heap_double_frees h"
  by (simp_all add: blk_upd_def)

abbreviation nxs :: "kheap \<Rightarrow> nat \<Rightarrow> nat" where "nxs h a \<equiv> nxt (blk h a)"
abbreviation pvs :: "kheap \<Rightarrow> nat \<Rightarrow> nat" where "pvs h a \<equiv> prev (blk h a)"
abbreviation fnxs :: "kheap \<Rightarrow> nat \<Rightarrow> nat" where "fnxs h a \<equiv> fnext (blk h a)"
abbreviation fpvs :: "kheap \<Rightarrow> nat \<Rightarrow> nat" where "fpvs h a \<equiv> fprev (blk h a)"
abbreviation szs :: "kheap \<Rightarrow> nat \<Rightarrow> nat" where "szs h a \<equiv> bsize (blk h a)"
abbreviation uses :: "kheap \<Rightarrow> nat \<Rightarrow> bool" where "uses h a \<equiv> used (blk h a)"

text \<open>The blocks \<open>bs\<close> tile the heap from \<open>s\<close> to its end and are linked in address order; the blocks
  \<open>fs\<close> among them are linked on the free list.\<close>

definition heap_wf :: "kheap \<Rightarrow> nat list \<Rightarrow> nat list \<Rightarrow> nat \<Rightarrow> bool" where
  "heap_wf h bs fs s \<longleftrightarrow>
     dls (nxs h) (pvs h) 0 bs 0 \<and> heap_head h = hd_or 0 bs \<and> heap_tail h = last_or 0 bs
   \<and> dls (fnxs h) (fpvs h) 0 fs 0 \<and> free_head h = hd_or 0 fs \<and> distinct fs \<and> set fs \<subseteq> set bs
   \<and> tiles (szs h) s bs (heap_end h)
   \<and> KHEAP64_BASE \<le> s \<and> 16 dvd s \<and> 4096 dvd heap_end h \<and> heap_end h \<le> KHEAP64_BASE + KHEAP64_MAX_SIZE"

text \<open>Between operations the free list holds exactly the blocks not in use, and no two of them are
  neighbours.\<close>

definition heap_inv :: "kheap \<Rightarrow> nat list \<Rightarrow> nat list \<Rightarrow> nat \<Rightarrow> bool" where
  "heap_inv h bs fs s \<longleftrightarrow> heap_wf h bs fs s \<and> set fs = {b \<in> set bs. \<not> uses h b}
     \<and> successively (\<lambda>x y. uses h x \<or> uses h y) bs"

definition kheap_inv :: "kheap \<Rightarrow> bool" where
  "kheap_inv h \<longleftrightarrow> (\<exists>bs fs s. heap_inv h bs fs s)"

lemma heap_wfD:
  assumes "heap_wf h bs fs s"
  shows "0 \<notin> set bs" and "0 \<notin> set fs" and "distinct bs" and "distinct fs" and "set fs \<subseteq> set bs"
    and "b \<in> set bs \<Longrightarrow> b + 32 + szs h b \<le> heap_end h \<and> 16 \<le> szs h b \<and> 16 dvd szs h b \<and> KHEAP64_BASE \<le> b"
    and "heap_end h < 2 ^ 63 + 2 ^ 63 - 2 ^ 32"
proof -
  show "0 \<notin> set bs" "0 \<notin> set fs" "distinct bs" "distinct fs" "set fs \<subseteq> set bs"
    using assms dls_nonzero tiles_distinct unfolding heap_wf_def by blast+
  show "b \<in> set bs \<Longrightarrow> b + 32 + szs h b \<le> heap_end h \<and> 16 \<le> szs h b \<and> 16 dvd szs h b \<and> KHEAP64_BASE \<le> b"
    using assms tiles_bounds [of "szs h" s bs "heap_end h" b] by (auto simp: heap_wf_def)
  show "heap_end h < 2 ^ 63 + 2 ^ 63 - 2 ^ 32"
    using assms by (auto simp: heap_wf_def KHEAP64_BASE_def KHEAP64_MAX_SIZE_def)
qed

lemma heap_wf_cong:
  assumes "heap_wf h bs fs s"
    and "\<And>b. b \<in> set bs \<Longrightarrow> nxs h' b = nxs h b \<and> pvs h' b = pvs h b \<and> szs h' b = szs h b \<and> fnxs h' b = fnxs h b \<and> fpvs h' b = fpvs h b"
    and "heap_head h' = heap_head h" "heap_tail h' = heap_tail h" "free_head h' = free_head h" "heap_end h' = heap_end h"
  shows "heap_wf h' bs fs s"
proof -
  have "dls (nxs h') (pvs h') 0 bs 0 = dls (nxs h) (pvs h) 0 bs 0" using assms(2) by (intro dls_cong) auto
  moreover have "dls (fnxs h') (fpvs h') 0 fs 0 = dls (fnxs h) (fpvs h) 0 fs 0"
    using assms(1,2) by (intro dls_cong) (auto simp: heap_wf_def)
  moreover have "tiles (szs h') s bs (heap_end h) = tiles (szs h) s bs (heap_end h)"
    using assms(2) by (intro tiles_cong) auto
  ultimately show ?thesis using assms by (simp add: heap_wf_def)
qed

section \<open>Free-list operations\<close>

lemma freelist_insert_fields [simp]:
  "nxs (freelist_insert b h) a = nxs h a" "pvs (freelist_insert b h) a = pvs h a"
  "szs (freelist_insert b h) a = szs h a" "uses (freelist_insert b h) a = uses h a"
  "heap_head (freelist_insert b h) = heap_head h" "heap_tail (freelist_insert b h) = heap_tail h"
  "heap_end (freelist_insert b h) = heap_end h" "mach (freelist_insert b h) = mach h"
  "free_head (freelist_insert b h) = b"
  by (simp_all add: freelist_insert_def Let_def)

lemma freelist_insert_links:
  "fnxs (freelist_insert b h) a = (if a = b then free_head h else fnxs h a)"
  "fpvs (freelist_insert b h) a
     = (if a = free_head h \<and> free_head h \<noteq> 0 then b else if a = b then 0 else fpvs h a)"
  by (auto simp: freelist_insert_def Let_def)

lemma freelist_insert_wf:
  assumes "heap_wf h bs fs s" and "b \<in> set bs" and "b \<notin> set fs"
  shows "heap_wf (freelist_insert b h) bs (b # fs) s"
proof -
  let ?h = "freelist_insert b h"
  have "b \<noteq> 0" using assms heap_wfD(1) by metis
  have fh: "free_head h = hd_or 0 fs" using assms(1) by (simp add: heap_wf_def)
  have n0: "0 \<notin> set fs" by (rule heap_wfD(2) [OF assms(1)])
  have "dls (fnxs ?h) (fpvs ?h) 0 ([] @ b # fs) 0"
  proof (rule dls_insert)
    show "dls (fnxs h) (fpvs h) 0 ([] @ fs) 0" using assms(1) by (simp add: heap_wf_def)
    show "distinct ([] @ b # fs)" using assms heap_wfD(4) by auto
    show "fpvs ?h x = (if fs \<noteq> [] \<and> x = hd fs then b else fpvs h x)" if "x \<in> set ([] @ fs)" for x
      using that assms(3) n0 by (auto simp: freelist_insert_links fh hd_or_def)
    show "fpvs ?h b = last_or 0 []"
      using assms(3) by (auto simp: freelist_insert_links fh hd_or_def split: if_splits)
  qed (use assms(3) \<open>b \<noteq> 0\<close> in \<open>auto simp: freelist_insert_links fh\<close>)
  then show ?thesis using assms by (simp add: heap_wf_def)
qed

lemma freelist_remove_fields [simp]:
  "nxs (freelist_remove b h) a = nxs h a" "pvs (freelist_remove b h) a = pvs h a"
  "szs (freelist_remove b h) a = szs h a" "uses (freelist_remove b h) a = uses h a"
  "heap_head (freelist_remove b h) = heap_head h" "heap_tail (freelist_remove b h) = heap_tail h"
  "heap_end (freelist_remove b h) = heap_end h" "mach (freelist_remove b h) = mach h"
  "free_head (freelist_remove b h) = (if fpvs h b = 0 then fnxs h b else free_head h)"
  by (simp_all add: freelist_remove_def Let_def)

lemma freelist_remove_links:
  "fnxs (freelist_remove b h) a = (if fpvs h b \<noteq> 0 \<and> a = fpvs h b then fnxs h b else fnxs h a)"
  "fpvs (freelist_remove b h) a = (if fnxs h b \<noteq> 0 \<and> a = fnxs h b then fpvs h b else fpvs h a)"
  by (auto simp: freelist_remove_def Let_def)

lemma freelist_remove_wf:
  assumes wf: "heap_wf h bs (us @ b # vs) s"
  shows "heap_wf (freelist_remove b h) bs (us @ vs) s"
proof -
  let ?h = "freelist_remove b h"
  have d: "dls (fnxs h) (fpvs h) 0 (us @ b # vs) 0" and dist: "distinct (us @ b # vs)"
    using wf by (auto simp: heap_wf_def)
  have n0: "0 \<notin> set (us @ b # vs)" by (rule heap_wfD(2) [OF wf])
  have b: "fpvs h b = last_or 0 us" "fnxs h b = hd_or 0 vs" using d by (simp_all add: dls_append)
  have "dls (fnxs ?h) (fpvs ?h) 0 (us @ vs) 0"
  proof (rule dls_remove [OF d dist])
    fix x assume "x \<in> set (us @ vs)"
    then have "x \<noteq> 0" using n0 by (cases "x = 0") auto
    then show "fnxs ?h x = (if us \<noteq> [] \<and> x = last us then hd_or 0 vs else fnxs h x)"
      "fpvs ?h x = (if vs \<noteq> [] \<and> x = hd vs then last_or 0 us else fpvs h x)"
      by (auto simp: freelist_remove_links b hd_or_def last_or_def)
  qed
  moreover have "free_head ?h = hd_or 0 (us @ vs)"
  proof (cases "us = []")
    case False
    then have "last us \<noteq> 0" using n0 by (metis UnI1 last_in_set set_append)
    then show ?thesis using False wf by (simp add: b last_or_def heap_wf_def hd_or_def)
  qed (simp add: b)
  ultimately show ?thesis using wf dist by (auto simp: heap_wf_def)
qed

section \<open>Merging and splitting\<close>

lemma merge_next_fields:
  assumes "nxs h b \<noteq> b"
  defines "n \<equiv> nxs h b" and "r \<equiv> freelist_remove (nxs h b) h"
  shows "nxs (merge_next b h) a = (if a = b then nxs h n else nxs h a)"
    and "pvs (merge_next b h) a = (if nxs h n \<noteq> 0 \<and> a = nxs h n then b else pvs h a)"
    and "szs (merge_next b h) a = (if a = b then add64 (szs h b) (add64 BLOCK_BYTES (szs h n)) else szs h a)"
    and "uses (merge_next b h) a = uses h a" and "fnxs (merge_next b h) a = fnxs r a"
    and "fpvs (merge_next b h) a = fpvs r a"
    and "heap_head (merge_next b h) = heap_head h" and "free_head (merge_next b h) = free_head r"
    and "heap_tail (merge_next b h) = (if n = heap_tail h then b else heap_tail h)"
    and "heap_end (merge_next b h) = heap_end h" and "mach (merge_next b h) = mach h"
  using assms(1) by (auto simp: merge_next_def Let_def n_def r_def simp del: freelist_remove_fields(9))

lemma add64_small: "a + b < 2 ^ 64 \<Longrightarrow> add64 a b = a + b"
  by (rule add64_exact)

lemma merge_next_wf:
  assumes wf: "heap_wf h (us @ b # n # vs) (fu @ n # fv) s"
  shows "heap_wf (merge_next b h) (us @ b # vs) (fu @ fv) s"
    and "nxs h b = n" and "szs (merge_next b h) a = (if a = b then szs h b + 32 + szs h n else szs h a)"
    and "uses (merge_next b h) a = uses h a" and "heap_end (merge_next b h) = heap_end h"
    and "mach (merge_next b h) = mach h"
proof -
  let ?bs = "us @ b # n # vs" and ?h = "merge_next b h"
  have d: "dls (nxs h) (pvs h) 0 ?bs 0" and t: "tiles (szs h) s ?bs (heap_end h)" using wf by (auto simp: heap_wf_def)
  have dist: "distinct ?bs" by (rule heap_wfD(3) [OF wf])
  have n0: "0 \<notin> set ?bs" by (rule heap_wfD(1) [OF wf])
  show nb: "nxs h b = n" using d by (simp add: dls_append)
  have nn: "nxs h n = hd_or 0 vs" using d by (simp add: dls_append)
  have ne: "nxs h b \<noteq> b" using nb dist by auto
  note f = merge_next_fields [OF ne, unfolded nb]
  have "b + 32 + szs h b \<le> n" using tiles_apart [OF t, of b n] tiles_sorted [OF t] by (auto simp: sorted_wrt_append)
  moreover have "n + 32 + szs h n \<le> heap_end h" using heap_wfD(6) [OF wf, of n] by simp
  ultimately have small: "szs h b + 32 + szs h n < 2 ^ 64" using heap_wfD(7) [OF wf] by simp
  then show sz: "szs ?h a = (if a = b then szs h b + 32 + szs h n else szs h a)" for a
    using f(3) by (simp add: add64_small BLOCK_BYTES_def)
  show "uses ?h a = uses h a" "heap_end ?h = heap_end h" "mach ?h = mach h" using f by auto
  note r = freelist_remove_wf [OF wf]
  have rl: "fnxs ?h a = fnxs (freelist_remove n h) a" "fpvs ?h a = fpvs (freelist_remove n h) a" for a using f by auto
  have d1: "dls (nxs h) (pvs h) 0 ((us @ [b]) @ n # vs) 0" using d by simp
  have dl: "dls (nxs ?h) (pvs ?h) 0 ((us @ [b]) @ vs) 0"
  proof (rule dls_remove [OF d1])
    fix x assume "x \<in> set ((us @ [b]) @ vs)"
    then have "x \<noteq> 0" using n0 by (cases "x = 0") auto
    then show "nxs ?h x = (if us @ [b] \<noteq> [] \<and> x = last (us @ [b]) then hd_or 0 vs else nxs h x)"
      "pvs ?h x = (if vs \<noteq> [] \<and> x = hd vs then last_or 0 (us @ [b]) else pvs h x)"
      by (auto simp: f nn hd_or_def)
  qed (use dist in simp)
  have tl: "tiles (szs ?h) s (us @ b # vs) (heap_end h)"
    by (rule tiles_merge [OF t]) (rule sz)
  have ft: "dls (fnxs ?h) (fpvs ?h) 0 (fu @ fv) 0" "free_head ?h = hd_or 0 (fu @ fv)"
    using r f rl by (simp_all add: heap_wf_def)
  have heads: "heap_head ?h = hd_or 0 (us @ b # vs)" "heap_tail ?h = last_or 0 (us @ b # vs)"
  proof -
    show "heap_head ?h = hd_or 0 (us @ b # vs)" using wf f by (simp add: heap_wf_def hd_or_append)
    have "heap_tail h = last_or n vs" using wf by (simp add: heap_wf_def last_or_append)
    then show "heap_tail ?h = last_or 0 (us @ b # vs)"
      using f dist last_or_in [of vs n] by (cases "vs = []") (auto simp: last_or_append, auto simp: last_or_def)
  qed
  have "set (fu @ fv) \<subseteq> set (us @ b # vs)" "distinct (fu @ fv)"
    using wf by (auto simp: heap_wf_def)
  then show "heap_wf ?h (us @ b # vs) (fu @ fv) s"
    using wf dl tl ft heads f by (simp add: heap_wf_def)
qed

lemma split_fields:
  assumes "\<not> szs h b < add64 (add64 k BLOCK_BYTES) MIN_PAYLOAD" and r: "r = add64 (payload b) k"
    and "r \<noteq> b" and "nxs h b \<noteq> b" and "nxs h b \<noteq> r" and "r \<noteq> 0"
  shows "nxs (split b k h) a = (if a = b then r else if a = r then nxs h b else nxs h a)"
    and "pvs (split b k h) a = (if nxs h b \<noteq> 0 \<and> a = nxs h b then r else if a = r then b else pvs h a)"
    and "szs (split b k h) a = (if a = b then k else if a = r then sub64 (sub64 (szs h b) k) BLOCK_BYTES else szs h a)"
    and "uses (split b k h) a = (if a = r then False else uses h a)"
    and "heap_head (split b k h) = heap_head h" and "free_head (split b k h) = r"
    and "heap_tail (split b k h) = (if b = heap_tail h then r else heap_tail h)"
    and "heap_end (split b k h) = heap_end h" and "mach (split b k h) = mach h"
    and "fnxs (split b k h) a = (if a = r then free_head h else fnxs h a)"
    and "fpvs (split b k h) a = (if a = free_head h \<and> free_head h \<noteq> 0 then r else if a = r then 0 else fpvs h a)"
proof -
  have s: "split b k h = (let h = blk_upd r (\<lambda>x. x\<lparr>bsize := sub64 (sub64 (szs h b) k) BLOCK_BYTES, used := False,
                                   prev := b, nxt := nxs h b\<rparr>) h;
           h = (if nxs h b \<noteq> 0 then blk_upd (nxs h b) (\<lambda>x. x\<lparr>prev := r\<rparr>) h else h);
           h = blk_upd b (\<lambda>x. x\<lparr>nxt := r\<rparr>) h;
           h = (if b = heap_tail h then h\<lparr>heap_tail := r\<rparr> else h);
           h = blk_upd b (\<lambda>x. x\<lparr>bsize := k\<rparr>) h
       in freelist_insert r h)"
    using assms(1) by (simp only: split_def r [symmetric] if_False Let_def)
  have ne: "b \<noteq> r" "b \<noteq> nxs h b" "r \<noteq> nxs h b" using assms(3-5) by auto
  show "nxs (split b k h) a = (if a = b then r else if a = r then nxs h b else nxs h a)"
    "pvs (split b k h) a = (if nxs h b \<noteq> 0 \<and> a = nxs h b then r else if a = r then b else pvs h a)"
    "szs (split b k h) a = (if a = b then k else if a = r then sub64 (sub64 (szs h b) k) BLOCK_BYTES else szs h a)"
    "uses (split b k h) a = (if a = r then False else uses h a)"
    "heap_head (split b k h) = heap_head h" "free_head (split b k h) = r"
    "heap_tail (split b k h) = (if b = heap_tail h then r else heap_tail h)"
    "heap_end (split b k h) = heap_end h" "mach (split b k h) = mach h"
    "fnxs (split b k h) a = (if a = r then free_head h else fnxs h a)"
    "fpvs (split b k h) a = (if a = free_head h \<and> free_head h \<noteq> 0 then r else if a = r then 0 else fpvs h a)"
    unfolding s by (cases "nxs h b = 0"; cases "b = heap_tail h"; use assms(3-6) ne in \<open>simp add: freelist_insert_links\<close>)+
qed

lemma split_wf:
  assumes wf: "heap_wf h (us @ b # vs) fs s" and nf: "b \<notin> set fs" and k: "16 \<le> k" "16 dvd k" "k + 48 \<le> szs h b"
  defines "r \<equiv> b + 32 + k" and "h' \<equiv> split b k h"
  shows "heap_wf h' (us @ b # r # vs) (r # fs) s" and "r \<notin> set (us @ b # vs)"
    and "szs h' a = (if a = b then k else if a = r then szs h b - k - 32 else szs h a)"
    and "uses h' a = (a \<noteq> r \<and> uses h a)" and "heap_end h' = heap_end h" and "mach h' = mach h"
proof -
  let ?bs = "us @ b # vs"
  have d: "dls (nxs h) (pvs h) 0 ?bs 0" and t: "tiles (szs h) s ?bs (heap_end h)" using wf by (auto simp: heap_wf_def)
  have dist: "distinct ?bs" by (rule heap_wfD(3) [OF wf])
  have n0: "0 \<notin> set ?bs" by (rule heap_wfD(1) [OF wf])
  have top: "b + 32 + szs h b \<le> heap_end h" and lim: "heap_end h < 2 ^ 64"
    using heap_wfD(6) [OF wf, of b] heap_wfD(7) [OF wf] by simp_all
  have bn: "nxs h b = hd_or 0 vs" using d by (simp add: dls_append)
  show r: "r \<notin> set ?bs"
  proof
    assume "r \<in> set ?bs"
    then have "r \<in> set us \<or> r = b \<or> r \<in> set vs" by auto
    then show False
      using tiles_apart [OF t, of b r] tiles_sorted [OF t] k by (auto simp: r_def sorted_wrt_append)
  qed
  have big: "\<not> szs h b < add64 (add64 k BLOCK_BYTES) MIN_PAYLOAD"
    using k top lim by (simp add: add64_small BLOCK_BYTES_def MIN_PAYLOAD_def)
  have rr: "r = add64 (payload b) k"
    using k top lim by (simp add: r_def payload_def add64_small BLOCK_BYTES_def)
  have ne: "r \<noteq> b" "nxs h b \<noteq> b" "nxs h b \<noteq> r" "r \<noteq> 0"
    using dist r n0 by (cases vs; auto simp: bn r_def)+
  note f = split_fields [OF big rr ne, folded h'_def]
  have sub: "sub64 (sub64 (szs h b) k) BLOCK_BYTES = szs h b - k - 32"
    using k top lim by (simp add: sub64_exact BLOCK_BYTES_def)
  show sz: "szs h' a = (if a = b then k else if a = r then szs h b - k - 32 else szs h a)" for a using f(3) sub by simp
  show "uses h' a = (a \<noteq> r \<and> uses h a)" "heap_end h' = heap_end h" "mach h' = mach h" using f by auto
  have d1: "dls (nxs h) (pvs h) 0 ((us @ [b]) @ vs) 0" using d by simp
  have dl: "dls (nxs h') (pvs h') 0 ((us @ [b]) @ r # vs) 0"
  proof (rule dls_insert [OF d1])
    fix x assume x: "x \<in> set ((us @ [b]) @ vs)"
    then have "x \<noteq> 0" using n0 by (cases "x = 0") auto
    moreover have "x \<noteq> r" using x r by auto
    ultimately show "nxs h' x = (if us @ [b] \<noteq> [] \<and> x = last (us @ [b]) then r else nxs h x)"
      "pvs h' x = (if vs \<noteq> [] \<and> x = hd vs then r else pvs h x)"
      by (auto simp: f bn hd_or_def)
  next
    show "pvs h' r = last_or 0 (us @ [b])" using ne f(2) [of r] by simp
  qed (use dist r ne f bn in auto)
  have tl: "tiles (szs h') s (us @ b # r # vs) (heap_end h)"
    by (rule tiles_split [OF t k(3,1,2) r_def [THEN meta_eq_to_obj_eq]]) (use r dist sz in auto)
  have fdl: "dls (fnxs h') (fpvs h') 0 ([] @ r # fs) 0"
  proof (rule dls_insert)
    show "dls (fnxs h) (fpvs h) 0 ([] @ fs) 0" using wf by (simp add: heap_wf_def)
    have rf: "r \<notin> set fs" using r heap_wfD(5) [OF wf] by auto
    then show "distinct ([] @ r # fs)" using heap_wfD(4) [OF wf] by simp
    have fh: "free_head h = hd_or 0 fs" using wf by (simp add: heap_wf_def)
    fix x assume x: "x \<in> set ([] @ fs)"
    then have "x \<noteq> 0" using heap_wfD(2) [OF wf] by (cases "x = 0") auto
    moreover have "x \<noteq> r" using x rf by auto
    ultimately show "fnxs h' x = (if [] \<noteq> [] \<and> x = last [] then r else fnxs h x)"
      "fpvs h' x = (if fs \<noteq> [] \<and> x = hd fs then r else fpvs h x)"
      by (auto simp: f fh hd_or_def)
  next
    have fh: "free_head h = hd_or 0 fs" using wf by (simp add: heap_wf_def)
    show "fnxs h' r = hd_or 0 fs" "fpvs h' r = last_or 0 []"
      using r heap_wfD(5) [OF wf] by (cases fs; auto simp: f fh)+
  qed (rule ne)
  have "heap_tail h' = last_or 0 (us @ b # r # vs)"
    using wf f dist by (cases "vs = []") (auto simp: heap_wf_def last_or_append, auto simp: last_or_def)
  moreover have "heap_head h' = hd_or 0 (us @ b # r # vs)" using wf f by (simp add: heap_wf_def hd_or_append)
  moreover have "r \<notin> set fs" using r heap_wfD(5) [OF wf] by auto
  ultimately show "heap_wf h' (us @ b # r # vs) (r # fs) s"
    using wf dl tl fdl f by (auto simp: heap_wf_def)
qed

section \<open>Allocating from the free list\<close>

text \<open>What the clients have been given: the blocks in use with their sizes.\<close>

definition live :: "kheap \<Rightarrow> nat list \<Rightarrow> (nat \<times> nat) set" where
  "live h bs = {(b, szs h b) | b. b \<in> set bs \<and> uses h b}"

lemma live_I: "(b, k) \<in> live h bs \<longleftrightarrow> b \<in> set bs \<and> uses h b \<and> k = szs h b"
  by (auto simp: live_def)

lemma successively_around:
  "successively P (us @ b # vs) \<longleftrightarrow> successively P us \<and> successively P vs
     \<and> (us \<noteq> [] \<longrightarrow> P (last us) b) \<and> (vs \<noteq> [] \<longrightarrow> P b (hd vs))"
  by (cases vs) (auto simp: successively_append_iff)

lemma search_finds:
  assumes "dls (fnxs h) (fpvs h) p fs 0"
  shows "\<exists>n. search (hd_or 0 fs) want h = Some (case find (\<lambda>b. want \<le> szs h b) fs of Some b \<Rightarrow> b | None \<Rightarrow> 0,
            h\<lparr>stat_steps := n\<rparr>)"
  using assms
proof (induction fs arbitrary: h p)
  case Nil
  have "h = h\<lparr>stat_steps := stat_steps h\<rparr>" by simp
  then show ?case by (subst search.simps) (auto intro!: exI [of _ "stat_steps h"])
next
  case (Cons x xs)
  let ?h = "h\<lparr>stat_steps := add64 (stat_steps h) 1\<rparr>"
  have x: "x \<noteq> 0" "fnxs h x = hd_or 0 xs" using Cons.prems by auto
  have "dls (fnxs ?h) (fpvs ?h) x xs 0" using Cons.prems by simp
  from Cons.IH [OF this] show ?case
    by (subst search.simps) (auto simp: x Let_def)
qed

lemma stat_upd_wf [simp]: "heap_wf (h\<lparr>stat_steps := n\<rparr>) bs fs s = heap_wf h bs fs s"
  "heap_wf (h\<lparr>stat_calls := n\<rparr>) bs fs s = heap_wf h bs fs s"
  "heap_inv (h\<lparr>stat_steps := n\<rparr>) bs fs s = heap_inv h bs fs s"
  "heap_inv (h\<lparr>stat_calls := n\<rparr>) bs fs s = heap_inv h bs fs s"
  "heap_inv (h\<lparr>heap_double_frees := n\<rparr>) bs fs s = heap_inv h bs fs s"
  "live (h\<lparr>stat_steps := n\<rparr>) bs = live h bs" "live (h\<lparr>stat_calls := n\<rparr>) bs = live h bs"
  by (simp_all add: heap_wf_def heap_inv_def live_def)

lemma payload_eq: "heap_wf h bs fs s \<Longrightarrow> b \<in> set bs \<Longrightarrow> payload b = b + 32"
  using heap_wfD(6) [of h bs fs s b] heap_wfD(7) [of h bs fs s]
  by (simp add: payload_def add64_small BLOCK_BYTES_def)

lemma mark_used_wf: "heap_wf (blk_upd b (\<lambda>x. x\<lparr>used := v\<rparr>) h) bs fs s = heap_wf h bs fs s"
  by (auto intro: heap_wf_cong)

text \<open>The outcome of taking a block: exactly one more block is in use, of at least the size asked
  for, and no other block in use has moved or changed size.\<close>

definition taken :: "nat \<Rightarrow> kheap \<Rightarrow> nat list \<Rightarrow> nat \<Rightarrow> nat \<Rightarrow> kheap \<Rightarrow> bool" where
  "taken want h bs s b h' \<longleftrightarrow> (\<exists>bs' fs' k. heap_inv h' bs' fs' s \<and> want \<le> k \<and> k < want + 48
      \<and> live h' bs' = insert (b, k) (live h bs) \<and> b \<notin> fst ` live h bs \<and> heap_end h' = heap_end h \<and> mach h' = mach h)"

lemma take_block_ok:
  assumes inv: "heap_inv h bs fs s" and b: "b \<in> set fs" and want: "16 \<le> want" "16 dvd want" "want \<le> szs h b"
  shows "fst (take_block b want h) = b + 32" and "taken want h bs s b (snd (take_block b want h))"
proof -
  have wf: "heap_wf h bs fs s" and tie: "set fs = {b \<in> set bs. \<not> uses h b}"
    and co: "successively (\<lambda>x y. uses h x \<or> uses h y) bs" using inv by (auto simp: heap_inv_def)
  have bb: "b \<in> set bs" "\<not> uses h b" using b tie by auto
  show "fst (take_block b want h) = b + 32" using payload_eq [OF wf bb(1)] by (simp add: take_block_def)
  obtain us vs where bs: "bs = us @ b # vs" using bb(1) by (meson split_list)
  obtain fu fv where fs: "fs = fu @ b # fv" using b by (meson split_list)
  have dist: "distinct bs" "distinct fs" using heap_wfD(3,4) [OF wf] .
  define r where "r = freelist_remove b h"
  have rwf: "heap_wf r bs (fu @ fv) s" using freelist_remove_wf [of h bs fu b fv s] wf by (simp add: fs r_def)
  have rf: "szs r a = szs h a" "uses r a = uses h a" "heap_end r = heap_end h" "mach r = mach h" for a
    by (simp_all add: r_def)
  have bf: "b \<notin> set (fu @ fv)" using dist(2) fs by simp
  have nb: "us \<noteq> [] \<Longrightarrow> uses h (last us)" "vs \<noteq> [] \<Longrightarrow> uses h (hd vs)" using co bb(2) by (auto simp: bs successively_around)
  have co': "successively (\<lambda>x y. uses h x \<or> uses h y) us" "successively (\<lambda>x y. uses h x \<or> uses h y) vs"
    using co by (auto simp: bs successively_around)
  have nl: "b \<notin> fst ` live h bs" using bb(2) by (auto simp: live_def)
  show "taken want h bs s b (snd (take_block b want h))"
  proof (cases "szs h b < want + 48")
    case True
    have lim: "heap_end h < 2 ^ 64" "b + 32 + szs h b \<le> heap_end h"
      using heap_wfD(6) [OF wf bb(1)] heap_wfD(7) [OF wf] by simp_all
    then have "want + 48 < 2 ^ 64" using want(3) heap_wfD(6) [OF wf bb(1)] by (simp add: KHEAP64_BASE_def)
    then have "split b want r = r"
      using True by (simp add: split_def add64_small BLOCK_BYTES_def MIN_PAYLOAD_def rf)
    then have h': "snd (take_block b want h) = blk_upd b (\<lambda>x. x\<lparr>used := True\<rparr>) r" (is "_ = ?h")
      by (simp add: take_block_def r_def)
    have u: "uses ?h a = (a = b \<or> uses h a)" "szs ?h a = szs h a" for a by (simp_all add: rf)
    have "successively (\<lambda>x y. uses ?h x \<or> uses ?h y) bs"
      using co by (rule successively_mono) (auto simp: u rf)
    moreover have "set (fu @ fv) = {b \<in> set bs. \<not> uses ?h b}"
      using tie dist(2) by (auto simp: fs u rf)
    ultimately have "heap_inv ?h bs (fu @ fv) s" using rwf by (simp add: heap_inv_def mark_used_wf)
    moreover have "live ?h bs = insert (b, szs h b) (live h bs)" using bb(1) by (auto simp: live_def u rf)
    ultimately show ?thesis
      unfolding taken_def h' using True want nl rf by (intro exI conjI) (assumption | simp)+
  next
    case False
    define t where "t = split b want r"
    define q where "q = b + 32 + want"
    have sp: "heap_wf t (us @ b # q # vs) (q # fu @ fv) s" "q \<notin> set bs"
      "szs t a = (if a = b then want else if a = q then szs h b - want - 32 else szs h a)"
      "uses t a = (a \<noteq> q \<and> uses h a)" "heap_end t = heap_end h" "mach t = mach h" for a
      using split_wf [of r us b vs "fu @ fv" s want] rwf bf want False by (auto simp: bs rf t_def q_def)
    let ?h = "blk_upd b (\<lambda>x. x\<lparr>used := True\<rparr>) t"
    have h': "snd (take_block b want h) = ?h" by (simp add: take_block_def r_def t_def)
    have qb: "q \<noteq> b" "q \<notin> set us" "q \<notin> set vs" using sp(2) by (auto simp: bs)
    have u: "uses ?h a = (a = b \<or> a \<noteq> q \<and> uses h a)" "szs ?h a = szs t a" for a
      using qb by (auto simp: sp(4))
    have "successively (\<lambda>x y. uses ?h x \<or> uses ?h y) us" "successively (\<lambda>x y. uses ?h x \<or> uses ?h y) vs"
      using co' qb by (auto elim!: successively_mono simp: u sp(4) split: if_splits)
    moreover have "vs \<noteq> [] \<Longrightarrow> uses ?h (hd vs)" using nb(2) qb hd_in_set [of vs] by (auto simp: u sp(4))
    ultimately have "successively (\<lambda>x y. uses ?h x \<or> uses ?h y) (us @ b # q # vs)"
      using qb by (cases vs) (auto simp: successively_around u sp(4))
    moreover have "set (q # fu @ fv) = {a \<in> set (us @ b # q # vs). \<not> uses ?h a}"
      using tie dist(2) qb by (auto simp: fs bs u sp(4))
    ultimately have "heap_inv ?h (us @ b # q # vs) (q # fu @ fv) s" using sp(1) by (simp add: heap_inv_def mark_used_wf)
    moreover have "live ?h (us @ b # q # vs) = insert (b, want) (live h bs)"
      using qb bb(2) sp(2) by (auto simp: live_def u sp(3,4) bs)
    ultimately show ?thesis
      unfolding taken_def h' using nl sp(5,6)
      by (intro exI [of _ "us @ b # q # vs"] exI [of _ "q # fu @ fv"] exI [of _ want]) simp
  qed
qed

section \<open>Freeing\<close>

text \<open>Freed block and neighbours: the state after the block is back on the free list, with the
  requirement to coalesce suspended around it.\<close>

lemma coalesce_next:
  assumes wf: "heap_wf h (us @ b # vs) fs s" and tie: "set fs = {a \<in> set (us @ b # vs). \<not> uses h a}" and "\<not> uses h b"
    and co: "successively (\<lambda>x y. uses h x \<or> uses h y) vs"
  defines "n \<equiv> nxs h b"
  defines "h' \<equiv> (if n \<noteq> 0 \<and> \<not> uses h n \<and> adjacent b n h then merge_next b h else h)"
  shows "\<exists>vs' fs'. heap_wf h' (us @ b # vs') fs' s \<and> set fs' = {a \<in> set (us @ b # vs'). \<not> uses h' a}
     \<and> (vs' \<noteq> [] \<longrightarrow> uses h (hd vs')) \<and> successively (\<lambda>x y. uses h x \<or> uses h y) vs'
     \<and> (\<forall>a. uses h' a = uses h a) \<and> (\<forall>a. a \<noteq> b \<longrightarrow> szs h' a = szs h a)
     \<and> {a \<in> set vs'. uses h a} = {a \<in> set vs. uses h a} \<and> heap_end h' = heap_end h \<and> mach h' = mach h"
proof -
  have d: "dls (nxs h) (pvs h) 0 (us @ b # vs) 0" and t: "tiles (szs h) s (us @ b # vs) (heap_end h)"
    using wf by (auto simp: heap_wf_def)
  have n: "n = hd_or 0 vs" using d by (simp add: n_def dls_append)
  have n0: "0 \<notin> set (us @ b # vs)" by (rule heap_wfD(1) [OF wf])
  show ?thesis
  proof (cases vs)
    case Nil
    then have "h' = h" using n by (simp add: h'_def)
    then show ?thesis using wf tie Nil by (intro exI [of _ "[]"] exI [of _ fs]) simp
  next
    case (Cons x xs)
    have nx: "n = x" "x \<noteq> 0" using n n0 Cons by auto
    have bx: "x = b + 32 + szs h b" using t by (auto simp: Cons tiles_append)
    have "payload b = b + 32" using payload_eq [OF wf] by simp
    then have adj: "adjacent b x h"
      using bx heap_wfD(6) [OF wf, of b] heap_wfD(7) [OF wf] by (simp add: adjacent_def add64_small)
    show ?thesis
    proof (cases "uses h x")
      case True
      then have "h' = h" using nx by (simp add: h'_def)
      then show ?thesis using wf tie co Cons True by (intro exI [of _ vs] exI [of _ fs]) simp
    next
      case False
      then have h': "h' = merge_next b h" using nx adj by (simp add: h'_def)
      have "x \<in> set fs" using tie False Cons by auto
      then obtain fu fv where fs: "fs = fu @ x # fv" by (meson split_list)
      have wf': "heap_wf h (us @ b # x # xs) (fu @ x # fv) s" using wf by (simp add: Cons fs)
      note m = merge_next_wf [OF wf', folded h']
      have dist: "distinct (us @ b # x # xs)" "distinct (fu @ x # fv)" using heap_wfD(3,4) [OF wf'] .
      have "set (fu @ fv) = {a \<in> set (us @ b # xs). \<not> uses h' a}"
        using tie dist False by (auto simp: fs Cons m(4))
      moreover have "xs \<noteq> [] \<longrightarrow> uses h (hd xs)" using co False by (cases xs) (auto simp: Cons)
      moreover have "successively (\<lambda>x y. uses h x \<or> uses h y) xs" using co by (cases xs) (auto simp: Cons)
      moreover have "{a \<in> set xs. uses h a} = {a \<in> set vs. uses h a}" using False by (auto simp: Cons)
      ultimately show ?thesis
        using m by (intro exI [of _ xs] exI [of _ "fu @ fv"]) simp
    qed
  qed
qed

lemma coalesce_prev:
  assumes wf: "heap_wf h (us @ b # vs) fs s" and tie: "set fs = {a \<in> set (us @ b # vs). \<not> uses h a}" and nb: "\<not> uses h b"
    and co: "successively (\<lambda>x y. uses h x \<or> uses h y) us" "successively (\<lambda>x y. uses h x \<or> uses h y) vs"
    and hv: "vs \<noteq> [] \<longrightarrow> uses h (hd vs)"
  defines "p \<equiv> pvs h b"
  defines "h' \<equiv> (if p \<noteq> 0 \<and> \<not> uses h p \<and> adjacent p b h then merge_next p h else h)"
  shows "\<exists>bs' fs'. heap_inv h' bs' fs' s
     \<and> {a \<in> set bs'. uses h' a} = {a \<in> set (us @ b # vs). uses h a} \<and> (\<forall>a. uses h a \<longrightarrow> szs h' a = szs h a)
     \<and> (\<forall>a. uses h' a = uses h a) \<and> heap_end h' = heap_end h \<and> mach h' = mach h"
proof -
  have d: "dls (nxs h) (pvs h) 0 (us @ b # vs) 0" and t: "tiles (szs h) s (us @ b # vs) (heap_end h)"
    using wf by (auto simp: heap_wf_def)
  have p: "p = last_or 0 us" using d by (simp add: p_def dls_append)
  have n0: "0 \<notin> set (us @ b # vs)" by (rule heap_wfD(1) [OF wf])
  show ?thesis
  proof (cases us rule: rev_cases)
    case Nil
    then have "h' = h" using p by (simp add: h'_def)
    moreover have "heap_inv h (us @ b # vs) fs s"
      using wf tie co hv Nil by (simp add: heap_inv_def successively_around [of _ "[]", simplified])
    ultimately show ?thesis by (intro exI [of _ "us @ b # vs"] exI [of _ fs]) simp
  next
    case (snoc ys y)
    have py: "p = y" "y \<noteq> 0" using p n0 snoc by auto
    have by': "b = y + 32 + szs h y" using t by (auto simp: snoc tiles_append)
    have "payload y = y + 32" using payload_eq [OF wf, of y] by (simp add: snoc)
    then have adj: "adjacent y b h"
      using by' heap_wfD(6) [OF wf, of b] heap_wfD(7) [OF wf] by (simp add: adjacent_def add64_small)
    show ?thesis
    proof (cases "uses h y")
      case True
      then have "h' = h" using py by (simp add: h'_def)
      moreover have "heap_inv h (us @ b # vs) fs s"
        using wf tie co hv True unfolding heap_inv_def successively_around by (auto simp: snoc)
      ultimately show ?thesis by (intro exI [of _ "us @ b # vs"] exI [of _ fs]) simp
    next
      case False
      then have h': "h' = merge_next y h" using py adj by (simp add: h'_def)
      have "b \<in> set fs" using tie nb by auto
      then obtain fu fv where fs: "fs = fu @ b # fv" by (meson split_list)
      have wf': "heap_wf h (ys @ y # b # vs) (fu @ b # fv) s" using wf by (simp add: snoc fs)
      note m = merge_next_wf [OF wf', folded h']
      have dist: "distinct (ys @ y # b # vs)" "distinct (fu @ b # fv)" using heap_wfD(3,4) [OF wf'] .
      have "set (fu @ fv) = {a \<in> set (ys @ y # vs). \<not> uses h' a}"
        using tie dist nb by (auto simp: fs snoc m(4))
      moreover have "successively (\<lambda>x y. uses h x \<or> uses h y) (ys @ y # vs)"
        using co hv False by (auto simp: snoc successively_around)
      ultimately have "heap_inv h' (ys @ y # vs) (fu @ fv) s" using m by (simp add: heap_inv_def)
      then show ?thesis
        using m False nb by (intro exI [of _ "ys @ y # vs"] exI [of _ "fu @ fv"]) (auto simp: snoc)
    qed
  qed
qed

lemma kfree_ok:
  assumes inv: "heap_inv h bs fs s" and b: "b \<in> set bs" "uses h b"
  shows "\<exists>bs' fs'. heap_inv (kfree64 (b + 32) h) bs' fs' s \<and> live (kfree64 (b + 32) h) bs' = live h bs - {(b, szs h b)}
     \<and> heap_end (kfree64 (b + 32) h) = heap_end h \<and> mach (kfree64 (b + 32) h) = mach h"
proof -
  have wf: "heap_wf h bs fs s" and tie: "set fs = {b \<in> set bs. \<not> uses h b}"
    and co: "successively (\<lambda>x y. uses h x \<or> uses h y) bs" using inv by (auto simp: heap_inv_def)
  obtain us vs where bs: "bs = us @ b # vs" using b(1) by (meson split_list)
  have dist: "distinct bs" by (rule heap_wfD(3) [OF wf])
  define h1 where "h1 = freelist_insert b (blk_upd b (\<lambda>x. x\<lparr>used := False\<rparr>) h)"
  have f1: "uses h1 a = (a \<noteq> b \<and> uses h a)" "szs h1 a = szs h a" "heap_end h1 = heap_end h" "mach h1 = mach h" for a
    by (simp_all add: h1_def)
  have bf: "b \<notin> set fs" using tie b by auto
  have wf1: "heap_wf h1 (us @ b # vs) (b # fs) s"
    using freelist_insert_wf [of "blk_upd b (\<lambda>x. x\<lparr>used := False\<rparr>) h" bs fs s b] wf b(1) bf
    by (simp add: mark_used_wf h1_def bs)
  have tie1: "set (b # fs) = {a \<in> set (us @ b # vs). \<not> uses h1 a}" using tie by (auto simp: f1 bs)
  have sub: "successively (\<lambda>x y. uses h x \<or> uses h y) us" "successively (\<lambda>x y. uses h x \<or> uses h y) vs"
    using co by (auto simp: bs successively_around)
  have same1: "uses h1 a = uses h a" if "a \<in> set us \<or> a \<in> set vs" for a using that dist by (auto simp: f1 bs)
  have co1: "successively (\<lambda>x y. uses h1 x \<or> uses h1 y) us" "successively (\<lambda>x y. uses h1 x \<or> uses h1 y) vs"
    using sub same1 by (auto elim!: successively_mono)
  have nb1: "\<not> uses h1 b" by (simp add: f1)
  define n where "n = nxs h1 b"
  define h2 where "h2 = (if n \<noteq> 0 \<and> \<not> uses h1 n \<and> adjacent b n h1 then merge_next b h1 else h1)"
  obtain vs' fs' where s2: "heap_wf h2 (us @ b # vs') fs' s" "set fs' = {a \<in> set (us @ b # vs'). \<not> uses h2 a}"
      "vs' \<noteq> [] \<longrightarrow> uses h1 (hd vs')" "successively (\<lambda>x y. uses h1 x \<or> uses h1 y) vs'"
      "\<forall>a. uses h2 a = uses h1 a" "\<forall>a. a \<noteq> b \<longrightarrow> szs h2 a = szs h1 a"
      "{a \<in> set vs'. uses h1 a} = {a \<in> set vs. uses h1 a}" "heap_end h2 = heap_end h1" "mach h2 = mach h1"
    using coalesce_next [OF wf1 tie1 nb1 co1(2), folded n_def, folded h2_def] by (elim exE conjE) (rule that; assumption)
  have co2: "successively (\<lambda>x y. uses h2 x \<or> uses h2 y) us" "successively (\<lambda>x y. uses h2 x \<or> uses h2 y) vs'"
    "vs' \<noteq> [] \<longrightarrow> uses h2 (hd vs')" "\<not> uses h2 b"
    using co1(1) s2(3-5) f1 by simp_all
  define p where "p = pvs h2 b"
  define h3 where "h3 = (if p \<noteq> 0 \<and> \<not> uses h2 p \<and> adjacent p b h2 then merge_next p h2 else h2)"
  obtain bs3 fs3 where s3: "heap_inv h3 bs3 fs3 s"
      "{a \<in> set bs3. uses h3 a} = {a \<in> set (us @ b # vs'). uses h2 a}" "\<forall>a. uses h2 a \<longrightarrow> szs h3 a = szs h2 a"
      "\<forall>a. uses h3 a = uses h2 a" "heap_end h3 = heap_end h2" "mach h3 = mach h2"
    using coalesce_prev [OF s2(1,2) co2(4,1,2,3), folded p_def, folded h3_def] by (elim exE conjE) (rule that; assumption)
  have "b + 32 < 2 ^ 64" using heap_wfD(6) [OF wf b(1)] heap_wfD(7) [OF wf] by simp
  then have sb: "sub64 (b + 32) BLOCK_BYTES = b" by (simp add: sub64_exact BLOCK_BYTES_def)
  have kf: "kfree64 (b + 32) h = h3"
    unfolding kfree64_def Let_def sb
    unfolding h1_def [symmetric] unfolding n_def [symmetric] unfolding h2_def [symmetric]
    unfolding p_def [symmetric] unfolding h3_def [symmetric] using b(2) by simp
  have eqset: "{a \<in> set bs3. uses h3 a} = {a \<in> set bs. uses h a} - {b}"
    using s2(5,7) s3(2) f1(1) by (auto simp: bs)
  have sz3: "szs h3 a = szs h a" if "uses h3 a" for a
    using that s3(3,4) s2(5,6) f1 by auto
  have "(a, k) \<in> live h3 bs3 \<longleftrightarrow> (a, k) \<in> live h bs - {(b, szs h b)}" for a k
  proof -
    have "a \<in> set bs3 \<and> uses h3 a \<longleftrightarrow> a \<in> set bs \<and> uses h a \<and> a \<noteq> b" using eqset by blast
    then show ?thesis using sz3 [of a] by (auto simp: live_I)
  qed
  then have "live h3 bs3 = live h bs - {(b, szs h b)}" by auto
  then show ?thesis unfolding kf using s3(1,5,6) s2(8,9) f1(3,4) by auto
qed

section \<open>Growing the heap\<close>

lemma unat_of_nat_small: "a < 2 ^ 64 \<Longrightarrow> unat (of_nat a :: u64) = a"
  by (simp add: unsigned_of_nat take_bit_nat_eq_self)

lemma unat_drop_bit_of_nat: "a < 2 ^ 64 \<Longrightarrow> unat (drop_bit n (of_nat a :: u64)) = a div 2 ^ n"
  by (simp only: unat_drop_bit_eq unat_of_nat_small) (simp only: drop_bit_eq_div)

lemma heap_addr:
  assumes "KHEAP64_BASE \<le> a" and "a \<le> KHEAP64_BASE + KHEAP64_MAX_SIZE"
  shows "PML4_IDX (of_nat a) = 288" and "canonical (of_nat a)" and "a < 2 ^ 64"
proof -
  define k where "k = a - KHEAP64_BASE"
  have a: "a = 0xFFFF900000000000 + k" and k: "k \<le> 2 ^ 28"
    using assms by (auto simp: k_def KHEAP64_BASE_def KHEAP64_MAX_SIZE_def)
  show lim: "a < 2 ^ 64" using a k by simp
  note d = unat_drop_bit_of_nat [OF lim]
  have "a div 2 ^ 39 = 0x1FFFF20" "a div 2 ^ 47 = 0x1FFFF"
    using k by (auto simp: a intro!: div_nat_eqI)
  then have "drop_bit 39 (of_nat a :: u64) = 0x1FFFF20" "drop_bit 47 (of_nat a :: u64) = 0x1FFFF"
    using d [of 39] d [of 47] by (simp_all add: word_unat_eq_iff)
  then show "PML4_IDX (of_nat a) = 288" "canonical (of_nat a)"
    by (simp_all add: PML4_IDX_def canonical_def mask_eq_exp_minus_1)
qed

lemma heap_pages_apart:
  assumes "a < 2 ^ 64" "b < 2 ^ 64" "4096 dvd a" "4096 dvd b" "a \<noteq> b"
  shows "drop_bit 12 (of_nat a :: u64) \<noteq> drop_bit 12 (of_nat b)"
proof
  assume "drop_bit 12 (of_nat a :: u64) = drop_bit 12 (of_nat b)"
  then have "unat (drop_bit 12 (of_nat a :: u64)) = unat (drop_bit 12 (of_nat b :: u64))" by simp
  then have "a div 4096 = b div 4096"
    unfolding unat_drop_bit_of_nat [OF assms(1)] unat_drop_bit_of_nat [OF assms(2)] by simp
  then show False using assms by (metis dvd_div_mult_self)
qed

text \<open>The heap's part of the machine: slot 288 of the PML4 belongs to the heap alone, and every
  page below \<open>heap_end\<close> is mapped to a frame of its own.\<close>

definition heap_mach :: "machine \<Rightarrow> bool" where
  "heap_mach m \<longleftrightarrow> paging_inv m \<and> (\<forall>w. PML4_IDX w = 288 \<longrightarrow> private_path m w)"

definition heap_pages :: "nat \<Rightarrow> nat set" where
  "heap_pages e = {a. KHEAP64_BASE \<le> a \<and> a < e \<and> 4096 dvd a}"

definition data_frame :: "machine \<Rightarrow> nat \<Rightarrow> bool" where
  "data_frame m f \<longleftrightarrow> owners (pmm m) f > 0 \<and> (\<forall>p. valid_path p \<longrightarrow> tpath m p \<noteq> Some f)"

definition heap_backed :: "machine \<Rightarrow> nat \<Rightarrow> bool" where
  "heap_backed m e \<longleftrightarrow> (\<forall>a \<in> heap_pages e. \<exists>f. mmu_frame m (of_nat a) = Some f \<and> data_frame m f)
     \<and> inj_on (\<lambda>a. mmu_frame m (of_nat a)) (heap_pages e)"

lemma paging_inv_pmm:
  assumes "paging_inv m" and "pmm_live P" and "ready P" and "frame_count P = frame_count (pmm m)"
    and "\<And>p f. valid_path p \<Longrightarrow> tpath m p = Some f \<Longrightarrow> owners P f > 0"
  shows "paging_inv (m\<lparr>pmm := P\<rparr>)"
proof -
  have "same_view m (m\<lparr>pmm := P\<rparr>)" by (simp add: same_view_def)
  note w = same_view_walk [OF this]
  show ?thesis using assms unfolding paging_inv_def w by simp
qed

lemma walk_pmm [simp]:
  "mmu_frame (m\<lparr>pmm := P\<rparr>) v = mmu_frame m v" "tpath (m\<lparr>pmm := P\<rparr>) p = tpath m p"
  "private_path (m\<lparr>pmm := P\<rparr>) v = private_path m v"
proof -
  have "same_view m (m\<lparr>pmm := P\<rparr>)" by (simp add: same_view_def)
  note w = same_view_walk [OF this]
  show "mmu_frame (m\<lparr>pmm := P\<rparr>) v = mmu_frame m v" "tpath (m\<lparr>pmm := P\<rparr>) p = tpath m p"
    "private_path (m\<lparr>pmm := P\<rparr>) v = private_path m v" using w by (simp_all add: private_path_def)
qed

text \<open>One turn of the loop in \<open>heap_expand\<close>.\<close>

lemma expand_step:
  assumes hm: "heap_mach m" and hb: "heap_backed m e"
    and e: "KHEAP64_BASE \<le> e" "e \<le> KHEAP64_BASE + KHEAP64_MAX_SIZE" "4096 dvd e"
    and alloc: "pmm64_alloc_frame (pmm m) = (phys, P)" and ok: "phys \<noteq> 0"
  shows "\<exists>rc m'. paging64_map (of_nat e) (of_nat phys) (PAGE64_PRESENT OR PAGE64_WRITE) (m\<lparr>pmm := P\<rparr>) = Some (rc, m')
     \<and> (if rc = PAGING64_OK then heap_mach m' \<and> heap_backed m' (e + 4096)
        else heap_mach (m'\<lparr>pmm := pmm64_free_frame phys (pmm m')\<rparr>)
           \<and> heap_backed (m'\<lparr>pmm := pmm64_free_frame phys (pmm m')\<rparr>) e)"
proof -
  have inv: "paging_inv m" using hm by (simp add: heap_mach_def)
  have pm: "pmm_live (pmm m)" "ready (pmm m)" "frame_count (pmm m) \<le> 2 ^ 40" using inv by (auto simp: paging_inv_def)
  note al = alloc_frame_fresh [OF pm alloc]
  obtain g where g: "phys = g * 4096" "g < 2 ^ 40" "g \<noteq> 0" "owners (pmm m) g = 0" "owners P = (owners (pmm m))(g := 1)"
    using al(3) [OF ok] by blast
  let ?m1 = "m\<lparr>pmm := P\<rparr>" and ?v = "of_nat e :: u64"
  have tab: "owners (pmm m) f > 0" if "valid_path p" "tpath m p = Some f" for p f
    using inv that by (auto simp: paging_inv_def)
  have inv1: "paging_inv ?m1"
    using al(1) g(5) tab by (intro paging_inv_pmm [OF inv]) auto
  note ha = heap_addr [OF e(1,2)]
  have nrec: "PML4_IDX ?v \<noteq> REC" using ha(1) by (simp add: REC_def)
  have "private_path ?m1 ?v" using hm ha(1) by (simp add: heap_mach_def)
  moreover have lim: "phys < 2 ^ 52" using g(1,2) by simp
  moreover have phys: "unat (of_nat phys :: u64) = phys" by (rule unat_of_nat_small) (use lim in simp)
  moreover have "(PAGE64_PRESENT OR PAGE64_WRITE) AND ADDR_MASK = 0"
    by (simp add: PAGE64_PRESENT_def PAGE64_WRITE_def ADDR_MASK_def)
  ultimately obtain rc m' where map: "paging64_map ?v (of_nat phys) (PAGE64_PRESENT OR PAGE64_WRITE) ?m1 = Some (rc, m')"
    and post: "map_post ?v (of_nat phys) ?m1 rc m'"
    using paging64_map_spec [OF inv1, of ?v "of_nat phys" "PAGE64_PRESENT OR PAGE64_WRITE"] nrec by auto
  have keep: "owners (pmm m') f = owners P f" "data_frame ?m1 f \<Longrightarrow> data_frame m' f" if "owners P f > 0" for f
    using post that by (auto simp: map_post_def data_frame_def)
  have "tpath m p \<noteq> Some g" if "valid_path p" for p using tab [OF that] g(4) by (metis less_irrefl)
  then have "data_frame ?m1 g" using g(5) by (simp add: data_frame_def)
  then have gm': "data_frame m' g" "owners (pmm m') g = 1" using keep [of g] g(5) by auto
  have old: "data_frame m' f" "f \<noteq> g" if "data_frame m f" for f
  proof -
    show "f \<noteq> g" using that g(4) by (auto simp: data_frame_def)
    then have "owners P f > 0" "data_frame ?m1 f" using that g(5) by (auto simp: data_frame_def)
    then show "data_frame m' f" using keep by blast
  qed
  have mm': "paging_inv m'" "\<forall>w. PML4_IDX w = 288 \<longrightarrow> private_path m' w"
    using post hm by (auto simp: map_post_def heap_mach_def REC_def)
  have page: "mmu_frame m' (of_nat a) = mmu_frame m (of_nat a)" if "a \<in> heap_pages e" for a
  proof -
    have a: "KHEAP64_BASE \<le> a" "a \<le> KHEAP64_BASE + KHEAP64_MAX_SIZE" "4096 dvd a" "a \<noteq> e"
      using that e by (auto simp: heap_pages_def)
    note haa = heap_addr [OF a(1,2)]
    have "\<not> same_slot ?v (of_nat a)"
      using canonical_slot [OF ha(2) haa(2)] heap_pages_apart [OF ha(3) haa(3) e(3) a(3)] a(4) by metis
    moreover have "PML4_IDX (of_nat a) \<noteq> REC" using haa(1) by (simp add: REC_def)
    ultimately show ?thesis using post by (cases rc) (auto simp: map_post_def)
  qed
  show ?thesis
  proof (cases "rc = PAGING64_OK")
    case True
    have new: "mmu_frame m' ?v = Some g"
      using post True ha(2) g(1) phys(1) by (simp add: map_post_def)
    have "a < e + 4096 \<longleftrightarrow> a < e \<or> a = e" if "4096 dvd a" for a
      using that e(3) by (auto elim!: dvdE)
    then have pages: "heap_pages (e + 4096) = insert e (heap_pages e)"
      using e unfolding heap_pages_def by blast
    have "\<exists>f. mmu_frame m' (of_nat a) = Some f \<and> data_frame m' f" if "a \<in> heap_pages (e + 4096)" for a
      using that hb new gm'(1) page old unfolding pages heap_backed_def by (metis insertE)
    moreover have "inj_on (\<lambda>a. mmu_frame m' (of_nat a)) (heap_pages (e + 4096))"
    proof -
      have "inj_on (\<lambda>a. mmu_frame m' (of_nat a)) (heap_pages e)"
        using hb page by (subst inj_on_cong [of _ _ "\<lambda>a. mmu_frame m (of_nat a)"]) (auto simp: heap_backed_def)
      moreover have "mmu_frame m' ?v \<notin> (\<lambda>a. mmu_frame m' (of_nat a)) ` heap_pages e"
        using hb page old(2) new unfolding heap_backed_def by fastforce
      ultimately show ?thesis unfolding pages by (simp add: inj_on_insert) blast
    qed
    ultimately show ?thesis using map True mm' by (auto simp: heap_mach_def heap_backed_def)
  next
    case False
    let ?P = "pmm64_free_frame phys (pmm m')"
    have pm': "pmm_live (pmm m')" "ready (pmm m')" using mm'(1) by (auto simp: paging_inv_def)
    have gd: "phys div FRAME_SIZE = g" using g(1) by (simp add: FRAME_SIZE_def)
    have P: "pmm_live ?P" using free_live [OF pm'(1)] gd g(3) by simp
    have P': "ready ?P = ready (pmm m')" "frame_count ?P = frame_count (pmm m')" "owners ?P = (owners (pmm m'))(g := 0)"
      using free_frame_step [of "pmm m'" phys] pm' gd gm'(2) by (auto simp: pmm_live_def)
    have "valid_path p \<Longrightarrow> tpath m' p = Some f \<Longrightarrow> owners ?P f > 0" for p f
      using mm'(1) gm'(1) P'(3) by (auto simp: paging_inv_def data_frame_def)
    then have i: "paging_inv (m'\<lparr>pmm := ?P\<rparr>)" using P P' pm' by (intro paging_inv_pmm [OF mm'(1)]) auto
    have df: "data_frame (m'\<lparr>pmm := ?P\<rparr>) f" if "data_frame m f" for f
      using old [OF that] P'(3) by (auto simp: data_frame_def)
    have "inj_on (\<lambda>a. mmu_frame m' (of_nat a)) (heap_pages e)"
      using hb page by (subst inj_on_cong [of _ _ "\<lambda>a. mmu_frame m (of_nat a)"]) (auto simp: heap_backed_def)
    then have "heap_backed (m'\<lparr>pmm := ?P\<rparr>) e" using hb df page by (fastforce simp: heap_backed_def)
    then show ?thesis using map False i mm'(2) by (auto simp: heap_mach_def)
  qed
qed

lemma heap_expand_ok:
  assumes "heap_mach (mach h)" and "heap_backed (mach h) (heap_end h)"
    and "KHEAP64_BASE \<le> heap_end h" and "heap_end h \<le> KHEAP64_BASE + KHEAP64_MAX_SIZE" and "4096 dvd heap_end h"
    and "new_end \<le> KHEAP64_BASE + KHEAP64_MAX_SIZE" and "4096 dvd new_end"
  shows "\<exists>ok m e. heap_expand new_end h = Some (ok, h\<lparr>mach := m, heap_end := e\<rparr>)
     \<and> heap_mach m \<and> heap_backed m e \<and> heap_end h \<le> e \<and> 4096 dvd e \<and> (e \<le> heap_end h \<or> e \<le> new_end)
     \<and> (ok \<longrightarrow> new_end \<le> e)"
  using assms
proof (induction "new_end - heap_end h" arbitrary: h rule: less_induct)
  case less
  show ?case
  proof (cases "heap_end h < new_end")
    case False
    have "heap_expand new_end h = Some (True, h\<lparr>mach := mach h, heap_end := heap_end h\<rparr>)"
      using False by (subst heap_expand.simps) simp
    then show ?thesis using False less.prems
      by (intro exI [of _ True] exI [of _ "mach h"] exI [of _ "heap_end h"]) simp
  next
    case True
    obtain phys P where alloc: "pmm64_alloc_frame (pmm (mach h)) = (phys, P)" by fastforce
    show ?thesis
    proof (cases "phys = 0")
      case p0: True
      have inv: "paging_inv (mach h)" using less.prems(1) by (simp add: heap_mach_def)
      have pm: "pmm_live (pmm (mach h))" "ready (pmm (mach h))" "frame_count (pmm (mach h)) \<le> 2 ^ 40"
        using inv by (auto simp: paging_inv_def)
      note al = alloc_frame_fresh [OF pm alloc]
      let ?m = "(mach h)\<lparr>pmm := P\<rparr>"
      have o: "owners P = owners (pmm (mach h))" using al(2) [OF p0] by simp
      have tab: "owners (pmm (mach h)) f > 0" if "valid_path p" "tpath (mach h) p = Some f" for p f
        using inv that by (auto simp: paging_inv_def)
      have "paging_inv ?m" using al(1) tab by (intro paging_inv_pmm [OF inv]) (auto simp: o)
      then have "heap_mach ?m" using less.prems(1) by (simp add: heap_mach_def)
      moreover have "heap_backed ?m (heap_end h)" using less.prems(2) o by (simp add: heap_backed_def data_frame_def)
      moreover have "heap_expand new_end h = Some (False, h\<lparr>mach := ?m, heap_end := heap_end h\<rparr>)"
        using True alloc p0 by (subst heap_expand.simps) simp
      ultimately show ?thesis using less.prems by blast
    next
      case ok: False
      let ?m1 = "(mach h)\<lparr>pmm := P\<rparr>"
      obtain rc m' where map: "paging64_map (of_nat (heap_end h)) (of_nat phys) (PAGE64_PRESENT OR PAGE64_WRITE) ?m1 = Some (rc, m')"
        and post: "if rc = PAGING64_OK then heap_mach m' \<and> heap_backed m' (heap_end h + 4096)
          else heap_mach (m'\<lparr>pmm := pmm64_free_frame phys (pmm m')\<rparr>) \<and> heap_backed (m'\<lparr>pmm := pmm64_free_frame phys (pmm m')\<rparr>) (heap_end h)"
        using expand_step [OF less.prems(1-5) alloc ok] by blast
      show ?thesis
      proof (cases "rc = PAGING64_OK")
        case False
        let ?m = "m'\<lparr>pmm := pmm64_free_frame phys (pmm m')\<rparr>"
        have "heap_expand new_end h = Some (False, h\<lparr>mach := ?m, heap_end := heap_end h\<rparr>)"
          using True alloc ok map False by (subst heap_expand.simps) simp
        then show ?thesis using post False less.prems by (intro exI [of _ False] exI [of _ ?m] exI [of _ "heap_end h"]) simp
      next
        case rc: True
        let ?h = "h\<lparr>mach := m', heap_end := heap_end h + 4096\<rparr>"
        have le: "heap_end h + 4096 \<le> new_end" using True less.prems(5,7) by (auto elim!: dvdE)
        have lim: "heap_end h + 4096 < 2 ^ 64" using less.prems(4) by (simp add: KHEAP64_BASE_def KHEAP64_MAX_SIZE_def)
        have step: "heap_expand new_end h = heap_expand new_end ?h"
          using True alloc ok map rc lim by (subst heap_expand.simps) (simp add: add64_small PAGE_BYTES_def)
        have "\<exists>ok m e. heap_expand new_end ?h = Some (ok, ?h\<lparr>mach := m, heap_end := e\<rparr>)
           \<and> heap_mach m \<and> heap_backed m e \<and> heap_end ?h \<le> e \<and> 4096 dvd e \<and> (e \<le> heap_end ?h \<or> e \<le> new_end)
           \<and> (ok \<longrightarrow> new_end \<le> e)"
          using True le post rc less.prems by (intro less.hyps) auto
        then obtain ok m e where r: "heap_expand new_end ?h = Some (ok, ?h\<lparr>mach := m, heap_end := e\<rparr>)"
          "heap_mach m" "heap_backed m e" "heap_end ?h \<le> e" "4096 dvd e" "e \<le> heap_end ?h \<or> e \<le> new_end" "ok \<longrightarrow> new_end \<le> e"
          by blast
        then show ?thesis unfolding step using le by (intro exI [of _ ok] exI [of _ m] exI [of _ e]) auto
      qed
    qed
  qed
qed

text \<open>The heap together with the machine it grows from.\<close>

definition heap_full :: "kheap \<Rightarrow> nat list \<Rightarrow> nat list \<Rightarrow> nat \<Rightarrow> bool" where
  "heap_full h bs fs s \<longleftrightarrow> heap_inv h bs fs s \<and> heap_mach (mach h) \<and> heap_backed (mach h) (heap_end h)"

lemma append_block:
  fixes m :: machine
  assumes wf: "heap_wf h bs fs s" and tie: "set fs = {b \<in> set bs. \<not> uses h b}"
    and co: "successively (\<lambda>x y. uses h x \<or> uses h y) bs"
    and e: "heap_end h + 48 \<le> e" "4096 dvd e" "e \<le> KHEAP64_BASE + KHEAP64_MAX_SIZE"
  defines "b \<equiv> heap_end h"
  defines "h2 \<equiv> blk_upd b (\<lambda>x. x\<lparr>bsize := e - b - 32, used := False, prev := heap_tail h, nxt := 0\<rparr>) (h\<lparr>mach := m, heap_end := e\<rparr>)"
  defines "h3 \<equiv> (if heap_tail h2 \<noteq> 0 then blk_upd (heap_tail h2) (\<lambda>x. x\<lparr>nxt := b\<rparr>) h2 else h2\<lparr>heap_head := b\<rparr>)"
  defines "h4 \<equiv> freelist_insert b (h3\<lparr>heap_tail := b\<rparr>)"
  shows "heap_wf h4 (bs @ [b]) (b # fs) s" and "set (b # fs) = {a \<in> set (bs @ [b]). \<not> uses h4 a}"
    and "\<forall>a. a \<noteq> b \<longrightarrow> uses h4 a = uses h a \<and> szs h4 a = szs h a" and "\<not> uses h4 b" and "b \<notin> set bs"
    and "heap_end h4 = e" and "mach h4 = m"
proof -
  define k where "k = h3\<lparr>heap_tail := b\<rparr>"
  have d: "dls (nxs h) (pvs h) 0 bs 0" and t: "tiles (szs h) s bs b" and ht: "heap_tail h = last_or 0 bs"
    using wf by (auto simp: heap_wf_def b_def)
  have n0: "0 \<notin> set bs" by (rule heap_wfD(1) [OF wf])
  show bn: "b \<notin> set bs" using heap_wfD(6) [OF wf, of b] by (auto simp: b_def)
  have b0: "b \<noteq> 0" using wf tiles_le [OF t] by (auto simp: heap_wf_def KHEAP64_BASE_def)
  have l0: "bs \<noteq> [] \<Longrightarrow> last bs \<noteq> 0" using n0 last_in_set by metis
  have lb: "last_or 0 bs \<noteq> b" using bn b0 last_or_in [of bs 0] by (cases "bs = []") auto
  have f: "nxs k a = (if bs \<noteq> [] \<and> a = last bs then b else if a = b then 0 else nxs h a)"
    "pvs k a = (if a = b then last_or 0 bs else pvs h a)" "szs k a = (if a = b then e - b - 32 else szs h a)"
    "uses k a = (a \<noteq> b \<and> uses h a)" "fnxs k a = fnxs h a" "fpvs k a = fpvs h a"
    "heap_head k = (if bs = [] then b else heap_head h)" "heap_tail k = b" "free_head k = free_head h" "heap_end k = e" "mach k = m" for a
    using l0 lb by (auto simp: k_def h3_def h2_def ht last_or_def)
  have "dls (nxs k) (pvs k) 0 (bs @ b # []) 0"
  proof (rule dls_insert)
    show "dls (nxs h) (pvs h) 0 (bs @ []) 0" using d by simp
    show "distinct (bs @ [b])" using heap_wfD(3) [OF wf] bn by simp
  qed (use bn b0 lb in \<open>auto simp: f last_or_def\<close>)
  moreover have "dls (fnxs k) (fpvs k) 0 fs 0" using wf f by (simp add: heap_wf_def)
  moreover have "tiles (szs k) s (bs @ [b]) e"
  proof -
    have "tiles (szs k) s bs b" using t bn by (subst tiles_cong [of bs _ "szs h"]) (auto simp: f)
    moreover have "16 dvd e - b - 32" using e(2) wf by (intro dvd_diff_nat) (auto simp: heap_wf_def b_def elim: dvd_trans [rotated])
    ultimately show ?thesis using e(1) by (auto simp: tiles_append f b_def)
  qed
  ultimately have "heap_wf k (bs @ [b]) fs s"
    using wf e f by (auto simp: heap_wf_def hd_or_def)
  then show "heap_wf h4 (bs @ [b]) (b # fs) s"
    unfolding h4_def k_def [symmetric] using bn heap_wfD(5) [OF wf] by (intro freelist_insert_wf) auto
  have u: "uses h4 a = (a \<noteq> b \<and> uses h a)" "szs h4 a = (if a = b then e - b - 32 else szs h a)" for a
    using f by (simp_all add: h4_def k_def [symmetric])
  then show "\<forall>a. a \<noteq> b \<longrightarrow> uses h4 a = uses h a \<and> szs h4 a = szs h a" "\<not> uses h4 b" by auto
  show "set (b # fs) = {a \<in> set (bs @ [b]). \<not> uses h4 a}" using tie bn by (auto simp: u)
  show "heap_end h4 = e" "mach h4 = m" using f by (simp_all add: h4_def k_def [symmetric])
qed

lemma align_up_ok:
  assumes "0 < a" and "v + a \<le> 2 ^ 64"
  shows "a dvd align_up v a \<and> v \<le> align_up v a \<and> align_up v a < v + a"
proof -
  have x: "add64 v (a - 1) = v + (a - 1)" using assms by (intro add64_small) simp
  have "align_up v a = (v + (a - 1)) div a * a"
    unfolding align_up_def Let_def x by (simp add: minus_mod_eq_div_mult)
  moreover have "v \<le> (v + (a - 1)) div a * a \<and> (v + (a - 1)) div a * a < v + a"
    using assms(1) div_mult_mod_eq [of "v + (a - 1)" a] mod_less_divisor [of a "v + (a - 1)"]
    by linarith
  ultimately show ?thesis by (metis dvd_triv_right)
qed

lemma grow_ok:
  assumes full: "heap_full h bs fs s" and w: "16 \<le> w" "w \<le> 2 ^ 46"
  shows "\<exists>ok h' bs' fs'. grow w h = Some (ok, h') \<and> heap_full h' bs' fs' s \<and> live h' bs' = live h bs"
proof -
  have inv: "heap_inv h bs fs s" and hm: "heap_mach (mach h)" and hb: "heap_backed (mach h) (heap_end h)"
    using full by (auto simp: heap_full_def)
  have wf: "heap_wf h bs fs s" and tie: "set fs = {b \<in> set bs. \<not> uses h b}"
    and co: "successively (\<lambda>x y. uses h x \<or> uses h y) bs" using inv by (auto simp: heap_inv_def)
  let ?want = "align_up (add64 BLOCK_BYTES w) PAGE_BYTES"
  have a32: "add64 BLOCK_BYTES w = 32 + w" using w by (simp add: add64_small BLOCK_BYTES_def)
  have want: "4096 dvd ?want" "32 + w \<le> ?want" "?want < 32 + w + 4096"
    using align_up_ok [of 4096 "32 + w"] w by (simp_all add: a32 PAGE_BYTES_def)
  have en: "KHEAP64_BASE \<le> heap_end h" "heap_end h \<le> KHEAP64_BASE + KHEAP64_MAX_SIZE" "4096 dvd heap_end h"
    using wf tiles_le [of "szs h" s bs "heap_end h"] by (auto simp: heap_wf_def)
  have sum: "add64 (heap_end h) ?want = heap_end h + ?want"
    using en(2) want(3) w(2) by (intro add64_small) (simp add: KHEAP64_BASE_def KHEAP64_MAX_SIZE_def)
  have c48: "BLOCK_BYTES + MIN_PAYLOAD = 48" by (simp add: BLOCK_BYTES_def MIN_PAYLOAD_def)
  show ?thesis
  proof (cases "heap_end h + ?want > KHEAP64_BASE + KHEAP64_MAX_SIZE")
    case True
    then have "grow w h = Some (False, h)" by (simp add: grow_def sum Let_def)
    then show ?thesis using full by blast
  next
    case False
    then have lim: "heap_end h + ?want \<le> KHEAP64_BASE + KHEAP64_MAX_SIZE" by simp
    obtain ok m e where ex: "heap_expand (heap_end h + ?want) h = Some (ok, h\<lparr>mach := m, heap_end := e\<rparr>)"
      and m: "heap_mach m" "heap_backed m e" and e: "heap_end h \<le> e" "4096 dvd e"
        "e \<le> heap_end h \<or> e \<le> heap_end h + ?want" "ok \<longrightarrow> heap_end h + ?want \<le> e"
      using heap_expand_ok [OF hm hb en lim] en(3) want(1) by auto
    have e2: "e \<le> KHEAP64_BASE + KHEAP64_MAX_SIZE" using e(3) lim en(2) by auto
    have sub: "sub64 e (heap_end h) = e - heap_end h" using e(1) e2
      by (intro sub64_exact) (simp_all add: KHEAP64_BASE_def KHEAP64_MAX_SIZE_def)
    show ?thesis
    proof (cases "\<not> ok \<and> e - heap_end h < 48")
      case True
      then have "e = heap_end h" using e(1,2) en(3) by (auto elim!: dvdE)
      moreover have "grow w h = Some (False, h\<lparr>mach := m, heap_end := e\<rparr>)"
        using False True ex sub by (simp add: grow_def sum Let_def c48)
      moreover have "heap_full (h\<lparr>mach := m, heap_end := heap_end h\<rparr>) bs fs s"
        using inv m \<open>e = heap_end h\<close> by (simp add: heap_full_def heap_inv_def heap_wf_def)
      ultimately show ?thesis by (fastforce simp: live_def)
    next
      case grown: False
      have e48: "heap_end h + 48 \<le> e" using grown e(1,4) want(2) w(1) by auto
      define b where "b = heap_end h"
      define h1 where "h1 = h\<lparr>mach := m, heap_end := e\<rparr>"
      define h2 where "h2 = blk_upd b (\<lambda>x. x\<lparr>bsize := e - b - 32, used := False, prev := heap_tail h, nxt := 0\<rparr>) h1"
      define h3 where "h3 = (if heap_tail h2 \<noteq> 0 then blk_upd (heap_tail h2) (\<lambda>x. x\<lparr>nxt := b\<rparr>) h2 else h2\<lparr>heap_head := b\<rparr>)"
      define h4 where "h4 = freelist_insert b (h3\<lparr>heap_tail := b\<rparr>)"
      note bn = append_block(5) [OF wf tie co e48 e(2) e2, folded b_def]
      note ab = append_block(1-4,6,7) [OF wf tie co e48 e(2) e2, where m = m, folded b_def, folded h1_def, folded h2_def, folded h3_def, folded h4_def]
      define p where "p = pvs h4 b"
      define h5 where "h5 = (if p \<noteq> 0 \<and> \<not> uses h4 p \<and> adjacent p b h4 then merge_next p h4 else h4)"
      have co4: "successively (\<lambda>x y. uses h4 x \<or> uses h4 y) bs"
        using co ab(3) bn by (auto elim!: successively_mono)
      obtain bs' fs' where h5: "heap_inv h5 bs' fs' s" "{a \<in> set bs'. uses h5 a} = {a \<in> set (bs @ [b]). uses h4 a}"
          "\<forall>a. uses h4 a \<longrightarrow> szs h5 a = szs h4 a" "\<forall>a. uses h5 a = uses h4 a" "heap_end h5 = heap_end h4" "mach h5 = mach h4"
        using coalesce_prev [OF ab(1,2,4) co4, folded p_def, folded h5_def] by auto
      have g: "grow w h = Some (True, h5)"
      proof -
        have s2: "sub64 (sub64 e b) BLOCK_BYTES = e - b - 32"
          using sub e48 e2 by (simp add: b_def BLOCK_BYTES_def sub64_exact KHEAP64_BASE_def KHEAP64_MAX_SIZE_def)
        have ng: "\<not> (\<not> ok \<and> sub64 (heap_end h1) b < BLOCK_BYTES + MIN_PAYLOAD)"
          using grown sub by (auto simp: h1_def b_def BLOCK_BYTES_def MIN_PAYLOAD_def)
        have h1f: "heap_end h1 = e" "heap_tail h1 = heap_tail h" by (simp_all add: h1_def)
        show ?thesis
          unfolding grow_def Let_def sum if_not_P [OF False] ex [folded h1_def] Option.bind.bind_lunit prod.case
          unfolding b_def [symmetric] if_not_P [OF ng] unfolding h1f s2 unfolding h2_def [symmetric]
          unfolding h3_def [symmetric] unfolding h4_def [symmetric] unfolding p_def [symmetric]
          unfolding h5_def [symmetric] ..
      qed
      have "(a, k) \<in> live h5 bs' \<longleftrightarrow> (a, k) \<in> live h bs" for a k
      proof -
        have "a \<in> set bs' \<and> uses h5 a \<longleftrightarrow> a \<in> set (bs @ [b]) \<and> uses h4 a" using h5(2) by blast
        then show ?thesis using h5(3,4) ab(3,4) bn by (auto simp: live_I)
      qed
      then have "live h5 bs' = live h bs" by auto
      moreover have "heap_full h5 bs' fs' s" using h5 ab(5,6) m by (simp add: heap_full_def)
      ultimately show ?thesis using g by blast
    qed
  qed
qed

section \<open>The heap as an allocator\<close>

lemma heap_full_taken:
  assumes "heap_full h bs fs s" and "taken want h bs s b h'"
  shows "\<exists>bs' fs' k. heap_full h' bs' fs' s \<and> want \<le> k \<and> k < want + 48
     \<and> live h' bs' = insert (b, k) (live h bs) \<and> b \<notin> fst ` live h bs"
  using assms unfolding taken_def heap_full_def by metis

lemma heap_full_stat [simp]:
  "heap_full (h\<lparr>stat_steps := n\<rparr>) bs fs s = heap_full h bs fs s" "heap_full (h\<lparr>stat_calls := n\<rparr>) bs fs s = heap_full h bs fs s"
  "heap_full (h\<lparr>heap_double_frees := n\<rparr>) bs fs s = heap_full h bs fs s"
  by (simp_all add: heap_full_def)

text \<open>Searching and taking: first fit in the order of the free list.\<close>

lemma search_take:
  assumes full: "heap_full h bs fs s" and want: "16 \<le> want" "16 dvd want"
  shows "\<exists>b h1. search (free_head h) want h = Some (b, h1) \<and> heap_full h1 bs fs s \<and> live h1 bs = live h bs
    \<and> (b = 0 \<longleftrightarrow> (\<forall>b \<in> set fs. szs h b < want))
    \<and> (b \<noteq> 0 \<longrightarrow> fst (take_block b want h1) = b + 32 \<and> taken want h1 bs s b (snd (take_block b want h1)))"
proof -
  have inv: "heap_inv h bs fs s" and wf: "heap_wf h bs fs s" using full by (auto simp: heap_full_def heap_inv_def)
  have fh: "free_head h = hd_or 0 fs" and d: "dls (fnxs h) (fpvs h) 0 fs 0" using wf by (auto simp: heap_wf_def)
  define r where "r = find (\<lambda>b. want \<le> szs h b) fs"
  obtain n where sr: "search (free_head h) want h = Some (case r of Some b \<Rightarrow> b | None \<Rightarrow> 0, h\<lparr>stat_steps := n\<rparr>)"
    using search_finds [OF d, of want] by (auto simp: fh r_def)
  show ?thesis
  proof (cases r)
    case None
    then have "\<forall>b \<in> set fs. szs h b < want" by (auto simp: r_def find_None_iff)
    then show ?thesis using sr None full by simp
  next
    case (Some b)
    then have b: "b \<in> set fs" "want \<le> szs h b" by (auto simp: r_def find_Some_iff)
    then have "b \<noteq> 0" using heap_wfD(2) [OF wf] by metis
    moreover have "\<not> (\<forall>b \<in> set fs. szs h b < want)" using b by (auto simp: not_less)
    moreover have "fst (take_block b want (h\<lparr>stat_steps := n\<rparr>)) = b + 32
        \<and> taken want (h\<lparr>stat_steps := n\<rparr>) bs s b (snd (take_block b want (h\<lparr>stat_steps := n\<rparr>)))"
      using take_block_ok [of "h\<lparr>stat_steps := n\<rparr>" bs fs s b want] inv b want by simp
    ultimately show ?thesis using sr Some full by simp
  qed
qed

lemma kmalloc_want:
  assumes "0 < sz" and "sz \<le> 2 ^ 45"
  defines "want \<equiv> align_up (if sz < MIN_PAYLOAD then MIN_PAYLOAD else sz) KHEAP64_ALIGN"
  shows "16 \<le> want" and "16 dvd want" and "sz \<le> want" and "want \<le> 2 ^ 46" and "want < sz + 16"
proof -
  let ?v = "if sz < MIN_PAYLOAD then MIN_PAYLOAD else sz"
  have "16 dvd want \<and> ?v \<le> want \<and> want < ?v + 16"
    using align_up_ok [of 16 ?v] assms(2) by (simp add: want_def KHEAP64_ALIGN_def MIN_PAYLOAD_def)
  moreover have "16 \<le> ?v" "sz \<le> ?v" "?v \<le> 2 ^ 45" using assms(2) by (simp_all add: MIN_PAYLOAD_def)
  moreover have "sz < 16 \<Longrightarrow> want = 16" using calculation by (auto simp: MIN_PAYLOAD_def elim!: dvdE)
  ultimately show "16 \<le> want" "16 dvd want" "sz \<le> want" "want \<le> 2 ^ 46" "want < sz + 16"
    using assms(1) by (auto simp: MIN_PAYLOAD_def split: if_splits)
qed

lemma kmalloc_ok:
  assumes full: "heap_full h bs fs s" and sz: "0 < sz" "sz \<le> 2 ^ 45"
  shows "\<exists>p h' bs' fs'. kmalloc64 sz h = Some (p, h') \<and> heap_full h' bs' fs' s
     \<and> (p = 0 \<and> live h' bs' = live h bs
        \<or> (\<exists>b k. p = b + 32 \<and> sz \<le> k \<and> k < sz + 64 \<and> live h' bs' = insert (b, k) (live h bs) \<and> b \<notin> fst ` live h bs))
     \<and> (\<forall>b \<in> set fs. sz + 16 \<le> szs h b \<longrightarrow> p \<noteq> 0)"
proof -
  define want where "want = align_up (if sz < MIN_PAYLOAD then MIN_PAYLOAD else sz) KHEAP64_ALIGN"
  note w = kmalloc_want [OF sz, folded want_def]
  define h0 where "h0 = h\<lparr>stat_calls := add64 (stat_calls h) 1\<rparr>"
  have f0: "heap_full h0 bs fs s" "live h0 bs = live h bs" "\<And>a. szs h0 a = szs h a" using full by (simp_all add: h0_def)
  obtain b1 h1 where s1: "search (free_head h0) want h0 = Some (b1, h1)" "heap_full h1 bs fs s" "live h1 bs = live h0 bs"
      "b1 = 0 \<longleftrightarrow> (\<forall>b \<in> set fs. szs h0 b < want)"
      "b1 \<noteq> 0 \<longrightarrow> fst (take_block b1 want h1) = b1 + 32 \<and> taken want h1 bs s b1 (snd (take_block b1 want h1))"
    using search_take [OF f0(1) w(1,2)] by blast
  have nz: "\<not> sz = 0" using sz(1) by simp
  have km: "kmalloc64 sz h = (if b1 \<noteq> 0 then Some (take_block b1 want h1) else do {
           (ok, h) \<leftarrow> grow want h1;
           if \<not> ok then Some (0, h)
           else do {
             (b, h) \<leftarrow> search (free_head h) want h;
             if b \<noteq> 0 then Some (take_block b want h) else Some (0, h)
           }})"
    unfolding kmalloc64_def Let_def
    unfolding want_def [symmetric] h0_def [symmetric] if_not_P [OF nz] s1(1) Option.bind.bind_lunit prod.case ..
  show ?thesis
  proof (cases "b1 = 0")
    case False
    then have t: "fst (take_block b1 want h1) = b1 + 32" "taken want h1 bs s b1 (snd (take_block b1 want h1))" using s1(5) by auto
    obtain bs' fs' k where k: "heap_full (snd (take_block b1 want h1)) bs' fs' s" "want \<le> k" "k < want + 48"
        "live (snd (take_block b1 want h1)) bs' = insert (b1, k) (live h bs)" "b1 \<notin> fst ` live h bs"
      using heap_full_taken [OF s1(2) t(2)] s1(3) f0(2) by auto
    have "kmalloc64 sz h = Some (b1 + 32, snd (take_block b1 want h1))"
      using km False t(1) by (metis prod.collapse)
    moreover have "sz \<le> k" "k < sz + 64" using k(2,3) w(3,5) by auto
    ultimately show ?thesis using k(1,4,5) by (intro exI conjI disjI2) (assumption | simp)+
  next
    case none: True
    then have small: "\<forall>b \<in> set fs. \<not> sz + 16 \<le> szs h b" using s1(4) f0(3) w(5) by fastforce
    obtain ok h2 bs2 fs2 where g: "grow want h1 = Some (ok, h2)" "heap_full h2 bs2 fs2 s" "live h2 bs2 = live h1 bs"
      using grow_ok [OF s1(2) w(1,4)] by blast
    have l2: "live h2 bs2 = live h bs" using g(3) s1(3) f0(2) by simp
    show ?thesis
    proof (cases ok)
      case False
      then have "kmalloc64 sz h = Some (0, h2)" using km none g(1) by simp
      then show ?thesis using g(2) l2 small by blast
    next
      case True
      obtain b3 h3 where s3: "search (free_head h2) want h2 = Some (b3, h3)" "heap_full h3 bs2 fs2 s" "live h3 bs2 = live h2 bs2"
          "b3 \<noteq> 0 \<longrightarrow> fst (take_block b3 want h3) = b3 + 32 \<and> taken want h3 bs2 s b3 (snd (take_block b3 want h3))"
        using search_take [OF g(2) w(1,2)] by blast
      show ?thesis
      proof (cases "b3 = 0")
        case b0: True
        then have "kmalloc64 sz h = Some (0, h3)" using km none g(1) True s3(1) by simp
        then show ?thesis using s3(2,3) l2 small by metis
      next
        case b3: False
        then have t: "fst (take_block b3 want h3) = b3 + 32" "taken want h3 bs2 s b3 (snd (take_block b3 want h3))" using s3(4) by auto
        obtain bs' fs' k where k: "heap_full (snd (take_block b3 want h3)) bs' fs' s" "want \<le> k" "k < want + 48"
            "live (snd (take_block b3 want h3)) bs' = insert (b3, k) (live h bs)" "b3 \<notin> fst ` live h bs"
          using heap_full_taken [OF s3(2) t(2)] s3(3) l2 by auto
        have "kmalloc64 sz h = Some (b3 + 32, snd (take_block b3 want h3))"
          using km none g(1) True s3(1) b3 t(1) by simp (metis prod.collapse)
        moreover have "sz \<le> k" "k < sz + 64" using k(2,3) w(3,5) by auto
        ultimately show ?thesis using k(1,4,5) by (intro exI conjI disjI2) (assumption | simp)+
      qed
    qed
  qed
qed

lemma kheap64_init_ok:
  assumes hm: "heap_mach (mach h0)"
  shows "\<exists>h bs fs s. kheap64_init h0 = Some h \<and> heap_full h bs fs s \<and> live h bs = {}"
proof -
  define h1 where "h1 = h0\<lparr>heap_head := 0, heap_tail := 0, free_head := 0, heap_end := KHEAP64_BASE,
                  stat_steps := 0, stat_calls := 0, heap_double_frees := 0\<rparr>"
  have b: "KHEAP64_BASE \<le> heap_end h1" "heap_end h1 \<le> KHEAP64_BASE + KHEAP64_MAX_SIZE" "4096 dvd heap_end h1"
    "KHEAP64_BASE + KHEAP64_INITIAL \<le> KHEAP64_BASE + KHEAP64_MAX_SIZE" "4096 dvd KHEAP64_BASE + KHEAP64_INITIAL"
    by (simp_all add: h1_def KHEAP64_BASE_def KHEAP64_MAX_SIZE_def KHEAP64_INITIAL_def)
  have "heap_pages KHEAP64_BASE = {}" by (auto simp: heap_pages_def)
  then have hb: "heap_backed (mach h1) (heap_end h1)" by (simp add: heap_backed_def h1_def)
  have hm1: "heap_mach (mach h1)" using hm by (simp add: h1_def)
  obtain ok m e where ex: "heap_expand (KHEAP64_BASE + KHEAP64_INITIAL) h1 = Some (ok, h1\<lparr>mach := m, heap_end := e\<rparr>)"
    and m: "heap_mach m" "heap_backed m e" and e: "KHEAP64_BASE \<le> e" "4096 dvd e"
      "e \<le> KHEAP64_BASE + KHEAP64_INITIAL" "ok \<longrightarrow> KHEAP64_BASE + KHEAP64_INITIAL \<le> e"
    using heap_expand_ok [OF hm1 hb b] by (auto simp: h1_def)
  show ?thesis
  proof (cases ok)
    case False
    let ?h = "h1\<lparr>mach := m, heap_end := e\<rparr>"
    have "kheap64_init h0 = Some ?h"
      using ex False by (simp add: kheap64_init_def Let_def h1_def [symmetric])
    moreover have "heap_full ?h [] [] e"
      using m e b(4) by (auto simp: heap_full_def heap_inv_def heap_wf_def h1_def elim: dvd_trans [rotated])
    moreover have "live ?h [] = {}" by (simp add: live_def)
    ultimately show ?thesis by blast
  next
    case True
    then have ee: "e = KHEAP64_BASE + KHEAP64_INITIAL" using e by simp
    let ?b = "KHEAP64_BASE"
    define h2 where "h2 = (blk_upd ?b (\<lambda>x. x\<lparr>bsize := 65504, used := False, prev := 0, nxt := 0\<rparr>)
       (h1\<lparr>mach := m, heap_end := e, heap_head := ?b\<rparr>))\<lparr>heap_tail := ?b\<rparr>"
    have sz: "sub64 (sub64 e ?b) BLOCK_BYTES = 65504"
      by (simp add: ee sub64_def KHEAP64_BASE_def KHEAP64_INITIAL_def BLOCK_BYTES_def)
    have ne: "e \<noteq> ?b" by (simp add: ee KHEAP64_INITIAL_def)
    have "kheap64_init h0 = Some (freelist_insert ?b h2)"
      using ex True ne by (simp add: kheap64_init_def Let_def h1_def [symmetric] sz h2_def blk_upd_def)
    moreover have "heap_wf h2 [?b] [] ?b"
      using b(4) e(2) by (auto simp: heap_wf_def h2_def h1_def ee KHEAP64_BASE_def KHEAP64_INITIAL_def KHEAP64_MAX_SIZE_def)
    then have "heap_wf (freelist_insert ?b h2) [?b] [?b] ?b" by (rule freelist_insert_wf) simp_all
    moreover have "\<not> uses (freelist_insert ?b h2) ?b" by (simp add: h2_def)
    ultimately show ?thesis
      using m by (intro exI [of _ "freelist_insert ?b h2"] exI [of _ "[?b]"] exI [of _ ?b])
        (auto simp: heap_full_def heap_inv_def live_def h2_def)
  qed
qed

text \<open>The state of the heap as its clients see it: the set of pointers handed out and not yet
  taken back, each with the size behind it.\<close>

definition kheap_state :: "kheap \<Rightarrow> (nat \<times> nat) set \<Rightarrow> bool" where
  "kheap_state h A \<longleftrightarrow> (\<exists>bs fs s. heap_full h bs fs s \<and> A = (\<lambda>(b, k). (b + 32, k)) ` live h bs)"

lemma kheap_state_apart:
  assumes "kheap_state h A" and "(p, k) \<in> A" and "(q, l) \<in> A"
  shows "p < q \<Longrightarrow> p + k + 32 \<le> q" and "p = q \<Longrightarrow> k = l"
    and "KHEAP64_BASE + 32 \<le> p \<and> p + k \<le> heap_end h \<and> 16 dvd p"
proof -
  obtain bs fs s where f: "heap_full h bs fs s" and A: "A = (\<lambda>(b, k). (b + 32, k)) ` live h bs"
    using assms(1) by (auto simp: kheap_state_def)
  have wf: "heap_wf h bs fs s" using f by (simp add: heap_full_def heap_inv_def)
  then have t: "tiles (szs h) s bs (heap_end h)" and s: "16 dvd s" by (auto simp: heap_wf_def)
  obtain b c where b: "p = b + 32" "b \<in> set bs" "k = szs h b" and c: "q = c + 32" "c \<in> set bs" "l = szs h c"
    using assms(2,3) by (auto simp: A live_def)
  show "p < q \<Longrightarrow> p + k + 32 \<le> q" using tiles_apart [OF t b(2) c(2)] b c by simp
  show "p = q \<Longrightarrow> k = l" using b c by simp
  show "KHEAP64_BASE + 32 \<le> p \<and> p + k \<le> heap_end h \<and> 16 dvd p"
    using heap_wfD(6) [OF wf b(2)] b tiles_aligned [OF t s b(2)] by (auto intro: dvd_add)
qed

lemma kheap_state_malloc:
  assumes "kheap_state h A" and "0 < n" and "n \<le> 2 ^ 45"
  shows "\<exists>p h'. kmalloc64 n h = Some (p, h')
     \<and> (p = 0 \<and> kheap_state h' A
        \<or> p \<noteq> 0 \<and> p \<notin> fst ` A \<and> (\<exists>k \<ge> n. kheap_state h' (insert (p, k) A)))"
proof -
  obtain bs fs s where f: "heap_full h bs fs s" and A: "A = (\<lambda>(b, k). (b + 32, k)) ` live h bs"
    using assms(1) by (auto simp: kheap_state_def)
  obtain p h' bs' fs' where r: "kmalloc64 n h = Some (p, h')" "heap_full h' bs' fs' s"
      "p = 0 \<and> live h' bs' = live h bs
        \<or> (\<exists>b k. p = b + 32 \<and> n \<le> k \<and> k < n + 64 \<and> live h' bs' = insert (b, k) (live h bs) \<and> b \<notin> fst ` live h bs)"
    using kmalloc_ok [OF f assms(2,3)] by blast
  from r(3) show ?thesis
  proof (elim disjE conjE exE)
    assume "p = 0" "live h' bs' = live h bs"
    then show ?thesis using r(1,2) A by (auto simp: kheap_state_def)
  next
    fix b k
    assume b: "p = b + 32" "n \<le> k" "live h' bs' = insert (b, k) (live h bs)" "b \<notin> fst ` live h bs"
    have "kheap_state h' (insert (p, k) A)"
      unfolding kheap_state_def using r(2) b(1,3) A by (intro exI [of _ bs'] exI [of _ fs'] exI [of _ s]) simp
    moreover have "p \<notin> fst ` A" using b(1,4) by (force simp: A)
    ultimately show ?thesis using r(1) b(1,2) by auto
  qed
qed

lemma kheap_state_free:
  assumes "kheap_state h A" and "(p, k) \<in> A"
  shows "kheap_state (kfree64 p h) (A - {(p, k)})"
proof -
  obtain bs fs s where f: "heap_full h bs fs s" and A: "A = (\<lambda>(b, k). (b + 32, k)) ` live h bs"
    using assms(1) by (auto simp: kheap_state_def)
  obtain b where b: "p = b + 32" "b \<in> set bs" "uses h b" "k = szs h b" using assms(2) by (auto simp: A live_def)
  obtain bs' fs' where r: "heap_inv (kfree64 p h) bs' fs' s" "live (kfree64 p h) bs' = live h bs - {(b, szs h b)}"
      "heap_end (kfree64 p h) = heap_end h" "mach (kfree64 p h) = mach h"
    using kfree_ok [of h bs fs s b] f b by (auto simp: heap_full_def)
  have "heap_full (kfree64 p h) bs' fs' s" using r f by (simp add: heap_full_def)
  moreover have "A - {(p, k)} = (\<lambda>(b, k). (b + 32, k)) ` live (kfree64 p h) bs'"
    unfolding r(2) A using b(1,4) by auto
  ultimately show ?thesis by (auto simp: kheap_state_def)
qed

interpretation kheap: heap_allocator kheap_state kmalloc64 kfree64 "2 ^ 45"
proof unfold_locales
  fix s A n p k q l
  assume st: "kheap_state s A"
  show "0 < n \<Longrightarrow> n \<le> 2 ^ 45 \<Longrightarrow> \<exists>p s'. kmalloc64 n s = Some (p, s')
          \<and> (p = 0 \<and> kheap_state s' A \<or> p \<noteq> 0 \<and> p \<notin> fst ` A \<and> (\<exists>k \<ge> n. kheap_state s' (insert (p, k) A)))"
    by (rule kheap_state_malloc [OF st])
  show "(p, k) \<in> A \<Longrightarrow> kheap_state (kfree64 p s) (A - {(p, k)})" by (rule kheap_state_free [OF st])
  show "(p, k) \<in> A \<Longrightarrow> (q, l) \<in> A \<Longrightarrow> p < q \<Longrightarrow> p + k \<le> q" using kheap_state_apart(1) [OF st] by force
  show "(p, k) \<in> A \<Longrightarrow> (p, l) \<in> A \<Longrightarrow> k = l" using kheap_state_apart(2) [OF st] by blast
qed

section \<open>Requests too large to represent\<close>

lemma take_zero:
  assumes wf: "heap_wf h bs fs s" and b: "b \<in> set fs"
  shows "fst (take_block b 0 h) = b + 32" and "szs (snd (take_block b 0 h)) b \<le> szs h b"
proof -
  have bb: "b \<in> set bs" using b heap_wfD(5) [OF wf] by auto
  show "fst (take_block b 0 h) = b + 32" using payload_eq [OF wf bb] by (simp add: take_block_def)
  define r where "r = freelist_remove b h"
  have rs: "szs r b = szs h b" by (simp add: r_def)
  have z: "add64 0 x = x" if "x < 2 ^ 64" for x using that by (simp add: add64_small)
  have "szs (split b 0 r) b \<le> szs h b"
  proof (cases "szs r b < add64 (add64 0 BLOCK_BYTES) MIN_PAYLOAD")
    case False
    have "heap_wf r bs (remove1 b fs) s"
    proof -
      obtain us vs where fs: "fs = us @ b # vs" using b by (meson split_list)
      then have "remove1 b fs = us @ vs" using heap_wfD(4) [OF wf] by (auto simp: remove1_append)
      then show ?thesis using freelist_remove_wf [of h bs us b vs s] wf by (simp add: fs r_def)
    qed
    then obtain us vs where bs: "bs = us @ b # vs" and d: "dls (nxs r) (pvs r) 0 (us @ b # vs) 0"
      and t: "tiles (szs r) s (us @ b # vs) (heap_end r)"
      using bb split_list [of b bs] by (auto simp: heap_wf_def)
    have nb: "nxs r b = hd_or 0 vs" using d by (simp add: dls_append)
    have pb: "payload b = b + 32" by (rule payload_eq [OF wf bb])
    have lim: "b + 32 < 2 ^ 64" using heap_wfD(6) [OF wf bb] heap_wfD(7) [OF wf] by simp
    have r: "b + 32 = add64 (payload b) 0" using lim by (simp add: pb add64_small)
    have "hd vs = b + 32 + szs r b" if "vs \<noteq> []" using t that by (cases vs) (auto simp: tiles_append)
    moreover have "16 \<le> szs r b" using heap_wfD(6) [OF wf bb] rs by simp
    ultimately have ne: "b + 32 \<noteq> b" "nxs r b \<noteq> b" "nxs r b \<noteq> b + 32" "b + 32 \<noteq> 0"
      using heap_wfD(6) [OF wf bb] by (auto simp: nb hd_or_def KHEAP64_BASE_def)
    show ?thesis using split_fields(3) [OF False r ne, of b] by simp
  qed (simp add: split_def rs)
  then show "szs (snd (take_block b 0 h)) b \<le> szs h b" by (simp add: take_block_def r_def)
qed

section \<open>A small heap\<close>

definition kheap_zero :: kheap where
  "kheap_zero = \<lparr>heap_head = 0, heap_tail = 0, free_head = 0, heap_end = KHEAP64_BASE,
     blk = (\<lambda>_. \<lparr>bsize = 0, prev = 0, nxt = 0, used = False, fnext = 0, fprev = 0\<rparr>),
     stat_steps = 0, stat_calls = 0, heap_double_frees = 0, mach = machine_demo\<rparr>"

lemma kheap_zero_mach: "heap_mach (mach kheap_zero)"
  using machine_demo_inv machine_demo_private by (auto simp: heap_mach_def kheap_zero_def REC_def)

lemma kheap_zero_state: "kheap_state kheap_zero {}"
proof -
  have "heap_pages KHEAP64_BASE = {}" by (auto simp: heap_pages_def)
  then have "heap_full kheap_zero [] [] KHEAP64_BASE"
    using kheap_zero_mach
    by (simp add: heap_full_def heap_inv_def heap_wf_def heap_backed_def)
       (simp add: kheap_zero_def KHEAP64_BASE_def)
  then show ?thesis by (fastforce simp: kheap_state_def live_def)
qed

text \<open>One page of the heap as one free block.\<close>

definition kheap_page :: kheap where
  "kheap_page = kheap_zero\<lparr>heap_head := KHEAP64_BASE, heap_tail := KHEAP64_BASE, free_head := KHEAP64_BASE,
     heap_end := KHEAP64_BASE + 4096,
     blk := (blk kheap_zero)(KHEAP64_BASE := \<lparr>bsize = 4064, prev = 0, nxt = 0, used = False, fnext = 0, fprev = 0\<rparr>)\<rparr>"

lemma kheap_page_inv: "heap_inv kheap_page [KHEAP64_BASE] [KHEAP64_BASE] KHEAP64_BASE"
  by (auto simp: heap_inv_def heap_wf_def kheap_page_def KHEAP64_MAX_SIZE_def) (simp_all add: KHEAP64_BASE_def)

text \<open>The same page, used, over tables that really map it: frames 1 to 4 are the tables and frame
  5 the page.\<close>

definition machine_heap :: machine where
  "machine_heap = machine_demo\<lparr>mem := (\<lambda>_ _. 0)(1 := (\<lambda>_. 0)(510 := 0x1003, 288 := 0x2003),
     2 := (\<lambda>_. 0)(0 := 0x3003), 3 := (\<lambda>_. 0)(0 := 0x4003), 4 := (\<lambda>_. 0)(0 := 0x5003))\<rparr>"

lemma heap_entries [simp]: "bit (0x1003 :: u64) 0" "bit (0x2003 :: u64) 0" "bit (0x3003 :: u64) 0"
  "bit (0x4003 :: u64) 0" "bit (0x5003 :: u64) 0" "\<not> bit (0x1003 :: u64) 7" "\<not> bit (0x2003 :: u64) 7"
  "\<not> bit (0x3003 :: u64) 7" "\<not> bit (0x4003 :: u64) 7" "\<not> bit (0x5003 :: u64) 7"
  "frame_of 0x1003 = 1" "frame_of 0x2003 = 2" "frame_of 0x3003 = 3" "frame_of 0x4003 = 4" "frame_of 0x5003 = 5"
  by (simp_all add: bit_numeral_simps frame_of_def ADDR_MASK_def)

lemma machine_heap_root: "root machine_heap = 1"
  using machine_demo_root by (simp add: machine_heap_def)

lemma machine_heap_step:
  "tstep machine_heap f i = (if f = 1 \<and> i = 510 then Some 1 else if f = 1 \<and> i = 288 then Some 2
     else if f \<in> {2, 3, 4} \<and> i = 0 then Some (f + 1) else None)"
  by (auto simp: tstep_def machine_heap_def)

lemma machine_heap_paths:
  assumes "valid_path p"
  shows "tpath machine_heap p = (if p = take (length p) [288, 0, 0] then Some (length p + 1) else None)"
  using assms
proof (induction p rule: rev_induct)
  case (snoc j p)
  have p: "length p \<le> 2" "p = [] \<longrightarrow> j \<noteq> 510" using snoc.prems by (auto simp: valid_path_def)
  have "take (Suc (length p)) [288, 0, 0] = take (length p) [288, 0, 0] @ [[288, 0, 0] ! length p]"
    using p(1) by (subst take_Suc_conv_app_nth) simp_all
  moreover have "length p = 0 \<or> length p = 1 \<or> length p = 2" using p(1) by linarith
  ultimately show ?case
    using snoc.IH [OF valid_snoc [OF snoc.prems]] p(2) by (auto simp: machine_heap_step)
qed (simp add: machine_heap_root)

lemma machine_heap_mach: "heap_mach machine_heap"
proof -
  have d: "0 < owners (pmm machine_heap) f" if "f < 12" for f
    using pmm_demo_test [of f] that by (simp add: owners_def machine_heap_def machine_demo_def pmm_demo_def)
  have pm: "pmm machine_heap = pmm_demo" by (simp add: machine_heap_def machine_demo_def)
  have "paging_inv machine_heap"
    unfolding paging_inv_def self_ref_def machine_heap_root pm [symmetric]
    using d pmm_demo_live
    by (auto simp: machine_heap_paths pm valid_path_def split: if_splits)
       (auto simp: machine_heap_def machine_demo_def pmm_demo_def split: if_splits)
  moreover have "private_path machine_heap w" if w: "PML4_IDX w = 288" for w
  proof -
    have "valid_path (take k (path_of w))" for k using valid_path_of [of w k] w by (simp add: REC_def)
    then show ?thesis
      unfolding private_path_def by (auto simp: machine_heap_paths path_of_def split: if_splits)
  qed
  ultimately show ?thesis by (simp add: heap_mach_def)
qed

definition kheap_used_page :: kheap where
  "kheap_used_page = blk_upd KHEAP64_BASE (\<lambda>x. x\<lparr>used := True\<rparr>) (kheap_page\<lparr>free_head := 0, mach := machine_heap\<rparr>)"

lemma kheap_used_page_state: "kheap_state kheap_used_page {(KHEAP64_BASE + 32, 4064)}"
proof -
  have p: "heap_pages (KHEAP64_BASE + 4096) = {KHEAP64_BASE}"
  proof -
    have "a = KHEAP64_BASE" if a: "KHEAP64_BASE \<le> a" "a < KHEAP64_BASE + 4096" "4096 dvd a" for a
    proof -
      have "4096 dvd a - KHEAP64_BASE" using a by (simp add: KHEAP64_BASE_def dvd_diff_nat)
      moreover have "a - KHEAP64_BASE < 4096" using a by simp
      ultimately show ?thesis using a(1) by (auto dest: dvd_imp_le)
    qed
    then show ?thesis by (auto simp: heap_pages_def) (simp add: KHEAP64_BASE_def)
  qed
  have c: "canonical 0xFFFF900000000000" by (simp add: canonical_def mask_eq_exp_minus_1)
  have "mmu_frame machine_heap 0xFFFF900000000000 = Some 5"
    unfolding mmu_frame_def machine_heap_def machine_demo_def using c
    by (simp add: has_bit frame_of_def ADDR_MASK_def PML4_IDX_def PDPT_IDX_def PD_IDX_def PT_IDX_def bit_numeral_simps)
  moreover have "owners (pmm machine_heap) 5 > 0"
    using pmm_demo_test [of 5] by (simp add: owners_def machine_heap_def machine_demo_def pmm_demo_def)
  then have "data_frame machine_heap 5"
    by (auto simp: data_frame_def machine_heap_paths valid_path_def split: if_splits)
  ultimately have "heap_backed machine_heap (KHEAP64_BASE + 4096)"
    by (auto simp: heap_backed_def p) (auto simp: KHEAP64_BASE_def)
  moreover have "heap_inv kheap_used_page [KHEAP64_BASE] [] KHEAP64_BASE"
    using kheap_page_inv by (auto simp: heap_inv_def heap_wf_def kheap_used_page_def)
  ultimately have "heap_full kheap_used_page [KHEAP64_BASE] [] KHEAP64_BASE"
    using machine_heap_mach by (simp add: heap_full_def kheap_used_page_def kheap_page_def)
  moreover have "live kheap_used_page [KHEAP64_BASE] = {(KHEAP64_BASE, 4064)}"
    by (auto simp: live_def kheap_used_page_def kheap_page_def)
  ultimately show ?thesis unfolding kheap_state_def by (metis (no_types, lifting) case_prod_conv image_empty image_insert)
qed

section \<open>Properties\<close>

text \<open>C3: The kernel heap never hands out overlapping memory. Whatever sequence of requests (of
  up to 32TB each) and releases its clients make, each releasing only what it holds, every call
  returns, and any two regions held at the same time are disjoint.\<close>

theorem kheap64_regions_never_overlap:
  assumes "kheap_state h A" and "\<forall>n. HMalloc n \<in> set ops \<longrightarrow> 0 < n \<and> n \<le> 2 ^ 45"
  shows "\<exists>h' held. heap_run kmalloc64 kfree64 ops (h, []) = Some (h', held) \<and> distinct (map fst held)
     \<and> (\<forall>(p, n) \<in> set held. \<forall>(q, m) \<in> set held. p \<noteq> q \<longrightarrow> p + n \<le> q \<or> q + m \<le> p)"
  using kheap.regions_never_overlap [OF assms] by (simp add: apart_list_def)

theorem kheap64_regions_never_overlap_witness:
  "\<exists>h' held. heap_run kmalloc64 kfree64 [HMalloc 100, HMalloc 5000, HFree 0xFFFF900000000020, HMalloc 16] (kheap_zero, [])
     = Some (h', held) \<and> distinct (map fst held)"
  using kheap64_regions_never_overlap [OF kheap_zero_state,
      of "[HMalloc 100, HMalloc 5000, HFree 0xFFFF900000000020, HMalloc 16]"] by auto

text \<open>C4: \<open>kmalloc64\<close> returns (it neither loops nor faults) and keeps the whole structure of the
  heap: blocks tile the heap, both lists are linked both ways, the free list holds exactly the free
  blocks and no two neighbours are free. It gives a null pointer and changes no allocation, or a
  16-byte aligned block inside the heap, at least as long as asked and less than 64 bytes longer;
  and it does not fail while some free block has room for the request rounded up.\<close>

theorem kmalloc64_correct:
  assumes "heap_full h bs fs s" and "0 < n" and "n \<le> 2 ^ 45"
  shows "\<exists>p h' bs' fs'. kmalloc64 n h = Some (p, h') \<and> heap_full h' bs' fs' s
     \<and> (p = 0 \<and> live h' bs' = live h bs
        \<or> (\<exists>k. n \<le> k \<and> k < n + 64 \<and> 16 dvd p \<and> KHEAP64_BASE + 32 \<le> p \<and> p + k \<le> heap_end h'
             \<and> live h' bs' = insert (p - 32, k) (live h bs) \<and> p - 32 \<notin> fst ` live h bs))
     \<and> ((\<exists>b \<in> set fs. n + 16 \<le> bsize (blk h b)) \<longrightarrow> p \<noteq> 0)"
proof -
  obtain p h' bs' fs' where r: "kmalloc64 n h = Some (p, h')" "heap_full h' bs' fs' s"
     "p = 0 \<and> live h' bs' = live h bs
        \<or> (\<exists>b k. p = b + 32 \<and> n \<le> k \<and> k < n + 64 \<and> live h' bs' = insert (b, k) (live h bs) \<and> b \<notin> fst ` live h bs)"
     "\<forall>b \<in> set fs. n + 16 \<le> szs h b \<longrightarrow> p \<noteq> 0"
    using kmalloc_ok [OF assms] by blast
  have st: "kheap_state h' ((\<lambda>(b, k). (b + 32, k)) ` live h' bs')" using r(2) by (auto simp: kheap_state_def)
  from r(3) show ?thesis
  proof (elim disjE exE conjE)
    fix b k
    assume b: "p = b + 32" "n \<le> k" "k < n + 64" "live h' bs' = insert (b, k) (live h bs)" "b \<notin> fst ` live h bs"
    then have "(p, k) \<in> (\<lambda>(b, k). (b + 32, k)) ` live h' bs'" by auto
    from kheap_state_apart(3) [OF st this this]
    have "16 dvd p" "KHEAP64_BASE + 32 \<le> p" "p + k \<le> heap_end h'" by auto
    then have "\<exists>k. n \<le> k \<and> k < n + 64 \<and> 16 dvd p \<and> KHEAP64_BASE + 32 \<le> p \<and> p + k \<le> heap_end h'
        \<and> live h' bs' = insert (p - 32, k) (live h bs) \<and> p - 32 \<notin> fst ` live h bs" using b by auto
    then show ?thesis using r(1,2,4) by blast
  next
    assume "p = 0" "live h' bs' = live h bs"
    then show ?thesis using r(1,2,4) by blast
  qed
qed

theorem kmalloc64_correct_witness:
  "\<exists>p h'. kmalloc64 100 kheap_zero = Some (p, h')"
proof -
  obtain bs fs s where "heap_full kheap_zero bs fs s" using kheap_zero_state by (auto simp: kheap_state_def)
  from kmalloc64_correct [OF this, of 100] show ?thesis by auto
qed

text \<open>\<open>kfree64\<close> of a pointer handed out takes exactly that allocation back, whatever merging
  with its neighbours it does: every other allocation keeps its place and its size, and the whole
  structure of the heap, with no two free neighbours, holds again.\<close>

theorem kfree64_correct:
  assumes "heap_inv h bs fs s" and "b \<in> set bs" and "used (blk h b)"
  shows "\<exists>bs' fs'. heap_inv (kfree64 (b + 32) h) bs' fs' s
     \<and> live (kfree64 (b + 32) h) bs' = live h bs - {(b, bsize (blk h b))}"
  using kfree_ok [OF assms] by blast

theorem kfree64_correct_witness:
  "\<exists>bs' fs'. heap_inv (kfree64 (KHEAP64_BASE + 32) (blk_upd KHEAP64_BASE (\<lambda>x. x\<lparr>used := True\<rparr>) (kheap_page\<lparr>free_head := 0\<rparr>))) bs' fs' KHEAP64_BASE"
proof -
  let ?h = "blk_upd KHEAP64_BASE (\<lambda>x. x\<lparr>used := True\<rparr>) (kheap_page\<lparr>free_head := 0\<rparr>)"
  have "heap_inv ?h [KHEAP64_BASE] [] KHEAP64_BASE"
    using kheap_page_inv by (auto simp: heap_inv_def heap_wf_def)
  from kfree64_correct [OF this, of KHEAP64_BASE] show ?thesis by auto
qed



text \<open>\<open>kheap64_init\<close> always returns, and leaves a heap with no allocations whose structure is
  sound even when memory runs out while the first pages are being mapped.\<close>

theorem kheap64_init_correct:
  assumes "paging_inv (mach h0)" and "\<forall>w. PML4_IDX w = 288 \<longrightarrow> private_path (mach h0) w"
  shows "\<exists>h. kheap64_init h0 = Some h \<and> kheap_state h {}"
proof -
  have "heap_mach (mach h0)" using assms by (simp add: heap_mach_def)
  from kheap64_init_ok [OF this] show ?thesis unfolding kheap_state_def by (metis image_empty)
qed

theorem kheap64_init_correct_witness: "\<exists>h. kheap64_init kheap_zero = Some h \<and> kheap_state h {}"
  using kheap64_init_correct [of kheap_zero] kheap_zero_mach by (simp add: heap_mach_def)

text \<open>A request within 15 bytes of \<open>2^64\<close> wraps when it is rounded up and becomes a request for
  nothing: \<open>kmalloc64\<close> then returns the first free block as if it were large enough, instead of a
  null pointer.\<close>

theorem kmalloc64_wraps:
  assumes "heap_inv h bs fs s" and "fs \<noteq> []" and "2 ^ 64 - 16 < n" and "n < 2 ^ 64"
  shows "\<exists>p h'. kmalloc64 n h = Some (p, h') \<and> p = hd fs + 32 \<and> bsize (blk h' (hd fs)) < n"
proof -
  have wf: "heap_wf h bs fs s" using assms(1) by (simp add: heap_inv_def)
  define h0 where "h0 = h\<lparr>stat_calls := add64 (stat_calls h) 1\<rparr>"
  obtain x xs where fs: "fs = x # xs" using assms(2) by (cases fs) auto
  have want: "align_up (if n < MIN_PAYLOAD then MIN_PAYLOAD else n) KHEAP64_ALIGN = 0"
  proof -
    have "add64 n 15 = n + 15 - 2 ^ 64" using assms(3,4) by (simp add: add64_def mod_if)
    then show ?thesis using assms(3,4) by (auto simp: align_up_def KHEAP64_ALIGN_def MIN_PAYLOAD_def Let_def)
  qed
  have wf0: "heap_wf h0 bs fs s" using wf by (simp add: h0_def)
  have d: "dls (fnxs h0) (fpvs h0) 0 fs 0" "free_head h0 = hd_or 0 fs" using wf0 by (auto simp: heap_wf_def)
  obtain m where sr: "search (free_head h0) 0 h0 = Some (x, h0\<lparr>stat_steps := m\<rparr>)"
    using search_finds [OF d(1), of 0] by (auto simp: d(2) fs)
  have x: "x \<in> set fs" "x \<noteq> 0" using fs heap_wfD(2) [OF wf] by auto
  define h1 where "h1 = h0\<lparr>stat_steps := m\<rparr>"
  have wf1: "heap_wf h1 bs fs s" using wf0 by (simp add: h1_def)
  note t = take_zero [OF wf1 x(1)]
  have nz: "\<not> n = 0" using assms(3) by simp
  have "kmalloc64 n h = Some (take_block x 0 h1)"
    unfolding kmalloc64_def Let_def
    unfolding want h0_def [symmetric] if_not_P [OF nz] sr [folded h1_def] Option.bind.bind_lunit prod.case
    using x(2) by simp
  moreover have "szs h1 x < n"
    using heap_wfD(6) [OF wf1, of x] heap_wfD(5) [OF wf1] heap_wfD(7) [OF wf1] x(1) assms(3)
    by (auto simp: KHEAP64_BASE_def)
  ultimately show ?thesis using t fs by (metis le_less_trans list.sel(1) prod.collapse)
qed

theorem kmalloc64_wraps_witness:
  "\<exists>p h'. kmalloc64 0xFFFFFFFFFFFFFFFF kheap_page = Some (p, h') \<and> p = KHEAP64_BASE + 32"
  using kmalloc64_wraps [OF kheap_page_inv, of "0xFFFFFFFFFFFFFFFF"] by auto

end
