(* ===== verification/Initrd64.thy ===== *)
theory Initrd64
  imports KString Paging64
begin

text \<open>
  \<^verbatim>\<open>kernel/initrd64.c\<close>: the archive of files the boot loader puts in memory. The archive
  is read where it lies, so every operation takes the memory as the kernel sees it and works with
  addresses: a null pointer is 0, a structure is read field by field at the offsets of its packed
  layout. \<^verbatim>\<open>userland/mkinitrd.py\<close>, which writes the archives, is modelled as \<open>pack\<close>, and the
  main result is that what it packs is what the kernel finds.
\<close>

section \<open>State and layout\<close>

definition INITRD_MAGIC :: nat where "INITRD_MAGIC = 0x324C5453"
definition FILE_MAGIC :: nat where "FILE_MAGIC = 0xBEEFCAFE"
definition NAME_MAX :: nat where "NAME_MAX = 124"
definition MULTIBOOT_INFO_MODS :: u32 where "MULTIBOOT_INFO_MODS = 8"

datatype initrd_rc = INITRD64_OK | INITRD64_NO_MODULE | INITRD64_BAD_MAGIC

record initrd =
  archive :: nat
  files :: nat
  nfiles :: nat
  archive_len :: nat

definition rd32 :: "memory \<Rightarrow> nat \<Rightarrow> nat" where
  "rd32 m a = unat (m a) + 256 * unat (m (a + 1)) + 65536 * unat (m (a + 2)) + 16777216 * unat (m (a + 3))"

definition HEADER_BYTES :: nat where "HEADER_BYTES = 8"
definition FILE_BYTES :: nat where "FILE_BYTES = 4 + NAME_MAX + 4 + 4"

definition file_at :: "initrd \<Rightarrow> nat \<Rightarrow> nat" where
  "file_at st i = files st + i * FILE_BYTES"

definition f_magic :: "memory \<Rightarrow> nat \<Rightarrow> nat" where "f_magic m f = rd32 m f"
definition f_name :: "nat \<Rightarrow> nat" where "f_name f = f + 4"
definition f_offset :: "memory \<Rightarrow> nat \<Rightarrow> nat" where "f_offset m f = rd32 m (f + 4 + NAME_MAX)"
definition f_length :: "memory \<Rightarrow> nat \<Rightarrow> nat" where "f_length m f = rd32 m (f + 4 + NAME_MAX + 4)"

definition phys64_to_virt :: "nat \<Rightarrow> nat" where
  "phys64_to_virt phys = add64 (unat PHYSMAP64_BASE) phys"

section \<open>Operations\<close>

text \<open>The module list GRUB passes is the list of start and end addresses.\<close>

definition module_range :: "u32 \<Rightarrow> (nat \<times> nat) list \<Rightarrow> nat \<times> nat" where
  "module_range flags mods =
     (if flags AND MULTIBOOT_INFO_MODS = 0 \<or> mods = [] then (0, 0) else hd mods)"

definition initrd64_reserve :: "u32 \<Rightarrow> (nat \<times> nat) list \<Rightarrow> pmm64 \<Rightarrow> pmm64" where
  "initrd64_reserve flags mods p =
     (let (start, stop) = module_range flags mods
      in if stop > start then pmm64_reserve_region start stop p else p)"

definition initrd64_init :: "memory \<Rightarrow> u32 \<Rightarrow> (nat \<times> nat) list \<Rightarrow> initrd_rc \<times> initrd" where
  "initrd64_init m flags mods =
     (let st = \<lparr>archive = 0, files = 0, nfiles = 0, archive_len = 0\<rparr>;
          (start, stop) = module_range flags mods
      in if stop \<le> start then (INITRD64_NO_MODULE, st)
         else
         (let st = st\<lparr>archive := phys64_to_virt start, archive_len := stop - start\<rparr>
          in if archive_len st < HEADER_BYTES then (INITRD64_BAD_MAGIC, st)
             else if rd32 m (archive st) \<noteq> INITRD_MAGIC then (INITRD64_BAD_MAGIC, st)
             else
             (let st = st\<lparr>nfiles := rd32 m (archive st + 4)\<rparr>
              in if HEADER_BYTES + nfiles st * FILE_BYTES > archive_len st
                 then (INITRD64_BAD_MAGIC, st\<lparr>nfiles := 0\<rparr>)
                 else (INITRD64_OK, st\<lparr>files := archive st + HEADER_BYTES\<rparr>))))"

definition initrd64_open :: "memory \<Rightarrow> nat \<Rightarrow> initrd \<Rightarrow> initrd_rc \<times> (nat \<times> nat) option" where
  "initrd64_open m name st =
     (if files st = 0 then (INITRD64_NO_MODULE, None)
      else
      (case find (\<lambda>i. f_magic m (file_at st i) = FILE_MAGIC
                      \<and> kstrncmp m (f_name (file_at st i)) name NAME_MAX = 0) [0..<nfiles st] of
         None \<Rightarrow> (INITRD64_NO_MODULE, None)
       | Some i \<Rightarrow>
           (let off = f_offset m (file_at st i); len = f_length m (file_at st i)
            in if off + len > archive_len st then (INITRD64_BAD_MAGIC, None)
               else (INITRD64_OK, Some (archive st + off, len)))))"

definition initrd64_file_count :: "initrd \<Rightarrow> nat" where "initrd64_file_count st = nfiles st"
definition initrd64_size :: "initrd \<Rightarrow> nat" where "initrd64_size st = archive_len st"

definition initrd64_name :: "initrd \<Rightarrow> nat \<Rightarrow> nat" where
  "initrd64_name st index = (if files st = 0 \<or> index \<ge> nfiles st then 0 else f_name (file_at st index))"

section \<open>The packer\<close>

definition le32 :: "nat \<Rightarrow> byte list" where
  "le32 n = [of_nat n, of_nat (n div 256), of_nat (n div 65536), of_nat (n div 16777216)]"

definition pack_entry :: "nat \<Rightarrow> byte list \<times> byte list \<Rightarrow> byte list" where
  "pack_entry off f = le32 FILE_MAGIC @ fst f @ replicate (NAME_MAX - length (fst f)) 0
                      @ le32 off @ le32 (length (snd f))"

fun pack_entries :: "nat \<Rightarrow> (byte list \<times> byte list) list \<Rightarrow> byte list" where
  "pack_entries off [] = []"
| "pack_entries off (f # fs) = pack_entry off f @ pack_entries (off + length (snd f)) fs"

definition pack :: "(byte list \<times> byte list) list \<Rightarrow> byte list" where
  "pack fs = le32 INITRD_MAGIC @ le32 (length fs) @ pack_entries (8 + 136 * length fs) fs @ concat (map snd fs)"

text \<open>What the packer accepts: short names, and sizes its 32-bit fields can hold. The names of
  different files differ, being paths in one directory tree, and a path has no NUL byte.\<close>

definition packable :: "(byte list \<times> byte list) list \<Rightarrow> bool" where
  "packable fs \<longleftrightarrow> (\<forall>f \<in> set fs. length (fst f) < NAME_MAX \<and> 0 \<notin> set (fst f))
     \<and> distinct (map fst fs) \<and> length (pack fs) < 2 ^ 32"

section \<open>Reading back the layout\<close>

lemma length_le32 [simp]: "length (le32 n) = 4"
  by (simp add: le32_def)

lemma rd32_le32:
  assumes "bytes_at m a 4 = le32 n" and "n < 2 ^ 32"
  shows "rd32 m a = n"
proof -
  have b: "m (a + i) = le32 n ! i" if "i < 4" for i using assms(1) that by (metis nth_bytes_at)
  have "m a = of_nat n" "m (a + 1) = of_nat (n div 256)" "m (a + 2) = of_nat (n div 65536)"
    "m (a + 3) = of_nat (n div 16777216)"
    using b [of 0] b [of 1] b [of 2] b [of 3] by (simp_all add: le32_def)
  then have "rd32 m a = n mod 256 + 256 * (n div 256 mod 256) + 65536 * (n div 65536 mod 256) + 16777216 * (n div 16777216 mod 256)"
    by (simp add: rd32_def unat_of_nat)
  also have "\<dots> = n"
  proof -
    define a b c where "a = n div 256" and "b = a div 256" and "c = b div 256"
    have "n = n mod 256 + 256 * a" "a = a mod 256 + 256 * b" "b = b mod 256 + 256 * c"
      by (simp_all add: a_def b_def c_def)
    moreover have "n div 65536 mod 256 = b mod 256" "n div 16777216 mod 256 = c"
      using assms(2) by (simp_all add: a_def b_def c_def div_mult2_eq [symmetric])
    ultimately show ?thesis unfolding a_def [symmetric] by linarith
  qed
  finally show ?thesis .
qed

lemma bytes_at_slice:
  assumes "bytes_at m a (length xs) = xs" and "k + n \<le> length xs"
  shows "bytes_at m (a + k) n = take n (drop k xs)"
proof (rule nth_equalityI)
  fix i assume "i < length (bytes_at m (a + k) n)"
  then have "i < n" by simp
  moreover have "m (a + (k + i)) = xs ! (k + i)" using assms \<open>i < n\<close> by (metis add_less_cancel_left nth_bytes_at order_less_le_trans)
  ultimately show "bytes_at m (a + k) n ! i = take n (drop k xs) ! i" using assms(2) by (simp add: add.assoc)
qed (use assms(2) in simp)

lemma length_pack_entry [simp]: "length (fst f) < NAME_MAX \<Longrightarrow> length (pack_entry off f) = 136"
  by (simp add: pack_entry_def NAME_MAX_def)

lemma length_pack_entries:
  "\<forall>f \<in> set fs. length (fst f) < NAME_MAX \<Longrightarrow> length (pack_entries off fs) = 136 * length fs"
  by (induction fs arbitrary: off) auto

lemma pack_entries_nth:
  "i < length fs \<Longrightarrow> \<forall>f \<in> set fs. length (fst f) < NAME_MAX \<Longrightarrow>
   take 136 (drop (136 * i) (pack_entries off fs)) = pack_entry (off + length (concat (map snd (take i fs)))) (fs ! i)"
proof (induction fs arbitrary: off i)
  case (Cons f fs)
  show ?case
  proof (cases i)
    case (Suc j)
    have "drop (136 * i) (pack_entries off (f # fs)) = drop (136 * j) (pack_entries (off + length (snd f)) fs)"
      using Cons.prems Suc by simp
    then show ?thesis using Cons.IH [of j "off + length (snd f)"] Cons.prems Suc by (simp add: add.assoc)
  qed (use Cons.prems in simp)
qed simp

lemma concat_nth:
  "i < length xs \<Longrightarrow> take (length (xs ! i)) (drop (length (concat (take i xs))) (concat xs)) = xs ! i"
proof (induction xs arbitrary: i)
  case (Cons x xs)
  then show ?case by (cases i) auto
qed simp

lemma length_concat_split:
  "i < length xs \<Longrightarrow> length (concat (take i xs)) + length (xs ! i) \<le> length (concat xs)"
proof (induction xs arbitrary: i)
  case (Cons x xs)
  then show ?case by (cases i) auto
qed simp

lemma bytes_at_mem_of: "bytes_at (mem_of a xs) a (length xs) = xs"
  by (rule nth_equalityI) (simp_all add: mem_of_def)

text \<open>An archive in memory.\<close>

definition packed_at :: "memory \<Rightarrow> nat \<Rightarrow> (byte list \<times> byte list) list \<Rightarrow> bool" where
  "packed_at m a fs \<longleftrightarrow> packable fs \<and> bytes_at m a (length (pack fs)) = pack fs"

lemma length_pack: "packable fs \<Longrightarrow> length (pack fs) = 8 + 136 * length fs + length (concat (map snd fs))"
  by (simp add: pack_def packable_def length_pack_entries)

lemma packed_header:
  assumes "packed_at m a fs"
  shows "rd32 m a = INITRD_MAGIC" and "rd32 m (a + 4) = length fs"
proof -
  have p: "packable fs" and b: "bytes_at m a (length (pack fs)) = pack fs" using assms by (auto simp: packed_at_def)
  note L = length_pack [OF p]
  have "bytes_at m (a + 0) 4 = le32 INITRD_MAGIC"
    by (subst bytes_at_slice [OF b]) (simp add: L, simp add: pack_def)
  then show "rd32 m a = INITRD_MAGIC" by (intro rd32_le32) (auto simp: INITRD_MAGIC_def)
  have "bytes_at m (a + 4) 4 = le32 (length fs)"
    by (subst bytes_at_slice [OF b]) (simp add: L, simp add: pack_def)
  moreover have "length fs < 2 ^ 32" using p L by (simp add: packable_def)
  ultimately show "rd32 m (a + 4) = length fs" by (rule rd32_le32)
qed

lemma packed_entry:
  assumes pk: "packed_at m a fs" and i: "i < length fs"
  defines "f \<equiv> a + 8 + i * 136"
    and "off \<equiv> 8 + 136 * length fs + length (concat (map snd (take i fs)))"
  shows "f_magic m f = FILE_MAGIC" and "cstr m (f_name f) (fst (fs ! i))"
    and "f_offset m f = off" and "f_length m f = length (snd (fs ! i))"
    and "bytes_at m (a + off) (length (snd (fs ! i))) = snd (fs ! i)"
    and "off + length (snd (fs ! i)) \<le> length (pack fs)"
proof -
  have p: "packable fs" and b: "bytes_at m a (length (pack fs)) = pack fs" using pk by (auto simp: packed_at_def)
  have sh: "\<forall>f \<in> set fs. length (fst f) < NAME_MAX" using p by (auto simp: packable_def)
  note L = length_pack [OF p]
  let ?n = "fst (fs ! i)" and ?d = "snd (fs ! i)" and ?e = "pack_entry off (fs ! i)"
  have ni: "length ?n < 124" "0 \<notin> set ?n" using p nth_mem [OF i] by (auto simp: packable_def NAME_MAX_def)
  have eb: "bytes_at m f (length ?e) = ?e"
  proof -
    have "bytes_at m (a + (8 + i * 136)) 136 = take 136 (drop (8 + i * 136) (pack fs))"
      using i by (intro bytes_at_slice [OF b]) (simp add: L)
    also have "drop (8 + i * 136) (pack fs) = drop (136 * i) (pack_entries (8 + 136 * length fs) fs) @ concat (map snd fs)"
      using i by (simp add: pack_def length_pack_entries [OF sh] mult.commute)
    also have "take 136 \<dots> = ?e"
      using i pack_entries_nth [OF i sh, of "8 + 136 * length fs"] by (simp add: length_pack_entries [OF sh] off_def take_map)
    finally show ?thesis using ni by (simp add: f_def add.assoc NAME_MAX_def)
  qed
  have le: "length ?e = 136" using ni by (simp add: NAME_MAX_def)
  have fld: "bytes_at m (f + k) n = take n (drop k ?e)" if "k + n \<le> 136" for k n
    using bytes_at_slice [OF eb] that le by simp
  have off: "off + length ?d \<le> length (pack fs)"
    using length_concat_split [of i "map snd fs"] i by (simp add: off_def L take_map)
  then show "off + length ?d \<le> length (pack fs)" .
  have lt: "length (pack fs) < 2 ^ 32" using p by (simp add: packable_def)
  have "bytes_at m (f + 0) 4 = le32 FILE_MAGIC" by (subst fld) (simp_all add: pack_entry_def)
  then show "f_magic m f = FILE_MAGIC" unfolding f_magic_def by (intro rd32_le32) (auto simp: FILE_MAGIC_def)
  have "bytes_at m (f + 4) (length ?n) = ?n" using ni by (subst fld) (simp_all add: pack_entry_def)
  moreover have "bytes_at m (f + 4 + length ?n) 1 = [0]"
    using ni fld [of "4 + length ?n" 1] by (simp add: pack_entry_def NAME_MAX_def add.assoc)
  then have "m (f + 4 + length ?n) = 0" by (simp add: bytes_at_def)
  ultimately show "cstr m (f_name f) ?n" using ni by (simp add: cstr_conv f_name_def)
  have "bytes_at m (f + 128) 4 = le32 off" using ni by (subst fld) (simp_all add: pack_entry_def NAME_MAX_def)
  then show "f_offset m f = off" unfolding f_offset_def NAME_MAX_def using off lt by (intro rd32_le32) (simp_all add: add.assoc)
  have "bytes_at m (f + 132) 4 = le32 (length ?d)" using ni by (subst fld) (simp_all add: pack_entry_def NAME_MAX_def)
  then show "f_length m f = length ?d" unfolding f_length_def NAME_MAX_def using off lt by (intro rd32_le32) (simp_all add: add.assoc)
  have "bytes_at m (a + off) (length ?d) = take (length ?d) (drop off (pack fs))" by (rule bytes_at_slice [OF b off])
  also have "drop off (pack fs) = drop (length (concat (take i (map snd fs)))) (concat (map snd fs))"
    by (simp add: pack_def length_pack_entries [OF sh] off_def take_map)
  also have "take (length ?d) \<dots> = ?d" using concat_nth [of i "map snd fs"] i by simp
  finally show "bytes_at m (a + off) (length ?d) = ?d" .
qed

section \<open>Properties\<close>

text \<open>Round trip: whatever the packer packs, the kernel finds. With the archive in memory where
  the first boot module lies, \<open>initrd64_init\<close> succeeds and counts every file, and opening the name
  of any file, spelled at any address, gives exactly that file's bytes; the name the kernel
  lists for an index is the name that was packed there.\<close>

theorem initrd_round_trip:
  assumes "packed_at m (phys64_to_virt start) fs" and "flags AND MULTIBOOT_INFO_MODS \<noteq> 0"
    and "mods \<noteq> []" and "hd mods = (start, start + length (pack fs))" and "start < 2 ^ 32"
  shows "\<exists>st. initrd64_init m flags mods = (INITRD64_OK, st) \<and> initrd64_file_count st = length fs
     \<and> (\<forall>i < length fs. cstr m (initrd64_name st i) (fst (fs ! i))
          \<and> (\<forall>name. cstr m name (fst (fs ! i)) \<longrightarrow>
               (\<exists>a. initrd64_open m name st = (INITRD64_OK, Some (a, length (snd (fs ! i))))
                    \<and> bytes_at m a (length (snd (fs ! i))) = snd (fs ! i))))"
proof -
  define a where "a = phys64_to_virt start"
  have pk: "packed_at m a fs" using assms(1) by (simp add: a_def)
  then have p: "packable fs" by (simp add: packed_at_def)
  note L = length_pack [OF p] and hdr = packed_header [OF pk]
  define st where "st = \<lparr>archive = a, files = a + 8, nfiles = length fs, archive_len = length (pack fs)\<rparr>"
  have a0: "a + 8 \<noteq> 0" by simp
  have "module_range flags mods = (start, start + length (pack fs))"
    using assms(2-4) by (simp add: module_range_def)
  then have "initrd64_init m flags mods = (INITRD64_OK, st)"
    using hdr by (simp add: initrd64_init_def a_def [symmetric] HEADER_BYTES_def FILE_BYTES_def NAME_MAX_def L st_def)
  moreover have at: "file_at st i = a + 8 + i * 136" for i by (simp add: st_def file_at_def FILE_BYTES_def NAME_MAX_def)
  note e = packed_entry [OF pk]
  have "initrd64_open m name st = (INITRD64_OK, Some (a + (8 + 136 * length fs + length (concat (map snd (take i fs)))), length (snd (fs ! i))))"
    if i: "i < length fs" and n: "cstr m name (fst (fs ! i))" for i name
  proof -
    let ?P = "\<lambda>j. f_magic m (file_at st j) = FILE_MAGIC \<and> kstrncmp m (f_name (file_at st j)) name NAME_MAX = 0"
    have P: "?P j \<longleftrightarrow> j = i" if j: "j < length fs" for j
    proof -
      have "take 124 (fst (fs ! k)) = fst (fs ! k)" if "k < length fs" for k
        using p nth_mem [OF that] by (auto simp: packable_def NAME_MAX_def)
      then have "?P j \<longleftrightarrow> map fst fs ! j = map fst fs ! i"
        using e(1,2) [OF j] i j by (simp add: at kstrncmp_eq_0 [OF e(2) [OF j] n] NAME_MAX_def)
      then show ?thesis using p i j nth_eq_iff_index_eq [of "map fst fs"] by (simp add: packable_def)
    qed
    have "find ?P [0..<length fs] = Some i"
      unfolding find_Some_iff using i P by (intro exI [of _ i]) auto
    then show ?thesis
      using e(3,4,6) [OF i] by (simp add: initrd64_open_def at st_def Let_def) (simp add: st_def [symmetric] at)
  qed
  moreover have "cstr m (initrd64_name st i) (fst (fs ! i))" if "i < length fs" for i
    using e(2) [OF that] that by (simp add: initrd64_name_def at st_def)
      (simp add: st_def [symmetric] at)
  ultimately show ?thesis
    using e(5) by (intro exI [of _ st]) (auto simp: initrd64_file_count_def st_def)
qed

theorem initrd_round_trip_witness:
  "\<exists>st. initrd64_init (mem_of (phys64_to_virt 0x1000) (pack [([97], [1, 2, 3])])) 8 [(0x1000, 0x1000 + 147)] = (INITRD64_OK, st)
     \<and> initrd64_file_count st = 1"
proof -
  have l: "length (pack [([97], [1, 2, 3])]) = 147" by (simp add: pack_def pack_entry_def NAME_MAX_def)
  then have "packed_at (mem_of (phys64_to_virt 0x1000) (pack [([97], [1, 2, 3])])) (phys64_to_virt 0x1000) [([97], [1, 2, 3])]"
    unfolding packed_at_def bytes_at_mem_of by (simp add: packable_def NAME_MAX_def)
  from initrd_round_trip [OF this, of 8 "[(0x1000, 0x1000 + 147)]"] l show ?thesis
    by (auto simp: MULTIBOOT_INFO_MODS_def)
qed

text \<open>\<open>initrd64_open\<close> never hands out memory beyond the archive, whatever the headers say: a
  successful open gives a range that lies inside the archive.\<close>

theorem initrd64_open_in_archive:
  assumes "initrd64_open m name st = (rc, Some (a, len))"
  shows "rc = INITRD64_OK \<and> archive st \<le> a \<and> a + len \<le> archive st + archive_len st"
  using assms by (auto simp: initrd64_open_def Let_def split: if_splits option.splits)

theorem initrd64_open_in_archive_witness:
  "initrd64_open (mem_of 1 [0xFE, 0xCA, 0xEF, 0xBE]) 5 \<lparr>archive = 1, files = 1, nfiles = 1, archive_len = 136\<rparr>
     = (INITRD64_OK, Some (1, 0)) \<and> (1 :: nat) + 0 \<le> 1 + 136"
proof -
  let ?m = "mem_of 1 [0xFE, 0xCA, 0xEF, 0xBE] :: memory"
  have "kstrncmp ?m 5 5 (Suc 123) = 0" by (subst kstrncmp_Suc) (simp add: mem_of_def)
  then have "initrd64_open ?m 5 \<lparr>archive = 1, files = 1, nfiles = 1, archive_len = 136\<rparr> = (INITRD64_OK, Some (1, 0))"
    by (simp add: initrd64_open_def file_at_def f_magic_def f_name_def f_offset_def f_length_def rd32_def mem_of_def
        FILE_MAGIC_def NAME_MAX_def)
  then show ?thesis using initrd64_open_in_archive [of ?m 5 _ INITRD64_OK 1 0] by fastforce
qed

end
