(* ===== verification/Ramfs64.thy ===== *)
theory Ramfs64
  imports Kheap64 Initrd64
begin

text \<open>
  \<^verbatim>\<open>kernel/ramfs64.c\<close>: files and directories kept in the kernel heap. This theory holds the
  data and the operations; the tree they build is studied in \<open>Ramfs64_Tree\<close>, the bytes of the files
  in \<open>Ramfs64_Files\<close>.

  The node table is a function from the index to the node, and an index is an \<open>int\<close> as in the code,
  -1 being "none". A node's block of bytes in the heap is kept with the node as the list \<open>dbytes\<close>
  beside the pointer \<open>data\<close>; likewise \<open>farray\<close> is the array behind \<open>frames\<close>. The contents of a frame
  are bytes of physical memory, seen through the direct map. Paths and names are strings without
  the terminating NUL. A value \<open>None\<close> means that an operation does not return: a list of nodes that
  loops, an allocation that does not come back, an access outside the block of a file.
\<close>

section \<open>Bytes of a frame\<close>

definition get_byte :: "(nat \<Rightarrow> nat \<Rightarrow> u64) \<Rightarrow> nat \<Rightarrow> nat \<Rightarrow> byte" where
  "get_byte M f i = ucast (drop_bit (8 * (i mod 8)) (M f (i div 8)))"

definition set_byte :: "nat \<Rightarrow> byte \<Rightarrow> u64 \<Rightarrow> u64" where
  "set_byte k b w = (w AND NOT (push_bit (8 * k) 0xFF)) OR push_bit (8 * k) (ucast b)"

definition put_byte :: "nat \<Rightarrow> nat \<Rightarrow> byte \<Rightarrow> (nat \<Rightarrow> nat \<Rightarrow> u64) \<Rightarrow> nat \<Rightarrow> nat \<Rightarrow> u64" where
  "put_byte f i b M = M(f := (M f)(i div 8 := set_byte (i mod 8) b (M f (i div 8))))"

definition put_bytes :: "nat \<Rightarrow> nat \<Rightarrow> byte list \<Rightarrow> (nat \<Rightarrow> nat \<Rightarrow> u64) \<Rightarrow> nat \<Rightarrow> nat \<Rightarrow> u64" where
  "put_bytes f i bs M = fold (\<lambda>k. put_byte f (i + k) (bs ! k)) [0..<length bs] M"

definition get_bytes :: "(nat \<Rightarrow> nat \<Rightarrow> u64) \<Rightarrow> nat \<Rightarrow> nat \<Rightarrow> nat \<Rightarrow> byte list" where
  "get_bytes M f i n = map (\<lambda>k. get_byte M f (i + k)) [0..<n]"

section \<open>State\<close>

definition RAMFS64_MAX_NODES :: int where "RAMFS64_MAX_NODES = 4096"
definition RAMFS64_NAME_MAX :: nat where "RAMFS64_NAME_MAX = 256"
definition RAMFS64_PATH_MAX :: nat where "RAMFS64_PATH_MAX = 1024"
definition RAMFS64_LINK_MAX :: nat where "RAMFS64_LINK_MAX = 40"
definition RAMFS64_CONTIGUOUS_MAX :: nat where "RAMFS64_CONTIGUOUS_MAX = 32 * 1024 * 1024"
definition RAMFS64_DEV_NONE :: nat where "RAMFS64_DEV_NONE = 0"
definition RAMFS64_DEV_NULL :: nat where "RAMFS64_DEV_NULL = 5"
definition RAMFS64_DEV_CON :: nat where "RAMFS64_DEV_CON = 6"
definition ROOT :: int where "ROOT = 0"
definition NODE_BYTES :: nat where "NODE_BYTES = 352"

record node64 =
  nm :: string
  parent :: int
  data :: nat
  dbytes :: "byte list"
  fsize :: nat
  capacity :: nat
  is_dir :: bool
  is_link :: bool
  fmode :: nat
  frames :: nat
  farray :: "nat \<Rightarrow> nat"
  nframes :: nat
  fcap :: nat
  openers :: int
  unlinked :: bool
  device :: nat
  nd_used :: bool
  first_child :: int
  next_sibling :: int

record ramfs =
  nodes_ptr :: nat
  nodes :: "int \<Rightarrow> node64"
  node_count :: nat
  node_free :: int
  seed_failures :: nat
  kh :: kheap

definition nupd :: "int \<Rightarrow> (node64 \<Rightarrow> node64) \<Rightarrow> ramfs \<Rightarrow> ramfs" where
  "nupd n f s = s\<lparr>nodes := (nodes s)(n := f (nodes s n))\<rparr>"

definition fs_pmm :: "ramfs \<Rightarrow> pmm64" where
  "fs_pmm s = pmm (mach (kh s))"

definition set_pmm :: "pmm64 \<Rightarrow> ramfs \<Rightarrow> ramfs" where
  "set_pmm p s = s\<lparr>kh := (kh s)\<lparr>mach := (mach (kh s))\<lparr>pmm := p\<rparr>\<rparr>\<rparr>"

definition fs_mem :: "ramfs \<Rightarrow> nat \<Rightarrow> nat \<Rightarrow> u64" where
  "fs_mem s = mem (mach (kh s))"

definition set_mem :: "(nat \<Rightarrow> nat \<Rightarrow> u64) \<Rightarrow> ramfs \<Rightarrow> ramfs" where
  "set_mem M s = s\<lparr>kh := (kh s)\<lparr>mach := (mach (kh s))\<lparr>mem := M\<rparr>\<rparr>\<rparr>"

definition fs_malloc :: "nat \<Rightarrow> ramfs \<Rightarrow> (nat \<times> ramfs) option" where
  "fs_malloc n s = do { (p, h) \<leftarrow> kmalloc64 n (kh s); Some (p, s\<lparr>kh := h\<rparr>) }"

definition fs_free :: "nat \<Rightarrow> ramfs \<Rightarrow> ramfs" where
  "fs_free p s = s\<lparr>kh := kfree64 p (kh s)\<rparr>"

definition free_frames :: "nat list \<Rightarrow> ramfs \<Rightarrow> ramfs" where
  "free_frames fs s = set_pmm (fold pmm64_free_frame fs (fs_pmm s)) s"

definition s64 :: "nat \<Rightarrow> int" where
  "s64 n = (if n < 2 ^ 63 then int n else int n - 2 ^ 64)"

section \<open>Nodes\<close>

definition valid :: "int \<Rightarrow> ramfs \<Rightarrow> bool" where
  "valid n s \<longleftrightarrow> nodes_ptr s \<noteq> 0 \<and> n \<ge> 0 \<and> n < RAMFS64_MAX_NODES \<and> nd_used (nodes s n)"

definition alloc_node :: "string \<Rightarrow> int \<Rightarrow> bool \<Rightarrow> ramfs \<Rightarrow> int \<times> ramfs" where
  "alloc_node name par dir s =
     (if nodes_ptr s = 0 \<or> node_free s < 0 then (-1, s)
      else
      (let i = node_free s;
           s = s\<lparr>node_free := next_sibling (nodes s i)\<rparr>;
           s = nupd i (\<lambda>x. x\<lparr>nm := take (RAMFS64_NAME_MAX - 1) name, parent := par, data := 0, dbytes := [],
                 fsize := 0, capacity := 0, is_dir := dir, is_link := False,
                 fmode := (if dir then 493 else 420),
                 frames := 0, nframes := 0, fcap := 0, openers := 0, unlinked := False,
                 device := RAMFS64_DEV_NONE, nd_used := True, first_child := -1, next_sibling := -1\<rparr>) s;
           s = (if par \<ge> 0 \<and> par < RAMFS64_MAX_NODES
                then nupd par (\<lambda>x. x\<lparr>first_child := i\<rparr>)
                       (nupd i (\<lambda>x. x\<lparr>next_sibling := first_child (nodes s par)\<rparr>) s)
                else s)
       in (i, s\<lparr>node_count := node_count s + 1\<rparr>)))"

text \<open>The scan for the sibling that points at \<open>n\<close>.\<close>

partial_function (option) before :: "int \<Rightarrow> int \<Rightarrow> ramfs \<Rightarrow> int option" where
  "before n c s =
     (if c \<ge> 0 \<and> next_sibling (nodes s c) \<noteq> n then before n (next_sibling (nodes s c)) s else Some c)"

text \<open>Out of the parent's child list; \<open>detach_from_parent\<close> and \<open>ramfs64_rename\<close> share this part.\<close>

definition unthread :: "int \<Rightarrow> ramfs \<Rightarrow> ramfs option" where
  "unthread n s =
     (let par = parent (nodes s n)
      in if par \<ge> 0 \<and> par < RAMFS64_MAX_NODES
         then (let c = first_child (nodes s par)
               in if c = n then Some (nupd par (\<lambda>x. x\<lparr>first_child := next_sibling (nodes s n)\<rparr>) s)
                  else do {
                    c \<leftarrow> before n c s;
                    Some (if c \<ge> 0 then nupd c (\<lambda>x. x\<lparr>next_sibling := next_sibling (nodes s n)\<rparr>) s else s)
                  })
         else Some s)"

definition detach_from_parent :: "int \<Rightarrow> ramfs \<Rightarrow> ramfs option" where
  "detach_from_parent n s = do {
     s \<leftarrow> unthread n s;
     Some (nupd n (\<lambda>x. x\<lparr>parent := -1, next_sibling := -1\<rparr>) s)
   }"

definition release_node :: "int \<Rightarrow> ramfs \<Rightarrow> ramfs" where
  "release_node n s =
     (let s = (if data (nodes s n) \<noteq> 0 then fs_free (data (nodes s n)) s else s);
          s = nupd n (\<lambda>x. x\<lparr>data := 0, dbytes := []\<rparr>) s;
          s = (if frames (nodes s n) \<noteq> 0
               then (let s = free_frames (map (farray (nodes s n)) [0..<nframes (nodes s n)]) s;
                         s = fs_free (frames (nodes s n)) s
                     in nupd n (\<lambda>x. x\<lparr>frames := 0, nframes := 0, fcap := 0\<rparr>) s)
               else s);
          s = nupd n (\<lambda>x. x\<lparr>nd_used := False, first_child := -1, next_sibling := node_free s\<rparr>) s;
          s = s\<lparr>node_free := n\<rparr>
      in if node_count s \<noteq> 0 then s\<lparr>node_count := node_count s - 1\<rparr> else s)"

definition free_node :: "int \<Rightarrow> ramfs \<Rightarrow> ramfs option" where
  "free_node n s = do { s \<leftarrow> detach_from_parent n s; Some (release_node n s) }"

definition ramfs64_ref_node :: "int \<Rightarrow> ramfs \<Rightarrow> ramfs" where
  "ramfs64_ref_node n s = (if valid n s then nupd n (\<lambda>x. x\<lparr>openers := openers x + 1\<rparr>) s else s)"

definition ramfs64_unref_node :: "int \<Rightarrow> ramfs \<Rightarrow> ramfs" where
  "ramfs64_unref_node n s =
     (if \<not> valid n s then s
      else
      (let s = (if openers (nodes s n) > 0 then nupd n (\<lambda>x. x\<lparr>openers := openers x - 1\<rparr>) s else s)
       in if openers (nodes s n) = 0 \<and> unlinked (nodes s n) then release_node n s else s))"

section \<open>Paths\<close>

partial_function (option) child_loop :: "string \<Rightarrow> int \<Rightarrow> ramfs \<Rightarrow> int option" where
  "child_loop name i s =
     (if i \<ge> 0
      then (if length (nm (nodes s i)) = length name \<and> nm (nodes s i) = name then Some i
            else child_loop name (next_sibling (nodes s i)) s)
      else Some (-1))"

definition find_child :: "int \<Rightarrow> string \<Rightarrow> ramfs \<Rightarrow> int option" where
  "find_child dir name s =
     (if \<not> valid dir s \<or> \<not> is_dir (nodes s dir) then Some (-1)
      else child_loop name (first_child (nodes s dir)) s)"

definition to_char :: "byte \<Rightarrow> char" where
  "to_char b = char_of (unat b)"

abbreviation slash :: "char \<Rightarrow> bool" where "slash c \<equiv> c = CHR ''/''"

text \<open>The path after following a link: the target with the rest of the old path appended, or
  nothing when that does not fit. The result is read as a C string from its buffer.\<close>

fun append_rest :: "bool \<Rightarrow> string \<Rightarrow> string \<Rightarrow> string option" where
  "append_rest first out [] = Some out"
| "append_rest first out (c # cs) =
     (if length out + 2 \<ge> RAMFS64_PATH_MAX then None
      else append_rest False (out @ (if first \<and> \<not> slash c then ''/'' else []) @ [c]) cs)"

definition link_target :: "node64 \<Rightarrow> string" where
  "link_target nd = map to_char (take (fsize nd) (dbytes nd))"

text \<open>The loop of \<open>walk\<close>: \<open>p\<close> is what is left of the path. The result is the node and, for the
  parent of a name, that name.\<close>

partial_function (option) walk_loop ::
  "bool \<Rightarrow> bool \<Rightarrow> ramfs \<Rightarrow> int \<Rightarrow> nat \<Rightarrow> string \<Rightarrow> (int \<times> string) option" where
  "walk_loop want_parent follow_final s node links p =
     (let q = dropWhile slash p
      in if q = [] then Some (if want_parent then (-1, []) else (node, []))
         else
         (let comp = takeWhile (\<lambda>c. \<not> slash c) q;
              rest = dropWhile (\<lambda>c. \<not> slash c) q;
              is_last = (dropWhile slash rest = [])
          in if is_last \<and> want_parent
             then Some (if comp = [] \<or> length comp \<ge> RAMFS64_NAME_MAX then (-1, []) else (node, comp))
             else if comp = ''.'' then walk_loop want_parent follow_final s node links rest
             else if comp = ''..''
             then walk_loop want_parent follow_final s
                    (if parent (nodes s node) \<ge> 0 then parent (nodes s node) else node) links rest
             else do {
               child \<leftarrow> find_child node comp s;
               if child < 0 then Some (-1, [])
               else if is_link (nodes s child) \<and> (\<not> is_last \<or> follow_final)
               then (if links + 1 > RAMFS64_LINK_MAX then Some (-1, [])
                     else if data (nodes s child) = 0 \<or> fsize (nodes s child) = 0 then Some (-1, [])
                     else if fsize (nodes s child) \<ge> RAMFS64_PATH_MAX then Some (-1, [])
                     else (case append_rest True (link_target (nodes s child)) rest of
                             None \<Rightarrow> Some (-1, [])
                           | Some out \<Rightarrow>
                               walk_loop want_parent follow_final s
                                 (if slash (hd out) then ROOT else node) (links + 1)
                                 (takeWhile (\<lambda>c. c \<noteq> CHR 0x00) out)))
               else walk_loop want_parent follow_final s child links rest
             }))"

definition walk :: "string \<Rightarrow> bool \<Rightarrow> bool \<Rightarrow> ramfs \<Rightarrow> (int \<times> string) option" where
  "walk path want_parent follow_final s =
     (if nodes_ptr s = 0 \<or> path = [] \<or> \<not> slash (hd path) then Some (-1, [])
      else walk_loop want_parent follow_final s ROOT 0 path)"

definition ramfs64_lookup :: "string \<Rightarrow> ramfs \<Rightarrow> int option" where
  "ramfs64_lookup path s = map_option fst (walk path False True s)"

definition ramfs64_lookup_nofollow :: "string \<Rightarrow> ramfs \<Rightarrow> int option" where
  "ramfs64_lookup_nofollow path s = map_option fst (walk path False False s)"

definition ramfs64_create :: "string \<Rightarrow> bool \<Rightarrow> ramfs \<Rightarrow> (int \<times> ramfs) option" where
  "ramfs64_create path dir s = do {
     (par, component) \<leftarrow> walk path True True s;
     if par < 0 then Some (-1, s)
     else do {
       existing \<leftarrow> find_child par component s;
       if existing \<ge> 0 then Some (existing, s) else Some (alloc_node component par dir s)
     }
   }"

section \<open>Storage\<close>

partial_function (option) double_until :: "nat \<Rightarrow> nat \<Rightarrow> nat option" where
  "double_until cap want = (if cap < want then double_until (mul64 cap 2) want else Some cap)"

definition ensure_capacity :: "int \<Rightarrow> nat \<Rightarrow> ramfs \<Rightarrow> (bool \<times> ramfs) option" where
  "ensure_capacity n want s =
     (let nd = nodes s n
      in if want \<le> capacity nd then Some (True, s)
         else do {
           cap \<leftarrow> double_until (if capacity nd \<noteq> 0 then capacity nd else 64) want;
           (fresh, s) \<leftarrow> fs_malloc cap s;
           if fresh = 0 then Some (False, s)
           else if fsize nd > length (dbytes nd) then None
           else
           (let s = (if data nd \<noteq> 0 then fs_free (data nd) s else s)
            in Some (True, nupd n (\<lambda>x. x\<lparr>data := fresh,
                       dbytes := take (fsize nd) (dbytes nd) @ replicate (cap - fsize nd) 0, capacity := cap\<rparr>) s))
         })"

text \<open>\<open>frame_copy\<close>, one function for each direction.\<close>

function frame_copy_out :: "(nat \<Rightarrow> nat \<Rightarrow> u64) \<Rightarrow> node64 \<Rightarrow> nat \<Rightarrow> nat \<Rightarrow> nat \<Rightarrow> byte list" where
  "frame_copy_out M nd off len done =
     (if done < len
      then (let page = add64 off done div 4096; inp = add64 off done mod 4096
            in if page \<ge> nframes nd then []
               else (let run = min (4096 - inp) (len - done)
                     in get_bytes M (farray nd page div 4096) inp run @ frame_copy_out M nd off len (done + run)))
      else [])"
  by pat_completeness auto
termination
  by (relation "measure (\<lambda>(M, nd, off, len, done). len - done)") (auto simp: Let_def)

function frame_copy_in :: "node64 \<Rightarrow> nat \<Rightarrow> byte list \<Rightarrow> nat \<Rightarrow> (nat \<Rightarrow> nat \<Rightarrow> u64) \<Rightarrow> (nat \<Rightarrow> nat \<Rightarrow> u64)" where
  "frame_copy_in nd off buf done M =
     (if done < length buf
      then (let page = add64 off done div 4096; inp = add64 off done mod 4096
            in if page \<ge> nframes nd then M
               else (let run = min (4096 - inp) (length buf - done)
                     in frame_copy_in nd off buf (done + run)
                          (put_bytes (farray nd page div 4096) inp (take run (drop done buf)) M)))
      else M)"
  by pat_completeness auto
termination
  by (relation "measure (\<lambda>(nd, off, buf, done, M). length buf - done)") (auto simp: Let_def)

declare frame_copy_out.simps [simp del] frame_copy_in.simps [simp del]

text \<open>The frames from \<open>got\<close> on; a failure gives back what this call took.\<close>

function frames_loop :: "int \<Rightarrow> nat \<Rightarrow> nat \<Rightarrow> ramfs \<Rightarrow> bool \<times> ramfs" where
  "frames_loop n got need s =
     (if got < need
      then (let (f, p) = pmm64_alloc_frame (fs_pmm s); s = set_pmm p s
            in if f = 0
               then (False, free_frames (map (farray (nodes s n)) [nframes (nodes s n)..<got]) s)
               else frames_loop n (got + 1) need
                      (nupd n (\<lambda>x. x\<lparr>farray := (farray x)(got := f)\<rparr>)
                         (set_mem (put_bytes (f div 4096) 0 (replicate 4096 0) (fs_mem s)) s)))
      else (True, s))"
  by pat_completeness auto
termination
  by (relation "measure (\<lambda>(n, got, need, s). need - got)") auto

declare frames_loop.simps [simp del]

text \<open>\<open>make_framed\<close> in three parts: the array of frame addresses, the frames, and the bytes that were
  in the block.\<close>

definition frame_array :: "int \<Rightarrow> nat \<Rightarrow> ramfs \<Rightarrow> (bool \<times> ramfs) option" where
  "frame_array n need s =
     (if need > fcap (nodes s n)
      then do {
        cap \<leftarrow> double_until (if fcap (nodes s n) \<noteq> 0 then fcap (nodes s n) else 16) need;
        (fresh, s) \<leftarrow> fs_malloc (mul64 cap 8) s;
        if fresh = 0 then Some (False, s)
        else
        (let s' = (if frames (nodes s n) \<noteq> 0 then fs_free (frames (nodes s n)) s else s)
         in Some (True, nupd n (\<lambda>x. x\<lparr>frames := fresh,
              farray := (\<lambda>k. if k < nframes x then farray x k else 0), fcap := cap\<rparr>) s'))
      }
      else Some (True, s))"

definition block_to_frames :: "int \<Rightarrow> ramfs \<Rightarrow> (bool \<times> ramfs) option" where
  "block_to_frames n s =
     (if data (nodes s n) \<noteq> 0
      then (if fsize (nodes s n) > length (dbytes (nodes s n)) then None
            else
            (let s = set_mem (frame_copy_in (nodes s n) 0
                       (take (fsize (nodes s n)) (dbytes (nodes s n))) 0 (fs_mem s)) s;
                 s = fs_free (data (nodes s n)) s
             in Some (True, nupd n (\<lambda>x. x\<lparr>data := 0, dbytes := [], capacity := 0\<rparr>) s)))
      else Some (True, s))"

definition make_framed :: "int \<Rightarrow> nat \<Rightarrow> ramfs \<Rightarrow> (bool \<times> ramfs) option" where
  "make_framed n bytes s =
     (let need = add64 bytes 4095 div 4096; need = (if need = 0 then 1 else need)
      in if frames (nodes s n) \<noteq> 0 \<and> nframes (nodes s n) \<ge> need then Some (True, s)
         else do {
           (ok, s) \<leftarrow> frame_array n need s;
           if \<not> ok then Some (False, s)
           else
           (let (ok, s) = frames_loop n (nframes (nodes s n)) need s
            in if \<not> ok then Some (False, s)
               else block_to_frames n (nupd n (\<lambda>x. x\<lparr>nframes := need\<rparr>) s))
         })"

section \<open>Reading, writing and sizing files\<close>

definition ramfs64_read :: "int \<Rightarrow> nat \<Rightarrow> nat \<Rightarrow> ramfs \<Rightarrow> (int \<times> byte list) option" where
  "ramfs64_read n offset len s =
     (let nd = nodes s n
      in if \<not> valid n s then Some (-9, [])
         else if is_dir nd then Some (-21, [])
         else if offset \<ge> fsize nd then Some (0, [])
         else
         (let len = (if add64 offset len > fsize nd then fsize nd - offset else len)
          in if frames nd \<noteq> 0 then Some (s64 len, frame_copy_out (fs_mem s) nd offset len 0)
             else if offset + len \<le> length (dbytes nd) then Some (s64 len, take len (drop offset (dbytes nd)))
             else None))"

definition ramfs64_write :: "int \<Rightarrow> nat \<Rightarrow> byte list \<Rightarrow> ramfs \<Rightarrow> (int \<times> ramfs) option" where
  "ramfs64_write n offset buf s =
     (let len = length buf
      in if \<not> valid n s then Some (-9, s)
         else if is_dir (nodes s n) then Some (-21, s)
         else do {
           (contiguous, s) \<leftarrow>
             (if frames (nodes s n) = 0 \<and> add64 offset len \<le> RAMFS64_CONTIGUOUS_MAX
              then ensure_capacity n (add64 offset len) s else Some (False, s));
           (ok, s) \<leftarrow>
             (if contiguous
              then (if offset + len \<le> length (dbytes (nodes s n))
                    then Some (True, nupd n (\<lambda>x. x\<lparr>dbytes := take offset (dbytes x) @ buf @ drop (offset + len) (dbytes x)\<rparr>) s)
                    else None)
              else do {
                (ok, s) \<leftarrow> make_framed n (add64 offset len) s;
                Some (ok, if ok then set_mem (frame_copy_in (nodes s n) offset buf 0 (fs_mem s)) s else s)
              });
           if \<not> ok then Some (-12, s)
           else Some (s64 len, if add64 offset len > fsize (nodes s n)
                               then nupd n (\<lambda>x. x\<lparr>fsize := add64 offset len\<rparr>) s else s)
         })"

definition ramfs64_truncate :: "int \<Rightarrow> ramfs \<Rightarrow> int \<times> ramfs" where
  "ramfs64_truncate n s = (if \<not> valid n s then (-9, s) else (0, nupd n (\<lambda>x. x\<lparr>fsize := 0\<rparr>) s))"

definition ramfs64_resize :: "int \<Rightarrow> nat \<Rightarrow> ramfs \<Rightarrow> (int \<times> ramfs) option" where
  "ramfs64_resize n len s =
     (if \<not> valid n s then Some (-9, s)
      else if is_dir (nodes s n) then Some (-21, s)
      else do {
        (ok, s) \<leftarrow>
          (if len > fsize (nodes s n)
           then (if frames (nodes s n) \<noteq> 0 then make_framed n len s
                 else do {
                   (ok, s) \<leftarrow> ensure_capacity n len s;
                   if \<not> ok then Some (False, s)
                   else if len > length (dbytes (nodes s n)) then None
                   else Some (True, nupd n (\<lambda>x. x\<lparr>dbytes := take (fsize x) (dbytes x) @ replicate (len - fsize x) 0
                                                            @ drop len (dbytes x)\<rparr>) s)
                 })
           else Some (True, s));
        if \<not> ok then Some (-28, s) else Some (0, nupd n (\<lambda>x. x\<lparr>fsize := len\<rparr>) s)
      })"

text \<open>The frames of a file: the array's address, the count and the array itself.\<close>

definition ramfs64_frames :: "int \<Rightarrow> nat \<Rightarrow> ramfs \<Rightarrow> ((nat \<times> nat \<times> (nat \<Rightarrow> nat)) option \<times> ramfs) option" where
  "ramfs64_frames n bytes s =
     (if \<not> valid n s \<or> is_dir (nodes s n) then Some (None, s)
      else do {
        (ok, s) \<leftarrow> make_framed n (if bytes < fsize (nodes s n) then fsize (nodes s n) else bytes) s;
        Some (if ok then Some (frames (nodes s n), nframes (nodes s n), farray (nodes s n)) else None, s)
      })"

section \<open>Links, names and directories\<close>

definition ramfs64_symlink :: "string \<Rightarrow> string \<Rightarrow> ramfs \<Rightarrow> (int \<times> ramfs) option" where
  "ramfs64_symlink path target s =
     (let tlen = length target
      in if target = [] then Some (-22, s)
         else if tlen \<ge> RAMFS64_PATH_MAX then Some (-36, s)
         else do {
           (par, component) \<leftarrow> walk path True True s;
           if par < 0 then Some (-2, s)
           else do {
             existing \<leftarrow> find_child par component s;
             if existing \<ge> 0 then Some (-17, s)
             else
             (let (node, s) = alloc_node component par False s
              in if node < 0 then Some (-28, s)
                 else
                 (let s = nupd node (\<lambda>x. x\<lparr>is_link := True\<rparr>) s
                  in do {
                    (ok, s) \<leftarrow> ensure_capacity node (tlen + 1) s;
                    if \<not> ok then do { s \<leftarrow> free_node node s; Some (-12, s) }
                    else if tlen + 1 \<le> length (dbytes (nodes s node))
                    then Some (node, nupd node (\<lambda>x. x\<lparr>dbytes := map of_char target @ [0] @ drop (tlen + 1) (dbytes x),
                                                      fsize := tlen\<rparr>) s)
                    else None
                  }))
           }
         })"

definition ramfs64_is_link :: "int \<Rightarrow> ramfs \<Rightarrow> bool" where
  "ramfs64_is_link n s \<longleftrightarrow> valid n s \<and> is_link (nodes s n)"

definition ramfs64_readlink :: "int \<Rightarrow> ramfs \<Rightarrow> string option" where
  "ramfs64_readlink n s =
     (if \<not> valid n s \<or> \<not> is_link (nodes s n) \<or> data (nodes s n) = 0 then None
      else Some (takeWhile (\<lambda>c. c \<noteq> CHR 0x00) (map to_char (dbytes (nodes s n)))))"

fun path_chain :: "nat \<Rightarrow> int \<Rightarrow> ramfs \<Rightarrow> int list \<times> int" where
  "path_chain room n s =
     (if n > 0 \<and> room > 0 then (let (c, e) = path_chain (room - 1) (parent (nodes s n)) s in (n # c, e)) else ([], n))"

declare path_chain.simps [simp del]

fun path_emit :: "nat \<Rightarrow> string \<Rightarrow> int list \<Rightarrow> ramfs \<Rightarrow> string option" where
  "path_emit sz out [] s = Some out"
| "path_emit sz out (c # cs) s =
     (if length out + length (nm (nodes s c)) + 2 > sz then None
      else path_emit sz (out @ ''/'' @ nm (nodes s c)) cs s)"

text \<open>The result is the return value and the string put in the caller's buffer.\<close>

definition ramfs64_path :: "int \<Rightarrow> nat \<Rightarrow> ramfs \<Rightarrow> int \<times> string" where
  "ramfs64_path n sz s =
     (if \<not> valid n s \<or> sz < 2 then (-1, [])
      else
      (let (chain, top) = path_chain 64 n s
       in if top > 0 then (-1, [])
          else if chain = [] then (1, ''/'')
          else (case path_emit sz [] (rev chain) s of None \<Rightarrow> (-1, []) | Some out \<Rightarrow> (int (length out), out))))"

partial_function (option) mkdirp_loop :: "string \<Rightarrow> string \<Rightarrow> int \<Rightarrow> ramfs \<Rightarrow> (int \<times> ramfs) option" where
  "mkdirp_loop partial p node s =
     (let q = dropWhile slash p
      in if q = [] then Some (node, s)
         else
         (let comp = takeWhile (\<lambda>c. \<not> slash c) q; rest = dropWhile (\<lambda>c. \<not> slash c) q
          in if length partial + length comp + 1 \<ge> RAMFS64_PATH_MAX then Some (-1, s)
             else
             (let partial = partial @ (if length partial > 1 then ''/'' else []) @ comp
              in do {
                node \<leftarrow> ramfs64_lookup partial s;
                (node, s) \<leftarrow> (if node < 0 then ramfs64_create partial True s else Some (node, s));
                if node < 0 then Some (-1, s) else mkdirp_loop partial rest node s
              })))"

definition ramfs64_mkdirp :: "string \<Rightarrow> ramfs \<Rightarrow> (int \<times> ramfs) option" where
  "ramfs64_mkdirp path s =
     (if path = [] \<or> \<not> slash (hd path) then Some (-1, s) else mkdirp_loop ''/'' path ROOT s)"

definition drop_name :: "int \<Rightarrow> ramfs \<Rightarrow> ramfs option" where
  "drop_name n s = do {
     s \<leftarrow> detach_from_parent n s;
     let s = nupd n (\<lambda>x. x\<lparr>unlinked := True\<rparr>) s;
     Some (if openers (nodes s n) = 0 then release_node n s else s)
   }"

text \<open>Whether \<open>src\<close> lies on the way up from \<open>a\<close>.\<close>

partial_function (option) above :: "int \<Rightarrow> int \<Rightarrow> ramfs \<Rightarrow> bool option" where
  "above src a s =
     (if a \<ge> 0 then (if a = src then Some True else if a = ROOT then Some False else above src (parent (nodes s a)) s)
      else Some False)"

text \<open>The last part of \<open>ramfs64_rename\<close>: the node leaves its old list and joins its new one.\<close>

definition move :: "int \<Rightarrow> int \<Rightarrow> string \<Rightarrow> ramfs \<Rightarrow> ramfs option" where
  "move src dst component s = do {
     s \<leftarrow> unthread src s;
     let s = nupd src (\<lambda>x. x\<lparr>nm := take (RAMFS64_NAME_MAX - 1) component, parent := dst\<rparr>) s;
     let s = nupd src (\<lambda>x. x\<lparr>next_sibling := first_child (nodes s dst)\<rparr>) s;
     Some (nupd dst (\<lambda>x. x\<lparr>first_child := src\<rparr>) s)
   }"

definition ramfs64_rename :: "string \<Rightarrow> string \<Rightarrow> ramfs \<Rightarrow> (int \<times> ramfs) option" where
  "ramfs64_rename oldpath newpath s = do {
     src \<leftarrow> ramfs64_lookup_nofollow oldpath s;
     if src < 0 then Some (-2, s)
     else if src = ROOT then Some (-16, s)
     else do {
       (dst_parent, component) \<leftarrow> walk newpath True True s;
       if dst_parent < 0 then Some (-2, s)
       else do {
         existing \<leftarrow> find_child dst_parent component s;
         if existing = src then Some (0, s)
         else if existing \<ge> 0 \<and> is_dir (nodes s existing) \<noteq> is_dir (nodes s src)
         then Some (if is_dir (nodes s existing) then -21 else -20, s)
         else if existing \<ge> 0 \<and> is_dir (nodes s existing) \<and> first_child (nodes s existing) \<ge> 0
         then Some (-39, s)
         else do {
           s \<leftarrow> (if existing \<ge> 0 then drop_name existing s else Some s);
           loop \<leftarrow> (if is_dir (nodes s src) then above src dst_parent s else Some False);
           if loop then Some (-22, s)
           else do {
             s \<leftarrow> move src dst_parent component s;
             Some (0, s)
           }
         }
       }
     }
   }"

definition has_children :: "int \<Rightarrow> ramfs \<Rightarrow> bool" where
  "has_children dir s \<longleftrightarrow> valid dir s \<and> first_child (nodes s dir) \<ge> 0"

definition ramfs64_unlink :: "string \<Rightarrow> ramfs \<Rightarrow> (int \<times> ramfs) option" where
  "ramfs64_unlink path s = do {
     i \<leftarrow> ramfs64_lookup_nofollow path s;
     if i < 0 then Some (-2, s)
     else if is_dir (nodes s i) then Some (-21, s)
     else do { s \<leftarrow> drop_name i s; Some (0, s) }
   }"

definition ramfs64_rmdir :: "string \<Rightarrow> ramfs \<Rightarrow> (int \<times> ramfs) option" where
  "ramfs64_rmdir path s = do {
     i \<leftarrow> ramfs64_lookup_nofollow path s;
     if i < 0 then Some (-2, s)
     else if \<not> is_dir (nodes s i) then Some (-20, s)
     else if i = ROOT then Some (-16, s)
     else if has_children i s then Some (-39, s)
     else do { s \<leftarrow> free_node i s; Some (0, s) }
   }"

partial_function (option) nth_sibling :: "nat \<Rightarrow> nat \<Rightarrow> int \<Rightarrow> ramfs \<Rightarrow> int option option" where
  "nth_sibling seen index i s =
     (if i \<ge> 0
      then (if seen = index then Some (Some i) else nth_sibling (add64 seen 1) index (next_sibling (nodes s i)) s)
      else Some None)"

definition ramfs64_child :: "int \<Rightarrow> nat \<Rightarrow> ramfs \<Rightarrow> int option option" where
  "ramfs64_child dir index s =
     (if \<not> valid dir s \<or> \<not> is_dir (nodes s dir) then Some None
      else nth_sibling 0 index (first_child (nodes s dir)) s)"

definition ramfs64_name :: "int \<Rightarrow> ramfs \<Rightarrow> string option" where
  "ramfs64_name n s = (if valid n s then Some (nm (nodes s n)) else None)"

definition ramfs64_data :: "int \<Rightarrow> ramfs \<Rightarrow> nat" where
  "ramfs64_data n s = (if valid n s then data (nodes s n) else 0)"

definition ramfs64_size :: "int \<Rightarrow> ramfs \<Rightarrow> nat" where
  "ramfs64_size n s = (if valid n s then fsize (nodes s n) else 0)"

definition ramfs64_mode :: "int \<Rightarrow> ramfs \<Rightarrow> nat" where
  "ramfs64_mode n s = (if valid n s then fmode (nodes s n) else 0)"

definition ramfs64_set_mode :: "int \<Rightarrow> nat \<Rightarrow> ramfs \<Rightarrow> ramfs" where
  "ramfs64_set_mode n m s = (if valid n s then nupd n (\<lambda>x. x\<lparr>fmode := m mod 4096\<rparr>) s else s)"

definition ramfs64_is_dir :: "int \<Rightarrow> ramfs \<Rightarrow> bool" where
  "ramfs64_is_dir n s \<longleftrightarrow> valid n s \<and> is_dir (nodes s n)"

definition ramfs64_parent :: "int \<Rightarrow> ramfs \<Rightarrow> int" where
  "ramfs64_parent n s = (if valid n s then parent (nodes s n) else -1)"

definition ramfs64_set_device :: "int \<Rightarrow> nat \<Rightarrow> ramfs \<Rightarrow> bool \<times> ramfs" where
  "ramfs64_set_device n d s =
     (if \<not> valid n s \<or> is_dir (nodes s n) then (False, s) else (True, nupd n (\<lambda>x. x\<lparr>device := d\<rparr>) s))"

definition ramfs64_device :: "int \<Rightarrow> ramfs \<Rightarrow> nat" where
  "ramfs64_device n s = (if valid n s then device (nodes s n) else RAMFS64_DEV_NONE)"

definition ramfs64_count :: "ramfs \<Rightarrow> nat" where "ramfs64_count s = node_count s"
definition ramfs64_seed_failures :: "ramfs \<Rightarrow> nat" where "ramfs64_seed_failures s = seed_failures s"

section \<open>Setting up\<close>

definition release_storage :: "int \<Rightarrow> ramfs \<Rightarrow> ramfs" where
  "release_storage i s =
     (if \<not> nd_used (nodes s i) then s
      else
      (let s = (if data (nodes s i) \<noteq> 0 then fs_free (data (nodes s i)) s else s)
       in if frames (nodes s i) \<noteq> 0
          then fs_free (frames (nodes s i)) (free_frames (map (farray (nodes s i)) [0..<nframes (nodes s i)]) s)
          else s))"

definition blank_nodes :: "ramfs \<Rightarrow> ramfs" where
  "blank_nodes s = s\<lparr>nodes := (\<lambda>i. if 0 \<le> i \<and> i < RAMFS64_MAX_NODES
      then (nodes s i)\<lparr>nd_used := False, data := 0, dbytes := [], capacity := 0, fsize := 0, frames := 0,
              nframes := 0, fcap := 0, first_child := -1,
              next_sibling := (if i + 1 < RAMFS64_MAX_NODES then i + 1 else -1)\<rparr>
      else nodes s i), node_free := 0, node_count := 0\<rparr>"

definition make_device :: "string \<Rightarrow> nat \<Rightarrow> ramfs \<Rightarrow> ramfs option" where
  "make_device path dev s = do {
     (n, s) \<leftarrow> ramfs64_create path False s;
     Some (if n \<ge> 0 then ramfs64_set_mode n 438 (snd (ramfs64_set_device n dev s)) else s)
   }"

definition make_file :: "string \<Rightarrow> byte list \<Rightarrow> ramfs \<Rightarrow> ramfs option" where
  "make_file path content s = do {
     (n, s) \<leftarrow> ramfs64_create path False s;
     if n \<ge> 0 then map_option snd (ramfs64_write n 0 content s) else Some s
   }"

definition passwd :: "byte list" where
  "passwd = map of_char ''root:x:0:0:root:/root:/bin/sh'' @ [10]"

definition nsswitch :: "byte list" where
  "nsswitch = map of_char ''passwd: files'' @ [10] @ map of_char ''group: files'' @ [10]
      @ map of_char ''shadow: files'' @ [10] @ map of_char ''hosts: files'' @ [10]"

definition ramfs64_init :: "ramfs \<Rightarrow> ramfs option" where
  "ramfs64_init s = do {
     (ready, s) \<leftarrow>
       (if nodes_ptr s = 0
        then do { (p, s) \<leftarrow> fs_malloc (NODE_BYTES * nat RAMFS64_MAX_NODES) s; Some (p \<noteq> 0, s\<lparr>nodes_ptr := p\<rparr>) }
        else Some (True, fold release_storage (map int [0..<nat RAMFS64_MAX_NODES]) s));
     if \<not> ready then Some s
     else do {
       let s = snd (alloc_node ''/'' (-1) True (blank_nodes s));
       (n, s) \<leftarrow> ramfs64_mkdirp ''/tmp'' s;
       (n, s) \<leftarrow> ramfs64_mkdirp ''/root'' s;
       (n, s) \<leftarrow> ramfs64_mkdirp ''/etc'' s;
       (n, s) \<leftarrow> ramfs64_mkdirp ''/dev'' s;
       s \<leftarrow> make_device ''/dev/null'' RAMFS64_DEV_NULL s;
       s \<leftarrow> make_device ''/dev/console'' RAMFS64_DEV_CON s;
       s \<leftarrow> make_file ''/etc/passwd'' passwd s;
       make_file ''/etc/nsswitch.conf'' nsswitch s
     }
   }"

definition string_at :: "memory \<Rightarrow> nat \<Rightarrow> nat \<Rightarrow> string" where
  "string_at m a n = map to_char (takeWhile (\<lambda>b. b \<noteq> 0) (bytes_at m a n))"

definition last_slash :: "string \<Rightarrow> nat option" where
  "last_slash p = find (\<lambda>c. slash (p ! c)) (rev [0..<length p])"

definition seed_one :: "memory \<Rightarrow> initrd \<Rightarrow> nat \<Rightarrow> ramfs \<Rightarrow> ramfs option" where
  "seed_one m st i s =
     (if initrd64_name st i = 0 then Some s
      else (case initrd64_open m (initrd64_name st i) st of
              (INITRD64_OK, Some (a, len)) \<Rightarrow>
                (let path = ''/'' @ string_at m (initrd64_name st i) (RAMFS64_PATH_MAX - 2)
                 in do {
                   s \<leftarrow> (case last_slash path of
                          Some k \<Rightarrow> (if k > 0 then map_option snd (ramfs64_mkdirp (take k path) s) else Some s)
                        | None \<Rightarrow> Some s);
                   (n, s) \<leftarrow> ramfs64_create path False s;
                   if n < 0 then Some (s\<lparr>seed_failures := seed_failures s + 1\<rparr>)
                   else do {
                     (w, s) \<leftarrow> ramfs64_write n 0 (bytes_at m a len) s;
                     Some (if w \<noteq> int len then s\<lparr>seed_failures := seed_failures s + 1\<rparr> else s)
                   }
                 })
            | _ \<Rightarrow> Some s))"

fun seed_loop :: "memory \<Rightarrow> initrd \<Rightarrow> nat list \<Rightarrow> ramfs \<Rightarrow> ramfs option" where
  "seed_loop m st [] s = Some s"
| "seed_loop m st (i # is) s = do { s \<leftarrow> seed_one m st i s; seed_loop m st is s }"

definition ramfs64_seed_from_initrd :: "memory \<Rightarrow> initrd \<Rightarrow> ramfs \<Rightarrow> ramfs option" where
  "ramfs64_seed_from_initrd m st s = seed_loop m st [0..<initrd64_file_count st] s"

end
