(* ===== verification/Ramfs64_Tree.thy ===== *)
theory Ramfs64_Tree
  imports Ramfs64
begin

text \<open>
  The directory tree of \<^verbatim>\<open>kernel/ramfs64.c\<close>. The nodes are threaded on singly linked lists by
  \<open>next_sibling\<close>: each directory's children, and the free nodes. \<open>tree_inv s K F X\<close> says that the table
  of \<open>s\<close> is a tree: \<open>K\<close> gives the children of every node, \<open>F\<close> is the free list, and \<open>X\<close> is a set of
  \<^emph>\<open>floating\<close> nodes, taken out of the tree in the middle of an operation and not yet put back; it is
  empty between operations. The operations are built from five moves on floating nodes, each with
  its lemma.

  The abstract directory is the map \<open>entries\<close> from names to nodes; path walking, creation,
  unlinking and renaming are shown to look up and to update exactly that map.
\<close>

section \<open>Chains of nodes\<close>

fun chain :: "(int \<Rightarrow> int) \<Rightarrow> int \<Rightarrow> int list \<Rightarrow> bool" where
  "chain nx i [] \<longleftrightarrow> i = -1"
| "chain nx i (x # xs) \<longleftrightarrow> i = x \<and> 0 \<le> x \<and> chain nx (nx x) xs"

lemma chain_cong: "(\<And>x. x \<in> set xs \<Longrightarrow> nx x = ny x) \<Longrightarrow> chain nx i xs = chain ny i xs"
  by (induction xs arbitrary: i) auto

lemma chain_upd [simp]: "x \<notin> set xs \<Longrightarrow> chain (nx(x := y)) i xs = chain nx i xs"
  by (rule chain_cong) auto

lemma chain_nonneg: "chain nx i xs \<Longrightarrow> x \<in> set xs \<Longrightarrow> 0 \<le> x"
  by (induction xs arbitrary: i) auto

lemma chain_empty: "chain nx i xs \<Longrightarrow> i < 0 \<longleftrightarrow> xs = []"
  by (cases xs) auto

lemma chain_unlink:
  "chain nx i (us @ c # n # vs) \<Longrightarrow> distinct (us @ c # n # vs) \<Longrightarrow> chain (nx(c := nx n)) i (us @ c # vs)"
  by (induction us arbitrary: i) auto

lemma before_finds:
  "chain (\<lambda>x. next_sibling (nodes s x)) i (us @ c # n # vs) \<Longrightarrow> distinct (us @ c # n # vs) \<Longrightarrow> before n i s = Some c"
proof (induction us arbitrary: i)
  case Nil
  then show ?case by (subst before.simps) auto
next
  case (Cons u us)
  have "u \<noteq> n" and "next_sibling (nodes s u) \<noteq> n" using Cons.prems by (cases us; auto)+
  then show ?case using Cons by (subst before.simps) auto
qed

lemma child_loop_finds:
  "chain (\<lambda>x. next_sibling (nodes s x)) i xs \<Longrightarrow>
   child_loop name i s = Some (case find (\<lambda>c. nm (nodes s c) = name) xs of Some c \<Rightarrow> c | None \<Rightarrow> -1)"
  by (induction xs arbitrary: i) (subst child_loop.simps; auto)+

lemma nth_sibling_finds:
  "chain (\<lambda>x. next_sibling (nodes s x)) i xs \<Longrightarrow> seen \<le> index \<Longrightarrow> index < 2 ^ 64 - 1 \<Longrightarrow>
   nth_sibling seen index i s = Some (if index - seen < length xs then Some (xs ! (index - seen)) else None)"
proof (induction xs arbitrary: i seen)
  case (Cons x xs)
  show ?case
  proof (cases "seen = index")
    case False
    then have "add64 seen 1 = seen + 1" using Cons.prems by (simp add: add64_exact)
    moreover have "index - seen = Suc (index - Suc seen)" using False Cons.prems by simp
    ultimately show ?thesis using False Cons by (subst nth_sibling.simps) auto
  qed (use Cons.prems in \<open>subst nth_sibling.simps; auto\<close>)
qed (subst nth_sibling.simps; auto)

section \<open>The invariant\<close>

definition in_range :: "int \<Rightarrow> bool" where
  "in_range i \<longleftrightarrow> 0 \<le> i \<and> i < RAMFS64_MAX_NODES"

definition alive :: "ramfs \<Rightarrow> int \<Rightarrow> bool" where
  "alive s i \<longleftrightarrow> in_range i \<and> nd_used (nodes s i)"

definition name_ok :: "string \<Rightarrow> bool" where
  "name_ok n \<longleftrightarrow> n \<noteq> [] \<and> length n < RAMFS64_NAME_MAX \<and> CHR ''/'' \<notin> set n"

abbreviation nx :: "ramfs \<Rightarrow> int \<Rightarrow> int" where "nx s i \<equiv> next_sibling (nodes s i)"
abbreviation name_of :: "ramfs \<Rightarrow> int \<Rightarrow> string" where "name_of s i \<equiv> nm (nodes s i)"
abbreviation par :: "ramfs \<Rightarrow> int \<Rightarrow> int" where "par s i \<equiv> parent (nodes s i)"

definition edges :: "ramfs \<Rightarrow> int set \<Rightarrow> (int \<times> int) set" where
  "edges s X = {(par s c, c) | c. alive s c \<and> c \<notin> X \<and> 0 \<le> par s c}"

definition free_ok :: "ramfs \<Rightarrow> int list \<Rightarrow> bool" where
  "free_ok s F \<longleftrightarrow> chain (nx s) (node_free s) F \<and> distinct F \<and> set F = {i. in_range i \<and> \<not> nd_used (nodes s i)}"

definition kids_ok :: "ramfs \<Rightarrow> (int \<Rightarrow> int list) \<Rightarrow> int set \<Rightarrow> int \<Rightarrow> bool" where
  "kids_ok s K X d \<longleftrightarrow> chain (nx s) (first_child (nodes s d)) (K d) \<and> distinct (map (name_of s) (K d))
     \<and> (K d \<noteq> [] \<longrightarrow> is_dir (nodes s d) \<and> \<not> unlinked (nodes s d))
     \<and> (\<forall>c \<in> set (K d). alive s c \<and> par s c = d \<and> c \<notin> X \<and> c \<noteq> 0 \<and> \<not> unlinked (nodes s c) \<and> name_ok (name_of s c))"

definition up_ok :: "ramfs \<Rightarrow> (int \<Rightarrow> int list) \<Rightarrow> int \<Rightarrow> bool" where
  "up_ok s K c \<longleftrightarrow> (if 0 \<le> par s c then alive s (par s c) \<and> c \<in> set (K (par s c)) else c = 0 \<or> unlinked (nodes s c))
     \<and> (unlinked (nodes s c) \<longrightarrow> openers (nodes s c) > 0)"

definition flags_ok :: "ramfs \<Rightarrow> int \<Rightarrow> bool" where
  "flags_ok s c \<longleftrightarrow> openers (nodes s c) \<ge> 0 \<and> (is_link (nodes s c) \<longrightarrow> \<not> is_dir (nodes s c))"

definition root_ok :: "ramfs \<Rightarrow> bool" where
  "root_ok s \<longleftrightarrow> alive s 0 \<and> is_dir (nodes s 0) \<and> par s 0 = -1 \<and> \<not> unlinked (nodes s 0)"

definition tree_inv :: "ramfs \<Rightarrow> (int \<Rightarrow> int list) \<Rightarrow> int list \<Rightarrow> int set \<Rightarrow> bool" where
  "tree_inv s K F X \<longleftrightarrow> nodes_ptr s \<noteq> 0 \<and> free_ok s F \<and> root_ok s \<and> 0 \<notin> X \<and> (\<forall>x \<in> X. alive s x)
     \<and> (\<forall>d. alive s d \<longrightarrow> kids_ok s K X d \<and> flags_ok s d \<and> (d \<notin> X \<longrightarrow> up_ok s K d))
     \<and> acyclic (edges s X) \<and> node_count s = card {i. alive s i}"

lemma tree_invD:
  assumes "tree_inv s K F X"
  shows "nodes_ptr s \<noteq> 0" "free_ok s F" "root_ok s" "0 \<notin> X" "\<And>x. x \<in> X \<Longrightarrow> alive s x"
    "\<And>d. alive s d \<Longrightarrow> kids_ok s K X d" "\<And>d. alive s d \<Longrightarrow> flags_ok s d"
    "\<And>d. alive s d \<Longrightarrow> d \<notin> X \<Longrightarrow> up_ok s K d"
    "acyclic (edges s X)" "node_count s = card {i. alive s i}"
  using assms by (auto simp: tree_inv_def)

lemma valid_live: "nodes_ptr s \<noteq> 0 \<Longrightarrow> valid n s \<longleftrightarrow> alive s n"
  by (auto simp: valid_def alive_def in_range_def)

lemma live_finite: "finite {i. alive s i}"
proof -
  have "{i. alive s i} \<subseteq> {0..<RAMFS64_MAX_NODES}" by (auto simp: alive_def in_range_def)
  then show ?thesis by (rule finite_subset) simp
qed

lemma kidsD:
  assumes "tree_inv s K F X" and "alive s d"
  shows "chain (nx s) (first_child (nodes s d)) (K d)" "distinct (map (name_of s) (K d))" "distinct (K d)"
    "K d \<noteq> [] \<Longrightarrow> is_dir (nodes s d) \<and> \<not> unlinked (nodes s d)"
    "\<And>c. c \<in> set (K d) \<Longrightarrow> alive s c \<and> par s c = d \<and> c \<notin> X \<and> c \<noteq> 0 \<and> \<not> unlinked (nodes s c) \<and> name_ok (name_of s c)"
  using tree_invD(6) [OF assms] by (auto simp: kids_ok_def distinct_map)

text \<open>What the invariant reads of a node; storage and permissions do not matter.\<close>

definition shape :: "node64 \<Rightarrow> string \<times> int \<times> bool \<times> bool \<times> int \<times> bool \<times> bool \<times> int \<times> int" where
  "shape x = (nm x, parent x, is_dir x, is_link x, openers x, unlinked x, nd_used x, first_child x, next_sibling x)"

definition same_tree :: "ramfs \<Rightarrow> ramfs \<Rightarrow> bool" where
  "same_tree s t \<longleftrightarrow> nodes_ptr t = nodes_ptr s \<and> node_free t = node_free s \<and> node_count t = node_count s
     \<and> (\<forall>i. shape (nodes t i) = shape (nodes s i))"

lemma same_treeD:
  assumes "same_tree s t"
  shows "nodes_ptr t = nodes_ptr s" "node_free t = node_free s" "node_count t = node_count s"
    "nm (nodes t i) = nm (nodes s i)" "parent (nodes t i) = parent (nodes s i)" "is_dir (nodes t i) = is_dir (nodes s i)"
    "is_link (nodes t i) = is_link (nodes s i)" "openers (nodes t i) = openers (nodes s i)"
    "unlinked (nodes t i) = unlinked (nodes s i)" "nd_used (nodes t i) = nd_used (nodes s i)"
    "first_child (nodes t i) = first_child (nodes s i)" "next_sibling (nodes t i) = next_sibling (nodes s i)"
proof -
  have "shape (nodes t i) = shape (nodes s i)" using assms by (simp add: same_tree_def)
  then show "nm (nodes t i) = nm (nodes s i)" "parent (nodes t i) = parent (nodes s i)" "is_dir (nodes t i) = is_dir (nodes s i)"
    "is_link (nodes t i) = is_link (nodes s i)" "openers (nodes t i) = openers (nodes s i)"
    "unlinked (nodes t i) = unlinked (nodes s i)" "nd_used (nodes t i) = nd_used (nodes s i)"
    "first_child (nodes t i) = first_child (nodes s i)" "next_sibling (nodes t i) = next_sibling (nodes s i)"
    unfolding shape_def prod.inject by blast+
qed (use assms in \<open>simp_all add: same_tree_def\<close>)

lemma same_tree_live: "same_tree s t \<Longrightarrow> alive t i = alive s i"
  by (simp add: alive_def same_treeD)

lemma same_tree_inv:
  assumes st: "same_tree s t" and inv: "tree_inv s K F X"
  shows "tree_inv t K F X"
proof -
  note d = same_treeD [OF st] and l = same_tree_live [OF st]
  have "edges t X = edges s X" "free_ok t F = free_ok s F" "root_ok t = root_ok s"
    "\<And>d. kids_ok t K X d = kids_ok s K X d" "\<And>c. flags_ok t c = flags_ok s c" "\<And>c. up_ok t K c = up_ok s K c"
    by (simp_all only: edges_def free_ok_def root_ok_def kids_ok_def flags_ok_def up_ok_def l d)
  then show ?thesis using inv unfolding tree_inv_def l d(1,3) by (simp only: simp_thms) blast
qed

lemma same_tree_refl [simp]: "same_tree s s"
  by (simp add: same_tree_def)

lemma same_tree_trans: "same_tree r s \<Longrightarrow> same_tree s t \<Longrightarrow> same_tree r t"
  by (simp add: same_tree_def)

lemma same_tree_nupd: "(\<And>x. shape (f x) = shape x) \<Longrightarrow> same_tree s (nupd n f s)"
  by (simp add: same_tree_def nupd_def)

lemma nupd_fields [simp]:
  "nodes_ptr (nupd n f s) = nodes_ptr s" "node_free (nupd n f s) = node_free s"
  "node_count (nupd n f s) = node_count s" "kh (nupd n f s) = kh s" "seed_failures (nupd n f s) = seed_failures s"
  "nodes (nupd n f s) i = (if i = n then f (nodes s n) else nodes s i)"
  by (simp_all add: nupd_def)

section \<open>Moves on floating nodes\<close>

text \<open>Every move changes the shape of one node and the links of at most one other. The facts below
  read the fields of all other nodes back.\<close>

definition same_off :: "int set \<Rightarrow> ramfs \<Rightarrow> ramfs \<Rightarrow> bool" where
  "same_off A s t \<longleftrightarrow> nodes_ptr t = nodes_ptr s \<and> (\<forall>i. i \<notin> A \<longrightarrow> shape (nodes t i) = shape (nodes s i))"

lemma same_offD:
  assumes "same_off A s t" and "i \<notin> A"
  shows "nm (nodes t i) = nm (nodes s i)" "parent (nodes t i) = parent (nodes s i)" "is_dir (nodes t i) = is_dir (nodes s i)"
    "is_link (nodes t i) = is_link (nodes s i)" "openers (nodes t i) = openers (nodes s i)"
    "unlinked (nodes t i) = unlinked (nodes s i)" "nd_used (nodes t i) = nd_used (nodes s i)"
    "first_child (nodes t i) = first_child (nodes s i)" "next_sibling (nodes t i) = next_sibling (nodes s i)"
    "alive t i = alive s i"
proof -
  have "shape (nodes t i) = shape (nodes s i)" using assms by (simp add: same_off_def)
  then show "nm (nodes t i) = nm (nodes s i)" "parent (nodes t i) = parent (nodes s i)" "is_dir (nodes t i) = is_dir (nodes s i)"
    "is_link (nodes t i) = is_link (nodes s i)" "openers (nodes t i) = openers (nodes s i)"
    "unlinked (nodes t i) = unlinked (nodes s i)" "nd_used (nodes t i) = nd_used (nodes s i)"
    "first_child (nodes t i) = first_child (nodes s i)" "next_sibling (nodes t i) = next_sibling (nodes s i)"
    "alive t i = alive s i"
    unfolding shape_def prod.inject alive_def by blast+
qed

lemma free_not_alive: "free_ok s F \<Longrightarrow> i \<in> set F \<Longrightarrow> \<not> alive s i"
  by (auto simp: free_ok_def alive_def)

lemma kid_not_floating: "tree_inv s K F X \<Longrightarrow> alive s d \<Longrightarrow> x \<in> X \<Longrightarrow> x \<notin> set (K d)"
  using kidsD(5) by blast

lemma free_ok_cong:
  assumes "free_ok s F" and "node_free t = node_free s" and "\<And>i. nd_used (nodes t i) = nd_used (nodes s i)"
    and "\<And>i. i \<in> set F \<Longrightarrow> nx t i = nx s i"
  shows "free_ok t F"
  using assms(1) chain_cong [of F "nx t" "nx s" "node_free s"] assms(4) by (simp add: free_ok_def assms(2,3))

lemma kids_ok_cong:
  assumes "kids_ok s K X d" and "K' d = K d" and "first_child (nodes t d) = first_child (nodes s d)"
    and "is_dir (nodes t d) = is_dir (nodes s d)" and "unlinked (nodes t d) = unlinked (nodes s d)"
    and "\<And>c. c \<in> set (K d) \<Longrightarrow> nx t c = nx s c \<and> name_of t c = name_of s c \<and> alive t c = alive s c \<and> par t c = par s c
           \<and> unlinked (nodes t c) = unlinked (nodes s c) \<and> c \<notin> X'"
  shows "kids_ok t K' X' d"
proof -
  have "chain (nx t) i (K d) = chain (nx s) i (K d)" for i using assms(6) by (intro chain_cong) blast
  moreover have "map (name_of t) (K d) = map (name_of s) (K d)" using assms(6) by (intro map_cong) auto
  then have "distinct (map (name_of t) (K d)) = distinct (map (name_of s) (K d))" by (rule arg_cong)
  moreover have "\<forall>c \<in> set (K d). (alive t c \<and> par t c = d \<and> c \<notin> X' \<and> c \<noteq> 0 \<and> \<not> unlinked (nodes t c) \<and> name_ok (name_of t c))"
    using assms(1,6) by (auto simp: kids_ok_def)
  ultimately show ?thesis using assms(1) unfolding kids_ok_def assms(2-5) by simp
qed

text \<open>A floating node may be renamed, given another parent or another sibling.\<close>

lemma float_upd_inv:
  assumes inv: "tree_inv s K F X" and n: "n \<in> X"
    and f: "\<And>x. nd_used (f x) = nd_used x \<and> first_child (f x) = first_child x \<and> is_dir (f x) = is_dir x
            \<and> is_link (f x) = is_link x \<and> openers (f x) = openers x \<and> unlinked (f x) = unlinked x"
  shows "tree_inv (nupd n f s) K F X"
proof -
  define t where "t = nupd n f s"
  note D = tree_invD [OF inv]
  have fl: "nodes_ptr t = nodes_ptr s" "node_free t = node_free s" "node_count t = node_count s"
    "nd_used (nodes t i) = nd_used (nodes s i)" "first_child (nodes t i) = first_child (nodes s i)"
    "is_dir (nodes t i) = is_dir (nodes s i)" "is_link (nodes t i) = is_link (nodes s i)"
    "openers (nodes t i) = openers (nodes s i)" "unlinked (nodes t i) = unlinked (nodes s i)" for i
    using f by (auto simp: t_def)
  have off: "nodes t i = nodes s i" if "i \<noteq> n" for i using that by (simp add: t_def)
  have l: "alive t i = alive s i" for i by (simp add: alive_def fl)
  have an: "alive s n" and n0: "n \<noteq> 0" using D(4,5) n by blast+
  have "n \<notin> set F" using free_not_alive [OF D(2)] an by blast
  then have "free_ok t F" using off by (intro free_ok_cong [OF D(2)]) (auto simp: fl, metis)
  moreover have "root_ok t" using D(3) off [of 0] n0 l by (simp add: root_ok_def)
  moreover have "kids_ok t K X d" if d: "alive s d" for d
  proof (rule kids_ok_cong [OF D(6) [OF d]])
    fix c assume c: "c \<in> set (K d)"
    then have "c \<noteq> n" "c \<notin> X" using kid_not_floating [OF inv d] n by blast+
    then show "nx t c = nx s c \<and> name_of t c = name_of s c \<and> alive t c = alive s c \<and> par t c = par s c
           \<and> unlinked (nodes t c) = unlinked (nodes s c) \<and> c \<notin> X" using off l by simp
  qed (simp_all add: fl)
  moreover have "flags_ok t d" if "alive s d" for d using D(7) [OF that] by (simp add: flags_ok_def fl)
  moreover have "up_ok t K d" if "alive s d" "d \<notin> X" for d
  proof -
    have "d \<noteq> n" using n that(2) by blast
    then show ?thesis using D(8) [OF that] off by (simp add: up_ok_def l)
  qed
  moreover have "edges t X = edges s X" using n off by (auto simp: edges_def l) metis+
  ultimately show ?thesis unfolding t_def [symmetric] using D(1,4,5,9,10) by (simp add: tree_inv_def l fl)
qed

text \<open>A floating node becomes the first child of a directory.\<close>

lemma attach_inv:
  assumes inv: "tree_inv s K F X" and n: "n \<in> X" "\<not> unlinked (nodes s n)"
    and p: "alive s p" "is_dir (nodes s p)" "\<not> unlinked (nodes s p)" "n \<noteq> p"
    and ac: "(n, p) \<notin> (edges s X)\<^sup>*"
    and nm: "name_ok (name_of s n)" "name_of s n \<notin> name_of s ` set (K p)"
    and lnk: "par s n = p" "nx s n = first_child (nodes s p)"
  shows "tree_inv (nupd p (\<lambda>x. x\<lparr>first_child := n\<rparr>) s) (K(p := n # K p)) F (X - {n})"
proof -
  define t where "t = nupd p (\<lambda>x. x\<lparr>first_child := n\<rparr>) s"
  let ?K = "K(p := n # K p)"
  note D = tree_invD [OF inv]
  have fl: "nodes_ptr t = nodes_ptr s" "node_free t = node_free s" "node_count t = node_count s"
    "nx t i = nx s i" "name_of t i = name_of s i" "par t i = par s i" "is_dir (nodes t i) = is_dir (nodes s i)"
    "is_link (nodes t i) = is_link (nodes s i)" "openers (nodes t i) = openers (nodes s i)"
    "unlinked (nodes t i) = unlinked (nodes s i)" "nd_used (nodes t i) = nd_used (nodes s i)"
    "first_child (nodes t i) = (if i = p then n else first_child (nodes s i))" for i by (auto simp: t_def)
  have l: "alive t i = alive s i" for i by (simp add: alive_def fl)
  have an: "alive s n" and n0: "n \<noteq> 0" using D(4,5) n(1) by blast+
  have p0: "0 \<le> p" using p(1) by (simp add: alive_def in_range_def)
  have nn: "0 \<le> n" using an by (simp add: alive_def in_range_def)
  have "free_ok t F" by (rule free_ok_cong [OF D(2)]) (simp_all add: fl)
  moreover have "root_ok t" using D(3) by (simp add: root_ok_def fl l)
  moreover have "kids_ok t ?K (X - {n}) d" if d: "alive s d" for d
  proof (cases "d = p")
    case True
    then show ?thesis
      using D(6) [OF d] p n(2) nm lnk an n0 nn by (auto simp: kids_ok_def fl l)
  next
    case False
    then show ?thesis
      using kidsD(5) [OF inv d] by (intro kids_ok_cong [OF D(6) [OF d]]) (simp_all add: fl l)
  qed
  moreover have "flags_ok t d" if "alive s d" for d using D(7) [OF that] by (simp add: flags_ok_def fl)
  moreover have "up_ok t ?K d" if "alive s d" "d \<notin> X - {n}" for d
  proof (cases "d = n")
    case True
    then show ?thesis using p p0 lnk n(2) by (simp add: up_ok_def fl l)
  next
    case False
    then show ?thesis using D(8) [OF that(1)] that(2) by (auto simp: up_ok_def fl l)
  qed
  moreover have "acyclic (edges t (X - {n}))"
  proof -
    have "edges t (X - {n}) = insert (p, n) (edges s X)" using lnk an p0 by (auto simp: edges_def fl l)
    then show ?thesis using D(9) ac by simp
  qed
  ultimately show ?thesis unfolding t_def [symmetric] using D(1,4,5,10) by (simp add: tree_inv_def fl l)
qed

text \<open>A floating node without children loses its name for good but stays open.\<close>

lemma orphan_inv:
  assumes inv: "tree_inv s K F X" and n: "n \<in> X" "K n = []" "par s n = -1" "openers (nodes s n) > 0"
  shows "tree_inv (nupd n (\<lambda>x. x\<lparr>unlinked := True\<rparr>) s) K F (X - {n})"
proof -
  define t where "t = nupd n (\<lambda>x. x\<lparr>unlinked := True\<rparr>) s"
  note D = tree_invD [OF inv]
  have fl: "nodes_ptr t = nodes_ptr s" "node_free t = node_free s" "node_count t = node_count s"
    "nx t i = nx s i" "name_of t i = name_of s i" "par t i = par s i" "is_dir (nodes t i) = is_dir (nodes s i)"
    "is_link (nodes t i) = is_link (nodes s i)" "openers (nodes t i) = openers (nodes s i)"
    "nd_used (nodes t i) = nd_used (nodes s i)" "first_child (nodes t i) = first_child (nodes s i)"
    "unlinked (nodes t i) = (i = n \<or> unlinked (nodes s i))" for i by (auto simp: t_def)
  have l: "alive t i = alive s i" for i by (simp add: alive_def fl)
  have n0: "n \<noteq> 0" using D(4) n(1) by blast
  have "free_ok t F" by (rule free_ok_cong [OF D(2)]) (simp_all add: fl)
  moreover have "root_ok t" using D(3) n0 by (simp add: root_ok_def fl l)
  moreover have "kids_ok t K (X - {n}) d" if d: "alive s d" for d
    using D(6) [OF d] kid_not_floating [OF inv d n(1)] n(2) by (cases "d = n") (auto simp: kids_ok_def fl l)
  moreover have "flags_ok t d" if "alive s d" for d using D(7) [OF that] by (simp add: flags_ok_def fl)
  moreover have "up_ok t K d" if "alive s d" "d \<notin> X - {n}" for d
    using D(8) [OF that(1)] that(2) n(3,4) by (cases "d = n") (auto simp: up_ok_def fl l)
  moreover have "edges t (X - {n}) = edges s X" using n(3) by (auto simp: edges_def fl l)
  ultimately show ?thesis unfolding t_def [symmetric] using D(1,4,5,9,10) by (simp add: tree_inv_def fl l)
qed

text \<open>A floating node without children goes to the head of the free list.\<close>

lemma release_inv:
  assumes inv: "tree_inv s K F X" and n: "n \<in> X" "K n = []"
    and t: "same_off {n} s t" "node_free t = n" "\<not> nd_used (nodes t n)" "nx t n = node_free s" "node_count t = node_count s - 1"
  shows "tree_inv t K (n # F) (X - {n})"
proof -
  note D = tree_invD [OF inv]
  have an: "alive s n" and n0: "n \<noteq> 0" using D(4,5) n(1) by blast+
  have fl: "name_of t i = name_of s i" "par t i = par s i" "is_dir (nodes t i) = is_dir (nodes s i)"
    "is_link (nodes t i) = is_link (nodes s i)" "openers (nodes t i) = openers (nodes s i)" "unlinked (nodes t i) = unlinked (nodes s i)"
    "nd_used (nodes t i) = nd_used (nodes s i)" "first_child (nodes t i) = first_child (nodes s i)" "nx t i = nx s i"
    if "i \<noteq> n" for i using same_offD [OF t(1), of i] that by auto
  have l: "alive t i \<longleftrightarrow> alive s i \<and> i \<noteq> n" for i using fl(7) [of i] t(3) by (auto simp: alive_def)
  have nF: "n \<notin> set F" using free_not_alive [OF D(2)] an by blast
  have "chain (nx t) (node_free s) F = chain (nx s) (node_free s) F" using nF fl(9) by (intro chain_cong) metis
  moreover have "set (n # F) = {i. in_range i \<and> \<not> nd_used (nodes t i)}"
  proof -
    have "nd_used (nodes t i) \<longleftrightarrow> nd_used (nodes s i) \<and> i \<noteq> n" for i using fl(7) [of i] t(3) by auto
    moreover have "in_range n" using an by (simp add: alive_def)
    ultimately show ?thesis using D(2) by (auto simp: free_ok_def)
  qed
  ultimately have "free_ok t (n # F)" using D(2) nF t(2,4) an by (simp add: free_ok_def alive_def in_range_def)
  moreover have "root_ok t" using D(3) n0 by (simp add: root_ok_def fl l)
  moreover have "kids_ok t K (X - {n}) d" if d: "alive t d" for d
  proof (rule kids_ok_cong [OF D(6)])
    show "alive s d" using d l by blast
    fix c assume c: "c \<in> set (K d)"
    then have "c \<noteq> n" using kid_not_floating [OF inv \<open>alive s d\<close> n(1)] by blast
    then show "nx t c = nx s c \<and> name_of t c = name_of s c \<and> alive t c = alive s c \<and> par t c = par s c
           \<and> unlinked (nodes t c) = unlinked (nodes s c) \<and> c \<notin> X - {n}"
      using fl [of c] l [of c] kidsD(5) [OF inv \<open>alive s d\<close> c] by blast
  qed (use d l fl in auto)
  moreover have "flags_ok t d" if "alive t d" for d using D(7) [of d] that l fl by (auto simp: flags_ok_def)
  moreover have "up_ok t K d" if d: "alive t d" "d \<notin> X - {n}" for d
  proof -
    have ds: "alive s d" "d \<noteq> n" "d \<notin> X" using d l by auto
    have "0 \<le> par s d \<Longrightarrow> par s d \<noteq> n" using D(8) [OF ds(1,3)] n(2) by (auto simp: up_ok_def)
    then show ?thesis using D(8) [OF ds(1,3)] ds fl l by (auto simp: up_ok_def)
  qed
  moreover have "edges t (X - {n}) \<subseteq> edges s X" using l fl by (auto simp: edges_def)
  then have "acyclic (edges t (X - {n}))" using D(9) acyclic_subset by blast
  moreover have "node_count t = card {i. alive t i}"
  proof -
    have "{i. alive t i} = {i. alive s i} - {n}" using l by blast
    then show ?thesis using t(5) D(10) an live_finite by (simp add: card_Diff_singleton)
  qed
  moreover have "nodes_ptr t = nodes_ptr s" using t(1) by (simp add: same_off_def)
  ultimately show ?thesis using D(1,4,5) l by (simp add: tree_inv_def)
qed

text \<open>The head of the free list becomes a floating node without children.\<close>

lemma take_inv:
  assumes inv: "tree_inv s K (n # F) X"
    and t: "same_off {n} s t" "node_free t = nx s n" "node_count t = node_count s + 1"
      "nd_used (nodes t n)" "first_child (nodes t n) = -1" "openers (nodes t n) = 0" "\<not> is_link (nodes t n)"
  shows "tree_inv t (K(n := [])) F (insert n X)"
proof -
  note D = tree_invD [OF inv]
  have F: "node_free s = n" "0 \<le> n" "chain (nx s) (nx s n) F" "n \<notin> set F" "distinct F"
    "insert n (set F) = {i. in_range i \<and> \<not> nd_used (nodes s i)}" using D(2) by (auto simp: free_ok_def)
  have dn: "\<not> alive s n" and rn: "in_range n" using F(6) by (auto simp: alive_def)
  have n0: "n \<noteq> 0" using D(3) dn by (auto simp: root_ok_def)
  have fl: "name_of t i = name_of s i" "par t i = par s i" "is_dir (nodes t i) = is_dir (nodes s i)"
    "is_link (nodes t i) = is_link (nodes s i)" "openers (nodes t i) = openers (nodes s i)" "unlinked (nodes t i) = unlinked (nodes s i)"
    "nd_used (nodes t i) = nd_used (nodes s i)" "first_child (nodes t i) = first_child (nodes s i)" "nx t i = nx s i"
    if "i \<noteq> n" for i using same_offD [OF t(1), of i] that by auto
  have l: "alive t i \<longleftrightarrow> alive s i \<or> i = n" for i using fl(7) [of i] t(4) rn by (auto simp: alive_def)
  have "chain (nx t) (nx s n) F = chain (nx s) (nx s n) F" using F(4) fl(9) by (intro chain_cong) metis
  moreover have "set F = {i. in_range i \<and> \<not> nd_used (nodes t i)}"
  proof -
    have "nd_used (nodes t i) \<longleftrightarrow> nd_used (nodes s i) \<or> i = n" for i using fl(7) [of i] t(4) by auto
    then show ?thesis using F(4,6) by auto
  qed
  ultimately have "free_ok t F" using F t(2) by (simp add: free_ok_def)
  moreover have "root_ok t" using D(3) n0 by (simp add: root_ok_def fl l)
  moreover have "kids_ok t (K(n := [])) (insert n X) d" if d: "alive t d" for d
  proof (cases "d = n")
    case True
    then show ?thesis using t(5) by (simp add: kids_ok_def)
  next
    case False
    then have ds: "alive s d" using d l by blast
    show ?thesis
    proof (rule kids_ok_cong [OF D(6) [OF ds]])
      fix c assume c: "c \<in> set (K d)"
      have k: "alive s c" "c \<notin> X" using kidsD(5) [OF inv ds c] by blast+
      then have "c \<noteq> n" using dn by blast
      then show "nx t c = nx s c \<and> name_of t c = name_of s c \<and> alive t c = alive s c \<and> par t c = par s c
           \<and> unlinked (nodes t c) = unlinked (nodes s c) \<and> c \<notin> insert n X" using fl [of c] l [of c] k by blast
    qed (use False fl in auto)
  qed
  moreover have "flags_ok t d" if "alive t d" for d
    using D(7) [of d] that l fl t(6,7) by (cases "d = n") (auto simp: flags_ok_def)
  moreover have "up_ok t (K(n := [])) d" if d: "alive t d" "d \<notin> insert n X" for d
  proof -
    have ds: "alive s d" "d \<noteq> n" "d \<notin> X" using d l by auto
    have "0 \<le> par s d \<Longrightarrow> par s d \<noteq> n" using D(8) [OF ds(1,3)] dn by (auto simp: up_ok_def)
    then show ?thesis using D(8) [OF ds(1,3)] ds fl l by (auto simp: up_ok_def)
  qed
  moreover have "edges t (insert n X) = edges s X"
  proof -
    have "alive t c \<and> c \<notin> insert n X \<longleftrightarrow> alive s c \<and> c \<notin> X" for c using l dn by auto
    moreover have "par t c = par s c" if "alive s c" for c using fl(2) [of c] dn that by blast
    ultimately show ?thesis unfolding edges_def by (auto; metis)
  qed
  then have "acyclic (edges t (insert n X))" using D(9) by simp
  moreover have "node_count t = card {i. alive t i}"
  proof -
    have "{i. alive t i} = insert n {i. alive s i}" using l by blast
    then show ?thesis using t(3) D(10) dn live_finite by simp
  qed
  moreover have "nodes_ptr t = nodes_ptr s" using t(1) by (simp add: same_off_def)
  ultimately show ?thesis using D(1,4,5) l n0 by (simp add: tree_inv_def)
qed

text \<open>A child is taken out of its parent's list and floats. Only list links change.\<close>

definition relinked :: "ramfs \<Rightarrow> ramfs \<Rightarrow> bool" where
  "relinked s t \<longleftrightarrow> nodes_ptr t = nodes_ptr s \<and> node_free t = node_free s \<and> node_count t = node_count s
     \<and> kh t = kh s \<and> seed_failures t = seed_failures s
     \<and> (\<forall>i. \<exists>a b. nodes t i = (nodes s i)\<lparr>first_child := a, next_sibling := b\<rparr>)"

lemma relinkedD:
  assumes "relinked s t"
  shows "nodes_ptr t = nodes_ptr s" "node_free t = node_free s" "node_count t = node_count s" "kh t = kh s"
    "nm (nodes t i) = nm (nodes s i)" "parent (nodes t i) = parent (nodes s i)" "is_dir (nodes t i) = is_dir (nodes s i)"
    "is_link (nodes t i) = is_link (nodes s i)" "openers (nodes t i) = openers (nodes s i)"
    "unlinked (nodes t i) = unlinked (nodes s i)" "nd_used (nodes t i) = nd_used (nodes s i)" "alive t i = alive s i"
proof -
  obtain a b where "nodes t i = (nodes s i)\<lparr>first_child := a, next_sibling := b\<rparr>"
    using assms unfolding relinked_def by blast
  then show "nm (nodes t i) = nm (nodes s i)" "parent (nodes t i) = parent (nodes s i)" "is_dir (nodes t i) = is_dir (nodes s i)"
    "is_link (nodes t i) = is_link (nodes s i)" "openers (nodes t i) = openers (nodes s i)"
    "unlinked (nodes t i) = unlinked (nodes s i)" "nd_used (nodes t i) = nd_used (nodes s i)" "alive t i = alive s i"
    by (simp_all add: alive_def)
qed (use assms in \<open>simp_all add: relinked_def\<close>)

lemma relinked_nupd:
  "relinked s (nupd i (\<lambda>x. x\<lparr>first_child := a\<rparr>) s)" "relinked s (nupd i (\<lambda>x. x\<lparr>next_sibling := b\<rparr>) s)"
proof -
  have "x\<lparr>first_child := first_child x, next_sibling := next_sibling x\<rparr> = x" for x :: node64 by simp
  moreover have "x\<lparr>first_child := a\<rparr> = x\<lparr>first_child := a, next_sibling := next_sibling x\<rparr>"
    "x\<lparr>next_sibling := b\<rparr> = x\<lparr>first_child := first_child x, next_sibling := b\<rparr>" for x :: node64 by simp_all
  ultimately show "relinked s (nupd i (\<lambda>x. x\<lparr>first_child := a\<rparr>) s)" "relinked s (nupd i (\<lambda>x. x\<lparr>next_sibling := b\<rparr>) s)"
    unfolding relinked_def nupd_fields by (metis (no_types))+
qed

lemma unlist_inv:
  assumes inv: "tree_inv s K F X" and p: "alive s p" "K p = us @ n # vs" and rl: "relinked s t"
    and ch: "chain (nx t) (first_child (nodes t p)) (us @ vs)"
    and fc: "\<And>d. d \<noteq> p \<Longrightarrow> first_child (nodes t d) = first_child (nodes s d)"
    and nxt: "\<And>i. i \<notin> set (K p) \<Longrightarrow> nx t i = nx s i"
  shows "tree_inv t (K(p := us @ vs)) F (insert n X)"
proof -
  note D = tree_invD [OF inv] and fl = relinkedD [OF rl] and k = kidsD [OF inv p(1)]
  have n: "alive s n" "par s n = p" "n \<notin> X" "n \<noteq> 0" using k(5) [of n] p(2) by auto
  have nuv: "n \<notin> set (us @ vs)" using k(3) p(2) by simp
  have "free_ok t F"
  proof (rule free_ok_cong [OF D(2)])
    fix i assume "i \<in> set F"
    then show "nx t i = nx s i" using free_not_alive [OF D(2)] k(5) nxt by blast
  qed (simp_all add: fl)
  moreover have "root_ok t" using D(3) by (simp add: root_ok_def fl)
  moreover have "kids_ok t (K(p := us @ vs)) (insert n X) d" if d: "alive s d" for d
  proof (cases "d = p")
    case True
    have "distinct (map (name_of t) (us @ vs))" using k(2) p(2) by (simp add: fl)
    then show ?thesis using True ch k(4,5) p(2) nuv by (auto simp: kids_ok_def fl)
  next
    case False
    then show ?thesis
    proof (intro kids_ok_cong [OF D(6) [OF d]])
      fix c assume c: "c \<in> set (K d)"
      then have "c \<notin> set (K p)" "c \<noteq> n" "c \<notin> X" using kidsD(5) [OF inv d c] k(5) [of c] n(2) False by auto
      then show "nx t c = nx s c \<and> name_of t c = name_of s c \<and> alive t c = alive s c \<and> par t c = par s c
           \<and> unlinked (nodes t c) = unlinked (nodes s c) \<and> c \<notin> insert n X" using nxt fl by simp
    qed (use False fc fl in auto)
  qed
  moreover have "flags_ok t d" if "alive s d" for d using D(7) [OF that] by (simp add: flags_ok_def fl)
  moreover have "up_ok t (K(p := us @ vs)) d" if "alive s d" "d \<notin> insert n X" for d
    using D(8) [OF that(1)] that(2) p(2) by (auto simp: up_ok_def fl)
  moreover have "edges t (insert n X) \<subseteq> edges s X" by (auto simp: edges_def fl)
  then have "acyclic (edges t (insert n X))" using D(9) acyclic_subset by blast
  ultimately show ?thesis using D(1,4,5,10) n by (simp add: tree_inv_def fl)
qed

lemma unthread_inv:
  assumes inv: "tree_inv s K F X" and n: "alive s n" "n \<notin> X" "0 \<le> par s n"
  shows "\<exists>t. unthread n s = Some t \<and> relinked s t \<and> tree_inv t (K(par s n := remove1 n (K (par s n)))) F (insert n X)"
proof -
  define p where "p = par s n"
  have p: "alive s p" "n \<in> set (K p)" "0 \<le> p" "p < RAMFS64_MAX_NODES"
    using tree_invD(8) [OF inv n(1,2)] n(3) by (auto simp: up_ok_def p_def alive_def in_range_def)
  note k = kidsD [OF inv p(1)]
  obtain us vs where sp: "K p = us @ n # vs" using p(2) by (meson split_list)
  have r1: "remove1 n (K p) = us @ vs" using k(3) sp by (simp add: remove1_append)
  have np: "n \<noteq> -1" using p(2) chain_nonneg [OF k(1)] by fastforce
  show ?thesis
  proof (cases us rule: rev_cases)
    case Nil
    let ?t = "nupd p (\<lambda>x. x\<lparr>first_child := nx s n\<rparr>) s"
    have "first_child (nodes s p) = n" using k(1) sp Nil by simp
    then have "unthread n s = Some ?t" using p by (simp add: unthread_def p_def Let_def)
    moreover have "tree_inv ?t (K(p := us @ vs)) F (insert n X)"
    proof (rule unlist_inv [OF inv p(1) sp relinked_nupd(1)])
      show "chain (nx ?t) (first_child (nodes ?t p)) (us @ vs)"
      proof -
        have "nx ?t = nx s" by auto
        then show ?thesis using k(1) sp Nil by simp
      qed
    qed simp_all
    ultimately show ?thesis using relinked_nupd(1) by (metis p_def r1)
  next
    case (snoc us' c)
    let ?t = "nupd c (\<lambda>x. x\<lparr>next_sibling := nx s n\<rparr>) s"
    have K: "K p = us' @ c # n # vs" using sp snoc by simp
    have c: "0 \<le> c" "c \<in> set (K p)" using chain_nonneg [OF k(1)] K by auto
    have fc: "first_child (nodes s p) \<noteq> n" using k(1,3) K by (cases us') auto
    have "before n (first_child (nodes s p)) s = Some c" using k(1,3) unfolding K by (rule before_finds)
    then have "unthread n s = Some ?t" using p c fc by (simp add: unthread_def p_def Let_def)
    moreover have "tree_inv ?t (K(p := us @ vs)) F (insert n X)"
    proof (rule unlist_inv [OF inv p(1) sp relinked_nupd(2)])
      have "chain ((nx s)(c := nx s n)) (first_child (nodes s p)) (us' @ c # vs)"
        using chain_unlink k(1,3) K by metis
      moreover have "(nx s)(c := nx s n) = nx ?t" by auto
      ultimately show "chain (nx ?t) (first_child (nodes ?t p)) (us @ vs)"
        using snoc by (cases "p = c") simp_all
    qed (use c in auto)
    ultimately show ?thesis using relinked_nupd(2) by (metis p_def r1)
  qed
qed

section \<open>Directories as maps\<close>

definition entries :: "ramfs \<Rightarrow> (int \<Rightarrow> int list) \<Rightarrow> int \<Rightarrow> string \<Rightarrow> int option" where
  "entries s K d = map_of (map (\<lambda>c. (name_of s c, c)) (K d))"

text \<open>The directory of a node as its clients see it: the map from names to nodes that \<open>find_child\<close>
  searches.\<close>

definition dir_map :: "ramfs \<Rightarrow> int \<Rightarrow> string \<Rightarrow> int option" where
  "dir_map s d n = (case find_child d n s of Some c \<Rightarrow> if 0 \<le> c then Some c else None | None \<Rightarrow> None)"

definition ramfs_ok :: "ramfs \<Rightarrow> bool" where
  "ramfs_ok s \<longleftrightarrow> (\<exists>K F. tree_inv s K F {})"

lemma map_of_find: "map_of (map (\<lambda>c. (f c, c)) xs) n = find (\<lambda>c. f c = n) xs"
  by (induction xs) auto

lemma find_child_entries:
  assumes inv: "tree_inv s K F X" and d: "alive s d"
  shows "find_child d n s = Some (case entries s K d n of Some c \<Rightarrow> c | None \<Rightarrow> -1)"
proof (cases "is_dir (nodes s d)")
  case True
  then show ?thesis
    using child_loop_finds [OF kidsD(1) [OF inv d], of n] d valid_live [OF tree_invD(1) [OF inv]]
    by (simp add: find_child_def entries_def map_of_find)
next
  case False
  then have "K d = []" using kidsD(4) [OF inv d] by blast
  then show ?thesis using False by (simp add: find_child_def entries_def)
qed

lemma entries_SomeD:
  assumes inv: "tree_inv s K F X" and d: "alive s d" and e: "entries s K d n = Some c"
  shows "c \<in> set (K d)" "name_of s c = n" "alive s c" "par s c = d" "c \<noteq> 0" "0 \<le> c" "\<not> unlinked (nodes s c)" "c \<notin> X"
proof -
  have "(n, c) \<in> set (map (\<lambda>c. (name_of s c, c)) (K d))" using e by (metis entries_def map_of_SomeD)
  then show c: "c \<in> set (K d)" and "name_of s c = n" by auto
  from kidsD(5) [OF inv d c] show "alive s c" "par s c = d" "c \<noteq> 0" "0 \<le> c" "\<not> unlinked (nodes s c)" "c \<notin> X"
    by (auto simp: alive_def in_range_def)
qed

lemma entries_NoneD: "entries s K d n = None \<Longrightarrow> n \<notin> name_of s ` set (K d)"
  by (force simp: entries_def map_of_eq_None_iff image_iff)

lemma entries_member:
  assumes inv: "tree_inv s K F X" and d: "alive s d" and c: "c \<in> set (K d)"
  shows "entries s K d (name_of s c) = Some c"
proof -
  have "distinct (map fst (map (\<lambda>c. (name_of s c, c)) (K d)))" using kidsD(2) [OF inv d] by (simp add: comp_def)
  then show ?thesis unfolding entries_def using c by (intro map_of_is_SomeI) auto
qed

lemma dir_map_entries:
  assumes "tree_inv s K F X"
  shows "dir_map s d = (if alive s d then entries s K d else Map.empty)"
proof (cases "alive s d")
  case True
  have "dir_map s d n = entries s K d n" for n
    using entries_SomeD(6) [OF assms True, of n]
    by (simp add: dir_map_def find_child_entries [OF assms True] split: option.splits)
  then show ?thesis using True by auto
next
  case False
  then have "\<not> valid d s" using valid_live [OF tree_invD(1) [OF assms]] by simp
  then show ?thesis using False by (auto simp: dir_map_def find_child_def)
qed

section \<open>Walking\<close>

text \<open>What a walk may return: failure, or a node that has a name.\<close>

definition walk_ok :: "ramfs \<Rightarrow> bool \<Rightarrow> int \<times> string \<Rightarrow> bool" where
  "walk_ok s wp r \<longleftrightarrow> fst r = -1 \<or> alive s (fst r) \<and> \<not> unlinked (nodes s (fst r)) \<and> (wp \<longrightarrow> name_ok (snd r))"

lemma rest_shorter:
  assumes "dropWhile slash p \<noteq> []"
  shows "length (dropWhile (\<lambda>c. \<not> slash c) (dropWhile slash p)) < length p"
    and "takeWhile (\<lambda>c. \<not> slash c) (dropWhile slash p) \<noteq> []"
proof -
  obtain c cs where q: "dropWhile slash p = c # cs" "\<not> slash c"
    using assms hd_dropWhile [of slash p] by (cases "dropWhile slash p") auto
  have "length (dropWhile (\<lambda>c. \<not> slash c) cs) \<le> length cs" by (rule length_dropWhile_le)
  moreover have "length (c # cs) \<le> length p" using q(1) by (metis length_dropWhile_le)
  ultimately show "length (dropWhile (\<lambda>c. \<not> slash c) (dropWhile slash p)) < length p" using q by simp
  show "takeWhile (\<lambda>c. \<not> slash c) (dropWhile slash p) \<noteq> []" using q by simp
qed

lemma up_alive:
  assumes "tree_inv s K F {}" and "alive s n" and "0 \<le> par s n"
  shows "alive s (par s n)" "n \<in> set (K (par s n))" "\<not> unlinked (nodes s (par s n))" "is_dir (nodes s (par s n))"
    "\<not> unlinked (nodes s n)" "n \<noteq> 0"
proof -
  show u: "alive s (par s n)" "n \<in> set (K (par s n))" using tree_invD(8) [OF assms(1,2)] assms(3) by (auto simp: up_ok_def)
  have "K (par s n) \<noteq> []" using u(2) by auto
  then show "\<not> unlinked (nodes s (par s n))" "is_dir (nodes s (par s n))" "\<not> unlinked (nodes s n)" "n \<noteq> 0"
    using kidsD(4) [OF assms(1) u(1)] kidsD(5) [OF assms(1) u(1) u(2)] by blast+
qed

lemma named_has_parent:
  assumes "tree_inv s K F {}" and "alive s n" and "\<not> unlinked (nodes s n)" and "n \<noteq> 0"
  shows "0 \<le> par s n"
  using tree_invD(8) [OF assms(1,2)] assms(3,4) by (auto simp: up_ok_def split: if_splits)

lemma walk_loop_nil:
  assumes q: "dropWhile slash p = []"
  shows "walk_loop wp ff s node links p = Some (if wp then (-1, []) else (node, []))"
  by (subst walk_loop.simps) (simp only: Let_def if_P [OF q])

lemma walk_loop_step:
  assumes "dropWhile slash p \<noteq> []"
  defines "co \<equiv> takeWhile (\<lambda>c. \<not> slash c) (dropWhile slash p)" and "rest \<equiv> dropWhile (\<lambda>c. \<not> slash c) (dropWhile slash p)"
  shows "walk_loop wp ff s node links p =
     (if dropWhile slash rest = [] \<and> wp
      then Some (if co = [] \<or> length co \<ge> RAMFS64_NAME_MAX then (-1, []) else (node, co))
      else if co = ''.'' then walk_loop wp ff s node links rest
      else if co = ''..'' then walk_loop wp ff s (if par s node \<ge> 0 then par s node else node) links rest
      else Option.bind (find_child node co s) (\<lambda>child.
        if child < 0 then Some (-1, [])
        else if is_link (nodes s child) \<and> (dropWhile slash rest \<noteq> [] \<or> ff)
        then (if links + 1 > RAMFS64_LINK_MAX then Some (-1, [])
              else if data (nodes s child) = 0 \<or> fsize (nodes s child) = 0 then Some (-1, [])
              else if fsize (nodes s child) \<ge> RAMFS64_PATH_MAX then Some (-1, [])
              else (case append_rest True (link_target (nodes s child)) rest of
                      None \<Rightarrow> Some (-1, [])
                    | Some out \<Rightarrow> walk_loop wp ff s (if slash (hd out) then ROOT else node) (links + 1)
                          (takeWhile (\<lambda>c. c \<noteq> CHR 0x00) out)))
        else walk_loop wp ff s child links rest))"
  by (subst walk_loop.simps) (simp only: Let_def if_not_P [OF assms(1)] co_def rest_def simp_thms)

lemma walk_loop_returns:
  assumes inv: "tree_inv s K F {}"
  shows "alive s node \<Longrightarrow> \<not> unlinked (nodes s node) \<Longrightarrow> \<exists>r. walk_loop wp ff s node links p = Some r \<and> walk_ok s wp r"
proof (induction "(RAMFS64_LINK_MAX - links, length p)" arbitrary: node links p
       rule: wf_induct_rule [OF wf_lex_prod [OF wf_less_than wf_less_than]])
  case (1 links p node)
  show ?case
  proof (cases "dropWhile slash p = []")
    case True
    then show ?thesis using 1(2,3) by (simp add: walk_loop_nil walk_ok_def del: dropWhile_eq_Nil_conv)
  next
    case False
    define co rest where "co = takeWhile (\<lambda>c. \<not> slash c) (dropWhile slash p)" and "rest = dropWhile (\<lambda>c. \<not> slash c) (dropWhile slash p)"
    note sh = rest_shorter [OF False, folded rest_def, folded co_def] and step = walk_loop_step [OF False, folded rest_def, folded co_def]
    have IH: "\<exists>r. walk_loop wp ff s m links rest = Some r \<and> walk_ok s wp r"
      if "alive s m" "\<not> unlinked (nodes s m)" for m using 1(1) [of links rest m] sh(1) that by simp
    have nl: "CHR ''/'' \<notin> set co" by (auto simp: co_def dest: set_takeWhileD)
    have up: "\<exists>r. walk_loop wp ff s (if 0 \<le> par s node then par s node else node) links rest = Some r \<and> walk_ok s wp r"
      using up_alive [OF inv 1(2)] 1(2,3) by (intro IH) auto
    obtain child where fc: "find_child node co s = Some child" "child < 0 \<or> alive s child \<and> \<not> unlinked (nodes s child)"
      using find_child_entries [OF inv 1(2), of co] entries_SomeD(3,7) [OF inv 1(2), of co]
      by (auto split: option.splits)
    have lk: "\<exists>r. walk_loop wp ff s (if slash (hd out) then ROOT else node) (links + 1) o' = Some r \<and> walk_ok s wp r"
      if "\<not> links + 1 > RAMFS64_LINK_MAX" for out o'
    proof -
      have "alive s ROOT" "\<not> unlinked (nodes s ROOT)" using tree_invD(3) [OF inv] by (auto simp: root_ok_def ROOT_def)
      then have "alive s (if slash (hd out) then ROOT else node)" "\<not> unlinked (nodes s (if slash (hd out) then ROOT else node))"
        using 1(2,3) by auto
      moreover have "((RAMFS64_LINK_MAX - (links + 1), length o'), RAMFS64_LINK_MAX - links, length p) \<in> less_than <*lex*> less_than"
        using that by auto
      ultimately show ?thesis using 1(1) by blast
    qed
    have fail: "walk_ok s wp (-1, [])" by (simp add: walk_ok_def)
    have fin: "walk_ok s wp (node, co)" if "\<not> (co = [] \<or> length co \<ge> RAMFS64_NAME_MAX)"
      using that 1(2,3) nl by (simp add: walk_ok_def name_ok_def)
    show ?thesis
    proof (cases "dropWhile slash rest = [] \<and> wp")
      case True
      then show ?thesis unfolding step using fail fin by auto
    next
      case b: False
      show ?thesis
      proof (cases "co = ''.'' \<or> co = ''..''")
        case True
        then show ?thesis unfolding step if_not_P [OF b] using IH [OF 1(2,3)] up by (auto simp del: dropWhile_eq_Nil_conv)
      next
        case c: False
        show ?thesis
          unfolding step if_not_P [OF b] using c fc fail lk IH [of child]
          by (auto simp del: dropWhile_eq_Nil_conv split: option.splits)
      qed
    qed
  qed
qed

lemma walk_returns:
  assumes "tree_inv s K F {}"
  shows "\<exists>r. walk path wp ff s = Some r \<and> walk_ok s wp r"
proof -
  have "alive s ROOT" "\<not> unlinked (nodes s ROOT)" using tree_invD(3) [OF assms] by (auto simp: root_ok_def ROOT_def)
  from walk_loop_returns [OF assms this, of wp ff 0 path] show ?thesis by (auto simp: walk_def walk_ok_def)
qed

lemma lookup_nofollow_returns:
  assumes "tree_inv s K F {}"
  shows "\<exists>n. ramfs64_lookup_nofollow path s = Some n \<and> (n = -1 \<or> alive s n \<and> \<not> unlinked (nodes s n))"
  using walk_returns [OF assms, of path False False] by (auto simp: ramfs64_lookup_nofollow_def walk_ok_def)

section \<open>The operations on the tree\<close>

lemma no_kids_no_edges:
  assumes "tree_inv s K F X" and "K n = []" and "(n, p) \<in> (edges s X)\<^sup>*"
  shows "n = p"
  using assms(3)
proof (cases rule: converse_rtranclE)
  case (step y)
  then have "alive s y" "y \<notin> X" "par s y = n" "0 \<le> par s y" by (auto simp: edges_def)
  then have "y \<in> set (K n)" using tree_invD(8) [OF assms(1), of y] by (auto simp: up_ok_def)
  then show ?thesis using assms(2) by simp
qed

lemma entries_cong:
  assumes "\<And>c. c \<in> set (K d) \<Longrightarrow> name_of t c = name_of s c"
  shows "entries t K d = entries s K d"
  unfolding entries_def using assms by (auto intro!: arg_cong [where f = map_of] map_cong)

text \<open>Two states whose directories are described by maps.\<close>

lemma dir_map_upd:
  assumes inv: "tree_inv s K F {}" and inv': "tree_inv t K' F' {}"
    and live: "\<And>d. alive s d \<Longrightarrow> alive t d \<Longrightarrow> d \<noteq> p \<Longrightarrow> K' d = K d \<and> (\<forall>c \<in> set (K d). name_of t c = name_of s c)"
    and gone: "\<And>d. alive s d \<noteq> alive t d \<Longrightarrow> K d = [] \<and> K' d = []"
    and p: "alive s p" "alive t p"
  shows "dir_map t = (dir_map s)(p := entries t K' p)"
proof
  fix d
  have "entries t K' d = entries s K d" if "alive s d" "alive t d" "d \<noteq> p"
    using live [OF that] entries_cong [of K d t s] by (simp add: entries_def)
  moreover have "entries u L d = Map.empty" if "L d = []" for u L using that by (simp add: entries_def)
  ultimately show "dir_map t d = ((dir_map s)(p := entries t K' p)) d"
    using dir_map_entries [OF inv, of d] dir_map_entries [OF inv', of d] p gone [of d] by auto
qed

lemma alloc_node_full:
  assumes "tree_inv s K [] X"
  shows "alloc_node name p dir s = (-1, s)"
proof -
  have "node_free s = -1" using tree_invD(2) [OF assms] by (simp add: free_ok_def)
  then show ?thesis by (simp add: alloc_node_def)
qed

lemma alloc_node_inv:
  assumes inv: "tree_inv s K (i # F) {}" and p: "alive s p" "is_dir (nodes s p)" "\<not> unlinked (nodes s p)"
    and nm: "name_ok name" "entries s K p name = None"
  shows "\<exists>t. alloc_node name p dir s = (i, t) \<and> tree_inv t (K(i := [], p := i # K p)) F {}
     \<and> \<not> alive s i \<and> alive t i \<and> (\<forall>j. j \<noteq> i \<longrightarrow> nodes t j = (if j = p then (nodes s p)\<lparr>first_child := i\<rparr> else nodes s j))
     \<and> name_of t i = name \<and> par t i = p \<and> is_dir (nodes t i) = dir \<and> \<not> is_link (nodes t i) \<and> fsize (nodes t i) = 0
     \<and> data (nodes t i) = 0 \<and> capacity (nodes t i) = 0 \<and> dbytes (nodes t i) = [] \<and> frames (nodes t i) = 0
     \<and> nframes (nodes t i) = 0 \<and> openers (nodes t i) = 0 \<and> \<not> unlinked (nodes t i) \<and> kh t = kh s"
proof -
  note D = tree_invD [OF inv]
  have nf: "node_free s = i" "0 \<le> i" "in_range i" "\<not> nd_used (nodes s i)" using D(2) by (auto simp: free_ok_def)
  have ip: "i \<noteq> p" and di: "\<not> alive s i" using p(1) nf by (auto simp: alive_def)
  have tk: "take (RAMFS64_NAME_MAX - 1) name = name" using nm(1) by (simp add: name_ok_def) linarith
  define t1 where "t1 = nupd i (\<lambda>x. x\<lparr>nm := name, parent := p, data := 0, dbytes := [],
                 fsize := 0, capacity := 0, is_dir := dir, is_link := False, fmode := (if dir then 493 else 420),
                 frames := 0, nframes := 0, fcap := 0, openers := 0, unlinked := False,
                 device := RAMFS64_DEV_NONE, nd_used := True, first_child := -1, next_sibling := -1\<rparr>)
      (s\<lparr>node_free := nx s i, node_count := node_count s + 1\<rparr>)"
  have i1: "tree_inv t1 (K(i := [])) F {i}"
    by (rule take_inv [OF inv]) (simp_all add: t1_def same_off_def)
  define t2 where "t2 = nupd i (\<lambda>x. x\<lparr>next_sibling := first_child (nodes s p)\<rparr>) t1"
  have i2: "tree_inv t2 (K(i := [])) F {i}" unfolding t2_def by (rule float_upd_inv [OF i1]) simp_all
  define t where "t = nupd p (\<lambda>x. x\<lparr>first_child := i\<rparr>) t2"
  have nodes: "nodes t j = (if j = p then (nodes s p)\<lparr>first_child := i\<rparr> else nodes s j)" if "j \<noteq> i" for j
    using that by (simp add: t_def t2_def t1_def)
  have kp: "name \<notin> name_of t2 ` set (K p)"
  proof -
    have "name_of t2 c = name_of s c" if "c \<in> set (K p)" for c
    proof -
      have "c \<noteq> i" using kidsD(5) [OF inv p(1) that] di by blast
      then show ?thesis by (simp add: t2_def t1_def)
    qed
    then show ?thesis using entries_NoneD [OF nm(2)] by auto
  qed
  have "tree_inv t ((K(i := []))(p := i # (K(i := [])) p)) F ({i} - {i})"
    unfolding t_def
  proof (rule attach_inv [OF i2])
    show "(i, p) \<notin> (edges t2 {i})\<^sup>*" using no_kids_no_edges [OF i2, of i p] ip by auto
  qed (use p nf ip nm kp in \<open>simp_all add: t2_def t1_def alive_def\<close>)
  then have "tree_inv t (K(i := [], p := i # K p)) F {}" using ip by simp
  moreover have "alloc_node name p dir s = (i, t)"
    using D(1) nf p ip unfolding alloc_node_def
    by (cases s) (simp add: Let_def tk t_def t2_def t1_def nupd_def alive_def in_range_def del: One_nat_def)
  moreover have "alive t i" using nf(3) ip by (simp add: alive_def t_def t2_def t1_def)
  moreover have "kh t = kh s" by (simp add: t_def t2_def t1_def)
  ultimately show ?thesis using di nodes ip by (intro exI [of _ t]) (simp add: t_def t2_def t1_def)
qed

lemma fs_free_nodes [simp]: "nodes (fs_free q s) = nodes s" "node_free (fs_free q s) = node_free s"
  "node_count (fs_free q s) = node_count s" "nodes_ptr (fs_free q s) = nodes_ptr s" "seed_failures (fs_free q s) = seed_failures s"
  by (simp_all add: fs_free_def)

lemma free_frames_nodes [simp]: "nodes (free_frames q s) = nodes s" "node_free (free_frames q s) = node_free s"
  "node_count (free_frames q s) = node_count s" "nodes_ptr (free_frames q s) = nodes_ptr s" "seed_failures (free_frames q s) = seed_failures s"
  by (simp_all add: free_frames_def set_pmm_def)

lemma release_node_fields:
  "nodes_ptr (release_node n s) = nodes_ptr s" "node_free (release_node n s) = n"
  "node_count (release_node n s) = node_count s - 1" "\<not> nd_used (nodes (release_node n s) n)"
  "nx (release_node n s) n = node_free s" "i \<noteq> n \<Longrightarrow> nodes (release_node n s) i = nodes s i"
  by (simp_all add: release_node_def Let_def)

lemma release_node_inv:
  assumes "tree_inv s K F X" and "n \<in> X" and "K n = []" and "same_off {n} s t" and "node_free t = node_free s"
    and "node_count t = node_count s"
  shows "tree_inv (release_node n t) K (n # F) (X - {n})"
proof (rule release_inv [OF assms(1-3)])
  show "same_off {n} s (release_node n t)" using assms(4) by (simp add: same_off_def release_node_fields)
qed (simp_all add: release_node_fields assms(5,6))

text \<open>Taking a name away: the node floats free of the tree, and then stays open without a name or
  goes to the free list.\<close>

lemma detach_inv:
  assumes inv: "tree_inv s K F {}" and n: "alive s n" "0 \<le> par s n"
  shows "\<exists>t. detach_from_parent n s = Some t \<and> tree_inv t (K(par s n := remove1 n (K (par s n)))) F {n}
     \<and> kh t = kh s \<and> (\<forall>i. alive t i = alive s i) \<and> par t n = -1
     \<and> (\<forall>i. \<exists>a b c. nodes t i = (nodes s i)\<lparr>parent := a, first_child := b, next_sibling := c\<rparr>)
     \<and> (\<forall>i. i \<noteq> n \<longrightarrow> par t i = par s i)"
proof -
  obtain u where u: "unthread n s = Some u" "relinked s u" "tree_inv u (K(par s n := remove1 n (K (par s n)))) F {n}"
    using unthread_inv [OF inv n(1) _ n(2)] by auto
  let ?t = "nupd n (\<lambda>x. x\<lparr>parent := -1, next_sibling := -1\<rparr>) u"
  have "tree_inv ?t (K(par s n := remove1 n (K (par s n)))) F {n}"
    by (rule float_upd_inv [OF u(3)]) simp_all
  moreover have "\<exists>a b c. nodes ?t i = (nodes s i)\<lparr>parent := a, first_child := b, next_sibling := c\<rparr>" for i
  proof -
    obtain a b where ab: "nodes u i = (nodes s i)\<lparr>first_child := a, next_sibling := b\<rparr>"
      using u(2) unfolding relinked_def by blast
    have "(nodes s i)\<lparr>first_child := a, next_sibling := b\<rparr> = (nodes s i)\<lparr>parent := parent (nodes s i), first_child := a, next_sibling := b\<rparr>"
      "i = n \<Longrightarrow> nodes ?t i = (nodes s i)\<lparr>parent := -1, first_child := a, next_sibling := -1\<rparr>"
      using ab by simp_all
    then show ?thesis using ab by (metis nupd_fields(6))
  qed
  moreover have "alive ?t i = alive s i" for i using relinkedD(11) [OF u(2), of i] relinkedD(11) [OF u(2), of n] by (simp add: alive_def)
  moreover have "i \<noteq> n \<longrightarrow> par ?t i = par s i" for i using relinkedD(6) [OF u(2), of i] by simp
  moreover have "detach_from_parent n s = Some ?t" by (simp add: detach_from_parent_def u(1))
  moreover have "kh ?t = kh s" using relinkedD(4) [OF u(2)] by simp
  ultimately show ?thesis by (intro exI [of _ ?t]) simp
qed

text \<open>The data of a node, as opposed to its place in the tree.\<close>

definition same_file :: "node64 \<Rightarrow> node64 \<Rightarrow> bool" where
  "same_file x y \<longleftrightarrow> data x = data y \<and> dbytes x = dbytes y \<and> fsize x = fsize y \<and> capacity x = capacity y
     \<and> frames x = frames y \<and> farray x = farray y \<and> nframes x = nframes y \<and> fcap x = fcap y
     \<and> is_dir x = is_dir y \<and> is_link x = is_link y \<and> fmode x = fmode y \<and> device x = device y \<and> openers x = openers y"

lemma same_file_refl [simp]: "same_file x x"
  by (simp add: same_file_def)

lemma same_file_place [simp]: "same_file (x\<lparr>parent := a, first_child := b, next_sibling := c\<rparr>) x"
  by (simp add: same_file_def)

lemma map_of_remove: "k \<notin> fst ` set (us @ vs) \<Longrightarrow> map_of (us @ vs) = (map_of (us @ (k, v) # vs))(k := None)"
proof
  fix x assume k: "k \<notin> fst ` set (us @ vs)"
  show "map_of (us @ vs) x = ((map_of (us @ (k, v) # vs))(k := None)) x"
  proof (cases "x = k")
    case True
    have "map_of (us @ vs) k = None" unfolding map_of_eq_None_iff using k .
    then show ?thesis using True by simp
  qed (simp add: map_add_def split: option.splits)
qed

lemma remove1_entries:
  assumes inv: "tree_inv s K F {}" and p: "alive s p" and n: "n \<in> set (K p)"
    and nm: "\<And>c. c \<in> set (K p) \<Longrightarrow> c \<noteq> n \<Longrightarrow> name_of t c = name_of s c"
  shows "entries t (K(p := remove1 n (K p))) p = (entries s K p)(name_of s n := None)"
proof -
  note k = kidsD [OF inv p]
  obtain us vs where sp: "K p = us @ n # vs" using n by (meson split_list)
  have d: "n \<notin> set (us @ vs)" "name_of s n \<notin> name_of s ` set (us @ vs)" using k(2,3) sp by auto
  have r: "remove1 n (K p) = us @ vs" using k(3) sp by (simp add: remove1_append)
  have "map (\<lambda>c. (name_of t c, c)) (us @ vs) = map (\<lambda>c. (name_of s c, c)) (us @ vs)"
    using nm d(1) sp by (intro map_cong) auto
  moreover have "map_of (map (\<lambda>c. (name_of s c, c)) (us @ vs)) = (map_of (map (\<lambda>c. (name_of s c, c)) (us @ n # vs)))(name_of s n := None)"
    unfolding map_append list.map by (rule map_of_remove) (use d(2) in \<open>simp add: image_image image_Un\<close>)
  ultimately show ?thesis unfolding entries_def fun_upd_same r by (simp only: sp)
qed

lemma kids_apart:
  assumes "tree_inv s K F X" and "alive s d" and "alive s e" and "d \<noteq> e" and "c \<in> set (K d)"
  shows "c \<notin> set (K e)"
  using kidsD(5) [OF assms(1,2,5)] kidsD(5) [OF assms(1,3)] assms(4) by blast

text \<open>Removing a named node without children: by \<open>drop_name\<close>, which keeps an open file, or by
  \<open>free_node\<close>, which does not.\<close>

definition name_dropped :: "int \<Rightarrow> bool \<Rightarrow> ramfs \<Rightarrow> ramfs \<Rightarrow> bool" where
  "name_dropped n keep s t \<longleftrightarrow> ramfs_ok t
     \<and> dir_map t = (dir_map s)(par s n := (dir_map s (par s n))(name_of s n := None))
     \<and> (\<forall>i. alive t i \<longleftrightarrow> alive s i \<and> (i \<noteq> n \<or> keep))
     \<and> (\<forall>i. alive t i \<longrightarrow> same_file (nodes t i) (nodes s i) \<and> name_of t i = name_of s i \<and> (i \<noteq> n \<longrightarrow> par t i = par s i))"

lemma dropped_dir_map:
  assumes inv: "tree_inv s K F {}" and n: "alive s n" "0 \<le> par s n" "K n = []"
    and inv': "tree_inv t (K(par s n := remove1 n (K (par s n)))) F' {}"
    and al: "\<And>i. alive t i \<longleftrightarrow> alive s i \<and> (i \<noteq> n \<or> keep)"
    and nm: "\<And>i. i \<noteq> n \<Longrightarrow> name_of t i = name_of s i"
  shows "dir_map t = (dir_map s)(par s n := (dir_map s (par s n))(name_of s n := None))"
proof -
  let ?p = "par s n" and ?K = "K(par s n := remove1 n (K (par s n)))"
  have p: "alive s ?p" "n \<in> set (K ?p)" using up_alive [OF inv n(1,2)] by auto
  then have pn: "?p \<noteq> n" using n(3) by auto
  have "dir_map t = (dir_map s)(?p := entries t ?K ?p)"
  proof (rule dir_map_upd [OF inv inv'])
    fix d assume d: "alive s d" "alive t d" "d \<noteq> ?p"
    have "n \<notin> set (K d)" using kids_apart [OF inv p(1) d(1)] d(3) p(2) by metis
    then show "?K d = K d \<and> (\<forall>c \<in> set (K d). name_of t c = name_of s c)" using d(3) nm by (metis fun_upd_other)
  next
    fix d assume "alive s d \<noteq> alive t d"
    then have "d = n" using al by blast
    then show "K d = [] \<and> ?K d = []" using n(3) pn by auto
  qed (use p pn al in auto)
  also have "entries t ?K ?p = (entries s K ?p)(name_of s n := None)" by (rule remove1_entries [OF inv p]) (use nm in auto)
  also have "entries s K ?p = dir_map s ?p" using dir_map_entries [OF inv, of ?p] p(1) by simp
  finally show ?thesis .
qed

lemma drop_name_ok:
  assumes inv: "tree_inv s K F {}" and n: "alive s n" "0 \<le> par s n" "K n = []"
  shows "\<exists>t F'. drop_name n s = Some t \<and> tree_inv t (K(par s n := remove1 n (K (par s n)))) F' {}
     \<and> name_dropped n (openers (nodes s n) > 0) s t"
proof -
  let ?p = "par s n" and ?K = "K(par s n := remove1 n (K (par s n)))"
  have pn: "?p \<noteq> n" using up_alive(2) [OF inv n(1,2)] n(3) by auto
  have op: "openers (nodes s n) \<ge> 0" using tree_invD(7) [OF inv n(1)] by (simp add: flags_ok_def)
  obtain u where u: "detach_from_parent n s = Some u" "tree_inv u ?K F {n}" "kh u = kh s" "\<forall>i. alive u i = alive s i"
      "par u n = -1" "\<forall>i. \<exists>a b c. nodes u i = (nodes s i)\<lparr>parent := a, first_child := b, next_sibling := c\<rparr>" "\<forall>i. i \<noteq> n \<longrightarrow> par u i = par s i"
    using detach_inv [OF inv n(1,2)] by blast
  have uf: "same_file (nodes u i) (nodes s i)" "name_of u i = name_of s i" for i
  proof -
    obtain a b c where "nodes u i = (nodes s i)\<lparr>parent := a, first_child := b, next_sibling := c\<rparr>" using u(6) by blast
    then show "same_file (nodes u i) (nodes s i)" "name_of u i = name_of s i" by simp_all
  qed
  have uo: "openers (nodes u n) = openers (nodes s n)" using uf(1) [of n] by (simp add: same_file_def)
  have kn: "?K n = []" using pn n(3) by auto
  let ?v = "nupd n (\<lambda>x. x\<lparr>unlinked := True\<rparr>) u"
  have vf: "same_file (nodes ?v i) (nodes s i)" "name_of ?v i = name_of s i" for i using uf [of i] by (auto simp: same_file_def)
  have dn: "drop_name n s = Some (if openers (nodes s n) = 0 then release_node n ?v else ?v)"
    by (simp add: drop_name_def u(1) uo Let_def)
  show ?thesis
  proof (cases "openers (nodes s n) = 0")
    case True
    let ?t = "release_node n ?v"
    have "tree_inv ?t ?K (n # F) ({n} - {n})" by (rule release_node_inv [OF u(2) _ kn]) (simp_all add: same_off_def)
    then have t: "tree_inv ?t ?K (n # F) {}" by simp
    have al: "alive ?t i \<longleftrightarrow> alive s i \<and> (i \<noteq> n \<or> False)" for i
      using u(4) release_node_fields(4) [of n ?v] release_node_fields(6) [of i n ?v] by (cases "i = n") (auto simp: alive_def)
    have nm: "name_of ?t i = name_of s i" if "i \<noteq> n" for i using that vf(2) [of i] by (simp add: release_node_fields(6))
    have "name_dropped n False s ?t"
      unfolding name_dropped_def
    proof (intro conjI)
      show "dir_map ?t = (dir_map s)(?p := (dir_map s ?p)(name_of s n := None))"
        by (rule dropped_dir_map [OF inv n t al nm])
      show "\<forall>i. alive ?t i \<longrightarrow> same_file (nodes ?t i) (nodes s i) \<and> name_of ?t i = name_of s i \<and> (i \<noteq> n \<longrightarrow> par ?t i = par s i)"
      proof (intro allI impI)
        fix i assume "alive ?t i"
        then have "i \<noteq> n" using al by blast
        then show "same_file (nodes ?t i) (nodes s i) \<and> name_of ?t i = name_of s i \<and> (i \<noteq> n \<longrightarrow> par ?t i = par s i)"
          using uf [of i] u(7) by (simp add: release_node_fields(6))
      qed
    qed (use t al in \<open>auto simp: ramfs_ok_def\<close>)
    then show ?thesis using dn True t by (intro exI [of _ ?t] exI [of _ "n # F"]) simp
  next
    case False
    then have op: "openers (nodes s n) > 0" using op by simp
    have "tree_inv ?v ?K F ({n} - {n})" by (rule orphan_inv [OF u(2) _ kn u(5)]) (use op uo in simp_all)
    then have t: "tree_inv ?v ?K F {}" by simp
    have al: "alive ?v i \<longleftrightarrow> alive s i \<and> (i \<noteq> n \<or> True)" for i using u(4) by (auto simp: alive_def)
    have "name_dropped n True s ?v"
      unfolding name_dropped_def
    proof (intro conjI)
      show "dir_map ?v = (dir_map s)(?p := (dir_map s ?p)(name_of s n := None))"
        by (rule dropped_dir_map [OF inv n t al vf(2)])
    qed (use t al vf u(7) in \<open>auto simp: ramfs_ok_def\<close>)
    then show ?thesis using dn False op t by (intro exI [of _ ?v] exI [of _ F]) simp
  qed
qed

lemma free_node_ok:
  assumes inv: "tree_inv s K F {}" and n: "alive s n" "0 \<le> par s n" "K n = []"
  shows "\<exists>t. free_node n s = Some t \<and> name_dropped n False s t"
proof -
  let ?p = "par s n" and ?K = "K(par s n := remove1 n (K (par s n)))"
  have pn: "?p \<noteq> n" using up_alive(2) [OF inv n(1,2)] n(3) by auto
  obtain u where u: "detach_from_parent n s = Some u" "tree_inv u ?K F {n}" "\<forall>i. alive u i = alive s i"
      "\<forall>i. \<exists>a b c. nodes u i = (nodes s i)\<lparr>parent := a, first_child := b, next_sibling := c\<rparr>" "\<forall>i. i \<noteq> n \<longrightarrow> par u i = par s i"
    using detach_inv [OF inv n(1,2)] by blast
  let ?t = "release_node n u"
  have kn: "?K n = []" using pn n(3) by auto
  have "tree_inv ?t ?K (n # F) ({n} - {n})" by (rule release_node_inv [OF u(2) _ kn]) (simp_all add: same_off_def)
  then have t: "tree_inv ?t ?K (n # F) {}" by simp
  have al: "alive ?t i \<longleftrightarrow> alive s i \<and> (i \<noteq> n \<or> False)" for i
    using u(3) release_node_fields(4) [of n u] release_node_fields(6) [of i n u] by (cases "i = n") (auto simp: alive_def)
  have f: "same_file (nodes ?t i) (nodes s i) \<and> name_of ?t i = name_of s i \<and> par ?t i = par s i" if "i \<noteq> n" for i
  proof -
    obtain a b c where "nodes u i = (nodes s i)\<lparr>parent := a, first_child := b, next_sibling := c\<rparr>" using u(4) by blast
    then show ?thesis using that u(5) by (auto simp: release_node_fields(6))
  qed
  have "name_dropped n False s ?t"
    unfolding name_dropped_def using dropped_dir_map [OF inv n t al] f al t by (auto simp: ramfs_ok_def)
  then show ?thesis using u(1) by (simp add: free_node_def)
qed

text \<open>An open file that has lost its name.\<close>

lemma float_orphan:
  assumes inv: "tree_inv s K F X" and n: "alive s n" "n \<notin> X" "unlinked (nodes s n)"
  shows "tree_inv s K F (insert n X)" and "K n = []" and "par s n < 0"
proof -
  note D = tree_invD [OF inv]
  have par: "par s n < 0"
  proof (rule ccontr)
    assume "\<not> par s n < 0"
    then have "alive s (par s n)" "n \<in> set (K (par s n))" using D(8) [OF n(1,2)] by (auto simp: up_ok_def)
    then show False using kidsD(5) [OF inv] n(3) by blast
  qed
  then show "par s n < 0" .
  show "K n = []" using kidsD(4) [OF inv n(1)] n(3) by blast
  have "kids_ok s K (insert n X) d" if d: "alive s d" for d
  proof (rule kids_ok_cong [OF D(6) [OF d]])
    fix c assume "c \<in> set (K d)"
    from kidsD(5) [OF inv d this] show "nx s c = nx s c \<and> name_of s c = name_of s c \<and> alive s c = alive s c \<and> par s c = par s c
           \<and> unlinked (nodes s c) = unlinked (nodes s c) \<and> c \<notin> insert n X" using n(3) by blast
  qed simp_all
  moreover have "edges s (insert n X) = edges s X" using par by (auto simp: edges_def)
  moreover have "n \<noteq> 0" using D(3) n(3) by (auto simp: root_ok_def)
  ultimately show "tree_inv s K F (insert n X)" using D n(1) by (simp add: tree_inv_def)
qed

lemma openers_inv:
  assumes inv: "tree_inv s K F X" and n: "alive s n" "k \<ge> 0" "n \<notin> X \<longrightarrow> unlinked (nodes s n) \<longrightarrow> k > 0"
  shows "tree_inv (nupd n (\<lambda>x. x\<lparr>openers := k\<rparr>) s) K F X"
proof -
  define t where "t = nupd n (\<lambda>x. x\<lparr>openers := k\<rparr>) s"
  note D = tree_invD [OF inv]
  have fl: "nodes_ptr t = nodes_ptr s" "node_free t = node_free s" "node_count t = node_count s"
    "nx t i = nx s i" "name_of t i = name_of s i" "par t i = par s i" "is_dir (nodes t i) = is_dir (nodes s i)"
    "is_link (nodes t i) = is_link (nodes s i)" "openers (nodes t i) = (if i = n then k else openers (nodes s i))"
    "nd_used (nodes t i) = nd_used (nodes s i)" "first_child (nodes t i) = first_child (nodes s i)"
    "unlinked (nodes t i) = unlinked (nodes s i)" for i by (auto simp: t_def)
  have l: "alive t i = alive s i" for i by (simp add: alive_def fl)
  have "free_ok t F" by (rule free_ok_cong [OF D(2)]) (simp_all add: fl)
  moreover have "root_ok t" using D(3) by (simp add: root_ok_def fl l)
  moreover have "kids_ok t K X d" if d: "alive s d" for d
    using kidsD(5) [OF inv d] by (intro kids_ok_cong [OF D(6) [OF d]]) (simp_all add: fl l)
  moreover have "flags_ok t d" if "alive s d" for d using D(7) [OF that] n(2) by (simp add: flags_ok_def fl)
  moreover have "up_ok t K d" if "alive s d" "d \<notin> X" for d
    using D(8) [OF that] n(3) that(2) by (auto simp: up_ok_def fl l)
  moreover have "edges t X = edges s X" by (simp add: edges_def fl l)
  ultimately show ?thesis unfolding t_def [symmetric] using D(1,4,5,9,10) by (simp add: tree_inv_def fl l)
qed

lemma unref_ok:
  assumes inv: "tree_inv s K F {}"
  shows "ramfs_ok (ramfs64_unref_node n s)"
proof (cases "alive s n")
  case True
  note v = valid_live [OF tree_invD(1) [OF inv]]
  have op: "openers (nodes s n) \<ge> 0" using tree_invD(7) [OF inv True] by (simp add: flags_ok_def)
  show ?thesis
  proof (cases "openers (nodes s n) \<le> 1 \<and> unlinked (nodes s n)")
    case T: True
    note o = float_orphan [OF inv True _ conjunct2 [OF T]]
    let ?u = "if openers (nodes s n) > 0 then nupd n (\<lambda>x. x\<lparr>openers := openers x - 1\<rparr>) s else s"
    have "tree_inv (release_node n ?u) K (n # F) (insert n {} - {n})"
      by (rule release_node_inv [OF o(1) _ o(2)]) (simp_all add: same_off_def)
    moreover have "ramfs64_unref_node n s = release_node n ?u"
      using T op True v by (auto simp: ramfs64_unref_node_def Let_def)
    ultimately have "tree_inv (ramfs64_unref_node n s) K (n # F) {}" by simp
    then show ?thesis unfolding ramfs_ok_def by blast
  next
    case F: False
    then have "ramfs64_unref_node n s = (if openers (nodes s n) > 0 then nupd n (\<lambda>x. x\<lparr>openers := openers x - 1\<rparr>) s else s)"
      using True v op by (auto simp: ramfs64_unref_node_def Let_def)
    moreover have "nupd n (\<lambda>x. x\<lparr>openers := openers x - 1\<rparr>) s = nupd n (\<lambda>x. x\<lparr>openers := openers (nodes s n) - 1\<rparr>) s"
      by (simp add: nupd_def)
    moreover have "tree_inv (nupd n (\<lambda>x. x\<lparr>openers := openers (nodes s n) - 1\<rparr>) s) K F {}" if "openers (nodes s n) > 0"
      using that F by (intro openers_inv [OF inv True]) auto
    ultimately show ?thesis using inv by (auto simp: ramfs_ok_def)
  qed
next
  case False
  then show ?thesis using inv valid_live [OF tree_invD(1) [OF inv]] by (auto simp: ramfs64_unref_node_def ramfs_ok_def)
qed

section \<open>Ancestors\<close>

lemma edges_wf:
  assumes "tree_inv s K F X"
  shows "wf (edges s X)"
proof (rule finite_acyclic_wf)
  have "edges s X \<subseteq> {i. alive s i} \<times> {i. alive s i}"
    using tree_invD(8) [OF assms] by (auto simp: edges_def up_ok_def)
  then show "finite (edges s X)" by (rule finite_subset) (simp add: live_finite)
qed (rule tree_invD(9) [OF assms])

lemma above_spec:
  assumes inv: "tree_inv s K F {}" and "alive s a" and "\<not> unlinked (nodes s a)"
  shows "above src a s = Some ((src, a) \<in> (edges s {})\<^sup>*)"
  using edges_wf [OF inv] assms(2,3)
proof (induction a rule: wf_induct_rule)
  case (less a)
  have a0: "0 \<le> a" using less(2) by (simp add: alive_def in_range_def)
  show ?case
  proof (cases "a = src")
    case False
    show ?thesis
    proof (cases "a = 0")
      case True
      have "par s 0 = -1" using tree_invD(3) [OF inv] by (simp add: root_ok_def)
      then have "(src, a) \<notin> (edges s {})\<^sup>*" using True False by (auto simp: edges_def elim: rtranclE)
      then show ?thesis using True False by (subst above.simps) (simp add: ROOT_def)
    next
      case n0: False
      have pa: "0 \<le> par s a" by (rule named_has_parent [OF inv less(2,3) n0])
      note u = up_alive [OF inv less(2) pa]
      have e: "(par s a, a) \<in> edges s {}" using less(2) pa by (auto simp: edges_def)
      have "above src (par s a) s = Some ((src, par s a) \<in> (edges s {})\<^sup>*)" by (rule less(1) [OF e u(1,3)])
      moreover have "(src, a) \<in> (edges s {})\<^sup>* \<longleftrightarrow> (src, par s a) \<in> (edges s {})\<^sup>*"
      proof
        assume "(src, a) \<in> (edges s {})\<^sup>*"
        then show "(src, par s a) \<in> (edges s {})\<^sup>*" using False by (cases rule: rtranclE) (auto simp: edges_def)
      next
        assume "(src, par s a) \<in> (edges s {})\<^sup>*"
        then show "(src, a) \<in> (edges s {})\<^sup>*" using e by (rule rtrancl_into_rtrancl)
      qed
      ultimately show ?thesis using False n0 a0 by (subst above.simps) (simp add: ROOT_def)
    qed
  qed (use a0 in \<open>subst above.simps; simp\<close>)
qed

section \<open>Moving a node\<close>

text \<open>The effect of a rename on the directories.\<close>

definition moved :: "(int \<Rightarrow> string \<Rightarrow> int option) \<Rightarrow> int \<Rightarrow> string \<Rightarrow> int \<Rightarrow> string \<Rightarrow> int \<Rightarrow> int \<Rightarrow> string \<Rightarrow> int option" where
  "moved D p old dst new src = (let D = D(p := (D p)(old := None)) in D(dst := (D dst)(new \<mapsto> src)))"

lemma move_ok:
  assumes inv: "tree_inv s K F {}" and src: "alive s src" "0 \<le> par s src"
    and dst: "alive s dst" "is_dir (nodes s dst)" "\<not> unlinked (nodes s dst)"
    and nm: "name_ok co" "entries s K dst co = None" and nl: "(src, dst) \<notin> (edges s {})\<^sup>*"
  shows "\<exists>t. move src dst co s = Some t \<and> ramfs_ok t \<and> dir_map t = moved (dir_map s) (par s src) (name_of s src) dst co src
     \<and> (\<forall>i. alive t i = alive s i) \<and> (\<forall>i. same_file (nodes t i) (nodes s i)) \<and> kh t = kh s"
proof -
  let ?p = "par s src"
  define K1 where "K1 = K(?p := remove1 src (K ?p))"
  note up = up_alive [OF inv src]
  have sd: "src \<noteq> dst" using nl by auto
  obtain u where u: "unthread src s = Some u" "relinked s u" "tree_inv u K1 F {src}"
    using unthread_inv [OF inv src(1) _ src(2)] by (auto simp: K1_def)
  note r = relinkedD [OF u(2)]
  have tk: "take (RAMFS64_NAME_MAX - 1) co = co" using nm(1) by (simp add: name_ok_def) linarith
  define v where "v = nupd src (\<lambda>x. x\<lparr>nm := co, parent := dst\<rparr>) u"
  define w where "w = nupd src (\<lambda>x. x\<lparr>next_sibling := first_child (nodes v dst)\<rparr>) v"
  define t where "t = nupd dst (\<lambda>x. x\<lparr>first_child := src\<rparr>) w"
  have mv: "move src dst co s = Some t" using tk by (simp add: move_def u(1) Let_def v_def w_def t_def)
  have iv: "tree_inv v K1 F {src}" unfolding v_def by (rule float_upd_inv [OF u(3)]) simp_all
  have iw: "tree_inv w K1 F {src}" unfolding w_def by (rule float_upd_inv [OF iv]) simp_all
  have wn: "name_of w i = (if i = src then co else name_of s i)" "alive w i = alive s i"
      "is_dir (nodes w i) = is_dir (nodes s i)" "unlinked (nodes w i) = unlinked (nodes s i)"
      "first_child (nodes w dst) = first_child (nodes v dst)" for i
    using sd by (auto simp: w_def v_def r alive_def)
  have tn: "name_of t i = name_of w i" "alive t i = alive s i" for i using wn(2) [of i] by (auto simp: t_def alive_def)
  have K1: "set (K1 dst) \<subseteq> set (K dst) - {src}"
  proof (cases "dst = ?p")
    case True
    then show ?thesis using kidsD(3) [OF inv up(1)] by (auto simp: K1_def)
  next
    case False
    then show ?thesis using kids_apart [OF inv up(1) dst(1)] up(2) by (auto simp: K1_def)
  qed
  have "tree_inv t (K1(dst := src # K1 dst)) F ({src} - {src})"
    unfolding t_def
  proof (rule attach_inv [OF iw])
    have "edges w {src} \<subseteq> edges s {}" by (auto simp: edges_def wn(2)) (auto simp: w_def v_def r)
    then show "(src, dst) \<notin> (edges w {src})\<^sup>*" using nl rtrancl_mono by blast
    show "name_of w src \<notin> name_of w ` set (K1 dst)"
      using entries_NoneD [OF nm(2)] K1 by (auto simp: wn(1))
    show "nx w src = first_child (nodes w dst)" using sd by (simp add: w_def)
    show "par w src = dst" by (simp add: w_def v_def)
  qed (use dst sd nm(1) up(5) in \<open>simp_all add: wn\<close>)
  then have it: "tree_inv t (K1(dst := src # K1 dst)) F {}" by simp
  have K1n: "entries t K1 d = (if d = ?p then (entries s K d)(name_of s src := None) else entries s K d)" if d: "alive s d" for d
  proof (cases "d = ?p")
    case True
    have "entries t K1 ?p = (entries s K ?p)(name_of s src := None)"
      unfolding K1_def by (rule remove1_entries [OF inv up(1,2)]) (simp add: tn wn)
    then show ?thesis using True by simp
  next
    case False
    then have "src \<notin> set (K d)" using kids_apart [OF inv up(1) d _ up(2)] by simp
    then have "entries t K d = entries s K d" by (intro entries_cong) (auto simp: tn wn)
    then show ?thesis using False by (simp add: entries_def K1_def)
  qed
  have "dir_map t d = moved (dir_map s) ?p (name_of s src) dst co src d" for d
  proof (cases "alive s d")
    case True
    have "entries t (K1(dst := src # K1 dst)) dst = (entries t K1 dst)(co \<mapsto> src)" by (simp add: entries_def tn wn)
    moreover have "entries t (K1(dst := src # K1 dst)) d = entries t K1 d" if "d \<noteq> dst" using that by (simp add: entries_def)
    ultimately show ?thesis
      using dir_map_entries [OF inv, of d] dir_map_entries [OF it, of d] dir_map_entries [OF inv, of dst] True dst(1) K1n
      by (cases "d = dst") (auto simp: moved_def tn Let_def)
  next
    case False
    then show ?thesis using dir_map_entries [OF inv, of d] dir_map_entries [OF it, of d] up(1) dst(1) by (auto simp: moved_def tn Let_def)
  qed
  moreover have "same_file (nodes t i) (nodes s i)" for i
  proof -
    obtain a b where "nodes u i = (nodes s i)\<lparr>first_child := a, next_sibling := b\<rparr>"
      using u(2) unfolding relinked_def by blast
    then have "same_file (nodes u i) (nodes s i)" by (simp add: same_file_def)
    moreover have "same_file (nodes t i) (nodes u i)" by (auto simp: t_def w_def v_def same_file_def)
    ultimately show ?thesis by (simp add: same_file_def)
  qed
  moreover have "kh t = kh s" by (simp add: t_def w_def v_def r(4))
  ultimately show ?thesis using mv it tn(2) by (auto simp: ramfs_ok_def)
qed

lemma named_not_unlinked:
  assumes "tree_inv s K F {}" and "alive s n" and "n = 0 \<or> 0 \<le> par s n"
  shows "\<not> unlinked (nodes s n)"
  using assms(3)
proof
  assume "n = 0"
  then show ?thesis using tree_invD(3) [OF assms(1)] by (simp add: root_ok_def)
qed (rule up_alive(5) [OF assms(1,2)])

text \<open>Dropping a leaf changes no other node's ancestors.\<close>

lemma dropped_ancestors:
  assumes inv: "tree_inv s K F {}" and e: "alive s e" "K e = []" and d: "d \<noteq> e"
    and al: "\<And>i. i \<noteq> e \<Longrightarrow> alive t i = alive s i" and pr: "\<And>i. alive s i \<Longrightarrow> i \<noteq> e \<Longrightarrow> par t i = par s i"
    and leaf: "alive t e \<Longrightarrow> par t e < 0"
  shows "(src, d) \<in> (edges t {})\<^sup>* \<longleftrightarrow> (src, d) \<in> (edges s {})\<^sup>*"
proof
  have "edges t {} \<subseteq> edges s {}"
  proof
    fix x assume "x \<in> edges t {}"
    then obtain c where c: "x = (par t c, c)" "alive t c" "0 \<le> par t c" by (auto simp: edges_def)
    then have "c \<noteq> e" using leaf by auto
    then show "x \<in> edges s {}" using c al pr by (auto simp: edges_def)
  qed
  then show "(src, d) \<in> (edges t {})\<^sup>* \<Longrightarrow> (src, d) \<in> (edges s {})\<^sup>*" using rtrancl_mono by blast
next
  assume "(src, d) \<in> (edges s {})\<^sup>*"
  then show "(src, d) \<in> (edges t {})\<^sup>*" using d
  proof (induction rule: rtrancl_induct)
    case (step y z)
    have z: "alive s z" "par s z = y" "0 \<le> y" using step.hyps(2) by (auto simp: edges_def)
    have "z \<in> set (K y)" using up_alive(2) [OF inv z(1)] z by simp
    then have "y \<noteq> e" using e(2) by auto
    moreover have "(y, z) \<in> edges t {}" using z step.prems al pr by (auto simp: edges_def)
    ultimately show ?case using step.IH by (meson rtrancl.rtrancl_into_rtrancl)
  qed simp
qed

definition blocked :: "ramfs \<Rightarrow> int \<Rightarrow> int option \<Rightarrow> bool" where
  "blocked s src ex \<longleftrightarrow> (\<exists>e. ex = Some e \<and> (is_dir (nodes s e) \<noteq> is_dir (nodes s src) \<or> is_dir (nodes s e) \<and> dir_map s e \<noteq> Map.empty))"

lemma empty_dir_map:
  assumes "tree_inv s K F {}" and "alive s e"
  shows "dir_map s e = Map.empty \<longleftrightarrow> K e = []" and "first_child (nodes s e) \<ge> 0 \<longleftrightarrow> K e \<noteq> []"
proof -
  show "dir_map s e = Map.empty \<longleftrightarrow> K e = []"
    using dir_map_entries [OF assms(1), of e] assms(2) by (cases "K e") (auto simp: entries_def fun_eq_iff)
  show "first_child (nodes s e) \<ge> 0 \<longleftrightarrow> K e \<noteq> []" using chain_empty [OF kidsD(1) [OF assms]] by auto
qed

definition rename_target :: "string \<Rightarrow> string \<Rightarrow> ramfs \<Rightarrow> int \<Rightarrow> int \<Rightarrow> string \<Rightarrow> bool" where
  "rename_target old new s src dst co \<longleftrightarrow> ramfs64_lookup_nofollow old s = Some src \<and> 0 < src
     \<and> walk new True True s = Some (dst, co) \<and> 0 \<le> dst \<and> is_dir (nodes s dst)"

lemma rename_targetD:
  assumes inv: "tree_inv s K F {}" and r: "rename_target old new s src dst co"
  shows "alive s src" "0 \<le> par s src" "\<not> unlinked (nodes s src)" "alive s dst" "\<not> unlinked (nodes s dst)" "name_ok co"
    "is_dir (nodes s dst)" "find_child dst co s = Some (case dir_map s dst co of Some c \<Rightarrow> c | None \<Rightarrow> -1)"
proof -
  show s: "alive s src" "\<not> unlinked (nodes s src)"
    using lookup_nofollow_returns [OF inv, of old] r by (auto simp: rename_target_def)
  show "0 \<le> par s src" using named_has_parent [OF inv s] r by (simp add: rename_target_def)
  show d: "alive s dst" "\<not> unlinked (nodes s dst)" "name_ok co"
    using walk_returns [OF inv, of new True True] r by (auto simp: rename_target_def walk_ok_def)
  show "is_dir (nodes s dst)" using r by (simp add: rename_target_def)
  show "find_child dst co s = Some (case dir_map s dst co of Some c \<Rightarrow> c | None \<Rightarrow> -1)"
    using find_child_entries [OF inv d(1)] dir_map_entries [OF inv, of dst] d(1) by simp
qed

lemma rename_same:
  assumes "tree_inv s K F {}" and "rename_target old new s src dst co" and "dir_map s dst co = Some src"
  shows "ramfs64_rename old new s = Some (0, s)"
  using assms(2,3) rename_targetD(8) [OF assms(1,2)] by (simp add: ramfs64_rename_def rename_target_def ROOT_def)

lemma rename_blocked:
  assumes inv: "tree_inv s K F {}" and r: "rename_target old new s src dst co" and "dir_map s dst co \<noteq> Some src"
    and b: "blocked s src (dir_map s dst co)"
  shows "\<exists>e \<in> {-20, -21, -39}. ramfs64_rename old new s = Some (e, s)"
proof -
  note d = rename_targetD [OF inv r]
  obtain e where e: "dir_map s dst co = Some e" and b: "is_dir (nodes s e) \<noteq> is_dir (nodes s src) \<or> is_dir (nodes s e) \<and> dir_map s e \<noteq> Map.empty"
    using b by (auto simp: blocked_def)
  have es: "entries s K dst co = Some e" using e dir_map_entries [OF inv, of dst] d(4) by simp
  note m = entries_SomeD [OF inv d(4) es] and em = empty_dir_map [OF inv, of e]
  show ?thesis
    using r d(8) e b m assms(3) em by (auto simp: ramfs64_rename_def rename_target_def ROOT_def split: if_splits)
qed

lemma rename_rest:
  assumes inv: "tree_inv s K F {}" and r: "rename_target old new s src dst co" and ns: "dir_map s dst co \<noteq> Some src"
    and nb: "\<not> blocked s src (dir_map s dst co)"
  shows "ramfs64_rename old new s = do {
     s \<leftarrow> (case dir_map s dst co of Some e \<Rightarrow> drop_name e s | None \<Rightarrow> Some s);
     loop \<leftarrow> (if is_dir (nodes s src) then above src dst s else Some False);
     if loop then Some (-22, s) else do { s \<leftarrow> move src dst co s; Some (0, s) } }"
proof (cases "dir_map s dst co")
  case None
  note d = rename_targetD [OF inv r]
  have "src \<noteq> -1" using r by (simp add: rename_target_def)
  then show ?thesis using r d(8) None by (simp add: ramfs64_rename_def rename_target_def ROOT_def)
next
  case (Some e)
  note d = rename_targetD [OF inv r]
  have es: "entries s K dst co = Some e" using Some dir_map_entries [OF inv, of dst] d(4) by simp
  note m = entries_SomeD [OF inv d(4) es] and em = empty_dir_map [OF inv, of e]
  have "is_dir (nodes s e) = is_dir (nodes s src)" "\<not> (is_dir (nodes s e) \<and> first_child (nodes s e) \<ge> 0)" "e \<noteq> src"
    using nb Some em m ns by (auto simp: blocked_def)
  then show ?thesis using r d(8) Some m(6) by (auto simp: ramfs64_rename_def rename_target_def ROOT_def)
qed

text \<open>The state in which the node is moved: the old holder of the new name is gone.\<close>

lemma rename_cleared:
  assumes inv: "tree_inv s K F {}" and r: "rename_target old new s src dst co" and ns: "dir_map s dst co \<noteq> Some src"
    and nb: "\<not> blocked s src (dir_map s dst co)"
  shows "\<exists>t K' F'. (case dir_map s dst co of Some e \<Rightarrow> drop_name e s | None \<Rightarrow> Some s) = Some t \<and> tree_inv t K' F' {}
     \<and> entries t K' dst co = None \<and> dir_map t = (dir_map s)(dst := (dir_map s dst)(co := None))
     \<and> alive t src \<and> par t src = par s src \<and> name_of t src = name_of s src \<and> same_file (nodes t src) (nodes s src)
     \<and> alive t dst \<and> \<not> unlinked (nodes t dst) \<and> is_dir (nodes t dst)
     \<and> ((src, dst) \<in> (edges t {})\<^sup>* \<longleftrightarrow> (src, dst) \<in> (edges s {})\<^sup>*) \<and> (dir_map s dst co = None \<longrightarrow> t = s)"
proof (cases "dir_map s dst co")
  case None
  note d = rename_targetD [OF inv r]
  have "entries s K dst co = None" using None dir_map_entries [OF inv, of dst] d(4) by simp
  moreover have "(dir_map s)(dst := (dir_map s dst)(co := None)) = dir_map s" using None by (auto simp: fun_eq_iff)
  ultimately show ?thesis using None d inv by (intro exI [of _ s] exI [of _ K] exI [of _ F]) auto
next
  case (Some e)
  note d = rename_targetD [OF inv r]
  have es: "entries s K dst co = Some e" using Some dir_map_entries [OF inv, of dst] d(4) by simp
  note m = entries_SomeD [OF inv d(4) es]
  have ke: "K e = []" using nb Some empty_dir_map(1) [OF inv m(3)] kidsD(4) [OF inv m(3)] by (auto simp: blocked_def)
  have pe: "0 \<le> par s e" using m(4) d(4) by (simp add: alive_def in_range_def)
  obtain t F' where t: "drop_name e s = Some t" "tree_inv t (K(dst := remove1 e (K dst))) F' {}"
      "name_dropped e (openers (nodes s e) > 0) s t"
    using drop_name_ok [OF inv m(3) pe ke] m(4) by auto
  note nd = t(3) [unfolded name_dropped_def]
  have ne: "src \<noteq> e" "dst \<noteq> e" using ns Some m(1) ke by auto
  have al: "alive t i = alive s i" if "i \<noteq> e" for i using nd that by blast
  have asrc: "alive t src" "alive t dst" using al ne d by auto
  have src: "par t src = par s src" "name_of t src = name_of s src" "same_file (nodes t src) (nodes s src)"
    using nd asrc(1) ne by blast+
  have dst: "par t dst = par s dst" "same_file (nodes t dst) (nodes s dst)" using nd asrc(2) ne by blast+
  have "dst = 0 \<or> 0 \<le> par s dst" using named_has_parent [OF inv d(4,5)] by blast
  then have ud: "\<not> unlinked (nodes t dst)" using named_not_unlinked [OF t(2) asrc(2)] dst(1) by simp
  have leaf: "par t e < 0" if "alive t e"
  proof (rule ccontr)
    assume "\<not> par t e < 0"
    then have "e \<in> set ((K(dst := remove1 e (K dst))) (par t e))" "alive t (par t e)" "par t e \<noteq> e"
      using up_alive(1,2) [OF t(2) that] ke ne by auto
    moreover have "e \<notin> set (remove1 e (K dst))" using kidsD(3) [OF inv d(4)] by simp
    moreover have "alive s (par t e)" using calculation al by blast
    ultimately show False using kids_apart [OF inv d(4) _ _ m(1), of "par t e"] by (auto split: if_splits)
  qed
  have "(src, dst) \<in> (edges t {})\<^sup>* \<longleftrightarrow> (src, dst) \<in> (edges s {})\<^sup>*"
    by (rule dropped_ancestors [OF inv m(3) ke ne(2) al]) (use nd al leaf in auto)
  moreover have dm: "dir_map t = (dir_map s)(dst := (dir_map s dst)(co := None))" using nd m(2,4) by simp
  moreover have "dir_map t dst co = None" by (simp add: dm)
  then have "entries t (K(dst := remove1 e (K dst))) dst co = None"
    using dir_map_entries [OF t(2), of dst] asrc(2) by simp
  ultimately show ?thesis
    using t(1,2) Some asrc src ud dst(2) d(7) by (intro exI [of _ t] exI [of _ "K(dst := remove1 e (K dst))"] exI [of _ F'])
      (auto simp: same_file_def)
qed

lemma rename_ok:
  assumes inv: "tree_inv s K F {}" and r: "rename_target old new s src dst co" and ns: "dir_map s dst co \<noteq> Some src"
    and nb: "\<not> blocked s src (dir_map s dst co)"
  shows "(src, dst) \<in> (edges s {})\<^sup>* \<Longrightarrow> \<exists>t. ramfs64_rename old new s = Some (-22, t) \<and> ramfs_ok t \<and> (dir_map s dst co = None \<longrightarrow> t = s)
       \<and> dir_map t = (dir_map s)(dst := (dir_map s dst)(co := None))"
    and "(src, dst) \<notin> (edges s {})\<^sup>* \<Longrightarrow> \<exists>t. ramfs64_rename old new s = Some (0, t) \<and> ramfs_ok t
       \<and> dir_map t = moved (dir_map s) (par s src) (name_of s src) dst co src"
proof -
  note d = rename_targetD [OF inv r]
  obtain t K' F' where c: "(case dir_map s dst co of Some e \<Rightarrow> drop_name e s | None \<Rightarrow> Some s) = Some t" "tree_inv t K' F' {}"
     "entries t K' dst co = None" "dir_map t = (dir_map s)(dst := (dir_map s dst)(co := None))"
     "alive t src" "par t src = par s src" "name_of t src = name_of s src" "same_file (nodes t src) (nodes s src)"
     "alive t dst" "\<not> unlinked (nodes t dst)" "is_dir (nodes t dst)"
     "(src, dst) \<in> (edges t {})\<^sup>* \<longleftrightarrow> (src, dst) \<in> (edges s {})\<^sup>*" "dir_map s dst co = None \<longrightarrow> t = s"
    using rename_cleared [OF inv r ns nb] by (elim exE conjE) (rule that; assumption)
  have ab: "above src dst t = Some ((src, dst) \<in> (edges s {})\<^sup>*)" using above_spec [OF c(2,9,10)] c(12) by simp
  have nofile: "(src, dst) \<notin> (edges s {})\<^sup>*" if "\<not> is_dir (nodes s src)"
  proof
    assume "(src, dst) \<in> (edges s {})\<^sup>*"
    moreover have "K src = []" using kidsD(4) [OF inv d(1)] that by blast
    ultimately have "src = dst" using no_kids_no_edges [OF inv] by blast
    then show False using that d(7) by simp
  qed
  have dirs: "is_dir (nodes t src) = is_dir (nodes s src)" using c(8) by (simp add: same_file_def)
  have eq: "ramfs64_rename old new s = (if (src, dst) \<in> (edges s {})\<^sup>* then Some (-22, t) else map_option (\<lambda>s. (0, s)) (move src dst co t))"
    unfolding rename_rest [OF inv r ns nb] c(1) using ab nofile dirs by (auto simp: map_conv_bind_option comp_def)
  show "\<exists>t. ramfs64_rename old new s = Some (-22, t) \<and> ramfs_ok t \<and> (dir_map s dst co = None \<longrightarrow> t = s)
       \<and> dir_map t = (dir_map s)(dst := (dir_map s dst)(co := None))" if "(src, dst) \<in> (edges s {})\<^sup>*"
    using that eq c(2,4,13) by (auto simp: ramfs_ok_def)
  show "\<exists>t. ramfs64_rename old new s = Some (0, t) \<and> ramfs_ok t
       \<and> dir_map t = moved (dir_map s) (par s src) (name_of s src) dst co src" if nl: "(src, dst) \<notin> (edges s {})\<^sup>*"
  proof -
    obtain u where u: "move src dst co t = Some u" "ramfs_ok u" "dir_map u = moved (dir_map t) (par t src) (name_of t src) dst co src"
      using move_ok [OF c(2) c(5) _ c(9) c(11) c(10) d(6) c(3)] c(6,12) d(2) nl by auto
    have "moved (dir_map t) (par t src) (name_of t src) dst co src = moved (dir_map s) (par s src) (name_of s src) dst co src"
      unfolding c(4,6,7) moved_def Let_def by (auto simp: fun_eq_iff)
    then show ?thesis using eq nl u by simp
  qed
qed

section \<open>Creating and removing\<close>

lemma create_ok:
  assumes inv: "tree_inv s K F {}" and w: "walk path True True s = Some (p, co)" "0 \<le> p" "is_dir (nodes s p)"
  shows "dir_map s p co = Some c \<Longrightarrow> ramfs64_create path dir s = Some (c, s)"
    and "dir_map s p co = None \<Longrightarrow> F = [] \<Longrightarrow> ramfs64_create path dir s = Some (-1, s)"
    and "dir_map s p co = None \<Longrightarrow> F = i # F' \<Longrightarrow> \<exists>t. ramfs64_create path dir s = Some (i, t) \<and> ramfs_ok t
       \<and> \<not> alive s i \<and> alive t i \<and> dir_map t = (dir_map s)(p := (dir_map s p)(co \<mapsto> i)) \<and> is_dir (nodes t i) = dir \<and> fsize (nodes t i) = 0
       \<and> (\<forall>j. alive s j \<longrightarrow> alive t j \<and> same_file (nodes t j) (nodes s j)) \<and> kh t = kh s"
proof -
  have p: "alive s p" "\<not> unlinked (nodes s p)" "name_ok co"
    using walk_returns [OF inv, of path True True] w by (auto simp: walk_ok_def)
  have dm: "dir_map s p = entries s K p" using dir_map_entries [OF inv, of p] p(1) by simp
  have fc: "find_child p co s = Some (case dir_map s p co of Some c \<Rightarrow> c | None \<Rightarrow> -1)"
    using find_child_entries [OF inv p(1)] dm by simp
  show "ramfs64_create path dir s = Some (c, s)" if "dir_map s p co = Some c"
    using that entries_SomeD(6) [OF inv p(1), of co c] fc w dm by (simp add: ramfs64_create_def)
  show "ramfs64_create path dir s = Some (-1, s)" if "dir_map s p co = None" "F = []"
    using that fc w alloc_node_full [of s K "{}"] inv by (simp add: ramfs64_create_def)
  assume n: "dir_map s p co = None" and F: "F = i # F'"
  have inv': "tree_inv s K (i # F') {}" using inv F by simp
  have en: "entries s K p co = None" using n dm by simp
  obtain t where t: "alloc_node co p dir s = (i, t)" "tree_inv t (K(i := [], p := i # K p)) F' {}" "\<not> alive s i" "alive t i"
     "\<forall>j. j \<noteq> i \<longrightarrow> nodes t j = (if j = p then (nodes s p)\<lparr>first_child := i\<rparr> else nodes s j)"
     "name_of t i = co" "is_dir (nodes t i) = dir" "fsize (nodes t i) = 0" "kh t = kh s"
    using alloc_node_inv [OF inv' p(1) w(3) p(2,3) en, of dir] by blast
  have nm: "name_of t j = name_of s j \<and> same_file (nodes t j) (nodes s j) \<and> alive t j = alive s j" if "j \<noteq> i" for j
    using t(5) that by (auto simp: same_file_def alive_def)
  have ip: "i \<noteq> p" using t(3) p(1) by blast
  have kn: "c \<noteq> i" if "alive s d" "c \<in> set (K d)" for c d using kidsD(5) [OF inv that] t(3) by blast
  have "dir_map t d = ((dir_map s)(p := (dir_map s p)(co \<mapsto> i))) d" for d
  proof (cases "alive s d")
    case True
    have "entries t K d = entries s K d" using kn [OF True] nm by (intro entries_cong) blast
    moreover have "d \<noteq> i" using True t(3) by blast
    ultimately show ?thesis
      using dir_map_entries [OF t(2), of d] dir_map_entries [OF inv, of d] True nm [of d] t(6) p(1) dm
      by (auto simp: entries_def)
  next
    case False
    then show ?thesis
      using dir_map_entries [OF t(2), of d] dir_map_entries [OF inv, of d] nm [of d] p(1) ip by (auto simp: entries_def)
  qed
  then have "dir_map t = (dir_map s)(p := (dir_map s p)(co \<mapsto> i))" by blast
  moreover have "ramfs64_create path dir s = Some (i, t)" using fc n w t(1) by (simp add: ramfs64_create_def)
  moreover have "alive t j \<and> same_file (nodes t j) (nodes s j)" if "alive s j" for j using nm that t(3) by metis
  ultimately show "\<exists>t. ramfs64_create path dir s = Some (i, t) \<and> ramfs_ok t
       \<and> \<not> alive s i \<and> alive t i \<and> dir_map t = (dir_map s)(p := (dir_map s p)(co \<mapsto> i)) \<and> is_dir (nodes t i) = dir \<and> fsize (nodes t i) = 0
       \<and> (\<forall>j. alive s j \<longrightarrow> alive t j \<and> same_file (nodes t j) (nodes s j)) \<and> kh t = kh s"
    using t by (intro exI [of _ t]) (auto simp: ramfs_ok_def)
qed

lemma unlink_ok:
  assumes inv: "tree_inv s K F {}" and i: "ramfs64_lookup_nofollow path s = Some i" "0 \<le> i" "\<not> is_dir (nodes s i)"
  shows "\<exists>t. ramfs64_unlink path s = Some (0, t) \<and> name_dropped i (openers (nodes s i) > 0) s t"
proof -
  have a: "alive s i" "\<not> unlinked (nodes s i)" using lookup_nofollow_returns [OF inv, of path] i by auto
  have "i \<noteq> 0" using tree_invD(3) [OF inv] i(3) by (auto simp: root_ok_def)
  then have "0 \<le> par s i" by (rule named_has_parent [OF inv a])
  moreover have "K i = []" using kidsD(4) [OF inv a(1)] i(3) by blast
  ultimately obtain t where "drop_name i s = Some t" "name_dropped i (openers (nodes s i) > 0) s t"
    using drop_name_ok [OF inv a(1)] by blast
  then show ?thesis using i by (simp add: ramfs64_unlink_def)
qed

lemma rmdir_ok:
  assumes inv: "tree_inv s K F {}" and i: "ramfs64_lookup_nofollow path s = Some i" "0 < i" "is_dir (nodes s i)"
  shows "dir_map s i \<noteq> Map.empty \<Longrightarrow> ramfs64_rmdir path s = Some (-39, s)"
    and "dir_map s i = Map.empty \<Longrightarrow> \<exists>t. ramfs64_rmdir path s = Some (0, t) \<and> name_dropped i False s t"
proof -
  have a: "alive s i" "\<not> unlinked (nodes s i)" using lookup_nofollow_returns [OF inv, of path] i by auto
  note e = empty_dir_map [OF inv a(1)]
  have h: "has_children i s \<longleftrightarrow> dir_map s i \<noteq> Map.empty"
    using e a(1) valid_live [OF tree_invD(1) [OF inv]] by (auto simp: has_children_def)
  show "ramfs64_rmdir path s = Some (-39, s)" if "dir_map s i \<noteq> Map.empty"
    using that h i by (simp add: ramfs64_rmdir_def ROOT_def)
  have "0 \<le> par s i" using named_has_parent [OF inv a] i(2) by simp
  then show "\<exists>t. ramfs64_rmdir path s = Some (0, t) \<and> name_dropped i False s t" if "dir_map s i = Map.empty"
    using that h i free_node_ok [OF inv a(1)] e(1) by (auto simp: ramfs64_rmdir_def ROOT_def)
qed

section \<open>Paths of nodes\<close>

text \<open>A list of nodes that goes down from a node, each the parent of the next.\<close>

fun down :: "ramfs \<Rightarrow> int \<Rightarrow> int list \<Rightarrow> bool" where
  "down s a [] = True"
| "down s a (c # cs) = (par s c = a \<and> 0 \<le> a \<and> alive s c \<and> down s c cs)"

lemma down_snoc: "down s a (xs @ [n]) \<longleftrightarrow> down s a xs \<and> par s n = last (a # xs) \<and> 0 \<le> last (a # xs) \<and> alive s n"
  by (induction xs arbitrary: a) auto

definition path_of_nodes :: "ramfs \<Rightarrow> int list \<Rightarrow> string" where
  "path_of_nodes s cs = concat (map (\<lambda>c. ''/'' @ name_of s c) cs)"

lemma path_of_nodes_simps [simp]: "path_of_nodes s [] = []" "path_of_nodes s (c # cs) = CHR ''/'' # name_of s c @ path_of_nodes s cs"
  by (simp_all add: path_of_nodes_def)

lemma path_of_nodes_start: "path_of_nodes s cs = [] \<or> (\<exists>r. path_of_nodes s cs = CHR ''/'' # r)"
  by (cases cs) auto

lemma split_component:
  assumes "name_ok n" and "r = [] \<or> (\<exists>r'. r = CHR ''/'' # r')"
  shows "dropWhile slash (CHR ''/'' # n @ r) = n @ r" and "takeWhile (\<lambda>c. \<not> slash c) (n @ r) = n"
    and "dropWhile (\<lambda>c. \<not> slash c) (n @ r) = r"
proof -
  obtain c cs where n: "n = c # cs" "\<not> slash c" "\<forall>x \<in> set n. \<not> slash x" using assms(1) by (cases n) (auto simp: name_ok_def)
  show "dropWhile slash (CHR ''/'' # n @ r) = n @ r" using n by simp
  have "takeWhile (\<lambda>c. \<not> slash c) r = []" "dropWhile (\<lambda>c. \<not> slash c) r = r" using assms(2) by auto
  then show "takeWhile (\<lambda>c. \<not> slash c) (n @ r) = n" "dropWhile (\<lambda>c. \<not> slash c) (n @ r) = r"
    using n(3) takeWhile_append2 [of n "\<lambda>c. \<not> slash c" r] dropWhile_append2 [of n "\<lambda>c. \<not> slash c" r] by simp_all
qed

lemma walk_down:
  assumes inv: "tree_inv s K F {}" and nm: "\<And>c. alive s c \<Longrightarrow> name_of s c \<noteq> ''.'' \<and> name_of s c \<noteq> ''..''"
  shows "down s a cs \<Longrightarrow> walk_loop False False s a links (path_of_nodes s cs) = Some (last (a # cs), [])"
proof (induction cs arbitrary: a)
  case Nil
  then show ?case by (simp add: walk_loop_nil)
next
  case (Cons c cs)
  have c: "par s c = a" "0 \<le> a" "alive s c" "down s c cs" using Cons.prems by auto
  note u = up_alive [OF inv c(3)]
  have ck: "c \<in> set (K a)" "alive s a" using u(1,2) c by auto
  have nok: "name_ok (name_of s c)" using kidsD(5) [OF inv ck(2,1)] by blast
  note sc = split_component [OF nok path_of_nodes_start [of s cs]]
  have fc: "find_child a (name_of s c) s = Some c"
    using find_child_entries [OF inv ck(2)] entries_member [OF inv ck(2,1)] by simp
  have c0: "\<not> c < 0" using c(3) by (simp add: alive_def in_range_def)
  have nl: "\<not> is_link (nodes s c)" if more: "dropWhile slash (path_of_nodes s cs) \<noteq> []"
  proof -
    have "cs \<noteq> []" using more by auto
    then obtain d ds where ds: "cs = d # ds" by (cases cs) auto
    then have "is_dir (nodes s c)" using up_alive(4) [OF inv, of d] c(4) by auto
    then show ?thesis using tree_invD(7) [OF inv c(3)] by (auto simp: flags_ok_def)
  qed
  have ne: "dropWhile slash (path_of_nodes s (c # cs)) \<noteq> []" using sc(1) nok by (simp add: name_ok_def del: dropWhile.simps)
  have "walk_loop False False s a links (path_of_nodes s (c # cs)) = walk_loop False False s c links (path_of_nodes s cs)"
    unfolding walk_loop_step [OF ne] unfolding path_of_nodes_simps(2) sc
    using nm [OF c(3)] fc c0 nl by (auto simp del: dropWhile_eq_Nil_conv)
  then show ?case using Cons.IH [OF c(4)] by simp
qed

lemma path_chain_down:
  assumes inv: "tree_inv s K F {}"
  shows "alive s n \<Longrightarrow> \<not> unlinked (nodes s n) \<Longrightarrow> path_chain room n s = (c, e) \<Longrightarrow> \<not> e > 0 \<Longrightarrow> down s 0 (rev c) \<and> last (0 # rev c) = n"
proof (induction room arbitrary: n c e)
  case 0
  then show ?case using 0(1) by (subst (asm) path_chain.simps) (auto simp: alive_def in_range_def)
next
  case (Suc room)
  show ?case
  proof (cases "n > 0")
    case True
    obtain c' e' where pc: "path_chain room (par s n) s = (c', e')" by fastforce
    have ce: "c = n # c'" "e = e'" using Suc.prems(3) True pc by (subst (asm) path_chain.simps; simp)+
    have "0 \<le> par s n" using named_has_parent [OF inv Suc.prems(1,2)] True by simp
    note u = up_alive [OF inv Suc.prems(1) this]
    have "down s 0 (rev c') \<and> last (0 # rev c') = par s n" using Suc.IH [OF u(1,3) pc] Suc.prems(4) ce by simp
    then show ?thesis using ce(1) Suc.prems(1) u(1) by (auto simp: down_snoc alive_def in_range_def)
  next
    case False
    then show ?thesis using Suc.prems by (subst (asm) path_chain.simps) (auto simp: alive_def in_range_def)
  qed
qed

lemma path_emit_spec: "path_emit sz out cs s = Some p \<Longrightarrow> p = out @ path_of_nodes s cs"
  by (induction cs arbitrary: out) (fastforce split: if_splits)+

lemma path_round_trip:
  assumes inv: "tree_inv s K F {}" and nm: "\<And>c. alive s c \<Longrightarrow> name_of s c \<noteq> ''.'' \<and> name_of s c \<noteq> ''..''"
    and n: "alive s n" "\<not> unlinked (nodes s n)" and p: "ramfs64_path n sz s = (r, p)" "0 \<le> r"
  shows "ramfs64_lookup_nofollow p s = Some n"
proof -
  note v = valid_live [OF tree_invD(1) [OF inv]]
  obtain c e where pc: "path_chain 64 n s = (c, e)" by fastforce
  have e: "\<not> e > 0" using p pc n v by (auto simp: ramfs64_path_def split: if_splits)
  note d = path_chain_down [OF inv n pc e]
  have wl: "walk_loop False False s 0 0 (path_of_nodes s (rev c)) = Some (n, [])"
    using walk_down [OF inv nm, of 0 "rev c" 0] d by simp
  have np: "nodes_ptr s \<noteq> 0" by (rule tree_invD(1) [OF inv])
  show ?thesis
  proof (cases "c = []")
    case True
    then have "p = ''/''" using p pc n v e by (auto simp: ramfs64_path_def split: if_splits)
    moreover have "walk_loop False False s 0 0 ''/'' = Some (0, [])" by (simp add: walk_loop_nil)
    ultimately show ?thesis using True d np by (simp add: ramfs64_lookup_nofollow_def walk_def ROOT_def)
  next
    case False
    then have "path_emit sz [] (rev c) s = Some p"
      using p pc n v e by (auto simp: ramfs64_path_def split: if_splits option.splits)
    then have pp: "p = path_of_nodes s (rev c)" using path_emit_spec by fastforce
    have "p \<noteq> [] \<and> slash (hd p)" using pp False by (cases "rev c") auto
    then show ?thesis using wl np unfolding pp [symmetric] by (simp add: ramfs64_lookup_nofollow_def walk_def ROOT_def)
  qed
qed

section \<open>A small file system\<close>

definition free_entry :: "int \<Rightarrow> node64" where
  "free_entry i = \<lparr>nm = [], parent = -1, data = 0, dbytes = [], fsize = 0, capacity = 0, is_dir = False, is_link = False,
     fmode = 0, frames = 0, farray = (\<lambda>_. 0), nframes = 0, fcap = 0, openers = 0, unlinked = False, device = 0,
     nd_used = False, first_child = -1, next_sibling = (if i + 1 < RAMFS64_MAX_NODES then i + 1 else -1)\<rparr>"

text \<open>A root with the directory \<open>a\<close>, which holds the empty directory \<open>b\<close>, and the file \<open>f\<close>.\<close>

definition ramfs_demo :: ramfs where
  "ramfs_demo = \<lparr>nodes_ptr = 0xFFFF900000100000,
     nodes = free_entry(
       0 := (free_entry 0)\<lparr>nm := ''/'', is_dir := True, nd_used := True, first_child := 1, next_sibling := -1\<rparr>,
       1 := (free_entry 1)\<lparr>nm := ''a'', parent := 0, is_dir := True, nd_used := True, first_child := 2, next_sibling := 3\<rparr>,
       2 := (free_entry 2)\<lparr>nm := ''b'', parent := 1, is_dir := True, nd_used := True, next_sibling := -1\<rparr>,
       3 := (free_entry 3)\<lparr>nm := ''f'', parent := 0, nd_used := True, next_sibling := -1\<rparr>),
     node_count = 4, node_free = 4, seed_failures = 0, kh = kheap_used_page\<rparr>"

lemma chain_upto: "0 \<le> a \<Longrightarrow> a \<le> N \<Longrightarrow> chain (\<lambda>i. if i + 1 < N then i + 1 else -1) (if a < N then a else -1) [a..N - 1]"
proof (induction "nat (N - a)" arbitrary: a)
  case (Suc k)
  then have "[a..N - 1] = a # [a + 1..N - 1]" by (simp add: upto_rec1)
  then show ?case using Suc.hyps(1) [of "a + 1"] Suc.hyps(2) Suc.prems by auto
qed auto

definition demo_kids :: "int \<Rightarrow> int list" where
  "demo_kids = (\<lambda>_. [])(0 := [1, 3], 1 := [2])"

lemma demo_nodes:
  "nodes ramfs_demo 0 = (free_entry 0)\<lparr>nm := ''/'', is_dir := True, nd_used := True, first_child := 1, next_sibling := -1\<rparr>"
  "nodes ramfs_demo 1 = (free_entry 1)\<lparr>nm := ''a'', parent := 0, is_dir := True, nd_used := True, first_child := 2, next_sibling := 3\<rparr>"
  "nodes ramfs_demo 2 = (free_entry 2)\<lparr>nm := ''b'', parent := 1, is_dir := True, nd_used := True, next_sibling := -1\<rparr>"
  "nodes ramfs_demo 3 = (free_entry 3)\<lparr>nm := ''f'', parent := 0, nd_used := True, next_sibling := -1\<rparr>"
  by (simp_all add: ramfs_demo_def)

lemma demo_used: "nd_used (nodes ramfs_demo i) \<longleftrightarrow> i \<in> {0, 1, 2, 3}"
  by (simp add: ramfs_demo_def free_entry_def)

lemma demo_alive: "alive ramfs_demo i \<longleftrightarrow> i \<in> {0, 1, 2, 3}"
  by (auto simp: alive_def demo_used in_range_def RAMFS64_MAX_NODES_def)

definition demo_free :: "int list" where
  "demo_free = [4..RAMFS64_MAX_NODES - 1]"

lemma set_demo_free: "set demo_free = {4..<RAMFS64_MAX_NODES}"
  by (auto simp: demo_free_def)

lemma distinct_demo_free: "distinct demo_free"
  by (simp add: demo_free_def)

lemma ramfs_demo_inv: "tree_inv ramfs_demo demo_kids demo_free {}"
proof -
  have "chain (nx ramfs_demo) 4 demo_free = chain (\<lambda>i. if i + 1 < RAMFS64_MAX_NODES then i + 1 else -1) 4 demo_free"
    by (rule chain_cong) (auto simp: ramfs_demo_def free_entry_def set_demo_free)
  then have "chain (nx ramfs_demo) 4 demo_free"
    using chain_upto [of 4 RAMFS64_MAX_NODES, folded demo_free_def] by (simp add: RAMFS64_MAX_NODES_def)
  moreover have "set demo_free = {i. in_range i \<and> \<not> nd_used (nodes ramfs_demo i)}"
    by (auto simp: set_demo_free demo_used in_range_def)
  moreover have "node_free ramfs_demo = 4" by (simp add: ramfs_demo_def)
  ultimately have fo: "free_ok ramfs_demo demo_free" using distinct_demo_free by (simp only: free_ok_def simp_thms)
  have ro: "root_ok ramfs_demo" using demo_alive [of 0] by (simp add: root_ok_def) (simp add: ramfs_demo_def free_entry_def)
  have kk: "kids_ok ramfs_demo demo_kids {} d \<and> flags_ok ramfs_demo d \<and> up_ok ramfs_demo demo_kids d"
    if "d \<in> {0, 1, 2, 3}" for d
  proof -
    have "kids_ok ramfs_demo demo_kids {} d" if "d = 0 \<or> d = 1 \<or> d = 2 \<or> d = 3" for d
      using that by (elim disjE) (simp_all add: kids_ok_def demo_kids_def demo_alive demo_nodes free_entry_def name_ok_def RAMFS64_NAME_MAX_def)
    moreover have "flags_ok ramfs_demo d \<and> up_ok ramfs_demo demo_kids d" if "d = 0 \<or> d = 1 \<or> d = 2 \<or> d = 3" for d
      using that by (elim disjE) (simp_all add: flags_ok_def up_ok_def demo_kids_def demo_alive demo_nodes free_entry_def)
    ultimately show ?thesis using that by blast
  qed
  have ac: "acyclic (edges ramfs_demo {})"
  proof (rule acyclic_subset)
    show "edges ramfs_demo {} \<subseteq> {(x, y). x < y}"
      by (auto simp: edges_def demo_alive demo_nodes free_entry_def)
    have "trans {(x :: int, y). x < y}" by (auto simp: trans_def)
    then show "acyclic {(x :: int, y). x < y}" by (auto simp: acyclic_def trancl_id)
  qed
  have ct: "{i. alive ramfs_demo i} = {0, 1, 2, 3}" by (auto simp: demo_alive)
  have np: "nodes_ptr ramfs_demo \<noteq> 0" "node_count ramfs_demo = card {0 :: int, 1, 2, 3}" by (simp_all add: ramfs_demo_def)
  show ?thesis
    unfolding tree_inv_def
  proof (intro conjI allI impI)
    fix d assume "alive ramfs_demo d"
    then have "d \<in> {0, 1, 2, 3}" by (simp only: demo_alive)
    from kk [OF this] show "kids_ok ramfs_demo demo_kids {} d" "flags_ok ramfs_demo d" "up_ok ramfs_demo demo_kids d" by blast+
  next
    show "node_count ramfs_demo = card {i. alive ramfs_demo i}" unfolding ct by (rule np(2))
  qed (use np(1) fo ro ac in simp_all)
qed

lemma ramfs_demo_ok: "ramfs_ok ramfs_demo"
  using ramfs_demo_inv by (auto simp: ramfs_ok_def)
lemma demo_find:
  "find_child 0 ''a'' ramfs_demo = Some 1" "find_child 0 ''f'' ramfs_demo = Some 3" "find_child 1 ''b'' ramfs_demo = Some 2"
  by (simp_all add: find_child_entries [OF ramfs_demo_inv] demo_alive entries_def demo_kids_def demo_nodes)

lemma demo_ptr [simp]: "nodes_ptr ramfs_demo \<noteq> 0"
  by (simp add: ramfs_demo_def)

lemma demo_dirs: "dir_map ramfs_demo 1 = [''b'' \<mapsto> 2]" "dir_map ramfs_demo 2 = Map.empty"
  by (simp_all add: dir_map_entries [OF ramfs_demo_inv] demo_alive entries_def demo_kids_def demo_nodes fun_eq_iff)

lemma demo_walks:
  "walk ''/a/n'' True True ramfs_demo = Some (1, ''n'')" "walk ''/f'' False False ramfs_demo = Some (3, [])"
  "walk ''/a'' False False ramfs_demo = Some (1, [])" "walk ''/a/b'' True True ramfs_demo = Some (1, ''b'')"
  "walk ''/f/x'' True True ramfs_demo = Some (3, ''x'')"
  using demo_find
  by (simp_all add: walk_def ROOT_def walk_loop_step walk_loop_nil demo_nodes free_entry_def RAMFS64_NAME_MAX_def)

section \<open>Properties\<close>

text \<open>C31: Path walking always returns, whatever the path and whatever symbolic links the tree
  holds, a loop of links included: the answer is -1 or a live node that still has a name, and a
  walk for a parent also gives a well-formed last component.\<close>

theorem ramfs64_walk_returns:
  assumes "ramfs_ok s"
  shows "\<exists>n name. walk path want_parent follow s = Some (n, name)
     \<and> (n = -1 \<or> valid n s \<and> \<not> unlinked (nodes s n) \<and> (want_parent \<longrightarrow> name \<noteq> [] \<and> length name < 256 \<and> CHR ''/'' \<notin> set name))"
proof -
  obtain K F where inv: "tree_inv s K F {}" using assms by (auto simp: ramfs_ok_def)
  from walk_returns [OF this, of path want_parent follow] show ?thesis
    using valid_live [OF tree_invD(1) [OF inv]] by (auto simp: walk_ok_def name_ok_def RAMFS64_NAME_MAX_def)
qed

theorem ramfs64_walk_returns_witness: "\<exists>n name. walk ''/a/../f/x'' True True ramfs_demo = Some (n, name)"
  using ramfs64_walk_returns [OF ramfs_demo_ok, of "''/a/../f/x''" True True] by blast

text \<open>Creating a name in a directory. If the name exists its node is returned and nothing
  changes. Otherwise, unless all nodes are taken, a fresh node is entered under exactly that name,
  no other name of any directory changes, no other file is touched, and the tree stays a tree.\<close>

theorem ramfs64_create_correct:
  assumes "ramfs_ok s" and "walk path True True s = Some (p, name)" and "0 \<le> p" and "is_dir (nodes s p)"
  shows "\<exists>i t. ramfs64_create path dir s = Some (i, t) \<and> ramfs_ok t
     \<and> (case dir_map s p name of
          Some c \<Rightarrow> i = c \<and> t = s
        | None \<Rightarrow> (i = -1 \<and> t = s \<and> node_free s = -1)
            \<or> (\<not> valid i s \<and> valid i t \<and> dir_map t = (dir_map s)(p := (dir_map s p)(name \<mapsto> i)) \<and> is_dir (nodes t i) = dir
               \<and> fsize (nodes t i) = 0 \<and> (\<forall>j. valid j s \<longrightarrow> valid j t \<and> same_file (nodes t j) (nodes s j))))"
proof -
  obtain K F where inv: "tree_inv s K F {}" using assms(1) by (auto simp: ramfs_ok_def)
  note v = valid_live [OF tree_invD(1) [OF inv]] and c = create_ok [OF inv assms(2-4)]
  show ?thesis
  proof (cases "dir_map s p name")
    case (Some c')
    then show ?thesis using c(1) assms(1) by (intro exI [of _ c'] exI [of _ s]) simp
  next
    case None
    show ?thesis
    proof (cases F)
      case Nil
      then have "node_free s = -1" using tree_invD(2) [OF inv] by (simp add: free_ok_def)
      then show ?thesis using c(2) [OF None Nil] None assms(1) by (intro exI [of _ "-1"] exI [of _ s]) simp
    next
      case (Cons i F')
      obtain t where t: "ramfs64_create path dir s = Some (i, t)" "ramfs_ok t" "\<not> alive s i" "alive t i"
        "dir_map t = (dir_map s)(p := (dir_map s p)(name \<mapsto> i))" "is_dir (nodes t i) = dir" "fsize (nodes t i) = 0"
        "\<forall>j. alive s j \<longrightarrow> alive t j \<and> same_file (nodes t j) (nodes s j)"
        using c(3) [OF None Cons] by blast
      have "nodes_ptr t \<noteq> 0" using t(2) tree_invD(1) by (auto simp: ramfs_ok_def)
      note v' = valid_live [OF this]
      show ?thesis using t None by (intro exI [of _ i] exI [of _ t]) (simp add: v v')
    qed
  qed
qed

theorem ramfs64_create_correct_witness:
  "\<exists>i t. ramfs64_create ''/a/n'' False ramfs_demo = Some (i, t) \<and> ramfs_ok t"
proof -
  from ramfs64_create_correct [OF ramfs_demo_ok demo_walks(1), of False] show ?thesis by (auto simp: demo_nodes)
qed

text \<open>C32: \<open>ramfs64_unlink\<close> takes away exactly one name and no other, and keeps the tree sound. A
  file that somebody holds open stays live with the same bytes; one that nobody has open is
  released, and no other file is touched.\<close>

theorem ramfs64_unlink_correct:
  assumes "ramfs_ok s" and "ramfs64_lookup_nofollow path s = Some i" and "0 \<le> i" and "\<not> is_dir (nodes s i)"
  shows "\<exists>t. ramfs64_unlink path s = Some (0, t) \<and> ramfs_ok t
     \<and> dir_map t = (dir_map s)(parent (nodes s i) := (dir_map s (parent (nodes s i)))(nm (nodes s i) := None))
     \<and> (valid i t \<longleftrightarrow> openers (nodes s i) > 0) \<and> (\<forall>j. j \<noteq> i \<longrightarrow> valid j t = valid j s)
     \<and> (\<forall>j. valid j t \<longrightarrow> same_file (nodes t j) (nodes s j))"
proof -
  obtain K F where inv: "tree_inv s K F {}" using assms(1) by (auto simp: ramfs_ok_def)
  obtain t where t: "ramfs64_unlink path s = Some (0, t)" "name_dropped i (openers (nodes s i) > 0) s t"
    using unlink_ok [OF inv assms(2-4)] by blast
  have "nodes_ptr t \<noteq> 0" using t(2) tree_invD(1) by (auto simp: name_dropped_def ramfs_ok_def)
  note v = valid_live [OF tree_invD(1) [OF inv]] valid_live [OF this]
  have "alive s i" using lookup_nofollow_returns [OF inv, of path] assms(2,3) by auto
  then show ?thesis using t by (intro exI [of _ t]) (auto simp: name_dropped_def v)
qed

theorem ramfs64_unlink_correct_witness:
  "\<exists>t. ramfs64_unlink ''/f'' ramfs_demo = Some (0, t) \<and> dir_map t 0 ''f'' = None"
proof -
  have "ramfs64_lookup_nofollow ''/f'' ramfs_demo = Some 3" by (simp add: ramfs64_lookup_nofollow_def demo_walks)
  from ramfs64_unlink_correct [OF ramfs_demo_ok this] show ?thesis by (auto simp: demo_nodes free_entry_def)
qed



text \<open>C34: A rename that fails with \<open>EINVAL\<close> because a directory would move below itself has already
  removed the destination: when the new name exists, the failed rename destroys it.\<close>

theorem ramfs64_rename_loses_destination:
  assumes "ramfs_ok s" and "rename_target old new s src dst name" and "dir_map s dst name = Some e" and "e \<noteq> src"
    and "\<not> blocked s src (Some e)" and "(src, dst) \<in> (edges s {})\<^sup>*"
  shows "\<exists>t. ramfs64_rename old new s = Some (-22, t) \<and> dir_map t dst name = None"
proof -
  obtain K F where inv: "tree_inv s K F {}" using assms(1) by (auto simp: ramfs_ok_def)
  from rename_ok(1) [OF inv assms(2)] assms(3-6) show ?thesis by auto
qed

theorem ramfs64_rename_loses_destination_witness:
  "\<exists>t. ramfs64_rename ''/a'' ''/a/b'' ramfs_demo = Some (-22, t) \<and> dir_map t 1 ''b'' = None \<and> dir_map ramfs_demo 1 ''b'' = Some 2"
proof -
  have t: "rename_target ''/a'' ''/a/b'' ramfs_demo 1 1 ''b''"
    by (simp add: rename_target_def ramfs64_lookup_nofollow_def demo_walks demo_nodes)
  have "dir_map ramfs_demo 1 ''b'' = Some 2" "\<not> blocked ramfs_demo 1 (Some 2)"
    by (simp_all add: demo_dirs blocked_def demo_nodes)
  then show ?thesis using ramfs64_rename_loses_destination [OF ramfs_demo_ok t] by simp
qed

text \<open>Below a regular file \<open>ramfs64_create\<close> should refuse with \<open>ENOTDIR\<close>. It does not look
  whether the parent is a directory: it takes a fresh node and links it below the file, where no
  lookup can find it, so that every further attempt takes one more.\<close>

theorem ramfs64_create_below_file:
  assumes "ramfs_ok s" and "walk path True True s = Some (p, name)" and "0 \<le> p" and "\<not> is_dir (nodes s p)" and "0 \<le> node_free s"
  shows "\<exists>i t. ramfs64_create path dir s = Some (i, t) \<and> \<not> valid i s \<and> valid i t \<and> parent (nodes t i) = p
     \<and> node_count t = node_count s + 1 \<and> find_child p name t = Some (-1)"
proof -
  obtain K F where inv: "tree_inv s K F {}" using assms(1) by (auto simp: ramfs_ok_def)
  note D = tree_invD [OF inv]
  have p: "alive s p" using walk_returns [OF inv, of path True True] assms(2,3) by (auto simp: walk_ok_def)
  obtain i F' where F: "F = i # F'" "node_free s = i" "in_range i" "\<not> nd_used (nodes s i)"
    using D(2) assms(5) by (cases F) (auto simp: free_ok_def)
  have ip: "i \<noteq> p" using p F(4) by (auto simp: alive_def)
  have fst: "fst (alloc_node name p dir s) = i" using D(1) F(2) assms(5) by (simp add: alloc_node_def Let_def)
  obtain t where t: "alloc_node name p dir s = (i, t)" using fst by (metis prod.collapse)
  have "nodes_ptr t = nodes_ptr s" "nd_used (nodes t i)" "parent (nodes t i) = p" "is_dir (nodes t p) = is_dir (nodes s p)"
     "node_count t = node_count s + 1"
    using t ip p D(1) F(2,3) by (auto simp: alloc_node_def Let_def alive_def in_range_def)
  moreover have "find_child p name s = Some (-1)" using assms(4) by (simp add: find_child_def)
  then have "ramfs64_create path dir s = Some (i, t)" using assms(2,3) t by (simp add: ramfs64_create_def)
  ultimately show ?thesis
    using F D(1) assms(4) by (auto simp: valid_def in_range_def find_child_def)
qed

theorem ramfs64_create_below_file_witness:
  "\<exists>i t. ramfs64_create ''/f/x'' False ramfs_demo = Some (i, t) \<and> valid i t \<and> find_child 3 ''x'' t = Some (-1)"
proof -
  have "0 \<le> node_free ramfs_demo" by (simp add: ramfs_demo_def)
  then show ?thesis
    using ramfs64_create_below_file [OF ramfs_demo_ok demo_walks(5), of False] by (auto simp: demo_nodes free_entry_def)
qed

text \<open>The path the kernel prints for a node leads back to that node: \<open>ramfs64_path\<close> followed by
  a lookup that does not follow a final link returns the node, for every node that has a name, as
  long as no name in the tree is \<^verbatim>\<open>.\<close> or \<^verbatim>\<open>..\<close>.\<close>

theorem ramfs64_path_round_trip:
  assumes "ramfs_ok s" and "\<forall>c. valid c s \<longrightarrow> nm (nodes s c) \<noteq> ''.'' \<and> nm (nodes s c) \<noteq> ''..''"
    and "valid n s" and "\<not> unlinked (nodes s n)" and "ramfs64_path n sz s = (r, p)" and "0 \<le> r"
  shows "ramfs64_lookup_nofollow p s = Some n"
proof -
  obtain K F where inv: "tree_inv s K F {}" using assms(1) by (auto simp: ramfs_ok_def)
  note v = valid_live [OF tree_invD(1) [OF inv]]
  show ?thesis by (rule path_round_trip [OF inv _ _ assms(4-6)]) (use assms(2,3) v in auto)
qed

theorem ramfs64_path_round_trip_witness: "ramfs64_lookup_nofollow ''/a/b'' ramfs_demo = Some 2"
proof -
  have v: "valid c ramfs_demo \<longleftrightarrow> c \<in> {0, 1, 2, 3}" for c by (simp add: valid_live demo_alive)
  have "path_chain 64 2 ramfs_demo = ([2, 1], 0)"
    by (subst path_chain.simps, subst path_chain.simps, subst path_chain.simps) (simp add: demo_nodes)
  then have "ramfs64_path 2 100 ramfs_demo = (4, ''/a/b'')" by (simp add: ramfs64_path_def v demo_nodes)
  then show ?thesis
    using ramfs64_path_round_trip [OF ramfs_demo_ok, of 2 100 4 "''/a/b''"] by (auto simp: v demo_nodes free_entry_def)
qed

end
