(* ===== verification/Pipe64.thy ===== *)
theory Pipe64
  imports Ring Ramfs64_Tree
begin

text \<open>
  \<^verbatim>\<open>kernel/pipe64.c\<close>: a byte stream between two descriptors, with the descriptors that travel beside
  it. The table of pipes is a function from the index; the 64KB a pipe takes from the kernel heap
  are the list \<open>ring\<close> beside the pointer \<open>buf\<close>, and what they hold when the heap hands them out is
  whatever the slot held before. \<open>None\<close> stands for an operation that does not return or that
  touches memory outside its buffer.

  \<open>pipe64_unref\<close> and \<open>drop_inflight\<close> call each other: a pipe whose last end goes gives back the
  descriptors in flight on it, which may be the last ends of other pipes. They are one recursive
  function \<open>pipe_call\<close> here, with the loop over the batches as a case of its own. The main result is
  that this always returns and never frees a pipe that somebody still holds.
\<close>

section \<open>State\<close>

definition PIPE64_MAX :: int where "PIPE64_MAX = 2048"
definition PIPE64_BUF :: nat where "PIPE64_BUF = 65536"
definition PIPE64_INFLIGHT :: nat where "PIPE64_INFLIGHT = 16"
definition BATCH_FDS :: nat where "BATCH_FDS = 8"
definition FD64_FILE :: nat where "FD64_FILE = 0"
definition FD64_PIPE :: nat where "FD64_PIPE = 1"
definition FD64_SOCKET :: nat where "FD64_SOCKET = 2"

record fdpass64 =
  kind :: nat
  node :: int
  pos :: nat
  rx :: int
  tx :: int

record batch64 =
  bfds :: "fdpass64 list"
  bn :: nat

record pipe64 =
  buf :: nat
  ring :: "byte list"
  head :: nat
  tail :: nat
  plen :: nat
  readers :: int
  writers :: int
  inflight :: "batch64 list"
  in_head :: nat
  in_count :: nat
  pused :: bool

record pipe_state =
  pipes :: "int \<Rightarrow> pipe64"
  said :: bool
  fs :: ramfs

definition pupd :: "int \<Rightarrow> (pipe64 \<Rightarrow> pipe64) \<Rightarrow> pipe_state \<Rightarrow> pipe_state" where
  "pupd p f s = s\<lparr>pipes := (pipes s)(p := f (pipes s p))\<rparr>"

section \<open>Creating and counting ends\<close>

definition pipe64_init :: "pipe_state \<Rightarrow> pipe_state" where
  "pipe64_init s = s\<lparr>pipes := (\<lambda>i. if 0 \<le> i \<and> i < PIPE64_MAX
     then (pipes s i)\<lparr>buf := 0, head := 0, tail := 0, plen := 0, readers := 0, writers := 0, in_head := 0, in_count := 0, pused := False\<rparr>
     else pipes s i)\<rparr>"

definition pipe64_valid :: "int \<Rightarrow> pipe_state \<Rightarrow> bool" where
  "pipe64_valid p s \<longleftrightarrow> p \<ge> 0 \<and> p < PIPE64_MAX \<and> pused (pipes s p)"

definition free_slot :: "pipe_state \<Rightarrow> int" where
  "free_slot s = (case find (\<lambda>i. \<not> pused (pipes s (int i))) [0..<nat PIPE64_MAX] of Some i \<Rightarrow> int i | None \<Rightarrow> PIPE64_MAX)"

definition pipe64_create :: "pipe_state \<Rightarrow> (int \<times> pipe_state) option" where
  "pipe64_create s =
     (let i = free_slot s
      in if i = PIPE64_MAX then Some (-1, s\<lparr>said := True\<rparr>)
         else do {
           (p, h) \<leftarrow> kmalloc64 PIPE64_BUF (kh (fs s));
           let s = pupd i (\<lambda>q. q\<lparr>buf := p\<rparr>) (s\<lparr>fs := (fs s)\<lparr>kh := h\<rparr>\<rparr>);
           if p = 0 then Some (-1, s)
           else Some (i, pupd i (\<lambda>q. q\<lparr>head := 0, tail := 0, plen := 0, readers := 0, writers := 0,
                                      in_head := 0, in_count := 0, pused := True\<rparr>) s)
         })"

definition pipe64_ref :: "int \<Rightarrow> bool \<Rightarrow> bool \<Rightarrow> pipe_state \<Rightarrow> pipe_state" where
  "pipe64_ref p reader writer s =
     (if \<not> pipe64_valid p s then s
      else
      (let s = (if reader then pupd p (\<lambda>q. q\<lparr>readers := readers q + 1\<rparr>) s else s)
       in if writer then pupd p (\<lambda>q. q\<lparr>writers := writers q + 1\<rparr>) s else s))"

section \<open>Giving ends back\<close>

text \<open>A loop whose body may not return.\<close>

fun each :: "('a \<Rightarrow> 's \<Rightarrow> 's option) \<Rightarrow> 'a list \<Rightarrow> 's \<Rightarrow> 's option" where
  "each f [] s = Some s"
| "each f (x # xs) s = do { s \<leftarrow> f x s; each f xs s }"

lemma each_mono [partial_function_mono]:
  assumes "\<And>x s. mono_option (\<lambda>f. B f x s)"
  shows "mono_option (\<lambda>f. each (B f) xs s)"
proof (induction xs arbitrary: s)
  case Nil
  show ?case by (simp add: option.const_mono)
next
  case (Cons x xs)
  show ?case unfolding each.simps by (rule bind_mono [OF assms Cons.IH])
qed

datatype pipe_op = Unref int bool bool | Drain int

definition retire :: "int \<Rightarrow> pipe_state \<Rightarrow> pipe_state" where
  "retire p s = pupd p (\<lambda>q. q\<lparr>buf := 0, pused := False, plen := 0\<rparr>)
     (s\<lparr>fs := (fs s)\<lparr>kh := kfree64 (buf (pipes s p)) (kh (fs s))\<rparr>\<rparr>)"

definition next_batch :: "pipe64 \<Rightarrow> pipe64" where
  "next_batch q = q\<lparr>in_head := (in_head q + 1) mod PIPE64_INFLIGHT, in_count := in_count q - 1\<rparr>"

definition dec_ends :: "bool \<Rightarrow> bool \<Rightarrow> pipe64 \<Rightarrow> pipe64" where
  "dec_ends reader writer q =
     (let q = (if reader \<and> readers q > 0 then q\<lparr>readers := readers q - 1\<rparr> else q)
      in if writer \<and> writers q > 0 then q\<lparr>writers := writers q - 1\<rparr> else q)"

partial_function (option) pipe_call :: "pipe_op \<Rightarrow> pipe_state \<Rightarrow> pipe_state option" where
  "pipe_call c s = (case c of
     Unref p reader writer \<Rightarrow>
       if \<not> pipe64_valid p s then Some s
       else
       (let s = pupd p (dec_ends reader writer) s
        in if readers (pipes s p) = 0 \<and> writers (pipes s p) = 0
           then do { s \<leftarrow> pipe_call (Drain p) s; Some (retire p s) }
           else Some s)
   | Drain p \<Rightarrow>
       if in_count (pipes s p) > 0
       then (let b = inflight (pipes s p) ! in_head (pipes s p)
             in do {
               s \<leftarrow> each (\<lambda>f s. if kind f = FD64_FILE then Some (s\<lparr>fs := ramfs64_unref_node (node f) (fs s)\<rparr>)
                                else do { s \<leftarrow> pipe_call (Unref (rx f) True False) s; pipe_call (Unref (tx f) False True) s })
                      (take (bn b) (bfds b)) s;
               pipe_call (Drain p) (pupd p next_batch s)
             })
       else Some s)"

definition pipe64_unref :: "int \<Rightarrow> bool \<Rightarrow> bool \<Rightarrow> pipe_state \<Rightarrow> pipe_state option" where
  "pipe64_unref p reader writer s = pipe_call (Unref p reader writer) s"

definition drop_inflight :: "fdpass64 \<Rightarrow> pipe_state \<Rightarrow> pipe_state option" where
  "drop_inflight f s =
     (if kind f = FD64_FILE then Some (s\<lparr>fs := ramfs64_unref_node (node f) (fs s)\<rparr>)
      else do { s \<leftarrow> pipe64_unref (rx f) True False s; pipe64_unref (tx f) False True s })"

section \<open>Descriptors in flight\<close>

definition pipe64_send_fds :: "int \<Rightarrow> fdpass64 list \<Rightarrow> pipe_state \<Rightarrow> int \<times> pipe_state" where
  "pipe64_send_fds p fds s =
     (if \<not> pipe64_valid p s \<or> length fds = 0 then (0, s)
      else if length fds > BATCH_FDS then (0, s)
      else if in_count (pipes s p) \<ge> PIPE64_INFLIGHT then (0, s)
      else
      (let i = (in_head (pipes s p) + in_count (pipes s p)) mod PIPE64_INFLIGHT
       in (1, pupd p (\<lambda>q. q\<lparr>inflight := (inflight q)[i := \<lparr>bfds = fds @ drop (length fds) (bfds (inflight q ! i)), bn = length fds\<rparr>],
                             in_count := in_count q + 1\<rparr>) s)))"

definition pipe64_recv_fds :: "int \<Rightarrow> nat \<Rightarrow> pipe_state \<Rightarrow> (fdpass64 list \<times> pipe_state) option" where
  "pipe64_recv_fds p limit s =
     (if \<not> pipe64_valid p s \<or> in_count (pipes s p) = 0 then Some ([], s)
      else
      (let b = inflight (pipes s p) ! in_head (pipes s p);
           n = (if bn b < limit then bn b else limit)
       in do {
         s \<leftarrow> each drop_inflight (drop n (take (bn b) (bfds b))) s;
         Some (take n (bfds b), pupd p next_batch s)
       }))"

section \<open>Bytes\<close>

definition pipe64_inflight :: "int \<Rightarrow> pipe_state \<Rightarrow> nat" where
  "pipe64_inflight p s = (if pipe64_valid p s then in_count (pipes s p) else 0)"

definition pipe64_available :: "int \<Rightarrow> pipe_state \<Rightarrow> nat" where
  "pipe64_available p s = (if pipe64_valid p s then plen (pipes s p) else 0)"

definition pipe64_space :: "int \<Rightarrow> pipe_state \<Rightarrow> nat" where
  "pipe64_space p s = (if pipe64_valid p s then sub64 PIPE64_BUF (plen (pipes s p)) else 0)"

definition pipe64_readers :: "int \<Rightarrow> pipe_state \<Rightarrow> int" where
  "pipe64_readers p s = (if pipe64_valid p s then readers (pipes s p) else 0)"

definition pipe64_writers :: "int \<Rightarrow> pipe_state \<Rightarrow> int" where
  "pipe64_writers p s = (if pipe64_valid p s then writers (pipes s p) else 0)"

partial_function (option) read_loop :: "nat \<Rightarrow> nat \<Rightarrow> byte list \<Rightarrow> pipe64 \<Rightarrow> (byte list \<times> pipe64) option" where
  "read_loop n got out q =
     (if got < n
      then (let run = sub64 PIPE64_BUF (head q);
                run = (if run > n - got then n - got else run)
            in if head q + run > length (ring q) then None
               else read_loop n (got + run) (out @ take run (drop (head q) (ring q)))
                      (q\<lparr>head := add64 (head q) run mod PIPE64_BUF\<rparr>))
      else Some (out, q))"

definition pipe64_read :: "int \<Rightarrow> nat \<Rightarrow> pipe_state \<Rightarrow> (int \<times> byte list \<times> pipe_state) option" where
  "pipe64_read p n s =
     (if \<not> pipe64_valid p s then Some (-9, [], s)
      else
      (let q = pipes s p
       in if plen q = 0 then Some (if writers q = 0 then 0 else -11, [], s)
          else do {
            (out, q) \<leftarrow> read_loop (if n > plen q then plen q else n) 0 [] q;
            Some (s64 (length out), out, s\<lparr>pipes := (pipes s)(p := q\<lparr>plen := sub64 (plen q) (length out)\<rparr>)\<rparr>)
          }))"

partial_function (option) write_loop :: "byte list \<Rightarrow> pipe64 \<Rightarrow> pipe64 option" where
  "write_loop xs q =
     (if xs \<noteq> []
      then (let run = sub64 PIPE64_BUF (tail q);
                run = (if run > length xs then length xs else run)
            in if tail q + run > length (ring q) then None
               else write_loop (drop run xs)
                      (q\<lparr>ring := take (tail q) (ring q) @ take run xs @ drop (tail q + run) (ring q),
                         tail := add64 (tail q) run mod PIPE64_BUF\<rparr>))
      else Some q)"

definition pipe64_write :: "int \<Rightarrow> byte list \<Rightarrow> pipe_state \<Rightarrow> (int \<times> pipe_state) option" where
  "pipe64_write p xs s =
     (if \<not> pipe64_valid p s then Some (-9, s)
      else
      (let q = pipes s p; room = sub64 PIPE64_BUF (plen q)
       in if readers q = 0 then Some (-32, s)
          else if room = 0 then Some (-11, s)
          else
          (let n = (if length xs > room then room else length xs)
           in do {
             q \<leftarrow> write_loop (take n xs) q;
             Some (s64 n, s\<lparr>pipes := (pipes s)(p := q\<lparr>plen := add64 (plen q) n\<rparr>)\<rparr>)
           })))"

definition pipe64_live :: "pipe_state \<Rightarrow> nat" where
  "pipe64_live s = length (filter (\<lambda>i. pused (pipes s (int i))) [0..<nat PIPE64_MAX])"

section \<open>The ring\<close>

definition ring_ok :: "pipe64 \<Rightarrow> bool" where
  "ring_ok q \<longleftrightarrow> length (ring q) = PIPE64_BUF \<and> head q < PIPE64_BUF \<and> plen q \<le> PIPE64_BUF
     \<and> tail q = (head q + plen q) mod PIPE64_BUF"

definition pipe_content :: "pipe64 \<Rightarrow> byte list" where
  "pipe_content q = ring_list (ring q) (head q) (plen q)"

lemma length_pipe_content [simp]: "length (pipe_content q) = plen q"
  by (simp add: pipe_content_def)

lemma read_loop_spec:
  assumes "length (ring q) = PIPE64_BUF" and "head q < PIPE64_BUF" and "n - got \<le> m" and "got \<le> n"
  shows "read_loop n got out q =
    Some (out @ take (n - got) (ring_list (ring q) (head q) m), q\<lparr>head := (head q + (n - got)) mod PIPE64_BUF\<rparr>)"
  using assms
proof (induction "n - got" arbitrary: got out q m rule: less_induct)
  case less
  show ?case
  proof (cases "got < n")
    case False
    then show ?thesis using less.prems by (subst read_loop.simps) simp
  next
    case True
    let ?h = "head q"
    define run where "run = (if PIPE64_BUF - ?h > n - got then n - got else PIPE64_BUF - ?h)"
    have B: "PIPE64_BUF = 65536" by (simp add: PIPE64_BUF_def)
    have sub: "sub64 PIPE64_BUF ?h = PIPE64_BUF - ?h" using less.prems(2) B by (intro sub64_exact) auto
    have r: "0 < run" "run \<le> n - got" "?h + run \<le> PIPE64_BUF" using True less.prems(2) by (auto simp: run_def)
    have add: "add64 ?h run = ?h + run" using r(3) B by (intro add64_exact) simp
    let ?q = "q\<lparr>head := (?h + run) mod PIPE64_BUF\<rparr>"
    have d: "ring_list (ring q) ((?h + run) mod PIPE64_BUF) (m - run) = drop run (ring_list (ring q) ?h m)"
      using ring_list_drop [of "ring q" ?h run m] less.prems(1) by simp
    have t: "take run (drop ?h (ring q)) = take run (ring_list (ring q) ?h m)"
      using r less.prems(1,3) by (intro ring_list_run) auto
    have "read_loop n got out q = read_loop n (got + run) (out @ take run (ring_list (ring q) ?h m)) ?q"
      using True sub add r(3) less.prems(1) t by (subst read_loop.simps) (simp add: Let_def run_def [symmetric])
    also have "\<dots> = Some ((out @ take run (ring_list (ring q) ?h m)) @ take (n - (got + run)) (ring_list (ring ?q) (head ?q) (m - run)),
       ?q\<lparr>head := (head ?q + (n - (got + run))) mod PIPE64_BUF\<rparr>)"
      using r less.prems B by (intro less.hyps) auto
    also have "\<dots> = Some (out @ take (n - got) (ring_list (ring q) ?h m), q\<lparr>head := (?h + (n - got)) mod PIPE64_BUF\<rparr>)"
    proof -
      have "n - got = run + (n - (got + run))" using r by simp
      then have "take run (ring_list (ring q) ?h m) @ take (n - (got + run)) (drop run (ring_list (ring q) ?h m)) = take (n - got) (ring_list (ring q) ?h m)"
        by (metis take_add)
      moreover have "((?h + run) mod PIPE64_BUF + (n - (got + run))) mod PIPE64_BUF = (?h + (n - got)) mod PIPE64_BUF"
        using mod_run [of run "n - got" ?h] r by (simp add: diff_diff_left)
      ultimately show ?thesis using d by simp
    qed
    finally show ?thesis .
  qed
qed

lemma write_loop_spec:
  assumes "length (ring q) = PIPE64_BUF" and "tail q = (h + n) mod PIPE64_BUF" and "n + length xs \<le> PIPE64_BUF"
  shows "\<exists>r. write_loop xs q = Some (q\<lparr>ring := r, tail := (tail q + length xs) mod PIPE64_BUF\<rparr>)
     \<and> length r = PIPE64_BUF \<and> ring_list r h (n + length xs) = ring_list (ring q) h n @ xs"
  using assms
proof (induction "length xs" arbitrary: xs q n rule: less_induct)
  case less
  have B: "PIPE64_BUF = 65536" by (simp add: PIPE64_BUF_def)
  have tl: "tail q < PIPE64_BUF" using less.prems(2) B by simp
  show ?case
  proof (cases "xs = []")
    case True
    then show ?thesis using less.prems tl by (intro exI [of _ "ring q"]) (subst write_loop.simps; simp)
  next
    case False
    define run where "run = (if PIPE64_BUF - tail q > length xs then length xs else PIPE64_BUF - tail q)"
    have r: "0 < run" "run \<le> length xs" "tail q + run \<le> PIPE64_BUF" using False tl by (auto simp: run_def)
    have sub: "sub64 PIPE64_BUF (tail q) = PIPE64_BUF - tail q" using tl B by (intro sub64_exact) auto
    have add: "add64 (tail q) run = tail q + run" using r(3) B by (intro add64_exact) simp
    let ?ys = "take run xs"
    have ly: "length ?ys = run" using r(2) by simp
    define q' where "q' = q\<lparr>ring := take (tail q) (ring q) @ ?ys @ drop (tail q + run) (ring q), tail := (tail q + run) mod PIPE64_BUF\<rparr>"
    have a: "ring_list (ring q') h (n + run) = ring_list (ring q) h n @ ?ys"
      using ring_list_append [of n ?ys "ring q" "tail q" h] less.prems r ly by (simp add: q'_def)
    have step: "write_loop xs q = write_loop (drop run xs) q'"
      using False sub add r(3) less.prems(1) by (subst write_loop.simps) (simp add: Let_def run_def [symmetric] q'_def)
    have "(h + n + run) mod PIPE64_BUF = tail q'" by (simp add: q'_def less.prems(2) mod_add_left_eq)
    then have "\<exists>z. write_loop (drop run xs) q' = Some (q'\<lparr>ring := z, tail := (tail q' + length (drop run xs)) mod PIPE64_BUF\<rparr>)
       \<and> length z = PIPE64_BUF \<and> ring_list z h (n + run + length (drop run xs)) = ring_list (ring q') h (n + run) @ drop run xs"
      using r less.prems by (intro less.hyps) (auto simp: q'_def add.assoc)
    then obtain z where z: "write_loop (drop run xs) q' = Some (q'\<lparr>ring := z, tail := (tail q' + length (drop run xs)) mod PIPE64_BUF\<rparr>)"
      "length z = PIPE64_BUF" "ring_list z h (n + run + length (drop run xs)) = ring_list (ring q') h (n + run) @ drop run xs"
      by blast
    have "(tail q' + length (drop run xs)) mod PIPE64_BUF = (tail q + length xs) mod PIPE64_BUF"
      using mod_run [of run "length xs" "tail q"] r(2) by (simp add: q'_def)
    then have "q'\<lparr>ring := z, tail := (tail q' + length (drop run xs)) mod PIPE64_BUF\<rparr> = q\<lparr>ring := z, tail := (tail q + length xs) mod PIPE64_BUF\<rparr>"
      by (simp add: q'_def)
    then show ?thesis using step z a r(2) by (intro exI [of _ z]) simp
  qed
qed

lemma pipe64_read_spec:
  assumes v: "pipe64_valid p s" and k: "ring_ok (pipes s p)"
  shows "\<exists>t. pipe64_read p n s = Some (if plen (pipes s p) = 0 then (if writers (pipes s p) = 0 then 0 else -11) else int (min n (plen (pipes s p))),
       take n (pipe_content (pipes s p)), t)
     \<and> (\<forall>q. q \<noteq> p \<longrightarrow> pipes t q = pipes s q) \<and> fs t = fs s \<and> said t = said s
     \<and> (\<exists>h l. pipes t p = (pipes s p)\<lparr>head := h, plen := l\<rparr>)
     \<and> ring_ok (pipes t p) \<and> pipe_content (pipes t p) = drop n (pipe_content (pipes s p))"
proof (cases "plen (pipes s p) = 0")
  case True
  then have "pipe64_read p n s = Some (if writers (pipes s p) = 0 then 0 else -11, [], s)" using v by (simp add: pipe64_read_def Let_def)
  moreover have "pipe_content (pipes s p) = []" using True by (simp add: pipe_content_def)
  moreover have "\<exists>h l. pipes s p = (pipes s p)\<lparr>head := h, plen := l\<rparr>"
    by (intro exI [of _ "head (pipes s p)"] exI [of _ "plen (pipes s p)"]) simp
  ultimately show ?thesis using True k by (intro exI [of _ s]) simp
next
  case False
  let ?q = "pipes s p"
  have B: "PIPE64_BUF = 65536" by (simp add: PIPE64_BUF_def)
  have q: "length (ring ?q) = PIPE64_BUF" "head ?q < PIPE64_BUF" "plen ?q \<le> PIPE64_BUF" "tail ?q = (head ?q + plen ?q) mod PIPE64_BUF"
    using k by (auto simp: ring_ok_def)
  define m where "m = (if n > plen ?q then plen ?q else n)"
  have m: "m = min n (plen ?q)" "m \<le> plen ?q" "m < 2 ^ 63" using q(3) B by (auto simp: m_def)
  define q' where "q' = ?q\<lparr>head := (head ?q + m) mod PIPE64_BUF, plen := plen ?q - m\<rparr>"
  have r: "read_loop m 0 [] ?q = Some (take m (pipe_content ?q), ?q\<lparr>head := (head ?q + m) mod PIPE64_BUF\<rparr>)"
    using read_loop_spec [OF q(1,2), of m 0 "plen ?q" "[]"] m(2) by (simp add: pipe_content_def)
  have len: "length (take m (pipe_content ?q)) = m" using m(2) by simp
  have "sub64 (plen ?q) m = plen ?q - m" "s64 m = int m" using m q(3) B by (auto intro!: sub64_exact simp: s64_def)
  then have eq: "pipe64_read p n s = Some (int m, take m (pipe_content ?q), s\<lparr>pipes := (pipes s)(p := q')\<rparr>)"
    using False v r len by (simp add: pipe64_read_def Let_def m_def [symmetric] q'_def)
  have c: "take m (pipe_content ?q) = take n (pipe_content ?q)" "drop m (pipe_content ?q) = drop n (pipe_content ?q)"
    by (auto simp: m_def)
  have "pipe_content q' = drop m (pipe_content ?q)"
    using ring_list_drop [of "ring ?q" "head ?q" m "plen ?q"] q(1) by (simp add: pipe_content_def q'_def)
  moreover have "ring_ok q'" using q m(2) B mod_run [of m "plen ?q" "head ?q" PIPE64_BUF] by (simp add: ring_ok_def q'_def)
  moreover have "\<exists>h l. q' = ?q\<lparr>head := h, plen := l\<rparr>" by (auto simp: q'_def)
  ultimately show ?thesis unfolding eq using False c m(1) by (intro exI [of _ "s\<lparr>pipes := (pipes s)(p := q')\<rparr>"]) simp
qed

lemma pipe64_write_spec:
  assumes v: "pipe64_valid p s" and k: "ring_ok (pipes s p)"
  defines "room \<equiv> PIPE64_BUF - plen (pipes s p)"
  shows "\<exists>t. pipe64_write p xs s = Some (if readers (pipes s p) = 0 then -32 else if room = 0 then -11 else int (min room (length xs)), t)
     \<and> (\<forall>q. q \<noteq> p \<longrightarrow> pipes t q = pipes s q) \<and> fs t = fs s \<and> said t = said s
     \<and> (\<exists>r u l. pipes t p = (pipes s p)\<lparr>ring := r, tail := u, plen := l\<rparr>)
     \<and> ring_ok (pipes t p)
     \<and> pipe_content (pipes t p) = pipe_content (pipes s p) @ (if readers (pipes s p) = 0 then [] else take room xs)"
proof -
  let ?q = "pipes s p"
  have B: "PIPE64_BUF = 65536" by (simp add: PIPE64_BUF_def)
  have q: "length (ring ?q) = PIPE64_BUF" "head ?q < PIPE64_BUF" "plen ?q \<le> PIPE64_BUF" "tail ?q = (head ?q + plen ?q) mod PIPE64_BUF"
    using k by (auto simp: ring_ok_def)
  have room: "sub64 PIPE64_BUF (plen ?q) = room" using q(3) B by (auto intro!: sub64_exact simp: room_def)
  show ?thesis
  proof (cases "readers ?q = 0 \<or> room = 0")
    case True
    have "\<exists>r u l. ?q = ?q\<lparr>ring := r, tail := u, plen := l\<rparr>"
      by (intro exI [of _ "ring ?q"] exI [of _ "tail ?q"] exI [of _ "plen ?q"]) simp
    moreover have "pipe64_write p xs s = Some (if readers ?q = 0 then -32 else -11, s)"
      using True v room by (auto simp: pipe64_write_def Let_def)
    ultimately show ?thesis using True k by (intro exI [of _ s]) auto
  next
    case False
    define n where "n = (if length xs > room then room else length xs)"
    have n: "n = min room (length xs)" "plen ?q + n \<le> PIPE64_BUF" using q(3) by (auto simp: n_def room_def)
    have tx: "take n xs = take room xs" "length (take n xs) = n" by (auto simp: n_def)
    obtain r where r: "write_loop (take n xs) ?q = Some (?q\<lparr>ring := r, tail := (tail ?q + n) mod PIPE64_BUF\<rparr>)"
      "length r = PIPE64_BUF" "ring_list r (head ?q) (plen ?q + n) = pipe_content ?q @ take n xs"
      using write_loop_spec [OF q(1,4), of "take n xs"] n(2) tx(2) by (auto simp: pipe_content_def)
    define q' where "q' = ?q\<lparr>ring := r, tail := (tail ?q + n) mod PIPE64_BUF, plen := plen ?q + n\<rparr>"
    have "add64 (plen ?q) n = plen ?q + n" "s64 n = int n" using n(2) B by (auto intro!: add64_exact simp: s64_def)
    then have eq: "pipe64_write p xs s = Some (int n, s\<lparr>pipes := (pipes s)(p := q')\<rparr>)"
      unfolding pipe64_write_def Let_def room n_def [symmetric] using False v r(1) by (simp add: q'_def)
    have "ring_ok q'" using q r(2) n(2) by (simp add: ring_ok_def q'_def mod_add_left_eq add.assoc)
    moreover have "pipe_content q' = pipe_content ?q @ take room xs" using r(3) tx by (simp add: q'_def pipe_content_def)
    moreover have "\<exists>r u l. q' = ?q\<lparr>ring := r, tail := u, plen := l\<rparr>" by (auto simp: q'_def)
    ultimately show ?thesis unfolding eq using False n(1) by (intro exI [of _ "s\<lparr>pipes := (pipes s)(p := q')\<rparr>"]) simp
  qed
qed

section \<open>The byte stream of one pipe\<close>

lemma nat_int_diff: "nat (int a - int b) = a - b"
  by arith

definition stream_ok :: "int \<Rightarrow> pipe_state \<Rightarrow> bool" where
  "stream_ok p s \<longleftrightarrow> pipe64_valid p s \<and> ring_ok (pipes s p)"

definition content_of :: "int \<Rightarrow> pipe_state \<Rightarrow> byte list" where
  "content_of p s = pipe_content (pipes s p)"

interpretation pipe_stream: byte_stream "stream_ok p" "content_of p" "pipe64_write p" "pipe64_read p"
proof
  fix s xs assume "stream_ok p s"
  then have ok: "pipe64_valid p s" "ring_ok (pipes s p)" by (auto simp: stream_ok_def)
  from pipe64_write_spec [OF this, of xs]
  obtain r t where t: "pipe64_write p xs s = Some (r, t)" "pused (pipes t p) = pused (pipes s p)" "ring_ok (pipes t p)"
    "pipe_content (pipes t p) = pipe_content (pipes s p) @ take (nat r) xs" "nat r \<le> length xs"
    by (auto simp: min_def nat_int_diff split: if_splits)
  then show "\<exists>r t. pipe64_write p xs s = Some (r, t) \<and> stream_ok p t \<and> content_of p t = content_of p s @ take (nat r) xs \<and> nat r \<le> length xs"
    using ok by (intro exI [of _ r] exI [of _ t]) (auto simp: stream_ok_def pipe64_valid_def content_of_def)
next
  fix s n assume "stream_ok p s"
  then have ok: "pipe64_valid p s" "ring_ok (pipes s p)" by (auto simp: stream_ok_def)
  from pipe64_read_spec [OF this, of n]
  obtain r t where t: "pipe64_read p n s = Some (r, take n (pipe_content (pipes s p)), t)" "pused (pipes t p) = pused (pipes s p)" "ring_ok (pipes t p)"
    "pipe_content (pipes t p) = drop n (pipe_content (pipes s p))" "nat r = length (take n (pipe_content (pipes s p)))"
    by (auto split: if_splits)
  then show "\<exists>r ys t. pipe64_read p n s = Some (r, ys, t) \<and> stream_ok p t \<and> content_of p s = ys @ content_of p t \<and> length ys = nat r"
    using ok by (intro exI [of _ r] exI [of _ "take n (pipe_content (pipes s p))"] exI [of _ t])
      (auto simp: stream_ok_def pipe64_valid_def content_of_def)
qed

text \<open>A run of writes (\<open>Inl\<close>) and reads (\<open>Inr\<close>) on one pipe, with all that was accepted and all that came
  out.\<close>

fun pipe_run :: "int \<Rightarrow> (byte list + nat) list \<Rightarrow> byte list \<Rightarrow> byte list \<Rightarrow> pipe_state \<Rightarrow> (byte list \<times> byte list \<times> pipe_state) option" where
  "pipe_run p [] w r s = Some (w, r, s)"
| "pipe_run p (Inl xs # ops) w r s = do { (k, t) \<leftarrow> pipe64_write p xs s; pipe_run p ops (w @ take (nat k) xs) r t }"
| "pipe_run p (Inr n # ops) w r s = do { (k, ys, t) \<leftarrow> pipe64_read p n s; pipe_run p ops w (r @ ys) t }"

lemma pipe_run_stream: "pipe_run p ops w r s = pipe_stream.stream_run p ops w r s"
proof (induction ops arbitrary: w r s)
  case (Cons x ops)
  then show ?case by (cases x) (auto simp: Option.bind_def split: option.splits)
qed simp

definition blank_pipe :: pipe64 where
  "blank_pipe = \<lparr>buf = 0, ring = replicate PIPE64_BUF 0, head = 0, tail = 0, plen = 0, readers = 0, writers = 0,
     inflight = replicate PIPE64_INFLIGHT \<lparr>bfds = replicate BATCH_FDS \<lparr>kind = 0, node = 0, pos = 0, rx = 0, tx = 0\<rparr>, bn = 0\<rparr>,
     in_head = 0, in_count = 0, pused = False\<rparr>"

definition pipe_demo :: pipe_state where
  "pipe_demo = \<lparr>pipes = (\<lambda>i. blank_pipe)(0 := blank_pipe\<lparr>buf := KHEAP64_BASE + 32, readers := 1, writers := 1, pused := True\<rparr>),
     said = False, fs = ramfs_demo\<rparr>"

lemma blank_ring: "ring_ok (blank_pipe\<lparr>buf := a, readers := b, writers := c, pused := d\<rparr>)"
  by (simp add: ring_ok_def blank_pipe_def) (simp add: PIPE64_BUF_def)

lemma pipe_demo_ok: "stream_ok 0 pipe_demo"
  using blank_ring by (simp add: stream_ok_def pipe64_valid_def pipe_demo_def PIPE64_MAX_def)

section \<open>Properties\<close>

text \<open>C37: Whatever reads and writes are made on a pipe, in whatever order and of whatever lengths,
  they all return, and the bytes read, followed by the bytes still in the pipe, are the bytes that were
  in it followed by the bytes accepted: none is lost, duplicated or reordered, the wrap of the ring
  included.\<close>

theorem pipe64_stream_integrity:
  assumes "stream_ok p s"
  shows "\<exists>w r t. pipe_run p ops [] [] s = Some (w, r, t) \<and> stream_ok p t \<and> r @ content_of p t = content_of p s @ w"
  unfolding pipe_run_stream using pipe_stream.stream_integrity [OF assms, of "[]" "content_of p s" "[]" ops] by simp

theorem pipe64_stream_integrity_witness:
  "\<exists>w r t. pipe_run 0 [Inl [1, 2, 3], Inr 2, Inl [4], Inr 9] [] [] pipe_demo = Some (w, r, t)"
  using pipe64_stream_integrity [OF pipe_demo_ok, of "[Inl [1, 2, 3], Inr 2, Inl [4], Inr 9]"] by blast

text \<open>The results of one read and one write on a pipe. A read of an empty pipe is end of file (0) when
  no writer is left and \<open>-EAGAIN\<close> otherwise, and else delivers as many of the oldest bytes as asked for
  and there are. A write to a pipe without readers is \<open>-EPIPE\<close>, to a full one \<open>-EAGAIN\<close>, and else takes
  as much as there is room for. Both leave every other pipe and the file system alone.\<close>

theorem pipe64_io_results:
  assumes "stream_ok p s"
  shows "(\<exists>t. pipe64_read p n s =
       Some (if content_of p s = [] then (if writers (pipes s p) = 0 then 0 else -11) else int (min n (length (content_of p s))),
             take n (content_of p s), t) \<and> content_of p t = drop n (content_of p s)
         \<and> (\<forall>q. q \<noteq> p \<longrightarrow> pipes t q = pipes s q) \<and> fs t = fs s)
   \<and> (\<exists>t. pipe64_write p xs s =
       Some (if readers (pipes s p) = 0 then -32 else if length (content_of p s) = PIPE64_BUF then -11
             else int (min (PIPE64_BUF - length (content_of p s)) (length xs)), t)
         \<and> content_of p t = content_of p s @ (if readers (pipes s p) = 0 then [] else take (PIPE64_BUF - length (content_of p s)) xs)
         \<and> (\<forall>q. q \<noteq> p \<longrightarrow> pipes t q = pipes s q) \<and> fs t = fs s)"
proof -
  have ok: "pipe64_valid p s" "ring_ok (pipes s p)" using assms by (auto simp: stream_ok_def)
  have l: "length (content_of p s) = plen (pipes s p)" "content_of p s = [] \<longleftrightarrow> plen (pipes s p) = 0"
    by (auto simp: content_of_def simp flip: length_0_conv)
  have "plen (pipes s p) \<le> PIPE64_BUF" using ok(2) by (simp add: ring_ok_def)
  then have z: "PIPE64_BUF - plen (pipes s p) = 0 \<longleftrightarrow> plen (pipes s p) = PIPE64_BUF" by auto
  show ?thesis
  proof
    obtain t where "pipe64_read p n s = Some (if plen (pipes s p) = 0 then (if writers (pipes s p) = 0 then 0 else -11) else int (min n (plen (pipes s p))),
       take n (pipe_content (pipes s p)), t)" "\<forall>q. q \<noteq> p \<longrightarrow> pipes t q = pipes s q" "fs t = fs s"
      "pipe_content (pipes t p) = drop n (pipe_content (pipes s p))"
      using pipe64_read_spec [OF ok, of n] by (elim exE conjE) (rule that; assumption)
    then show "\<exists>t. pipe64_read p n s =
       Some (if content_of p s = [] then (if writers (pipes s p) = 0 then 0 else -11) else int (min n (length (content_of p s))),
             take n (content_of p s), t) \<and> content_of p t = drop n (content_of p s)
         \<and> (\<forall>q. q \<noteq> p \<longrightarrow> pipes t q = pipes s q) \<and> fs t = fs s"
      unfolding l by (intro exI [of _ t]) (simp add: content_of_def)
    obtain t where "pipe64_write p xs s = Some (if readers (pipes s p) = 0 then -32 else if PIPE64_BUF - plen (pipes s p) = 0 then -11
        else int (min (PIPE64_BUF - plen (pipes s p)) (length xs)), t)" "\<forall>q. q \<noteq> p \<longrightarrow> pipes t q = pipes s q" "fs t = fs s"
      "pipe_content (pipes t p) = pipe_content (pipes s p) @ (if readers (pipes s p) = 0 then [] else take (PIPE64_BUF - plen (pipes s p)) xs)"
      using pipe64_write_spec [OF ok, of xs] by (elim exE conjE) (rule that; assumption)
    then show "\<exists>t. pipe64_write p xs s =
       Some (if readers (pipes s p) = 0 then -32 else if length (content_of p s) = PIPE64_BUF then -11
             else int (min (PIPE64_BUF - length (content_of p s)) (length xs)), t)
         \<and> content_of p t = content_of p s @ (if readers (pipes s p) = 0 then [] else take (PIPE64_BUF - length (content_of p s)) xs)
         \<and> (\<forall>q. q \<noteq> p \<longrightarrow> pipes t q = pipes s q) \<and> fs t = fs s"
      unfolding l z by (intro exI [of _ t]) (simp add: content_of_def)
  qed
qed

theorem pipe64_io_results_witness:
  "\<exists>t. pipe64_write 0 [1, 2, 3] pipe_demo = Some (3, t) \<and> content_of 0 t = [1, 2, 3]"
proof -
  have d: "readers (pipes pipe_demo 0) = 1" "content_of 0 pipe_demo = []"
    by (simp_all add: pipe_demo_def content_of_def pipe_content_def blank_pipe_def)
  show ?thesis using pipe64_io_results [OF pipe_demo_ok, of 0 "[1, 2, 3]"] unfolding d PIPE64_BUF_def by auto
qed

end
