(* ===== verification/Pipe64_Refs.thy ===== *)
theory Pipe64_Refs
  imports Pipe64 "HOL-Library.Multiset"
begin

text \<open>
  Who holds the ends of the pipes of \<^verbatim>\<open>kernel/pipe64.c\<close>. An end is held by a descriptor of a process or
  by a descriptor in flight on some other pipe. \<open>refs_inv s H D P\<close> says that the counts in the table are
  exact: \<open>H\<close> is the multiset of ends held from outside, \<open>P\<close> the pipes whose queue an operation is in the
  middle of, and \<open>D\<close> the ends of descriptors that are still in such a queue but have been given back
  already. Between
  operations \<open>D\<close> and \<open>P\<close> are empty.
\<close>

section \<open>Descriptors in flight\<close>

definition flying_fds :: "pipe64 \<Rightarrow> fdpass64 list list" where
  "flying_fds q = map (\<lambda>b. take (bn b) (bfds b)) (ring_list (inflight q) (in_head q) (in_count q))"

definition queue_ok :: "pipe64 \<Rightarrow> bool" where
  "queue_ok q \<longleftrightarrow> length (inflight q) = PIPE64_INFLIGHT \<and> in_head q < PIPE64_INFLIGHT \<and> in_count q \<le> PIPE64_INFLIGHT
     \<and> (\<forall>b \<in> set (inflight q). length (bfds b) = BATCH_FDS \<and> bn b \<le> BATCH_FDS)"

lemma flying_fds_Nil: "flying_fds q = [] \<longleftrightarrow> in_count q = 0"
  by (simp add: flying_fds_def flip: length_0_conv)

lemma queue_pop:
  assumes "queue_ok q" and "0 < in_count q"
  defines "b \<equiv> inflight q ! in_head q"
  shows "flying_fds q = take (bn b) (bfds b) # flying_fds (next_batch q)" and "queue_ok (next_batch q)"
proof -
  have "ring_list (inflight q) (in_head q) (in_count q)
      = b # ring_list (inflight q) ((in_head q + 1) mod PIPE64_INFLIGHT) (in_count q - 1)"
    using assms ring_list_pop [of "in_count q" "in_head q" "inflight q"] by (simp add: queue_ok_def)
  then show "flying_fds q = take (bn b) (bfds b) # flying_fds (next_batch q)" by (simp add: flying_fds_def next_batch_def)
  show "queue_ok (next_batch q)" using assms by (auto simp: queue_ok_def next_batch_def PIPE64_INFLIGHT_def)
qed

lemma queue_push:
  assumes "queue_ok q" and "in_count q < PIPE64_INFLIGHT" and "length xs \<le> BATCH_FDS"
  defines "i \<equiv> (in_head q + in_count q) mod PIPE64_INFLIGHT"
  defines "q' \<equiv> q\<lparr>inflight := (inflight q)[i := \<lparr>bfds = xs @ drop (length xs) (bfds (inflight q ! i)), bn = length xs\<rparr>], in_count := in_count q + 1\<rparr>"
  shows "flying_fds q' = flying_fds q @ [xs]" and "queue_ok q'"
proof -
  let ?b = "\<lparr>bfds = xs @ drop (length xs) (bfds (inflight q ! i)), bn = length xs\<rparr>"
  have l: "length (inflight q) = PIPE64_INFLIGHT" using assms(1) by (simp add: queue_ok_def)
  have "ring_list ((inflight q)[i := ?b]) (in_head q) (Suc (in_count q)) = ring_list (inflight q) (in_head q) (in_count q) @ [?b]"
    using ring_list_push [of "in_count q" "inflight q" "in_head q" ?b] assms(2) l by (simp add: i_def)
  then show "flying_fds q' = flying_fds q @ [xs]" by (simp add: flying_fds_def q'_def)
  have "i < PIPE64_INFLIGHT" by (simp add: i_def PIPE64_INFLIGHT_def)
  then have "inflight q ! i \<in> set (inflight q)" using l by simp
  then have "length (bfds (inflight q ! i)) = BATCH_FDS" using assms(1) by (simp add: queue_ok_def)
  moreover have "set ((inflight q)[i := ?b]) \<subseteq> insert ?b (set (inflight q))" by (rule set_update_subset_insert)
  ultimately show "queue_ok q'" using assms(1-3) by (auto simp: queue_ok_def q'_def)
qed

section \<open>Ends and who holds them\<close>

datatype pend = Rd int | Wr int

fun pend_pipe :: "pend \<Rightarrow> int" where
  "pend_pipe (Rd p) = p"
| "pend_pipe (Wr p) = p"

definition ends_of :: "fdpass64 \<Rightarrow> pend multiset" where
  "ends_of f = (if kind f = FD64_FILE then {#} else {#Rd (rx f), Wr (tx f)#})"

definition flying_ends :: "pipe64 \<Rightarrow> pend multiset" where
  "flying_ends q = sum_list (map ends_of (concat (flying_fds q)))"

definition in_use :: "pipe_state \<Rightarrow> int set" where
  "in_use s = {p. pipe64_valid p s}"

definition flying :: "pipe_state \<Rightarrow> int set \<Rightarrow> pend multiset" where
  "flying s A = (\<Sum>p\<in>A. flying_ends (pipes s p))"

definition ends_count :: "pipe_state \<Rightarrow> pend \<Rightarrow> int" where
  "ends_count s e = (if pipe64_valid (pend_pipe e) s
     then (case e of Rd p \<Rightarrow> readers (pipes s p) | Wr p \<Rightarrow> writers (pipes s p)) else 0)"

definition slot_ok :: "pipe64 \<Rightarrow> bool" where
  "slot_ok q \<longleftrightarrow> queue_ok q \<and> length (ring q) = PIPE64_BUF \<and> (pused q \<longrightarrow> ring_ok q)"

definition refs_inv :: "pipe_state \<Rightarrow> pend multiset \<Rightarrow> pend multiset \<Rightarrow> int set \<Rightarrow> bool" where
  "refs_inv s H D P \<longleftrightarrow> ramfs_ok (fs s) \<and> (\<forall>p. slot_ok (pipes s p)) \<and> P \<subseteq> in_use s
     \<and> D \<subseteq># flying s P
     \<and> (\<forall>e. 0 \<le> pend_pipe e \<longrightarrow> ends_count s e + int (count D e) = int (count H e) + int (count (flying s (in_use s)) e))"

text \<open>The pipes of \<open>P\<close> either have no end left or have one that stays held.\<close>

definition torn :: "pipe_state \<Rightarrow> int \<Rightarrow> bool" where
  "torn s p \<longleftrightarrow> readers (pipes s p) = 0 \<and> writers (pipes s p) = 0"

definition pinned :: "pipe_state \<Rightarrow> pend multiset \<Rightarrow> int set \<Rightarrow> bool" where
  "pinned s H P \<longleftrightarrow> (\<forall>p \<in> P. torn s p \<or> Rd p \<in># H \<or> Wr p \<in># H)"

lemma finite_in_use [simp]: "finite (in_use s)"
proof (rule finite_subset)
  show "in_use s \<subseteq> {0..<PIPE64_MAX}" by (auto simp: in_use_def pipe64_valid_def)
qed simp

lemma flying_mono: "A \<subseteq> B \<Longrightarrow> finite B \<Longrightarrow> flying s A \<subseteq># flying s B"
  by (simp add: flying_def sum.subset_diff [of A B])

lemma flying_remove: "p \<in> A \<Longrightarrow> finite A \<Longrightarrow> flying s A = flying_ends (pipes s p) + flying s (A - {p})"
  by (simp add: flying_def sum.remove)

lemma flying_cong: "(\<And>p. p \<in> A \<Longrightarrow> flying_ends (pipes t p) = flying_ends (pipes s p)) \<Longrightarrow> flying t A = flying s A"
  by (simp add: flying_def cong: sum.cong)

lemma pupd_fields [simp]: "pipes (pupd p f s) q = (if q = p then f (pipes s p) else pipes s q)" "fs (pupd p f s) = fs s" "said (pupd p f s) = said s"
  by (simp_all add: pupd_def)

lemma refs_invD:
  assumes "refs_inv s H D P"
  shows "ramfs_ok (fs s)" "\<And>p. slot_ok (pipes s p)" "P \<subseteq> in_use s" "D \<subseteq># flying s P" "finite P"
    "\<And>e. 0 \<le> pend_pipe e \<Longrightarrow> ends_count s e + int (count D e) = int (count H e) + int (count (flying s (in_use s)) e)"
  using assms finite_subset [OF _ finite_in_use, of P s] by (auto simp: refs_inv_def)

section \<open>Tearing pipes down\<close>

definition ends :: "int \<Rightarrow> bool \<Rightarrow> bool \<Rightarrow> pend multiset" where
  "ends p r w = (if r then {#Rd p#} else {#}) + (if w then {#Wr p#} else {#})"

lemma count_ends [simp]:
  "count (ends p r w) (Rd q) = (if r \<and> p = q then 1 else 0)" "count (ends p r w) (Wr q) = (if w \<and> p = q then 1 else 0)"
  by (auto simp: ends_def)

definition same_body :: "pipe64 \<Rightarrow> pipe64 \<Rightarrow> bool" where
  "same_body q q' \<longleftrightarrow> (\<exists>a b. q' = q\<lparr>readers := a, writers := b\<rparr>)"

lemma same_body_refl [simp]: "same_body q q"
  unfolding same_body_def by (intro exI [of _ "readers q"] exI [of _ "writers q"]) simp

lemma same_body_trans:
  assumes "same_body p q" and "same_body q r"
  shows "same_body p r"
proof -
  obtain a b c d where "q = p\<lparr>readers := a, writers := b\<rparr>" "r = q\<lparr>readers := c, writers := d\<rparr>"
    using assms by (auto simp: same_body_def)
  then show ?thesis unfolding same_body_def by (intro exI [of _ c] exI [of _ d]) simp
qed

lemma same_bodyD:
  assumes "same_body q q'"
  shows "flying_fds q' = flying_fds q" "pipe_content q' = pipe_content q" "ring_ok q' = ring_ok q" "pused q' = pused q"
  using assms by (auto simp: same_body_def flying_fds_def pipe_content_def ring_ok_def)

lemma same_body_flying: "same_body q q' \<Longrightarrow> flying_ends q' = flying_ends q"
  by (simp add: flying_ends_def same_bodyD)

text \<open>What an operation leaves alone: the pipes of \<open>K\<close>, and all but the counts of the pipes that are
  left, those of \<open>Q\<close> excepted. No pipe is created.\<close>

definition settles :: "pipe_state \<Rightarrow> pipe_state \<Rightarrow> int set \<Rightarrow> int set \<Rightarrow> bool" where
  "settles s t K Q \<longleftrightarrow> in_use t \<subseteq> in_use s \<and> (\<forall>q \<in> K. same_body (pipes s q) (pipes t q) \<and> (torn s q \<longrightarrow> torn t q))
     \<and> (\<forall>q \<in> in_use t - Q. same_body (pipes s q) (pipes t q))"

lemma settles_refl [simp]: "settles s s K Q"
  by (simp add: settles_def)

lemma settles_trans:
  assumes "settles r s K Q" and "settles s t K Q"
  shows "settles r t K Q"
  unfolding settles_def
proof (intro conjI ballI)
  fix q assume "q \<in> in_use t - Q"
  then have "same_body (pipes s q) (pipes t q)" "same_body (pipes r q) (pipes s q)"
    using assms by (auto simp: settles_def)
  then show "same_body (pipes r q) (pipes t q)" by (blast intro: same_body_trans)
next
  fix q assume "q \<in> K"
  then have "same_body (pipes s q) (pipes t q)" "same_body (pipes r q) (pipes s q)"
    using assms by (auto simp: settles_def)
  then show "same_body (pipes r q) (pipes t q)" by (blast intro: same_body_trans)
qed (use assms in \<open>auto simp: settles_def\<close>)

lemma settles_weaken: "settles s t K Q \<Longrightarrow> K' \<subseteq> K \<Longrightarrow> Q \<subseteq> Q' \<Longrightarrow> settles s t K' Q'"
  unfolding settles_def by blast

lemma settles_pinned: "settles s t P Q \<Longrightarrow> pinned s H P \<Longrightarrow> pinned t H P"
  unfolding settles_def pinned_def by blast

lemma settles_card: "settles s t K Q \<Longrightarrow> card (in_use t - P) \<le> card (in_use s - P)"
  by (auto simp: settles_def intro!: card_mono)

lemma flying_upd: "p \<notin> A \<Longrightarrow> flying (pupd p f s) A = flying s A"
  by (rule flying_cong) auto

lemma dec_ends_fields [simp]:
  "pused (dec_ends r w q) = pused q" "inflight (dec_ends r w q) = inflight q" "in_head (dec_ends r w q) = in_head q"
  "in_count (dec_ends r w q) = in_count q"
  "readers (dec_ends r w q) = (if r \<and> readers q > 0 then readers q - 1 else readers q)"
  "writers (dec_ends r w q) = (if w \<and> writers q > 0 then writers q - 1 else writers q)"
  by (simp_all add: dec_ends_def Let_def)

lemma dec_ends_body: "same_body q (dec_ends r w q)"
proof -
  have "dec_ends r w q = q\<lparr>readers := readers (dec_ends r w q), writers := writers (dec_ends r w q)\<rparr>"
    by (simp add: dec_ends_def Let_def)
  then show ?thesis unfolding same_body_def by blast
qed

lemma in_use_upd: "pused (f (pipes s p)) = pused (pipes s p) \<Longrightarrow> in_use (pupd p f s) = in_use s"
  by (auto simp: in_use_def pipe64_valid_def)

lemma valid_upd: "pused (f (pipes s p)) = pused (pipes s p) \<Longrightarrow> pipe64_valid q (pupd p f s) = pipe64_valid q s"
  by (auto simp: pipe64_valid_def)

lemma held_count:
  assumes "refs_inv s H D P" and "0 \<le> pend_pipe e"
  shows "int (count H e) \<le> ends_count s e"
proof -
  note D = refs_invD [OF assms(1)]
  have "count D e \<le> count (flying s (in_use s)) e"
    using D(4) flying_mono [OF D(3), of s] by (meson finite_in_use mset_subset_eq_count subset_mset.order_trans)
  then show ?thesis using D(6) [OF assms(2)] by linarith
qed

lemma held_valid: "refs_inv s H D P \<Longrightarrow> e \<in># H \<Longrightarrow> 0 \<le> pend_pipe e \<Longrightarrow> pipe64_valid (pend_pipe e) s \<and> ends_count s e > 0"
  using held_count [of s H D P e] count_greater_zero_iff [of H e] by (auto simp: ends_count_def simp del: count_greater_zero_iff split: if_splits)

lemma torn_unheld: "refs_inv s H D P \<Longrightarrow> torn s (pend_pipe e) \<Longrightarrow> 0 \<le> pend_pipe e \<Longrightarrow> e \<notin># H"
  using held_valid [of s H D P e] by (cases e) (auto simp: torn_def ends_count_def split: if_splits)

lemma dec_pinned: "pinned s H P \<Longrightarrow> pinned (pupd p (dec_ends r w) s) H P"
  unfolding pinned_def torn_def by auto

lemma dec_refs:
  assumes inv: "refs_inv s (ends p r w + H) D P" and v: "pipe64_valid p s"
  shows "refs_inv (pupd p (dec_ends r w) s) H D P"
proof -
  define t where "t = pupd p (dec_ends r w) s"
  note D = refs_invD [OF inv]
  have p0: "0 \<le> p" using v by (simp add: pipe64_valid_def)
  have u: "in_use t = in_use s" and va: "\<And>q. pipe64_valid q t = pipe64_valid q s" by (simp_all add: t_def in_use_upd valid_upd)
  have pt: "pipes t q = (if q = p then dec_ends r w (pipes s p) else pipes s q)" for q by (simp add: t_def)
  have fe: "flying_ends (pipes t q) = flying_ends (pipes s q)" for q by (auto simp: pt flying_ends_def flying_fds_def)
  have fl: "flying t A = flying s A" for A by (rule flying_cong) (rule fe)
  have pos: "r \<Longrightarrow> readers (pipes s p) > 0" "w \<Longrightarrow> writers (pipes s p) > 0"
    using held_count [OF inv, of "Rd p"] held_count [OF inv, of "Wr p"] p0 v by (auto simp: ends_count_def)
  have ec: "ends_count t (Rd q) = ends_count s (Rd q) - (if r \<and> p = q then 1 else 0)"
    "ends_count t (Wr q) = ends_count s (Wr q) - (if w \<and> p = q then 1 else 0)" for q
    using pos v by (simp_all add: ends_count_def va pt)
  have "ends_count t e + int (count D e) = int (count H e) + int (count (flying t (in_use t)) e)" if "0 \<le> pend_pipe e" for e
    using D(6) [OF that] unfolding fl u by (cases e) (auto simp: ec split: if_splits)
  moreover have "slot_ok (pipes t q)" for q
    using D(2) [of q] by (auto simp: pt slot_ok_def queue_ok_def ring_ok_def dec_ends_def Let_def)
  ultimately show ?thesis using D(1,3,4) unfolding t_def [symmetric] refs_inv_def u fl by (auto simp: t_def)
qed

lemma drop_invalid:
  assumes inv: "refs_inv s (ends p r w + H) D P" and v: "\<not> pipe64_valid p s"
  shows "refs_inv s H D P"
proof -
  have "count (ends p r w + H) e = count H e" if e: "0 \<le> pend_pipe e" for e
  proof (cases "pend_pipe e = p")
    case True
    then have "int (count (ends p r w + H) e) \<le> 0" using held_count [OF inv e] v by (simp add: ends_count_def)
    then show ?thesis by simp
  next
    case False
    then show ?thesis by (cases e) auto
  qed
  then show ?thesis using inv by (simp add: refs_inv_def)
qed

text \<open>The ends of descriptors in the queue of a pipe being torn down can be taken out and held.\<close>

lemma take_out:
  assumes inv: "refs_inv s H D P" and "D + E \<subseteq># flying s P"
  shows "refs_inv s (E + H) (D + E) P"
  using inv assms(2) by (auto simp: refs_inv_def)

lemma next_batch_refs:
  assumes inv: "refs_inv s H (D + E) P" and p: "p \<in> P" and d: "D \<subseteq># flying s (P - {p})"
    and e: "flying_ends (pipes s p) = B + E + flying_ends (next_batch (pipes s p))" and c: "0 < in_count (pipes s p)"
  shows "refs_inv (pupd p next_batch s) (B + H) D P" and "D \<subseteq># flying (pupd p next_batch s) (P - {p})"
proof -
  define t where "t = pupd p next_batch s"
  note D = refs_invD [OF inv]
  have u: "in_use t = in_use s" and va: "\<And>q. pipe64_valid q t = pipe64_valid q s"
    by (simp_all add: t_def in_use_upd valid_upd next_batch_def)
  have pt: "readers (pipes t q) = readers (pipes s q)" "writers (pipes t q) = writers (pipes s q)" for q
    by (auto simp: t_def next_batch_def)
  have ec: "ends_count t x = ends_count s x" for x by (cases x) (auto simp: ends_count_def va pt)
  have pu: "p \<in> in_use s" using p D(3) by auto
  have fl: "flying s A = B + E + flying t A" if "p \<in> A" "finite A" for A
    using flying_remove [OF that, of s] flying_remove [OF that, of t] e by (simp add: t_def flying_upd)
  have d': "D \<subseteq># flying t (P - {p})" using d by (simp add: t_def flying_upd)
  then show "D \<subseteq># flying (pupd p next_batch s) (P - {p})" by (simp add: t_def)
  have "D \<subseteq># flying t P" using d' flying_mono [of "P - {p}" P t] D(5) by (meson Diff_subset subset_mset.order_trans)
  moreover have "ends_count t x + int (count D x) = int (count (B + H) x) + int (count (flying t (in_use t)) x)" if "0 \<le> pend_pipe x" for x
    using D(6) [OF that] unfolding ec u fl [OF pu finite_in_use] by simp
  moreover have "slot_ok (pipes t q)" for q
    using D(2) [of q] queue_pop(2) [of "pipes s p"] c by (auto simp: t_def slot_ok_def) (auto simp: next_batch_def ring_ok_def)
  ultimately show "refs_inv (pupd p next_batch s) (B + H) D P"
    using D(1,3) unfolding t_def [symmetric] refs_inv_def u by (auto simp: t_def)
qed

lemma next_batch_pinned: "pinned s H P \<Longrightarrow> pinned (pupd p next_batch s) H P"
  unfolding pinned_def torn_def by (auto simp: next_batch_def)

lemma ramfs_ok_heap:
  assumes "ramfs_ok s"
  shows "ramfs_ok (s\<lparr>kh := h\<rparr>)"
proof -
  have "same_tree s (s\<lparr>kh := h\<rparr>)" by (simp add: same_tree_def)
  then show ?thesis using assms same_tree_inv unfolding ramfs_ok_def by blast
qed

lemma retire_refs:
  assumes inv: "refs_inv s H D (insert p P)" and p: "p \<notin> P" and z: "in_count (pipes s p) = 0" and d: "D \<subseteq># flying s P"
    and tn: "torn s p"
  shows "refs_inv (retire p s) H D P" and "in_use (retire p s) = in_use s - {p}"
proof -
  define t where "t = retire p s"
  note D = refs_invD [OF inv]
  have pt: "pipes t q = (if q = p then (pipes s p)\<lparr>buf := 0, pused := False, plen := 0\<rparr> else pipes s q)" for q
    by (simp add: t_def retire_def)
  have u: "in_use t = in_use s - {p}" by (auto simp: in_use_def pipe64_valid_def pt)
  then show "in_use (retire p s) = in_use s - {p}" by (simp add: t_def)
  have pu: "p \<in> in_use s" using D(3) by simp
  have fe: "flying t A = flying s A" if "p \<notin> A" for A using that by (intro flying_cong) (auto simp: pt)
  have "flying_ends (pipes s p) = {#}" using flying_fds_Nil [of "pipes s p"] z by (simp add: flying_ends_def)
  then have fl: "flying t (in_use t) = flying s (in_use s)"
    using flying_remove [OF pu finite_in_use, of s] by (simp add: u fe)
  have ec: "ends_count t e = ends_count s e" for e
    using tn pu by (cases e) (auto simp: ends_count_def pipe64_valid_def pt in_use_def torn_def)
  have "ramfs_ok (fs t)" using ramfs_ok_heap [OF D(1)] by (simp add: t_def retire_def)
  moreover have "D \<subseteq># flying t P" using d fe [OF p] by simp
  moreover have "P \<subseteq> in_use t" using D(3) p u by auto
  ultimately show "refs_inv (retire p s) H D P"
    using D(2,6) unfolding t_def [symmetric] refs_inv_def fl by (auto simp: ec u pt slot_ok_def queue_ok_def)
qed

lemma unref_simps:
  "pipe_call (Unref p r w) s = (if \<not> pipe64_valid p s then Some s
     else (let s = pupd p (dec_ends r w) s
           in if readers (pipes s p) = 0 \<and> writers (pipes s p) = 0
              then do { s \<leftarrow> pipe_call (Drain p) s; Some (retire p s) } else Some s))"
  by (subst pipe_call.simps) simp

text \<open>The recursion, by the number of pipes not being torn down.\<close>

definition unref_good :: "nat \<Rightarrow> bool" where
  "unref_good N \<longleftrightarrow> (\<forall>s H D P p r w. card (in_use s - P) \<le> N \<and> refs_inv s (ends p r w + H) D P \<and> pinned s H P \<and> (r \<or> w \<or> p \<notin> P)
     \<longrightarrow> (\<exists>t. pipe_call (Unref p r w) s = Some t \<and> refs_inv t H D P \<and> settles s t P {} \<and> (p \<in> in_use t \<longrightarrow> \<not> torn t p)))"

definition drop_call :: "fdpass64 \<Rightarrow> pipe_state \<Rightarrow> pipe_state option" where
  "drop_call f s = (if kind f = FD64_FILE then Some (s\<lparr>fs := ramfs64_unref_node (node f) (fs s)\<rparr>)
     else do { s \<leftarrow> pipe_call (Unref (rx f) True False) s; pipe_call (Unref (tx f) False True) s })"

lemma drop_inflight_call: "drop_inflight = drop_call"
  by (intro ext) (simp add: drop_inflight_def drop_call_def pipe64_unref_def [abs_def])

lemma pinned_mono: "pinned s H P \<Longrightarrow> pinned s (E + H) P"
  by (auto simp: pinned_def)

lemma drop_good:
  assumes g: "unref_good N" and c: "card (in_use s - P) \<le> N" and inv: "refs_inv s (ends_of f + H) D P" and pin: "pinned s H P"
  shows "\<exists>t. drop_call f s = Some t \<and> refs_inv t H D P \<and> settles s t P {}"
proof (cases "kind f = FD64_FILE")
  case True
  define t where "t = s\<lparr>fs := ramfs64_unref_node (node f) (fs s)\<rparr>"
  have pt: "pipes t = pipes s" by (simp add: t_def)
  obtain K F where "tree_inv (fs s) K F {}" using refs_invD(1) [OF inv] by (auto simp: ramfs_ok_def)
  then have "ramfs_ok (fs t)" using unref_ok by (simp add: t_def)
  moreover have e: "in_use t = in_use s" "\<And>A. flying t A = flying s A" "\<And>p. pipe64_valid p t = pipe64_valid p s"
    by (simp_all add: in_use_def pipe64_valid_def pt flying_def)
  moreover have ec: "ends_count t e = ends_count s e" for e by (cases e) (simp_all add: ends_count_def e pt)
  ultimately have "refs_inv t H D P" using inv True unfolding refs_inv_def e ec pt by (simp add: ends_of_def)
  moreover have "settles s t P {}" by (simp add: settles_def torn_def pt e)
  moreover have "drop_call f s = Some t" using True by (simp add: drop_call_def t_def)
  ultimately show ?thesis by blast
next
  case False
  have i1: "refs_inv s (ends (rx f) True False + ({#Wr (tx f)#} + H)) D P" "pinned s ({#Wr (tx f)#} + H) P"
    using inv False pinned_mono [OF pin, of "{#Wr (tx f)#}"] by (simp_all add: ends_of_def ends_def add_mset_commute)
  obtain t where t: "pipe_call (Unref (rx f) True False) s = Some t" "refs_inv t ({#Wr (tx f)#} + H) D P" "settles s t P {}"
    using g c i1 unfolding unref_good_def by blast
  have i2: "refs_inv t (ends (tx f) False True + H) D P" using t(2) by (simp add: ends_def)
  have "pinned t H P" by (rule settles_pinned [OF t(3) pin])
  moreover have "card (in_use t - P) \<le> N" using settles_card [OF t(3), of P] c by simp
  ultimately obtain u where u: "pipe_call (Unref (tx f) False True) t = Some u" "refs_inv u H D P" "settles t u P {}"
    using g i2 unfolding unref_good_def by blast
  then show ?thesis using t(1) False settles_trans [OF t(3) u(3)] by (auto simp: drop_call_def)
qed

lemma each_good:
  assumes g: "unref_good N"
  shows "card (in_use s - P) \<le> N \<Longrightarrow> refs_inv s (sum_list (map ends_of xs) + H) D P \<Longrightarrow> pinned s H P \<Longrightarrow>
    \<exists>t. each drop_call xs s = Some t \<and> refs_inv t H D P \<and> settles s t P {}"
proof (induction xs arbitrary: s)
  case (Cons f xs)
  have "refs_inv s (ends_of f + (sum_list (map ends_of xs) + H)) D P" using Cons.prems(2) by (simp add: add.assoc)
  from drop_good [OF g Cons.prems(1) this pinned_mono [OF Cons.prems(3)]]
  obtain t where t: "drop_call f s = Some t" "refs_inv t (sum_list (map ends_of xs) + H) D P" "settles s t P {}" by blast
  have "card (in_use t - P) \<le> N" using settles_card [OF t(3), of P] Cons.prems(1) by simp
  from Cons.IH [OF this t(2) settles_pinned [OF t(3) Cons.prems(3)]] show ?case using t(1) settles_trans [OF t(3)] by auto
qed simp

lemma drain_simps:
  "pipe_call (Drain p) s = (if in_count (pipes s p) > 0
     then do {
       s \<leftarrow> each drop_call (take (bn (inflight (pipes s p) ! in_head (pipes s p))) (bfds (inflight (pipes s p) ! in_head (pipes s p)))) s;
       pipe_call (Drain p) (pupd p next_batch s) }
     else Some s)"
  by (subst pipe_call.simps) (simp add: Let_def drop_call_def [abs_def])

text \<open>Giving back the rest \<open>zs\<close> of the oldest batch of a pipe, then dropping the batch from its queue. What
  the caller keeps of the batch, \<open>ys\<close>, it holds afterwards.\<close>

lemma batch_good:
  assumes g: "unref_good N" and c: "card (in_use s - P) \<le> N" and inv: "refs_inv s H D P" and pin: "pinned s H P"
    and p: "p \<in> P" and d: "D \<subseteq># flying s (P - {p})" and n: "0 < in_count (pipes s p)"
    and f: "flying_fds (pipes s p) = (ys @ zs) # flying_fds (next_batch (pipes s p))"
  shows "\<exists>t. each drop_call zs s = Some t \<and> refs_inv (pupd p next_batch t) (sum_list (map ends_of ys) + H) D P
     \<and> D \<subseteq># flying (pupd p next_batch t) (P - {p}) \<and> settles s t P {}"
proof -
  note I = refs_invD [OF inv]
  define B where "B = sum_list (map ends_of ys)"
  define E where "E = sum_list (map ends_of zs)"
  have fe: "flying_ends (pipes s p) = B + E + flying_ends (next_batch (pipes s p))"
    using f by (simp add: flying_ends_def B_def E_def)
  have "D + E \<subseteq># flying s P"
  proof -
    have "D + E \<subseteq># flying s (P - {p}) + E" using d by simp
    also have "\<dots> \<subseteq># flying s P" using flying_remove [OF p I(5), of s] fe by simp
    finally show ?thesis .
  qed
  then have "refs_inv s (E + H) (D + E) P" by (rule take_out [OF inv])
  from each_good [OF g c this [unfolded E_def] pin]
  obtain t where t: "each drop_call zs s = Some t" "refs_inv t H (D + E) P" "settles s t P {}" by (auto simp: E_def)
  have same: "same_body (pipes s r) (pipes t r)" if "r \<in> P" for r using t(3) that by (auto simp: settles_def)
  have fl: "flying t (P - {p}) = flying s (P - {p})"
    by (rule flying_cong) (use same same_body_flying in auto)
  have nb: "flying_ends (next_batch (pipes t p)) = flying_ends (next_batch (pipes s p))" "in_count (pipes t p) = in_count (pipes s p)"
    using same [OF p] by (auto simp: same_body_def next_batch_def flying_ends_def flying_fds_def)
  have "flying_ends (pipes t p) = B + E + flying_ends (next_batch (pipes t p))"
    using fe nb same_bodyD(1) [OF same [OF p]] by (simp add: flying_ends_def)
  from next_batch_refs [OF t(2) p _ this] d fl nb(2) n t show ?thesis by (auto simp: B_def)
qed

lemma drain_good:
  assumes g: "unref_good N" and p: "p \<in> P"
  shows "card (in_use s - P) \<le> N \<Longrightarrow> refs_inv s H D P \<Longrightarrow> pinned s H P \<Longrightarrow> D \<subseteq># flying s (P - {p}) \<Longrightarrow>
    \<exists>t. pipe_call (Drain p) s = Some t \<and> refs_inv t H D P \<and> pinned t H P \<and> in_count (pipes t p) = 0 \<and> settles s t (P - {p}) {p}"
proof (induction "in_count (pipes s p)" arbitrary: s)
  case 0
  then show ?case using settles_refl by (subst drain_simps) auto
next
  case (Suc k)
  let ?q = "pipes s p"
  define xs where "xs = take (bn (inflight ?q ! in_head ?q)) (bfds (inflight ?q ! in_head ?q))"
  have q: "queue_ok ?q" and c: "0 < in_count ?q" using refs_invD(2) [OF Suc.prems(2), of p] Suc.hyps(2) by (auto simp: slot_ok_def)
  have f: "flying_fds ?q = ([] @ xs) # flying_fds (next_batch ?q)" using queue_pop(1) [OF q c] by (simp add: xs_def)
  from batch_good [OF g Suc.prems(1-3) p Suc.prems(4) c f]
  obtain t where t: "each drop_call xs s = Some t" "refs_inv (pupd p next_batch t) H D P"
    "D \<subseteq># flying (pupd p next_batch t) (P - {p})" "settles s t P {}" by auto
  let ?u = "pupd p next_batch t"
  have iu: "in_use ?u = in_use t" by (rule in_use_upd) (simp add: next_batch_def)
  then have "card (in_use ?u - P) \<le> N" using settles_card [OF t(4), of P] Suc.prems(1) by simp
  moreover have "k = in_count (pipes ?u p)" using Suc.hyps(2) t(4) p by (auto simp: next_batch_def settles_def same_body_def)
  moreover have "pinned ?u H P" by (rule next_batch_pinned [OF settles_pinned [OF t(4) Suc.prems(3)]])
  ultimately obtain v where v: "pipe_call (Drain p) ?u = Some v" "refs_inv v H D P" "pinned v H P" "in_count (pipes v p) = 0" "settles ?u v (P - {p}) {p}"
    using Suc.hyps(1) [of ?u] t(2,3) by blast
  have "settles t ?u (P - {p}) {p}" using iu by (auto simp: settles_def torn_def)
  then have "settles s v (P - {p}) {p}"
    using settles_weaken [OF t(4), of "P - {p}" "{p}"] v(5) by (blast intro: settles_trans)
  moreover have "pipe_call (Drain p) s = Some v" using c t(1) v(1) by (subst drain_simps) (simp add: xs_def)
  ultimately show ?case using v by blast
qed

text \<open>A pipe with no end left: its queue is given back, then its buffer.\<close>

lemma teardown_good:
  assumes g: "\<And>M. M < N \<Longrightarrow> unref_good M" and c: "card (in_use t - P) \<le> N" and t: "refs_inv t H D P" and pin: "pinned t H P"
    and z: "torn t p" and pu: "p \<in> in_use t" and p: "p \<notin> P"
  shows "\<exists>u. pipe_call (Drain p) t = Some u \<and> refs_inv (retire p u) H D P \<and> settles t (retire p u) P {} \<and> p \<notin> in_use (retire p u)"
proof -
  have "in_use t - insert p P \<subset> in_use t - P" using pu p by blast
  then have lt: "card (in_use t - insert p P) < N" using c psubset_card_mono [of "in_use t - P" "in_use t - insert p P"] by simp
  have d: "D \<subseteq># flying t P" using refs_invD(4) [OF t] .
  have "D \<subseteq># flying t (insert p P)" by (rule subset_mset.order_trans [OF d flying_mono]) (use refs_invD(5) [OF t] in auto)
  then have i: "refs_inv t H D (insert p P)" using t pu unfolding refs_inv_def by simp
  have pin': "pinned t H (insert p P)" using pin z by (simp add: pinned_def)
  have "D \<subseteq># flying t (insert p P - {p})" using d p by simp
  from drain_good [OF g [OF lt] insertI1 order_refl i pin' this]
  obtain u where u: "pipe_call (Drain p) t = Some u" "refs_inv u H D (insert p P)" "pinned u H (insert p P)" "in_count (pipes u p) = 0"
    "settles t u (insert p P - {p}) {p}" by blast
  have p0: "0 \<le> p" using pu by (simp add: in_use_def pipe64_valid_def)
  have "Rd p \<notin># H" "Wr p \<notin># H" using torn_unheld [OF t, of "Rd p"] torn_unheld [OF t, of "Wr p"] z p0 by auto
  then have tu: "torn u p" using u(3) by (auto simp: pinned_def)
  have st: "settles t u P {p}" using u(5) p by simp
  have "flying u P = flying t P"
    by (rule flying_cong) (use st same_body_flying in \<open>auto simp: settles_def\<close>)
  then have R: "refs_inv (retire p u) H D P" "in_use (retire p u) = in_use u - {p}"
    using retire_refs [OF u(2) p u(4) _ tu] d by auto
  have "settles u (retire p u) P {p}" using R(2) p by (auto simp: settles_def retire_def torn_def)
  then have "settles t (retire p u) P {p}" by (rule settles_trans [OF st])
  then have "settles t (retire p u) P {}" using R(2) by (auto simp: settles_def)
  then show ?thesis using u(1) R by blast
qed

lemma unref_good_all: "unref_good N"
proof (induction N rule: less_induct)
  case (less N)
  show ?case unfolding unref_good_def
  proof (intro allI impI, elim conjE)
    fix s H D P p r w
    assume c: "card (in_use s - P) \<le> N" and inv: "refs_inv s (ends p r w + H) D P" and pin: "pinned s H P" and p: "r \<or> w \<or> p \<notin> P"
    show "\<exists>t. pipe_call (Unref p r w) s = Some t \<and> refs_inv t H D P \<and> settles s t P {} \<and> (p \<in> in_use t \<longrightarrow> \<not> torn t p)"
    proof (cases "pipe64_valid p s")
      case False
      then show ?thesis using drop_invalid [OF inv False] unfolding unref_simps by (auto simp: in_use_def)
    next
      case v: True
      define t where "t = pupd p (dec_ends r w) s"
      have t: "refs_inv t H D P" unfolding t_def by (rule dec_refs [OF inv v])
      have pt: "pinned t H P" unfolding t_def by (rule dec_pinned [OF pin])
      have iu: "in_use t = in_use s" unfolding t_def by (rule in_use_upd) simp
      have st: "settles s t P {}" using iu dec_ends_body by (auto simp: settles_def t_def torn_def)
      show ?thesis
      proof (cases "torn t p")
        case False
        then have "pipe_call (Unref p r w) s = Some t" unfolding unref_simps Let_def t_def [symmetric] torn_def using v by auto
        then show ?thesis using t st False by blast
      next
        case z: True
        have p0: "0 \<le> p" "p \<in> in_use t" using v iu by (auto simp: in_use_def pipe64_valid_def)
        have "Rd p \<notin># H" "Wr p \<notin># H" using torn_unheld [OF t, of "Rd p"] torn_unheld [OF t, of "Wr p"] z p0 by auto
        have "p \<notin> P"
        proof
          assume a: "p \<in> P"
          then have "torn s p" using pin \<open>Rd p \<notin># H\<close> \<open>Wr p \<notin># H\<close> by (auto simp: pinned_def)
          then have "Rd p \<notin># ends p r w + H" "Wr p \<notin># ends p r w + H"
            using torn_unheld [OF inv, of "Rd p"] torn_unheld [OF inv, of "Wr p"] p0 by auto
          then show False using p a by (auto simp: ends_def split: if_splits)
        qed
        from teardown_good [OF less.IH _ t pt z p0(2) this] c iu
        obtain u where u: "pipe_call (Drain p) t = Some u" "refs_inv (retire p u) H D P" "settles t (retire p u) P {}"
          "p \<notin> in_use (retire p u)" by auto
        have "pipe_call (Unref p r w) s = Some (retire p u)"
          unfolding unref_simps Let_def t_def [symmetric] using v z u(1) by (simp add: torn_def)
        then show ?thesis using u(2,4) settles_trans [OF st u(3)] by blast
      qed
    qed
  qed
qed

section \<open>The other operations\<close>

definition pipes_inv :: "pipe_state \<Rightarrow> pend multiset \<Rightarrow> bool" where
  "pipes_inv s H \<longleftrightarrow> refs_inv s H {#} {}"

lemma pipes_invD:
  assumes "pipes_inv s H"
  shows "ramfs_ok (fs s)" "\<And>p. slot_ok (pipes s p)"
    "\<And>e. 0 \<le> pend_pipe e \<Longrightarrow> ends_count s e = int (count H e) + int (count (flying s (in_use s)) e)"
  using refs_invD(1,2,6) [OF assms [unfolded pipes_inv_def]] by auto

lemma pipes_invI:
  assumes "ramfs_ok (fs s)" and "\<And>p. slot_ok (pipes s p)"
    and "\<And>e. 0 \<le> pend_pipe e \<Longrightarrow> ends_count s e = int (count H e) + int (count (flying s (in_use s)) e)"
  shows "pipes_inv s H"
  using assms by (simp add: pipes_inv_def refs_inv_def)

lemma unref_pipes:
  assumes "pipes_inv s (ends p r w + H)"
  shows "\<exists>t. pipe64_unref p r w s = Some t \<and> pipes_inv t H \<and> settles s t {} {} \<and> (p \<in> in_use t \<longrightarrow> \<not> torn t p)"
  using unref_good_all [of "card (in_use s)"] assms
  unfolding unref_good_def pipes_inv_def pipe64_unref_def by (fastforce simp: pinned_def)

lemma pipes_inv_cong:
  assumes "pipes_inv s H" and p: "pipes t = pipes s" and "ramfs_ok (fs t)"
  shows "pipes_inv t H"
proof (rule pipes_invI)
  have va: "pipe64_valid q t = pipe64_valid q s" for q by (simp add: pipe64_valid_def p)
  then have iu: "in_use t = in_use s" by (simp add: in_use_def)
  show "ends_count t e = int (count H e) + int (count (flying t (in_use t)) e)" if "0 \<le> pend_pipe e" for e
    using pipes_invD(3) [OF assms(1) that] unfolding iu by (cases e) (auto simp: ends_count_def va p flying_def split: if_splits)
qed (use assms(3) pipes_invD(2) [OF assms(1)] p in auto)

text \<open>A change to one pipe in use that keeps its slot sound and its counts.\<close>

lemma one_pipe:
  assumes inv: "pipes_inv s H" and v: "pipe64_valid p s"
    and t: "\<And>q. q \<noteq> p \<Longrightarrow> pipes t q = pipes s q" "ramfs_ok (fs t)"
    and q: "slot_ok (pipes t p)" "pused (pipes t p)"
    and c: "\<And>e. 0 \<le> pend_pipe e \<Longrightarrow> (case e of Rd r \<Rightarrow> readers (pipes t r) | Wr r \<Rightarrow> writers (pipes t r))
              + int (count A e) + int (count (flying_ends (pipes s p)) e)
            = (case e of Rd r \<Rightarrow> readers (pipes s r) | Wr r \<Rightarrow> writers (pipes s r))
              + int (count B e) + int (count (flying_ends (pipes t p)) e)"
    and ab: "A \<subseteq># H + B" and bv: "\<And>e. e \<in># A + B \<Longrightarrow> 0 \<le> pend_pipe e \<Longrightarrow> pipe64_valid (pend_pipe e) s"
    and fv: "\<And>e. e \<in># flying_ends (pipes t p) \<Longrightarrow> 0 \<le> pend_pipe e \<Longrightarrow> pipe64_valid (pend_pipe e) s"
  shows "pipes_inv t (H + B - A)"
proof (rule pipes_invI)
  note I = pipes_invD [OF inv]
  have va: "pipe64_valid r t = pipe64_valid r s" for r
    using v q(2) t(1) [of r] by (cases "r = p") (auto simp: pipe64_valid_def)
  then have iu: "in_use t = in_use s" by (simp add: in_use_def)
  have pu: "p \<in> in_use s" using v by (simp add: in_use_def)
  have fr: "flying t (in_use s - {p}) = flying s (in_use s - {p})" using t(1) by (intro flying_cong) auto
  show "ramfs_ok (fs t)" by (rule t(2))
  show "slot_ok (pipes t r)" for r using q(1) t(1) I(2) by (cases "r = p") auto
  fix e assume e: "0 \<le> pend_pipe e"
  have f: "int (count (flying t (in_use t)) e) + int (count (flying_ends (pipes s p)) e)
      = int (count (flying s (in_use s)) e) + int (count (flying_ends (pipes t p)) e)"
    unfolding iu using flying_remove [OF pu finite_in_use, of t] flying_remove [OF pu finite_in_use, of s] fr by simp
  have h: "int (count (H + B - A) e) = int (count H e) + int (count B e) - int (count A e)"
    using mset_subset_eq_count [OF ab, of e] by simp
  show "ends_count t e = int (count (H + B - A) e) + int (count (flying t (in_use t)) e)"
  proof (cases "pipe64_valid (pend_pipe e) s")
    case True
    then show ?thesis using I(3) [OF e] c [OF e] f h va by (cases e) (simp_all add: ends_count_def)
  next
    case False
    have "count A e = 0" "count B e = 0" using bv [of e] e False by (auto simp: count_eq_zero_iff)
    moreover have "count (flying_ends (pipes t p)) e = 0" using fv [of e] e False by (auto simp: count_eq_zero_iff)
    moreover have "count H e = 0" "count (flying s (in_use s)) e = 0" using I(3) [OF e] False by (simp_all add: ends_count_def)
    moreover have "count (flying_ends (pipes s p)) e \<le> count (flying s (in_use s)) e"
      using flying_remove [OF pu finite_in_use, of s] by simp
    ultimately show ?thesis using f h False va by (simp add: ends_count_def)
  qed
qed

lemma held_in_use: "pipes_inv s H \<Longrightarrow> e \<in># H \<Longrightarrow> 0 \<le> pend_pipe e \<Longrightarrow> pipe64_valid (pend_pipe e) s"
  unfolding pipes_inv_def using held_valid by blast

lemma flying_in_use:
  assumes "pipes_inv s H" and "e \<in># flying_ends (pipes s p)" and "pipe64_valid p s" and "0 \<le> pend_pipe e"
  shows "pipe64_valid (pend_pipe e) s"
proof (rule ccontr)
  assume "\<not> pipe64_valid (pend_pipe e) s"
  then have "count (flying s (in_use s)) e = 0" using pipes_invD(3) [OF assms(1,4)] by (simp add: ends_count_def)
  moreover have "p \<in> in_use s" using assms(3) by (simp add: in_use_def)
  ultimately have "count (flying_ends (pipes s p)) e = 0" using flying_remove [of p "in_use s" s] by simp
  then show False using assms(2) by (simp add: count_eq_zero_iff)
qed

lemma ref_pipes:
  assumes inv: "pipes_inv s H" and v: "pipe64_valid p s"
  shows "pipes_inv (pipe64_ref p r w s) (H + ends p r w)"
proof -
  define t where "t = pipe64_ref p r w s"
  define q where "q = (pipes s p)\<lparr>readers := readers (pipes s p) + (if r then 1 else 0), writers := writers (pipes s p) + (if w then 1 else 0)\<rparr>"
  have pt: "pipes t x = (if x = p then q else pipes s x)" for x using v by (simp add: t_def pipe64_ref_def q_def)
  have ft: "fs t = fs s" using v by (simp add: t_def pipe64_ref_def)
  have fe: "flying_ends q = flying_ends (pipes s p)" by (simp add: q_def flying_ends_def flying_fds_def)
  have "pipes_inv t (H + ends p r w - {#})"
  proof (rule one_pipe [OF inv v])
    show "slot_ok (pipes t p)" using pipes_invD(2) [OF inv, of p] by (simp add: pt q_def slot_ok_def queue_ok_def ring_ok_def)
    show "pused (pipes t p)" using v by (simp add: pt q_def pipe64_valid_def)
    show "pipe64_valid (pend_pipe e) s" if "e \<in># {#} + ends p r w" for e using that v by (auto simp: ends_def split: if_splits)
    show "pipe64_valid (pend_pipe e) s" if "e \<in># flying_ends (pipes t p)" "0 \<le> pend_pipe e" for e
      using flying_in_use [OF inv _ v] that fe by (simp add: pt)
    show "(case e of Rd r \<Rightarrow> readers (pipes t r) | Wr r \<Rightarrow> writers (pipes t r)) + int (count {#} e) + int (count (flying_ends (pipes s p)) e)
        = (case e of Rd r \<Rightarrow> readers (pipes s r) | Wr r \<Rightarrow> writers (pipes s r)) + int (count (ends p r w) e) + int (count (flying_ends (pipes t p)) e)" for e
      using fe by (cases e) (auto simp: pt q_def)
  qed (use pipes_invD(1) [OF inv] in \<open>auto simp: pt ft\<close>)
  then show ?thesis by (simp add: t_def)
qed

lemma bytes_pipes:
  assumes inv: "pipes_inv s H" and v: "pipe64_valid p s"
    and t: "\<forall>q. q \<noteq> p \<longrightarrow> pipes t q = pipes s q" "fs t = fs s" "ring_ok (pipes t p)"
    and q: "readers (pipes t p) = readers (pipes s p)" "writers (pipes t p) = writers (pipes s p)" "pused (pipes t p) = pused (pipes s p)"
      "inflight (pipes t p) = inflight (pipes s p)" "in_head (pipes t p) = in_head (pipes s p)" "in_count (pipes t p) = in_count (pipes s p)"
  shows "pipes_inv t H"
proof -
  have fe: "flying_ends (pipes t p) = flying_ends (pipes s p)" using q by (simp add: flying_ends_def flying_fds_def)
  have eq: "readers (pipes t r) = readers (pipes s r)" "writers (pipes t r) = writers (pipes s r)" for r
    using q(1,2) t(1) by (cases "r = p"; simp)+
  have "pipes_inv t (H + {#} - {#})"
  proof (rule one_pipe [OF inv v])
    show "slot_ok (pipes t p)" using pipes_invD(2) [OF inv, of p] t(3) q by (simp add: slot_ok_def queue_ok_def ring_ok_def)
    show "pipe64_valid (pend_pipe e) s" if "e \<in># flying_ends (pipes t p)" "0 \<le> pend_pipe e" for e
      using flying_in_use [OF inv _ v] that fe by simp
    show "(case e of Rd r \<Rightarrow> readers (pipes t r) | Wr r \<Rightarrow> writers (pipes t r)) + int (count {#} e) + int (count (flying_ends (pipes s p)) e)
        = (case e of Rd r \<Rightarrow> readers (pipes s r) | Wr r \<Rightarrow> writers (pipes s r)) + int (count {#} e) + int (count (flying_ends (pipes t p)) e)" for e
      using fe eq by (cases e) simp_all
  qed (use v t q pipes_invD(1) [OF inv] in \<open>auto simp: pipe64_valid_def\<close>)
  then show ?thesis by simp
qed

lemma write_pipes:
  assumes inv: "pipes_inv s H"
  shows "\<exists>r t. pipe64_write p xs s = Some (r, t) \<and> pipes_inv t H"
proof (cases "pipe64_valid p s")
  case v: True
  then have "ring_ok (pipes s p)" using pipes_invD(2) [OF inv, of p] by (simp add: slot_ok_def pipe64_valid_def)
  from pipe64_write_spec [OF v this, of xs] obtain k t r u l where
    t: "pipe64_write p xs s = Some (k, t)" "\<forall>q. q \<noteq> p \<longrightarrow> pipes t q = pipes s q" "fs t = fs s"
      "pipes t p = (pipes s p)\<lparr>ring := r, tail := u, plen := l\<rparr>" "ring_ok (pipes t p)" by (elim exE conjE) (rule that; assumption)
  have "pipes_inv t H" by (rule bytes_pipes [OF inv v t(2,3,5)]) (simp_all add: t(4))
  then show ?thesis using t(1) by blast
qed (use inv in \<open>auto simp: pipe64_write_def\<close>)

lemma read_pipes:
  assumes inv: "pipes_inv s H"
  shows "\<exists>r ys t. pipe64_read p n s = Some (r, ys, t) \<and> pipes_inv t H"
proof (cases "pipe64_valid p s")
  case v: True
  then have "ring_ok (pipes s p)" using pipes_invD(2) [OF inv, of p] by (simp add: slot_ok_def pipe64_valid_def)
  from pipe64_read_spec [OF v this, of n] obtain k t ys h l where
    t: "pipe64_read p n s = Some (k, ys, t)" "\<forall>q. q \<noteq> p \<longrightarrow> pipes t q = pipes s q" "fs t = fs s"
      "pipes t p = (pipes s p)\<lparr>head := h, plen := l\<rparr>" "ring_ok (pipes t p)" by (elim exE conjE) (rule that; assumption)
  have "pipes_inv t H" by (rule bytes_pipes [OF inv v t(2,3,5)]) (simp_all add: t(4))
  then show ?thesis using t(1) by blast
qed (use inv in \<open>auto simp: pipe64_read_def\<close>)

text \<open>Sending descriptors hands the ends the sender took for them over to the queue; receiving hands
  them on.\<close>

lemma send_pipes:
  assumes inv: "pipes_inv s (sum_list (map ends_of xs) + H)" and k: "pipe64_send_fds p xs s = (k, t)"
  shows "if k = 1 then pipes_inv t H \<and> flying_fds (pipes t p) = flying_fds (pipes s p) @ [xs] else t = s"
proof (cases "pipe64_valid p s \<and> xs \<noteq> [] \<and> length xs \<le> BATCH_FDS \<and> in_count (pipes s p) < PIPE64_INFLIGHT")
  case True
  then have v: "pipe64_valid p s" by simp
  define i where "i = (in_head (pipes s p) + in_count (pipes s p)) mod PIPE64_INFLIGHT"
  define q where "q = (pipes s p)\<lparr>inflight := (inflight (pipes s p))[i := \<lparr>bfds = xs @ drop (length xs) (bfds (inflight (pipes s p) ! i)), bn = length xs\<rparr>],
    in_count := in_count (pipes s p) + 1\<rparr>"
  have kt: "k = 1" "t = pupd p (\<lambda>_. q) s"
    using True k by (auto simp: pipe64_send_fds_def Let_def i_def q_def pupd_def)
  have sl: "slot_ok (pipes s p)" by (rule pipes_invD(2) [OF inv])
  have f: "flying_fds q = flying_fds (pipes s p) @ [xs]" "queue_ok q"
    using queue_push [of "pipes s p" xs] True sl unfolding i_def q_def slot_ok_def by blast+
  let ?E = "sum_list (map ends_of xs)"
  have fe: "flying_ends q = flying_ends (pipes s p) + ?E" by (simp add: flying_ends_def f(1))
  have eq: "readers (pipes t r) = readers (pipes s r)" "writers (pipes t r) = writers (pipes s r)" for r
    by (simp_all add: kt q_def)
  have "pipes_inv t (?E + H + {#} - ?E)"
  proof (rule one_pipe [OF inv v])
    show "slot_ok (pipes t p)" using sl f(2) by (simp add: slot_ok_def kt) (simp add: q_def ring_ok_def)
    show "pipe64_valid (pend_pipe e) s" if "e \<in># ?E + {#}" "0 \<le> pend_pipe e" for e using held_in_use [OF inv _ that(2)] that(1) by simp
    show "pipe64_valid (pend_pipe e) s" if "e \<in># flying_ends (pipes t p)" "0 \<le> pend_pipe e" for e
      using flying_in_use [OF inv _ v that(2)] held_in_use [OF inv _ that(2)] that(1) fe by (auto simp: kt)
    show "(case e of Rd r \<Rightarrow> readers (pipes t r) | Wr r \<Rightarrow> writers (pipes t r)) + int (count ?E e) + int (count (flying_ends (pipes s p)) e)
        = (case e of Rd r \<Rightarrow> readers (pipes s r) | Wr r \<Rightarrow> writers (pipes s r)) + int (count {#} e) + int (count (flying_ends (pipes t p)) e)" for e
      using fe eq by (cases e) (simp_all add: kt)
  qed (use v pipes_invD(1) [OF inv] in \<open>auto simp: kt q_def pipe64_valid_def\<close>)
  then show ?thesis using f(1) by (simp add: kt)
next
  case False
  then have "k = 0 \<and> t = s" using k by (auto simp: pipe64_send_fds_def split: if_splits)
  then show ?thesis by simp
qed

lemma recv_pipes:
  assumes inv: "pipes_inv s H" and h: "Rd p \<in># H" "0 \<le> p"
  shows "\<exists>xs t. pipe64_recv_fds p lim s = Some (xs, t) \<and> pipes_inv t (sum_list (map ends_of xs) + H)
     \<and> (case flying_fds (pipes s p) of [] \<Rightarrow> xs = [] \<and> t = s
        | b # bs \<Rightarrow> xs = take lim b \<and> flying_fds (pipes t p) = bs)
     \<and> pipe_content (pipes t p) = pipe_content (pipes s p)"
proof (cases "in_count (pipes s p) = 0")
  case True
  then have "flying_fds (pipes s p) = []" by (simp add: flying_fds_Nil)
  then show ?thesis using True inv by (simp add: pipe64_recv_fds_def)
next
  case False
  let ?q = "pipes s p"
  define b where "b = inflight ?q ! in_head ?q"
  define n where "n = (if bn b < lim then bn b else lim)"
  have v: "pipe64_valid p s" using held_in_use [OF inv h(1)] h(2) by simp
  have q: "queue_ok ?q" "0 < in_count ?q" using pipes_invD(2) [OF inv, of p] False by (auto simp: slot_ok_def)
  note pop = queue_pop(1) [OF q, folded b_def]
  have mem: "b \<in> set (inflight ?q)" using q(1) by (simp add: b_def queue_ok_def)
  then have bl: "bn b \<le> length (bfds b)" using q(1) by (auto simp: queue_ok_def)
  have tk: "take n (bfds b) = take lim (take (bn b) (bfds b))" "n \<le> bn b" by (auto simp: n_def min_def)
  let ?ys = "take n (bfds b)" and ?zs = "drop n (take (bn b) (bfds b))"
  have "take (bn b) (bfds b) = ?ys @ ?zs" using tk(2) by (metis append_take_drop_id min.absorb1 take_take)
  then have f: "flying_fds ?q = (?ys @ ?zs) # flying_fds (next_batch ?q)" using pop by simp
  have r: "refs_inv s H {#} {p}" using inv v by (simp add: pipes_inv_def refs_inv_def in_use_def)
  have pin: "pinned s H {p}" using h by (simp add: pinned_def)
  from batch_good [OF unref_good_all order_refl r pin singletonI _ q(2) f]
  obtain t where t: "each drop_call ?zs s = Some t" "refs_inv (pupd p next_batch t) (sum_list (map ends_of ?ys) + H) {#} {p}"
    "settles s t {p} {}" by auto
  have sb: "same_body ?q (pipes t p)" using t(3) by (simp add: settles_def)
  then have nb: "flying_fds (next_batch (pipes t p)) = flying_fds (next_batch ?q)"
    "pipe_content (next_batch (pipes t p)) = pipe_content ?q"
    by (auto simp: same_body_def next_batch_def flying_fds_def pipe_content_def)
  have "pipe64_recv_fds p lim s = Some (?ys, pupd p next_batch t)"
    using v False t(1) by (simp add: pipe64_recv_fds_def Let_def drop_inflight_call b_def [symmetric] n_def [symmetric])
  moreover have "pipes_inv (pupd p next_batch t) (sum_list (map ends_of ?ys) + H)"
    using t(2) by (simp add: pipes_inv_def refs_inv_def)
  moreover have "?ys = take lim (take (bn b) (bfds b))" by (rule tk(1))
  ultimately show ?thesis using pop nb by (intro exI [of _ ?ys] exI [of _ "pupd p next_batch t"]) simp
qed

lemma free_slot_cases:
  "free_slot s = PIPE64_MAX \<or> 0 \<le> free_slot s \<and> free_slot s < PIPE64_MAX \<and> \<not> pused (pipes s (free_slot s))"
proof (cases "find (\<lambda>i. \<not> pused (pipes s (int i))) [0..<nat PIPE64_MAX]")
  case (Some i)
  then have "i < nat PIPE64_MAX" "\<not> pused (pipes s (int i))" by (auto simp: find_Some_iff)
  then show ?thesis using Some by (auto simp: free_slot_def)
qed (simp add: free_slot_def)

lemma create_pipes:
  assumes inv: "pipes_inv s H" and c: "pipe64_create s = Some (p, t)"
  shows "pipes_inv t H" and "p \<noteq> -1 \<Longrightarrow> pipe64_valid p t \<and> \<not> pipe64_valid p s"
proof -
  note I = pipes_invD [OF inv]
  let ?i = "free_slot s"
  have "pipes_inv t H \<and> (p \<noteq> -1 \<longrightarrow> pipe64_valid p t \<and> \<not> pipe64_valid p s)"
  proof (cases "?i = PIPE64_MAX")
    case True
    then have "p = -1" "t = s\<lparr>said := True\<rparr>" using c by (auto simp: pipe64_create_def Let_def)
    moreover have "pipes_inv (s\<lparr>said := True\<rparr>) H" using I(1) by (intro pipes_inv_cong [OF inv]) simp_all
    ultimately show ?thesis by simp
  next
    case False
    then have i: "0 \<le> ?i" "?i < PIPE64_MAX" "\<not> pused (pipes s ?i)" using free_slot_cases [of s] by auto
    obtain a h where m: "kmalloc64 PIPE64_BUF (kh (fs s)) = Some (a, h)"
      using c False by (cases "kmalloc64 PIPE64_BUF (kh (fs s))") (auto simp: pipe64_create_def Let_def)
    define q where "q = (if a = 0 then (pipes s ?i)\<lparr>buf := 0\<rparr> else (pipes s ?i)\<lparr>buf := a, head := 0, tail := 0, plen := 0, readers := 0, writers := 0,
                                      in_head := 0, in_count := 0, pused := True\<rparr>)"
    have pt: "pipes t r = (if r = ?i then q else pipes s r)" "fs t = (fs s)\<lparr>kh := h\<rparr>" "p = (if a = 0 then -1 else ?i)" for r
      using c False m by (auto simp: pipe64_create_def Let_def q_def split: if_splits)
    have sq: "slot_ok q"
      using I(2) [of ?i] i(3) by (auto simp: q_def slot_ok_def queue_ok_def ring_ok_def PIPE64_BUF_def PIPE64_INFLIGHT_def)
    have va: "pipe64_valid r t = (pipe64_valid r s \<or> r = ?i \<and> a \<noteq> 0)" for r
      using i by (auto simp: pipe64_valid_def pt q_def)
    have iu: "in_use t = in_use s \<union> (if a = 0 then {} else {?i})" by (auto simp: in_use_def va)
    have ni: "?i \<notin> in_use s" using i(3) by (simp add: in_use_def pipe64_valid_def)
    have fs0: "flying t (in_use s) = flying s (in_use s)" using ni by (intro flying_cong) (auto simp: pt)
    have "flying_ends q = {#}" if "a \<noteq> 0" using that by (simp add: q_def flying_ends_def flying_fds_def)
    then have fl: "flying t (in_use t) = flying s (in_use s)"
      using fs0 ni flying_remove [of ?i "in_use t" t] by (auto simp: iu pt)
    have ec: "ends_count t e = ends_count s e" for e
      using i(3) by (cases e) (auto simp: ends_count_def va pt q_def pipe64_valid_def)
    have "pipes_inv t H"
      by (rule pipes_invI) (use I ramfs_ok_heap [OF I(1)] sq in \<open>auto simp: pt ec fl\<close>)
    moreover have "\<not> pipe64_valid ?i s" using ni by (simp add: in_use_def)
    ultimately show ?thesis using pt(3) va i by auto
  qed
  then show "pipes_inv t H" "p \<noteq> -1 \<Longrightarrow> pipe64_valid p t \<and> \<not> pipe64_valid p s" by auto
qed

section \<open>Everything clients do with pipes\<close>

text \<open>One step: a call of the interface by clients that together hold the ends \<open>H\<close>.\<close>

inductive pipe_step :: "pipe_state \<times> pend multiset \<Rightarrow> pipe_state \<times> pend multiset \<Rightarrow> bool" where
  step_create: "pipe64_create s = Some (p, t) \<Longrightarrow> pipe_step (s, H) (t, H)"
| step_ref: "pipe64_valid p s \<Longrightarrow> pipe_step (s, H) (pipe64_ref p r w s, H + ends p r w)"
| step_unref: "pipe64_unref p r w s = Some t \<Longrightarrow> pipe_step (s, ends p r w + H) (t, H)"
| step_send: "pipe64_send_fds p xs s = (1, t) \<Longrightarrow> pipe_step (s, sum_list (map ends_of xs) + H) (t, H)"
| step_recv: "pipe64_recv_fds p lim s = Some (xs, t) \<Longrightarrow> Rd p \<in># H \<Longrightarrow> 0 \<le> p \<Longrightarrow> pipe_step (s, H) (t, sum_list (map ends_of xs) + H)"
| step_read: "pipe64_read p n s = Some (r, ys, t) \<Longrightarrow> pipe_step (s, H) (t, H)"
| step_write: "pipe64_write p ys s = Some (r, t) \<Longrightarrow> pipe_step (s, H) (t, H)"

inductive_cases pipe_stepE: "pipe_step (s, H) (t, K)"

lemma pipe_step_inv: "pipe_step (s, H) (t, K) \<Longrightarrow> pipes_inv s H \<Longrightarrow> pipes_inv t K"
proof (elim pipe_stepE)
  fix p r w H' assume "pipes_inv s H" "H = ends p r w + K" "pipe64_unref p r w s = Some t"
  then show "pipes_inv t K" using unref_pipes [of s p r w K] by auto
next
  fix p xs assume "pipes_inv s H" "H = sum_list (map ends_of xs) + K" "pipe64_send_fds p xs s = (1, t)"
  then show "pipes_inv t K" using send_pipes [of s xs K p 1 t] by auto
next
  fix p lim xs assume "pipes_inv s H" "K = sum_list (map ends_of xs) + H" "pipe64_recv_fds p lim s = Some (xs, t)" "Rd p \<in># H" "0 \<le> p"
  then show "pipes_inv t K" using recv_pipes [of s H p lim] by auto
next
  fix p n r ys assume "pipes_inv s H" "K = H" "pipe64_read p n s = Some (r, ys, t)"
  then show "pipes_inv t K" using read_pipes [of s H p n] by auto
next
  fix p r ys assume "pipes_inv s H" "K = H" "pipe64_write p ys s = Some (r, t)"
  then show "pipes_inv t K" using write_pipes [of s H p ys] by auto
next
  fix p r w assume "pipes_inv s H" "t = pipe64_ref p r w s" "K = H + ends p r w" "pipe64_valid p s"
  then show "pipes_inv t K" using ref_pipes by blast
next
  fix p assume "pipes_inv s H" "K = H" "pipe64_create s = Some (p, t)"
  then show "pipes_inv t K" using create_pipes(1) by blast
qed

lemma pipe_steps_inv: "rtranclp pipe_step x y \<Longrightarrow> pipes_inv (fst x) (snd x) \<Longrightarrow> pipes_inv (fst y) (snd y)"
proof (induction rule: rtranclp_induct)
  case (step y z)
  then show ?case using pipe_step_inv [of "fst y" "snd y" "fst z" "snd z"] by simp
qed

section \<open>Properties\<close>

definition pipe_boot :: "ramfs \<Rightarrow> pipe_state" where
  "pipe_boot f = \<lparr>pipes = (\<lambda>_. blank_pipe), said = False, fs = f\<rparr>"

lemma blank_slot: "slot_ok blank_pipe"
  by (simp add: slot_ok_def queue_ok_def blank_pipe_def) (simp add: PIPE64_INFLIGHT_def)

lemma pipe_boot_inv: "ramfs_ok f \<Longrightarrow> pipes_inv (pipe_boot f) {#}"
proof (rule pipes_invI)
  have "\<not> pipe64_valid q (pipe_boot f)" for q by (simp add: pipe64_valid_def pipe_boot_def blank_pipe_def)
  then show "ends_count (pipe_boot f) e = int (count {#} e) + int (count (flying (pipe_boot f) (in_use (pipe_boot f))) e)" for e
    by (simp add: ends_count_def in_use_def flying_def)
qed (simp_all add: pipe_boot_def blank_slot)

text \<open>C36: However processes create pipes, duplicate, close, send and receive their ends and read and write
  them, starting from the empty table: the counts a pipe keeps are exactly the ends held plus those
  in flight on other pipes, and every end that somebody holds belongs to a pipe that is still there.\<close>

theorem pipe64_counts_exact:
  assumes "ramfs_ok f" and "rtranclp pipe_step (pipe_boot f, {#}) (t, H)"
  shows "(\<forall>p. pipe64_valid p t \<longrightarrow> readers (pipes t p) = int (count (H + flying t (in_use t)) (Rd p))
           \<and> writers (pipes t p) = int (count (H + flying t (in_use t)) (Wr p)))
    \<and> (\<forall>e. e \<in># H + flying t (in_use t) \<longrightarrow> 0 \<le> pend_pipe e \<longrightarrow> pipe64_valid (pend_pipe e) t)"
proof -
  have inv: "pipes_inv t H" using pipe_steps_inv [OF assms(2)] pipe_boot_inv [OF assms(1)] by simp
  have "readers (pipes t p) = int (count (H + flying t (in_use t)) (Rd p)) \<and> writers (pipes t p) = int (count (H + flying t (in_use t)) (Wr p))"
    if "pipe64_valid p t" for p
    using pipes_invD(3) [OF inv, of "Rd p"] pipes_invD(3) [OF inv, of "Wr p"] that by (simp add: ends_count_def pipe64_valid_def)
  moreover have "pipe64_valid (pend_pipe e) t" if "e \<in># H + flying t (in_use t)" "0 \<le> pend_pipe e" for e
  proof (rule ccontr)
    assume "\<not> pipe64_valid (pend_pipe e) t"
    then have "count (H + flying t (in_use t)) e = 0" using pipes_invD(3) [OF inv that(2)] by (simp add: ends_count_def)
    then show False using that(1) by (simp add: count_eq_zero_iff)
  qed
  ultimately show ?thesis by blast
qed

theorem pipe64_counts_exact_witness:
  "\<exists>t. rtranclp pipe_step (pipe_boot ramfs_demo, {#}) (t, {#}) \<and> pipe64_write 5 [1] (pipe_boot ramfs_demo) = Some (-9, t)
     \<and> (\<forall>e. e \<in># flying t (in_use t) \<longrightarrow> 0 \<le> pend_pipe e \<longrightarrow> pipe64_valid (pend_pipe e) t)"
proof -
  have w: "pipe64_write 5 [1] (pipe_boot ramfs_demo) = Some (-9, pipe_boot ramfs_demo)"
    by (simp add: pipe64_write_def pipe64_valid_def pipe_boot_def blank_pipe_def)
  then have s: "rtranclp pipe_step (pipe_boot ramfs_demo, {#}) (pipe_boot ramfs_demo, {#})" by (blast intro: step_write)
  show ?thesis using w s pipe64_counts_exact [OF ramfs_demo_ok s] by (intro exI [of _ "pipe_boot ramfs_demo"]) simp
qed


text \<open>Descriptors sent over a pipe arrive in the order sent, a batch at a time. A batch is queued
  behind those already waiting, with the ends it carries, or refused with nothing changed. Receiving
  always returns: it takes the oldest batch out, delivers as many of its descriptors as there is room
  for, gives the ends of the rest back, and leaves the bytes alone.\<close>

theorem pipe64_fds_fifo:
  assumes inv: "pipes_inv s (sum_list (map ends_of xs) + H)" and h: "Rd p \<in># H" "0 \<le> p"
  shows "(\<exists>k t. pipe64_send_fds p xs s = (k, t)
       \<and> (if xs \<noteq> [] \<and> length xs \<le> BATCH_FDS \<and> length (flying_fds (pipes s p)) < PIPE64_INFLIGHT
          then k = 1 \<and> pipes_inv t H \<and> flying_fds (pipes t p) = flying_fds (pipes s p) @ [xs] else k = 0 \<and> t = s))
    \<and> (\<exists>ys u. pipe64_recv_fds p lim s = Some (ys, u) \<and> pipes_inv u (sum_list (map ends_of ys) + (sum_list (map ends_of xs) + H))
       \<and> (case flying_fds (pipes s p) of [] \<Rightarrow> ys = [] \<and> u = s
          | b # bs \<Rightarrow> ys = take lim b \<and> flying_fds (pipes u p) = bs)
       \<and> pipe_content (pipes u p) = pipe_content (pipes s p))"
proof
  obtain k t where k: "pipe64_send_fds p xs s = (k, t)" by fastforce
  have v: "pipe64_valid p s" using held_in_use [OF inv, of "Rd p"] h by simp
  have l: "length (flying_fds (pipes s p)) = in_count (pipes s p)" by (simp add: flying_fds_def)
  have "k = (if xs \<noteq> [] \<and> length xs \<le> BATCH_FDS \<and> in_count (pipes s p) < PIPE64_INFLIGHT then 1 else 0)"
    using k v by (auto simp: pipe64_send_fds_def Let_def split: if_splits)
  then show "\<exists>k t. pipe64_send_fds p xs s = (k, t)
       \<and> (if xs \<noteq> [] \<and> length xs \<le> BATCH_FDS \<and> length (flying_fds (pipes s p)) < PIPE64_INFLIGHT
          then k = 1 \<and> pipes_inv t H \<and> flying_fds (pipes t p) = flying_fds (pipes s p) @ [xs] else k = 0 \<and> t = s)"
    using k send_pipes [OF inv k] unfolding l by (intro exI [of _ k] exI [of _ t]) (auto split: if_splits)
qed (use recv_pipes [OF inv _ h(2)] h(1) in simp)

lemma pipe_demo_inv: "pipes_inv pipe_demo {#Rd 0, Wr 0#}"
proof (rule pipes_invI)
  have v: "pipe64_valid q pipe_demo \<longleftrightarrow> q = 0" for q by (auto simp: pipe64_valid_def pipe_demo_def blank_pipe_def PIPE64_MAX_def)
  have rw: "readers (pipes pipe_demo 0) = 1" "writers (pipes pipe_demo 0) = 1" by (simp_all add: pipe_demo_def)
  have "flying_ends (pipes pipe_demo 0) = {#}" by (simp add: flying_ends_def flying_fds_def pipe_demo_def blank_pipe_def)
  then have f: "flying pipe_demo (in_use pipe_demo) = {#}" by (simp add: in_use_def v flying_def)
  show "ends_count pipe_demo e = int (count {#Rd 0, Wr 0#} e) + int (count (flying pipe_demo (in_use pipe_demo)) e)" for e
    unfolding f by (cases e) (auto simp: ends_count_def v rw)
  show "slot_ok (pipes pipe_demo p)" for p
    using blank_slot blank_ring by (simp add: pipe_demo_def slot_ok_def queue_ok_def)
qed (simp add: pipe_demo_def ramfs_demo_ok)


theorem pipe64_fds_fifo_witness:
  "\<exists>t. pipe64_send_fds 0 [\<lparr>kind = FD64_FILE, node = 3, pos = 0, rx = -1, tx = -1\<rparr>] pipe_demo = (1, t)
     \<and> flying_fds (pipes t 0) = [[\<lparr>kind = FD64_FILE, node = 3, pos = 0, rx = -1, tx = -1\<rparr>]]"
proof -
  have "flying_fds (pipes pipe_demo 0) = []" by (simp add: flying_fds_def pipe_demo_def blank_pipe_def)
  then show ?thesis
    using pipe64_fds_fifo [of pipe_demo "[\<lparr>kind = FD64_FILE, node = 3, pos = 0, rx = -1, tx = -1\<rparr>]" "{#Rd 0, Wr 0#}" 0] pipe_demo_inv
    by (auto simp: ends_of_def BATCH_FDS_def PIPE64_INFLIGHT_def)
qed

end
