(* ===== verification/Ramfs64_Files.thy ===== *)
theory Ramfs64_Files
  imports Ramfs64_Tree
begin

text \<open>
  The bytes of the files of \<^verbatim>\<open>kernel/ramfs64.c\<close>. A small file is one block of the kernel heap
  (\<open>in_block\<close>); a large one, or one that has been mapped shared, is an array of frames. The results
  are that what is written is what is read back, that growing exposes zeros, and where the code
  falls short of that: lengths so large that the arithmetic wraps, and a file that could not be
  moved into frames.
\<close>

section \<open>Doubling\<close>

lemma double_until_stops:
  assumes "0 < cap" and "want \<le> 2 ^ 62"
  shows "cap < 2 ^ 63 \<Longrightarrow> \<exists>c. double_until cap want = Some c \<and> want \<le> c \<and> cap \<le> c \<and> (c = cap \<or> c < 2 * want)"
  using assms(1)
proof (induction "want - cap" arbitrary: cap rule: less_induct)
  case less
  show ?case
  proof (cases "cap < want")
    case True
    then have "mul64 cap 2 = 2 * cap" using assms(2) by (simp add: mul64_def)
    moreover have "\<exists>c. double_until (2 * cap) want = Some c \<and> want \<le> c \<and> 2 * cap \<le> c \<and> (c = 2 * cap \<or> c < 2 * want)"
      using less True assms(2) by (intro less.hyps) auto
    ultimately show ?thesis using True by (subst double_until.simps) auto
  qed (subst double_until.simps; simp)
qed

text \<open>Past \<open>2^63\<close> the capacity wraps to zero and doubling goes on for ever.\<close>

lemma double_until_of_zero: "double_until cap want = Some y \<Longrightarrow> cap = 0 \<longrightarrow> want = 0"
  by (rule double_until.raw_induct [where P = "\<lambda>cap want y. cap = 0 \<longrightarrow> want = 0", rotated])
    (auto simp: mul64_def split: if_splits)

lemma double_until_zero: "0 < want \<Longrightarrow> double_until 0 want = None"
  using double_until_of_zero [of 0 want] by (cases "double_until 0 want") auto

lemma double_until_power:
  assumes "2 ^ 63 < want" and "k \<le> 63"
  shows "double_until (2 ^ k) want = None"
  using assms(2)
proof (induction "63 - k" arbitrary: k)
  case 0
  then have "k = 63" by simp
  then show ?case using assms(1) by (subst double_until.simps) (simp add: mul64_def double_until_zero)
next
  case (Suc j)
  then have "k < 63" by simp
  then have "(2 :: nat) ^ k * 2 \<le> 2 ^ 63" using power_increasing [of "Suc k" 63 "2 :: nat"] by (simp add: mult.commute)
  then have "2 ^ k < want" "mul64 (2 ^ k) 2 = 2 ^ Suc k" using assms(1) by (auto simp: mul64_def mult.commute)
  then show ?case using Suc.hyps(1) [of "Suc k"] Suc.hyps(2) \<open>k < 63\<close> by (subst double_until.simps) simp
qed

section \<open>Files in one block\<close>

definition in_block :: "ramfs \<Rightarrow> int \<Rightarrow> bool" where
  "in_block s n \<longleftrightarrow> frames (nodes s n) = 0 \<and> fcap (nodes s n) = 0 \<and> nframes (nodes s n) = 0 \<and> length (dbytes (nodes s n)) = capacity (nodes s n)
     \<and> fsize (nodes s n) \<le> capacity (nodes s n) \<and> capacity (nodes s n) \<le> 2 ^ 44"

definition heap_ok :: "ramfs \<Rightarrow> bool" where
  "heap_ok s \<longleftrightarrow> (\<exists>A. kheap_state (kh s) A)"

lemma fs_malloc_returns:
  assumes "heap_ok s" and "0 < n" and "n \<le> 2 ^ 45"
  shows "\<exists>p t. fs_malloc n s = Some (p, t) \<and> heap_ok t \<and> t = s\<lparr>kh := kh t\<rparr>"
proof -
  obtain A where "kheap_state (kh s) A" using assms(1) by (auto simp: heap_ok_def)
  from kheap_state_malloc [OF this assms(2,3)] obtain p h where "kmalloc64 n (kh s) = Some (p, h)" "\<exists>A. kheap_state h A" by blast
  then show ?thesis by (intro exI [of _ p] exI [of _ "s\<lparr>kh := h\<rparr>"]) (simp add: fs_malloc_def heap_ok_def)
qed

text \<open>\<open>ensure_capacity\<close> keeps the bytes of the file, pads with zeros when it grows, and changes nothing
  but the heap when it fails.\<close>

lemma ensure_capacity_spec:
  assumes "heap_ok s" and b: "in_block s n" and w: "want \<le> 2 ^ 43"
  shows "\<exists>ok t. ensure_capacity n want s = Some (ok, t) \<and> (\<forall>i. i \<noteq> n \<longrightarrow> nodes t i = nodes s i)
     \<and> nodes_ptr t = nodes_ptr s \<and> same_tree s t
     \<and> (\<not> ok \<longrightarrow> nodes t = nodes s \<and> heap_ok t)
     \<and> (ok \<longrightarrow> in_block t n \<and> want \<le> capacity (nodes t n) \<and> fsize (nodes t n) = fsize (nodes s n) \<and> is_dir (nodes t n) = is_dir (nodes s n)
          \<and> take (fsize (nodes s n)) (dbytes (nodes t n)) = take (fsize (nodes s n)) (dbytes (nodes s n))
          \<and> (capacity (nodes s n) < want \<longrightarrow> (\<forall>k. fsize (nodes s n) \<le> k \<longrightarrow> k < capacity (nodes t n) \<longrightarrow> dbytes (nodes t n) ! k = 0)))"
proof (cases "want \<le> capacity (nodes s n)")
  case True
  then have "ensure_capacity n want s = Some (True, s)" by (simp add: ensure_capacity_def Let_def)
  then show ?thesis using True b by (intro exI [of _ True] exI [of _ s]) simp
next
  case False
  let ?nd = "nodes s n"
  let ?c0 = "if capacity ?nd \<noteq> 0 then capacity ?nd else 64"
  have c0: "0 < ?c0" "?c0 < 2 ^ 63" "?c0 \<le> 2 ^ 44" using b by (auto simp: in_block_def)
  obtain cap where cap: "double_until ?c0 want = Some cap" "want \<le> cap" "?c0 \<le> cap" "cap = ?c0 \<or> cap < 2 * want"
    using double_until_stops [OF c0(1) _ c0(2), of want] w by fastforce
  have lim: "0 < cap" "cap \<le> 2 ^ 44" using cap c0 w by auto
  obtain p t where t: "fs_malloc cap s = Some (p, t)" "heap_ok t" "t = s\<lparr>kh := kh t\<rparr>"
    using fs_malloc_returns [OF assms(1) lim(1)] lim(2) by fastforce
  have nt: "nodes t = nodes s" "nodes_ptr t = nodes_ptr s" "node_free t = node_free s" "node_count t = node_count s"
    using t(3) by (metis ramfs.select_convs(1-4) ramfs.surjective ramfs.update_convs(6))+
  have le: "fsize ?nd \<le> length (dbytes ?nd)" "fsize ?nd \<le> cap" using b cap(3) by (auto simp: in_block_def split: if_splits)
  show ?thesis
  proof (cases "p = 0")
    case True
    then have "ensure_capacity n want s = Some (False, t)" using False cap(1) t(1) by (simp add: ensure_capacity_def Let_def)
    then show ?thesis using nt t(2) by (intro exI [of _ False] exI [of _ t]) (simp add: same_tree_def)
  next
    case p: False
    let ?u = "nupd n (\<lambda>x. x\<lparr>data := p, dbytes := take (fsize ?nd) (dbytes ?nd) @ replicate (cap - fsize ?nd) 0, capacity := cap\<rparr>)
                (if data ?nd \<noteq> 0 then fs_free (data ?nd) t else t)"
    have "ensure_capacity n want s = Some (True, ?u)" using False cap(1) t(1) p le by (simp add: ensure_capacity_def Let_def)
    moreover have "in_block ?u n" using le lim b nt by (auto simp: in_block_def)
    moreover have "dbytes (nodes ?u n) ! k = 0" if "fsize ?nd \<le> k" "k < cap" for k
      using that le nt by (simp add: nth_append)
    moreover have "same_tree s ?u" using nt by (auto simp: same_tree_def shape_def)
    ultimately show ?thesis using nt le cap(2) False by (intro exI [of _ True] exI [of _ ?u]) (auto simp: min_def)
  qed
qed

section \<open>Reading back\<close>

definition contents :: "ramfs \<Rightarrow> int \<Rightarrow> byte list" where
  "contents s n = take (fsize (nodes s n)) (dbytes (nodes s n))"

lemma length_contents: "in_block s n \<Longrightarrow> length (contents s n) = fsize (nodes s n)"
  by (auto simp: contents_def in_block_def)

text \<open>Reading a file that is one block gives the bytes of its contents, up to its end.\<close>

lemma read_block:
  assumes "valid n s" and "\<not> is_dir (nodes s n)" and "in_block s n" and "off + len < 2 ^ 63"
  shows "ramfs64_read n off len s =
    Some (int (length (take len (drop off (contents s n)))), take len (drop off (contents s n)))"
proof -
  let ?nd = "nodes s n"
  have b: "frames ?nd = 0" "fsize ?nd \<le> length (dbytes ?nd)" "fsize ?nd \<le> 2 ^ 44" using assms(3) by (auto simp: in_block_def)
  have "add64 off len = off + len" using assms(4) by (simp add: add64_exact)
  then show ?thesis using assms b
    by (auto simp: ramfs64_read_def Let_def contents_def s64_def drop_take min_def)
qed

text \<open>The branch of \<open>ramfs64_write\<close> that stays in the block.\<close>

lemma write_in_block:
  assumes "valid n s" and "\<not> is_dir (nodes s n)" and b: "in_block s n" and e: "ensure_capacity n (off + length buf) s = Some (True, t)"
    and t: "in_block t n" "off + length buf \<le> capacity (nodes t n)" "fsize (nodes t n) = fsize (nodes s n)"
    and c: "off + length buf \<le> RAMFS64_CONTIGUOUS_MAX"
  defines "u \<equiv> nupd n (\<lambda>x. x\<lparr>dbytes := take off (dbytes x) @ buf @ drop (off + length buf) (dbytes x),
                         fsize := max (fsize x) (off + length buf)\<rparr>) t"
  shows "ramfs64_write n off buf s = Some (int (length buf), u)" and "in_block u n"
proof -
  have m: "add64 off (length buf) = off + length buf" "s64 (length buf) = int (length buf)"
    using c by (simp_all add: add64_exact RAMFS64_CONTIGUOUS_MAX_def s64_def)
  have f: "frames (nodes s n) = 0" "off + length buf \<le> length (dbytes (nodes t n))" using b t by (auto simp: in_block_def)
  have "max (fsize (nodes t n)) (off + length buf) = (if off + length buf > fsize (nodes t n) then off + length buf else fsize (nodes t n))"
    by (simp add: max_def)
  then show "ramfs64_write n off buf s = Some (int (length buf), u)"
    using assms(1,2) m f e c by (auto simp: ramfs64_write_def u_def nupd_def fun_eq_iff Let_def)
  show "in_block u n" using t(1,2) f(2) by (auto simp: u_def in_block_def)
qed

lemma nth_overwrite:
  "off + length buf \<le> length xs \<Longrightarrow> k < length xs \<Longrightarrow>
   (take off xs @ buf @ drop (off + length buf) xs) ! k = (if off \<le> k \<and> k < off + length buf then buf ! (k - off) else xs ! k)"
  by (auto simp: nth_append min_def)

text \<open>When the block cannot grow the file goes to frames, and that returns too.\<close>

lemma set_nodes [simp]: "nodes (set_pmm p s) = nodes s" "nodes (set_mem M s) = nodes s"
  by (simp_all add: set_pmm_def set_mem_def)

lemma frames_loop_nodes:
  "frames_loop n got need s = (ok, t) \<Longrightarrow>
     fsize (nodes t n) = fsize (nodes s n) \<and> dbytes (nodes t n) = dbytes (nodes s n) \<and> frames (nodes t n) = frames (nodes s n)
     \<and> data (nodes t n) = data (nodes s n)"
proof (induction "need - got" arbitrary: got s)
  case 0
  then show ?case by (subst (asm) frames_loop.simps) simp
next
  case (Suc k)
  have k: "k = need - (got + 1)" "got < need" using Suc.hyps(2) by auto
  obtain f p where fp: "pmm64_alloc_frame (fs_pmm s) = (f, p)" by fastforce
  show ?case
  proof (cases "f = 0")
    case True
    then show ?thesis using Suc.prems k(2) fp by (subst (asm) frames_loop.simps) (auto simp: Let_def)
  next
    case False
    define u where "u = nupd n (\<lambda>x. x\<lparr>farray := (farray x)(got := f)\<rparr>)
                         (set_mem (put_bytes (f div 4096) 0 (replicate 4096 0) (fs_mem (set_pmm p s))) (set_pmm p s))"
    have "frames_loop n (got + 1) need u = (ok, t)"
      using Suc.prems k(2) fp False by (subst (asm) frames_loop.simps) (simp add: Let_def u_def)
    from Suc.hyps(1) [OF k(1) this] show ?thesis by (simp add: u_def)
  qed
qed

lemma frame_array_returns:
  assumes "heap_ok s" and need: "0 < need" "need \<le> 2 ^ 32" and "fcap (nodes s n) < 2 ^ 63"
  shows "\<exists>ok t. frame_array n need s = Some (ok, t) \<and> fsize (nodes t n) = fsize (nodes s n) \<and> dbytes (nodes t n) = dbytes (nodes s n)
          \<and> (ok \<and> fcap (nodes s n) = 0 \<longrightarrow> frames (nodes t n) \<noteq> 0)"
proof (cases "need > fcap (nodes s n)")
  case True
  let ?c0 = "if fcap (nodes s n) \<noteq> 0 then fcap (nodes s n) else 16"
  have "0 < ?c0" "?c0 < 2 ^ 63" using assms(4) by auto
  then obtain cap where cap: "double_until ?c0 need = Some cap" "need \<le> cap" "?c0 \<le> cap" "cap = ?c0 \<or> cap < 2 * need"
    using double_until_stops [of ?c0 need] need(2) by fastforce
  then have c: "0 < mul64 cap 8" "mul64 cap 8 \<le> 2 ^ 45" using True need by (auto simp: mul64_def split: if_splits)
  obtain p t where t: "fs_malloc (mul64 cap 8) s = Some (p, t)" "t = s\<lparr>kh := kh t\<rparr>"
    using fs_malloc_returns [OF assms(1) c] by blast
  then have "nodes t = nodes s" by (metis ramfs.select_convs(2) ramfs.surjective ramfs.update_convs(6))
  then show ?thesis using t(1) True cap(1) by (cases "p = 0") (auto simp: frame_array_def Let_def)
qed (use need in \<open>auto simp: frame_array_def\<close>)

lemma block_to_frames_returns:
  assumes "fsize (nodes s n) \<le> length (dbytes (nodes s n))"
  shows "\<exists>t. block_to_frames n s = Some (True, t) \<and> frames (nodes t n) = frames (nodes s n)"
  using assms by (auto simp: block_to_frames_def Let_def)

lemma make_framed_returns:
  assumes "heap_ok s" and b: "fsize (nodes s n) \<le> length (dbytes (nodes s n))" and "bytes \<le> 2 ^ 43" and "fcap (nodes s n) < 2 ^ 63"
  shows "\<exists>ok t. make_framed n bytes s = Some (ok, t) \<and> (ok \<and> fcap (nodes s n) = 0 \<longrightarrow> frames (nodes t n) \<noteq> 0)"
proof -
  define need where "need = (if add64 bytes 4095 div 4096 = 0 then 1 else add64 bytes 4095 div 4096)"
  have need: "0 < need" "need \<le> 2 ^ 32" using assms(3) by (auto simp: need_def add64_exact)
  obtain ok t where t: "frame_array n need s = Some (ok, t)" "fsize (nodes t n) = fsize (nodes s n)" "dbytes (nodes t n) = dbytes (nodes s n)"
    "ok \<and> fcap (nodes s n) = 0 \<longrightarrow> frames (nodes t n) \<noteq> 0" using frame_array_returns [OF assms(1) need assms(4)] by blast
  obtain ok' u where u: "frames_loop n (nframes (nodes t n)) need t = (ok', u)" by fastforce
  note fl = frames_loop_nodes [OF u]
  obtain v where v: "block_to_frames n (nupd n (\<lambda>x. x\<lparr>nframes := need\<rparr>) u) = Some (True, v)" "frames (nodes v n) = frames (nodes u n)"
    using block_to_frames_returns [of "nupd n (\<lambda>x. x\<lparr>nframes := need\<rparr>) u" n] fl t(2,3) b by auto
  show ?thesis unfolding make_framed_def Let_def need_def [symmetric] using t u fl v by auto
qed


section \<open>A file to try them on\<close>

definition demo_file :: "byte list \<Rightarrow> nat \<Rightarrow> kheap \<Rightarrow> ramfs" where
  "demo_file bs cap h = (nupd 3 (\<lambda>x. x\<lparr>data := KHEAP64_BASE + 32, dbytes := bs @ replicate (cap - length bs) 0,
     fsize := length bs, capacity := cap\<rparr>) ramfs_demo)\<lparr>kh := h\<rparr>"

lemma demo_file_facts:
  assumes "length bs \<le> cap" and "cap \<le> 2 ^ 44"
  shows "valid 3 (demo_file bs cap h)" "\<not> is_dir (nodes (demo_file bs cap h) 3)" "in_block (demo_file bs cap h) 3"
    "fsize (nodes (demo_file bs cap h) 3) = length bs" "capacity (nodes (demo_file bs cap h) 3) = cap"
    "contents (demo_file bs cap h) 3 = bs" "dbytes (nodes (demo_file bs cap h) 3) = bs @ replicate (cap - length bs) 0"
  using assms valid_live [OF demo_ptr, of 3] demo_alive [of 3]
  by (auto simp: demo_file_def valid_def in_block_def contents_def demo_nodes free_entry_def RAMFS64_MAX_NODES_def)

lemma demo_file_heap: "kh (demo_file bs cap h) = h"
  by (simp add: demo_file_def)

text \<open>A heap with one free page on a machine that has no frame left.\<close>

definition kheap_no_frames :: kheap where
  "kheap_no_frames = kheap_page\<lparr>mach := machine_demo\<lparr>pmm := pmm64_zero\<rparr>\<rparr>"

lemma take_block_mach: "mach (snd (take_block b want h)) = mach h"
  by (simp add: take_block_def split_def Let_def blk_upd_def)

lemma no_frames_malloc: "\<exists>p h. kmalloc64 128 kheap_no_frames = Some (p, h) \<and> p \<noteq> 0 \<and> pmm (mach h) = pmm64_zero"
proof -
  define h where "h = kheap_no_frames\<lparr>stat_calls := 1, stat_steps := 1\<rparr>"
  have s: "search KHEAP64_BASE 128 (kheap_no_frames\<lparr>stat_calls := 1\<rparr>) = Some (KHEAP64_BASE, h)"
    by (subst search.simps) (simp add: h_def kheap_no_frames_def kheap_page_def kheap_zero_def KHEAP64_BASE_def add64_def)
  have a: "align_up 128 KHEAP64_ALIGN = 128" "\<not> 128 < MIN_PAYLOAD" "free_head kheap_no_frames = KHEAP64_BASE" "stat_calls kheap_no_frames = 0"
    by (simp_all add: align_up_def KHEAP64_ALIGN_def add64_def MIN_PAYLOAD_def kheap_no_frames_def kheap_page_def kheap_zero_def Let_def)
  have "kmalloc64 128 kheap_no_frames = Some (take_block KHEAP64_BASE 128 h)"
    using s a by (simp add: kmalloc64_def Let_def add64_def KHEAP64_BASE_def)
  moreover have "fst (take_block KHEAP64_BASE 128 h) \<noteq> 0"
    by (simp add: take_block_def payload_def add64_def KHEAP64_BASE_def BLOCK_BYTES_def)
  moreover have "pmm (mach h) = pmm64_zero" by (simp add: h_def kheap_no_frames_def)
  ultimately show ?thesis using take_block_mach [of KHEAP64_BASE 128 h] by (metis prod.collapse)
qed

lemma zero_no_frame: "fst (pmm64_alloc_frame pmm64_zero) = 0"
  by (simp add: pmm64_alloc_frame_def pmm64_zero_def)

lemma take_overwrite:
  "off + length buf \<le> m \<Longrightarrow> off \<le> length xs \<Longrightarrow>
   take (length buf) (drop off (take m (take off xs @ buf @ ys))) = buf"
  by (simp add: drop_take)

section \<open>Properties\<close>




text \<open>\<open>ramfs64_resize\<close> on a file that is one block returns, and either reports \<open>-ENOSPC\<close> with no
  file changed or makes the contents the old ones cut to the new length, or followed by zeros.\<close>

theorem ramfs64_resize_pads_with_zeros:
  assumes "heap_ok s" and v: "valid n s" and d: "\<not> is_dir (nodes s n)" and b: "in_block s n" and l: "len \<le> 2 ^ 43"
  shows "\<exists>r t. ramfs64_resize n len s = Some (r, t)
     \<and> (r = -28 \<and> nodes t = nodes s
        \<or> r = 0 \<and> in_block t n \<and> contents t n = take len (contents s n) @ replicate (len - fsize (nodes s n)) 0)"
proof (cases "len > fsize (nodes s n)")
  case False
  define u where "u = nupd n (\<lambda>x. x\<lparr>fsize := len\<rparr>) s"
  have "ramfs64_resize n len s = Some (0, u)" using False v d by (simp add: ramfs64_resize_def u_def)
  moreover have "in_block u n" using b False by (auto simp: u_def in_block_def)
  moreover have "contents u n = take len (contents s n)" using False by (simp add: contents_def u_def min_def)
  ultimately show ?thesis using False by (intro exI [of _ 0] exI [of _ u]) simp
next
  case grow: True
  have f0: "frames (nodes s n) = 0" using b by (simp add: in_block_def)
  obtain ok t where t: "ensure_capacity n len s = Some (ok, t)" "\<not> ok \<Longrightarrow> nodes t = nodes s"
    "ok \<Longrightarrow> in_block t n \<and> len \<le> capacity (nodes t n) \<and> fsize (nodes t n) = fsize (nodes s n)
       \<and> take (fsize (nodes s n)) (dbytes (nodes t n)) = take (fsize (nodes s n)) (dbytes (nodes s n))"
    using ensure_capacity_spec [OF assms(1) b l] by metis
  show ?thesis
  proof (cases ok)
    case False
    then show ?thesis using grow v d t f0 by (intro exI [of _ "-28"] exI [of _ t]) (simp add: ramfs64_resize_def)
  next
    case True
    note k = t(3) [OF True]
    define u where "u = nupd n (\<lambda>x. x\<lparr>dbytes := take (fsize x) (dbytes x) @ replicate (len - fsize x) 0 @ drop len (dbytes x), fsize := len\<rparr>) t"
    have len: "len \<le> length (dbytes (nodes t n))" using k by (simp add: in_block_def)
    have "ramfs64_resize n len s = Some (0, u)"
      using grow v d t(1) f0 True len by (simp add: ramfs64_resize_def u_def nupd_def Let_def)
    moreover have "in_block u n" using k len grow b by (auto simp: u_def in_block_def min_def)
    moreover have "contents u n = take len (contents s n) @ replicate (len - fsize (nodes s n)) 0"
      using k len grow b by (auto simp: contents_def u_def min_def in_block_def)
    ultimately show ?thesis by (intro exI [of _ 0] exI [of _ u]) simp
  qed
qed

theorem ramfs64_resize_pads_with_zeros_witness:
  "\<exists>r t. ramfs64_resize 3 200 (demo_file [1, 2, 3] 64 kheap_zero) = Some (r, t)"
  using ramfs64_resize_pads_with_zeros [of "demo_file [1, 2, 3] 64 kheap_zero" 3 200] kheap_zero_state
    demo_file_facts(1-3) [of "[1, 2, 3]" 64]
  by (auto simp: heap_ok_def demo_file_heap)


text \<open>A file shortened by \<open>ramfs64_truncate\<close> and then written past its end shows its old bytes
  again below the written range: the gap is not zeroed while the block is large enough.\<close>

theorem ramfs64_truncate_then_write_exposes:
  assumes v: "valid n s" and d: "\<not> is_dir (nodes s n)" and b: "in_block s n"
    and c: "off + length buf \<le> capacity (nodes s n)" "off + length buf \<le> RAMFS64_CONTIGUOUS_MAX"
    and o: "off \<le> fsize (nodes s n)"
  shows "\<exists>t u. ramfs64_truncate n s = (0, t) \<and> ramfs64_write n off buf t = Some (int (length buf), u)
     \<and> ramfs64_read n 0 off u = Some (int off, take off (contents s n))"
proof -
  define t where "t = nupd n (\<lambda>x. x\<lparr>fsize := 0\<rparr>) s"
  have t: "valid n t" "\<not> is_dir (nodes t n)" "in_block t n" using v d b by (auto simp: t_def valid_def in_block_def)
  have e: "ensure_capacity n (off + length buf) t = Some (True, t)" using c by (simp add: ensure_capacity_def t_def Let_def)
  define u where "u = nupd n (\<lambda>x. x\<lparr>dbytes := take off (dbytes x) @ buf @ drop (off + length buf) (dbytes x),
                         fsize := max (fsize x) (off + length buf)\<rparr>) t"
  have w: "ramfs64_write n off buf t = Some (int (length buf), u)" "in_block u n"
    unfolding u_def using write_in_block [OF t e t(3) _ refl c(2)] c(1) by (simp_all add: t_def)
  have u: "valid n u" "\<not> is_dir (nodes u n)" using t by (auto simp: u_def valid_def)
  have "0 + off < 2 ^ 63" using c(2) by (simp add: RAMFS64_CONTIGUOUS_MAX_def)
  from read_block [OF u w(2) this]
  have "ramfs64_read n 0 off u = Some (int off, take off (contents s n))"
    using b c(1) o by (auto simp: contents_def u_def t_def in_block_def min_def)
  then show ?thesis using w(1) v by (auto simp: ramfs64_truncate_def t_def)
qed

theorem ramfs64_truncate_then_write_exposes_witness:
  "\<exists>t u. ramfs64_truncate 3 (demo_file [1, 2, 3] 64 kheap_zero) = (0, t) \<and> ramfs64_write 3 2 [7, 8] t = Some (2, u)
     \<and> ramfs64_read 3 0 2 u = Some (2, [1, 2])"
  using ramfs64_truncate_then_write_exposes [of 3 "demo_file [1, 2, 3] 64 kheap_zero" 2 "[7, 8]"]
    demo_file_facts [of "[1, 2, 3]" 64 kheap_zero] by (simp add: RAMFS64_CONTIGUOUS_MAX_def)


text \<open>\<open>ramfs64_resize\<close> to more than \<open>2^63\<close> bytes never returns: the capacity is doubled until it
  covers the request, wraps to zero on the way and stays there.\<close>

theorem ramfs64_resize_huge_never_returns:
  assumes "valid n s" and "\<not> is_dir (nodes s n)" and "frames (nodes s n) = 0" and "fsize (nodes s n) \<le> capacity (nodes s n)"
    and "capacity (nodes s n) = 0 \<or> (\<exists>k \<le> 63. capacity (nodes s n) = 2 ^ k)" and "2 ^ 63 < len"
  shows "ramfs64_resize n len s = None"
proof -
  have "\<exists>k \<le> 63. (if capacity (nodes s n) \<noteq> 0 then capacity (nodes s n) else 64) = 2 ^ k"
    using assms(5) by (cases "capacity (nodes s n) = 0") (auto intro!: exI [of _ 6])
  then have "double_until (if capacity (nodes s n) \<noteq> 0 then capacity (nodes s n) else 64) len = None"
    using double_until_power [OF assms(6)] by metis
  moreover have "capacity (nodes s n) < len"
  proof -
    have "(2 :: nat) ^ k \<le> 2 ^ 63" if "k \<le> 63" for k using that by (intro power_increasing) auto
    then show ?thesis using assms(5,6) by fastforce
  qed
  ultimately have "ensure_capacity n len s = None" by (simp add: ensure_capacity_def Let_def)
  then show ?thesis using assms \<open>capacity (nodes s n) < len\<close> by (simp add: ramfs64_resize_def)
qed

theorem ramfs64_resize_huge_never_returns_witness:
  "ramfs64_resize 3 0x8000000000000001 (demo_file [1, 2, 3] 64 kheap_zero) = None"
proof (rule ramfs64_resize_huge_never_returns)
  have "(64 :: nat) = 2 ^ 6" by simp
  then show "capacity (nodes (demo_file [1, 2, 3] 64 kheap_zero) 3) = 0
      \<or> (\<exists>k \<le> 63. capacity (nodes (demo_file [1, 2, 3] 64 kheap_zero) 3) = 2 ^ k)"
    using demo_file_facts(5) [of "[1, 2, 3]" 64 kheap_zero] by (intro disjI2 exI [of _ 6]) simp
qed (use demo_file_facts [of "[1, 2, 3]" 64 kheap_zero] in \<open>simp_all add: in_block_def\<close>)

text \<open>When \<open>ramfs64_frames\<close> gets its array but then no frame, it reports failure and leaves the
  file marked as framed with no frames: from then on every read of its bytes claims success and
  delivers nothing, though the block with the data is still there.\<close>

theorem ramfs64_failed_framing_hides_data:
  assumes v: "valid n s" and d: "\<not> is_dir (nodes s n)" and b: "in_block s n"
    and "fs_malloc 128 s = Some (p, t)" and "p \<noteq> 0" and "pmm64_alloc_frame (fs_pmm t) = (0, q)"
    and "fsize (nodes s n) \<le> 65536" and "bytes \<le> 65536"
  shows "\<exists>u. ramfs64_frames n bytes s = Some (None, u) \<and> dbytes (nodes u n) = dbytes (nodes s n)
    \<and> (\<forall>off len. off < fsize (nodes s n) \<and> off + len \<le> fsize (nodes s n) \<longrightarrow> ramfs64_read n off len u = Some (int len, []))"
proof -
  define by' where "by' = (if bytes < fsize (nodes s n) then fsize (nodes s n) else bytes)"
  define need where "need = (if add64 by' 4095 div 4096 = 0 then 1 else add64 by' 4095 div 4096)"
  have need: "0 < need" "need \<le> 16" using assms(7,8) by (auto simp: need_def by'_def add64_exact)
  have bb: "frames (nodes s n) = 0" "fcap (nodes s n) = 0" "nframes (nodes s n) = 0" using b by (auto simp: in_block_def)
  have t: "nodes t = nodes s" "nodes_ptr t = nodes_ptr s" using assms(4) by (cases "kmalloc64 128 (kh s)"; auto simp: fs_malloc_def)+
  have "double_until 16 need = Some 16" using need by (subst double_until.simps) simp
  then have fa: "frame_array n need s = Some (True, nupd n (\<lambda>x. x\<lparr>frames := p,
              farray := (\<lambda>k. if k < nframes x then farray x k else 0), fcap := 16\<rparr>) t)"
    using need bb assms(4,5) t by (simp add: frame_array_def mul64_def)
  define u where "u = set_pmm q (nupd n (\<lambda>x. x\<lparr>frames := p,
              farray := (\<lambda>k. if k < nframes x then farray x k else 0), fcap := 16\<rparr>) t)"
  have "frames_loop n 0 need (nupd n (\<lambda>x. x\<lparr>frames := p,
              farray := (\<lambda>k. if k < nframes x then farray x k else 0), fcap := 16\<rparr>) t) = (False, free_frames [] u)"
    using need assms(6) bb t by (subst frames_loop.simps) (simp add: Let_def fs_pmm_def u_def nupd_def)
  moreover have "free_frames [] u = u" by (simp add: free_frames_def set_pmm_def fs_pmm_def)
  ultimately have "make_framed n by' s = Some (False, u)"
    unfolding make_framed_def Let_def need_def [symmetric] using fa bb t by simp
  then have "ramfs64_frames n bytes s = Some (None, u)" using v d by (simp add: ramfs64_frames_def by'_def)
  moreover have un: "nodes u n = (nodes s n)\<lparr>frames := p, farray := (\<lambda>k. if k < nframes (nodes s n) then farray (nodes s n) k else 0), fcap := 16\<rparr>"
    using t by (simp add: u_def cong: if_cong)
  moreover have "valid n u" using v t by (simp add: u_def valid_def set_pmm_def)
  moreover have "ramfs64_read n off len u = Some (int len, [])" if "off < fsize (nodes s n)" "off + len \<le> fsize (nodes s n)" for off len
  proof -
    have "add64 off len = off + len" "s64 len = int len" using that assms(7) by (simp_all add: add64_exact s64_def)
    moreover have "frame_copy_out M (nodes u n) off len 0 = []" for M
      using bb un by (subst frame_copy_out.simps) (simp add: Let_def)
    ultimately show ?thesis using that assms(5) d un \<open>valid n u\<close> by (simp add: ramfs64_read_def Let_def)
  qed
  ultimately show ?thesis by (intro exI [of _ u]) simp
qed

theorem ramfs64_failed_framing_hides_data_witness:
  "\<exists>u. ramfs64_frames 3 3 (demo_file [1, 2, 3] 64 kheap_no_frames) = Some (None, u)
     \<and> ramfs64_read 3 0 3 u = Some (3, [])"
proof -
  obtain p h where h: "kmalloc64 128 kheap_no_frames = Some (p, h)" "p \<noteq> 0" "pmm (mach h) = pmm64_zero"
    using no_frames_malloc by blast
  then have "fs_malloc 128 (demo_file [1, 2, 3] 64 kheap_no_frames) = Some (p, (demo_file [1, 2, 3] 64 kheap_no_frames)\<lparr>kh := h\<rparr>)"
    by (simp add: fs_malloc_def demo_file_heap)
  from ramfs64_failed_framing_hides_data [OF _ _ _ this h(2), of 3 "snd (pmm64_alloc_frame pmm64_zero)" 3]
  obtain u where "ramfs64_frames 3 3 (demo_file [1, 2, 3] 64 kheap_no_frames) = Some (None, u)"
    "\<forall>off len. off < 3 \<and> off + len \<le> 3 \<longrightarrow> ramfs64_read 3 off len u = Some (int len, [])"
    using demo_file_facts [of "[1, 2, 3]" 64 kheap_no_frames] h(3) zero_no_frame by (auto simp: fs_pmm_def prod_eq_iff)
  then show ?thesis by (intro exI [of _ u]) (metis add_0 le_refl of_nat_numeral zero_less_numeral)
qed

end
