(* ===== verification/Sock64.thy ===== *)
theory Sock64
  imports Pipe64_Refs Ramfs64_Files
begin

text \<open>
  \<^verbatim>\<open>kernel/sock64.c\<close>: Unix-domain sockets, the rendezvous of two processes that have never met. A
  connection is two crossed pipes; the server's half waits in the listener's queue until it is accepted
  or the listener is destroyed. The state is the table of sockets over the state of the pipes.
  The queue owns the ends it holds, and the invariant of the pipes is kept with them.
\<close>

section \<open>State\<close>

definition SOCK64_MAX :: int where "SOCK64_MAX = 32"
definition SOCK64_BACKLOG :: nat where "SOCK64_BACKLOG = 8"

datatype sock_phase = SOCK64_UNBOUND | SOCK64_BOUND | SOCK64_LISTENING | SOCK64_CONNECTED

record sock64 =
  phase :: sock_phase
  snode :: int
  backlog :: nat
  squeue :: "(int \<times> int) list"
  shead :: nat
  scount :: nat
  sused :: bool

record sock_state =
  socks :: "int \<Rightarrow> sock64"
  accepted :: nat
  ps :: pipe_state

definition supd :: "int \<Rightarrow> (sock64 \<Rightarrow> sock64) \<Rightarrow> sock_state \<Rightarrow> sock_state" where
  "supd i f s = s\<lparr>socks := (socks s)(i := f (socks s i))\<rparr>"

section \<open>Operations\<close>

definition sock64_init :: "sock_state \<Rightarrow> sock_state" where
  "sock64_init s = s\<lparr>socks := (\<lambda>i. if 0 \<le> i \<and> i < SOCK64_MAX
     then (socks s i)\<lparr>phase := SOCK64_UNBOUND, snode := -1, backlog := 0, shead := 0, scount := 0, sused := False\<rparr>
     else socks s i), accepted := 0\<rparr>"

definition sock64_valid :: "int \<Rightarrow> sock_state \<Rightarrow> bool" where
  "sock64_valid i s \<longleftrightarrow> i \<ge> 0 \<and> i < SOCK64_MAX \<and> sused (socks s i)"

definition sock64_state :: "int \<Rightarrow> sock_state \<Rightarrow> sock_phase option" where
  "sock64_state i s = (if sock64_valid i s then Some (phase (socks s i)) else None)"

definition sock64_create :: "sock_state \<Rightarrow> int \<times> sock_state" where
  "sock64_create s =
     (case find (\<lambda>i. \<not> sused (socks s (int i))) [0..<nat SOCK64_MAX] of
        None \<Rightarrow> (-1, s)
      | Some i \<Rightarrow> (int i, supd (int i) (\<lambda>q. q\<lparr>phase := SOCK64_UNBOUND, snode := -1, backlog := 0, shead := 0, scount := 0, sused := True\<rparr>) s))"

definition pop_pending :: "sock64 \<Rightarrow> sock64" where
  "pop_pending q = q\<lparr>shead := (shead q + 1) mod SOCK64_BACKLOG, scount := scount q - 1\<rparr>"

text \<open>The loop of \<open>sock64_destroy\<close>, once for every pending connection.\<close>

fun drop_pending :: "nat \<Rightarrow> int \<Rightarrow> sock_state \<Rightarrow> sock_state option" where
  "drop_pending 0 i s = Some s"
| "drop_pending (Suc k) i s =
     (let (rx, tx) = squeue (socks s i) ! shead (socks s i)
      in do {
        p \<leftarrow> pipe64_unref rx True False (ps s);
        p \<leftarrow> pipe64_unref tx False True p;
        drop_pending k i (supd i pop_pending (s\<lparr>ps := p\<rparr>))
      })"

definition sock64_destroy :: "int \<Rightarrow> sock_state \<Rightarrow> sock_state option" where
  "sock64_destroy i s =
     (if \<not> sock64_valid i s then Some s
      else do {
        s \<leftarrow> drop_pending (scount (socks s i)) i s;
        Some (supd i (\<lambda>q. q\<lparr>sused := False, phase := SOCK64_UNBOUND, snode := -1\<rparr>) s)
      })"

definition sock64_bind :: "int \<Rightarrow> int \<Rightarrow> sock_state \<Rightarrow> int \<times> sock_state" where
  "sock64_bind i n s =
     (if \<not> sock64_valid i s then (-9, s)
      else if phase (socks s i) \<noteq> SOCK64_UNBOUND then (-22, s)
      else (0, supd i (\<lambda>q. q\<lparr>snode := n, phase := SOCK64_BOUND\<rparr>) s))"

definition sock64_listen :: "int \<Rightarrow> int \<Rightarrow> sock_state \<Rightarrow> int \<times> sock_state" where
  "sock64_listen i b s =
     (if \<not> sock64_valid i s then (-9, s)
      else if phase (socks s i) \<noteq> SOCK64_BOUND \<and> phase (socks s i) \<noteq> SOCK64_LISTENING then (-22, s)
      else
      (let b = (if b < 1 then 1 else b);
           b = (if b > int SOCK64_BACKLOG then int SOCK64_BACKLOG else b)
       in (0, supd i (\<lambda>q. q\<lparr>backlog := nat b, phase := SOCK64_LISTENING\<rparr>) s)))"

definition sock64_listener_for_node :: "int \<Rightarrow> sock_state \<Rightarrow> int" where
  "sock64_listener_for_node n s =
     (if n < 0 then -1
      else (case find (\<lambda>i. sused (socks s (int i)) \<and> phase (socks s (int i)) = SOCK64_LISTENING \<and> snode (socks s (int i)) = n)
                   [0..<nat SOCK64_MAX] of
              Some i \<Rightarrow> int i | None \<Rightarrow> -1))"

definition sock64_connect :: "int \<Rightarrow> int \<Rightarrow> sock_state \<Rightarrow> (int \<times> (int \<times> int) option \<times> sock_state) option" where
  "sock64_connect i l s =
     (if \<not> sock64_valid i s then Some (-9, None, s)
      else if phase (socks s i) = SOCK64_CONNECTED then Some (-106, None, s)
      else if \<not> sock64_valid l s \<or> phase (socks s l) \<noteq> SOCK64_LISTENING then Some (-111, None, s)
      else if scount (socks s l) \<ge> backlog (socks s l) then Some (-11, None, s)
      else do {
        (a, p) \<leftarrow> pipe64_create (ps s);
        if a < 0 then Some (-23, None, s\<lparr>ps := p\<rparr>)
        else do {
          (b, p) \<leftarrow> pipe64_create p;
          if b < 0
          then do { p \<leftarrow> pipe64_unref a False False p; Some (-23, None, s\<lparr>ps := p\<rparr>) }
          else
          (let p = pipe64_ref b True False p;
               p = pipe64_ref a False True p;
               k = (shead (socks s l) + scount (socks s l)) mod SOCK64_BACKLOG;
               s = supd l (\<lambda>q. q\<lparr>squeue := (squeue q)[k := (a, b)]\<rparr>) s;
               p = pipe64_ref a True False p;
               p = pipe64_ref b False True p;
               s = supd l (\<lambda>q. q\<lparr>scount := scount q + 1\<rparr>) s
           in Some (0, Some (b, a), supd i (\<lambda>q. q\<lparr>phase := SOCK64_CONNECTED\<rparr>) (s\<lparr>ps := p\<rparr>)))
        }
      })"

definition sock64_accept :: "int \<Rightarrow> sock_state \<Rightarrow> int \<times> (int \<times> int) option \<times> sock_state" where
  "sock64_accept i s =
     (if \<not> sock64_valid i s then (-9, None, s)
      else if phase (socks s i) \<noteq> SOCK64_LISTENING then (-22, None, s)
      else if scount (socks s i) = 0 then (-11, None, s)
      else (0, Some (squeue (socks s i) ! shead (socks s i)), (supd i pop_pending s)\<lparr>accepted := add64 (accepted s) 1\<rparr>))"

definition sock64_wait_key :: "int \<Rightarrow> nat" where
  "sock64_wait_key i = nat ((0x4000000000000000 + i) mod 2 ^ 64)"

definition sock64_pending :: "int \<Rightarrow> sock_state \<Rightarrow> nat" where
  "sock64_pending i s = (if sock64_valid i s then scount (socks s i) else 0)"

definition sock64_live :: "sock_state \<Rightarrow> nat" where
  "sock64_live s = length (filter (\<lambda>i. sused (socks s (int i))) [0..<nat SOCK64_MAX])"

definition sock64_accepted :: "sock_state \<Rightarrow> nat" where
  "sock64_accepted s = accepted s"

section \<open>What the queues own\<close>

definition pending_list :: "sock64 \<Rightarrow> (int \<times> int) list" where
  "pending_list q = ring_list (squeue q) (shead q) (scount q)"

definition pair_ends :: "int \<times> int \<Rightarrow> pend multiset" where
  "pair_ends c = {#Rd (fst c), Wr (snd c)#}"

definition queued_ends :: "sock64 \<Rightarrow> pend multiset" where
  "queued_ends q = sum_list (map pair_ends (pending_list q))"

definition open_socks :: "sock_state \<Rightarrow> int set" where
  "open_socks s = {i. sock64_valid i s}"

definition owned :: "sock_state \<Rightarrow> pend multiset" where
  "owned s = (\<Sum>i \<in> open_socks s. queued_ends (socks s i))"

definition sock_ok :: "sock64 \<Rightarrow> bool" where
  "sock_ok q \<longleftrightarrow> length (squeue q) = SOCK64_BACKLOG \<and> shead q < SOCK64_BACKLOG \<and> backlog q \<le> SOCK64_BACKLOG
     \<and> scount q \<le> SOCK64_BACKLOG"

definition sock_inv :: "sock_state \<Rightarrow> pend multiset \<Rightarrow> bool" where
  "sock_inv s H \<longleftrightarrow> (\<forall>i. sock_ok (socks s i)) \<and> pipes_inv (ps s) (owned s + H)"

lemma finite_open [simp]: "finite (open_socks s)"
proof (rule finite_subset)
  show "open_socks s \<subseteq> {0..<SOCK64_MAX}" by (auto simp: open_socks_def sock64_valid_def)
qed simp

lemma supd_fields [simp]: "socks (supd i f s) j = (if j = i then f (socks s i) else socks s j)" "ps (supd i f s) = ps s" "accepted (supd i f s) = accepted s"
  by (simp_all add: supd_def)

lemma owned_remove: "i \<in> open_socks s \<Longrightarrow> owned s = queued_ends (socks s i) + (\<Sum>j \<in> open_socks s - {i}. queued_ends (socks s j))"
  by (simp add: owned_def sum.remove)

lemma owned_cong:
  "open_socks t = open_socks s \<Longrightarrow> (\<And>j. j \<in> open_socks s \<Longrightarrow> queued_ends (socks t j) = queued_ends (socks s j)) \<Longrightarrow> owned t = owned s"
  by (simp add: owned_def cong: sum.cong)

lemma owned_change:
  assumes "i \<in> open_socks s" and "open_socks t = open_socks s" and "\<And>j. j \<noteq> i \<Longrightarrow> socks t j = socks s j"
  shows "owned t + queued_ends (socks s i) = owned s + queued_ends (socks t i)"
proof -
  have "(\<Sum>j \<in> open_socks s - {i}. queued_ends (socks t j)) = (\<Sum>j \<in> open_socks s - {i}. queued_ends (socks s j))"
    using assms(3) by (intro sum.cong) auto
  then show ?thesis using owned_remove [of i s] owned_remove [of i t] assms(1,2) by simp
qed

lemma pop_queue:
  assumes "sock_ok q" and "0 < scount q"
  shows "pending_list q = squeue q ! shead q # pending_list (pop_pending q)" and "sock_ok (pop_pending q)"
proof -
  show "pending_list q = squeue q ! shead q # pending_list (pop_pending q)"
    using assms ring_list_pop [of "scount q" "shead q" "squeue q"] by (simp add: pending_list_def pop_pending_def sock_ok_def)
  show "sock_ok (pop_pending q)" using assms by (auto simp: sock_ok_def pop_pending_def SOCK64_BACKLOG_def)
qed

lemma push_queue:
  assumes "sock_ok q" and "scount q < backlog q"
  defines "k \<equiv> (shead q + scount q) mod SOCK64_BACKLOG"
  shows "pending_list (q\<lparr>squeue := (squeue q)[k := c], scount := scount q + 1\<rparr>) = pending_list q @ [c]"
  using ring_list_push [of "scount q" "squeue q" "shead q" c] assms by (simp add: pending_list_def sock_ok_def)

section \<open>The operations keep the invariant\<close>

lemma sock_invI: "(\<And>i. sock_ok (socks s i)) \<Longrightarrow> pipes_inv (ps s) (owned s + H) \<Longrightarrow> sock_inv s H"
  by (simp add: sock_inv_def)

lemma sock_invD:
  assumes "sock_inv s H"
  shows "sock_ok (socks s i)" "pipes_inv (ps s) (owned s + H)"
  using assms by (auto simp: sock_inv_def)

lemma unref_pair:
  assumes "pipes_inv p (pair_ends (a, b) + H)"
  shows "\<exists>q r. pipe64_unref a True False p = Some q \<and> pipe64_unref b False True q = Some r \<and> pipes_inv r H \<and> settles p r {} {}"
proof -
  have "pipes_inv p (ends a True False + (ends b False True + H))" using assms by (simp add: pair_ends_def ends_def add_mset_commute)
  then obtain q where q: "pipe64_unref a True False p = Some q" "pipes_inv q (ends b False True + H)" "settles p q {} {}"
    using unref_pipes by blast
  then show ?thesis using unref_pipes [OF q(2)] settles_trans [OF q(3)] by blast
qed

lemma pop_owned:
  assumes inv: "sock_inv s H" and v: "sock64_valid i s" and c: "0 < scount (socks s i)"
  shows "owned s = pair_ends (squeue (socks s i) ! shead (socks s i)) + owned (supd i pop_pending s)"
    and "sock_ok (pop_pending (socks s i))"
proof -
  have f: "sused (pop_pending q) = sused q" for q by (simp add: pop_pending_def)
  have o: "open_socks (supd i pop_pending s) = open_socks s" by (auto simp: open_socks_def sock64_valid_def f)
  have m: "i \<in> open_socks s" using v by (simp add: open_socks_def)
  note pq = pop_queue [OF sock_invD(1) [OF inv, of i] c]
  have e: "queued_ends (socks s i) = pair_ends (squeue (socks s i) ! shead (socks s i)) + queued_ends (pop_pending (socks s i))"
    using pq(1) by (simp add: queued_ends_def)
  from owned_change [OF m o] have "owned (supd i pop_pending s) + queued_ends (socks s i) = owned s + queued_ends (pop_pending (socks s i))"
    by simp
  then show "owned s = pair_ends (squeue (socks s i) ! shead (socks s i)) + owned (supd i pop_pending s)" by (simp add: e add.commute)
  show "sock_ok (pop_pending (socks s i))" by (rule pq(2))
qed

lemma owned_ps [simp]: "owned (s\<lparr>ps := p\<rparr>) = owned s" "owned (s\<lparr>accepted := n\<rparr>) = owned s"
  by (simp_all add: owned_def open_socks_def sock64_valid_def)

lemma supd_ps: "supd i f (s\<lparr>ps := p\<rparr>) = (supd i f s)\<lparr>ps := p\<rparr>"
  by (simp add: supd_def)

lemma drop_pending_inv:
  "sock_inv s H \<Longrightarrow> sock64_valid i s \<Longrightarrow> k = scount (socks s i) \<Longrightarrow>
   \<exists>t. drop_pending k i s = Some t \<and> sock_inv t H \<and> scount (socks t i) = 0
     \<and> (\<forall>j. sused (socks t j) = sused (socks s j)) \<and> (\<forall>j. j \<noteq> i \<longrightarrow> socks t j = socks s j) \<and> settles (ps s) (ps t) {} {}"
proof (induction k arbitrary: s)
  case (Suc k)
  obtain a b where ab: "squeue (socks s i) ! shead (socks s i) = (a, b)" by fastforce
  note po = pop_owned [OF Suc.prems(1,2), unfolded ab]
  have c: "0 < scount (socks s i)" using Suc.prems(3) by simp
  have "pipes_inv (ps s) (pair_ends (a, b) + (owned (supd i pop_pending s) + H))"
    using sock_invD(2) [OF Suc.prems(1)] po(1) [OF c] by (simp add: add.assoc)
  then obtain q r where qr: "pipe64_unref a True False (ps s) = Some q" "pipe64_unref b False True q = Some r"
    "pipes_inv r (owned (supd i pop_pending s) + H)" "settles (ps s) r {} {}" using unref_pair by blast
  define u where "u = supd i pop_pending (s\<lparr>ps := r\<rparr>)"
  have u: "socks u j = (if j = i then pop_pending (socks s i) else socks s j)" for j by (simp add: u_def)
  have "sock_inv u H"
  proof (rule sock_invI)
    show "sock_ok (socks u j)" for j using po(2) [OF c] sock_invD(1) [OF Suc.prems(1), of j] by (simp add: u)
    show "pipes_inv (ps u) (owned u + H)" using qr(3) by (simp add: u_def supd_ps)
  qed
  moreover have "sock64_valid i u" using Suc.prems(2) by (simp add: sock64_valid_def u pop_pending_def)
  moreover have "k = scount (socks u i)" using Suc.prems(3) by (simp add: u pop_pending_def)
  ultimately obtain t where t: "drop_pending k i u = Some t" "sock_inv t H" "scount (socks t i) = 0"
    "\<forall>j. sused (socks t j) = sused (socks u j)" "\<forall>j. j \<noteq> i \<longrightarrow> socks t j = socks u j" "settles (ps u) (ps t) {} {}" using Suc.IH by blast
  moreover have "drop_pending (Suc k) i s = Some t" using t(1) qr(1,2) by (simp add: ab u_def)
  moreover have "\<forall>j. sused (socks u j) = sused (socks s j)" by (simp add: u pop_pending_def)
  moreover have "settles (ps s) (ps t) {} {}" using settles_trans [OF qr(4)] t(6) by (simp add: u_def)
  ultimately show ?case using u by (intro exI [of _ t]) auto
qed simp

lemma empty_queue: "scount q = 0 \<Longrightarrow> queued_ends q = {#}"
  by (simp add: queued_ends_def pending_list_def)

lemma destroy_inv:
  assumes inv: "sock_inv s H"
  shows "\<exists>t. sock64_destroy i s = Some t \<and> sock_inv t H \<and> \<not> sock64_valid i t \<and> (\<forall>j. j \<noteq> i \<longrightarrow> socks t j = socks s j)
     \<and> settles (ps s) (ps t) {} {} \<and> (sock64_valid i s \<longrightarrow> owned t + queued_ends (socks s i) = owned s)"
proof (cases "sock64_valid i s")
  case v: True
  obtain t where t: "drop_pending (scount (socks s i)) i s = Some t" "sock_inv t H" "scount (socks t i) = 0"
    "\<forall>j. sused (socks t j) = sused (socks s j)" "\<forall>j. j \<noteq> i \<longrightarrow> socks t j = socks s j" "settles (ps s) (ps t) {} {}" using drop_pending_inv [OF inv v refl] by blast
  define u where "u = supd i (\<lambda>q. q\<lparr>sused := False, phase := SOCK64_UNBOUND, snode := -1\<rparr>) t"
  have o: "open_socks u = open_socks t - {i}" by (auto simp: open_socks_def sock64_valid_def u_def)
  have m: "i \<in> open_socks t" using v t(4) by (simp add: open_socks_def sock64_valid_def)
  have "owned u = owned t"
    using owned_remove [OF m] empty_queue [OF t(3)] by (simp add: owned_def o) (simp add: u_def cong: sum.cong_simp)
  moreover have "owned t + queued_ends (socks s i) = owned s"
  proof -
    have "open_socks t = open_socks s" using t(4) by (simp add: open_socks_def sock64_valid_def)
    then show ?thesis using owned_change [of i s t] m t(5) empty_queue [OF t(3)] by simp
  qed
  moreover have "sock_inv u H" using t(2) \<open>owned u = owned t\<close> by (auto simp: sock_inv_def u_def sock_ok_def)
  moreover have "sock64_destroy i s = Some u" using v t(1) by (simp add: sock64_destroy_def u_def)
  moreover have "ps u = ps t" "\<not> sock64_valid i u" "\<forall>j. j \<noteq> i \<longrightarrow> socks u j = socks s j"
    using t(5) by (simp_all add: u_def sock64_valid_def)
  ultimately show ?thesis using t(6) by (intro exI [of _ u]) simp
qed (use inv in \<open>auto simp: sock64_destroy_def\<close>)

lemma accept_inv:
  assumes inv: "sock_inv s H" and a: "sock64_accept i s = (r, c, t)"
  shows "if sock64_valid i s \<and> phase (socks s i) = SOCK64_LISTENING \<and> pending_list (socks s i) \<noteq> []
    then r = 0 \<and> c = Some (hd (pending_list (socks s i))) \<and> pending_list (socks t i) = tl (pending_list (socks s i))
       \<and> sock_inv t (pair_ends (hd (pending_list (socks s i))) + H) \<and> (\<forall>j. j \<noteq> i \<longrightarrow> socks t j = socks s j)
    else r < 0 \<and> c = None \<and> t = s"
proof (cases "sock64_valid i s \<and> phase (socks s i) = SOCK64_LISTENING \<and> scount (socks s i) \<noteq> 0")
  case True
  then have v: "sock64_valid i s" and c0: "0 < scount (socks s i)" by auto
  note po = pop_owned [OF inv v c0] and pq = pop_queue [OF sock_invD(1) [OF inv, of i] c0]
  have t: "r = 0" "c = Some (squeue (socks s i) ! shead (socks s i))" "t = (supd i pop_pending s)\<lparr>accepted := add64 (accepted s) 1\<rparr>"
    using a True by (auto simp: sock64_accept_def)
  have "pipes_inv (ps t) (owned t + (pair_ends (squeue (socks s i) ! shead (socks s i)) + H))"
    using sock_invD(2) [OF inv] po(1) by (simp add: t add.assoc add.left_commute)
  then have "sock_inv t (pair_ends (squeue (socks s i) ! shead (socks s i)) + H)"
    using po(2) sock_invD(1) [OF inv] by (intro sock_invI) (auto simp: t)
  then show ?thesis using True t pq(1) by auto
next
  case False
  moreover have "pending_list (socks s i) = [] \<longleftrightarrow> scount (socks s i) = 0" by (simp add: pending_list_def flip: length_0_conv)
  ultimately show ?thesis using a by (auto simp: sock64_accept_def split: if_splits)
qed

section \<open>Connecting\<close>

lemma create_other:
  assumes "pipe64_create s = Some (p, t)" and "pipe64_valid q s"
  shows "pipes t q = pipes s q" and "pipe64_valid q t"
proof -
  have "q \<noteq> free_slot s \<or> free_slot s = PIPE64_MAX" using free_slot_cases [of s] assms(2) by (auto simp: pipe64_valid_def)
  then show "pipes t q = pipes s q"
    using assms(1) by (cases "kmalloc64 PIPE64_BUF (kh (fs s))") (auto simp: pipe64_create_def Let_def split: if_splits)
  then show "pipe64_valid q t" using assms(2) by (simp add: pipe64_valid_def)
qed

lemma create_returns:
  assumes "heap_ok (fs s)"
  shows "\<exists>p t. pipe64_create s = Some (p, t) \<and> heap_ok (fs t) \<and> p \<ge> -1"
proof (cases "free_slot s = PIPE64_MAX")
  case False
  obtain A where "kheap_state (kh (fs s)) A" using assms by (auto simp: heap_ok_def)
  from kheap_state_malloc [OF this, of PIPE64_BUF] obtain a h where "kmalloc64 PIPE64_BUF (kh (fs s)) = Some (a, h)" "\<exists>A. kheap_state h A"
    by (auto simp: PIPE64_BUF_def)
  then show ?thesis using False free_slot_cases [of s] by (auto simp: pipe64_create_def Let_def heap_ok_def)
qed (use assms in \<open>auto simp: pipe64_create_def\<close>)

lemma valid_ref [simp]: "pipe64_valid q (pipe64_ref p r w s) = pipe64_valid q s"
  by (auto simp: pipe64_ref_def Let_def pipe64_valid_def)

lemma two_refs:
  assumes inv: "pipes_inv p X" and v: "pipe64_valid a p" "pipe64_valid b p"
  shows "pipes_inv (pipe64_ref b False True (pipe64_ref a True False (pipe64_ref a False True (pipe64_ref b True False p))))
     (pair_ends (a, b) + (X + pair_ends (b, a)))"
proof -
  have "pipes_inv (pipe64_ref b False True (pipe64_ref a True False (pipe64_ref a False True (pipe64_ref b True False p))))
     (X + ends b True False + ends a False True + ends a True False + ends b False True)"
    using v by (intro ref_pipes inv) simp_all
  moreover have "X + ends b True False + ends a False True + ends a True False + ends b False True = pair_ends (a, b) + (X + pair_ends (b, a))"
    by (simp add: ends_def pair_ends_def add_mset_commute)
  ultimately show ?thesis by simp
qed

text \<open>The pair of pipes a connection is made of.\<close>

lemma create_pair:
  assumes inv: "pipes_inv p X" and ho: "heap_ok (fs p)"
  shows "\<exists>a q. pipe64_create p = Some (a, q) \<and> (if a < 0 then pipes_inv q X
     else \<exists>b r. pipe64_create q = Some (b, r) \<and>
       (if b < 0 then \<exists>u. pipe64_unref a False False r = Some u \<and> pipes_inv u X
        else a \<noteq> b \<and> \<not> pipe64_valid a p \<and> \<not> pipe64_valid b p
          \<and> pipes_inv (pipe64_ref b False True (pipe64_ref a True False (pipe64_ref a False True (pipe64_ref b True False r))))
               (pair_ends (a, b) + (X + pair_ends (b, a)))))"
proof -
  obtain a q where q: "pipe64_create p = Some (a, q)" "heap_ok (fs q)" "a \<ge> -1" using create_returns [OF ho] by blast
  note cq = create_pipes [OF inv q(1)]
  show ?thesis
  proof (cases "a < 0")
    case False
    then have a: "pipe64_valid a q" "\<not> pipe64_valid a p" using cq(2) by auto
    obtain b r where r: "pipe64_create q = Some (b, r)" "b \<ge> -1" using create_returns [OF q(2)] by blast
    note cr = create_pipes [OF cq(1) r(1)]
    show ?thesis
    proof (cases "b < 0")
      case True
      have "\<exists>u. pipe64_unref a False False r = Some u \<and> pipes_inv u X"
        using unref_pipes [of r a False False X] cr(1) by (auto simp: ends_def)
      then show ?thesis using q(1) r(1) True False by auto
    next
      case b: False
      then have bv: "pipe64_valid b r" "\<not> pipe64_valid b q" using cr(2) by auto
      have av: "pipe64_valid a r" using create_other(2) [OF r(1) a(1)] .
      have "\<not> pipe64_valid b p" using bv(2) create_other(2) [OF q(1), of b] by blast
      then show ?thesis using q(1) r(1) False b a bv two_refs [OF cr(1) av bv(1)] by auto
    qed
  qed (use q cq in auto)
qed

lemma connect_inv:
  assumes inv: "sock_inv s H" and ho: "heap_ok (fs (ps s))"
  shows "\<exists>r c t. sock64_connect i l s = Some (r, c, t) \<and>
     (case c of None \<Rightarrow> r < 0 \<and> sock_inv t H \<and> socks t = socks s
      | Some (x, y) \<Rightarrow> r = 0 \<and> sock_inv t (H + pair_ends (x, y)) \<and> x \<noteq> y
          \<and> \<not> pipe64_valid x (ps s) \<and> \<not> pipe64_valid y (ps s)
          \<and> phase (socks t i) = SOCK64_CONNECTED \<and> pending_list (socks t l) = pending_list (socks s l) @ [(y, x)]
          \<and> (\<forall>j. j \<noteq> l \<longrightarrow> pending_list (socks t j) = pending_list (socks s j)))"
proof (cases "sock64_valid i s \<and> phase (socks s i) \<noteq> SOCK64_CONNECTED \<and> sock64_valid l s \<and> phase (socks s l) = SOCK64_LISTENING
    \<and> scount (socks s l) < backlog (socks s l)")
  case False
  then have "\<exists>r < 0. sock64_connect i l s = Some (r, None, s)" by (auto simp: sock64_connect_def)
  then show ?thesis using inv by fastforce
next
  case ok: True
  note I = sock_invD [OF inv]
  obtain a q where q: "pipe64_create (ps s) = Some (a, q)" "a < 0 \<Longrightarrow> pipes_inv q (owned s + H)"
    "\<not> a < 0 \<Longrightarrow> \<exists>b r. pipe64_create q = Some (b, r) \<and>
       (if b < 0 then \<exists>u. pipe64_unref a False False r = Some u \<and> pipes_inv u (owned s + H)
        else a \<noteq> b \<and> \<not> pipe64_valid a (ps s) \<and> \<not> pipe64_valid b (ps s)
          \<and> pipes_inv (pipe64_ref b False True (pipe64_ref a True False (pipe64_ref a False True (pipe64_ref b True False r))))
               (pair_ends (a, b) + (owned s + H + pair_ends (b, a))))"
    using create_pair [OF I(2) ho] by (metis (full_types))
  have keep: "sock_inv (s\<lparr>ps := u\<rparr>) H" if "pipes_inv u (owned s + H)" for u using that I(1) by (simp add: sock_inv_def)
  show ?thesis
  proof (cases "a < 0")
    case True
    then have "sock64_connect i l s = Some (-23, None, s\<lparr>ps := q\<rparr>)" using ok q(1) by (simp add: sock64_connect_def)
    then show ?thesis using keep [OF q(2) [OF True]] by simp
  next
    case a: False
    then obtain b r where r: "pipe64_create q = Some (b, r)"
       "if b < 0 then \<exists>u. pipe64_unref a False False r = Some u \<and> pipes_inv u (owned s + H)
        else a \<noteq> b \<and> \<not> pipe64_valid a (ps s) \<and> \<not> pipe64_valid b (ps s)
          \<and> pipes_inv (pipe64_ref b False True (pipe64_ref a True False (pipe64_ref a False True (pipe64_ref b True False r))))
               (pair_ends (a, b) + (owned s + H + pair_ends (b, a)))" using q(3) by blast
    show ?thesis
    proof (cases "b < 0")
      case True
      then obtain u where u: "pipe64_unref a False False r = Some u" "pipes_inv u (owned s + H)" using r(2) by auto
      then have "sock64_connect i l s = Some (-23, None, s\<lparr>ps := u\<rparr>)" using ok q(1) a r(1) True by (simp add: sock64_connect_def)
      then show ?thesis using keep [OF u(2)] by simp
    next
      case b: False
      define p where "p = pipe64_ref b False True (pipe64_ref a True False (pipe64_ref a False True (pipe64_ref b True False r)))"
      have ab: "a \<noteq> b" "\<not> pipe64_valid a (ps s)" "\<not> pipe64_valid b (ps s)" "pipes_inv p (pair_ends (a, b) + (owned s + H + pair_ends (b, a)))"
        using r(2) b by (auto simp: p_def)
      define k where "k = (shead (socks s l) + scount (socks s l)) mod SOCK64_BACKLOG"
      define ql where "ql = (socks s l)\<lparr>squeue := (squeue (socks s l))[k := (a, b)], scount := scount (socks s l) + 1\<rparr>"
      define t where "t = supd i (\<lambda>q. q\<lparr>phase := SOCK64_CONNECTED\<rparr>) ((supd l (\<lambda>_. ql) s)\<lparr>ps := p\<rparr>)"
      have "sock64_connect i l s = Some (0, Some (b, a), t)"
        using ok q(1) a r(1) b by (simp add: sock64_connect_def Let_def t_def p_def k_def ql_def supd_def)
      moreover have pl: "pending_list ql = pending_list (socks s l) @ [(a, b)]"
        using push_queue [OF I(1) [of l]] ok unfolding ql_def k_def by blast
      moreover have pt: "pending_list (socks t j) = (if j = l then pending_list ql else pending_list (socks s j))" for j
        by (simp add: t_def pending_list_def)
      moreover have "sock_inv t (H + pair_ends (b, a))"
      proof (rule sock_invI)
        have o: "open_socks t = open_socks s" by (auto simp: open_socks_def sock64_valid_def t_def ql_def)
        define t' where "t' = supd l (\<lambda>_. ql) s"
        have o': "open_socks t' = open_socks s" by (auto simp: open_socks_def sock64_valid_def t'_def ql_def)
        have "owned t = owned t'"
          using pt unfolding t'_def by (intro owned_cong) (simp_all add: o o' [unfolded t'_def] queued_ends_def)
        moreover have "l \<in> open_socks s" using ok by (simp add: open_socks_def)
        then have "owned t' + queued_ends (socks s l) = owned s + queued_ends ql"
          using owned_change [of l s t'] o' by (simp add: t'_def)
        then have "owned t' = owned s + pair_ends (a, b)" using pl by (simp add: queued_ends_def)
        ultimately show "pipes_inv (ps t) (owned t + (H + pair_ends (b, a)))"
          using ab(4) by (simp add: t_def add.assoc add.left_commute)
        have "sock_ok ql" using I(1) [of l] ok by (simp add: sock_ok_def ql_def)
        then show "sock_ok (socks t j)" for j using I(1) by (simp add: t_def sock_ok_def)
      qed
      moreover have "phase (socks t i) = SOCK64_CONNECTED" by (simp add: t_def)
      ultimately show ?thesis using ab by (intro exI [of _ 0] exI [of _ "Some (b, a)"] exI [of _ t]) auto
    qed
  qed
qed

section \<open>A listener with one client waiting\<close>

definition open_pipe :: pipe64 where
  "open_pipe = blank_pipe\<lparr>buf := 64, readers := 1, writers := 1, pused := True\<rparr>"

definition blank_sock :: sock64 where
  "blank_sock = \<lparr>phase = SOCK64_UNBOUND, snode = -1, backlog = 0, squeue = replicate SOCK64_BACKLOG (0, 0), shead = 0, scount = 0, sused = False\<rparr>"

definition sock_demo :: sock_state where
  "sock_demo = \<lparr>socks = (\<lambda>_. blank_sock)(0 := blank_sock\<lparr>phase := SOCK64_LISTENING, snode := 3, backlog := 4,
        squeue := (0, 1) # replicate 7 (0, 0), scount := 1, sused := True\<rparr>, 1 := blank_sock\<lparr>sused := True\<rparr>),
     accepted = 0,
     ps = \<lparr>pipes = (\<lambda>_. blank_pipe)(0 := open_pipe, 1 := open_pipe), said = False, fs = ramfs_demo\<lparr>kh := kheap_zero\<rparr>\<rparr>\<rparr>"

lemma sock_demo_pending: "pending_list (socks sock_demo 0) = [(0, 1)]"
  by (simp add: sock_demo_def pending_list_def ring_list_def blank_sock_def)

lemma sock_demo_open: "sock64_valid i sock_demo \<longleftrightarrow> i = 0 \<or> i = 1"
  by (auto simp: sock64_valid_def sock_demo_def blank_sock_def SOCK64_MAX_def)

lemma sock_demo_owned: "owned sock_demo = {#Rd 0, Wr 1#}"
proof -
  have "open_socks sock_demo = {0, 1}" by (auto simp: open_socks_def sock_demo_open)
  moreover have "pending_list (socks sock_demo 1) = []" by (simp add: sock_demo_def pending_list_def blank_sock_def)
  ultimately show ?thesis by (simp add: owned_def queued_ends_def sock_demo_pending pair_ends_def)
qed

lemma sock_demo_pipes:
  "pipe64_valid q (ps sock_demo) \<longleftrightarrow> q = 0 \<or> q = 1" "flying (ps sock_demo) (in_use (ps sock_demo)) = {#}"
  "q = 0 \<or> q = 1 \<Longrightarrow> readers (pipes (ps sock_demo) q) = 1 \<and> writers (pipes (ps sock_demo) q) = 1"
proof -
  show v: "pipe64_valid q (ps sock_demo) \<longleftrightarrow> q = 0 \<or> q = 1" for q
    by (auto simp: pipe64_valid_def sock_demo_def open_pipe_def blank_pipe_def PIPE64_MAX_def)
  have "flying_ends open_pipe = {#}" by (simp add: flying_ends_def flying_fds_def open_pipe_def blank_pipe_def)
  then have "flying_ends (pipes (ps sock_demo) q) = {#}" if "q = 0 \<or> q = 1" for q using that by (auto simp: sock_demo_def)
  then show "flying (ps sock_demo) (in_use (ps sock_demo)) = {#}" by (auto simp: flying_def in_use_def v intro!: sum.neutral)
  show "q = 0 \<or> q = 1 \<Longrightarrow> readers (pipes (ps sock_demo) q) = 1 \<and> writers (pipes (ps sock_demo) q) = 1"
    by (auto simp: sock_demo_def open_pipe_def)
qed

lemma sock_demo_inv: "sock_inv sock_demo {#Rd 1, Wr 0#}"
proof (rule sock_invI)
  show "sock_ok (socks sock_demo i)" for i by (simp add: sock_ok_def sock_demo_def blank_sock_def SOCK64_BACKLOG_def)
  show "pipes_inv (ps sock_demo) (owned sock_demo + {#Rd 1, Wr 0#})"
  proof (rule pipes_invI)
    show "ends_count (ps sock_demo) e = int (count (owned sock_demo + {#Rd 1, Wr 0#}) e) + int (count (flying (ps sock_demo) (in_use (ps sock_demo))) e)" for e
      unfolding sock_demo_pipes(2) sock_demo_owned using sock_demo_pipes(3) by (cases e) (auto simp: ends_count_def sock_demo_pipes(1))
    show "slot_ok (pipes (ps sock_demo) p)" for p
      using blank_slot blank_ring by (simp add: sock_demo_def open_pipe_def slot_ok_def queue_ok_def)
    show "ramfs_ok (fs (ps sock_demo))" using ramfs_ok_heap [OF ramfs_demo_ok] by (simp add: sock_demo_def)
  qed
qed

lemma sock_demo_heap: "heap_ok (fs (ps sock_demo))"
  using kheap_zero_state by (auto simp: heap_ok_def sock_demo_def)

section \<open>Properties\<close>



lemma flying_shrinks:
  assumes "settles s t {} {}"
  shows "flying t (in_use t) \<subseteq># flying s (in_use s)"
proof -
  have "flying t (in_use t) = flying s (in_use t)"
    by (rule flying_cong) (use assms same_body_flying in \<open>auto simp: settles_def\<close>)
  then show ?thesis using flying_mono [of "in_use t" "in_use s" s] assms by (simp add: settles_def)
qed

text \<open>Destroying a socket returns and gives back the connections nobody accepted. A client whose
  connection was among them, and which alone holds the other half, is told so: the pipe it reads has no
  writer left, so that a read of it never asks to wait, and reports end of file once what is in the pipe
  has been read.\<close>

theorem sock64_destroy_tells_clients:
  assumes inv: "sock_inv s H" and v: "sock64_valid i s" and ab: "(a, b) \<in> set (pending_list (socks s i))"
    and h: "Rd b \<in># H" "0 \<le> b" and one: "count (owned s + H + flying (ps s) (in_use (ps s))) (Wr b) = 1"
  shows "\<exists>t r ys q. sock64_destroy i s = Some t \<and> sock_inv t H \<and> \<not> sock64_valid i t
    \<and> pipe64_read b n (ps t) = Some (r, ys, q) \<and> (if content_of b (ps t) = [] then r = 0 else r = int (min n (length (content_of b (ps t)))))"
proof -
  obtain t where t: "sock64_destroy i s = Some t" "sock_inv t H" "\<not> sock64_valid i t" "settles (ps s) (ps t) {} {}"
    "owned t + queued_ends (socks s i) = owned s" using destroy_inv [OF inv, of i] v by blast
  have "Wr b \<in># queued_ends (socks s i)"
    using ab by (auto simp: queued_ends_def pair_ends_def in_set_conv_decomp)
  then have "0 < count (queued_ends (socks s i)) (Wr b)" by simp
  then have z: "count (owned t) (Wr b) = 0" "count H (Wr b) = 0" "count (flying (ps s) (in_use (ps s))) (Wr b) = 0"
    using one unfolding t(5) [symmetric] count_union by linarith+
  then have "count (flying (ps t) (in_use (ps t))) (Wr b) = 0"
    using mset_subset_eq_count [OF flying_shrinks [OF t(4)], of "Wr b"] by simp
  then have w: "ends_count (ps t) (Wr b) = 0" using pipes_invD(3) [OF sock_invD(2) [OF t(2)], of "Wr b"] z h(2) by simp
  have bv: "pipe64_valid b (ps t)" using held_in_use [OF sock_invD(2) [OF t(2)], of "Rd b"] h by simp
  then have "writers (pipes (ps t) b) = 0" using w by (simp add: ends_count_def)
  moreover have "ring_ok (pipes (ps t) b)"
    using pipes_invD(2) [OF sock_invD(2) [OF t(2)], of b] bv by (simp add: slot_ok_def pipe64_valid_def)
  ultimately obtain r ys q where "pipe64_read b n (ps t) = Some (r, ys, q)"
    "r = (if plen (pipes (ps t) b) = 0 then 0 else int (min n (plen (pipes (ps t) b))))"
    using pipe64_read_spec [OF bv, of n] by auto
  moreover have "content_of b (ps t) = [] \<longleftrightarrow> plen (pipes (ps t) b) = 0" "length (content_of b (ps t)) = plen (pipes (ps t) b)"
    by (auto simp: content_of_def simp flip: length_0_conv)
  ultimately show ?thesis using t(1-3) by (intro exI [of _ t] exI [of _ r] exI [of _ ys] exI [of _ q]) simp
qed

theorem sock64_destroy_tells_clients_witness:
  "\<exists>t r ys q. sock64_destroy 0 sock_demo = Some t \<and> pipe64_read 1 10 (ps t) = Some (r, ys, q)"
  using sock64_destroy_tells_clients [OF sock_demo_inv, of 0 0 1 10] sock_demo_open [of 0]
  by (auto simp: sock_demo_pending sock_demo_owned sock_demo_pipes(2))

text \<open>\<open>sock64_connect\<close> does not refuse a socket that is listening. It becomes connected, the clients
  waiting in its queue stay there, and no \<open>sock64_accept\<close> will ever take them.\<close>

theorem sock64_connect_strands_pending:
  assumes "sock64_valid i s" and "phase (socks s i) = SOCK64_LISTENING" and "sock64_connect i l s = Some (0, c, t)" and "i \<noteq> l"
  shows "pending_list (socks t i) = pending_list (socks s i) \<and> sock64_accept i t = (-22, None, t)"
proof -
  have "socks t i = (socks s i)\<lparr>phase := SOCK64_CONNECTED\<rparr>"
    using assms by (auto simp: sock64_connect_def Let_def split: if_splits bind_splits)
  then show ?thesis using assms(1) by (simp add: pending_list_def sock64_accept_def sock64_valid_def)
qed

end
