(* ===== verification/Vmspace64.thy ===== *)
theory Vmspace64
  imports Kheap64
begin

text \<open>
  \<^verbatim>\<open>kernel/vmspace64.c\<close>: one PML4 per process, sharing the kernel's half, and copy-on-write.

  Tables reached through the recursive window are loads and stores at virtual addresses, as in
  \<open>Paging64\<close>; tables and pages reached through the direct map (\<open>table_at\<close>, \<open>phys64_to_virt\<close>) are accesses
  to the frame itself, so a pointer to an entry is the pair of a frame and an index. The zero
  page that every reservation shares is the argument \<open>z\<close>, the value of \<open>uspace64_zero_frame()\<close>. Loading CR3 with
  the value it has and \<open>invlpg\<close> only concern the TLB and leave no trace.
\<close>

unbundle bit_operations_syntax

section \<open>Loops\<close>

text \<open>A loop that stops at the first iteration whose body says so.\<close>

fun until :: "('a \<Rightarrow> 's \<Rightarrow> bool \<times> 's) \<Rightarrow> 'a list \<Rightarrow> 's \<Rightarrow> bool \<times> 's" where
  "until f [] s = (True, s)"
| "until f (x # xs) s = (let (ok, s) = f x s in if ok then until f xs s else (False, s))"

text \<open>A loop whose body may fault.\<close>

fun walk_all :: "('a \<Rightarrow> 's \<Rightarrow> 's option) \<Rightarrow> 'a list \<Rightarrow> 's \<Rightarrow> 's option" where
  "walk_all f [] s = Some s"
| "walk_all f (x # xs) s = do { s \<leftarrow> f x s; walk_all f xs s }"

section \<open>State\<close>

definition KERNEL_HALF :: nat where "KERNEL_HALF = 256"
definition SCRATCH_VA :: u64 where "SCRATCH_VA = 0xFFFFC00000001000"
definition LIVE_MAX :: nat where "LIVE_MAX = 1024"
definition CLONE_MAX_PAGES :: nat where "CLONE_MAX_PAGES = 4096"
definition USER_TOP :: u64 where "USER_TOP = 0x0000800000000000"

record vmstate =
  heap :: kheap
  live :: "u64 list"
  live_untracked :: nat

definition upm :: "(machine \<Rightarrow> machine) \<Rightarrow> vmstate \<Rightarrow> vmstate" where
  "upm f s = s\<lparr>heap := (heap s)\<lparr>mach := f (mach (heap s))\<rparr>\<rparr>"

definition set_mach :: "machine \<Rightarrow> vmstate \<Rightarrow> vmstate" where
  "set_mach m = upm (\<lambda>_. m)"

definition free_to :: "u64 \<Rightarrow> machine \<Rightarrow> machine" where
  "free_to a m = m\<lparr>pmm := pmm64_free_frame (unat a) (pmm m)\<rparr>"

definition vmspace64_current_phys :: "machine \<Rightarrow> u64" where
  "vmspace64_current_phys m = cr3 m AND ADDR_MASK"

definition vmspace64_kernel_space :: "machine \<Rightarrow> u64" where
  "vmspace64_kernel_space m = cr3 m AND ADDR_MASK"

definition vmspace64_switch :: "u64 \<Rightarrow> machine \<Rightarrow> machine" where
  "vmspace64_switch vs m = m\<lparr>cr3 := vs\<rparr>"

section \<open>The spaces that exist\<close>

definition live_add :: "u64 \<Rightarrow> vmstate \<Rightarrow> vmstate" where
  "live_add p s = (if length (live s) < LIVE_MAX then s\<lparr>live := live s @ [p]\<rparr>
                   else s\<lparr>live_untracked := add64 (live_untracked s) 1\<rparr>)"

text \<open>The last entry is moved into the place of the one removed.\<close>

fun remove_swap :: "u64 \<Rightarrow> u64 list \<Rightarrow> u64 list" where
  "remove_swap p [] = []"
| "remove_swap p (x # xs) = (if x = p then (if xs = [] then [] else last xs # butlast xs) else x # remove_swap p xs)"

definition live_remove :: "u64 \<Rightarrow> vmstate \<Rightarrow> bool \<times> vmstate" where
  "live_remove p s = (p \<in> set (live s), s\<lparr>live := remove_swap p (live s)\<rparr>)"

definition vmspace64_live_count :: "vmstate \<Rightarrow> nat" where
  "vmspace64_live_count s = length (live s)"

section \<open>Creating a space and mapping into it\<close>

definition vmspace64_create :: "vmstate \<Rightarrow> ((bool \<times> u64) \<times> vmstate) option" where
  "vmspace64_create s =
     (let m = mach (heap s); (frame, p) = pmm64_alloc_frame (pmm m); m = m\<lparr>pmm := p\<rparr>
      in if frame = 0 then Some ((False, 0), set_mach m s)
         else do {
           (rc, m) \<leftarrow> paging64_map SCRATCH_VA (of_nat frame) (PAGE64_PRESENT OR PAGE64_WRITE) m;
           if rc \<noteq> PAGING64_OK then Some ((False, 0), set_mach (free_to (of_nat frame) m) s)
           else do {
             m \<leftarrow> zero_table SCRATCH_VA m;
             m \<leftarrow> walk_all (\<lambda>i m. do { e \<leftarrow> vload m pml4_addr (of_nat i); vstore m SCRATCH_VA (of_nat i) e }) [KERNEL_HALF..<512] m;
             m \<leftarrow> vstore m SCRATCH_VA REC (of_nat frame OR PAGE64_PRESENT OR PAGE64_WRITE);
             (rc, m) \<leftarrow> paging64_unmap SCRATCH_VA m;
             Some ((True, of_nat frame), live_add (of_nat frame) (set_mach m s))
           }
         })"

definition vmspace64_map :: "u64 \<Rightarrow> u64 \<Rightarrow> u64 \<Rightarrow> u64 \<Rightarrow> machine \<Rightarrow> (rc \<times> machine) option" where
  "vmspace64_map vs virt phys flags m =
     (let saved = cr3 m
      in if saved AND ADDR_MASK = vs then paging64_map virt phys flags m
         else do {
           (rc, m) \<leftarrow> paging64_map virt phys flags (m\<lparr>cr3 := vs\<rparr>);
           Some (rc, m\<lparr>cr3 := saved\<rparr>)
         })"

section \<open>Taking a space apart\<close>

text \<open>The recursive addresses of the tables below entries \<open>a\<close>, \<open>b\<close> and \<open>c\<close>.\<close>

definition rec_pdpt :: "nat \<Rightarrow> u64" where
  "rec_pdpt a = SIGN_EXT OR push_bit 39 REC OR push_bit 30 REC OR push_bit 21 REC OR push_bit 12 (of_nat a)"

definition rec_pd :: "nat \<Rightarrow> nat \<Rightarrow> u64" where
  "rec_pd a b = SIGN_EXT OR push_bit 39 REC OR push_bit 30 REC OR push_bit 21 (of_nat a) OR push_bit 12 (of_nat b)"

definition rec_pt :: "nat \<Rightarrow> nat \<Rightarrow> nat \<Rightarrow> u64" where
  "rec_pt a b c = SIGN_EXT OR push_bit 39 REC OR push_bit 30 (of_nat a) OR push_bit 21 (of_nat b) OR push_bit 12 (of_nat c)"

definition free_page :: "u64 \<Rightarrow> u64 \<Rightarrow> nat \<Rightarrow> machine \<Rightarrow> machine option" where
  "free_page z pt d m = do {
     pte \<leftarrow> vload m pt (of_nat d);
     Some (if \<not> has pte PAGE64_PRESENT then m
           else if pte AND ADDR_MASK = z then m else free_to (pte AND ADDR_MASK) m)
   }"

definition free_pt :: "u64 \<Rightarrow> nat \<Rightarrow> nat \<Rightarrow> nat \<Rightarrow> machine \<Rightarrow> machine option" where
  "free_pt z a b c m = do {
     pde \<leftarrow> vload m (rec_pd a b) (of_nat c);
     if \<not> has pde PAGE64_PRESENT \<or> has pde PAGE64_HUGE then Some m
     else do {
       m \<leftarrow> walk_all (free_page z (rec_pt a b c)) [0..<512] m;
       Some (free_to (pde AND ADDR_MASK) m)
     }
   }"

definition free_pd :: "u64 \<Rightarrow> nat \<Rightarrow> nat \<Rightarrow> machine \<Rightarrow> machine option" where
  "free_pd z a b m = do {
     pdpte \<leftarrow> vload m (rec_pdpt a) (of_nat b);
     if \<not> has pdpte PAGE64_PRESENT \<or> has pdpte PAGE64_HUGE then Some m
     else do {
       m \<leftarrow> walk_all (free_pt z a b) [0..<512] m;
       Some (free_to (pdpte AND ADDR_MASK) m)
     }
   }"

definition free_pdpt :: "u64 \<Rightarrow> nat \<Rightarrow> machine \<Rightarrow> machine option" where
  "free_pdpt z a m = do {
     pml4e \<leftarrow> vload m pml4_addr (of_nat a);
     if \<not> has pml4e PAGE64_PRESENT then Some m
     else do {
       m \<leftarrow> walk_all (free_pd z a) [0..<512] m;
       vstore (free_to (pml4e AND ADDR_MASK) m) pml4_addr (of_nat a) 0
     }
   }"

definition free_low_half_tables :: "u64 \<Rightarrow> machine \<Rightarrow> machine option" where
  "free_low_half_tables z m = walk_all (free_pdpt z) [0..<KERNEL_HALF] m"

text \<open>The first component is the descriptor \<open>vs\<close> afterwards.\<close>

definition vmspace64_destroy :: "u64 \<Rightarrow> u64 \<Rightarrow> vmstate \<Rightarrow> (u64 \<times> vmstate) option" where
  "vmspace64_destroy z vs s =
     (let saved = cr3 (mach (heap s))
      in if vs = 0 then Some (vs, s)
         else if saved AND ADDR_MASK = vs then Some (vs, s)
         else
         (let (found, s) = live_remove vs s
          in if \<not> found then Some (0, s)
             else do {
               m \<leftarrow> free_low_half_tables z ((mach (heap s))\<lparr>cr3 := vs\<rparr>);
               Some (0, set_mach (free_to vs (m\<lparr>cr3 := saved\<rparr>)) s)
             }))"

partial_function (option) reclaim_loop :: "u64 \<Rightarrow> (u64 \<Rightarrow> bool) \<Rightarrow> u64 \<Rightarrow> nat \<Rightarrow> nat \<Rightarrow> vmstate \<Rightarrow> (nat \<times> vmstate) option" where
  "reclaim_loop z in_use cur i n s =
     (if i < length (live s)
      then (if live s ! i = cur \<or> in_use (live s ! i) then reclaim_loop z in_use cur (i + 1) n s
            else do { (vs, s) \<leftarrow> vmspace64_destroy z (live s ! i) s; reclaim_loop z in_use cur i (n + 1) s })
      else Some (n, s))"

definition vmspace64_reclaim_unused :: "u64 \<Rightarrow> (u64 \<Rightarrow> bool) \<Rightarrow> vmstate \<Rightarrow> (nat \<times> vmstate) option" where
  "vmspace64_reclaim_unused z in_use s = reclaim_loop z in_use (cr3 (mach (heap s)) AND ADDR_MASK) 0 0 s"

section \<open>Entries through the direct map\<close>

definition clear_frame :: "nat \<Rightarrow> machine \<Rightarrow> machine" where
  "clear_frame f m = m\<lparr>mem := (mem m)(f := (\<lambda>i. if i < 512 then 0 else mem m f i))\<rparr>"

definition copy_frame :: "nat \<Rightarrow> nat \<Rightarrow> machine \<Rightarrow> machine" where
  "copy_frame dst src m = m\<lparr>mem := (mem m)(dst := (\<lambda>i. if i < 512 then mem m src i else mem m dst i))\<rparr>"

text \<open>One level of the loop of \<open>pte_for\<close>: the table below entry \<open>i\<close> of table \<open>t\<close>.\<close>

definition pte_level :: "bool \<Rightarrow> nat \<Rightarrow> nat \<Rightarrow> machine \<Rightarrow> nat option \<times> machine" where
  "pte_level create t i m =
     (let e = mem m t i
      in if \<not> has e PAGE64_PRESENT
         then (if \<not> create then (None, m)
               else
               (let (fresh, p) = pmm64_alloc_frame (pmm m); m = m\<lparr>pmm := p\<rparr>
                in if fresh = 0 then (None, m)
                   else
                   (let m = clear_frame (fresh div 4096) m;
                        e = of_nat fresh OR PAGE64_PRESENT OR PAGE64_WRITE OR PAGE64_USER;
                        m = store_word t i e m
                    in if has e PAGE64_HUGE then (None, m) else (Some (frame_of e), m))))
         else if has e PAGE64_HUGE then (None, m) else (Some (frame_of e), m))"

definition pte_for :: "u64 \<Rightarrow> u64 \<Rightarrow> bool \<Rightarrow> machine \<Rightarrow> (nat \<times> nat) option \<times> machine" where
  "pte_for pml4_phys va create m =
     (case pte_level create (frame_of pml4_phys) (unat (PML4_IDX va)) m of
        (None, m) \<Rightarrow> (None, m)
      | (Some t, m) \<Rightarrow>
     (case pte_level create t (unat (PDPT_IDX va)) m of
        (None, m) \<Rightarrow> (None, m)
      | (Some t, m) \<Rightarrow>
     (case pte_level create t (unat (PD_IDX va)) m of
        (None, m) \<Rightarrow> (None, m)
      | (Some t, m) \<Rightarrow> (Some (t, unat (PT_IDX va)), m))))"

definition get_entry :: "nat \<times> nat \<Rightarrow> machine \<Rightarrow> u64" where
  "get_entry p m = mem m (fst p) (snd p)"

definition set_entry :: "nat \<times> nat \<Rightarrow> u64 \<Rightarrow> machine \<Rightarrow> machine" where
  "set_entry p e m = store_word (fst p) (snd p) e m"

definition share_flags :: "u64 \<Rightarrow> u64" where
  "share_flags pte =
     (let f = (pte AND NOT ADDR_MASK) AND NOT PAGE64_WRITE;
          f = f OR PAGE64_COW
      in if has pte PAGE64_WRITE then f OR PAGE64_COW_RW else f)"

section \<open>Sharing a space copy-on-write\<close>

text \<open>The body of the innermost loop of \<open>vmspace64_clone_cow\<close>, for entry \<open>d\<close> of the source's table \<open>pt\<close>,
  which describes the page at \<open>va\<close>.\<close>

definition clone_page :: "u64 \<Rightarrow> u64 \<Rightarrow> nat \<Rightarrow> u64 \<Rightarrow> nat \<Rightarrow> machine \<Rightarrow> bool \<times> machine" where
  "clone_page z dst pt va d m =
     (let pte = mem m pt d; frame = pte AND ADDR_MASK
      in if \<not> has pte PAGE64_PRESENT then (True, m)
         else
         (case pte_for dst va True m of
            (None, m) \<Rightarrow> (False, m)
          | (Some dpte, m) \<Rightarrow>
              if \<not> pmm64_owns (unat frame) (pmm m) then (True, set_entry dpte pte m)
              else if frame = z then (True, set_entry dpte pte m)
              else
              (let (shared, p) = (if has pte PAGE64_SHARED then pmm64_ref_frame (unat frame) (pmm m) else (False, pmm m));
                   m = m\<lparr>pmm := p\<rparr>
               in if shared then (True, set_entry dpte pte m)
                  else
                  (let (ok, p) = pmm64_ref_frame (unat frame) (pmm m); m = m\<lparr>pmm := p\<rparr>
                   in if ok
                      then (True, set_entry dpte (frame OR share_flags pte) (store_word pt d (frame OR share_flags pte) m))
                      else
                      (let (fresh, p) = pmm64_alloc_high (pmm m); m = m\<lparr>pmm := p\<rparr>
                       in if fresh = 0 then (False, m)
                          else (True, set_entry dpte (of_nat fresh OR (pte AND NOT ADDR_MASK))
                                        (copy_frame (fresh div 4096) (frame_of pte) m)))))))"

definition page_va :: "nat \<Rightarrow> nat \<Rightarrow> nat \<Rightarrow> nat \<Rightarrow> u64" where
  "page_va a b c d = push_bit 39 (of_nat a) OR push_bit 30 (of_nat b) OR push_bit 21 (of_nat c) OR push_bit 12 (of_nat d)"

definition clone_pt :: "u64 \<Rightarrow> u64 \<Rightarrow> nat \<Rightarrow> nat \<Rightarrow> nat \<Rightarrow> nat \<Rightarrow> machine \<Rightarrow> bool \<times> machine" where
  "clone_pt z dst a b pd c m =
     (let e = mem m pd c
      in if \<not> has e PAGE64_PRESENT \<or> has e PAGE64_HUGE then (True, m)
         else until (\<lambda>d. clone_page z dst (frame_of e) (page_va a b c d) d) [0..<512] m)"

definition clone_pd :: "u64 \<Rightarrow> u64 \<Rightarrow> nat \<Rightarrow> nat \<Rightarrow> nat \<Rightarrow> machine \<Rightarrow> bool \<times> machine" where
  "clone_pd z dst a pdpt b m =
     (let e = mem m pdpt b
      in if \<not> has e PAGE64_PRESENT \<or> has e PAGE64_HUGE then (True, m)
         else until (clone_pt z dst a b (frame_of e)) [0..<512] m)"

definition clone_pdpt :: "u64 \<Rightarrow> u64 \<Rightarrow> nat \<Rightarrow> nat \<Rightarrow> machine \<Rightarrow> bool \<times> machine" where
  "clone_pdpt z dst pml4 a m =
     (let e = mem m pml4 a
      in if \<not> has e PAGE64_PRESENT then (True, m)
         else if has e PAGE64_HUGE then (False, m)
         else until (clone_pd z dst a (frame_of e)) [0..<512] m)"

definition vmspace64_clone_cow :: "u64 \<Rightarrow> u64 \<Rightarrow> u64 \<Rightarrow> machine \<Rightarrow> bool \<times> machine" where
  "vmspace64_clone_cow z src_pml4 dst m = until (clone_pdpt z dst (frame_of src_pml4)) [0..<KERNEL_HALF] m"

section \<open>Looking for a mapped page\<close>

definition next_span :: "u64 \<Rightarrow> u64 \<Rightarrow> u64" where
  "next_span va skip = (va AND NOT (skip - 1)) + skip"

partial_function (option) next_loop :: "nat \<Rightarrow> u64 \<Rightarrow> u64 \<Rightarrow> machine \<Rightarrow> u64 option" where
  "next_loop pml4 va end m =
     (if va < end
      then
      (let e = mem m pml4 (unat (PML4_IDX va))
       in if \<not> has e PAGE64_PRESENT then next_loop pml4 (next_span va (push_bit 39 1)) end m
          else
      (let e = mem m (frame_of e) (unat (PDPT_IDX va))
       in if \<not> has e PAGE64_PRESENT then next_loop pml4 (next_span va (push_bit 30 1)) end m
          else if has e PAGE64_HUGE then Some va
          else
      (let e = mem m (frame_of e) (unat (PD_IDX va))
       in if \<not> has e PAGE64_PRESENT then next_loop pml4 (next_span va (push_bit 21 1)) end m
          else if has e PAGE64_HUGE then Some va
          else if has (mem m (frame_of e) (unat (PT_IDX va))) PAGE64_PRESENT then Some va
          else next_loop pml4 (next_span va PAGE64_SIZE) end m)))
      else Some end)"

definition vmspace64_next_mapped :: "u64 \<Rightarrow> u64 \<Rightarrow> machine \<Rightarrow> u64 option" where
  "vmspace64_next_mapped va end m = next_loop (frame_of (cr3 m)) (va AND NOT (PAGE64_SIZE - 1)) end m"

section \<open>One page of a space\<close>

definition vmspace64_set_writable :: "u64 \<Rightarrow> u64 \<Rightarrow> bool \<Rightarrow> machine \<Rightarrow> bool \<times> machine" where
  "vmspace64_set_writable z va writable m =
     (case pte_for (cr3 m AND ADDR_MASK) (va AND NOT (PAGE64_SIZE - 1)) False m of
        (None, m) \<Rightarrow> (False, m)
      | (Some p, m) \<Rightarrow>
          (let e = get_entry p m
           in if \<not> has e PAGE64_PRESENT then (False, m)
              else if e AND ADDR_MASK = z \<and> writable
              then (let (fresh, q) = pmm64_alloc_high (pmm m); m = m\<lparr>pmm := q\<rparr>
                    in if fresh = 0 then (False, m)
                       else (True, set_entry p (of_nat fresh OR ((e AND NOT ADDR_MASK) AND NOT (PAGE64_COW OR PAGE64_COW_RW)) OR PAGE64_WRITE)
                                     (clear_frame (fresh div 4096) m)))
              else if has e PAGE64_COW
              then (True, set_entry p ((if writable then e OR PAGE64_COW_RW else e AND NOT PAGE64_COW_RW) AND NOT PAGE64_WRITE) m)
              else (True, set_entry p (if writable then e OR PAGE64_WRITE else e AND NOT PAGE64_WRITE) m)))"

text \<open>Taking a page back from being shared, as both \<open>vmspace64_break_cow\<close> and \<open>vmspace64_user_frame\<close> do:
  the frame it is in afterwards, or nothing when there was no memory for a copy.\<close>

definition unshare :: "nat \<times> nat \<Rightarrow> machine \<Rightarrow> nat option \<times> machine" where
  "unshare p m =
     (let e = get_entry p m; frame = e AND ADDR_MASK;
          flags = ((e AND NOT ADDR_MASK) AND NOT (PAGE64_COW OR PAGE64_COW_RW)) OR PAGE64_WRITE
      in if pmm64_frame_owners (unat frame) (pmm m) > 1
         then (let (fresh, q) = pmm64_alloc_user (pmm m); m = m\<lparr>pmm := q\<rparr>
               in if fresh = 0 then (None, m)
                  else
                  (let m = copy_frame (fresh div 4096) (frame_of e) m;
                       m = free_to frame m
                   in (Some fresh, set_entry p (of_nat fresh OR flags) m)))
         else (Some (unat frame), set_entry p (frame OR flags) m))"

definition vmspace64_user_frame :: "u64 \<Rightarrow> u64 \<Rightarrow> u64 \<Rightarrow> bool \<Rightarrow> machine \<Rightarrow> nat \<times> machine" where
  "vmspace64_user_frame z vs va write m =
     (if vs = 0 then (0, m)
      else if va \<ge> USER_TOP then (0, m)
      else
      (case pte_for vs (va AND NOT (PAGE64_SIZE - 1)) False m of
         (None, m) \<Rightarrow> (0, m)
       | (Some p, m) \<Rightarrow>
           (let e = get_entry p m; frame = e AND ADDR_MASK
            in if \<not> has e PAGE64_PRESENT \<or> \<not> has e PAGE64_USER then (0, m)
               else if \<not> write then (unat frame, m)
               else if frame = z then (0, m)
               else if has e PAGE64_COW
               then (if \<not> has e PAGE64_COW_RW then (0, m)
                     else (case unshare p m of (None, m) \<Rightarrow> (0, m) | (Some f, m) \<Rightarrow> (f, m)))
               else if \<not> has e PAGE64_WRITE then (0, m)
               else (unat frame, m))))"

definition vmspace64_install :: "u64 \<Rightarrow> u64 \<Rightarrow> u64 \<Rightarrow> u64 \<Rightarrow> machine \<Rightarrow> bool \<times> machine" where
  "vmspace64_install vs va frame flags m =
     (if vs = 0 \<or> va \<ge> USER_TOP then (False, m)
      else
      (case pte_for vs (va AND NOT (PAGE64_SIZE - 1)) True m of
         (None, m) \<Rightarrow> (False, m)
       | (Some p, m) \<Rightarrow>
           if has (get_entry p m) PAGE64_PRESENT then (False, m)
           else (True, set_entry p ((frame AND ADDR_MASK) OR flags OR PAGE64_PRESENT) m)))"

text \<open>A 32-bit store into one half of a quadword.\<close>

definition put_u32 :: "nat \<Rightarrow> nat \<Rightarrow> u32 \<Rightarrow> machine \<Rightarrow> machine" where
  "put_u32 f off v m =
     (let w = mem m f (off div 8); k = 8 * (off mod 8)
      in store_word f (off div 8) ((w AND NOT (push_bit k 0xFFFFFFFF)) OR push_bit k (ucast v)) m)"

definition vmspace64_write_u32 :: "u64 \<Rightarrow> u64 \<Rightarrow> u64 \<Rightarrow> u32 \<Rightarrow> machine \<Rightarrow> bool \<times> machine" where
  "vmspace64_write_u32 z vs va v m =
     (if has va 3 then (False, m)
      else
      (let (frame, m) = vmspace64_user_frame z vs va True m
       in if frame = 0 then (False, m)
          else (True, put_u32 (frame div 4096) (unat (va AND (PAGE64_SIZE - 1))) v m)))"

definition vmspace64_break_cow :: "u64 \<Rightarrow> machine \<Rightarrow> bool \<times> machine" where
  "vmspace64_break_cow va m =
     (case pte_for (cr3 m AND ADDR_MASK) (va AND NOT (PAGE64_SIZE - 1)) False m of
        (None, m) \<Rightarrow> (False, m)
      | (Some p, m) \<Rightarrow>
          (let e = get_entry p m
           in if \<not> has e PAGE64_PRESENT \<or> \<not> has e PAGE64_COW then (False, m)
              else if \<not> has e PAGE64_COW_RW then (False, m)
              else (case unshare p m of (None, m) \<Rightarrow> (False, m) | (Some f, m) \<Rightarrow> (True, m))))"

section \<open>Copying a space at once\<close>

record clone_page_t =
  cp_va :: u64
  cp_frame :: u64
  cp_flags :: u64

text \<open>Pass one: what is mapped, read through the recursive window. \<open>None\<close> inside says that the list is full.\<close>

definition list_page :: "u64 \<Rightarrow> nat \<Rightarrow> nat \<Rightarrow> nat \<Rightarrow> machine \<Rightarrow> nat \<Rightarrow> clone_page_t list option \<Rightarrow> clone_page_t list option option" where
  "list_page pt a b c m d l = (case l of None \<Rightarrow> Some None | Some xs \<Rightarrow> do {
     e \<leftarrow> vload m pt (of_nat d);
     Some (if \<not> has e PAGE64_PRESENT then Some xs
           else if length xs = CLONE_MAX_PAGES then None
           else Some (xs @ [\<lparr>cp_va = page_va a b c d, cp_frame = e AND ADDR_MASK,
                             cp_flags = e AND (PAGE64_PRESENT OR PAGE64_WRITE OR PAGE64_USER)\<rparr>]))
   })"

definition list_pt :: "nat \<Rightarrow> nat \<Rightarrow> machine \<Rightarrow> nat \<Rightarrow> clone_page_t list option \<Rightarrow> clone_page_t list option option" where
  "list_pt a b m c l = (case l of None \<Rightarrow> Some None | Some xs \<Rightarrow> do {
     e \<leftarrow> vload m (rec_pd a b) (of_nat c);
     if \<not> has e PAGE64_PRESENT \<or> has e PAGE64_HUGE then Some l
     else walk_all (list_page (rec_pt a b c) a b c m) [0..<512] l
   })"

definition list_pd :: "nat \<Rightarrow> machine \<Rightarrow> nat \<Rightarrow> clone_page_t list option \<Rightarrow> clone_page_t list option option" where
  "list_pd a m b l = (case l of None \<Rightarrow> Some None | Some xs \<Rightarrow> do {
     e \<leftarrow> vload m (rec_pdpt a) (of_nat b);
     if \<not> has e PAGE64_PRESENT \<or> has e PAGE64_HUGE then Some l
     else walk_all (list_pt a b m) [0..<512] l
   })"

definition list_pdpt :: "machine \<Rightarrow> nat \<Rightarrow> clone_page_t list option \<Rightarrow> clone_page_t list option option" where
  "list_pdpt m a l = (case l of None \<Rightarrow> Some None | Some xs \<Rightarrow> do {
     e \<leftarrow> vload m pml4_addr (of_nat a);
     if \<not> has e PAGE64_PRESENT then Some l else walk_all (list_pd a m) [0..<512] l
   })"

text \<open>Pass two: the same layout in the destination, with the destination loaded.\<close>

fun replay :: "clone_page_t list \<Rightarrow> machine \<Rightarrow> (bool \<times> machine) option" where
  "replay [] m = Some (True, m)"
| "replay (x # xs) m =
     (let (fresh, p) = pmm64_alloc_high (pmm m); m = m\<lparr>pmm := p\<rparr>
      in if fresh = 0 then Some (False, m)
         else do {
           (rc, m) \<leftarrow> paging64_map (cp_va x) (of_nat fresh) (cp_flags x) (copy_frame (fresh div 4096) (frame_of (cp_frame x)) m);
           if rc \<noteq> PAGING64_OK then Some (False, free_to (of_nat fresh) m) else replay xs m
         })"

definition vmspace64_clone :: "u64 \<Rightarrow> vmstate \<Rightarrow> (bool \<times> vmstate) option" where
  "vmspace64_clone dst s = do {
     (list, h) \<leftarrow> kmalloc64 (CLONE_MAX_PAGES * 24) (heap s);
     if list = 0 then Some (False, s\<lparr>heap := h\<rparr>)
     else do {
       found \<leftarrow> walk_all (list_pdpt (mach h)) [0..<KERNEL_HALF] (Some []);
       (ok, m) \<leftarrow> (case found of
          None \<Rightarrow> Some (False, mach h)
        | Some xs \<Rightarrow> do {
            (ok, m) \<leftarrow> replay xs ((mach h)\<lparr>cr3 := dst\<rparr>);
            Some (ok, m\<lparr>cr3 := cr3 (mach h)\<rparr>)
          });
       Some (ok, s\<lparr>heap := kfree64 list (h\<lparr>mach := m\<rparr>)\<rparr>)
     }
   }"

end
