(* ===== verification/Vmspace64_Cow.thy ===== *)
theory Vmspace64_Cow
  imports Vmspace64
begin

text \<open>
  Copy-on-write, proved: what a write fault on a shared page does to the tables, to memory and to the owners of
  frames; that writing into another process's memory reaches no frame it shares; and that changing a page's
  protection never makes a shared page writable. The statements are about what the processor's own walk finds.
\<close>

unbundle bit_operations_syntax

section \<open>Entries\<close>

lemma frame_of_unat: "unat (e AND ADDR_MASK) div 4096 = frame_of e"
  by (simp add: frame_of_def drop_bit_eq_div unat_div)

lemma frame_of_lt: "frame_of e < 2 ^ 40"
proof -
  have "drop_bit 12 (e AND ADDR_MASK) = take_bit 40 (drop_bit 12 (e AND ADDR_MASK))"
    by (rule bit_word_eqI) (auto simp: bit_simps bit_ADDR_MASK)
  then have "frame_of e = unat (take_bit 40 (drop_bit 12 (e AND ADDR_MASK)))" unfolding frame_of_def by simp
  then show ?thesis by (simp only: unsigned_take_bit_eq take_bit_nat_less_exp)
qed

lemma address_of_frame: "e AND ADDR_MASK = of_nat (frame_of e * 4096)"
proof -
  have "of_nat (frame_of e * 4096) = push_bit 12 (drop_bit 12 (e AND ADDR_MASK))"
    by (simp add: push_bit_eq_mult frame_of_def mult.commute)
  also have "\<dots> = e AND ADDR_MASK" by (rule bit_word_eqI) (auto simp: bit_simps bit_ADDR_MASK)
  finally show ?thesis by simp
qed

lemma unat_frame: "g < 2 ^ 40 \<Longrightarrow> unat (of_nat (g * 4096) :: u64) = g * 4096"
  by (simp only: unsigned_of_nat of_nat_id) (rule take_bit_nat_eq_self, simp)

text \<open>The flags of a page taken back from being shared: writable, no longer marked, all else kept.\<close>

definition own_flags :: "u64 \<Rightarrow> u64" where
  "own_flags e = ((e AND NOT ADDR_MASK) AND NOT (PAGE64_COW OR PAGE64_COW_RW)) OR PAGE64_WRITE"

lemma bit_page_consts:
  "bit PAGE64_PRESENT n \<longleftrightarrow> n = 0" "bit PAGE64_WRITE n \<longleftrightarrow> n = 1" "bit PAGE64_COW n \<longleftrightarrow> n = 9" "bit PAGE64_COW_RW n \<longleftrightarrow> n = 10"
proof -
  have "bit (push_bit k (1 :: u64)) n \<longleftrightarrow> n = k" if "k < 64" for k
    using that by (auto simp: bit_exp_iff possible_bit_def)
  from this [of 0] this [of 1] this [of 9] this [of 10]
  show "bit PAGE64_PRESENT n \<longleftrightarrow> n = 0" "bit PAGE64_WRITE n \<longleftrightarrow> n = 1" "bit PAGE64_COW n \<longleftrightarrow> n = 9" "bit PAGE64_COW_RW n \<longleftrightarrow> n = 10"
    by (simp_all add: PAGE64_PRESENT_def PAGE64_WRITE_def PAGE64_COW_def PAGE64_COW_RW_def push_bit_eq_mult)
qed

lemma bit_own_flags:
  "bit (own_flags e) n \<longleftrightarrow> n = 1 \<or> (bit e n \<and> n \<noteq> 9 \<and> n \<noteq> 10 \<and> \<not> (12 \<le> n \<and> n < 52))"
proof -
  have "bit e n \<Longrightarrow> n < 64" using bit_imp_le_length [of e n] by simp
  then show ?thesis
    unfolding own_flags_def by (auto simp: bit_simps bit_page_consts bit_ADDR_MASK)
qed

lemma own_entry:
  assumes "g < 2 ^ 40"
  shows "frame_of (of_nat (g * 4096) OR own_flags e) = g"
    and "n < 12 \<Longrightarrow> bit (of_nat (g * 4096) OR own_flags e) n \<longleftrightarrow> n = 1 \<or> (bit e n \<and> n \<noteq> 9 \<and> n \<noteq> 10)"
proof -
  have "own_flags e AND ADDR_MASK = 0"
    by (rule bit_word_eqI) (auto simp: bit_and_iff bit_own_flags bit_ADDR_MASK)
  then show "frame_of (of_nat (g * 4096) OR own_flags e) = g" by (rule frame_entry [OF assms])
  show "n < 12 \<Longrightarrow> bit (of_nat (g * 4096) OR own_flags e) n \<longleftrightarrow> n = 1 \<or> (bit e n \<and> n \<noteq> 9 \<and> n \<noteq> 10)"
    unfolding bit_or_iff bit_own_flags by (auto simp: bit_frame_low simp del: of_nat_mult)
qed

section \<open>The walk through the direct map\<close>

lemma pte_level_tstep: "i < 512 \<Longrightarrow> pte_level False t i m = (tstep m t i, m)"
  by (simp add: pte_level_def tstep_def has_bit Let_def)

text \<open>Without creating tables \<open>pte_for\<close> finds the entry the processor would.\<close>

lemma pte_for_tpath:
  "frame_of r = root m \<Longrightarrow>
   pte_for r va False m = (map_option (\<lambda>t. (t, unat (PT_IDX va))) (tpath m (path_of va)), m)"
  by (simp add: pte_for_def pte_level_tstep path_of_def tpath_3 tpath_2 tpath_1 split: option.split)

lemma root_masked [simp]: "frame_of (c AND ADDR_MASK) = frame_of c"
  by (simp add: frame_of_def)

section \<open>Frames taken and given up\<close>

lemma alloc_user_owners:
  assumes "pmm_live P" and "ready P" and "frame_count P \<le> 2 ^ 40" and "pmm64_alloc_user P = (fr, P')"
  shows "pmm_live P' \<and> ready P' \<and> frame_count P' = frame_count P"
    and "fr = 0 \<longleftrightarrow> pmm64_free_frames P < USER_RESERVE"
    and "fr = 0 \<Longrightarrow> owners P' = owners P"
    and "fr \<noteq> 0 \<Longrightarrow> \<exists>g. fr = g * 4096 \<and> g < 2 ^ 40 \<and> owners P g = 0 \<and> owners P' = (owners P)(g := 1)"
proof -
  have no0: "\<not> free_frame_of P 0" and inv: "pmm_inv P" using assms(1,2) by (simp_all add: pmm_live_def)
  note r = alloc_user_reserve [OF inv assms(2) no0, unfolded assms(4)]
  show z: "fr = 0 \<longleftrightarrow> pmm64_free_frames P < USER_RESERVE" using r by (auto split: if_splits)
  have oom: "fr = 0 \<Longrightarrow> P' = P\<lparr>user_oom := True\<rparr>" using r z by (auto split: if_splits)
  show "fr = 0 \<Longrightarrow> owners P' = owners P" using oom by simp
  have high: "fr \<noteq> 0 \<Longrightarrow> alloc_step P fr P'"
    using alloc_high_step [OF inv] r z by (auto split: if_splits) (metis fst_conv snd_conv)+
  have "pmm_live (P\<lparr>user_oom := True\<rparr>)"
    using assms(1) pmm_inv_upd(3) by (simp add: pmm_live_def free_frame_of_def)
  then show "pmm_live P' \<and> ready P' \<and> frame_count P' = frame_count P"
    using oom alloc_step_cases(1) [OF high assms(1)] high assms(2) by (cases "fr = 0") (auto simp: alloc_step_def)
  show "fr \<noteq> 0 \<Longrightarrow> \<exists>g. fr = g * 4096 \<and> g < 2 ^ 40 \<and> owners P g = 0 \<and> owners P' = (owners P)(g := 1)"
  proof -
    assume f: "fr \<noteq> 0"
    then obtain g where "fr = g * 4096" "free_frame_of P g" "owners P' = (owners P)(g := 1)"
      using high [OF f] unfolding alloc_step_def FRAME_SIZE_def by blast
    then show ?thesis using assms(2,3) free_frame_of_owners [of P g] by (auto simp: free_frame_of_def)
  qed
qed

lemma drop_owner:
  assumes "pmm_live P" and "1 < owners P (p div 4096)"
  shows "pmm_live (pmm64_free_frame p P)" and "ready (pmm64_free_frame p P) = ready P"
    and "frame_count (pmm64_free_frame p P) = frame_count P"
    and "owners (pmm64_free_frame p P) = (owners P)(p div 4096 := owners P (p div 4096) - 1)"
proof -
  have s: "pmm_inv (pmm64_free_frame p P) \<and> ready (pmm64_free_frame p P) = ready P
      \<and> frame_count (pmm64_free_frame p P) = frame_count P
      \<and> owners (pmm64_free_frame p P) = (owners P)(p div 4096 := owners P (p div 4096) - 1)"
    using free_frame_step [of P p] assms(1) by (simp add: pmm_live_def FRAME_SIZE_def)
  then show "ready (pmm64_free_frame p P) = ready P" "frame_count (pmm64_free_frame p P) = frame_count P"
    "owners (pmm64_free_frame p P) = (owners P)(p div 4096 := owners P (p div 4096) - 1)" by simp_all
  have "owners (pmm64_free_frame p P) 0 = 0 \<Longrightarrow> owners P 0 = 0" using s assms(2) by (auto split: if_splits)
  then show "pmm_live (pmm64_free_frame p P)"
    using s assms(1) unfolding pmm_live_def free_frame_of_owners by metis
qed

section \<open>Taking a page back\<close>

text \<open>The outcome of unsharing entry \<open>i\<close> of table \<open>t\<close>: nothing but the entry, the fresh frame and the owners change.\<close>

definition unshared :: "nat \<Rightarrow> nat \<Rightarrow> nat \<Rightarrow> machine \<Rightarrow> machine \<Rightarrow> bool" where
  "unshared t i g m m' \<longleftrightarrow>
     (let e = mem m t i; f = frame_of e
      in cr3 m' = cr3 m \<and> pmm_live (pmm m') \<and> ready (pmm m') \<and> frame_count (pmm m') = frame_count (pmm m)
       \<and> g < 2 ^ 40 \<and> mem m' t i = of_nat (g * 4096) OR own_flags e
       \<and> (\<forall>j. j \<noteq> i \<longrightarrow> mem m' t j = mem m t j) \<and> (\<forall>h. h \<noteq> t \<and> (h = g \<longrightarrow> 0 < owners (pmm m) h) \<longrightarrow> mem m' h = mem m h)
       \<and> (\<forall>j < 512. g \<noteq> t \<longrightarrow> mem m' g j = mem m f j)
       \<and> (if 1 < owners (pmm m) f
          then owners (pmm m) g = 0 \<and> owners (pmm m') = (owners (pmm m))(g := 1, f := owners (pmm m) f - 1)
          else g = f \<and> pmm m' = pmm m))"

lemma unsharedD:
  assumes "unshared t i g m m'" and "mem m t i = e"
  shows "if 1 < owners (pmm m) (frame_of e)
         then owners (pmm m) g = 0 \<and> owners (pmm m') = (owners (pmm m))(g := 1, frame_of e := owners (pmm m) (frame_of e) - 1)
         else g = frame_of e \<and> owners (pmm m') = owners (pmm m)"
    and "g < 2 ^ 40" and "mem m' t i = of_nat (g * 4096) OR own_flags e"
    and "\<forall>h. h \<noteq> t \<and> (h = g \<longrightarrow> 0 < owners (pmm m) h) \<longrightarrow> mem m' h = mem m h"
    and "g \<noteq> t \<Longrightarrow> \<forall>j < 512. mem m' g j = mem m (frame_of e) j"
  using assms unfolding unshared_def Let_def by (auto split: if_splits)

lemma unshare_spec:
  assumes live: "pmm_live (pmm m)" "ready (pmm m)" "frame_count (pmm m) \<le> 2 ^ 40" and t: "0 < owners (pmm m) t"
    and e: "e = mem m t i"
  shows "case unshare (t, i) m of
      (None, m') \<Rightarrow> 1 < owners (pmm m) (frame_of e) \<and> pmm64_free_frames (pmm m) < USER_RESERVE
         \<and> m' = m\<lparr>pmm := (pmm m)\<lparr>user_oom := True\<rparr>\<rparr>
    | (Some fr, m') \<Rightarrow> (1 < owners (pmm m) (frame_of e) \<longrightarrow> \<not> pmm64_free_frames (pmm m) < USER_RESERVE)
         \<and> fr div 4096 * 4096 = fr \<and> unshared t i (fr div 4096) m m'"
proof -
  let ?f = "frame_of e"
  have own: "pmm64_frame_owners (unat (e AND ADDR_MASK)) (pmm m) = owners (pmm m) ?f"
    by (simp add: pmm64_frame_owners_eq FRAME_SIZE_def frame_of_unat)
  show ?thesis
  proof (cases "1 < owners (pmm m) ?f")
    case False
    have fa: "unat (e AND ADDR_MASK) = ?f * 4096"
      unfolding address_of_frame by (rule unat_frame [OF frame_of_lt])
    have "unshare (t, i) m = (Some (?f * 4096), store_word t i (of_nat (?f * 4096) OR own_flags e) m)"
      using False unfolding unshare_def get_entry_def set_entry_def own_flags_def
      by (simp add: own e [symmetric] fa [symmetric] address_of_frame [symmetric] Let_def del: of_nat_mult)
    then show ?thesis
      using False live frame_of_lt [of e] by (simp add: unshared_def e [symmetric] store_word_def)
  next
    case True
    obtain fr P' where a: "pmm64_alloc_user (pmm m) = (fr, P')" by (cases "pmm64_alloc_user (pmm m)")
    note u = alloc_user_owners [OF live a]
    show ?thesis
    proof (cases "fr = 0")
      case z: True
      then have "P' = (pmm m)\<lparr>user_oom := True\<rparr>" using a u(2) by (simp add: pmm64_alloc_user_def)
      then show ?thesis using True z a u(2)
        by (simp add: unshare_def get_entry_def own e [symmetric])
    next
      case nz: False
      then obtain g where g: "fr = g * 4096" "g < 2 ^ 40" "owners (pmm m) g = 0" "owners P' = (owners (pmm m))(g := 1)"
        using u(4) by blast
      have ne: "g \<noteq> t" "g \<noteq> ?f" using g(3) t True by auto
      have P': "1 < owners P' (unat (e AND ADDR_MASK) div 4096)"
        using g(4) ne True by (simp add: frame_of_unat)
      note d = drop_owner [OF _ P']
      have us: "unshare (t, i) m = (Some fr, store_word t i (of_nat (g * 4096) OR own_flags e)
           (free_to (e AND ADDR_MASK) (copy_frame g ?f (m\<lparr>pmm := P'\<rparr>))))"
        using True nz a g(1) unfolding unshare_def get_entry_def set_entry_def own_flags_def
        by (simp add: own e [symmetric] Let_def)
      have "mem (store_word t i E (free_to q (copy_frame g ?f (m\<lparr>pmm := P'\<rparr>))))
          = (mem m)(g := (\<lambda>j. if j < 512 then mem m ?f j else mem m g j), t := (mem m t)(i := E))"
        "pmm (store_word t i E (free_to q (copy_frame g ?f (m\<lparr>pmm := P'\<rparr>)))) = pmm64_free_frame (unat q) P'"
        "cr3 (store_word t i E (free_to q (copy_frame g ?f (m\<lparr>pmm := P'\<rparr>)))) = cr3 m" for E q
        using ne by (auto simp: store_word_def free_to_def copy_frame_def fun_eq_iff)
      then show ?thesis
        using u(1,2) nz g ne True d by (simp add: us unshared_def e [symmetric] frame_of_unat)
    qed
  qed
qed

lemma free_of_tables:
  assumes inv: "paging_inv m" and at: "tpath m p = Some t" "valid_path p"
    and f: "\<forall>q. valid_path q \<longrightarrow> tpath m q \<noteq> Some (frame_of (mem m t i))"
    and u: "unshared t i g m m'"
  shows "\<forall>q. valid_path q \<longrightarrow> tpath m q \<noteq> Some g" and "mem m' h = (if h = g then mem m' g else mem (store_word t i (mem m' t i) m) h)"
proof -
  show tab: "\<forall>q. valid_path q \<longrightarrow> tpath m q \<noteq> Some g"
    using u f inv unfolding unshared_def paging_inv_def Let_def by (metis not_gr_zero)
  have "g \<noteq> t" using tab at by blast
  then show "mem m' h = (if h = g then mem m' g else mem (store_word t i (mem m' t i) m) h)"
    using u by (auto simp: unshared_def Let_def store_word_def fun_eq_iff)
qed

section \<open>Frames that are no table\<close>

text \<open>Whatever is written to a frame that is no table of the loaded space, no walk changes.\<close>

lemma data_frame:
  assumes inv: "paging_inv m" and g: "\<forall>q. valid_path q \<longrightarrow> tpath m q \<noteq> Some g"
    and n: "cr3 n = cr3 m" "\<forall>h. h \<noteq> g \<longrightarrow> mem n h = mem m h"
  shows "valid_path q \<Longrightarrow> tpath n q = tpath m q"
    and "PML4_IDX w \<noteq> REC \<Longrightarrow> private_path m w \<Longrightarrow> private_path n w"
    and "PML4_IDX w \<noteq> REC \<Longrightarrow> mmu_frame n w = mmu_frame m w"
    and "pmm_live (pmm n) \<Longrightarrow> ready (pmm n) \<Longrightarrow> frame_count (pmm n) \<le> 2 ^ 40 \<Longrightarrow>
         (\<And>q f. valid_path q \<Longrightarrow> tpath m q = Some f \<Longrightarrow> 0 < owners (pmm n) f) \<Longrightarrow> paging_inv n"
proof -
  have t: "valid_path q \<Longrightarrow> tpath n q = tpath m q" for q
  proof (induction q rule: rev_induct)
    case (snoc j q)
    have q: "valid_path q" using snoc.prems valid_snoc by blast
    then show ?case using snoc.IH [OF q] g n(2) by (cases "tpath m q") (auto simp: tstep_def)
  qed (simp add: n)
  then show "valid_path q \<Longrightarrow> tpath n q = tpath m q" .
  show "PML4_IDX w \<noteq> REC \<Longrightarrow> private_path m w \<Longrightarrow> private_path n w"
    using t t [OF valid_path_of] unfolding private_path_def by metis
  have rg: "root m \<noteq> g" using g [rule_format, of "[]"] by (simp add: valid_path_def)
  then have r: "mem n (root n) = mem m (root m)" using n by simp
  have nh: "\<forall>i < 512. \<not> (bit (mem m (root m) i) 0 \<and> bit (mem m (root m) i) 7)" using inv by (simp add: paging_inv_def)
  show "PML4_IDX w \<noteq> REC \<Longrightarrow> mmu_frame n w = mmu_frame m w"
  proof -
    assume w: "PML4_IDX w \<noteq> REC"
    have c: "tpath m (take k (path_of w)) = Some h \<Longrightarrow> mem n h = mem m h" for k h
      using g n(2) valid_path_of [OF w] by metis
    show ?thesis
      unfolding mmu_frame_path [OF nh] mmu_frame_path [of n, unfolded r, OF nh] t [OF valid_path_of [OF w]]
      by (auto simp: Let_def c simp del: One_nat_def split: option.split)
  qed
  show "pmm_live (pmm n) \<Longrightarrow> ready (pmm n) \<Longrightarrow> frame_count (pmm n) \<le> 2 ^ 40 \<Longrightarrow>
         (\<And>q f. valid_path q \<Longrightarrow> tpath m q = Some f \<Longrightarrow> 0 < owners (pmm n) f) \<Longrightarrow> paging_inv n"
    using inv t r unfolding paging_inv_def self_ref_def n(1) by simp
qed

text \<open>So an unshared page is in its new frame for the processor, and every other page where it was.\<close>

lemma unshared_walk:
  assumes inv: "paging_inv m" and priv: "private_path m v" and nrec: "PML4_IDX v \<noteq> REC"
    and at: "tpath m (path_of v) = Some t"
    and f: "\<forall>q. valid_path q \<longrightarrow> tpath m q \<noteq> Some (frame_of (mem m t (unat (PT_IDX v))))"
    and present: "bit (mem m t (unat (PT_IDX v))) 0"
    and u: "unshared t (unat (PT_IDX v)) g m m'"
  shows "paging_inv m'" and "PML4_IDX w \<noteq> REC \<Longrightarrow> private_path m w \<Longrightarrow> private_path m' w"
    and "canonical v \<Longrightarrow> mmu_frame m' v = Some g"
    and "canonical v \<Longrightarrow> PML4_IDX w \<noteq> REC \<Longrightarrow> drop_bit 12 w \<noteq> drop_bit 12 v \<Longrightarrow> mmu_frame m' w = mmu_frame m w"
    and "tpath m' (path_of v) = Some t"
proof -
  let ?i = "unat (PT_IDX v)" and ?e = "mem m t (unat (PT_IDX v))"
  define s where "s = store_word t ?i (mem m' t ?i) m"
  have at3: "tpath m (take 3 (path_of v)) = Some t" using at by (simp add: path_of_def)
  have vp: "valid_path (path_of v)" using valid_path_of [OF nrec, of 3] by (simp add: path_of_def)
  note ft = free_of_tables [OF inv at vp f u]
  note l = leaf_store [OF inv priv nrec at3, where E = "mem m' t ?i", folded s_def]
  note tp = leaf_tpath [OF priv at3, of _ ?i "mem m' t ?i", folded s_def]
  have gs: "\<forall>q. valid_path q \<longrightarrow> tpath s q \<noteq> Some g" using ft(1) tp by simp
  have c: "cr3 m' = cr3 s" using u by (simp add: s_def store_word_def unshared_def Let_def)
  have hs: "\<forall>h. h \<noteq> g \<longrightarrow> mem m' h = mem s h" using ft(2) by (simp add: s_def)
  note d = data_frame [OF l(1) gs c hs]
  have own: "0 < owners (pmm m') h" if "valid_path q" "tpath m q = Some h" for q h
  proof -
    have "0 < owners (pmm m) h" "h \<noteq> g" "h \<noteq> frame_of ?e"
      using inv that ft(1) f by (auto simp: paging_inv_def)
    then show ?thesis using u by (auto simp: unshared_def Let_def split: if_splits)
  qed
  show "paging_inv m'"
  proof (rule d(4))
    show "pmm_live (pmm m')" "ready (pmm m')" "frame_count (pmm m') \<le> 2 ^ 40"
      using u inv by (auto simp: unshared_def Let_def paging_inv_def)
    show "0 < owners (pmm m') h" if "valid_path q" "tpath s q = Some h" for q h
      using own that tp by simp
  qed
  show "PML4_IDX w \<noteq> REC \<Longrightarrow> private_path m w \<Longrightarrow> private_path m' w" using d(2) l(2) by blast
  have E: "frame_of (mem m' t ?i) = g" "bit (mem m' t ?i) 0"
    using u present own_entry [of g] by (simp_all add: unshared_def Let_def del: of_nat_mult)
  show "canonical v \<Longrightarrow> mmu_frame m' v = Some g" using d(3) [OF nrec] l(4) E by simp
  show "tpath m' (path_of v) = Some t" using d(1) [OF vp] tp [OF vp] at by simp
  show "mmu_frame m' w = mmu_frame m w" if "canonical v" "PML4_IDX w \<noteq> REC" "drop_bit 12 w \<noteq> drop_bit 12 v"
  proof (cases "canonical w")
    case True
    then have "\<not> same_slot v w" using canonical_slot [OF that(1)] that(3) by auto
    then show ?thesis using d(3) [OF that(2)] l(3) [OF that(2)] by simp
  qed (simp add: mmu_frame_def)
qed

section \<open>Writing into another space\<close>

text \<open>The entry \<open>pte_for\<close> finds in the space rooted at \<open>r\<close>, wherever CR3 points.\<close>

definition leaf_of :: "machine \<Rightarrow> u64 \<Rightarrow> u64 \<Rightarrow> nat option" where
  "leaf_of m r va = tpath (m\<lparr>cr3 := r\<rparr>) (path_of va)"

lemma pte_for_leaf:
  "pte_for r va False m = (map_option (\<lambda>t. (t, unat (PT_IDX va))) (leaf_of m r va), m)"
  by (simp add: pte_for_def pte_level_tstep path_of_def tpath_3 tpath_2 tpath_1 leaf_of_def tstep_def Let_def split: option.split)

lemma leaf_of_page [simp]: "leaf_of m r (va AND NOT (PAGE64_SIZE - 1)) = leaf_of m r va"
  by (simp add: leaf_of_def path_of_def)

lemma user_frame_cow:
  assumes "vs \<noteq> 0" and "va < USER_TOP" and "leaf_of m vs va = Some t" and "e = mem m t (unat (PT_IDX va))"
    and "has e PAGE64_PRESENT" and "has e PAGE64_USER" and "e AND ADDR_MASK \<noteq> z" and "has e PAGE64_COW"
  shows "vmspace64_user_frame z vs va True m =
     (if \<not> has e PAGE64_COW_RW then (0, m)
      else case unshare (t, unat (PT_IDX va)) m of (None, m') \<Rightarrow> (0, m') | (Some f, m') \<Rightarrow> (f, m'))"
  using assms by (auto simp: vmspace64_user_frame_def pte_for_leaf get_entry_def Let_def not_le)

lemma page_offset:
  assumes "\<not> has va 3"
  shows "unat (va AND (PAGE64_SIZE - 1)) < 4096" and "unat (va AND (PAGE64_SIZE - 1)) mod 4 = 0"
proof -
  have m: "va AND (PAGE64_SIZE - 1) = take_bit 12 va" by (simp add: PAGE64_SIZE_def take_bit_eq_mask mask_eq_exp_minus_1)
  have l: "unat (take_bit 12 va) = unat va mod 4096" by (simp add: take_bit_eq_mod unat_mod)
  then show "unat (va AND (PAGE64_SIZE - 1)) < 4096" by (simp add: m)
  have "take_bit 2 va = 0" using assms by (simp add: has_def take_bit_eq_mask mask_eq_exp_minus_1)
  then have "unat (take_bit 2 va) = 0" by simp
  then have "unat va mod 4 = 0" by (simp add: take_bit_eq_mod unat_mod)
  then have "unat va mod 4096 mod 4 = 0" by (simp add: mod_mod_cancel)
  then show "unat (va AND (PAGE64_SIZE - 1)) mod 4 = 0" by (simp only: m l)
qed

text \<open>The 32-bit value at a byte offset of a frame.\<close>

definition get_u32 :: "machine \<Rightarrow> nat \<Rightarrow> nat \<Rightarrow> u32" where
  "get_u32 m f off = ucast (drop_bit (8 * (off mod 8)) (mem m f (off div 8)))"

lemma put_u32_mask:
  "put_u32 f off v m = store_word f (off div 8)
     ((mem m f (off div 8) AND NOT (push_bit (8 * (off mod 8)) (mask 32))) OR push_bit (8 * (off mod 8)) (ucast v)) m"
proof -
  have "(0xFFFFFFFF :: u64) = mask 32" by (simp add: mask_eq_exp_minus_1)
  then show ?thesis by (simp only: put_u32_def Let_def)
qed

lemma bit_u32_high: "32 \<le> n \<Longrightarrow> \<not> bit (v :: u32) n"
  using bit_imp_le_length [of v n] by auto

lemma put_get_u32:
  assumes "off mod 4 = 0" and "off' mod 4 = 0"
  shows "get_u32 (put_u32 f off v m) h off' = (if h = f \<and> off' = off then v else get_u32 m h off')"
proof -
  have k: "off mod 8 = 0 \<or> off mod 8 = 4" "off' mod 8 = 0 \<or> off' mod 8 = 4" using assms by presburger+
  have split: "off' = off \<longleftrightarrow> off' div 8 = off div 8 \<and> off' mod 8 = off mod 8" by (metis mod_div_mult_eq)
  show ?thesis
    unfolding split using k
    by (cases "h = f"; cases "off' div 8 = off div 8")
       (auto simp: get_u32_def put_u32_mask store_word_def bit_simps bit_u32_high simp del: mask_numeral intro!: bit_word_eqI)
qed

lemma break_cow_eq:
  assumes "tpath m (path_of va) = Some t" and "e = mem m t (unat (PT_IDX va))"
    and "has e PAGE64_PRESENT" and "has e PAGE64_COW" and "has e PAGE64_COW_RW"
  shows "vmspace64_break_cow va m = (case unshare (t, unat (PT_IDX va)) m of (None, m') \<Rightarrow> (False, m') | (Some f, m') \<Rightarrow> (True, m'))"
proof -
  have p: "path_of (va AND NOT (PAGE64_SIZE - 1)) = path_of va" by (simp add: path_of_def)
  show ?thesis
    using assms by (simp add: vmspace64_break_cow_def pte_for_tpath p get_entry_def split: option.split)
qed

section \<open>A space with one shared page\<close>

definition cow_demo :: machine where
  "cow_demo = \<lparr>cr3 = 0x1000,
     mem = (\<lambda>_ _. 0)(1 := (\<lambda>_. 0)(510 := 0x1003, 0 := 0x2007), 2 := (\<lambda>_. 0)(0 := 0x3007), 3 := (\<lambda>_. 0)(0 := 0x4007),
                     4 := (\<lambda>_. 0)(1 := 0x5605), 5 := (\<lambda>_. 0)(0 := 0x2A)),
     pmm = pmm_demo, tables_allocated = 0, physmap_bytes = 0\<rparr>"

lemma cow_demo_entries:
  "frame_of 0x1003 = 1" "frame_of 0x2007 = 2" "frame_of 0x3007 = 3" "frame_of 0x4007 = 4" "frame_of 0x5605 = 5"
  by (simp_all add: frame_of_def ADDR_MASK_def)

lemma cow_demo_bits:
  "bit (0x1003 :: u64) 0" "\<not> bit (0x1003 :: u64) 7" "bit (0x2007 :: u64) 0" "\<not> bit (0x2007 :: u64) 7"
  "bit (0x3007 :: u64) 0" "\<not> bit (0x3007 :: u64) 7" "bit (0x4007 :: u64) 0" "\<not> bit (0x4007 :: u64) 7"
  by (simp_all add: bit_numeral_simps)

lemma cow_demo_root: "root cow_demo = 1"
  by (simp add: cow_demo_def frame_of_def ADDR_MASK_def)

lemma cow_demo_step:
  "tstep cow_demo 1 i = (if i = 510 then Some 1 else if i = 0 then Some 2 else None)"
  "tstep cow_demo 2 i = (if i = 0 then Some 3 else None)" "tstep cow_demo 3 i = (if i = 0 then Some 4 else None)"
  by (simp_all add: tstep_def cow_demo_def cow_demo_entries cow_demo_bits)

lemma cow_demo_paths:
  "valid_path p \<Longrightarrow> tpath cow_demo p =
     (if p = [] then Some 1 else if p = [0] then Some 2 else if p = [0, 0] then Some 3 else if p = [0, 0, 0] then Some 4 else None)"
proof (induction p rule: rev_induct)
  case (snoc j p)
  have "p = [] \<Longrightarrow> j \<noteq> 510" "length p \<le> 2" using snoc.prems by (auto simp: valid_path_def)
  then show ?case using snoc.IH [OF valid_snoc [OF snoc.prems]]
    by (auto simp: cow_demo_step append_eq_Cons_conv simp del: One_nat_def split: if_splits)
qed (simp add: cow_demo_root)

lemma cow_demo_owners: "owners (pmm cow_demo) f = (if f < 12 then 1 else 0)"
proof (cases "f < 16")
  case True
  then show ?thesis using pmm_demo_test [of f] by (auto simp: owners_def cow_demo_def pmm_demo_def extra_owners_def)
qed (simp add: owners_def cow_demo_def pmm_demo_def)

lemma cow_demo_inv: "paging_inv cow_demo"
proof -
  have "self_ref cow_demo"
    unfolding self_ref_def cow_demo_root by (simp add: cow_demo_def cow_demo_entries cow_demo_bits)
  moreover have "\<forall>i < 512. \<not> (bit (mem cow_demo 1 i) 0 \<and> bit (mem cow_demo 1 i) 7)"
    by (simp add: cow_demo_def cow_demo_bits)
  moreover have "pmm_live (pmm cow_demo)" "ready (pmm cow_demo)" "frame_count (pmm cow_demo) \<le> 2 ^ 40"
    using pmm_demo_live by (simp_all add: cow_demo_def) (simp_all add: pmm_demo_def)
  ultimately show ?thesis
    unfolding paging_inv_def cow_demo_root by (auto simp: cow_demo_paths cow_demo_owners split: if_splits)
qed

lemma cow_demo_idx:
  "path_of 0x1000 = [0, 0, 0]" "PT_IDX 0x1000 = 1" "PML4_IDX 0x1000 = 0" "canonical 0x1000"
  by (simp_all add: path_of_def PML4_IDX_def PDPT_IDX_def PD_IDX_def PT_IDX_def canonical_def)

lemma cow_demo_private: "private_path cow_demo 0x1000"
proof -
  have "valid_path (take k (path_of 0x1000))" for k
    by (rule valid_path_of) (simp add: cow_demo_idx REC_def)
  then have v: "valid_path (take k [0, 0, 0])" for k by (simp add: cow_demo_idx)
  show ?thesis
    unfolding private_path_def cow_demo_idx
  proof (intro allI impI)
    fix k q f
    assume "k \<le> 3" "valid_path q" "tpath cow_demo (take k [0, 0, 0]) = Some f" "tpath cow_demo q = Some f"
    moreover have "k = 0 \<or> k = 1 \<or> k = 2 \<or> k = 3" using \<open>k \<le> 3\<close> by linarith
    ultimately show "q = take k [0, 0, 0]"
      by (auto simp: cow_demo_paths [OF v] cow_demo_paths split: if_splits)
  qed
qed

lemma cow_demo_leaf:
  "tpath cow_demo (path_of 0x1000) = Some 4" "mem cow_demo 4 (unat (PT_IDX 0x1000)) = 0x5605"
  "has 0x5605 PAGE64_PRESENT" "has 0x5605 PAGE64_COW" "has 0x5605 PAGE64_COW_RW" "has 0x5605 PAGE64_USER"
  "\<forall>q. valid_path q \<longrightarrow> tpath cow_demo q \<noteq> Some (frame_of 0x5605)"
proof -
  have "valid_path [0, 0, 0]" by (simp add: valid_path_def)
  then show "tpath cow_demo (path_of 0x1000) = Some 4" by (simp add: cow_demo_idx cow_demo_paths)
  show "mem cow_demo 4 (unat (PT_IDX 0x1000)) = 0x5605" by (simp add: cow_demo_idx cow_demo_def)
  show "has 0x5605 PAGE64_PRESENT" "has 0x5605 PAGE64_COW" "has 0x5605 PAGE64_COW_RW" "has 0x5605 PAGE64_USER"
    by (simp_all add: has_def PAGE64_PRESENT_def PAGE64_COW_def PAGE64_COW_RW_def PAGE64_USER_def)
  show "\<forall>q. valid_path q \<longrightarrow> tpath cow_demo q \<noteq> Some (frame_of 0x5605)"
    by (auto simp: cow_demo_paths cow_demo_entries split: if_splits)
qed

lemma cow_demo_mmu: "mmu_frame cow_demo 0x1000 = Some 5"
proof -
  have same: "store_word 4 (unat (PT_IDX 0x1000)) 0x5605 cow_demo = cow_demo"
    unfolding cow_demo_leaf(2) [symmetric] by (simp add: store_word_def)
  have "PML4_IDX 0x1000 \<noteq> REC" "tpath cow_demo (take 3 (path_of 0x1000)) = Some 4"
    using cow_demo_leaf(1) by (simp_all add: cow_demo_idx REC_def)
  from leaf_store(4) [OF cow_demo_inv cow_demo_private this cow_demo_idx(4), of "0x5605"] show ?thesis
    using cow_demo_leaf(3) by (simp add: same has_bit cow_demo_entries)
qed

lemma write_u32_cow:
  assumes "vs \<noteq> 0" and "va < USER_TOP" and "leaf_of m vs va = Some t" and "e = mem m t (unat (PT_IDX va))"
    and "has e PAGE64_PRESENT" and "has e PAGE64_USER" and "e AND ADDR_MASK \<noteq> z" and "has e PAGE64_COW" and "\<not> has va 3"
  shows "vmspace64_write_u32 z vs va v m =
     (if \<not> has e PAGE64_COW_RW then (False, m)
      else case unshare (t, unat (PT_IDX va)) m of (None, m') \<Rightarrow> (False, m')
           | (Some f, m') \<Rightarrow> if f = 0 then (False, m') else (True, put_u32 (f div 4096) (unat (va AND (PAGE64_SIZE - 1))) v m'))"
  using assms(9) unfolding vmspace64_write_u32_def user_frame_cow [OF assms(1-8)]
  by (auto split: option.split prod.split)

lemma put_u32_fields [simp]:
  "h \<noteq> f \<Longrightarrow> mem (put_u32 f off v m) h = mem m h" "pmm (put_u32 f off v m) = pmm m"
  by (simp_all add: put_u32_def store_word_def Let_def)

lemma get_u32_cong: "off < 4096 \<Longrightarrow> \<forall>j < 512. mem m' g j = mem m f j \<Longrightarrow> get_u32 m' g off = get_u32 m f off"
  by (simp add: get_u32_def)

lemma set_writable_eq:
  assumes "tpath m (path_of va) = Some t" and "mem m t (unat (PT_IDX va)) = e" and "has e PAGE64_PRESENT"
    and "\<not> (e AND ADDR_MASK = z \<and> writable)"
  shows "vmspace64_set_writable z va writable m =
     (True, store_word t (unat (PT_IDX va))
        (if has e PAGE64_COW
         then (if writable then e OR PAGE64_COW_RW else e AND NOT PAGE64_COW_RW) AND NOT PAGE64_WRITE
         else (if writable then e OR PAGE64_WRITE else e AND NOT PAGE64_WRITE)) m)"
proof -
  have p: "path_of (va AND NOT (PAGE64_SIZE - 1)) = path_of va" by (simp add: path_of_def)
  show ?thesis
    using assms by (auto simp: vmspace64_set_writable_def pte_for_tpath p get_entry_def set_entry_def Let_def)
qed

lemma break_cow_granted:
  assumes "paging_inv m" and "PML4_IDX va \<noteq> REC" and "tpath m (path_of va) = Some t" and "mem m t (unat (PT_IDX va)) = e"
    and "has e PAGE64_PRESENT" and "has e PAGE64_COW"
  shows "fst (vmspace64_break_cow va m) \<longleftrightarrow>
     has e PAGE64_COW_RW \<and> (owners (pmm m) (frame_of e) \<le> 1 \<or> USER_RESERVE \<le> pmm64_free_frames (pmm m))"
proof (cases "has e PAGE64_COW_RW")
  case True
  have "valid_path (path_of va)" using valid_path_of [OF assms(2), of 3] by (simp add: path_of_def)
  then have live: "pmm_live (pmm m)" "ready (pmm m)" "frame_count (pmm m) \<le> 2 ^ 40" "0 < owners (pmm m) t"
    using assms(1,3) by (auto simp: paging_inv_def)
  show ?thesis
    using unshare_spec [OF live assms(4) [symmetric]] True break_cow_eq [OF assms(3) assms(4) [symmetric] assms(5,6) True]
    by (auto simp: not_less not_le split: prod.splits option.splits)
next
  case False
  have "path_of (va AND NOT (PAGE64_SIZE - 1)) = path_of va" by (simp add: path_of_def)
  then show ?thesis
    using assms False by (simp add: vmspace64_break_cow_def pte_for_tpath get_entry_def)
qed

section \<open>Properties\<close>

text \<open>C10: A write fault on a shared page is resolved correctly. For a page that is mapped copy-on-write and was
  writable, \<open>vmspace64_break_cow\<close> succeeds exactly when the page has no other owner or more frames are free than user
  memory may take. Then the processor finds the page, with the contents it had, in a writable mapping that
  is no longer marked; where there was another owner, it finds it in a frame nobody owned before, which now has
  one owner, while the old frame keeps its contents and loses one. Every other translation is as it was, and
  so are the contents of every other frame in use. When it fails, neither memory nor any owner has changed.\<close>

theorem vmspace64_break_cow_correct:
  assumes "paging_inv m" and "private_path m va" and "PML4_IDX va \<noteq> REC" and "canonical va"
    and "tpath m (path_of va) = Some t" and "mem m t (unat (PT_IDX va)) = e"
    and "has e PAGE64_PRESENT" and "has e PAGE64_COW" and "has e PAGE64_COW_RW"
    and "\<forall>q. valid_path q \<longrightarrow> tpath m q \<noteq> Some (frame_of e)"
    and "vmspace64_break_cow va m = (ok, m')"
  shows "(ok \<longleftrightarrow> owners (pmm m) (frame_of e) \<le> 1 \<or> USER_RESERVE \<le> pmm64_free_frames (pmm m))
     \<and> paging_inv m'
     \<and> (\<forall>h. h \<noteq> t \<and> 0 < owners (pmm m) h \<longrightarrow> mem m' h = mem m h)
     \<and> (\<forall>w. PML4_IDX w \<noteq> REC \<and> drop_bit 12 w \<noteq> drop_bit 12 va \<longrightarrow> mmu_frame m' w = mmu_frame m w)
     \<and> (if ok
        then \<exists>g. mmu_frame m' va = Some g \<and> (\<forall>j < 512. mem m' g j = mem m (frame_of e) j)
           \<and> has (mem m' t (unat (PT_IDX va))) PAGE64_WRITE \<and> \<not> has (mem m' t (unat (PT_IDX va))) PAGE64_COW
           \<and> (if 1 < owners (pmm m) (frame_of e)
              then owners (pmm m) g = 0 \<and> owners (pmm m') = (owners (pmm m))(g := 1, frame_of e := owners (pmm m) (frame_of e) - 1)
              else g = frame_of e \<and> owners (pmm m') = owners (pmm m))
        else mem m' = mem m \<and> owners (pmm m') = owners (pmm m))"
proof -
  let ?i = "unat (PT_IDX va)" and ?f = "frame_of e"
  have vp: "valid_path (path_of va)" using valid_path_of [OF assms(3), of 3] by (simp add: path_of_def)
  have live: "pmm_live (pmm m)" "ready (pmm m)" "frame_count (pmm m) \<le> 2 ^ 40" "0 < owners (pmm m) t"
    using assms(1,5) vp by (auto simp: paging_inv_def)
  note us = unshare_spec [OF live assms(6) [symmetric]]
  have b: "bit e 0" using assms(7) by (simp add: has_bit)
  note bc = break_cow_eq [OF assms(5) assms(6) [symmetric] assms(7-9), unfolded assms(11)]
  show ?thesis
  proof (cases "unshare (t, ?i) m")
    case (Pair r n)
    show ?thesis
    proof (cases r)
      case None
      then have m': "\<not> ok" "m' = m\<lparr>pmm := (pmm m)\<lparr>user_oom := True\<rparr>\<rparr>" and
        full: "1 < owners (pmm m) ?f" "pmm64_free_frames (pmm m) < USER_RESERVE"
        using us bc Pair by auto
      have "undisturbed m m'"
        unfolding m'(2) using live assms(1) pmm_inv_upd(3) [of "pmm m"]
        by (intro undisturbed_pmm) (simp_all add: pmm_live_def free_frame_of_def)
      then show ?thesis using m' full by (simp add: undisturbed_def)
    next
      case (Some fr)
      then have m': "ok" "m' = n" and reserve: "1 < owners (pmm m) ?f \<longrightarrow> \<not> pmm64_free_frames (pmm m) < USER_RESERVE"
        and u: "unshared t ?i (fr div 4096) m m'"
        using us bc Pair by auto
      let ?g = "fr div 4096"
      note w = unshared_walk [OF assms(1-3,5) assms(10) [folded assms(6)] b [folded assms(6)] u]
      have gt: "?g \<noteq> t" using free_of_tables(1) [OF assms(1,5) vp assms(10) [folded assms(6)] u] assms(5) vp by blast
      note g = unsharedD(2,3) [OF u assms(6)] and page = unsharedD(5) [OF u assms(6) gt] unsharedD(1) [OF u assms(6)]
      have E: "has (mem m' t ?i) PAGE64_WRITE" "\<not> has (mem m' t ?i) PAGE64_COW"
        unfolding has_bit g(2) using own_entry(2) [OF g(1), of 1 e] own_entry(2) [OF g(1), of 9 e] by simp_all
      have same: "\<forall>h. h \<noteq> t \<and> 0 < owners (pmm m) h \<longrightarrow> mem m' h = mem m h"
        using unsharedD(4) [OF u assms(6)] by blast
      have ok: "ok \<longleftrightarrow> owners (pmm m) ?f \<le> 1 \<or> USER_RESERVE \<le> pmm64_free_frames (pmm m)"
        using m'(1) reserve by linarith
      show ?thesis
        using ok w(1) same w(4) [OF assms(4)] w(3) [OF assms(4)] page E m'(1) by auto
    qed
  qed
qed

theorem vmspace64_break_cow_correct_witness:
  "fst (vmspace64_break_cow 0x1000 cow_demo) \<and> mmu_frame (snd (vmspace64_break_cow 0x1000 cow_demo)) 0x1000 = Some 5
   \<and> has (mem (snd (vmspace64_break_cow 0x1000 cow_demo)) 4 1) PAGE64_WRITE"
proof -
  have "PML4_IDX 0x1000 \<noteq> REC" by (simp add: cow_demo_idx REC_def)
  note t = vmspace64_break_cow_correct [OF cow_demo_inv cow_demo_private this cow_demo_idx(4) cow_demo_leaf(1-5,7),
      OF prod.collapse [symmetric]]
  have "owners (pmm cow_demo) (frame_of 0x5605) = 1" by (simp add: cow_demo_owners cow_demo_entries)
  then show ?thesis using t by (auto simp: cow_demo_idx cow_demo_entries)
qed

text \<open>C11: Writing into another process's memory, as \<open>fork\<close> does with the child's thread number, reaches that process alone. On
  a page shared copy-on-write, \<open>vmspace64_write_u32\<close> succeeds exactly when the page was writable and can be had alone;
  then the page as the target space has it holds the value at the address and is otherwise what it was. Whatever
  the outcome, no frame that had more than one owner changes, the one the page was shared in included.\<close>

theorem vmspace64_write_u32_isolated:
  assumes "pmm_live (pmm m)" and "ready (pmm m)" and "frame_count (pmm m) \<le> 2 ^ 40"
    and "vs \<noteq> 0" and "va < USER_TOP" and "leaf_of m vs va = Some t" and "mem m t (unat (PT_IDX va)) = e"
    and "has e PAGE64_PRESENT" and "has e PAGE64_USER" and "has e PAGE64_COW" and "e AND ADDR_MASK \<noteq> z"
    and "0 < owners (pmm m) t" and "t \<noteq> frame_of e" and "frame_of e \<noteq> 0" and "\<not> has va 3"
    and "vmspace64_write_u32 z vs va v m = (ok, m')"
  shows "(ok \<longleftrightarrow> has e PAGE64_COW_RW \<and> (owners (pmm m) (frame_of e) \<le> 1 \<or> USER_RESERVE \<le> pmm64_free_frames (pmm m)))
     \<and> (\<forall>h. h \<noteq> t \<and> 1 < owners (pmm m) h \<longrightarrow> mem m' h = mem m h)
     \<and> (if ok
        then let g = frame_of (mem m' t (unat (PT_IDX va))) in
             owners (pmm m') g \<le> 1
           \<and> (\<forall>off < 4096. off mod 4 = 0 \<longrightarrow>
                get_u32 m' g off = (if off = unat (va AND (PAGE64_SIZE - 1)) then v else get_u32 m (frame_of e) off))
        else mem m' = mem m \<and> owners (pmm m') = owners (pmm m))"
proof -
  let ?i = "unat (PT_IDX va)" and ?f = "frame_of e" and ?o = "unat (va AND (PAGE64_SIZE - 1))"
  note us = unshare_spec [OF assms(1-3,12) assms(7) [symmetric]]
  note w = write_u32_cow [OF assms(4-6) assms(7) [symmetric] assms(8,9,11,10,15), of v, unfolded assms(16)]
  note off = page_offset [OF assms(15)]
  obtain r n where p: "unshare (t, ?i) m = (r, n)" by (cases "unshare (t, ?i) m")
  show ?thesis
  proof (cases "has e PAGE64_COW_RW")
    case rw: True
    show ?thesis
    proof (cases r)
      case None
      then show ?thesis using us p w rw by auto
    next
      case (Some fr)
      let ?g = "fr div 4096"
      have u: "unshared t ?i ?g m n" "fr div 4096 * 4096 = fr" and
        reserve: "1 < owners (pmm m) ?f \<longrightarrow> \<not> pmm64_free_frames (pmm m) < USER_RESERVE"
        using us p Some by auto
      note o = unsharedD(1) [OF u(1) assms(7)] and E = unsharedD(2,3) [OF u(1) assms(7)]
      note same = unsharedD(4) [OF u(1) assms(7)] and page = unsharedD(5) [OF u(1) assms(7)]
      have gt: "?g \<noteq> t" using o assms(12,13) by (auto split: if_splits)
      have "0 < owners (pmm m) 0"
        using assms(1,2,12) free_frame_of_owners [of "pmm m" 0] by (auto simp: pmm_live_def owners_def split: if_splits)
      then have g0: "?g \<noteq> 0" using o assms(14) by (metis less_irrefl)
      then have "fr \<noteq> 0" using u(2) by auto
      then have ok: "ok" and m': "m' = put_u32 ?g ?o v n" using w p Some rw by auto
      have t': "mem m' t ?i = mem n t ?i" using gt m' by simp
      have own: "owners (pmm m') ?g \<le> 1" using o m' by (auto split: if_splits)
      have "mem m' h = mem m h" if "h \<noteq> t" "1 < owners (pmm m) h" for h
      proof -
        have "h \<noteq> ?g" using that(2) o by (auto split: if_splits)
        then show ?thesis using same that(1) m' by auto
      qed
      moreover have "get_u32 m' ?g k = (if k = ?o then v else get_u32 m ?f k)" if "k < 4096" "k mod 4 = 0" for k
        unfolding m' put_get_u32 [OF off(2) that(2)] using get_u32_cong [OF that(1) page [OF gt]] by simp
      moreover have "frame_of (mem m' t ?i) = ?g" unfolding t' E(2) by (rule own_entry(1) [OF E(1)])
      ultimately show ?thesis using ok rw reserve own by (auto simp: Let_def)
    qed
  qed (use w in auto)
qed

theorem vmspace64_write_u32_isolated_witness:
  "fst (vmspace64_write_u32 0 0x1000 0x1000 7 cow_demo)
   \<and> get_u32 (snd (vmspace64_write_u32 0 0x1000 0x1000 7 cow_demo)) (frame_of (mem (snd (vmspace64_write_u32 0 0x1000 0x1000 7 cow_demo)) 4 1)) 0 = 7"
proof -
  have live: "pmm_live (pmm cow_demo)" "ready (pmm cow_demo)" "frame_count (pmm cow_demo) \<le> 2 ^ 40"
    using cow_demo_inv by (simp_all add: paging_inv_def)
  have "cow_demo\<lparr>cr3 := 0x1000\<rparr> = cow_demo" by (simp add: cow_demo_def)
  then have leaf: "leaf_of cow_demo 0x1000 0x1000 = Some 4" by (simp add: leaf_of_def cow_demo_leaf(1))
  have c: "(0x1000 :: u64) \<noteq> 0" "(0x1000 :: u64) < USER_TOP" "0x5605 AND ADDR_MASK \<noteq> 0" "\<not> has 0x1000 3"
    "0 < owners (pmm cow_demo) 4" "4 \<noteq> frame_of 0x5605" "frame_of 0x5605 \<noteq> 0"
    by (simp_all add: USER_TOP_def ADDR_MASK_def has_def cow_demo_owners cow_demo_entries)
  note t = vmspace64_write_u32_isolated [OF live c(1,2) leaf cow_demo_leaf(2,3,6,4) c(3,5,6,7,4), of 7, OF prod.collapse [symmetric]]
  have "owners (pmm cow_demo) (frame_of 0x5605) = 1" by (simp add: cow_demo_owners cow_demo_entries)
  moreover have "unat ((0x1000 :: u64) AND (PAGE64_SIZE - 1)) = 0" by (simp add: PAGE64_SIZE_def)
  ultimately show ?thesis using t cow_demo_leaf(5) by (auto simp: cow_demo_idx Let_def)
qed

text \<open>Changing a page's protection never undoes sharing. \<open>vmspace64_set_writable\<close>, on a mapped page that is not the shared page of
  a reservation, leaves every translation and every other entry alone and changes only bits of this entry: on a page
  shared copy-on-write the processor's write bit ends up clear either way, and what is set is whether a later write
  fault will be granted, so that the fault is granted exactly when the protection allows writing and there is memory
  for a copy; on any other page the write bit is set as asked.\<close>

theorem vmspace64_set_writable_keeps_sharing:
  assumes "paging_inv m" and "PML4_IDX va \<noteq> REC" and "tpath m (path_of va) = Some t"
    and "mem m t (unat (PT_IDX va)) = e" and "has e PAGE64_PRESENT" and "e AND ADDR_MASK \<noteq> z"
    and "vmspace64_set_writable z va writable m = (ok, m')" and "mem m' t (unat (PT_IDX va)) = e'"
  shows "ok \<and> paging_inv m' \<and> pmm m' = pmm m \<and> (\<forall>w. mmu_frame m' w = mmu_frame m w)
     \<and> (\<forall>f j. (f, j) \<noteq> (t, unat (PT_IDX va)) \<longrightarrow> mem m' f j = mem m f j)
     \<and> has e' PAGE64_COW = has e PAGE64_COW \<and> frame_of e' = frame_of e
     \<and> (if has e PAGE64_COW
        then \<not> has e' PAGE64_WRITE
           \<and> (fst (vmspace64_break_cow va m') \<longleftrightarrow>
                writable \<and> (owners (pmm m) (frame_of e) \<le> 1 \<or> USER_RESERVE \<le> pmm64_free_frames (pmm m)))
        else has e' PAGE64_WRITE = writable)"
proof -
  let ?i = "unat (PT_IDX va)"
  define E where "E = (if has e PAGE64_COW then (if writable then e OR PAGE64_COW_RW else e AND NOT PAGE64_COW_RW) AND NOT PAGE64_WRITE
         else (if writable then e OR PAGE64_WRITE else e AND NOT PAGE64_WRITE))"
  have r: "ok" "m' = store_word t ?i E m"
    using set_writable_eq [OF assms(3-5), of z writable] assms(6,7) by (simp_all add: E_def)
  then have e': "e' = E" using assms(8) by (simp add: store_word_def)
  have b: "bit E n \<longleftrightarrow> bit e n" if "n \<noteq> 1" "n \<noteq> 10" for n
    using that bit_imp_le_length [of e n] by (auto simp: E_def bit_simps bit_page_consts)
  have wr: "bit E 1 \<longleftrightarrow> writable \<and> \<not> bit e 9" "bit e 9 \<Longrightarrow> bit E 10 \<longleftrightarrow> writable"
    by (auto simp: E_def has_bit bit_simps bit_page_consts)
  have adr: "E AND ADDR_MASK = e AND ADDR_MASK"
    by (rule bit_word_eqI) (auto simp: bit_and_iff bit_ADDR_MASK b)
  then have fr: "frame_of E = frame_of e" by (simp add: frame_of_def)
  have sv: "same_view m m'"
    using b [of 0] b [of 7] adr assms(4) by (auto simp: same_view_def r(2) store_word_def)
  have pm: "pmm m' = pmm m" and others: "\<forall>f j. (f, j) \<noteq> (t, ?i) \<longrightarrow> mem m' f j = mem m f j"
    by (auto simp: r(2) store_word_def)
  have inv: "paging_inv m'" using same_view_inv [OF sv pm] assms(1) by simp
  have E: "has E PAGE64_PRESENT" "has E PAGE64_COW = has e PAGE64_COW"
    using b [of 0] b [of 9] assms(5) by (simp_all add: has_bit)
  have at: "tpath m' (path_of va) = Some t" using same_view_walk(2) [OF sv] assms(3) by simp
  have "fst (vmspace64_break_cow va m') \<longleftrightarrow>
      writable \<and> (owners (pmm m) (frame_of e) \<le> 1 \<or> USER_RESERVE \<le> pmm64_free_frames (pmm m))" if "has e PAGE64_COW"
    using break_cow_granted [OF inv assms(2) at assms(8) [unfolded e'] E(1)] that E(2) wr(2) fr pm by (simp add: has_bit)
  then show ?thesis
    using r(1) inv pm same_view_walk(1) [OF sv] others E(2) fr wr(1) unfolding e' by (auto simp: has_bit)
qed

theorem vmspace64_set_writable_keeps_sharing_witness:
  "fst (vmspace64_break_cow 0x1000 (snd (vmspace64_set_writable 0 0x1000 True cow_demo)))
   \<and> \<not> fst (vmspace64_break_cow 0x1000 (snd (vmspace64_set_writable 0 0x1000 False cow_demo)))"
proof -
  have c: "PML4_IDX 0x1000 \<noteq> REC" "0x5605 AND ADDR_MASK \<noteq> 0" by (simp_all add: cow_demo_idx REC_def ADDR_MASK_def)
  note t = vmspace64_set_writable_keeps_sharing [OF cow_demo_inv c(1) cow_demo_leaf(1-3) c(2) prod.collapse [symmetric] refl]
  have "owners (pmm cow_demo) (frame_of 0x5605) = 1" by (simp add: cow_demo_owners cow_demo_entries)
  then show ?thesis using t [of True] t [of False] cow_demo_leaf(4) by simp
qed

end
