(* ===== verification/Vmspace64_Search.thy ===== *)
theory Vmspace64_Search
  imports Vmspace64_Cow
begin

text \<open>
  \<open>vmspace64_next_mapped\<close> against the processor: the search that steps over missing tables finds what a search page
  by page would.
\<close>

unbundle bit_operations_syntax

section \<open>Spans\<close>

lemma next_span_unat:
  assumes "unat va < 2 ^ 63" and "k \<le> 39"
  shows "unat (next_span va (push_bit k 1)) = (unat va div 2 ^ k + 1) * 2 ^ k"
proof -
  have m: "push_bit k (1 :: u64) - 1 = mask k" by (simp add: mask_eq_exp_minus_1)
  have "va AND NOT (mask k) = push_bit k (drop_bit k va)"
    by (rule bit_word_eqI) (auto simp: bit_simps)
  also have "\<dots> = of_nat (unat va div 2 ^ k * 2 ^ k)"
    by (simp add: push_bit_eq_mult flip: drop_bit_eq_div unat_drop_bit_eq)
  finally have n: "next_span va (push_bit k 1) = of_nat ((unat va div 2 ^ k + 1) * 2 ^ k)"
    unfolding next_span_def m by (simp add: algebra_simps)
  have "unat va div 2 ^ k * 2 ^ k \<le> unat va" by (rule div_times_less_eq_dividend)
  moreover have "(2 :: nat) ^ k \<le> 2 ^ 39" using assms(2) by (intro power_increasing) auto
  moreover have "a \<le> unat va \<Longrightarrow> b \<le> 2 ^ 39 \<Longrightarrow> a + 1 * b < 2 ^ 64" for a b :: nat using assms(1) by simp
  ultimately have "(unat va div 2 ^ k + 1) * 2 ^ k < 2 ^ 64" unfolding add_mult_distrib by blast
  then show ?thesis unfolding n by (simp only: unsigned_of_nat of_nat_id take_bit_nat_eq_self_iff) simp
qed

lemma next_span_props:
  assumes "unat va < 2 ^ 63" and "k \<le> 39"
  shows "va < next_span va (push_bit k 1)"
    and "va \<le> x \<Longrightarrow> x < next_span va (push_bit k 1) \<Longrightarrow> drop_bit k x = drop_bit k va"
    and "12 \<le> k \<Longrightarrow> take_bit 12 (next_span va (push_bit k 1)) = 0"
proof -
  note u = next_span_unat [OF assms]
  show "va < next_span va (push_bit k 1)"
    unfolding word_less_nat_alt u using dividend_less_div_times [of "2 ^ k" "unat va"] by (simp add: algebra_simps)
  show "drop_bit k x = drop_bit k va" if "va \<le> x" "x < next_span va (push_bit k 1)"
  proof -
    have "unat va div 2 ^ k \<le> unat x div 2 ^ k" using that(1) by (simp add: div_le_mono word_le_nat_alt)
    moreover have "unat x div 2 ^ k < unat va div 2 ^ k + 1"
      using that(2) unfolding word_less_nat_alt u by (simp only: less_mult_imp_div_less)
    ultimately have "unat (drop_bit k x) = unat (drop_bit k va)" by (simp only: unat_drop_bit_eq) (simp add: drop_bit_eq_div)
    then show ?thesis by (simp add: word_unat_eq_iff)
  qed
  assume "12 \<le> k"
  then have "(2 :: nat) ^ 12 dvd 2 ^ k" by (rule le_imp_power_dvd)
  then have "unat (next_span va (push_bit k 1)) mod 2 ^ 12 = 0" unfolding u by (simp add: dvd_mult)
  then have "unat (take_bit 12 (next_span va (push_bit k 1))) = 0"
    by (simp add: take_bit_eq_mod unat_mod)
  then show "take_bit 12 (next_span va (push_bit k 1)) = 0" by (simp only: unsigned_eq_0_iff)
qed

section \<open>What a missing table says of the addresses below it\<close>

lemma idx_of_drop:
  "drop_bit 39 x = drop_bit 39 y \<Longrightarrow> PML4_IDX x = PML4_IDX y"
  "drop_bit 30 x = drop_bit 30 y \<Longrightarrow> PDPT_IDX x = PDPT_IDX y"
  "drop_bit 21 x = drop_bit 21 y \<Longrightarrow> PD_IDX x = PD_IDX y"
  "drop_bit 12 x = drop_bit 12 y \<Longrightarrow> PT_IDX x = PT_IDX y"
  by (simp_all add: PML4_IDX_def PDPT_IDX_def PD_IDX_def PT_IDX_def)

lemma drop_bit_weaken: "drop_bit a x = drop_bit a y \<Longrightarrow> a \<le> b \<Longrightarrow> drop_bit b x = drop_bit b (y :: u64)"
  by (metis drop_bit_drop_bit le_add_diff_inverse2)

lemma absent_span:
  assumes e4: "e4 = mem m (root m) (unat (PML4_IDX va))"
  shows "\<not> has e4 PAGE64_PRESENT \<Longrightarrow> drop_bit 39 x = drop_bit 39 va \<Longrightarrow> mmu_frame m x = None"
    and "e3 = mem m (frame_of e4) (unat (PDPT_IDX va)) \<Longrightarrow> \<not> has e3 PAGE64_PRESENT \<Longrightarrow>
         drop_bit 30 x = drop_bit 30 va \<Longrightarrow> mmu_frame m x = None"
    and "e3 = mem m (frame_of e4) (unat (PDPT_IDX va)) \<Longrightarrow> \<not> has e3 PAGE64_HUGE \<Longrightarrow>
         e2 = mem m (frame_of e3) (unat (PD_IDX va)) \<Longrightarrow> \<not> has e2 PAGE64_PRESENT \<Longrightarrow>
         drop_bit 21 x = drop_bit 21 va \<Longrightarrow> mmu_frame m x = None"
    and "e3 = mem m (frame_of e4) (unat (PDPT_IDX va)) \<Longrightarrow> \<not> has e3 PAGE64_HUGE \<Longrightarrow>
         e2 = mem m (frame_of e3) (unat (PD_IDX va)) \<Longrightarrow> \<not> has e2 PAGE64_HUGE \<Longrightarrow>
         \<not> has (mem m (frame_of e2) (unat (PT_IDX va))) PAGE64_PRESENT \<Longrightarrow>
         drop_bit 12 x = drop_bit 12 va \<Longrightarrow> mmu_frame m x = None"
  using idx_of_drop(1) [OF drop_bit_weaken [of _ x va 39]] idx_of_drop(2) [OF drop_bit_weaken [of _ x va 30]]
    idx_of_drop(3) [OF drop_bit_weaken [of _ x va 21]] idx_of_drop(4) [of x va]
  by (simp_all add: mmu_frame_def e4 Let_def)

section \<open>The search\<close>

definition found_from :: "machine \<Rightarrow> u64 \<Rightarrow> u64 \<Rightarrow> u64 \<Rightarrow> bool" where
  "found_from m va end r \<longleftrightarrow>
     (r = end \<or> (va \<le> r \<and> r < end \<and> take_bit 12 r = 0 \<and> mmu_frame m r \<noteq> None))
     \<and> (\<forall>x. va \<le> x \<and> x < r \<and> x < end \<longrightarrow> mmu_frame m x = None)"

lemma found_from_skip:
  assumes "va < nx" and "\<And>x. va \<le> x \<Longrightarrow> x < nx \<Longrightarrow> mmu_frame m x = None" and "found_from m nx end r"
  shows "found_from m va end r"
  using assms unfolding found_from_def by (meson less_imp_le not_le order_trans order_le_less_trans)

lemma canonical_low: "unat x < 2 ^ 47 \<Longrightarrow> canonical x"
proof -
  assume "unat x < 2 ^ 47"
  then have "unat (drop_bit 47 x) = 0" by (simp only: unat_drop_bit_eq) (simp add: drop_bit_eq_div)
  then have "drop_bit 47 x = 0" by (simp only: unsigned_eq_0_iff)
  then show ?thesis by (simp add: canonical_def)
qed

lemma next_loop_found:
  assumes inv: "\<forall>i < 512. \<not> (bit (mem m (root m) i) 0 \<and> bit (mem m (root m) i) 7)" and low: "unat end \<le> 2 ^ 47"
  shows "take_bit 12 va = 0 \<Longrightarrow> \<exists>r. next_loop (root m) va end m = Some r \<and> found_from m va end r"
proof (induction "unat end - unat va" arbitrary: va rule: less_induct)
  case less
  show ?case
  proof (cases "va < end")
    case False
    then show ?thesis by (subst next_loop.simps) (auto simp: found_from_def)
  next
    case True
    then have va: "unat va < 2 ^ 47" using low by (simp add: word_less_nat_alt)
    then have v63: "unat va < 2 ^ 63" by simp
    have skip: "\<exists>r. next_loop (root m) (next_span va (push_bit k 1)) end m = Some r \<and> found_from m va end r"
      if "12 \<le> k" "k \<le> 39" "\<And>x. drop_bit k x = drop_bit k va \<Longrightarrow> mmu_frame m x = None" for k
    proof -
      note p = next_span_props [OF v63 that(2)]
      have "unat end - unat (next_span va (push_bit k 1)) < unat end - unat va"
        using True p(1) by (simp add: word_less_nat_alt)
      from less.hyps [OF this p(3) [OF that(1)]] show ?thesis
        using found_from_skip [OF p(1) that(3) [OF p(2)]] by blast
    qed
    have stop: "found_from m va end va" if "mmu_frame m va \<noteq> None"
      using True less.prems that by (auto simp: found_from_def)
    define e4 where "e4 = mem m (root m) (unat (PML4_IDX va))"
    define e3 where "e3 = mem m (frame_of e4) (unat (PDPT_IDX va))"
    define e2 where "e2 = mem m (frame_of e3) (unat (PD_IDX va))"
    note a = absent_span [OF e4_def]
    have nh: "has e4 PAGE64_PRESENT \<Longrightarrow> \<not> has e4 PAGE64_HUGE" using inv idx_less(1) [of va] by (simp add: has_bit e4_def)
    have mm: "mmu_frame m va \<noteq> None \<longleftrightarrow> has e4 PAGE64_PRESENT \<and> has e3 PAGE64_PRESENT \<and> (has e3 PAGE64_HUGE \<or>
        has e2 PAGE64_PRESENT \<and> (has e2 PAGE64_HUGE \<or> has (mem m (frame_of e2) (unat (PT_IDX va))) PAGE64_PRESENT))"
      using canonical_low [OF va] nh by (auto simp: mmu_frame_def Let_def e4_def e3_def e2_def)
    have sz: "PAGE64_SIZE = push_bit 12 1" by (simp add: PAGE64_SIZE_def)
    show ?thesis
      using skip [of 39, OF _ _ a(1)] skip [of 30, OF _ _ a(2) [OF e3_def]] skip [of 21, OF _ _ a(3) [OF e3_def _ e2_def]]
        skip [of 12, OF _ _ a(4) [OF e3_def _ e2_def]] stop mm True
      by (subst next_loop.simps) (simp add: Let_def e4_def [symmetric] e3_def [symmetric] e2_def [symmetric] sz del: push_bit_of_1)
  qed
qed

section \<open>Properties\<close>

text \<open>C13: The search for the next mapped page agrees with the processor and always ends. Below the top of user memory,
  \<open>vmspace64_next_mapped\<close> returns either the end of the range, and then no address from the page asked about up to the
  end is mapped, or the first mapped page of the range: a page boundary inside it that the processor translates, with
  nothing before it that it does. Stepping over whole missing tables, 512GB, 1GB and 2MB at a time, misses nothing.\<close>

theorem vmspace64_next_mapped_correct:
  assumes "paging_inv m" and "end \<le> USER_TOP"
  shows "\<exists>r. vmspace64_next_mapped va end m = Some r
     \<and> (r = end \<or> (va AND NOT (PAGE64_SIZE - 1) \<le> r \<and> r < end \<and> take_bit 12 r = 0 \<and> mmu_frame m r \<noteq> None))
     \<and> (\<forall>x. va AND NOT (PAGE64_SIZE - 1) \<le> x \<and> x < r \<and> x < end \<longrightarrow> mmu_frame m x = None)"
proof -
  have p: "PAGE64_SIZE - 1 = mask 12" by (simp add: PAGE64_SIZE_def mask_eq_exp_minus_1)
  have "take_bit 12 (va AND NOT (PAGE64_SIZE - 1)) = 0"
    unfolding p by (rule bit_word_eqI) (auto simp: bit_simps)
  moreover have "unat end \<le> 2 ^ 47" using assms(2) by (simp add: word_le_nat_alt USER_TOP_def)
  ultimately show ?thesis
    using next_loop_found [of m "end"] assms(1)
    unfolding paging_inv_def vmspace64_next_mapped_def found_from_def by blast
qed

theorem vmspace64_next_mapped_correct_witness:
  "vmspace64_next_mapped 0x1234 0x3000 cow_demo = Some 0x1000"
proof -
  have a: "(0x1234 :: u64) AND NOT (PAGE64_SIZE - 1) = 0x1000" "(0x3000 :: u64) \<le> USER_TOP"
    by (simp_all add: PAGE64_SIZE_def USER_TOP_def)
  note t = vmspace64_next_mapped_correct [OF cow_demo_inv a(2), of "0x1234", unfolded a(1)]
  then obtain r where r: "vmspace64_next_mapped 0x1234 0x3000 cow_demo = Some r
      \<and> (r = 0x3000 \<or> (0x1000 \<le> r \<and> r < 0x3000 \<and> take_bit 12 r = 0 \<and> mmu_frame cow_demo r \<noteq> None))
      \<and> (\<forall>x. 0x1000 \<le> x \<and> x < r \<and> x < 0x3000 \<longrightarrow> mmu_frame cow_demo x = None)"
    by (rule exE)
  have "\<not> 0x1000 < r"
    using r [THEN conjunct2, THEN conjunct2, rule_format, of "0x1000"] cow_demo_mmu by auto
  then show ?thesis using r by auto
qed

end
