(* ===== verification/Vmspace64_Destroy.thy ===== *)
theory Vmspace64_Destroy
  imports Vmspace64_Search
begin

text \<open>
  Taking a space apart: the walk through the recursive window gives back the frames that a reading of the tables in
  memory lists, each as often as it is listed, and a space is destroyed at most once.
\<close>

unbundle bit_operations_syntax

section \<open>What a space holds\<close>

text \<open>The frames a space owns in its low half, read from its tables in memory, in the order in which they are given back:
  the pages of a table before the table, and never the page that reservations share.\<close>

definition page_frames :: "u64 \<Rightarrow> machine \<Rightarrow> nat \<Rightarrow> nat \<Rightarrow> u64 list" where
  "page_frames z m pt d =
     (let e = mem m pt d in if has e PAGE64_PRESENT \<and> e AND ADDR_MASK \<noteq> z then [e AND ADDR_MASK] else [])"

definition pt_frames :: "u64 \<Rightarrow> machine \<Rightarrow> nat \<Rightarrow> nat \<Rightarrow> u64 list" where
  "pt_frames z m pd c =
     (let e = mem m pd c in if \<not> has e PAGE64_PRESENT \<or> has e PAGE64_HUGE then []
      else concat (map (page_frames z m (frame_of e)) [0..<512]) @ [e AND ADDR_MASK])"

definition pd_frames :: "u64 \<Rightarrow> machine \<Rightarrow> nat \<Rightarrow> nat \<Rightarrow> u64 list" where
  "pd_frames z m pdpt b =
     (let e = mem m pdpt b in if \<not> has e PAGE64_PRESENT \<or> has e PAGE64_HUGE then []
      else concat (map (pt_frames z m (frame_of e)) [0..<512]) @ [e AND ADDR_MASK])"

definition pdpt_frames :: "u64 \<Rightarrow> machine \<Rightarrow> nat \<Rightarrow> nat \<Rightarrow> u64 list" where
  "pdpt_frames z m pml4 a =
     (let e = mem m pml4 a in if \<not> has e PAGE64_PRESENT then []
      else concat (map (pd_frames z m (frame_of e)) [0..<512]) @ [e AND ADDR_MASK])"

definition space_frames :: "u64 \<Rightarrow> machine \<Rightarrow> u64 list" where
  "space_frames z m = concat (map (pdpt_frames z m (root m)) [0..<KERNEL_HALF])"

definition freed :: "u64 list \<Rightarrow> machine \<Rightarrow> machine" where
  "freed L m = m\<lparr>pmm := fold (\<lambda>a. pmm64_free_frame (unat a)) L (pmm m)\<rparr>"

lemma freed_simps [simp]:
  "freed [] m = m" "freed (a # L) m = freed L (free_to a m)" "freed (L @ K) m = freed K (freed L m)"
  "cr3 (freed L m) = cr3 m" "mem (freed L m) = mem m"
  by (simp_all add: freed_def free_to_def)

lemma free_to_fields [simp]: "cr3 (free_to a m) = cr3 m" "mem (free_to a m) = mem m"
  by (simp_all add: free_to_def)

lemma walk_freed:
  assumes "\<And>x n. x \<in> set xs \<Longrightarrow> cr3 n = cr3 m \<Longrightarrow> mem n = mem m \<Longrightarrow> f x n = Some (freed (L x) n)"
  shows "cr3 n = cr3 m \<Longrightarrow> mem n = mem m \<Longrightarrow> walk_all f xs n = Some (freed (concat (map L xs)) n)"
  using assms by (induction xs arbitrary: n) simp_all

section \<open>The window\<close>

lemma take_bit_idx_nat: "n < 512 \<Longrightarrow> take_bit 9 (of_nat n :: u64) = of_nat n"
  by (simp add: take_bit_of_nat take_bit_nat_eq_self)

lemma unat_idx: "n < 512 \<Longrightarrow> unat (of_nat n :: u64) = n"
  by (simp add: unsigned_of_nat take_bit_nat_eq_self)

text \<open>The addresses the loops compute are the recursive addresses of an address with those indices.\<close>

lemma rec_addrs:
  assumes "a < 512" "b < 512" "c < 512"
  defines "v \<equiv> Paging64.fields (of_nat a) (of_nat b) (of_nat c) 0"
  shows "rec_pdpt a = pdpt_addr v" "rec_pd a b = pd_addr v" "rec_pt a b c = pt_addr v"
    "unat (PML4_IDX v) = a" "unat (PDPT_IDX v) = b" "unat (PD_IDX v) = c"
proof -
  note i = fields_idx [OF take_bit_idx_nat [OF assms(1)] take_bit_idx_nat [OF assms(2)] take_bit_idx_nat [OF assms(3)],
      of 0, folded v_def]
  then show "unat (PML4_IDX v) = a" "unat (PDPT_IDX v) = b" "unat (PD_IDX v) = c" using assms(1-3) by (simp_all add: unat_idx)
  show "rec_pdpt a = pdpt_addr v" "rec_pd a b = pd_addr v" "rec_pt a b c = pt_addr v"
    using i by (simp_all add: rec_pdpt_def rec_pd_def rec_pt_def pdpt_addr_def pd_addr_def pt_addr_def)
qed

lemma window:
  assumes "self_ref m" and "a < 512" "b < 512" "c < 512"
    and "e4 = mem m (root m) a" and "e3 = mem m (frame_of e4) b" and "e2 = mem m (frame_of e3) c"
    and "bit e4 0"
  shows "d < 512 \<Longrightarrow> vload m (rec_pdpt a) (of_nat d) = Some (mem m (frame_of e4) d)"
    and "d < 512 \<Longrightarrow> \<not> bit e4 7 \<Longrightarrow> bit e3 0 \<Longrightarrow> vload m (rec_pd a b) (of_nat d) = Some (mem m (frame_of e3) d)"
    and "d < 512 \<Longrightarrow> \<not> bit e4 7 \<Longrightarrow> bit e3 0 \<Longrightarrow> \<not> bit e3 7 \<Longrightarrow> bit e2 0 \<Longrightarrow>
         vload m (rec_pt a b c) (of_nat d) = Some (mem m (frame_of e2) d)"
  using mmu_pdpt [OF assms(1)] mmu_pd [OF assms(1) refl, where v = "Paging64.fields (of_nat a) (of_nat b) (of_nat c) 0", OF _ _ refl]
    mmu_pt [OF assms(1) refl, where v = "Paging64.fields (of_nat a) (of_nat b) (of_nat c) 0", OF _ _ refl _ _ refl]
    rec_addrs [OF assms(2-4)] assms(5-8)
  by (simp_all add: vload_def unat_idx)

lemma vload_pml4: "self_ref m \<Longrightarrow> d < 512 \<Longrightarrow> vload m pml4_addr (of_nat d) = Some (mem m (root m) d)"
  by (simp add: vload_def mmu_pml4 unat_idx)

section \<open>Taking the low half apart\<close>

lemma self_ref_cong: "cr3 n = cr3 m \<Longrightarrow> mem n = mem m \<Longrightarrow> self_ref m \<Longrightarrow> self_ref n"
  by (simp add: self_ref_def)

lemma free_pt_freed:
  assumes sr: "self_ref m" and i: "a < 512" "b < 512" "c < 512"
    and e4: "e4 = mem m (root m) a" "bit e4 0" "\<not> bit e4 7" and e3: "e3 = mem m (frame_of e4) b" "bit e3 0" "\<not> bit e3 7"
    and n: "cr3 n = cr3 m" "mem n = mem m"
  shows "free_pt z a b c n = Some (freed (pt_frames z m (frame_of e3) c) n)"
proof -
  define e2 where "e2 = mem m (frame_of e3) c"
  note w = window [OF self_ref_cong [OF _ _ sr] i, of _ e4 e3 e2]
  have pd: "vload n (rec_pd a b) (of_nat c) = Some e2"
    using w(2) [OF n] e4 e3 n i by (simp add: e2_def)
  have pt: "vload k (rec_pt a b c) (of_nat d) = Some (mem m (frame_of e2) d)"
    if "bit e2 0" "d < 512" "cr3 k = cr3 m" "mem k = mem m" for k d
    using w(3) [OF that(3,4)] e4 e3 that by (simp add: e2_def)
  have "walk_all (free_page z (rec_pt a b c)) [0..<512] n
      = Some (freed (concat (map (page_frames z m (frame_of e2)) [0..<512])) n)" if "bit e2 0"
    using n by (intro walk_freed [of _ m]) (auto simp: free_page_def pt that page_frames_def Let_def)
  then show ?thesis by (simp add: free_pt_def pd pt_frames_def e2_def [symmetric] has_bit)
qed

lemma free_pd_freed:
  assumes sr: "self_ref m" and i: "a < 512" "b < 512"
    and e4: "e4 = mem m (root m) a" "bit e4 0" "\<not> bit e4 7" and n: "cr3 n = cr3 m" "mem n = mem m"
  shows "free_pd z a b n = Some (freed (pd_frames z m (frame_of e4) b) n)"
proof -
  define e3 where "e3 = mem m (frame_of e4) b"
  have pd: "vload n (rec_pdpt a) (of_nat b) = Some e3"
    using window(1) [OF self_ref_cong [OF n sr] i(1,2), of 0 e4 e3] e4 n i by (simp add: e3_def)
  have "walk_all (free_pt z a b) [0..<512] n = Some (freed (concat (map (pt_frames z m (frame_of e3)) [0..<512])) n)"
    if "bit e3 0" "\<not> bit e3 7"
    using free_pt_freed [OF sr i _ e4 e3_def that] n by (intro walk_freed [of _ m]) auto
  then show ?thesis by (simp add: free_pd_def pd pd_frames_def e3_def [symmetric] has_bit)
qed

lemma free_pdpt_freed:
  assumes sr: "self_ref m" and i: "a < 512" and nh: "bit (mem m (root m) a) 0 \<Longrightarrow> \<not> bit (mem m (root m) a) 7"
  shows "free_pdpt z a m = Some (if bit (mem m (root m) a) 0
           then store_word (root m) a 0 (freed (pdpt_frames z m (root m) a) m) else m)"
proof -
  define e4 where "e4 = mem m (root m) a"
  have "walk_all (free_pd z a) [0..<512] m = Some (freed (concat (map (pd_frames z m (frame_of e4)) [0..<512])) m)" if "bit e4 0"
    using free_pd_freed [OF sr i _ e4_def that] nh that by (intro walk_freed [of _ m]) (auto simp: e4_def)
  moreover have "mmu_frame n pml4_addr = Some (root m)" if "cr3 n = cr3 m" "mem n = mem m" for n
    using mmu_pml4 [OF self_ref_cong [OF that sr]] that by simp
  ultimately show ?thesis
    using vload_pml4 [OF sr i]
    by (auto simp: free_pdpt_def e4_def [symmetric] has_bit vstore_def unat_idx [OF i] pdpt_frames_def Let_def freed_def free_to_def)
qed

definition cleared :: "nat \<Rightarrow> machine \<Rightarrow> machine" where
  "cleared k m = m\<lparr>mem := (mem m)(root m := (\<lambda>i. if i < k \<and> bit (mem m (root m) i) 0 then 0 else mem m (root m) i))\<rparr>"

lemma cleared_fields [simp]:
  "cr3 (cleared k m) = cr3 m" "pmm (cleared k m) = pmm m" "f \<noteq> root m \<Longrightarrow> mem (cleared k m) f = mem m f"
  "k \<le> i \<Longrightarrow> mem (cleared k m) (root m) i = mem m (root m) i"
  by (simp_all add: cleared_def)

lemma cleared_0: "cleared 0 m = m"
  by (simp add: cleared_def)

lemma cleared_Suc:
  "freed L (cleared (Suc k) m) =
     (if bit (mem m (root m) k) 0 then store_word (root m) k 0 (freed L (cleared k m)) else freed L (cleared k m))"
proof (cases "bit (mem m (root m) k) 0")
  case True
  then have "(\<lambda>i. if i < Suc k \<and> bit (mem m (root m) i) 0 then 0 else mem m (root m) i)
      = (\<lambda>i. if i < k \<and> bit (mem m (root m) i) 0 then 0 else mem m (root m) i)(k := 0)"
    by (auto simp: fun_eq_iff less_Suc_eq)
  then show ?thesis using True by (simp add: freed_def cleared_def store_word_def)
next
  case False
  then have "(\<lambda>i. if i < Suc k \<and> bit (mem m (root m) i) 0 then 0 else mem m (root m) i)
      = (\<lambda>i. if i < k \<and> bit (mem m (root m) i) 0 then 0 else mem m (root m) i)"
    by (auto simp: fun_eq_iff less_Suc_eq)
  then show ?thesis using False by (simp add: cleared_def)
qed

text \<open>Below an entry that is still there nothing has changed: no table is the PML4.\<close>

lemma frames_cleared:
  assumes inv: "paging_inv m" and "k \<le> a" "a < 510" and n: "cr3 n = cr3 m" "mem n = mem (cleared k m)"
  shows "pdpt_frames z n (root n) a = pdpt_frames z m (root m) a"
proof (cases "bit (mem m (root m) a) 0")
  case p: True
  define e4 where "e4 = mem m (root m) a"
  have e4: "mem n (root n) a = e4" using assms(2) n by (simp add: e4_def)
  have nr: "f \<noteq> root m" if "valid_path p" "p \<noteq> []" "tpath m p = Some f" for p f using inv that by (simp add: paging_inv_def)
  have same: "mem n f = mem m f" if "valid_path p" "p \<noteq> []" "tpath m p = Some f" for p f
    using nr [OF that] n by simp
  have nh: "\<not> bit e4 7" using inv p assms(3) by (auto simp: paging_inv_def e4_def)
  have t1: "tpath m [a] = Some (frame_of e4)" using p nh by (simp add: tpath_1 tstep_Some e4_def)
  have v: "valid_path [a]" "valid_path [a, b]" "valid_path [a, b, c]" if "b < 512" "c < 512" for b c
    using that assms(3) by (auto simp: valid_path_def)
  have m1: "mem n (frame_of e4) = mem m (frame_of e4)" using same [OF v(1) _ t1, of 0 0] by simp
  have pt: "pt_frames z n pd c = pt_frames z m pd c" if "c < 512" "b < 512" "tpath m [a, b] = Some pd" for b c pd
  proof -
    have m2: "mem n pd = mem m pd" using same [OF v(2) _ that(3)] that by simp
    have "mem n (frame_of (mem m pd c)) = mem m (frame_of (mem m pd c))" if "bit (mem m pd c) 0" "\<not> bit (mem m pd c) 7"
      using same [OF v(3), of b c] that \<open>tpath m [a, b] = Some pd\<close> \<open>b < 512\<close> \<open>c < 512\<close> by (simp add: tpath_3 tstep_Some)
    moreover have "page_frames z n t = page_frames z m t" if "mem n t = mem m t" for t
      using that by (simp add: fun_eq_iff page_frames_def)
    ultimately show ?thesis by (simp add: pt_frames_def m2 has_bit Let_def)
  qed
  have pd: "pd_frames z n (frame_of e4) b = pd_frames z m (frame_of e4) b" if "b < 512" for b
  proof -
    have "tpath m [a, b] = Some (frame_of (mem m (frame_of e4) b))"
      if "bit (mem m (frame_of e4) b) 0" "\<not> bit (mem m (frame_of e4) b) 7"
      using t1 that by (simp add: tpath_2 tstep_Some)
    then show ?thesis
      using pt [OF _ that] by (auto simp: pd_frames_def m1 has_bit Let_def cong: map_cong intro!: arg_cong [of _ _ concat])
  qed
  show ?thesis
    using pd p e4 by (auto simp: pdpt_frames_def e4_def [symmetric] has_bit Let_def intro!: arg_cong [of _ _ concat])
next
  case False
  then show ?thesis using assms(2) n by (simp add: pdpt_frames_def has_bit)
qed

lemma walk_all_append: "walk_all f (xs @ ys) s = Option.bind (walk_all f xs s) (walk_all f ys)"
proof (induction xs arbitrary: s)
  case (Cons x xs)
  then show ?case by (cases "f x s") simp_all
qed simp

lemma free_low_half_freed:
  assumes inv: "paging_inv m"
  shows "k \<le> KERNEL_HALF \<Longrightarrow> walk_all (free_pdpt z) [0..<k] m
     = Some (freed (concat (map (pdpt_frames z m (root m)) [0..<k])) (cleared k m))"
proof (induction k)
  case (Suc k)
  let ?L = "concat (map (pdpt_frames z m (root m)) [0..<k])"
  define n where "n = freed ?L (cleared k m)"
  have k: "k < 510" "k < 512" using Suc.prems by (simp_all add: KERNEL_HALF_def)
  have n: "cr3 n = cr3 m" "mem n = mem (cleared k m)" by (simp_all add: n_def)
  have sr: "self_ref n" using inv k n by (simp add: paging_inv_def self_ref_def)
  have e: "mem n (root n) k = mem m (root m) k" using n by simp
  have nh: "bit (mem n (root n) k) 0 \<Longrightarrow> \<not> bit (mem n (root n) k) 7" using inv k e by (auto simp: paging_inv_def)
  note fp = free_pdpt_freed [OF sr k(2) nh, of z] and same = frames_cleared [OF inv order_refl k(1) n, of z]
  have "walk_all (free_pdpt z) [k] n = Some (freed (pdpt_frames z m (root m) k) (freed ?L (cleared (Suc k) m)))"
  proof (cases "bit (mem m (root m) k) 0")
    case True
    then show ?thesis using fp same n e
      by (simp add: n_def [symmetric] cleared_Suc) (simp add: freed_def store_word_def)
  next
    case False
    then have "pdpt_frames z m (root m) k = []" by (simp add: pdpt_frames_def has_bit)
    then show ?thesis using False fp e by (simp add: n_def [symmetric] cleared_Suc)
  qed
  then show ?case using Suc by (simp add: walk_all_append n_def [symmetric])
qed (simp add: cleared_0)

section \<open>Owners and the list of spaces\<close>

lemma freed_owners:
  "pmm_inv P \<Longrightarrow> pmm_inv (fold (\<lambda>a. pmm64_free_frame (unat a)) L P)
     \<and> owners (fold (\<lambda>a. pmm64_free_frame (unat a)) L P) f = owners P f - count_list (map (\<lambda>a. unat a div 4096) L) f"
proof (induction L arbitrary: P)
  case (Cons a L)
  from Cons.IH [of "pmm64_free_frame (unat a) P"] show ?case
    using free_frame_step [OF Cons.prems, of "unat a"] by (auto simp: FRAME_SIZE_def)
qed simp

lemma set_remove_swap:
  "distinct xs \<Longrightarrow> set (remove_swap p xs) = set xs - {p} \<and> distinct (remove_swap p xs)"
proof (induction xs)
  case (Cons x xs)
  have "set (last xs # butlast xs) = set xs \<and> distinct (last xs # butlast xs)" if "xs \<noteq> []"
    using that Cons.prems by (cases xs rule: rev_cases) auto
  then show ?case using Cons by auto
qed simp

lemma remove_swap_absent: "p \<notin> set xs \<Longrightarrow> remove_swap p xs = xs"
  by (induction xs) auto

section \<open>Properties\<close>

text \<open>C12: Destroying a space gives back exactly what it held, once. For a space that is live and not the one loaded,
  whose tables are well formed, \<open>vmspace64_destroy\<close> never faults while it walks the tables through the window:
  afterwards every frame has lost one owner for each page of the low half that mapped it, each table that was
  there and the PML4 itself, the reservations' shared page excepted; CR3 is what it was, no memory but
  the PML4 has been written, and the space is no longer listed. Destroying it again, through any other copy of the
  descriptor, changes nothing at all.\<close>

theorem vmspace64_destroy_gives_back:
  assumes "vs \<noteq> 0" and "cr3 (mach (heap s)) AND ADDR_MASK \<noteq> vs" and "vs \<in> set (live s)" and "distinct (live s)"
    and "paging_inv ((mach (heap s))\<lparr>cr3 := vs\<rparr>)"
  shows "\<exists>s'. vmspace64_destroy z vs s = Some (0, s')
     \<and> set (live s') = set (live s) - {vs} \<and> distinct (live s')
     \<and> (\<forall>f. owners (pmm (mach (heap s'))) f = owners (pmm (mach (heap s))) f
          - count_list (map (\<lambda>a. unat a div 4096) (space_frames z ((mach (heap s))\<lparr>cr3 := vs\<rparr>) @ [vs])) f)
     \<and> cr3 (mach (heap s')) = cr3 (mach (heap s))
     \<and> (\<forall>f. f \<noteq> frame_of vs \<longrightarrow> mem (mach (heap s')) f = mem (mach (heap s)) f)
     \<and> vmspace64_destroy z vs s' = Some (0, s')"
proof -
  let ?m = "mach (heap s)"
  define M where "M = ?m\<lparr>cr3 := vs\<rparr>"
  define L where "L = space_frames z M"
  define m' where "m' = free_to vs ((freed L (cleared KERNEL_HALF M))\<lparr>cr3 := cr3 ?m\<rparr>)"
  define s' where "s' = set_mach m' (s\<lparr>live := remove_swap vs (live s)\<rparr>)"
  have M: "paging_inv M" using assms(5) by (simp add: M_def)
  have "free_low_half_tables z M = Some (freed L (cleared KERNEL_HALF M))"
    using free_low_half_freed [OF M order_refl] by (simp add: free_low_half_tables_def L_def space_frames_def)
  then have d: "vmspace64_destroy z vs s = Some (0, s')"
    using assms(1-3) by (simp add: vmspace64_destroy_def live_remove_def M_def s'_def m'_def)
  have h: "mach (heap s') = m'" "live s' = remove_swap vs (live s)" by (simp_all add: s'_def set_mach_def upm_def)
  have "pmm m' = fold (\<lambda>a. pmm64_free_frame (unat a)) (L @ [vs]) (pmm ?m)"
    by (simp add: m'_def free_to_def freed_def M_def)
  then have o: "owners (pmm m') f = owners (pmm ?m) f - count_list (map (\<lambda>a. unat a div 4096) (L @ [vs])) f" for f
    using freed_owners [of "pmm ?m" "L @ [vs]" f] M by (simp add: paging_inv_def pmm_live_def M_def)
  have c: "cr3 m' = cr3 ?m" and mm: "\<forall>f. f \<noteq> frame_of vs \<longrightarrow> mem m' f = mem ?m f"
    by (simp_all add: m'_def free_to_def freed_def cleared_def M_def)
  note l = set_remove_swap [OF assms(4), of vs]
  have "vmspace64_destroy z vs s' = Some (0, s'\<lparr>live := remove_swap vs (live s')\<rparr>)"
    using l assms(1,2) by (simp add: vmspace64_destroy_def live_remove_def h c)
  moreover have "s'\<lparr>live := remove_swap vs (live s')\<rparr> = s'" using l by (simp add: remove_swap_absent h(2))
  ultimately have again: "vmspace64_destroy z vs s' = Some (0, s')" by simp
  show ?thesis
    unfolding M_def [symmetric] L_def [symmetric]
    by (intro exI [of _ s'] conjI d again) (use l o c mm in \<open>simp_all add: h\<close>)
qed

definition vm_demo :: vmstate where
  "vm_demo = \<lparr>heap = \<lparr>heap_head = 0, heap_tail = 0, free_head = 0, heap_end = 0,
      blk = (\<lambda>_. \<lparr>bsize = 0, prev = 0, nxt = 0, used = False, fnext = 0, fprev = 0\<rparr>),
      stat_steps = 0, stat_calls = 0, heap_double_frees = 0, mach = cow_demo\<lparr>cr3 := 0x7000\<rparr>\<rparr>,
    live = [0x7000, 0x1000], live_untracked = 0\<rparr>"

theorem vmspace64_destroy_gives_back_witness:
  "\<exists>s'. vmspace64_destroy 0 0x1000 vm_demo = Some (0, s') \<and> set (live s') = {0x7000} \<and> distinct (live s')
     \<and> vmspace64_destroy 0 0x1000 s' = Some (0, s')"
proof -
  have m: "(mach (heap vm_demo))\<lparr>cr3 := 0x1000\<rparr> = cow_demo" by (simp add: vm_demo_def cow_demo_def)
  have l: "live vm_demo = [0x7000, 0x1000]" "cr3 (mach (heap vm_demo)) AND ADDR_MASK \<noteq> 0x1000"
    by (simp_all add: vm_demo_def ADDR_MASK_def)
  have "set [0x7000, 0x1000] - {0x1000} = {0x7000 :: u64}" by auto
  moreover have "(0x1000 :: u64) \<noteq> 0" "0x1000 \<in> set (live vm_demo)" "distinct (live vm_demo)" by (simp_all add: l)
  ultimately show ?thesis
    using vmspace64_destroy_gives_back [of "0x1000" vm_demo 0, unfolded m, OF _ l(2) _ _ cow_demo_inv] unfolding l(1) by blast
qed

end
