(* ===== verification/Proc64.thy ===== *)
theory Proc64
  imports Vmspace64_Destroy Pipe64_Refs
begin

text \<open>
  \<^verbatim>\<open>kernel/proc64.c\<close>: the table of processes. A slot is the record \<open>proc64\<close>; its strings are lists of
  characters, cut where \<open>kstrlcpy\<close> cuts them, and its address space is the physical address of its PML4. Process
  numbers are unbounded integers: \<open>next_pid\<close> would overflow after two thousand million processes. \<open>fork\<close> also counts
  the child's descriptors in the pipe table and the file system, whose states it is given.
\<close>

section \<open>State\<close>

definition PROC64_MAX :: nat where "PROC64_MAX = 128"
definition PROC64_RESV_MAX :: nat where "PROC64_RESV_MAX = 4096"
definition PROC64_FD_MAX :: nat where "PROC64_FD_MAX = 2048"
definition PROC64_PATH_MAX :: nat where "PROC64_PATH_MAX = 1024"
definition COMM_MAX :: nat where "COMM_MAX = 16"

record proc64_fd =
  fd_kind :: nat
  fd_sigmask :: u64
  fd_node :: int
  fd_pos :: nat
  fd_rx :: int
  fd_tx :: int
  fd_sock :: int
  fd_nonblock :: bool
  fd_cloexec :: bool
  fd_used :: bool

record resv64 =
  r_start :: nat
  r_end :: nat
  r_flags :: u64

record proc64 =
  p_used :: bool
  pid :: int
  p_parent :: int
  exited :: bool
  exit_status :: int
  term_sig :: int
  vfork_parent :: int
  space :: u64
  brk_base :: nat
  brk_current :: nat
  mmap_next :: nat
  nresv :: nat
  resv :: "resv64 list"
  fds :: "proc64_fd list"
  exe_path :: string
  comm :: string
  cwd :: string

record proc_state =
  procs :: "proc64 list"
  current_pid :: int
  next_pid :: int
  full_said :: bool
  reaped_signal :: int

definition zero_fd :: proc64_fd where
  "zero_fd = \<lparr>fd_kind = 0, fd_sigmask = 0, fd_node = 0, fd_pos = 0, fd_rx = 0, fd_tx = 0, fd_sock = 0,
     fd_nonblock = False, fd_cloexec = False, fd_used = False\<rparr>"

definition zero_proc :: proc64 where
  "zero_proc = \<lparr>p_used = False, pid = 0, p_parent = 0, exited = False, exit_status = 0, term_sig = 0, vfork_parent = 0,
     space = 0, brk_base = 0, brk_current = 0, mmap_next = 0, nresv = 0,
     resv = replicate PROC64_RESV_MAX \<lparr>r_start = 0, r_end = 0, r_flags = 0\<rparr>,
     fds = replicate PROC64_FD_MAX zero_fd, exe_path = [], comm = [], cwd = []\<rparr>"

definition proc_upd :: "nat \<Rightarrow> (proc64 \<Rightarrow> proc64) \<Rightarrow> proc_state \<Rightarrow> proc_state" where
  "proc_upd i f s = s\<lparr>procs := (procs s)[i := f (procs s ! i)]\<rparr>"

definition strlcpy :: "nat \<Rightarrow> string \<Rightarrow> string" where
  "strlcpy n s = take (n - 1) s"

section \<open>Operations\<close>

definition proc64_init :: "proc_state \<Rightarrow> proc_state" where
  "proc64_init s = s\<lparr>procs := map (\<lambda>p. p\<lparr>p_used := False\<rparr>) (procs s), current_pid := -1, next_pid := 1\<rparr>"

definition slot_for :: "int \<Rightarrow> proc_state \<Rightarrow> nat option" where
  "slot_for p s = find (\<lambda>i. p_used (procs s ! i) \<and> pid (procs s ! i) = p) [0..<PROC64_MAX]"

definition proc64_get :: "int \<Rightarrow> proc_state \<Rightarrow> nat option" where
  "proc64_get p s = slot_for p s"

definition proc64_current :: "proc_state \<Rightarrow> nat option" where
  "proc64_current s = slot_for (current_pid s) s"

definition proc64_current_pid :: "proc_state \<Rightarrow> int" where
  "proc64_current_pid s = current_pid s"

definition proc64_slot_of :: "int \<Rightarrow> proc_state \<Rightarrow> int" where
  "proc64_slot_of p s =
     (case find (\<lambda>i. p_used (procs s ! i) \<and> pid (procs s ! i) = p) [0..<PROC64_MAX] of Some i \<Rightarrow> int i | None \<Rightarrow> -1)"

definition proc64_current_slot :: "proc_state \<Rightarrow> int" where
  "proc64_current_slot s = proc64_slot_of (current_pid s) s"

definition proc64_set_current :: "int \<Rightarrow> proc_state \<Rightarrow> proc_state" where
  "proc64_set_current p s = s\<lparr>current_pid := p\<rparr>"

definition proc64_create :: "proc_state \<Rightarrow> int \<times> proc_state" where
  "proc64_create s =
     (case find (\<lambda>i. \<not> p_used (procs s ! i)) [0..<PROC64_MAX] of
        None \<Rightarrow> (-1, s\<lparr>full_said := True\<rparr>)
      | Some i \<Rightarrow> (next_pid s,
          (proc_upd i (\<lambda>_. zero_proc\<lparr>p_used := True, pid := next_pid s, p_parent := 0, cwd := strlcpy PROC64_PATH_MAX ''/''\<rparr>) s)
            \<lparr>next_pid := next_pid s + 1\<rparr>))"

text \<open>One iteration of the loop over the descriptors: copied, and counted where it is open.\<close>

definition fork_fd :: "nat \<Rightarrow> nat \<Rightarrow> nat \<Rightarrow> proc_state \<times> pipe_state \<Rightarrow> proc_state \<times> pipe_state" where
  "fork_fd ip ic f x =
     (let (s, ps) = x; d = fds (procs s ! ip) ! f;
          s = proc_upd ic (\<lambda>c. c\<lparr>fds := (fds c)[f := d]\<rparr>) s
      in if \<not> fd_used d then (s, ps)
         else if fd_kind d = FD64_FILE then (s, ps\<lparr>fs := ramfs64_ref_node (fd_node d) (fs ps)\<rparr>)
         else (s, pipe64_ref (fd_tx d) False True (pipe64_ref (fd_rx d) True False ps)))"

text \<open>The outer \<open>None\<close> is the child's slot not being found after it has been created, which the code does not check.\<close>

definition proc64_fork_from :: "int \<Rightarrow> proc_state \<Rightarrow> pipe_state \<Rightarrow> (int \<times> proc_state \<times> pipe_state) option" where
  "proc64_fork_from p s ps =
     (case slot_for p s of
        None \<Rightarrow> Some (-1, s, ps)
      | Some ip \<Rightarrow>
          (let (child_pid, s) = proc64_create s
           in if child_pid < 0 then Some (-1, s, ps)
              else
              (case slot_for child_pid s of
                 None \<Rightarrow> None
               | Some ic \<Rightarrow>
                   (let (s, ps) = fold (fork_fd ip ic) [0..<PROC64_FD_MAX] (s, ps);
                        pp = procs s ! ip;
                        s = proc_upd ic (\<lambda>c. c\<lparr>brk_base := brk_base pp, brk_current := brk_current pp,
                              mmap_next := mmap_next pp, nresv := nresv pp,
                              resv := take (nresv pp) (resv pp) @ drop (nresv pp) (resv c),
                              exe_path := strlcpy PROC64_PATH_MAX (exe_path pp), comm := strlcpy COMM_MAX (comm pp),
                              cwd := strlcpy PROC64_PATH_MAX (cwd pp), p_parent := pid pp\<rparr>) s
                    in Some (child_pid, s, ps)))))"

definition proc64_exit :: "int \<Rightarrow> int \<Rightarrow> proc_state \<Rightarrow> proc_state" where
  "proc64_exit p status s =
     (case slot_for p s of
        None \<Rightarrow> s
      | Some i \<Rightarrow> proc_upd i (\<lambda>q. q\<lparr>exited := True, exit_status := status\<rparr>) s)"

definition proc64_reaped_signal :: "proc_state \<Rightarrow> int" where
  "proc64_reaped_signal s = reaped_signal s"

definition proc64_exit_signalled :: "int \<Rightarrow> int \<Rightarrow> proc_state \<Rightarrow> proc_state" where
  "proc64_exit_signalled p sig s =
     (case slot_for p s of
        None \<Rightarrow> s
      | Some i \<Rightarrow> proc64_exit p (128 + sig) (proc_upd i (\<lambda>q. q\<lparr>term_sig := sig\<rparr>) s))"

text \<open>The status is returned beside the process number, where there is one to report.\<close>

definition proc64_reap_child_pid :: "int \<Rightarrow> int \<Rightarrow> proc_state \<Rightarrow> (int \<times> int option) \<times> proc_state" where
  "proc64_reap_child_pid ppid want s =
     (case find (\<lambda>i. p_used (procs s ! i) \<and> exited (procs s ! i) \<and> p_parent (procs s ! i) = ppid
                   \<and> \<not> (want > 0 \<and> pid (procs s ! i) \<noteq> want)) [0..<PROC64_MAX] of
        Some i \<Rightarrow> ((pid (procs s ! i), Some (exit_status (procs s ! i))),
                   proc_upd i (\<lambda>q. q\<lparr>p_used := False\<rparr>) (s\<lparr>reaped_signal := term_sig (procs s ! i)\<rparr>))
      | None \<Rightarrow> ((-1, None), s\<lparr>reaped_signal := 0\<rparr>))"

definition orphan :: "proc_state \<Rightarrow> nat \<Rightarrow> bool" where
  "orphan s i \<longleftrightarrow> p_used (procs s ! i) \<and> exited (procs s ! i) \<and> pid (procs s ! i) \<noteq> current_pid s
     \<and> (if p_parent (procs s ! i) \<noteq> 0 then slot_for (p_parent (procs s ! i)) s = None else True)"

definition release_slot :: "nat \<Rightarrow> nat \<times> bool \<times> proc_state \<Rightarrow> nat \<times> bool \<times> proc_state" where
  "release_slot i x =
     (let (n, changed, s) = x
      in if orphan s i then (n + 1, True, proc_upd i (\<lambda>q. q\<lparr>p_used := False\<rparr>) s) else (n, changed, s))"

partial_function (option) release_loop :: "nat \<Rightarrow> proc_state \<Rightarrow> (nat \<times> proc_state) option" where
  "release_loop n s =
     (let (n, changed, s) = fold release_slot [0..<PROC64_MAX] (n, False, s)
      in if changed then release_loop n s else Some (n, s))"

definition proc64_release_orphans :: "proc_state \<Rightarrow> (nat \<times> proc_state) option" where
  "proc64_release_orphans s = release_loop 0 s"

definition proc64_reap_child :: "int \<Rightarrow> proc_state \<Rightarrow> (int \<times> int option) \<times> proc_state" where
  "proc64_reap_child ppid s = proc64_reap_child_pid ppid (-1) s"

definition proc64_has_child :: "int \<Rightarrow> int \<Rightarrow> proc_state \<Rightarrow> bool" where
  "proc64_has_child p want s =
     (find (\<lambda>i. p_used (procs s ! i) \<and> p_parent (procs s ! i) = p \<and> \<not> (want > 0 \<and> pid (procs s ! i) \<noteq> want))
        [0..<PROC64_MAX] \<noteq> None)"

definition proc64_has_children :: "int \<Rightarrow> proc_state \<Rightarrow> bool" where
  "proc64_has_children p s = proc64_has_child p (-1) s"

definition proc64_count :: "proc_state \<Rightarrow> nat" where
  "proc64_count s = length (filter (\<lambda>i. p_used (procs s ! i)) [0..<PROC64_MAX])"

definition PROC64_WAIT_KEY :: "int \<Rightarrow> u64" where
  "PROC64_WAIT_KEY p = 0x1000000000000000 + of_int p"

definition PROC64_VFORK_KEY :: "int \<Rightarrow> u64" where
  "PROC64_VFORK_KEY p = 0x2000000000000000 + of_int p"

end
