(* ===== verification/Proc64_Table.thy ===== *)
theory Proc64_Table
  imports Proc64
begin

text \<open>
  The table of processes, proved: the invariant of the table over every sequence of operations, what a fork gives
  the child and how it is counted, what a wait finds and what the sweep for orphans frees.
\<close>

section \<open>The invariant of the table\<close>

definition proc_ok :: "proc64 \<Rightarrow> bool" where
  "proc_ok p \<longleftrightarrow> length (fds p) = PROC64_FD_MAX \<and> length (resv p) = PROC64_RESV_MAX \<and> nresv p \<le> PROC64_RESV_MAX"

definition procs_inv :: "proc_state \<Rightarrow> bool" where
  "procs_inv s \<longleftrightarrow> length (procs s) = PROC64_MAX \<and> 0 < next_pid s \<and> (\<forall>i < PROC64_MAX. proc_ok (procs s ! i))
     \<and> (\<forall>i < PROC64_MAX. p_used (procs s ! i) \<longrightarrow> 0 < pid (procs s ! i) \<and> pid (procs s ! i) < next_pid s)
     \<and> (\<forall>i < PROC64_MAX. \<forall>j < PROC64_MAX. p_used (procs s ! i) \<and> p_used (procs s ! j) \<and> pid (procs s ! i) = pid (procs s ! j) \<longrightarrow> i = j)"

lemma procs_invD:
  assumes "procs_inv s"
  shows "length (procs s) = PROC64_MAX" "0 < next_pid s" "i < PROC64_MAX \<Longrightarrow> proc_ok (procs s ! i)"
    "i < PROC64_MAX \<Longrightarrow> p_used (procs s ! i) \<Longrightarrow> 0 < pid (procs s ! i) \<and> pid (procs s ! i) < next_pid s"
    "i < PROC64_MAX \<Longrightarrow> j < PROC64_MAX \<Longrightarrow> p_used (procs s ! i) \<Longrightarrow> p_used (procs s ! j) \<Longrightarrow> pid (procs s ! i) = pid (procs s ! j) \<Longrightarrow> i = j"
  using assms unfolding procs_inv_def by blast+

lemma find_slot_Some: "find P [0..<n] = Some i \<Longrightarrow> i < n \<and> P i"
  by (auto simp: find_Some_iff)

lemma find_slot_None: "find P [0..<n] = None \<longleftrightarrow> (\<forall>i < n. \<not> P i)"
  by (auto simp: find_None_iff)

lemma slot_for_Some:
  assumes "procs_inv s"
  shows "slot_for p s = Some i \<longleftrightarrow> i < PROC64_MAX \<and> p_used (procs s ! i) \<and> pid (procs s ! i) = p"
proof
  show "slot_for p s = Some i \<Longrightarrow> i < PROC64_MAX \<and> p_used (procs s ! i) \<and> pid (procs s ! i) = p"
    unfolding slot_for_def by (drule find_slot_Some) simp
  assume i: "i < PROC64_MAX \<and> p_used (procs s ! i) \<and> pid (procs s ! i) = p"
  show "slot_for p s = Some i"
  proof (cases "slot_for p s")
    case None
    then show ?thesis using i by (auto simp: slot_for_def find_slot_None)
  next
    case (Some j)
    then have "j < PROC64_MAX \<and> p_used (procs s ! j) \<and> pid (procs s ! j) = p"
      unfolding slot_for_def by (auto dest: find_slot_Some)
    then show ?thesis using procs_invD(5) [OF assms, of i j] i Some by simp
  qed
qed

lemma slot_for_None: "slot_for p s = None \<longleftrightarrow> (\<forall>i < PROC64_MAX. p_used (procs s ! i) \<longrightarrow> pid (procs s ! i) \<noteq> p)"
  by (auto simp: slot_for_def find_slot_None)

lemma proc_upd_fields [simp]:
  "length (procs (proc_upd i f s)) = length (procs s)" "next_pid (proc_upd i f s) = next_pid s"
  "current_pid (proc_upd i f s) = current_pid s" "reaped_signal (proc_upd i f s) = reaped_signal s"
  "j \<noteq> i \<Longrightarrow> procs (proc_upd i f s) ! j = procs s ! j"
  "i < length (procs s) \<Longrightarrow> procs (proc_upd i f s) ! i = f (procs s ! i)"
  by (simp_all add: proc_upd_def)

text \<open>A change to one slot that keeps the process in it, or ends its use.\<close>

lemma procs_inv_upd:
  assumes inv: "procs_inv s" and i: "i < PROC64_MAX" and ok: "proc_ok (f (procs s ! i))"
    and same: "p_used (f (procs s ! i)) \<Longrightarrow> p_used (procs s ! i) \<and> pid (f (procs s ! i)) = pid (procs s ! i)"
  shows "procs_inv (proc_upd i f s)"
proof -
  note I = procs_invD [OF inv]
  define t where "t = proc_upd i f s"
  have t: "procs t ! j = (if j = i then f (procs s ! i) else procs s ! j)" for j
    using i I(1) by (simp add: t_def)
  have np: "next_pid t = next_pid s" by (simp add: t_def)
  have u: "p_used (procs t ! j) \<Longrightarrow> p_used (procs s ! j) \<and> pid (procs t ! j) = pid (procs s ! j)" for j
    using same by (auto simp: t)
  have "procs_inv t"
    unfolding procs_inv_def
  proof (intro conjI allI impI)
    show "length (procs t) = PROC64_MAX" "0 < next_pid t" using I(1,2) np by (simp_all add: t_def)
    show "proc_ok (procs t ! j)" if "j < PROC64_MAX" for j using that ok I(3) by (simp add: t)
    show "0 < pid (procs t ! j)" "pid (procs t ! j) < next_pid t" if "j < PROC64_MAX" "p_used (procs t ! j)" for j
      using u [OF that(2)] I(4) [OF that(1)] np by simp_all
    show "j = k" if "j < PROC64_MAX" "k < PROC64_MAX" "p_used (procs t ! j) \<and> p_used (procs t ! k) \<and> pid (procs t ! j) = pid (procs t ! k)" for j k
      using u I(5) [OF that(1,2)] that(3) by metis
  qed
  then show ?thesis by (simp add: t_def)
qed

lemma procs_inv_fields [simp]:
  "procs_inv (s\<lparr>current_pid := p\<rparr>) = procs_inv s" "procs_inv (s\<lparr>full_said := b\<rparr>) = procs_inv s"
  "procs_inv (s\<lparr>reaped_signal := q\<rparr>) = procs_inv s"
  by (simp_all add: procs_inv_def)

lemma slot_for_fields [simp]:
  "slot_for p (s\<lparr>current_pid := c\<rparr>) = slot_for p s" "slot_for p (s\<lparr>full_said := b\<rparr>) = slot_for p s"
  "slot_for p (s\<lparr>reaped_signal := q\<rparr>) = slot_for p s" "slot_for p (s\<lparr>next_pid := c\<rparr>) = slot_for p s"
  by (simp_all add: slot_for_def)

section \<open>Creating\<close>

definition new_proc :: "int \<Rightarrow> proc64" where
  "new_proc p = zero_proc\<lparr>p_used := True, pid := p, p_parent := 0, cwd := strlcpy PROC64_PATH_MAX ''/''\<rparr>"

lemma zero_proc_ok: "proc_ok (new_proc p)"
  by (simp add: proc_ok_def new_proc_def zero_proc_def)

lemma create_full: "\<forall>i < PROC64_MAX. p_used (procs s ! i) \<Longrightarrow> proc64_create s = (-1, s\<lparr>full_said := True\<rparr>)"
  by (simp add: proc64_create_def find_slot_None [THEN iffD2])

lemma create_room:
  assumes inv: "procs_inv s" and "\<not> (\<forall>i < PROC64_MAX. p_used (procs s ! i))"
  obtains i t where "i < PROC64_MAX" "\<not> p_used (procs s ! i)" "proc64_create s = (next_pid s, t)"
    "procs t = (procs s)[i := new_proc (next_pid s)]" "next_pid t = next_pid s + 1" "current_pid t = current_pid s"
    "procs_inv t" "slot_for (next_pid s) t = Some i" "slot_for (next_pid s) s = None"
proof -
  note I = procs_invD [OF inv]
  obtain i where f: "find (\<lambda>i. \<not> p_used (procs s ! i)) [0..<PROC64_MAX] = Some i"
    using assms(2) by (cases "find (\<lambda>i. \<not> p_used (procs s ! i)) [0..<PROC64_MAX]") (auto simp: find_slot_None)
  then have i: "i < PROC64_MAX" "\<not> p_used (procs s ! i)" by (auto dest: find_slot_Some)
  define t where "t = (proc_upd i (\<lambda>_. new_proc (next_pid s)) s)\<lparr>next_pid := next_pid s + 1\<rparr>"
  have c: "proc64_create s = (next_pid s, t)" using f by (simp add: proc64_create_def t_def new_proc_def)
  have p: "procs t = (procs s)[i := new_proc (next_pid s)]" by (simp add: t_def proc_upd_def)
  have t: "procs t ! j = (if j = i then new_proc (next_pid s) else procs s ! j)" for j
    using i I(1) by (simp add: p)
  have nx: "next_pid t = next_pid s + 1" by (simp add: t_def)
  have np: "p_used (new_proc q)" "pid (new_proc q) = q" for q by (simp_all add: new_proc_def)
  have none: "slot_for (next_pid s) s = None" unfolding slot_for_None using I(4) by fastforce
  have it: "procs_inv t"
    unfolding procs_inv_def
  proof (intro conjI allI impI)
    show "length (procs t) = PROC64_MAX" using I(1) by (simp add: p)
    show "0 < next_pid t" using I(2) nx by simp
    show "proc_ok (procs t ! j)" if "j < PROC64_MAX" for j using that zero_proc_ok I(3) by (simp add: t)
    show "0 < pid (procs t ! j)" "pid (procs t ! j) < next_pid t" if "j < PROC64_MAX" "p_used (procs t ! j)" for j
      using that I(2) I(4) [of j] by (auto simp: t np nx split: if_splits)
    show "j = k" if "j < PROC64_MAX" "k < PROC64_MAX" "p_used (procs t ! j) \<and> p_used (procs t ! k) \<and> pid (procs t ! j) = pid (procs t ! k)" for j k
      using that I(4) [of j] I(4) [of k] I(5) [of j k] by (auto simp: t np split: if_splits)
  qed
  have "slot_for (next_pid s) t = Some i" using slot_for_Some [OF it] i(1) by (simp add: t np)
  from that [OF i c p _ _ it this none] show ?thesis by (simp add: t_def)
qed

section \<open>The descriptors a fork copies\<close>

definition fd_ends :: "proc64_fd \<Rightarrow> pend multiset" where
  "fd_ends d = (if fd_used d \<and> fd_kind d \<noteq> FD64_FILE then {#Rd (fd_rx d), Wr (fd_tx d)#} else {#})"

definition proc_ends :: "proc64 \<Rightarrow> pend multiset" where
  "proc_ends p = sum_list (map fd_ends (fds p))"

text \<open>The ends of pipes that all processes together hold open.\<close>

definition held_ends :: "proc_state \<Rightarrow> pend multiset" where
  "held_ends s = (\<Sum>i\<in>{i. i < PROC64_MAX \<and> p_used (procs s ! i)}. proc_ends (procs s ! i))"

definition file_refs :: "int \<Rightarrow> proc64_fd list \<Rightarrow> nat" where
  "file_refs n ds = length (filter (\<lambda>d. fd_used d \<and> fd_kind d = FD64_FILE \<and> fd_node d = n) ds)"

definition count_fd :: "proc64_fd \<Rightarrow> pipe_state \<Rightarrow> pipe_state" where
  "count_fd d ps = (if \<not> fd_used d then ps
     else if fd_kind d = FD64_FILE then ps\<lparr>fs := ramfs64_ref_node (fd_node d) (fs ps)\<rparr>
     else pipe64_ref (fd_tx d) False True (pipe64_ref (fd_rx d) True False ps))"

lemma fork_fd_eq:
  "fork_fd ip ic f (s, ps) = (proc_upd ic (\<lambda>c. c\<lparr>fds := (fds c)[f := fds (procs s ! ip) ! f]\<rparr>) s, count_fd (fds (procs s ! ip) ! f) ps)"
  by (simp add: fork_fd_def count_fd_def Let_def)

lemma fork_fds_eq:
  assumes "ip \<noteq> ic" and "ic < length (procs s)" and "length (fds (procs s ! ip)) = N" and "length (fds (procs s ! ic)) = N"
  shows "n \<le> N \<Longrightarrow> fold (fork_fd ip ic) [0..<n] (s, ps)
     = (proc_upd ic (\<lambda>c. c\<lparr>fds := take n (fds (procs s ! ip)) @ drop n (fds (procs s ! ic))\<rparr>) s,
        fold count_fd (take n (fds (procs s ! ip))) ps)"
proof (induction n)
  case 0
  then show ?case using assms(2) by (simp add: proc_upd_def)
next
  case (Suc n)
  let ?P = "fds (procs s ! ip)" and ?C = "fds (procs s ! ic)"
  have "(take n ?P @ drop n ?C)[n := ?P ! n] = take (Suc n) ?P @ drop (Suc n) ?C"
    using Suc.prems assms(3,4)
    by (simp add: list_update_append take_Suc_conv_app_nth Cons_nth_drop_Suc [symmetric])
  moreover have "take (Suc n) ?P = take n ?P @ [?P ! n]" using Suc.prems assms(3) by (simp add: take_Suc_conv_app_nth)
  ultimately show ?case using Suc assms by (simp add: fork_fd_eq) (simp add: proc_upd_def)
qed

lemma ref_pipes_any:
  assumes "pipes_inv s H" and "0 \<le> p \<Longrightarrow> pipe64_valid p s"
  shows "pipes_inv (pipe64_ref p r w s) (H + ends p r w)"
proof (cases "0 \<le> p")
  case True
  then show ?thesis using ref_pipes [OF assms(1)] assms(2) by blast
next
  case False
  then have "pipe64_ref p r w s = s" by (simp add: pipe64_ref_def pipe64_valid_def)
  moreover have "pipes_inv s (H + ends p r w)"
    using False by (intro pipes_invI) (use pipes_invD [OF assms(1)] in \<open>auto simp: ends_def\<close>)
  ultimately show ?thesis by simp
qed

lemma ref_valid [simp]: "pipe64_valid q (pipe64_ref p r w s) = pipe64_valid q s"
  by (simp add: pipe64_ref_def Let_def valid_upd)

lemma ref_fs [simp]: "fs (pipe64_ref p r w s) = fs s"
  by (simp add: pipe64_ref_def Let_def)

lemma ref_node_ok:
  assumes "ramfs_ok s"
  shows "ramfs_ok (ramfs64_ref_node n s)"
proof -
  obtain K F where inv: "tree_inv s K F {}" using assms by (auto simp: ramfs_ok_def)
  show ?thesis
  proof (cases "valid n s")
    case True
    then have a: "alive s n" using valid_live [OF tree_invD(1) [OF inv]] by simp
    then have "0 \<le> openers (nodes s n)" using tree_invD(7) [OF inv] by (simp add: flags_ok_def)
    then have "tree_inv (nupd n (\<lambda>x. x\<lparr>openers := openers (nodes s n) + 1\<rparr>) s) K F {}"
      by (intro openers_inv [OF inv a]) auto
    moreover have "ramfs64_ref_node n s = nupd n (\<lambda>x. x\<lparr>openers := openers (nodes s n) + 1\<rparr>) s"
      using True by (simp add: ramfs64_ref_node_def nupd_def)
    ultimately show ?thesis by (auto simp: ramfs_ok_def)
  qed (use assms in \<open>simp add: ramfs64_ref_node_def\<close>)
qed

lemma ref_node_openers:
  "valid q (ramfs64_ref_node n s) = valid q s"
  "valid q s \<Longrightarrow> openers (nodes (ramfs64_ref_node n s) q) = openers (nodes s q) + (if q = n then 1 else 0)"
  by (auto simp: ramfs64_ref_node_def nupd_def valid_def)

lemma count_fd_pipes:
  assumes inv: "pipes_inv ps H" and "fd_ends d \<subseteq># H"
  shows "pipes_inv (count_fd d ps) (H + fd_ends d)"
proof (cases "fd_used d \<and> fd_kind d \<noteq> FD64_FILE")
  case True
  then have h: "Rd (fd_rx d) \<in># H" "Wr (fd_tx d) \<in># H"
    using assms(2) mset_subset_eqD [of "fd_ends d" H] by (simp_all add: fd_ends_def)
  have "0 \<le> fd_rx d \<Longrightarrow> pipe64_valid (fd_rx d) ps" "0 \<le> fd_tx d \<Longrightarrow> pipe64_valid (fd_tx d) ps"
    using held_in_use [OF inv h(1)] held_in_use [OF inv h(2)] by simp_all
  then have "pipes_inv (pipe64_ref (fd_tx d) False True (pipe64_ref (fd_rx d) True False ps))
      (H + ends (fd_rx d) True False + ends (fd_tx d) False True)"
    by (intro ref_pipes_any inv) simp_all
  moreover have "H + ends (fd_rx d) True False + ends (fd_tx d) False True = H + fd_ends d"
    using True by (simp add: fd_ends_def ends_def)
  ultimately show ?thesis using True by (simp add: count_fd_def)
next
  case False
  then have "pipes (count_fd d ps) = pipes ps" "fd_ends d = {#}" by (auto simp: count_fd_def fd_ends_def)
  moreover have "ramfs_ok (fs (count_fd d ps))"
    using False pipes_invD(1) [OF inv] ref_node_ok by (auto simp: count_fd_def)
  ultimately show ?thesis using pipes_inv_cong [OF inv] by simp
qed

lemma count_fds_pipes:
  "pipes_inv ps (H + E) \<Longrightarrow> sum_list (map fd_ends ds) \<subseteq># H \<Longrightarrow> pipes_inv (fold count_fd ds ps) (H + E + sum_list (map fd_ends ds))"
proof (induction ds arbitrary: ps E)
  case (Cons d ds)
  have "fd_ends d \<subseteq># H" "sum_list (map fd_ends ds) \<subseteq># H"
    using Cons.prems(2) subset_mset.order_trans [OF _ Cons.prems(2)] by simp_all
  then have "pipes_inv (count_fd d ps) (H + (E + fd_ends d))"
    using count_fd_pipes [OF Cons.prems(1)] subset_mset.order_trans [of "fd_ends d" H "H + E"] by (simp add: ac_simps)
  from Cons.IH [OF this \<open>sum_list (map fd_ends ds) \<subseteq># H\<close>] show ?case by (simp add: ac_simps)
qed simp

lemma count_fds_openers:
  "valid q (fs ps) \<Longrightarrow> valid q (fs (fold count_fd ds ps))
     \<and> openers (nodes (fs (fold count_fd ds ps)) q) = openers (nodes (fs ps) q) + int (file_refs q ds)"
proof (induction ds arbitrary: ps)
  case (Cons d ds)
  have "valid q (fs (count_fd d ps))"
    "openers (nodes (fs (count_fd d ps)) q) = openers (nodes (fs ps) q) + int (file_refs q [d])"
    using Cons.prems by (auto simp: count_fd_def file_refs_def ref_node_openers)
  then show ?case using Cons.IH [of "count_fd d ps"] by (simp add: file_refs_def)
qed (simp add: file_refs_def)

lemma held_ends_split:
  assumes "i < PROC64_MAX" and "p_used (procs s ! i)"
  shows "proc_ends (procs s ! i) \<subseteq># held_ends s"
  unfolding held_ends_def using assms by (subst sum.remove [of _ i]) auto

lemma held_ends_new:
  assumes "i < PROC64_MAX" and "\<not> p_used (procs s ! i)" and "p_used (procs t ! i)" and "\<And>j. j \<noteq> i \<Longrightarrow> procs t ! j = procs s ! j"
  shows "held_ends t = held_ends s + proc_ends (procs t ! i)"
proof -
  let ?S = "{j. j < PROC64_MAX \<and> p_used (procs s ! j)}"
  have "{j. j < PROC64_MAX \<and> p_used (procs t ! j)} = insert i ?S"
    using assms(1,3,4) by (auto, metis+)
  moreover have "(\<Sum>j\<in>?S. proc_ends (procs t ! j)) = (\<Sum>j\<in>?S. proc_ends (procs s ! j))"
    using assms(2,4) by (intro sum.cong) (auto, metis)
  ultimately show ?thesis using assms(2) by (simp add: held_ends_def add.commute)
qed

section \<open>Forking\<close>

definition child_of :: "int \<Rightarrow> proc64 \<Rightarrow> proc64" where
  "child_of q p = (new_proc q)\<lparr>fds := fds p, brk_base := brk_base p, brk_current := brk_current p, mmap_next := mmap_next p,
     nresv := nresv p, resv := take (nresv p) (resv p) @ drop (nresv p) (resv (new_proc q)),
     exe_path := strlcpy PROC64_PATH_MAX (exe_path p), comm := strlcpy COMM_MAX (comm p),
     cwd := strlcpy PROC64_PATH_MAX (cwd p), p_parent := pid p\<rparr>"

lemma child_of_fields [simp]:
  "p_used (child_of q p)" "pid (child_of q p) = q" "p_parent (child_of q p) = pid p" "fds (child_of q p) = fds p"
  "\<not> exited (child_of q p)"
  by (simp_all add: child_of_def new_proc_def zero_proc_def)

lemma child_of_ok: "proc_ok p \<Longrightarrow> proc_ok (child_of q p)"
  by (simp add: proc_ok_def child_of_def new_proc_def zero_proc_def)

lemma fork_from_eq:
  assumes inv: "procs_inv s" and ip: "slot_for p s = Some ip" and room: "\<not> (\<forall>i < PROC64_MAX. p_used (procs s ! i))"
  obtains ic t where "ic < PROC64_MAX" "\<not> p_used (procs s ! ic)" "slot_for (next_pid s) s = None"
    "proc64_fork_from p s ps = Some (next_pid s, t, fold count_fd (fds (procs s ! ip)) ps)"
    "procs t = (procs s)[ic := child_of (next_pid s) (procs s ! ip)]" "procs_inv t" "current_pid t = current_pid s"
    "next_pid t = next_pid s + 1"
proof -
  obtain ic u where c: "ic < PROC64_MAX" "\<not> p_used (procs s ! ic)" "proc64_create s = (next_pid s, u)"
    "procs u = (procs s)[ic := new_proc (next_pid s)]" "next_pid u = next_pid s + 1" "current_pid u = current_pid s"
    "procs_inv u" "slot_for (next_pid s) u = Some ic" "slot_for (next_pid s) s = None"
    by (rule create_room [OF inv room])
  note I = procs_invD [OF inv]
  have i: "ip < PROC64_MAX" "p_used (procs s ! ip)" using slot_for_Some [OF inv] ip by auto
  then have ne: "ip \<noteq> ic" using c(2) by auto
  let ?P = "procs s ! ip"
  have u: "procs u ! ip = ?P" "procs u ! ic = new_proc (next_pid s)" "length (procs u) = PROC64_MAX"
    using ne c(1,4) I(1) by simp_all
  have len: "length (fds ?P) = PROC64_FD_MAX" "length (fds (new_proc (next_pid s))) = PROC64_FD_MAX"
    using I(3) [OF i(1)] zero_proc_ok by (simp_all add: proc_ok_def)
  define t where "t = proc_upd ic (\<lambda>_. child_of (next_pid s) ?P) u"
  have loop: "fold (fork_fd ip ic) [0..<PROC64_FD_MAX] (u, ps)
      = (proc_upd ic (\<lambda>c. c\<lparr>fds := fds ?P\<rparr>) u, fold count_fd (fds ?P) ps)"
    using fork_fds_eq [of ip ic u PROC64_FD_MAX PROC64_FD_MAX ps] ne c(1) u len by simp
  have "proc64_fork_from p s ps = Some (next_pid s, t, fold count_fd (fds ?P) ps)"
    using ip c(3,8) I(2) loop ne c(1) u
    by (simp add: proc64_fork_from_def t_def Let_def) (simp add: proc_upd_def child_of_def)
  moreover have pt: "procs t = (procs s)[ic := child_of (next_pid s) ?P]" by (simp add: t_def proc_upd_def c(4))
  moreover have "procs_inv t"
    unfolding t_def using c(1,7) u child_of_ok [OF I(3) [OF i(1)]] by (intro procs_inv_upd) (simp_all add: new_proc_def)
  ultimately show ?thesis using c(1,2,5,6,9) that by (simp add: t_def)
qed

text \<open>C28: A fork gives the child everything it inherits and counts it. If the parent exists, \<open>proc64_fork_from\<close> always returns.
  With no slot free it returns -1 and changes no process, pipe or file. Otherwise the child gets a number no
  process has, in a slot that was free, with the parent's descriptors, memory layout, names and directory and
  not exited; no other process changes. Every pipe's counts are exact again, now that the child holds every
  end the parent does, and every file has one opener more for each descriptor of the parent on it.\<close>

theorem proc64_fork_from_correct:
  assumes "procs_inv s" and "slot_for p s = Some ip" and "pipes_inv ps (held_ends s)"
  shows "\<exists>r s' ps'. proc64_fork_from p s ps = Some (r, s', ps') \<and> procs_inv s' \<and> pipes_inv ps' (held_ends s')
     \<and> (if \<forall>i < PROC64_MAX. p_used (procs s ! i) then r = -1 \<and> procs s' = procs s \<and> ps' = ps
        else r = next_pid s \<and> slot_for r s = None
           \<and> (\<exists>ic. \<not> p_used (procs s ! ic) \<and> slot_for r s' = Some ic
                \<and> procs s' = (procs s)[ic := child_of r (procs s ! ip)])
           \<and> (\<forall>n. valid n (fs ps) \<longrightarrow>
                openers (nodes (fs ps') n) = openers (nodes (fs ps) n) + int (file_refs n (fds (procs s ! ip)))))"
proof (cases "\<forall>i < PROC64_MAX. p_used (procs s ! i)")
  case True
  then have "proc64_fork_from p s ps = Some (-1, s\<lparr>full_said := True\<rparr>, ps)"
    using assms(2) by (simp add: proc64_fork_from_def create_full)
  moreover have "held_ends (s\<lparr>full_said := True\<rparr>) = held_ends s" by (simp add: held_ends_def)
  ultimately show ?thesis using True assms by auto
next
  case False
  let ?P = "procs s ! ip"
  have ip: "ip < PROC64_MAX" "p_used ?P" using slot_for_Some [OF assms(1)] assms(2) by auto
  from fork_from_eq [OF assms(1,2) False, of ps] obtain ic t where
    c: "ic < PROC64_MAX" "\<not> p_used (procs s ! ic)" "slot_for (next_pid s) s = None"
      "proc64_fork_from p s ps = Some (next_pid s, t, fold count_fd (fds ?P) ps)"
      "procs t = (procs s)[ic := child_of (next_pid s) ?P]" "procs_inv t" "next_pid t = next_pid s + 1"
    by metis
  have len: "length (procs s) = PROC64_MAX" by (rule procs_invD(1) [OF assms(1)])
  have ct: "procs t ! ic = child_of (next_pid s) ?P" using c(1,5) len by simp
  have "held_ends t = held_ends s + proc_ends (child_of (next_pid s) ?P)"
    using held_ends_new [OF c(1,2), of t] ct c(5) by simp
  then have "held_ends t = held_ends s + sum_list (map fd_ends (fds ?P))" by (simp add: proc_ends_def)
  then have pipes: "pipes_inv (fold count_fd (fds ?P) ps) (held_ends t)"
    using count_fds_pipes [of ps "held_ends s" "{#}" "fds ?P"] assms(3) held_ends_split [OF ip] by (simp add: proc_ends_def)
  have "slot_for (next_pid s) t = Some ic" using slot_for_Some [OF c(6)] c(1) ct by simp
  then have child: "\<exists>ic. \<not> p_used (procs s ! ic) \<and> slot_for (next_pid s) t = Some ic \<and> procs t = (procs s)[ic := child_of (next_pid s) ?P]"
    using c(2,5) by blast
  show ?thesis
    by (intro exI [of _ "next_pid s"] exI [of _ t] exI [of _ "fold count_fd (fds ?P) ps"])
       (use c(3,4,6) pipes child count_fds_openers [of _ ps "fds ?P"] in \<open>simp add: if_not_P [OF False]\<close>)
qed

section \<open>Ending and reaping\<close>

definition reapable :: "int \<Rightarrow> int \<Rightarrow> proc_state \<Rightarrow> nat \<Rightarrow> bool" where
  "reapable q want s i \<longleftrightarrow> i < PROC64_MAX \<and> p_used (procs s ! i) \<and> exited (procs s ! i) \<and> p_parent (procs s ! i) = q
     \<and> (want \<le> 0 \<or> pid (procs s ! i) = want)"

lemma find_conj_cong: "(\<And>i. i < n \<Longrightarrow> P i = Q i) \<Longrightarrow> find P [0..<n] = find Q [0..<n]"
  by (rule find_cong) auto

lemma reap_find:
  "proc64_reap_child_pid q want s =
     (case find (reapable q want s) [0..<PROC64_MAX] of
        Some i \<Rightarrow> ((pid (procs s ! i), Some (exit_status (procs s ! i))),
                   proc_upd i (\<lambda>p. p\<lparr>p_used := False\<rparr>) (s\<lparr>reaped_signal := term_sig (procs s ! i)\<rparr>))
      | None \<Rightarrow> ((-1, None), s\<lparr>reaped_signal := 0\<rparr>))"
proof -
  have "find (\<lambda>i. p_used (procs s ! i) \<and> exited (procs s ! i) \<and> p_parent (procs s ! i) = q
      \<and> \<not> (want > 0 \<and> pid (procs s ! i) \<noteq> want)) [0..<PROC64_MAX] = find (reapable q want s) [0..<PROC64_MAX]"
    by (rule find_conj_cong) (auto simp: reapable_def)
  then show ?thesis unfolding proc64_reap_child_pid_def by (rule arg_cong)
qed

lemma reap_none: "(\<forall>i. \<not> reapable q want s i) \<Longrightarrow> proc64_reap_child_pid q want s = ((-1, None), s\<lparr>reaped_signal := 0\<rparr>)"
  by (simp add: reap_find find_slot_None [THEN iffD2])

lemma reap_first:
  assumes "reapable q want s k"
  obtains i where "reapable q want s i" "\<forall>j < i. \<not> reapable q want s j"
    "proc64_reap_child_pid q want s = ((pid (procs s ! i), Some (exit_status (procs s ! i))),
       proc_upd i (\<lambda>p. p\<lparr>p_used := False\<rparr>) (s\<lparr>reaped_signal := term_sig (procs s ! i)\<rparr>))"
proof -
  obtain i where f: "find (reapable q want s) [0..<PROC64_MAX] = Some i"
    using assms by (cases "find (reapable q want s) [0..<PROC64_MAX]") (auto simp: find_slot_None reapable_def)
  then have "reapable q want s i" "\<forall>j < i. \<not> reapable q want s j" by (auto simp: find_Some_iff)
  then show ?thesis using that f by (simp add: reap_find)
qed

lemma exit_eq:
  assumes "slot_for p s = Some i"
  shows "proc64_exit p st s = proc_upd i (\<lambda>q. q\<lparr>exited := True, exit_status := st\<rparr>) s"
  by (simp add: proc64_exit_def assms)

lemma slot_for_upd:
  assumes "procs_inv s" and "i < PROC64_MAX" and "p_used (f (procs s ! i)) = p_used (procs s ! i)" and "pid (f (procs s ! i)) = pid (procs s ! i)"
  shows "slot_for p (proc_upd i f s) = slot_for p s"
proof -
  have "(p_used (procs (proc_upd i f s) ! j) \<and> pid (procs (proc_upd i f s) ! j) = p) = (p_used (procs s ! j) \<and> pid (procs s ! j) = p)" for j
    using assms procs_invD(1) [OF assms(1)] by (cases "j = i") auto
  then show ?thesis by (simp add: slot_for_def)
qed

lemma exit_signalled_eq:
  assumes "procs_inv s" and "slot_for p s = Some i"
  shows "proc64_exit_signalled p sig s = proc_upd i (\<lambda>q. q\<lparr>term_sig := sig, exited := True, exit_status := 128 + sig\<rparr>) s"
proof -
  have i: "i < PROC64_MAX" using slot_for_Some [OF assms(1)] assms(2) by simp
  have "slot_for p (proc_upd i (\<lambda>q. q\<lparr>term_sig := sig\<rparr>) s) = Some i"
    using slot_for_upd [OF assms(1) i] assms(2) by simp
  then show ?thesis
    using assms(2) i procs_invD(1) [OF assms(1)] by (simp add: proc64_exit_signalled_def exit_eq) (simp add: proc_upd_def)
qed

lemma exit_inv:
  assumes "procs_inv s"
  shows "procs_inv (proc64_exit p st s)" and "procs_inv (proc64_exit_signalled p sig s)"
proof -
  have *: "procs_inv (proc_upd i f s)" if "slot_for p s = Some i" "\<And>q. p_used (f q) = p_used q \<and> pid (f q) = pid q \<and> proc_ok (f q) = proc_ok q" for i f
    using that slot_for_Some [OF assms] procs_invD(3) [OF assms] by (intro procs_inv_upd [OF assms]) auto
  show "procs_inv (proc64_exit p st s)"
    using assms * by (cases "slot_for p s") (simp_all add: proc64_exit_def proc_ok_def)
  show "procs_inv (proc64_exit_signalled p sig s)"
    using assms * exit_signalled_eq [OF assms] by (cases "slot_for p s") (simp_all add: proc64_exit_signalled_def proc_ok_def)
qed

lemma reap_inv:
  assumes "procs_inv s"
  shows "procs_inv (snd (proc64_reap_child_pid q want s))"
proof -
  have "procs_inv (proc_upd i (\<lambda>p. p\<lparr>p_used := False\<rparr>) (s\<lparr>reaped_signal := g\<rparr>))" if "i < PROC64_MAX" for i g
    using that procs_invD(3) [OF assms that] assms by (intro procs_inv_upd) (simp_all add: proc_ok_def)
  moreover have "i < PROC64_MAX" if "reapable q want s i" for i using that by (simp add: reapable_def)
  ultimately show ?thesis
    using assms by (cases "\<exists>i. reapable q want s i") (auto simp: reap_none elim: reap_first)
qed

text \<open>What a wait finds. \<open>proc64_reap_child_pid\<close> takes the first process in the table that has exited, whose parent is the caller and, where
  the caller asks for one child, is that child, reports the status and the signal it ended with and frees its slot
  and nothing else: a parent waiting for one child never consumes the status of another. It returns -1, with no
  process changed, exactly when there is no such process.\<close>

theorem proc64_wait_correct:
  assumes "procs_inv s" and "proc64_reap_child_pid q want s = ((r, status), s')"
  shows "if \<exists>i. reapable q want s i
         then \<exists>i. reapable q want s i \<and> (\<forall>j < i. \<not> reapable q want s j) \<and> r = pid (procs s ! i)
              \<and> status = Some (exit_status (procs s ! i)) \<and> proc64_reaped_signal s' = term_sig (procs s ! i)
              \<and> procs s' = (procs s)[i := (procs s ! i)\<lparr>p_used := False\<rparr>] \<and> slot_for r s' = None
         else r = -1 \<and> status = None \<and> procs s' = procs s"
proof (cases "\<exists>i. reapable q want s i")
  case True
  then obtain i where i: "reapable q want s i" "\<forall>j < i. \<not> reapable q want s j"
    "proc64_reap_child_pid q want s = ((pid (procs s ! i), Some (exit_status (procs s ! i))),
       proc_upd i (\<lambda>p. p\<lparr>p_used := False\<rparr>) (s\<lparr>reaped_signal := term_sig (procs s ! i)\<rparr>))"
    by (auto elim: reap_first)
  have u: "i < PROC64_MAX" "p_used (procs s ! i)" using i(1) by (simp_all add: reapable_def)
  have r: "r = pid (procs s ! i)" "status = Some (exit_status (procs s ! i))"
    "s' = proc_upd i (\<lambda>p. p\<lparr>p_used := False\<rparr>) (s\<lparr>reaped_signal := term_sig (procs s ! i)\<rparr>)"
    using assms(2) i(3) by simp_all
  have ps: "procs s' = (procs s)[i := (procs s ! i)\<lparr>p_used := False\<rparr>]" by (simp add: r(3) proc_upd_def)
  have "slot_for r s' = None"
    unfolding slot_for_None
  proof (intro allI impI)
    fix j
    assume j: "j < PROC64_MAX" "p_used (procs s' ! j)"
    then have "j \<noteq> i" using u(1) procs_invD(1) [OF assms(1)] by (auto simp: ps)
    then show "pid (procs s' ! j) \<noteq> r" using j u procs_invD(5) [OF assms(1), of j i] by (auto simp: ps r(1))
  qed
  then show ?thesis
    unfolding if_P [OF True] using i(1,2) r ps by (intro exI [of _ i]) (simp add: proc64_reaped_signal_def)
next
  case False
  then show ?thesis using assms(2) reap_none [of q want s] by auto
qed

section \<open>Orphans\<close>

abbreviation drop_slot :: "nat \<Rightarrow> proc_state \<Rightarrow> proc_state" where
  "drop_slot i s \<equiv> proc_upd i (\<lambda>q. q\<lparr>p_used := False\<rparr>) s"

definition gone :: "proc_state \<Rightarrow> proc_state \<Rightarrow> nat set" where
  "gone s t = {i. i < PROC64_MAX \<and> p_used (procs s ! i) \<and> \<not> p_used (procs t ! i)}"

text \<open>What a sweep may have done so far: it has only ended the use of slots, each of them of a process that had exited, was not
  the current one and whose parent is not there any more.\<close>

definition swept :: "proc_state \<Rightarrow> proc_state \<Rightarrow> bool" where
  "swept s t \<longleftrightarrow> procs_inv t \<and> current_pid t = current_pid s \<and> next_pid t = next_pid s
     \<and> (\<forall>i < PROC64_MAX. procs t ! i = procs s ! i \<or> procs t ! i = (procs s ! i)\<lparr>p_used := False\<rparr>)
     \<and> (\<forall>i \<in> gone s t. exited (procs s ! i) \<and> pid (procs s ! i) \<noteq> current_pid s
          \<and> (p_parent (procs s ! i) = 0 \<or> slot_for (p_parent (procs s ! i)) t = None))"

lemma swept_refl: "procs_inv s \<Longrightarrow> swept s s"
  by (simp add: swept_def gone_def)

lemma finite_gone [simp]: "finite (gone s t)"
  by (simp add: gone_def)

lemma drop_slot_inv:
  assumes "procs_inv t" and "i < PROC64_MAX"
  shows "procs_inv (drop_slot i t)" and "procs (drop_slot i t) ! j = (if j = i then (procs t ! i)\<lparr>p_used := False\<rparr> else procs t ! j)"
    and "slot_for p t = None \<Longrightarrow> slot_for p (drop_slot i t) = None"
proof -
  have l: "length (procs t) = PROC64_MAX" by (rule procs_invD(1) [OF assms(1)])
  show n: "procs (drop_slot i t) ! j = (if j = i then (procs t ! i)\<lparr>p_used := False\<rparr> else procs t ! j)" for j
    using assms(2) l by simp
  show "procs_inv (drop_slot i t)"
    using assms procs_invD(3) [OF assms] by (intro procs_inv_upd) (simp_all add: proc_ok_def)
  show "slot_for p t = None \<Longrightarrow> slot_for p (drop_slot i t) = None"
    unfolding slot_for_None n by auto
qed

lemma swept_drop:
  assumes sw: "swept s t" and i: "i < PROC64_MAX" and o: "orphan t i"
  shows "swept s (drop_slot i t)" and "gone s (drop_slot i t) = insert i (gone s t)" and "i \<notin> gone s t"
    and "gone t (drop_slot i t) = {i}"
proof -
  have inv: "procs_inv t" and cp: "current_pid t = current_pid s" using sw by (auto simp: swept_def)
  have same: "procs t ! j = procs s ! j \<or> procs t ! j = (procs s ! j)\<lparr>p_used := False\<rparr>" if "j < PROC64_MAX" for j
    using sw that by (auto simp: swept_def)
  note d = drop_slot_inv [OF inv i]
  have ti: "procs t ! i = procs s ! i" "p_used (procs s ! i)" using same [OF i] o by (auto simp: orphan_def)
  show g: "gone s (drop_slot i t) = insert i (gone s t)" "i \<notin> gone s t" using i ti by (auto simp: gone_def d(2))
  show "gone t (drop_slot i t) = {i}" using i ti by (auto simp: gone_def d(2))
  have par: "p_parent (procs s ! i) = 0 \<or> slot_for (p_parent (procs s ! i)) (drop_slot i t) = None"
    "exited (procs s ! i)" "pid (procs s ! i) \<noteq> current_pid s"
    using o ti(1) cp d(3) by (auto simp: orphan_def split: if_splits)
  have "\<forall>j \<in> gone s (drop_slot i t). exited (procs s ! j) \<and> pid (procs s ! j) \<noteq> current_pid s
      \<and> (p_parent (procs s ! j) = 0 \<or> slot_for (p_parent (procs s ! j)) (drop_slot i t) = None)"
    unfolding g using par sw d(3) by (auto simp: swept_def)
  moreover have "\<forall>j < PROC64_MAX. procs (drop_slot i t) ! j = procs s ! j \<or> procs (drop_slot i t) ! j = (procs s ! j)\<lparr>p_used := False\<rparr>"
    using same ti(1) by (auto simp: d(2))
  ultimately show "swept s (drop_slot i t)"
    unfolding swept_def using d(1) sw by (simp add: swept_def)
qed

lemma sweep_spec:
  assumes "swept s t" and "set xs \<subseteq> {0..<PROC64_MAX}" and "card (gone s t) = n" and "changed \<longleftrightarrow> gone u t \<noteq> {}"
    and "swept u t"
  shows "case fold release_slot xs (n, changed, t) of (n', changed', t') \<Rightarrow>
           swept s t' \<and> card (gone s t') = n' \<and> swept u t' \<and> (changed' \<longleftrightarrow> gone u t' \<noteq> {})
         \<and> (\<not> changed' \<longrightarrow> t' = t \<and> (\<forall>i \<in> set xs. \<not> orphan t i))"
  using assms
proof (induction xs arbitrary: n changed t)
  case (Cons x xs)
  show ?case
  proof (cases "orphan t x")
    case True
    have x: "x < PROC64_MAX" using Cons.prems(2) by simp
    note s = swept_drop [OF Cons.prems(1) x True] and u = swept_drop [OF Cons.prems(5) x True]
    have "card (gone s (drop_slot x t)) = n + 1" using s(2,3) Cons.prems(3) by simp
    moreover have "gone u (drop_slot x t) \<noteq> {}" using u(2) by simp
    moreover have "changed'" if "fold release_slot xs (n + 1, True, drop_slot x t) = (n', changed', t')" for n' changed' t'
    proof -
      have "fst (snd (fold release_slot xs (k, True, w)))" for k w
        by (induction xs arbitrary: k w) (auto simp: release_slot_def)
      from this [of "n + 1" "drop_slot x t"] show ?thesis using that by simp
    qed
    ultimately show ?thesis
      using Cons.IH [OF s(1) _ _ _ u(1), of "n + 1" True] Cons.prems(2) True
      by (auto simp: release_slot_def split: prod.splits)
  next
    case False
    then show ?thesis using Cons.IH [of t n changed] Cons.prems by (auto simp: release_slot_def split: prod.splits)
  qed
qed simp

lemma gone_used: "gone s t \<noteq> {} \<Longrightarrow> swept s t \<Longrightarrow> card {i. i < PROC64_MAX \<and> p_used (procs t ! i)} < card {i. i < PROC64_MAX \<and> p_used (procs s ! i)}"
proof (rule psubset_card_mono)
  assume g: "gone s t \<noteq> {}" and sw: "swept s t"
  then obtain i where "i < PROC64_MAX" "p_used (procs s ! i)" "\<not> p_used (procs t ! i)" by (auto simp: gone_def)
  moreover have "p_used (procs s ! j)" if "j < PROC64_MAX" "p_used (procs t ! j)" for j
    using sw that unfolding swept_def by (metis proc64.select_convs(1) proc64.surjective proc64.update_convs(1))
  ultimately show "{i. i < PROC64_MAX \<and> p_used (procs t ! i)} \<subset> {i. i < PROC64_MAX \<and> p_used (procs s ! i)}" by auto
qed simp

lemma release_loop_spec:
  "swept s t \<Longrightarrow> card (gone s t) = n \<Longrightarrow>
     \<exists>n' t'. release_loop n t = Some (n', t') \<and> swept s t' \<and> card (gone s t') = n' \<and> (\<forall>i < PROC64_MAX. \<not> orphan t' i)"
proof (induction "card {i. i < PROC64_MAX \<and> p_used (procs t ! i)}" arbitrary: t n rule: less_induct)
  case less
  obtain n' c t' where f: "fold release_slot [0..<PROC64_MAX] (n, False, t) = (n', c, t')" by (cases "fold release_slot [0..<PROC64_MAX] (n, False, t)") auto
  have inv: "procs_inv t" using less.prems(1) by (simp add: swept_def)
  have "gone t t = {}" by (simp add: gone_def)
  then have sp: "swept s t'" "card (gone s t') = n'" "swept t t'" "c \<longleftrightarrow> gone t t' \<noteq> {}" "\<not> c \<Longrightarrow> t' = t \<and> (\<forall>i < PROC64_MAX. \<not> orphan t i)"
    using sweep_spec [OF less.prems(1) _ less.prems(2) _ swept_refl [OF inv], of "[0..<PROC64_MAX]" False] f by auto
  show ?case
  proof (cases c)
    case True
    then show ?thesis
      using less.hyps [OF gone_used [OF _ sp(3)] sp(1,2)] sp(4) f by (subst release_loop.simps) simp
  next
    case False
    then show ?thesis using sp f by (subst release_loop.simps) auto
  qed
qed

text \<open>The sweep for processes nobody can reap. \<open>proc64_release_orphans\<close> always returns; it frees slots and changes nothing else. A
  slot is freed exactly when its process had exited, is not the current one and, in the table as it is afterwards, has
  no parent: so a process still running, the current one and one whose parent remains to reap it are kept, and none that
  has been orphaned along the way is left over. The result is the number of slots freed.\<close>

theorem proc64_release_orphans_correct:
  assumes "procs_inv s"
  shows "\<exists>n t. proc64_release_orphans s = Some (n, t) \<and> procs_inv t \<and> current_pid t = current_pid s
     \<and> n = card {i. i < PROC64_MAX \<and> p_used (procs s ! i) \<and> \<not> p_used (procs t ! i)}
     \<and> (\<forall>i < PROC64_MAX. procs t ! i =
          (if p_used (procs s ! i) \<and> exited (procs s ! i) \<and> pid (procs s ! i) \<noteq> current_pid s
              \<and> (p_parent (procs s ! i) = 0 \<or> slot_for (p_parent (procs s ! i)) t = None)
           then (procs s ! i)\<lparr>p_used := False\<rparr> else procs s ! i))"
proof -
  have "card (gone s s) = 0" by (simp add: gone_def)
  then obtain n t where r: "release_loop 0 s = Some (n, t)" and sw: "swept s t" and n: "card (gone s t) = n"
    and fix_: "\<forall>i < PROC64_MAX. \<not> orphan t i"
    using release_loop_spec [OF swept_refl [OF assms]] by blast
  have eq: "procs t ! i = (if p_used (procs s ! i) \<and> exited (procs s ! i) \<and> pid (procs s ! i) \<noteq> current_pid s
              \<and> (p_parent (procs s ! i) = 0 \<or> slot_for (p_parent (procs s ! i)) t = None)
           then (procs s ! i)\<lparr>p_used := False\<rparr> else procs s ! i)" if i: "i < PROC64_MAX" for i
  proof (cases "p_used (procs s ! i)")
    case True
    then show ?thesis
    proof (cases "i \<in> gone s t")
      case g: True
      then have "procs t ! i = (procs s ! i)\<lparr>p_used := False\<rparr>" using sw i by (auto simp: swept_def gone_def)
      then show ?thesis using sw g True by (auto simp: swept_def)
    next
      case False
      then have "procs t ! i = procs s ! i" using sw i True by (auto simp: swept_def gone_def)
      moreover have "current_pid t = current_pid s" using sw by (simp add: swept_def)
      ultimately show ?thesis using fix_ [rule_format, OF i] True by (auto simp: orphan_def split: if_splits)
    qed
  next
    case False
    then have "(procs s ! i)\<lparr>p_used := False\<rparr> = procs s ! i" by (cases "procs s ! i") simp
    then show ?thesis using sw i False by (auto simp: swept_def)
  qed
  show ?thesis
  proof (intro exI [of _ n] exI [of _ t] conjI allI impI)
    show "proc64_release_orphans s = Some (n, t)" using r by (simp add: proc64_release_orphans_def)
    show "procs_inv t" "current_pid t = current_pid s" using sw by (simp_all add: swept_def)
    show "n = card {i. i < PROC64_MAX \<and> p_used (procs s ! i) \<and> \<not> p_used (procs t ! i)}" using n by (simp add: gone_def)
  qed (rule eq)
qed

section \<open>The table over time\<close>

text \<open>What the kernel may do to the table: the operations of this file, and changes by the other components to
  one process's own fields, which leave its number and the shape of its tables alone.\<close>

inductive proc_step :: "proc_state \<Rightarrow> proc_state \<Rightarrow> bool" where
  create: "proc_step s (snd (proc64_create s))"
| fork: "proc64_fork_from p s ps = Some (r, t, ps') \<Longrightarrow> proc_step s t"
| exit: "proc_step s (proc64_exit p st s)"
| exit_signalled: "proc_step s (proc64_exit_signalled p sig s)"
| reap: "proc_step s (snd (proc64_reap_child_pid q want s))"
| release: "proc64_release_orphans s = Some (n, t) \<Longrightarrow> proc_step s t"
| set_current: "proc_step s (proc64_set_current p s)"
| own_fields: "i < PROC64_MAX \<Longrightarrow> p_used (f (procs s ! i)) = p_used (procs s ! i) \<Longrightarrow> pid (f (procs s ! i)) = pid (procs s ! i) \<Longrightarrow>
      proc_ok (f (procs s ! i)) \<Longrightarrow> proc_step s (proc_upd i f s)"

lemma create_inv:
  assumes "procs_inv s"
  shows "procs_inv (snd (proc64_create s)) \<and> next_pid s \<le> next_pid (snd (proc64_create s))
     \<and> (fst (proc64_create s) = -1 \<or> fst (proc64_create s) = next_pid s)"
proof (cases "\<forall>i < PROC64_MAX. p_used (procs s ! i)")
  case True
  then show ?thesis using assms by (simp add: create_full)
next
  case False
  then show ?thesis
  proof (rule create_room [OF assms])
    fix i t
    assume "proc64_create s = (next_pid s, t)" "next_pid t = next_pid s + 1" "procs_inv t"
    then show ?thesis by simp
  qed
qed

lemma fork_inv:
  assumes "procs_inv s" and "proc64_fork_from p s ps = Some (r, t, ps')"
  shows "procs_inv t \<and> next_pid s \<le> next_pid t"
proof (cases "slot_for p s")
  case None
  then show ?thesis using assms by (simp add: proc64_fork_from_def)
next
  case (Some ip)
  show ?thesis
  proof (cases "\<forall>i < PROC64_MAX. p_used (procs s ! i)")
    case True
    then show ?thesis using assms Some by (auto simp: proc64_fork_from_def create_full)
  next
    case False
    show ?thesis
    proof (rule fork_from_eq [OF assms(1) Some False, of ps])
      fix ic u
      assume "proc64_fork_from p s ps = Some (next_pid s, u, fold count_fd (fds (procs s ! ip)) ps)" "procs_inv u" "next_pid u = next_pid s + 1"
      then show ?thesis using assms(2) by simp
    qed
  qed
qed

lemma other_pids:
  "next_pid (proc64_exit p st s) = next_pid s" "next_pid (proc64_exit_signalled p sig s) = next_pid s"
  "next_pid (snd (proc64_reap_child_pid q want s)) = next_pid s"
  by (simp_all add: proc64_exit_def proc64_exit_signalled_def proc64_reap_child_pid_def split: option.splits)

lemma release_orphans_inv:
  assumes "procs_inv s" and "proc64_release_orphans s = Some (n, t)"
  shows "procs_inv t \<and> next_pid t = next_pid s"
proof -
  have "card (gone s s) = 0" by (simp add: gone_def)
  then show ?thesis
    using release_loop_spec [OF swept_refl [OF assms(1)]] assms(2) by (auto simp: proc64_release_orphans_def swept_def)
qed

lemma proc_step_inv: "proc_step s t \<Longrightarrow> procs_inv s \<Longrightarrow> procs_inv t \<and> next_pid s \<le> next_pid t"
proof (induction rule: proc_step.induct)
  case (own_fields i f s)
  then show ?case using procs_inv_upd [of s i f] by simp
qed (auto simp: create_inv exit_inv reap_inv other_pids proc64_set_current_def dest: fork_inv release_orphans_inv)

lemma proc_steps_inv: "rtranclp proc_step s t \<Longrightarrow> procs_inv s \<Longrightarrow> procs_inv t \<and> next_pid s \<le> next_pid t"
  by (induction rule: rtranclp_induct) (auto dest: proc_step_inv)

definition proc_boot :: proc_state where
  "proc_boot = proc64_init \<lparr>procs = replicate PROC64_MAX zero_proc, current_pid = 0, next_pid = 0, full_said = False, reaped_signal = 0\<rparr>"

lemma proc_boot_inv: "procs_inv proc_boot"
proof -
  have "procs proc_boot ! i = zero_proc" if "i < PROC64_MAX" for i using that by (simp add: proc_boot_def proc64_init_def zero_proc_def)
  moreover have "length (procs proc_boot) = PROC64_MAX" "next_pid proc_boot = 1" by (simp_all add: proc_boot_def proc64_init_def)
  ultimately show ?thesis by (auto simp: procs_inv_def proc_ok_def zero_proc_def)
qed


section \<open>A table with one process\<close>

definition proc_demo :: proc_state where
  "proc_demo = snd (proc64_create proc_boot)"

lemma proc_boot_slots: "i < PROC64_MAX \<Longrightarrow> procs proc_boot ! i = zero_proc"
  by (simp add: proc_boot_def proc64_init_def zero_proc_def)

lemma proc_demo_procs: "procs proc_demo = (procs proc_boot)[0 := new_proc 1]" "current_pid proc_demo = -1"
proof -
  have "[0..<PROC64_MAX] = 0 # [1..<PROC64_MAX]" by (simp add: PROC64_MAX_def upt_rec)
  moreover have "procs proc_boot ! 0 = zero_proc" by (rule proc_boot_slots) (simp add: PROC64_MAX_def)
  ultimately have "find (\<lambda>i. \<not> p_used (procs proc_boot ! i)) [0..<PROC64_MAX] = Some 0" by (simp add: zero_proc_def)
  then show "procs proc_demo = (procs proc_boot)[0 := new_proc 1]" "current_pid proc_demo = -1"
    by (simp_all add: proc_demo_def proc64_create_def proc_upd_def new_proc_def)
      (simp_all add: proc_boot_def proc64_init_def)
qed

lemma proc_demo_inv: "procs_inv proc_demo"
  using create_inv [OF proc_boot_inv] by (simp add: proc_demo_def)

lemma proc_demo_slots: "i < PROC64_MAX \<Longrightarrow> procs proc_demo ! i = (if i = 0 then new_proc 1 else zero_proc)"
  using procs_invD(1) [OF proc_boot_inv] proc_boot_slots by (simp add: proc_demo_procs)

lemma proc_demo_slot: "slot_for 1 proc_demo = Some 0"
  using slot_for_Some [OF proc_demo_inv] proc_demo_slots [of 0] by (simp add: PROC64_MAX_def new_proc_def)

lemma proc_demo_held: "held_ends proc_demo = {#}"
proof -
  have "sum_list (replicate n ({#} :: pend multiset)) = {#}" for n by (induction n) simp_all
  then have "proc_ends (new_proc 1) = {#}"
    by (simp add: proc_ends_def new_proc_def zero_proc_def zero_fd_def fd_ends_def)
  moreover have "\<not> p_used zero_proc" by (simp add: zero_proc_def)
  ultimately show ?thesis
    unfolding held_ends_def by (intro sum.neutral) (auto simp: proc_demo_slots split: if_splits)
qed

lemma proc_demo_room: "\<not> (\<forall>i < PROC64_MAX. p_used (procs proc_demo ! i))"
  using proc_demo_slots [of 1] by (auto simp: PROC64_MAX_def zero_proc_def intro!: exI [of _ 1])

theorem proc64_fork_from_correct_witness:
  "\<exists>r s' ps'. proc64_fork_from 1 proc_demo (pipe_boot ramfs_demo) = Some (r, s', ps') \<and> r = next_pid proc_demo
     \<and> (\<exists>ic. slot_for r s' = Some ic) \<and> pipes_inv ps' (held_ends s')"
  using proc64_fork_from_correct [OF proc_demo_inv proc_demo_slot, of "pipe_boot ramfs_demo"] pipe_boot_inv [OF ramfs_demo_ok]
    proc_demo_held unfolding if_not_P [OF proc_demo_room] by auto

lemma proc_demo_exited: "reapable 0 (-1) (proc64_exit 1 7 proc_demo) 0"
  using exit_eq [OF proc_demo_slot, of 7] proc_demo_slots [of 0] procs_invD(1) [OF proc_demo_inv]
  by (simp add: reapable_def PROC64_MAX_def new_proc_def zero_proc_def)

theorem proc64_wait_correct_witness:
  "fst (proc64_reap_child_pid 0 (-1) (proc64_exit 1 7 proc_demo)) = (1, Some 7)"
proof -
  let ?s = "proc64_exit 1 7 proc_demo"
  obtain r st s' where r: "proc64_reap_child_pid 0 (-1) ?s = ((r, st), s')" by (cases "proc64_reap_child_pid 0 (-1) ?s") auto
  have ex: "\<exists>i. reapable 0 (-1) ?s i" using proc_demo_exited by blast
  obtain i where i: "\<forall>j < i. \<not> reapable 0 (-1) ?s j" "r = pid (procs ?s ! i)" "st = Some (exit_status (procs ?s ! i))"
    using proc64_wait_correct [OF exit_inv(1) [OF proc_demo_inv] r] unfolding if_P [OF ex] by blast
  have "i = 0" using i(1) proc_demo_exited by blast
  then show ?thesis
    using r i(2,3) exit_eq [OF proc_demo_slot, of 7] proc_demo_slots [of 0] procs_invD(1) [OF proc_demo_inv]
    by (simp add: PROC64_MAX_def new_proc_def)
qed

theorem proc64_release_orphans_correct_witness:
  "\<exists>n t. proc64_release_orphans (proc64_exit 1 7 proc_demo) = Some (n, t) \<and> \<not> p_used (procs t ! 0)"
proof -
  let ?s = "proc64_exit 1 7 proc_demo"
  have s0: "procs ?s ! 0 = (new_proc 1)\<lparr>exited := True, exit_status := 7\<rparr>" "current_pid ?s = -1"
    using exit_eq [OF proc_demo_slot, of 7] proc_demo_slots [of 0] procs_invD(1) [OF proc_demo_inv]
    by (simp_all add: PROC64_MAX_def proc_demo_procs(2))
  obtain n t where r: "proc64_release_orphans ?s = Some (n, t)"
    and e: "\<forall>i < PROC64_MAX. procs t ! i = (if p_used (procs ?s ! i) \<and> exited (procs ?s ! i) \<and> pid (procs ?s ! i) \<noteq> current_pid ?s
              \<and> (p_parent (procs ?s ! i) = 0 \<or> slot_for (p_parent (procs ?s ! i)) t = None)
           then (procs ?s ! i)\<lparr>p_used := False\<rparr> else procs ?s ! i)"
    using proc64_release_orphans_correct [OF exit_inv(1) [OF proc_demo_inv]] by blast
  have "\<not> p_used (procs t ! 0)" using e [rule_format, of 0] by (simp add: s0 PROC64_MAX_def new_proc_def zero_proc_def)
  then show ?thesis using r by blast
qed


end
