(* ===== verification/Input64.thy ===== *)
theory Input64
  imports Ring Ramfs64_Tree
begin

text \<open>
  \<^verbatim>\<open>kernel/input64.c\<close>: a PS/2 keyboard and mouse as queues of Linux input events. The ports are not memory: \<open>inb\<close> and \<open>outb\<close> are
  arguments of what uses them, functions on the state of whatever is behind the ports. The interrupt mask, which
  \<open>input64_install\<close> sets through \<^verbatim>\<open>kernel/idt64.c\<close>, is modelled with it.
\<close>

unbundle bit_operations_syntax

type_synonym u16 = "16 word"
type_synonym 'd inb = "nat \<Rightarrow> 'd \<Rightarrow> byte \<times> 'd"
type_synonym 'd outb = "nat \<Rightarrow> byte \<Rightarrow> 'd \<Rightarrow> 'd"

section \<open>State\<close>

definition PS2_DATA :: nat where "PS2_DATA = 0x60"
definition PS2_STATUS :: nat where "PS2_STATUS = 0x64"
definition PS2_CMD :: nat where "PS2_CMD = 0x64"
definition PS2_ST_OUTPUT_FULL :: byte where "PS2_ST_OUTPUT_FULL = 0x01"
definition PS2_ST_INPUT_FULL :: byte where "PS2_ST_INPUT_FULL = 0x02"
definition PS2_ST_FROM_AUX :: byte where "PS2_ST_FROM_AUX = 0x20"
definition PS2_CMD_ENABLE_AUX :: byte where "PS2_CMD_ENABLE_AUX = 0xA8"
definition PS2_CMD_READ_CONFIG :: byte where "PS2_CMD_READ_CONFIG = 0x20"
definition PS2_CMD_WRITE_CONFIG :: byte where "PS2_CMD_WRITE_CONFIG = 0x60"
definition PS2_CMD_TO_AUX :: byte where "PS2_CMD_TO_AUX = 0xD4"
definition MOUSE_SET_DEFAULTS :: byte where "MOUSE_SET_DEFAULTS = 0xF6"
definition MOUSE_ENABLE_REPORT :: byte where "MOUSE_ENABLE_REPORT = 0xF4"
definition QUEUE_MAX :: nat where "QUEUE_MAX = 256"
definition EVENT_BYTES :: nat where "EVENT_BYTES = 24"
definition EV64_SYN :: u16 where "EV64_SYN = 0"
definition EV64_KEY :: u16 where "EV64_KEY = 1"
definition EV64_REL :: u16 where "EV64_REL = 2"
definition REL64_X :: u16 where "REL64_X = 0"
definition REL64_Y :: u16 where "REL64_Y = 1"
definition BTN64_LEFT :: u16 where "BTN64_LEFT = 0x110"
definition BTN64_RIGHT :: u16 where "BTN64_RIGHT = 0x111"
definition BTN64_MIDDLE :: u16 where "BTN64_MIDDLE = 0x112"
definition SYN64_REPORT :: u16 where "SYN64_REPORT = 0"
definition INPUT64_KBD :: nat where "INPUT64_KBD = 0"
definition INPUT64_MOUSE :: nat where "INPUT64_MOUSE = 1"
definition INPUT64_MOD_SHIFT :: u32 where "INPUT64_MOD_SHIFT = 1"
definition INPUT64_MOD_CTRL :: u32 where "INPUT64_MOD_CTRL = 2"
definition INPUT64_MOD_ALT :: u32 where "INPUT64_MOD_ALT = 4"
definition SC_LSHIFT :: byte where "SC_LSHIFT = 0x2A"
definition SC_RSHIFT :: byte where "SC_RSHIFT = 0x36"
definition SC_CTRL :: byte where "SC_CTRL = 0x1D"
definition SC_ALT :: byte where "SC_ALT = 0x38"

record input64_event =
  tv_sec :: u64
  tv_usec :: u64
  etype :: u16
  ecode :: u16
  evalue :: u32

record queue_t =
  ev :: "input64_event list"
  qhead :: nat
  qtail :: nat
  qdropped :: nat
  qirqs :: nat

record input_state =
  queues :: "nat \<Rightarrow> queue_t"
  modifiers :: u32
  event_seq :: nat
  kbd_extended :: bool
  mouse_packet :: "byte list"
  mouse_index :: nat
  mouse_buttons :: byte

definition qupd :: "nat \<Rightarrow> (queue_t \<Rightarrow> queue_t) \<Rightarrow> input_state \<Rightarrow> input_state" where
  "qupd d f s = s\<lparr>queues := (queues s)(d := f (queues s d))\<rparr>"

definition bhas :: "byte \<Rightarrow> byte \<Rightarrow> bool" where
  "bhas b m \<longleftrightarrow> b AND m \<noteq> 0"

section \<open>Events\<close>

definition push :: "nat \<Rightarrow> u16 \<Rightarrow> u16 \<Rightarrow> u32 \<Rightarrow> input_state \<Rightarrow> input_state" where
  "push dev type code v s =
     (let q = queues s dev; next = (qhead q + 1) mod QUEUE_MAX
      in if next = qtail q then qupd dev (\<lambda>q. q\<lparr>qdropped := add64 (qdropped q) 1\<rparr>) s
         else (qupd dev (\<lambda>q. q\<lparr>ev := (ev q)[qhead q := \<lparr>tv_sec = of_nat (event_seq s div 1000000),
                 tv_usec = of_nat (event_seq s mod 1000000), etype = type, ecode = code, evalue = v\<rparr>], qhead := next\<rparr>) s)
                \<lparr>event_seq := add64 (event_seq s) 1\<rparr>)"

definition sync_report :: "nat \<Rightarrow> input_state \<Rightarrow> input_state" where
  "sync_report dev s = push dev EV64_SYN SYN64_REPORT 0 s"

definition input64_feed_scancode :: "byte \<Rightarrow> input_state \<Rightarrow> input_state" where
  "input64_feed_scancode byt s =
     (if byt = 0xE0 then s\<lparr>kbd_extended := True\<rparr>
      else
      (let released = bhas byt 0x80; code = byt AND 0x7F;
           s = s\<lparr>kbd_extended := False\<rparr>;
           set = (\<lambda>m. if released then modifiers s AND NOT m else modifiers s OR m);
           s = (if code = SC_LSHIFT \<or> code = SC_RSHIFT then s\<lparr>modifiers := set INPUT64_MOD_SHIFT\<rparr>
                else if code = SC_CTRL then s\<lparr>modifiers := set INPUT64_MOD_CTRL\<rparr>
                else if code = SC_ALT then s\<lparr>modifiers := set INPUT64_MOD_ALT\<rparr>
                else s)
       in sync_report INPUT64_KBD (push INPUT64_KBD EV64_KEY (ucast code) (if released then 0 else 1) s)))"

text \<open>The body of the block that decodes a whole packet.\<close>

definition mouse_event :: "input_state \<Rightarrow> input_state" where
  "mouse_event s =
     (let flags = mouse_packet s ! 0;
          dx = (ucast (mouse_packet s ! 1) :: u32); dy = (ucast (mouse_packet s ! 2) :: u32);
          now = flags AND 0x07; changed = now XOR mouse_buttons s;
          dx = (if bhas flags 0x10 then dx OR NOT 0xFF else dx);
          dy = (if bhas flags 0x20 then dy OR NOT 0xFF else dy);
          s = (if bhas changed 0x01 then push INPUT64_MOUSE EV64_KEY BTN64_LEFT (if bhas now 0x01 then 1 else 0) s else s);
          s = (if bhas changed 0x02 then push INPUT64_MOUSE EV64_KEY BTN64_RIGHT (if bhas now 0x02 then 1 else 0) s else s);
          s = (if bhas changed 0x04 then push INPUT64_MOUSE EV64_KEY BTN64_MIDDLE (if bhas now 0x04 then 1 else 0) s else s);
          s = s\<lparr>mouse_buttons := now\<rparr>;
          s = (if dx \<noteq> 0 then push INPUT64_MOUSE EV64_REL REL64_X dx s else s);
          s = (if dy \<noteq> 0 then push INPUT64_MOUSE EV64_REL REL64_Y (- dy) s else s)
      in if changed \<noteq> 0 \<or> dx \<noteq> 0 \<or> dy \<noteq> 0 then sync_report INPUT64_MOUSE s else s)"

definition input64_feed_mouse_byte :: "byte \<Rightarrow> input_state \<Rightarrow> input_state" where
  "input64_feed_mouse_byte byt s =
     (if mouse_index s = 0 \<and> (byt AND 0x08 = 0 \<or> byt AND 0xC0 \<noteq> 0) then s
      else
      (let s = s\<lparr>mouse_packet := (mouse_packet s)[mouse_index s := byt], mouse_index := mouse_index s + 1\<rparr>
       in if mouse_index s < 3 then s
          else mouse_event (s\<lparr>mouse_index := 0\<rparr>)))"

section \<open>Interrupts\<close>

text \<open>The loop of both handlers: bytes are taken while there are any and they come from the device \<open>aux\<close> says.\<close>

partial_function (option) drain ::
    "'d inb \<Rightarrow> bool \<Rightarrow> (byte \<Rightarrow> input_state \<Rightarrow> input_state) \<Rightarrow> 'd \<Rightarrow> input_state \<Rightarrow> ('d \<times> input_state) option" where
  "drain inb aux feed d s =
     (let (st, d) = inb PS2_STATUS d
      in if \<not> bhas st PS2_ST_OUTPUT_FULL then Some (d, s)
         else
         (let (st, d) = inb PS2_STATUS d
          in if bhas st PS2_ST_FROM_AUX \<noteq> aux then Some (d, s)
             else (let (b, d) = inb PS2_DATA d in drain inb aux feed d (feed b s))))"

definition keyboard_irq :: "'d inb \<Rightarrow> 'd \<Rightarrow> input_state \<Rightarrow> ('d \<times> input_state) option" where
  "keyboard_irq inb d s =
     drain inb False input64_feed_scancode d (qupd INPUT64_KBD (\<lambda>q. q\<lparr>qirqs := add64 (qirqs q) 1\<rparr>) s)"

definition mouse_irq :: "'d inb \<Rightarrow> 'd \<Rightarrow> input_state \<Rightarrow> ('d \<times> input_state) option" where
  "mouse_irq inb d s =
     drain inb True input64_feed_mouse_byte d (qupd INPUT64_MOUSE (\<lambda>q. q\<lparr>qirqs := add64 (qirqs q) 1\<rparr>) s)"

section \<open>Setting the controller up\<close>

fun wait_writable :: "nat \<Rightarrow> 'd inb \<Rightarrow> 'd \<Rightarrow> 'd" where
  "wait_writable 0 inb d = d"
| "wait_writable (Suc n) inb d =
     (let (st, d) = inb PS2_STATUS d in if \<not> bhas st PS2_ST_INPUT_FULL then d else wait_writable n inb d)"

fun wait_readable :: "nat \<Rightarrow> 'd inb \<Rightarrow> 'd \<Rightarrow> 'd" where
  "wait_readable 0 inb d = d"
| "wait_readable (Suc n) inb d =
     (let (st, d) = inb PS2_STATUS d in if bhas st PS2_ST_OUTPUT_FULL then d else wait_readable n inb d)"

definition controller_write :: "'d inb \<Rightarrow> 'd outb \<Rightarrow> byte \<Rightarrow> 'd \<Rightarrow> 'd" where
  "controller_write inb outb cmd d = outb PS2_CMD cmd (wait_writable 100000 inb d)"

definition mouse_write :: "'d inb \<Rightarrow> 'd outb \<Rightarrow> byte \<Rightarrow> 'd \<Rightarrow> 'd" where
  "mouse_write inb outb byt d =
     (let d = controller_write inb outb PS2_CMD_TO_AUX d;
          d = wait_writable 100000 inb d;
          d = outb PS2_DATA byt d;
          d = wait_readable 100000 inb d
      in snd (inb PS2_DATA d))"

definition input64_reset :: "input_state \<Rightarrow> input_state" where
  "input64_reset s = s\<lparr>queues := (\<lambda>d. if d < 2 then (queues s d)\<lparr>qhead := 0, qtail := 0, qdropped := 0, qirqs := 0\<rparr> else queues s d),
     modifiers := 0, kbd_extended := False, mouse_index := 0, mouse_buttons := 0\<rparr>"

definition PIC1_DATA :: nat where "PIC1_DATA = 0x21"
definition PIC2_DATA :: nat where "PIC2_DATA = 0xA1"

definition idt64_irq_is_masked :: "'d inb \<Rightarrow> int \<Rightarrow> 'd \<Rightarrow> bool \<times> 'd" where
  "idt64_irq_is_masked inb irq d =
     (if irq < 0 \<or> irq > 15 then (True, d)
      else (let (v, d) = inb (if irq < 8 then PIC1_DATA else PIC2_DATA) d
            in (bhas v (push_bit (nat (if irq < 8 then irq else irq - 8)) 1), d)))"

text \<open>The recursive call, for line 2, never calls further.\<close>

definition irq_mask_write :: "'d inb \<Rightarrow> 'd outb \<Rightarrow> nat \<Rightarrow> nat \<Rightarrow> bool \<Rightarrow> 'd \<Rightarrow> 'd" where
  "irq_mask_write inb outb port b masked d =
     (let (v, d) = inb port d
      in outb port (if masked then v OR push_bit b 1 else v AND NOT (push_bit b 1)) d)"

definition idt64_irq_set_mask :: "'d inb \<Rightarrow> 'd outb \<Rightarrow> int \<Rightarrow> bool \<Rightarrow> 'd \<Rightarrow> 'd" where
  "idt64_irq_set_mask inb outb irq masked d =
     (if irq < 0 \<or> irq > 15 then d
      else
      (let d = (if irq < 8 then irq_mask_write inb outb PIC1_DATA (nat irq) masked d
                else irq_mask_write inb outb PIC2_DATA (nat (irq - 8)) masked d)
       in if irq \<ge> 8 \<and> \<not> masked then irq_mask_write inb outb PIC1_DATA 2 False d else d))"

text \<open>The two handlers are registered at vectors 33 and 44: the last component.\<close>

datatype irq_handler = KeyboardIrq | MouseIrq

definition input64_install :: "'d inb \<Rightarrow> 'd outb \<Rightarrow> 'd \<times> input_state \<times> (nat \<rightharpoonup> irq_handler) \<Rightarrow> 'd \<times> input_state \<times> (nat \<rightharpoonup> irq_handler)" where
  "input64_install inb outb x =
     (let (d, s, h) = x;
          s = input64_reset s;
          h = h(33 \<mapsto> KeyboardIrq);
          h = h(44 \<mapsto> MouseIrq);
          d = controller_write inb outb PS2_CMD_ENABLE_AUX d;
          d = controller_write inb outb PS2_CMD_READ_CONFIG d;
          d = wait_readable 100000 inb d;
          (config, d) = inb PS2_DATA d;
          config = config OR push_bit 1 1;
          config = config AND NOT (push_bit 5 1);
          d = controller_write inb outb PS2_CMD_WRITE_CONFIG d;
          d = wait_writable 100000 inb d;
          d = outb PS2_DATA config d;
          d = mouse_write inb outb MOUSE_SET_DEFAULTS d;
          d = mouse_write inb outb MOUSE_ENABLE_REPORT d;
          d = idt64_irq_set_mask inb outb 1 False d;
          d = idt64_irq_set_mask inb outb 12 False d;
          d = idt64_irq_set_mask inb outb 2 False d
      in (d, s, h))"

section \<open>Reading\<close>

definition le_bytes :: "nat \<Rightarrow> 'a::len word \<Rightarrow> byte list" where
  "le_bytes n w = map (\<lambda>i. ucast (drop_bit (8 * i) w)) [0..<n]"

text \<open>An event in memory, as the compiler lays it out.\<close>

definition event_bytes :: "input64_event \<Rightarrow> byte list" where
  "event_bytes e = le_bytes 8 (tv_sec e) @ le_bytes 8 (tv_usec e) @ le_bytes 2 (etype e) @ le_bytes 2 (ecode e) @ le_bytes 4 (evalue e)"

partial_function (option) input_read_loop :: "nat \<Rightarrow> byte list \<Rightarrow> queue_t \<Rightarrow> (byte list \<times> queue_t) option" where
  "input_read_loop len out q =
     (if qtail q \<noteq> qhead q \<and> add64 (length out) EVENT_BYTES \<le> len
      then input_read_loop len (out @ event_bytes (ev q ! qtail q)) (q\<lparr>qtail := (qtail q + 1) mod QUEUE_MAX\<rparr>)
      else Some (out, q))"

text \<open>The bytes written to the buffer, whose number is the result; a null buffer is \<open>null\<close>.\<close>

definition input64_read :: "int \<Rightarrow> bool \<Rightarrow> nat \<Rightarrow> input_state \<Rightarrow> (byte list \<times> input_state) option" where
  "input64_read dv null len s =
     (if dv < 0 \<or> dv > 1 \<or> null then Some ([], s)
      else do {
        (out, q) \<leftarrow> input_read_loop len [] (queues s (nat dv));
        Some (out, qupd (nat dv) (\<lambda>_. q) s)
      })"

definition input64_queued :: "int \<Rightarrow> input_state \<Rightarrow> nat" where
  "input64_queued dv s =
     (if dv < 0 \<or> dv > 1 then 0
      else (let q = queues s (nat dv) in (qhead q + QUEUE_MAX - qtail q) mod QUEUE_MAX))"

definition input64_irqs :: "int \<Rightarrow> input_state \<Rightarrow> nat" where
  "input64_irqs dv s = (if dv < 0 \<or> dv > 1 then 0 else qirqs (queues s (nat dv)))"

definition input64_modifiers :: "input_state \<Rightarrow> u32" where
  "input64_modifiers s = modifiers s"

definition RAMFS64_DEV_KBD :: nat where "RAMFS64_DEV_KBD = 2"
definition RAMFS64_DEV_MOUSE :: nat where "RAMFS64_DEV_MOUSE = 3"

definition register_node :: "string \<Rightarrow> nat \<Rightarrow> ramfs \<Rightarrow> (bool \<times> ramfs) option" where
  "register_node path dev s = do {
     (node, s) \<leftarrow> ramfs64_create path False s;
     node \<leftarrow> (if node < 0 then ramfs64_lookup path s else Some node);
     Some (if node < 0 then (False, s) else ramfs64_set_device node dev s)
   }"

definition input64_register :: "ramfs \<Rightarrow> (bool \<times> ramfs) option" where
  "input64_register s = do {
     (d, s) \<leftarrow> ramfs64_mkdirp ''/dev/input'' s;
     if d < 0 then Some (False, s)
     else do {
       (ok, s) \<leftarrow> register_node ''/dev/input/event0'' RAMFS64_DEV_KBD s;
       if \<not> ok then Some (False, s)
       else register_node ''/dev/input/event1'' RAMFS64_DEV_MOUSE s
     }
   }"

end
