(* ===== verification/Input64_Queue.thy ===== *)
theory Input64_Queue
  imports Input64
begin

text \<open>
  What the input queues of \<^verbatim>\<open>kernel/input64.c\<close> promise a reader: a device is a bounded queue of whole events, the
  bytes a PS/2 mouse sends for a movement are the events a reader sees, and a keyboard interrupt ends having delivered
  every byte the controller held.
\<close>

unbundle bit_operations_syntax

section \<open>The queue of a device\<close>

definition queue_ok :: "queue_t \<Rightarrow> bool" where
  "queue_ok q \<longleftrightarrow> length (ev q) = QUEUE_MAX \<and> qhead q < QUEUE_MAX \<and> qtail q < QUEUE_MAX"

definition input_ok :: "input_state \<Rightarrow> bool" where
  "input_ok s \<longleftrightarrow> (\<forall>d < 2. queue_ok (queues s d)) \<and> length (mouse_packet s) = 3 \<and> mouse_index s < 3"

definition waiting :: "queue_t \<Rightarrow> nat" where
  "waiting q = (qhead q + QUEUE_MAX - qtail q) mod QUEUE_MAX"

text \<open>The events waiting to be read, oldest first.\<close>

definition content :: "input_state \<Rightarrow> nat \<Rightarrow> input64_event list" where
  "content s d = ring_list (ev (queues s d)) (qtail (queues s d)) (waiting (queues s d))"

lemma wrap_256:
  assumes "h < 256" "t < 256"
  shows "(h + 256 - t) mod 256 = (if t \<le> h then h - t else h + 256 - t)" and "(h + 1) mod 256 = (if h = 255 then 0 else h + 1 :: nat)"
proof -
  show "(h + 256 - t) mod 256 = (if t \<le> h then h - t else h + 256 - t)"
  proof (cases "t \<le> h")
    case True
    then have "h + 256 - t = (h - t) + 256" by simp
    then show ?thesis using True assms by (simp only: mod_add_self2) simp
  qed (use assms in simp)
  show "(h + 1) mod 256 = (if h = 255 then 0 else h + 1)" using assms(1) by auto
qed

lemma waiting_arith:
  assumes "h < 256" "t < 256"
  shows "(t + (h + 256 - t) mod 256) mod 256 = h" and "(h + 1) mod 256 = t \<longleftrightarrow> (h + 256 - t) mod 256 = 255"
    and "(h + 256 - t) mod 256 < 255 \<Longrightarrow> ((h + 1) mod 256 + 256 - t) mod 256 = Suc ((h + 256 - t) mod 256)"
    and "h \<noteq> t \<Longrightarrow> (h + 256 - (t + 1) mod 256) mod 256 = (h + 256 - t) mod 256 - 1" and "h = t \<longleftrightarrow> (h + 256 - t) mod 256 = (0 :: nat)"
proof -
  have n: "(h + 1) mod 256 < 256" "(t + 1) mod 256 < 256" by simp_all
  note w = wrap_256 [OF assms] wrap_256(2) [OF assms(2,1)]
  have "(t + (if t \<le> h then h - t else h + 256 - t)) mod 256 = h" using assms by auto
  then show "(t + (h + 256 - t) mod 256) mod 256 = h" unfolding w(1) .
  show "(h + 1) mod 256 = t \<longleftrightarrow> (h + 256 - t) mod 256 = 255" unfolding w using assms by auto
  show "(h + 256 - t) mod 256 < 255 \<Longrightarrow> ((h + 1) mod 256 + 256 - t) mod 256 = Suc ((h + 256 - t) mod 256)"
    unfolding wrap_256(1) [OF n(1) assms(2)] unfolding w using assms by (auto split: if_splits)
  show "h \<noteq> t \<Longrightarrow> (h + 256 - (t + 1) mod 256) mod 256 = (h + 256 - t) mod 256 - 1"
    unfolding wrap_256(1) [OF assms(1) n(2)] unfolding w using assms by (auto split: if_splits)
  show "h = t \<longleftrightarrow> (h + 256 - t) mod 256 = 0" unfolding w using assms by auto
qed

lemma QUEUE_MAX_256 [simp]: "QUEUE_MAX = 256"
  by (simp add: QUEUE_MAX_def)

lemma qupd_fields [simp]:
  "queues (qupd d f s) e = (if e = d then f (queues s d) else queues s e)" "modifiers (qupd d f s) = modifiers s"
  "event_seq (qupd d f s) = event_seq s" "kbd_extended (qupd d f s) = kbd_extended s" "mouse_packet (qupd d f s) = mouse_packet s"
  "mouse_index (qupd d f s) = mouse_index s" "mouse_buttons (qupd d f s) = mouse_buttons s"
  by (simp_all add: qupd_def)

definition stamped :: "nat \<Rightarrow> u16 \<Rightarrow> u16 \<Rightarrow> u32 \<Rightarrow> input64_event" where
  "stamped n t c v = \<lparr>tv_sec = of_nat (n div 1000000), tv_usec = of_nat (n mod 1000000), etype = t, ecode = c, evalue = v\<rparr>"

lemma push_fields [simp]:
  "modifiers (push d t c v s) = modifiers s" "kbd_extended (push d t c v s) = kbd_extended s"
  "mouse_packet (push d t c v s) = mouse_packet s" "mouse_index (push d t c v s) = mouse_index s"
  "mouse_buttons (push d t c v s) = mouse_buttons s" "e \<noteq> d \<Longrightarrow> queues (push d t c v s) e = queues s e"
  by (simp_all add: push_def Let_def)

lemma push_spec:
  assumes "queue_ok (queues s d)"
  shows "queue_ok (queues (push d t c v s) d)"
    and "content (push d t c v s) d = (if length (content s d) < 255 then content s d @ [stamped (event_seq s) t c v] else content s d)"
    and "qdropped (queues (push d t c v s) d)
       = (if length (content s d) < 255 then qdropped (queues s d) else add64 (qdropped (queues s d)) 1)"
proof -
  let ?q = "queues s d" and ?h = "qhead (queues s d)" and ?t = "qtail (queues s d)"
  have q: "length (ev ?q) = 256" "?h < 256" "?t < 256" using assms by (simp_all add: queue_ok_def)
  note w = waiting_arith [OF q(2,3)]
  have n: "length (content s d) = waiting ?q" by (simp add: content_def)
  have lt: "waiting ?q < 256" by (simp add: waiting_def)
  have full: "(?h + 1) mod 256 = ?t \<longleftrightarrow> \<not> waiting ?q < 255" using w(2) lt by (auto simp: waiting_def)
  show "queue_ok (queues (push d t c v s) d)" using q by (auto simp: push_def queue_ok_def Let_def)
  show "qdropped (queues (push d t c v s) d)
       = (if length (content s d) < 255 then qdropped ?q else add64 (qdropped ?q) 1)"
    using full n by (simp add: push_def Let_def)
  show "content (push d t c v s) d = (if length (content s d) < 255 then content s d @ [stamped (event_seq s) t c v] else content s d)"
  proof (cases "waiting ?q < 255")
    case True
    let ?x = "stamped (event_seq s) t c v"
    have "queues (push d t c v s) d = ?q\<lparr>ev := (ev ?q)[?h := ?x], qhead := (?h + 1) mod 256\<rparr>"
      using True full by (simp add: push_def Let_def stamped_def)
    then have "content (push d t c v s) d = ring_list ((ev ?q)[?h := ?x]) ?t (Suc (waiting ?q))"
      using w(3) True by (simp add: content_def waiting_def)
    also have "\<dots> = ring_list (ev ?q) ?t (waiting ?q) @ [?x]"
      using ring_list_push [of "waiting ?q" "ev ?q" ?t ?x] q lt w(1) by (simp add: waiting_def)
    finally show ?thesis using True n by (simp add: content_def)
  next
    case False
    then show ?thesis using full n by (simp add: push_def Let_def content_def waiting_def)
  qed
qed

section \<open>Reading\<close>

lemma length_event_bytes [simp]: "length (event_bytes e) = 24"
  by (simp add: event_bytes_def le_bytes_def)

definition queue_list :: "queue_t \<Rightarrow> input64_event list" where
  "queue_list q = ring_list (ev q) (qtail q) (waiting q)"

lemma input_read_loop_spec:
  assumes "queue_ok q" and "length out + 24 * waiting q < 2 ^ 64 - 24"
  shows "\<exists>q'. input_read_loop len out q = Some (out @ concat (map event_bytes (take ((len - length out) div 24) (queue_list q))), q')
     \<and> queue_ok q' \<and> queue_list q' = drop ((len - length out) div 24) (queue_list q) \<and> q' = q\<lparr>qtail := qtail q'\<rparr>"
  using assms
proof (induction "waiting q" arbitrary: q out)
  case 0
  then have "qtail q = qhead q" using waiting_arith(5) [of "qhead q" "qtail q"] by (simp add: queue_ok_def waiting_def)
  moreover have "queue_list q = []" using 0(1) by (simp add: queue_list_def)
  ultimately show ?case using 0 by (subst input_read_loop.simps) auto
next
  case (Suc n)
  have q: "length (ev q) = 256" "qhead q < 256" "qtail q < 256" using Suc.prems(1) by (simp_all add: queue_ok_def)
  note w = waiting_arith [OF q(2,3)]
  have ne: "qtail q \<noteq> qhead q" using w(5) Suc(2) by (auto simp: waiting_def)
  have add: "add64 (length out) EVENT_BYTES = length out + 24"
    using Suc.prems(2) by (simp add: EVENT_BYTES_def add64_exact)
  have pop: "queue_list q = ev q ! qtail q # queue_list (q\<lparr>qtail := (qtail q + 1) mod 256\<rparr>)"
    using ring_list_pop [of "waiting q" "qtail q" "ev q"] q Suc(2) w(4) ne by (simp add: queue_list_def waiting_def)
  show ?case
  proof (cases "length out + 24 \<le> len")
    case False
    then have "(len - length out) div 24 = 0" by simp
    then show ?thesis using False Suc.prems(1) add by (subst input_read_loop.simps) auto
  next
    case True
    let ?q = "q\<lparr>qtail := (qtail q + 1) mod 256\<rparr>" and ?out = "out @ event_bytes (ev q ! qtail q)"
    have k: "(len - length out) div 24 = Suc ((len - length ?out) div 24)" using True le_div_geq [of 24 "len - length out"] by simp
    have "waiting ?q = waiting q - 1" using w(4) ne by (simp add: waiting_def)
    then have n: "n = waiting ?q" by (simp flip: Suc(2))
    have "queue_ok ?q" using Suc.prems(1) by (simp add: queue_ok_def)
    from Suc.hyps(1) [OF n this, of ?out] obtain q' where
      r: "input_read_loop len ?out ?q = Some (?out @ concat (map event_bytes (take ((len - length ?out) div 24) (queue_list ?q))), q')"
        "queue_ok q'" "queue_list q' = drop ((len - length ?out) div 24) (queue_list ?q)" "q' = ?q\<lparr>qtail := qtail q'\<rparr>"
      using Suc.prems(2) Suc(2) n by auto
    have "input_read_loop len out q = input_read_loop len ?out ?q"
      using True ne add by (subst input_read_loop.simps) simp
    then show ?thesis using r pop k by (intro exI [of _ q']) simp
  qed
qed

lemma content_queue_list: "content s d = queue_list (queues s d)"
  by (simp add: content_def queue_list_def)

lemma read_spec:
  assumes "input_ok s" and "d < 2"
  shows "\<exists>s'. input64_read (int d) False len s = Some (concat (map event_bytes (take (len div 24) (content s d))), s')
     \<and> input_ok s' \<and> content s' d = drop (len div 24) (content s d) \<and> (\<forall>e. e \<noteq> d \<longrightarrow> content s' e = content s e)"
proof -
  have q: "queue_ok (queues s d)" using assms by (simp add: input_ok_def)
  have "waiting (queues s d) < 256" by (simp add: waiting_def)
  then obtain q' where r: "input_read_loop len [] (queues s d) = Some (concat (map event_bytes (take (len div 24) (queue_list (queues s d)))), q')"
    "queue_ok q'" "queue_list q' = drop (len div 24) (queue_list (queues s d))"
    using input_read_loop_spec [OF q, of "[]" len] by auto
  then have "input64_read (int d) False len s = Some (concat (map event_bytes (take (len div 24) (content s d))), qupd d (\<lambda>_. q') s)"
    using assms(2) by (simp add: input64_read_def content_queue_list)
  moreover have "input_ok (qupd d (\<lambda>_. q') s)" using assms(1) r(2) by (simp add: input_ok_def)
  ultimately show ?thesis using r(3) by (intro exI [of _ "qupd d (\<lambda>_. q') s"]) (simp add: content_queue_list)
qed

section \<open>Several events at once\<close>

definition gist :: "input64_event \<Rightarrow> u16 \<times> u16 \<times> u32" where
  "gist e = (etype e, ecode e, evalue e)"

definition pushes :: "nat \<Rightarrow> (u16 \<times> u16 \<times> u32) list \<Rightarrow> input_state \<Rightarrow> input_state" where
  "pushes d xs s = fold (\<lambda>(t, c, v). push d t c v) xs s"

lemma pushes_simps [simp]:
  "pushes d [] s = s" "pushes d ((t, c, v) # xs) s = pushes d xs (push d t c v s)" "pushes d (xs @ ys) s = pushes d ys (pushes d xs s)"
  by (simp_all add: pushes_def)

lemma pushes_fields [simp]:
  "modifiers (pushes d xs s) = modifiers s" "kbd_extended (pushes d xs s) = kbd_extended s"
  "mouse_packet (pushes d xs s) = mouse_packet s" "mouse_index (pushes d xs s) = mouse_index s"
  "mouse_buttons (pushes d xs s) = mouse_buttons s" "e \<noteq> d \<Longrightarrow> queues (pushes d xs s) e = queues s e"
  by (induction xs arbitrary: s) auto

lemma pushes_spec:
  "queue_ok (queues s d) \<Longrightarrow> queue_ok (queues (pushes d xs s) d)
     \<and> (length (content s d) + length xs \<le> 255 \<longrightarrow> map gist (content (pushes d xs s) d) = map gist (content s d) @ xs)"
proof (induction xs arbitrary: s)
  case (Cons x xs)
  obtain t c v where x: "x = (t, c, v)" by (cases x)
  show ?case using Cons.IH [OF push_spec(1) [OF Cons.prems]] push_spec(2) [OF Cons.prems] by (simp add: x gist_def stamped_def)
qed simp

section \<open>The keyboard\<close>

definition key_events :: "byte \<Rightarrow> (u16 \<times> u16 \<times> u32) list" where
  "key_events b = (if b = 0xE0 then [] else [(EV64_KEY, ucast (b AND 0x7F), if bhas b 0x80 then 0 else 1), (EV64_SYN, SYN64_REPORT, 0)])"

lemma feed_scancode_spec:
  assumes "input_ok s"
  shows "input_ok (input64_feed_scancode b s)" and "content (input64_feed_scancode b s) 1 = content s 1"
    and "length (content s 0) + 2 \<le> 255 \<Longrightarrow>
         map gist (content (input64_feed_scancode b s) 0) = map gist (content s 0) @ key_events b"
proof -
  obtain s' where e: "input64_feed_scancode b s = pushes 0 (key_events b) s'"
    and s': "queues s' = queues s" "mouse_packet s' = mouse_packet s" "mouse_index s' = mouse_index s"
    by (rule that [of "if b = 0xE0 then s\<lparr>kbd_extended := True\<rparr> else
         (let s = s\<lparr>kbd_extended := False\<rparr>; set = (\<lambda>m. if bhas b 0x80 then modifiers s AND NOT m else modifiers s OR m)
          in if b AND 0x7F = SC_LSHIFT \<or> b AND 0x7F = SC_RSHIFT then s\<lparr>modifiers := set INPUT64_MOD_SHIFT\<rparr>
             else if b AND 0x7F = SC_CTRL then s\<lparr>modifiers := set INPUT64_MOD_CTRL\<rparr>
             else if b AND 0x7F = SC_ALT then s\<lparr>modifiers := set INPUT64_MOD_ALT\<rparr> else s)"])
       (auto simp: input64_feed_scancode_def key_events_def sync_report_def INPUT64_KBD_def Let_def)
  have c: "content s' d = content s d" for d by (simp add: content_def s')
  have q: "queue_ok (queues s' 0)" using assms by (simp add: input_ok_def s')
  note p = pushes_spec [OF q, of "key_events b"]
  show "input_ok (input64_feed_scancode b s)"
    unfolding e input_ok_def
  proof (intro conjI allI impI)
    show "queue_ok (queues (pushes 0 (key_events b) s') d)" if "d < 2" for d
      using p assms that by (cases "d = 0") (auto simp: input_ok_def s')
  qed (use assms in \<open>simp_all add: input_ok_def s'\<close>)
  show "content (input64_feed_scancode b s) 1 = content s 1" unfolding e using c [of 1] by (simp add: content_def)
  show "length (content s 0) + 2 \<le> 255 \<Longrightarrow> map gist (content (input64_feed_scancode b s) 0) = map gist (content s 0) @ key_events b"
    unfolding e using p c [of 0] by (auto simp: key_events_def)
qed

lemma feed_scancodes:
  "input_ok s \<Longrightarrow> length (content s 0) + 2 * length bs \<le> 255 \<Longrightarrow>
     input_ok (fold input64_feed_scancode bs s)
   \<and> map gist (content (fold input64_feed_scancode bs s) 0) = map gist (content s 0) @ concat (map key_events bs)"
proof (induction bs arbitrary: s)
  case (Cons b bs)
  note f = feed_scancode_spec [OF Cons.prems(1), of b]
  have g: "map gist (content (input64_feed_scancode b s) 0) = map gist (content s 0) @ key_events b" using Cons.prems(2) by (intro f(3)) simp
  then have "length (map gist (content (input64_feed_scancode b s) 0)) = length (map gist (content s 0) @ key_events b)" by (simp only:)
  then have "length (content (input64_feed_scancode b s) 0) \<le> length (content s 0) + 2" by (auto simp: key_events_def split: if_splits)
  then show ?case using Cons.IH [OF f(1)] Cons.prems(2) g by simp
qed simp

section \<open>The mouse\<close>

definition button_events :: "byte \<Rightarrow> byte \<Rightarrow> (u16 \<times> u16 \<times> u32) list" where
  "button_events old now =
     [(EV64_KEY, k, if bhas now m then 1 else 0). (k, m) \<leftarrow> [(BTN64_LEFT, 1), (BTN64_RIGHT, 2), (BTN64_MIDDLE, 4)], bhas (now XOR old) m]"

definition motion_events :: "u32 \<Rightarrow> u32 \<Rightarrow> (u16 \<times> u16 \<times> u32) list" where
  "motion_events dx dy = (if dx \<noteq> 0 then [(EV64_REL, REL64_X, dx)] else []) @ (if dy \<noteq> 0 then [(EV64_REL, REL64_Y, - dy)] else [])"

definition with_sync :: "(u16 \<times> u16 \<times> u32) list \<Rightarrow> (u16 \<times> u16 \<times> u32) list" where
  "with_sync xs = (if xs = [] then [] else xs @ [(EV64_SYN, SYN64_REPORT, 0)])"

definition movement :: "byte \<Rightarrow> bool \<Rightarrow> u32" where
  "movement b neg = (if neg then ucast b OR NOT 0xFF else ucast b)"

lemma push_buttons: "push d t c v (s\<lparr>mouse_buttons := b\<rparr>) = (push d t c v s)\<lparr>mouse_buttons := b\<rparr>"
  by (simp add: push_def qupd_def Let_def)

lemma button_change:
  assumes "b AND 7 = b" "a AND 7 = a"
  shows "b XOR a \<noteq> 0 \<longleftrightarrow> bhas (b XOR a) 1 \<or> bhas (b XOR a) 2 \<or> bhas (b XOR a) (4 :: byte)"
proof -
  have m: "(7 :: byte) = 1 OR 2 OR 4" by simp
  have "(b XOR a) AND 7 = b XOR a" using assms by (metis bit.conj_xor_distrib2)
  then have e: "b XOR a = ((b XOR a) AND 1) OR ((b XOR a) AND 2) OR ((b XOR a) AND 4)"
    unfolding m by (simp only: bit.conj_disj_distrib)
  show ?thesis
  proof (cases "b XOR a = 0")
    case False
    have "bhas (b XOR a) 1 \<or> bhas (b XOR a) 2 \<or> bhas (b XOR a) 4"
    proof (rule ccontr)
      assume "\<not> ?thesis"
      then have "(b XOR a) AND 1 = 0" "(b XOR a) AND 2 = 0" "(b XOR a) AND 4 = 0" by (simp_all add: bhas_def)
      then show False using e False by (simp only: or.right_neutral)
    qed
    then show ?thesis using False by simp
  qed (simp add: bhas_def)
qed

lemma pushes_buttons: "pushes d xs (s\<lparr>mouse_buttons := b\<rparr>) = (pushes d xs s)\<lparr>mouse_buttons := b\<rparr>"
  by (induction xs arbitrary: s) (auto simp: push_buttons)

lemma push_if: "(if P then push d t c v s else s) = pushes d (if P then [(t, c, v)] else []) s"
  by simp

lemma mouse_event_pushes:
  assumes p: "mouse_packet s = [f, x, y]" and b: "mouse_buttons s AND 7 = mouse_buttons s"
  shows "mouse_event s = (pushes 1 (with_sync (button_events (mouse_buttons s) (f AND 7)
            @ motion_events (movement x (bhas f 0x10)) (movement y (bhas f 0x20)))) s)\<lparr>mouse_buttons := f AND 7\<rparr>"
proof -
  define n where "n = f AND 7"
  define c where "c = n XOR mouse_buttons s"
  define dx dy where "dx = movement x (bhas f 0x10)" and "dy = movement y (bhas f 0x20)"
  have "n AND 7 = n" by (simp add: n_def and.assoc)
  note ch = button_change [OF this b, folded c_def]
  have m: "mouse_event s =
    (let s1 = pushes 1 (if bhas c 1 then [(EV64_KEY, BTN64_LEFT, if bhas n 1 then 1 else 0)] else []) s;
         s2 = pushes 1 (if bhas c 2 then [(EV64_KEY, BTN64_RIGHT, if bhas n 2 then 1 else 0)] else []) s1;
         s3 = pushes 1 (if bhas c 4 then [(EV64_KEY, BTN64_MIDDLE, if bhas n 4 then 1 else 0)] else []) s2;
         s4 = pushes 1 (if dx \<noteq> 0 then [(EV64_REL, REL64_X, dx)] else []) (s3\<lparr>mouse_buttons := n\<rparr>);
         s5 = pushes 1 (if dy \<noteq> 0 then [(EV64_REL, REL64_Y, - dy)] else []) s4
     in pushes 1 (if c \<noteq> 0 \<or> dx \<noteq> 0 \<or> dy \<noteq> 0 then [(EV64_SYN, SYN64_REPORT, 0)] else []) s5)"
    unfolding mouse_event_def p push_if [symmetric]
    by (simp add: sync_report_def INPUT64_MOUSE_def n_def c_def dx_def dy_def movement_def Let_def cong: if_cong)
  define B1 B2 B3 where "B1 = (if bhas c 1 then [(EV64_KEY, BTN64_LEFT, if bhas n 1 then 1 else 0 :: u32)] else [])"
    and "B2 = (if bhas c 2 then [(EV64_KEY, BTN64_RIGHT, if bhas n 2 then 1 else 0 :: u32)] else [])"
    and "B3 = (if bhas c 4 then [(EV64_KEY, BTN64_MIDDLE, if bhas n 4 then 1 else 0 :: u32)] else [])"
  define M1 M2 where "M1 = (if dx \<noteq> 0 then [(EV64_REL, REL64_X, dx)] else [])" and "M2 = (if dy \<noteq> 0 then [(EV64_REL, REL64_Y, - dy)] else [])"
  define Y where "Y = (if c \<noteq> 0 \<or> dx \<noteq> 0 \<or> dy \<noteq> 0 then [(EV64_SYN, SYN64_REPORT, 0 :: u32)] else [])"
  have "c \<noteq> 0 \<longleftrightarrow> B1 @ B2 @ B3 \<noteq> []" unfolding ch by (simp add: B1_def B2_def B3_def)
  then have "with_sync (B1 @ B2 @ B3 @ M1 @ M2) = B1 @ B2 @ B3 @ M1 @ M2 @ Y"
    by (auto simp: with_sync_def M1_def M2_def Y_def)
  moreover have "button_events (mouse_buttons s) n @ motion_events dx dy = B1 @ B2 @ B3 @ M1 @ M2"
    by (simp add: button_events_def c_def B1_def B2_def B3_def motion_events_def M1_def M2_def)
  ultimately show ?thesis
    unfolding n_def [symmetric] dx_def [symmetric] dy_def [symmetric] m Let_def
      B1_def [symmetric] B2_def [symmetric] B3_def [symmetric] M1_def [symmetric] M2_def [symmetric] Y_def [symmetric]
    by (simp only: pushes_buttons pushes_simps(3))
qed

lemma bit_byte_high: "8 \<le> n \<Longrightarrow> \<not> bit (b :: byte) n"
  using bit_imp_le_length [of b n] by auto

lemma movement_value:
  assumes "- 256 \<le> k" "k < 256"
  shows "movement (word_of_int k) (k < 0) = word_of_int k"
proof (rule bit_word_eqI)
  fix n :: nat
  assume n: "n < LENGTH(32)"
  have hi: "bit k n \<longleftrightarrow> k < 0" if "8 \<le> n"
  proof (cases "k < 0")
    case True
    then have "take_bit 8 (NOT k) = NOT k" using assms(1) by (intro take_bit_int_eq_self) (simp_all add: not_int_def)
    then have "\<not> bit (NOT k) n" using that by (metis bit_take_bit_iff not_le)
    then show ?thesis using True by (simp add: bit_not_iff)
  next
    case False
    then have "take_bit 8 k = k" using assms(2) by (intro take_bit_int_eq_self) simp_all
    then have "\<not> bit k n" using that by (metis bit_take_bit_iff not_le)
    then show ?thesis using False by simp
  qed
  have m: "(0xFF :: u32) = mask 8" by (simp add: mask_eq_exp_minus_1)
  show "bit (movement (word_of_int k) (k < 0)) n = bit (word_of_int k :: u32) n"
    unfolding movement_def m using n hi by (cases "n < 8") (auto simp: bit_simps bit_byte_high)
qed

lemma flag_bits:
  assumes "b AND 7 = b" and "flags = b OR 0x08 OR (if dx < (0 :: int) then 0x10 else 0) OR (if dy < (0 :: int) then 0x20 else (0 :: byte))"
  shows "flags AND 0x08 \<noteq> 0" "flags AND 0xC0 = 0" "flags AND 7 = b" "bhas flags 0x10 = (dx < 0)" "bhas flags 0x20 = (dy < 0)"
proof -
  have bits: "\<not> bit b n" if "3 \<le> n" for n
  proof -
    have "(7 :: byte) = mask 3" by (simp add: mask_eq_exp_minus_1)
    then have "take_bit 3 b = b" using assms(1) by (simp add: take_bit_eq_mask)
    then show ?thesis using that by (metis bit_take_bit_iff not_le)
  qed
  have bf: "bit flags n \<longleftrightarrow> bit b n \<or> n = 3 \<or> dx < 0 \<and> n = 4 \<or> dy < 0 \<and> n = 5" for n
  proof -
    have "bit (2 ^ k :: byte) n \<longleftrightarrow> n = k" if "k < 8" for k using that by (auto simp: bit_exp_iff)
    from this [of 3] this [of 4] this [of 5] show ?thesis by (auto simp: assms(2) bit_or_iff)
  qed
  have bt: "flags AND 2 ^ n = 0 \<longleftrightarrow> \<not> bit flags n" for n by (rule and_exp_eq_0_iff_not_bit)
  show "flags AND 0x08 \<noteq> 0" using bt [of 3] bf [of 3] by simp
  show "bhas flags 0x10 = (dx < 0)" using bt [of 4] bf [of 4] bits [of 4] by (simp add: bhas_def)
  show "bhas flags 0x20 = (dy < 0)" using bt [of 5] bf [of 5] bits [of 5] by (simp add: bhas_def)
  have "(0xC0 :: byte) = 2 ^ 6 OR 2 ^ 7" by simp
  then have "flags AND 0xC0 = (flags AND 2 ^ 6) OR (flags AND 2 ^ 7)" by (simp only: bit.conj_disj_distrib)
  moreover have "flags AND 2 ^ 6 = 0" "flags AND 2 ^ 7 = 0" unfolding bt bf using bits by simp_all
  ultimately show "flags AND 0xC0 = 0" by simp
  have m: "(7 :: byte) = mask 3" by (simp add: mask_eq_exp_minus_1)
  show "flags AND 7 = b"
    unfolding m using bits not_le by (intro bit_word_eqI) (auto simp: bit_and_iff bit_mask_iff bf)
qed

lemma word_of_small_int_eq_0:
  assumes "- 256 \<le> k" "k < 256"
  shows "(word_of_int k :: u32) = 0 \<longleftrightarrow> k = 0"
proof
  assume "(word_of_int k :: u32) = 0"
  then have "take_bit 32 k = 0" using word_of_int_eq_iff [where 'a = 32, of k 0] by simp
  then have "2 ^ 32 dvd k" by (simp add: take_bit_eq_0_iff)
  then show "k = 0" using assms zdvd_not_zless [of k "2 ^ 32"] zdvd_not_zless [of "- k" "2 ^ 32"] by (cases "k = 0"; cases "0 < k") auto
qed simp

section \<open>Properties\<close>

text \<open>C40: A device is a bounded queue of whole events. While a queue holds fewer than 255 events a new one is appended to what is
  waiting; when it is full the new one is counted as dropped and nothing else changes. Reading always ends: it
  delivers as many of the oldest events as fit whole into the buffer, in order, each in the layout of Linux's
  \<open>struct input_event\<close>, and takes exactly those out of the queue. \<open>input64_queued\<close> is the number waiting, and the other
  device's queue is never touched.\<close>

theorem input64_refines_event_queue:
  assumes "input_ok s" and "d < 2"
  shows "content (push d t c v s) d
       = (if length (content s d) < 255 then content s d @ [stamped (event_seq s) t c v] else content s d)
     \<and> qdropped (queues (push d t c v s) d)
       = (if length (content s d) < 255 then qdropped (queues s d) else add64 (qdropped (queues s d)) 1)
     \<and> input64_queued (int d) s = length (content s d)
     \<and> (\<exists>s'. input64_read (int d) False len s = Some (concat (map event_bytes (take (len div 24) (content s d))), s')
          \<and> input_ok s' \<and> content s' d = drop (len div 24) (content s d) \<and> (\<forall>e. e \<noteq> d \<longrightarrow> content s' e = content s e))"
proof -
  have q: "queue_ok (queues s d)" using assms by (simp add: input_ok_def)
  have "input64_queued (int d) s = length (content s d)" using assms(2) by (simp add: input64_queued_def content_def waiting_def Let_def)
  then show ?thesis using push_spec(2,3) [OF q, of t c v] read_spec [OF assms, of len] by blast
qed

text \<open>What the mouse says is what a reader sees. From a packet boundary, with room in the queue, feeding the three bytes
  in which a PS/2 mouse encodes three buttons and a movement of -256 to 255 in each direction gives exactly one
  report: a key event for each button that changed, the horizontal movement, the vertical movement negated, each
  only if it is not zero, and a \<open>SYN_REPORT\<close> if there was anything; the decoder is at a packet boundary again and
  remembers the buttons.\<close>

theorem input64_mouse_packet_decoded:
  assumes "input_ok s" and "mouse_index s = 0" and "mouse_buttons s AND 7 = mouse_buttons s"
    and "length (content s 1) + 6 \<le> 255" and "b AND 7 = b" and "- 256 \<le> dx" "dx < 256" "- 256 \<le> dy" "dy < 256"
    and "flags = b OR 0x08 OR (if dx < 0 then 0x10 else 0) OR (if dy < 0 then 0x20 else 0)"
    and "t = fold input64_feed_mouse_byte [flags, word_of_int dx, word_of_int dy] s"
  shows "map gist (content t 1) = map gist (content s 1)
           @ with_sync (button_events (mouse_buttons s) b
               @ (if dx \<noteq> 0 then [(EV64_REL, REL64_X, word_of_int dx)] else [])
               @ (if dy \<noteq> 0 then [(EV64_REL, REL64_Y, word_of_int (- dy))] else []))
     \<and> mouse_index t = 0 \<and> mouse_buttons t = b \<and> input_ok t \<and> content t 0 = content s 0"
proof -
  have lp: "length (mouse_packet s) = 3" using assms(1) by (simp add: input_ok_def)
  define s3 where "s3 = s\<lparr>mouse_packet := [flags, word_of_int dx, word_of_int dy], mouse_index := 0\<rparr>"
  note fl = flag_bits [OF assms(5,10)]
  have t: "t = mouse_event s3"
  proof -
    obtain a b c where p: "mouse_packet s = [a, b, c]" using lp by (auto simp: length_Suc_conv numeral_3_eq_3)
    show ?thesis using assms(2) fl(1,2) by (simp add: assms(11) input64_feed_mouse_byte_def s3_def p Let_def)
  qed
  have s3: "mouse_packet s3 = [flags, word_of_int dx, word_of_int dy]" "mouse_buttons s3 = mouse_buttons s" "queues s3 = queues s"
    "mouse_index s3 = 0" by (simp_all add: s3_def)
  let ?xs = "with_sync (button_events (mouse_buttons s) b @ motion_events (word_of_int dx) (word_of_int dy))"
  have e: "t = (pushes 1 ?xs s3)\<lparr>mouse_buttons := b\<rparr>"
    using mouse_event_pushes [OF s3(1)] assms(3) movement_value [OF assms(6,7)] movement_value [OF assms(8,9)]
    by (simp add: t s3(2) fl)
  have q: "queue_ok (queues s3 1)" using assms(1) by (simp add: input_ok_def s3)
  have c: "content s3 d = content s d" for d by (simp add: content_def s3)
  have "length ?xs \<le> 6" by (simp add: with_sync_def button_events_def motion_events_def)
  then have g: "queue_ok (queues (pushes 1 ?xs s3) 1)" "map gist (content (pushes 1 ?xs s3) 1) = map gist (content s 1) @ ?xs"
    using pushes_spec [OF q, of ?xs] assms(4) by (simp_all add: c)
  have "queue_ok (queues (pushes 1 ?xs s3) d)" if "d < 2" for d
    using g(1) assms(1) that by (cases "d = 1") (auto simp: input_ok_def s3)
  then have ok: "input_ok t" by (simp add: e input_ok_def s3)
  have m: "motion_events (word_of_int dx) (word_of_int dy) =
     (if dx \<noteq> 0 then [(EV64_REL, REL64_X, word_of_int dx)] else []) @ (if dy \<noteq> 0 then [(EV64_REL, REL64_Y, word_of_int (- dy))] else [])"
    by (simp add: motion_events_def word_of_small_int_eq_0 [OF assms(6,7)] word_of_small_int_eq_0 [OF assms(8,9)])
  have "content t 1 = content (pushes 1 ?xs s3) 1" "content t 0 = content s 0" using c [of 0] by (simp_all add: e content_def)
  then show ?thesis using g(2) ok by (simp add: e s3 m)
qed

text \<open>What a PS/2 controller does when it is read: \<open>pending\<close> are the bytes it holds, each with whether the mouse sent it. A read
  of the status register tells whether there is one and who sent the first; a read of the data register takes it out.\<close>

definition ps2_reads :: "'d inb \<Rightarrow> ('d \<Rightarrow> (byte \<times> bool) list) \<Rightarrow> bool" where
  "ps2_reads inb pending \<longleftrightarrow>
     (\<forall>d. pending (snd (inb PS2_STATUS d)) = pending d
        \<and> (bhas (fst (inb PS2_STATUS d)) PS2_ST_OUTPUT_FULL \<longleftrightarrow> pending d \<noteq> [])
        \<and> (pending d \<noteq> [] \<longrightarrow> (bhas (fst (inb PS2_STATUS d)) PS2_ST_FROM_AUX \<longleftrightarrow> snd (hd (pending d)))
             \<and> fst (inb PS2_DATA d) = fst (hd (pending d)) \<and> pending (snd (inb PS2_DATA d)) = tl (pending d)))"

lemma drain_spec:
  assumes "ps2_reads inb pending"
  shows "\<exists>d'. drain inb aux feed d s = Some (d', fold feed (map fst (takeWhile (\<lambda>x. snd x = aux) (pending d))) s)
     \<and> pending d' = dropWhile (\<lambda>x. snd x = aux) (pending d)"
proof (induction "pending d" arbitrary: d s)
  case Nil
  have p: "\<not> bhas (fst (inb PS2_STATUS d)) PS2_ST_OUTPUT_FULL" "pending (snd (inb PS2_STATUS d)) = pending d"
    using assms Nil by (auto simp: ps2_reads_def)
  show ?case using Nil p by (subst drain.simps) (auto simp: Let_def split_beta)
next
  case (Cons x xs)
  define d1 where "d1 = snd (inb PS2_STATUS d)"
  define d2 where "d2 = snd (inb PS2_STATUS d1)"
  define d3 where "d3 = snd (inb PS2_DATA d2)"
  have p: "pending d1 = x # xs" "pending d2 = x # xs" using assms Cons(2) by (simp_all add: ps2_reads_def d1_def d2_def)
  have r: "bhas (fst (inb PS2_STATUS d)) PS2_ST_OUTPUT_FULL" "bhas (fst (inb PS2_STATUS d1)) PS2_ST_FROM_AUX = snd x"
    "fst (inb PS2_DATA d2) = fst x" "xs = pending d3"
    using assms p Cons(2) unfolding ps2_reads_def d3_def by (metis list.distinct(1) list.sel(1,3))+
  have u: "drain inb aux feed d s = (if snd x \<noteq> aux then Some (d2, s) else drain inb aux feed d3 (feed (fst x) s))"
    using r by (subst drain.simps) (simp add: Let_def split_beta flip: d1_def d2_def d3_def)
  show ?case
  proof (cases "snd x = aux")
    case True
    with Cons(1) [OF r(4), of "feed (fst x) s"] show ?thesis by (simp add: u r(4) flip: Cons(2))
  next
    case False
    then show ?thesis using p(2) by (auto simp: u simp flip: Cons(2))
  qed
qed

text \<open>The keyboard interrupt ends, and turns what the controller holds into events: whatever the controller's state, every byte
  from the keyboard up to the first byte the mouse sent is decoded, in order, and none of the mouse's is taken; with
  room in the queue, a reader sees for each byte other than the prefix \<open>0xE0\<close> one key event, down or up by its
  top bit, followed by a \<open>SYN_REPORT\<close>. The mouse's queue does not change.\<close>

theorem input64_keyboard_irq_delivers:
  assumes "ps2_reads inb pending" and "input_ok s"
    and "bs = map fst (takeWhile (\<lambda>x. snd x = False) (pending d))" and "length (content s 0) + 2 * length bs \<le> 255"
  shows "\<exists>d' s'. keyboard_irq inb d s = Some (d', s') \<and> pending d' = dropWhile (\<lambda>x. snd x = False) (pending d)
     \<and> map gist (content s' 0) = map gist (content s 0) @ concat (map key_events bs)
     \<and> content s' 1 = content s 1 \<and> input_ok s'"
proof -
  define u where "u = qupd INPUT64_KBD (\<lambda>q. q\<lparr>qirqs := add64 (qirqs q) 1\<rparr>) s"
  have s: "input_ok u" using assms(2) by (auto simp: u_def input_ok_def queue_ok_def INPUT64_KBD_def)
  have c: "content u e = content s e" for e by (simp add: u_def content_def waiting_def)
  have ki: "keyboard_irq inb d s = drain inb False input64_feed_scancode d u" by (simp only: keyboard_irq_def u_def)
  have f: "input_ok (fold input64_feed_scancode bs u)"
    "map gist (content (fold input64_feed_scancode bs u) 0) = map gist (content s 0) @ concat (map key_events bs)"
    using feed_scancodes [OF s, of bs] assms(4) by (simp_all add: c)
  have "content (fold input64_feed_scancode xs v) 1 = content v 1" if "input_ok v" for xs v
    using that
  proof (induction xs arbitrary: v)
    case (Cons x xs)
    then show ?case using feed_scancode_spec(1,2) [OF Cons.prems] by simp
  qed simp
  from this [OF s] drain_spec [OF assms(1), of False input64_feed_scancode d u] show ?thesis
    using f ki by (auto simp: assms(3) c)
qed

section \<open>Witnesses\<close>

definition blank_event :: input64_event where
  "blank_event = \<lparr>tv_sec = 0, tv_usec = 0, etype = 0, ecode = 0, evalue = 0\<rparr>"

definition input_start :: input_state where
  "input_start = \<lparr>queues = (\<lambda>_. \<lparr>ev = replicate 256 blank_event, qhead = 0, qtail = 0, qdropped = 0, qirqs = 0\<rparr>), modifiers = 0,
     event_seq = 0, kbd_extended = False, mouse_packet = [0, 0, 0], mouse_index = 0, mouse_buttons = 0\<rparr>"

definition example_inb :: "(byte \<times> bool) list inb" where
  "example_inb port d =
     (if port = PS2_DATA then (case d of [] \<Rightarrow> (0, []) | x # xs \<Rightarrow> (fst x, xs))
      else (case d of [] \<Rightarrow> (0, d) | x # xs \<Rightarrow> (if snd x then 0x21 else 0x01, d)))"

lemma input_start_ok: "input_ok input_start"
  by (simp add: input_ok_def queue_ok_def input_start_def)

lemma input_start_content: "content input_start d = []"
  by (simp add: content_def waiting_def input_start_def ring_list_def)

lemma example_inb_reads: "ps2_reads example_inb (\<lambda>d. d)"
  unfolding ps2_reads_def
proof
  fix d :: "(byte \<times> bool) list"
  show "snd (example_inb PS2_STATUS d) = d
        \<and> (bhas (fst (example_inb PS2_STATUS d)) PS2_ST_OUTPUT_FULL \<longleftrightarrow> d \<noteq> [])
        \<and> (d \<noteq> [] \<longrightarrow> (bhas (fst (example_inb PS2_STATUS d)) PS2_ST_FROM_AUX \<longleftrightarrow> snd (hd d))
             \<and> fst (example_inb PS2_DATA d) = fst (hd d) \<and> snd (example_inb PS2_DATA d) = tl d)"
    by (cases d)
      (simp_all add: example_inb_def PS2_DATA_def PS2_STATUS_def bhas_def PS2_ST_OUTPUT_FULL_def PS2_ST_FROM_AUX_def)
qed

text \<open>A full keyboard queue is not needed for it: one event pushed into the empty queue and read back.\<close>

theorem input64_refines_event_queue_witness:
  "content (push 0 EV64_KEY 30 1 input_start) 0 = [stamped 0 EV64_KEY 30 1] \<and> input64_queued 0 input_start = 0"
proof -
  have "event_seq input_start = 0" by (simp add: input_start_def)
  then show ?thesis
    using input64_refines_event_queue [OF input_start_ok, of 0 EV64_KEY 30 1 24] by (simp add: input_start_content)
qed

text \<open>The left button goes down while the mouse moves three to the left.\<close>

theorem input64_mouse_packet_decoded_witness:
  "map gist (content (fold input64_feed_mouse_byte [0x19, word_of_int (- 3), 0] input_start) 1)
     = [(EV64_KEY, BTN64_LEFT, 1), (EV64_REL, REL64_X, word_of_int (- 3)), (EV64_SYN, SYN64_REPORT, 0)]"
proof -
  have s: "mouse_index input_start = 0" "mouse_buttons input_start = 0" by (simp_all add: input_start_def)
  have pre: "mouse_buttons input_start AND 7 = mouse_buttons input_start" "length (content input_start 1) + 6 \<le> 255" "(1 :: byte) AND 7 = 1"
    by (simp_all add: s input_start_content)
  have fl: "(0x19 :: byte) = 1 OR 0x08 OR (if (- 3 :: int) < 0 then 0x10 else 0) OR (if (0 :: int) < 0 then 0x20 else 0)" by simp
  have b: "button_events 0 1 = [(EV64_KEY, BTN64_LEFT, 1)]" by (simp add: button_events_def bhas_def)
  have "map gist (content (fold input64_feed_mouse_byte [0x19, word_of_int (- 3), word_of_int 0] input_start) 1) =
     with_sync (button_events 0 1 @ [(EV64_REL, REL64_X, word_of_int (- 3))])"
    using input64_mouse_packet_decoded [OF input_start_ok s(1) pre _ _ _ _ fl refl] unfolding input_start_content s(2)
    by (simp only: list.map append_Nil) simp
  then show ?thesis unfolding b with_sync_def word_of_int_0 by (simp only: append_Cons append_Nil list.distinct if_False)
qed

text \<open>A key goes down and up, and a byte of the mouse's is waiting behind it.\<close>

theorem input64_keyboard_irq_delivers_witness:
  "\<exists>s'. keyboard_irq example_inb [(0x1E, False), (0x9E, False), (0x08, True)] input_start = Some ([(0x08, True)], s')
     \<and> map gist (content s' 0) = [(EV64_KEY, 30, 1), (EV64_SYN, SYN64_REPORT, 0), (EV64_KEY, 30, 0), (EV64_SYN, SYN64_REPORT, 0)]"
proof -
  have k: "key_events 0x1E = [(EV64_KEY, 30, 1), (EV64_SYN, SYN64_REPORT, 0)]" "key_events 0x9E = [(EV64_KEY, 30, 0), (EV64_SYN, SYN64_REPORT, 0)]"
    by (simp_all add: key_events_def bhas_def)
  show ?thesis
    using input64_keyboard_irq_delivers [OF example_inb_reads input_start_ok, of "[0x1E, 0x9E]" "[(0x1E, False), (0x9E, False), (0x08, True)]"]
    by (auto simp: input_start_content k)
qed

end
