(* ===== verification/User_Pages.thy ===== *)
theory User_Pages
  imports Vmspace64_Destroy
begin

text \<open>
  Pages of the user half seen from outside: what byte the processor finds at an address, and what giving a page a
  frame, changing its permissions and writing into it do to that view. The ELF loader and the first touch
  of anonymous memory are both sequences of these three steps.
\<close>

unbundle bit_operations_syntax

section \<open>Bytes of a frame\<close>

definition peek :: "machine \<Rightarrow> nat \<Rightarrow> nat \<Rightarrow> byte" where
  "peek m f k = ucast (drop_bit (8 * (k mod 8)) (mem m f (k div 8)))"

definition poke :: "nat \<Rightarrow> nat \<Rightarrow> byte \<Rightarrow> machine \<Rightarrow> machine" where
  "poke f k b m =
     (let w = mem m f (k div 8); n = 8 * (k mod 8)
      in store_word f (k div 8) ((w AND NOT (push_bit n 0xFF)) OR push_bit n (ucast b)) m)"

definition pokes :: "nat \<Rightarrow> nat \<Rightarrow> byte list \<Rightarrow> machine \<Rightarrow> machine" where
  "pokes f off bs m = fold (\<lambda>k. poke f (off + k) (bs ! k)) [0..<length bs] m"

lemma bit_peek: "bit (peek m f k) n \<longleftrightarrow> n < 8 \<and> bit (mem m f (k div 8)) (8 * (k mod 8) + n)"
  by (auto simp: peek_def bit_simps)

lemma bit_replace_byte:
  assumes "x < 64"
  shows "bit ((w AND NOT (push_bit n 0xFF)) OR push_bit n (ucast (b :: byte)) :: u64) x
     \<longleftrightarrow> (if n \<le> x \<and> x < n + 8 then bit b (x - n) else bit w x)"
proof -
  have m: "(0xFF :: u64) = mask 8" by (simp add: mask_eq_exp_minus_1)
  have hi: "8 \<le> i \<Longrightarrow> \<not> bit b i" for i using bit_imp_le_length [of b i] by auto
  show ?thesis unfolding m using assms hi [of "x - n"] by (cases "8 \<le> x - n") (auto simp: bit_simps simp del: mask_numeral)
qed

lemma peek_poke: "peek (poke f k b m) h j = (if h = f \<and> j = k then b else peek m h j)"
proof (cases "h = f \<and> j div 8 = k div 8")
  case True
  have split: "j = k \<longleftrightarrow> j mod 8 = k mod 8" using True by (metis mod_div_mult_eq)
  show ?thesis
  proof (rule bit_word_eqI)
    fix n :: nat
    assume "n < LENGTH(8)"
    then have n: "n < 8" by simp
    then have x: "8 * (j mod 8) + n < 64" by linarith
    have inside: "8 * (k mod 8) \<le> 8 * (j mod 8) + n \<and> 8 * (j mod 8) + n < 8 * (k mod 8) + 8 \<longleftrightarrow> j mod 8 = k mod 8"
      using n by linarith
    show "bit (peek (poke f k b m) h j) n = bit (if h = f \<and> j = k then b else peek m h j) n"
      unfolding bit_peek poke_def Let_def using True n split inside
      by (simp add: store_word_def bit_replace_byte [OF x] bit_peek)
  qed
next
  case False
  then show ?thesis by (auto simp: peek_def poke_def store_word_def Let_def)
qed

lemma poke_fields [simp]:
  "cr3 (poke f k b m) = cr3 m" "pmm (poke f k b m) = pmm m" "h \<noteq> f \<Longrightarrow> mem (poke f k b m) h = mem m h"
  by (simp_all add: poke_def store_word_def Let_def)

lemma pokes_spec:
  "cr3 (pokes f off bs m) = cr3 m" "pmm (pokes f off bs m) = pmm m" "h \<noteq> f \<Longrightarrow> mem (pokes f off bs m) h = mem m h"
  "peek (pokes f off bs m) h j = (if h = f \<and> off \<le> j \<and> j < off + length bs then bs ! (j - off) else peek m h j)"
proof -
  have "cr3 (fold (\<lambda>k. poke f (off + k) (bs ! k)) [0..<n] m) = cr3 m
      \<and> pmm (fold (\<lambda>k. poke f (off + k) (bs ! k)) [0..<n] m) = pmm m
      \<and> (h \<noteq> f \<longrightarrow> mem (fold (\<lambda>k. poke f (off + k) (bs ! k)) [0..<n] m) h = mem m h)
      \<and> peek (fold (\<lambda>k. poke f (off + k) (bs ! k)) [0..<n] m) h j
        = (if h = f \<and> off \<le> j \<and> j < off + n then bs ! (j - off) else peek m h j)" for n
    by (induction n) (auto simp: peek_poke)
  from this [of "length bs"] show "cr3 (pokes f off bs m) = cr3 m" "pmm (pokes f off bs m) = pmm m"
    "h \<noteq> f \<Longrightarrow> mem (pokes f off bs m) h = mem m h"
    "peek (pokes f off bs m) h j = (if h = f \<and> off \<le> j \<and> j < off + length bs then bs ! (j - off) else peek m h j)"
    by (simp_all add: pokes_def)
qed

lemma clear_frame_spec:
  "cr3 (clear_frame f m) = cr3 m" "pmm (clear_frame f m) = pmm m" "h \<noteq> f \<Longrightarrow> mem (clear_frame f m) h = mem m h"
  "k < 4096 \<Longrightarrow> peek (clear_frame f m) f k = 0"
  by (simp_all add: clear_frame_def peek_def less_mult_imp_div_less)

section \<open>Pages\<close>

definition page :: "nat \<Rightarrow> u64" where
  "page p = of_nat (p * 4096)"

lemma unat_page: "p < 2 ^ 35 \<Longrightarrow> unat (page p) = p * 4096"
  unfolding page_def by (simp only: unsigned_of_nat) (simp add: take_bit_nat_eq_self)

lemma page_user:
  assumes "p < 2 ^ 35"
  shows "canonical (page p)" and "PML4_IDX (page p) \<noteq> REC" and "q < 2 ^ 35 \<Longrightarrow> drop_bit 12 (page p) = drop_bit 12 (page q) \<longleftrightarrow> p = q"
proof -
  have u: "unat (page p) < 2 ^ 47" using assms by (simp add: unat_page)
  then show "canonical (page p)" by (rule canonical_low)
  have d: "unat (drop_bit 12 (page r)) = r" if "r < 2 ^ 35" for r
    using that by (simp only: unat_drop_bit_eq unat_page) (simp add: drop_bit_eq_div)
  show "q < 2 ^ 35 \<Longrightarrow> drop_bit 12 (page p) = drop_bit 12 (page q) \<longleftrightarrow> p = q" using d [of p] d [of q] assms by metis
  have "unat (drop_bit 39 (page p)) < 256"
    using assms by (simp only: unat_drop_bit_eq unat_page) (simp add: drop_bit_eq_div)
  moreover have "unat (PML4_IDX (page p)) \<le> unat (drop_bit 39 (page p))"
  proof -
    have "(0x1FF :: u64) = mask 9" by (simp add: mask_eq_exp_minus_1)
    then have "PML4_IDX (page p) = take_bit 9 (drop_bit 39 (page p))" by (simp add: PML4_IDX_def take_bit_eq_mask)
    then show ?thesis by (simp add: unsigned_take_bit_eq)
  qed
  ultimately show "PML4_IDX (page p) \<noteq> REC" by (auto simp: REC_def)
qed

lemma mmu_frame_same_page:
  assumes "drop_bit 12 v = drop_bit 12 w"
  shows "mmu_frame m v = mmu_frame m w"
proof -
  have d: "drop_bit (12 + k) v = drop_bit (12 + k) w" for k
    using assms drop_bit_drop_bit [of k 12 v] drop_bit_drop_bit [of k 12 w] by (simp only: add.commute [of k])
  have i: "PML4_IDX v = PML4_IDX w" "PDPT_IDX v = PDPT_IDX w" "PD_IDX v = PD_IDX w" "PT_IDX v = PT_IDX w" "canonical v = canonical w"
    using d [of 27] d [of 18] d [of 9] d [of 0] d [of 35]
    by (simp_all only: PML4_IDX_def PDPT_IDX_def PD_IDX_def PT_IDX_def canonical_def) simp_all
  have "unat (drop_bit 12 (x OR (v AND k))) = unat (drop_bit 12 (x OR (w AND k)))" for x k :: u64
    by (simp only: drop_bit_or drop_bit_and assms)
  then show ?thesis unfolding mmu_frame_def i Let_def by (simp only:)
qed

lemma mmu_frame_of_page:
  assumes "a < 2 ^ 47"
  shows "mmu_frame m (of_nat a) = mmu_frame m (page (a div 4096))"
proof (rule mmu_frame_same_page)
  have p: "a div 4096 < 2 ^ 35" using assms by (simp add: less_mult_imp_div_less)
  have "unat (of_nat a :: u64) = a" using assms by (simp only: unsigned_of_nat) (simp add: take_bit_nat_eq_self)
  then have "unat (drop_bit 12 (of_nat a :: u64)) = a div 4096" by (simp only: unat_drop_bit_eq) (simp add: drop_bit_eq_div)
  moreover have "unat (drop_bit 12 (page (a div 4096))) = a div 4096"
    by (simp only: unat_drop_bit_eq unat_page [OF p]) (simp add: drop_bit_eq_div)
  ultimately show "drop_bit 12 (of_nat a) = drop_bit 12 (page (a div 4096))" by (metis word_unat_eq_iff)
qed

lemma of_nat_page [simp]: "(of_nat f * 4096 :: u64) = page f"
  by (simp add: page_def)

lemma frame_addr:
  assumes f: "f < 2 ^ 40"
  shows "page f AND NOT (PAGE64_SIZE - 1) = page f" and "unat (page f) = f * 4096"
proof -
  show u: "unat (page f) = f * 4096" unfolding page_def using f by (simp only: unsigned_of_nat) (simp add: take_bit_nat_eq_self)
  have m: "PAGE64_SIZE - 1 = mask 12" by (simp add: PAGE64_SIZE_def mask_eq_exp_minus_1)
  have "unat (take_bit 12 (page f)) = 0" unfolding unsigned_take_bit_eq u by (simp add: take_bit_eq_mod)
  then have t: "take_bit 12 (page f) = 0" by (simp only: unsigned_eq_0_iff)
  have "\<not> bit (page f) n" if "n < 12" for n using that t by (metis bit_0_eq bit_take_bit_iff bot_fun_def bot_bool_def)
  then show "page f AND NOT (PAGE64_SIZE - 1) = page f"
    unfolding m by (intro bit_word_eqI) (auto simp: bit_simps simp del: mask_numeral)
qed

section \<open>The view of a set of pages\<close>

text \<open>\<open>user_pages P A m\<close>: in the loaded space, the pages of \<open>P\<close> that \<open>A\<close> gives contents are mapped, each to a frame of its own
  that is allocated and no page table, and hold those contents; the others of \<open>P\<close> are not mapped.\<close>

definition data_frame_of :: "machine \<Rightarrow> nat \<Rightarrow> nat \<Rightarrow> bool" where
  "data_frame_of m p f \<longleftrightarrow> mmu_frame m (page p) = Some f \<and> f < 2 ^ 40 \<and> owners (pmm m) f > 0
     \<and> (\<forall>q. valid_path q \<longrightarrow> tpath m q \<noteq> Some f)"

definition user_pages :: "nat set \<Rightarrow> (nat \<Rightarrow> (nat \<Rightarrow> byte) option) \<Rightarrow> machine \<Rightarrow> bool" where
  "user_pages P A m \<longleftrightarrow> paging_inv m \<and> dom A \<subseteq> P
     \<and> (\<forall>p \<in> P. p < 2 ^ 35 \<and> private_path m (page p))
     \<and> (\<forall>p \<in> P. A p = None \<longrightarrow> mmu_frame m (page p) = None)
     \<and> (\<forall>p c. A p = Some c \<longrightarrow> (\<exists>f. data_frame_of m p f \<and> (\<forall>k < 4096. peek m f k = c k)))
     \<and> (\<forall>p q. p \<in> dom A \<longrightarrow> q \<in> dom A \<longrightarrow> mmu_frame m (page p) = mmu_frame m (page q) \<longrightarrow> p = q)"

lemma user_pagesD:
  assumes "user_pages P A m"
  shows "paging_inv m" and "p \<in> P \<Longrightarrow> p < 2 ^ 35" and "p \<in> P \<Longrightarrow> private_path m (page p)"
    and "p \<in> P \<Longrightarrow> A p = None \<Longrightarrow> mmu_frame m (page p) = None"
    and "A p = Some c \<Longrightarrow> \<exists>f. data_frame_of m p f \<and> (\<forall>k < 4096. peek m f k = c k)"
    and "A p = Some c \<Longrightarrow> p \<in> P"
    and "A p = Some c \<Longrightarrow> A q = Some d \<Longrightarrow> data_frame_of m p f \<Longrightarrow> data_frame_of m q f \<Longrightarrow> p = q"
  using assms unfolding user_pages_def data_frame_of_def by (blast, blast, blast, blast, blast, blast, metis domI)

lemma peek_cong: "mem m' f = mem m f \<Longrightarrow> peek m' f k = peek m f k"
  by (simp add: peek_def)

text \<open>A change to one data frame, or to none: every other page is as it was.\<close>

lemma user_pages_write:
  assumes u: "user_pages P A m" and p: "A p = Some c" "data_frame_of m p g"
    and n: "cr3 n = cr3 m" "pmm n = pmm m" "\<forall>h. h \<noteq> g \<longrightarrow> mem n h = mem m h" "\<forall>k < 4096. peek n g k = d k"
  shows "user_pages P (A(p \<mapsto> d)) n" and "data_frame_of n p g"
proof -
  note D = user_pagesD [OF u]
  have g: "\<forall>q. valid_path q \<longrightarrow> tpath m q \<noteq> Some g" using p(2) by (simp add: data_frame_of_def)
  note df = data_frame [OF D(1) g n(1,3)]
  have inv: "paging_inv n" using D(1) by (intro df(4)) (simp_all add: n(2) paging_inv_def)
  have w: "mmu_frame n (page q) = mmu_frame m (page q)" if "q \<in> P" for q
    using df(3) page_user(2) [OF D(2) [OF that]] by blast
  have f: "data_frame_of n q f" if "q \<in> P" "data_frame_of m q f" for q f
    using that df(1) w [OF that(1)] n(2) by (auto simp: data_frame_of_def)
  then show "data_frame_of n p g" using p D(6) by blast
  have "dom A \<subseteq> P" and pP: "p \<in> P" using u D(6) [OF p(1)] by (auto simp: user_pages_def)
  moreover have "\<exists>f. data_frame_of n q f \<and> (\<forall>k < 4096. peek n f k = e k)" if e: "(A(p \<mapsto> d)) q = Some e" for q e
  proof (cases "q = p")
    case True
    then show ?thesis using e f [OF pP p(2)] n(4) by auto
  next
    case False
    then obtain h where h: "data_frame_of m q h" "\<forall>k < 4096. peek m h k = e k" using e D(5) [of q e] by auto
    moreover have "h \<noteq> g" using D(7) [OF p(1), of q e g] e False h(1) p(2) by auto
    ultimately show ?thesis using f [OF D(6)] e False n(3) peek_cong [of n h m] by (intro exI [of _ h]) auto
  qed
  moreover have "q = r" if "q \<in> dom A" "r \<in> dom A" "mmu_frame n (page q) = mmu_frame n (page r)" for q r
    using u that w D(6) unfolding user_pages_def by (metis domD)
  ultimately show "user_pages P (A(p \<mapsto> d)) n"
    unfolding user_pages_def using inv D(2,4) w df(2) [OF page_user(2) [OF D(2)] D(3)] p(1)
    by (auto simp: insert_absorb domI)
qed

text \<open>What \<open>paging64_map\<close> at one page of the user half does to the pages.\<close>

lemma page_slot: "p < 2 ^ 35 \<Longrightarrow> q < 2 ^ 35 \<Longrightarrow> same_slot (page p) (page q) \<Longrightarrow> p = q"
  using canonical_slot [of "page p" "page q"] page_user by blast

definition page_mapped :: "nat \<Rightarrow> nat \<Rightarrow> machine \<Rightarrow> rc \<Rightarrow> machine \<Rightarrow> bool" where
  "page_mapped p f m rc n \<longleftrightarrow> cr3 n = cr3 m \<and> paging_inv n
     \<and> (\<forall>q < 2 ^ 35. private_path m (page q) \<longrightarrow> private_path n (page q))
     \<and> (\<forall>q < 2 ^ 35. mmu_frame n (page q) = (if rc = PAGING64_OK \<and> q = p then Some f else mmu_frame m (page q)))
     \<and> (\<forall>f. owners (pmm m) f > 0 \<longrightarrow> (\<forall>q. valid_path q \<longrightarrow> tpath m q \<noteq> Some f) \<longrightarrow>
           owners (pmm n) f = owners (pmm m) f \<and> mem n f = mem m f \<and> (\<forall>q. valid_path q \<longrightarrow> tpath n q \<noteq> Some f))"

lemma map_page:
  assumes inv: "paging_inv m" and p: "p < 2 ^ 35" "private_path m (page p)" and f: "f < 2 ^ 40" and fl: "flags AND ADDR_MASK = 0"
  obtains rc n where "paging64_map (page p) (of_nat (f * 4096)) flags m = Some (rc, n)" and "page_mapped p f m rc n"
proof -
  note u = page_user [OF p(1)]
  have phys: "unat (of_nat (f * 4096) :: u64) = f * 4096" using f by (simp only: unsigned_of_nat) (simp add: take_bit_nat_eq_self)
  then have ph: "unat (of_nat (f * 4096) :: u64) < 2 ^ 52" "unat (of_nat (f * 4096) :: u64) div 4096 = f" using f by simp_all
  obtain rc n where m: "paging64_map (page p) (of_nat (f * 4096)) flags m = Some (rc, n)" and post: "map_post (page p) (of_nat (f * 4096)) m rc n"
    using paging64_map_spec [OF inv p(2) u(2) ph(1) fl] by blast
  have "mmu_frame n (page q) = (if rc = PAGING64_OK \<and> q = p then Some f else mmu_frame m (page q))"
    "private_path m (page q) \<longrightarrow> private_path n (page q)" if q: "q < 2 ^ 35" for q
  proof -
    show "mmu_frame n (page q) = (if rc = PAGING64_OK \<and> q = p then Some f else mmu_frame m (page q))"
      using post u(1) page_user(2) [OF q] page_slot [OF p(1) q] unfolding map_post_def ph(2) by (cases rc) auto
    show "private_path m (page q) \<longrightarrow> private_path n (page q)" using post page_user(2) [OF q] by (simp add: map_post_def)
  qed
  then show ?thesis using that [OF m] post by (simp add: page_mapped_def map_post_def)
qed

text \<open>Giving a page that has none a fresh frame \<open>g\<close>: \<open>m0\<close> is the machine after the allocator handed the frame out, whatever
  has been written into it since.\<close>

lemma user_pages_give:
  assumes u: "user_pages P A m" and p: "p \<in> P" "A p = None" and "flags AND ADDR_MASK = 0"
    and pm: "pmm_live (pmm m0)" "ready (pmm m0)" "frame_count (pmm m0) \<le> 2 ^ 40"
    and g: "g < 2 ^ 40" "owners (pmm m) g = 0" "owners (pmm m0) = (owners (pmm m))(g := 1)"
    and m0: "cr3 m0 = cr3 m" "\<forall>h. h \<noteq> g \<longrightarrow> mem m0 h = mem m h"
  obtains rc n where "paging64_map (page p) (of_nat (g * 4096)) flags m0 = Some (rc, n)" and "cr3 n = cr3 m"
    and "rc = PAGING64_OK \<Longrightarrow> user_pages P (A(p \<mapsto> peek m0 g)) n \<and> data_frame_of n p g"
proof -
  note D = user_pagesD [OF u]
  have nt: "tpath m q \<noteq> Some f" if "owners (pmm m) f = 0" "valid_path q" for q f
    using D(1) that unfolding paging_inv_def by (metis less_irrefl)
  have df: "\<forall>q. valid_path q \<longrightarrow> tpath m q \<noteq> Some g" using nt [OF g(2)] by auto
  note d = data_frame [OF D(1) df m0]
  have t: "valid_path q \<Longrightarrow> tpath m0 q = tpath m q" for q by (rule d(1))
  have inv: "paging_inv m0"
    using pm D(1) by (intro d(4)) (auto simp: paging_inv_def g(3))
  have w: "mmu_frame m0 (page q) = mmu_frame m (page q)" if "q \<in> P" for q using d(3) page_user(2) [OF D(2) [OF that]] by blast
  have pr: "private_path m0 (page q)" if "q \<in> P" for q using d(2) page_user(2) [OF D(2) [OF that]] D(3) [OF that] by blast
  obtain rc n where m: "paging64_map (page p) (of_nat (g * 4096)) flags m0 = Some (rc, n)" and post: "page_mapped p g m0 rc n"
    using map_page [OF inv D(2) [OF p(1)] pr [OF p(1)] g(1) assms(4)] by blast
  have n: "cr3 n = cr3 m" "paging_inv n" "\<And>q. q < 2 ^ 35 \<Longrightarrow> private_path m0 (page q) \<Longrightarrow> private_path n (page q)"
    "\<And>q. q < 2 ^ 35 \<Longrightarrow> mmu_frame n (page q) = (if rc = PAGING64_OK \<and> q = p then Some g else mmu_frame m0 (page q))"
    "\<And>f. owners (pmm m0) f > 0 \<Longrightarrow> \<forall>q. valid_path q \<longrightarrow> tpath m0 q \<noteq> Some f \<Longrightarrow>
           owners (pmm n) f = owners (pmm m0) f \<and> mem n f = mem m0 f \<and> (\<forall>q. valid_path q \<longrightarrow> tpath n q \<noteq> Some f)"
    using post m0(1) unfolding page_mapped_def by auto
  have keep: "data_frame_of n q f" "mem n f = mem m f" "f \<noteq> g" if "A q = Some c" "data_frame_of m q f" for q c f
  proof -
    have "q \<in> P" "q \<noteq> p" using that D(6) p(2) by auto
    moreover have f: "owners (pmm m) f > 0" "\<forall>r. valid_path r \<longrightarrow> tpath m r \<noteq> Some f" "f < 2 ^ 40" "mmu_frame m (page q) = Some f"
      using that(2) by (simp_all add: data_frame_of_def)
    moreover show "f \<noteq> g" using f(1) g(2) by auto
    ultimately show "data_frame_of n q f" "mem n f = mem m f"
      using n(4) [OF D(2)] n(5) [of f] w g(3) t m0(2) by (auto simp: data_frame_of_def)
  qed
  show ?thesis
  proof (rule that [OF m n(1)])
    assume ok: "rc = PAGING64_OK"
    let ?A = "A(p \<mapsto> peek m0 g)"
    have fg: "data_frame_of n p g" using n(4) [OF D(2) [OF p(1)]] n(5) [of g] ok g df t by (auto simp: data_frame_of_def)
    have "user_pages P ?A n"
      unfolding user_pages_def
    proof (intro conjI ballI allI impI)
      show "paging_inv n" by (rule n(2))
      show "dom ?A \<subseteq> P" using u p(1) by (auto simp: user_pages_def)
      fix q
      show "q < 2 ^ 35" "private_path n (page q)" if "q \<in> P" using that D(2) pr n(3) by blast+
      show "mmu_frame n (page q) = None" if "q \<in> P" "?A q = None"
        using that n(4) [OF D(2)] w D(4) by (auto split: if_splits)
      show "\<exists>f. data_frame_of n q f \<and> (\<forall>k<4096. peek n f k = c k)" if c: "?A q = Some c" for c
      proof (cases "q = p")
        case True
        moreover have "mem n g = mem m0 g" using n(5) [of g] g df t by auto
        ultimately show ?thesis using fg c peek_cong [of n g m0] by (intro exI [of _ g]) auto
      next
        case False
        then obtain f where f: "data_frame_of m q f" "\<forall>k < 4096. peek m f k = c k" using c D(5) [of q c] by auto
        then show ?thesis using keep [of q c f] c False peek_cong [of n f m] by (intro exI [of _ f]) auto
      qed
      fix r
      assume qr: "q \<in> dom ?A" "r \<in> dom ?A" and eq: "mmu_frame n (page q) = mmu_frame n (page r)"
      have own: "\<exists>f. data_frame_of m x f \<and> data_frame_of n x f \<and> f \<noteq> g" if "x \<in> dom A" for x
        using that D(5) keep by (metis domD)
      show "q = r"
      proof (cases "q = p \<or> r = p")
        case True
        have "x \<in> dom A \<Longrightarrow> mmu_frame n (page x) \<noteq> mmu_frame n (page p)" for x
          using own [of x] fg by (auto simp: data_frame_of_def)
        from this [of q] this [of r] show ?thesis using True qr eq by (metis dom_fun_upd insert_iff option.distinct(1))
      next
        case False
        then obtain f h where "data_frame_of m q f" "data_frame_of n q f" "data_frame_of m r h" "data_frame_of n r h"
          using own [of q] own [of r] qr by auto
        then show ?thesis using D(7) [of q _ r _ f] False qr eq by (auto simp: data_frame_of_def)
      qed
    qed
    then show "user_pages P (A(p \<mapsto> peek m0 g)) n \<and> data_frame_of n p g" using fg by simp
  qed
qed

lemma user_pages_back:
  assumes u: "user_pages P A m" and p: "p \<in> P" "A p = None" and "flags AND ADDR_MASK = 0"
    and pm: "pmm_live P'" "ready P'" "frame_count P' \<le> 2 ^ 40"
    and g: "g < 2 ^ 40" "owners (pmm m) g = 0" "owners P' = (owners (pmm m))(g := 1)"
  obtains rc n where "paging64_map (page p) (of_nat (g * 4096)) flags (m\<lparr>pmm := P'\<rparr>) = Some (rc, n)" and "cr3 n = cr3 m"
    and "rc = PAGING64_OK \<Longrightarrow> user_pages P (A(p \<mapsto> (\<lambda>_. 0))) (clear_frame g n) \<and> data_frame_of (clear_frame g n) p g"
proof -
  obtain rc n where n: "paging64_map (page p) (of_nat (g * 4096)) flags (m\<lparr>pmm := P'\<rparr>) = Some (rc, n)" "cr3 n = cr3 m"
    "rc = PAGING64_OK \<Longrightarrow> user_pages P (A(p \<mapsto> peek (m\<lparr>pmm := P'\<rparr>) g)) n \<and> data_frame_of n p g"
    using user_pages_give [OF u p assms(4), of "m\<lparr>pmm := P'\<rparr>" g] pm g by auto
  have "user_pages P (A(p \<mapsto> (\<lambda>_. 0))) (clear_frame g n) \<and> data_frame_of (clear_frame g n) p g" if "rc = PAGING64_OK"
    using user_pages_write [of P "A(p \<mapsto> peek (m\<lparr>pmm := P'\<rparr>) g)" n p _ g "clear_frame g n" "\<lambda>_. 0"] n(3) [OF that] clear_frame_spec by simp
  then show ?thesis using that n(1,2) by blast
qed

text \<open>Mapping a page again where it is, for wider permissions.\<close>

lemma user_pages_remap:
  assumes u: "user_pages P A m" and p: "A p = Some c" "data_frame_of m p f" and "flags AND ADDR_MASK = 0"
  obtains rc n where "paging64_map (page p) (of_nat (f * 4096)) flags m = Some (rc, n)" and "cr3 n = cr3 m"
    and "user_pages P A n" and "data_frame_of n p f"
proof -
  note D = user_pagesD [OF u]
  have pP: "p \<in> P" using D(6) p(1) .
  have f: "f < 2 ^ 40" "mmu_frame m (page p) = Some f" using p(2) by (simp_all add: data_frame_of_def)
  obtain rc n where m: "paging64_map (page p) (of_nat (f * 4096)) flags m = Some (rc, n)" and post: "page_mapped p f m rc n"
    using map_page [OF D(1) D(2) [OF pP] D(3) [OF pP] f(1) assms(4)] by blast
  have n: "cr3 n = cr3 m" "paging_inv n" "\<And>q. q < 2 ^ 35 \<Longrightarrow> private_path m (page q) \<Longrightarrow> private_path n (page q)"
    "\<And>q. q < 2 ^ 35 \<Longrightarrow> mmu_frame n (page q) = mmu_frame m (page q)"
    "\<And>f. owners (pmm m) f > 0 \<Longrightarrow> \<forall>q. valid_path q \<longrightarrow> tpath m q \<noteq> Some f \<Longrightarrow>
           owners (pmm n) f = owners (pmm m) f \<and> mem n f = mem m f \<and> (\<forall>q. valid_path q \<longrightarrow> tpath n q \<noteq> Some f)"
    using post f(2) unfolding page_mapped_def by auto
  have keep: "data_frame_of n q h \<and> mem n h = mem m h" if "q \<in> P" "data_frame_of m q h" for q h
    using that(2) n(4) [OF D(2) [OF that(1)]] n(5) [of h] by (auto simp: data_frame_of_def)
  have "user_pages P A n"
    unfolding user_pages_def
  proof (intro conjI ballI allI impI)
    show "paging_inv n" by (rule n(2))
    show "dom A \<subseteq> P" using u by (simp add: user_pages_def)
    fix q
    show "q < 2 ^ 35" "private_path n (page q)" if "q \<in> P" using that D(2,3) n(3) by blast+
    show "mmu_frame n (page q) = None" if "q \<in> P" "A q = None" using that n(4) D(2,4) by metis
    show "\<exists>h. data_frame_of n q h \<and> (\<forall>k<4096. peek n h k = e k)" if e: "A q = Some e" for e
      using D(5) [OF e] keep [OF D(6) [OF e]] peek_cong by metis
    fix r
    assume "q \<in> dom A" "r \<in> dom A" and eq: "mmu_frame n (page q) = mmu_frame n (page r)"
    then have "mmu_frame m (page q) = mmu_frame m (page r)" using n(4) D(2,6) by (metis domD)
    then show "q = r" using \<open>q \<in> dom A\<close> \<open>r \<in> dom A\<close> u by (auto simp: user_pages_def)
  qed
  then show ?thesis using that [OF m n(1)] keep [OF pP p(2)] by blast
qed

lemma translate_page:
  assumes "user_pages P A m" and "p \<in> P"
  shows "A p = None \<Longrightarrow> paging64_translate (page p) m = Some (PAGING64_NOT_MAPPED, None)"
    and "data_frame_of m p f \<Longrightarrow> paging64_translate (page p) m = Some (PAGING64_OK, Some (of_nat (f * 4096)))"
proof -
  note D = user_pagesD [OF assms(1)]
  note t = paging64_translate_spec [OF D(1) page_user(1) [OF D(2) [OF assms(2)]], unfolded translation_def]
  show "A p = None \<Longrightarrow> paging64_translate (page p) m = Some (PAGING64_NOT_MAPPED, None)" using t D(4) [OF assms(2)] by simp
  have "page p AND (PAGE64_SIZE - 1) = 0"
  proof -
    have "PAGE64_SIZE - 1 = mask 12" by (simp add: PAGE64_SIZE_def mask_eq_exp_minus_1)
    then have e: "page p AND (PAGE64_SIZE - 1) = take_bit 12 (page p)" by (simp only: take_bit_eq_mask)
    have "unat (page p AND (PAGE64_SIZE - 1)) = 0"
      unfolding e unsigned_take_bit_eq unat_page [OF D(2) [OF assms(2)]] by (simp add: take_bit_eq_mod)
    then show ?thesis by (simp only: unsigned_eq_0_iff)
  qed
  then show "data_frame_of m p f \<Longrightarrow> paging64_translate (page p) m = Some (PAGING64_OK, Some (of_nat (f * 4096)))"
    using t by (simp add: data_frame_of_def push_bit_eq_mult)
qed

section \<open>Frames for pages\<close>

lemma alloc_high_owners:
  assumes "pmm_live P" and "ready P" and "frame_count P \<le> 2 ^ 40" and "pmm64_alloc_high P = (fr, P')" and "fr \<noteq> 0"
  shows "pmm_live P' \<and> ready P' \<and> frame_count P' \<le> 2 ^ 40"
    and "\<exists>g. fr = g * 4096 \<and> g < 2 ^ 40 \<and> owners P g = 0 \<and> owners P' = (owners P)(g := 1)"
proof -
  have step: "alloc_step P fr P'" using alloc_high_step [of P] assms(1,4) by (simp add: pmm_live_def)
  show "pmm_live P' \<and> ready P' \<and> frame_count P' \<le> 2 ^ 40"
    using alloc_step_cases(1) [OF step assms(1)] step assms(2,3) by (simp add: alloc_step_def)
  obtain g where "fr = g * 4096" "free_frame_of P g" "owners P' = (owners P)(g := 1)"
    using step assms(5) unfolding alloc_step_def FRAME_SIZE_def by blast
  then show "\<exists>g. fr = g * 4096 \<and> g < 2 ^ 40 \<and> owners P g = 0 \<and> owners P' = (owners P)(g := 1)"
    using assms(2,3) free_frame_of_owners [of P g] by (auto simp: free_frame_of_def)
qed

end
