(* ===== verification/Elf64.thy ===== *)
theory Elf64
  imports User_Pages
begin

text \<open>
  \<^verbatim>\<open>kernel/elf64.c\<close>: loading an executable into an address space.

  The file is the memory from \<open>image\<close> on, a function of the offset, together with its size: what lies past the size is
  whatever the kernel has there, and the code does not always stop at the end. Offsets wrap as \<open>uint64_t\<close> does. A
  page is filled through the direct map, so by its frame, byte by byte within the quadwords of the machine.
\<close>

unbundle bit_operations_syntax

section \<open>The headers\<close>

datatype elf_rc = ELF64_OK | ELF64_NOT_ELF | ELF64_WRONG_CLASS | ELF64_WRONG_MACHINE | ELF64_NOT_EXEC
  | ELF64_TRUNCATED | ELF64_NOMEM | ELF64_MAP_FAILED

definition PT_LOAD :: nat where "PT_LOAD = 1"
definition PT_INTERP :: nat where "PT_INTERP = 3"
definition PF_W :: nat where "PF_W = 2"
definition EM_X86_64 :: nat where "EM_X86_64 = 62"
definition ET_EXEC :: nat where "ET_EXEC = 2"
definition ET_DYN :: nat where "ET_DYN = 3"
definition EHDR_BYTES :: nat where "EHDR_BYTES = 64"

text \<open>An unsigned integer of \<open>n\<close> bytes, the least significant first.\<close>

definition rd_le :: "memory \<Rightarrow> nat \<Rightarrow> nat \<Rightarrow> nat" where
  "rd_le f off n = foldr (\<lambda>i acc. unat (f (add64 off i)) + 256 * acc) [0..<n] 0"

record elf64_ehdr =
  e_ident :: "byte list"
  e_type :: nat
  e_machine :: nat
  e_entry :: nat
  e_phoff :: nat
  e_phentsize :: nat
  e_phnum :: nat

definition rd_ehdr :: "memory \<Rightarrow> elf64_ehdr" where
  "rd_ehdr f = \<lparr>e_ident = bytes_at f 0 16, e_type = rd_le f 16 2, e_machine = rd_le f 18 2, e_entry = rd_le f 24 8,
     e_phoff = rd_le f 32 8, e_phentsize = rd_le f 54 2, e_phnum = rd_le f 56 2\<rparr>"

record elf64_phdr =
  p_type :: nat
  p_flags :: nat
  p_offset :: nat
  p_vaddr :: nat
  p_filesz :: nat
  p_memsz :: nat

definition rd_phdr :: "memory \<Rightarrow> nat \<Rightarrow> elf64_phdr" where
  "rd_phdr f off = \<lparr>p_type = rd_le f off 4, p_flags = rd_le f (add64 off 4) 4, p_offset = rd_le f (add64 off 8) 8,
     p_vaddr = rd_le f (add64 off 16) 8, p_filesz = rd_le f (add64 off 32) 8, p_memsz = rd_le f (add64 off 40) 8\<rparr>"

definition phdr_at :: "memory \<Rightarrow> elf64_ehdr \<Rightarrow> nat \<Rightarrow> elf64_phdr" where
  "phdr_at f eh i = rd_phdr f (add64 (e_phoff eh) (mul64 i (e_phentsize eh)))"

record elf64_info =
  entry :: nat
  phdr_va :: nat
  phent :: nat
  phnum :: nat
  brk_start :: nat
  ibase :: nat
  is_dyn :: bool
  has_interp :: bool

record elf_state =
  emach :: machine
  pages_mapped :: nat

definition elf64_pages_mapped :: "elf_state \<Rightarrow> nat" where
  "elf64_pages_mapped s = pages_mapped s"

section \<open>The name of the dynamic loader\<close>

text \<open>The loop over the program headers; what is copied to the buffer, or nothing when the result is 0.\<close>

fun interp_loop :: "memory \<Rightarrow> elf64_ehdr \<Rightarrow> nat \<Rightarrow> nat \<Rightarrow> nat list \<Rightarrow> byte list option" where
  "interp_loop f eh fsize n [] = None"
| "interp_loop f eh fsize n (i # is) =
     (let ph = phdr_at f eh i
      in if p_type ph \<noteq> PT_INTERP then interp_loop f eh fsize n is
         else if add64 (p_offset ph) (p_filesz ph) > fsize then None
         else if p_filesz ph = 0 \<or> p_filesz ph > n then None
         else Some ((map (\<lambda>k. f (add64 (p_offset ph) k)) [0..<p_filesz ph])[p_filesz ph - 1 := 0]))"

definition elf64_interp :: "memory \<Rightarrow> nat \<Rightarrow> nat \<Rightarrow> byte list option" where
  "elf64_interp f fsize n =
     (let eh = rd_ehdr f
      in if fsize < EHDR_BYTES then None
         else if e_ident eh ! 0 \<noteq> 0x7F \<or> e_ident eh ! 1 \<noteq> 0x45 then None
         else interp_loop f eh fsize n [0..<e_phnum eh])"

section \<open>Loading\<close>

definition page_down :: "nat \<Rightarrow> nat" where
  "page_down a = a - a mod 4096"

definition page_up :: "nat \<Rightarrow> nat" where
  "page_up a = page_down (add64 a 4095)"

text \<open>The frame a page of a segment is loaded into: the one that is there, or a fresh zeroed one. The frame counts only with
  \<open>ELF64_OK\<close>.\<close>

definition elf_frame :: "u64 \<Rightarrow> nat \<Rightarrow> elf_state \<Rightarrow> (elf_rc \<times> nat \<times> elf_state) option" where
  "elf_frame flags va s = do {
     (rc, pa) \<leftarrow> paging64_translate (of_nat va) (emach s);
     case pa of
       Some a \<Rightarrow>
         (let frame = unat (a AND NOT (PAGE64_SIZE - 1))
          in if has flags PAGE64_WRITE then do {
               (rc, m) \<leftarrow> paging64_map (of_nat va) (of_nat frame) flags (emach s);
               Some (ELF64_OK, frame, s\<lparr>emach := m\<rparr>)
             } else Some (ELF64_OK, frame, s))
     | None \<Rightarrow>
         (let (frame, q) = pmm64_alloc_high (pmm (emach s)); s = s\<lparr>emach := (emach s)\<lparr>pmm := q\<rparr>\<rparr>
          in if frame = 0 then Some (ELF64_NOMEM, 0, s)
             else do {
               (rc, m) \<leftarrow> paging64_map (of_nat va) (of_nat frame) flags (emach s);
               if rc \<noteq> PAGING64_OK
               then Some (ELF64_MAP_FAILED, 0, s\<lparr>emach := m\<lparr>pmm := pmm64_free_frame frame (pmm m)\<rparr>\<rparr>)
               else Some (ELF64_OK, frame, s\<lparr>emach := clear_frame (frame div 4096) m, pages_mapped := add64 (pages_mapped s) 1\<rparr>)
             })
   }"

definition elf_copy :: "memory \<Rightarrow> elf64_phdr \<Rightarrow> nat \<Rightarrow> nat \<Rightarrow> nat \<Rightarrow> elf_state \<Rightarrow> elf_state" where
  "elf_copy f ph vaddr va frame s =
     (let from = (if va > vaddr then va else vaddr);
          to = add64 va 4096;
          to = (if to > add64 vaddr (p_filesz ph) then add64 vaddr (p_filesz ph) else to)
      in if to > from
         then s\<lparr>emach := pokes (frame div 4096) (from - va)
                  (map (\<lambda>k. f (add64 (add64 (p_offset ph) (sub64 from vaddr)) k)) [0..<to - from]) (emach s)\<rparr>
         else s)"

partial_function (option) elf_pages ::
    "memory \<Rightarrow> elf64_phdr \<Rightarrow> nat \<Rightarrow> u64 \<Rightarrow> nat \<Rightarrow> nat \<Rightarrow> elf_state \<Rightarrow> (elf_rc \<times> elf_state) option" where
  "elf_pages f ph vaddr flags va end s =
     (if va < end then do {
        (rc, frame, s) \<leftarrow> elf_frame flags va s;
        if rc \<noteq> ELF64_OK then Some (rc, s)
        else elf_pages f ph vaddr flags (add64 va 4096) end (elf_copy f ph vaddr va frame s)
      } else Some (ELF64_OK, s))"

text \<open>The loop over the program headers, with the two addresses it works out on the way.\<close>

fun elf_segments ::
    "memory \<Rightarrow> elf64_ehdr \<Rightarrow> nat \<Rightarrow> nat \<Rightarrow> nat list \<Rightarrow> nat \<Rightarrow> nat \<Rightarrow> elf_state \<Rightarrow> (elf_rc \<times> nat \<times> nat \<times> elf_state) option" where
  "elf_segments f eh fsize bias [] pva brk s = Some (ELF64_OK, pva, brk, s)"
| "elf_segments f eh fsize bias (i # is) pva brk s =
     (let ph = phdr_at f eh i
      in if p_type ph \<noteq> PT_LOAD \<or> p_memsz ph = 0 then elf_segments f eh fsize bias is pva brk s
         else
         (let vaddr = add64 (p_vaddr ph) bias
          in if add64 (p_offset ph) (p_filesz ph) > fsize then Some (ELF64_TRUNCATED, pva, brk, s)
             else if p_filesz ph > p_memsz ph then Some (ELF64_TRUNCATED, pva, brk, s)
             else
             (let pva = (if pva = 0 \<and> e_phoff eh \<ge> p_offset ph \<and> e_phoff eh < add64 (p_offset ph) (p_filesz ph)
                         then add64 vaddr (e_phoff eh - p_offset ph) else pva);
                  brk = (if add64 vaddr (p_memsz ph) > brk then add64 vaddr (p_memsz ph) else brk);
                  flags = PAGE64_PRESENT OR PAGE64_USER;
                  flags = (if p_flags ph AND PF_W \<noteq> 0 then flags OR PAGE64_WRITE else flags)
              in do {
                (rc, s) \<leftarrow> elf_pages f ph vaddr flags (page_down vaddr) (page_up (add64 vaddr (p_memsz ph))) s;
                if rc \<noteq> ELF64_OK then Some (rc, pva, brk, s) else elf_segments f eh fsize bias is pva brk s
              })))"

definition elf64_load_at ::
    "memory \<Rightarrow> nat \<Rightarrow> u64 \<Rightarrow> nat \<Rightarrow> elf_state \<Rightarrow> (elf_rc \<times> elf64_info option \<times> elf_state) option" where
  "elf64_load_at f fsize vs bias s =
     (let eh = rd_ehdr f; s = s\<lparr>pages_mapped := 0\<rparr>
      in if fsize < EHDR_BYTES then Some (ELF64_TRUNCATED, None, s)
         else if e_ident eh ! 0 \<noteq> 0x7F \<or> e_ident eh ! 1 \<noteq> 0x45 \<or> e_ident eh ! 2 \<noteq> 0x4C \<or> e_ident eh ! 3 \<noteq> 0x46
         then Some (ELF64_NOT_ELF, None, s)
         else if e_ident eh ! 4 \<noteq> 2 then Some (ELF64_WRONG_CLASS, None, s)
         else if e_ident eh ! 5 \<noteq> 1 then Some (ELF64_WRONG_CLASS, None, s)
         else if e_machine eh \<noteq> EM_X86_64 then Some (ELF64_WRONG_MACHINE, None, s)
         else if e_type eh \<noteq> ET_EXEC \<and> e_type eh \<noteq> ET_DYN then Some (ELF64_NOT_EXEC, None, s)
         else if add64 (e_phoff eh) (mul64 (e_phnum eh) (e_phentsize eh)) > fsize then Some (ELF64_TRUNCATED, None, s)
         else do {
           let saved_cr3 = cr3 (emach s);
           (rc, pva, brk, s) \<leftarrow> elf_segments f eh fsize bias [0..<e_phnum eh] 0 0 (s\<lparr>emach := (emach s)\<lparr>cr3 := vs\<rparr>\<rparr>);
           let s = s\<lparr>emach := (emach s)\<lparr>cr3 := saved_cr3\<rparr>\<rparr>;
           Some (rc,
             (if rc = ELF64_OK
              then Some \<lparr>entry = add64 (e_entry eh) bias, phdr_va = pva, phent = e_phentsize eh, phnum = e_phnum eh,
                     brk_start = page_up brk, ibase = bias, is_dyn = (e_type eh = ET_DYN),
                     has_interp = (elf64_interp f fsize 128 \<noteq> None)\<rparr>
              else None), s)
         })"

definition elf64_load :: "memory \<Rightarrow> nat \<Rightarrow> u64 \<Rightarrow> elf_state \<Rightarrow> (elf_rc \<times> elf64_info option \<times> elf_state) option" where
  "elf64_load f fsize vs s = elf64_load_at f fsize vs 0 s"

section \<open>Page boundaries\<close>

lemma page_bounds:
  assumes "a \<le> 2 ^ 47"
  shows "page_down a = a div 4096 * 4096" and "page_up a = (a + 4095) div 4096 * 4096"
proof -
  show d: "page_down b = b div 4096 * 4096" for b by (simp add: page_down_def minus_mod_eq_div_mult)
  have "add64 a 4095 = a + 4095" using assms by (simp add: add64_def)
  then show "page_up a = (a + 4095) div 4096 * 4096" by (simp add: page_up_def d)
qed

lemma page_up_least:
  assumes "a \<le> 2 ^ 47"
  shows "a \<le> page_up a" and "page_up a \<le> 2 ^ 47" and "page_up a mod 4096 = 0" and "b mod 4096 = 0 \<Longrightarrow> b < page_up a \<Longrightarrow> b < a"
proof -
  note up = page_bounds(2) [OF assms]
  show "a \<le> page_up a" unfolding up using div_mult_mod_eq [of "a + 4095" 4096] mod_less_divisor [of 4096 "a + 4095"] by linarith
  have "(a + 4095) div 4096 \<le> (2 ^ 47 + 4095) div 4096" using assms by (intro div_le_mono) simp
  then show "page_up a \<le> 2 ^ 47" unfolding up by simp
  show "page_up a mod 4096 = 0" unfolding up by simp
  show "b < a" if b: "b mod 4096 = 0" "b < page_up a"
  proof (rule ccontr)
    obtain k where k: "b = 4096 * k" using b(1) by (auto elim!: dvdE)
    assume "\<not> b < a"
    then have "(a + 4095) div 4096 \<le> (b + 4095) div 4096" by (intro div_le_mono) simp
    also have "\<dots> = k" unfolding k by simp
    finally show False using b(2) unfolding up k by simp
  qed
qed

end
