(* ===== verification/Elf64_Load.thy ===== *)
theory Elf64_Load
  imports Elf64
begin

text \<open>
  The loader of \<^verbatim>\<open>kernel/elf64.c\<close> against what the file says: after a successful load every byte of every segment is
  where the program headers put it. The view of the pages is that of \<open>User_Pages\<close>; one page, one segment and all
  segments are three refinement steps over it.
\<close>

unbundle bit_operations_syntax

section \<open>One page\<close>

definition base :: "(nat \<Rightarrow> (nat \<Rightarrow> byte) option) \<Rightarrow> nat \<Rightarrow> nat \<Rightarrow> byte" where
  "base A p = (case A p of None \<Rightarrow> (\<lambda>_. 0) | Some c \<Rightarrow> c)"

lemma elf_frame_spec:
  assumes u: "user_pages P A (emach s)" and p: "p \<in> P" and fl: "flags AND ADDR_MASK = 0"
  shows "\<exists>rc fr s'. elf_frame flags (p * 4096) s = Some (rc, fr, s') \<and> cr3 (emach s') = cr3 (emach s)
     \<and> rc \<in> {ELF64_OK, ELF64_NOMEM, ELF64_MAP_FAILED}
     \<and> (rc = ELF64_OK \<longrightarrow> user_pages P (A(p \<mapsto> base A p)) (emach s') \<and> (\<exists>f. fr = f * 4096 \<and> data_frame_of (emach s') p f))"
proof (cases "A p")
  case (Some c)
  obtain f where f: "data_frame_of (emach s) p f" using user_pagesD(5) [OF u Some] by blast
  then have lt: "f < 2 ^ 40" by (simp add: data_frame_of_def)
  have t: "paging64_translate (page p) (emach s) = Some (PAGING64_OK, Some (page f))" using translate_page(2) [OF u p f] by simp
  note a = frame_addr [OF lt]
  have same: "A(p \<mapsto> base A p) = A" using Some by (auto simp: base_def)
  show ?thesis
  proof (cases "has flags PAGE64_WRITE")
    case True
    obtain rc n where "paging64_map (page p) (page f) flags (emach s) = Some (rc, n)" "cr3 n = cr3 (emach s)"
      "user_pages P A n" "data_frame_of n p f" using user_pages_remap [OF u Some f fl] by (metis page_def)
    then show ?thesis using True t same by (simp add: elf_frame_def a Let_def)
  next
    case False
    then show ?thesis using t same u f by (simp add: elf_frame_def a Let_def)
  qed
next
  case None
  note t = translate_page(1) [OF u p None]
  obtain fr q where al: "pmm64_alloc_high (pmm (emach s)) = (fr, q)" by (cases "pmm64_alloc_high (pmm (emach s))")
  show ?thesis
  proof (cases "fr = 0")
    case True
    then show ?thesis using t al by (simp add: elf_frame_def Let_def)
  next
    case False
    have live: "pmm_live (pmm (emach s))" "ready (pmm (emach s))" "frame_count (pmm (emach s)) \<le> 2 ^ 40"
      using user_pagesD(1) [OF u] by (simp_all add: paging_inv_def)
    note o = alloc_high_owners [OF live al False]
    obtain g where g: "fr = g * 4096" "g < 2 ^ 40" "owners (pmm (emach s)) g = 0" "owners q = (owners (pmm (emach s)))(g := 1)"
      using o(2) by blast
    obtain rc n where n: "paging64_map (page p) (of_nat (g * 4096)) flags ((emach s)\<lparr>pmm := q\<rparr>) = Some (rc, n)" "cr3 n = cr3 (emach s)"
      "rc = PAGING64_OK \<Longrightarrow> user_pages P (A(p \<mapsto> (\<lambda>_. 0))) (clear_frame g n) \<and> data_frame_of (clear_frame g n) p g"
      using user_pages_back [OF u p None fl _ _ _ g(2-4)] o(1) by blast
    have b: "base A p = (\<lambda>_. 0)" using None by (simp add: base_def)
    show ?thesis
    proof (cases "rc = PAGING64_OK")
      case True
      then show ?thesis using t al False n b clear_frame_spec(1) by (auto simp: elf_frame_def g(1) Let_def)
    next
      case bad: False
      then show ?thesis using t al False n by (auto simp: elf_frame_def g(1) Let_def)
    qed
  qed
qed

text \<open>The bytes of the file that fall into a page are written over what is there.\<close>

definition file_byte :: "memory \<Rightarrow> elf64_phdr \<Rightarrow> nat \<Rightarrow> nat \<Rightarrow> byte \<Rightarrow> byte" where
  "file_byte f ph vaddr a old = (if vaddr \<le> a \<and> a < vaddr + p_filesz ph then f (p_offset ph + (a - vaddr)) else old)"

lemma elf_copy_spec:
  assumes u: "user_pages P A (emach s)" and p: "A p = Some c" "data_frame_of (emach s) p g"
    and b: "vaddr + p_filesz ph \<le> 2 ^ 47" "p_offset ph + p_filesz ph < 2 ^ 64"
  shows "user_pages P (A(p \<mapsto> (\<lambda>k. file_byte f ph vaddr (p * 4096 + k) (c k)))) (emach (elf_copy f ph vaddr (p * 4096) (g * 4096) s))"
    and "cr3 (emach (elf_copy f ph vaddr (p * 4096) (g * 4096) s)) = cr3 (emach s)"
proof -
  define va where "va = p * 4096"
  define lo where "lo = max va vaddr"
  define hi where "hi = min (va + 4096) (vaddr + p_filesz ph)"
  have pP: "p < 2 ^ 35" using user_pagesD(2,6) [OF u] p(1) by blast
  then have va: "va + 4096 \<le> 2 ^ 47" by (simp add: va_def)
  have e: "add64 va 4096 = va + 4096" "add64 vaddr (p_filesz ph) = vaddr + p_filesz ph" using va b(1) by (simp_all add: add64_def)
  let ?bs = "map (\<lambda>k. f (add64 (add64 (p_offset ph) (sub64 lo vaddr)) k)) [0..<hi - lo]"
  have c: "elf_copy f ph vaddr va (g * 4096) s
      = (if lo < hi then s\<lparr>emach := pokes g (lo - va) ?bs (emach s)\<rparr> else s)"
  proof -
    have "lo = (if vaddr < va then va else vaddr)" "hi = (if vaddr + p_filesz ph < va + 4096 then vaddr + p_filesz ph else va + 4096)"
      by (auto simp: lo_def hi_def)
    then show ?thesis by (simp add: elf_copy_def e Let_def)
  qed
  have "peek (if lo < hi then pokes g (lo - va) ?bs (emach s) else emach s) g k = file_byte f ph vaddr (va + k) (c k)"
    if k: "k < 4096" for k
  proof -
    have old: "peek (emach s) g k = c k"
      using user_pagesD(5) [OF u p(1)] p(2) k by (auto simp: data_frame_of_def)
    have "f (add64 (add64 (p_offset ph) (sub64 lo vaddr)) (k - (lo - va))) = f (p_offset ph + (va + k - vaddr))"
      if i: "lo \<le> va + k" "va + k < hi"
    proof -
      have r: "va \<le> lo" "vaddr \<le> lo" "hi \<le> vaddr + p_filesz ph" by (auto simp: lo_def hi_def)
      have "sub64 lo vaddr = lo - vaddr" using r i va k by (intro sub64_exact) simp_all
      moreover have "add64 (p_offset ph) (lo - vaddr) = p_offset ph + (lo - vaddr)" using r i b(2) by (intro add64_exact) simp
      moreover have "add64 (p_offset ph + (lo - vaddr)) (k - (lo - va)) = p_offset ph + (lo - vaddr) + (k - (lo - va))"
        using r i b(2) by (intro add64_exact) simp
      ultimately show ?thesis using r i by (simp add: ac_simps)
    qed
    moreover have "lo \<le> va + k \<and> va + k < hi \<longleftrightarrow> vaddr \<le> va + k \<and> va + k < vaddr + p_filesz ph" using k by (auto simp: lo_def hi_def)
    moreover have "va \<le> lo" by (simp add: lo_def)
    ultimately show ?thesis using old k by (auto simp: file_byte_def pokes_spec(4))
  qed
  then have "user_pages P (A(p \<mapsto> (\<lambda>k. file_byte f ph vaddr (va + k) (c k)))) (if lo < hi then pokes g (lo - va) ?bs (emach s) else emach s)"
    using pokes_spec(1-3) by (intro user_pages_write(1) [OF u p]) auto
  then show "user_pages P (A(p \<mapsto> (\<lambda>k. file_byte f ph vaddr (p * 4096 + k) (c k)))) (emach (elf_copy f ph vaddr (p * 4096) (g * 4096) s))"
    unfolding va_def [symmetric] c by (auto split: if_splits)
  show "cr3 (emach (elf_copy f ph vaddr (p * 4096) (g * 4096) s)) = cr3 (emach s)"
    unfolding va_def [symmetric] c by (simp add: pokes_spec(1))
qed

section \<open>One segment\<close>

definition seg_apply :: "memory \<Rightarrow> elf64_phdr \<Rightarrow> nat \<Rightarrow> nat \<Rightarrow> nat \<Rightarrow> (nat \<Rightarrow> (nat \<Rightarrow> byte) option) \<Rightarrow> nat \<Rightarrow> (nat \<Rightarrow> byte) option" where
  "seg_apply f ph vaddr p e A = (\<lambda>q. if p \<le> q \<and> q < e then Some (\<lambda>k. file_byte f ph vaddr (q * 4096 + k) (base A q k)) else A q)"

lemma elf_pages_spec:
  assumes "user_pages P A (emach s)" and "{p..<e} \<subseteq> P" and "e < 2 ^ 36" and "flags AND ADDR_MASK = 0"
    and "vaddr + p_filesz ph \<le> 2 ^ 47" "p_offset ph + p_filesz ph < 2 ^ 64"
  shows "\<exists>rc s'. elf_pages f ph vaddr flags (p * 4096) (e * 4096) s = Some (rc, s') \<and> cr3 (emach s') = cr3 (emach s)
     \<and> rc \<in> {ELF64_OK, ELF64_NOMEM, ELF64_MAP_FAILED}
     \<and> (rc = ELF64_OK \<longrightarrow> user_pages P (seg_apply f ph vaddr p e A) (emach s'))"
  using assms(1,2)
proof (induction "e - p" arbitrary: p A s)
  case 0
  then have "seg_apply f ph vaddr p e A = A" by (auto simp: seg_apply_def fun_eq_iff)
  then show ?case using 0 by (subst elf_pages.simps) simp
next
  case (Suc n)
  then have pe: "p < e" by simp
  then have pP: "p \<in> P" using Suc.prems(2) by auto
  have add: "add64 (p * 4096) 4096 = Suc p * 4096" using pe assms(3) by (simp add: add64_def)
  obtain rc fr s1 where s1: "elf_frame flags (p * 4096) s = Some (rc, fr, s1)" "cr3 (emach s1) = cr3 (emach s)"
    "rc \<in> {ELF64_OK, ELF64_NOMEM, ELF64_MAP_FAILED}"
    "rc = ELF64_OK \<longrightarrow> user_pages P (A(p \<mapsto> base A p)) (emach s1) \<and> (\<exists>f. fr = f * 4096 \<and> data_frame_of (emach s1) p f)"
    using elf_frame_spec [OF Suc.prems(1) pP assms(4)] by blast
  show ?case
  proof (cases "rc = ELF64_OK")
    case False
    then show ?thesis using s1 pe by (subst elf_pages.simps) auto
  next
    case True
    then obtain g where g: "fr = g * 4096" "data_frame_of (emach s1) p g" and u: "user_pages P (A(p \<mapsto> base A p)) (emach s1)"
      using s1(4) by blast
    let ?A = "A(p \<mapsto> (\<lambda>k. file_byte f ph vaddr (p * 4096 + k) (base A p k)))" and ?s = "elf_copy f ph vaddr (p * 4096) fr s1"
    note c = elf_copy_spec [OF u _ g(2) assms(5,6), of "base A p" f]
    have u2: "user_pages P ?A (emach ?s)" using c(1) by (simp add: g(1))
    have "{Suc p..<e} \<subseteq> P" "n = e - Suc p" using Suc.prems(2) Suc(2) by auto
    from Suc.hyps(1) [OF this(2) u2 this(1)] obtain rc' s' where
      r: "elf_pages f ph vaddr flags (Suc p * 4096) (e * 4096) ?s = Some (rc', s')" "cr3 (emach s') = cr3 (emach ?s)"
        "rc' \<in> {ELF64_OK, ELF64_NOMEM, ELF64_MAP_FAILED}" "rc' = ELF64_OK \<longrightarrow> user_pages P (seg_apply f ph vaddr (Suc p) e ?A) (emach s')"
      by blast
    have "seg_apply f ph vaddr (Suc p) e ?A = seg_apply f ph vaddr p e A"
      using pe by (auto simp: seg_apply_def fun_eq_iff base_def Suc_le_eq)
    moreover have "elf_pages f ph vaddr flags (p * 4096) (e * 4096) s = elf_pages f ph vaddr flags (Suc p * 4096) (e * 4096) ?s"
      using pe s1(1) True add by (subst elf_pages.simps) simp
    moreover have "cr3 (emach ?s) = cr3 (emach s)" using c(2) s1(2) by (simp add: g(1))
    ultimately show ?thesis using r by (intro exI [of _ rc'] exI [of _ s']) simp
  qed
qed

section \<open>All segments\<close>

definition loadable :: "elf64_phdr \<Rightarrow> bool" where
  "loadable ph \<longleftrightarrow> p_type ph = PT_LOAD \<and> p_memsz ph \<noteq> 0"

definition load_segs :: "memory \<Rightarrow> elf64_phdr list" where
  "load_segs f = filter loadable (map (phdr_at f (rd_ehdr f)) [0..<e_phnum (rd_ehdr f)])"

text \<open>A segment that lies inside the file and the user half once it is loaded.\<close>

definition seg_fits :: "nat \<Rightarrow> nat \<Rightarrow> elf64_phdr \<Rightarrow> bool" where
  "seg_fits fsize bias ph \<longleftrightarrow> p_vaddr ph + bias + p_memsz ph \<le> 2 ^ 47 \<and> p_filesz ph \<le> p_memsz ph \<and> p_offset ph + p_filesz ph \<le> fsize"

definition seg_pages :: "nat \<Rightarrow> elf64_phdr \<Rightarrow> nat set" where
  "seg_pages bias ph = {(p_vaddr ph + bias) div 4096..<(p_vaddr ph + bias + p_memsz ph + 4095) div 4096}"

definition seg_effect :: "memory \<Rightarrow> nat \<Rightarrow> elf64_phdr \<Rightarrow> (nat \<Rightarrow> (nat \<Rightarrow> byte) option) \<Rightarrow> nat \<Rightarrow> (nat \<Rightarrow> byte) option" where
  "seg_effect f bias ph A = seg_apply f ph (p_vaddr ph + bias) ((p_vaddr ph + bias) div 4096) ((p_vaddr ph + bias + p_memsz ph + 4095) div 4096) A"

definition elf_flags :: "elf64_phdr \<Rightarrow> u64" where
  "elf_flags ph = (if p_flags ph AND PF_W \<noteq> 0 then PAGE64_PRESENT OR PAGE64_USER OR PAGE64_WRITE else PAGE64_PRESENT OR PAGE64_USER)"

lemma elf_flags_low: "elf_flags ph AND ADDR_MASK = 0"
  by (simp add: elf_flags_def PAGE64_PRESENT_def PAGE64_USER_def PAGE64_WRITE_def ADDR_MASK_def)

lemma elf_segments_spec:
  assumes "\<forall>ph \<in> set (filter loadable (map (phdr_at f eh) is)). seg_fits fsize bias ph \<and> seg_pages bias ph \<subseteq> P"
    and "fsize < 2 ^ 64" and "user_pages P A (emach s)"
  shows "\<exists>rc pva' brk' s'. elf_segments f eh fsize bias is pva brk s = Some (rc, pva', brk', s') \<and> cr3 (emach s') = cr3 (emach s)
     \<and> rc \<in> {ELF64_OK, ELF64_NOMEM, ELF64_MAP_FAILED}
     \<and> (rc = ELF64_OK \<longrightarrow> user_pages P (fold (seg_effect f bias) (filter loadable (map (phdr_at f eh) is)) A) (emach s')
          \<and> brk \<le> brk' \<and> (\<forall>ph \<in> set (filter loadable (map (phdr_at f eh) is)). p_vaddr ph + bias + p_memsz ph \<le> brk')
          \<and> (brk \<le> 2 ^ 47 \<longrightarrow> brk' \<le> 2 ^ 47))"
  using assms(1,3)
proof (induction "is" arbitrary: A s pva brk)
  case Nil
  then show ?case by simp
next
  case (Cons i "is")
  let ?ph = "phdr_at f eh i"
  show ?case
  proof (cases "loadable ?ph")
    case False
    then have "elf_segments f eh fsize bias (i # is) pva brk s = elf_segments f eh fsize bias is pva brk s"
      by (auto simp: loadable_def Let_def)
    then show ?thesis using Cons.IH [of A s pva brk] Cons.prems False by simp
  next
    case True
    let ?v = "p_vaddr ?ph + bias"
    have fit: "?v + p_memsz ?ph \<le> 2 ^ 47" "p_filesz ?ph \<le> p_memsz ?ph" "p_offset ?ph + p_filesz ?ph \<le> fsize" "seg_pages bias ?ph \<subseteq> P"
      using Cons.prems(1) True by (auto simp: seg_fits_def)
    have e: "add64 (p_vaddr ?ph) bias = ?v" "add64 ?v (p_memsz ?ph) = ?v + p_memsz ?ph" "add64 (p_offset ?ph) (p_filesz ?ph) = p_offset ?ph + p_filesz ?ph"
      using fit assms(2) by (simp_all add: add64_def)
    have pd: "page_down ?v = ?v div 4096 * 4096" by (rule page_bounds(1)) (use fit(1) in simp)
    have pu: "page_up (?v + p_memsz ?ph) = (?v + p_memsz ?ph + 4095) div 4096 * 4096" by (rule page_bounds(2)) (use fit(1) in simp)
    have lt: "(?v + p_memsz ?ph + 4095) div 4096 < 2 ^ 36" using fit(1) by simp
    have in1: "?v + p_filesz ?ph \<le> 2 ^ 47" and in2: "p_offset ?ph + p_filesz ?ph < 2 ^ 64" using fit assms(2) by simp_all
    obtain rc s1 where s1: "elf_pages f ?ph ?v (elf_flags ?ph) (page_down ?v) (page_up (?v + p_memsz ?ph)) s = Some (rc, s1)"
      "cr3 (emach s1) = cr3 (emach s)" "rc \<in> {ELF64_OK, ELF64_NOMEM, ELF64_MAP_FAILED}"
      "rc = ELF64_OK \<longrightarrow> user_pages P (seg_effect f bias ?ph A) (emach s1)"
      unfolding pd pu seg_effect_def
      using elf_pages_spec [OF Cons.prems(2) fit(4) [unfolded seg_pages_def] lt elf_flags_low in1 in2] by blast
    define pva1 where "pva1 = (if pva = 0 \<and> e_phoff eh \<ge> p_offset ?ph \<and> e_phoff eh < p_offset ?ph + p_filesz ?ph
                         then add64 ?v (e_phoff eh - p_offset ?ph) else pva)"
    define brk1 where "brk1 = (if ?v + p_memsz ?ph > brk then ?v + p_memsz ?ph else brk)"
    have u: "elf_segments f eh fsize bias (i # is) pva brk s
        = (if rc \<noteq> ELF64_OK then Some (rc, pva1, brk1, s1) else elf_segments f eh fsize bias is pva1 brk1 s1)"
      using True fit(2,3) s1(1) by (simp add: loadable_def e Let_def elf_flags_def pva1_def brk1_def or.assoc cong: if_cong)
    show ?thesis
    proof (cases "rc = ELF64_OK")
      case False
      then show ?thesis using u s1 by auto
    next
      case ok: True
      have "brk \<le> brk1" "?v + p_memsz ?ph \<le> brk1" "brk \<le> 2 ^ 47 \<longrightarrow> brk1 \<le> 2 ^ 47" using fit(1) by (simp_all add: brk1_def)
      then show ?thesis
        using u ok s1 True Cons.IH [of "seg_effect f bias ?ph A" s1 pva1 brk1] Cons.prems(1)
        by (auto intro: order_trans)
    qed
  qed
qed

text \<open>What an address of the loaded program holds: the byte of the last segment whose part of the file covers it, and zero
  where none does.\<close>

definition elf_byte :: "memory \<Rightarrow> nat \<Rightarrow> elf64_phdr list \<Rightarrow> nat \<Rightarrow> byte" where
  "elf_byte f bias phs a = fold (\<lambda>ph. file_byte f ph (p_vaddr ph + bias) a) phs 0"

lemma seg_effects:
  assumes "\<forall>ph \<in> set phs. p_filesz ph \<le> p_memsz ph" and "k < 4096"
  shows "(\<exists>ph \<in> set phs. q \<in> seg_pages bias ph) \<or> A q \<noteq> None \<Longrightarrow>
     \<exists>c. fold (seg_effect f bias) phs A q = Some c \<and> c k = fold (\<lambda>ph. file_byte f ph (p_vaddr ph + bias) (q * 4096 + k)) phs (base A q k)"
  using assms(1)
proof (induction phs arbitrary: A)
  case Nil
  then show ?case by (auto simp: base_def)
next
  case (Cons ph phs)
  let ?A = "seg_effect f bias ph A"
  have b: "base ?A q k = file_byte f ph (p_vaddr ph + bias) (q * 4096 + k) (base A q k)"
  proof (cases "q \<in> seg_pages bias ph")
    case True
    then show ?thesis by (simp add: seg_effect_def seg_apply_def seg_pages_def base_def)
  next
    case False
    then have "base ?A q k = base A q k" by (auto simp: seg_effect_def seg_apply_def seg_pages_def base_def)
    moreover have "\<not> (p_vaddr ph + bias \<le> q * 4096 + k \<and> q * 4096 + k < p_vaddr ph + bias + p_filesz ph)"
    proof
      assume a: "p_vaddr ph + bias \<le> q * 4096 + k \<and> q * 4096 + k < p_vaddr ph + bias + p_filesz ph"
      then have "(p_vaddr ph + bias) div 4096 \<le> (q * 4096 + k) div 4096" by (intro div_le_mono) simp
      moreover have "(q * 4096 + 4096) div 4096 \<le> (p_vaddr ph + bias + p_memsz ph + 4095) div 4096"
        using a Cons.prems(2) assms(2) by (intro div_le_mono) auto
      ultimately show False using False assms(2) by (simp add: seg_pages_def)
    qed
    ultimately show ?thesis by (auto simp: file_byte_def)
  qed
  have "(\<exists>ph \<in> set phs. q \<in> seg_pages bias ph) \<or> ?A q \<noteq> None"
    using Cons.prems(1) by (auto simp: seg_effect_def seg_apply_def seg_pages_def)
  then show ?case using Cons.IH [of ?A] Cons.prems(2) b by simp
qed
text \<open>Reading an address of a segment in a space that holds all of them.\<close>

lemma loaded_byte:
  assumes up: "user_pages P (fold (seg_effect f bias) segs Map.empty) m" and segs: "\<forall>ph \<in> set segs. seg_fits fsize bias ph"
    and ph: "ph \<in> set segs" and a: "a \<in> {p_vaddr ph + bias..<p_vaddr ph + bias + p_memsz ph}"
    and n: "cr3 m = vs" "mem n = mem m"
  shows "\<exists>fr. mmu_frame (n\<lparr>cr3 := vs\<rparr>) (of_nat a) = Some fr \<and> peek n fr (a mod 4096) = elf_byte f bias segs a"
proof -
  let ?q = "a div 4096" and ?k = "a mod 4096"
  have fits: "p_vaddr ph + bias + p_memsz ph \<le> 2 ^ 47" "\<forall>ph \<in> set segs. p_filesz ph \<le> p_memsz ph"
    using segs ph by (auto simp: seg_fits_def)
  have "(p_vaddr ph + bias) div 4096 \<le> ?q" "(a + 4096) div 4096 \<le> (p_vaddr ph + bias + p_memsz ph + 4095) div 4096"
    using a by (auto intro: div_le_mono)
  then have "?q \<in> seg_pages bias ph" by (simp add: seg_pages_def)
  then obtain c where c: "fold (seg_effect f bias) segs Map.empty ?q = Some c" "c ?k = elf_byte f bias segs a"
    using seg_effects [OF fits(2), of ?k ?q bias Map.empty f] ph by (auto simp: elf_byte_def base_def)
  obtain fr where fr: "data_frame_of m ?q fr" "peek m fr ?k = c ?k"
    using user_pagesD(5) [OF up c(1)] by auto
  have "a < 2 ^ 47" using a fits(1) by simp
  then have "mmu_frame (n\<lparr>cr3 := vs\<rparr>) (of_nat a) = mmu_frame (n\<lparr>cr3 := vs\<rparr>) (page ?q)" by (rule mmu_frame_of_page)
  also have "\<dots> = mmu_frame m (page ?q)" by (rule mmu_frame_cong) (simp_all add: n)
  moreover have "peek n fr ?k = peek m fr ?k" by (rule peek_cong) (simp add: n)
  ultimately show ?thesis using fr c(2) by (auto simp: data_frame_of_def)
qed

lemma seg_page_user: "seg_fits fsize bias ph \<Longrightarrow> p \<in> seg_pages bias ph \<Longrightarrow> p < 2 ^ 35"
proof -
  assume "seg_fits fsize bias ph" "p \<in> seg_pages bias ph"
  then have "(p_vaddr ph + bias + p_memsz ph + 4095) div 4096 \<le> (2 ^ 47 + 4095) div 4096" "p < (p_vaddr ph + bias + p_memsz ph + 4095) div 4096"
    by (auto simp: seg_fits_def seg_pages_def intro: div_le_mono)
  then show ?thesis by simp
qed

section \<open>Properties\<close>

text \<open>C14: The program the loader leaves in an address space is the one in the file. For an image whose header passes the checks
  and whose segments lie inside the file and the user half, in a space where their pages are not yet mapped, the
  load ends, with success, no memory or a mapping refused; when it succeeds, the processor finds at every address of every segment
  the byte the file has there, from the last segment in the order of the headers that has one, and zero in what is beyond the
  file's part of it, also where two segments share a page. The break starts past every segment and CR3 is as it was.\<close>

theorem elf64_load_at_correct:
  assumes hdr: "take 6 (e_ident (rd_ehdr f)) = [0x7F, 0x45, 0x4C, 0x46, 2, 1]" "e_machine (rd_ehdr f) = EM_X86_64"
      "e_type (rd_ehdr f) \<in> {ET_EXEC, ET_DYN}"
    and size: "64 \<le> fsize" "fsize < 2 ^ 64" "e_phoff (rd_ehdr f) + e_phnum (rd_ehdr f) * e_phentsize (rd_ehdr f) \<le> fsize"
    and segs: "\<forall>ph \<in> set (load_segs f). seg_fits fsize bias ph"
    and inv: "paging_inv ((emach s)\<lparr>cr3 := vs\<rparr>)"
    and fresh: "\<forall>ph \<in> set (load_segs f). \<forall>p \<in> seg_pages bias ph.
      private_path ((emach s)\<lparr>cr3 := vs\<rparr>) (page p) \<and> mmu_frame ((emach s)\<lparr>cr3 := vs\<rparr>) (page p) = None"
  shows "\<exists>rc info s'. elf64_load_at f fsize vs bias s = Some (rc, info, s') \<and> cr3 (emach s') = cr3 (emach s)
     \<and> rc \<in> {ELF64_OK, ELF64_NOMEM, ELF64_MAP_FAILED}
     \<and> (rc = ELF64_OK \<longrightarrow>
          (\<exists>i. info = Some i \<and> entry i = add64 (e_entry (rd_ehdr f)) bias
             \<and> (\<forall>ph \<in> set (load_segs f). p_vaddr ph + bias + p_memsz ph \<le> brk_start i))
        \<and> (\<forall>ph \<in> set (load_segs f). \<forall>a \<in> {p_vaddr ph + bias..<p_vaddr ph + bias + p_memsz ph}.
             \<exists>fr. mmu_frame ((emach s')\<lparr>cr3 := vs\<rparr>) (of_nat a) = Some fr
                \<and> peek (emach s') fr (a mod 4096) = elf_byte f bias (load_segs f) a))"
proof -
  let ?eh = "rd_ehdr f" and ?m = "(emach s)\<lparr>cr3 := vs\<rparr>"
  let ?segs = "load_segs f"
  define P where "P = (\<Union>ph \<in> set ?segs. seg_pages bias ph)"
  have u: "user_pages P Map.empty ?m"
    using inv fresh segs seg_page_user by (auto simp: user_pages_def P_def)
  let ?s = "s\<lparr>pages_mapped := 0, emach := ?m\<rparr>"
  have sf: "\<forall>ph \<in> set (filter loadable (map (phdr_at f ?eh) [0..<e_phnum ?eh])). seg_fits fsize bias ph \<and> seg_pages bias ph \<subseteq> P"
    using segs by (auto simp: P_def load_segs_def)
  obtain rc pva brk s1 where s1: "elf_segments f ?eh fsize bias [0..<e_phnum ?eh] 0 0 ?s = Some (rc, pva, brk, s1)"
    "cr3 (emach s1) = vs" "rc \<in> {ELF64_OK, ELF64_NOMEM, ELF64_MAP_FAILED}"
    and ok: "rc = ELF64_OK \<longrightarrow> user_pages P (fold (seg_effect f bias) ?segs Map.empty) (emach s1)
       \<and> (\<forall>ph \<in> set ?segs. p_vaddr ph + bias + p_memsz ph \<le> brk) \<and> brk \<le> 2 ^ 47"
    using elf_segments_spec [OF sf size(2), of Map.empty ?s 0 0] u unfolding load_segs_def [symmetric] by auto
  define t where "t = s1\<lparr>emach := (emach s1)\<lparr>cr3 := cr3 (emach s)\<rparr>\<rparr>"
  have len: "length (e_ident ?eh) = 16" by (simp add: rd_ehdr_def)
  have id: "e_ident ?eh ! 0 = 0x7F" "e_ident ?eh ! 1 = 0x45" "e_ident ?eh ! 2 = 0x4C" "e_ident ?eh ! 3 = 0x46" "e_ident ?eh ! 4 = 2" "e_ident ?eh ! 5 = 1"
    using arg_cong [OF hdr(1), of "\<lambda>xs. xs ! 0"] arg_cong [OF hdr(1), of "\<lambda>xs. xs ! 1"] arg_cong [OF hdr(1), of "\<lambda>xs. xs ! 2"]
      arg_cong [OF hdr(1), of "\<lambda>xs. xs ! 3"] arg_cong [OF hdr(1), of "\<lambda>xs. xs ! 4"] arg_cong [OF hdr(1), of "\<lambda>xs. xs ! 5"] by simp_all
  have ph: "add64 (e_phoff ?eh) (mul64 (e_phnum ?eh) (e_phentsize ?eh)) \<le> fsize" using size by (simp add: add64_def mul64_def)
  obtain info where l: "elf64_load_at f fsize vs bias s = Some (rc, info, t)"
    and info: "rc = ELF64_OK \<Longrightarrow> \<exists>i. info = Some i \<and> entry i = add64 (e_entry ?eh) bias \<and> brk_start i = page_up brk"
    using hdr(2,3) id size(1) ph s1(1) unfolding elf64_load_at_def Let_def EHDR_BYTES_def t_def by auto
  have "\<exists>fr. mmu_frame ((emach t)\<lparr>cr3 := vs\<rparr>) (of_nat a) = Some fr \<and> peek (emach t) fr (a mod 4096) = elf_byte f bias ?segs a"
    if "rc = ELF64_OK" and ph: "ph \<in> set ?segs" and a: "a \<in> {p_vaddr ph + bias..<p_vaddr ph + bias + p_memsz ph}" for ph a
    using ok that(1) segs by (intro loaded_byte [OF _ _ ph a]) (auto simp: t_def s1(2))
  moreover have "p_vaddr ph + bias + p_memsz ph \<le> page_up brk" if "rc = ELF64_OK" "ph \<in> set ?segs" for ph
    using ok that page_bounds(2) [of brk] by (auto intro: order_trans)
  ultimately show ?thesis using l info s1(3) by (auto simp: t_def)
qed

section \<open>A small image\<close>

text \<open>One segment of four bytes of the file and four more of memory, at \<open>0x400078\<close>.\<close>

definition elf_demo :: memory where
  "elf_demo = (\<lambda>_. 0)(0 := 0x7F, 1 := 0x45, 2 := 0x4C, 3 := 0x46, 4 := 2, 5 := 1, 16 := 2, 18 := 62, 24 := 0x78, 26 := 0x40, 32 := 64, 54 := 56, 56 := 1,
     64 := 1, 68 := 5, 72 := 120, 80 := 0x78, 82 := 0x40, 96 := 4, 104 := 8, 120 := 0xB0, 121 := 0x3C, 122 := 0x0F, 123 := 0x05)"

lemma rd_le_2: "rd_le f off 2 = unat (f (add64 off 0)) + 256 * unat (f (add64 off 1))"
  by (simp add: rd_le_def upt_rec numeral_2_eq_2)

lemma rd_le_4: "rd_le f off 4 = unat (f (add64 off 0)) + 256 * (unat (f (add64 off 1)) + 256 * (unat (f (add64 off 2)) + 256 * unat (f (add64 off 3))))"
proof -
  have "[0..<4] = [0, 1, 2, 3 :: nat]" by code_simp
  then show ?thesis by (simp add: rd_le_def)
qed

lemma rd_le_8: "rd_le f off 8 = unat (f (add64 off 0)) + 256 * (unat (f (add64 off 1)) + 256 * (unat (f (add64 off 2)) + 256 * (unat (f (add64 off 3))
    + 256 * (unat (f (add64 off 4)) + 256 * (unat (f (add64 off 5)) + 256 * (unat (f (add64 off 6)) + 256 * unat (f (add64 off 7))))))))"
proof -
  have "[0..<8] = [0, 1, 2, 3, 4, 5, 6, 7 :: nat]" by code_simp
  then show ?thesis by (simp add: rd_le_def)
qed

lemma elf_demo_ehdr:
  "e_phnum (rd_ehdr elf_demo) = 1" "e_phoff (rd_ehdr elf_demo) = 64" "e_phentsize (rd_ehdr elf_demo) = 56"
  "e_machine (rd_ehdr elf_demo) = 62" "e_type (rd_ehdr elf_demo) = 2" "take 6 (e_ident (rd_ehdr elf_demo)) = [0x7F, 0x45, 0x4C, 0x46, 2, 1]"
  by (simp_all add: rd_ehdr_def elf_demo_def rd_le_2 rd_le_8 add64_def bytes_at_def upt_rec)

lemma elf_demo_phdr:
  "phdr_at elf_demo (rd_ehdr elf_demo) 0 = \<lparr>p_type = 1, p_flags = 5, p_offset = 120, p_vaddr = 0x400078, p_filesz = 4, p_memsz = 8\<rparr>"
  by (simp add: phdr_at_def elf_demo_ehdr rd_phdr_def rd_le_4 rd_le_8 add64_def mul64_def) (simp add: elf_demo_def)

lemma elf_demo_segs: "load_segs elf_demo = [\<lparr>p_type = 1, p_flags = 5, p_offset = 120, p_vaddr = 0x400078, p_filesz = 4, p_memsz = 8\<rparr>]"
  by (simp add: load_segs_def elf_demo_ehdr elf_demo_phdr loadable_def PT_LOAD_def)

theorem elf64_load_at_correct_witness:
  "\<exists>rc info s'. elf64_load_at elf_demo 124 0x1000 0 \<lparr>emach = machine_demo, pages_mapped = 0\<rparr> = Some (rc, info, s')
     \<and> (rc = ELF64_OK \<longrightarrow> (\<exists>fr. mmu_frame ((emach s')\<lparr>cr3 := 0x1000\<rparr>) (of_nat 0x400079) = Some fr \<and> peek (emach s') fr 0x79 = 0x3C))"
proof -
  let ?s = "\<lparr>emach = machine_demo, pages_mapped = 0\<rparr>"
  have m: "machine_demo\<lparr>cr3 := 0x1000\<rparr> = machine_demo" by (simp add: machine_demo_def)
  have pages: "seg_pages 0 (hd (load_segs elf_demo)) = {0x400}" by (auto simp: elf_demo_segs seg_pages_def)
  have none: "mmu_frame machine_demo (page 0x400) = None"
    using machine_demo_root by (simp add: mmu_frame_def page_def PML4_IDX_def machine_demo_def has_def)
  have priv: "private_path machine_demo (page 0x400)" by (rule machine_demo_private) (simp add: page_def PML4_IDX_def REC_def)
  have b: "elf_byte elf_demo 0 (load_segs elf_demo) 0x400079 = 0x3C" by (simp add: elf_byte_def elf_demo_segs file_byte_def) (simp add: elf_demo_def)
  have inv: "paging_inv ((emach ?s)\<lparr>cr3 := 0x1000\<rparr>)" using machine_demo_inv m by simp
  have fits: "\<forall>ph \<in> set (load_segs elf_demo). seg_fits 124 0 ph" by (simp add: elf_demo_segs seg_fits_def)
  have fresh: "\<forall>ph \<in> set (load_segs elf_demo). \<forall>p \<in> seg_pages 0 ph.
      private_path ((emach ?s)\<lparr>cr3 := 0x1000\<rparr>) (page p) \<and> mmu_frame ((emach ?s)\<lparr>cr3 := 0x1000\<rparr>) (page p) = None"
    using pages none priv m by (simp add: elf_demo_segs)
  have at: "0x400079 \<in> {p_vaddr (hd (load_segs elf_demo)) + 0..<p_vaddr (hd (load_segs elf_demo)) + 0 + p_memsz (hd (load_segs elf_demo))}"
    "hd (load_segs elf_demo) \<in> set (load_segs elf_demo)" by (simp_all add: elf_demo_segs)
  show ?thesis
    using elf64_load_at_correct [OF elf_demo_ehdr(6) _ _ _ _ _ fits inv fresh] at b elf_demo_ehdr
    by (simp add: EM_X86_64_def ET_EXEC_def del: of_nat_numeral) fastforce
qed

end
