(* ===== verification/Uspace64.thy ===== *)
theory Uspace64
  imports Elf64 Proc64
begin

text \<open>
  \<^verbatim>\<open>kernel/uspace64.c\<close>: the heap, the mappings and the first stack of a process.

  The state is the process table, the machine and the statics of the file. A region of the reservation list is a record
  \<open>resv64\<close> of \<open>Proc64\<close>; functions of the code that take a \<open>proc64_t*\<close> take the process and give it back. Addresses
  are natural numbers below \<open>2 ^ 64\<close> with the wrap-around written out; a result that the code returns as \<open>(uint64_t)-22\<close>
  is that number. \<open>None\<close> is a fault: on a table, on the stack that \<open>uspace64_build_stack\<close> writes, or on the null that \<open>cur()\<close> gives when
  no process is current. The lines \<open>back_page\<close> prints when memory runs out leave no trace.
\<close>

unbundle bit_operations_syntax

section \<open>State\<close>

definition USPACE64_MMAP_BASE :: nat where "USPACE64_MMAP_BASE = 0x0000100000000000"
definition USPACE64_LIMIT :: nat where "USPACE64_LIMIT = 0x0000800000000000"
definition MAP_FIXED :: u64 where "MAP_FIXED = 0x10"
definition MAP_FIXED_NOREPLACE :: u64 where "MAP_FIXED_NOREPLACE = 0x100000"
definition MAP_ANONYMOUS :: u64 where "MAP_ANONYMOUS = 0x20"
definition PROT_WRITE :: u64 where "PROT_WRITE = 2"

record ustate =
  table :: proc_state
  umach :: machine
  zero_frame :: nat
  pages_allocated :: nat
  resv_spilled :: nat
  resv_peak :: nat
  lazy_faults :: nat

definition errno :: "nat \<Rightarrow> nat" where
  "errno e = 2 ^ 64 - e"

definition uspace64_zero_frame :: "ustate \<Rightarrow> nat" where
  "uspace64_zero_frame s = zero_frame s"

definition uspace64_pages_allocated :: "ustate \<Rightarrow> nat" where
  "uspace64_pages_allocated s = pages_allocated s"

definition uspace64_resv_spilled :: "ustate \<Rightarrow> nat" where
  "uspace64_resv_spilled s = resv_spilled s"

definition uspace64_resv_peak :: "ustate \<Rightarrow> nat" where
  "uspace64_resv_peak s = resv_peak s"

definition uspace64_lazy_faults :: "ustate \<Rightarrow> nat" where
  "uspace64_lazy_faults s = lazy_faults s"

text \<open>The process \<open>cur()\<close> points at, and what is written through that pointer.\<close>

definition cur :: "ustate \<Rightarrow> proc64 option" where
  "cur s = map_option (\<lambda>i. procs (table s) ! i) (proc64_current (table s))"

definition set_cur :: "proc64 \<Rightarrow> ustate \<Rightarrow> ustate" where
  "set_cur p s = (case proc64_current (table s) of None \<Rightarrow> s | Some i \<Rightarrow> s\<lparr>table := proc_upd i (\<lambda>_. p) (table s)\<rparr>)"

definition get_zero_frame :: "ustate \<Rightarrow> nat \<times> ustate" where
  "get_zero_frame s =
     (if zero_frame s = 0
      then (let (z, q) = pmm64_alloc_frame (pmm (umach s)); s = s\<lparr>zero_frame := z, umach := (umach s)\<lparr>pmm := q\<rparr>\<rparr>;
                s = (if z \<noteq> 0 then s\<lparr>umach := clear_frame (z div 4096) (umach s)\<rparr> else s)
            in (z, s))
      else (zero_frame s, s))"

definition uspace64_reset :: "nat \<Rightarrow> ustate \<Rightarrow> ustate" where
  "uspace64_reset brk s =
     (case cur s of None \<Rightarrow> s
      | Some p \<Rightarrow> (set_cur (p\<lparr>brk_base := brk, brk_current := brk, mmap_next := USPACE64_MMAP_BASE, nresv := 0\<rparr>) s)\<lparr>pages_allocated := 0\<rparr>)"

definition fits_in_user_half :: "nat \<Rightarrow> nat \<Rightarrow> bool" where
  "fits_in_user_half start len \<longleftrightarrow> \<not> start \<ge> USPACE64_LIMIT \<and> len \<le> USPACE64_LIMIT - start"

section \<open>The reservation list\<close>

text \<open>The binary search.\<close>

function resv_search :: "resv64 list \<Rightarrow> nat \<Rightarrow> nat \<Rightarrow> nat \<Rightarrow> nat" where
  "resv_search rs va lo hi =
     (if lo < hi
      then (let mid = (lo + hi) div 2
            in if r_end (rs ! mid) \<le> va then resv_search rs va (mid + 1) hi else resv_search rs va lo mid)
      else lo)"
  by pat_completeness auto
termination by (relation "measure (\<lambda>(rs, va, lo, hi). hi - lo)") auto

definition resv_first_after :: "nat \<Rightarrow> proc64 \<Rightarrow> nat" where
  "resv_first_after va p = resv_search (resv p) va 0 (nresv p)"

definition resv_overlaps :: "nat \<Rightarrow> nat \<Rightarrow> proc64 \<Rightarrow> bool" where
  "resv_overlaps start end p =
     (let i = resv_first_after start p in i < nresv p \<and> r_start (resv p ! i) < end)"

text \<open>Moving the regions above \<open>i\<close> down by one, or those from \<open>i\<close> on up by one.\<close>

definition resv_delete :: "nat \<Rightarrow> proc64 \<Rightarrow> proc64" where
  "resv_delete i p = p\<lparr>resv := fold (\<lambda>k rs. rs[k - 1 := rs ! k]) [i + 1..<nresv p] (resv p), nresv := nresv p - 1\<rparr>"

definition resv_insert :: "nat \<Rightarrow> nat \<Rightarrow> nat \<Rightarrow> u64 \<Rightarrow> proc64 \<times> ustate \<Rightarrow> bool \<times> proc64 \<times> ustate" where
  "resv_insert i start end flags x =
     (let (p, s) = x
      in if nresv p \<ge> PROC64_RESV_MAX then (False, p, s)
         else
         (let rs = fold (\<lambda>k rs. rs[k := rs ! (k - 1)]) (rev [i + 1..<nresv p + 1]) (resv p);
              p = p\<lparr>resv := rs[i := \<lparr>r_start = start, r_end = end, r_flags = flags\<rparr>], nresv := nresv p + 1\<rparr>;
              s = (if nresv p > resv_peak s then s\<lparr>resv_peak := nresv p\<rparr> else s)
          in (True, p, s)))"

section \<open>Pages behind a range\<close>

partial_function (option) map_zero_loop :: "nat \<Rightarrow> nat \<Rightarrow> nat \<Rightarrow> nat \<Rightarrow> machine \<Rightarrow> (nat option \<times> machine) option" where
  "map_zero_loop z va end n m =
     (if va < end then do {
        (rc, had) \<leftarrow> paging64_translate (of_nat va) m;
        if rc = PAGING64_OK then map_zero_loop z (add64 va 4096) end n m
        else do {
          (rc, m) \<leftarrow> paging64_map (of_nat va) (of_nat z) (PAGE64_PRESENT OR PAGE64_USER) m;
          if rc \<noteq> PAGING64_OK then Some (None, m) else map_zero_loop z (add64 va 4096) end (n + 1) m
        }
      } else Some (Some n, m))"

text \<open>How many pages were mapped, or nothing for the \<open>-1\<close>.\<close>

definition map_zero_page :: "nat \<Rightarrow> nat \<Rightarrow> ustate \<Rightarrow> (nat option \<times> ustate) option" where
  "map_zero_page start end s =
     (let (z, s) = get_zero_frame s
      in if z = 0 then Some (None, s)
         else do {
           (n, m) \<leftarrow> map_zero_loop z start end 0 (umach s);
           Some (n, s\<lparr>umach := m\<rparr>)
         })"

definition spill_to_zero_page :: "nat \<Rightarrow> nat \<Rightarrow> ustate \<Rightarrow> (bool \<times> ustate) option" where
  "spill_to_zero_page start end s = do {
     (n, s) \<leftarrow> map_zero_page start end s;
     Some (case n of None \<Rightarrow> (False, s) | Some n \<Rightarrow> (True, s\<lparr>resv_spilled := add64 (resv_spilled s) n\<rparr>))
   }"

definition back_page :: "nat \<Rightarrow> u64 \<Rightarrow> ustate \<Rightarrow> (bool \<times> ustate) option" where
  "back_page va flags s =
     (let (frame, q) = pmm64_alloc_user (pmm (umach s)); s = s\<lparr>umach := (umach s)\<lparr>pmm := q\<rparr>\<rparr>
      in if frame = 0 then Some (False, s)
         else
         (let s = s\<lparr>umach := clear_frame (frame div 4096) (umach s)\<rparr>
          in do {
            (rc, m) \<leftarrow> paging64_map (of_nat va) (of_nat frame) flags (umach s);
            if rc \<noteq> PAGING64_OK then Some (False, s\<lparr>umach := m\<lparr>pmm := pmm64_free_frame frame (pmm m)\<rparr>\<rparr>)
            else Some (True, s\<lparr>umach := m, pages_allocated := add64 (pages_allocated s) 1\<rparr>)
          }))"

partial_function (option) spill_loop :: "u64 \<Rightarrow> nat \<Rightarrow> nat \<Rightarrow> ustate \<Rightarrow> (bool \<times> ustate) option" where
  "spill_loop flags va end s =
     (if va < end then do {
        (rc, had) \<leftarrow> paging64_translate (of_nat va) (umach s);
        if rc = PAGING64_OK then spill_loop flags (add64 va 4096) end s
        else do {
          (ok, s) \<leftarrow> back_page va flags s;
          if \<not> ok then Some (False, s)
          else spill_loop flags (add64 va 4096) end (s\<lparr>resv_spilled := add64 (resv_spilled s) 1\<rparr>)
        }
      } else Some (True, s))"

definition spill_range :: "nat \<Rightarrow> nat \<Rightarrow> u64 \<Rightarrow> ustate \<Rightarrow> (bool \<times> ustate) option" where
  "spill_range start end flags s = (if flags = 0 then spill_to_zero_page start end s else spill_loop flags start end s)"

section \<open>Carving and recording\<close>

definition set_start :: "nat \<Rightarrow> nat \<Rightarrow> proc64 \<Rightarrow> proc64" where
  "set_start i a p = p\<lparr>resv := (resv p)[i := (resv p ! i)\<lparr>r_start := a\<rparr>]\<rparr>"

definition set_end :: "nat \<Rightarrow> nat \<Rightarrow> proc64 \<Rightarrow> proc64" where
  "set_end i a p = p\<lparr>resv := (resv p)[i := (resv p ! i)\<lparr>r_end := a\<rparr>]\<rparr>"

partial_function (option) remove_loop :: "nat \<Rightarrow> nat \<Rightarrow> nat \<Rightarrow> proc64 \<times> ustate \<Rightarrow> (proc64 \<times> ustate) option" where
  "remove_loop start end i x =
     (let (p, s) = x
      in if i < nresv p \<and> r_start (resv p ! i) < end
         then
         (let rs = r_start (resv p ! i); re = r_end (resv p ! i)
          in if rs < start \<and> re > end
             then
             (let fl = r_flags (resv p ! i);
                  (ok, p, s) = resv_insert (i + 1) end re fl (set_end i start p, s)
              in if ok then Some (p, s)
                 else do { (_, s) \<leftarrow> spill_range end re fl s; Some (p, s) })
             else if rs < start then remove_loop start end (i + 1) (set_end i start p, s)
             else if re > end then Some (set_start i end p, s)
             else remove_loop start end i (resv_delete i p, s))
         else Some x)"

definition resv_remove :: "nat \<Rightarrow> nat \<Rightarrow> proc64 \<times> ustate \<Rightarrow> (proc64 \<times> ustate) option" where
  "resv_remove start end x = remove_loop start end (resv_first_after start (fst x)) x"

definition resv_add :: "nat \<Rightarrow> nat \<Rightarrow> u64 \<Rightarrow> proc64 \<times> ustate \<Rightarrow> (bool \<times> proc64 \<times> ustate) option" where
  "resv_add start end flags x =
     (let (p, s) = x; i = resv_first_after start p;
          join_prev = (i > 0 \<and> r_end (resv p ! (i - 1)) = start \<and> r_flags (resv p ! (i - 1)) = flags);
          join_next = (i < nresv p \<and> r_start (resv p ! i) = end \<and> r_flags (resv p ! i) = flags)
      in if join_prev \<and> join_next then Some (True, resv_delete i (set_end (i - 1) (r_end (resv p ! i)) p), s)
         else if join_prev then Some (True, set_end (i - 1) end p, s)
         else if join_next then Some (True, set_start i start p, s)
         else
         (let (ok, p, s) = resv_insert i start end flags (p, s)
          in if ok then Some (True, p, s)
             else do { (ok, s) \<leftarrow> spill_range start end flags s; Some (ok, p, s) }))"

section \<open>First touch\<close>

text \<open>The region a page lies in, with the protection it has there; a reservation has none.\<close>

definition touch_flags :: "nat \<Rightarrow> bool \<Rightarrow> proc64 \<Rightarrow> u64 option" where
  "touch_flags va write p =
     (let i = resv_first_after va p
      in if i \<ge> nresv p \<or> r_start (resv p ! i) > va then None
         else (let flags = r_flags (resv p ! i)
               in if flags = 0 then None
                  else if write \<and> \<not> has flags PAGE64_WRITE then None
                  else Some flags))"

definition uspace64_back_in :: "int \<Rightarrow> nat \<Rightarrow> bool \<Rightarrow> ustate \<Rightarrow> bool \<times> ustate" where
  "uspace64_back_in pd va write s =
     (case proc64_get pd (table s) of
        None \<Rightarrow> (False, s)
      | Some ip \<Rightarrow>
          (let p = procs (table s) ! ip; pva = page_down va
           in if va \<ge> USPACE64_LIMIT then (False, s)
              else
              (case touch_flags pva write p of
                 None \<Rightarrow> (False, s)
               | Some flags \<Rightarrow>
                   (let (fr, m) = vmspace64_user_frame (of_nat (zero_frame s)) (space p) (of_nat pva) False (umach s); s = s\<lparr>umach := m\<rparr>
                    in if fr \<noteq> 0 then (False, s)
                       else
                       (let (frame, q) = pmm64_alloc_high (pmm (umach s)); s = s\<lparr>umach := (umach s)\<lparr>pmm := q\<rparr>\<rparr>
                        in if frame = 0 then (False, s)
                           else
                           (let s = s\<lparr>umach := clear_frame (frame div 4096) (umach s)\<rparr>;
                                (ok, m) = vmspace64_install (space p) (of_nat pva) (of_nat frame) flags (umach s)
                            in if \<not> ok then (False, s\<lparr>umach := m\<lparr>pmm := pmm64_free_frame frame (pmm m)\<rparr>\<rparr>)
                               else (True, s\<lparr>umach := m, pages_allocated := add64 (pages_allocated s) 1,
                                              lazy_faults := add64 (lazy_faults s) 1\<rparr>)))))))"

definition uspace64_fault :: "nat \<Rightarrow> bool \<Rightarrow> ustate \<Rightarrow> (bool \<times> ustate) option" where
  "uspace64_fault va write s =
     (case cur s of
        None \<Rightarrow> Some (False, s)
      | Some p \<Rightarrow>
          if va \<ge> USPACE64_LIMIT then Some (False, s)
          else
          (case touch_flags (page_down va) write p of
             None \<Rightarrow> Some (False, s)
           | Some flags \<Rightarrow> do {
               (rc, had) \<leftarrow> paging64_translate (of_nat (page_down va)) (umach s);
               if rc = PAGING64_OK then Some (False, s)
               else do {
                 (ok, s) \<leftarrow> back_page (page_down va) flags s;
                 Some (if \<not> ok then (False, s) else (True, s\<lparr>lazy_faults := add64 (lazy_faults s) 1\<rparr>))
               }
             }))"

section \<open>Searching and unmapping\<close>

text \<open>Takes the page at \<open>va\<close> away and gives its frame back, unless it is the shared zero page.\<close>

definition drop_page :: "nat \<Rightarrow> ustate \<Rightarrow> ustate option" where
  "drop_page va s = do {
     (rc, pa) \<leftarrow> paging64_translate (of_nat va) (umach s);
     case pa of
       None \<Rightarrow> Some s
     | Some a \<Rightarrow>
         (let frame = unat (a AND NOT (PAGE64_SIZE - 1))
          in do {
            (rc, m) \<leftarrow> paging64_unmap (of_nat va) (umach s);
            Some (s\<lparr>umach := (if frame \<noteq> zero_frame s then m\<lparr>pmm := pmm64_free_frame frame (pmm m)\<rparr> else m)\<rparr>)
          })
   }"

partial_function (option) unmap_loop :: "nat \<Rightarrow> nat \<Rightarrow> ustate \<Rightarrow> ustate option" where
  "unmap_loop va end s = do {
     v \<leftarrow> vmspace64_next_mapped (of_nat va) (of_nat end) (umach s);
     if unat v < end then do {
       s \<leftarrow> drop_page (unat v) s;
       unmap_loop (add64 (unat v) 4096) end s
     } else Some s
   }"

definition unmap_pages :: "nat \<Rightarrow> nat \<Rightarrow> ustate \<Rightarrow> ustate option" where
  "unmap_pages start end s = unmap_loop start end s"

definition range_free :: "nat \<Rightarrow> nat \<Rightarrow> ustate \<Rightarrow> bool option" where
  "range_free start end s = do {
     p \<leftarrow> cur s;
     if resv_overlaps start end p then Some False
     else do {
       v \<leftarrow> vmspace64_next_mapped (of_nat start) (of_nat end) (umach s);
       Some (unat v = end)
     }
   }"

partial_function (option) skip_run :: "nat \<Rightarrow> machine \<Rightarrow> nat option" where
  "skip_run a m =
     (if fits_in_user_half a 4096 then do {
        v \<leftarrow> vmspace64_next_mapped (of_nat a) (of_nat (add64 a 4096)) m;
        if unat v = a then skip_run (add64 a 4096) m else Some a
      } else Some a)"

partial_function (option) find_loop :: "nat \<Rightarrow> proc64 \<Rightarrow> machine \<Rightarrow> nat \<Rightarrow> nat option" where
  "find_loop len p m a =
     (if \<not> fits_in_user_half a len then Some 0
      else
      (let e = add64 a len; i = resv_first_after a p
       in if i < nresv p \<and> r_start (resv p ! i) < e then find_loop len p m (page_up (r_end (resv p ! i)))
          else do {
            v \<leftarrow> vmspace64_next_mapped (of_nat a) (of_nat e) m;
            if unat v < e then do {
              a \<leftarrow> skip_run (add64 (unat v) 4096) m;
              find_loop len p m a
            } else Some a
          }))"

definition find_free :: "nat \<Rightarrow> ustate \<Rightarrow> nat option" where
  "find_free len s = do { p \<leftarrow> cur s; find_loop len p (umach s) (mmap_next p) }"

definition bump_past :: "nat \<Rightarrow> ustate \<Rightarrow> ustate option" where
  "bump_past end s = do {
     p \<leftarrow> cur s;
     Some (if end > mmap_next p then set_cur (p\<lparr>mmap_next := end\<rparr>) s else s)
   }"

section \<open>Anonymous memory\<close>

definition anon_page :: "u64 \<Rightarrow> bool \<Rightarrow> nat \<Rightarrow> ustate \<Rightarrow> ustate option" where
  "anon_page flags zero_existing va s = do {
     (rc, pa) \<leftarrow> paging64_translate (of_nat va) (umach s);
     case pa of
       None \<Rightarrow> Some s
     | Some a \<Rightarrow>
         (let existing = unat (a AND NOT (PAGE64_SIZE - 1))
          in if existing \<noteq> zero_frame s \<and> \<not> zero_existing
             then do {
               (rc, m) \<leftarrow> paging64_map (of_nat va) (of_nat existing) flags (umach s);
               Some (s\<lparr>umach := m\<rparr>)
             }
             else do {
               (rc, m) \<leftarrow> paging64_unmap (of_nat va) (umach s);
               Some (s\<lparr>umach := (if existing \<noteq> zero_frame s then m\<lparr>pmm := pmm64_free_frame existing (pmm m)\<rparr> else m)\<rparr>)
             })
   }"

partial_function (option) anon_loop :: "u64 \<Rightarrow> bool \<Rightarrow> nat \<Rightarrow> nat \<Rightarrow> ustate \<Rightarrow> ustate option" where
  "anon_loop flags zero_existing va end s = do {
     v \<leftarrow> vmspace64_next_mapped (of_nat va) (of_nat end) (umach s);
     if unat v < end then do {
       s \<leftarrow> anon_page flags zero_existing (unat v) s;
       anon_loop flags zero_existing (add64 (unat v) 4096) end s
     } else Some s
   }"

text \<open>\<open>resv_remove\<close> and \<open>resv_add\<close> on the current process.\<close>

definition cur_remove :: "nat \<Rightarrow> nat \<Rightarrow> ustate \<Rightarrow> ustate option" where
  "cur_remove start end s = do {
     p \<leftarrow> cur s;
     (p, s) \<leftarrow> resv_remove start end (p, s);
     Some (set_cur p s)
   }"

definition cur_add :: "nat \<Rightarrow> nat \<Rightarrow> u64 \<Rightarrow> ustate \<Rightarrow> (bool \<times> ustate) option" where
  "cur_add start end flags s = do {
     p \<leftarrow> cur s;
     (ok, p, s) \<leftarrow> resv_add start end flags (p, s);
     Some (ok, set_cur p s)
   }"

definition map_anon :: "nat \<Rightarrow> nat \<Rightarrow> u64 \<Rightarrow> bool \<Rightarrow> ustate \<Rightarrow> (bool \<times> ustate) option" where
  "map_anon start end flags zero_existing s = do {
     s \<leftarrow> cur_remove start end s;
     s \<leftarrow> anon_loop flags zero_existing start end s;
     cur_add start end flags s
   }"

definition uspace64_brk :: "nat \<Rightarrow> ustate \<Rightarrow> (nat \<times> ustate) option" where
  "uspace64_brk addr s = do {
     p \<leftarrow> cur s;
     if addr = 0 \<or> addr < brk_base p then Some (brk_current p, s)
     else do {
       (ok, s) \<leftarrow> (if page_up addr > brk_current p
                    then map_anon (brk_current p) (page_up addr) (PAGE64_PRESENT OR PAGE64_WRITE OR PAGE64_USER) False s
                    else Some (True, s));
       p \<leftarrow> cur s;
       Some (if \<not> ok then (brk_current p, s) else (addr, set_cur (p\<lparr>brk_current := addr\<rparr>) s))
     }
   }"

text \<open>Where a mapping goes, or the error.\<close>

definition mmap_place :: "nat \<Rightarrow> nat \<Rightarrow> u64 \<Rightarrow> ustate \<Rightarrow> (nat + nat) option" where
  "mmap_place addr len flags s =
     (let start = page_down addr
      in if has flags MAP_FIXED_NOREPLACE
         then (if \<not> fits_in_user_half start len then Some (Inl (errno 12))
               else do {
                 free \<leftarrow> range_free start (add64 start len) s;
                 Some (if free then Inr start else Inl (errno 17))
               })
         else if has flags MAP_FIXED
         then Some (if \<not> fits_in_user_half start len then Inl (errno 12) else Inr start)
         else do {
           keep \<leftarrow> (if addr = 0 \<or> \<not> fits_in_user_half start len then Some False else range_free start (add64 start len) s);
           start \<leftarrow> (if keep then Some start else find_free len s);
           Some (if start = 0 then Inl (errno 12) else Inr start)
         })"

definition prot_flags :: "u64 \<Rightarrow> u64" where
  "prot_flags prot = (if has prot PROT_WRITE then PAGE64_PRESENT OR PAGE64_USER OR PAGE64_WRITE else PAGE64_PRESENT OR PAGE64_USER)"

definition uspace64_mmap :: "nat \<Rightarrow> nat \<Rightarrow> u64 \<Rightarrow> u64 \<Rightarrow> ustate \<Rightarrow> (nat \<times> ustate) option" where
  "uspace64_mmap addr len0 prot flags s =
     (if len0 = 0 then Some (errno 22, s)
      else do {
        place \<leftarrow> mmap_place addr (page_up len0) flags s;
        case place of
          Inl e \<Rightarrow> Some (e, s)
        | Inr start \<Rightarrow>
            (let end = add64 start (page_up len0)
             in do {
               (ok, s) \<leftarrow> (if prot = 0 \<and> has flags MAP_ANONYMOUS
                            then do {
                              s \<leftarrow> unmap_pages start end s;
                              s \<leftarrow> cur_remove start end s;
                              cur_add start end 0 s
                            }
                            else map_anon start end (prot_flags prot) True s);
               if \<not> ok then Some (errno 12, s)
               else do {
                 s \<leftarrow> (if \<not> has flags (MAP_FIXED OR MAP_FIXED_NOREPLACE) then bump_past end s else Some s);
                 Some (start, s)
               }
             })
      })"

section \<open>Frames somebody else owns\<close>

text \<open>A page in the way of a fixed mapping; the zero page is freed like any other here.\<close>

definition clear_page :: "nat \<Rightarrow> nat \<Rightarrow> machine \<Rightarrow> machine option" where
  "clear_page start i m =
     (let va = add64 start (mul64 i 4096)
      in do {
        (rc, pa) \<leftarrow> paging64_translate (of_nat va) m;
        case pa of
          None \<Rightarrow> Some m
        | Some a \<Rightarrow> do {
            (rc, m) \<leftarrow> paging64_unmap (of_nat va) m;
            Some (m\<lparr>pmm := pmm64_free_frame (unat (a AND NOT (PAGE64_SIZE - 1))) (pmm m)\<rparr>)
          }
      })"

definition unmap_frame :: "nat \<Rightarrow> nat list \<Rightarrow> nat \<Rightarrow> machine \<Rightarrow> machine option" where
  "unmap_frame start frms i m = do {
     (rc, m) \<leftarrow> paging64_unmap (of_nat (add64 start (mul64 i 4096))) m;
     Some (m\<lparr>pmm := pmm64_free_frame (frms ! i) (pmm m)\<rparr>)
   }"

fun map_frames_loop :: "nat \<Rightarrow> nat list \<Rightarrow> u64 \<Rightarrow> nat list \<Rightarrow> machine \<Rightarrow> (bool \<times> machine) option" where
  "map_frames_loop start frms pflags [] m = Some (True, m)"
| "map_frames_loop start frms pflags (i # is) m = do {
     (rc, m) \<leftarrow> paging64_map (of_nat (add64 start (mul64 i 4096))) (of_nat (frms ! i)) pflags m;
     if rc \<noteq> PAGING64_OK
     then do { m \<leftarrow> walk_all (unmap_frame start frms) [0..<i] m; Some (False, m) }
     else map_frames_loop start frms pflags is (m\<lparr>pmm := snd (pmm64_ref_frame (frms ! i) (pmm m))\<rparr>)
   }"

definition frames_flags :: "u64 \<Rightarrow> bool \<Rightarrow> u64" where
  "frames_flags prot cow =
     (let pflags = prot_flags prot
      in if cow then (let f = (pflags AND NOT PAGE64_WRITE) OR PAGE64_COW in if has prot PROT_WRITE then f OR PAGE64_COW_RW else f)
         else pflags OR PAGE64_SHARED)"

text \<open>\<open>n\<close> is the length of the list; a null list is the empty one.\<close>

definition map_frames :: "nat \<Rightarrow> bool \<Rightarrow> nat list \<Rightarrow> u64 \<Rightarrow> bool \<Rightarrow> ustate \<Rightarrow> (nat \<times> ustate) option" where
  "map_frames addr fixed frms prot cow s =
     (let n = length frms; bytes = mul64 n 4096
      in if n = 0 then Some (errno 22, s)
         else do {
           start \<leftarrow> (if fixed then Some (page_down addr) else find_free bytes s);
           if \<not> fixed \<and> start = 0 then Some (errno 12, s)
           else if \<not> fits_in_user_half start bytes then Some (errno 12, s)
           else do {
             s \<leftarrow> (if fixed then do {
                       s \<leftarrow> cur_remove start (add64 start bytes) s;
                       m \<leftarrow> walk_all (clear_page start) [0..<n] (umach s);
                       Some (s\<lparr>umach := m\<rparr>)
                     } else Some s);
             (ok, m) \<leftarrow> map_frames_loop start frms (frames_flags prot cow) [0..<n] (umach s);
             if \<not> ok then Some (errno 12, s\<lparr>umach := m\<rparr>)
             else do {
               s \<leftarrow> (if \<not> fixed then bump_past (add64 start bytes) (s\<lparr>umach := m\<rparr>) else Some (s\<lparr>umach := m\<rparr>));
               Some (start, s)
             }
           }
         })"

definition uspace64_map_frames :: "nat \<Rightarrow> bool \<Rightarrow> nat list \<Rightarrow> u64 \<Rightarrow> ustate \<Rightarrow> (nat \<times> ustate) option" where
  "uspace64_map_frames addr fixed frms prot s = map_frames addr fixed frms prot False s"

definition uspace64_map_frames_cow :: "nat \<Rightarrow> bool \<Rightarrow> nat list \<Rightarrow> u64 \<Rightarrow> ustate \<Rightarrow> (nat \<times> ustate) option" where
  "uspace64_map_frames_cow addr fixed frms prot s = map_frames addr fixed frms prot True s"

text \<open>The loop and, where it fails, the loop that undoes it.\<close>

partial_function (option) unmap_range :: "nat \<Rightarrow> nat \<Rightarrow> nat \<Rightarrow> machine \<Rightarrow> machine option" where
  "unmap_range start done off m =
     (if done < off then do {
        (rc, m) \<leftarrow> paging64_unmap (of_nat (add64 start done)) m;
        unmap_range start (add64 done 4096) off m
      } else Some m)"

partial_function (option) map_phys_loop :: "nat \<Rightarrow> nat \<Rightarrow> u64 \<Rightarrow> nat \<Rightarrow> nat \<Rightarrow> machine \<Rightarrow> (bool \<times> machine) option" where
  "map_phys_loop start phys pflags len off m =
     (if off < len then do {
        (rc, m) \<leftarrow> paging64_map (of_nat (add64 start off)) (of_nat (add64 phys off)) pflags m;
        if rc \<noteq> PAGING64_OK then do { m \<leftarrow> unmap_range start 0 off m; Some (False, m) }
        else map_phys_loop start phys pflags len (add64 off 4096) m
      } else Some (True, m))"

definition uspace64_map_phys :: "nat \<Rightarrow> nat \<Rightarrow> u64 \<Rightarrow> ustate \<Rightarrow> (nat \<times> ustate) option" where
  "uspace64_map_phys len0 phys prot s =
     (if len0 = 0 then Some (errno 22, s)
      else
      (let len = page_up len0
       in if phys mod 4096 \<noteq> 0 then Some (errno 22, s)
          else do {
            start \<leftarrow> find_free len s;
            if start = 0 then Some (errno 12, s)
            else
            (let pflags = PAGE64_PRESENT OR PAGE64_USER OR PAGE64_PCD OR PAGE64_PWT;
                 pflags = (if has prot PROT_WRITE then pflags OR PAGE64_WRITE else pflags)
             in do {
               (ok, m) \<leftarrow> map_phys_loop start phys pflags len 0 (umach s);
               if \<not> ok then Some (errno 12, s\<lparr>umach := m\<rparr>)
               else do { s \<leftarrow> bump_past (add64 start len) (s\<lparr>umach := m\<rparr>); Some (start, s) }
             })
          }))"

section \<open>Protection, discarding, unmapping\<close>

partial_function (option) protect_loop :: "u64 \<Rightarrow> nat \<Rightarrow> nat \<Rightarrow> proc64 \<times> ustate \<Rightarrow> (proc64 \<times> ustate) option" where
  "protect_loop nf at end x =
     (if at < end
      then
      (let (p, s) = x; i = resv_first_after at p
       in if i \<ge> nresv p \<or> r_start (resv p ! i) \<ge> end then Some x
          else
          (let a = (if r_start (resv p ! i) < at then at else r_start (resv p ! i));
               e = (if r_end (resv p ! i) > end then end else r_end (resv p ! i))
           in if r_flags (resv p ! i) \<noteq> nf
              then do {
                (p, s) \<leftarrow> resv_remove a e (p, s);
                (_, p, s) \<leftarrow> resv_add a e nf (p, s);
                protect_loop nf e end (p, s)
              }
              else protect_loop nf e end (p, s)))
      else Some x)"

partial_function (option) writable_loop :: "bool \<Rightarrow> nat \<Rightarrow> nat \<Rightarrow> ustate \<Rightarrow> ustate option" where
  "writable_loop w va end s = do {
     v \<leftarrow> vmspace64_next_mapped (of_nat va) (of_nat end) (umach s);
     if unat v < end
     then (let (_, m) = vmspace64_set_writable (of_nat (zero_frame s)) v w (umach s)
           in writable_loop w (add64 (unat v) 4096) end (s\<lparr>umach := m\<rparr>))
     else Some s
   }"

definition uspace64_protect :: "nat \<Rightarrow> nat \<Rightarrow> u64 \<Rightarrow> ustate \<Rightarrow> ustate option" where
  "uspace64_protect addr len prot s =
     (let start = page_down addr; end = add64 start (page_up len);
          nf = (if prot = 0 then 0 else prot_flags prot)
      in do {
        s \<leftarrow> (if start < end then do {
                  p \<leftarrow> cur s;
                  (p, s) \<leftarrow> protect_loop nf start end (p, s);
                  Some (set_cur p s)
                } else Some s);
        writable_loop (has prot PROT_WRITE) start end s
      })"

partial_function (option) discard_loop :: "nat \<Rightarrow> nat \<Rightarrow> proc64 \<Rightarrow> ustate \<Rightarrow> ustate option" where
  "discard_loop va end p s = do {
     v \<leftarrow> vmspace64_next_mapped (of_nat va) (of_nat end) (umach s);
     if unat v < end
     then
     (let i = resv_first_after (unat v) p
      in do {
        s \<leftarrow> (if i < nresv p \<and> r_start (resv p ! i) \<le> unat v \<and> r_flags (resv p ! i) \<noteq> 0 then drop_page (unat v) s else Some s);
        discard_loop (add64 (unat v) 4096) end p s
      })
     else Some s
   }"

definition uspace64_discard :: "nat \<Rightarrow> nat \<Rightarrow> ustate \<Rightarrow> ustate option" where
  "uspace64_discard addr len s =
     (let start = page_down addr
      in case cur s of None \<Rightarrow> Some s | Some p \<Rightarrow> discard_loop start (add64 start (page_up len)) p s)"

definition uspace64_munmap :: "nat \<Rightarrow> nat \<Rightarrow> ustate \<Rightarrow> (nat \<times> ustate) option" where
  "uspace64_munmap addr len s =
     (if len = 0 then Some (errno 22, s)
      else
      (let start = page_down addr; end = add64 start (page_up len)
       in do {
         s \<leftarrow> cur_remove start end s;
         s \<leftarrow> unmap_pages start end s;
         Some (0, s)
       }))"

section \<open>The first stack\<close>

text \<open>Stores of the kernel at a virtual address of the loaded space.\<close>

definition vput8 :: "nat \<Rightarrow> byte \<Rightarrow> machine \<Rightarrow> machine option" where
  "vput8 a b m = map_option (\<lambda>f. poke f (a mod 4096) b m) (mmu_frame m (of_nat a))"

definition vput64 :: "nat \<Rightarrow> nat \<Rightarrow> machine \<Rightarrow> machine option" where
  "vput64 a w m = map_option (\<lambda>f. store_word f (a mod 4096 div 8) (of_nat w) m) (mmu_frame m (of_nat a))"

definition vput_bytes :: "nat \<Rightarrow> byte list \<Rightarrow> machine \<Rightarrow> machine option" where
  "vput_bytes a bs = walk_all (\<lambda>k. vput8 (add64 a k) (bs ! k)) [0..<length bs]"

definition vput_words :: "nat \<Rightarrow> nat list \<Rightarrow> machine \<Rightarrow> machine option" where
  "vput_words a ws = walk_all (\<lambda>k. vput64 (add64 a (8 * k)) (ws ! k)) [0..<length ws]"

text \<open>The strings of a vector, the last one first; their addresses and the new stack pointer.\<close>

fun push_strings :: "byte list list \<Rightarrow> nat \<Rightarrow> machine \<Rightarrow> (nat list \<times> nat \<times> machine) option" where
  "push_strings [] p m = Some ([], p, m)"
| "push_strings (x # xs) p m = do {
     (as, p, m) \<leftarrow> push_strings xs p m;
     let p = sub64 p (length x + 1);
     m \<leftarrow> vput_bytes p (x @ [0]) m;
     Some (p # as, p, m)
   }"

definition auxv :: "elf64_info \<Rightarrow> nat \<Rightarrow> nat \<Rightarrow> nat list" where
  "auxv elf interp_base random_va =
     [3, phdr_va elf, 4, phent elf, 5, phnum elf, 6, 4096, 7, interp_base, 8, 0, 9, entry elf, 11, 0, 12, 0, 13, 0, 14, 0,
      23, 0, 17, 100, 16, 0, 25, random_va, 0, 0]"

definition down16 :: "nat \<Rightarrow> nat" where
  "down16 a = a - a mod 16"

definition uspace64_build_stack ::
    "u64 \<Rightarrow> nat \<Rightarrow> byte list list \<Rightarrow> elf64_info \<Rightarrow> nat \<Rightarrow> byte list list \<Rightarrow> machine \<Rightarrow> (nat \<times> machine) option" where
  "uspace64_build_stack vs stack_top argv elf interp_base envp m = do {
     let saved_cr3 = cr3 m;
     let m = m\<lparr>cr3 := vs\<rparr>;
     let random_va = sub64 stack_top 16;
     m \<leftarrow> vput_bytes random_va (map (\<lambda>i. of_nat (0x5A + i * 7)) [0..<16]) m;
     (argv_va, p, m) \<leftarrow> push_strings (take 16 argv) random_va m;
     (env_va, p, m) \<leftarrow> push_strings (take 16 envp) p m;
     let p = down16 p;
     let n = 3 + length argv_va + length env_va + 2 * 16;
     let rsp = down16 (sub64 p (n * 8));
     m \<leftarrow> vput_words rsp ([length argv_va] @ argv_va @ [0] @ env_va @ [0] @ auxv elf interp_base random_va) m;
     Some (rsp, m\<lparr>cr3 := saved_cr3\<rparr>)
   }"

end
