(* ===== verification/Uspace64_Resv.thy ===== *)
theory Uspace64_Resv
  imports Uspace64
begin

text \<open>
  What the reservation list of \<^verbatim>\<open>kernel/uspace64.c\<close> promises: the sorted table of regions stands for a map from
  addresses to protections (\<open>resv_at\<close>), which \<open>resv_remove\<close> and \<open>resv_add\<close> change on exactly the range they are given (locale
  \<open>range_map\<close>, interpreted on them as \<open>resv\<close>); the fault handler backs a page from that map; and the search for a free
  range is a first fit over it and the mapped pages.
\<close>

unbundle bit_operations_syntax

declare resv_search.simps [simp del]

section \<open>The list as a map from addresses\<close>

definition regs :: "proc64 \<Rightarrow> resv64 list" where
  "regs p = take (nresv p) (resv p)"

definition ranges_ok :: "resv64 list \<Rightarrow> bool" where
  "ranges_ok rs \<longleftrightarrow> sorted_wrt (\<lambda>a b. r_end a \<le> r_start b) rs \<and> (\<forall>r \<in> set rs. r_start r < r_end r)"

definition resv_ok :: "proc64 \<Rightarrow> bool" where
  "resv_ok p \<longleftrightarrow> length (resv p) = PROC64_RESV_MAX \<and> nresv p \<le> PROC64_RESV_MAX \<and> ranges_ok (regs p)"

definition covers :: "nat \<Rightarrow> resv64 \<Rightarrow> bool" where
  "covers a r \<longleftrightarrow> r_start r \<le> a \<and> a < r_end r"

definition ranges_at :: "resv64 list \<Rightarrow> nat \<Rightarrow> u64 option" where
  "ranges_at rs a = map_option r_flags (find (covers a) rs)"

definition resv_at :: "proc64 \<Rightarrow> nat \<Rightarrow> u64 option" where
  "resv_at p a = ranges_at (regs p) a"

lemma ranges_at_simps [simp]:
  "ranges_at [] a = None" "ranges_at (r # rs) a = (if covers a r then Some (r_flags r) else ranges_at rs a)"
  "ranges_at (rs @ rs') a = (case ranges_at rs a of Some f \<Rightarrow> Some f | None \<Rightarrow> ranges_at rs' a)"
proof -
  show "ranges_at (rs @ rs') a = (case ranges_at rs a of Some f \<Rightarrow> Some f | None \<Rightarrow> ranges_at rs' a)"
    by (induction rs) (simp_all add: ranges_at_def)
qed (simp_all add: ranges_at_def)

lemma ranges_at_None: "ranges_at rs a = None \<longleftrightarrow> (\<forall>r \<in> set rs. \<not> covers a r)"
  by (induction rs) auto

lemma ranges_ok_append:
  "ranges_ok (xs @ ys) \<longleftrightarrow> ranges_ok xs \<and> ranges_ok ys \<and> (\<forall>x \<in> set xs. \<forall>y \<in> set ys. r_end x \<le> r_start y)"
  by (auto simp: ranges_ok_def sorted_wrt_append)

lemma ranges_ok_Cons:
  "ranges_ok (x # xs) \<longleftrightarrow> r_start x < r_end x \<and> ranges_ok xs \<and> (\<forall>y \<in> set xs. r_end x \<le> r_start y)"
  by (auto simp: ranges_ok_def)

lemma ranges_ok_Nil [simp]: "ranges_ok []"
  by (simp add: ranges_ok_def)

lemma resv_okD:
  assumes "resv_ok p"
  shows "length (resv p) = 4096" and "nresv p \<le> 4096" and "length (regs p) = nresv p" and "ranges_ok (regs p)"
    and "i < nresv p \<Longrightarrow> resv p ! i = regs p ! i"
  using assms by (auto simp: resv_ok_def regs_def PROC64_RESV_MAX_def)

section \<open>The search\<close>

text \<open>Everything below \<open>i\<close> ends at or before \<open>va\<close>, everything from \<open>i\<close> on after it.\<close>

definition parts :: "resv64 list \<Rightarrow> nat \<Rightarrow> nat \<Rightarrow> nat \<Rightarrow> bool" where
  "parts rs n va i \<longleftrightarrow> i \<le> n \<and> (\<forall>j < i. r_end (rs ! j) \<le> va) \<and> (\<forall>j. i \<le> j \<longrightarrow> j < n \<longrightarrow> va < r_end (rs ! j))"

lemma resv_search_spec:
  assumes mono: "\<And>j k. j \<le> k \<Longrightarrow> k < n \<Longrightarrow> r_end (rs ! j) \<le> r_end (rs ! k)"
  shows "lo \<le> hi \<Longrightarrow> hi \<le> n \<Longrightarrow> (\<forall>j < lo. r_end (rs ! j) \<le> va) \<Longrightarrow> (\<forall>j. hi \<le> j \<longrightarrow> j < n \<longrightarrow> va < r_end (rs ! j)) \<Longrightarrow>
     parts rs n va (resv_search rs va lo hi)"
proof (induction "hi - lo" arbitrary: lo hi rule: less_induct)
  case less
  show ?case
  proof (cases "lo < hi")
    case True
    define m where "m = (lo + hi) div 2"
    have m: "lo \<le> m" "m < hi" using True by (auto simp: m_def)
    show ?thesis
    proof (cases "r_end (rs ! m) \<le> va")
      case le: True
      have "resv_search rs va lo hi = resv_search rs va (m + 1) hi"
        using le True by (subst resv_search.simps) (simp add: Let_def m_def)
      moreover have "parts rs n va (resv_search rs va (m + 1) hi)"
      proof (rule less.hyps)
        show "hi - (m + 1) < hi - lo" "m + 1 \<le> hi" using m by simp_all
        show "\<forall>j < m + 1. r_end (rs ! j) \<le> va"
        proof (intro allI impI)
          fix j
          assume "j < m + 1"
          then have "r_end (rs ! j) \<le> r_end (rs ! m)" using mono [of j m] m less.prems(2) by simp
          then show "r_end (rs ! j) \<le> va" using le by simp
        qed
      qed (rule less.prems)+
      ultimately show ?thesis by simp
    next
      case False
      have "resv_search rs va lo hi = resv_search rs va lo m"
        using False True by (subst resv_search.simps) (simp add: Let_def m_def)
      moreover have "parts rs n va (resv_search rs va lo m)"
      proof (rule less.hyps)
        show "m - lo < hi - lo" "lo \<le> m" "m \<le> n" using m less.prems(2) by simp_all
        show "\<forall>j. m \<le> j \<longrightarrow> j < n \<longrightarrow> va < r_end (rs ! j)"
        proof (intro allI impI)
          fix j
          assume "m \<le> j" "j < n"
          then have "r_end (rs ! m) \<le> r_end (rs ! j)" by (rule mono)
          then show "va < r_end (rs ! j)" using False by simp
        qed
      qed (rule less.prems)
      ultimately show ?thesis by simp
    qed
  next
    case False
    then have "lo = hi" using less.prems(1) by simp
    moreover have "resv_search rs va lo hi = lo" using False by (subst resv_search.simps) simp
    ultimately show ?thesis using less.prems by (simp add: parts_def)
  qed
qed

lemma first_after_spec:
  assumes "resv_ok p"
  shows "resv_first_after va p \<le> nresv p" and "j < resv_first_after va p \<Longrightarrow> r_end (regs p ! j) \<le> va"
    and "resv_first_after va p \<le> j \<Longrightarrow> j < nresv p \<Longrightarrow> va < r_end (regs p ! j)"
proof -
  note D = resv_okD [OF assms]
  have "r_end (resv p ! j) \<le> r_end (resv p ! k)" if jk: "j \<le> k" "k < nresv p" for j k
  proof (cases "j = k")
    case False
    then have "r_end (regs p ! j) \<le> r_start (regs p ! k)" "r_start (regs p ! k) < r_end (regs p ! k)"
      using D(3,4) jk unfolding ranges_ok_def sorted_wrt_iff_nth_less by auto
    then show ?thesis using D(5) [of j] D(5) [of k] jk by simp
  qed simp
  from resv_search_spec [OF this, where n = "nresv p" and lo = 0 and hi = "nresv p"]
  have "parts (resv p) (nresv p) va (resv_first_after va p)" by (simp add: resv_first_after_def)
  then have r: "resv_first_after va p \<le> nresv p" "\<forall>j < resv_first_after va p. r_end (resv p ! j) \<le> va"
    "\<forall>j. resv_first_after va p \<le> j \<longrightarrow> j < nresv p \<longrightarrow> va < r_end (resv p ! j)"
    by (simp_all add: parts_def)
  show "resv_first_after va p \<le> nresv p" by (rule r(1))
  show "j < resv_first_after va p \<Longrightarrow> r_end (regs p ! j) \<le> va" using r(1,2) D(5) [of j] by auto
  show "resv_first_after va p \<le> j \<Longrightarrow> j < nresv p \<Longrightarrow> va < r_end (regs p ! j)" using r(3) D(5) [of j] by auto
qed

section \<open>Editing the list\<close>

lemma shift_down:
  "i < n \<Longrightarrow> n \<le> length xs \<Longrightarrow>
     take (n - 1) (fold (\<lambda>k rs. rs[k - 1 := rs ! k]) [i + 1..<n] xs) = take i xs @ drop (Suc i) (take n xs)
   \<and> length (fold (\<lambda>k rs. rs[k - 1 := rs ! k]) [i + 1..<n] xs) = length xs
   \<and> (\<forall>j. n \<le> j \<longrightarrow> fold (\<lambda>k rs. rs[k - 1 := rs ! k]) [i + 1..<n] xs ! j = xs ! j)"
proof (induction n)
  case (Suc n)
  show ?case
  proof (cases "i = n")
    case True
    then show ?thesis by (simp add: min_def)
  next
    case False
    let ?f = "fold (\<lambda>k rs. rs[k - 1 := rs ! k]) [i + 1..<n] xs"
    have n: "i < n" "n \<le> length xs" using Suc.prems False by simp_all
    note IH = Suc.IH [OF n]
    have e: "fold (\<lambda>k rs. rs[k - 1 := rs ! k]) [i + 1..<Suc n] xs = ?f[n - 1 := xs ! n]" using n IH by simp
    obtain n' where n': "n = Suc n'" using n(1) by (cases n) auto
    have "take n (?f[n - 1 := xs ! n]) = take (n - 1) ?f @ [xs ! n]"
      using n(2) IH unfolding n' by (simp add: take_Suc_conv_app_nth)
    also have "\<dots> = take i xs @ drop (Suc i) (take (Suc n) xs)"
      using n IH Suc.prems by (simp add: take_Suc_conv_app_nth)
    finally show ?thesis using n IH unfolding e by simp
  qed
qed simp

lemma shift_up:
  "i \<le> n \<Longrightarrow> n < length xs \<Longrightarrow>
     fold (\<lambda>k rs. rs[k := rs ! (k - 1)]) (rev [i + 1..<n + 1]) xs = take i xs @ xs ! i # take (n - i) (drop i xs) @ drop (Suc n) xs"
proof (induction n arbitrary: xs)
  case (Suc n)
  show ?case
  proof (cases "i = Suc n")
    case True
    then show ?thesis using Suc.prems by (simp add: Cons_nth_drop_Suc)
  next
    case False
    let ?xs = "xs[Suc n := xs ! n]"
    have n: "i \<le> n" "n < length ?xs" using Suc.prems False by simp_all
    have "fold (\<lambda>k rs. rs[k := rs ! (k - 1)]) (rev [i + 1..<Suc n + 1]) xs = fold (\<lambda>k rs. rs[k := rs ! (k - 1)]) (rev [i + 1..<n + 1]) ?xs"
      using n by simp
    also have "\<dots> = take i ?xs @ ?xs ! i # take (n - i) (drop i ?xs) @ drop (Suc n) ?xs" by (rule Suc.IH [OF n])
    also have "\<dots> = take i xs @ xs ! i # take (Suc n - i) (drop i xs) @ drop (Suc (Suc n)) xs"
    proof -
      have "drop (Suc n) ?xs = xs ! n # drop (Suc (Suc n)) xs" using Suc.prems by (simp add: drop_update_swap flip: Cons_nth_drop_Suc)
      moreover have "take (Suc n - i) (drop i xs) = take (n - i) (drop i xs) @ [xs ! n]"
        using n Suc.prems by (simp add: Suc_diff_le take_Suc_conv_app_nth)
      moreover have "take (n - i) (drop i ?xs) = take (n - i) (drop i xs)" using n(1) by (simp add: drop_update_swap)
      ultimately show ?thesis using n(1) by simp
    qed
    finally show ?thesis .
  qed
qed (simp add: Cons_nth_drop_Suc)

lemma regs_delete:
  assumes "nresv p \<le> length (resv p)" and "i < nresv p"
  shows "regs (resv_delete i p) = take i (regs p) @ drop (Suc i) (regs p)" and "nresv (resv_delete i p) = nresv p - 1"
    and "length (resv (resv_delete i p)) = length (resv p)" and "resv_delete i p = p\<lparr>resv := resv (resv_delete i p), nresv := nresv p - 1\<rparr>"
proof -
  note s = shift_down [OF assms(2,1)]
  show "regs (resv_delete i p) = take i (regs p) @ drop (Suc i) (regs p)"
    using s assms(2) by (simp add: regs_def resv_delete_def min_def)
  show "length (resv (resv_delete i p)) = length (resv p)" using s by (simp add: resv_delete_def)
qed (simp_all add: resv_delete_def)

lemma regs_insert:
  assumes "resv_ok p" and "i \<le> nresv p" and "nresv p < 4096"
  shows "\<exists>p' s'. resv_insert i a b fl (p, s) = (True, p', s') \<and> regs p' = take i (regs p) @ \<lparr>r_start = a, r_end = b, r_flags = fl\<rparr> # drop i (regs p)
     \<and> nresv p' = Suc (nresv p) \<and> length (resv p') = length (resv p) \<and> p' = p\<lparr>resv := resv p', nresv := nresv p'\<rparr>
     \<and> s' = s\<lparr>resv_peak := resv_peak s'\<rparr>"
proof -
  let ?n = "nresv p"
  have n: "?n < length (resv p)" using resv_okD(1) [OF assms(1)] assms(3) by simp
  let ?rs = "fold (\<lambda>k rs. rs[k := rs ! (k - 1)]) (rev [i + 1..<?n + 1]) (resv p)"
  have s: "?rs = take i (resv p) @ resv p ! i # take (?n - i) (drop i (resv p)) @ drop (Suc ?n) (resv p)"
    by (rule shift_up [OF assms(2) n])
  define new where "new = \<lparr>r_start = a, r_end = b, r_flags = fl\<rparr>"
  have u: "?rs[i := new] = take i (resv p) @ new # take (?n - i) (drop i (resv p)) @ drop (Suc ?n) (resv p)"
    unfolding s using assms(2) n by (simp add: list_update_append)
  have "?n - i < length (resv p) - i" using assms(2) n by simp
  then have "take (Suc ?n) (?rs[i := new]) = take i (regs p) @ new # drop i (regs p)"
    unfolding u regs_def using assms(2) n by (simp add: Suc_diff_le min_def drop_take)
  moreover have "length (?rs[i := new]) = length (resv p)" unfolding u using assms(2) n by simp
  ultimately show ?thesis
    using assms(3) by (auto simp: resv_insert_def Let_def PROC64_RESV_MAX_def regs_def simp flip: new_def)
qed

lemma regs_set:
  assumes "i < nresv p"
  shows "regs (set_end i a p) = (regs p)[i := (regs p ! i)\<lparr>r_end := a\<rparr>]" and "regs (set_start i a p) = (regs p)[i := (regs p ! i)\<lparr>r_start := a\<rparr>]"
    and "nresv (set_end i a p) = nresv p" "length (resv (set_end i a p)) = length (resv p)"
    and "nresv (set_start i a p) = nresv p" "length (resv (set_start i a p)) = length (resv p)"
  using assms by (simp_all add: regs_def set_end_def set_start_def take_update_swap)

section \<open>Taking a range out\<close>

definition cut :: "nat \<Rightarrow> nat \<Rightarrow> resv64 \<Rightarrow> resv64 list" where
  "cut a b r = (if r_start r < min a (r_end r) then [r\<lparr>r_end := min a (r_end r)\<rparr>] else [])
             @ (if max b (r_start r) < r_end r then [r\<lparr>r_start := max b (r_start r)\<rparr>] else [])"

text \<open>A region that reaches over the range on both sides is cut in two, and one that does not touch it stays one.\<close>

definition carve :: "nat \<Rightarrow> nat \<Rightarrow> resv64 list \<Rightarrow> resv64 list" where
  "carve a b rs = concat (map (\<lambda>r. if r_end r \<le> a \<or> b \<le> r_start r then [r] else cut a b r) rs)"

lemma carve_simps [simp]:
  "carve a b [] = []" "carve a b (r # rs) = (if r_end r \<le> a \<or> b \<le> r_start r then [r] else cut a b r) @ carve a b rs"
  "carve a b (rs @ rs') = carve a b rs @ carve a b rs'"
  by (simp_all add: carve_def)

lemma carve_outside: "(\<forall>r \<in> set rs. r_end r \<le> a \<or> b \<le> r_start r) \<Longrightarrow> carve a b rs = rs"
  by (induction rs) auto

lemma carve_ok:
  assumes "a \<le> b" and "ranges_ok rs"
  shows "ranges_ok (carve a b rs)" and "ranges_at (carve a b rs) x = (if a \<le> x \<and> x < b then None else ranges_at rs x)"
proof -
  have sub: "\<forall>s \<in> set (carve a b rs). \<exists>r \<in> set rs. r_start r \<le> r_start s \<and> r_end s \<le> r_end r" for rs
    by (induction rs) (auto simp: cut_def split: if_splits)
  show "ranges_ok (carve a b rs)"
    using assms(2)
  proof (induction rs)
    case (Cons r rs)
    have r: "r_start r < r_end r" "ranges_ok rs" "\<forall>y \<in> set rs. r_end r \<le> r_start y" using Cons.prems by (auto simp: ranges_ok_Cons)
    have up: "r_end r \<le> r_start s" if "s \<in> set (carve a b rs)" for s using sub [of rs] r(3) that by fastforce
    show ?case
      using Cons.IH [OF r(2)] r(1) assms(1) by (auto simp: ranges_ok_append ranges_ok_Cons cut_def dest!: up)
  qed simp
  show "ranges_at (carve a b rs) x = (if a \<le> x \<and> x < b then None else ranges_at rs x)"
    using assms(2)
  proof (induction rs)
    case (Cons r rs)
    have r: "r_start r < r_end r" "ranges_ok rs" using Cons.prems by (auto simp: ranges_ok_Cons)
    show ?case using Cons.IH [OF r(2)] r(1) assms(1) by (auto simp: cut_def covers_def split: option.splits)
  qed simp
qed

text \<open>What the operations leave alone: everything of the process but its list, everything else but the peak.\<close>

definition same_but_list :: "proc64 \<times> ustate \<Rightarrow> proc64 \<times> ustate \<Rightarrow> bool" where
  "same_but_list x y \<longleftrightarrow> (\<exists>rs n k. y = ((fst x)\<lparr>resv := rs, nresv := n\<rparr>, (snd x)\<lparr>resv_peak := k\<rparr>))"

lemma same_but_list_refl: "same_but_list x x"
  unfolding same_but_list_def by (intro exI [of _ "resv (fst x)"] exI [of _ "nresv (fst x)"] exI [of _ "resv_peak (snd x)"]) simp

lemma same_but_list_trans: "same_but_list x y \<Longrightarrow> same_but_list y z \<Longrightarrow> same_but_list x z"
  unfolding same_but_list_def
proof (elim exE)
  fix rs n k rs' n' k'
  assume "y = ((fst x)\<lparr>resv := rs, nresv := n\<rparr>, (snd x)\<lparr>resv_peak := k\<rparr>)" "z = ((fst y)\<lparr>resv := rs', nresv := n'\<rparr>, (snd y)\<lparr>resv_peak := k'\<rparr>)"
  then have "z = ((fst x)\<lparr>resv := rs', nresv := n'\<rparr>, (snd x)\<lparr>resv_peak := k'\<rparr>)" by simp
  then show "\<exists>rs n k. z = ((fst x)\<lparr>resv := rs, nresv := n\<rparr>, (snd x)\<lparr>resv_peak := k\<rparr>)" by blast
qed

lemma same_but_list_edit: "q = p\<lparr>resv := rs, nresv := n\<rparr> \<Longrightarrow> t = s\<lparr>resv_peak := k\<rparr> \<Longrightarrow> same_but_list (p, s) (q, t)"
  unfolding same_but_list_def by auto

lemma same_but_list_edits:
  "same_but_list (p, s) (set_end i a p, s)" "same_but_list (p, s) (set_start i a p, s)" "same_but_list (p, s) (resv_delete i p, s)"
proof -
  show "same_but_list (p, s) (set_end i a p, s)" "same_but_list (p, s) (set_start i a p, s)"
    by (rule same_but_list_edit [where n = "nresv p" and k = "resv_peak s"]; simp add: set_end_def set_start_def)+
  show "same_but_list (p, s) (resv_delete i p, s)"
    by (rule same_but_list_edit [where n = "nresv p - 1" and k = "resv_peak s"]) (simp_all add: resv_delete_def)
qed

lemma starts_mono:
  assumes "ranges_ok rs" and "i \<le> j" and "j < length rs"
  shows "r_start (rs ! i) \<le> r_start (rs ! j)"
proof (cases "i = j")
  case False
  then have "r_end (rs ! i) \<le> r_start (rs ! j)" "r_start (rs ! i) < r_end (rs ! i)"
    using assms unfolding ranges_ok_def sorted_wrt_iff_nth_less by auto
  then show ?thesis by simp
qed simp

lemma shorten_spec:
  assumes "resv_ok p" and "i < nresv p" and "r_start (regs p ! i) < a" and "a < r_end (regs p ! i)"
  shows "regs (set_end i a p) = take i (regs p) @ (regs p ! i)\<lparr>r_end := a\<rparr> # drop (Suc i) (regs p)" and "resv_ok (set_end i a p)"
proof -
  note D = resv_okD [OF assms(1)] and se = regs_set(1,3,4) [OF assms(2), of a]
  show e: "regs (set_end i a p) = take i (regs p) @ (regs p ! i)\<lparr>r_end := a\<rparr> # drop (Suc i) (regs p)"
    using se(1) assms(2) D(3) by (simp add: upd_conv_take_nth_drop)
  have "regs p = take i (regs p) @ regs p ! i # drop (Suc i) (regs p)" using assms(2) D(3) by (simp add: id_take_nth_drop)
  then have "ranges_ok (take i (regs p) @ regs p ! i # drop (Suc i) (regs p))" using D(4) by simp
  then have "ranges_ok (regs (set_end i a p))"
    unfolding e ranges_ok_append ranges_ok_Cons using assms(3,4) by fastforce
  then show "resv_ok (set_end i a p)" using se(2,3) D(1,2) by (simp add: resv_ok_def PROC64_RESV_MAX_def)
qed

text \<open>The result of the loop from index \<open>i\<close> on.\<close>

definition removed :: "nat \<Rightarrow> nat \<Rightarrow> nat \<Rightarrow> proc64 \<Rightarrow> ustate \<Rightarrow> bool" where
  "removed a b i p s \<longleftrightarrow> (\<exists>p' s'. remove_loop a b i (p, s) = Some (p', s') \<and> resv_ok p' \<and> regs p' = carve a b (regs p)
     \<and> nresv p' \<le> Suc (nresv p) \<and> same_but_list (p, s) (p', s'))"

lemma removedI:
  "remove_loop a b i (p, s) = Some (p', s') \<Longrightarrow> resv_ok p' \<Longrightarrow> regs p' = carve a b (regs p) \<Longrightarrow> nresv p' \<le> Suc (nresv p) \<Longrightarrow>
     same_but_list (p, s) (p', s') \<Longrightarrow> removed a b i p s"
  unfolding removed_def by blast

lemma carve_before: "\<forall>j < i. r_end (rs ! j) \<le> a \<Longrightarrow> carve a b (take i rs) = take i rs"
  by (intro carve_outside) (auto simp: in_set_conv_nth)

lemma region_split:
  assumes "resv_ok p" and "i < nresv p" and "\<forall>j < i. r_end (regs p ! j) \<le> a" and "a < r_end (regs p ! i)" "r_start (regs p ! i) < b"
  shows "carve a b (regs p) = take i (regs p) @ cut a b (regs p ! i) @ carve a b (drop (Suc i) (regs p))"
    and "b < r_end (regs p ! i) \<Longrightarrow> carve a b (drop (Suc i) (regs p)) = drop (Suc i) (regs p)"
    and "ranges_ok (take i (regs p) @ drop (Suc i) (regs p))"
proof -
  note D = resv_okD [OF assms(1)]
  have regs: "regs p = take i (regs p) @ regs p ! i # drop (Suc i) (regs p)" using assms(2) D(3) by (simp add: id_take_nth_drop)
  then have ok: "ranges_ok (take i (regs p) @ regs p ! i # drop (Suc i) (regs p))" using D(4) by simp
  show "carve a b (regs p) = take i (regs p) @ cut a b (regs p ! i) @ carve a b (drop (Suc i) (regs p))"
    by (subst regs) (use carve_before [OF assms(3)] assms(4,5) in simp)
  show "b < r_end (regs p ! i) \<Longrightarrow> carve a b (drop (Suc i) (regs p)) = drop (Suc i) (regs p)"
    using ok by (intro carve_outside) (fastforce simp: ranges_ok_append ranges_ok_Cons)
  show "ranges_ok (take i (regs p) @ drop (Suc i) (regs p))" using ok by (auto simp: ranges_ok_append ranges_ok_Cons)
qed

lemma remove_stop:
  assumes "resv_ok p" and "i \<le> nresv p" and "\<forall>j < i. r_end (regs p ! j) \<le> a" and stop: "\<not> (i < nresv p \<and> r_start (regs p ! i) < b)"
  shows "removed a b i p s"
proof (rule removedI)
  note D = resv_okD [OF assms(1)]
  have "carve a b (drop i (regs p)) = drop i (regs p)"
  proof (rule carve_outside, intro ballI disjI2)
    fix r
    assume "r \<in> set (drop i (regs p))"
    then obtain k where k: "k < nresv p - i" "r = drop i (regs p) ! k" using D(3) by (auto simp: in_set_conv_nth)
    then have "r_start (regs p ! i) \<le> r_start (regs p ! (i + k))" using starts_mono [OF D(4), of i "i + k"] D(3) by simp
    then show "b \<le> r_start r" using stop k D(3) by auto
  qed
  then show "regs p = carve a b (regs p)" using carve_before [OF assms(3)] carve_simps(3) [of a b "take i (regs p)" "drop i (regs p)"] by simp
  show "remove_loop a b i (p, s) = Some (p, s)" using stop D(5) [of i] by (subst remove_loop.simps) auto
qed (use assms same_but_list_refl in auto)

lemma remove_both:
  assumes "resv_ok p" and "a \<le> b" and "i < nresv p" and "nresv p < 4096" and "\<forall>j < i. r_end (regs p ! j) \<le> a"
    and r: "r_start (regs p ! i) < a" "b < r_end (regs p ! i)"
  shows "removed a b i p s"
proof -
  let ?p = "set_end i a p" and ?r = "regs p ! i"
  note D = resv_okD [OF assms(1)]
  have ab: "a < r_end ?r" "r_start ?r < b" using r assms(2) by simp_all
  note se = regs_set(3,4) [OF assms(3), of a] and sh = shorten_spec [OF assms(1,3) r(1) ab(1)] and sp = region_split [OF assms(1,3,5) ab]
  have len: "length (take i (regs p)) = i" using assms(3) D(3) by simp
  obtain p' s' where ins: "resv_insert (i + 1) b (r_end ?r) (r_flags ?r) (?p, s) = (True, p', s')"
    "regs p' = take (i + 1) (regs ?p) @ \<lparr>r_start = b, r_end = r_end ?r, r_flags = r_flags ?r\<rparr> # drop (i + 1) (regs ?p)"
    "nresv p' = Suc (nresv ?p)" "length (resv p') = length (resv ?p)" "p' = ?p\<lparr>resv := resv p', nresv := nresv p'\<rparr>" "s' = s\<lparr>resv_peak := resv_peak s'\<rparr>"
    using regs_insert [OF sh(2), of "i + 1" b "r_end ?r" "r_flags ?r" s] assms(3,4) se by auto
  have "\<lparr>r_start = b, r_end = r_end ?r, r_flags = r_flags ?r\<rparr> = ?r\<lparr>r_start := b\<rparr>" by simp
  then have c: "regs p' = carve a b (regs p)"
    unfolding ins(2) sh(1) sp(1) sp(2) [OF r(2)] using r assms(2) len by (simp add: cut_def)
  show ?thesis
  proof (rule removedI [OF _ _ c])
    show "remove_loop a b i (p, s) = Some (p', s')"
      using assms(3) r ab ins(1) D(5) [OF assms(3)] by (subst remove_loop.simps) (simp add: Let_def)
    show "resv_ok p'" using c carve_ok(1) [OF assms(2) D(4)] ins(3,4) D(1) assms(4) se by (simp add: resv_ok_def PROC64_RESV_MAX_def)
    show "same_but_list (p, s) (p', s')" by (rule same_but_list_trans [OF same_but_list_edits(1) same_but_list_edit [OF ins(5,6)]])
  qed (use ins(3) se in simp)
qed

lemma remove_high:
  assumes "resv_ok p" and "a \<le> b" and "i < nresv p" and "nresv p < 4096" and "\<forall>j < i. r_end (regs p ! j) \<le> a"
    and r: "\<not> r_start (regs p ! i) < a" "b < r_end (regs p ! i)" "r_start (regs p ! i) < b"
  shows "removed a b i p s"
proof -
  note D = resv_okD [OF assms(1)] and se = regs_set(2,5,6) [OF assms(3), of b]
  have "a < r_end (regs p ! i)" using r assms(2) by simp
  note sp = region_split [OF assms(1,3,5) this r(3)]
  have "regs (set_start i b p) = take i (regs p) @ (regs p ! i)\<lparr>r_start := b\<rparr> # drop (Suc i) (regs p)"
    using se(1) assms(3) D(3) by (simp add: upd_conv_take_nth_drop)
  then have c: "regs (set_start i b p) = carve a b (regs p)" unfolding sp(1) sp(2) [OF r(2)] using r by (simp add: cut_def)
  show ?thesis
  proof (rule removedI [OF _ _ c])
    show "remove_loop a b i (p, s) = Some (set_start i b p, s)" using assms(3) r D(5) [OF assms(3)] by (subst remove_loop.simps) (simp add: Let_def)
    show "resv_ok (set_start i b p)" using c carve_ok(1) [OF assms(2) D(4)] D(1) assms(4) se by (simp add: resv_ok_def PROC64_RESV_MAX_def)
  qed (use se same_but_list_edits(2) in auto)
qed

lemma remove_loop_spec:
  assumes "resv_ok p" and "a \<le> b" and "i \<le> nresv p" and "nresv p < 4096"
    and "\<forall>j < i. r_end (regs p ! j) \<le> a" and "\<forall>j. i \<le> j \<longrightarrow> j < nresv p \<longrightarrow> a < r_end (regs p ! j)"
  shows "removed a b i p s"
  using assms
proof (induction "nresv p - i" arbitrary: p i rule: less_induct)
  case less
  note D = resv_okD [OF less.prems(1)]
  let ?r = "regs p ! i"
  show ?case
  proof (cases "i < nresv p \<and> r_start ?r < b")
    case False
    then show ?thesis by (rule remove_stop [OF less.prems(1,3,5)])
  next
    case True
    then have i: "i < nresv p" and r: "a < r_end ?r" "r_start ?r < b" "resv p ! i = ?r" using less.prems(6) D(5) by auto
    note sp = region_split [OF less.prems(1) i less.prems(5) r(1,2)] and before = carve_before [OF less.prems(5)]
    consider (both) "r_start ?r < a" "b < r_end ?r" | (low) "r_start ?r < a" "\<not> b < r_end ?r" | (high) "\<not> r_start ?r < a" "b < r_end ?r"
      | (inside) "\<not> r_start ?r < a" "\<not> b < r_end ?r" by blast
    then show ?thesis
    proof cases
      case low
      let ?p = "set_end i a p"
      note se = regs_set(1,3,4) [OF i, of a] and sh = shorten_spec [OF less.prems(1) i low(1) r(1)]
      have c: "carve a b (regs ?p) = carve a b (regs p)" unfolding sh(1) sp(1) using before low r by (simp add: cut_def)
      have "removed a b (i + 1) ?p s"
        using i less.prems(2,4-6) se sh(2) D(3) by (intro less.hyps) (auto simp: nth_list_update less_Suc_eq)
      moreover have "remove_loop a b i (p, s) = remove_loop a b (i + 1) (?p, s)" using True r low by (subst remove_loop.simps) (simp add: Let_def)
      ultimately show ?thesis using c se same_but_list_trans [OF same_but_list_edits(1)] unfolding removed_def by fastforce
    next
      case inside
      let ?p = "resv_delete i p"
      have "nresv p \<le> length (resv p)" using D(1,2) by simp
      note de = regs_delete [OF this i]
      have okp: "resv_ok ?p" using less.prems(1,4) de sp(3) unfolding resv_ok_def de(1) by auto
      have c: "carve a b (regs ?p) = carve a b (regs p)" unfolding de(1) sp(1) using before inside r by (simp add: cut_def)
      have "removed a b i ?p s"
        using i less.prems(2,4-6) okp de D(3) by (intro less.hyps) (auto simp: nth_append)
      moreover have "remove_loop a b i (p, s) = remove_loop a b i (?p, s)" using True r inside by (subst remove_loop.simps) (simp add: Let_def)
      ultimately show ?thesis using c de(2) same_but_list_trans [OF same_but_list_edits(3)] unfolding removed_def by fastforce
    qed (use remove_both remove_high less.prems i r in blast)+
  qed
qed

lemma resv_remove_spec:
  assumes "resv_ok p" and "a \<le> b" and "nresv p < 4096"
  shows "\<exists>p' s'. resv_remove a b (p, s) = Some (p', s') \<and> resv_ok p' \<and> nresv p' \<le> Suc (nresv p) \<and> same_but_list (p, s) (p', s')
     \<and> resv_at p' = (\<lambda>x. if a \<le> x \<and> x < b then None else resv_at p x)"
proof -
  have "removed a b (resv_first_after a p) p s"
    using first_after_spec [OF assms(1)] by (intro remove_loop_spec assms) auto
  then show ?thesis
    using carve_ok(2) [OF assms(2) resv_okD(4) [OF assms(1)]] by (auto simp: removed_def resv_remove_def resv_at_def fun_eq_iff)
qed

section \<open>Recording a range\<close>

lemma ranges_at_Some:
  assumes "ranges_ok rs"
  shows "ranges_at rs x = Some f \<longleftrightarrow> (\<exists>r \<in> set rs. covers x r \<and> r_flags r = f)"
  using assms
proof (induction rs)
  case (Cons r rs)
  have "\<not> covers x q" if "covers x r" "q \<in> set rs" for q
    using Cons.prems that by (fastforce simp: ranges_ok_Cons covers_def)
  then show ?case using Cons.IH Cons.prems by (auto simp: ranges_ok_Cons)
qed simp

text \<open>A range between the regions before and after it, joined to the neighbours it touches or standing alone.\<close>

definition added :: "nat \<Rightarrow> nat \<Rightarrow> u64 \<Rightarrow> resv64 list \<Rightarrow> resv64 list \<Rightarrow> resv64 list \<Rightarrow> bool" where
  "added a b fl L R rs \<longleftrightarrow> rs = L @ \<lparr>r_start = a, r_end = b, r_flags = fl\<rparr> # R
       \<or> (\<exists>L' l. L = L' @ [l] \<and> r_end l = a \<and> r_flags l = fl \<and> rs = L' @ l\<lparr>r_end := b\<rparr> # R)
       \<or> (\<exists>r R'. R = r # R' \<and> r_start r = b \<and> r_flags r = fl \<and> rs = L @ r\<lparr>r_start := a\<rparr> # R')
       \<or> (\<exists>L' l r R'. L = L' @ [l] \<and> R = r # R' \<and> r_end l = a \<and> r_start r = b \<and> r_flags l = fl \<and> r_flags r = fl
            \<and> rs = L' @ l\<lparr>r_end := r_end r\<rparr> # R')"

lemma add_between:
  assumes "a < b" and "ranges_ok (L @ R)" and "\<forall>r \<in> set L. r_end r \<le> a" and "\<forall>r \<in> set R. b \<le> r_start r"
    and "added a b fl L R rs"
  shows "ranges_ok rs" and "ranges_at rs x = (if a \<le> x \<and> x < b then Some fl else ranges_at (L @ R) x)"
proof -
  show ok: "ranges_ok rs" using assms unfolding added_def by (elim disjE exE conjE) (fastforce simp: ranges_ok_append ranges_ok_Cons)+
  have "ranges_at rs x = Some f \<longleftrightarrow> (if a \<le> x \<and> x < b then Some fl else ranges_at (L @ R) x) = Some f" for f
  proof -
    have "(\<exists>r \<in> set rs. covers x r \<and> r_flags r = f) \<longleftrightarrow> (a \<le> x \<and> x < b \<and> f = fl) \<or> (\<exists>r \<in> set (L @ R). covers x r \<and> r_flags r = f)"
      using assms(5) unfolding added_def
    proof (elim disjE exE conjE)
      assume "rs = L @ \<lparr>r_start = a, r_end = b, r_flags = fl\<rparr> # R"
      then show ?thesis by (auto simp: covers_def)
    next
      fix L' l
      assume l: "L = L' @ [l]" "r_end l = a" "r_flags l = fl" "rs = L' @ l\<lparr>r_end := b\<rparr> # R"
      then have "r_start l < a" using assms(2) by (simp add: ranges_ok_append ranges_ok_Cons)
      then show ?thesis using l assms(1) by (auto simp: covers_def)
    next
      fix r R'
      assume r: "R = r # R'" "r_start r = b" "r_flags r = fl" "rs = L @ r\<lparr>r_start := a\<rparr> # R'"
      then have "b < r_end r" using assms(2) by (simp add: ranges_ok_append ranges_ok_Cons)
      then show ?thesis using r assms(1) by (auto simp: covers_def)
    next
      fix L' l r R'
      assume lr: "L = L' @ [l]" "R = r # R'" "r_end l = a" "r_start r = b" "r_flags l = fl" "r_flags r = fl" "rs = L' @ l\<lparr>r_end := r_end r\<rparr> # R'"
      then have "r_start l < a" "b < r_end r" using assms(2) by (auto simp: ranges_ok_append ranges_ok_Cons)
      then show ?thesis using lr assms(1) by (auto simp: covers_def)
    qed
    moreover have "\<not> covers x r" if "r \<in> set (L @ R)" "a \<le> x" "x < b" for r using assms(3,4) that by (auto simp: covers_def)
    ultimately show ?thesis using ranges_at_Some [OF ok] ranges_at_Some [OF assms(2)] by auto
  qed
  then show "ranges_at rs x = (if a \<le> x \<and> x < b then Some fl else ranges_at (L @ R) x)"
    by (metis not_Some_eq)
qed

lemma add_place:
  assumes ok: "resv_ok p" and "a < b" and free: "\<forall>x. a \<le> x \<longrightarrow> x < b \<longrightarrow> resv_at p x = None" and "i = resv_first_after a p"
  shows "i \<le> nresv p" and "\<forall>r \<in> set (take i (regs p)). r_end r \<le> a" and "\<forall>r \<in> set (drop i (regs p)). b \<le> r_start r"
proof -
  note D = resv_okD [OF ok] and fa = first_after_spec [OF ok, where va = a, folded assms(4)]
  show "i \<le> nresv p" by (rule fa(1))
  show "\<forall>r \<in> set (take i (regs p)). r_end r \<le> a" using fa(2) D(3) by (auto simp: in_set_conv_nth)
  show "\<forall>r \<in> set (drop i (regs p)). b \<le> r_start r"
  proof
    fix r
    assume r: "r \<in> set (drop i (regs p))"
    then have "a < r_end r" using fa(3) D(3) by (auto simp: in_set_conv_nth)
    moreover have "r_start r < r_end r" "r \<in> set (regs p)" using r D(4) in_set_dropD [OF r] by (auto simp: ranges_ok_def)
    moreover have "\<not> covers (max a (r_start r)) r" if "r_start r < b"
      using free [rule_format, of "max a (r_start r)"] that assms(2) \<open>r \<in> set (regs p)\<close> by (auto simp: resv_at_def ranges_at_None)
    ultimately show "b \<le> r_start r" by (cases "r_start r < b") (auto simp: covers_def)
  qed
qed

definition joins_prev :: "proc64 \<Rightarrow> nat \<Rightarrow> u64 \<Rightarrow> nat \<Rightarrow> bool" where
  "joins_prev p a fl i \<longleftrightarrow> i > 0 \<and> r_end (regs p ! (i - 1)) = a \<and> r_flags (regs p ! (i - 1)) = fl"

definition joins_next :: "proc64 \<Rightarrow> nat \<Rightarrow> u64 \<Rightarrow> nat \<Rightarrow> bool" where
  "joins_next p b fl i \<longleftrightarrow> i < nresv p \<and> r_start (regs p ! i) = b \<and> r_flags (regs p ! i) = fl"

lemma resv_add_cases:
  assumes "resv_ok p" and "i = resv_first_after a p"
  shows "resv_add a b fl (p, s) =
     (if joins_prev p a fl i \<and> joins_next p b fl i then Some (True, resv_delete i (set_end (i - 1) (r_end (regs p ! i)) p), s)
      else if joins_prev p a fl i then Some (True, set_end (i - 1) b p, s)
      else if joins_next p b fl i then Some (True, set_start i a p, s)
      else (let (ok, p, s) = resv_insert i a b fl (p, s)
            in if ok then Some (True, p, s) else do { (ok, s) \<leftarrow> spill_range a b fl s; Some (ok, p, s) }))"
proof -
  note D = resv_okD [OF assms(1)] and fa = first_after_spec(1) [OF assms(1), of a, folded assms(2)]
  have at: "i > 0 \<Longrightarrow> resv p ! (i - 1) = regs p ! (i - 1)" "i < nresv p \<Longrightarrow> resv p ! i = regs p ! i" using D(5) fa by auto
  have "joins_prev p a fl i \<longleftrightarrow> i > 0 \<and> r_end (resv p ! (i - 1)) = a \<and> r_flags (resv p ! (i - 1)) = fl"
    "joins_next p b fl i \<longleftrightarrow> i < nresv p \<and> r_start (resv p ! i) = b \<and> r_flags (resv p ! i) = fl"
    "joins_next p b fl i \<Longrightarrow> resv p ! i = regs p ! i"
    using at by (auto simp: joins_prev_def joins_next_def)
  then show ?thesis by (simp only: resv_add_def Let_def prod.case flip: assms(2)) simp
qed

lemma resv_add_spec:
  assumes ok: "resv_ok p" and "a < b" and "nresv p < 4096" and free: "\<forall>x. a \<le> x \<longrightarrow> x < b \<longrightarrow> resv_at p x = None"
  shows "\<exists>p' s'. resv_add a b fl (p, s) = Some (True, p', s') \<and> resv_ok p' \<and> nresv p' \<le> Suc (nresv p) \<and> same_but_list (p, s) (p', s')
     \<and> resv_at p' = (\<lambda>x. if a \<le> x \<and> x < b then Some fl else resv_at p x)"
proof -
  note D = resv_okD [OF ok]
  define i where "i = resv_first_after a p"
  note fa = add_place [OF ok assms(2) free i_def] and unfold = resv_add_cases [OF ok i_def, of b fl s]
  let ?L = "take i (regs p)" and ?R = "drop i (regs p)"
  have ranges: "ranges_ok (?L @ ?R)" using D(4) by simp
  let ?jp = "joins_prev p a fl i" and ?jn = "joins_next p b fl i"
  have l: "?L = take (i - 1) (regs p) @ [regs p ! (i - 1)]" if ?jp
  proof -
    have "i - 1 < length (regs p)" "Suc (i - 1) = i" using that fa(1) D(3) by (auto simp: joins_prev_def)
    then show ?thesis using take_Suc_conv_app_nth [of "i - 1" "regs p"] by simp
  qed
  have r: "?R = regs p ! i # drop (Suc i) (regs p)" if ?jn using that D(3) by (simp add: joins_next_def Cons_nth_drop_Suc)
  note betw = add_between [OF assms(2) ranges fa(2,3)]
  have good: ?thesis if "resv_add a b fl (p, s) = Some (True, p', s')" "length (resv p') = 4096" "nresv p' \<le> Suc (nresv p)"
    "same_but_list (p, s) (p', s')" and rs: "added a b fl ?L ?R (regs p')" for p' s'
    using that betw [OF rs] assms(3) by (intro exI [of _ p'] exI [of _ s']) (simp add: resv_ok_def PROC64_RESV_MAX_def resv_at_def fun_eq_iff)
  have len: "nresv p \<le> length (resv p)" using D(1,2) by simp
  consider (both) "?jp" "?jn" | (prev) "?jp" "\<not> ?jn" | (nxt) "\<not> ?jp" "?jn" | (alone) "\<not> ?jp" "\<not> ?jn" by blast
  then show ?thesis
  proof cases
    case both
    have i: "i - 1 < nresv p" "i < nresv p" "0 < i" using both by (auto simp: joins_prev_def joins_next_def)
    let ?e = "r_end (regs p ! i)"
    let ?p = "set_end (i - 1) ?e p"
    note se = regs_set(1,3,4) [OF i(1), of ?e] and de = regs_delete [of ?p i]
    have "regs (resv_delete i ?p) = take (i - 1) (regs p) @ (regs p ! (i - 1))\<lparr>r_end := ?e\<rparr> # drop (Suc i) (regs p)"
      using de(1) se len i D(3) l [OF both(1)] by (simp add: take_update_swap list_update_append)
    then have ad: "added a b fl ?L ?R (regs (resv_delete i ?p))" unfolding added_def using l [OF both(1)] r [OF both(2)] both by (auto simp: joins_prev_def joins_next_def)
    show ?thesis
    proof (rule good [OF _ _ _ _ ad])
      show "resv_add a b fl (p, s) = Some (True, resv_delete i ?p, s)" using both by (simp add: unfold)
      show "length (resv (resv_delete i ?p)) = 4096" "nresv (resv_delete i ?p) \<le> Suc (nresv p)" using de(2,3) se len i D(1) by simp_all
      show "same_but_list (p, s) (resv_delete i ?p, s)" by (rule same_but_list_trans [OF same_but_list_edits(1,3)])
    qed
  next
    case prev
    have i: "i - 1 < nresv p" "0 < i" using prev fa(1) by (auto simp: joins_prev_def)
    note se = regs_set(1,3,4) [OF i(1), of b]
    have "regs (set_end (i - 1) b p) = take (i - 1) (regs p) @ (regs p ! (i - 1))\<lparr>r_end := b\<rparr> # ?R"
      using se i D(3) by (simp add: upd_conv_take_nth_drop)
    then have ad: "added a b fl ?L ?R (regs (set_end (i - 1) b p))" unfolding added_def using l [OF prev(1)] prev by (auto simp: joins_prev_def)
    show ?thesis
    proof (rule good [OF _ _ _ same_but_list_edits(1) ad])
      show "resv_add a b fl (p, s) = Some (True, set_end (i - 1) b p, s)" using prev by (simp add: unfold)
    qed (use se(2,3) D(1) in simp_all)
  next
    case nxt
    have i: "i < nresv p" using nxt by (simp add: joins_next_def)
    note se = regs_set(2,5,6) [OF i, of a]
    have "regs (set_start i a p) = ?L @ (regs p ! i)\<lparr>r_start := a\<rparr> # drop (Suc i) (regs p)" using se i D(3) by (simp add: upd_conv_take_nth_drop)
    then have ad: "added a b fl ?L ?R (regs (set_start i a p))" unfolding added_def using r [OF nxt(2)] nxt by (auto simp: joins_next_def)
    show ?thesis
    proof (rule good [OF _ _ _ same_but_list_edits(2) ad])
      show "resv_add a b fl (p, s) = Some (True, set_start i a p, s)" using nxt by (simp add: unfold)
    qed (use se(2,3) D(1) in simp_all)
  next
    case alone
    obtain p' s' where ins: "resv_insert i a b fl (p, s) = (True, p', s')" "regs p' = ?L @ \<lparr>r_start = a, r_end = b, r_flags = fl\<rparr> # ?R"
      "nresv p' = Suc (nresv p)" "length (resv p') = length (resv p)" "p' = p\<lparr>resv := resv p', nresv := nresv p'\<rparr>" "s' = s\<lparr>resv_peak := resv_peak s'\<rparr>"
      using regs_insert [OF ok fa(1) assms(3), of a b fl s] by blast
    then have ad: "added a b fl ?L ?R (regs p')" by (simp add: added_def)
    show ?thesis
    proof (rule good [OF _ _ _ same_but_list_edit [OF ins(5,6)] ad])
      show "resv_add a b fl (p, s) = Some (True, p', s')" using alone ins(1) by (simp add: unfold)
    qed (use ins(3,4) D(1) in simp_all)
  qed
qed

section \<open>Looking up\<close>

lemma first_after_covers:
  assumes ok: "resv_ok p" and "i = resv_first_after va p"
  shows "resv_at p va = (if i < nresv p \<and> r_start (resv p ! i) \<le> va then Some (r_flags (resv p ! i)) else None)"
proof -
  note D = resv_okD [OF ok] and fa = first_after_spec [OF ok, where va = va, folded assms(2)]
  show ?thesis
  proof (cases "i < nresv p \<and> r_start (resv p ! i) \<le> va")
    case True
    then have "covers va (regs p ! i)" "regs p ! i \<in> set (regs p)" "resv p ! i = regs p ! i" using fa(3) [of i] D(3,5) by (auto simp: covers_def)
    then show ?thesis using True ranges_at_Some [OF D(4), of va] by (auto simp: resv_at_def)
  next
    case False
    have "\<not> covers va (regs p ! j)" if "j < nresv p" for j
    proof (cases "j < i")
      case True
      then show ?thesis using fa(2) [OF True] by (simp add: covers_def)
    next
      case ge: False
      then have "r_start (regs p ! i) \<le> r_start (regs p ! j)" "\<not> r_start (regs p ! i) \<le> va"
        using starts_mono [OF D(4), of i j] that D(3,5) False by auto
      then show ?thesis by (simp add: covers_def)
    qed
    then show ?thesis using False D(3) by (auto simp: resv_at_def ranges_at_None in_set_conv_nth)
  qed
qed

lemma overlaps_iff:
  assumes ok: "resv_ok p" and "a < b"
  shows "resv_overlaps a b p \<longleftrightarrow> (\<exists>x. a \<le> x \<and> x < b \<and> resv_at p x \<noteq> None)"
proof -
  define i where "i = resv_first_after a p"
  note D = resv_okD [OF ok] and fa = first_after_spec [OF ok, where va = a, folded i_def]
  have "i < nresv p \<and> r_start (resv p ! i) < b \<longleftrightarrow> (\<exists>x. a \<le> x \<and> x < b \<and> resv_at p x \<noteq> None)"
  proof
    assume i: "i < nresv p \<and> r_start (resv p ! i) < b"
    let ?r = "regs p ! i"
    have "r_start ?r < r_end ?r" "a < r_end ?r" "?r \<in> set (regs p)" "resv p ! i = ?r" using i fa(3) D(3,4,5) by (auto simp: ranges_ok_def)
    then have "covers (max a (r_start ?r)) ?r" "max a (r_start ?r) < b" using i assms(2) by (auto simp: covers_def)
    then show "\<exists>x. a \<le> x \<and> x < b \<and> resv_at p x \<noteq> None"
      using \<open>?r \<in> set (regs p)\<close> by (intro exI [of _ "max a (r_start ?r)"]) (auto simp: resv_at_def ranges_at_None)
  next
    assume "\<exists>x. a \<le> x \<and> x < b \<and> resv_at p x \<noteq> None"
    then obtain x j where x: "a \<le> x" "x < b" "j < nresv p" "covers x (regs p ! j)" using D(3) by (auto simp: resv_at_def ranges_at_None in_set_conv_nth)
    then have "i \<le> j" using fa(2) [of j] by (auto simp: covers_def not_less [symmetric])
    then have "r_start (regs p ! i) \<le> r_start (regs p ! j)" using starts_mono [OF D(4)] x D(3) by simp
    then show "i < nresv p \<and> r_start (resv p ! i) < b" using x \<open>i \<le> j\<close> D(5) [of i] by (auto simp: covers_def)
  qed
  then show ?thesis by (simp add: resv_overlaps_def Let_def flip: i_def)
qed

section \<open>The list as an implementation of a map from ranges\<close>

locale range_map =
  fixes inv :: "'s \<Rightarrow> bool" and room :: "nat \<Rightarrow> 's \<Rightarrow> bool" and at :: "'s \<Rightarrow> nat \<Rightarrow> u64 option"
    and remove :: "nat \<Rightarrow> nat \<Rightarrow> 's \<Rightarrow> 's option" and add :: "nat \<Rightarrow> nat \<Rightarrow> u64 \<Rightarrow> 's \<Rightarrow> (bool \<times> 's) option"
  assumes remove: "inv s \<Longrightarrow> room (Suc k) s \<Longrightarrow> a \<le> b \<Longrightarrow>
      \<exists>t. remove a b s = Some t \<and> inv t \<and> room k t \<and> at t = (\<lambda>x. if a \<le> x \<and> x < b then None else at s x)"
    and add: "inv s \<Longrightarrow> room (Suc k) s \<Longrightarrow> a < b \<Longrightarrow> \<forall>x. a \<le> x \<longrightarrow> x < b \<longrightarrow> at s x = None \<Longrightarrow>
      \<exists>t. add a b f s = Some (True, t) \<and> inv t \<and> room k t \<and> at t = (\<lambda>x. if a \<le> x \<and> x < b then Some f else at s x)"
begin

text \<open>Mapping over whatever is there: the old claims on the range go, the new one takes their place.\<close>

lemma replace:
  assumes "inv s" and "room (Suc (Suc k)) s" and "a < b"
  shows "\<exists>t u. remove a b s = Some t \<and> add a b f t = Some (True, u) \<and> inv u \<and> room k u
     \<and> at t = (\<lambda>x. if a \<le> x \<and> x < b then None else at s x) \<and> at u = (\<lambda>x. if a \<le> x \<and> x < b then Some f else at s x)"
proof -
  obtain t where t: "remove a b s = Some t" "inv t" "room (Suc k) t" "at t = (\<lambda>x. if a \<le> x \<and> x < b then None else at s x)"
    using remove [OF assms(1,2)] assms(3) by (meson less_imp_le)
  then obtain u where "add a b f t = Some (True, u)" "inv u" "room k u" "at u = (\<lambda>x. if a \<le> x \<and> x < b then Some f else at t x)"
    using add [OF t(2,3) assms(3), of f] by auto
  then show ?thesis using t by (auto simp: fun_eq_iff)
qed

text \<open>A claim that is made and given back leaves no trace.\<close>

lemma give_back:
  assumes "inv s" and "room (Suc (Suc k)) s" and "a < b" and "\<forall>x. a \<le> x \<longrightarrow> x < b \<longrightarrow> at s x = None"
  shows "\<exists>t u. add a b f s = Some (True, t) \<and> remove a b t = Some u \<and> inv u \<and> room k u \<and> at u = at s"
proof -
  obtain t where t: "add a b f s = Some (True, t)" "inv t" "room (Suc k) t" "at t = (\<lambda>x. if a \<le> x \<and> x < b then Some f else at s x)"
    using add [OF assms, of f] by blast
  then obtain u where "remove a b t = Some u" "inv u" "room k u" "at u = (\<lambda>x. if a \<le> x \<and> x < b then None else at t x)"
    using remove [OF t(2,3), of a b] assms(3) by (meson less_imp_le)
  then show ?thesis using t assms(4) by (auto simp: fun_eq_iff)
qed

end

definition reservations :: "proc64 \<times> ustate \<Rightarrow> proc64 \<times> ustate \<Rightarrow> bool" where
  "reservations x y \<longleftrightarrow> resv_ok (fst y) \<and> same_but_list x y"

interpretation resv: range_map "reservations x" "\<lambda>k y. nresv (fst y) + k \<le> 4096" "\<lambda>y. resv_at (fst y)" resv_remove resv_add
proof (unfold_locales, goal_cases)
  case (1 y k a b)
  obtain p s where y: "y = (p, s)" by (cases y)
  have p: "resv_ok p" "nresv p < 4096" "same_but_list x (p, s)" using 1 by (auto simp: y reservations_def)
  show ?case
    using resv_remove_spec [OF p(1) 1(3) p(2), of s] 1(2) same_but_list_trans [OF p(3)] by (fastforce simp: y reservations_def)
next
  case (2 y k a b f)
  obtain p s where y: "y = (p, s)" by (cases y)
  have p: "resv_ok p" "nresv p < 4096" "same_but_list x (p, s)" using 2 by (auto simp: y reservations_def)
  show ?case
    using resv_add_spec [OF p(1) 2(3) p(2), of f s] 2(2,4) same_but_list_trans [OF p(3)] by (fastforce simp: y reservations_def)
qed

section \<open>Backing a page\<close>

lemma back_page_spec:
  assumes u: "user_pages P A (umach s)" and q: "q \<in> P" "A q = None" and fl: "flags AND ADDR_MASK = 0"
  shows "\<exists>ok s'. back_page (q * 4096) flags s = Some (ok, s') \<and> cr3 (umach s') = cr3 (umach s) \<and> table s' = table s
     \<and> (ok \<longrightarrow> user_pages P (A(q \<mapsto> (\<lambda>_. 0))) (umach s') \<and> pages_allocated s' = add64 (pages_allocated s) 1)
     \<and> (pmm64_free_frames (pmm (umach s)) < USER_RESERVE \<longrightarrow> \<not> ok \<and> pages_allocated s' = pages_allocated s)"
proof -
  let ?m = "umach s"
  obtain fr Q where al: "pmm64_alloc_user (pmm ?m) = (fr, Q)" by (cases "pmm64_alloc_user (pmm ?m)")
  have live: "pmm_live (pmm ?m)" "ready (pmm ?m)" "frame_count (pmm ?m) \<le> 2 ^ 40"
    using user_pagesD(1) [OF u] by (simp_all add: paging_inv_def)
  note o = alloc_user_owners [OF live al]
  show ?thesis
  proof (cases "fr = 0")
    case True
    then show ?thesis using al o(2) by (intro exI [of _ False]) (simp add: back_page_def)
  next
    case False
    then obtain g where g: "fr = g * 4096" "g < 2 ^ 40" "owners (pmm ?m) g = 0" "owners Q = (owners (pmm ?m))(g := 1)" using o(4) by blast
    let ?n = "clear_frame g (?m\<lparr>pmm := Q\<rparr>)"
    have n: "cr3 ?n = cr3 ?m" "\<forall>h. h \<noteq> g \<longrightarrow> mem ?n h = mem ?m h" "pmm ?n = Q" by (simp_all add: clear_frame_spec)
    obtain rc k where k: "paging64_map (page q) (page g) flags ?n = Some (rc, k)" "cr3 k = cr3 ?m"
      "rc = PAGING64_OK \<Longrightarrow> user_pages P (A(q \<mapsto> peek ?n g)) k \<and> data_frame_of k q g"
      using user_pages_give [OF u q fl _ _ _ g(2,3) _ n(1,2)] g(4) o(1) live(3) n(3) by (metis page_def)
    have "user_pages P (A(q \<mapsto> (\<lambda>_. 0))) k" if "rc = PAGING64_OK"
    proof -
      have up: "user_pages P (A(q \<mapsto> peek ?n g)) k" and d: "data_frame_of k q g" using k(3) [OF that] by simp_all
      have "peek k g j = 0" if "j < 4096" for j
        using user_pagesD(5) [OF up, of q "peek ?n g"] d that clear_frame_spec(4) [of j g] by (auto simp: data_frame_of_def)
      then show ?thesis using user_pages_write(1) [OF up _ d, of "peek ?n g" k "\<lambda>_. 0"] by simp
    qed
    then show ?thesis using al False o(2) k by (cases "rc = PAGING64_OK") (auto simp: back_page_def g(1))
  qed
qed

section \<open>Finding a free range\<close>

lemma unat_user: "a \<le> 2 ^ 47 \<Longrightarrow> unat (of_nat a :: u64) = a"
  by (simp only: unsigned_of_nat) (simp add: take_bit_nat_eq_self)

lemma next_mapped_nat:
  assumes "paging_inv m" and "a \<le> 2 ^ 47" "e \<le> 2 ^ 47" and "a mod 4096 = 0"
  shows "\<exists>v. vmspace64_next_mapped (of_nat a) (of_nat e) m = Some (of_nat v) \<and> v \<le> 2 ^ 47
     \<and> (v = e \<or> a \<le> v \<and> v < e \<and> v mod 4096 = 0 \<and> mmu_frame m (of_nat v) \<noteq> None)
     \<and> (\<forall>x. a \<le> x \<and> x < v \<and> x < e \<longrightarrow> mmu_frame m (of_nat x) = None)"
proof -
  note ua = unat_user [OF assms(2)] and ue = unat_user [OF assms(3)]
  have nh: "\<forall>i < 512. \<not> (bit (mem m (root m) i) 0 \<and> bit (mem m (root m) i) 7)" using assms(1) by (simp add: paging_inv_def)
  have tb: "unat (take_bit 12 w) = unat w mod 4096" for w :: u64 unfolding unsigned_take_bit_eq by (simp add: take_bit_eq_mod)
  have t0: "take_bit 12 (of_nat a :: u64) = 0" using tb [of "of_nat a"] ua assms(4) by (simp only: unsigned_eq_0_iff)
  have p: "PAGE64_SIZE - 1 = mask 12" by (simp add: PAGE64_SIZE_def mask_eq_exp_minus_1)
  have al: "(of_nat a :: u64) AND NOT (PAGE64_SIZE - 1) = of_nat a"
  proof (rule bit_word_eqI)
    fix n :: nat
    have "\<not> bit (of_nat a :: u64) n" if "n < 12" using that t0 by (metis bit_0_eq bit_take_bit_iff bot_fun_def bot_bool_def)
    then show "bit ((of_nat a :: u64) AND NOT (PAGE64_SIZE - 1)) n = bit (of_nat a :: u64) n" if "n < LENGTH(64)"
      unfolding p using that by (auto simp: bit_simps simp del: mask_numeral)
  qed
  obtain r where r: "vmspace64_next_mapped (of_nat a) (of_nat e) m = Some r" "found_from m (of_nat a) (of_nat e) r"
    using next_loop_found [OF nh, of "of_nat e" "of_nat a"] ue assms(3) t0 unfolding vmspace64_next_mapped_def al by auto
  have le: "unat r \<le> 2 ^ 47" using r(2) ue assms(3) unfolding found_from_def word_less_nat_alt by auto
  have r': "r = of_nat (unat r)" by simp
  show ?thesis
  proof (intro exI [of _ "unat r"] conjI allI impI)
    show "unat r = e \<or> a \<le> unat r \<and> unat r < e \<and> unat r mod 4096 = 0 \<and> mmu_frame m (of_nat (unat r)) \<noteq> None"
      using r(2) ua ue tb [of r] unfolding found_from_def word_less_nat_alt word_le_nat_alt by auto
    fix x
    assume x: "a \<le> x \<and> x < unat r \<and> x < e"
    then have "unat (of_nat x :: u64) = x" using assms(3) by (intro unat_user) simp
    then show "mmu_frame m (of_nat x) = None"
      using r(2) x ua ue unfolding found_from_def word_less_nat_alt word_le_nat_alt by metis
  qed (use r le in simp_all)
qed

lemma aligned_eq:
  assumes "a mod 4096 = 0" and "b mod 4096 = 0" and "a \<le> b" and "b < a + (4096 :: nat)"
  shows "b = a"
proof -
  obtain j k where "a = 4096 * j" "b = 4096 * k" using assms(1,2) by (auto elim!: dvdE)
  then show ?thesis using assms(3,4) by simp
qed

definition mapped_at :: "machine \<Rightarrow> nat \<Rightarrow> bool" where
  "mapped_at m a \<longleftrightarrow> mmu_frame m (of_nat a) \<noteq> None"

lemma skip_run_spec:
  assumes inv: "paging_inv m"
  shows "a mod 4096 = 0 \<Longrightarrow> a \<le> 2 ^ 47 \<Longrightarrow>
     \<exists>r. skip_run a m = Some r \<and> a \<le> r \<and> r \<le> 2 ^ 47 \<and> r mod 4096 = 0 \<and> (\<forall>b. a \<le> b \<longrightarrow> b < r \<longrightarrow> b mod 4096 = 0 \<longrightarrow> mapped_at m b)"
proof (induction "2 ^ 47 - a" arbitrary: a rule: less_induct)
  case less
  show ?case
  proof (cases "fits_in_user_half a 4096")
    case False
    then show ?thesis using less.prems by (subst skip_run.simps) auto
  next
    case True
    then have lt: "a + 4096 \<le> 2 ^ 47" by (auto simp: fits_in_user_half_def USPACE64_LIMIT_def)
    then have add: "add64 a 4096 = a + 4096" by (simp add: add64_def)
    obtain v where v: "vmspace64_next_mapped (of_nat a) (of_nat (a + 4096)) m = Some (of_nat v)" "v \<le> 2 ^ 47"
      "v = a + 4096 \<or> a \<le> v \<and> v < a + 4096 \<and> v mod 4096 = 0 \<and> mmu_frame m (of_nat v) \<noteq> None"
      using next_mapped_nat [OF inv less.prems(2) lt less.prems(1)] by auto
    show ?thesis
    proof (cases "v = a")
      case eq: True
      have h: "2 ^ 47 - (a + 4096) < 2 ^ 47 - a" "(a + 4096) mod 4096 = 0" using lt less.prems(1) by (linarith, simp)
      obtain r where r: "skip_run (a + 4096) m = Some r" "a + 4096 \<le> r" "r \<le> 2 ^ 47" "r mod 4096 = 0"
        "\<forall>b. a + 4096 \<le> b \<longrightarrow> b < r \<longrightarrow> b mod 4096 = 0 \<longrightarrow> mapped_at m b" using less.hyps [OF h lt] by (elim exE conjE) (rule that)
      have "skip_run a m = Some r" using True v(1) r(1) unat_user [OF v(2)] eq by (subst skip_run.simps) (simp add: add)
      moreover have "mapped_at m b" if "a \<le> b" "b < r" "b mod 4096 = 0" for b
      proof (cases "b < a + 4096")
        case True
        then have "b = a" using aligned_eq [OF less.prems(1) that(3,1)] by simp
        then show ?thesis using v(3) eq by (auto simp: mapped_at_def)
      qed (use r(5) that in simp)
      ultimately show ?thesis using r by auto
    next
      case False
      then have "skip_run a m = Some a" using True v(1) unat_user [OF v(2)] by (subst skip_run.simps) (simp add: add)
      then show ?thesis using less.prems by auto
    qed
  qed
qed

text \<open>A range the process may be given: no region and no page in it.\<close>

definition vacant :: "proc64 \<Rightarrow> machine \<Rightarrow> nat \<Rightarrow> nat \<Rightarrow> bool" where
  "vacant p m a len \<longleftrightarrow> (\<forall>x \<in> {a..<a + len}. resv_at p x = None \<and> \<not> mapped_at m x)"

definition first_fit :: "proc64 \<Rightarrow> machine \<Rightarrow> nat \<Rightarrow> nat \<Rightarrow> nat \<Rightarrow> bool" where
  "first_fit p m len a r \<longleftrightarrow>
     (\<forall>b. a \<le> b \<longrightarrow> b mod 4096 = 0 \<longrightarrow> b + len \<le> USPACE64_LIMIT \<longrightarrow> r = 0 \<or> b < r \<longrightarrow> \<not> vacant p m b len)
   \<and> (r = 0 \<or> a \<le> r \<and> r mod 4096 = 0 \<and> r + len \<le> USPACE64_LIMIT \<and> vacant p m r len)"

lemma first_fit_step:
  assumes "first_fit p m len a' r" and "a \<le> a'" and "\<And>b. a \<le> b \<Longrightarrow> b < a' \<Longrightarrow> b mod 4096 = 0 \<Longrightarrow> \<not> vacant p m b len"
  shows "first_fit p m len a r"
  unfolding first_fit_def
proof (intro conjI allI impI)
  fix b
  assume "a \<le> b" "b mod 4096 = 0" "b + len \<le> USPACE64_LIMIT" "r = 0 \<or> b < r"
  then show "\<not> vacant p m b len" using assms(1,3) unfolding first_fit_def by (cases "b < a'") auto
next
  show "r = 0 \<or> a \<le> r \<and> r mod 4096 = 0 \<and> r + len \<le> USPACE64_LIMIT \<and> vacant p m r len"
    using assms(1,2) unfolding first_fit_def by auto
qed

lemma not_vacantI: "x \<in> {b..<b + len} \<Longrightarrow> resv_at p x \<noteq> None \<or> mapped_at m x \<Longrightarrow> \<not> vacant p m b len"
  unfolding vacant_def by auto

text \<open>Every start up to the end of a region in the way has the region in the way.\<close>

lemma region_in_way:
  assumes ok: "resv_ok p" and i: "i = resv_first_after a p" "i < nresv p" "r_start (regs p ! i) < a + len" and len: "0 < len"
    and b: "a \<le> b" "b < r_end (regs p ! i)"
  shows "\<not> vacant p m b len"
proof (rule not_vacantI)
  let ?r = "regs p ! i"
  note D = resv_okD [OF ok]
  have r: "?r \<in> set (regs p)" "r_start ?r < r_end ?r" using i(2) D(3,4) by (auto simp: ranges_ok_def)
  then have "covers (max b (r_start ?r)) ?r" using b by (auto simp: covers_def)
  then show "resv_at p (max b (r_start ?r)) \<noteq> None \<or> mapped_at m (max b (r_start ?r))"
    using r(1) by (auto simp: resv_at_def ranges_at_None)
  show "max b (r_start ?r) \<in> {b..<b + len}" using i(3) b(1) len by auto
qed

text \<open>Every start up to the end of a run of pages in the way has a page in the way.\<close>

lemma pages_in_way:
  assumes v: "v < a + len" "v mod 4096 = 0" "mapped_at m v" and len: "0 < len"
    and c: "\<forall>b. v + 4096 \<le> b \<longrightarrow> b < c \<longrightarrow> b mod 4096 = 0 \<longrightarrow> mapped_at m b" and b: "a \<le> b" "b < c" "b mod 4096 = 0"
  shows "\<not> vacant p m b len"
proof (cases "b \<le> v")
  case True
  then show ?thesis using v b(1) by (intro not_vacantI [of v]) auto
next
  case False
  have "v + 4096 \<le> b" using aligned_eq [OF v(2) b(3)] False by (cases "b < v + 4096") auto
  then show ?thesis using c b len by (intro not_vacantI [of b]) auto
qed

lemma find_loop_steps:
  assumes "fits_in_user_half a len" and "a + len \<le> 2 ^ 47" and "i = resv_first_after a p"
  shows "i < nresv p \<Longrightarrow> r_start (resv p ! i) < a + len \<Longrightarrow> find_loop len p m a = find_loop len p m (page_up (r_end (resv p ! i)))"
    and "\<not> (i < nresv p \<and> r_start (resv p ! i) < a + len) \<Longrightarrow> vmspace64_next_mapped (of_nat a) (of_nat (a + len)) m = Some (of_nat v) \<Longrightarrow>
         v \<le> 2 ^ 47 \<Longrightarrow> \<not> v < a + len \<Longrightarrow> find_loop len p m a = Some a"
    and "\<not> (i < nresv p \<and> r_start (resv p ! i) < a + len) \<Longrightarrow> vmspace64_next_mapped (of_nat a) (of_nat (a + len)) m = Some (of_nat v) \<Longrightarrow>
         v + 4096 \<le> 2 ^ 47 \<Longrightarrow> v < a + len \<Longrightarrow> skip_run (v + 4096) m = Some c \<Longrightarrow> find_loop len p m a = find_loop len p m c"
proof -
  have add: "add64 a len = a + len" using assms(2) by (simp add: add64_def)
  note u = find_loop.simps [of len p m a, unfolded add Let_def, folded assms(3)]
  show "i < nresv p \<Longrightarrow> r_start (resv p ! i) < a + len \<Longrightarrow> find_loop len p m a = find_loop len p m (page_up (r_end (resv p ! i)))"
    using assms(1) by (subst u) simp
  assume no: "\<not> (i < nresv p \<and> r_start (resv p ! i) < a + len)" and v: "vmspace64_next_mapped (of_nat a) (of_nat (a + len)) m = Some (of_nat v)"
  show "v \<le> 2 ^ 47 \<Longrightarrow> \<not> v < a + len \<Longrightarrow> find_loop len p m a = Some a"
    using assms(1) no v unat_user [of v] by (subst u) auto
  assume v4: "v + 4096 \<le> 2 ^ 47"
  have "unat (of_nat v :: u64) = v" using v4 by (intro unat_user) simp
  moreover have "add64 v 4096 = v + 4096" using v4 by (simp add: add64_def)
  ultimately show "v < a + len \<Longrightarrow> skip_run (v + 4096) m = Some c \<Longrightarrow> find_loop len p m a = find_loop len p m c"
    using assms(1) no v by (subst u) auto
qed

lemma find_loop_spec:
  assumes inv: "paging_inv m" and ok: "resv_ok p" and low: "\<forall>r \<in> set (regs p). r_end r \<le> 2 ^ 47" and len: "0 < len"
  shows "a mod 4096 = 0 \<Longrightarrow> a \<le> 2 ^ 47 \<Longrightarrow> 0 < a \<Longrightarrow> \<exists>r. find_loop len p m a = Some r \<and> first_fit p m len a r"
proof (induction "2 ^ 47 - a" arbitrary: a rule: less_induct)
  case less
  note D = resv_okD [OF ok]
  show ?case
  proof (cases "fits_in_user_half a len")
    case False
    then have "first_fit p m len a 0" using len by (auto simp: first_fit_def fits_in_user_half_def)
    then show ?thesis using False by (subst find_loop.simps) auto
  next
    case fits: True
    then have e: "a < 2 ^ 47" "a + len \<le> 2 ^ 47" by (auto simp: fits_in_user_half_def USPACE64_LIMIT_def)
    define i where "i = resv_first_after a p"
    note fa = first_after_spec [OF ok, where va = a, folded i_def] and steps = find_loop_steps [OF fits e(2) i_def]
    have go: "\<exists>r. find_loop len p m a' = Some r \<and> first_fit p m len a r"
      if a': "a < a'" "a' \<le> 2 ^ 47" "a' mod 4096 = 0" "\<And>b. a \<le> b \<Longrightarrow> b < a' \<Longrightarrow> b mod 4096 = 0 \<Longrightarrow> \<not> vacant p m b len" for a'
    proof -
      have "2 ^ 47 - a' < 2 ^ 47 - a" using a'(1) e(1) by linarith
      from less.hyps [OF this a'(3,2)] a'(1) show ?thesis using first_fit_step [OF _ less_imp_le [OF a'(1)] a'(4)] by (metis gr_zeroI not_less_zero)
    qed
    show ?thesis
    proof (cases "i < nresv p \<and> r_start (resv p ! i) < a + len")
      case True
      have r: "resv p ! i = regs p ! i" "a < r_end (regs p ! i)" "r_end (regs p ! i) \<le> 2 ^ 47" using True fa(3) D(3,5) low by auto
      note up = page_up_least [OF r(3)]
      have "\<exists>c. find_loop len p m (page_up (r_end (regs p ! i))) = Some c \<and> first_fit p m len a c"
        using up(1-3) r(2) region_in_way [OF ok i_def _ _ len] True r(1) up(4) by (intro go) auto
      then show ?thesis using steps(1) True r(1) by simp
    next
      case False
      obtain v where v: "vmspace64_next_mapped (of_nat a) (of_nat (a + len)) m = Some (of_nat v)" "v \<le> 2 ^ 47"
        "v = a + len \<or> a \<le> v \<and> v < a + len \<and> v mod 4096 = 0 \<and> mmu_frame m (of_nat v) \<noteq> None"
        "\<forall>x. a \<le> x \<and> x < v \<and> x < a + len \<longrightarrow> mmu_frame m (of_nat x) = None"
        using next_mapped_nat [OF inv less.prems(2) e(2) less.prems(1)] by (elim exE conjE) (rule that)
      show ?thesis
      proof (cases "v < a + len")
        case lt: True
        then have v': "a \<le> v" "v mod 4096 = 0" "mapped_at m v" "(v + 4096) mod 4096 = 0" using v(3) by (auto simp: mapped_at_def)
        then obtain k where "v = 4096 * k" by (auto elim!: dvdE)
        then have v4: "v + 4096 \<le> 2 ^ 47" using lt e(2) by simp
        obtain c where c: "skip_run (v + 4096) m = Some c" "v + 4096 \<le> c" "c \<le> 2 ^ 47" "c mod 4096 = 0"
          "\<forall>b. v + 4096 \<le> b \<longrightarrow> b < c \<longrightarrow> b mod 4096 = 0 \<longrightarrow> mapped_at m b"
          using skip_run_spec [OF inv v'(4) v4] by (elim exE conjE) (rule that)
        have "\<exists>r. find_loop len p m c = Some r \<and> first_fit p m len a r"
          using c(2-4) v'(1) pages_in_way [OF lt v'(2,3) len c(5)] by (intro go) auto
        then show ?thesis using steps(3) [OF False v(1) v4 lt c(1)] by simp
      next
        case ge: False
        have "resv_at p x = None" if "a \<le> x" "x < a + len" for x
          using overlaps_iff [OF ok, of a "a + len"] len that False by (auto simp: resv_overlaps_def Let_def simp flip: i_def)
        then have "first_fit p m len a a"
          using v(3,4) ge less.prems(1,3) e(2) by (auto simp: first_fit_def vacant_def mapped_at_def USPACE64_LIMIT_def)
        then show ?thesis using steps(2) [OF False v(1,2) ge] by blast
      qed
    qed
  qed
qed

section \<open>Properties\<close>

text \<open>C17: The sorted table of regions is a map from addresses to protections. Over a table in order, with two slots to spare, the
  binary search finds overlaps exactly where an address of the range is claimed; taking a range out removes its
  addresses and no other, splitting and shortening regions as needed; recording it afterwards gives exactly its addresses
  the protection asked for, joined to its neighbours where they touch; the table is in order throughout, and nothing
  else of the process changes.\<close>

theorem uspace64_reservations_refine_map:
  assumes "resv_ok p" and "nresv p + 2 \<le> 4096" and "a < b"
  shows "(resv_overlaps a b p \<longleftrightarrow> (\<exists>x \<in> {a..<b}. resv_at p x \<noteq> None))
     \<and> (\<exists>p1 s1 p2 s2. resv_remove a b (p, s) = Some (p1, s1) \<and> resv_add a b fl (p1, s1) = Some (True, p2, s2)
          \<and> resv_at p1 = (\<lambda>x. if x \<in> {a..<b} then None else resv_at p x)
          \<and> resv_at p2 = (\<lambda>x. if x \<in> {a..<b} then Some fl else resv_at p x)
          \<and> resv_ok p2 \<and> same_but_list (p, s) (p2, s2))"
proof -
  have r: "reservations (p, s) (p, s)" "nresv (fst (p, s)) + Suc (Suc 0) \<le> 4096"
    using assms(1,2) same_but_list_refl by (simp_all add: reservations_def)
  show ?thesis
    using resv.replace [OF r assms(3), of fl] overlaps_iff [OF assms(1,3)] by (fastforce simp: reservations_def fun_eq_iff)
qed

text \<open>C18: First touch. A fault at a user address of a page that is not mapped succeeds only where the process holds anonymous
  memory whose protection allows the access, and then the page is there, reads as zeros, and no other page has
  changed; a reservation, a write to read-only memory, an address nothing claims and a page that is already there are
  refused with nothing changed at all, and nothing is handed out once memory is down to the reserve.\<close>

theorem uspace64_fault_correct:
  assumes "cur s = Some p" and "resv_ok p" and "user_pages P A (umach s)" and "va < USPACE64_LIMIT" and "va div 4096 \<in> P"
    and "\<forall>fl. resv_at p (page_down va) = Some fl \<longrightarrow> fl AND ADDR_MASK = 0"
  shows "\<exists>ok s'. uspace64_fault va write s = Some (ok, s') \<and> table s' = table s
     \<and> (if A (va div 4096) = None \<and> (\<exists>fl. resv_at p (page_down va) = Some fl \<and> fl \<noteq> 0 \<and> (write \<longrightarrow> has fl PAGE64_WRITE))
        then (ok \<longrightarrow> user_pages P (A(va div 4096 \<mapsto> (\<lambda>_. 0))) (umach s') \<and> lazy_faults s' = add64 (lazy_faults s) 1)
           \<and> (pmm64_free_frames (pmm (umach s)) < USER_RESERVE \<longrightarrow> \<not> ok)
        else \<not> ok \<and> s' = s)"
proof -
  let ?q = "va div 4096"
  have pd: "page_down va = ?q * 4096" by (simp add: page_down_def minus_mod_eq_div_mult)
  have t: "touch_flags (page_down va) write p =
     (case resv_at p (page_down va) of None \<Rightarrow> None | Some fl \<Rightarrow> if fl \<noteq> 0 \<and> (write \<longrightarrow> has fl PAGE64_WRITE) then Some fl else None)"
    using first_after_covers [OF assms(2) refl, of "page_down va"] by (auto simp: touch_flags_def Let_def)
  show ?thesis
  proof (cases "touch_flags (page_down va) write p")
    case None
    then have "uspace64_fault va write s = Some (False, s)" using assms(1,4) by (simp add: uspace64_fault_def)
    then show ?thesis using None t by (auto split: option.splits if_splits)
  next
    case (Some fl)
    then have fl: "resv_at p (page_down va) = Some fl" "fl \<noteq> 0" "write \<longrightarrow> has fl PAGE64_WRITE" using t by (auto split: option.splits if_splits)
    show ?thesis
    proof (cases "A ?q")
      case None
      obtain ok s1 where b: "back_page (?q * 4096) fl s = Some (ok, s1)" "table s1 = table s"
        "ok \<longrightarrow> user_pages P (A(?q \<mapsto> (\<lambda>_. 0))) (umach s1)" "pmm64_free_frames (pmm (umach s)) < USER_RESERVE \<longrightarrow> \<not> ok"
        using back_page_spec [OF assms(3,5) None, of fl] assms(6) fl(1) by blast
      have "lazy_faults s1 = lazy_faults s" using b(1) by (auto simp: back_page_def Let_def split: prod.splits if_splits bind_splits)
      then have "uspace64_fault va write s = Some (ok, if ok then s1\<lparr>lazy_faults := add64 (lazy_faults s) 1\<rparr> else s1)"
        using assms(1,4) Some translate_page(1) [OF assms(3,5) None] b(1) by (simp add: uspace64_fault_def pd)
      then show ?thesis using None fl b by auto
    next
      case c: (Some c)
      obtain f where f: "data_frame_of (umach s) ?q f" using user_pagesD(5) [OF assms(3) c] by blast
      have "uspace64_fault va write s = Some (False, s)"
        using assms(1,4) Some translate_page(2) [OF assms(3,5) f] by (simp add: uspace64_fault_def pd)
      then show ?thesis using c by (intro exI [of _ False] exI [of _ s]) simp
    qed
  qed
qed

text \<open>C19: Where a mapping the caller did not place goes. The search always ends, and finds the lowest page boundary at or above the
  bump pointer from which a range of the length asked for holds neither a region nor a mapped page and ends
  inside the user half; it answers 0 only when there is none.\<close>

theorem uspace64_find_free_first_fit:
  assumes "cur s = Some p" and "resv_ok p" and "\<forall>r \<in> set (regs p). r_end r \<le> USPACE64_LIMIT" and "paging_inv (umach s)"
    and "0 < len" and "mmap_next p mod 4096 = 0" and "0 < mmap_next p" and "mmap_next p \<le> USPACE64_LIMIT"
  shows "\<exists>a. find_free len s = Some a
     \<and> (a = 0 \<or> mmap_next p \<le> a \<and> a mod 4096 = 0 \<and> a + len \<le> USPACE64_LIMIT \<and> vacant p (umach s) a len)
     \<and> (\<forall>b. mmap_next p \<le> b \<and> b mod 4096 = 0 \<and> b + len \<le> USPACE64_LIMIT \<and> (a = 0 \<or> b < a) \<longrightarrow> \<not> vacant p (umach s) b len)"
proof -
  have low: "\<forall>r \<in> set (regs p). r_end r \<le> 2 ^ 47" "mmap_next p \<le> 2 ^ 47" using assms(3,8) by (simp_all add: USPACE64_LIMIT_def)
  obtain a where "find_loop len p (umach s) (mmap_next p) = Some a" "first_fit p (umach s) len (mmap_next p) a"
    using find_loop_spec [OF assms(4,2) low(1) assms(5,6) low(2) assms(7)] by (elim exE conjE) (rule that)
  then show ?thesis using assms(1) unfolding first_fit_def by (intro exI [of _ a]) (auto simp: find_free_def)
qed

section \<open>Witnesses\<close>

text \<open>A process with one region of two pages, at 4 MiB, and nothing mapped yet.\<close>

definition uproc_demo :: proc64 where
  "uproc_demo = zero_proc\<lparr>p_used := True, pid := 1, space := 0x1000, mmap_next := USPACE64_MMAP_BASE,
     resv := (resv zero_proc)[0 := \<lparr>r_start = 0x400000, r_end = 0x402000, r_flags = 7\<rparr>], nresv := 1\<rparr>"

definition uspace_demo :: ustate where
  "uspace_demo = \<lparr>table = \<lparr>procs = uproc_demo # replicate (PROC64_MAX - 1) zero_proc, current_pid = 1, next_pid = 2, full_said = False, reaped_signal = 0\<rparr>, umach = machine_demo,
     zero_frame = 0, pages_allocated = 0, resv_spilled = 0, resv_peak = 0, lazy_faults = 0\<rparr>"

lemma uproc_demo_regs: "regs uproc_demo = [\<lparr>r_start = 0x400000, r_end = 0x402000, r_flags = 7\<rparr>]"
proof -
  have "take (Suc 0) (xs[0 := r]) = [r]" if "xs \<noteq> []" for xs :: "resv64 list" and r using that by (cases xs) auto
  moreover have "resv zero_proc \<noteq> []" by (simp add: zero_proc_def PROC64_RESV_MAX_def)
  ultimately show ?thesis by (simp add: regs_def uproc_demo_def)
qed

lemma uproc_demo_ok: "resv_ok uproc_demo" "nresv uproc_demo = 1"
  unfolding resv_ok_def uproc_demo_regs by (simp_all add: uproc_demo_def zero_proc_def PROC64_RESV_MAX_def ranges_ok_Cons)

lemma uspace_demo_cur: "cur uspace_demo = Some uproc_demo"
proof -
  have "[0..<PROC64_MAX] = 0 # [1..<PROC64_MAX]" by (simp add: upt_conv_Cons PROC64_MAX_def)
  moreover have "p_used uproc_demo" "pid uproc_demo = 1" by (simp_all add: uproc_demo_def)
  ultimately show ?thesis by (simp add: cur_def uspace_demo_def proc64_current_def slot_for_def)
qed

lemma uspace_demo_mach: "umach uspace_demo = machine_demo"
  by (simp add: uspace_demo_def)

lemma demo_unmapped: "a < 2 ^ 47 \<Longrightarrow> mmu_frame machine_demo (of_nat a) = None"
proof -
  assume "a < 2 ^ 47"
  then have p: "a div 4096 < 2 ^ 35" by (simp add: less_mult_imp_div_less)
  have "unat (PML4_IDX (page (a div 4096))) \<noteq> 510" using page_user(2) [OF p] by (auto simp: REC_def word_unat_eq_iff)
  then show ?thesis
    using mmu_frame_of_page [OF \<open>a < 2 ^ 47\<close>] machine_demo_root by (simp add: mmu_frame_def machine_demo_def has_def)
qed

lemma uspace_demo_pages:
  assumes "P \<subseteq> {..<2 ^ 35}"
  shows "user_pages P Map.empty (umach uspace_demo)"
proof -
  have "mmu_frame machine_demo (page p) = None" "private_path machine_demo (page p)" "p < 2 ^ 35" if "p \<in> P" for p
  proof -
    show p: "p < 2 ^ 35" using assms that by auto
    then show "mmu_frame machine_demo (page p) = None" unfolding page_def by (intro demo_unmapped) simp
    show "private_path machine_demo (page p)" by (rule machine_demo_private [OF page_user(2) [OF p]])
  qed
  then show ?thesis using machine_demo_inv by (simp add: uspace_demo_mach user_pages_def)
qed

theorem uspace64_reservations_refine_map_witness:
  "\<exists>p1 s1 p2 s2. resv_remove 0x401000 0x403000 (uproc_demo, uspace_demo) = Some (p1, s1) \<and> resv_add 0x401000 0x403000 5 (p1, s1) = Some (True, p2, s2)
     \<and> resv_at p1 0x401000 = None \<and> resv_at p2 0x401000 = Some 5 \<and> resv_at p2 0x400FFF = Some 7 \<and> resv_at p2 0x403000 = None"
  using uspace64_reservations_refine_map [OF uproc_demo_ok(1), where a = "0x401000" and b = "0x403000" and s = uspace_demo and fl = 5] uproc_demo_ok(2)
  by (fastforce simp: resv_at_def uproc_demo_regs covers_def)

theorem uspace64_fault_correct_witness:
  "\<exists>ok s'. uspace64_fault 0x400123 True uspace_demo = Some (ok, s')
     \<and> (ok \<longrightarrow> user_pages {0x400} [0x400 \<mapsto> (\<lambda>_. 0)] (umach s') \<and> lazy_faults s' = 1)"
proof -
  have at: "resv_at uproc_demo (page_down 0x400123) = Some 7" by (simp add: resv_at_def uproc_demo_regs covers_def page_down_def)
  show ?thesis
    using uspace64_fault_correct [OF uspace_demo_cur uproc_demo_ok(1) uspace_demo_pages [of "{0x400}"], of "0x400123" True] at
    by (fastforce simp: USPACE64_LIMIT_def ADDR_MASK_def has_def PAGE64_WRITE_def uspace_demo_def add64_def)
qed

theorem uspace64_find_free_first_fit_witness:
  "find_free 0x3000 uspace_demo = Some USPACE64_MMAP_BASE"
proof -
  have p: "mmap_next uproc_demo = USPACE64_MMAP_BASE" by (simp add: uproc_demo_def)
  have "vacant uproc_demo (umach uspace_demo) USPACE64_MMAP_BASE 0x3000"
    by (auto simp: vacant_def mapped_at_def resv_at_def uproc_demo_regs covers_def USPACE64_MMAP_BASE_def uspace_demo_mach intro!: demo_unmapped)
  moreover obtain a where a: "find_free 0x3000 uspace_demo = Some a" "a = 0 \<or> USPACE64_MMAP_BASE \<le> a"
    "\<forall>b. USPACE64_MMAP_BASE \<le> b \<and> b mod 4096 = 0 \<and> b + 0x3000 \<le> USPACE64_LIMIT \<and> (a = 0 \<or> b < a) \<longrightarrow> \<not> vacant uproc_demo (umach uspace_demo) b 0x3000"
    using uspace64_find_free_first_fit [OF uspace_demo_cur uproc_demo_ok(1), where len = "0x3000"] machine_demo_inv
    unfolding p uspace_demo_mach uproc_demo_regs by (auto simp: USPACE64_LIMIT_def USPACE64_MMAP_BASE_def)
  ultimately have "\<not> (a = 0 \<or> USPACE64_MMAP_BASE < a)" by (auto simp: USPACE64_LIMIT_def USPACE64_MMAP_BASE_def)
  then show ?thesis using a(1,2) by simp
qed

end
