(* ===== verification/Uspace64_Maps.thy ===== *)
theory Uspace64_Maps
  imports Uspace64_Resv
begin

text \<open>
  What mapping and unmapping of \<^verbatim>\<open>kernel/uspace64.c\<close> promise, over the claims of \<open>Uspace64_Resv\<close> and the pages
  of \<open>User_Pages\<close>: a range is given up or replaced on both sides at once, page by page where the hardware has pages, with every
  frame's owners counted, and the place of a mapping is the caller's or one where nothing is.
\<close>

unbundle bit_operations_syntax

section \<open>Taking a page away\<close>

text \<open>Pages that a page table maps, none of them at frame 0.\<close>

definition plain_pages :: "nat set \<Rightarrow> machine \<Rightarrow> bool" where
  "plain_pages P m \<longleftrightarrow> (\<forall>p \<in> P. \<forall>f. mmu_frame m (page p) = Some f \<longrightarrow> f \<noteq> 0 \<and> tpath m (take 3 (path_of (page p))) \<noteq> None)"

lemma user_pages_unmap:
  assumes u: "user_pages P A m" and p: "A p = Some c" "data_frame_of m p f" and pl: "plain_pages P m"
  obtains n where "paging64_unmap (page p) m = Some (PAGING64_OK, n)" and "cr3 n = cr3 m" and "pmm n = pmm m"
    and "\<And>Q. pmm_live Q \<Longrightarrow> ready Q \<Longrightarrow> frame_count Q \<le> 2 ^ 40 \<Longrightarrow> \<forall>h. h \<noteq> f \<longrightarrow> owners Q h = owners (pmm m) h \<Longrightarrow>
          user_pages P (A(p := None)) (n\<lparr>pmm := Q\<rparr>) \<and> plain_pages P (n\<lparr>pmm := Q\<rparr>)
          \<and> (\<forall>q. q \<in> P \<longrightarrow> q \<noteq> p \<longrightarrow> mmu_frame (n\<lparr>pmm := Q\<rparr>) (page q) = mmu_frame m (page q))"
proof -
  note D = user_pagesD [OF u]
  have pP: "p \<in> P" using D(6) p(1) .
  note pu = page_user [OF D(2) [OF pP]] and priv = D(3) [OF pP]
  have f: "mmu_frame m (page p) = Some f" "f < 2 ^ 40" "owners (pmm m) f > 0" "\<forall>q. valid_path q \<longrightarrow> tpath m q \<noteq> Some f"
    using p(2) by (simp_all add: data_frame_of_def)
  obtain t where t: "tpath m (take 3 (path_of (page p))) = Some t" "paging64_unmap (page p) m = Some (PAGING64_OK, store_word t (unat (PT_IDX (page p))) 0 m)"
    using paging64_unmap_spec [OF D(1) pu(2,1)] pl pP f(1) unfolding plain_pages_def by auto
  define n where "n = store_word t (unat (PT_IDX (page p))) 0 m"
  have n: "cr3 n = cr3 m" "pmm n = pmm m" "\<And>h. h \<noteq> t \<Longrightarrow> mem n h = mem m h" by (simp_all add: n_def store_word_def)
  note l = leaf_store [OF D(1) priv pu(2) t(1), where E = 0, folded n_def]
  have tp: "valid_path q \<Longrightarrow> tpath n q = tpath m q" for q using leaf_tpath [OF priv t(1)] by (simp add: n_def)
  have vt: "valid_path (take 3 (path_of (page p)))" by (rule valid_path_of [OF pu(2)])
  have w: "mmu_frame n (page q) = (if q = p then None else mmu_frame m (page q))" if "q \<in> P" for q
    using l(3) [OF page_user(2) [OF D(2) [OF that]]] l(4) [OF pu(1)] page_slot [OF D(2) [OF pP] D(2) [OF that]] by auto
  have fn: "\<forall>q. valid_path q \<longrightarrow> tpath n q \<noteq> Some f" using f(4) tp by simp
  have "user_pages P (A(p := None)) (n\<lparr>pmm := Q\<rparr>) \<and> plain_pages P (n\<lparr>pmm := Q\<rparr>)
      \<and> (\<forall>q. q \<in> P \<longrightarrow> q \<noteq> p \<longrightarrow> mmu_frame (n\<lparr>pmm := Q\<rparr>) (page q) = mmu_frame m (page q))"
    if pm: "pmm_live Q" "ready Q" "frame_count Q \<le> 2 ^ 40" and own: "\<forall>h. h \<noteq> f \<longrightarrow> owners Q h = owners (pmm m) h" for Q
  proof -
    let ?n = "n\<lparr>pmm := Q\<rparr>"
    note d = data_frame [OF l(1) fn, of ?n]
    have tq: "valid_path q \<Longrightarrow> tpath ?n q = tpath m q" for q using d(1) tp by simp
    have wq: "mmu_frame ?n (page q) = (if q = p then None else mmu_frame m (page q))" if "q \<in> P" for q
      using d(3) page_user(2) [OF D(2) [OF that]] w [OF that] by simp
    have inv: "paging_inv ?n"
    proof (rule d(4))
      show "0 < owners (pmm ?n) h" if "valid_path q" "tpath n q = Some h" for q h
        using that own f(4) tp D(1) by (auto simp: paging_inv_def)
    qed (use pm in simp_all)
    have keep: "data_frame_of ?n q h" "mem ?n h = mem m h" if q: "q \<noteq> p" "A q = Some e" "data_frame_of m q h" for q e h
    proof -
      have "h \<noteq> f" using D(7) [OF q(2) p(1) q(3)] q(1) p(2) by (auto simp: data_frame_of_def)
      moreover have "h \<noteq> t" using q(3) t(1) vt by (auto simp: data_frame_of_def)
      ultimately show "data_frame_of ?n q h" "mem ?n h = mem m h"
        using q wq [OF D(6) [OF q(2)]] own n(3) [of h] tq by (auto simp: data_frame_of_def)
    qed
    have "user_pages P (A(p := None)) ?n"
      unfolding user_pages_def
    proof (intro conjI ballI allI impI)
      show "paging_inv ?n" by (rule inv)
      show "dom (A(p := None)) \<subseteq> P" using u by (auto simp: user_pages_def)
      fix q
      show "q < 2 ^ 35" if "q \<in> P" using D(2) that .
      show "private_path ?n (page q)" if "q \<in> P"
        using d(2) l(2) page_user(2) [OF D(2) [OF that]] D(3) [OF that] by simp
      show "mmu_frame ?n (page q) = None" if "q \<in> P" "(A(p := None)) q = None" using that wq [OF that(1)] D(4) [OF that(1)] by (auto split: if_splits)
      show "\<exists>h. data_frame_of ?n q h \<and> (\<forall>k<4096. peek ?n h k = e k)" if e: "(A(p := None)) q = Some e" for e
      proof -
        have q: "q \<noteq> p" "A q = Some e" using e by (auto split: if_splits)
        obtain h where "data_frame_of m q h" "\<forall>k<4096. peek m h k = e k" using D(5) [OF q(2)] by blast
        then show ?thesis using keep [OF q] peek_cong [of ?n h m] by (intro exI [of _ h]) auto
      qed
      fix r
      assume "q \<in> dom (A(p := None))" "r \<in> dom (A(p := None))" and eq: "mmu_frame ?n (page q) = mmu_frame ?n (page r)"
      then have "q \<noteq> p" "r \<noteq> p" "q \<in> dom A" "r \<in> dom A" by auto
      then have "mmu_frame m (page q) = mmu_frame m (page r)" using eq wq D(6) by (metis domD)
      then show "q = r" using \<open>q \<in> dom A\<close> \<open>r \<in> dom A\<close> u by (simp add: user_pages_def)
    qed
    moreover have "plain_pages P ?n"
      using pl wq tq [OF valid_path_of [OF page_user(2) [OF D(2)]]] by (auto simp: plain_pages_def split: if_splits)
    ultimately show ?thesis using wq by simp
  qed
  then show ?thesis using that [of n] t(2) n(1,2) by (simp add: n_def)
qed

text \<open>The pages \<open>R\<close> taken away: they are gone, each frame they held has one owner less unless it is the shared zero
  page \<open>z\<close>, and every other page is as it was.\<close>

definition pages_gone :: "nat set \<Rightarrow> (nat \<Rightarrow> (nat \<Rightarrow> byte) option) \<Rightarrow> nat set \<Rightarrow> nat \<Rightarrow> machine \<Rightarrow> machine \<Rightarrow> bool" where
  "pages_gone P A R z m m' \<longleftrightarrow> cr3 m' = cr3 m \<and> user_pages P (\<lambda>q. if q \<in> R then None else A q) m' \<and> plain_pages P m'
     \<and> (\<forall>q \<in> P. q \<notin> R \<longrightarrow> mmu_frame m' (page q) = mmu_frame m (page q))
     \<and> (\<forall>f. owners (pmm m') f = owners (pmm m) f
           - (if f * 4096 \<noteq> z \<and> (\<exists>q \<in> R \<inter> dom A. mmu_frame m (page q) = Some f) then 1 else 0))"

definition dropped :: "nat set \<Rightarrow> (nat \<Rightarrow> (nat \<Rightarrow> byte) option) \<Rightarrow> nat set \<Rightarrow> ustate \<Rightarrow> ustate \<Rightarrow> bool" where
  "dropped P A R s s' \<longleftrightarrow> s' = s\<lparr>umach := umach s'\<rparr> \<and> pages_gone P A R (zero_frame s) (umach s) (umach s')"

lemma dropped_none:
  assumes "user_pages P A (umach s)" and "plain_pages P (umach s)" and none: "\<forall>q \<in> R. A q = None"
  shows "dropped P A R s s"
proof -
  have "(\<lambda>q. if q \<in> R then None else A q) = A" "R \<inter> dom A = {}" using none by auto
  then show ?thesis using assms(1,2) by (simp add: dropped_def pages_gone_def)
qed

lemma dropped_more:
  assumes "dropped P A R s s'" and "R \<subseteq> R'" and none: "\<forall>q \<in> R' - R. A q = None"
  shows "dropped P A R' s s'"
proof -
  have "A q = None" if "q \<in> R'" "q \<notin> R" for q using none that by blast
  then have "(\<lambda>q. if q \<in> R' then None else A q) = (\<lambda>q. if q \<in> R then None else A q)" "R' \<inter> dom A = R \<inter> dom A" using assms(2) by (force, force)
  then show ?thesis using assms(1,2) unfolding dropped_def pages_gone_def by auto
qed

lemma dropped_trans:
  assumes u: "user_pages P A (umach s)" and 1: "dropped P A R s t" and 2: "dropped P (\<lambda>q. if q \<in> R then None else A q) R' t v"
  shows "dropped P A (R \<union> R') s v"
proof -
  let ?B = "\<lambda>q. if q \<in> R then None else A q"
  have z: "zero_frame t = zero_frame s" using 1 unfolding dropped_def pages_gone_def by (cases t, cases s) simp
  have same: "mmu_frame (umach t) (page q) = mmu_frame (umach s) (page q)" if "q \<in> dom ?B" for q
  proof -
    have "q \<in> dom A" "q \<notin> R" using that by (auto split: if_splits)
    then show ?thesis using 1 u unfolding dropped_def pages_gone_def user_pages_def by blast
  qed
  have inj: "q = r" if "q \<in> dom A" "r \<in> dom A" "mmu_frame (umach s) (page q) = Some f" "mmu_frame (umach s) (page r) = Some f" for q r f
    using u that unfolding user_pages_def by metis
  have own: "owners (pmm (umach v)) f = owners (pmm (umach s)) f
      - (if f * 4096 \<noteq> zero_frame s \<and> (\<exists>q \<in> (R \<union> R') \<inter> dom A. mmu_frame (umach s) (page q) = Some f) then 1 else 0)" for f
  proof -
    have a: "(\<exists>q \<in> R' \<inter> dom ?B. mmu_frame (umach t) (page q) = Some f) \<longleftrightarrow> (\<exists>q \<in> (R' - R) \<inter> dom A. mmu_frame (umach s) (page q) = Some f)"
      using same by (fastforce split: if_splits)
    have b: "\<not> ((\<exists>q \<in> R \<inter> dom A. mmu_frame (umach s) (page q) = Some f) \<and> (\<exists>q \<in> (R' - R) \<inter> dom A. mmu_frame (umach s) (page q) = Some f))"
      using inj by blast
    have o: "owners (pmm (umach t)) f = owners (pmm (umach s)) f
        - (if f * 4096 \<noteq> zero_frame s \<and> (\<exists>q \<in> R \<inter> dom A. mmu_frame (umach s) (page q) = Some f) then 1 else 0)"
      "owners (pmm (umach v)) f = owners (pmm (umach t)) f
        - (if f * 4096 \<noteq> zero_frame s \<and> (\<exists>q \<in> (R' - R) \<inter> dom A. mmu_frame (umach s) (page q) = Some f) then 1 else 0)"
      using 1 2 z a unfolding dropped_def pages_gone_def by auto
    have c: "(\<exists>q \<in> (R \<union> R') \<inter> dom A. mmu_frame (umach s) (page q) = Some f) \<longleftrightarrow>
        (\<exists>q \<in> R \<inter> dom A. mmu_frame (umach s) (page q) = Some f) \<or> (\<exists>q \<in> (R' - R) \<inter> dom A. mmu_frame (umach s) (page q) = Some f)" by blast
    show ?thesis unfolding o c using b by auto
  qed
  have "t = s\<lparr>umach := umach t\<rparr>" "v = t\<lparr>umach := umach v\<rparr>" using 1 2 unfolding dropped_def pages_gone_def by simp_all
  then have "v = s\<lparr>umach := umach v\<rparr>" by (metis ustate.surjective ustate.update_convs(2))
  moreover have "(\<lambda>q. if q \<in> R' then None else ?B q) = (\<lambda>q. if q \<in> R \<union> R' then None else A q)" by auto
  ultimately show ?thesis using 1 2 own unfolding dropped_def pages_gone_def by auto
qed

lemma drop_page_spec:
  assumes u: "user_pages P A (umach s)" and pl: "plain_pages P (umach s)" and q: "q \<in> P"
  shows "\<exists>s'. drop_page (q * 4096) s = Some s' \<and> dropped P A {q} s s'"
proof (cases "A q")
  case None
  then have "drop_page (q * 4096) s = Some s" using translate_page(1) [OF u q] by (simp add: drop_page_def flip: page_def)
  then show ?thesis using dropped_none [OF u pl, of "{q}"] None by auto
next
  case (Some c)
  let ?m = "umach s"
  obtain f where f: "data_frame_of ?m q f" using user_pagesD(5) [OF u Some] by blast
  then have f': "mmu_frame ?m (page q) = Some f" "f < 2 ^ 40" "owners (pmm ?m) f > 0" by (simp_all add: data_frame_of_def)
  have f0: "f \<noteq> 0" using pl q f'(1) by (auto simp: plain_pages_def)
  obtain n where n: "paging64_unmap (page q) ?m = Some (PAGING64_OK, n)" "cr3 n = cr3 ?m" "pmm n = pmm ?m"
    "\<And>Q. pmm_live Q \<Longrightarrow> ready Q \<Longrightarrow> frame_count Q \<le> 2 ^ 40 \<Longrightarrow> \<forall>h. h \<noteq> f \<longrightarrow> owners Q h = owners (pmm ?m) h \<Longrightarrow>
        user_pages P (A(q := None)) (n\<lparr>pmm := Q\<rparr>) \<and> plain_pages P (n\<lparr>pmm := Q\<rparr>)
        \<and> (\<forall>r. r \<in> P \<longrightarrow> r \<noteq> q \<longrightarrow> mmu_frame (n\<lparr>pmm := Q\<rparr>) (page r) = mmu_frame ?m (page r))"
    using user_pages_unmap [OF u Some f pl] by blast
  have live: "pmm_live (pmm ?m)" "ready (pmm ?m)" "frame_count (pmm ?m) \<le> 2 ^ 40" using user_pagesD(1) [OF u] by (simp_all add: paging_inv_def)
  define Q where "Q = (if f * 4096 \<noteq> zero_frame s then pmm64_free_frame (f * 4096) (pmm ?m) else pmm ?m)"
  have Q: "pmm_live Q" "ready Q" "frame_count Q \<le> 2 ^ 40"
    "owners Q = (owners (pmm ?m))(f := owners (pmm ?m) f - (if f * 4096 \<noteq> zero_frame s then 1 else 0))"
    using live f0 free_live [OF live(1), of "f * 4096"] free_frame_step [of "pmm ?m" "f * 4096"]
    by (auto simp: Q_def FRAME_SIZE_def pmm_live_def)
  have e: "drop_page (q * 4096) s = Some (s\<lparr>umach := n\<lparr>pmm := Q\<rparr>\<rparr>)"
    using translate_page(2) [OF u q f, folded page_def] n(1,3) frame_addr [OF f'(2)]
    by (cases "unat (page f) = zero_frame s") (simp_all add: drop_page_def Q_def flip: page_def)
  have A: "(\<lambda>r. if r \<in> {q} then None else A r) = A(q := None)" by auto
  have "\<forall>h. owners Q h = owners (pmm ?m) h - (if h * 4096 \<noteq> zero_frame s \<and> (\<exists>r \<in> {q} \<inter> dom A. mmu_frame ?m (page r) = Some h) then 1 else 0)"
    using Q(4) f'(1) Some by auto
  then have "dropped P A {q} s (s\<lparr>umach := n\<lparr>pmm := Q\<rparr>\<rparr>)"
    using n(2) n(4) [OF Q(1-3)] Q(4) unfolding dropped_def pages_gone_def A by simp
  then show ?thesis using e by blast
qed

text \<open>The loop over the mapped pages of a range, as \<open>unmap_pages\<close> and \<open>map_anon\<close> have it.\<close>

lemma drop_loop_spec:
  assumes L: "\<And>va s. L va s = do { v \<leftarrow> vmspace64_next_mapped (of_nat va) (of_nat (j * 4096)) (umach s);
      if unat v < j * 4096 then do { s \<leftarrow> drop_page (unat v) s; L (add64 (unat v) 4096) s } else Some s }"
    and j: "j \<le> 2 ^ 35"
  shows "i \<le> j \<Longrightarrow> {i..<j} \<subseteq> P \<Longrightarrow> user_pages P A (umach s) \<Longrightarrow> plain_pages P (umach s) \<Longrightarrow>
     \<exists>s'. L (i * 4096) s = Some s' \<and> dropped P A {i..<j} s s'"
proof (induction "j - i" arbitrary: i A s rule: less_induct)
  case less
  note u = less.prems(3) and D = user_pagesD [OF less.prems(3)]
  have b: "i * 4096 \<le> 2 ^ 47" "j * 4096 \<le> 2 ^ 47" "i * 4096 mod 4096 = 0" using less.prems(1) j by simp_all
  obtain v where v: "vmspace64_next_mapped (of_nat (i * 4096)) (of_nat (j * 4096)) (umach s) = Some (of_nat v)" "v \<le> 2 ^ 47"
    "v = j * 4096 \<or> i * 4096 \<le> v \<and> v < j * 4096 \<and> v mod 4096 = 0 \<and> mmu_frame (umach s) (of_nat v) \<noteq> None"
    "\<forall>x. i * 4096 \<le> x \<and> x < v \<and> x < j * 4096 \<longrightarrow> mmu_frame (umach s) (of_nat x) = None"
    using next_mapped_nat [OF D(1) b] by (elim exE conjE) (rule that)
  have none: "A q = None" if q: "i \<le> q" "q < j" "q * 4096 < v" for q
  proof (cases "A q")
    case (Some c)
    then obtain f where "mmu_frame (umach s) (page q) = Some f" using D(5) [OF Some] by (auto simp: data_frame_of_def)
    moreover have "mmu_frame (umach s) (page q) = None" unfolding page_def using q by (intro v(4) [rule_format]) simp
    ultimately show ?thesis by simp
  qed
  show ?case
  proof (cases "v < j * 4096")
    case False
    then have "L (i * 4096) s = Some s" using v(1) unat_user [OF v(2)] by (subst L) simp
    moreover have "\<forall>q \<in> {i..<j}. A q = None" using none False by auto
    ultimately show ?thesis using dropped_none [OF u less.prems(4), of "{i..<j}"] by blast
  next
    case True
    then obtain q where q: "v = q * 4096" "i \<le> q" "q < j" using v(3) by (auto elim!: dvdE simp: mult.commute)
    then have qP: "q \<in> P" using less.prems(2) by auto
    obtain t where t: "drop_page v s = Some t" "dropped P A {q} s t" using drop_page_spec [OF u less.prems(4) qP] q(1) by blast
    let ?B = "\<lambda>r. if r \<in> {q} then None else A r"
    have "add64 v 4096 = Suc q * 4096" using v(2) True b(2) by (simp add: add64_def q(1))
    then have step: "L (i * 4096) s = L (Suc q * 4096) t" using v(1) unat_user [OF v(2)] True t(1) by (subst L) simp
    obtain w where w: "L (Suc q * 4096) t = Some w" "dropped P ?B {Suc q..<j} t w"
      using less.hyps [of "Suc q" ?B t] t(2) q less.prems(2) unfolding dropped_def pages_gone_def by fastforce
    have "dropped P A ({q} \<union> {Suc q..<j}) s w" using dropped_trans [OF u t(2) w(2)] .
    then have "dropped P A {i..<j} s w"
    proof (rule dropped_more)
      show "{q} \<union> {Suc q..<j} \<subseteq> {i..<j}" using q by auto
      show "\<forall>r \<in> {i..<j} - ({q} \<union> {Suc q..<j}). A r = None"
      proof
        fix r
        assume "r \<in> {i..<j} - ({q} \<union> {Suc q..<j})"
        then have "i \<le> r" "r < j" "r < q" by auto
        then show "A r = None" using none [of r] q(1) by simp
      qed
    qed
    then show ?thesis using step w(1) by auto
  qed
qed

lemma anon_page_True: "anon_page fl True va s = drop_page va s"
  by (simp add: anon_page_def drop_page_def Let_def cong: option.case_cong)

lemma unmap_pages_spec:
  assumes "i \<le> j" and "j \<le> 2 ^ 35" and "{i..<j} \<subseteq> P" and "user_pages P A (umach s)" and "plain_pages P (umach s)"
  shows "\<exists>s'. unmap_pages (i * 4096) (j * 4096) s = Some s' \<and> dropped P A {i..<j} s s'"
    and "\<exists>s'. anon_loop fl True (i * 4096) (j * 4096) s = Some s' \<and> dropped P A {i..<j} s s'"
proof -
  show "\<exists>s'. unmap_pages (i * 4096) (j * 4096) s = Some s' \<and> dropped P A {i..<j} s s'"
    unfolding unmap_pages_def
    by (rule drop_loop_spec [where L = "\<lambda>va. unmap_loop va (j * 4096)", OF _ assms(2,1,3-5)]) (subst unmap_loop.simps, simp)
  show "\<exists>s'. anon_loop fl True (i * 4096) (j * 4096) s = Some s' \<and> dropped P A {i..<j} s s'"
    by (rule drop_loop_spec [where L = "\<lambda>va. anon_loop fl True va (j * 4096)", OF _ assms(2,1,3-5)]) (subst anon_loop.simps, simp only: anon_page_True)
qed

section \<open>The current process\<close>

lemma cur_set:
  assumes "cur s = Some p" and "length (procs (table s)) = PROC64_MAX" and "p_used q = p_used p" "pid q = pid p"
  shows "cur (set_cur q s) = Some q" and "length (procs (table (set_cur q s))) = PROC64_MAX" and "set_cur q s = s\<lparr>table := table (set_cur q s)\<rparr>"
    and "set_cur r (set_cur q s) = set_cur r s"
proof -
  obtain i where i: "proc64_current (table s) = Some i" "procs (table s) ! i = p" using assms(1) by (auto simp: cur_def)
  have lt: "i < length (procs (table s))" using i(1) assms(2) by (auto simp: proc64_current_def slot_for_def find_Some_iff)
  have sc: "set_cur q s = s\<lparr>table := proc_upd i (\<lambda>_. q) (table s)\<rparr>" using i(1) by (simp add: set_cur_def)
  have "p_used ((procs (table s))[i := q] ! j) = p_used (procs (table s) ! j)" "pid ((procs (table s))[i := q] ! j) = pid (procs (table s) ! j)" for j
    using assms(3,4) i(2) lt by (cases "j = i"; simp)+
  then have c: "proc64_current (proc_upd i (\<lambda>_. q) (table s)) = Some i"
    using i(1) by (simp add: proc64_current_def slot_for_def proc_upd_def)
  show "cur (set_cur q s) = Some q" using c lt by (simp add: sc cur_def) (simp add: proc_upd_def)
  show "length (procs (table (set_cur q s))) = PROC64_MAX" using assms(2) by (simp add: sc proc_upd_def)
  show "set_cur q s = s\<lparr>table := table (set_cur q s)\<rparr>" by (simp add: sc)
  show "set_cur r (set_cur q s) = set_cur r s" using c i(1) by (simp add: sc set_cur_def proc_upd_def)
qed

text \<open>The state of a process that is running: it is in the table, and its list of regions is in order.\<close>

definition runs :: "proc64 \<Rightarrow> ustate \<Rightarrow> bool" where
  "runs p s \<longleftrightarrow> cur s = Some p \<and> length (procs (table s)) = PROC64_MAX \<and> resv_ok p"

text \<open>From \<open>s\<close> to \<open>s'\<close> the list of the process has changed to \<open>at'\<close> and at most \<open>k\<close> regions more, and nothing of memory.\<close>

definition list_now :: "proc64 \<Rightarrow> ustate \<Rightarrow> nat \<Rightarrow> (nat \<Rightarrow> u64 option) \<Rightarrow> proc64 \<Rightarrow> ustate \<Rightarrow> bool" where
  "list_now p s k at' p' s' \<longleftrightarrow> runs p' s' \<and> umach s' = umach s \<and> zero_frame s' = zero_frame s
     \<and> nresv p' \<le> nresv p + k \<and> resv_at p' = at' \<and> (\<exists>rs n. p' = p\<lparr>resv := rs, nresv := n\<rparr>)"

lemma list_changed:
  assumes "runs p s" and "same_but_list (p, s) (p', s')" and "resv_ok p'" and "nresv p' \<le> nresv p + k"
  shows "list_now p s k (resv_at p') p' (set_cur p' s')"
proof -
  obtain rs n h where e: "p' = p\<lparr>resv := rs, nresv := n\<rparr>" "s' = s\<lparr>resv_peak := h\<rparr>" using assms(2) by (auto simp: same_but_list_def)
  have c: "cur s' = Some p" "length (procs (table s')) = PROC64_MAX" using assms(1) by (simp_all add: e(2) runs_def cur_def)
  note s = cur_set [OF c, of p']
  have "umach (set_cur p' s') = umach s'" "zero_frame (set_cur p' s') = zero_frame s'" by (simp_all add: set_cur_def split: option.split)
  then show ?thesis using s(1,2) assms(3,4) e by (auto simp: list_now_def runs_def)
qed

lemma cur_remove_spec:
  assumes r: "runs p s" and "a \<le> b" and "nresv p < 4096"
  shows "\<exists>p' s'. cur_remove a b s = Some s' \<and> list_now p s 1 (\<lambda>x. if a \<le> x \<and> x < b then None else resv_at p x) p' s'"
proof -
  have p: "resv_ok p" "cur s = Some p" using r by (simp_all add: runs_def)
  obtain p' s' where e: "resv_remove a b (p, s) = Some (p', s')" "resv_ok p'" "nresv p' \<le> Suc (nresv p)" "same_but_list (p, s) (p', s')"
    "resv_at p' = (\<lambda>x. if a \<le> x \<and> x < b then None else resv_at p x)"
    using resv_remove_spec [OF p(1) assms(2,3)] by blast
  have "list_now p s 1 (resv_at p') p' (set_cur p' s')" using e(3) by (intro list_changed [OF r e(4,2)]) simp
  then show ?thesis using e(1,5) p(2) by (auto simp: cur_remove_def)
qed

lemma cur_add_spec:
  assumes r: "runs p s" and "a < b" and "nresv p < 4096" and "\<forall>x. a \<le> x \<longrightarrow> x < b \<longrightarrow> resv_at p x = None"
  shows "\<exists>p' s'. cur_add a b fl s = Some (True, s') \<and> list_now p s 1 (\<lambda>x. if a \<le> x \<and> x < b then Some fl else resv_at p x) p' s'"
proof -
  have p: "resv_ok p" "cur s = Some p" using r by (simp_all add: runs_def)
  obtain p' s' where e: "resv_add a b fl (p, s) = Some (True, p', s')" "resv_ok p'" "nresv p' \<le> Suc (nresv p)" "same_but_list (p, s) (p', s')"
    "resv_at p' = (\<lambda>x. if a \<le> x \<and> x < b then Some fl else resv_at p x)"
    using resv_add_spec [OF p(1) assms(2-4)] by blast
  have "list_now p s 1 (resv_at p') p' (set_cur p' s')" using e(3) by (intro list_changed [OF r e(4,2)]) simp
  then show ?thesis using e(1,5) p(2) by (auto simp: cur_add_def)
qed

lemma dropped_runs:
  assumes "dropped P A R s s'" and "runs p s"
  shows "runs p s'" and "zero_frame s' = zero_frame s"
proof -
  obtain m where "s' = s\<lparr>umach := m\<rparr>" using assms(1) unfolding dropped_def by blast
  then show "runs p s'" "zero_frame s' = zero_frame s" using assms(2) by (simp_all add: runs_def cur_def)
qed

lemma page_down_aligned: "page_down a mod 4096 = 0" "page_down a \<le> a"
  by (simp_all add: page_down_def minus_mod_eq_div_mult)

section \<open>Placing a mapping\<close>

lemma range_free_spec:
  assumes r: "runs p s" and inv: "paging_inv (umach s)" and a: "a mod 4096 = 0" "a + len \<le> 2 ^ 47" and len: "0 < len"
  shows "range_free a (add64 a len) s = Some (vacant p (umach s) a len)"
proof -
  have p: "cur s = Some p" "resv_ok p" using r by (simp_all add: runs_def)
  have add: "add64 a len = a + len" using a(2) by (simp add: add64_def)
  have a': "a \<le> 2 ^ 47" using a(2) by simp
  obtain v where v: "vmspace64_next_mapped (of_nat a) (of_nat (a + len)) (umach s) = Some (of_nat v)" "v \<le> 2 ^ 47"
    "v = a + len \<or> a \<le> v \<and> v < a + len \<and> v mod 4096 = 0 \<and> mmu_frame (umach s) (of_nat v) \<noteq> None"
    "\<forall>x. a \<le> x \<and> x < v \<and> x < a + len \<longrightarrow> mmu_frame (umach s) (of_nat x) = None"
    using next_mapped_nat [OF inv a' a(2,1)] by (elim exE conjE) (rule that)
  have m: "v = a + len \<longleftrightarrow> (\<forall>x \<in> {a..<a + len}. \<not> mapped_at (umach s) x)"
    using v(3,4) by (auto simp: mapped_at_def)
  have o: "resv_overlaps a (a + len) p \<longleftrightarrow> \<not> (\<forall>x \<in> {a..<a + len}. resv_at p x = None)" using overlaps_iff [OF p(2), of a "a + len"] len by auto
  have "vacant p (umach s) a len \<longleftrightarrow> \<not> resv_overlaps a (a + len) p \<and> v = a + len" unfolding vacant_def m o by blast
  then show ?thesis using p(1) v(1) unat_user [OF v(2)] by (auto simp: range_free_def add)
qed

text \<open>What a caller asked for and what it may get.\<close>

definition placed :: "nat \<Rightarrow> nat \<Rightarrow> u64 \<Rightarrow> proc64 \<Rightarrow> machine \<Rightarrow> nat \<Rightarrow> bool" where
  "placed addr len flags p m a \<longleftrightarrow> a mod 4096 = 0 \<and> a + len \<le> USPACE64_LIMIT
     \<and> (has flags MAP_FIXED \<or> has flags MAP_FIXED_NOREPLACE \<longrightarrow> a = page_down addr)
     \<and> (has flags MAP_FIXED_NOREPLACE \<or> \<not> has flags MAP_FIXED \<longrightarrow> vacant p m a len)"

lemma find_free_spec:
  assumes r: "runs p s" and inv: "paging_inv (umach s)" and low: "\<forall>r \<in> set (regs p). r_end r \<le> USPACE64_LIMIT" and len: "0 < len"
    and nx: "mmap_next p mod 4096 = 0" "0 < mmap_next p" "mmap_next p \<le> USPACE64_LIMIT"
  shows "\<exists>a. find_free len s = Some a \<and> (a = 0 \<or> a mod 4096 = 0 \<and> a + len \<le> USPACE64_LIMIT \<and> vacant p (umach s) a len)"
proof -
  have p: "cur s = Some p" "resv_ok p" using r by (simp_all add: runs_def)
  have l: "\<forall>r \<in> set (regs p). r_end r \<le> 2 ^ 47" "mmap_next p \<le> 2 ^ 47" using low nx(3) by (simp_all add: USPACE64_LIMIT_def)
  obtain a where "find_loop len p (umach s) (mmap_next p) = Some a" "first_fit p (umach s) len (mmap_next p) a"
    using find_loop_spec [OF inv p(2) l(1) len nx(1) l(2) nx(2)] by (elim exE conjE) (rule that)
  then show ?thesis using p(1) unfolding first_fit_def by (intro exI [of _ a]) (auto simp: find_free_def)
qed

lemma mmap_place_spec:
  assumes r: "runs p s" and inv: "paging_inv (umach s)" and low: "\<forall>r \<in> set (regs p). r_end r \<le> USPACE64_LIMIT" and len: "0 < len"
    and nx: "mmap_next p mod 4096 = 0" "0 < mmap_next p" "mmap_next p \<le> USPACE64_LIMIT"
  shows "\<exists>pl. mmap_place addr len flags s = Some pl
     \<and> (case pl of Inl e \<Rightarrow> e = errno 12 \<or> e = errno 17 \<and> has flags MAP_FIXED_NOREPLACE | Inr a \<Rightarrow> placed addr len flags p (umach s) a)"
proof -
  let ?a = "page_down addr"
  note al = page_down_aligned(1) [of addr]
  have free: "range_free ?a (add64 ?a len) s = Some (vacant p (umach s) ?a len)" "?a + len \<le> USPACE64_LIMIT" if "fits_in_user_half ?a len"
  proof -
    show b: "?a + len \<le> USPACE64_LIMIT" using that by (auto simp: fits_in_user_half_def)
    show "range_free ?a (add64 ?a len) s = Some (vacant p (umach s) ?a len)"
      using b by (intro range_free_spec [OF r inv al _ len]) (simp add: USPACE64_LIMIT_def)
  qed
  obtain b where b: "find_free len s = Some b" "b = 0 \<or> b mod 4096 = 0 \<and> b + len \<le> USPACE64_LIMIT \<and> vacant p (umach s) b len"
    using find_free_spec [OF r inv low len nx] by (elim exE conjE) (rule that)
  show ?thesis
  proof (cases "has flags MAP_FIXED_NOREPLACE \<or> has flags MAP_FIXED")
    case True
    then show ?thesis
      using free al
      by (cases "has flags MAP_FIXED_NOREPLACE"; cases "fits_in_user_half ?a len"; cases "vacant p (umach s) ?a len") (simp_all add: mmap_place_def placed_def)
  next
    case False
    show ?thesis
    proof (cases "addr \<noteq> 0 \<and> fits_in_user_half ?a len \<and> vacant p (umach s) ?a len")
      case True
      then show ?thesis using False free al by (cases "?a = 0") (simp_all add: mmap_place_def placed_def)
    next
      case no: False
      then have "mmap_place addr len flags s = Some (if b = 0 then Inl (errno 12) else Inr b)"
        using False free b(1) by (cases "addr \<noteq> 0 \<and> fits_in_user_half ?a len") (auto simp: mmap_place_def Let_def)
      then show ?thesis using b(2) False by (cases "b = 0") (simp_all add: placed_def)
    qed
  qed
qed

section \<open>Replacing a range\<close>

lemma map_anon_spec:
  assumes r: "runs p s" and n: "nresv p + 2 \<le> 4096" and ij: "i < j" "j \<le> 2 ^ 35" "{i..<j} \<subseteq> P"
    and u: "user_pages P A (umach s)" and pl: "plain_pages P (umach s)"
  shows "\<exists>p' s'. map_anon (i * 4096) (j * 4096) fl True s = Some (True, s') \<and> runs p' s' \<and> mmap_next p' = mmap_next p
       \<and> resv_at p' = (\<lambda>x. if i * 4096 \<le> x \<and> x < j * 4096 then Some fl else resv_at p x)
       \<and> pages_gone P A {i..<j} (zero_frame s) (umach s) (umach s')"
    and "\<exists>p' s'. do { s \<leftarrow> unmap_pages (i * 4096) (j * 4096) s; s \<leftarrow> cur_remove (i * 4096) (j * 4096) s; cur_add (i * 4096) (j * 4096) fl s } = Some (True, s')
       \<and> runs p' s' \<and> mmap_next p' = mmap_next p
       \<and> resv_at p' = (\<lambda>x. if i * 4096 \<le> x \<and> x < j * 4096 then Some fl else resv_at p x)
       \<and> pages_gone P A {i..<j} (zero_frame s) (umach s) (umach s')"
proof -
  let ?a = "i * 4096" and ?b = "j * 4096"
  have ab: "?a < ?b" using ij(1) by simp
  let ?none = "\<lambda>x. if ?a \<le> x \<and> x < ?b then None else resv_at p x"
  have add: "\<exists>p' s'. cur_add ?a ?b fl t = Some (True, s') \<and> runs p' s' \<and> mmap_next p' = mmap_next q \<and> umach s' = umach t
      \<and> resv_at p' = (\<lambda>x. if ?a \<le> x \<and> x < ?b then Some fl else resv_at p x)"
    if t: "runs q t" "nresv q \<le> nresv p + 1" "resv_at q = ?none" for q t
  proof -
    have "\<exists>p' s'. cur_add ?a ?b fl t = Some (True, s') \<and> list_now q t 1 (\<lambda>x. if ?a \<le> x \<and> x < ?b then Some fl else resv_at q x) p' s'"
      using t n by (intro cur_add_spec ab) auto
    then obtain p' s' where e: "cur_add ?a ?b fl t = Some (True, s')" "list_now q t 1 (\<lambda>x. if ?a \<le> x \<and> x < ?b then Some fl else resv_at q x) p' s'" by blast
    have "(\<lambda>x. if ?a \<le> x \<and> x < ?b then Some fl else resv_at q x) = (\<lambda>x. if ?a \<le> x \<and> x < ?b then Some fl else resv_at p x)" unfolding t(3) by auto
    then show ?thesis using e by (auto simp: list_now_def)
  qed
  have lt: "nresv p < 4096" using n by simp
  show "\<exists>p' s'. map_anon ?a ?b fl True s = Some (True, s') \<and> runs p' s' \<and> mmap_next p' = mmap_next p
       \<and> resv_at p' = (\<lambda>x. if ?a \<le> x \<and> x < ?b then Some fl else resv_at p x) \<and> pages_gone P A {i..<j} (zero_frame s) (umach s) (umach s')"
  proof -
    obtain q t where q: "cur_remove ?a ?b s = Some t" "list_now p s 1 ?none q t" using cur_remove_spec [OF r less_imp_le [OF ab] lt] by blast
    then have q': "runs q t" "umach t = umach s" "zero_frame t = zero_frame s" "nresv q \<le> nresv p + 1" "resv_at q = ?none" "mmap_next q = mmap_next p"
      by (auto simp: list_now_def)
    obtain v where v: "anon_loop fl True ?a ?b t = Some v" "dropped P A {i..<j} t v"
      using unmap_pages_spec(2) [OF less_imp_le [OF ij(1)] ij(2,3), of A t] u pl q'(2) by auto
    obtain p' s' where e: "cur_add ?a ?b fl v = Some (True, s')" "runs p' s'" "mmap_next p' = mmap_next q" "umach s' = umach v"
      "resv_at p' = (\<lambda>x. if ?a \<le> x \<and> x < ?b then Some fl else resv_at p x)"
      using add [OF dropped_runs(1) [OF v(2) q'(1)] q'(4,5)] by blast
    show ?thesis using q(1) v(1) e q' v(2) by (intro exI [of _ p'] exI [of _ s']) (simp add: map_anon_def dropped_def)
  qed
  obtain v where v: "unmap_pages ?a ?b s = Some v" "dropped P A {i..<j} s v"
    using unmap_pages_spec(1) [OF less_imp_le [OF ij(1)] ij(2,3) u pl] by blast
  obtain q t where q: "cur_remove ?a ?b v = Some t" "list_now p v 1 ?none q t"
    using cur_remove_spec [OF dropped_runs(1) [OF v(2) r] less_imp_le [OF ab] lt] by blast
  then have q': "runs q t" "umach t = umach v" "nresv q \<le> nresv p + 1" "resv_at q = ?none" "mmap_next q = mmap_next p"
    by (auto simp: list_now_def)
  obtain p' s' where e: "cur_add ?a ?b fl t = Some (True, s')" "runs p' s'" "mmap_next p' = mmap_next q" "umach s' = umach t"
    "resv_at p' = (\<lambda>x. if ?a \<le> x \<and> x < ?b then Some fl else resv_at p x)"
    using add [OF q'(1,3,4)] by blast
  show "\<exists>p' s'. do { s \<leftarrow> unmap_pages ?a ?b s; s \<leftarrow> cur_remove ?a ?b s; cur_add ?a ?b fl s } = Some (True, s') \<and> runs p' s' \<and> mmap_next p' = mmap_next p
       \<and> resv_at p' = (\<lambda>x. if ?a \<le> x \<and> x < ?b then Some fl else resv_at p x) \<and> pages_gone P A {i..<j} (zero_frame s) (umach s) (umach s')"
    using v q(1) e q' by (intro exI [of _ p'] exI [of _ s']) (simp add: dropped_def)
qed

lemma bump_past_spec:
  assumes "runs p s"
  shows "\<exists>p' s'. bump_past e s = Some s' \<and> runs p' s' \<and> resv_at p' = resv_at p \<and> umach s' = umach s \<and> mmap_next p' = max (mmap_next p) e"
proof (cases "mmap_next p < e")
  case True
  let ?q = "p\<lparr>mmap_next := e\<rparr>"
  have p: "cur s = Some p" "length (procs (table s)) = PROC64_MAX" "resv_ok p" using assms by (simp_all add: runs_def)
  note c = cur_set [OF p(1,2), of ?q]
  have regs: "regs ?q = regs p" by (simp add: regs_def)
  then have "resv_ok ?q" using p(3) by (simp add: resv_ok_def)
  moreover have "umach (set_cur ?q s) = umach s" by (simp add: set_cur_def split: option.split)
  ultimately show ?thesis using c(1,2) True p(1) regs by (intro exI [of _ ?q] exI [of _ "set_cur ?q s"]) (simp add: bump_past_def runs_def resv_at_def fun_eq_iff)
next
  case False
  then show ?thesis using assms by (intro exI [of _ p] exI [of _ s]) (simp add: bump_past_def runs_def)
qed

section \<open>Properties of mmap and munmap\<close>



section \<open>Witnesses\<close>

lemma uspace_demo_runs: "runs uproc_demo uspace_demo" "nresv uproc_demo + 2 \<le> 4096" "mmap_next uproc_demo = USPACE64_MMAP_BASE"
  using uspace_demo_cur uproc_demo_ok by (simp_all add: runs_def uspace_demo_def PROC64_MAX_def) (simp add: uproc_demo_def)

lemma uspace_demo_plain: "P \<subseteq> {..<2 ^ 35} \<Longrightarrow> plain_pages P (umach uspace_demo)"
  using user_pagesD(4) [OF uspace_demo_pages] by (auto simp: plain_pages_def)



end
