(* ===== verification/Sched64.thy ===== *)
theory Sched64
  imports Proc64 Vmspace64
begin

text \<open>
  \<^verbatim>\<open>kernel/sched64.c\<close>, with the tick counter of \<^verbatim>\<open>kernel/clock64.c\<close> and the timer handler of
  \<^verbatim>\<open>kernel/kmain64.c\<close> that drives it.

  The state is the task table with the statics of the file, the clock, the part of the processor a switch saves and restores (the two
  base registers and the floating-point registers, as the 512 bytes \<open>fxsave64\<close> writes), the process table and the
  machine whose \<open>cr3\<close> a switch loads. \<open>fninit\<close> is an argument of \<open>sched64_init\<close>. What the mask port says of the timer's line is a field.
  A register frame that a function is given through a pointer is an argument, and one it fills is part of the result;
  the functions that choose a successor give its frame, space and thread pointer, or nothing for the 0 of the code.

  Halting. \<open>sti; hlt; cli\<close> lets interrupts in; an argument \<open>ev\<close> says for the \<open>k\<close>-th halt which timer interrupts were taken, by the frames they
  interrupted. Other interrupts (the keyboard's and the mouse's) touch nothing of this state. Halting may go on for
  ever, so the functions that may halt are partial. Lines printed leave no trace, but the flag that a message has been printed is kept.
\<close>

unbundle bit_operations_syntax

section \<open>State\<close>

record registers64 =
  rax :: u64
  rbx :: u64
  rcx :: u64
  rdx :: u64
  rsi :: u64
  rdi :: u64
  rbp :: u64
  r8 :: u64
  r9 :: u64
  r10 :: u64
  r11 :: u64
  r12 :: u64
  r13 :: u64
  r14 :: u64
  r15 :: u64
  int_no :: u64
  err_code :: u64
  rip :: u64
  cs :: u64
  rflags :: u64
  rsp :: u64
  ss :: u64

record task64 =
  t_regs :: registers64
  t_space :: u64
  t_fs_base :: u64
  t_gs_base :: u64
  t_wait_addr :: u64
  t_wake_rax :: u64
  t_timeout_rax :: u64
  t_wait_bits :: "32 word"
  t_deadline :: nat
  t_signal_restart :: u64
  t_pid :: int
  t_blocked :: bool
  t_used :: bool
  t_fpu :: "byte list"

definition SCHED64_MAX_TASKS :: nat where "SCHED64_MAX_TASKS = 1024"
definition SCHED64_COND_KEY :: u64 where "SCHED64_COND_KEY = 0xFFFFFFFFFFFFFF01"
definition UCODE_SEL_RPL3 :: u64 where "UCODE_SEL_RPL3 = 0x23"
definition UDATA_SEL_RPL3 :: u64 where "UDATA_SEL_RPL3 = 0x1B"
definition RFLAGS_IF :: u64 where "RFLAGS_IF = 0x202"

record sched =
  tasks :: "task64 list"
  task_total :: int
  current :: int
  switch_count :: nat
  stop_after :: nat
  stop_rip :: u64
  said_full :: bool
  idling :: bool
  next_signal_restart :: u64
  fpu_initial :: "byte list"
  ticks :: nat
  timer_ticks :: nat
  boot_epoch :: nat
  irq0_masked :: bool
  fs_msr :: u64
  gs_msr :: u64
  fpu_regs :: "byte list"
  ptable :: proc_state
  smach :: machine

type_synonym successor = "registers64 \<times> u64 \<times> u64"

abbreviation task_at :: "sched \<Rightarrow> int \<Rightarrow> task64" where
  "task_at s i \<equiv> tasks s ! nat i"

definition tupd :: "nat \<Rightarrow> (task64 \<Rightarrow> task64) \<Rightarrow> sched \<Rightarrow> sched" where
  "tupd i f s = s\<lparr>tasks := (tasks s)[i := f (tasks s ! i)]\<rparr>"

definition zero_regs :: registers64 where
  "zero_regs = \<lparr>rax = 0, rbx = 0, rcx = 0, rdx = 0, rsi = 0, rdi = 0, rbp = 0, r8 = 0, r9 = 0, r10 = 0, r11 = 0, r12 = 0, r13 = 0,
     r14 = 0, r15 = 0, int_no = 0, err_code = 0, rip = 0, cs = 0, rflags = 0, rsp = 0, ss = 0\<rparr>"

section \<open>The clock\<close>

definition CLOCK64_HZ :: nat where "CLOCK64_HZ = 1000"

definition clock64_tick :: "sched \<Rightarrow> sched" where
  "clock64_tick s = s\<lparr>ticks := add64 (ticks s) 1\<rparr>"

definition clock64_ticks :: "sched \<Rightarrow> nat" where
  "clock64_ticks s = ticks s"

definition clock64_now :: "sched \<Rightarrow> nat \<times> nat" where
  "clock64_now s = (ticks s div CLOCK64_HZ, ticks s mod CLOCK64_HZ * (1000000000 div CLOCK64_HZ))"

text \<open>The seconds the real-time clock gives are an argument.\<close>

definition clock64_set_epoch_from_rtc :: "nat \<Rightarrow> sched \<Rightarrow> sched" where
  "clock64_set_epoch_from_rtc now s =
     (let up = ticks s div CLOCK64_HZ in s\<lparr>boot_epoch := (if now > up then now - up else now)\<rparr>)"

definition clock64_realtime :: "sched \<Rightarrow> nat \<times> nat" where
  "clock64_realtime s = (add64 (boot_epoch s) (ticks s div CLOCK64_HZ), ticks s mod CLOCK64_HZ * (1000000000 div CLOCK64_HZ))"

section \<open>The table\<close>

text \<open>The four bytes of \<open>MXCSR\<close> at offset 24.\<close>

definition sched64_init :: "(byte list \<Rightarrow> byte list) \<Rightarrow> sched \<Rightarrow> sched" where
  "sched64_init fninit s =
     (let s = s\<lparr>fpu_regs := fninit (fpu_regs s)\<rparr>;
          s = s\<lparr>fpu_initial := (fpu_regs s)[24 := 0x80, 25 := 0x1F, 26 := 0, 27 := 0]\<rparr>;
          s = s\<lparr>tasks := map (\<lambda>t. t\<lparr>t_used := False\<rparr>) (tasks s)\<rparr>
      in s\<lparr>task_total := 0, current := -1, switch_count := 0, stop_after := 0, stop_rip := 0\<rparr>)"

definition tasks_full :: "sched \<Rightarrow> sched" where
  "tasks_full s = s\<lparr>said_full := True\<rparr>"

definition sched64_task_peek :: "int \<Rightarrow> sched \<Rightarrow> (int \<times> u64 \<times> u64 \<times> u64 \<times> u64) option" where
  "sched64_task_peek i s =
     (if i < 0 \<or> i \<ge> int SCHED64_MAX_TASKS \<or> \<not> t_used (task_at s i) then None
      else (let t = task_at s i
            in Some (t_pid t, if t_blocked t then t_wait_addr t else 0, t_gs_base t, rsp (t_regs t), t_space t)))"

definition sched64_blocked_on :: "int \<Rightarrow> sched \<Rightarrow> u64" where
  "sched64_blocked_on i s =
     (if i < 0 \<or> i \<ge> int SCHED64_MAX_TASKS then 0
      else if \<not> t_used (task_at s i) \<or> \<not> t_blocked (task_at s i) then 0
      else t_wait_addr (task_at s i))"

definition sched64_blocked_pid :: "int \<Rightarrow> sched \<Rightarrow> int" where
  "sched64_blocked_pid i s =
     (if i < 0 \<or> i \<ge> int SCHED64_MAX_TASKS then -1
      else if \<not> t_used (task_at s i) \<or> \<not> t_blocked (task_at s i) then -1
      else t_pid (task_at s i))"

definition sched64_pid_tasks :: "int \<Rightarrow> sched \<Rightarrow> nat" where
  "sched64_pid_tasks p s = length (filter (\<lambda>i. t_used (tasks s ! i) \<and> t_pid (tasks s ! i) = p) [0..<SCHED64_MAX_TASKS])"

definition sched64_space_in_use :: "u64 \<Rightarrow> sched \<Rightarrow> bool" where
  "sched64_space_in_use pml4 s \<longleftrightarrow>
     pml4 = 0 \<or> list_ex (\<lambda>i. t_used (tasks s ! i) \<and> t_space (tasks s ! i) = pml4) [0..<SCHED64_MAX_TASKS]"

definition free_task :: "sched \<Rightarrow> nat option" where
  "free_task s = find (\<lambda>i. \<not> t_used (tasks s ! i)) [0..<SCHED64_MAX_TASKS]"

text \<open>The slot, or -1. The fields the code does not assign keep what the last task in the slot left.\<close>

definition sched64_add :: "u64 \<Rightarrow> u64 \<Rightarrow> u64 \<Rightarrow> u64 \<Rightarrow> sched \<Rightarrow> int \<times> sched" where
  "sched64_add rip0 rsp0 arg vs s =
     (case free_task s of
        None \<Rightarrow> (-1, tasks_full s)
      | Some i \<Rightarrow>
          (let s = tupd i (\<lambda>t. t\<lparr>t_regs := zero_regs, t_gs_base := gs_msr s, t_fpu := fpu_initial s\<rparr>) s;
               s = tupd i (\<lambda>t. t\<lparr>t_regs := (t_regs t)\<lparr>rip := rip0, rsp := rsp0, cs := UCODE_SEL_RPL3, ss := UDATA_SEL_RPL3,
                     rflags := RFLAGS_IF, rdi := arg\<rparr>\<rparr>) s;
               s = tupd i (\<lambda>t. t\<lparr>t_space := vs, t_fs_base := 0, t_blocked := False, t_wait_addr := 0,
                     t_pid := proc64_current_pid (ptable s), t_used := True\<rparr>) s
           in (int i, s\<lparr>task_total := task_total s + 1\<rparr>)))"

definition sched64_add_frame_for :: "registers64 \<Rightarrow> u64 \<Rightarrow> u64 \<Rightarrow> int \<Rightarrow> sched \<Rightarrow> int \<times> sched" where
  "sched64_add_frame_for r vs fsb p s =
     (case free_task s of
        None \<Rightarrow> (-1, tasks_full s)
      | Some i \<Rightarrow>
          (let s = tupd i (\<lambda>t. t\<lparr>t_pid := p, t_regs := r, t_space := vs, t_fs_base := fsb, t_blocked := False, t_wait_addr := 0,
                     t_used := True, t_gs_base := gs_msr s, t_fpu := fpu_initial s\<rparr>) s
           in (int i, s\<lparr>task_total := task_total s + 1\<rparr>)))"

definition sched64_add_frame :: "registers64 \<Rightarrow> u64 \<Rightarrow> u64 \<Rightarrow> sched \<Rightarrow> int \<times> sched" where
  "sched64_add_frame r vs fsb s = sched64_add_frame_for r vs fsb (proc64_current_pid (ptable s)) s"

definition no_current :: "sched \<Rightarrow> bool" where
  "no_current s \<longleftrightarrow> current s < 0 \<or> \<not> t_used (task_at s (current s))"

definition sched64_set_current_space :: "u64 \<Rightarrow> sched \<Rightarrow> sched" where
  "sched64_set_current_space vs s =
     (if no_current s then s else tupd (nat (current s)) (\<lambda>t. t\<lparr>t_space := vs\<rparr>) s)"

definition sched64_current_space :: "sched \<Rightarrow> u64 option" where
  "sched64_current_space s = (if no_current s then None else Some (t_space (task_at s (current s))))"

definition sched64_set_current :: "int \<Rightarrow> sched \<Rightarrow> sched" where
  "sched64_set_current i s =
     (let s = s\<lparr>current := i\<rparr>
      in if 0 \<le> i \<and> i < int SCHED64_MAX_TASKS then tupd (nat i) (\<lambda>t. t\<lparr>t_fs_base := fs_msr s\<rparr>) s else s)"

definition sched64_current :: "sched \<Rightarrow> int" where
  "sched64_current s = current s"

definition sched64_switches :: "sched \<Rightarrow> nat" where
  "sched64_switches s = switch_count s"

definition sched64_stop_after :: "nat \<Rightarrow> u64 \<Rightarrow> sched \<Rightarrow> sched" where
  "sched64_stop_after n r s = s\<lparr>stop_after := n, stop_rip := r\<rparr>"

section \<open>Choosing\<close>

definition runnable :: "task64 \<Rightarrow> bool" where
  "runnable t \<longleftrightarrow> t_used t \<and> \<not> t_blocked t"

definition first_runnable :: "sched \<Rightarrow> nat option" where
  "first_runnable s = find (\<lambda>i. runnable (tasks s ! i)) [0..<SCHED64_MAX_TASKS]"

definition any_deadline :: "sched \<Rightarrow> bool" where
  "any_deadline s \<longleftrightarrow>
     list_ex (\<lambda>i. t_used (tasks s ! i) \<and> t_blocked (tasks s ! i) \<and> t_deadline (tasks s ! i) \<noteq> 0) [0..<SCHED64_MAX_TASKS]"

definition next_task :: "nat \<Rightarrow> sched \<Rightarrow> nat" where
  "next_task from s =
     (case find (\<lambda>i. runnable (tasks s ! i)) (map (\<lambda>n. (from + n) mod SCHED64_MAX_TASKS) [1..<SCHED64_MAX_TASKS + 1]) of
        Some i \<Rightarrow> i | None \<Rightarrow> from)"

definition expire :: "nat \<Rightarrow> task64 \<Rightarrow> task64" where
  "expire now t =
     (if \<not> t_used t \<or> \<not> t_blocked t then t
      else if t_deadline t = 0 \<or> now < t_deadline t then t
      else t\<lparr>t_blocked := False, t_wait_addr := 0, t_deadline := 0, t_regs := (t_regs t)\<lparr>rax := t_timeout_rax t\<rparr>\<rparr>)"

definition expire_deadlines :: "sched \<Rightarrow> sched" where
  "expire_deadlines s = s\<lparr>tasks := map (expire (clock64_ticks s)) (tasks s)\<rparr>"

text \<open>Loading a task: its registers into the processor, the rest for the caller to enter it with.\<close>

definition switch_to :: "nat \<Rightarrow> sched \<Rightarrow> successor \<times> sched" where
  "switch_to n s =
     (let t = tasks s ! n
      in ((t_regs t, t_space t, t_fs_base t),
          s\<lparr>current := int n, fpu_regs := t_fpu t, gs_msr := t_gs_base t, ptable := proc64_set_current (t_pid t) (ptable s)\<rparr>))"

section \<open>The timer\<close>

definition sched64_tick :: "registers64 \<Rightarrow> sched \<Rightarrow> registers64 \<times> sched" where
  "sched64_tick frame s =
     (let s = expire_deadlines s
      in if idling s then (frame, s)
         else if current s < 0 \<or> task_total s < 2 then (frame, s)
         else
         (let c = nat (current s); next = next_task c s
          in if next = c then (frame, s)
             else
             (let s = tupd c (\<lambda>t. t\<lparr>t_regs := frame, t_fs_base := fs_msr s, t_gs_base := gs_msr s, t_fpu := fpu_regs s\<rparr>) s;
                  ((r, vs, fsb), s) = switch_to next s;
                  s = s\<lparr>smach := vmspace64_switch vs (smach s), fs_msr := fsb, switch_count := add64 (switch_count s) 1\<rparr>
              in (if stop_after s \<noteq> 0 \<and> switch_count s \<ge> stop_after s \<and> stop_rip s \<noteq> 0 then r\<lparr>rip := stop_rip s\<rparr> else r, s))))"

definition sched_timer_handler :: "registers64 \<Rightarrow> sched \<Rightarrow> registers64 \<times> sched" where
  "sched_timer_handler r s = sched64_tick r (clock64_tick (s\<lparr>timer_ticks := add64 (timer_ticks s) 1\<rparr>))"

section \<open>Idling\<close>

definition halt :: "registers64 list \<Rightarrow> sched \<Rightarrow> sched" where
  "halt frms s = fold (\<lambda>f s. snd (sched_timer_handler f s)) frms s"

partial_function (option) idle_loop :: "(nat \<Rightarrow> registers64 list) \<Rightarrow> nat \<Rightarrow> sched \<Rightarrow> (nat option \<times> sched) option" where
  "idle_loop ev k s =
     (let s = expire_deadlines (halt (ev k) s)
      in case first_runnable s of
           Some n \<Rightarrow> Some (Some n, s)
         | None \<Rightarrow> if \<not> any_deadline s then Some (None, s) else idle_loop ev (k + 1) s)"

definition idle_until_runnable :: "(nat \<Rightarrow> registers64 list) \<Rightarrow> sched \<Rightarrow> (nat option \<times> sched) option" where
  "idle_until_runnable ev s = do {
     (n, s) \<leftarrow> idle_loop ev 0 (s\<lparr>idling := True\<rparr>);
     Some (n, s\<lparr>idling := False\<rparr>)
   }"

section \<open>Ending\<close>

text \<open>The first task that can run, after a wait for the clock where one can come.\<close>

definition find_successor :: "(nat \<Rightarrow> registers64 list) \<Rightarrow> sched \<Rightarrow> (successor option \<times> sched) option" where
  "find_successor ev s = do {
     (next, s) \<leftarrow> (case first_runnable s of
                     Some n \<Rightarrow> Some (Some n, s)
                   | None \<Rightarrow> if \<not> irq0_masked s \<and> any_deadline s then idle_until_runnable ev s else Some (None, s));
     Some (case next of
             None \<Rightarrow> (None, s\<lparr>current := -1\<rparr>)
           | Some n \<Rightarrow> (let (out, s) = switch_to n s in (Some out, s)))
   }"

definition drop_task :: "nat \<Rightarrow> sched \<Rightarrow> sched" where
  "drop_task i s =
     (let s = tupd i (\<lambda>t. t\<lparr>t_used := False\<rparr>) s in if task_total s > 0 then s\<lparr>task_total := task_total s - 1\<rparr> else s)"

definition sched64_exit_current :: "(nat \<Rightarrow> registers64 list) \<Rightarrow> sched \<Rightarrow> (successor option \<times> sched) option" where
  "sched64_exit_current ev s =
     (if no_current s then Some (None, s) else find_successor ev (drop_task (nat (current s)) s))"

definition remove_step :: "int \<Rightarrow> nat \<Rightarrow> nat \<times> sched \<Rightarrow> nat \<times> sched" where
  "remove_step p i x =
     (let (n, s) = x
      in if \<not> t_used (tasks s ! i) \<or> t_pid (tasks s ! i) \<noteq> p then (n, s)
         else (let s = drop_task i s; s = (if int i = current s then s\<lparr>current := -1\<rparr> else s) in (n + 1, s)))"

definition sched64_remove_pid :: "int \<Rightarrow> sched \<Rightarrow> nat \<times> sched" where
  "sched64_remove_pid p s = fold (remove_step p) [0..<SCHED64_MAX_TASKS] (0, s)"

definition end_step :: "int \<Rightarrow> nat \<Rightarrow> sched \<Rightarrow> sched" where
  "end_step p i s = (if \<not> t_used (tasks s ! i) \<or> t_pid (tasks s ! i) \<noteq> p then s else drop_task i s)"

definition sched64_exit_process :: "(nat \<Rightarrow> registers64 list) \<Rightarrow> int \<Rightarrow> sched \<Rightarrow> (successor option \<times> sched) option" where
  "sched64_exit_process ev p s = find_successor ev (fold (end_step p) [0..<SCHED64_MAX_TASKS] s)"

section \<open>Waiting\<close>

definition sched64_signal_restart :: "u64 \<Rightarrow> sched \<Rightarrow> sched" where
  "sched64_signal_restart nr s = s\<lparr>next_signal_restart := nr\<rparr>"

definition unblock :: "nat \<Rightarrow> sched \<Rightarrow> sched" where
  "unblock i s = tupd i (\<lambda>t. t\<lparr>t_blocked := False, t_wait_addr := 0, t_deadline := 0\<rparr>) s"

text \<open>Saving what a successor would overwrite, and loading it.\<close>

definition leave_for :: "nat \<Rightarrow> sched \<Rightarrow> successor option \<times> sched" where
  "leave_for n s =
     (let s = tupd (nat (current s)) (\<lambda>t. t\<lparr>t_gs_base := gs_msr s, t_fpu := fpu_regs s\<rparr>) s;
          (out, s) = switch_to n s
      in (Some out, s))"

definition sched64_block_until_ex ::
    "(nat \<Rightarrow> registers64 list) \<Rightarrow> registers64 \<Rightarrow> u64 \<Rightarrow> u64 \<Rightarrow> u64 \<Rightarrow> nat \<Rightarrow> 32 word \<Rightarrow> sched \<Rightarrow> (successor option \<times> sched) option" where
  "sched64_block_until_ex ev r addr wake_rax timeout_rax deadline bits s =
     (if no_current s then Some (None, s)
      else
      (let c = nat (current s);
           s = tupd c (\<lambda>t. t\<lparr>t_fs_base := fs_msr s, t_regs := r, t_blocked := True, t_wait_addr := addr, t_wake_rax := wake_rax,
                 t_timeout_rax := timeout_rax, t_wait_bits := bits, t_deadline := deadline, t_signal_restart := next_signal_restart s\<rparr>) s;
           s = s\<lparr>next_signal_restart := 0\<rparr>;
           next = next_task c s
       in if next = c \<or> t_blocked (tasks s ! next)
          then (if irq0_masked s \<or> \<not> any_deadline s then Some (None, unblock c s)
                else do {
                  (n, s) \<leftarrow> idle_until_runnable ev s;
                  Some (case n of None \<Rightarrow> (None, unblock c s) | Some n \<Rightarrow> leave_for n s)
                })
          else Some (leave_for next s)))"

definition sched64_block_until ::
    "(nat \<Rightarrow> registers64 list) \<Rightarrow> registers64 \<Rightarrow> u64 \<Rightarrow> u64 \<Rightarrow> nat \<Rightarrow> sched \<Rightarrow> (successor option \<times> sched) option" where
  "sched64_block_until ev r addr wake_rax deadline s = sched64_block_until_ex ev r addr wake_rax wake_rax deadline 0xFFFFFFFF s"

definition sched64_block_current ::
    "(nat \<Rightarrow> registers64 list) \<Rightarrow> registers64 \<Rightarrow> u64 \<Rightarrow> u64 \<Rightarrow> sched \<Rightarrow> (successor option \<times> sched) option" where
  "sched64_block_current ev r addr wake_rax s = sched64_block_until ev r addr wake_rax 0 s"

definition sched64_yield_current :: "registers64 \<Rightarrow> sched \<Rightarrow> successor option \<times> sched" where
  "sched64_yield_current r s =
     (if no_current s then (None, s)
      else
      (let c = nat (current s); s = tupd c (\<lambda>t. t\<lparr>t_fs_base := fs_msr s, t_regs := r\<rparr>) s; next = next_task c s
       in if next = c then (None, s) else leave_for next s))"

section \<open>Waking\<close>

definition woken_by_signal :: "task64 \<Rightarrow> task64" where
  "woken_by_signal t =
     (let t = t\<lparr>t_blocked := False, t_wait_addr := 0\<rparr>
      in if t_signal_restart t \<noteq> 0
         then t\<lparr>t_regs := (t_regs t)\<lparr>rip := rip (t_regs t) - 2, rax := t_signal_restart t\<rparr>, t_signal_restart := 0\<rparr>
         else t\<lparr>t_regs := (t_regs t)\<lparr>rax := t_wake_rax t\<rparr>\<rparr>)"

definition wake_pid_step :: "int \<Rightarrow> nat \<Rightarrow> nat \<times> sched \<Rightarrow> nat \<times> sched" where
  "wake_pid_step p i x =
     (let (n, s) = x; t = tasks s ! i
      in if \<not> t_used t \<or> \<not> t_blocked t \<or> t_pid t \<noteq> p then (n, s) else (n + 1, tupd i woken_by_signal s))"

definition sched64_wake_pid :: "int \<Rightarrow> sched \<Rightarrow> nat \<times> sched" where
  "sched64_wake_pid p s = fold (wake_pid_step p) [0..<SCHED64_MAX_TASKS] (0, s)"

definition sched64_task_pid :: "int \<Rightarrow> sched \<Rightarrow> int" where
  "sched64_task_pid tid s =
     (if tid < 0 \<or> tid \<ge> int SCHED64_MAX_TASKS \<or> \<not> t_used (task_at s tid) then -1 else t_pid (task_at s tid))"

definition sched64_wake_tid :: "int \<Rightarrow> sched \<Rightarrow> bool \<times> sched" where
  "sched64_wake_tid tid s =
     (if tid < 0 \<or> tid \<ge> int SCHED64_MAX_TASKS \<or> \<not> t_used (task_at s tid) \<or> \<not> t_blocked (task_at s tid) then (False, s)
      else (True, tupd (nat tid) woken_by_signal s))"

definition woken :: "task64 \<Rightarrow> task64" where
  "woken t = t\<lparr>t_blocked := False, t_wait_addr := 0, t_regs := (t_regs t)\<lparr>rax := t_wake_rax t\<rparr>\<rparr>"

definition wakes :: "u64 \<Rightarrow> 32 word \<Rightarrow> int \<Rightarrow> task64 \<Rightarrow> bool" where
  "wakes addr bits p t \<longleftrightarrow> t_used t \<and> t_blocked t \<and> t_wait_addr t = addr \<and> (p \<ge> 0 \<longrightarrow> t_pid t = p) \<and> t_wait_bits t AND bits \<noteq> 0"

fun wake_loop :: "u64 \<Rightarrow> int \<Rightarrow> 32 word \<Rightarrow> int \<Rightarrow> nat list \<Rightarrow> nat \<times> sched \<Rightarrow> nat \<times> sched" where
  "wake_loop addr lim bits p [] x = x"
| "wake_loop addr lim bits p (i # is) (n, s) =
     (if \<not> int n < lim then (n, s)
      else if \<not> wakes addr bits p (tasks s ! i) then wake_loop addr lim bits p is (n, s)
      else wake_loop addr lim bits p is (n + 1, tupd i woken s))"

definition release_cond :: "task64 \<Rightarrow> task64" where
  "release_cond t =
     (if \<not> t_used t \<or> \<not> t_blocked t \<or> t_wait_addr t \<noteq> SCHED64_COND_KEY then t else (woken t)\<lparr>t_deadline := 0\<rparr>)"

definition sched64_wake_futex :: "u64 \<Rightarrow> int \<Rightarrow> 32 word \<Rightarrow> int \<Rightarrow> sched \<Rightarrow> nat \<times> sched" where
  "sched64_wake_futex addr lim bits p s =
     (let (n, s) = wake_loop addr lim bits p [0..<SCHED64_MAX_TASKS] (0, s)
      in (n, s\<lparr>tasks := map release_cond (tasks s)\<rparr>))"

definition sched64_wake_bits :: "u64 \<Rightarrow> int \<Rightarrow> 32 word \<Rightarrow> sched \<Rightarrow> nat \<times> sched" where
  "sched64_wake_bits addr lim bits s = sched64_wake_futex addr lim bits (-1) s"

definition sched64_wake :: "u64 \<Rightarrow> int \<Rightarrow> sched \<Rightarrow> nat \<times> sched" where
  "sched64_wake addr lim s = sched64_wake_bits addr lim 0xFFFFFFFF s"

end
