(* ===== verification/Signal64.thy ===== *)
theory Signal64
  imports Sched64 Uspace64
begin

text \<open>
  \<^verbatim>\<open>kernel/signal64.c\<close>: recording signals against processes and tasks, masks, handlers, the alternate stack, and the
  frame a handler runs on.

  The state is the statics of the file, the scheduler for the current task and the floating-point registers, and the user memory with the process
  table. An argument that the code takes through a pointer that may be null is an option; what a function stores through
  such a pointer is part of its result, for the caller to keep or drop, and the pointers of one call are taken to be distinct.
  \<open>None\<close> is a page fault of the kernel, or a loop over the pages of a range that never ends. A store goes to the frame
  the processor finds, whatever the permissions of the page. The trace lines leave no trace here.
\<close>

unbundle bit_operations_syntax

section \<open>State\<close>

definition NSIG :: nat where "NSIG = 64"
definition SIG64_KILLSIG :: int where "SIG64_KILLSIG = 9"
definition SIG64_CHLD :: int where "SIG64_CHLD = 17"
definition SIG64_CONT :: int where "SIG64_CONT = 18"
definition SIG64_STOP :: int where "SIG64_STOP = 19"
definition SIG64_TSTP :: int where "SIG64_TSTP = 20"
definition SIG64_TTIN :: int where "SIG64_TTIN = 21"
definition SIG64_TTOU :: int where "SIG64_TTOU = 22"
definition SIG64_URG :: int where "SIG64_URG = 23"
definition SIG64_WINCH :: int where "SIG64_WINCH = 28"
definition SA_ONSTACK :: u64 where "SA_ONSTACK = 0x08000000"
definition SA_RESTORER :: u64 where "SA_RESTORER = 0x04000000"
definition SA_NODEFER :: u64 where "SA_NODEFER = 0x40000000"
definition SA_RESETHAND :: u64 where "SA_RESETHAND = 0x80000000"
definition SIG64_BLOCK :: int where "SIG64_BLOCK = 0"
definition SIG64_UNBLOCK :: int where "SIG64_UNBLOCK = 1"
definition SIG64_SETMASK :: int where "SIG64_SETMASK = 2"
definition SS_ONSTACK :: int where "SS_ONSTACK = 1"
definition SS_DISABLE :: int where "SS_DISABLE = 2"
definition SIG64_IGN :: u64 where "SIG64_IGN = 1"

datatype disposition = SIG64_DISP_TERM | SIG64_DISP_IGNORE | SIG64_DISP_HANDLER

record ksigaction64 =
  handler :: u64
  sa_flags :: u64
  restorer :: u64
  sa_mask :: u64

definition SIG_DFL :: ksigaction64 where
  "SIG_DFL = \<lparr>handler = 0, sa_flags = 0, restorer = 0, sa_mask = 0\<rparr>"

record altstack64 =
  ss_sp :: u64
  ss_flags :: int
  ss_pad :: int
  ss_size :: u64

record sigstate =
  handlers_by_slot :: "ksigaction64 list list"
  delivered :: nat
  returns :: nat
  raised :: nat
  pending_by_slot :: "u64 list"
  pending_by_task :: "u64 list"
  sender_by_slot :: "int list list"
  sender_by_task :: "int list list"
  blocked_by_task :: "u64 list"
  saved_by_task :: "u64 list"
  has_saved_by_task :: "bool list"
  sas_sp_by_task :: "u64 list"
  sas_size_by_task :: "u64 list"
  signal_trace :: bool
  sch :: sched
  us :: ustate

definition sigbit :: "int \<Rightarrow> u64" where
  "sigbit sig = push_bit (nat sig) 1"

definition UNBLOCKABLE :: u64 where
  "UNBLOCKABLE = sigbit SIG64_KILLSIG OR sigbit SIG64_STOP"

definition bad_sig :: "int \<Rightarrow> bool" where
  "bad_sig sig \<longleftrightarrow> sig \<le> 0 \<or> sig \<ge> int NSIG"

definition bad_task :: "int \<Rightarrow> bool" where
  "bad_task t \<longleftrightarrow> t < 0 \<or> t \<ge> int SCHED64_MAX_TASKS"

definition bad_slot :: "int \<Rightarrow> bool" where
  "bad_slot k \<longleftrightarrow> k < 0 \<or> k \<ge> int PROC64_MAX"

section \<open>Handlers and the current task\<close>

definition handlers_of :: "int \<Rightarrow> nat" where
  "handlers_of slot = (if bad_slot slot then 0 else nat slot)"

definition my_handlers :: "sigstate \<Rightarrow> nat" where
  "my_handlers s = handlers_of (proc64_current_slot (table (us s)))"

definition action :: "nat \<Rightarrow> int \<Rightarrow> sigstate \<Rightarrow> ksigaction64" where
  "action k sig s = handlers_by_slot s ! k ! nat sig"

definition set_action :: "nat \<Rightarrow> int \<Rightarrow> ksigaction64 \<Rightarrow> sigstate \<Rightarrow> sigstate" where
  "set_action k sig a s = s\<lparr>handlers_by_slot := (handlers_by_slot s)[k := (handlers_by_slot s ! k)[nat sig := a]]\<rparr>"

definition my_task :: "sigstate \<Rightarrow> int" where
  "my_task s = (let t = sched64_current (sch s) in if t \<ge> 0 \<and> t < int SCHED64_MAX_TASKS then t else -1)"

text \<open>What \<open>my_blocked()\<close> points at: with no current task, a word that is zero whenever it is read.\<close>

definition my_blocked :: "sigstate \<Rightarrow> u64" where
  "my_blocked s = (let t = sched64_current (sch s) in if bad_task t then 0 else blocked_by_task s ! nat t)"

definition set_my_blocked :: "u64 \<Rightarrow> sigstate \<Rightarrow> sigstate" where
  "set_my_blocked v s =
     (let t = sched64_current (sch s) in if bad_task t then s else s\<lparr>blocked_by_task := (blocked_by_task s)[nat t := v]\<rparr>)"

definition from_user_set :: "u64 \<Rightarrow> u64" where
  "from_user_set u = push_bit 1 u AND NOT UNBLOCKABLE"

definition to_user_set :: "u64 \<Rightarrow> u64" where
  "to_user_set k = drop_bit 1 k"

section \<open>Masks\<close>

definition signal64_push_mask :: "u64 \<Rightarrow> sigstate \<Rightarrow> sigstate" where
  "signal64_push_mask user_set s =
     (let t = sched64_current (sch s)
      in if bad_task t then s
         else
         (let i = nat t;
              s = (if \<not> has_saved_by_task s ! i
                   then s\<lparr>saved_by_task := (saved_by_task s)[i := blocked_by_task s ! i], has_saved_by_task := (has_saved_by_task s)[i := True]\<rparr>
                   else s)
          in s\<lparr>blocked_by_task := (blocked_by_task s)[i := from_user_set user_set]\<rparr>))"

definition signal64_pop_mask :: "sigstate \<Rightarrow> bool \<times> sigstate" where
  "signal64_pop_mask s =
     (let t = sched64_current (sch s); i = nat t
      in if bad_task t \<or> \<not> has_saved_by_task s ! i then (False, s)
         else (True, s\<lparr>blocked_by_task := (blocked_by_task s)[i := saved_by_task s ! i], has_saved_by_task := (has_saved_by_task s)[i := False]\<rparr>))"

definition signal64_blocked :: "int \<Rightarrow> sigstate \<Rightarrow> u64" where
  "signal64_blocked tid s = (if bad_task tid then 0 else blocked_by_task s ! nat tid)"

text \<open>The result and what is stored as the old set, when something is.\<close>

definition signal64_sigprocmask :: "int \<Rightarrow> u64 option \<Rightarrow> nat \<Rightarrow> sigstate \<Rightarrow> int \<times> u64 option \<times> sigstate" where
  "signal64_sigprocmask how set0 setsize s =
     (let was = my_blocked s
      in if setsize \<noteq> 8 then (-22, None, s)
         else
         (case set0 of
            None \<Rightarrow> (0, Some (to_user_set was), s)
          | Some u \<Rightarrow>
              (let k = from_user_set u
               in if how = SIG64_BLOCK then (0, Some (to_user_set was), set_my_blocked (was OR k) s)
                  else if how = SIG64_UNBLOCK then (0, Some (to_user_set was), set_my_blocked (was AND NOT k) s)
                  else if how = SIG64_SETMASK then (0, Some (to_user_set was), set_my_blocked k s)
                  else (-22, None, s))))"

definition task_pending :: "int \<Rightarrow> sigstate \<Rightarrow> u64" where
  "task_pending t s = (if bad_task t then 0 else pending_by_task s ! nat t)"

definition slot_pending :: "int \<Rightarrow> sigstate \<Rightarrow> u64" where
  "slot_pending k s = (if bad_slot k then 0 else pending_by_slot s ! nat k)"

definition signal64_sigpending :: "sigstate \<Rightarrow> u64" where
  "signal64_sigpending s =
     (let t = sched64_current (sch s); slot = proc64_current_slot (table (us s)); k = 0 OR task_pending t s OR slot_pending slot s
      in to_user_set k AND drop_bit 1 (my_blocked s))"

definition signal64_task_start :: "int \<Rightarrow> int \<Rightarrow> sigstate \<Rightarrow> sigstate" where
  "signal64_task_start tid from_tid s =
     (if bad_task tid then s
      else
      (let i = nat tid
       in s\<lparr>pending_by_task := (pending_by_task s)[i := 0],
            blocked_by_task := (blocked_by_task s)[i := if bad_task from_tid then 0 else blocked_by_task s ! nat from_tid],
            has_saved_by_task := (has_saved_by_task s)[i := False],
            sas_sp_by_task := (sas_sp_by_task s)[i := 0],
            sas_size_by_task := (sas_size_by_task s)[i := 0]\<rparr>))"

section \<open>What a signal does\<close>

definition default_is_ignore :: "int \<Rightarrow> bool" where
  "default_is_ignore sig \<longleftrightarrow>
     sig \<in> {SIG64_CHLD, SIG64_CONT, SIG64_URG, SIG64_WINCH, SIG64_STOP, SIG64_TSTP, SIG64_TTIN, SIG64_TTOU}"

definition signal64_disposition :: "int \<Rightarrow> int \<Rightarrow> sigstate \<Rightarrow> disposition" where
  "signal64_disposition p sig s =
     (if bad_sig sig then SIG64_DISP_IGNORE
      else if sig = SIG64_KILLSIG then SIG64_DISP_TERM
      else
      (let h = action (handlers_of (proc64_slot_of p (table (us s)))) sig s
       in if handler h = SIG64_IGN then SIG64_DISP_IGNORE
          else if handler h \<noteq> 0 then SIG64_DISP_HANDLER
          else if default_is_ignore sig then SIG64_DISP_IGNORE else SIG64_DISP_TERM))"

section \<open>Pending signals\<close>

definition signal64_raise :: "int \<Rightarrow> int \<Rightarrow> sigstate \<Rightarrow> int \<times> sigstate" where
  "signal64_raise p sig s =
     (let slot = proc64_slot_of p (table (us s)); k = nat slot
      in if bad_sig sig then (-22, s)
         else if bad_slot slot then (-3, s)
         else (0, s\<lparr>pending_by_slot := (pending_by_slot s)[k := pending_by_slot s ! k OR sigbit sig],
                     sender_by_slot := (sender_by_slot s)[k := (sender_by_slot s ! k)[nat sig := proc64_current_pid (table (us s))]],
                     raised := add64 (raised s) 1\<rparr>))"

definition signal64_has_pending :: "int \<Rightarrow> sigstate \<Rightarrow> bool" where
  "signal64_has_pending p s =
     (let slot = proc64_slot_of p (table (us s)) in if bad_slot slot then False else (pending_by_slot s ! nat slot AND NOT (my_blocked s)) \<noteq> 0)"

text \<open>The loop that looks for the lowest signal of a set.\<close>

definition lowest :: "u64 \<Rightarrow> int option" where
  "lowest set0 = map_option int (find (\<lambda>sig. set0 AND sigbit (int sig) \<noteq> 0) [1..<NSIG])"

definition signal64_take_pending :: "int \<Rightarrow> sigstate \<Rightarrow> int \<times> sigstate" where
  "signal64_take_pending p s =
     (let slot = proc64_slot_of p (table (us s)); k = nat slot
      in if bad_slot slot then (0, s)
         else
         (let set0 = pending_by_slot s ! k AND NOT (my_blocked s)
          in if set0 = 0 then (0, s)
             else (case lowest set0 of
                     Some sig \<Rightarrow> (sig, s\<lparr>pending_by_slot := (pending_by_slot s)[k := pending_by_slot s ! k AND NOT (sigbit sig)]\<rparr>)
                   | None \<Rightarrow> (0, s))))"

definition signal64_raise_task :: "int \<Rightarrow> int \<Rightarrow> sigstate \<Rightarrow> int \<times> sigstate" where
  "signal64_raise_task tid sig s =
     (if bad_sig sig then (-22, s)
      else if bad_task tid then (-3, s)
      else if sched64_task_pid tid (sch s) < 0 then (-3, s)
      else
      (let i = nat tid
       in (0, s\<lparr>pending_by_task := (pending_by_task s)[i := pending_by_task s ! i OR sigbit sig],
                sender_by_task := (sender_by_task s)[i := (sender_by_task s ! i)[nat sig := proc64_current_pid (table (us s))]],
                raised := add64 (raised s) 1\<rparr>)))"

definition signal64_has_pending_task :: "int \<Rightarrow> sigstate \<Rightarrow> bool" where
  "signal64_has_pending_task tid s =
     (if bad_task tid then False else (pending_by_task s ! nat tid AND NOT (blocked_by_task s ! nat tid)) \<noteq> 0)"

definition signal64_take_pending_task :: "int \<Rightarrow> sigstate \<Rightarrow> int \<times> sigstate" where
  "signal64_take_pending_task tid s =
     (if bad_task tid then (0, s)
      else
      (let i = nat tid; set0 = pending_by_task s ! i AND NOT (blocked_by_task s ! i)
       in if set0 = 0 then (0, s)
          else (case lowest set0 of
                  Some sig \<Rightarrow> (sig, s\<lparr>pending_by_task := (pending_by_task s)[i := pending_by_task s ! i AND NOT (sigbit sig)]\<rparr>)
                | None \<Rightarrow> (0, s))))"

text \<open>The signal, whether it was the task's, and the sender.\<close>

definition signal64_take_in_set :: "u64 \<Rightarrow> sigstate \<Rightarrow> (int \<times> bool \<times> int) option \<times> sigstate" where
  "signal64_take_in_set user_set s =
     (let want = from_user_set user_set; t = sched64_current (sch s); slot = proc64_current_slot (table (us s))
      in case lowest (task_pending t s AND want) of
           Some sig \<Rightarrow> (Some (sig, True, sender_by_task s ! nat t ! nat sig),
             s\<lparr>pending_by_task := (pending_by_task s)[nat t := pending_by_task s ! nat t AND NOT (sigbit sig)]\<rparr>)
         | None \<Rightarrow>
             (case lowest (slot_pending slot s AND want) of
                Some sig \<Rightarrow> (Some (sig, False, sender_by_slot s ! nat slot ! nat sig),
                  s\<lparr>pending_by_slot := (pending_by_slot s)[nat slot := pending_by_slot s ! nat slot AND NOT (sigbit sig)]\<rparr>)
              | None \<Rightarrow> (None, s)))"

definition signal64_pending_in_set :: "u64 \<Rightarrow> sigstate \<Rightarrow> bool" where
  "signal64_pending_in_set user_set s =
     (let want = from_user_set user_set; t = sched64_current (sch s); slot = proc64_current_slot (table (us s));
          have0 = 0 OR task_pending t s OR slot_pending slot s
      in (have0 AND want) \<noteq> 0)"

definition signal64_clear_task :: "int \<Rightarrow> sigstate \<Rightarrow> sigstate" where
  "signal64_clear_task tid s = (if bad_task tid then s else s\<lparr>pending_by_task := (pending_by_task s)[nat tid := 0]\<rparr>)"

definition signal64_pending_set :: "int \<Rightarrow> sigstate \<Rightarrow> u64" where
  "signal64_pending_set p s =
     (let slot = proc64_slot_of p (table (us s)) in if bad_slot slot then 0 else pending_by_slot s ! nat slot AND NOT (my_blocked s))"

definition signal64_pending_set_task :: "int \<Rightarrow> sigstate \<Rightarrow> u64" where
  "signal64_pending_set_task tid s =
     (if bad_task tid then 0 else pending_by_task s ! nat tid AND NOT (blocked_by_task s ! nat tid))"

definition signal64_raised :: "sigstate \<Rightarrow> nat" where
  "signal64_raised s = raised s"

section \<open>The life of a process\<close>

definition signal64_reset :: "sigstate \<Rightarrow> sigstate" where
  "signal64_reset s =
     (let k = my_handlers s; s = s\<lparr>handlers_by_slot := (handlers_by_slot s)[k := map (\<lambda>_. SIG_DFL) (handlers_by_slot s ! k)]\<rparr>
      in s\<lparr>pending_by_slot := map (\<lambda>_. 0) (pending_by_slot s), pending_by_task := map (\<lambda>_. 0) (pending_by_task s),
           blocked_by_task := map (\<lambda>_. 0) (blocked_by_task s), has_saved_by_task := map (\<lambda>_. False) (has_saved_by_task s),
           sas_sp_by_task := map (\<lambda>_. 0) (sas_sp_by_task s), sas_size_by_task := map (\<lambda>_. 0) (sas_size_by_task s),
           delivered := 0, returns := 0, raised := 0\<rparr>)"

definition signal64_fork :: "int \<Rightarrow> int \<Rightarrow> sigstate \<Rightarrow> sigstate" where
  "signal64_fork parent_pid child_pid s =
     (let from = handlers_of (proc64_slot_of parent_pid (table (us s))); cslot = proc64_slot_of child_pid (table (us s)); to = handlers_of cslot;
          s = (if \<not> bad_slot cslot then s\<lparr>pending_by_slot := (pending_by_slot s)[nat cslot := 0]\<rparr> else s)
      in if from = to then s else s\<lparr>handlers_by_slot := (handlers_by_slot s)[to := handlers_by_slot s ! from]\<rparr>)"

definition signal64_exec :: "sigstate \<Rightarrow> sigstate" where
  "signal64_exec s =
     (let k = my_handlers s; t = my_task s;
          s = (if t \<ge> 0 then s\<lparr>sas_sp_by_task := (sas_sp_by_task s)[nat t := 0], sas_size_by_task := (sas_size_by_task s)[nat t := 0]\<rparr> else s)
      in s\<lparr>handlers_by_slot := (handlers_by_slot s)[k := map (\<lambda>h. if handler h = SIG64_IGN then h else SIG_DFL) (handlers_by_slot s ! k)]\<rparr>)"

definition signal64_delivered :: "sigstate \<Rightarrow> nat" where
  "signal64_delivered s = delivered s"

definition signal64_returns :: "sigstate \<Rightarrow> nat" where
  "signal64_returns s = returns s"

definition signal64_sigaction :: "int \<Rightarrow> ksigaction64 option \<Rightarrow> sigstate \<Rightarrow> int \<times> ksigaction64 option \<times> sigstate" where
  "signal64_sigaction sig act s =
     (if bad_sig sig then (-22, None, s)
      else
      (let old = action (my_handlers s) sig s
       in case act of
            None \<Rightarrow> (0, Some old, s)
          | Some a \<Rightarrow>
              if handler a \<noteq> 0 \<and> \<not> has (sa_flags a) SA_RESTORER then (-22, Some old, s)
              else (0, Some old, set_action (my_handlers s) sig a s)))"

definition signal64_set_trace :: "bool \<Rightarrow> sigstate \<Rightarrow> sigstate" where
  "signal64_set_trace on s = s\<lparr>signal_trace := on\<rparr>"

section \<open>The alternate stack\<close>

definition on_altstack :: "u64 \<Rightarrow> sigstate \<Rightarrow> bool" where
  "on_altstack sp s =
     (let t = my_task s; i = nat t
      in t \<ge> 0 \<and> sas_size_by_task s ! i \<noteq> 0 \<and> sp \<ge> sas_sp_by_task s ! i \<and> sp < sas_sp_by_task s ! i + sas_size_by_task s ! i)"

definition signal64_task_inherit_altstack :: "int \<Rightarrow> int \<Rightarrow> sigstate \<Rightarrow> sigstate" where
  "signal64_task_inherit_altstack tid from_tid s =
     (if bad_task tid then s
      else if bad_task from_tid then s
      else s\<lparr>sas_sp_by_task := (sas_sp_by_task s)[nat tid := sas_sp_by_task s ! nat from_tid],
             sas_size_by_task := (sas_size_by_task s)[nat tid := sas_size_by_task s ! nat from_tid]\<rparr>)"

definition signal64_sigaltstack :: "altstack64 option \<Rightarrow> u64 \<Rightarrow> sigstate \<Rightarrow> int \<times> altstack64 option \<times> sigstate" where
  "signal64_sigaltstack st cur_rsp s =
     (let t = my_task s; i = nat t
      in if t < 0 then (-22, None, s)
         else
         (let old = \<lparr>ss_sp = sas_sp_by_task s ! i,
                ss_flags = (if on_altstack cur_rsp s then SS_ONSTACK else if sas_size_by_task s ! i \<noteq> 0 then 0 else SS_DISABLE),
                ss_pad = 0, ss_size = sas_size_by_task s ! i\<rparr>
          in case st of
               None \<Rightarrow> (0, Some old, s)
             | Some a \<Rightarrow>
                 if on_altstack cur_rsp s then (-1, Some old, s)
                 else if ss_flags a AND SS_DISABLE \<noteq> 0
                 then (0, Some old, s\<lparr>sas_sp_by_task := (sas_sp_by_task s)[i := 0], sas_size_by_task := (sas_size_by_task s)[i := 0]\<rparr>)
                 else if ss_size a < 2048 then (-12, Some old, s)
                 else (0, Some old, s\<lparr>sas_sp_by_task := (sas_sp_by_task s)[i := ss_sp a], sas_size_by_task := (sas_size_by_task s)[i := ss_size a]\<rparr>)))"

section \<open>The frame\<close>

text \<open>Loads of the kernel at a virtual address of the loaded space.\<close>

definition vget8 :: "nat \<Rightarrow> machine \<Rightarrow> byte option" where
  "vget8 a m = map_option (\<lambda>f. peek m f (a mod 4096)) (mmu_frame m (of_nat a))"

definition vget_bytes :: "nat \<Rightarrow> nat \<Rightarrow> machine \<Rightarrow> byte list option" where
  "vget_bytes a n m = those (map (\<lambda>k. vget8 (add64 a k) m) [0..<n])"

definition word_of_bytes :: "byte list \<Rightarrow> u64" where
  "word_of_bytes bs = foldr (\<lambda>b w. ucast b OR push_bit 8 w) bs 0"

definition vget64 :: "nat \<Rightarrow> machine \<Rightarrow> u64 option" where
  "vget64 a m = map_option word_of_bytes (vget_bytes a 8 m)"

definition vget_words :: "nat \<Rightarrow> nat \<Rightarrow> machine \<Rightarrow> u64 list option" where
  "vget_words a n m = those (map (\<lambda>k. vget64 (add64 a (8 * k)) m) [0..<n])"

partial_function (option) present_loop :: "nat \<Rightarrow> nat \<Rightarrow> ustate \<Rightarrow> (bool \<times> ustate) option" where
  "present_loop p end u =
     (if p < end then do {
        (rc, phys) \<leftarrow> paging64_translate (of_nat p) (umach u);
        (ok, u) \<leftarrow> (if rc \<noteq> PAGING64_OK then uspace64_fault p True u else Some (True, u));
        if \<not> ok then Some (False, u) else present_loop (add64 p 4096) end u
      } else Some (True, u))"

definition range_present :: "nat \<Rightarrow> nat \<Rightarrow> ustate \<Rightarrow> (bool \<times> ustate) option" where
  "range_present addr len u = present_loop (page_down addr) (add64 addr len) u"

text \<open>\<open>struct rt_sigframe64_t\<close> as the words it is laid out in, filled from the interrupted registers; all other words are cleared. The
  selectors share a word.\<close>

definition sigcontext_words :: "registers64 \<Rightarrow> u64 \<Rightarrow> u64 \<Rightarrow> u64 \<Rightarrow> u64 list" where
  "sigcontext_words r oldmask fault_addr fpstate =
     [r8 r, r9 r, r10 r, r11 r, r12 r, r13 r, r14 r, r15 r, rdi r, rsi r, rbp r, rbx r, rdx r, rax r, rcx r, rsp r, rip r, rflags r,
      (cs r AND 0xFFFF) OR push_bit 48 (ss r AND 0xFFFF), err_code r, int_no r, oldmask, fault_addr, fpstate] @ replicate 8 0"

definition ucontext_words :: "registers64 \<Rightarrow> u64 \<Rightarrow> u64 \<Rightarrow> u64 \<Rightarrow> u64 list" where
  "ucontext_words r mask0 fault_addr fpstate = replicate 5 0 @ sigcontext_words r mask0 fault_addr fpstate @ mask0 # replicate 15 0"

definition frame_words :: "u64 \<Rightarrow> int \<Rightarrow> registers64 \<Rightarrow> u64 \<Rightarrow> u64 \<Rightarrow> u64 \<Rightarrow> u64 list" where
  "frame_words pretcode sig r mask0 fault_addr fpstate =
     pretcode # ucontext_words r mask0 fault_addr fpstate @ [of_int sig, 1, fault_addr] @ replicate 13 0"

definition SIGFRAME_BYTES :: u64 where "SIGFRAME_BYTES = 560"

text \<open>Where the floating-point state and the frame go.\<close>

definition frame_top :: "ksigaction64 \<Rightarrow> registers64 \<Rightarrow> sigstate \<Rightarrow> u64" where
  "frame_top sa r s =
     (let t = my_task s; i = nat t
      in if has (sa_flags sa) SA_ONSTACK \<and> t \<ge> 0 \<and> sas_size_by_task s ! i \<noteq> 0 \<and> \<not> on_altstack (rsp r) s
         then sas_sp_by_task s ! i + sas_size_by_task s ! i
         else rsp r - 128)"

definition frame_fpsp :: "ksigaction64 \<Rightarrow> registers64 \<Rightarrow> sigstate \<Rightarrow> u64" where
  "frame_fpsp sa r s = (frame_top sa r s - 512) AND NOT 63"

definition frame_sp :: "ksigaction64 \<Rightarrow> registers64 \<Rightarrow> sigstate \<Rightarrow> u64" where
  "frame_sp sa r s = ((frame_fpsp sa r s - SIGFRAME_BYTES) AND NOT 15) - 8"

text \<open>The mask to go back to: the saved one, when a call has replaced it.\<close>

definition take_saved :: "sigstate \<Rightarrow> u64 \<times> sigstate" where
  "take_saved s =
     (let t = sched64_current (sch s); i = nat t
      in if \<not> bad_task t \<and> has_saved_by_task s ! i
         then (saved_by_task s ! i, s\<lparr>has_saved_by_task := (has_saved_by_task s)[i := False]\<rparr>)
         else (my_blocked s, s))"

definition handler_mask :: "ksigaction64 \<Rightarrow> int \<Rightarrow> u64 \<Rightarrow> u64" where
  "handler_mask sa sig b =
     (let b = b OR from_user_set (sa_mask sa); b = (if \<not> has (sa_flags sa) SA_NODEFER then b OR sigbit sig else b)
      in b AND NOT UNBLOCKABLE)"

definition enter_handler :: "ksigaction64 \<Rightarrow> int \<Rightarrow> u64 \<Rightarrow> registers64 \<Rightarrow> registers64" where
  "enter_handler sa sig sp r =
     r\<lparr>rip := handler sa, rsp := sp, rdi := of_int sig, rsi := sp + 8 * 54, rdx := sp + 8,
       rflags := rflags r AND NOT (push_bit 10 1 OR push_bit 8 1)\<rparr>"

text \<open>What is left once the stack is known to be there.\<close>

definition push_frame :: "ksigaction64 \<Rightarrow> int \<Rightarrow> registers64 \<Rightarrow> u64 \<Rightarrow> u64 \<Rightarrow> u64 \<Rightarrow> sigstate \<Rightarrow> (bool \<times> registers64 \<times> sigstate) option" where
  "push_frame sa sig r fault_addr fpsp sp s = do {
     let (bk, s) = take_saved s;
     m \<leftarrow> vput_words (unat sp) (map unat (frame_words (restorer sa) sig r (to_user_set bk) fault_addr fpsp)) (umach (us s));
     m \<leftarrow> vput_bytes (unat fpsp) (fpu_regs (sch s)) m;
     let s = s\<lparr>us := (us s)\<lparr>umach := m\<rparr>\<rparr>;
     let s = set_my_blocked (handler_mask sa sig (my_blocked s)) s;
     let s = (if has (sa_flags sa) SA_RESETHAND then set_action (my_handlers s) sig SIG_DFL s else s);
     Some (True, enter_handler sa sig sp r, s\<lparr>delivered := add64 (delivered s) 1\<rparr>)
   }"

definition signal64_deliver :: "int \<Rightarrow> registers64 \<Rightarrow> u64 \<Rightarrow> sigstate \<Rightarrow> (bool \<times> registers64 \<times> sigstate) option" where
  "signal64_deliver sig r fault_addr s =
     (if bad_sig sig then Some (False, r, s)
      else if my_blocked s AND sigbit sig \<noteq> 0 then Some (False, r, s)
      else
      (let sa = action (my_handlers s) sig s
       in if handler sa = 0 then Some (False, r, s)
          else if handler sa = SIG64_IGN then Some (False, r, s)
          else if cs r AND 3 \<noteq> 3 then Some (False, r, s)
          else
          (let fpsp = frame_fpsp sa r s; sp = frame_sp sa r s
           in do {
             (ok, u) \<leftarrow> range_present (unat sp) (unat (fpsp + 512 - sp)) (us s);
             let s = s\<lparr>us := u\<rparr>;
             if \<not> ok then Some (False, r, s) else push_frame sa sig r fault_addr fpsp sp s
           })))"

section \<open>Returning\<close>

text \<open>The floating-point state, when the frame still has one: the upper half of \<open>MXCSR\<close> is cleared.\<close>

definition restore_fpu :: "u64 \<Rightarrow> sigstate \<Rightarrow> sigstate option" where
  "restore_fpu fp s =
     (if fp \<noteq> 0 \<and> fp AND 15 = 0 then do {
        (ok, u) \<leftarrow> range_present (unat fp) 512 (us s);
        let s = s\<lparr>us := u\<rparr>;
        if \<not> ok then Some s
        else do {
          fx \<leftarrow> vget_bytes (unat fp) 512 (umach u);
          Some (s\<lparr>sch := (sch s)\<lparr>fpu_regs := fx[26 := 0, 27 := 0]\<rparr>\<rparr>)
        }
      } else Some s)"

definition signal64_sigreturn :: "nat \<Rightarrow> sigstate \<Rightarrow> (registers64 \<times> sigstate) option" where
  "signal64_sigreturn user_rsp s = do {
     sc \<leftarrow> vget_words (add64 user_rsp 40) 18 (umach (us s));
     mask0 \<leftarrow> vget64 (add64 user_rsp 296) (umach (us s));
     fp \<leftarrow> vget64 (add64 user_rsp 224) (umach (us s));
     let out = \<lparr>rax = sc ! 13, rbx = sc ! 11, rcx = sc ! 14, rdx = sc ! 12, rsi = sc ! 9, rdi = sc ! 8, rbp = sc ! 10,
       r8 = sc ! 0, r9 = sc ! 1, r10 = sc ! 2, r11 = sc ! 3, r12 = sc ! 4, r13 = sc ! 5, r14 = sc ! 6, r15 = sc ! 7,
       int_no = 0, err_code = 0, rip = sc ! 16, cs = 0x23, rflags = (sc ! 17 AND 0x0CD5) OR 0x202, rsp = sc ! 15, ss = 0x1B\<rparr>;
     let s = set_my_blocked (from_user_set mask0) s;
     s \<leftarrow> restore_fpu fp s;
     Some (out, s\<lparr>returns := add64 (returns s) 1\<rparr>)
   }"

end
