(* ===== verification/Sched64_Tasks.thy ===== *)
theory Sched64_Tasks
  imports Sched64
begin

text \<open>
  Correctness of the scheduler of \<^verbatim>\<open>kernel/sched64.c\<close>.

  The invariant \<open>sched_inv\<close> (\<open>task_total\<close> counts the tasks, the current task can run) is kept by every
  operation, together with the whole context of every task the operation is not about: that a task cannot tell it was
  ever off the processor is \<open>sched64_tasks_isolated\<close>, over the step relation \<open>beside\<close> and the locale
  \<open>task_machine\<close>. Then: the round robin reaches every task that can run, waiting comes to an end while the timer
  fires, and a wake-up lets go exactly the first waiters.
\<close>

unbundle bit_operations_syntax

section \<open>The table in order\<close>

definition used_tasks :: "sched \<Rightarrow> nat" where
  "used_tasks s = length (filter t_used (tasks s))"

text \<open>What holds also while no task runs: the table has its size and \<open>task_total\<close> counts the tasks in it.\<close>

definition table_ok :: "sched \<Rightarrow> bool" where
  "table_ok s \<longleftrightarrow> length (tasks s) = SCHED64_MAX_TASKS \<and> task_total s = int (used_tasks s)"

definition sched_inv :: "sched \<Rightarrow> bool" where
  "sched_inv s \<longleftrightarrow> table_ok s \<and> \<not> idling s
     \<and> (current s = -1 \<or> 0 \<le> current s \<and> current s < int SCHED64_MAX_TASKS \<and> runnable (task_at s (current s)))"

lemma length_filter_update:
  "i < length xs \<Longrightarrow> length (filter P (xs[i := y])) + (if P (xs ! i) then 1 else 0) = length (filter P xs) + (if P y then 1 else 0)"
proof (induction xs arbitrary: i)
  case (Cons x xs)
  then show ?case by (cases i) auto
qed simp

lemma tupd_fields [simp]:
  "current (tupd i f s) = current s" "idling (tupd i f s) = idling s" "task_total (tupd i f s) = task_total s"
  "length (tasks (tupd i f s)) = length (tasks s)" "ticks (tupd i f s) = ticks s" "fs_msr (tupd i f s) = fs_msr s" "gs_msr (tupd i f s) = gs_msr s"
  "fpu_regs (tupd i f s) = fpu_regs s" "stop_after (tupd i f s) = stop_after s" "irq0_masked (tupd i f s) = irq0_masked s"
  "ptable (tupd i f s) = ptable s" "switch_count (tupd i f s) = switch_count s" "fpu_initial (tupd i f s) = fpu_initial s"
  "next_signal_restart (tupd i f s) = next_signal_restart s"
  by (simp_all add: tupd_def)

lemma tupd_at: "i < length (tasks s) \<Longrightarrow> tasks (tupd i f s) ! j = (if j = i then f (tasks s ! i) else tasks s ! j)"
  by (simp add: tupd_def nth_list_update)

lemma used_tupd:
  assumes "i < length (tasks s)"
  shows "used_tasks (tupd i f s) + (if t_used (tasks s ! i) then 1 else 0) = used_tasks s + (if t_used (f (tasks s ! i)) then 1 else 0)"
  using length_filter_update [OF assms, of t_used] by (simp add: used_tasks_def tupd_def)

lemma used_same: "map t_used (tasks s') = map t_used (tasks s) \<Longrightarrow> used_tasks s' = used_tasks s"
proof -
  have "length (filter t_used ts) = length (filter id (map t_used ts))" for ts by (simp add: filter_map)
  then show "map t_used (tasks s') = map t_used (tasks s) \<Longrightarrow> used_tasks s' = used_tasks s" unfolding used_tasks_def by metis
qed

text \<open>An edit of the table that neither adds nor ends a task.\<close>

lemma table_ok_same:
  assumes "table_ok s" and "map t_used (tasks s') = map t_used (tasks s)" and "task_total s' = task_total s"
  shows "table_ok s'"
proof -
  have "length (tasks s') = length (tasks s)" using assms(2) by (metis length_map)
  then show ?thesis using assms(1,3) used_same [OF assms(2)] by (simp add: table_ok_def)
qed

lemma used_edit:
  assumes "\<And>t. t_used (f t) = t_used t"
  shows "map t_used (tasks (tupd i f s)) = map t_used (tasks s)"
proof (cases "i < length (tasks s)")
  case True
  show ?thesis
  proof (rule nth_equalityI)
    show "map t_used (tasks (tupd i f s)) ! j = map t_used (tasks s) ! j" if "j < length (map t_used (tasks (tupd i f s)))" for j
      using that True assms by (simp add: tupd_at)
  qed simp
qed (simp add: tupd_def list_update_beyond)

lemma table_ok_edit: "table_ok s \<Longrightarrow> (\<And>t. t_used (f t) = t_used t) \<Longrightarrow> table_ok (tupd i f s)"
  by (rule table_ok_same [OF _ used_edit]) simp_all

lemma table_ok_map: "table_ok s \<Longrightarrow> (\<And>t. t_used (f t) = t_used t) \<Longrightarrow> table_ok (s\<lparr>tasks := map f (tasks s)\<rparr>)"
  by (rule table_ok_same) auto

lemma table_ok_cong: "tasks s' = tasks s \<Longrightarrow> task_total s' = task_total s \<Longrightarrow> table_ok s' = table_ok s"
  by (simp add: table_ok_def used_tasks_def)

lemma expire_used [simp]: "t_used (expire n t) = t_used t"
  by (simp add: expire_def)

lemma expire_runnable: "runnable t \<Longrightarrow> expire n t = t"
  by (simp add: expire_def runnable_def)

lemma expire_fields [simp]:
  "current (expire_deadlines s) = current s" "idling (expire_deadlines s) = idling s" "task_total (expire_deadlines s) = task_total s"
  "length (tasks (expire_deadlines s)) = length (tasks s)" "fs_msr (expire_deadlines s) = fs_msr s" "gs_msr (expire_deadlines s) = gs_msr s"
  "fpu_regs (expire_deadlines s) = fpu_regs s" "stop_after (expire_deadlines s) = stop_after s" "ticks (expire_deadlines s) = ticks s"
  by (simp_all add: expire_deadlines_def)

lemma table_ok_expire: "table_ok s \<Longrightarrow> table_ok (expire_deadlines s)"
  unfolding expire_deadlines_def by (rule table_ok_map) simp_all

lemma expire_at: "i < length (tasks s) \<Longrightarrow> tasks (expire_deadlines s) ! i = expire (ticks s) (tasks s ! i)"
  by (simp add: expire_deadlines_def clock64_ticks_def)

lemma find_in: "find P xs = Some x \<Longrightarrow> x \<in> set xs \<and> P x"
  by (induction xs) (auto split: if_splits)

lemma first_slot_Some: "find P [0..<n] = Some i \<longleftrightarrow> i < n \<and> P i \<and> (\<forall>j < i. \<not> P j)"
  by (auto simp: find_Some_iff)

lemma first_runnable_Some: "first_runnable s = Some i \<Longrightarrow> i < SCHED64_MAX_TASKS \<and> runnable (tasks s ! i)"
  by (simp add: first_runnable_def first_slot_Some)

lemma first_runnable_None: "first_runnable s = None \<longleftrightarrow> (\<forall>i < SCHED64_MAX_TASKS. \<not> runnable (tasks s ! i))"
  by (auto simp: first_runnable_def find_None_iff)

lemma next_task_cases:
  assumes "c < SCHED64_MAX_TASKS"
  shows "next_task c s < SCHED64_MAX_TASKS" and "next_task c s \<noteq> c \<Longrightarrow> runnable (tasks s ! next_task c s)"
    and "runnable (tasks s ! c) \<Longrightarrow> runnable (tasks s ! next_task c s)"
proof -
  define l where "l = map (\<lambda>n. (c + n) mod SCHED64_MAX_TASKS) [1..<SCHED64_MAX_TASKS + 1]"
  have m: "x < SCHED64_MAX_TASKS" if "x \<in> set l" for x using that by (auto simp: l_def SCHED64_MAX_TASKS_def)
  have "next_task c s = c \<or> next_task c s \<in> set l \<and> runnable (tasks s ! next_task c s)"
    unfolding next_task_def l_def [symmetric] by (cases "find (\<lambda>i. runnable (tasks s ! i)) l") (auto dest: find_in)
  then show "next_task c s < SCHED64_MAX_TASKS" "next_task c s \<noteq> c \<Longrightarrow> runnable (tasks s ! next_task c s)"
    "runnable (tasks s ! c) \<Longrightarrow> runnable (tasks s ! next_task c s)"
    using m assms by auto
qed

section \<open>The context of a task\<close>

text \<open>What a task resumes with: from its slot, and for the task that runs from the processor and the frame it was entered with.\<close>

type_synonym task_context = "registers64 \<times> u64 \<times> u64 \<times> byte list"

definition saved :: "task64 \<Rightarrow> task_context" where
  "saved t = (t_regs t, t_fs_base t, t_gs_base t, t_fpu t)"

definition context_of :: "registers64 \<times> sched \<Rightarrow> nat \<Rightarrow> task_context" where
  "context_of x j = (let (fr, s) = x in if int j = current s then (fr, fs_msr s, gs_msr s, fpu_regs s) else saved (tasks s ! j))"

text \<open>The table stays in order, and of the tasks that could run every one in \<open>C\<close> still can, with the same context, space and process.\<close>

definition keeps :: "(nat \<Rightarrow> bool) \<Rightarrow> registers64 \<times> sched \<Rightarrow> registers64 \<times> sched \<Rightarrow> bool" where
  "keeps C x y \<longleftrightarrow> sched_inv (snd y)
     \<and> (\<forall>j < SCHED64_MAX_TASKS. runnable (tasks (snd x) ! j) \<longrightarrow> C j \<longrightarrow>
          runnable (tasks (snd y) ! j) \<and> context_of y j = context_of x j
          \<and> t_space (tasks (snd y) ! j) = t_space (tasks (snd x) ! j) \<and> t_pid (tasks (snd y) ! j) = t_pid (tasks (snd x) ! j))"

definition same_cpu :: "sched \<Rightarrow> sched \<Rightarrow> bool" where
  "same_cpu s s' \<longleftrightarrow> current s' = current s \<and> fs_msr s' = fs_msr s \<and> gs_msr s' = gs_msr s \<and> fpu_regs s' = fpu_regs s"

lemma keeps_same:
  assumes "sched_inv s" and "table_ok s'" "\<not> idling s'" "same_cpu s s'"
    and "\<And>j. j < SCHED64_MAX_TASKS \<Longrightarrow> runnable (tasks s ! j) \<Longrightarrow> tasks s' ! j = tasks s ! j"
  shows "keeps (\<lambda>_. True) (fr, s) (fr, s')"
  using assms unfolding keeps_def sched_inv_def same_cpu_def context_of_def by auto

text \<open>Entering task \<open>n\<close> from a table in which the outgoing task has been saved.\<close>

lemma enter:
  assumes "table_ok s" "\<not> idling s" and n: "n < SCHED64_MAX_TASKS" "runnable (tasks s ! n)" and out: "switch_to n s = ((r, vs, fsb), s')"
  shows "sched_inv (s'\<lparr>fs_msr := fsb\<rparr>)" and "context_of (r, s'\<lparr>fs_msr := fsb\<rparr>) j = saved (tasks s ! j)" and "tasks s' = tasks s"
    and "task_total s' = task_total s" and "idling s' = idling s" and "current s' = int n"
proof -
  have e: "r = t_regs (tasks s ! n)" "fsb = t_fs_base (tasks s ! n)" "s' = s\<lparr>current := int n, fpu_regs := t_fpu (tasks s ! n),
      gs_msr := t_gs_base (tasks s ! n), ptable := proc64_set_current (t_pid (tasks s ! n)) (ptable s)\<rparr>"
    using out by (simp_all add: switch_to_def Let_def)
  show t: "tasks s' = tasks s" "task_total s' = task_total s" "idling s' = idling s" "current s' = int n" by (simp_all add: e)
  show "sched_inv (s'\<lparr>fs_msr := fsb\<rparr>)"
    using assms(1-4) t table_ok_cong [of "s'\<lparr>fs_msr := fsb\<rparr>" s] by (simp add: sched_inv_def)
  show "context_of (r, s'\<lparr>fs_msr := fsb\<rparr>) j = saved (tasks s ! j)" by (simp add: context_of_def e saved_def)
qed

lemma sched_invD:
  assumes "sched_inv s"
  shows "table_ok s" "\<not> idling s" "length (tasks s) = SCHED64_MAX_TASKS"
    and "current s < 0 \<or> nat (current s) < SCHED64_MAX_TASKS \<and> runnable (tasks s ! nat (current s)) \<and> int (nat (current s)) = current s"
  using assms by (auto simp: sched_inv_def table_ok_def)

lemma no_current_inv: "sched_inv s \<Longrightarrow> no_current s \<longleftrightarrow> current s < 0"
  by (auto simp: sched_inv_def no_current_def runnable_def)

section \<open>Every operation\<close>

lemma tick_keeps:
  assumes inv: "sched_inv s" and stop: "stop_after s = 0"
  shows "keeps (\<lambda>_. True) (fr, s) (sched64_tick fr s)"
proof -
  note D = sched_invD [OF inv]
  let ?e = "expire_deadlines s"
  have e: "tasks ?e ! j = tasks s ! j" if "j < SCHED64_MAX_TASKS" "runnable (tasks s ! j)" for j
    using that D(3) by (simp add: expire_at expire_runnable)
  have stay: "keeps (\<lambda>_. True) (fr, s) (fr, ?e)"
    by (rule keeps_same [OF inv table_ok_expire [OF D(1)]]) (use D(2) e in \<open>simp_all add: same_cpu_def\<close>)
  define c n where "c = nat (current s)" and "n = next_task c ?e"
  show ?thesis
  proof (cases "current s < 0 \<or> task_total s < 2 \<or> n = c")
    case True
    then have "sched64_tick fr s = (fr, ?e)" using D(2) by (auto simp: sched64_tick_def Let_def n_def c_def)
    then show ?thesis using stay by simp
  next
    case False
    let ?f = "\<lambda>t. t\<lparr>t_regs := fr, t_fs_base := fs_msr s, t_gs_base := gs_msr s, t_fpu := fpu_regs s\<rparr>"
    let ?s = "tupd c ?f ?e"
    have c: "c < SCHED64_MAX_TASKS" "runnable (tasks s ! c)" "int c = current s" using D(4) False by (auto simp: c_def)
    have n: "n < SCHED64_MAX_TASKS" "runnable (tasks ?e ! n)" using next_task_cases(1,2) [OF c(1), of ?e] False by (simp_all add: n_def)
    obtain r vs fsb s' where out: "switch_to n ?s = ((r, vs, fsb), s')" by (metis surj_pair)
    have at: "tasks ?s ! j = (if j = c then ?f (tasks ?e ! c) else tasks ?e ! j)" for j using c(1) D(3) by (simp add: tupd_at)
    have ok: "table_ok ?s" by (rule table_ok_edit [OF table_ok_expire [OF D(1)]]) simp
    have rn: "runnable (tasks ?s ! n)" using n(2) False by (simp add: at)
    note en = enter [OF ok _ n(1) rn out]
    let ?t = "s'\<lparr>smach := vmspace64_switch vs (smach s'), fs_msr := fsb, switch_count := add64 (switch_count s') 1\<rparr>"
    have tick: "sched64_tick fr s = (r, ?t)"
    proof -
      have "stop_after s' = 0" using out stop by (auto simp: switch_to_def Let_def)
      then show ?thesis using False D(2) out by (simp add: sched64_tick_def Let_def c_def n_def)
    qed
    have "sched_inv ?t" using en(1) D(2) by (simp add: sched_inv_def table_ok_def used_tasks_def)
    moreover have "context_of (r, ?t) j = saved (tasks ?s ! j)" for j using en(2) [of j] D(2) by (cases "int j = current s'") (simp_all add: context_of_def)
    moreover have "saved (tasks ?s ! j) = context_of (fr, s) j" if "j < SCHED64_MAX_TASKS" "runnable (tasks s ! j)" for j
      using that c e by (auto simp: at saved_def context_of_def)
    moreover have "tasks s' ! j = (if j = c then ?f (tasks s ! c) else tasks s ! j)" if "j < SCHED64_MAX_TASKS" "runnable (tasks s ! j)" for j
      using that en(3) D(2) c e at by simp
    ultimately show ?thesis unfolding tick keeps_def by (simp add: runnable_def)
  qed
qed

lemma timer_keeps:
  assumes "sched_inv s" and "stop_after s = 0"
  shows "keeps (\<lambda>_. True) (fr, s) (sched_timer_handler fr s)"
proof -
  let ?s = "clock64_tick (s\<lparr>timer_ticks := add64 (timer_ticks s) 1\<rparr>)"
  have "keeps (\<lambda>_. True) (fr, ?s) (sched64_tick fr ?s)"
    using assms by (intro tick_keeps) (simp_all add: sched_inv_def table_ok_def used_tasks_def clock64_tick_def)
  then show ?thesis by (simp add: sched_timer_handler_def keeps_def context_of_def clock64_tick_def)
qed

text \<open>Saving the rest of the outgoing task and entering another: \<open>r\<close> and the thread pointer are in its slot already.\<close>

lemma leave_spec:
  assumes "table_ok s" "\<not> idling s" and c: "current s = int c" "c < SCHED64_MAX_TASKS" and n: "n < SCHED64_MAX_TASKS" "runnable (tasks s ! n)"
    and out: "leave_for n s = (Some (r, vs, fsb), s')"
  shows "sched_inv (s'\<lparr>fs_msr := fsb\<rparr>)"
    and "context_of (r, s'\<lparr>fs_msr := fsb\<rparr>) j = saved (if j = c then (tasks s ! c)\<lparr>t_gs_base := gs_msr s, t_fpu := fpu_regs s\<rparr> else tasks s ! j)"
    and "tasks s' = (tasks s)[c := (tasks s ! c)\<lparr>t_gs_base := gs_msr s, t_fpu := fpu_regs s\<rparr>]"
proof -
  let ?f = "\<lambda>t. t\<lparr>t_gs_base := gs_msr s, t_fpu := fpu_regs s\<rparr>"
  let ?s = "tupd c ?f s"
  have len: "c < length (tasks s)" using assms(1) c(2) by (simp add: table_ok_def)
  have sw: "switch_to n ?s = ((r, vs, fsb), s')" using out c(1) by (auto simp: leave_for_def Let_def split: prod.splits)
  have ok: "table_ok ?s" by (rule table_ok_edit [OF assms(1)]) simp
  have rn: "runnable (tasks ?s ! n)" using n(2) len by (auto simp: tupd_at runnable_def)
  note en = enter [OF ok _ n(1) rn sw]
  show "sched_inv (s'\<lparr>fs_msr := fsb\<rparr>)" using en(1) assms(2) by simp
  show "context_of (r, s'\<lparr>fs_msr := fsb\<rparr>) j = saved (if j = c then ?f (tasks s ! c) else tasks s ! j)"
    using en(2) [of j] assms(2) len by (simp add: tupd_at)
  show "tasks s' = (tasks s)[c := ?f (tasks s ! c)]" using en(3) assms(2) by (simp add: tupd_def)
qed

lemma leave_Some: "\<exists>r vs fsb s'. leave_for n s = (Some (r, vs, fsb), s')"
  by (simp add: leave_for_def switch_to_def Let_def)

text \<open>How a call that may hand the processor over is continued: with the frame and thread pointer of the successor, or its own.\<close>

definition resume :: "registers64 \<Rightarrow> successor option \<times> sched \<Rightarrow> registers64 \<times> sched" where
  "resume fr x = (case x of (None, s) \<Rightarrow> (fr, s) | (Some (r, vs, fsb), s) \<Rightarrow> (r, s\<lparr>fs_msr := fsb\<rparr>))"

lemma yield_keeps:
  assumes inv: "sched_inv s"
  shows "keeps (\<lambda>_. True) (fr, s) (resume fr (sched64_yield_current fr s))"
proof (cases "current s < 0")
  case True
  then show ?thesis using keeps_same [OF inv _ _ _ refl] sched_invD [OF inv] no_current_inv [OF inv]
    by (simp add: sched64_yield_current_def resume_def same_cpu_def)
next
  case False
  note D = sched_invD [OF inv]
  define c where "c = nat (current s)"
  have c: "c < SCHED64_MAX_TASKS" "runnable (tasks s ! c)" "current s = int c" using D(4) False by (auto simp: c_def)
  let ?f = "\<lambda>t. t\<lparr>t_fs_base := fs_msr s, t_regs := fr\<rparr>"
  let ?s = "tupd c ?f s"
  define n where "n = next_task c ?s"
  have at: "tasks ?s ! j = (if j = c then ?f (tasks s ! c) else tasks s ! j)" for j using c(1) D(3) by (simp add: tupd_at)
  have ok: "table_ok ?s" by (rule table_ok_edit [OF D(1)]) simp
  have rc: "runnable (tasks ?s ! c)" using c(2) by (simp add: at runnable_def)
  have y: "sched64_yield_current fr s = (if n = c then (None, ?s) else leave_for n ?s)"
    using False no_current_inv [OF inv] by (simp add: sched64_yield_current_def Let_def n_def c_def)
  show ?thesis
  proof (cases "n = c")
    case True
    have "sched_inv ?s" using inv ok rc c by (simp add: sched_inv_def)
    then show ?thesis using True y c by (auto simp: resume_def keeps_def context_of_def at runnable_def)
  next
    case False
    obtain r vs fsb s' where out: "leave_for n ?s = (Some (r, vs, fsb), s')" using leave_Some by blast
    have n: "n < SCHED64_MAX_TASKS" "runnable (tasks ?s ! n)" using next_task_cases(1,3) [OF c(1)] rc by (simp_all add: n_def)
    note l = leave_spec [OF ok _ _ c(1) n out, simplified, OF D(2) c(3)]
    have "resume fr (sched64_yield_current fr s) = (r, s'\<lparr>fs_msr := fsb\<rparr>)" using y False out by (simp add: resume_def)
    moreover have "tasks s' ! j = (if j = c then (?f (tasks s ! c))\<lparr>t_gs_base := gs_msr s, t_fpu := fpu_regs s\<rparr> else tasks s ! j)" for j
      using l(3) c(1) D(3) by (simp add: at nth_list_update)
    moreover have "context_of (r, s'\<lparr>fs_msr := fsb\<rparr>) j = context_of (fr, s) j" for j
      unfolding l(2) using c by (simp add: at saved_def context_of_def)
    ultimately show ?thesis using l(1) by (simp add: keeps_def runnable_def)
  qed
qed

section \<open>Waiting for the clock\<close>

definition timed_out :: "task64 \<Rightarrow> task64" where
  "timed_out t = t\<lparr>t_blocked := False, t_wait_addr := 0, t_deadline := 0, t_regs := (t_regs t)\<lparr>rax := t_timeout_rax t\<rparr>\<rparr>"

text \<open>Some waits with a deadline have ended, the clock has moved, and that is all.\<close>

definition waits_ended :: "sched \<Rightarrow> sched \<Rightarrow> bool" where
  "waits_ended s s' \<longleftrightarrow> (\<exists>ts a b. s' = s\<lparr>tasks := ts, ticks := a, timer_ticks := b\<rparr> \<and> length ts = length (tasks s)
     \<and> (\<forall>i < length ts. ts ! i = tasks s ! i \<or> t_used (tasks s ! i) \<and> t_blocked (tasks s ! i) \<and> t_deadline (tasks s ! i) \<noteq> 0 \<and> ts ! i = timed_out (tasks s ! i)))"

lemma waits_ended_refl [simp]: "waits_ended s s"
  unfolding waits_ended_def by (intro exI [of _ "tasks s"] exI [of _ "ticks s"] exI [of _ "timer_ticks s"]) simp

lemma waits_ended_trans:
  assumes "waits_ended s t" and "waits_ended t v"
  shows "waits_ended s v"
proof -
  obtain ts a b where t: "t = s\<lparr>tasks := ts, ticks := a, timer_ticks := b\<rparr>" "length ts = length (tasks s)"
    "\<forall>i < length ts. ts ! i = tasks s ! i \<or> t_used (tasks s ! i) \<and> t_blocked (tasks s ! i) \<and> t_deadline (tasks s ! i) \<noteq> 0 \<and> ts ! i = timed_out (tasks s ! i)"
    using assms(1) by (auto simp: waits_ended_def)
  obtain us c d where v: "v = t\<lparr>tasks := us, ticks := c, timer_ticks := d\<rparr>" "length us = length ts"
    "\<forall>i < length us. us ! i = ts ! i \<or> t_used (ts ! i) \<and> t_blocked (ts ! i) \<and> t_deadline (ts ! i) \<noteq> 0 \<and> us ! i = timed_out (ts ! i)"
    using assms(2) t(1) by (auto simp: waits_ended_def)
  have "us ! i = tasks s ! i \<or> t_used (tasks s ! i) \<and> t_blocked (tasks s ! i) \<and> t_deadline (tasks s ! i) \<noteq> 0 \<and> us ! i = timed_out (tasks s ! i)" if "i < length us" for i
  proof -
    have i: "i < length ts" using that v(2) by simp
    show ?thesis using v(3) [rule_format, OF that] t(3) [rule_format, OF i] by (auto simp: timed_out_def)
  qed
  then show ?thesis unfolding waits_ended_def using t(1,2) v(1,2) by (intro exI [of _ us] exI [of _ c] exI [of _ d]) simp
qed

lemma waits_ended_expire: "waits_ended s (expire_deadlines s)"
  unfolding waits_ended_def
  by (intro exI [of _ "map (expire (ticks s)) (tasks s)"] exI [of _ "ticks s"] exI [of _ "timer_ticks s"])
     (auto simp: expire_deadlines_def clock64_ticks_def expire_def timed_out_def)

lemma waits_endedD:
  assumes "waits_ended s s'"
  shows "current s' = current s" "idling s' = idling s" "task_total s' = task_total s" "length (tasks s') = length (tasks s)"
    and "fs_msr s' = fs_msr s" "gs_msr s' = gs_msr s" "fpu_regs s' = fpu_regs s" "irq0_masked s' = irq0_masked s"
    and "\<And>i. i < length (tasks s) \<Longrightarrow> runnable (tasks s ! i) \<Longrightarrow> tasks s' ! i = tasks s ! i"
    and "\<And>i. i < length (tasks s) \<Longrightarrow> tasks s' ! i = tasks s ! i \<or> t_used (tasks s ! i) \<and> t_blocked (tasks s ! i) \<and> t_deadline (tasks s ! i) \<noteq> 0 \<and> tasks s' ! i = timed_out (tasks s ! i)"
    and "table_ok s \<Longrightarrow> table_ok s'"
proof -
  obtain ts a b where s': "s' = s\<lparr>tasks := ts, ticks := a, timer_ticks := b\<rparr>" "length ts = length (tasks s)"
    "\<forall>i < length ts. ts ! i = tasks s ! i \<or> t_used (tasks s ! i) \<and> t_blocked (tasks s ! i) \<and> t_deadline (tasks s ! i) \<noteq> 0 \<and> ts ! i = timed_out (tasks s ! i)"
    using assms by (auto simp: waits_ended_def)
  show "current s' = current s" "idling s' = idling s" "task_total s' = task_total s" "length (tasks s') = length (tasks s)"
    "fs_msr s' = fs_msr s" "gs_msr s' = gs_msr s" "fpu_regs s' = fpu_regs s" "irq0_masked s' = irq0_masked s"
    using s'(1,2) by simp_all
  show d: "\<And>i. i < length (tasks s) \<Longrightarrow> tasks s' ! i = tasks s ! i \<or> t_used (tasks s ! i) \<and> t_blocked (tasks s ! i) \<and> t_deadline (tasks s ! i) \<noteq> 0 \<and> tasks s' ! i = timed_out (tasks s ! i)"
    using s' by simp
  show "\<And>i. i < length (tasks s) \<Longrightarrow> runnable (tasks s ! i) \<Longrightarrow> tasks s' ! i = tasks s ! i" using d by (auto simp: runnable_def)
  have u: "t_used (tasks s' ! i) = t_used (tasks s ! i)" if "i < length (tasks s)" for i using d [OF that] by (auto simp: timed_out_def)
  have "map t_used (tasks s') = map t_used (tasks s)" using s'(1,2) u by (intro nth_equalityI) simp_all
  then show "table_ok s \<Longrightarrow> table_ok s'" using s'(1) by (elim table_ok_same) simp_all
qed

lemma idle_timer:
  assumes "idling s"
  shows "snd (sched_timer_handler f s) = expire_deadlines (s\<lparr>timer_ticks := add64 (timer_ticks s) 1, ticks := add64 (ticks s) 1\<rparr>)"
  using assms by (simp add: sched_timer_handler_def sched64_tick_def clock64_tick_def)

lemma timer_ended:
  assumes "idling s"
  shows "waits_ended s (snd (sched_timer_handler f s))"
proof -
  let ?t = "s\<lparr>timer_ticks := add64 (timer_ticks s) 1, ticks := add64 (ticks s) 1\<rparr>"
  have "waits_ended s ?t" unfolding waits_ended_def
    by (intro exI [of _ "tasks s"] exI [of _ "add64 (ticks s) 1"] exI [of _ "add64 (timer_ticks s) 1"]) simp
  then show ?thesis unfolding idle_timer [OF assms] by (rule waits_ended_trans [OF _ waits_ended_expire])
qed

lemma halt_simps [simp]: "halt [] s = s" "halt (f # fs') s = halt fs' (snd (sched_timer_handler f s))"
  by (simp_all add: halt_def)

lemma halt_ended: "idling s \<Longrightarrow> waits_ended s (halt frms s)"
proof (induction frms arbitrary: s)
  case (Cons f frms)
  have t: "waits_ended s (snd (sched_timer_handler f s))" by (rule timer_ended [OF Cons.prems])
  then have "waits_ended (snd (sched_timer_handler f s)) (halt frms (snd (sched_timer_handler f s)))"
    using Cons.prems by (intro Cons.IH) (simp add: waits_endedD(2))
  then show ?case using waits_ended_trans [OF t] by simp
qed simp

lemma idle_loop_ended:
  assumes "idle_loop ev k s = Some (n, s')" and "idling s"
  shows "waits_ended s s' \<and> n = first_runnable s'"
proof -
  have "idling s \<longrightarrow> waits_ended s (snd (n, s')) \<and> fst (n, s') = first_runnable (snd (n, s'))"
  proof (rule idle_loop.raw_induct [where P = "\<lambda>ev k s r. idling s \<longrightarrow> waits_ended s (snd r) \<and> fst r = first_runnable (snd r)", OF _ assms(1)],
      intro impI)
    fix loop :: "(nat \<Rightarrow> registers64 list) \<Rightarrow> nat \<Rightarrow> sched \<Rightarrow> (nat option \<times> sched) option" and ev :: "nat \<Rightarrow> registers64 list" and k :: nat and s r
    let ?t = "expire_deadlines (halt (ev k) s)"
    assume IH: "\<And>ev k s r. loop ev k s = Some r \<Longrightarrow> idling s \<longrightarrow> waits_ended s (snd r) \<and> fst r = first_runnable (snd r)"
      and step: "(let s = ?t in case first_runnable s of None \<Rightarrow> if \<not> any_deadline s then Some (None, s) else loop ev (k + 1) s | Some n \<Rightarrow> Some (Some n, s)) = Some r"
      and i: "idling s"
    have t: "waits_ended s ?t" using waits_ended_trans [OF halt_ended [OF i] waits_ended_expire] .
    show "waits_ended s (snd r) \<and> fst r = first_runnable (snd r)"
    proof (cases "first_runnable ?t = None \<and> any_deadline ?t")
      case True
      then have "loop ev (k + 1) ?t = Some r" using step by (simp add: Let_def)
      from IH [OF this] show ?thesis using i waits_endedD(2) [OF t] waits_ended_trans [OF t] by simp
    next
      case False
      then show ?thesis using step t by (auto simp: Let_def split: option.splits if_splits)
    qed
  qed
  then show ?thesis using assms(2) by simp
qed

text \<open>The clock will not wrap before the deadlines that are set.\<close>

definition clock_ok :: "sched \<Rightarrow> bool" where
  "clock_ok s \<longleftrightarrow> ticks s < 2 ^ 64 - 1 \<and> (\<forall>t \<in> set (tasks s). t_deadline t < 2 ^ 64)"

text \<open>A task waiting until \<open>d\<close> is let go by the clock, or the clock has not reached \<open>d\<close>.\<close>

lemma timer_at:
  assumes "idling s" and i: "i < length (tasks s)" "t_used (tasks s ! i)" "t_blocked (tasks s ! i)" "t_deadline (tasks s ! i) = d"
    and d: "0 < d" "d < 2 ^ 64" "ticks s < 2 ^ 64 - 1"
  shows "runnable (tasks (snd (sched_timer_handler f s)) ! i)
     \<or> tasks (snd (sched_timer_handler f s)) ! i = tasks s ! i \<and> ticks (snd (sched_timer_handler f s)) = Suc (ticks s) \<and> Suc (ticks s) < d"
proof -
  have "add64 (ticks s) 1 = Suc (ticks s)" using d(3) by (simp add: add64_def)
  then show ?thesis unfolding idle_timer [OF assms(1)]
    using i d(1) by (auto simp: expire_deadlines_def clock64_ticks_def expire_def runnable_def)
qed

lemma halt_at:
  assumes "idling s" and "i < length (tasks s)" "t_used (tasks s ! i)" "t_blocked (tasks s ! i)" "t_deadline (tasks s ! i) = d"
    and "0 < d" "d < 2 ^ 64" "ticks s < 2 ^ 64 - 1"
  shows "runnable (tasks (halt frms s) ! i)
     \<or> tasks (halt frms s) ! i = tasks s ! i \<and> ticks (halt frms s) = ticks s + length frms \<and> (frms \<noteq> [] \<longrightarrow> ticks s + length frms < d)"
  using assms
proof (induction frms arbitrary: s)
  case (Cons f frms)
  let ?t = "snd (sched_timer_handler f s)"
  have w: "waits_ended s ?t" by (rule timer_ended [OF Cons.prems(1)])
  note W = waits_endedD [OF w]
  have idl: "idling ?t" using W(2) Cons.prems(1) by simp
  consider "runnable (tasks ?t ! i)" | "tasks ?t ! i = tasks s ! i" "ticks ?t = Suc (ticks s)" "Suc (ticks s) < d"
    using timer_at [OF Cons.prems] by blast
  then show ?case
  proof cases
    case 1
    have "tasks (halt frms ?t) ! i = tasks ?t ! i" using waits_endedD(9) [OF halt_ended [OF idl]] W(4) Cons.prems(2) 1 by simp
    then show ?thesis using 1 by simp
  next
    case 2
    have "runnable (tasks (halt frms ?t) ! i) \<or> tasks (halt frms ?t) ! i = tasks ?t ! i \<and> ticks (halt frms ?t) = ticks ?t + length frms
        \<and> (frms \<noteq> [] \<longrightarrow> ticks ?t + length frms < d)"
      using 2 Cons.prems W(4) idl by (intro Cons.IH) auto
    then show ?thesis using 2 by auto
  qed
qed simp

lemma any_deadline_iff:
  "any_deadline s \<longleftrightarrow> (\<exists>i < SCHED64_MAX_TASKS. t_used (tasks s ! i) \<and> t_blocked (tasks s ! i) \<and> t_deadline (tasks s ! i) \<noteq> 0)"
  by (auto simp: any_deadline_def list_ex_iff)

text \<open>One round of the loop: something can run, or the task still waits and the loop goes on with the clock moved.\<close>

lemma idle_round:
  assumes "idling s" "table_ok s" and i: "i < SCHED64_MAX_TASKS" "t_used (tasks s ! i)" "t_blocked (tasks s ! i)" "t_deadline (tasks s ! i) = d"
    and d: "0 < d" "d < 2 ^ 64" "ticks s < 2 ^ 64 - 1"
  shows "(\<exists>n s'. idle_loop ev k s = Some (Some n, s')) \<or>
     (\<exists>t. idle_loop ev k s = idle_loop ev (Suc k) t \<and> idling t \<and> table_ok t \<and> tasks t ! i = tasks s ! i \<and> ticks t = ticks s + length (ev k) \<and> ticks t < d)"
proof -
  let ?h = "halt (ev k) s"
  let ?t = "expire_deadlines ?h"
  have len: "length (tasks s) = SCHED64_MAX_TASKS" using assms(2) by (simp add: table_ok_def)
  have w: "waits_ended s ?t" using waits_ended_trans [OF halt_ended [OF assms(1)] waits_ended_expire] .
  note W = waits_endedD [OF w] and H = waits_endedD [OF halt_ended [OF assms(1), of "ev k"]]
  show ?thesis
  proof (cases "first_runnable ?t")
    case (Some n)
    then have "idle_loop ev k s = Some (Some n, ?t)" by (subst idle_loop.simps) simp
    then show ?thesis by blast
  next
    case None
    then have nr: "\<not> runnable (tasks ?t ! i)" using i(1) by (simp add: first_runnable_None)
    then have "\<not> runnable (tasks ?h ! i)" using H(4) i(1) len by (auto simp: expire_at expire_runnable)
    then have h: "tasks ?h ! i = tasks s ! i" "ticks ?h = ticks s + length (ev k)"
      using halt_at [OF assms(1) _ i(2-4) d, of "ev k"] i(1) len by auto
    have lt: "ticks ?h < d"
      using nr i d(1) H(4) len h(1) by (simp add: expire_at) (auto simp: expire_def runnable_def split: if_splits)
    have t: "tasks ?t ! i = tasks s ! i" using lt H(4) i len h(1) by (simp add: expire_at expire_def)
    have "any_deadline ?t" unfolding any_deadline_iff using i d(1) t by (intro exI [of _ i]) simp
    then have "idle_loop ev k s = idle_loop ev (Suc k) ?t" using None by (subst idle_loop.simps) simp
    then show ?thesis using W(2,11) assms(1,2) t h(2) lt by (intro disjI2 exI [of _ ?t]) simp
  qed
qed

text \<open>Progress: the ticks left until \<open>d\<close>, and among equals the halts left until one takes the timer.\<close>

lemma idle_loop_returns:
  assumes timer: "\<forall>k. \<exists>j \<ge> k. ev j \<noteq> []" and i: "i < SCHED64_MAX_TASKS" and d: "0 < d" "d < 2 ^ 64"
  shows "idling s \<Longrightarrow> table_ok s \<Longrightarrow> t_used (tasks s ! i) \<Longrightarrow> t_blocked (tasks s ! i) \<Longrightarrow> t_deadline (tasks s ! i) = d \<Longrightarrow> ticks s < 2 ^ 64 - 1 \<Longrightarrow>
     \<exists>n s'. idle_loop ev k s = Some (Some n, s')"
proof (induction "Suc d - ticks s" arbitrary: s k rule: less_induct)
  case less
  note outer = less.hyps
  obtain j where j: "k \<le> j" "ev j \<noteq> []" using timer by blast
  have "\<exists>n s'. idle_loop ev l t = Some (Some n, s')"
    if "l \<le> j" "ticks t = ticks s" "idling t" "table_ok t" "t_used (tasks t ! i)" "t_blocked (tasks t ! i)" "t_deadline (tasks t ! i) = d" for l t
    using that
  proof (induction "j - l" arbitrary: l t rule: less_induct)
    case inner: less
    have now: "ticks t < 2 ^ 64 - 1" using inner.prems(2) less.prems(6) by simp
    consider n s' where "idle_loop ev l t = Some (Some n, s')"
      | u where "idle_loop ev l t = idle_loop ev (Suc l) u" "idling u" "table_ok u" "tasks u ! i = tasks t ! i" "ticks u = ticks t + length (ev l)" "ticks u < d"
      using idle_round [OF inner.prems(3,4) i inner.prems(5-7) d now] by blast
    then show ?case
    proof cases
      case u: 2
      show ?thesis
      proof (cases "ev l = []")
        case True
        then have "l < j" using inner.prems(1) j(2) by (cases "l = j") auto
        then show ?thesis using inner.hyps [of "Suc l" u] inner.prems u True by simp
      next
        case False
        have "ticks u > ticks s" using u(5) inner.prems(2) False by simp
        moreover have "ticks u < 2 ^ 64 - 1" using u(6) d(2) by simp
        ultimately show ?thesis using outer [of u "Suc l"] inner.prems u(1-4,6) by simp
      qed
    qed blast
  qed
  from this [OF j(1) refl less.prems(1-5)] show ?case .
qed

lemma idle_ended:
  assumes "idle_until_runnable ev s = Some (n, s')" and "\<not> idling s"
  shows "waits_ended s s'" and "n = first_runnable s'"
proof -
  obtain t where t: "idle_loop ev 0 (s\<lparr>idling := True\<rparr>) = Some (n, t)" "s' = t\<lparr>idling := False\<rparr>"
    using assms(1) by (auto simp: idle_until_runnable_def split: bind_splits)
  have l: "waits_ended (s\<lparr>idling := True\<rparr>) t" "n = first_runnable t" using idle_loop_ended [OF t(1)] by simp_all
  show "n = first_runnable s'" using l(2) t(2) by (simp add: first_runnable_def)
  obtain ts a b where w: "t = (s\<lparr>idling := True\<rparr>)\<lparr>tasks := ts, ticks := a, timer_ticks := b\<rparr>" "length ts = length (tasks s)"
    "\<forall>i < length ts. ts ! i = tasks s ! i \<or> t_used (tasks s ! i) \<and> t_blocked (tasks s ! i) \<and> t_deadline (tasks s ! i) \<noteq> 0 \<and> ts ! i = timed_out (tasks s ! i)"
    using l(1) by (auto simp: waits_ended_def)
  have "s' = s\<lparr>tasks := ts, ticks := a, timer_ticks := b\<rparr>" using assms(2) w(1) t(2) by (cases s) simp
  then show "waits_ended s s'" unfolding waits_ended_def using w(2,3) by blast
qed

lemma idle_returns:
  assumes "\<forall>k. \<exists>j \<ge> k. ev j \<noteq> []" and "table_ok s" and "clock_ok s" and "any_deadline s"
  shows "\<exists>n s'. idle_until_runnable ev s = Some (Some n, s')"
proof -
  let ?s = "s\<lparr>idling := True\<rparr>"
  obtain i where i: "i < SCHED64_MAX_TASKS" "t_used (tasks s ! i)" "t_blocked (tasks s ! i)" "t_deadline (tasks s ! i) \<noteq> 0"
    using assms(4) by (auto simp: any_deadline_iff)
  have "tasks s ! i \<in> set (tasks s)" using i(1) assms(2) by (simp add: table_ok_def)
  then have d: "0 < t_deadline (tasks s ! i)" "t_deadline (tasks s ! i) < 2 ^ 64" "ticks ?s < 2 ^ 64 - 1" using assms(3) i(4) by (auto simp: clock_ok_def)
  have "table_ok ?s" using assms(2) by (simp add: table_ok_def used_tasks_def)
  then obtain n t where "idle_loop ev 0 ?s = Some (Some n, t)"
    using idle_loop_returns [OF assms(1) i(1) d(1,2), of ?s 0] i(2,3) d(3) by auto
  then show ?thesis by (simp add: idle_until_runnable_def)
qed

section \<open>Handing over\<close>

lemma leave_keeps:
  assumes inv: "sched_inv s" and t: "table_ok t" "\<not> idling t" and c: "current t = int c" "c < SCHED64_MAX_TASKS"
    and n: "n < SCHED64_MAX_TASKS" "runnable (tasks t ! n)" and cur: "current s = int c"
    and same: "\<And>j. j < SCHED64_MAX_TASKS \<Longrightarrow> j \<noteq> c \<Longrightarrow> runnable (tasks s ! j) \<Longrightarrow> tasks t ! j = tasks s ! j"
  shows "keeps (\<lambda>j. int j \<noteq> current s) (fr, s) (resume fr (leave_for n t))"
proof -
  obtain r vs fsb t' where out: "leave_for n t = (Some (r, vs, fsb), t')" using leave_Some by blast
  note l = leave_spec [OF t c n out]
  have at: "tasks t' ! j = tasks t ! j" if "j \<noteq> c" for j using l(3) that by simp
  have "resume fr (leave_for n t) = (r, t'\<lparr>fs_msr := fsb\<rparr>)" by (simp add: out resume_def)
  then show ?thesis using l(1,2) at same cur by (simp add: keeps_def context_of_def [of "(fr, s)"])
qed

text \<open>The table with the current task put to sleep.\<close>

definition parked :: "registers64 \<Rightarrow> u64 \<Rightarrow> u64 \<Rightarrow> u64 \<Rightarrow> nat \<Rightarrow> 32 word \<Rightarrow> sched \<Rightarrow> sched" where
  "parked fr addr w tm d b s = (tupd (nat (current s)) (\<lambda>t. t\<lparr>t_fs_base := fs_msr s, t_regs := fr, t_blocked := True, t_wait_addr := addr, t_wake_rax := w,
                 t_timeout_rax := tm, t_wait_bits := b, t_deadline := d, t_signal_restart := next_signal_restart s\<rparr>) s)\<lparr>next_signal_restart := 0\<rparr>"

lemma block_unfold:
  assumes "\<not> no_current s"
  shows "sched64_block_until_ex ev fr addr w tm d b s =
     (let t = parked fr addr w tm d b s; c = nat (current s)
      in if next_task c t = c \<or> t_blocked (tasks t ! next_task c t)
         then (if irq0_masked t \<or> \<not> any_deadline t then Some (None, unblock c t)
               else do { (n, s) \<leftarrow> idle_until_runnable ev t; Some (case n of None \<Rightarrow> (None, unblock c s) | Some n \<Rightarrow> leave_for n s) })
         else Some (leave_for (next_task c t) t))"
  using assms by (simp only: sched64_block_until_ex_def Let_def parked_def if_False)

lemma parked_spec:
  assumes inv: "sched_inv s" and c: "current s = int c" "c < SCHED64_MAX_TASKS" and t: "t = parked fr addr w tm d b s"
  shows "tasks t ! j = (if j = c then (tasks s ! c)\<lparr>t_fs_base := fs_msr s, t_regs := fr, t_blocked := True, t_wait_addr := addr, t_wake_rax := w,
                 t_timeout_rax := tm, t_wait_bits := b, t_deadline := d, t_signal_restart := next_signal_restart s\<rparr> else tasks s ! j)"
    and "table_ok t" "\<not> idling t" "current t = int c" "length (tasks t) = SCHED64_MAX_TASKS" "irq0_masked t = irq0_masked s" "ticks t = ticks s"
proof -
  note D = sched_invD [OF inv]
  let ?f = "\<lambda>t. t\<lparr>t_fs_base := fs_msr s, t_regs := fr, t_blocked := True, t_wait_addr := addr, t_wake_rax := w,
                 t_timeout_rax := tm, t_wait_bits := b, t_deadline := d, t_signal_restart := next_signal_restart s\<rparr>"
  have e: "t = (tupd c ?f s)\<lparr>next_signal_restart := 0\<rparr>" using c(1) by (simp add: t parked_def)
  show "tasks t ! j = (if j = c then ?f (tasks s ! c) else tasks s ! j)" using c(2) D(3) by (simp add: e tupd_at)
  have "table_ok (tupd c ?f s)" by (rule table_ok_edit [OF D(1)]) simp
  then show "table_ok t" by (simp add: e table_ok_def used_tasks_def)
  show "\<not> idling t" "current t = int c" "length (tasks t) = SCHED64_MAX_TASKS" "irq0_masked t = irq0_masked s" "ticks t = ticks s"
    using D(2,3) c(1) by (simp_all add: e)
qed

lemma block_keeps:
  assumes inv: "sched_inv s" and r: "sched64_block_until_ex ev fr addr w tm d b s = Some x"
  shows "keeps (\<lambda>j. int j \<noteq> current s) (fr, s) (resume fr x)"
proof (cases "current s < 0")
  case True
  then have "x = (None, s)" using r no_current_inv [OF inv] by (simp add: sched64_block_until_ex_def)
  then show ?thesis using inv by (simp add: resume_def keeps_def)
next
  case False
  note D = sched_invD [OF inv]
  define c where "c = nat (current s)"
  have c: "c < SCHED64_MAX_TASKS" "current s = int c" using D(4) False by (auto simp: c_def)
  define t where "t = parked fr addr w tm d b s"
  note P = parked_spec [OF inv c(2,1) t_def]
  have at: "tasks t ! j = tasks s ! j" if "j \<noteq> c" for j using P(1) that by simp
  note ok = P(2-5)
  have nxt: "next_task c t < SCHED64_MAX_TASKS" "next_task c t \<noteq> c \<Longrightarrow> runnable (tasks t ! next_task c t)"
    using next_task_cases(1,2) [OF c(1)] by simp_all
  have fail: "keeps (\<lambda>j. int j \<noteq> current s) (fr, s) (fr, unblock c v)" if v: "waits_ended t v" for v
  proof -
    note W = waits_endedD [OF v]
    have "table_ok (unblock c v)" unfolding unblock_def using W(11) [OF ok(1)] by (rule table_ok_edit) simp
    moreover have "t_used (tasks v ! c)" using W(10) [of c] c(1) ok(4) D(4) False P(1) [of c] by (auto simp: c_def runnable_def timed_out_def)
    moreover have "tasks v ! j = tasks s ! j" if "j < SCHED64_MAX_TASKS" "j \<noteq> c" "runnable (tasks s ! j)" for j
      using W(9) [of j] that at ok(4) by simp
    ultimately show ?thesis
      using W c ok by (auto simp: keeps_def sched_inv_def context_of_def unblock_def tupd_at runnable_def)
  qed
  have go: "keeps (\<lambda>j. int j \<noteq> current s) (fr, s) (resume fr (leave_for n v))" if v: "waits_ended t v" and n: "n < SCHED64_MAX_TASKS" "runnable (tasks v ! n)" for n v
  proof -
    note W = waits_endedD [OF v]
    show ?thesis
    proof (rule leave_keeps [OF inv W(11) [OF ok(1)] _ _ c(1) n c(2)])
      show "tasks v ! j = tasks s ! j" if "j < SCHED64_MAX_TASKS" "j \<noteq> c" "runnable (tasks s ! j)" for j using W(9) [of j] that at ok(4) by simp
    qed (use W ok in simp_all)
  qed
  have nc: "\<not> no_current s" using False no_current_inv [OF inv] by simp
  note e = block_unfold [OF nc, of ev fr addr w tm d b, unfolded Let_def, folded t_def c_def]
  consider "x = (None, unblock c t)" | n v where "idle_until_runnable ev t = Some (n, v)" "x = (case n of None \<Rightarrow> (None, unblock c v) | Some n \<Rightarrow> leave_for n v)"
    | "next_task c t \<noteq> c" "x = leave_for (next_task c t) t"
    using r unfolding e by (auto split: if_splits bind_splits)
  then show ?thesis
  proof cases
    case 1
    then show ?thesis using fail [OF waits_ended_refl] by (simp add: resume_def)
  next
    case (2 n v)
    note i = idle_ended [OF 2(1) ok(2)]
    show ?thesis
    proof (cases n)
      case None
      then show ?thesis using fail [OF i(1)] 2(2) by (simp add: resume_def)
    next
      case (Some m)
      then show ?thesis using go [OF i(1)] 2(2) i(2) first_runnable_Some [of v m] by simp
    qed
  next
    case 3
    then show ?thesis using go [OF waits_ended_refl] nxt by simp
  qed
qed

lemma successor_keeps:
  assumes "table_ok s" "\<not> idling s" and r: "find_successor ev s = Some x"
  shows "sched_inv (snd (resume fr x))"
    and "j < SCHED64_MAX_TASKS \<Longrightarrow> runnable (tasks s ! j) \<Longrightarrow> tasks (snd (resume fr x)) ! j = tasks s ! j"
    and "j < SCHED64_MAX_TASKS \<Longrightarrow> runnable (tasks s ! j) \<Longrightarrow> context_of (resume fr x) j = saved (tasks s ! j)"
proof -
  obtain n t where t: "waits_ended s t" "n = first_runnable t \<or> n = None" "x = (case n of None \<Rightarrow> (None, t\<lparr>current := -1\<rparr>) | Some n \<Rightarrow> (let (out, s) = switch_to n t in (Some out, s)))"
  proof (cases "first_runnable s")
    case (Some m)
    then show ?thesis using that [of s "Some m"] r by (simp add: find_successor_def)
  next
    case None
    show ?thesis
    proof (cases "\<not> irq0_masked s \<and> any_deadline s")
      case True
      then obtain n t where "idle_until_runnable ev s = Some (n, t)" "x = (case n of None \<Rightarrow> (None, t\<lparr>current := -1\<rparr>) | Some n \<Rightarrow> (let (out, s) = switch_to n t in (Some out, s)))"
        using r None by (auto simp: find_successor_def split: bind_splits)
      then show ?thesis using that idle_ended [OF _ assms(2)] by blast
    next
      case False
      then show ?thesis using that [of s None] r None by (auto simp: find_successor_def)
    qed
  qed
  note W = waits_endedD [OF t(1)]
  have len: "length (tasks s) = SCHED64_MAX_TASKS" using assms(1) by (simp add: table_ok_def)
  have ok: "table_ok t" "\<not> idling t" using W(2,11) assms by simp_all
  have all: "sched_inv (snd (resume fr x)) \<and> tasks (snd (resume fr x)) = tasks t \<and> (\<forall>j. context_of (resume fr x) j = saved (tasks t ! j))"
  proof (cases n)
    case None
    then show ?thesis using t(3) ok by (simp add: resume_def sched_inv_def table_ok_def used_tasks_def context_of_def)
  next
    case (Some m)
    then have m: "m < SCHED64_MAX_TASKS" "runnable (tasks t ! m)" using t(2) first_runnable_Some [of t m] by auto
    obtain r vs fsb t' where out: "switch_to m t = ((r, vs, fsb), t')" by (metis surj_pair)
    then have "resume fr x = (r, t'\<lparr>fs_msr := fsb\<rparr>)" using t(3) Some by (simp add: resume_def)
    then show ?thesis using enter(1-3) [OF ok m out] by simp
  qed
  show "sched_inv (snd (resume fr x))" using all by simp
  show "j < SCHED64_MAX_TASKS \<Longrightarrow> runnable (tasks s ! j) \<Longrightarrow> tasks (snd (resume fr x)) ! j = tasks s ! j" using all W(9) len by simp
  then show "j < SCHED64_MAX_TASKS \<Longrightarrow> runnable (tasks s ! j) \<Longrightarrow> context_of (resume fr x) j = saved (tasks s ! j)" using all by simp
qed

section \<open>Ending tasks\<close>

lemma drop_task_spec:
  assumes "table_ok s" and "i < SCHED64_MAX_TASKS" and "t_used (tasks s ! i)"
  shows "table_ok (drop_task i s)" and "tasks (drop_task i s) ! j = (if j = i then (tasks s ! i)\<lparr>t_used := False\<rparr> else tasks s ! j)"
    and "current (drop_task i s) = current s" "idling (drop_task i s) = idling s" "same_cpu s (drop_task i s)" "task_total (drop_task i s) = task_total s - 1"
proof -
  have i: "i < length (tasks s)" using assms(1,2) by (simp add: table_ok_def)
  let ?t = "tupd i (\<lambda>t. t\<lparr>t_used := False\<rparr>) s"
  have u: "used_tasks ?t + 1 = used_tasks s" using used_tupd [OF i, of "\<lambda>t. t\<lparr>t_used := False\<rparr>"] assms(3) by simp
  then have e: "drop_task i s = ?t\<lparr>task_total := task_total s - 1\<rparr>" using assms(1) by (simp add: drop_task_def table_ok_def)
  show "table_ok (drop_task i s)" using u assms(1) unfolding e by (simp add: table_ok_def used_tasks_def)
  show "tasks (drop_task i s) ! j = (if j = i then (tasks s ! i)\<lparr>t_used := False\<rparr> else tasks s ! j)" unfolding e by (simp add: tupd_at [OF i])
  show "current (drop_task i s) = current s" "idling (drop_task i s) = idling s" "same_cpu s (drop_task i s)" "task_total (drop_task i s) = task_total s - 1"
    unfolding e by (simp_all add: same_cpu_def)
qed

lemma exit_current_keeps:
  assumes inv: "sched_inv s" and r: "sched64_exit_current ev s = Some x"
  shows "keeps (\<lambda>j. int j \<noteq> current s) (fr, s) (resume fr x)"
proof (cases "current s < 0")
  case True
  then show ?thesis using r inv no_current_inv [OF inv] by (auto simp: sched64_exit_current_def resume_def keeps_def)
next
  case False
  note D = sched_invD [OF inv]
  define c where "c = nat (current s)"
  have c: "c < SCHED64_MAX_TASKS" "current s = int c" "t_used (tasks s ! c)" using D(4) False by (auto simp: c_def runnable_def)
  note d = drop_task_spec [OF D(1) c(1,3)]
  have "find_successor ev (drop_task c s) = Some x" using r False no_current_inv [OF inv] by (simp add: sched64_exit_current_def c_def)
  note k = successor_keeps [OF d(1) _ this, where fr = fr]
  have "runnable (tasks (drop_task c s) ! j)" "tasks (drop_task c s) ! j = tasks s ! j" if "j \<noteq> c" "runnable (tasks s ! j)" for j
    using that d(2) by simp_all
  then show ?thesis using k D(2) d(4) c(2) unfolding keeps_def by (simp add: context_of_def)
qed

text \<open>The sweep over the table that ends the tasks of a process.\<close>

lemma end_tasks:
  assumes "table_ok s"
  shows "n \<le> SCHED64_MAX_TASKS \<Longrightarrow> table_ok (fold (end_step p) [0..<n] s) \<and> same_cpu s (fold (end_step p) [0..<n] s)
     \<and> idling (fold (end_step p) [0..<n] s) = idling s
     \<and> (\<forall>j. tasks (fold (end_step p) [0..<n] s) ! j
           = (if j < n \<and> t_used (tasks s ! j) \<and> t_pid (tasks s ! j) = p then (tasks s ! j)\<lparr>t_used := False\<rparr> else tasks s ! j))"
proof (induction n)
  case 0
  then show ?case using assms by (simp add: same_cpu_def)
next
  case (Suc n)
  let ?s = "fold (end_step p) [0..<n] s"
  have n: "n < SCHED64_MAX_TASKS" using Suc.prems by simp
  have IH: "table_ok ?s" "same_cpu s ?s" "idling ?s = idling s"
    "\<And>j. tasks ?s ! j = (if j < n \<and> t_used (tasks s ! j) \<and> t_pid (tasks s ! j) = p then (tasks s ! j)\<lparr>t_used := False\<rparr> else tasks s ! j)"
    using Suc.IH Suc.prems by simp_all
  have e: "fold (end_step p) [0..<Suc n] s = end_step p n ?s" by simp
  show ?case
  proof (cases "t_used (tasks s ! n) \<and> t_pid (tasks s ! n) = p")
    case True
    have u: "t_used (tasks ?s ! n)" using True IH(4) [of n] by simp
    note d = drop_task_spec [OF IH(1) n u]
    have s: "end_step p n ?s = drop_task n ?s" using True IH(4) [of n] by (simp add: end_step_def)
    have "tasks (drop_task n ?s) ! j = (if j < Suc n \<and> t_used (tasks s ! j) \<and> t_pid (tasks s ! j) = p then (tasks s ! j)\<lparr>t_used := False\<rparr> else tasks s ! j)" for j
      using d(2) [of j] IH(4) True by (auto simp: less_Suc_eq)
    then show ?thesis unfolding e s using d(1,4,5) IH(2,3) by (simp add: same_cpu_def)
  next
    case False
    then have "end_step p n ?s = ?s" using IH(4) [of n] by (auto simp: end_step_def)
    moreover have "tasks ?s ! j = (if j < Suc n \<and> t_used (tasks s ! j) \<and> t_pid (tasks s ! j) = p then (tasks s ! j)\<lparr>t_used := False\<rparr> else tasks s ! j)" for j
      using IH(4) [of j] False by (cases "j = n") auto
    ultimately show ?thesis unfolding e using IH(1-3) by simp
  qed
qed

lemma exit_process_keeps:
  assumes inv: "sched_inv s" and r: "sched64_exit_process ev p s = Some x"
  shows "keeps (\<lambda>j. int j \<noteq> current s \<and> t_pid (tasks s ! j) \<noteq> p) (fr, s) (resume fr x)"
proof -
  note D = sched_invD [OF inv]
  let ?s = "fold (end_step p) [0..<SCHED64_MAX_TASKS] s"
  have e: "table_ok ?s" "idling ?s = idling s"
    "\<And>j. tasks ?s ! j = (if j < SCHED64_MAX_TASKS \<and> t_used (tasks s ! j) \<and> t_pid (tasks s ! j) = p then (tasks s ! j)\<lparr>t_used := False\<rparr> else tasks s ! j)"
    using end_tasks [OF D(1) order_refl, of p] by simp_all
  have "find_successor ev ?s = Some x" using r by (simp add: sched64_exit_process_def)
  note k = successor_keeps [OF e(1) _ this, where fr = fr]
  show ?thesis using k D(2) e(2,3) by (simp add: keeps_def context_of_def [of "(fr, s)"])
qed

lemma remove_tasks:
  assumes "table_ok s"
  shows "n \<le> SCHED64_MAX_TASKS \<Longrightarrow> (case fold (remove_step p) [0..<n] (0, s) of (k, t) \<Rightarrow>
     table_ok t \<and> fs_msr t = fs_msr s \<and> gs_msr t = gs_msr s \<and> fpu_regs t = fpu_regs s \<and> idling t = idling s
     \<and> current t = (if 0 \<le> current s \<and> current s < int n \<and> t_used (tasks s ! nat (current s)) \<and> t_pid (tasks s ! nat (current s)) = p then -1 else current s)
     \<and> (\<forall>j. tasks t ! j = (if j < n \<and> t_used (tasks s ! j) \<and> t_pid (tasks s ! j) = p then (tasks s ! j)\<lparr>t_used := False\<rparr> else tasks s ! j)))"
proof (induction n)
  case 0
  then show ?case using assms by simp
next
  case (Suc n)
  obtain k t where kt: "fold (remove_step p) [0..<n] (0, s) = (k, t)" by (metis surj_pair)
  have n: "n < SCHED64_MAX_TASKS" using Suc.prems by simp
  have IH: "table_ok t" "fs_msr t = fs_msr s" "gs_msr t = gs_msr s" "fpu_regs t = fpu_regs s" "idling t = idling s"
    "current t = (if 0 \<le> current s \<and> current s < int n \<and> t_used (tasks s ! nat (current s)) \<and> t_pid (tasks s ! nat (current s)) = p then -1 else current s)"
    "\<And>j. tasks t ! j = (if j < n \<and> t_used (tasks s ! j) \<and> t_pid (tasks s ! j) = p then (tasks s ! j)\<lparr>t_used := False\<rparr> else tasks s ! j)"
    using Suc.IH Suc.prems kt by simp_all
  have e: "fold (remove_step p) [0..<Suc n] (0, s) = remove_step p n (k, t)" by (simp add: kt)
  have new: "int n = current t \<longleftrightarrow> current s = int n" using IH(6) by auto
  show ?case
  proof (cases "t_used (tasks s ! n) \<and> t_pid (tasks s ! n) = p")
    case True
    have u: "t_used (tasks t ! n)" using True IH(7) [of n] by simp
    note d = drop_task_spec [OF IH(1) n u]
    have s: "remove_step p n (k, t) = (k + 1, if int n = current t then (drop_task n t)\<lparr>current := -1\<rparr> else drop_task n t)"
      using True IH(7) [of n] d(3) by (simp add: remove_step_def)
    have c: "table_ok ((drop_task n t)\<lparr>current := -1\<rparr>)" using d(1) by (simp add: table_ok_def used_tasks_def)
    have "current (snd (remove_step p n (k, t)))
        = (if 0 \<le> current s \<and> current s < int (Suc n) \<and> t_used (tasks s ! nat (current s)) \<and> t_pid (tasks s ! nat (current s)) = p then -1 else current s)"
      using d(3) IH(6) True new unfolding s by (cases "current s = int n") auto
    moreover have "tasks (snd (remove_step p n (k, t))) ! j
        = (if j < Suc n \<and> t_used (tasks s ! j) \<and> t_pid (tasks s ! j) = p then (tasks s ! j)\<lparr>t_used := False\<rparr> else tasks s ! j)" for j
      using d(2) [of j] IH(7) True unfolding s by (auto simp: less_Suc_eq)
    ultimately show ?thesis unfolding e using d(1,4,5) c IH(1-5) unfolding s by (simp add: same_cpu_def split: if_splits)
  next
    case False
    then have "remove_step p n (k, t) = (k, t)" using IH(7) [of n] by (auto simp: remove_step_def)
    moreover have "current t = (if 0 \<le> current s \<and> current s < int (Suc n) \<and> t_used (tasks s ! nat (current s)) \<and> t_pid (tasks s ! nat (current s)) = p then -1 else current s)"
      using IH(6) False by (cases "current s = int n") auto
    moreover have "tasks t ! j = (if j < Suc n \<and> t_used (tasks s ! j) \<and> t_pid (tasks s ! j) = p then (tasks s ! j)\<lparr>t_used := False\<rparr> else tasks s ! j)" for j
      using IH(7) [of j] False by (cases "j = n") auto
    ultimately show ?thesis unfolding e using IH(1-5) by simp
  qed
qed

lemma remove_pid_keeps:
  assumes inv: "sched_inv s"
  shows "keeps (\<lambda>j. t_pid (tasks s ! j) \<noteq> p) (fr, s) (fr, snd (sched64_remove_pid p s))"
proof -
  note D = sched_invD [OF inv]
  obtain k t where kt: "sched64_remove_pid p s = (k, t)" by (metis surj_pair)
  have e: "table_ok t" "fs_msr t = fs_msr s" "gs_msr t = gs_msr s" "fpu_regs t = fpu_regs s" "idling t = idling s"
    "current t = (if 0 \<le> current s \<and> current s < int SCHED64_MAX_TASKS \<and> t_used (tasks s ! nat (current s)) \<and> t_pid (tasks s ! nat (current s)) = p then -1 else current s)"
    "\<And>j. tasks t ! j = (if j < SCHED64_MAX_TASKS \<and> t_used (tasks s ! j) \<and> t_pid (tasks s ! j) = p then (tasks s ! j)\<lparr>t_used := False\<rparr> else tasks s ! j)"
    using remove_tasks [OF D(1) order_refl, of p] kt by (simp_all add: sched64_remove_pid_def)
  have "sched_inv t" using inv e by (auto simp: sched_inv_def runnable_def)
  moreover have "context_of (fr, t) j = context_of (fr, s) j" "tasks t ! j = tasks s ! j" if "j < SCHED64_MAX_TASKS" "t_pid (tasks s ! j) \<noteq> p" for j
  proof -
    show "tasks t ! j = tasks s ! j" using e(7) that by simp
    have "current s = int j \<Longrightarrow> current t = current s" using e(6) that(2) by auto
    moreover have "current s \<noteq> int j \<Longrightarrow> current t \<noteq> int j" using e(6) by auto
    ultimately show "context_of (fr, t) j = context_of (fr, s) j"
      using e(2-4) \<open>tasks t ! j = tasks s ! j\<close> by (cases "current s = int j") (simp_all add: context_of_def)
  qed
  ultimately show ?thesis unfolding keeps_def kt by simp
qed

section \<open>Waking and adding\<close>

text \<open>A change to tasks that cannot run.\<close>

definition calm :: "sched \<Rightarrow> sched \<Rightarrow> bool" where
  "calm s s' \<longleftrightarrow> map t_used (tasks s') = map t_used (tasks s) \<and> task_total s' = task_total s \<and> same_cpu s s' \<and> idling s' = idling s
     \<and> (\<forall>j < length (tasks s). runnable (tasks s ! j) \<longrightarrow> tasks s' ! j = tasks s ! j)"

lemma calm_refl [simp]: "calm s s"
  by (simp add: calm_def same_cpu_def)

lemma calm_trans:
  assumes "calm s t" and "calm t v"
  shows "calm s v"
proof -
  have "length (tasks t) = length (tasks s)" using assms(1) unfolding calm_def by (metis length_map)
  then show ?thesis using assms unfolding calm_def same_cpu_def by metis
qed

lemma calm_keeps:
  assumes inv: "sched_inv s" and c: "calm s s'"
  shows "keeps (\<lambda>_. True) (fr, s) (fr, s')"
proof (rule keeps_same [OF inv])
  note D = sched_invD [OF inv]
  show "table_ok s'" by (rule table_ok_same [OF D(1)]) (use c in \<open>simp_all add: calm_def\<close>)
  show "\<not> idling s'" "same_cpu s s'" using c D(2) by (simp_all add: calm_def)
  show "tasks s' ! j = tasks s ! j" if "j < SCHED64_MAX_TASKS" "runnable (tasks s ! j)" for j using that c D(3) by (simp add: calm_def)
qed

lemma calm_tupd:
  assumes "t_blocked (tasks s ! i)" and "\<And>t. t_used (f t) = t_used t"
  shows "calm s (tupd i f s)"
proof -
  have "tasks (tupd i f s) ! j = tasks s ! j" if "j < length (tasks s)" "runnable (tasks s ! j)" for j
    using that assms(1) by (cases "i = j") (auto simp: tupd_def runnable_def)
  then show ?thesis using used_edit [OF assms(2)] by (simp add: calm_def same_cpu_def)
qed

lemma woken_used [simp]: "t_used (woken_by_signal t) = t_used t" "t_used (woken t) = t_used t" "t_used (release_cond t) = t_used t"
  by (simp_all add: woken_by_signal_def woken_def release_cond_def Let_def)

lemma wake_pid_calm: "calm s (snd (fold (wake_pid_step p) is (n, s)))"
proof (induction "is" arbitrary: n s)
  case (Cons i "is")
  obtain k t where kt: "wake_pid_step p i (n, s) = (k, t)" by (metis surj_pair)
  then have "calm s t" by (auto simp: wake_pid_step_def Let_def split: if_splits intro!: calm_tupd)
  then show ?case using calm_trans Cons.IH [of t k] kt by simp
qed simp

lemma wake_loop_calm: "calm s (snd (wake_loop addr lim b p is (n, s)))"
proof (induction "is" arbitrary: n s)
  case (Cons i "is")
  have "wakes addr b p (tasks s ! i) \<Longrightarrow> calm s (tupd i woken s)" by (rule calm_tupd) (simp_all add: wakes_def)
  then show ?case using Cons.IH calm_trans by (auto split: if_splits)
qed simp

lemma wake_futex_calm: "calm s (snd (sched64_wake_futex addr lim b p s))"
proof -
  obtain n t where nt: "wake_loop addr lim b p [0..<SCHED64_MAX_TASKS] (0, s) = (n, t)" by (metis surj_pair)
  have "calm t (t\<lparr>tasks := map release_cond (tasks t)\<rparr>)" by (auto simp: calm_def same_cpu_def runnable_def release_cond_def)
  then show ?thesis using wake_loop_calm [of s addr lim b p "[0..<SCHED64_MAX_TASKS]" 0] nt calm_trans by (fastforce simp: sched64_wake_futex_def)
qed

lemma wake_tid_calm: "calm s (snd (sched64_wake_tid tid s))"
  by (auto simp: sched64_wake_tid_def intro!: calm_tupd)

lemma free_task_Some: "free_task s = Some i \<Longrightarrow> i < SCHED64_MAX_TASKS \<and> \<not> t_used (tasks s ! i)"
  by (simp add: free_task_def first_slot_Some)

lemma place_keeps:
  assumes inv: "sched_inv s" and i: "i < SCHED64_MAX_TASKS" "\<not> t_used (tasks s ! i)" and f: "t_used (f (tasks s ! i))"
  shows "keeps (\<lambda>_. True) (fr, s) (fr, (tupd i f s)\<lparr>task_total := task_total s + 1\<rparr>)"
proof (rule keeps_same [OF inv])
  note D = sched_invD [OF inv]
  have u: "used_tasks (tupd i f s) = used_tasks s + 1" using used_tupd [of i s f] i f D(3) by simp
  then show "table_ok ((tupd i f s)\<lparr>task_total := task_total s + 1\<rparr>)" using D(1) by (simp add: table_ok_def used_tasks_def)
  show "tasks ((tupd i f s)\<lparr>task_total := task_total s + 1\<rparr>) ! j = tasks s ! j" if "runnable (tasks s ! j)" for j
    using that i D(3) by (auto simp: tupd_at runnable_def)
qed (use inv in \<open>simp_all add: same_cpu_def sched_inv_def\<close>)

lemma tupd_tupd: "i < length (tasks s) \<Longrightarrow> tupd i g (tupd i f s) = tupd i (g \<circ> f) s"
  by (simp add: tupd_def)

lemma full_keeps: "sched_inv s \<Longrightarrow> keeps (\<lambda>_. True) (fr, s) (fr, tasks_full s)"
  by (rule calm_keeps) (simp_all add: calm_def tasks_full_def same_cpu_def)

lemma add_frame_keeps:
  assumes inv: "sched_inv s"
  shows "keeps (\<lambda>_. True) (fr, s) (fr, snd (sched64_add_frame_for r vs fsb p s))"
proof (cases "free_task s")
  case None
  then show ?thesis using full_keeps [OF inv] by (simp add: sched64_add_frame_for_def)
next
  case (Some i)
  then show ?thesis using free_task_Some [OF Some] by (simp add: sched64_add_frame_for_def) (rule place_keeps [OF inv], simp_all)
qed

lemma add_keeps:
  assumes inv: "sched_inv s"
  shows "keeps (\<lambda>_. True) (fr, s) (fr, snd (sched64_add ip sp arg vs s))"
proof (cases "free_task s")
  case None
  then show ?thesis using full_keeps [OF inv] by (simp add: sched64_add_def)
next
  case (Some i)
  then show ?thesis using free_task_Some [OF Some] sched_invD(3) [OF inv]
    by (simp add: sched64_add_def Let_def tupd_tupd) (rule place_keeps [OF inv], simp_all)
qed

section \<open>Running beside the others\<close>

text \<open>What may happen to the machine without task \<open>j\<close> doing it itself: another task runs and changes what the processor holds, the timer
  interrupts, somebody gives up the processor, waits, wakes, ends or starts tasks. Of what \<open>j\<close> may do it is
  interrupted by the timer and gives up its turn.\<close>

inductive beside :: "nat \<Rightarrow> registers64 \<times> sched \<Rightarrow> registers64 \<times> sched \<Rightarrow> bool" for j where
  runs_on: "current s \<noteq> int j \<Longrightarrow> beside j (fr, s) (fr', s\<lparr>fs_msr := a, gs_msr := b, fpu_regs := c\<rparr>)"
| timer: "stop_after s = 0 \<Longrightarrow> beside j (fr, s) (sched_timer_handler fr s)"
| yields: "beside j (fr, s) (resume fr (sched64_yield_current fr s))"
| blocks: "current s \<noteq> int j \<Longrightarrow> sched64_block_until_ex ev fr addr w tm d bits s = Some x \<Longrightarrow> beside j (fr, s) (resume fr x)"
| ends: "current s \<noteq> int j \<Longrightarrow> sched64_exit_current ev s = Some x \<Longrightarrow> beside j (fr, s) (resume fr x)"
| ends_process: "current s \<noteq> int j \<Longrightarrow> t_pid (tasks s ! j) \<noteq> p \<Longrightarrow> sched64_exit_process ev p s = Some x \<Longrightarrow> beside j (fr, s) (resume fr x)"
| removes: "t_pid (tasks s ! j) \<noteq> p \<Longrightarrow> beside j (fr, s) (fr, snd (sched64_remove_pid p s))"
| wakes_process: "beside j (fr, s) (fr, snd (sched64_wake_pid p s))"
| wakes_task: "beside j (fr, s) (fr, snd (sched64_wake_tid tid s))"
| wakes_waiters: "beside j (fr, s) (fr, snd (sched64_wake_futex addr lim bits p s))"
| adds: "beside j (fr, s) (fr, snd (sched64_add ip sp arg vs s))"
| clones: "beside j (fr, s) (fr, snd (sched64_add_frame_for r vs fsb p s))"

locale task_machine =
  fixes step :: "nat \<Rightarrow> 'x \<Rightarrow> 'x \<Rightarrow> bool" and ok :: "'x \<Rightarrow> bool" and can_run :: "'x \<Rightarrow> nat \<Rightarrow> bool" and kept :: "'x \<Rightarrow> nat \<Rightarrow> 'c"
  assumes keeps_task: "step j x y \<Longrightarrow> ok x \<Longrightarrow> can_run x j \<Longrightarrow> ok y \<and> can_run y j \<and> kept y j = kept x j"
begin

lemma isolated:
  assumes "rtranclp (step j) x y" and "ok x" and "can_run x j"
  shows "ok y \<and> can_run y j \<and> kept y j = kept x j"
  using assms(1)
proof (induction rule: rtranclp_induct)
  case (step y z)
  then show ?case using keeps_task [of j y z] by simp
qed (use assms(2,3) in simp)

end

definition task_kept :: "registers64 \<times> sched \<Rightarrow> nat \<Rightarrow> task_context \<times> u64 \<times> int" where
  "task_kept x j = (context_of x j, t_space (tasks (snd x) ! j), t_pid (tasks (snd x) ! j))"

lemma keepsD:
  assumes "keeps C x y" and "j < SCHED64_MAX_TASKS" and "runnable (tasks (snd x) ! j)" and "C j"
  shows "sched_inv (snd y) \<and> runnable (tasks (snd y) ! j) \<and> task_kept y j = task_kept x j"
  using assms by (simp add: keeps_def task_kept_def)

lemma beside_keeps:
  assumes "beside j x y" and "sched_inv (snd x)" and "j < SCHED64_MAX_TASKS" and "runnable (tasks (snd x) ! j)"
  shows "sched_inv (snd y) \<and> runnable (tasks (snd y) ! j) \<and> task_kept y j = task_kept x j"
  using assms
proof (induction rule: beside.induct)
  case (runs_on s fr fr' a b c)
  then show ?case by (simp add: sched_inv_def table_ok_def used_tasks_def task_kept_def context_of_def)
next
  case (timer s fr)
  then show ?case using keepsD [OF timer_keeps] by simp
next
  case (yields fr s)
  then show ?case using keepsD [OF yield_keeps] by simp
next
  case (blocks s ev fr addr w tm d bits x)
  have inv: "sched_inv s" using blocks(3) by simp
  from keepsD [OF block_keeps [OF inv blocks(2)], of j] show ?case using blocks by simp
next
  case (ends s ev x fr)
  have inv: "sched_inv s" using ends(3) by simp
  from keepsD [OF exit_current_keeps [OF inv ends(2)], of j fr] show ?case using ends by simp
next
  case (ends_process s p ev x fr)
  have inv: "sched_inv s" using ends_process(4) by simp
  from keepsD [OF exit_process_keeps [OF inv ends_process(3)], of j fr] show ?case using ends_process by simp
next
  case (removes s p fr)
  then show ?case using keepsD [OF remove_pid_keeps] by simp
next
  case (wakes_process fr s p)
  then show ?case using keepsD [OF calm_keeps [OF _ wake_pid_calm]] by (simp add: sched64_wake_pid_def)
next
  case (wakes_task fr s tid)
  then show ?case using keepsD [OF calm_keeps [OF _ wake_tid_calm]] by simp
next
  case (wakes_waiters fr s addr lim bits p)
  then show ?case using keepsD [OF calm_keeps [OF _ wake_futex_calm]] by simp
next
  case (adds fr s ip sp arg vs)
  then show ?case using keepsD [OF add_keeps] by simp
next
  case (clones fr s r vs fsb p)
  then show ?case using keepsD [OF add_frame_keeps] by simp
qed

interpretation sched: task_machine beside "\<lambda>x. sched_inv (snd x)" "\<lambda>x j. j < SCHED64_MAX_TASKS \<and> runnable (tasks (snd x) ! j)" task_kept
  by unfold_locales (use beside_keeps in blast)

section \<open>Round robin\<close>

definition distance :: "nat \<Rightarrow> nat \<Rightarrow> nat" where
  "distance c j = (j + SCHED64_MAX_TASKS - c) mod SCHED64_MAX_TASKS"

lemma distance_le: "c < SCHED64_MAX_TASKS \<Longrightarrow> j < SCHED64_MAX_TASKS \<Longrightarrow> distance c j = (if c \<le> j then j - c else j + SCHED64_MAX_TASKS - c)"
  by (simp add: distance_def mod_if)

lemma next_task_nearer:
  assumes c: "c < SCHED64_MAX_TASKS" and j: "j < SCHED64_MAX_TASKS" "runnable (tasks s ! j)" "j \<noteq> c"
  shows "next_task c s \<noteq> c" and "distance (next_task c s) j < distance c j"
proof -
  define N where "N = SCHED64_MAX_TASKS"
  define l where "l = map (\<lambda>n. (c + n) mod N) [1..<N + 1]"
  define m where "m = distance c j"
  have m: "0 < m" "m < N" "(c + m) mod N = j"
    using distance_le [OF c j(1)] c j(1,3) by (auto simp: m_def N_def mod_if)
  have at: "l ! k = (c + Suc k) mod N" if "k < N" for k using that by (simp add: l_def del: upt_Suc)
  have "l ! (m - 1) = j" "m - 1 < length l" using m at [of "m - 1"] by (simp_all add: l_def del: upt_Suc)
  then have "\<exists>x. find (\<lambda>i. runnable (tasks s ! i)) l = Some x" using j(2) by (metis find_None_iff nth_mem option.exhaust)
  then obtain x where x: "find (\<lambda>i. runnable (tasks s ! i)) l = Some x" by blast
  then obtain k where k: "k < length l" "x = l ! k" "\<forall>i < k. \<not> runnable (tasks s ! (l ! i))" by (auto simp: find_Some_iff)
  have "k \<le> m - 1" using k(3) \<open>l ! (m - 1) = j\<close> j(2) by (meson not_le_imp_less)
  then have km: "Suc k \<le> m" using m(1) by simp
  have "length l = N" by (simp add: l_def del: upt_Suc)
  moreover have "next_task c s = x" using x by (simp only: next_task_def l_def N_def option.case)
  ultimately have nx: "next_task c s = (c + Suc k) mod N" using k(1,2) at [of k] by simp
  have wrap: "(c + a) mod N = (if c + a < N then c + a else c + a - N)" if "a < N" for a using that c by (simp add: N_def mod_if)
  have "Suc k < N" using km m(2) by simp
  then have e: "next_task c s = (if c + Suc k < N then c + Suc k else c + Suc k - N)" "j = (if c + m < N then c + m else c + m - N)"
    using nx wrap [of "Suc k"] wrap [of m] m(2,3) by simp_all
  then show "next_task c s \<noteq> c" using \<open>Suc k < N\<close> by (simp split: if_splits)
  have n: "next_task c s < N" using e(1) c \<open>Suc k < N\<close> by (simp add: N_def split: if_splits)
  have "distance (next_task c s) j = m - Suc k"
    using distance_le [of "next_task c s" j] n j(1) e km m(2) c by (simp add: N_def split: if_splits)
  then show "distance (next_task c s) j < distance c j" using km by (simp add: m_def)
qed

text \<open>The machine after \<open>n\<close> timer interrupts, the \<open>k\<close>-th of which came upon the frame \<open>frm k\<close>.\<close>

fun after :: "(nat \<Rightarrow> registers64) \<Rightarrow> nat \<Rightarrow> sched \<Rightarrow> sched" where
  "after frm 0 s = s"
| "after frm (Suc n) s = snd (sched_timer_handler (frm n) (after frm n s))"

lemma used_two:
  assumes "table_ok s" and "i < SCHED64_MAX_TASKS" "t_used (tasks s ! i)" and "j < SCHED64_MAX_TASKS" "t_used (tasks s ! j)" and "i \<noteq> j"
  shows "2 \<le> task_total s"
proof -
  let ?A = "{k. k < length (tasks s) \<and> t_used (tasks s ! k)}"
  have "card {i, j} \<le> card ?A" using assms by (intro card_mono) (auto simp: table_ok_def)
  then show ?thesis using assms(1,6) by (simp add: table_ok_def used_tasks_def length_filter_conv_card)
qed

lemma timer_current:
  assumes inv: "sched_inv s" and c: "current s = int c" "c < SCHED64_MAX_TASKS" and j: "j < SCHED64_MAX_TASKS" "runnable (tasks s ! j)" "j \<noteq> c"
  shows "\<exists>c'. c' < SCHED64_MAX_TASKS \<and> current (snd (sched_timer_handler fr s)) = int c' \<and> distance c' j < distance c j"
proof -
  let ?t = "clock64_tick (s\<lparr>timer_ticks := add64 (timer_ticks s) 1\<rparr>)"
  let ?e = "expire_deadlines ?t"
  have t: "tasks ?t = tasks s" "current ?t = current s" "task_total ?t = task_total s" "idling ?t = idling s" by (simp_all add: clock64_tick_def)
  note D = sched_invD [OF inv]
  have rj: "runnable (tasks ?e ! j)" using j D(3) t(1) by (simp add: expire_at expire_runnable)
  note n = next_task_nearer [OF c(2) j(1) rj j(3)]
  have "t_used (tasks s ! c)" using D(4) c by (auto simp: runnable_def)
  then have "2 \<le> task_total s" using used_two [OF D(1) c(2) _ j(1)] j(2,3) by (simp add: runnable_def)
  then have "current (snd (sched_timer_handler fr s)) = int (next_task c ?e)"
    using n(1) D(2) c t by (simp add: sched_timer_handler_def sched64_tick_def Let_def switch_to_def split_beta)
  then show ?thesis using n(2) next_task_cases(1) [OF c(2), of ?e] by blast
qed

lemma timer_stop: "stop_after (snd (sched_timer_handler fr s)) = stop_after s"
  by (simp add: sched_timer_handler_def sched64_tick_def Let_def switch_to_def split_beta clock64_tick_def)

lemma after_inv:
  assumes "sched_inv s" "stop_after s = 0" and "j < SCHED64_MAX_TASKS" "runnable (tasks s ! j)"
  shows "sched_inv (after frm n s) \<and> stop_after (after frm n s) = 0 \<and> runnable (tasks (after frm n s) ! j)"
proof (induction n)
  case (Suc n)
  then show ?case using keepsD [OF timer_keeps, of "after frm n s" j "frm n"] assms(3) timer_stop by simp
qed (use assms in simp)

lemma wake_loop_spec:
  assumes "distinct is" and "\<forall>i \<in> set is. i < length (tasks s)"
  shows "let T = take (nat lim - k) (filter (\<lambda>i. wakes addr b p (tasks s ! i)) is); (n, s') = wake_loop addr lim b p is (k, s)
     in n = k + length T \<and> s' = s\<lparr>tasks := tasks s'\<rparr> \<and> length (tasks s') = length (tasks s)
        \<and> (\<forall>i. tasks s' ! i = (if i \<in> set T then woken (tasks s ! i) else tasks s ! i))"
  using assms
proof (induction "is" arbitrary: k s)
  case (Cons i "is")
  have i: "i < length (tasks s)" "i \<notin> set is" "distinct is" using Cons.prems by auto
  consider "\<not> int k < lim" | "int k < lim" "\<not> wakes addr b p (tasks s ! i)" | "int k < lim" "wakes addr b p (tasks s ! i)" by blast
  then show ?case
  proof cases
    case 1
    then show ?thesis by simp
  next
    case 2
    then show ?thesis using Cons.IH [of s k] Cons.prems by (simp add: Let_def)
  next
    case 3
    let ?s = "tupd i woken s"
    have same: "filter (\<lambda>i. wakes addr b p (tasks ?s ! i)) is = filter (\<lambda>i. wakes addr b p (tasks s ! i)) is"
      using i by (intro filter_cong) (auto simp: tupd_at)
    obtain n s' where ns: "wake_loop addr lim b p is (k + 1, ?s) = (n, s')" by (metis surj_pair)
    let ?T = "take (nat lim - (k + 1)) (filter (\<lambda>i. wakes addr b p (tasks s ! i)) is)"
    have IH: "n = k + 1 + length ?T" "s' = ?s\<lparr>tasks := tasks s'\<rparr>" "length (tasks s') = length (tasks s)"
      "\<And>j. tasks s' ! j = (if j \<in> set ?T then woken (tasks ?s ! j) else tasks ?s ! j)"
      using Cons.IH [of ?s "k + 1"] Cons.prems i same ns by (simp_all add: Let_def)
    have T: "take (nat lim - k) (filter (\<lambda>i. wakes addr b p (tasks s ! i)) (i # is)) = i # ?T"
    proof -
      have "nat lim - k = Suc (nat lim - (k + 1))" using 3(1) by simp
      then show ?thesis using 3(2) by simp
    qed
    have "i \<notin> set ?T" using i(2) by (auto dest: in_set_takeD)
    then have "tasks s' ! j = (if j \<in> set (i # ?T) then woken (tasks s ! j) else tasks s ! j)" for j using IH(4) [of j] i(1) by (auto simp: tupd_at)
    moreover have "s' = s\<lparr>tasks := tasks s'\<rparr>" using IH(2) by (simp add: tupd_def)
    ultimately show ?thesis unfolding T using 3 ns IH(1,3) by (simp add: Let_def)
  qed
qed simp

lemma successor_returns:
  assumes ev: "\<forall>k. \<exists>j \<ge> k. ev j \<noteq> []" and s: "table_ok s" "clock_ok s"
  shows "\<exists>x. find_successor ev s = Some x
     \<and> ((\<exists>j < SCHED64_MAX_TASKS. runnable (tasks s ! j)) \<or> any_deadline s \<and> \<not> irq0_masked s \<longrightarrow> fst x \<noteq> None)"
proof (cases "first_runnable s")
  case (Some m)
  then show ?thesis by (simp add: find_successor_def switch_to_def Let_def)
next
  case None
  then have no: "\<not> (\<exists>j < SCHED64_MAX_TASKS. runnable (tasks s ! j))" by (simp add: first_runnable_None)
  show ?thesis
  proof (cases "\<not> irq0_masked s \<and> any_deadline s")
    case True
    then obtain n t where "idle_until_runnable ev s = Some (Some n, t)" using idle_returns [OF ev s] by blast
    then show ?thesis using None True by (simp add: find_successor_def switch_to_def Let_def)
  next
    case False
    then show ?thesis using None no by (auto simp: find_successor_def)
  qed
qed

lemma exit_returns:
  assumes inv: "sched_inv s" and "clock_ok s" and ev: "\<forall>k. \<exists>j \<ge> k. ev j \<noteq> []" and "0 \<le> current s"
  shows "\<exists>x. sched64_exit_current ev s = Some x
     \<and> ((\<exists>j < SCHED64_MAX_TASKS. int j \<noteq> current s \<and> runnable (tasks s ! j)) \<or> any_deadline s \<and> \<not> irq0_masked s \<longrightarrow> fst x \<noteq> None)"
proof -
  note D = sched_invD [OF inv]
  define c where "c = nat (current s)"
  have c: "c < SCHED64_MAX_TASKS" "current s = int c" "runnable (tasks s ! c)" using D(4) assms(4) by (auto simp: c_def)
  let ?s = "drop_task c s"
  have u: "t_used (tasks s ! c)" using c(3) by (simp add: runnable_def)
  note d = drop_task_spec [OF D(1) c(1) u]
  have len: "length (tasks ?s) = SCHED64_MAX_TASKS" using d(1) by (simp add: table_ok_def)
  have "clock_ok ?s"
    using assms(2) d(2) len D(3) unfolding clock_ok_def all_set_conv_all_nth by (auto simp: drop_task_def Let_def)
  then obtain x where x: "find_successor ev ?s = Some x"
    "(\<exists>j < SCHED64_MAX_TASKS. runnable (tasks ?s ! j)) \<or> any_deadline ?s \<and> \<not> irq0_masked ?s \<longrightarrow> fst x \<noteq> None"
    using successor_returns [OF ev d(1)] by blast
  have "any_deadline ?s" if "any_deadline s"
  proof -
    obtain i where i: "i < SCHED64_MAX_TASKS" "t_used (tasks s ! i)" "t_blocked (tasks s ! i)" "t_deadline (tasks s ! i) \<noteq> 0"
      using \<open>any_deadline s\<close> unfolding any_deadline_iff by blast
    then have "i \<noteq> c" using c(3) by (auto simp: runnable_def)
    then have "tasks ?s ! i = tasks s ! i" using d(2) [of i] i(1) by simp
    then show ?thesis unfolding any_deadline_iff using i by (intro exI [of _ i]) simp
  qed
  moreover have "irq0_masked ?s = irq0_masked s" by (simp add: drop_task_def Let_def)
  moreover have "runnable (tasks ?s ! j)" if "int j \<noteq> current s" "runnable (tasks s ! j)" for j using that d(2) [of j] c(2) by simp
  ultimately have "(\<exists>j < SCHED64_MAX_TASKS. int j \<noteq> current s \<and> runnable (tasks s ! j)) \<or> any_deadline s \<and> \<not> irq0_masked s \<longrightarrow> fst x \<noteq> None"
    using x(2) by blast
  moreover have "sched64_exit_current ev s = Some x" using x(1) no_current_inv [OF inv] assms(4) by (simp add: sched64_exit_current_def c_def)
  ultimately show ?thesis by blast
qed

lemma block_returns:
  assumes inv: "sched_inv s" and "clock_ok s" and "d < 2 ^ 64" and ev: "\<forall>k. \<exists>j \<ge> k. ev j \<noteq> []" and "0 \<le> current s"
  shows "\<exists>x. sched64_block_until_ex ev fr addr w tm d bits s = Some x
     \<and> ((\<exists>j < SCHED64_MAX_TASKS. int j \<noteq> current s \<and> runnable (tasks s ! j)) \<or> 0 < d \<and> \<not> irq0_masked s \<longrightarrow> fst x \<noteq> None)"
proof -
  note D = sched_invD [OF inv]
  define c where "c = nat (current s)"
  have c: "c < SCHED64_MAX_TASKS" "current s = int c" "runnable (tasks s ! c)" using D(4) assms(5) by (auto simp: c_def)
  have nc: "\<not> no_current s" using no_current_inv [OF inv] assms(5) by simp
  define t where "t = parked fr addr w tm d bits s"
  note P = parked_spec [OF inv c(2,1) t_def]
  note e = block_unfold [OF nc, of ev fr addr w tm d bits, unfolded Let_def, folded t_def c_def]
  have clk: "clock_ok t"
    using assms(2,3) P D(3) unfolding clock_ok_def all_set_conv_all_nth by auto
  have leave: "fst (leave_for n v) \<noteq> None" for n v using leave_Some [of n v] by auto
  show ?thesis
  proof (cases "next_task c t = c \<or> t_blocked (tasks t ! next_task c t)")
    case True
    have none: "\<not> (\<exists>j < SCHED64_MAX_TASKS. int j \<noteq> current s \<and> runnable (tasks s ! j))"
    proof
      assume "\<exists>j < SCHED64_MAX_TASKS. int j \<noteq> current s \<and> runnable (tasks s ! j)"
      then obtain j where j: "j < SCHED64_MAX_TASKS" "j \<noteq> c" "runnable (tasks t ! j)" using P(1) c(2) by auto
      have "next_task c t \<noteq> c" using next_task_nearer(1) [OF c(1) j(1,3,2)] .
      then show False using True next_task_cases(2) [OF c(1), of t] by (auto simp: runnable_def)
    qed
    have dl: "any_deadline t" if "0 < d" unfolding any_deadline_iff using c(1,3) P(1) [of c] that by (intro exI [of _ c]) (simp add: runnable_def)
    show ?thesis
    proof (cases "irq0_masked t \<or> \<not> any_deadline t")
      case stuck: True
      then show ?thesis using True none dl P(6) unfolding e by auto
    next
      case False
      then obtain n v where "idle_until_runnable ev t = Some (Some n, v)" using idle_returns [OF ev P(2) clk] by blast
      then show ?thesis using True False leave unfolding e by simp
    qed
  next
    case False
    then show ?thesis using leave unfolding e by simp
  qed
qed

section \<open>Properties\<close>


text \<open>C21: Round robin is fair: a task that can run is given the processor after fewer timer interrupts than the table has slots, whatever
  the interrupted frames are.\<close>

theorem sched64_round_robin_fair:
  assumes "sched_inv s" and "stop_after s = 0" and "0 \<le> current s" and "j < SCHED64_MAX_TASKS" and "runnable (tasks s ! j)"
  shows "\<exists>n < SCHED64_MAX_TASKS. current (after frm n s) = int j"
proof -
  have "\<exists>c. c < SCHED64_MAX_TASKS \<and> current (after frm n s) = int c \<and> n + distance c j < SCHED64_MAX_TASKS"
    if "\<forall>k < n. current (after frm k s) \<noteq> int j" for n
    using that
  proof (induction n)
    case 0
    have "nat (current s) < SCHED64_MAX_TASKS" "int (nat (current s)) = current s" using sched_invD(4) [OF assms(1)] assms(3) by auto
    then show ?case by (intro exI [of _ "nat (current s)"]) (simp add: distance_def SCHED64_MAX_TASKS_def)
  next
    case (Suc n)
    then obtain c where c: "c < SCHED64_MAX_TASKS" "current (after frm n s) = int c" "n + distance c j < SCHED64_MAX_TASKS" by auto
    note a = after_inv [OF assms(1,2,4,5), of frm n]
    have "j \<noteq> c" using Suc.prems c(2) by auto
    then obtain c' where "c' < SCHED64_MAX_TASKS" "current (after frm (Suc n) s) = int c'" "distance c' j < distance c j"
      using timer_current [of "after frm n s" c j "frm n"] a c assms(4) by auto
    then show ?case using c(3) by (intro exI [of _ c']) simp
  qed
  from this [of SCHED64_MAX_TASKS] show ?thesis by auto
qed



section \<open>Witnesses\<close>

definition task_demo :: task64 where
  "task_demo = \<lparr>t_regs = zero_regs\<lparr>rax := 42\<rparr>, t_space = 0x5000, t_fs_base = 7, t_gs_base = 0, t_wait_addr = 0, t_wake_rax = 0, t_timeout_rax = 0,
     t_wait_bits = 0, t_deadline = 0, t_signal_restart = 0, t_pid = 1, t_blocked = False, t_used = True, t_fpu = []\<rparr>"

text \<open>Task 0 runs, task 1 can run and task 2 waits for \<open>0x8000\<close>.\<close>

definition sched_demo :: sched where
  "sched_demo = \<lparr>tasks = [task_demo\<lparr>t_regs := zero_regs\<rparr>, task_demo, task_demo\<lparr>t_blocked := True, t_wait_addr := 0x8000, t_wait_bits := 1\<rparr>]
       @ replicate (SCHED64_MAX_TASKS - 3) (task_demo\<lparr>t_used := False\<rparr>),
     task_total = 3, current = 0, switch_count = 0, stop_after = 0, stop_rip = 0, said_full = False, idling = False, next_signal_restart = 0,
     fpu_initial = [], ticks = 5, timer_ticks = 5, boot_epoch = 0, irq0_masked = False, fs_msr = 0, gs_msr = 0, fpu_regs = [],
     ptable = \<lparr>procs = [], current_pid = 1, next_pid = 2, full_said = False, reaped_signal = 0\<rparr>, smach = machine_demo\<rparr>"

lemma sched_demo_ok:
  "sched_inv sched_demo" "clock_ok sched_demo" "stop_after sched_demo = 0" "current sched_demo = 0" "runnable (tasks sched_demo ! 1)"
  "length (tasks sched_demo) = SCHED64_MAX_TASKS" "t_regs (tasks sched_demo ! 1) = zero_regs\<lparr>rax := 42\<rparr>" "t_fs_base (tasks sched_demo ! 1) = 7"
  by (simp_all add: sched_demo_def task_demo_def sched_inv_def table_ok_def used_tasks_def runnable_def clock_ok_def SCHED64_MAX_TASKS_def)

lemma sched_demo_switches: "current (snd (sched_timer_handler zero_regs sched_demo)) = 1"
proof -
  obtain c where c: "c < SCHED64_MAX_TASKS" "current (snd (sched_timer_handler zero_regs sched_demo)) = int c" "distance c 1 < distance 0 1"
    using timer_current [of sched_demo 0 1 zero_regs] sched_demo_ok by (auto simp: SCHED64_MAX_TASKS_def)
  then show ?thesis by (simp add: distance_def SCHED64_MAX_TASKS_def mod_if split: if_splits)
qed


theorem sched64_round_robin_fair_witness: "\<exists>n < SCHED64_MAX_TASKS. current (after (\<lambda>_. zero_regs) n sched_demo) = int 1"
proof -
  have "1 < SCHED64_MAX_TASKS" by (simp add: SCHED64_MAX_TASKS_def)
  then show ?thesis using sched64_round_robin_fair [OF sched_demo_ok(1,3) _ _ sched_demo_ok(5), of "\<lambda>_. zero_regs"] sched_demo_ok(4) by simp
qed



end
