(* ===== verification/Signal64_Masks.thy ===== *)
theory Signal64_Masks
  imports Signal64 Sched64_Tasks Uspace64_Resv
begin

text \<open>
  Correctness of the masks and pending sets of \<^verbatim>\<open>kernel/signal64.c\<close>.

  A pending set, of a process or of a task, is the contract of the locale \<open>pending_signals\<close>: a raise adds a signal and a take removes the lowest
  that is not blocked; what is taken then comes in ascending order, each signal once. The invariant \<open>sig_ok\<close> - no mask ever blocks
  \<open>SIGKILL\<close> or \<open>SIGSTOP\<close> - is kept by every operation, delivery to a handler and return from one included.
\<close>

unbundle bit_operations_syntax

section \<open>Sets of signals\<close>

lemma sigbit_exp: "sigbit sig = 2 ^ nat sig"
  by (simp add: sigbit_def push_bit_eq_mult)

lemma and_sigbit: "w AND sigbit sig \<noteq> 0 \<longleftrightarrow> bit w (nat sig)"
  by (simp add: sigbit_exp and_exp_eq_0_iff_not_bit)

lemma bit_sigbit: "bit (sigbit sig) n \<longleftrightarrow> n = nat sig \<and> n < 64"
  by (auto simp: sigbit_exp bit_simps)

text \<open>The signals of a set in ascending order.\<close>

definition due :: "u64 \<Rightarrow> nat list" where
  "due w = filter (bit w) [1..<NSIG]"

lemma find_filter: "find P xs = (case filter P xs of [] \<Rightarrow> None | x # _ \<Rightarrow> Some x)"
  by (induction xs) simp_all

lemma lowest_due: "lowest w = (case due w of [] \<Rightarrow> None | x # _ \<Rightarrow> Some (int x))"
  by (simp add: lowest_def and_sigbit find_filter due_def split: list.splits)

lemma due_remove:
  assumes "due w = x # xs"
  shows "due (w AND NOT (sigbit (int x))) = xs"
proof -
  have d: "distinct (due w)" by (simp add: due_def)
  have "due (w AND NOT (sigbit (int x))) = filter (\<lambda>i. i \<noteq> x) (due w)"
    by (auto simp: due_def bit_simps bit_sigbit NSIG_def intro!: filter_cong)
  then show ?thesis using assms d by (auto intro: filter_True)
qed

lemma due_member: "due w = x # xs \<Longrightarrow> 1 \<le> x \<and> x < 64 \<and> bit w x"
proof -
  assume "due w = x # xs"
  then have "x \<in> set (due w)" by simp
  then show ?thesis by (simp add: due_def NSIG_def)
qed

text \<open>What a set of pending signals promises: raising adds a signal, and taking removes the lowest that is not blocked. The set of a
  process and that of a task are both such sets.\<close>

fun takes :: "('s \<Rightarrow> int \<times> 's) \<Rightarrow> nat \<Rightarrow> 's \<Rightarrow> int list" where
  "takes f 0 s = []"
| "takes f (Suc n) s = (let (x, s) = f s in x # takes f n s)"

locale pending_signals =
  fixes valid :: "'s \<Rightarrow> bool" and members :: "'s \<Rightarrow> u64" and blocked :: "'s \<Rightarrow> u64" and raise_one :: "int \<Rightarrow> 's \<Rightarrow> int \<times> 's"
    and take_one :: "'s \<Rightarrow> int \<times> 's"
  assumes raise_one: "valid s \<Longrightarrow> raise_one sig s = (0, s') \<Longrightarrow>
        \<not> bad_sig sig \<and> valid s' \<and> members s' = (members s OR sigbit sig) \<and> blocked s' = blocked s"
    and take_none: "valid s \<Longrightarrow> lowest (members s AND NOT (blocked s)) = None \<Longrightarrow> take_one s = (0, s)"
    and take_some: "valid s \<Longrightarrow> lowest (members s AND NOT (blocked s)) = Some sig \<Longrightarrow>
        \<exists>s'. take_one s = (sig, s') \<and> valid s' \<and> members s' = (members s AND NOT (sigbit sig)) \<and> blocked s' = blocked s"
begin

lemma takes_due: "valid s \<Longrightarrow> takes take_one n s = take n (map int (due (members s AND NOT (blocked s))) @ replicate n 0)"
proof (induction n arbitrary: s)
  case (Suc n)
  let ?w = "members s AND NOT (blocked s)"
  show ?case
  proof (cases "due ?w")
    case Nil
    then show ?thesis using take_none [OF Suc.prems] Suc.IH [OF Suc.prems] by (simp add: lowest_due)
  next
    case (Cons x xs)
    then obtain s' where s': "take_one s = (int x, s')" "valid s'" "members s' = (members s AND NOT (sigbit (int x)))" "blocked s' = blocked s"
      using take_some [OF Suc.prems, of "int x"] by (auto simp: lowest_due)
    have "members s' AND NOT (blocked s') = ?w AND NOT (sigbit (int x))" using s'(3,4) by (simp add: and.commute and.left_commute)
    then have "due (members s' AND NOT (blocked s')) = xs" using due_remove [OF Cons] by simp
    moreover have "take n (ys @ replicate n 0) = take n (ys @ [0] @ replicate n 0)" for ys :: "int list"
      by (simp add: replicate_append_same [symmetric] take_Cons')
    ultimately show ?thesis using s' Suc.IH [OF s'(2)] Cons by (simp add: replicate_append_same [symmetric])
  qed
qed simp

lemma raised_is_taken:
  assumes "valid s" and "raise_one sig s = (0, s')" and "\<not> bit (blocked s) (nat sig)"
  shows "sig \<in> set (takes take_one (nat sig) s')"
proof -
  have r: "\<not> bad_sig sig" "valid s'" "members s' = (members s OR sigbit sig)" "blocked s' = blocked s" using raise_one [OF assms(1,2)] by auto
  let ?w = "members s' AND NOT (blocked s')"
  have n: "1 \<le> nat sig" "nat sig < 64" "int (nat sig) = sig" using r(1) by (auto simp: bad_sig_def NSIG_def)
  have b: "bit ?w (nat sig)" using r(3,4) assms(3) n by (simp add: bit_simps bit_sigbit)
  define l r where "l = filter (bit ?w) [1..<Suc (nat sig)]" and "r = filter (bit ?w) [Suc (nat sig)..<64]"
  have "due ?w = l @ r"
    using n upt_add_eq_append [of 1 "Suc (nat sig)" "64 - Suc (nat sig)"]
    by (simp add: due_def NSIG_def l_def r_def del: upt_Suc flip: filter_append)
  moreover have "nat sig \<in> set l" using n b by (simp add: l_def)
  moreover have "length l \<le> nat sig"
    using length_filter_le [of "bit ?w" "[1..<Suc (nat sig)]"] by (simp add: l_def del: upt_Suc)
  ultimately have "nat sig \<in> set (take (nat sig) (due ?w))" by simp
  then have "int (nat sig) \<in> set (take (nat sig) (map int (due ?w)))" by (metis imageI take_map list.set_map)
  then show ?thesis using takes_due [OF r(2), of "nat sig"] n(3) by (auto simp: take_append)
qed

end

section \<open>The invariant\<close>

text \<open>The tables have their sizes and no mask, current or saved, has a bit for \<open>SIGKILL\<close>, \<open>SIGSTOP\<close> or the signal 0.\<close>

definition mask_ok :: "u64 \<Rightarrow> bool" where
  "mask_ok b \<longleftrightarrow> \<not> bit b 0 \<and> \<not> bit b 9 \<and> \<not> bit b 19"

definition sig_ok :: "sigstate \<Rightarrow> bool" where
  "sig_ok s \<longleftrightarrow> length (pending_by_slot s) = PROC64_MAX \<and> length (pending_by_task s) = SCHED64_MAX_TASKS
     \<and> length (blocked_by_task s) = SCHED64_MAX_TASKS \<and> length (saved_by_task s) = SCHED64_MAX_TASKS
     \<and> length (handlers_by_slot s) = PROC64_MAX \<and> list_all (\<lambda>h. length h = NSIG) (handlers_by_slot s)
     \<and> list_all mask_ok (blocked_by_task s) \<and> list_all mask_ok (saved_by_task s)"

lemma bit_UNBLOCKABLE: "bit UNBLOCKABLE n \<longleftrightarrow> n = 9 \<or> n = 19"
  by (auto simp: UNBLOCKABLE_def bit_or_iff bit_sigbit SIG64_KILLSIG_def SIG64_STOP_def)

lemma bit_user_set: "bit (from_user_set u) n \<longleftrightarrow> 1 \<le> n \<and> n < 64 \<and> bit u (n - 1) \<and> n \<noteq> 9 \<and> n \<noteq> 19"
  unfolding from_user_set_def bit_and_iff bit_push_bit_iff bit_not_iff bit_UNBLOCKABLE by auto

lemma mask_ok_0 [simp]: "mask_ok 0"
  by (simp add: mask_ok_def)

lemma mask_ok_user [simp]: "mask_ok (from_user_set u)"
  by (simp add: mask_ok_def bit_user_set)

lemma mask_ok_or: "mask_ok a \<Longrightarrow> mask_ok b \<Longrightarrow> mask_ok (a OR b)"
  by (simp add: mask_ok_def bit_simps)

lemma mask_ok_and: "mask_ok a \<Longrightarrow> mask_ok (a AND b)"
  by (simp add: mask_ok_def bit_simps)

lemma mask_ok_handler: "mask_ok b \<Longrightarrow> \<not> bad_sig sig \<Longrightarrow> mask_ok (handler_mask sa sig b)"
  by (auto simp: handler_mask_def Let_def mask_ok_def bit_simps bit_UNBLOCKABLE bit_sigbit bit_user_set bad_sig_def)

lemma sig_okD:
  assumes "sig_ok s"
  shows "length (pending_by_slot s) = PROC64_MAX" "length (pending_by_task s) = SCHED64_MAX_TASKS"
    "length (blocked_by_task s) = SCHED64_MAX_TASKS" "length (saved_by_task s) = SCHED64_MAX_TASKS"
    "i < SCHED64_MAX_TASKS \<Longrightarrow> mask_ok (blocked_by_task s ! i)" "i < SCHED64_MAX_TASKS \<Longrightarrow> mask_ok (saved_by_task s ! i)"
    "length (handlers_by_slot s) = PROC64_MAX" "k < PROC64_MAX \<Longrightarrow> length (handlers_by_slot s ! k) = NSIG"
  using assms by (simp_all add: sig_ok_def list_all_length)

lemma good_task: "\<not> bad_task t \<Longrightarrow> nat t < SCHED64_MAX_TASKS"
  by (auto simp: bad_task_def)

lemma good_slot: "\<not> bad_slot k \<Longrightarrow> nat k < PROC64_MAX"
  by (auto simp: bad_slot_def)

lemma handlers_of_less [simp]: "handlers_of k < PROC64_MAX"
  by (auto simp: handlers_of_def bad_slot_def PROC64_MAX_def)

lemma mask_ok_mine: "sig_ok s \<Longrightarrow> mask_ok (my_blocked s)"
  using sig_okD(5) good_task by (simp add: my_blocked_def Let_def)

lemma list_all_update [simp]: "list_all P xs \<Longrightarrow> P v \<Longrightarrow> list_all P (xs[i := v])"
  by (auto simp: list_all_iff dest: set_update_subset_insert [THEN subsetD])

text \<open>An edit of the masks, and of the handlers.\<close>

lemma sig_ok_masks:
  assumes "sig_ok s" and "mask_ok v"
  shows "sig_ok (s\<lparr>blocked_by_task := (blocked_by_task s)[i := v]\<rparr>)" and "sig_ok (s\<lparr>saved_by_task := (saved_by_task s)[i := v]\<rparr>)"
  using assms by (simp_all add: sig_ok_def)

lemma sig_ok_handlers:
  assumes "sig_ok s" and "length h = NSIG"
  shows "sig_ok (s\<lparr>handlers_by_slot := (handlers_by_slot s)[k := h]\<rparr>)"
  using assms by (simp add: sig_ok_def)

text \<open>Edits of what the invariant does not speak of.\<close>

lemma sig_ok_other [simp]:
  "sig_ok (s\<lparr>has_saved_by_task := c\<rparr>) = sig_ok s" "sig_ok (s\<lparr>sender_by_slot := d\<rparr>) = sig_ok s" "sig_ok (s\<lparr>sender_by_task := d\<rparr>) = sig_ok s"
  "sig_ok (s\<lparr>raised := n\<rparr>) = sig_ok s" "sig_ok (s\<lparr>delivered := n\<rparr>) = sig_ok s" "sig_ok (s\<lparr>returns := n\<rparr>) = sig_ok s"
  "sig_ok (s\<lparr>sas_sp_by_task := e\<rparr>) = sig_ok s" "sig_ok (s\<lparr>sas_size_by_task := e\<rparr>) = sig_ok s" "sig_ok (s\<lparr>signal_trace := f\<rparr>) = sig_ok s"
  "sig_ok (s\<lparr>sch := g\<rparr>) = sig_ok s" "sig_ok (s\<lparr>us := h\<rparr>) = sig_ok s"
  by (simp_all add: sig_ok_def)

lemma sig_ok_pending:
  assumes "sig_ok s"
  shows "sig_ok (s\<lparr>pending_by_slot := (pending_by_slot s)[k := v]\<rparr>)" "sig_ok (s\<lparr>pending_by_task := (pending_by_task s)[k := v]\<rparr>)"
  using assms by (simp_all add: sig_ok_def)

section \<open>Every operation\<close>

text \<open>What happens to the signals of the system: every function of the file, called by whichever task is current, and between the calls
  anything at all in the scheduler, the process table and the memory.\<close>

inductive sig_step :: "sigstate \<Rightarrow> sigstate \<Rightarrow> bool" where
  elsewhere: "sig_step s (s\<lparr>sch := c, us := u\<rparr>)"
| push_mask: "sig_step s (signal64_push_mask w s)"
| pop_mask: "sig_step s (snd (signal64_pop_mask s))"
| sigprocmask: "sig_step s (snd (snd (signal64_sigprocmask how w n s)))"
| task_start: "sig_step s (signal64_task_start tid from s)"
| raises: "sig_step s (snd (signal64_raise p sig s))"
| takes: "sig_step s (snd (signal64_take_pending p s))"
| raises_task: "sig_step s (snd (signal64_raise_task tid sig s))"
| takes_task: "sig_step s (snd (signal64_take_pending_task tid s))"
| takes_in_set: "sig_step s (snd (signal64_take_in_set w s))"
| clears_task: "sig_step s (signal64_clear_task tid s)"
| resets: "sig_step s (signal64_reset s)"
| forks: "sig_step s (signal64_fork p c s)"
| execs: "sig_step s (signal64_exec s)"
| sigaction: "sig_step s (snd (snd (signal64_sigaction sig act s)))"
| trace: "sig_step s (signal64_set_trace on s)"
| inherits: "sig_step s (signal64_task_inherit_altstack tid from s)"
| sigaltstack: "sig_step s (snd (snd (signal64_sigaltstack st sp s)))"
| delivers: "signal64_deliver sig r a s = Some (ok, r', s') \<Longrightarrow> sig_step s s'"
| returns_from: "signal64_sigreturn sp s = Some (out, s') \<Longrightarrow> sig_step s s'"

lemma sig_ok_set_mine: "sig_ok s \<Longrightarrow> mask_ok v \<Longrightarrow> sig_ok (set_my_blocked v s)"
  using sig_ok_masks(1) [of s v] by (simp add: set_my_blocked_def Let_def)

lemma sig_ok_set_action: "sig_ok s \<Longrightarrow> k < PROC64_MAX \<Longrightarrow> sig_ok (set_action k sig a s)"
  unfolding set_action_def by (rule sig_ok_handlers) (simp_all add: sig_okD)

lemma mask_ok_union: "mask_ok a \<Longrightarrow> mask_ok (a OR from_user_set u)"
  by (simp add: mask_ok_or)

lemma take_saved_spec:
  assumes "take_saved s = (bk, s')"
  shows "s' = s\<lparr>has_saved_by_task := has_saved_by_task s'\<rparr>" and "sig_ok s \<Longrightarrow> mask_ok bk"
  using assms sig_okD(6) mask_ok_mine good_task by (auto simp: take_saved_def Let_def split: if_splits)

lemma my_blocked_cong [simp]:
  "my_blocked (s\<lparr>has_saved_by_task := c\<rparr>) = my_blocked s" "my_blocked (s\<lparr>us := u\<rparr>) = my_blocked s"
  "my_blocked (s\<lparr>pending_by_slot := e\<rparr>) = my_blocked s" "my_blocked (s\<lparr>sender_by_slot := d\<rparr>) = my_blocked s" "my_blocked (s\<lparr>raised := n\<rparr>) = my_blocked s"
  by (simp_all add: my_blocked_def Let_def)

lemma deliver_ok:
  assumes inv: "sig_ok s" and d: "signal64_deliver sig r a s = Some (ok, r', s')"
  shows "sig_ok s'"
proof (cases "bad_sig sig")
  case False
  have "sig_ok s1" "mask_ok (my_blocked s1)" if "take_saved (s\<lparr>us := u\<rparr>) = (bk, s1)" for u bk s1
    using take_saved_spec(1) [OF that] inv mask_ok_mine [OF inv] by (metis my_blocked_cong(1,2) sig_ok_other(1,11))+
  note this [simp]
  have "sig_ok (set_action (my_handlers t) sig SIG_DFL t)" if "sig_ok t" for t
    using that by (intro sig_ok_set_action) (simp_all add: my_handlers_def)
  note this [simp]
  show ?thesis
    using d inv False by (auto simp: signal64_deliver_def push_frame_def Let_def sig_ok_set_mine mask_ok_handler split: if_splits prod.splits bind_splits)
qed (use inv d in \<open>simp add: signal64_deliver_def\<close>)

lemma return_ok:
  assumes "sig_ok s" and "signal64_sigreturn sp s = Some (out, s')"
  shows "sig_ok s'"
  using assms
  by (auto simp: signal64_sigreturn_def restore_fpu_def Let_def sig_ok_set_mine split: if_splits prod.splits bind_splits)

lemma sig_step_ok: "sig_step s s' \<Longrightarrow> sig_ok s \<Longrightarrow> sig_ok s'"
proof (induction rule: sig_step.induct)
  case (push_mask s w)
  have b: "mask_ok (blocked_by_task s ! i)" if "i < SCHED64_MAX_TASKS" for i using that sig_okD(5) [OF push_mask] by simp
  have "sig_ok (s\<lparr>saved_by_task := (saved_by_task s)[i := x], has_saved_by_task := h, blocked_by_task := (blocked_by_task s)[i := v]\<rparr>)"
    if "mask_ok x" "mask_ok v" for x v i h
    using sig_ok_masks(1) [OF sig_ok_masks(2) [OF push_mask that(1), of i] that(2), of i] by (simp add: sig_ok_def)
  moreover have "sig_ok (s\<lparr>blocked_by_task := (blocked_by_task s)[i := from_user_set w]\<rparr>)" for i
    using sig_ok_masks(1) [OF push_mask mask_ok_user] .
  ultimately show ?case using push_mask b good_task by (simp add: signal64_push_mask_def Let_def)
next
  case (pop_mask s)
  have "mask_ok (saved_by_task s ! i)" if "i < SCHED64_MAX_TASKS" for i using that sig_okD(6) [OF pop_mask] by simp
  then show ?case using pop_mask sig_ok_masks(1) [OF pop_mask] good_task by (simp add: signal64_pop_mask_def Let_def)
next
  case (sigprocmask s how w n)
  then show ?case
    using mask_ok_mine by (auto simp: signal64_sigprocmask_def Let_def sig_ok_set_mine mask_ok_or mask_ok_and split: option.splits)
next
  case (task_start s tid "from")
  have "sig_ok (s\<lparr>pending_by_task := (pending_by_task s)[i := 0], blocked_by_task := (blocked_by_task s)[i := v]\<rparr>)" if "mask_ok v" for i v
    using sig_ok_masks(1) [OF sig_ok_pending(2) [OF task_start] that] by simp
  then show ?case using task_start sig_okD(5) [OF task_start] good_task by (simp add: signal64_task_start_def Let_def)
next
  case (raises s p sig)
  then show ?case by (simp add: signal64_raise_def Let_def sig_ok_def)
next
  case (takes s p)
  then show ?case by (simp add: signal64_take_pending_def Let_def sig_ok_def split: option.splits)
next
  case (raises_task s tid sig)
  then show ?case by (simp add: signal64_raise_task_def Let_def sig_ok_def)
next
  case (takes_task s tid)
  then show ?case by (simp add: signal64_take_pending_task_def Let_def sig_ok_def split: option.splits)
next
  case (takes_in_set s w)
  then show ?case by (simp add: signal64_take_in_set_def Let_def sig_ok_def split: option.splits)
next
  case (clears_task s tid)
  then show ?case by (simp add: signal64_clear_task_def sig_ok_def)
next
  case (resets s)
  have "sig_ok (s\<lparr>handlers_by_slot := (handlers_by_slot s)[my_handlers s := map (\<lambda>_. SIG_DFL) (handlers_by_slot s ! my_handlers s)]\<rparr>)"
    using resets by (intro sig_ok_handlers) (simp_all add: sig_okD my_handlers_def)
  then show ?case by (auto simp: signal64_reset_def Let_def sig_ok_def list.pred_map comp_def list.pred_True)
next
  case (forks s p c)
  then show ?case using sig_ok_handlers [OF forks] sig_ok_handlers [OF sig_ok_pending(1) [OF forks]] sig_ok_pending(1) [OF forks] sig_okD(8) [OF forks]
    by (simp add: signal64_fork_def Let_def)
next
  case (execs s)
  have "sig_ok (s\<lparr>handlers_by_slot := (handlers_by_slot s)[my_handlers s := map f (handlers_by_slot s ! my_handlers s)]\<rparr>)" for f
    using execs by (intro sig_ok_handlers) (simp_all add: sig_okD my_handlers_def)
  then show ?case by (simp add: signal64_exec_def Let_def sig_ok_def)
next
  case (sigaction s sig act)
  then show ?case by (auto simp: signal64_sigaction_def Let_def my_handlers_def sig_ok_set_action split: option.splits)
next
  case (inherits s tid "from")
  then show ?case by (simp add: signal64_task_inherit_altstack_def)
next
  case (sigaltstack s st sp)
  then show ?case by (simp add: signal64_sigaltstack_def Let_def split: option.splits)
next
  case (delivers sig r a s ok r' s')
  then show ?case using deliver_ok by blast
next
  case (returns_from sp s out s')
  then show ?case using return_ok by blast
qed (simp_all add: signal64_set_trace_def)

section \<open>The two pending sets\<close>

definition slot_of :: "int \<Rightarrow> sigstate \<Rightarrow> int" where
  "slot_of p s = proc64_slot_of p (table (us s))"

interpretation of_process: pending_signals "\<lambda>s. sig_ok s \<and> \<not> bad_slot (slot_of p s)" "\<lambda>s. pending_by_slot s ! nat (slot_of p s)" my_blocked
    "signal64_raise p" "signal64_take_pending p"
proof unfold_locales
  fix s s' :: sigstate and sig :: int
  assume v: "sig_ok s \<and> \<not> bad_slot (slot_of p s)"
  have k: "nat (slot_of p s) < length (pending_by_slot s)" using v sig_okD(1) good_slot by simp
  show "\<not> bad_sig sig \<and> (sig_ok s' \<and> \<not> bad_slot (slot_of p s')) \<and> pending_by_slot s' ! nat (slot_of p s') = (pending_by_slot s ! nat (slot_of p s) OR sigbit sig)
      \<and> my_blocked s' = my_blocked s" if r: "signal64_raise p sig s = (0, s')"
  proof -
    have "sig_ok s'" using sig_step_ok [OF sig_step.raises [of s p sig]] v r by simp
    then show ?thesis using r v k by (auto simp: signal64_raise_def Let_def slot_of_def split: if_splits)
  qed
  let ?w = "pending_by_slot s ! nat (slot_of p s) AND NOT (my_blocked s)"
  show "signal64_take_pending p s = (0, s)" if "lowest ?w = None"
    using that v by (simp add: signal64_take_pending_def Let_def slot_of_def)
  show "\<exists>s'. signal64_take_pending p s = (sig, s') \<and> (sig_ok s' \<and> \<not> bad_slot (slot_of p s'))
      \<and> pending_by_slot s' ! nat (slot_of p s') = (pending_by_slot s ! nat (slot_of p s) AND NOT (sigbit sig)) \<and> my_blocked s' = my_blocked s"
    if l: "lowest ?w = Some sig"
  proof -
    have "?w \<noteq> 0" using l by (auto simp: lowest_due due_def split: list.splits)
    then have t: "signal64_take_pending p s
        = (sig, s\<lparr>pending_by_slot := (pending_by_slot s)[nat (slot_of p s) := pending_by_slot s ! nat (slot_of p s) AND NOT (sigbit sig)]\<rparr>)"
      using l v by (simp add: signal64_take_pending_def Let_def slot_of_def)
    then show ?thesis using v k sig_ok_pending(1) [of s] by (auto simp: slot_of_def)
  qed
qed

interpretation of_task: pending_signals "\<lambda>s. sig_ok s \<and> \<not> bad_task tid" "\<lambda>s. pending_by_task s ! nat tid" "\<lambda>s. blocked_by_task s ! nat tid"
    "signal64_raise_task tid" "signal64_take_pending_task tid"
proof unfold_locales
  fix s s' :: sigstate and sig :: int
  assume v: "sig_ok s \<and> \<not> bad_task tid"
  have k: "nat tid < length (pending_by_task s)" using v sig_okD(2) good_task by simp
  show "\<not> bad_sig sig \<and> (sig_ok s' \<and> \<not> bad_task tid) \<and> pending_by_task s' ! nat tid = (pending_by_task s ! nat tid OR sigbit sig)
      \<and> blocked_by_task s' ! nat tid = blocked_by_task s ! nat tid" if r: "signal64_raise_task tid sig s = (0, s')"
  proof -
    have "sig_ok s'" using sig_step_ok [OF sig_step.raises_task [of s tid sig]] v r by simp
    then show ?thesis using r v k by (auto simp: signal64_raise_task_def Let_def split: if_splits)
  qed
  let ?w = "pending_by_task s ! nat tid AND NOT (blocked_by_task s ! nat tid)"
  show "signal64_take_pending_task tid s = (0, s)" if "lowest ?w = None"
    using that v by (simp add: signal64_take_pending_task_def Let_def)
  show "\<exists>s'. signal64_take_pending_task tid s = (sig, s') \<and> (sig_ok s' \<and> \<not> bad_task tid)
      \<and> pending_by_task s' ! nat tid = (pending_by_task s ! nat tid AND NOT (sigbit sig)) \<and> blocked_by_task s' ! nat tid = blocked_by_task s ! nat tid"
    if l: "lowest ?w = Some sig"
  proof -
    have "?w \<noteq> 0" using l by (auto simp: lowest_due due_def split: list.splits)
    then have "signal64_take_pending_task tid s
        = (sig, s\<lparr>pending_by_task := (pending_by_task s)[nat tid := pending_by_task s ! nat tid AND NOT (sigbit sig)]\<rparr>)"
      using l v by (simp add: signal64_take_pending_task_def Let_def)
    then show ?thesis using v k sig_ok_pending(2) [of s] by auto
  qed
qed

section \<open>Properties\<close>

text \<open>C27: Pending signals are taken each once and lowest first: \<open>n\<close> calls in a row give the pending signals that are not blocked in ascending
  order and then zeros, for the signals of a process and for those of a task.\<close>

theorem signal64_taken_in_order:
  assumes "sig_ok s"
  shows "(0 \<le> proc64_slot_of p (table (us s)) \<longrightarrow>
       takes (signal64_take_pending p) n s
         = take n (map int (filter (bit (pending_by_slot s ! nat (proc64_slot_of p (table (us s))) AND NOT (my_blocked s))) [1..<64]) @ replicate n 0))
    \<and> (0 \<le> tid \<and> tid < int SCHED64_MAX_TASKS \<longrightarrow>
       takes (signal64_take_pending_task tid) n s
         = take n (map int (filter (bit (pending_by_task s ! nat tid AND NOT (blocked_by_task s ! nat tid))) [1..<64]) @ replicate n 0))"
proof -
  have "proc64_slot_of p (table (us s)) < int PROC64_MAX"
    by (auto simp: proc64_slot_of_def PROC64_MAX_def find_Some_iff split: option.splits)
  then show ?thesis using assms of_process.takes_due [of s p n] of_task.takes_due [of s tid n]
    by (auto simp: slot_of_def bad_slot_def bad_task_def due_def NSIG_def)
qed

text \<open>C26: Nobody escapes \<open>SIGKILL\<close>. Whatever masks, handlers, suspended calls and handler returns came before, a \<open>SIGKILL\<close> recorded against a process or a task
  is among the next nine signals taken for it, by whichever task takes them, and what it does is end the process.\<close>

theorem signal64_kill_gets_through:
  assumes "sig_ok s0" and "rtranclp sig_step s0 s"
  shows "(signal64_raise p SIG64_KILLSIG s = (0, s') \<longrightarrow> SIG64_KILLSIG \<in> set (takes (signal64_take_pending p) 9 s'))
    \<and> (signal64_raise_task tid SIG64_KILLSIG s = (0, s') \<longrightarrow> SIG64_KILLSIG \<in> set (takes (signal64_take_pending_task tid) 9 s'))
    \<and> signal64_disposition p SIG64_KILLSIG s' = SIG64_DISP_TERM"
proof -
  have ok: "sig_ok s" using assms(2,1) by (induction rule: rtranclp_induct) (simp_all add: sig_step_ok)
  have "\<not> bad_slot (slot_of p s)" if "signal64_raise p SIG64_KILLSIG s = (0, s')"
    using that by (auto simp: signal64_raise_def Let_def slot_of_def split: if_splits)
  moreover have "\<not> bad_task tid" if "signal64_raise_task tid SIG64_KILLSIG s = (0, s')"
    using that by (auto simp: signal64_raise_task_def split: if_splits)
  moreover have "\<not> bit (my_blocked s) 9" using mask_ok_mine [OF ok] by (simp add: mask_ok_def)
  moreover have "\<not> bit (blocked_by_task s ! nat tid) 9" if "\<not> bad_task tid" using sig_okD(5) [OF ok good_task [OF that]] by (simp add: mask_ok_def)
  ultimately show ?thesis
    using of_process.raised_is_taken [of s p SIG64_KILLSIG s'] of_task.raised_is_taken [of s tid SIG64_KILLSIG s'] ok
    by (simp add: SIG64_KILLSIG_def signal64_disposition_def bad_sig_def NSIG_def)
qed

section \<open>Witnesses\<close>

text \<open>A program interrupted with a page of stack, which catches every signal and blocks signal 2.\<close>

definition catch_demo :: ksigaction64 where
  "catch_demo = \<lparr>handler = 0x400000, sa_flags = SA_RESTORER, restorer = 0x400100, sa_mask = 0\<rparr>"

definition sig_demo :: sigstate where
  "sig_demo = \<lparr>handlers_by_slot = replicate PROC64_MAX (replicate NSIG catch_demo), delivered = 0, returns = 0, raised = 0,
     pending_by_slot = replicate PROC64_MAX 0, pending_by_task = replicate SCHED64_MAX_TASKS 0,
     sender_by_slot = replicate PROC64_MAX (replicate NSIG 0), sender_by_task = replicate SCHED64_MAX_TASKS (replicate NSIG 0),
     blocked_by_task = replicate SCHED64_MAX_TASKS 4, saved_by_task = replicate SCHED64_MAX_TASKS 0, has_saved_by_task = replicate SCHED64_MAX_TASKS False,
     sas_sp_by_task = replicate SCHED64_MAX_TASKS 0, sas_size_by_task = replicate SCHED64_MAX_TASKS 0, signal_trace = False,
     sch = sched_demo\<lparr>fpu_regs := replicate 512 0\<rparr>, us = uspace_demo\<lparr>umach := cow_demo\<rparr>\<rparr>"

lemma sig_demo_ok: "sig_ok sig_demo"
  by (simp add: sig_ok_def sig_demo_def list_all_iff mask_ok_def NSIG_def)

lemma sig_demo_current: "sched64_current (sch sig_demo) = 0" "\<not> bad_task 0" "my_task sig_demo = 0"
  using sched_demo_ok(4) by (simp_all add: sig_demo_def sched64_current_def bad_task_def my_task_def SCHED64_MAX_TASKS_def)

theorem signal64_taken_in_order_witness:
  "takes (signal64_take_pending_task 0) 3 (sig_demo\<lparr>pending_by_task := replicate SCHED64_MAX_TASKS 0x8404\<rparr>) = [10, 15, 0]"
proof -
  let ?s = "sig_demo\<lparr>pending_by_task := replicate SCHED64_MAX_TASKS 0x8404\<rparr>"
  have ok: "sig_ok ?s" using sig_demo_ok by (simp add: sig_ok_def)
  have f: "filter (bit (0x8400 :: u64)) [1..<64] = [10, 15]" by code_simp
  have "pending_by_task ?s ! 0 AND NOT (blocked_by_task ?s ! 0) = 0x8400" by (simp add: sig_demo_def SCHED64_MAX_TASKS_def)
  then show ?thesis
    using signal64_taken_in_order [OF ok, of 0 3 0] f by (simp add: SCHED64_MAX_TASKS_def numeral_3_eq_3 del: upt_Suc)
qed

theorem signal64_kill_gets_through_witness:
  "signal64_raise_task 0 SIG64_KILLSIG sig_demo = (0, snd (signal64_raise_task 0 SIG64_KILLSIG sig_demo))
     \<and> SIG64_KILLSIG \<in> set (takes (signal64_take_pending_task 0) 9 (snd (signal64_raise_task 0 SIG64_KILLSIG sig_demo)))"
proof -
  have "sched64_task_pid 0 (sch sig_demo) = 1"
    by (simp add: sched64_task_pid_def sig_demo_def sched_demo_def task_demo_def SCHED64_MAX_TASKS_def)
  then have r: "signal64_raise_task 0 SIG64_KILLSIG sig_demo = (0, snd (signal64_raise_task 0 SIG64_KILLSIG sig_demo))"
    using sig_demo_current(2) by (simp add: signal64_raise_task_def Let_def bad_sig_def SIG64_KILLSIG_def NSIG_def)
  then show ?thesis
    using signal64_kill_gets_through [OF sig_demo_ok rtranclp.rtrancl_refl, of 0 "snd (signal64_raise_task 0 SIG64_KILLSIG sig_demo)" 0] by simp
qed

end
