(* ===== verification/Signal64_Frame.thy ===== *)
theory Signal64_Frame
  imports Signal64_Masks
begin

text \<open>
  Correctness of delivery and return in \<^verbatim>\<open>kernel/signal64.c\<close>.

  User memory is seen by address, and stores of the kernel are overlays of that view. Delivery places the frame, backs the stack, and
  writes the frame of \<open>frame_words\<close> with the floating-point state above it; a return that finds these bytes
  again gives back the interrupted context.
\<close>

unbundle bit_operations_syntax

section \<open>Bytes of a word\<close>

definition byte_of :: "u64 \<Rightarrow> nat \<Rightarrow> byte" where
  "byte_of w j = ucast (drop_bit (8 * j) w)"

lemma bit_byte_of: "bit (byte_of w j) n \<longleftrightarrow> n < 8 \<and> bit w (8 * j + n)"
  by (auto simp: byte_of_def bit_simps)

lemma bit_word_of_bytes:
  "length bs \<le> 8 \<Longrightarrow> bit (word_of_bytes bs) n \<longleftrightarrow> n < 8 * length bs \<and> bit (bs ! (n div 8)) (n mod 8)"
proof (induction bs arbitrary: n)
  case (Cons b bs)
  have b: "\<not> bit b n" if "8 \<le> n" for n using that bit_imp_le_length [of b n] by auto
  have e: "word_of_bytes (b # bs) = ucast b OR push_bit 8 (word_of_bytes bs)" by (simp add: word_of_bytes_def)
  show ?case
  proof (cases "n < 8")
    case True
    then show ?thesis unfolding e bit_or_iff bit_push_bit_iff by (simp add: bit_simps)
  next
    case False
    then have "n div 8 = Suc ((n - 8) div 8)" "n mod 8 = (n - 8) mod 8" by (simp_all add: le_div_geq le_mod_geq)
    then show ?thesis unfolding e bit_or_iff bit_push_bit_iff using False Cons b by (auto simp: bit_simps)
  qed
qed (simp add: word_of_bytes_def)

lemma word_of_its_bytes: "word_of_bytes (map (byte_of w) [0..<8]) = w"
proof (rule bit_word_eqI)
  fix n assume "n < LENGTH(64)"
  then have n: "n < 64" "n div 8 < 8" "8 * (n div 8) + n mod 8 = n" by auto
  then show "bit (word_of_bytes (map (byte_of w) [0..<8])) n = bit w n" by (simp add: bit_word_of_bytes bit_byte_of del: upt_Suc)
qed

lemma peek_store_word: "peek (store_word f i w m) h k = (if h = f \<and> k div 8 = i then byte_of w (k mod 8) else peek m h k)"
  by (simp add: peek_def store_word_def byte_of_def)

section \<open>Memory seen by address\<close>

definition ubyte :: "(nat \<Rightarrow> (nat \<Rightarrow> byte) option) \<Rightarrow> nat \<Rightarrow> byte option" where
  "ubyte A a = map_option (\<lambda>c. c (a mod 4096)) (A (a div 4096))"

text \<open>The contents with the bytes from \<open>lo\<close> up to \<open>hi\<close> replaced.\<close>

definition overlay :: "nat \<Rightarrow> nat \<Rightarrow> (nat \<Rightarrow> byte) \<Rightarrow> (nat \<Rightarrow> (nat \<Rightarrow> byte) option) \<Rightarrow> nat \<Rightarrow> (nat \<Rightarrow> byte) option" where
  "overlay lo hi g A p = map_option (\<lambda>c k. if k < 4096 \<and> lo \<le> p * 4096 + k \<and> p * 4096 + k < hi then g (p * 4096 + k) else c k) (A p)"

lemma overlay_byte: "ubyte (overlay lo hi g A) a = (if lo \<le> a \<and> a < hi then map_option (\<lambda>_. g a) (ubyte A a) else ubyte A a)"
  by (cases "A (a div 4096)") (simp_all add: ubyte_def overlay_def)

lemma overlay_dom [simp]: "dom (overlay lo hi g A) = dom A"
  by (auto simp: overlay_def)

lemma overlay_empty: "overlay a a g A = A"
proof
  fix p show "overlay a a g A p = A p" by (cases "A p") (auto simp: overlay_def fun_eq_iff)
qed

lemma overlay_join:
  assumes "a \<le> b" "b \<le> c"
  shows "overlay b c g (overlay a b g A) = overlay a c g A"
proof
  fix p
  show "overlay b c g (overlay a b g A) p = overlay a c g A p"
    using assms by (cases "A p") (auto simp: overlay_def fun_eq_iff)
qed

lemma overlay_one_page:
  assumes "A p = Some c" and "p * 4096 \<le> lo" and "hi \<le> p * 4096 + 4096"
  shows "overlay lo hi g A = A(p \<mapsto> (\<lambda>k. if k < 4096 \<and> lo \<le> p * 4096 + k \<and> p * 4096 + k < hi then g (p * 4096 + k) else c k))"
proof
  fix q
  show "overlay lo hi g A q = (A(p \<mapsto> (\<lambda>k. if k < 4096 \<and> lo \<le> p * 4096 + k \<and> p * 4096 + k < hi then g (p * 4096 + k) else c k))) q"
  proof (cases "q = p")
    case False
    then have "(k < 4096 \<and> lo \<le> q * 4096 + k \<and> q * 4096 + k < hi) = False" for k using assms(2,3) by (cases "q < p") auto
    then show ?thesis using False by (cases "A q") (simp_all only: overlay_def fun_upd_other option.map if_False simp_thms)
  qed (simp add: assms(1) overlay_def)
qed

lemma page_less: "a < 2 ^ 47 \<Longrightarrow> a div 4096 < (2 ^ 35 :: nat)"
  by (simp add: less_mult_imp_div_less)

lemma vget8_view:
  assumes "user_pages P A m" and "a div 4096 \<in> P"
  shows "vget8 a m = ubyte A a"
proof -
  note D = user_pagesD [OF assms(1)]
  have "a div 4096 < 2 ^ 35" using D(2) [OF assms(2)] .
  then have w: "mmu_frame m (of_nat a) = mmu_frame m (page (a div 4096))" by (intro mmu_frame_of_page) simp
  show ?thesis
  proof (cases "A (a div 4096)")
    case None
    then show ?thesis using D(4) [OF assms(2)] w by (simp add: vget8_def ubyte_def)
  next
    case (Some c)
    then obtain f where "data_frame_of m (a div 4096) f" "\<forall>k < 4096. peek m f k = c k" using D(5) by blast
    then show ?thesis using Some w by (simp add: vget8_def ubyte_def data_frame_of_def)
  qed
qed

text \<open>A store to one page of the user half.\<close>

lemma store_view:
  assumes u: "user_pages P A m" and a: "A (a div 4096) = Some c"
    and st: "\<And>f. st f = n f \<and> cr3 (n f) = cr3 m \<and> pmm (n f) = pmm m \<and> (\<forall>h. h \<noteq> f \<longrightarrow> mem (n f) h = mem m h)"
    and pk: "\<And>f k. k < 4096 \<Longrightarrow> peek (n f) f k = (if lo \<le> a div 4096 * 4096 + k \<and> a div 4096 * 4096 + k < hi then g (a div 4096 * 4096 + k) else peek m f k)"
    and r: "a div 4096 * 4096 \<le> lo" "hi \<le> a div 4096 * 4096 + 4096"
  shows "\<exists>m'. map_option st (mmu_frame m (of_nat a)) = Some m' \<and> user_pages P (overlay lo hi g A) m' \<and> cr3 m' = cr3 m \<and> pmm m' = pmm m"
proof -
  note D = user_pagesD [OF u]
  have "a div 4096 < 2 ^ 35" using D(2) [OF D(6) [OF a]] .
  then have w: "mmu_frame m (of_nat a) = mmu_frame m (page (a div 4096))" by (intro mmu_frame_of_page) simp
  obtain f where f: "data_frame_of m (a div 4096) f" "\<forall>k < 4096. peek m f k = c k" using D(5) [OF a] by blast
  have "user_pages P (overlay lo hi g A) (n f)"
    unfolding overlay_one_page [where A = A, OF a r] by (rule user_pages_write(1) [OF u a f(1)]) (use st [of f] pk [of _ f] f(2) in auto)
  then show ?thesis using f(1) st [of f] w by (simp add: data_frame_of_def)
qed

lemma vput8_view:
  assumes u: "user_pages P A m" and a: "A (a div 4096) = Some c" and "g a = b"
  shows "\<exists>m'. vput8 a b m = Some m' \<and> user_pages P (overlay a (a + 1) g A) m' \<and> cr3 m' = cr3 m \<and> pmm m' = pmm m"
  unfolding vput8_def
proof (rule store_view [OF u a, where n = "\<lambda>f. poke f (a mod 4096) b m"])
  show "peek (poke f (a mod 4096) b m) f k =
      (if a \<le> a div 4096 * 4096 + k \<and> a div 4096 * 4096 + k < a + 1 then g (a div 4096 * 4096 + k) else peek m f k)" for f k
  proof -
    have "a \<le> a div 4096 * 4096 + k \<and> a div 4096 * 4096 + k < a + 1 \<longleftrightarrow> k = a mod 4096" using div_mult_mod_eq [of a 4096] by linarith
    then show ?thesis using assms(3) by (simp add: peek_poke)
  qed
  show "a div 4096 * 4096 \<le> a" "a + 1 \<le> a div 4096 * 4096 + 4096"
    using div_mult_mod_eq [of a 4096] mod_less_divisor [of 4096 a] by linarith+
qed simp

lemma vput64_view:
  assumes u: "user_pages P A m" and a: "A (a div 4096) = Some c" "a mod 8 = 0" and g: "\<And>j. j < 8 \<Longrightarrow> g (a + j) = byte_of (of_nat w) j"
  shows "\<exists>m'. vput64 a w m = Some m' \<and> user_pages P (overlay a (a + 8) g A) m' \<and> cr3 m' = cr3 m \<and> pmm m' = pmm m"
  unfolding vput64_def
proof (rule store_view [OF u a(1), where n = "\<lambda>f. store_word f (a mod 4096 div 8) (of_nat w) m"])
  define p o' where "p = a div 4096 * 4096" and "o' = a mod 4096"
  have po: "a = p + o'" "o' < 4096" "o' mod 8 = 0" using a(2) by (simp_all add: p_def o'_def mod_mod_cancel)
  have o8: "o' = 8 * (o' div 8)" using po(3) by presburger
  show "peek (store_word f (a mod 4096 div 8) (of_nat w) m) f k =
      (if a \<le> a div 4096 * 4096 + k \<and> a div 4096 * 4096 + k < a + 8 then g (a div 4096 * 4096 + k) else peek m f k)" if "k < 4096" for f k
    unfolding p_def [symmetric] o'_def [symmetric]
  proof (cases "k div 8 = o' div 8")
    case True
    then have k: "k = o' + k mod 8" using o8 by (metis div_mult_mod_eq mult.commute)
    then have "p + k = a + k mod 8" using po(1) by simp
    then show "peek (store_word f (o' div 8) (of_nat w) m) f k = (if a \<le> p + k \<and> p + k < a + 8 then g (p + k) else peek m f k)"
      using True g [of "k mod 8"] by (simp add: peek_store_word)
  next
    case False
    moreover have "k div 8 = o' div 8" if "o' \<le> k" "k < o' + 8"
    proof -
      have "8 * (o' div 8) \<le> k" "k < 8 * (o' div 8) + 8" using that o8 by linarith+
      then show ?thesis by linarith
    qed
    ultimately have out: "\<not> (a \<le> p + k \<and> p + k < a + 8)" using po(1) by auto
    show "peek (store_word f (o' div 8) (of_nat w) m) f k = (if a \<le> p + k \<and> p + k < a + 8 then g (p + k) else peek m f k)"
      using False unfolding if_not_P [OF out] by (simp add: peek_store_word)
  qed
  show "a div 4096 * 4096 \<le> a" by simp
  have "o' + 8 \<le> 4096" using po(2) o8 by presburger
  then show "a + 8 \<le> a div 4096 * 4096 + 4096" using po(1) by (simp add: p_def)
qed (simp add: store_word_def)

text \<open>A row of stores of \<open>z\<close> bytes each.\<close>

lemma stores_view:
  assumes u: "user_pages P A m" and dom: "\<And>k. k < n \<Longrightarrow> (a + z * k) div 4096 \<in> dom A"
    and st: "\<And>k m A c. k < n \<Longrightarrow> user_pages P A m \<Longrightarrow> A ((a + z * k) div 4096) = Some c \<Longrightarrow>
        \<exists>m'. st k m = Some m' \<and> user_pages P (overlay (a + z * k) (a + z * k + z) g A) m' \<and> cr3 m' = cr3 m \<and> pmm m' = pmm m"
  shows "\<exists>m'. walk_all st [0..<n] m = Some m' \<and> user_pages P (overlay a (a + z * n) g A) m' \<and> cr3 m' = cr3 m \<and> pmm m' = pmm m"
  using dom st
proof (induction n)
  case 0
  then show ?case using u by (simp add: overlay_empty)
next
  case (Suc n)
  have "\<exists>m'. walk_all st [0..<n] m = Some m' \<and> user_pages P (overlay a (a + z * n) g A) m' \<and> cr3 m' = cr3 m \<and> pmm m' = pmm m"
    by (rule Suc.IH) (use Suc.prems less_SucI in blast)+
  then obtain m1 where m1: "walk_all st [0..<n] m = Some m1" "user_pages P (overlay a (a + z * n) g A) m1" "cr3 m1 = cr3 m" "pmm m1 = pmm m"
    by blast
  have "(a + z * n) div 4096 \<in> dom (overlay a (a + z * n) g A)" using Suc.prems(1) [of n] by simp
  then obtain c where "overlay a (a + z * n) g A ((a + z * n) div 4096) = Some c" by blast
  from Suc.prems(2) [OF _ m1(2) this] obtain m' where m': "st n m1 = Some m'"
    "user_pages P (overlay (a + z * n) (a + z * n + z) g (overlay a (a + z * n) g A)) m'" "cr3 m' = cr3 m1" "pmm m' = pmm m1" by blast
  have "overlay (a + z * n) (a + z * n + z) g (overlay a (a + z * n) g A) = overlay a (a + z * Suc n) g A"
    by (simp add: overlay_join add.assoc add.commute [of z])
  then show ?case using m1 m' by (auto simp: walk_all_append)
qed

lemma add64_low: "a < 2 ^ 63 \<Longrightarrow> k < 2 ^ 63 \<Longrightarrow> add64 a k = a + k"
  by (simp add: add64_def)

text \<open>Rows of bytes and of words, and what is read back.\<close>

lemma vput_bytes_view:
  assumes u: "user_pages P A m" and a: "a + length bs \<le> 2 ^ 47" and dom: "\<And>x. a \<le> x \<Longrightarrow> x < a + length bs \<Longrightarrow> x div 4096 \<in> dom A"
    and g: "\<And>k. k < length bs \<Longrightarrow> g (a + k) = bs ! k"
  shows "\<exists>m'. vput_bytes a bs m = Some m' \<and> user_pages P (overlay a (a + length bs) g A) m' \<and> cr3 m' = cr3 m \<and> pmm m' = pmm m"
proof -
  have "\<exists>m'. walk_all (\<lambda>k. vput8 (add64 a k) (bs ! k)) [0..<length bs] m = Some m'
      \<and> user_pages P (overlay a (a + 1 * length bs) g A) m' \<and> cr3 m' = cr3 m \<and> pmm m' = pmm m"
  proof (rule stores_view [OF u])
    show "(a + 1 * k) div 4096 \<in> dom A" if "k < length bs" for k using that dom [of "a + k"] by simp
    show "\<exists>m'. vput8 (add64 a k) (bs ! k) m = Some m' \<and> user_pages P (overlay (a + 1 * k) (a + 1 * k + 1) g A) m' \<and> cr3 m' = cr3 m \<and> pmm m' = pmm m"
      if "k < length bs" "user_pages P A m" "A ((a + 1 * k) div 4096) = Some c" for k m A c
      using vput8_view [OF that(2), of "a + k" c g] that g [OF that(1)] a by (simp add: add64_low)
  qed
  then show ?thesis by (simp add: vput_bytes_def)
qed

lemma vput_words_view:
  assumes u: "user_pages P A m" and a: "a + 8 * length ws \<le> 2 ^ 47" "a mod 8 = 0" and dom: "\<And>x. a \<le> x \<Longrightarrow> x < a + 8 * length ws \<Longrightarrow> x div 4096 \<in> dom A"
    and g: "\<And>k j. k < length ws \<Longrightarrow> j < 8 \<Longrightarrow> g (a + 8 * k + j) = byte_of (of_nat (ws ! k)) j"
  shows "\<exists>m'. vput_words a ws m = Some m' \<and> user_pages P (overlay a (a + 8 * length ws) g A) m' \<and> cr3 m' = cr3 m \<and> pmm m' = pmm m"
  unfolding vput_words_def
proof (rule stores_view [OF u])
  show "(a + 8 * k) div 4096 \<in> dom A" if "k < length ws" for k using that dom [of "a + 8 * k"] by simp
  show "\<exists>m'. vput64 (add64 a (8 * k)) (ws ! k) m = Some m' \<and> user_pages P (overlay (a + 8 * k) (a + 8 * k + 8) g A) m' \<and> cr3 m' = cr3 m \<and> pmm m' = pmm m"
    if "k < length ws" "user_pages P A m" "A ((a + 8 * k) div 4096) = Some c" for k m A c
    using vput64_view [OF that(2,3), of g "ws ! k"] that(1) g [OF that(1)] a by (simp add: add64_low)
qed

lemma those_map: "(\<And>k. k \<in> set ks \<Longrightarrow> f k = Some (h k)) \<Longrightarrow> those (map f ks) = Some (map h ks)"
  by (induction ks) auto

lemma vget_bytes_at:
  assumes "a + n \<le> 2 ^ 47" and "\<And>k. k < n \<Longrightarrow> vget8 (a + k) m = Some (h k)"
  shows "vget_bytes a n m = Some (map h [0..<n])"
  unfolding vget_bytes_def by (rule those_map) (use assms in \<open>simp add: add64_low\<close>)

lemma vget64_at:
  assumes "a + 8 \<le> 2 ^ 47" and "\<And>j. j < 8 \<Longrightarrow> vget8 (a + j) m = Some (byte_of w j)"
  shows "vget64 a m = Some w"
  using vget_bytes_at [OF assms] by (simp add: vget64_def word_of_its_bytes del: upt_Suc)

lemma vget_words_at:
  assumes "a + 8 * n \<le> 2 ^ 47" and "\<And>k j. k < n \<Longrightarrow> j < 8 \<Longrightarrow> vget8 (a + 8 * k + j) m = Some (byte_of (ws ! k) j)" and "n \<le> length ws"
  shows "vget_words a n m = Some (take n ws)"
proof -
  have "vget64 (add64 a (8 * k)) m = Some (ws ! k)" if "k < n" for k
    using vget64_at [of "a + 8 * k" m "ws ! k"] that assms by (simp add: add64_low)
  then have "vget_words a n m = Some (map ((!) ws) [0..<n])" unfolding vget_words_def by (intro those_map) simp
  moreover have "map ((!) ws) [0..<n] = take n ws" using assms(3) by (intro nth_equalityI) simp_all
  ultimately show ?thesis by simp
qed

section \<open>Backing a range\<close>

definition regions_plain :: "proc64 \<Rightarrow> bool" where
  "regions_plain p \<longleftrightarrow> (\<forall>a fl. resv_at p a = Some fl \<longrightarrow> fl AND ADDR_MASK = 0)"

text \<open>The pages of a range that had none are new and zero.\<close>

definition backed :: "nat set \<Rightarrow> (nat \<Rightarrow> (nat \<Rightarrow> byte) option) \<Rightarrow> nat \<Rightarrow> (nat \<Rightarrow> byte) option" where
  "backed Q A q = (if q \<in> Q \<and> A q = None then Some (\<lambda>_. 0) else A q)"

lemma backed_dom: "Q \<subseteq> dom (backed Q A)"
  by (auto simp: backed_def)

lemma backed_step: "A q = None \<Longrightarrow> backed Q (A(q \<mapsto> (\<lambda>_. 0))) = backed (insert q Q) A"
  by (auto simp: backed_def fun_eq_iff)

lemma backed_skip: "A q \<noteq> None \<Longrightarrow> backed Q A = backed (insert q Q) A"
  by (auto simp: backed_def fun_eq_iff)

lemma backed_all: "Q \<subseteq> dom A \<Longrightarrow> backed Q A = A"
  by (auto simp: backed_def fun_eq_iff)

lemma present_loop_spec:
  assumes "user_pages P A (umach u)" and "cur u = Some p" "resv_ok p" "regions_plain p" and "end \<le> 2 ^ 47" and n: "n = (end + 4095) div 4096" and "{i..<n} \<subseteq> P"
  shows "\<exists>ok u'. present_loop (i * 4096) end u = Some (ok, u') \<and> table u' = table u
     \<and> (ok \<longrightarrow> user_pages P (backed {i..<n} A) (umach u'))
     \<and> ({i..<n} \<subseteq> dom A \<longrightarrow> ok \<and> u' = u)"
  using assms(1-5,7)
proof (induction "n - i" arbitrary: i A u)
  case 0
  then have "end \<le> i * 4096" "{i..<n} = {}" using n by simp_all
  then show ?case using "0.prems"(1) by (subst present_loop.simps) (auto simp: backed_all)
next
  case (Suc d)
  have i: "i < n" "i \<in> P" "i * 4096 < end" "d = n - Suc i" using Suc.hyps(2) Suc.prems(6) n by auto
  have R: "{i..<n} = insert i {Suc i..<n}" using i(1) by auto
  have lim: "i * 4096 < USPACE64_LIMIT" using i(3) Suc.prems(5) by (simp add: USPACE64_LIMIT_def)
  have next_page: "add64 (i * 4096) 4096 = Suc i * 4096" using i(3) Suc.prems(5) by (simp add: add64_low)
  have pg: "of_nat (i * 4096) = page i" by (simp only: page_def)
  have sub: "{Suc i..<n} \<subseteq> P" by (rule subset_trans [OF _ Suc.prems(6)]) simp
  show ?case
  proof (cases "A i")
    case None
    have t: "paging64_translate (page i) (umach u) = Some (PAGING64_NOT_MAPPED, None)" using translate_page(1) [OF Suc.prems(1) i(2) None] .
    have "\<forall>fl. resv_at p (page_down (i * 4096)) = Some fl \<longrightarrow> fl AND ADDR_MASK = 0" using Suc.prems(4) by (simp add: regions_plain_def)
    then obtain ok v where f: "uspace64_fault (i * 4096) True u = Some (ok, v)" "table v = table u"
      "ok \<longrightarrow> user_pages P (A(i \<mapsto> (\<lambda>_. 0))) (umach v)"
      using uspace64_fault_correct [OF Suc.prems(2,3,1) lim, of True] i(2) None by (fastforce split: if_splits)
    show ?thesis
    proof (cases ok)
      case False
      then show ?thesis using f(1,2) t i(3) None R by (subst present_loop.simps) (auto simp: pg domIff)
    next
      case True
      have "cur v = Some p" using Suc.prems(2) f(2) by (simp add: cur_def)
      then obtain ok' u' where "present_loop (Suc i * 4096) end v = Some (ok', u')" "table u' = table v"
        "ok' \<longrightarrow> user_pages P (backed {Suc i..<n} (A(i \<mapsto> (\<lambda>_. 0)))) (umach u')"
        using Suc.hyps(1) [OF i(4) _ _ Suc.prems(3-5) sub, of "A(i \<mapsto> (\<lambda>_. 0))" v] f(3) True by blast
      then show ?thesis using f t i(3) True None R next_page by (subst present_loop.simps) (simp add: pg backed_step domIff)
    qed
  next
    case (Some c)
    obtain f where "data_frame_of (umach u) i f" using user_pagesD(5) [OF Suc.prems(1) Some] by blast
    then have t: "paging64_translate (page i) (umach u) = Some (PAGING64_OK, Some (of_nat (f * 4096)))" using translate_page(2) [OF Suc.prems(1) i(2)] by simp
    obtain ok' u' where "present_loop (Suc i * 4096) end u = Some (ok', u')" "table u' = table u"
        "ok' \<longrightarrow> user_pages P (backed {Suc i..<n} A) (umach u')" "{Suc i..<n} \<subseteq> dom A \<longrightarrow> ok' \<and> u' = u"
      using Suc.hyps(1) [OF i(4) Suc.prems(1-5) sub] by blast
    then show ?thesis using t i(3) R next_page Some backed_skip [of A i "{Suc i..<n}"] by (subst present_loop.simps) (simp add: pg domIff)
  qed
qed

section \<open>Where the frame goes\<close>

lemma unat_and_not_mask:
  fixes x :: u64
  shows "unat (x AND NOT (mask n)) = unat x div 2 ^ n * 2 ^ n"
proof -
  have "x AND NOT (mask n) = push_bit n (drop_bit n x)" by (rule bit_word_eqI) (auto simp: bit_simps)
  also have "\<dots> = of_nat (unat x div 2 ^ n * 2 ^ n)" by (simp add: push_bit_eq_mult flip: drop_bit_eq_div unat_drop_bit_eq)
  finally have e: "x AND NOT (mask n) = of_nat (unat x div 2 ^ n * 2 ^ n)" .
  have "unat x div 2 ^ n * 2 ^ n < 2 ^ 64"
    by (rule order_le_less_trans [OF div_times_less_eq_dividend]) (use unsigned_less [of x, where 'a = nat] in simp)
  then show ?thesis unfolding e by (simp only: unsigned_of_nat of_nat_id take_bit_nat_eq_self_iff) simp
qed

lemma unat_minus_low: "unat (y :: u64) \<le> unat x \<Longrightarrow> unat (x - y) = unat x - unat y"
  by (simp add: unat_sub word_le_nat_alt)

lemma frame_place:
  assumes top: "2048 \<le> unat (frame_top sa r s)" "unat (frame_top sa r s) \<le> 2 ^ 47"
  shows "unat (frame_fpsp sa r s) mod 64 = 0" "unat (frame_fpsp sa r s) + 512 \<le> unat (frame_top sa r s)" "640 \<le> unat (frame_fpsp sa r s)"
    and "unat (frame_sp sa r s) mod 16 = 8" "unat (frame_sp sa r s) + 560 \<le> unat (frame_fpsp sa r s)" "unat (frame_fpsp sa r s) \<le> unat (frame_sp sa r s) + 600"
proof -
  have m: "(63 :: u64) = mask 6" "(15 :: u64) = mask 4" by (simp_all add: mask_eq_exp_minus_1)
  define t fp q where "t = unat (frame_top sa r s)" and "fp = unat (frame_fpsp sa r s)" and "q = (fp - 560) div 16"
  have fp: "fp = (t - 512) div 64 * 64"
    using top unat_minus_low [of 512 "frame_top sa r s"] by (simp add: fp_def t_def frame_fpsp_def m(1) unat_and_not_mask del: mask_numeral)
  have f: "fp mod 64 = 0" "fp + 512 \<le> t" "640 \<le> fp" using fp top by (simp_all add: t_def)
  have "unat ((frame_fpsp sa r s - SIGFRAME_BYTES) AND NOT 15) = q * 16"
    using f unat_minus_low [of SIGFRAME_BYTES "frame_fpsp sa r s"] by (simp add: fp_def q_def m(2) unat_and_not_mask SIGFRAME_BYTES_def del: mask_numeral)
  moreover have q: "5 \<le> q" "fp = 16 * q + 560"
  proof -
    define c where "c = fp div 64"
    have c: "fp = 64 * c" "10 \<le> c" using f(1,3) by (auto simp: c_def)
    then have "fp - 560 = 16 * (4 * c - 35)" by simp
    then have "q = 4 * c - 35" by (simp add: q_def)
    then show "5 \<le> q" "fp = 16 * q + 560" using c by simp_all
  qed
  ultimately have sp: "unat (frame_sp sa r s) = q * 16 - 8"
    using unat_minus_low [of 8 "(frame_fpsp sa r s - SIGFRAME_BYTES) AND NOT 15"] by (simp add: frame_sp_def)
  have "q * 16 - 8 = 8 + 16 * (q - 1)" using q(1) by simp
  then show "unat (frame_sp sa r s) mod 16 = 8" unfolding sp by simp
  show "unat (frame_sp sa r s) + 560 \<le> unat (frame_fpsp sa r s)" "unat (frame_fpsp sa r s) \<le> unat (frame_sp sa r s) + 600"
    using sp q unfolding fp_def by simp_all
  show "unat (frame_fpsp sa r s) mod 64 = 0" "unat (frame_fpsp sa r s) + 512 \<le> unat (frame_top sa r s)" "640 \<le> unat (frame_fpsp sa r s)"
    using f by (simp_all add: fp_def t_def)
qed

lemma frame_words_length [simp]: "length (frame_words pc sig r mk fa fp) = 70"
  by (simp add: frame_words_def ucontext_words_def sigcontext_words_def)

section \<open>Delivery\<close>

text \<open>The bytes a delivery writes: the frame, and the floating-point state above it.\<close>

definition frame_bytes :: "nat \<Rightarrow> nat \<Rightarrow> u64 list \<Rightarrow> byte list \<Rightarrow> nat \<Rightarrow> byte" where
  "frame_bytes sp fp ws fx a = (if a < fp then byte_of (ws ! ((a - sp) div 8)) ((a - sp) mod 8) else fx ! (a - fp))"

lemma write_frame:
  assumes u: "user_pages P A m" and sp: "sp mod 8 = 0" "sp + 8 * length ws \<le> fp" "fp + length fx \<le> 2 ^ 47"
    and dom: "\<And>x. sp \<le> x \<Longrightarrow> x < fp + length fx \<Longrightarrow> x div 4096 \<in> dom A"
  shows "\<exists>m1 m'. vput_words sp (map unat ws) m = Some m1 \<and> vput_bytes fp fx m1 = Some m'
     \<and> user_pages P (overlay fp (fp + length fx) (frame_bytes sp fp ws fx) (overlay sp (sp + 8 * length ws) (frame_bytes sp fp ws fx) A)) m'
     \<and> cr3 m' = cr3 m \<and> pmm m' = pmm m"
proof -
  let ?g = "frame_bytes sp fp ws fx"
  have "\<exists>m1. vput_words sp (map unat ws) m = Some m1 \<and> user_pages P (overlay sp (sp + 8 * length (map unat ws)) ?g A) m1 \<and> cr3 m1 = cr3 m \<and> pmm m1 = pmm m"
  proof (rule vput_words_view [OF u])
    show "?g (sp + 8 * k + j) = byte_of (of_nat (map unat ws ! k)) j" if "k < length (map unat ws)" "j < 8" for k j
      using that sp(2) by (simp add: frame_bytes_def)
  qed (use sp dom in \<open>simp_all\<close>)
  then obtain m1 where m1: "vput_words sp (map unat ws) m = Some m1" "user_pages P (overlay sp (sp + 8 * length ws) ?g A) m1" "cr3 m1 = cr3 m" "pmm m1 = pmm m"
    by auto
  have "\<exists>m'. vput_bytes fp fx m1 = Some m' \<and> user_pages P (overlay fp (fp + length fx) ?g (overlay sp (sp + 8 * length ws) ?g A)) m' \<and> cr3 m' = cr3 m1 \<and> pmm m' = pmm m1"
    by (rule vput_bytes_view [OF m1(2)]) (use sp dom in \<open>simp_all add: frame_bytes_def\<close>)
  then show ?thesis using m1 by auto
qed

text \<open>The mask a handler goes back to.\<close>

definition mask_back :: "sigstate \<Rightarrow> u64" where
  "mask_back s = (let t = sched64_current (sch s) in if \<not> bad_task t \<and> has_saved_by_task s ! nat t then saved_by_task s ! nat t else my_blocked s)"

lemma take_saved_back: "fst (take_saved s) = mask_back s" "us (snd (take_saved s)) = us s" "sch (snd (take_saved s)) = sch s"
  "handlers_by_slot (snd (take_saved s)) = handlers_by_slot s" "my_blocked (snd (take_saved s)) = my_blocked s"
  "blocked_by_task (snd (take_saved s)) = blocked_by_task s"
  by (simp_all add: take_saved_def mask_back_def my_blocked_def Let_def)

lemma set_mine_fields [simp]:
  "us (set_my_blocked v s) = us s" "sch (set_my_blocked v s) = sch s" "handlers_by_slot (set_my_blocked v s) = handlers_by_slot s"
  by (simp_all add: set_my_blocked_def Let_def)

lemma my_blocked_set: "length (blocked_by_task s) = SCHED64_MAX_TASKS \<Longrightarrow> my_blocked (set_my_blocked v s) = (if bad_task (sched64_current (sch s)) then 0 else v)"
  by (auto simp: my_blocked_def set_my_blocked_def Let_def bad_task_def)

lemma set_action_fields [simp]:
  "us (set_action k sig a s) = us s" "sch (set_action k sig a s) = sch s" "my_blocked (set_action k sig a s) = my_blocked s"
  by (simp_all add: set_action_def my_blocked_def Let_def)

text \<open>A signal with a handler that may run: not blocked, and the interrupted code was the program's.\<close>

definition caught :: "int \<Rightarrow> registers64 \<Rightarrow> ksigaction64 \<Rightarrow> sigstate \<Rightarrow> bool" where
  "caught sig r sa s \<longleftrightarrow> \<not> bad_sig sig \<and> \<not> bit (my_blocked s) (nat sig) \<and> sa = action (my_handlers s) sig s
     \<and> handler sa \<noteq> 0 \<and> handler sa \<noteq> SIG64_IGN \<and> cs r AND 3 = 3"

text \<open>A program that runs with enough stack in the user half: \<open>P\<close> holds the pages of the frame, whose contents \<open>A\<close> gives.\<close>

definition has_stack :: "nat set \<Rightarrow> (nat \<Rightarrow> (nat \<Rightarrow> byte) option) \<Rightarrow> ksigaction64 \<Rightarrow> registers64 \<Rightarrow> sigstate \<Rightarrow> bool" where
  "has_stack P A sa r s \<longleftrightarrow> (\<exists>p. cur (us s) = Some p \<and> resv_ok p \<and> regions_plain p) \<and> user_pages P A (umach (us s))
     \<and> 2048 \<le> unat (frame_top sa r s) \<and> unat (frame_top sa r s) \<le> 2 ^ 47
     \<and> (\<forall>a. unat (frame_sp sa r s) \<le> a \<and> a < unat (frame_fpsp sa r s) + 512 \<longrightarrow> a div 4096 \<in> P)
     \<and> length (fpu_regs (sch s)) = 512"

lemma range_pages: "a < b \<Longrightarrow> q \<in> {a div 4096..<(b + 4095) div 4096} \<longleftrightarrow> (\<exists>x. a \<le> x \<and> x < b \<and> x div 4096 = q)" for a b :: nat
proof
  assume "a < b" and q: "q \<in> {a div 4096..<(b + 4095) div 4096}"
  then have "q * 4096 < b" "a < q * 4096 + 4096" by auto
  then show "\<exists>x. a \<le> x \<and> x < b \<and> x div 4096 = q" using \<open>a < b\<close> by (intro exI [of _ "max a (q * 4096)"]) (auto simp: max_def)
next
  assume "a < b" and "\<exists>x. a \<le> x \<and> x < b \<and> x div 4096 = q"
  then obtain x where x: "a \<le> x" "x < b" "x div 4096 = q" by blast
  then have "a div 4096 \<le> q" using div_le_mono by blast
  moreover have "q < (b + 4095) div 4096" using x by linarith
  ultimately show "q \<in> {a div 4096..<(b + 4095) div 4096}" by simp
qed

lemma deliver_spec:
  fixes fa :: u64
  assumes c: "caught sig r sa s" and st: "has_stack P A sa r s"
  defines "sp \<equiv> unat (frame_sp sa r s)" and "fp \<equiv> unat (frame_fpsp sa r s)"
  defines "Q \<equiv> {sp div 4096..<(fp + 512 + 4095) div 4096}"
  defines "g \<equiv> frame_bytes sp fp (frame_words (restorer sa) sig r (to_user_set (mask_back s)) fa (frame_fpsp sa r s)) (fpu_regs (sch s))"
  shows "\<exists>ok r' s'. signal64_deliver sig r fa s = Some (ok, r', s') \<and> table (us s') = table (us s) \<and> sch s' = sch s
     \<and> (Q \<subseteq> dom A \<longrightarrow> ok) \<and> (\<not> ok \<longrightarrow> r' = r \<and> s' = s\<lparr>us := us s'\<rparr>)
     \<and> (ok \<longrightarrow> r' = enter_handler sa sig (frame_sp sa r s) r
         \<and> user_pages P (overlay fp (fp + 512) g (overlay sp (sp + 560) g (backed Q A))) (umach (us s'))
         \<and> blocked_by_task s' = blocked_by_task (set_my_blocked (handler_mask sa sig (my_blocked s)) s))"
proof -
  note c = c [unfolded caught_def] and st = st [unfolded has_stack_def, folded sp_def fp_def]
  obtain p where p: "cur (us s) = Some p" "resv_ok p" "regions_plain p" using st by (elim conjE exE) (rule that)
  have u: "user_pages P A (umach (us s))" and t: "2048 \<le> unat (frame_top sa r s)" "unat (frame_top sa r s) \<le> 2 ^ 47"
    and inP: "\<And>a. sp \<le> a \<Longrightarrow> a < fp + 512 \<Longrightarrow> a div 4096 \<in> P" and L: "length (fpu_regs (sch s)) = 512" using st by simp_all
  note f = frame_place [of sa r s, folded sp_def fp_def]
  have "sp mod 16 mod 8 = sp mod 8" by (rule mod_mod_cancel) simp
  then have lt: "sp < fp + 512" "fp + 512 \<le> 2 ^ 47" "sp mod 8 = 0" using f(2,4,5) [OF t] t(2) by simp_all
  have Q: "q \<in> Q \<longleftrightarrow> (\<exists>x. sp \<le> x \<and> x < fp + 512 \<and> x div 4096 = q)" for q unfolding Q_def by (rule range_pages [OF lt(1)])
  have QP: "Q \<subseteq> P"
  proof
    fix q assume "q \<in> Q"
    then obtain x where "sp \<le> x" "x < fp + 512" "x div 4096 = q" unfolding Q by (elim exE conjE) (rule that)
    then show "q \<in> P" using inP by blast
  qed
  have len: "unat (frame_fpsp sa r s + 512 - frame_sp sa r s) = fp + 512 - sp"
  proof -
    have "unat (frame_fpsp sa r s + 512) = fp + 512" using lt(2) by (simp add: fp_def unat_word_ariths)
    then show ?thesis using lt(1) unat_minus_low [of "frame_sp sa r s" "frame_fpsp sa r s + 512"] by (simp add: sp_def)
  qed
  have rp: "range_present sp (unat (frame_fpsp sa r s + 512 - frame_sp sa r s)) (us s) = present_loop (sp div 4096 * 4096) (fp + 512) (us s)"
    unfolding range_present_def len using lt by (simp add: add64_low page_down_def minus_mod_eq_div_mult)
  obtain ok u1 where u1: "present_loop (sp div 4096 * 4096) (fp + 512) (us s) = Some (ok, u1)" "table u1 = table (us s)"
    "ok \<longrightarrow> user_pages P (backed Q A) (umach u1)" "Q \<subseteq> dom A \<longrightarrow> ok \<and> u1 = us s"
    using present_loop_spec [OF u p lt(2) refl QP [unfolded Q_def]] unfolding Q_def by blast
  have d: "signal64_deliver sig r fa s = (if \<not> ok then Some (False, r, s\<lparr>us := u1\<rparr>)
      else push_frame sa sig r fa (frame_fpsp sa r s) (frame_sp sa r s) (s\<lparr>us := u1\<rparr>))"
  proof -
    have "my_blocked s AND sigbit sig = 0" using c and_sigbit [of "my_blocked s" sig] by blast
    moreover have "\<not> bad_sig sig" "action (my_handlers s) sig s = sa" "handler sa \<noteq> 0" "handler sa \<noteq> SIG64_IGN" "cs r AND 3 = 3" using c by auto
    ultimately show ?thesis using rp [unfolded sp_def] u1(1) [unfolded sp_def fp_def] by (simp add: signal64_deliver_def Let_def fp_def sp_def)
  qed
  show ?thesis
  proof (cases ok)
    case False
    then show ?thesis using d u1(2,4) by auto
  next
    case True
    let ?t = "s\<lparr>us := u1\<rparr>"
    let ?ws = "frame_words (restorer sa) sig r (to_user_set (mask_back s)) fa (frame_fpsp sa r s)"
    have bk: "mask_back ?t = mask_back s" "my_blocked ?t = my_blocked s" by (simp_all add: mask_back_def my_blocked_def Let_def)
    have dom: "x div 4096 \<in> dom (backed Q A)" if "sp \<le> x" "x < fp + length (fpu_regs (sch s))" for x
    proof -
      have "x div 4096 \<in> Q" using that unfolding Q L by blast
      then show ?thesis using backed_dom by blast
    qed
    have w: "sp + 8 * length ?ws \<le> fp" "fp + length (fpu_regs (sch s)) \<le> 2 ^ 47" using f(5) [OF t] lt(2) L by simp_all
    obtain m1 m' where m: "vput_words sp (map unat ?ws) (umach u1) = Some m1" "vput_bytes fp (fpu_regs (sch s)) m1 = Some m'"
      "user_pages P (overlay fp (fp + 512) g (overlay sp (sp + 560) g (backed Q A))) m'"
      using write_frame [OF u1(3) [rule_format, OF True] lt(3) w dom] L by (auto simp: g_def)
    have "\<exists>s'. push_frame sa sig r fa (frame_fpsp sa r s) (frame_sp sa r s) ?t = Some (True, enter_handler sa sig (frame_sp sa r s) r, s')
        \<and> us s' = u1\<lparr>umach := m'\<rparr> \<and> sch s' = sch s \<and> blocked_by_task s' = blocked_by_task (set_my_blocked (handler_mask sa sig (my_blocked s)) s)"
      using m(1,2) take_saved_back [of ?t] unfolding bk
      by (simp add: push_frame_def split_beta sp_def fp_def) (simp add: set_my_blocked_def set_action_def Let_def)
    then show ?thesis using True d u1(2) m(3) by auto
  qed
qed

section \<open>Reading the frame\<close>

lemma frame_bytes_words:
  assumes "sp + 8 * length ws \<le> fp" and "k < length ws" and "j < 8"
  shows "frame_bytes sp fp ws fx (sp + 8 * k + j) = byte_of (ws ! k) j"
  using assms by (simp add: frame_bytes_def)

lemma frame_read:
  assumes u: "user_pages P (overlay fp (fp + n) g (overlay sp (sp + l) g (backed Q A))) m" and a: "sp \<le> a \<and> a < sp + l \<or> fp \<le> a \<and> a < fp + n"
    and Q: "a div 4096 \<in> Q" "Q \<subseteq> P"
  shows "vget8 a m = Some (g a)"
proof -
  have "a div 4096 \<in> P" using Q by blast
  moreover obtain b where "ubyte (backed Q A) a = Some b" using Q(1) backed_dom [of Q A] by (fastforce simp: ubyte_def)
  ultimately show ?thesis using vget8_view [OF u] a by (auto simp: overlay_byte)
qed

text \<open>A range that is mapped is found present, and nothing changes.\<close>

lemma present_mapped:
  assumes "user_pages P B (umach u)" and "end \<le> 2 ^ 47" and "n = (end + 4095) div 4096" and "{i..<n} \<subseteq> dom B"
  shows "present_loop (i * 4096) end u = Some (True, u)"
  using assms(4)
proof (induction "n - i" arbitrary: i)
  case 0
  then have "end \<le> i * 4096" using assms(3) by simp
  then show ?case by (subst present_loop.simps) simp
next
  case (Suc d)
  have i: "i < n" "i * 4096 < end" "d = n - Suc i" using Suc.hyps(2) assms(3) by auto
  have "i \<in> {i..<n}" using i(1) by simp
  then obtain c where c: "B i = Some c" using Suc.prems by blast
  obtain f where f: "data_frame_of (umach u) i f" using user_pagesD(5) [OF assms(1) c] by blast
  have pg: "of_nat (i * 4096) = page i" by (simp only: page_def)
  have t: "paging64_translate (of_nat (i * 4096)) (umach u) = Some (PAGING64_OK, Some (of_nat (f * 4096)))"
    unfolding pg using translate_page(2) [OF assms(1) user_pagesD(6) [OF assms(1) c] f] .
  have "{Suc i..<n} \<subseteq> dom B" by (rule subset_trans [OF _ Suc.prems]) simp
  then have "present_loop (Suc i * 4096) end u = Some (True, u)" by (rule Suc.hyps(1) [OF i(3)])
  moreover have "add64 (i * 4096) 4096 = Suc i * 4096" using i(2) assms(2) by (simp add: add64_low)
  ultimately show ?case using t i(2) by (subst present_loop.simps) (simp del: of_nat_mult)
qed

lemma unat_fp_aligned: "unat fp mod 64 = 0 \<Longrightarrow> fp AND 15 = (0 :: u64)"
proof -
  assume "unat fp mod 64 = 0"
  then have "unat fp mod 16 = 0" using mod_mod_cancel [of 16 64 "unat fp"] by simp
  moreover have "(15 :: u64) = mask 4" by (simp add: mask_eq_exp_minus_1)
  then have "fp AND 15 = take_bit 4 fp" by (simp only: take_bit_eq_mask)
  then have "unat (fp AND 15) = unat fp mod 16" by (simp only: unsigned_take_bit_eq) (simp add: take_bit_eq_mod)
  ultimately show ?thesis by (simp add: unsigned_eq_0_iff)
qed

lemma restore_fpu_spec:
  assumes u: "user_pages P B (umach (us t))" and fp: "unat fp mod 64 = 0" "0 < unat fp" "unat fp + 512 \<le> 2 ^ 47"
    and P: "\<And>k. k < 512 \<Longrightarrow> (unat fp + k) div 4096 \<in> P" and rd: "\<And>k. k < 512 \<Longrightarrow> vget8 (unat fp + k) (umach (us t)) = Some (fx ! k)" and fx: "length fx = 512"
  shows "restore_fpu fp t = Some (t\<lparr>sch := (sch t)\<lparr>fpu_regs := fx[26 := 0, 27 := 0]\<rparr>\<rparr>)"
proof -
  have dom: "{unat fp div 4096..<(unat fp + 512 + 4095) div 4096} \<subseteq> dom B"
  proof
    fix q assume "q \<in> {unat fp div 4096..<(unat fp + 512 + 4095) div 4096}"
    then obtain x where x: "unat fp \<le> x" "x < unat fp + 512" "x div 4096 = q" using range_pages [of "unat fp" "unat fp + 512" q] by auto
    then have "ubyte B x = Some (fx ! (x - unat fp))" using vget8_view [OF u, of x] P [of "x - unat fp"] rd [of "x - unat fp"] by simp
    then show "q \<in> dom B" using x(3) by (auto simp: ubyte_def)
  qed
  have "range_present (unat fp) 512 (us t) = Some (True, us t)"
    using present_mapped [OF u fp(3) refl dom] fp by (simp add: range_present_def add64_low page_down_def minus_mod_eq_div_mult)
  moreover have "vget_bytes (unat fp) 512 (umach (us t)) = Some fx"
    using vget_bytes_at [OF fp(3) rd] fx by (simp add: map_nth [of fx, unfolded fx] del: upt_Suc)
  moreover have "fp \<noteq> 0" using fp(2) by auto
  ultimately show ?thesis using unat_fp_aligned [OF fp(1)] by (simp add: restore_fpu_def)
qed

lemma sigreturn_spec:
  assumes sp: "sp + 560 \<le> 2 ^ 47" and rd: "\<And>k j. k < 70 \<Longrightarrow> j < 8 \<Longrightarrow> vget8 (sp + 8 * k + j) (umach (us t)) = Some (byte_of (frame_words pc sig r mk fa fp ! k) j)"
    and fpu: "restore_fpu fp (set_my_blocked (from_user_set mk) t) = Some t1"
  shows "signal64_sigreturn (sp + 8) t =
     Some (r\<lparr>int_no := 0, err_code := 0, cs := 0x23, ss := 0x1B, rflags := (rflags r AND 0x0CD5) OR 0x202\<rparr>, t1\<lparr>returns := add64 (returns t1) 1\<rparr>)"
proof -
  let ?ws = "frame_words pc sig r mk fa fp"
  have "vget_words (sp + 48) 18 (umach (us t)) = Some (take 18 (drop 6 ?ws))"
  proof (rule vget_words_at)
    show "vget8 (sp + 48 + 8 * k + j) (umach (us t)) = Some (byte_of (drop 6 ?ws ! k) j)" if "k < 18" "j < 8" for k j
      using rd [of "6 + k" j] that by (simp add: algebra_simps)
  qed (use sp in simp_all)
  moreover have "vget64 (sp + 304) (umach (us t)) = Some (?ws ! 38)" using vget64_at [of "sp + 304" "umach (us t)" "?ws ! 38"] rd [of 38] sp by simp
  moreover have "vget64 (sp + 232) (umach (us t)) = Some (?ws ! 29)" using vget64_at [of "sp + 232" "umach (us t)" "?ws ! 29"] rd [of 29] sp by simp
  moreover have "?ws ! 38 = mk" "?ws ! 29 = fp" by (simp_all add: frame_words_def ucontext_words_def sigcontext_words_def nth_append)
  moreover have "take 18 (drop 6 ?ws) = [r8 r, r9 r, r10 r, r11 r, r12 r, r13 r, r14 r, r15 r, rdi r, rsi r, rbp r, rbx r, rdx r, rax r, rcx r, rsp r, rip r, rflags r]"
    by (simp add: frame_words_def ucontext_words_def sigcontext_words_def)
  moreover have "add64 (sp + 8) 40 = sp + 48" "add64 (sp + 8) 296 = sp + 304" "add64 (sp + 8) 224 = sp + 232" using sp by (simp_all add: add64_low)
  ultimately show ?thesis using fpu by (cases r) (simp add: signal64_sigreturn_def Let_def)
qed

lemma user_set_back: "mask_ok b \<Longrightarrow> from_user_set (to_user_set b) = b"
proof (rule bit_word_eqI)
  fix n assume "mask_ok b" and "n < LENGTH(64)"
  then show "bit (from_user_set (to_user_set b)) n = bit b n"
    by (cases n) (auto simp: bit_user_set to_user_set_def bit_drop_bit_eq mask_ok_def simp del: drop_bit_Suc)
qed

lemma mask_back_ok: "sig_ok s \<Longrightarrow> mask_ok (mask_back s)"
  using mask_ok_mine [of s] sig_okD(6) [of s] good_task by (simp add: mask_back_def Let_def)

section \<open>Properties\<close>

text \<open>C25: Entering a handler. Delivery of a signal that has a handler and is not blocked ends. When the stack cannot be backed nothing changes for the
  program. Otherwise, and always when the stack is already there, the program goes on in the handler with the number, the
  addresses of the signal information and of the context as arguments and the stack as after a call; on the stack, below
  the red zone or at the top of the alternate stack, lie the return address, the context of the
  interrupted code with the mask to go back to, and its floating-point state; every other byte is as it was, or zero where a page is
  new; and the mask is the handler's.\<close>

theorem signal64_deliver_correct:
  assumes c: "caught sig r sa s" and st: "has_stack P A sa r s" and ok: "sig_ok s"
    and sp: "sp = unat (frame_sp sa r s)" and fp: "fp = unat (frame_fpsp sa r s)"
  shows "\<exists>entered r' s'. signal64_deliver sig r fa s = Some (entered, r', s')
     \<and> ((\<forall>a. sp \<le> a \<and> a < fp + 512 \<longrightarrow> A (a div 4096) \<noteq> None) \<longrightarrow> entered)
     \<and> (if entered
        then rip r' = handler sa \<and> unat (rsp r') = sp \<and> sp mod 16 = 8 \<and> sp + 560 \<le> fp \<and> fp + 512 \<le> unat (frame_top sa r s)
          \<and> rdi r' = of_int sig \<and> unat (rsi r') = sp + 432 \<and> unat (rdx r') = sp + 8
          \<and> (\<forall>i < 70. vget64 (sp + 8 * i) (umach (us s')) = Some (frame_words (restorer sa) sig r (to_user_set (mask_back s)) fa (frame_fpsp sa r s) ! i))
          \<and> vget_bytes fp 512 (umach (us s')) = Some (fpu_regs (sch s))
          \<and> (\<forall>a. a div 4096 \<in> P \<and> (a < sp \<or> fp + 512 \<le> a) \<longrightarrow>
               vget8 a (umach (us s')) = (case vget8 a (umach (us s)) of Some b \<Rightarrow> Some b
                 | None \<Rightarrow> if \<exists>x. sp \<le> x \<and> x < fp + 512 \<and> x div 4096 = a div 4096 then Some 0 else None))
          \<and> my_blocked s' = (if my_task s < 0 then 0 else handler_mask sa sig (my_blocked s))
        else r' = r \<and> s' = s\<lparr>us := us s'\<rparr> \<and> table (us s') = table (us s))"
proof -
  let ?ws = "frame_words (restorer sa) sig r (to_user_set (mask_back s)) fa (frame_fpsp sa r s)"
  let ?g = "frame_bytes sp fp ?ws (fpu_regs (sch s))"
  define Q where "Q = {sp div 4096..<(fp + 512 + 4095) div 4096}"
  have t: "2048 \<le> unat (frame_top sa r s)" "unat (frame_top sa r s) \<le> 2 ^ 47" and L: "length (fpu_regs (sch s)) = 512"
    and inP: "\<And>a. sp \<le> a \<Longrightarrow> a < fp + 512 \<Longrightarrow> a div 4096 \<in> P" and u: "user_pages P A (umach (us s))"
    using st by (simp_all add: has_stack_def sp fp)
  note f = frame_place [OF t, folded sp fp]
  have lt: "sp < fp + 512" "fp + 512 \<le> 2 ^ 47" using f(2,5) t(2) by simp_all
  have Q: "q \<in> Q \<longleftrightarrow> (\<exists>x. sp \<le> x \<and> x < fp + 512 \<and> x div 4096 = q)" for q unfolding Q_def by (rule range_pages [OF lt(1)])
  have QP: "Q \<subseteq> P" unfolding subset_iff Q using inP by blast
  obtain entered r' s' where d: "signal64_deliver sig r fa s = Some (entered, r', s')" "table (us s') = table (us s)" "sch s' = sch s"
    "Q \<subseteq> dom A \<longrightarrow> entered" "\<not> entered \<longrightarrow> r' = r \<and> s' = s\<lparr>us := us s'\<rparr>" "entered \<longrightarrow> r' = enter_handler sa sig (frame_sp sa r s) r
      \<and> user_pages P (overlay fp (fp + 512) ?g (overlay sp (sp + 560) ?g (backed Q A))) (umach (us s'))
      \<and> blocked_by_task s' = blocked_by_task (set_my_blocked (handler_mask sa sig (my_blocked s)) s)"
    using deliver_spec [OF c st, of fa, folded sp fp, folded Q_def] by (elim exE conjE) (rule that)
  have there: "entered" if "\<forall>a. sp \<le> a \<and> a < fp + 512 \<longrightarrow> A (a div 4096) \<noteq> None"
    using that d(4) unfolding subset_iff Q by blast
  show ?thesis
  proof (cases "entered")
    case False
    then show ?thesis using d(1,2,5) there by auto
  next
    case True
    have v: "user_pages P (overlay fp (fp + 512) ?g (overlay sp (sp + 560) ?g (backed Q A))) (umach (us s'))" using d(6) True by blast
    have rd: "vget8 a (umach (us s')) = Some (?g a)" if "sp \<le> a \<and> a < sp + 560 \<or> fp \<le> a \<and> a < fp + 512" for a
    proof (rule frame_read [OF v that _ QP])
      show "a div 4096 \<in> Q" unfolding Q using that f(5) by (intro exI [of _ a]) auto
    qed
    have regs: "r' = enter_handler sa sig (frame_sp sa r s) r" using d(6) True by blast
    have "unat (frame_sp sa r s + 432) = sp + 432" "unat (frame_sp sa r s + 8) = sp + 8" using lt f(5) by (simp_all add: sp unat_word_ariths)
    moreover have "vget64 (sp + 8 * i) (umach (us s')) = Some (?ws ! i)" if "i < 70" for i
      using that f(5) lt rd [of "sp + 8 * i + _"] frame_bytes_words [of sp ?ws fp i] by (intro vget64_at) simp_all
    moreover have "vget_bytes fp 512 (umach (us s')) = Some (fpu_regs (sch s))"
      using vget_bytes_at [OF lt(2), of "umach (us s')" "\<lambda>k. fpu_regs (sch s) ! k"] rd L
      by (simp add: frame_bytes_def map_nth [of "fpu_regs (sch s)", unfolded L] del: upt_Suc)
    moreover have "vget8 a (umach (us s')) = (case vget8 a (umach (us s)) of Some b \<Rightarrow> Some b
        | None \<Rightarrow> if \<exists>x. sp \<le> x \<and> x < fp + 512 \<and> x div 4096 = a div 4096 then Some 0 else None)" if "a div 4096 \<in> P" "a < sp \<or> fp + 512 \<le> a" for a
    proof -
      have "ubyte (backed Q A) a = (case ubyte A a of Some b \<Rightarrow> Some b | None \<Rightarrow> if a div 4096 \<in> Q then Some 0 else None)"
        by (simp add: ubyte_def backed_def split: option.splits)
      then show ?thesis using vget8_view [OF v that(1)] vget8_view [OF u that(1)] that(2) f(5) unfolding Q by (auto simp: overlay_byte)
    qed
    moreover have "my_blocked s' = (if my_task s < 0 then 0 else handler_mask sa sig (my_blocked s))"
    proof -
      have "my_blocked s' = my_blocked (set_my_blocked (handler_mask sa sig (my_blocked s)) s)" using d(3,6) True by (simp add: my_blocked_def Let_def)
      then show ?thesis using my_blocked_set [OF sig_okD(3) [OF ok]] by (auto simp: bad_task_def my_task_def Let_def split: if_splits)
    qed
    ultimately show ?thesis using d(1) True f regs by (intro exI [of _ "entered"] exI [of _ r'] exI [of _ s']) (simp add: enter_handler_def sp)
  qed
qed

text \<open>C24: Returning undoes delivery. Whatever the handler did - to the registers, the floating-point registers, the mask, the memory outside its
  frame - returning through the frame as delivery left it gives back every general register, the stack pointer and the place the
  program was interrupted at, the flags a program may set with interrupts on, the selectors of the program, the mask from
  before, that of before the suspended call where there was one, and the floating-point state with the reserved
  half of \<open>MXCSR\<close> cleared.\<close>

theorem signal64_return_undoes_delivery:
  assumes c: "caught sig r sa s" and st: "has_stack P A sa r s" and ok: "sig_ok s" "sig_ok t"
    and d: "signal64_deliver sig r fa s = Some (True, r', s')"
    and cur: "sched64_current (sch t) = sched64_current (sch s)" and u: "user_pages P B (umach (us t))"
    and same: "\<forall>a. unat (rsp r') \<le> a \<and> a < unat (frame_fpsp sa r s) + 512 \<longrightarrow> vget8 a (umach (us t)) = vget8 a (umach (us s'))"
  shows "\<exists>t'. signal64_sigreturn (unat (rsp r') + 8) t
       = Some (r\<lparr>int_no := 0, err_code := 0, cs := 0x23, ss := 0x1B, rflags := (rflags r AND 0x0CD5) OR 0x202\<rparr>, t')
     \<and> my_blocked t' = mask_back s \<and> fpu_regs (sch t') = (fpu_regs (sch s))[26 := 0, 27 := 0] \<and> us t' = us t"
proof -
  define sp fp where "sp = unat (frame_sp sa r s)" and "fp = unat (frame_fpsp sa r s)"
  let ?mk = "to_user_set (mask_back s)"
  let ?ws = "frame_words (restorer sa) sig r ?mk fa (frame_fpsp sa r s)"
  let ?g = "frame_bytes sp fp ?ws (fpu_regs (sch s))"
  define Q where "Q = {sp div 4096..<(fp + 512 + 4095) div 4096}"
  have t: "2048 \<le> unat (frame_top sa r s)" "unat (frame_top sa r s) \<le> 2 ^ 47" and L: "length (fpu_regs (sch s)) = 512"
    and inP: "\<And>a. sp \<le> a \<Longrightarrow> a < fp + 512 \<Longrightarrow> a div 4096 \<in> P"
    using st by (simp_all add: has_stack_def sp_def fp_def)
  note f = frame_place [OF t, folded sp_def fp_def]
  have lt: "sp < fp + 512" "fp + 512 \<le> 2 ^ 47" using f(2,5) t(2) by simp_all
  have Q: "q \<in> Q \<longleftrightarrow> (\<exists>x. sp \<le> x \<and> x < fp + 512 \<and> x div 4096 = q)" for q unfolding Q_def by (rule range_pages [OF lt(1)])
  have QP: "Q \<subseteq> P" unfolding subset_iff Q using inP by blast
  have e: "r' = enter_handler sa sig (frame_sp sa r s) r"
    and v: "user_pages P (overlay fp (fp + 512) ?g (overlay sp (sp + 560) ?g (backed Q A))) (umach (us s'))"
    using deliver_spec [OF c st, of fa, folded sp_def fp_def, folded Q_def] d by auto
  have rsp: "unat (rsp r') = sp" by (simp add: e enter_handler_def sp_def)
  have rd: "vget8 a (umach (us t)) = Some (?g a)" if "sp \<le> a \<and> a < sp + 560 \<or> fp \<le> a \<and> a < fp + 512" for a
  proof -
    have a: "sp \<le> a" "a < fp + 512" using that f(5) by auto
    then have "a div 4096 \<in> Q" unfolding Q by blast
    then show ?thesis using frame_read [OF v that _ QP] same a rsp by (simp add: fp_def)
  qed
  let ?t = "set_my_blocked (from_user_set ?mk) t"
  let ?t1 = "?t\<lparr>sch := (sch ?t)\<lparr>fpu_regs := (fpu_regs (sch s))[26 := 0, 27 := 0]\<rparr>\<rparr>"
  have "restore_fpu (frame_fpsp sa r s) ?t = Some ?t1"
  proof (rule restore_fpu_spec [where P = P and B = B])
    show "vget8 (unat (frame_fpsp sa r s) + k) (umach (us ?t)) = Some (fpu_regs (sch s) ! k)" if "k < 512" for k
      using rd [of "fp + k"] that by (simp add: frame_bytes_def fp_def)
    show "(unat (frame_fpsp sa r s) + k) div 4096 \<in> P" if "k < 512" for k using inP [of "fp + k"] f(5) that by (simp add: fp_def)
  qed (use u L f(1,3) lt(2) in \<open>simp_all add: fp_def\<close>)
  moreover have "sp + 560 \<le> 2 ^ 47" using f(5) lt(2) by simp
  moreover have "vget8 (sp + 8 * k + j) (umach (us t)) = Some (byte_of (?ws ! k) j)" if "k < 70" "j < 8" for k j
    using rd [of "sp + 8 * k + j"] frame_bytes_words [of sp ?ws fp k j] f(5) that by simp
  ultimately have "signal64_sigreturn (sp + 8) t =
      Some (r\<lparr>int_no := 0, err_code := 0, cs := 0x23, ss := 0x1B, rflags := (rflags r AND 0x0CD5) OR 0x202\<rparr>, ?t1\<lparr>returns := add64 (returns ?t1) 1\<rparr>)"
    by (intro sigreturn_spec) simp_all
  moreover have "my_blocked (?t1\<lparr>returns := n\<rparr>) = mask_back s" for n
  proof -
    have a: "my_blocked (?t1\<lparr>returns := n\<rparr>) = my_blocked ?t" by (simp add: my_blocked_def Let_def sched64_current_def)
    have b: "mask_back s = 0" if "bad_task (sched64_current (sch s))" using that by (simp add: mask_back_def my_blocked_def Let_def)
    have "my_blocked ?t = (if bad_task (sched64_current (sch t)) then 0 else from_user_set ?mk)" by (rule my_blocked_set [OF sig_okD(3) [OF ok(2)]])
    also have "\<dots> = mask_back s" using b by (simp add: cur user_set_back [OF mask_back_ok [OF ok(1)]])
    finally show ?thesis unfolding a .
  qed
  ultimately show ?thesis unfolding rsp by simp
qed

section \<open>Witnesses\<close>

definition regs_demo :: registers64 where
  "regs_demo = zero_regs\<lparr>rsp := 0x2000, cs := 0x23, rip := 0x400200, rax := 42\<rparr>"

lemma sig_demo_caught: "caught 11 regs_demo catch_demo sig_demo"
proof -
  have "action (my_handlers sig_demo) 11 sig_demo = catch_demo" by (simp add: action_def my_handlers_def sig_demo_def NSIG_def)
  moreover have "my_blocked sig_demo = 4" using sig_demo_current(1,2) by (simp add: my_blocked_def sig_demo_def SCHED64_MAX_TASKS_def)
  ultimately show ?thesis by (simp add: caught_def bad_sig_def NSIG_def catch_demo_def SIG64_IGN_def regs_demo_def)
qed

lemma sig_demo_place:
  "unat (frame_top catch_demo regs_demo sig_demo) = 0x1F80" "unat (frame_fpsp catch_demo regs_demo sig_demo) = 0x1D80"
  "unat (frame_sp catch_demo regs_demo sig_demo) = 0x1B48"
proof -
  have t: "frame_top catch_demo regs_demo sig_demo = 0x1F80"
    by (simp add: frame_top_def catch_demo_def SA_RESTORER_def SA_ONSTACK_def has_def regs_demo_def)
  then have f: "frame_fpsp catch_demo regs_demo sig_demo = 0x1D80" by (simp add: frame_fpsp_def)
  then show "unat (frame_sp catch_demo regs_demo sig_demo) = 0x1B48" by (simp add: frame_sp_def SIGFRAME_BYTES_def)
  show "unat (frame_top catch_demo regs_demo sig_demo) = 0x1F80" "unat (frame_fpsp catch_demo regs_demo sig_demo) = 0x1D80" by (simp_all add: t f)
qed

lemma cow_demo_pages: "user_pages {1} [1 \<mapsto> peek cow_demo 5] cow_demo"
proof -
  have p: "page 1 = 0x1000" "page (Suc 0) = 0x1000" by (simp_all add: page_def)
  have "data_frame_of cow_demo 1 5" using cow_demo_mmu cow_demo_leaf(7) unfolding data_frame_of_def p by (simp add: cow_demo_owners cow_demo_entries)
  then show ?thesis using cow_demo_inv cow_demo_private p by (auto simp: user_pages_def)
qed

lemma sig_demo_stack: "has_stack {1} [1 \<mapsto> peek cow_demo 5] catch_demo regs_demo sig_demo"
proof -
  have "cur (us sig_demo) = Some uproc_demo" using uspace_demo_cur by (simp add: sig_demo_def cur_def)
  moreover have "regions_plain uproc_demo" by (auto simp: regions_plain_def resv_at_def uproc_demo_regs ADDR_MASK_def split: if_splits)
  moreover have "a div 4096 = 1" if "0x1B48 \<le> a" "a < 0x1D80 + 512" for a :: nat using that by auto
  ultimately show ?thesis
    using uproc_demo_ok(1) cow_demo_pages sig_demo_place unfolding has_stack_def by (auto simp: sig_demo_def)
qed

theorem signal64_deliver_correct_witness:
  "\<exists>r' s'. signal64_deliver 11 regs_demo 0x1234 sig_demo = Some (True, r', s') \<and> rip r' = 0x400000 \<and> unat (rsp r') = 0x1B48
     \<and> vget64 0x1B48 (umach (us s')) = Some 0x400100"
proof -
  have "a div 4096 = 1" if "0x1B48 \<le> a" "a < 0x1D80 + 512" for a :: nat using that by auto
  then have "\<forall>a :: nat. 0x1B48 \<le> a \<and> a < 0x1D80 + 512 \<longrightarrow> [1 \<mapsto> peek cow_demo 5] (a div 4096) \<noteq> None" by auto
  then show ?thesis
    using signal64_deliver_correct [OF sig_demo_caught sig_demo_stack sig_demo_ok, OF sig_demo_place(3) [symmetric] sig_demo_place(2) [symmetric], of "0x1234"]
    by (fastforce simp: catch_demo_def frame_words_def)
qed

theorem signal64_return_undoes_delivery_witness:
  "\<exists>r' s' out t'. signal64_deliver 11 regs_demo 0x1234 sig_demo = Some (True, r', s') \<and> signal64_sigreturn (unat (rsp r') + 8) s' = Some (out, t')
     \<and> rip out = 0x400200 \<and> rax out = 42 \<and> rsp out = 0x2000 \<and> my_blocked t' = 4"
proof -
  have one: "a div 4096 = 1" if "0x1B48 \<le> a" "a < 0x1D80 + 512" for a :: nat using that by auto
  have Q: "{unat (frame_sp catch_demo regs_demo sig_demo) div 4096..<(unat (frame_fpsp catch_demo regs_demo sig_demo) + 512 + 4095) div 4096}
      \<subseteq> dom [1 \<mapsto> peek cow_demo 5]" unfolding sig_demo_place by auto
  obtain r' s' B where d: "signal64_deliver 11 regs_demo 0x1234 sig_demo = Some (True, r', s')" "sch s' = sch sig_demo" "user_pages {1} B (umach (us s'))"
    using deliver_spec [OF sig_demo_caught sig_demo_stack, of "0x1234"] Q by (elim exE conjE) (simp only: True_implies_equals, blast)
  have ok: "sig_ok s'" using deliver_ok [OF sig_demo_ok d(1)] .
  have "mask_back sig_demo = 4"
    using sig_demo_current(1,2) by (simp add: mask_back_def my_blocked_def sig_demo_def SCHED64_MAX_TASKS_def)
  then show ?thesis
    using signal64_return_undoes_delivery [OF sig_demo_caught sig_demo_stack sig_demo_ok ok d(1) _ d(3)] d(1,2)
    by (fastforce simp: regs_demo_def)
qed

end
