(* ===== verification/Files64.thy ===== *)
theory Files64
  imports Signal64 Sock64 Proc64_Table Vmspace64
begin

text \<open>
  \<^verbatim>\<open>kernel/syscall64.c\<close>, the descriptor layer: the calls that make, copy, close, read and write descriptors, and the
  waiting they do.

  The state joins the components: the signals with the scheduler, the user memory with the process table, and the sockets with the pipes and
  the file system. \<open>fds\<close> in the code is the table of the current process, \<open>fdt\<close> and \<open>set_fd\<close> here; the code follows a null pointer when
  there is no current process, and so does \<open>me\<close> leave the table. \<open>umem\<close> is the memory of the caller as the kernel sees
  it through the caller's pointers, with pages brought in on the way; the code does not check these pointers.

  The components' states each carry the machine, and the scheduler's the process table as well. Here there is one of each, those of the user-memory
  state: \<open>kss\<close> and \<open>ksch\<close> are the sockets and the scheduler with them filled in, and \<open>set_kss\<close> and \<open>set_ksch\<close> write them back.

  A call returns a value (\<open>Val\<close>), or leaves through \<open>sched64_resume\<close> with the frame it resumes (\<open>Resume\<close>) or through
  \<open>enter_user_mode64_abort\<close>, which ends the run (\<open>Abort\<close>). \<open>None\<close> is a
  loop that does not end, as in the components. An argument \<open>ev\<close> gives the timer interrupts taken while the machine idles, as in the scheduler. The windows that \<open>wmdev64_close\<close> is told
  to close are a log. Lines printed leave no trace, but the flag that a message has been printed is kept.
\<close>

unbundle bit_operations_syntax

section \<open>State\<close>

definition FD_MAX :: nat where "FD_MAX = PROC64_FD_MAX"
definition FD64_SIGNALFD :: nat where "FD64_SIGNALFD = 3"
definition FD64_NETLINK :: nat where "FD64_NETLINK = 4"
definition RAMFS64_DEV_WM :: nat where "RAMFS64_DEV_WM = 7"
definition RAMFS64_DEV_SOCK :: nat where "RAMFS64_DEV_SOCK = 4"
definition O_RDWR :: u64 where "O_RDWR = 2"
definition O_NONBLOCK :: u64 where "O_NONBLOCK = 0x800"
definition O_CLOEXEC :: u64 where "O_CLOEXEC = 0x80000"

record syscall64_args =
  arg_nr :: u64
  a1 :: u64
  a2 :: u64
  a3 :: u64
  a4 :: u64
  a5 :: u64
  a6 :: u64
  arg_rbx :: u64
  arg_rbp :: u64
  arg_r12 :: u64
  arg_r13 :: u64
  arg_r14 :: u64
  arg_r15 :: u64
  ret_rflags :: u64
  ret_rip :: u64

text \<open>A write that was interrupted by a full pipe, kept against the call it belongs to.\<close>

record wprog64 =
  w_active :: bool
  w_nr :: u64
  w_fd :: nat
  w_buf :: u64
  w_len :: u64
  w_done :: nat

record kstate =
  sigs :: sigstate
  ksock :: sock_state
  umem :: memory
  said_fds :: bool
  wprog :: "wprog64 list"
  wait_deadline :: "nat list"
  wait_call :: "u64 list"
  wait_pending :: "bool list"
  clear_child_tid :: "u64 list"
  saved_user_rsp :: u64
  pipes_made :: nat
  socketpairs_made :: nat
  sockets_made :: nat
  wm_closed :: "int list"
  vms :: vmstate
  exit_code :: u64
  leader_pid :: int
  report_pid :: int
  leader_exited :: bool
  forks :: nat
  vforks :: nat
  last_fork_frames :: nat
  thread_exits :: nat
  futex_wakes :: nat
  oom_kills :: nat

datatype 'a flow = Val 'a | Resume registers64 | Abort

type_synonym events = "nat \<Rightarrow> registers64 list"

definition andthen :: "('a flow \<times> kstate) option \<Rightarrow> ('a \<Rightarrow> kstate \<Rightarrow> ('b flow \<times> kstate) option) \<Rightarrow> ('b flow \<times> kstate) option" where
  "andthen m f = do {
     (r, k) \<leftarrow> m;
     case r of Val x \<Rightarrow> f x k | Resume fr \<Rightarrow> Some (Resume fr, k) | Abort \<Rightarrow> Some (Abort, k)
   }"

definition ptab :: "kstate \<Rightarrow> proc_state" where
  "ptab k = table (us (sigs k))"

definition set_ptab :: "proc_state \<Rightarrow> kstate \<Rightarrow> kstate" where
  "set_ptab t k = k\<lparr>sigs := (sigs k)\<lparr>us := (us (sigs k))\<lparr>table := t\<rparr>\<rparr>\<rparr>"

definition with_machine :: "machine \<Rightarrow> ramfs \<Rightarrow> ramfs" where
  "with_machine m f = f\<lparr>kh := (kh f)\<lparr>mach := m\<rparr>\<rparr>"

definition kss :: "kstate \<Rightarrow> sock_state" where
  "kss k = (ksock k)\<lparr>ps := (ps (ksock k))\<lparr>fs := with_machine (umach (us (sigs k))) (fs (ps (ksock k)))\<rparr>\<rparr>"

definition set_kss :: "sock_state \<Rightarrow> kstate \<Rightarrow> kstate" where
  "set_kss q k = k\<lparr>ksock := q, sigs := (sigs k)\<lparr>us := (us (sigs k))\<lparr>umach := mach (kh (fs (ps q)))\<rparr>\<rparr>\<rparr>"

definition ksch :: "kstate \<Rightarrow> sched" where
  "ksch k = (sch (sigs k))\<lparr>ptable := ptab k, smach := umach (us (sigs k))\<rparr>"

definition set_ksch :: "sched \<Rightarrow> kstate \<Rightarrow> kstate" where
  "set_ksch s k = k\<lparr>sigs := (sigs k)\<lparr>sch := s, us := (us (sigs k))\<lparr>table := ptable s, umach := smach s\<rparr>\<rparr>\<rparr>"

abbreviation kps :: "kstate \<Rightarrow> pipe_state" where "kps k \<equiv> ps (kss k)"
abbreviation kfs :: "kstate \<Rightarrow> ramfs" where "kfs k \<equiv> fs (kps k)"

definition set_kps :: "pipe_state \<Rightarrow> kstate \<Rightarrow> kstate" where
  "set_kps p k = set_kss ((kss k)\<lparr>ps := p\<rparr>) k"

definition set_kfs :: "ramfs \<Rightarrow> kstate \<Rightarrow> kstate" where
  "set_kfs f k = set_kps ((kps k)\<lparr>fs := f\<rparr>) k"

definition me :: "kstate \<Rightarrow> nat" where
  "me k = (case proc64_current (ptab k) of Some i \<Rightarrow> i | None \<Rightarrow> PROC64_MAX)"

definition fdt :: "kstate \<Rightarrow> nat \<Rightarrow> proc64_fd" where
  "fdt k fd = fds (procs (ptab k) ! me k) ! fd"

definition set_fd :: "nat \<Rightarrow> (proc64_fd \<Rightarrow> proc64_fd) \<Rightarrow> kstate \<Rightarrow> kstate" where
  "set_fd fd f k = set_ptab (proc_upd (me k) (\<lambda>p. p\<lparr>fds := (fds p)[fd := f (fds p ! fd)]\<rparr>) (ptab k)) k"

text \<open>The test most calls begin with.\<close>

definition no_fd :: "u64 \<Rightarrow> kstate \<Rightarrow> bool" where
  "no_fd a k \<longleftrightarrow> unat a \<ge> FD_MAX \<or> \<not> fd_used (fdt k (unat a))"

definition c_int :: "u64 \<Rightarrow> int" where
  "c_int w = sint (ucast w :: 32 word)"

definition store_int :: "u64 \<Rightarrow> int \<Rightarrow> kstate \<Rightarrow> kstate" where
  "store_int a v k = k\<lparr>umem := write_bytes (umem k) (unat a) (le32 (nat (v mod 2 ^ 32)))\<rparr>"

section \<open>The standard descriptors and paths\<close>

definition open_std_fd :: "int \<Rightarrow> proc64_fd \<Rightarrow> proc64_fd" where
  "open_std_fd n d = d\<lparr>fd_kind := FD64_FILE, fd_node := n, fd_pos := 0, fd_rx := -1, fd_tx := -1, fd_sock := -1,
     fd_nonblock := False, fd_cloexec := False, fd_used := True\<rparr>"

definition syscall64_open_std :: "kstate \<Rightarrow> kstate option" where
  "syscall64_open_std k = do {
     null_node \<leftarrow> ramfs64_lookup ''/dev/null'' (kfs k);
     con_node \<leftarrow> ramfs64_lookup ''/dev/console'' (kfs k);
     Some (fold (\<lambda>i k. let node = (if i = 0 then null_node else con_node)
                       in if node < 0 then k else (let k = set_fd i (open_std_fd node) k in set_kfs (ramfs64_ref_node node (kfs k)) k))
             [0..<3] k)
   }"

definition syscall64_reset_files :: "kstate \<Rightarrow> kstate option" where
  "syscall64_reset_files k =
     (if proc64_current (ptab k) = None then Some k
      else syscall64_open_std (fold (\<lambda>i. set_fd i (\<lambda>d. d\<lparr>fd_used := False\<rparr>)) [0..<FD_MAX] k))"

definition syscall64_set_exe_path :: "string \<Rightarrow> kstate \<Rightarrow> kstate" where
  "syscall64_set_exe_path path k =
     (case proc64_current (ptab k) of
        None \<Rightarrow> k
      | Some i \<Rightarrow> set_ptab (proc_upd i (\<lambda>p. p\<lparr>exe_path := strlcpy PROC64_PATH_MAX path\<rparr>) (ptab k)) k)"

text \<open>Appending characters to the \<open>n\<close> already in the buffer, as long as one place is left for the end.\<close>

fun path_append :: "string \<Rightarrow> string \<Rightarrow> int + string" where
  "path_append out [] = Inr out"
| "path_append out (c # xs) = (if length out + 1 \<ge> PROC64_PATH_MAX then Inl (-36) else path_append (out @ [c]) xs)"

definition abs_path :: "string option \<Rightarrow> kstate \<Rightarrow> int + string" where
  "abs_path inp k =
     (case inp of
        None \<Rightarrow> Inl (-14)
      | Some [] \<Rightarrow> Inl (-2)
      | Some (c # xs) \<Rightarrow>
          if c = CHR ''/'' then path_append [] (c # xs)
          else
          (case cur (us (sigs k)) of
             None \<Rightarrow> Inl (-2)
           | Some p \<Rightarrow>
               (case path_append [] (cwd p) of
                  Inl e \<Rightarrow> Inl e
                | Inr out \<Rightarrow>
                    (case (if out = [] \<or> last out \<noteq> CHR ''/'' then path_append out ''/'' else Inr out) of
                       Inl e \<Rightarrow> Inl e
                     | Inr out \<Rightarrow> path_append out (c # xs)))))"

section \<open>Descriptors\<close>

definition PIPE64_WAIT_KEY :: "int \<Rightarrow> u64" where
  "PIPE64_WAIT_KEY p = 0x3000000000000000 + of_int p"

definition wake_all :: "u64 \<Rightarrow> kstate \<Rightarrow> kstate" where
  "wake_all key k = set_ksch (snd (sched64_wake key (int SCHED64_MAX_TASKS) (ksch k))) k"

definition fd_alloc :: "int \<Rightarrow> kstate \<Rightarrow> int \<times> kstate" where
  "fd_alloc from k =
     (case find (\<lambda>fd. \<not> fd_used (fdt k fd)) [nat (if from < 0 then 0 else from)..<FD_MAX] of
        Some fd \<Rightarrow> (int fd, k)
      | None \<Rightarrow> (-1, k\<lparr>said_fds := True\<rparr>))"

definition fd_init_pipe :: "nat \<Rightarrow> int \<Rightarrow> int \<Rightarrow> bool \<Rightarrow> bool \<Rightarrow> kstate \<Rightarrow> kstate" where
  "fd_init_pipe fd r w nonblock cloexec k =
     (let k = set_fd fd (\<lambda>d. d\<lparr>fd_kind := FD64_PIPE, fd_node := -1, fd_pos := 0, fd_rx := r, fd_tx := w, fd_sock := -1,
            fd_nonblock := nonblock, fd_cloexec := cloexec, fd_used := True\<rparr>) k
      in set_kps (pipe64_ref w False True (pipe64_ref r True False (kps k))) k)"

definition fd_adopt_pipe :: "nat \<Rightarrow> int \<Rightarrow> int \<Rightarrow> int \<Rightarrow> bool \<Rightarrow> bool \<Rightarrow> kstate \<Rightarrow> kstate" where
  "fd_adopt_pipe fd r w sock nonblock cloexec k =
     set_fd fd (\<lambda>d. d\<lparr>fd_kind := (if sock \<ge> 0 then FD64_SOCKET else FD64_PIPE), fd_node := -1, fd_pos := 0, fd_rx := r,
       fd_tx := w, fd_sock := sock, fd_nonblock := nonblock, fd_cloexec := cloexec, fd_used := True\<rparr>) k"

definition fd_is_stream :: "proc64_fd \<Rightarrow> bool" where
  "fd_is_stream d \<longleftrightarrow> fd_kind d = FD64_PIPE \<or> fd_kind d = FD64_SOCKET \<and> (fd_rx d \<ge> 0 \<or> fd_tx d \<ge> 0)"

definition fd_take_ref :: "nat \<Rightarrow> kstate \<Rightarrow> kstate" where
  "fd_take_ref fd k =
     (if fd \<ge> FD_MAX \<or> \<not> fd_used (fdt k fd) then k
      else if fd_kind (fdt k fd) = FD64_FILE then set_kfs (ramfs64_ref_node (fd_node (fdt k fd)) (kfs k)) k
      else set_kps (pipe64_ref (fd_tx (fdt k fd)) False True (pipe64_ref (fd_rx (fdt k fd)) True False (kps k))) k)"

text \<open>The three parts of \<open>fd_release\<close>: the socket, the file, the two ends of pipes.\<close>

definition release_sock :: "nat \<Rightarrow> kstate \<Rightarrow> kstate option" where
  "release_sock fd k =
     (let d = fdt k fd; s = fd_sock d
      in if fd_kind d = FD64_SOCKET \<and> s \<ge> 0
         then do {
           let k = wake_all (of_nat (sock64_wait_key s)) k;
           q \<leftarrow> sock64_destroy s (kss k);
           Some (set_fd fd (\<lambda>d. d\<lparr>fd_sock := -1\<rparr>) (set_kss q k))
         }
         else Some k)"

definition release_file :: "nat \<Rightarrow> kstate \<Rightarrow> kstate" where
  "release_file fd k =
     (let d = fdt k fd; n = fd_node d
      in if fd_kind d = FD64_FILE \<and> n \<ge> 0
         then (let k = (if ramfs64_device n (kfs k) = RAMFS64_DEV_WM \<and> fd_pos d \<noteq> 0
                        then k\<lparr>wm_closed := wm_closed k @ [sint (word_of_nat (fd_pos d) :: 32 word) - 1]\<rparr> else k)
               in set_kfs (ramfs64_unref_node n (kfs k)) k)
         else k)"

definition wake_end :: "int \<Rightarrow> kstate \<Rightarrow> kstate" where
  "wake_end p k = (if p \<ge> 0 then wake_all (PIPE64_WAIT_KEY p) k else k)"

definition release_stream :: "nat \<Rightarrow> kstate \<Rightarrow> kstate option" where
  "release_stream fd k =
     (let d = fdt k fd
      in if fd_is_stream d
         then do {
           p \<leftarrow> pipe64_unref (fd_rx d) True False (kps k);
           p \<leftarrow> pipe64_unref (fd_tx d) False True p;
           Some (wake_end (fd_tx d) (wake_end (fd_rx d) (set_kps p k)))
         }
         else Some k)"

definition fd_release :: "int \<Rightarrow> kstate \<Rightarrow> kstate option" where
  "fd_release fd k =
     (if fd < 0 \<or> fd \<ge> int FD_MAX \<or> \<not> fd_used (fdt k (nat fd)) then Some k
      else do {
        k \<leftarrow> release_sock (nat fd) k;
        k \<leftarrow> release_stream (nat fd) (release_file (nat fd) k);
        Some (set_fd (nat fd) (\<lambda>d. d\<lparr>fd_used := False, fd_rx := -1, fd_tx := -1\<rparr>) k)
      })"

definition close_all_files :: "kstate \<Rightarrow> kstate option" where
  "close_all_files k =
     (if proc64_current (ptab k) = None then Some k else each (\<lambda>fd. fd_release (int fd)) [0..<FD_MAX] k)"

section \<open>Waiting\<close>

definition frame_from_args :: "syscall64_args \<Rightarrow> u64 \<Rightarrow> kstate \<Rightarrow> registers64" where
  "frame_from_args x r k =
     \<lparr>rax = r, rbx = arg_rbx x, rcx = 0, rdx = a3 x, rsi = a2 x, rdi = a1 x, rbp = arg_rbp x, r8 = a5 x, r9 = a6 x, r10 = a4 x, r11 = 0,
      r12 = arg_r12 x, r13 = arg_r13 x, r14 = arg_r14 x, r15 = arg_r15 x, int_no = 0, err_code = 0, rip = ret_rip x, cs = 0x23,
      rflags = ret_rflags x OR 0x200, rsp = saved_user_rsp k, ss = 0x1B\<rparr>"

text \<open>The frame of a call that is run again when its thread wakes: back over the two bytes of \<open>syscall\<close>.\<close>

definition restart_frame :: "syscall64_args \<Rightarrow> u64 \<Rightarrow> kstate \<Rightarrow> registers64" where
  "restart_frame x nr k = (frame_from_args x nr k)\<lparr>rip := ret_rip x - 2\<rparr>"

text \<open>Loading the space and the thread pointer of a task the scheduler has chosen, and leaving for it.\<close>

definition leave_to :: "successor \<Rightarrow> kstate \<Rightarrow> 'a flow \<times> kstate" where
  "leave_to x k =
     (let (r, vs, fsb) = x; s = ksch k
      in (Resume r, set_ksch (s\<lparr>smach := vmspace64_switch vs (smach s), fs_msr := fsb\<rparr>) k))"

text \<open>Waiting for the key, or going on with \<open>f\<close> where the scheduler has nobody else to run.\<close>

definition park :: "events \<Rightarrow> registers64 \<Rightarrow> u64 \<Rightarrow> u64 \<Rightarrow> (kstate \<Rightarrow> ('a flow \<times> kstate) option) \<Rightarrow> kstate \<Rightarrow> ('a flow \<times> kstate) option" where
  "park ev self key nr f k = do {
     (out, s) \<leftarrow> sched64_block_current ev self key nr (ksch k);
     case out of
       Some x \<Rightarrow> Some (leave_to x (set_ksch s k))
     | None \<Rightarrow> f (set_ksch s k)
   }"

definition wait_slot :: "kstate \<Rightarrow> nat" where
  "wait_slot k = (let t = sched64_current (ksch k) in if bad_task t then 0 else nat t)"

definition wait_expired :: "kstate \<Rightarrow> bool" where
  "wait_expired k =
     (let t = wait_slot k
      in wait_pending k ! t \<and> wait_deadline k ! t \<noteq> 0 \<and> clock64_ticks (ksch k) \<ge> wait_deadline k ! t)"

definition wait_started :: "kstate \<Rightarrow> bool" where
  "wait_started k = wait_pending k ! wait_slot k"

definition wait_slot_reset :: "int \<Rightarrow> kstate \<Rightarrow> kstate" where
  "wait_slot_reset t k =
     (if bad_task t then k
      else k\<lparr>clear_child_tid := (clear_child_tid k)[nat t := 0], wait_pending := (wait_pending k)[nat t := False],
             wait_deadline := (wait_deadline k)[nat t := 0], wait_call := (wait_call k)[nat t := 0],
             sigs := signal64_task_start t (sched64_current (ksch k)) (sigs k)\<rparr>)"

definition wait_done :: "kstate \<Rightarrow> kstate" where
  "wait_done k = k\<lparr>wait_pending := (wait_pending k)[wait_slot k := False]\<rparr>"

definition signal_interrupts_wait :: "kstate \<Rightarrow> bool" where
  "signal_interrupts_wait k =
     (let p = proc64_current_pid (ptab k);
          set0 = signal64_pending_set_task (sched64_current (ksch k)) (sigs k) OR signal64_pending_set p (sigs k)
      in if p < 0 \<or> set0 = 0 then False
         else list_ex (\<lambda>sig. set0 AND push_bit sig 1 \<noteq> 0 \<and> signal64_disposition p (int sig) (sigs k) \<noteq> SIG64_DISP_IGNORE) [1..<64])"

definition wait_restart :: "events \<Rightarrow> syscall64_args \<Rightarrow> u64 \<Rightarrow> nat \<Rightarrow> kstate \<Rightarrow> (int flow \<times> kstate) option" where
  "wait_restart ev x nr deadline k =
     (let t = wait_slot k
      in if signal_interrupts_wait k then Some (Val (-4), k\<lparr>wait_pending := (wait_pending k)[t := False]\<rparr>)
         else
         (let k = k\<lparr>wait_deadline := (wait_deadline k)[t := deadline], wait_call := (wait_call k)[t := nr],
                     wait_pending := (wait_pending k)[t := True]\<rparr>;
              self = restart_frame x nr k
          in do {
            (out, s) \<leftarrow> sched64_block_until ev self SCHED64_COND_KEY nr deadline (ksch k);
            let k = set_ksch s k;
            case out of
              Some y \<Rightarrow> Some (leave_to y k)
            | None \<Rightarrow>
                (let (out, s) = sched64_yield_current self (ksch k); k = set_ksch s k
                 in case out of Some y \<Rightarrow> Some (leave_to y k) | None \<Rightarrow> Some (Resume self, k))
          }))"

section \<open>Reading and writing pipes\<close>

definition do_pipe_write :: "nat \<Rightarrow> nat \<Rightarrow> nat \<Rightarrow> kstate \<Rightarrow> (int \<times> kstate) option" where
  "do_pipe_write fd src n k =
     (let t = fd_tx (fdt k fd)
      in if t < 0 then Some (-9, k)
         else do {
           (w, p) \<leftarrow> pipe64_write t (bytes_at (umem k) src n) (kps k);
           let k = set_kps p k;
           Some (w, if w > 0 then wake_all (PIPE64_WAIT_KEY t) k else k)
         })"

text \<open>How far a write has come: all of it, the pipe full, or an error.\<close>

datatype progress = Sent nat | Full nat | Stopped int nat

partial_function (option) write_run :: "nat \<Rightarrow> nat \<Rightarrow> nat \<Rightarrow> nat \<Rightarrow> kstate \<Rightarrow> (progress \<times> kstate) option" where
  "write_run fd src left dn k =
     (if left = 0 then Some (Sent dn, k)
      else do {
        (w, k) \<leftarrow> do_pipe_write fd src left k;
        if w = -11 then Some (Full dn, k)
        else if w < 0 then Some (Stopped w dn, k)
        else write_run fd (add64 src (nat w)) (sub64 left (nat w)) (add64 dn (nat w)) k
      })"

fun write_vecs :: "nat \<Rightarrow> (nat \<times> nat) list \<Rightarrow> nat \<Rightarrow> nat \<Rightarrow> kstate \<Rightarrow> (progress \<times> kstate) option" where
  "write_vecs fd [] skip dn k = Some (Sent dn, k)"
| "write_vecs fd ((base, len) # iov) skip dn k =
     (if skip \<ge> len then write_vecs fd iov (skip - len) dn k
      else do {
        (r, k) \<leftarrow> write_run fd (add64 base skip) (len - skip) dn k;
        case r of Sent dn \<Rightarrow> write_vecs fd iov 0 dn k | _ \<Rightarrow> Some (r, k)
      })"

definition same_write :: "syscall64_args \<Rightarrow> u64 \<Rightarrow> nat \<Rightarrow> wprog64 \<Rightarrow> bool" where
  "same_write x nr fd w \<longleftrightarrow> w_active w \<and> w_nr w = nr \<and> w_fd w = fd \<and> w_buf w = a2 x \<and> w_len w = a3 x"

definition so_far :: "nat \<Rightarrow> int \<Rightarrow> int" where
  "so_far dn e = (if dn \<noteq> 0 then s64 dn else e)"

definition stream_write :: "events \<Rightarrow> syscall64_args \<Rightarrow> u64 \<Rightarrow> nat \<Rightarrow> (nat \<times> nat) list \<Rightarrow> kstate \<Rightarrow> (int flow \<times> kstate) option" where
  "stream_write ev x nr fd iov k =
     (let t = sched64_current (ksch k); i = nat t;
          dn = (if \<not> bad_task t \<and> same_write x nr fd (wprog k ! i) then w_done (wprog k ! i) else 0);
          k = (if \<not> bad_task t then k\<lparr>wprog := (wprog k)[i := (wprog k ! i)\<lparr>w_active := False\<rparr>]\<rparr> else k)
      in do {
        (r, k) \<leftarrow> write_vecs fd iov dn dn k;
        case r of
          Sent dn \<Rightarrow> Some (Val (s64 dn), k)
        | Stopped e dn \<Rightarrow> Some (Val (so_far dn e), k)
        | Full dn \<Rightarrow>
            if fd_nonblock (fdt k fd) then Some (Val (so_far dn (-11)), k)
            else if signal_interrupts_wait k then Some (Val (so_far dn (-4)), k)
            else if bad_task t then Some (Val (so_far dn (-11)), k)
            else
            (let k = k\<lparr>wprog := (wprog k)[i := \<lparr>w_active = True, w_nr = nr, w_fd = fd, w_buf = a2 x, w_len = a3 x, w_done = dn\<rparr>]\<rparr>
             in park ev (restart_frame x nr k) (PIPE64_WAIT_KEY (fd_tx (fdt k fd))) nr
                  (\<lambda>k. Some (Val (so_far dn (-11)), k\<lparr>wprog := (wprog k)[i := (wprog k ! i)\<lparr>w_active := False\<rparr>]\<rparr>)) k)
      })"

definition do_pipe_read :: "events \<Rightarrow> syscall64_args \<Rightarrow> u64 \<Rightarrow> nat \<Rightarrow> nat \<Rightarrow> nat \<Rightarrow> kstate \<Rightarrow> (int flow \<times> kstate) option" where
  "do_pipe_read ev x nr fd dst n k =
     (let r = fd_rx (fdt k fd)
      in if r < 0 then Some (Val (-9), k)
         else do {
           (v, out, p) \<leftarrow> pipe64_read r n (kps k);
           let k = (set_kps p k)\<lparr>umem := write_bytes (umem k) dst out\<rparr>;
           let k = (if v > 0 then wake_all (PIPE64_WAIT_KEY r) k else k);
           if v \<noteq> -11 then Some (Val v, k)
           else if fd_nonblock (fdt k fd) then Some (Val (-11), k)
           else if signal_interrupts_wait k then Some (Val (-4), k)
           else park ev (restart_frame x nr k) (PIPE64_WAIT_KEY r) nr (\<lambda>k. Some (Val (-11), k)) k
         })"

section \<open>The calls\<close>

definition flag :: "u64 \<Rightarrow> u64 \<Rightarrow> bool" where
  "flag w m \<longleftrightarrow> w AND m \<noteq> 0"

definition sys_close :: "syscall64_args \<Rightarrow> kstate \<Rightarrow> (int flow \<times> kstate) option" where
  "sys_close x k =
     (if unat (a1 x) < 3 \<or> no_fd (a1 x) k then Some (Val (-9), k)
      else do { k \<leftarrow> fd_release (int (unat (a1 x))) k; Some (Val 0, k) })"

definition sys_pipe2 :: "syscall64_args \<Rightarrow> kstate \<Rightarrow> (int flow \<times> kstate) option" where
  "sys_pipe2 x k =
     (let nonblock = flag (a2 x) O_NONBLOCK; cloexec = flag (a2 x) O_CLOEXEC
      in if a1 x = 0 then Some (Val (-14), k)
         else do {
           (p, q) \<leftarrow> pipe64_create (kps k);
           let k = set_kps q k;
           if p < 0 then Some (Val (-23), k)
           else
           (let (rd, k) = fd_alloc 3 k
            in if rd < 0 then do { q \<leftarrow> pipe64_unref p False False (kps k); Some (Val (-24), set_kps q k) }
               else
               (let k = fd_init_pipe (nat rd) p (-1) nonblock cloexec k;
                    (wr, k) = fd_alloc 3 k
                in if wr < 0 then do { k \<leftarrow> fd_release rd k; Some (Val (-24), k) }
                   else
                   (let k = fd_init_pipe (nat wr) (-1) p nonblock cloexec k;
                        k = store_int (a1 x + 4) wr (store_int (a1 x) rd k)
                    in Some (Val 0, k\<lparr>pipes_made := add64 (pipes_made k) 1\<rparr>))))
         })"

definition sys_socketpair :: "syscall64_args \<Rightarrow> kstate \<Rightarrow> (int flow \<times> kstate) option" where
  "sys_socketpair x k =
     (let nonblock = flag (a2 x) O_NONBLOCK; cloexec = flag (a2 x) O_CLOEXEC
      in if a1 x \<noteq> 1 then Some (Val (-97), k)
         else if a2 x AND 0xFF \<noteq> 1 then Some (Val (-94), k)
         else if a4 x = 0 then Some (Val (-14), k)
         else do {
           (p, q) \<leftarrow> pipe64_create (kps k);
           let k = set_kps q k;
           if p < 0 then Some (Val (-23), k)
           else do {
             (q, z) \<leftarrow> pipe64_create (kps k);
             let k = set_kps z k;
             if q < 0 then do { z \<leftarrow> pipe64_unref p False False (kps k); Some (Val (-23), set_kps z k) }
             else
             (let (s0, k) = fd_alloc 3 k
              in if s0 < 0
                 then do {
                   z \<leftarrow> pipe64_unref p False False (kps k);
                   z \<leftarrow> pipe64_unref q False False z;
                   Some (Val (-24), set_kps z k)
                 }
                 else
                 (let k = fd_init_pipe (nat s0) p q nonblock cloexec k;
                      (s1, k) = fd_alloc 3 k
                  in if s1 < 0
                     then do {
                       k \<leftarrow> fd_release s0 k;
                       z \<leftarrow> pipe64_unref q False False (kps k);
                       Some (Val (-24), set_kps z k)
                     }
                     else
                     (let k = fd_init_pipe (nat s1) q p nonblock cloexec k;
                          k = store_int (a4 x + 4) s1 (store_int (a4 x) s0 k)
                      in Some (Val 0, k\<lparr>socketpairs_made := add64 (socketpairs_made k) 1\<rparr>))))
           }
         })"

text \<open>Copying a descriptor to a place that is free or has just been freed.\<close>

definition copy_fd :: "nat \<Rightarrow> nat \<Rightarrow> bool \<Rightarrow> kstate \<Rightarrow> kstate" where
  "copy_fd new old cloexec k = fd_take_ref new (set_fd new (\<lambda>_. (fdt k old)\<lparr>fd_cloexec := cloexec\<rparr>) k)"

definition dup_from :: "int \<Rightarrow> nat \<Rightarrow> bool \<Rightarrow> kstate \<Rightarrow> (int flow \<times> kstate) option" where
  "dup_from from old cloexec k =
     (let (nfd, k) = fd_alloc from k
      in if nfd < 0 then Some (Val (-24), k) else Some (Val nfd, copy_fd (nat nfd) old cloexec k))"

definition sys_fcntl :: "syscall64_args \<Rightarrow> kstate \<Rightarrow> (int flow \<times> kstate) option" where
  "sys_fcntl x k =
     (let fd = unat (a1 x); cmd = a2 x
      in if no_fd (a1 x) k then Some (Val (-9), k)
         else if cmd = 1 then Some (Val (if fd_cloexec (fdt k fd) then 1 else 0), k)
         else if cmd = 2 then Some (Val 0, set_fd fd (\<lambda>d. d\<lparr>fd_cloexec := flag (a3 x) 1\<rparr>) k)
         else if cmd = 3 then Some (Val (uint (O_RDWR OR (if fd_nonblock (fdt k fd) then O_NONBLOCK else 0))), k)
         else if cmd = 4 then Some (Val 0, set_fd fd (\<lambda>d. d\<lparr>fd_nonblock := flag (a3 x) O_NONBLOCK\<rparr>) k)
         else if cmd = 0 \<or> cmd = 1030 then dup_from (c_int (a3 x)) fd (cmd = 1030) k
         else if cmd = 5 \<or> cmd = 6 \<or> cmd = 7 then Some (Val 0, k)
         else Some (Val (-22), k))"

definition sys_dup :: "syscall64_args \<Rightarrow> kstate \<Rightarrow> (int flow \<times> kstate) option" where
  "sys_dup x k = (if no_fd (a1 x) k then Some (Val (-9), k) else dup_from 3 (unat (a1 x)) False k)"

definition sys_dup2 :: "bool \<Rightarrow> syscall64_args \<Rightarrow> kstate \<Rightarrow> (int flow \<times> kstate) option" where
  "sys_dup2 dup3 x k =
     (if no_fd (a1 x) k then Some (Val (-9), k)
      else if unat (a2 x) \<ge> FD_MAX then Some (Val (-9), k)
      else if a1 x = a2 x then Some (Val (if dup3 then -22 else int (unat (a2 x))), k)
      else do {
        k \<leftarrow> fd_release (int (unat (a2 x))) k;
        Some (Val (int (unat (a2 x))), copy_fd (unat (a2 x)) (unat (a1 x)) (dup3 \<and> flag (a3 x) O_CLOEXEC) k)
      })"

definition sys_lseek :: "syscall64_args \<Rightarrow> kstate \<Rightarrow> (int flow \<times> kstate) option" where
  "sys_lseek x k =
     (let fd = unat (a1 x);
          base = (if a3 x = 0 then Some 0 else if a3 x = 1 then Some (fd_pos (fdt k fd))
                  else if a3 x = 2 then Some (ramfs64_size (fd_node (fdt k fd)) (kfs k)) else None)
      in if unat (a1 x) < 3 \<or> no_fd (a1 x) k then Some (Val (-9), k)
         else (case base of
                 None \<Rightarrow> Some (Val (-22), k)
               | Some b \<Rightarrow> (let v = add64 b (unat (a2 x)) in Some (Val (s64 v), set_fd fd (\<lambda>d. d\<lparr>fd_pos := v\<rparr>) k))))"

definition sys_pread64 :: "syscall64_args \<Rightarrow> kstate \<Rightarrow> (int flow \<times> kstate) option" where
  "sys_pread64 x k =
     (if unat (a1 x) < 3 \<or> no_fd (a1 x) k then Some (Val (-9), k)
      else do {
        (r, out) \<leftarrow> ramfs64_read (fd_node (fdt k (unat (a1 x)))) (unat (a4 x)) (unat (a3 x)) (kfs k);
        Some (Val r, k\<lparr>umem := write_bytes (umem k) (unat (a2 x)) out\<rparr>)
      })"

definition sys_pwrite64 :: "syscall64_args \<Rightarrow> kstate \<Rightarrow> (int flow \<times> kstate) option" where
  "sys_pwrite64 x k =
     (if unat (a1 x) < 3 \<or> no_fd (a1 x) k then Some (Val (-9), k)
      else do {
        (r, f) \<leftarrow> ramfs64_write (fd_node (fdt k (unat (a1 x)))) (unat (a4 x)) (bytes_at (umem k) (unat (a2 x)) (unat (a3 x))) (kfs k);
        Some (Val r, set_kfs f k)
      })"

text \<open>One end of a connection given up by \<open>shutdown\<close>, with the readers and writers of the pipe woken.\<close>

definition drop_end :: "int \<Rightarrow> bool \<Rightarrow> (proc64_fd \<Rightarrow> proc64_fd) \<Rightarrow> nat \<Rightarrow> kstate \<Rightarrow> kstate option" where
  "drop_end p reader f fd k =
     (if p \<ge> 0
      then do {
        q \<leftarrow> pipe64_unref p reader (\<not> reader) (kps k);
        Some (wake_all (PIPE64_WAIT_KEY p) (set_fd fd f (set_kps q k)))
      }
      else Some k)"

definition sys_shutdown :: "syscall64_args \<Rightarrow> kstate \<Rightarrow> (int flow \<times> kstate) option" where
  "sys_shutdown x k =
     (let fd = unat (a1 x); r = fd_rx (fdt k fd); w = fd_tx (fdt k fd)
      in if no_fd (a1 x) k then Some (Val (-9), k)
         else if \<not> fd_is_stream (fdt k fd) then Some (Val (-88), k)
         else do {
           k \<leftarrow> (if a2 x = 0 \<or> a2 x = 2 then drop_end r True (\<lambda>d. d\<lparr>fd_rx := -1\<rparr>) fd k else Some k);
           k \<leftarrow> (if a2 x = 1 \<or> a2 x = 2 then drop_end w False (\<lambda>d. d\<lparr>fd_tx := -1\<rparr>) fd k else Some k);
           Some (Val 0, k)
         })"

definition AF_NETLINK :: u64 where "AF_NETLINK = 16"
definition AF_UNIX :: u64 where "AF_UNIX = 1"

definition sys_socket :: "syscall64_args \<Rightarrow> kstate \<Rightarrow> (int flow \<times> kstate) option" where
  "sys_socket x k =
     (let nonblock = flag (a2 x) O_NONBLOCK; cloexec = flag (a2 x) O_CLOEXEC; type = a2 x AND 0xFF
      in if a1 x = AF_NETLINK
         then (if type \<noteq> 3 \<and> type \<noteq> 2 then Some (Val (-94), k)
               else if a3 x \<noteq> 0 then Some (Val (-93), k)
               else
               (let (fd, k) = fd_alloc 3 k
                in if fd < 0 then Some (Val (-24), k)
                   else Some (Val fd, set_fd (nat fd) (\<lambda>d. d\<lparr>fd_kind := FD64_NETLINK, fd_node := -1, fd_pos := 0, fd_rx := -1,
                          fd_tx := -1, fd_sock := -1, fd_sigmask := 0, fd_nonblock := nonblock, fd_cloexec := cloexec, fd_used := True\<rparr>) k)))
         else if a1 x \<noteq> AF_UNIX then Some (Val (-97), k)
         else if type \<noteq> 1 then Some (Val (-94), k)
         else
         (let (s, q) = sock64_create (kss k); k = set_kss q k
          in if s < 0 then Some (Val (-23), k)
             else
             (let (fd, k) = fd_alloc 3 k
              in if fd < 0 then do { q \<leftarrow> sock64_destroy s (kss k); Some (Val (-24), set_kss q k) }
                 else
                 (let k = fd_adopt_pipe (nat fd) (-1) (-1) s nonblock cloexec k
                  in Some (Val fd, k\<lparr>sockets_made := add64 (sockets_made k) 1\<rparr>)))))"

definition no_sock :: "nat \<Rightarrow> kstate \<Rightarrow> bool" where
  "no_sock fd k \<longleftrightarrow> fd_kind (fdt k fd) \<noteq> FD64_SOCKET \<or> fd_sock (fdt k fd) < 0"

definition sys_listen :: "syscall64_args \<Rightarrow> kstate \<Rightarrow> (int flow \<times> kstate) option" where
  "sys_listen x k =
     (if no_fd (a1 x) k then Some (Val (-9), k)
      else if no_sock (unat (a1 x)) k then Some (Val (-88), k)
      else (let (r, q) = sock64_listen (fd_sock (fdt k (unat (a1 x)))) (c_int (a2 x)) (kss k) in Some (Val r, set_kss q k)))"

text \<open>The string at a pointer of the caller. A path of \<open>PROC64_PATH_MAX\<close> characters is too long already, so no more than that are read.\<close>

definition user_string :: "memory \<Rightarrow> nat \<Rightarrow> string" where
  "user_string m a = map (\<lambda>b. char_of (unat b)) (bytes_at m a (kstrnlen m a PROC64_PATH_MAX))"

definition sys_connect :: "syscall64_args \<Rightarrow> kstate \<Rightarrow> (int flow \<times> kstate) option" where
  "sys_connect x k =
     (let fd = unat (a1 x); addr = unat (a2 x)
      in if no_fd (a1 x) k then Some (Val (-9), k)
         else if no_sock fd k then Some (Val (-88), k)
         else if addr = 0 \<or> rd_le (umem k) addr 2 \<noteq> 1 then Some (Val (-22), k)
         else
         (case abs_path (Some (user_string (umem k) (addr + 2))) k of
            Inl e \<Rightarrow> Some (Val e, k)
          | Inr path \<Rightarrow> do {
              n \<leftarrow> ramfs64_lookup_nofollow path (kfs k);
              if n < 0 then Some (Val (-2), k)
              else if ramfs64_device n (kfs k) \<noteq> RAMFS64_DEV_SOCK then Some (Val (-111), k)
              else
              (let listener = sock64_listener_for_node n (kss k)
               in if listener < 0 then Some (Val (-111), k)
                  else do {
                    (rc, c, q) \<leftarrow> sock64_connect (fd_sock (fdt k fd)) listener (kss k);
                    let k = set_kss q k;
                    case c of
                      None \<Rightarrow> Some (Val rc, k)
                    | Some (r, w) \<Rightarrow>
                        (let k = set_fd fd (\<lambda>d. d\<lparr>fd_rx := r, fd_tx := w\<rparr>) k
                         in Some (Val 0, wake_all (of_nat (sock64_wait_key listener)) k))
                  })
            }))"

definition sys_accept :: "events \<Rightarrow> u64 \<Rightarrow> u64 \<Rightarrow> syscall64_args \<Rightarrow> kstate \<Rightarrow> (int flow \<times> kstate) option" where
  "sys_accept ev nr flags x k =
     (let fd = unat (a1 x)
      in if no_fd (a1 x) k then Some (Val (-9), k)
         else if no_sock fd k then Some (Val (-88), k)
         else
         (let (rc, c, q) = sock64_accept (fd_sock (fdt k fd)) (kss k); k = set_kss q k
          in case c of
               None \<Rightarrow>
                 if rc = -11
                 then (if fd_nonblock (fdt k fd) then Some (Val (-11), k)
                       else if signal_interrupts_wait k then Some (Val (-4), k)
                       else park ev (restart_frame x nr k) (of_nat (sock64_wait_key (fd_sock (fdt k fd)))) nr (\<lambda>k. Some (Val (-11), k)) k)
                 else Some (Val rc, k)
             | Some (r, w) \<Rightarrow>
                 (let (nfd, k) = fd_alloc 3 k
                  in if nfd < 0
                     then do {
                       p \<leftarrow> pipe64_unref r True False (kps k);
                       p \<leftarrow> pipe64_unref w False True p;
                       Some (Val (-24), set_kps p k)
                     }
                     else
                     (let k = fd_adopt_pipe (nat nfd) r w (-1) (flag flags O_NONBLOCK) (flag flags O_CLOEXEC) k;
                          k = set_fd (nat nfd) (\<lambda>d. d\<lparr>fd_kind := FD64_SOCKET\<rparr>) k
                      in Some (Val nfd, if a3 x \<noteq> 0 then store_int (a3 x) 2 k else k)))))"

end
