(* ===== verification/Files64_Refs.thy ===== *)
theory Files64_Refs
  imports Files64 Sched64_Tasks
begin

text \<open>
  The ends of pipes that descriptors hold, against the counts that pipes keep. \<open>books\<close> says that every pipe counts exactly its ends: those open in
  some process, those queued on a listening socket and those in flight on a pipe. Every call of the descriptor layer keeps it, with the error paths
  and the waits in which the caller leaves for another task; \<open>file_call\<close> is one such call, or a timer interrupt, or the caller's own code, which
  may change all of its memory.
\<close>

section \<open>The views\<close>

lemma with_machine_same [simp]: "with_machine (mach (kh f)) f = f"
  by (simp add: with_machine_def)

lemma set_kss_views [simp]:
  "kss (set_kss q k) = q" "ptab (set_kss q k) = ptab k" "umem (set_kss q k) = umem k" "sch (sigs (set_kss q k)) = sch (sigs k)"
  "wprog (set_kss q k) = wprog k" "said_fds (set_kss q k) = said_fds k"
  by (simp_all add: set_kss_def kss_def ptab_def)

lemma set_ptab_views [simp]:
  "ptab (set_ptab t k) = t" "kss (set_ptab t k) = kss k" "umem (set_ptab t k) = umem k" "sch (sigs (set_ptab t k)) = sch (sigs k)"
  "wprog (set_ptab t k) = wprog k" "umach (us (sigs (set_ptab t k))) = umach (us (sigs k))"
  by (simp_all add: set_ptab_def kss_def ptab_def)

lemma ksch_fields [simp]: "tasks (ksch k) = tasks (sch (sigs k))" "ptable (ksch k) = ptab k" "smach (ksch k) = umach (us (sigs k))" "current (ksch k) = current (sch (sigs k))"
  by (simp_all add: ksch_def)

lemma set_ksch_views [simp]: "ksch (set_ksch s k) = s" "ptab (set_ksch s k) = ptable s" "umem (set_ksch s k) = umem k" "wprog (set_ksch s k) = wprog k"
  "sch (sigs (set_ksch s k)) = s"
  by (simp_all add: set_ksch_def ksch_def ptab_def)

lemma kss_set_ksch: "smach s = umach (us (sigs k)) \<Longrightarrow> kss (set_ksch s k) = kss k"
  by (simp add: set_ksch_def kss_def)

lemma set_kps_views [simp]:
  "kss (set_kps p k) = (kss k)\<lparr>ps := p\<rparr>" "ptab (set_kps p k) = ptab k" "umem (set_kps p k) = umem k" "sch (sigs (set_kps p k)) = sch (sigs k)"
  "wprog (set_kps p k) = wprog k"
  by (simp_all add: set_kps_def)

lemma set_kfs_views [simp]:
  "kss (set_kfs f k) = (kss k)\<lparr>ps := (kps k)\<lparr>fs := f\<rparr>\<rparr>" "ptab (set_kfs f k) = ptab k" "umem (set_kfs f k) = umem k" "sch (sigs (set_kfs f k)) = sch (sigs k)"
  "wprog (set_kfs f k) = wprog k"
  by (simp_all add: set_kfs_def)

lemma umem_views [simp]: "kss (k\<lparr>umem := m\<rparr>) = kss k" "ptab (k\<lparr>umem := m\<rparr>) = ptab k" "kss (k\<lparr>wprog := w\<rparr>) = kss k" "ptab (k\<lparr>wprog := w\<rparr>) = ptab k"
  "kss (k\<lparr>said_fds := b\<rparr>) = kss k" "ptab (k\<lparr>said_fds := b\<rparr>) = ptab k" "kss (k\<lparr>pipes_made := n\<rparr>) = kss k" "ptab (k\<lparr>pipes_made := n\<rparr>) = ptab k"
  "kss (k\<lparr>socketpairs_made := n\<rparr>) = kss k" "ptab (k\<lparr>socketpairs_made := n\<rparr>) = ptab k"
  "kss (k\<lparr>sockets_made := n\<rparr>) = kss k" "ptab (k\<lparr>sockets_made := n\<rparr>) = ptab k"
  "kss (k\<lparr>wm_closed := c\<rparr>) = kss k" "ptab (k\<lparr>wm_closed := c\<rparr>) = ptab k"
  by (simp_all add: kss_def ptab_def)

lemma store_int_views [simp]: "kss (store_int a v k) = kss k" "ptab (store_int a v k) = ptab k" "sch (sigs (store_int a v k)) = sch (sigs k)"
  by (simp_all add: store_int_def)

lemma wake_loop_frame: "ptable (snd (wake_loop addr lim b p is x)) = ptable (snd x) \<and> smach (snd (wake_loop addr lim b p is x)) = smach (snd x)"
  by (induction addr lim b p "is" x rule: wake_loop.induct) (auto simp: tupd_def)

lemma wake_frame: "ptable (snd (sched64_wake key n s)) = ptable s" "smach (snd (sched64_wake key n s)) = smach s"
  using wake_loop_frame [of key n "0xFFFFFFFF" "-1" "[0..<SCHED64_MAX_TASKS]" "(0, s)"]
  by (auto simp: sched64_wake_def sched64_wake_bits_def sched64_wake_futex_def split: prod.splits)

lemma wake_all_views [simp]: "ptab (wake_all key k) = ptab k" "kss (wake_all key k) = kss k" "umem (wake_all key k) = umem k" "wprog (wake_all key k) = wprog k"
  by (simp_all add: wake_all_def wake_frame kss_set_ksch)

lemma wake_end_views [simp]: "ptab (wake_end p k) = ptab k" "kss (wake_end p k) = kss k" "umem (wake_end p k) = umem k"
  by (simp_all add: wake_end_def)

lemma me_cong: "procs (ptab k') = procs (ptab k) \<Longrightarrow> current_pid (ptab k') = current_pid (ptab k) \<Longrightarrow> me k' = me k"
  by (simp add: me_def proc64_current_def slot_for_def)

lemma fdt_cong: "ptab k' = ptab k \<Longrightarrow> fdt k' fd = fdt k fd"
  by (simp add: fdt_def me_def)

section \<open>The descriptors of a process\<close>

text \<open>A descriptor that is neither a file nor a stream has no ends to give back.\<close>

definition fd_ok :: "proc64_fd \<Rightarrow> bool" where
  "fd_ok d \<longleftrightarrow> (fd_used d \<longrightarrow> fd_kind d \<noteq> FD64_FILE \<longrightarrow> \<not> fd_is_stream d \<longrightarrow> fd_rx d < 0 \<and> fd_tx d < 0)"

text \<open>A process that has ended has closed all its descriptors.\<close>

definition proc_fds_ok :: "proc64 \<Rightarrow> bool" where
  "proc_fds_ok p \<longleftrightarrow> list_all fd_ok (fds p) \<and> (exited p \<longrightarrow> list_all (\<lambda>d. \<not> fd_used d) (fds p))"

definition fds_ok :: "proc_state \<Rightarrow> bool" where
  "fds_ok s \<longleftrightarrow> (\<forall>i < PROC64_MAX. p_used (procs s ! i) \<longrightarrow> proc_fds_ok (procs s ! i))"

text \<open>The process that makes a call is in the table and has not ended.\<close>

definition caller :: "kstate \<Rightarrow> bool" where
  "caller k \<longleftrightarrow> proc64_current (ptab k) \<noteq> None \<and> \<not> exited (procs (ptab k) ! me k)"

lemma caller_cong: "procs (ptab t) = procs (ptab k) \<Longrightarrow> current_pid (ptab t) = current_pid (ptab k) \<Longrightarrow> caller t = caller k"
  using me_cong [of t k] by (simp add: caller_def proc64_current_def slot_for_def)

definition running :: "kstate \<Rightarrow> bool" where
  "running k \<longleftrightarrow> procs_inv (ptab k) \<and> fds_ok (ptab k) \<and> caller k"

definition files_inv :: "kstate \<Rightarrow> bool" where
  "files_inv k \<longleftrightarrow> running k \<and> sock_inv (kss k) (held_ends (ptab k))"

lemma running_me:
  assumes "running k"
  shows "me k < PROC64_MAX" "p_used (procs (ptab k) ! me k)" "length (fds (procs (ptab k) ! me k)) = FD_MAX" "pid (procs (ptab k) ! me k) = current_pid (ptab k)"
proof -
  have inv: "procs_inv (ptab k)" using assms by (simp add: running_def)
  obtain i where "proc64_current (ptab k) = Some i" using assms by (auto simp: running_def caller_def)
  then have i: "me k = i" "slot_for (current_pid (ptab k)) (ptab k) = Some i" by (simp_all add: me_def proc64_current_def)
  show "me k < PROC64_MAX" "p_used (procs (ptab k) ! me k)" "pid (procs (ptab k) ! me k) = current_pid (ptab k)" using slot_for_Some [OF inv] i by auto
  then show "length (fds (procs (ptab k) ! me k)) = FD_MAX" using procs_invD(3) [OF inv, of "me k"] by (simp add: proc_ok_def FD_MAX_def)
qed

lemma fdt_ok: "running k \<Longrightarrow> fd < FD_MAX \<Longrightarrow> fd_ok (fdt k fd)"
  using running_me [of k] by (auto simp: running_def fds_ok_def proc_fds_ok_def fdt_def list_all_length)

text \<open>Changing one descriptor of the current process.\<close>

lemma set_fd_frame [simp]: "kss (set_fd fd f k) = kss k" "sch (sigs (set_fd fd f k)) = sch (sigs k)" "umem (set_fd fd f k) = umem k" "wprog (set_fd fd f k) = wprog k"
  by (simp_all add: set_fd_def)

lemma set_fd_procs:
  assumes "running k"
  shows "procs (ptab (set_fd fd f k)) = (procs (ptab k))[me k := (procs (ptab k) ! me k)\<lparr>fds := (fds (procs (ptab k) ! me k))[fd := f (fdt k fd)]\<rparr>]"
    "current_pid (ptab (set_fd fd f k)) = current_pid (ptab k)" "next_pid (ptab (set_fd fd f k)) = next_pid (ptab k)"
  by (simp_all add: set_fd_def proc_upd_def fdt_def)

lemma slot_for_fds:
  assumes "length (procs t) = length (procs s)" and "\<And>i. i < PROC64_MAX \<Longrightarrow> p_used (procs t ! i) = p_used (procs s ! i) \<and> pid (procs t ! i) = pid (procs s ! i)"
  shows "slot_for p t = slot_for p s"
  unfolding slot_for_def by (intro find_cong) (use assms in auto)

lemma set_fd_proc:
  assumes "running k" and "i < PROC64_MAX"
  shows "procs (ptab (set_fd fd f k)) ! i = (if i = me k then (procs (ptab k) ! i)\<lparr>fds := (fds (procs (ptab k) ! i))[fd := f (fdt k fd)]\<rparr> else procs (ptab k) ! i)"
proof -
  have "length (procs (ptab k)) = PROC64_MAX" using assms by (simp add: running_def procs_invD(1))
  then show ?thesis using assms by (simp add: set_fd_procs(1) nth_list_update)
qed

lemma set_fd_same:
  assumes "running k" and "i < PROC64_MAX"
  shows "p_used (procs (ptab (set_fd fd f k)) ! i) = p_used (procs (ptab k) ! i)" "pid (procs (ptab (set_fd fd f k)) ! i) = pid (procs (ptab k) ! i)"
    "proc_ok (procs (ptab (set_fd fd f k)) ! i) = proc_ok (procs (ptab k) ! i)"
    "exited (procs (ptab (set_fd fd f k)) ! i) = exited (procs (ptab k) ! i)"
  using set_fd_proc [OF assms, of fd f] by (auto simp: proc_ok_def)

lemma set_fd_me:
  assumes "running k"
  shows "me (set_fd fd f k) = me k" "proc64_current (ptab (set_fd fd f k)) = proc64_current (ptab k)"
proof -
  show "proc64_current (ptab (set_fd fd f k)) = proc64_current (ptab k)"
    unfolding proc64_current_def set_fd_procs(2) [OF assms]
    by (rule slot_for_fds) (simp_all add: set_fd_same [OF assms], simp add: set_fd_procs(1) [OF assms])
  then show "me (set_fd fd f k) = me k" by (simp add: me_def)
qed

lemma set_fd_at:
  assumes "running k" and "fd < FD_MAX"
  shows "fdt (set_fd fd f k) j = (if j = fd then f (fdt k fd) else fdt k j)"
  using running_me [OF assms(1)] assms(2)
  by (simp add: fdt_def [of "set_fd fd f k"] set_fd_me(1) [OF assms(1)] set_fd_proc [OF assms(1)]) (simp add: fdt_def)

lemma set_fd_running:
  assumes r: "running k" and "fd < FD_MAX" and f: "fd_ok (f (fdt k fd))"
  shows "running (set_fd fd f k)"
proof -
  let ?t = "ptab (set_fd fd f k)"
  have inv: "procs_inv (ptab k)" using r by (simp add: running_def)
  note I = procs_invD [OF inv] and m = running_me [OF r] and at = set_fd_proc [OF r, of _ fd f]
  have "procs_inv ?t"
    unfolding procs_inv_def
  proof (intro conjI allI impI)
    show "length (procs ?t) = PROC64_MAX" "0 < next_pid ?t" using I(1,2) by (simp_all add: set_fd_procs [OF r])
    show "proc_ok (procs ?t ! i)" if "i < PROC64_MAX" for i using I(3) [OF that] by (simp add: set_fd_same [OF r that])
    show "0 < pid (procs ?t ! i)" "pid (procs ?t ! i) < next_pid ?t" if "i < PROC64_MAX" "p_used (procs ?t ! i)" for i
      using I(4) [OF that(1)] that(2) by (simp_all add: set_fd_same [OF r that(1)] set_fd_procs(3) [OF r])
    show "i = j" if "i < PROC64_MAX" "j < PROC64_MAX" "p_used (procs ?t ! i) \<and> p_used (procs ?t ! j) \<and> pid (procs ?t ! i) = pid (procs ?t ! j)" for i j
      using I(5) [OF that(1,2)] that(3) by (simp add: set_fd_same [OF r that(1)] set_fd_same [OF r that(2)])
  qed
  moreover have c: "caller k" using r by (simp add: running_def)
  moreover have "proc_fds_ok (procs ?t ! i)" if "i < PROC64_MAX" "p_used (procs ?t ! i)" for i
  proof -
    have p: "proc_fds_ok (procs (ptab k) ! i)" using that r by (simp add: set_fd_same [OF r that(1)] running_def fds_ok_def)
    have "list_all fd_ok (fds (procs ?t ! i))"
      using f that(1) p by (simp add: at proc_fds_ok_def list_all_length) (metis nth_list_update nth_list_update_neq)
    then show ?thesis using p c that(1) by (auto simp: proc_fds_ok_def at caller_def)
  qed
  moreover have "caller (set_fd fd f k)" using c set_fd_me [OF r] set_fd_same(4) [OF r m(1)] by (simp add: caller_def)
  ultimately show ?thesis by (simp add: running_def fds_ok_def)
qed

lemma sum_list_update_mset:
  assumes "i < length xs"
  shows "sum_list (map g (xs[i := y])) + g (xs ! i) = (sum_list (map g xs) + g y :: 'b multiset)"
  using assms
proof (induction xs arbitrary: i)
  case (Cons x xs)
  then show ?case by (cases i) (simp_all add: ac_simps)
qed simp

lemma set_fd_held:
  assumes r: "running k" and "fd < FD_MAX"
  shows "held_ends (ptab (set_fd fd f k)) + fd_ends (fdt k fd) = held_ends (ptab k) + fd_ends (f (fdt k fd))"
proof -
  let ?t = "ptab (set_fd fd f k)" and ?S = "{i. i < PROC64_MAX \<and> p_used (procs (ptab k) ! i)}"
  note m = running_me [OF r] and at = set_fd_proc [OF r, of _ fd f]
  have S: "{i. i < PROC64_MAX \<and> p_used (procs ?t ! i)} = ?S" by (rule Collect_cong) (use set_fd_same(1) [OF r] in blast)
  have mS: "me k \<in> ?S" using m by simp
  have h: "held_ends (ptab k) = proc_ends (procs (ptab k) ! me k) + (\<Sum>i\<in>?S - {me k}. proc_ends (procs (ptab k) ! i))"
    unfolding held_ends_def by (rule sum.remove [OF _ mS]) simp
  have t: "held_ends ?t = proc_ends (procs ?t ! me k) + (\<Sum>i\<in>?S - {me k}. proc_ends (procs ?t ! i))"
    unfolding held_ends_def S by (rule sum.remove [OF _ mS]) simp
  have "(\<Sum>i\<in>?S - {me k}. proc_ends (procs ?t ! i)) = (\<Sum>i\<in>?S - {me k}. proc_ends (procs (ptab k) ! i))"
    by (rule sum.cong) (auto simp: at)
  moreover have "proc_ends (procs ?t ! me k) + fd_ends (fdt k fd) = proc_ends (procs (ptab k) ! me k) + fd_ends (f (fdt k fd))"
    using sum_list_update_mset [of fd "fds (procs (ptab k) ! me k)" fd_ends "f (fdt k fd)"] assms(2) m
    by (simp add: at proc_ends_def) (simp add: fdt_def)
  ultimately show ?thesis using h t by (simp add: ac_simps)
qed

lemma fd_ends_empty: "fd_ends (d\<lparr>fd_used := False\<rparr>) = {#}"
  by (simp add: fd_ends_def)

lemma fd_ends_held:
  assumes r: "running k" and "fd < FD_MAX"
  shows "fd_ends (fdt k fd) \<subseteq># held_ends (ptab k)"
proof -
  note m = running_me [OF r]
  have "fd_ends (fdt k fd) \<subseteq># proc_ends (procs (ptab k) ! me k)"
    using sum_list_update_mset [of fd "fds (procs (ptab k) ! me k)" fd_ends "(fdt k fd)\<lparr>fd_used := False\<rparr>"] assms(2) m(3)
    by (metis (no_types, lifting) add.right_neutral fd_ends_empty fdt_def mset_subset_eq_add_right proc_ends_def)
  then show ?thesis using held_ends_split [OF m(1,2)] by (rule subset_mset.order_trans)
qed
section \<open>Counting\<close>

lemma pipes_inv_ends:
  assumes "\<And>e. 0 \<le> pend_pipe e \<Longrightarrow> count H e = count K e" and "pipes_inv s H"
  shows "pipes_inv s K"
  by (rule pipes_invI) (use pipes_invD [OF assms(2)] assms(1) in auto)

lemma sock_inv_ends:
  assumes "\<And>e. 0 \<le> pend_pipe e \<Longrightarrow> count H e = count K e" and "sock_inv s H"
  shows "sock_inv s K"
  using assms pipes_inv_ends [of "owned s + H" "owned s + K" "ps s"] by (simp add: sock_inv_def)

lemma sock_inv_ps: "sock_inv s H \<Longrightarrow> pipes_inv p (owned s + K) \<Longrightarrow> sock_inv (s\<lparr>ps := p\<rparr>) K"
  by (simp add: sock_inv_def)

lemma sock_inv_fs:
  assumes "sock_inv s H" and "ramfs_ok f"
  shows "sock_inv (s\<lparr>ps := (ps s)\<lparr>fs := f\<rparr>\<rparr>) H"
  by (rule sock_inv_ps [OF assms(1)], rule pipes_inv_cong [OF sock_invD(2) [OF assms(1)]]) (simp_all add: assms(2))

lemma sock_ramfs: "sock_inv s H \<Longrightarrow> ramfs_ok (fs (ps s))"
  using sock_invD(2) pipes_invD(1) by blast

lemma unref_node_ok: "ramfs_ok s \<Longrightarrow> ramfs_ok (ramfs64_unref_node n s)"
  unfolding ramfs_ok_def using unref_ok by (auto simp: ramfs_ok_def)

lemma files_invD:
  assumes "files_inv k"
  shows "running k" "sock_inv (kss k) (held_ends (ptab k))"
  using assms by (simp_all add: files_inv_def)

lemma running_cong: "ptab t = ptab k \<Longrightarrow> running t = running k"
  using caller_cong [of t k] by (simp add: running_def)

lemma files_inv_cong: "ptab t = ptab k \<Longrightarrow> kss t = kss k \<Longrightarrow> files_inv t = files_inv k"
  by (simp add: files_inv_def running_cong [of t k])

lemma ptab_set_fd: "ptab t = ptab k \<Longrightarrow> ptab (set_fd fd f t) = ptab (set_fd fd f k)"
  by (simp add: set_fd_def me_def)

lemma set_fd_twice:
  assumes "running k" and "fd < FD_MAX"
  shows "ptab (set_fd fd g (set_fd fd f k)) = ptab (set_fd fd (\<lambda>d. g (f d)) k)"
proof -
  note m = running_me [OF assms(1)]
  have "me k < length (procs (ptab k))" using assms(1) m(1) by (simp add: running_def procs_invD(1))
  then show ?thesis using m(3) assms(2) set_fd_me(1) [OF assms(1), of fd f]
    by (simp add: set_fd_def [of _ g] set_fd_def [of _ "\<lambda>d. g (f d)"]) (simp add: set_fd_def proc_upd_def)
qed

text \<open>A change of one descriptor together with the change of the counts that belongs to it.\<close>

lemma set_fd_files:
  assumes r: "running k" and "fd < FD_MAX" and "fd_ok (f (fdt k fd))"
    and s: "sock_inv (kss t) (held_ends (ptab k) - fd_ends (fdt k fd) + fd_ends (f (fdt k fd)))" and p: "ptab t = ptab k"
  shows "files_inv (set_fd fd f t)"
proof -
  have rt: "running t" using r by (simp add: running_cong [OF p])
  have at: "fdt t fd = fdt k fd" by (rule fdt_cong [OF p])
  have "held_ends (ptab (set_fd fd f t)) = held_ends (ptab k) - fd_ends (fdt k fd) + fd_ends (f (fdt k fd))"
    using set_fd_held [OF r assms(2), of f] fd_ends_held [OF r assms(2)]
    by (simp add: ptab_set_fd [OF p]) (metis add_diff_cancel_right' subset_mset.diff_add_assoc2)
  then show ?thesis using s set_fd_running [OF rt assms(2), of f] assms(3) at by (simp add: files_inv_def)
qed

lemma set_fd_keep:
  assumes "files_inv k" and "fd < FD_MAX" and "fd_ok (f (fdt k fd))" and "fd_ends (f (fdt k fd)) = fd_ends (fdt k fd)"
  shows "files_inv (set_fd fd f k)"
  by (rule set_fd_files [where k = k and t = k, OF files_invD(1) [OF assms(1)] assms(2)])
     (use files_invD(2) [OF assms(1)] fd_ends_held [OF files_invD(1) [OF assms(1)] assms(2)] assms(3,4) in \<open>simp_all add: subset_mset.diff_add\<close>)

section \<open>Closing\<close>

definition unlisten :: "proc64_fd \<Rightarrow> proc64_fd" where
  "unlisten d = (if fd_kind d = FD64_SOCKET \<and> fd_sock d \<ge> 0 then d\<lparr>fd_sock := -1\<rparr> else d)"

definition closed :: "proc64_fd \<Rightarrow> proc64_fd" where
  "closed d = (unlisten d)\<lparr>fd_used := False, fd_rx := -1, fd_tx := -1\<rparr>"

lemma unlisten_fields [simp]:
  "fd_kind (unlisten d) = fd_kind d" "fd_node (unlisten d) = fd_node d" "fd_rx (unlisten d) = fd_rx d" "fd_tx (unlisten d) = fd_tx d"
  "fd_used (unlisten d) = fd_used d" "fd_ends (unlisten d) = fd_ends d" "fd_ok (unlisten d) = fd_ok d" "fd_is_stream (unlisten d) = fd_is_stream d"
  "fd_pos (unlisten d) = fd_pos d" "fd_nonblock (unlisten d) = fd_nonblock d"
  by (simp_all add: unlisten_def fd_ends_def fd_ok_def fd_is_stream_def)

lemma closed_ends [simp]: "fd_ends (closed d) = {#}" "fd_ok (closed d)" "\<not> fd_used (closed d)"
  by (simp_all add: closed_def fd_ends_def fd_ok_def)

lemma release_sock_inv:
  assumes inv: "files_inv k" and fd: "fd < FD_MAX"
  shows "\<exists>t. release_sock fd k = Some t \<and> files_inv t \<and> ptab t = ptab (set_fd fd unlisten k)
     \<and> settles (kps k) (kps t) {} {}"
proof (cases "fd_kind (fdt k fd) = FD64_SOCKET \<and> fd_sock (fdt k fd) \<ge> 0")
  case True
  let ?s = "fd_sock (fdt k fd)"
  let ?u = "wake_all (of_nat (sock64_wait_key ?s)) k"
  note D = files_invD [OF inv]
  obtain q where q: "sock64_destroy ?s (kss k) = Some q" "sock_inv q (held_ends (ptab k))" "settles (kps k) (ps q) {} {}"
    using destroy_inv [OF D(2), of ?s] by blast
  let ?t = "set_fd fd (\<lambda>d. d\<lparr>fd_sock := -1\<rparr>) (set_kss q ?u)"
  have u: "files_inv (set_kss q ?u)" using D(1) q(2) by (simp add: files_inv_def running_cong [of "set_kss q ?u" k])
  have at: "fdt (set_kss q ?u) fd = fdt k fd" by (rule fdt_cong) simp
  have "files_inv ?t"
    by (rule set_fd_keep [OF u fd]) (use fdt_ok [OF D(1) fd] True in \<open>simp_all add: at fd_ok_def fd_ends_def fd_is_stream_def\<close>)
  moreover have "ptab ?t = ptab (set_fd fd (\<lambda>d. d\<lparr>fd_sock := -1\<rparr>) k)" by (rule ptab_set_fd) simp
  moreover have "ptab (set_fd fd (\<lambda>d. d\<lparr>fd_sock := -1\<rparr>) k) = ptab (set_fd fd unlisten k)"
    using True by (simp add: set_fd_def proc_upd_def fdt_def unlisten_def)
  ultimately show ?thesis using True q by (auto simp: release_sock_def Let_def)
next
  case False
  have "ptab (set_fd fd unlisten k) = ptab k"
    using False by (auto simp: set_fd_def proc_upd_def fdt_def unlisten_def)
  then show ?thesis using False inv by (auto simp: release_sock_def Let_def)
qed

lemma release_file_inv:
  assumes "files_inv k"
  shows "files_inv (release_file fd k)" "ptab (release_file fd k) = ptab k" "pipes (kps (release_file fd k)) = pipes (kps k)"
proof -
  note D = files_invD [OF assms]
  have "ramfs_ok (ramfs64_unref_node n (kfs k))" for n by (rule unref_node_ok) (rule sock_ramfs [OF D(2)])
  then have s: "sock_inv ((kss k)\<lparr>ps := (kps k)\<lparr>fs := ramfs64_unref_node n (kfs k)\<rparr>\<rparr>) (held_ends (ptab k))" for n
    by (rule sock_inv_fs [OF D(2)])
  show p: "ptab (release_file fd k) = ptab k" by (simp add: release_file_def Let_def)
  show "files_inv (release_file fd k)"
    unfolding files_inv_def running_cong [OF p] p using D s by (simp add: release_file_def Let_def)
  show "pipes (kps (release_file fd k)) = pipes (kps k)" by (simp add: release_file_def Let_def)
qed

lemma release_stream_inv:
  assumes inv: "files_inv k" and fd: "fd < FD_MAX" and us: "fd_used (fdt k fd)"
  shows "\<exists>t. release_stream fd k = Some t \<and> ptab t = ptab k \<and> sock_inv (kss t) (held_ends (ptab k) - fd_ends (fdt k fd))
     \<and> settles (kps k) (kps t) {} {}"
proof (cases "fd_is_stream (fdt k fd)")
  case True
  let ?d = "fdt k fd"
  note D = files_invD [OF inv]
  have e: "fd_ends ?d = pair_ends (fd_rx ?d, fd_tx ?d)"
    using True us by (auto simp: fd_ends_def pair_ends_def fd_is_stream_def FD64_PIPE_def FD64_SOCKET_def FD64_FILE_def)
  have "owned (kss k) + held_ends (ptab k) = pair_ends (fd_rx ?d, fd_tx ?d) + (owned (kss k) + (held_ends (ptab k) - fd_ends ?d))"
    using subset_mset.add_diff_inverse [OF fd_ends_held [OF D(1) fd]] by (simp only: e [symmetric] add.left_commute [of "fd_ends ?d"])
  then obtain q r where "pipe64_unref (fd_rx ?d) True False (kps k) = Some q" "pipe64_unref (fd_tx ?d) False True q = Some r"
    "pipes_inv r (owned (kss k) + (held_ends (ptab k) - fd_ends ?d))" "settles (kps k) r {} {}"
    using unref_pair [of "kps k" "fd_rx ?d" "fd_tx ?d"] sock_invD(2) [OF D(2)] by metis
  then show ?thesis using True sock_inv_ps [OF D(2)] by (auto simp: release_stream_def Let_def)
next
  case False
  let ?d = "fdt k fd"
  note D = files_invD [OF inv]
  have "pend_pipe e < 0" if "e \<in># fd_ends ?d" for e
    using that fdt_ok [OF D(1) fd] False by (auto simp: fd_ends_def fd_ok_def split: if_splits)
  then have "count (held_ends (ptab k)) e = count (held_ends (ptab k) - fd_ends ?d) e" if "0 \<le> pend_pipe e" for e
    using that by (metis count_diff count_eq_zero_iff diff_zero not_less)
  then have "sock_inv (kss k) (held_ends (ptab k) - fd_ends ?d)" using sock_inv_ends [OF _ D(2)] by blast
  then show ?thesis using False by (simp add: release_stream_def)
qed

lemma fd_release_inv:
  assumes inv: "files_inv k"
  shows "\<exists>t. fd_release fd k = Some t \<and> files_inv t
     \<and> (if 0 \<le> fd \<and> fd < int FD_MAX \<and> fd_used (fdt k (nat fd)) then ptab t = ptab (set_fd (nat fd) closed k) else t = k)"
proof (cases "0 \<le> fd \<and> fd < int FD_MAX \<and> fd_used (fdt k (nat fd))")
  case True
  then have fd: "nat fd < FD_MAX" by linarith
  note r = files_invD(1) [OF inv]
  obtain u where u: "release_sock (nat fd) k = Some u" "files_inv u" "ptab u = ptab (set_fd (nat fd) unlisten k)"
    using release_sock_inv [OF inv fd] by blast
  let ?v = "release_file (nat fd) u"
  note v = release_file_inv [OF u(2), of "nat fd"]
  have at: "fdt ?v (nat fd) = unlisten (fdt k (nat fd))"
    using set_fd_at [OF r fd, of unlisten "nat fd"] fdt_cong [of ?v "set_fd (nat fd) unlisten k" "nat fd"] v(2) u(3) by simp
  then obtain w where w: "release_stream (nat fd) ?v = Some w" "ptab w = ptab ?v" "sock_inv (kss w) (held_ends (ptab ?v) - fd_ends (fdt ?v (nat fd)))"
    using release_stream_inv [OF v(1) fd] True by auto
  let ?g = "\<lambda>d. d\<lparr>fd_used := False, fd_rx := -1, fd_tx := -1\<rparr>"
  let ?t = "set_fd (nat fd) ?g w"
  have "files_inv ?t"
    by (rule set_fd_files [OF files_invD(1) [OF v(1)] fd _ _ w(2)]) (use w(3) in \<open>simp_all add: fd_ok_def fd_ends_def\<close>)
  moreover have "ptab ?t = ptab (set_fd (nat fd) closed k)"
  proof -
    have "ptab ?t = ptab (set_fd (nat fd) ?g (set_fd (nat fd) unlisten k))" by (rule ptab_set_fd) (simp add: w(2) v(2) u(3))
    then show ?thesis using set_fd_twice [OF r fd, of ?g unlisten] by (simp add: closed_def [abs_def])
  qed
  ultimately show ?thesis using True u(1) w(1) by (auto simp: fd_release_def)
qed (use inv in \<open>auto simp: fd_release_def\<close>)
definition books :: "kstate \<Rightarrow> bool" where
  "books k \<longleftrightarrow> procs_inv (ptab k) \<and> fds_ok (ptab k) \<and> sock_inv (kss k) (held_ends (ptab k))"

lemma files_books: "files_inv k \<longleftrightarrow> books k \<and> caller k"
  by (auto simp: files_inv_def books_def running_def)

lemma close_all_inv:
  assumes "files_inv k"
  shows "\<exists>t. close_all_files k = Some t \<and> files_inv t \<and> me t = me k \<and> (\<forall>fd < FD_MAX. \<not> fd_used (fdt t fd))
     \<and> (\<forall>i < PROC64_MAX. i \<noteq> me k \<longrightarrow> procs (ptab t) ! i = procs (ptab k) ! i)"
proof -
  have "n \<le> FD_MAX \<Longrightarrow> \<exists>t. each (\<lambda>fd. fd_release (int fd)) [FD_MAX - n..<FD_MAX] u = Some t \<and> files_inv t \<and> me t = me u
     \<and> (\<forall>fd. fd < FD_MAX - n \<longrightarrow> fdt t fd = fdt u fd) \<and> (\<forall>fd. FD_MAX - n \<le> fd \<and> fd < FD_MAX \<longrightarrow> \<not> fd_used (fdt t fd))
     \<and> (\<forall>i < PROC64_MAX. i \<noteq> me u \<longrightarrow> procs (ptab t) ! i = procs (ptab u) ! i)" if "files_inv u" for n u
    using that
  proof (induction n arbitrary: u)
    case (Suc n)
    let ?fd = "FD_MAX - Suc n"
    have fd: "?fd < FD_MAX" and up: "[?fd..<FD_MAX] = ?fd # [FD_MAX - n..<FD_MAX]" using Suc.prems(1) by (auto simp: upt_rec Suc_diff_Suc)
    note r = files_invD(1) [OF Suc.prems(2)]
    obtain v where v: "fd_release (int ?fd) u = Some v" "files_inv v"
      "if fd_used (fdt u ?fd) then ptab v = ptab (set_fd ?fd closed u) else v = u"
      using fd_release_inv [OF Suc.prems(2), of "int ?fd"] fd by fastforce
    have at: "me v = me u" "fdt v j = (if j = ?fd \<and> fd_used (fdt u ?fd) then closed (fdt u ?fd) else fdt u j)"
      "i < PROC64_MAX \<Longrightarrow> i \<noteq> me u \<Longrightarrow> procs (ptab v) ! i = procs (ptab u) ! i" for j i
    proof -
      show "me v = me u" using v(3) set_fd_me(1) [OF r] by (cases "fd_used (fdt u ?fd)") (auto simp: me_def)
      show "fdt v j = (if j = ?fd \<and> fd_used (fdt u ?fd) then closed (fdt u ?fd) else fdt u j)"
        using v(3) set_fd_at [OF r fd] fdt_cong [of v "set_fd ?fd closed u" j] by (auto split: if_splits)
      show "i < PROC64_MAX \<Longrightarrow> i \<noteq> me u \<Longrightarrow> procs (ptab v) ! i = procs (ptab u) ! i" using v(3) set_fd_proc [OF r] by (auto split: if_splits)
    qed
    obtain t where t: "each (\<lambda>fd. fd_release (int fd)) [FD_MAX - n..<FD_MAX] v = Some t" "files_inv t" "me t = me v"
      "\<forall>fd. fd < FD_MAX - n \<longrightarrow> fdt t fd = fdt v fd" "\<forall>fd. FD_MAX - n \<le> fd \<and> fd < FD_MAX \<longrightarrow> \<not> fd_used (fdt t fd)"
      "\<forall>i < PROC64_MAX. i \<noteq> me v \<longrightarrow> procs (ptab t) ! i = procs (ptab v) ! i"
      using Suc.IH [OF _ v(2)] Suc.prems(1) by auto
    have "\<not> fd_used (fdt t j)" if "?fd \<le> j" "j < FD_MAX" for j
    proof (cases "j = ?fd")
      case True
      then have "fdt t j = fdt v j" using t(4) Suc.prems(1) by auto
      then show ?thesis using True at(2) [of j] by auto
    qed (use that t(5) in auto)
    moreover have "fdt t j = fdt u j" if "j < ?fd" for j using that t(4) at(2) [of j] by auto
    ultimately show ?case using up v(1) t(1,2,3,6) at(1,3) by auto
  qed auto
  from this [OF assms, of FD_MAX] obtain t where "each (\<lambda>fd. fd_release (int fd)) [0..<FD_MAX] k = Some t" "files_inv t" "me t = me k"
    "\<forall>fd < FD_MAX. \<not> fd_used (fdt t fd)" "\<forall>i < PROC64_MAX. i \<noteq> me k \<longrightarrow> procs (ptab t) ! i = procs (ptab k) ! i" by auto
  moreover have "proc64_current (ptab k) \<noteq> None" using assms by (simp add: files_books caller_def)
  ultimately show ?thesis by (auto simp: close_all_files_def)
qed

section \<open>Making and copying descriptors\<close>

lemma fd_alloc_spec:
  assumes "fd_alloc from k = (n, t)"
  shows "ptab t = ptab k" "kss t = kss k" "umem t = umem k" "sch (sigs t) = sch (sigs k)" "0 \<le> n \<Longrightarrow> nat n < FD_MAX \<and> \<not> fd_used (fdt k (nat n))"
  using assms by (auto simp: fd_alloc_def dest: find_in split: option.splits)

lemma init_pipe_inv:
  assumes inv: "files_inv k" and fd: "fd < FD_MAX" "\<not> fd_used (fdt k fd)"
    and v: "0 \<le> r \<Longrightarrow> pipe64_valid r (kps k)" "0 \<le> w \<Longrightarrow> pipe64_valid w (kps k)"
  shows "files_inv (fd_init_pipe fd r w nonblock cloexec k)" "pipe64_valid q (kps (fd_init_pipe fd r w nonblock cloexec k)) = pipe64_valid q (kps k)"
proof -
  note D = files_invD [OF inv]
  define f where "f = (\<lambda>d :: proc64_fd. d\<lparr>fd_kind := FD64_PIPE, fd_node := -1, fd_pos := 0, fd_rx := r, fd_tx := w, fd_sock := -1,
            fd_nonblock := nonblock, fd_cloexec := cloexec, fd_used := True\<rparr>)"
  let ?p = "pipe64_ref w False True (pipe64_ref r True False (kps k))"
  have e: "fd_ends (f d) = ends r True False + ends w False True" "fd_ok (f d)" for d
    by (simp_all add: f_def fd_ends_def ends_def fd_ok_def fd_is_stream_def FD64_PIPE_def FD64_FILE_def)
  have "pipes_inv ?p (owned (kss k) + held_ends (ptab k) + ends r True False + ends w False True)"
    by (intro ref_pipes_any sock_invD(2) [OF D(2)]) (use v in simp_all)
  then have s: "sock_inv ((kss k)\<lparr>ps := ?p\<rparr>) (held_ends (ptab k) + fd_ends (f d))" for d
    by (intro sock_inv_ps [OF D(2)]) (simp add: e add.assoc)
  have "files_inv (set_fd fd f (set_kps ?p k))"
    by (rule set_fd_files [where k = k, OF D(1) fd(1)]) (use s [of "fdt k fd"] fd(2) e in \<open>simp_all add: fd_ends_def [of "fdt k fd"]\<close>)
  moreover have "ptab (fd_init_pipe fd r w nonblock cloexec k) = ptab (set_fd fd f (set_kps ?p k))"
    by (simp add: fd_init_pipe_def f_def Let_def) (rule ptab_set_fd, simp)
  moreover have "kss (fd_init_pipe fd r w nonblock cloexec k) = kss (set_fd fd f (set_kps ?p k))" by (simp add: fd_init_pipe_def Let_def)
  ultimately show "files_inv (fd_init_pipe fd r w nonblock cloexec k)" using files_inv_cong by blast
  show "pipe64_valid q (kps (fd_init_pipe fd r w nonblock cloexec k)) = pipe64_valid q (kps k)" by (simp add: fd_init_pipe_def Let_def)
qed

lemma copy_fd_inv:
  assumes inv: "files_inv k" and new: "new < FD_MAX" "\<not> fd_used (fdt k new)" and old: "old < FD_MAX" "fd_used (fdt k old)"
  shows "files_inv (copy_fd new old cloexec k)"
proof -
  note D = files_invD [OF inv]
  let ?d = "(fdt k old)\<lparr>fd_cloexec := cloexec\<rparr>"
  let ?u = "set_fd new (\<lambda>_. ?d) k" and ?p = "count_fd (fdt k old) (kps k)"
  have e: "fd_ends ?d = fd_ends (fdt k old)" "fd_ok ?d" using fdt_ok [OF D(1) old(1)] by (simp_all add: fd_ends_def fd_ok_def fd_is_stream_def)
  have at: "fdt ?u new = ?d" using set_fd_at [OF D(1) new(1)] by simp
  have k: "kss (copy_fd new old cloexec k) = (kss k)\<lparr>ps := ?p\<rparr>" "ptab (copy_fd new old cloexec k) = ptab ?u"
    using old(2) new(1) by (simp_all add: copy_fd_def fd_take_ref_def at count_fd_def)
  have "fd_ends (fdt k old) \<subseteq># owned (kss k) + held_ends (ptab k)"
    using fd_ends_held [OF D(1) old(1)] by (simp add: subset_mset.add_increasing)
  then have "pipes_inv ?p (owned (kss k) + (held_ends (ptab k) + fd_ends ?d))"
    using count_fd_pipes [OF sock_invD(2) [OF D(2)], of "fdt k old"] by (simp add: e(1) add.assoc)
  then have s: "sock_inv ((kss k)\<lparr>ps := ?p\<rparr>) (held_ends (ptab k) + fd_ends ?d)" by (rule sock_inv_ps [OF D(2)])
  have "files_inv (set_fd new (\<lambda>_. ?d) (set_kps ?p k))"
    by (rule set_fd_files [where k = k, OF D(1) new(1)]) (use s new(2) e(2) in \<open>simp_all add: fd_ends_def [of "fdt k new"]\<close>)
  moreover have "ptab (set_fd new (\<lambda>_. ?d) (set_kps ?p k)) = ptab ?u" by (rule ptab_set_fd) simp
  ultimately show ?thesis using k files_inv_cong [of "copy_fd new old cloexec k" "set_fd new (\<lambda>_. ?d) (set_kps ?p k)"] by simp
qed

lemma dup_from_inv:
  assumes inv: "files_inv k" and old: "old < FD_MAX" "fd_used (fdt k old)" and c: "dup_from from old cloexec k = Some (r, t)"
  shows "files_inv t"
proof -
  obtain n u where u: "fd_alloc from k = (n, u)" by fastforce
  note s = fd_alloc_spec [OF u]
  have iu: "files_inv u" using inv files_inv_cong [of u k] s by simp
  have at: "fdt u j = fdt k j" for j by (rule fdt_cong [OF s(1)])
  show ?thesis
  proof (cases "n < 0")
    case False
    then have "files_inv (copy_fd (nat n) old cloexec u)" using s(5) old by (intro copy_fd_inv [OF iu]) (simp_all add: at)
    then show ?thesis using c u False by (simp add: dup_from_def)
  qed (use c u iu in \<open>simp add: dup_from_def\<close>)
qed

lemma create_pipe_inv:
  assumes inv: "files_inv k" and c: "pipe64_create (kps k) = Some (p, q)"
  shows "files_inv (set_kps q k)" "0 \<le> p \<Longrightarrow> pipe64_valid p q"
proof -
  note D = files_invD [OF inv]
  note cr = create_pipes [OF sock_invD(2) [OF D(2)] c]
  have "sock_inv ((kss k)\<lparr>ps := q\<rparr>) (held_ends (ptab k))" by (rule sock_inv_ps [OF D(2) cr(1)])
  then show "files_inv (set_kps q k)" using D(1) by (simp add: files_inv_def running_cong [of "set_kps q k" k])
  show "0 \<le> p \<Longrightarrow> pipe64_valid p q" using cr(2) by auto
qed

lemma unref_none_inv:
  assumes inv: "files_inv k" and c: "pipe64_unref p False False (kps k) = Some q"
  shows "files_inv (set_kps q k)"
proof -
  note D = files_invD [OF inv]
  have "pipes_inv q (owned (kss k) + held_ends (ptab k))"
    using unref_pipes [of "kps k" p False False "owned (kss k) + held_ends (ptab k)"] sock_invD(2) [OF D(2)] c by (auto simp: ends_def)
  then have "sock_inv ((kss k)\<lparr>ps := q\<rparr>) (held_ends (ptab k))" by (rule sock_inv_ps [OF D(2)])
  then show ?thesis using D(1) by (simp add: files_inv_def running_cong [of "set_kps q k" k])
qed
section \<open>Leaving for another task\<close>

lemma idle_frame:
  assumes "idle_until_runnable ev s = Some (n, s')"
  shows "ptable s' = ptable s" "smach s' = smach s"
proof -
  obtain t where t: "idle_loop ev 0 (s\<lparr>idling := True\<rparr>) = Some (n, t)" "s' = t\<lparr>idling := False\<rparr>"
    using assms by (auto simp: idle_until_runnable_def split: bind_splits)
  then show "ptable s' = ptable s" "smach s' = smach s" using idle_loop_ended [OF t(1)] by (auto simp: waits_ended_def)
qed

lemma leave_for_frame:
  assumes "leave_for n s = (out, s')"
  shows "ptable s' = proc64_set_current (t_pid (tasks s' ! n)) (ptable s)" "smach s' = smach s" "out \<noteq> None"
proof -
  show "smach s' = smach s" "out \<noteq> None" using assms by (auto simp: leave_for_def switch_to_def tupd_def Let_def)
  have "t_pid ((tasks s)[i := (tasks s ! i)\<lparr>t_gs_base := a, t_fpu := b\<rparr>] ! n) = t_pid (tasks s ! n)" for i a b
    by (cases "i < length (tasks s)"; cases "i = n") (simp_all add: list_update_beyond)
  then show "ptable s' = proc64_set_current (t_pid (tasks s' ! n)) (ptable s)"
    using assms by (auto simp: leave_for_def switch_to_def tupd_def Let_def)
qed

lemma block_frame:
  assumes "sched64_block_until_ex ev r addr w tm d b s = Some (out, s')"
  shows "if out = None then ptable s' = ptable s else \<exists>p. ptable s' = proc64_set_current p (ptable s)" and "smach s' = smach s"
proof -
  have "(if out = None then ptable s' = ptable s else \<exists>p. ptable s' = proc64_set_current p (ptable s)) \<and> smach s' = smach s"
  proof (cases "no_current s")
    case False
    let ?c = "nat (current s)"
    define t where "t = parked r addr w tm d b s"
    have t: "ptable t = ptable s" "smach t = smach s" by (simp_all add: t_def parked_def tupd_def)
    have e: "(if next_task ?c t = ?c \<or> t_blocked (tasks t ! next_task ?c t)
         then (if irq0_masked t \<or> \<not> any_deadline t then Some (None, unblock ?c t)
               else do { (n, s) \<leftarrow> idle_until_runnable ev t; Some (case n of None \<Rightarrow> (None, unblock ?c s) | Some n \<Rightarrow> leave_for n s) })
         else Some (leave_for (next_task ?c t) t)) = Some (out, s')"
      using assms unfolding block_unfold [OF False] t_def [symmetric] Let_def by (simp only: )
    have un: "ptable (unblock ?c u) = ptable u" "smach (unblock ?c u) = smach u" for u by (simp_all add: unblock_def tupd_def)
    show ?thesis
    proof (cases "next_task ?c t = ?c \<or> t_blocked (tasks t ! next_task ?c t)")
      case wait: True
      show ?thesis
      proof (cases "irq0_masked t \<or> \<not> any_deadline t")
        case True
        then show ?thesis using e wait t un by (simp only: if_True) auto
      next
        case False
        obtain n u where u: "idle_until_runnable ev t = Some (n, u)" "(case n of None \<Rightarrow> (None, unblock ?c u) | Some n \<Rightarrow> leave_for n u) = (out, s')"
          using e wait False by (simp only: if_True if_False) (auto split: bind_splits)
        show ?thesis
        proof (cases n)
          case None
          then show ?thesis using u t un idle_frame [OF u(1)] by auto
        next
          case (Some m)
          then show ?thesis using u(2) t leave_for_frame [of m u out s'] idle_frame [OF u(1)] by auto
        qed
      qed
    next
      case go: False
      then have "leave_for (next_task ?c t) t = (out, s')" using e by (simp only: if_False option.inject)
      from leave_for_frame [OF this] show ?thesis using t by auto
    qed
  qed (use assms in \<open>simp add: sched64_block_until_ex_def\<close>)
  then show "if out = None then ptable s' = ptable s else \<exists>p. ptable s' = proc64_set_current p (ptable s)" "smach s' = smach s" by blast+
qed

lemma kss_machine: "kss (set_ksch s k) = (kss k)\<lparr>ps := (kps k)\<lparr>fs := with_machine (smach s) (kfs k)\<rparr>\<rparr>"
  by (simp add: set_ksch_def kss_def with_machine_def)

lemma set_ksch_books:
  assumes "books k" and "procs (ptable s) = procs (ptab k)" and "next_pid (ptable s) = next_pid (ptab k)"
  shows "books (set_ksch s k)"
proof -
  have s: "sock_inv (kss k) (held_ends (ptab k))" using assms(1) by (simp add: books_def)
  have "sock_inv (kss (set_ksch s k)) (held_ends (ptab k))"
    unfolding kss_machine with_machine_def by (rule sock_inv_fs [OF s]) (rule ramfs_ok_heap [OF sock_ramfs [OF s]])
  moreover have "held_ends (ptable s) = held_ends (ptab k)" "procs_inv (ptable s) = procs_inv (ptab k)" "fds_ok (ptable s) = fds_ok (ptab k)"
    using assms(2,3) by (simp_all add: held_ends_def procs_inv_def fds_ok_def)
  ultimately show ?thesis using assms(1) by (simp add: books_def)
qed

lemma set_current_procs [simp]: "procs (proc64_set_current p s) = procs s" "next_pid (proc64_set_current p s) = next_pid s"
  by (simp_all add: proc64_set_current_def)

lemma leave_to_books:
  assumes "books k" and "leave_to x k = (r, t)"
  shows "books t"
  using assms by (auto simp: leave_to_def Let_def split: prod.splits intro!: set_ksch_books)

lemma park_books:
  assumes inv: "files_inv k" and f: "\<And>u. files_inv u \<Longrightarrow> f u = Some (r, t) \<Longrightarrow> books t" and p: "park ev self key nr f k = Some (r, t)"
  shows "books t"
proof -
  have bk: "books k" using inv by (simp add: files_books)
  obtain out s where s: "sched64_block_current ev self key nr (ksch k) = Some (out, s)" "(case out of Some x \<Rightarrow> Some (leave_to x (set_ksch s k)) | None \<Rightarrow> f (set_ksch s k)) = Some (r, t)"
    using p by (auto simp: park_def split: bind_splits)
  note B = block_frame [OF s(1) [unfolded sched64_block_current_def sched64_block_until_def]]
  have b: "books (set_ksch s k)" by (rule set_ksch_books [OF bk]) (use B(1) in \<open>auto split: if_splits\<close>)
  show ?thesis
  proof (cases out)
    case None
    then have "files_inv (set_ksch s k)" using b inv B(1) caller_cong [of "set_ksch s k" k] by (simp add: files_books)
    then show ?thesis using f s(2) None by simp
  next
    case (Some x)
    then have "leave_to x (set_ksch s k) = (r, t)" using s(2) by simp
    then show ?thesis by (rule leave_to_books [OF b])
  qed
qed

section \<open>Reading and writing\<close>

lemma files_inv_ps:
  assumes "files_inv k" and "pipes_inv q (owned (kss k) + held_ends (ptab k))" and "ptab t = ptab k" and "kss t = (kss k)\<lparr>ps := q\<rparr>"
  shows "files_inv t"
  using files_invD [OF assms(1)] sock_inv_ps [OF _ assms(2)] by (simp add: files_inv_def running_cong [OF assms(3)] assms(3,4))

lemma pipe_write_inv:
  assumes inv: "files_inv k"
  shows "\<exists>w t. do_pipe_write fd src n k = Some (w, t) \<and> files_inv t \<and> ptab t = ptab k \<and> umem t = umem k"
proof (cases "fd_tx (fdt k fd) < 0")
  case False
  let ?p = "fd_tx (fdt k fd)"
  obtain w q where q: "pipe64_write ?p (bytes_at (umem k) src n) (kps k) = Some (w, q)" "pipes_inv q (owned (kss k) + held_ends (ptab k))"
    using write_pipes [OF sock_invD(2) [OF files_invD(2) [OF inv]]] by blast
  let ?t = "if w > 0 then wake_all (PIPE64_WAIT_KEY ?p) (set_kps q k) else set_kps q k"
  have "files_inv ?t" by (rule files_inv_ps [OF inv q(2)]) simp_all
  then show ?thesis using False q(1) by (simp add: do_pipe_write_def Let_def)
qed (use inv in \<open>auto simp: do_pipe_write_def\<close>)

lemma write_run_inv:
  assumes "write_run fd src left dn k = Some (r, t)" and "files_inv k"
  shows "files_inv t"
proof -
  have "files_inv k \<longrightarrow> files_inv (snd (r, t))"
  proof (rule write_run.raw_induct [where P = "\<lambda>fd src left dn k x. files_inv k \<longrightarrow> files_inv (snd x)", OF _ assms(1)], intro impI)
    fix loop :: "nat \<Rightarrow> nat \<Rightarrow> nat \<Rightarrow> nat \<Rightarrow> kstate \<Rightarrow> (progress \<times> kstate) option" and fd src left dn k x
    assume IH: "\<And>fd src left dn k x. loop fd src left dn k = Some x \<Longrightarrow> files_inv k \<longrightarrow> files_inv (snd x)"
      and step: "(if left = 0 then Some (Sent dn, k)
      else do {
        (w, k) \<leftarrow> do_pipe_write fd src left k;
        if w = -11 then Some (Full dn, k)
        else if w < 0 then Some (Stopped w dn, k)
        else loop fd (add64 src (nat w)) (sub64 left (nat w)) (add64 dn (nat w)) k
      }) = Some x" and inv: "files_inv k"
    obtain w t where "do_pipe_write fd src left k = Some (w, t)" "files_inv t" using pipe_write_inv [OF inv] by blast
    then show "files_inv (snd x)" using step inv IH by (auto split: if_splits)
  qed
  then show ?thesis using assms(2) by simp
qed

lemma write_vecs_inv: "write_vecs fd iov skip dn k = Some (r, t) \<Longrightarrow> files_inv k \<Longrightarrow> files_inv t"
proof (induction fd iov skip dn k rule: write_vecs.induct)
  case (2 fd base len iov skip dn k)
  show ?case
  proof (cases "skip \<ge> len")
    case False
    then obtain p u where u: "write_run fd (add64 base skip) (len - skip) dn k = Some (p, u)" "(case p of Sent dn \<Rightarrow> write_vecs fd iov 0 dn u | _ \<Rightarrow> Some (p, u)) = Some (r, t)"
      using 2(3) by (auto split: bind_splits)
    then show ?thesis using write_run_inv [OF u(1) 2(4)] 2(2) [OF False u(1)] by (cases p) auto
  qed (use 2 in simp)
qed simp

lemma stream_write_books:
  assumes inv: "files_inv k" and c: "stream_write ev x nr fd iov k = Some (r, t)"
  shows "books t"
proof -
  define i where "i = nat (sched64_current (ksch k))"
  define dn where "dn = (if \<not> bad_task (sched64_current (ksch k)) \<and> same_write x nr fd (wprog k ! i) then w_done (wprog k ! i) else 0)"
  define u where "u = (if \<not> bad_task (sched64_current (ksch k)) then k\<lparr>wprog := (wprog k)[i := (wprog k ! i)\<lparr>w_active := False\<rparr>]\<rparr> else k)"
  have iu: "files_inv u" using inv files_inv_cong [of u k] by (simp add: u_def)
  obtain p v where v: "write_vecs fd iov dn dn u = Some (p, v)"
    using c unfolding stream_write_def Let_def i_def [symmetric] dn_def [symmetric] u_def [symmetric] by (auto split: bind_splits)
  have iv: "files_inv v" by (rule write_vecs_inv [OF v iu])
  then have bv: "books v" by (simp add: files_books)
  have wp: "caller (a\<lparr>wprog := ws\<rparr>) = caller a" "books (a\<lparr>wprog := ws\<rparr>) = books a" for a ws by (rule caller_cong) (simp_all add: books_def)
  show ?thesis
    using c iv bv unfolding stream_write_def Let_def i_def [symmetric] dn_def [symmetric] u_def [symmetric]
    by (auto simp: v wp files_books split: progress.splits if_splits elim!: park_books [rotated 2])
qed

lemma pipe_read_books:
  assumes inv: "files_inv k" and c: "do_pipe_read ev x nr fd dst n k = Some (r, t)"
  shows "books t"
proof (cases "fd_rx (fdt k fd) < 0")
  case False
  let ?p = "fd_rx (fdt k fd)"
  obtain v ys q where q: "pipe64_read ?p n (kps k) = Some (v, ys, q)" "pipes_inv q (owned (kss k) + held_ends (ptab k))"
    using read_pipes [OF sock_invD(2) [OF files_invD(2) [OF inv]]] by blast
  define u where "u = (if v > 0 then wake_all (PIPE64_WAIT_KEY ?p) ((set_kps q k)\<lparr>umem := write_bytes (umem k) dst ys\<rparr>) else (set_kps q k)\<lparr>umem := write_bytes (umem k) dst ys\<rparr>)"
  have iu: "files_inv u" by (rule files_inv_ps [OF inv q(2)]) (simp_all add: u_def)
  then have bu: "books u" by (simp add: files_books)
  have "(if v \<noteq> -11 then Some (Val v, u) else if fd_nonblock (fdt u fd) then Some (Val (-11), u) else if signal_interrupts_wait u then Some (Val (-4), u)
      else park ev (restart_frame x nr u) (PIPE64_WAIT_KEY ?p) nr (\<lambda>k. Some (Val (-11), k)) u) = Some (r, t)"
    using c q(1) False by (simp add: do_pipe_read_def Let_def u_def [symmetric] cong: if_cong split del: if_split)
  then show ?thesis using bu by (auto simp: files_books split: if_splits elim!: park_books [OF iu, rotated])
qed (use inv c in \<open>simp add: do_pipe_read_def files_books\<close>)
section \<open>The calls\<close>

lemma no_fdD: "\<not> no_fd a k \<Longrightarrow> unat a < FD_MAX \<and> fd_used (fdt k (unat a))"
  by (simp add: no_fd_def)

lemma alloc_inv:
  assumes "fd_alloc from k = (n, t)" and "files_inv k"
  shows "files_inv t" "kss t = kss k" "ptab t = ptab k" "\<not> n < 0 \<Longrightarrow> nat n < FD_MAX \<and> \<not> fd_used (fdt t (nat n))"
proof -
  note s = fd_alloc_spec [OF assms(1)]
  show "files_inv t" using assms(2) files_inv_cong [of t k] s by simp
  show "kss t = kss k" "ptab t = ptab k" by (rule s)+
  show "\<not> n < 0 \<Longrightarrow> nat n < FD_MAX \<and> \<not> fd_used (fdt t (nat n))" using s(5) fdt_cong [OF s(1)] by simp
qed

lemma fd_release_at:
  assumes "files_inv k" and "fd < FD_MAX"
  shows "\<exists>t. fd_release (int fd) k = Some t \<and> files_inv t \<and> (if fd_used (fdt k fd) then ptab t = ptab (set_fd fd closed k) else t = k)"
  using fd_release_inv [OF assms(1), of "int fd"] assms(2) by (simp cong: if_cong split del: if_split)

lemma close_inv:
  assumes "files_inv k"
  shows "\<exists>r t. sys_close x k = Some (r, t) \<and> files_inv t"
  using assms fd_release_inv [OF assms, of "int (unat (a1 x))"] by (auto simp: sys_close_def)

lemma pipe2_inv:
  assumes inv: "files_inv k" and c: "sys_pipe2 x k = Some (r, t)"
  shows "files_inv t"
proof (cases "a1 x = 0")
  case a: False
  obtain p q where q: "pipe64_create (kps k) = Some (p, q)" using c a by (auto simp: sys_pipe2_def Let_def split: bind_splits)
  note cr = create_pipe_inv [OF inv q]
  obtain rd k2 where k2: "fd_alloc 3 (set_kps q k) = (rd, k2)" by fastforce
  note i2 = alloc_inv [OF k2 cr(1)]
  show ?thesis
  proof (cases "p < 0 \<or> rd < 0")
    case True
    then show ?thesis using c a q k2 cr(1) unref_none_inv [OF i2(1)] by (auto simp: sys_pipe2_def Let_def split: if_splits bind_splits)
  next
    case False
    define k3 where "k3 = fd_init_pipe (nat rd) p (-1) (flag (a2 x) O_NONBLOCK) (flag (a2 x) O_CLOEXEC) k2"
    have pv: "pipe64_valid p (kps k2)" using cr(2) i2(2) False by simp
    have i3: "files_inv k3" "pipe64_valid p (kps k3)"
      unfolding k3_def using init_pipe_inv [OF i2(1)] i2(4) False pv by simp_all
    obtain wr k4 where k4: "fd_alloc 3 k3 = (wr, k4)" by fastforce
    note i4 = alloc_inv [OF k4 i3(1)]
    show ?thesis
    proof (cases "wr < 0")
      case True
      have "fd_release rd k4 = Some t" using c a q k2 False k4 True by (auto simp: sys_pipe2_def Let_def k3_def split: bind_splits)
      then show ?thesis using fd_release_inv [OF i4(1), of rd] by auto
    next
      case wr: False
      define k5 where "k5 = fd_init_pipe (nat wr) (-1) p (flag (a2 x) O_NONBLOCK) (flag (a2 x) O_CLOEXEC) k4"
      have i5: "files_inv k5" unfolding k5_def using init_pipe_inv(1) [OF i4(1)] i4(2,4) i3(2) wr by simp
      have "ptab t = ptab k5" "kss t = kss k5" using c a q k2 False k4 wr by (auto simp: sys_pipe2_def Let_def k3_def k5_def)
      then show ?thesis using i5 files_inv_cong by blast
    qed
  qed
qed (use inv c in \<open>simp add: sys_pipe2_def\<close>)

lemma socketpair_inv:
  assumes inv: "files_inv k" and c: "sys_socketpair x k = Some (r, t)"
  shows "files_inv t"
proof (cases "a1 x \<noteq> 1 \<or> a2 x AND 0xFF \<noteq> 1 \<or> a4 x = 0")
  case a: False
  obtain p q where q: "pipe64_create (kps k) = Some (p, q)" using c a by (auto simp: sys_socketpair_def Let_def split: bind_splits)
  note cr = create_pipe_inv [OF inv q]
  show ?thesis
  proof (cases "p < 0")
    case p: False
    obtain p2 z where z: "pipe64_create q = Some (p2, z)" using c a q p by (auto simp: sys_socketpair_def Let_def split: bind_splits)
    then have "pipe64_create (kps (set_kps q k)) = Some (p2, z)" by simp
    note cz = create_pipe_inv [OF cr(1) this]
    define k1 where "k1 = set_kps z (set_kps q k)"
    have i1: "files_inv k1" "kps k1 = z" using cz(1) by (simp_all add: k1_def)
    have pv: "pipe64_valid p z" using create_other(2) [OF z] cr(2) p by simp
    obtain s0 k2 where k2: "fd_alloc 3 k1 = (s0, k2)" by fastforce
    note i2 = alloc_inv [OF k2 i1(1)]
    show ?thesis
    proof (cases "p2 < 0 \<or> s0 < 0")
      case True
      show ?thesis
      proof (cases "p2 < 0")
        case True
        then obtain y where "pipe64_unref p False False (kps k1) = Some y" "t = set_kps y k1"
          using c a q p z by (auto simp: sys_socketpair_def Let_def k1_def split: bind_splits)
        then show ?thesis using unref_none_inv [OF i1(1)] by simp
      next
        case False
        then obtain y y' where y: "pipe64_unref p False False (kps k2) = Some y" "pipe64_unref p2 False False y = Some y'" "t = set_kps y' k2"
          using c a q p z True k2 by (auto simp: sys_socketpair_def Let_def k1_def [symmetric] split: bind_splits)
        have "files_inv (set_kps y k2)" by (rule unref_none_inv [OF i2(1) y(1)])
        from unref_none_inv [OF this, of p2 y'] y(2) have f: "files_inv (set_kps y' (set_kps y k2))" by simp
        then show ?thesis using files_inv_cong [of t "set_kps y' (set_kps y k2)"] y(3) by simp
      qed
    next
      case False
      then have b: "\<not> p2 < 0" "\<not> s0 < 0" by auto
      have v2: "pipe64_valid p (kps k2)" "pipe64_valid p2 (kps k2)" using pv cz(2) b i2(2) i1(2) by simp_all
      define k3 where "k3 = fd_init_pipe (nat s0) p p2 (flag (a2 x) O_NONBLOCK) (flag (a2 x) O_CLOEXEC) k2"
      have i3: "files_inv k3" "pipe64_valid p (kps k3)" "pipe64_valid p2 (kps k3)"
        unfolding k3_def using init_pipe_inv [OF i2(1)] i2(4) b v2 by simp_all
      obtain s1 k4 where k4: "fd_alloc 3 k3 = (s1, k4)" by fastforce
      note i4 = alloc_inv [OF k4 i3(1)]
      show ?thesis
      proof (cases "s1 < 0")
        case True
        then obtain k5 y where y: "fd_release s0 k4 = Some k5" "pipe64_unref p2 False False (kps k5) = Some y" "t = set_kps y k5"
          using c a q p z b k2 k4 by (auto simp: sys_socketpair_def Let_def k1_def [symmetric] k3_def [symmetric] split: bind_splits)
        then have "files_inv k5" using fd_release_inv [OF i4(1), of s0] by auto
        then show ?thesis using unref_none_inv y(2,3) by blast
      next
        case s1: False
        define k5 where "k5 = fd_init_pipe (nat s1) p2 p (flag (a2 x) O_NONBLOCK) (flag (a2 x) O_CLOEXEC) k4"
        have i5: "files_inv k5" unfolding k5_def using init_pipe_inv(1) [OF i4(1)] i4(2,4) i3(2,3) s1 by simp
        have "ptab t = ptab k5" "kss t = kss k5"
          using c a q p z b k2 k4 s1 by (auto simp: sys_socketpair_def Let_def k1_def [symmetric] k3_def [symmetric] k5_def [symmetric])
        then show ?thesis using i5 files_inv_cong by blast
      qed
    qed
  qed (use c a q cr(1) in \<open>simp add: sys_socketpair_def\<close>)
qed (use inv c in \<open>auto simp: sys_socketpair_def Let_def split: if_splits\<close>)

lemma fcntl_inv:
  assumes inv: "files_inv k" and c: "sys_fcntl x k = Some (r, t)"
  shows "files_inv t"
proof (cases "no_fd (a1 x) k")
  case False
  note fd = no_fdD [OF False]
  note ok = fdt_ok [OF files_invD(1) [OF inv] conjunct1 [OF fd]]
  have s: "files_inv (set_fd (unat (a1 x)) (\<lambda>d. d\<lparr>fd_cloexec := b\<rparr>) k)" "files_inv (set_fd (unat (a1 x)) (\<lambda>d. d\<lparr>fd_nonblock := b\<rparr>) k)" for b
    using ok fd by (intro set_fd_keep [OF inv]; simp add: fd_ok_def fd_ends_def fd_is_stream_def)+
  show ?thesis using c False inv s dup_from_inv [OF inv] fd by (auto simp: sys_fcntl_def Let_def split: if_splits)
qed (use inv c in \<open>simp add: sys_fcntl_def\<close>)

lemma dup_inv: "files_inv k \<Longrightarrow> sys_dup x k = Some (r, t) \<Longrightarrow> files_inv t"
  using dup_from_inv [of k] by (auto simp: sys_dup_def dest!: no_fdD split: if_splits)

lemma dup2_inv:
  assumes inv: "files_inv k" and c: "sys_dup2 dup3 x k = Some (r, t)"
  shows "files_inv t"
proof (cases "no_fd (a1 x) k \<or> unat (a2 x) \<ge> FD_MAX \<or> a1 x = a2 x")
  case False
  then have f: "unat (a1 x) < FD_MAX" "fd_used (fdt k (unat (a1 x)))" "unat (a2 x) < FD_MAX" "unat (a1 x) \<noteq> unat (a2 x)"
    by (auto simp: no_fd_def word_unat_eq_iff)
  note r = files_invD(1) [OF inv]
  obtain u where u: "fd_release (int (unat (a2 x))) k = Some u" "files_inv u"
    "if fd_used (fdt k (unat (a2 x))) then ptab u = ptab (set_fd (unat (a2 x)) closed k) else u = k"
    using fd_release_at [OF inv f(3)] by blast
  have at: "fdt u j = (if j = unat (a2 x) \<and> fd_used (fdt k j) then closed (fdt k j) else fdt k j)" for j
    using u(3) set_fd_at [OF r f(3)] fdt_cong [of u "set_fd (unat (a2 x)) closed k" j] by (auto split: if_splits)
  have "files_inv (copy_fd (unat (a2 x)) (unat (a1 x)) ce u)" for ce
    using f by (intro copy_fd_inv [OF u(2)]) (auto simp: at)
  then show ?thesis using c False u(1) by (auto simp: sys_dup2_def)
qed (use inv c in \<open>auto simp: sys_dup2_def split: if_splits\<close>)

lemma lseek_inv:
  assumes inv: "files_inv k" and c: "sys_lseek x k = Some (r, t)"
  shows "files_inv t"
proof (cases "no_fd (a1 x) k")
  case False
  note fd = no_fdD [OF False]
  note ok = fdt_ok [OF files_invD(1) [OF inv] conjunct1 [OF fd]]
  have "files_inv (set_fd (unat (a1 x)) (\<lambda>d. d\<lparr>fd_pos := v\<rparr>) k)" for v
    using ok fd by (intro set_fd_keep [OF inv]) (simp_all add: fd_ok_def fd_ends_def fd_is_stream_def)
  then show ?thesis using c False inv by (auto simp: sys_lseek_def Let_def split: if_splits option.splits)
qed (use inv c in \<open>simp add: sys_lseek_def\<close>)
lemma drop_end_inv:
  assumes inv: "files_inv k" and fd: "fd < FD_MAX" "fd_used (fdt k fd)" "fd_is_stream (fdt k fd)"
    and p: "p = (if reader then fd_rx (fdt k fd) else fd_tx (fdt k fd))"
    and f: "f = (if reader then fd_rx_update (\<lambda>_. -1) else fd_tx_update (\<lambda>_. -1))" and c: "drop_end p reader f fd k = Some t"
  shows "files_inv t" "fdt t fd = (if p \<ge> 0 then f (fdt k fd) else fdt k fd)"
proof -
  note D = files_invD [OF inv]
  let ?d = "fdt k fd" and ?H = "held_ends (ptab k)"
  have "files_inv t \<and> fdt t fd = (if p \<ge> 0 then f (fdt k fd) else fdt k fd)"
  proof (cases "p \<ge> 0")
    case True
    then obtain q where q: "pipe64_unref p reader (\<not> reader) (kps k) = Some q" "t = wake_all (PIPE64_WAIT_KEY p) (set_fd fd f (set_kps q k))"
      using c by (auto simp: drop_end_def split: bind_splits)
    have nf: "fd_kind ?d \<noteq> FD64_FILE" using fd(3) by (auto simp: fd_is_stream_def FD64_FILE_def FD64_PIPE_def FD64_SOCKET_def)
    have e: "fd_ends ?d = ends p reader (\<not> reader) + (if reader then {#Wr (fd_tx ?d)#} else {#Rd (fd_rx ?d)#})"
      "fd_ends (f ?d) = (if reader then {#Rd (-1)#} else {#Wr (-1)#}) + (if reader then {#Wr (fd_tx ?d)#} else {#Rd (fd_rx ?d)#})"
      using fd(2) nf by (simp_all add: fd_ends_def ends_def p f)
    have sub: "fd_ends ?d \<subseteq># ?H" by (rule fd_ends_held [OF D(1) fd(1)])
    define K where "K = ?H - fd_ends ?d"
    have "K + fd_ends ?d = ?H" unfolding K_def by (rule subset_mset.diff_add [OF sub])
    then have H: "?H = K + (ends p reader (\<not> reader) + (if reader then {#Wr (fd_tx ?d)#} else {#Rd (fd_rx ?d)#}))" by (simp only: e(1))
    have "owned (kss k) + ?H = ends p reader (\<not> reader) + (owned (kss k) + (K + (if reader then {#Wr (fd_tx ?d)#} else {#Rd (fd_rx ?d)#})))"
      unfolding H by (simp only: ac_simps)
    then have "pipes_inv q (owned (kss k) + (K + (if reader then {#Wr (fd_tx ?d)#} else {#Rd (fd_rx ?d)#})))"
      using unref_pipes [of "kps k" p reader "\<not> reader"] sock_invD(2) [OF D(2)] q(1) by (metis option.inject)
    then have "sock_inv ((kss k)\<lparr>ps := q\<rparr>) (K + (if reader then {#Wr (fd_tx ?d)#} else {#Rd (fd_rx ?d)#}))" by (rule sock_inv_ps [OF D(2)])
    then have "sock_inv ((kss k)\<lparr>ps := q\<rparr>) (K + fd_ends (f ?d))"
      by (rule sock_inv_ends [rotated]) (auto simp: e(2))
    then have "files_inv (set_fd fd f (set_kps q k))"
      using fd(3) by (intro set_fd_files [where k = k, OF D(1) fd(1)]) (auto simp: K_def fd_ok_def fd_is_stream_def f)
    moreover have "running (set_kps q k)" using D(1) running_cong [of "set_kps q k" k] by simp
    from set_fd_at [OF this fd(1), of f fd] have "fdt (set_fd fd f (set_kps q k)) fd = f ?d" using fdt_cong [of "set_kps q k" k fd] by simp
    moreover have "files_inv t = files_inv (set_fd fd f (set_kps q k))" "fdt t fd = fdt (set_fd fd f (set_kps q k)) fd"
      by (rule files_inv_cong; simp add: q(2)) (rule fdt_cong, simp add: q(2))
    ultimately show ?thesis using True by simp
  qed (use c inv in \<open>simp add: drop_end_def\<close>)
  then show "files_inv t" "fdt t fd = (if p \<ge> 0 then f (fdt k fd) else fdt k fd)" by blast+
qed

lemma sock_same_inv:
  assumes "files_inv k" and "sock_inv q (held_ends (ptab k))"
  shows "files_inv (set_kss q k)"
  using assms running_cong [of "set_kss q k" k] by (simp add: files_inv_def)

lemma sock_create_inv:
  assumes inv: "sock_inv s H" and c: "sock64_create s = (i, t)"
  shows "sock_inv t H"
proof (cases "find (\<lambda>i. \<not> sused (socks s (int i))) [0..<nat SOCK64_MAX]")
  case None
  then show ?thesis using c inv by (simp add: sock64_create_def)
next
  case (Some j)
  then have j: "j < nat SOCK64_MAX" "\<not> sused (socks s (int j))" using find_in [OF Some] by auto
  define f where "f = (\<lambda>q. q\<lparr>phase := SOCK64_UNBOUND, snode := -1, backlog := 0, shead := 0, scount := 0, sused := True\<rparr> :: sock64)"
  have t: "t = supd (int j) f s" using c Some by (auto simp: sock64_create_def f_def)
  have o: "open_socks t = insert (int j) (open_socks s)" "int j \<notin> open_socks s"
    using j by (auto simp: open_socks_def sock64_valid_def t f_def)
  have "owned t = queued_ends (f (socks s (int j))) + owned s"
    using owned_remove [of "int j" t] o by (simp add: owned_def t)
  moreover have "queued_ends (f (socks s (int j))) = {#}" by (rule empty_queue) (simp add: f_def)
  ultimately show ?thesis using inv by (auto simp: sock_inv_def t f_def sock_ok_def SOCK64_BACKLOG_def)
qed
lemma shutdown_inv:
  assumes inv: "files_inv k" and c: "sys_shutdown x k = Some (r, t)"
  shows "files_inv t"
proof (cases "no_fd (a1 x) k \<or> \<not> fd_is_stream (fdt k (unat (a1 x)))")
  case False
  let ?fd = "unat (a1 x)"
  have fd: "?fd < FD_MAX" "fd_used (fdt k ?fd)" "fd_is_stream (fdt k ?fd)" using False no_fdD [of "a1 x" k] by auto
  obtain u where u: "(if a2 x = 0 \<or> a2 x = 2 then drop_end (fd_rx (fdt k ?fd)) True (\<lambda>d. d\<lparr>fd_rx := -1\<rparr>) ?fd k else Some k) = Some u"
    "(if a2 x = 1 \<or> a2 x = 2 then drop_end (fd_tx (fdt k ?fd)) False (\<lambda>d. d\<lparr>fd_tx := -1\<rparr>) ?fd u else Some u) = Some t"
    using c False unfolding sys_shutdown_def Let_def by (auto split: bind_splits)
  have iu: "files_inv u \<and> fd_used (fdt u ?fd) \<and> fd_tx (fdt u ?fd) = fd_tx (fdt k ?fd) \<and> fd_kind (fdt u ?fd) = fd_kind (fdt k ?fd)"
  proof (cases "a2 x = 0 \<or> a2 x = 2")
    case True
    then have "drop_end (fd_rx (fdt k ?fd)) True (\<lambda>d. d\<lparr>fd_rx := -1\<rparr>) ?fd k = Some u" using u(1) by (simp only: if_True)
    from drop_end_inv [OF inv fd _ _ this] show ?thesis using fd(2) by simp
  qed (use u(1) inv fd(2) in simp)
  show ?thesis
  proof (cases "(a2 x = 1 \<or> a2 x = 2) \<and> fd_tx (fdt k ?fd) \<ge> 0")
    case True
    then have st: "fd_is_stream (fdt u ?fd)" using iu fd(3) by (auto simp: fd_is_stream_def)
    have "drop_end (fd_tx (fdt u ?fd)) False (\<lambda>d. d\<lparr>fd_tx := -1\<rparr>) ?fd u = Some t" using u(2) True iu by (simp only: if_True)
    from drop_end_inv(1) [OF _ fd(1) _ st _ _ this] show ?thesis using iu by simp
  next
    case False
    then have "t = u" using u(2) by (auto simp: drop_end_def split: if_splits)
    then show ?thesis using iu by simp
  qed
qed (use inv c in \<open>auto simp: sys_shutdown_def Let_def split: if_splits\<close>)

lemma bare_fd_inv:
  assumes inv: "files_inv k" and fd: "fd < FD_MAX" "\<not> fd_used (fdt k fd)" and f: "fd_rx (f (fdt k fd)) = -1" "fd_tx (f (fdt k fd)) = -1"
  shows "files_inv (set_fd fd f k)"
proof -
  note D = files_invD [OF inv]
  have "sock_inv (kss k) (held_ends (ptab k) + fd_ends (f (fdt k fd)))"
    by (rule sock_inv_ends [OF _ D(2)]) (auto simp: fd_ends_def f)
  then show ?thesis
    by (intro set_fd_files [where k = k and t = k, OF D(1) fd(1)]) (use fd(2) f in \<open>auto simp: fd_ends_def [of "fdt k fd"] fd_ok_def\<close>)
qed

lemma socket_inv:
  assumes inv: "files_inv k" and c: "sys_socket x k = Some (r, t)"
  shows "files_inv t"
proof (cases "a1 x = AF_NETLINK")
  case True
  obtain fd u where u: "fd_alloc 3 k = (fd, u)" by fastforce
  note i = alloc_inv [OF u inv]
  show ?thesis using c True inv u i(1) i(4) bare_fd_inv [OF i(1)] by (auto simp: sys_socket_def Let_def split: if_splits)
next
  case False
  obtain s q where q: "sock64_create (kss k) = (s, q)" by fastforce
  have iq: "files_inv (set_kss q k)" by (rule sock_same_inv [OF inv sock_create_inv [OF files_invD(2) [OF inv] q]])
  obtain fd u where u: "fd_alloc 3 (set_kss q k) = (fd, u)" by fastforce
  note i = alloc_inv [OF u iq]
  show ?thesis
  proof (cases "fd < 0")
    case True
    obtain z where z: "sock64_destroy s (kss u) = Some z" "sock_inv z (held_ends (ptab u))" using destroy_inv [OF files_invD(2) [OF i(1)]] by blast
    then show ?thesis using c False True inv iq q u sock_same_inv [OF i(1) z(2)] by (auto simp: sys_socket_def Let_def split: if_splits)
  next
    case fd: False
    define v where "v = fd_adopt_pipe (nat fd) (-1) (-1) s (flag (a2 x) O_NONBLOCK) (flag (a2 x) O_CLOEXEC) u"
    have "files_inv v" unfolding v_def fd_adopt_pipe_def by (rule bare_fd_inv [OF i(1)]) (use i(4) fd in auto)
    then have "files_inv (v\<lparr>sockets_made := n\<rparr>)" for n using files_inv_cong [of "v\<lparr>sockets_made := n\<rparr>" v] by simp
    then show ?thesis using c False fd inv iq q u by (auto simp: sys_socket_def Let_def v_def [symmetric] split: if_splits)
  qed
qed

lemma sock_keep_inv:
  assumes "sock_inv s H" and "\<And>q. queued_ends (f q) = queued_ends q" and "\<And>q. sused (f q) = sused q" and "sock_ok (f (socks s i))"
  shows "sock_inv (supd i f s) H"
proof -
  have "open_socks (supd i f s) = open_socks s" by (auto simp: open_socks_def sock64_valid_def assms(3))
  then have "owned (supd i f s) = owned s" by (intro owned_cong) (simp_all add: assms(2))
  then show ?thesis using assms(1,4) by (auto simp: sock_inv_def)
qed

lemma listen_inv:
  assumes inv: "files_inv k" and c: "sys_listen x k = Some (r, t)"
  shows "files_inv t"
proof -
  have "sock_inv (snd (sock64_listen i b (kss k))) (held_ends (ptab k))" for i b
  proof -
    let ?b = "min (max b 1) (int SOCK64_BACKLOG)"
    have "sock_inv (supd i (\<lambda>q. q\<lparr>backlog := nat ?b, phase := SOCK64_LISTENING\<rparr>) (kss k)) (held_ends (ptab k))"
      using sock_invD(1) [OF files_invD(2) [OF inv], of i]
      by (intro sock_keep_inv [OF files_invD(2) [OF inv]]) (auto simp: queued_ends_def pending_list_def sock_ok_def)
    then show ?thesis using files_invD(2) [OF inv] by (auto simp: sock64_listen_def Let_def min_def max_def SOCK64_BACKLOG_def split: if_splits)
  qed
  then show ?thesis using c inv sock_same_inv [OF inv] by (auto simp: sys_listen_def split: if_splits prod.splits) (metis snd_conv)
qed
lemma wake_all_inv: "files_inv (wake_all n k) = files_inv k"
  by (rule files_inv_cong) simp_all

lemma connect_cases:
  assumes c: "sys_connect x k = Some (r, t)"
  obtains "t = k" | rc q l where "sock64_connect (fd_sock (fdt k (unat (a1 x)))) l (kss k) = Some (rc, None, q)" "t = set_kss q k"
  | rc q l v w n where "sock64_connect (fd_sock (fdt k (unat (a1 x)))) l (kss k) = Some (rc, Some (v, w), q)" "\<not> no_fd (a1 x) k" "\<not> no_sock (unat (a1 x)) k"
      "t = wake_all n (set_fd (unat (a1 x)) (\<lambda>d. d\<lparr>fd_rx := v, fd_tx := w\<rparr>) (set_kss q k))"
proof (cases "t = k")
  case nk: False
  let ?fd = "unat (a1 x)"
  have f: "\<not> no_fd (a1 x) k" "\<not> no_sock ?fd k" "\<not> (unat (a2 x) = 0 \<or> rd_le (umem k) (unat (a2 x)) 2 \<noteq> 1)"
    using c nk by (auto simp: sys_connect_def Let_def split: if_splits)
  obtain path where p: "abs_path (Some (user_string (umem k) (unat (a2 x) + 2))) k = Inr path"
    using c nk f by (cases "abs_path (Some (user_string (umem k) (unat (a2 x) + 2))) k") (simp_all add: sys_connect_def)
  obtain n where n: "ramfs64_lookup_nofollow path (kfs k) = Some n" "\<not> n < 0" "ramfs64_device n (kfs k) = RAMFS64_DEV_SOCK" "\<not> sock64_listener_for_node n (kss k) < 0"
    using c nk f p by (cases "ramfs64_lookup_nofollow path (kfs k)") (auto simp: sys_connect_def Let_def split: if_splits)
  obtain rc cn q where q: "sock64_connect (fd_sock (fdt k ?fd)) (sock64_listener_for_node n (kss k)) (kss k) = Some (rc, cn, q)"
    using c f p n by (cases "sock64_connect (fd_sock (fdt k ?fd)) (sock64_listener_for_node n (kss k)) (kss k)") (auto simp: sys_connect_def Let_def)
  show ?thesis
  proof (cases cn)
    case None
    then show ?thesis using c f p n q that(2) by (simp add: sys_connect_def Let_def)
  next
    case (Some vw)
    obtain v w where vw: "vw = (v, w)" by fastforce
    have "t = wake_all (of_nat (sock64_wait_key (sock64_listener_for_node n (kss k)))) (set_fd ?fd (\<lambda>d. d\<lparr>fd_rx := v, fd_tx := w\<rparr>) (set_kss q k))"
      using c f p n q Some vw by (simp add: sys_connect_def Let_def)
    then show ?thesis using that(3) q Some vw f(1,2) by blast
  qed
qed (use that(1) in blast)

lemma connect_call_inv:
  assumes inv: "files_inv k" and ho: "heap_ok (kfs k)" and bare: "fd_rx (fdt k (unat (a1 x))) < 0" "fd_tx (fdt k (unat (a1 x))) < 0"
    and c: "sys_connect x k = Some (r, t)"
  shows "files_inv t"
  using c
proof (cases rule: connect_cases)
  case 1
  then show ?thesis using inv by simp
next
  case (2 rc q l)
  then show ?thesis using connect_inv [OF files_invD(2) [OF inv] ho, of "fd_sock (fdt k (unat (a1 x)))" l] sock_same_inv [OF inv] by auto
next
  case q: (3 rc q l v w n)
  let ?fd = "unat (a1 x)" and ?H = "held_ends (ptab k)"
  note D = files_invD [OF inv]
  let ?d = "fdt k ?fd"
  have fd: "?fd < FD_MAX" "fd_used ?d" "fd_kind ?d = FD64_SOCKET" using no_fdD [OF q(2)] q(3) by (auto simp: no_sock_def)
  have nf: "fd_kind ?d \<noteq> FD64_FILE" using fd(3) by (simp add: FD64_SOCKET_def FD64_FILE_def)
  have s: "sock_inv q (?H + pair_ends (v, w))" using connect_inv [OF D(2) ho, of "fd_sock ?d" l] q(1) by auto
  have e: "fd_ends (?d\<lparr>fd_rx := v, fd_tx := w\<rparr>) = pair_ends (v, w)" "fd_ends ?d = {#Rd (fd_rx ?d), Wr (fd_tx ?d)#}"
    using fd nf by (simp_all add: fd_ends_def pair_ends_def)
  have "sock_inv q (?H - fd_ends ?d + pair_ends (v, w))"
    by (rule sock_inv_ends [OF _ s]) (use bare in \<open>auto simp: e(2)\<close>)
  then have "files_inv (set_fd ?fd (\<lambda>d. d\<lparr>fd_rx := v, fd_tx := w\<rparr>) (set_kss q k))"
    using fd(3) by (intro set_fd_files [where k = k, OF D(1) fd(1)]) (auto simp: e(1) fd_ok_def fd_is_stream_def)
  then show ?thesis by (simp add: q(4) wake_all_inv)
qed

lemma accept_books:
  assumes inv: "files_inv k" and c: "sys_accept ev nr flags x k = Some (r, t)"
  shows "books t"
proof (cases "no_fd (a1 x) k \<or> no_sock (unat (a1 x)) k")
  case False
  let ?H = "held_ends (ptab k)"
  note D = files_invD [OF inv]
  obtain rc cn q where q: "sock64_accept (fd_sock (fdt k (unat (a1 x)))) (kss k) = (rc, cn, q)" by (metis prod_cases3)
  note A = accept_inv [OF D(2) q]
  define u where "u = set_kss q k"
  show ?thesis
  proof (cases cn)
    case None
    then have "q = kss k" using A by (auto split: if_splits)
    then have iu: "files_inv u" using D(2) sock_same_inv [OF inv] by (simp add: u_def)
    then have "books u" by (simp add: files_books)
    then show ?thesis
      using c False q None unfolding sys_accept_def Let_def u_def [symmetric]
      by (auto simp: u_def [symmetric] files_books split: if_splits elim!: park_books [OF iu, rotated])
  next
    case (Some vw)
    obtain v w where vw: "vw = (v, w)" by fastforce
    have s: "sock_inv q (pair_ends (v, w) + ?H)" using A Some vw by (auto split: if_splits)
    obtain nfd k2 where k2: "fd_alloc 3 u = (nfd, k2)" by fastforce
    note al = fd_alloc_spec [OF k2]
    have p2: "ptab k2 = ptab k" "kss k2 = q" using al(1,2) by (simp_all add: u_def)
    have r2: "running k2" using D(1) running_cong [OF p2(1)] by simp
    show ?thesis
    proof (cases "nfd < 0")
      case True
      have "pipes_inv (ps q) (pair_ends (v, w) + (owned q + ?H))" using sock_invD(2) [OF s] by (simp add: add.left_commute)
      then obtain y z where z: "pipe64_unref v True False (ps q) = Some y" "pipe64_unref w False True y = Some z" "pipes_inv z (owned q + ?H)"
        using unref_pair by blast
      have t: "t = set_kps z k2" using c False q Some vw k2 True z(1,2) p2(2) by (auto simp: sys_accept_def Let_def u_def [symmetric])
      have "sock_inv (kss t) ?H" using sock_inv_ps [OF s z(3)] by (simp add: t p2(2))
      then show ?thesis using D(1) by (simp add: books_def running_def t p2(1))
    next
      case n: False
      then have fd: "nat nfd < FD_MAX" "\<not> fd_used (fdt k (nat nfd))" using al(5) fdt_cong [of u k "nat nfd"] by (simp_all add: u_def)
      define f where "f = (\<lambda>d :: proc64_fd. d\<lparr>fd_kind := FD64_SOCKET, fd_node := -1, fd_pos := 0, fd_rx := v, fd_tx := w, fd_sock := -1,
         fd_nonblock := flag flags O_NONBLOCK, fd_cloexec := flag flags O_CLOEXEC, fd_used := True\<rparr>)"
      define k3 where "k3 = set_fd (nat nfd) (\<lambda>d. d\<lparr>fd_kind := FD64_SOCKET\<rparr>) (fd_adopt_pipe (nat nfd) v w (-1) (flag flags O_NONBLOCK) (flag flags O_CLOEXEC) k2)"
      have "ptab k3 = ptab (set_fd (nat nfd) f k2)"
        unfolding k3_def fd_adopt_pipe_def set_fd_twice [OF r2 fd(1)] f_def by (rule arg_cong [of _ _ "\<lambda>f. ptab (set_fd (nat nfd) f k2)"]) auto
      moreover have "kss k3 = kss (set_fd (nat nfd) f k2)" by (simp add: k3_def fd_adopt_pipe_def)
      moreover have "files_inv (set_fd (nat nfd) f k2)"
      proof (rule set_fd_files [where k = k, OF D(1) fd(1) _ _ p2(1)])
        show "fd_ok (f (fdt k (nat nfd)))" using D by (auto simp: f_def fd_ok_def fd_is_stream_def)
        have "fd_ends (f d) = pair_ends (v, w)" for d by (simp add: f_def fd_ends_def pair_ends_def FD64_SOCKET_def FD64_FILE_def)
        then show "sock_inv (kss k2) (?H - fd_ends (fdt k (nat nfd)) + fd_ends (f (fdt k (nat nfd))))"
          using s fd(2) by (simp add: p2(2) fd_ends_def [of "fdt k (nat nfd)"] add.commute)
      qed
      ultimately have "books k3" using files_inv_cong [of k3 "set_fd (nat nfd) f k2"] by (simp add: files_books)
      moreover have "ptab t = ptab k3 \<and> kss t = kss k3"
        using c False q Some vw k2 n by (auto simp: sys_accept_def Let_def u_def [symmetric] k3_def [symmetric])
      ultimately show ?thesis by (simp add: books_def)
    qed
  qed
qed (use inv c in \<open>auto simp: sys_accept_def Let_def files_books split: if_splits\<close>)
section \<open>Runs of calls\<close>

lemma timer_procs:
  "procs (ptable (snd (sched_timer_handler fr s))) = procs (ptable s)" "next_pid (ptable (snd (sched_timer_handler fr s))) = next_pid (ptable s)"
  by (auto simp: sched_timer_handler_def sched64_tick_def switch_to_def expire_deadlines_def clock64_tick_def tupd_def Let_def)

lemma pread_frame: "sys_pread64 x k = Some (r, t) \<Longrightarrow> ptab t = ptab k \<and> kss t = kss k"
  by (auto simp: sys_pread64_def split: if_splits bind_splits)

text \<open>
  One call of a process on its descriptors, or a timer interrupt that may switch to another task. A call of \<open>connect\<close> is on a socket that
  has no ends yet.
\<close>

inductive file_call :: "kstate \<Rightarrow> kstate \<Rightarrow> bool" where
  user: "file_call k (k\<lparr>umem := m, saved_user_rsp := w\<rparr>)"
|   timer: "file_call k (set_ksch (snd (sched_timer_handler fr (ksch k))) k)"
| close: "caller k \<Longrightarrow> sys_close x k = Some (r, t) \<Longrightarrow> file_call k t"
| pipe2: "caller k \<Longrightarrow> sys_pipe2 x k = Some (r, t) \<Longrightarrow> file_call k t"
| socketpair: "caller k \<Longrightarrow> sys_socketpair x k = Some (r, t) \<Longrightarrow> file_call k t"
| fcntl: "caller k \<Longrightarrow> sys_fcntl x k = Some (r, t) \<Longrightarrow> file_call k t"
| dup: "caller k \<Longrightarrow> sys_dup x k = Some (r, t) \<Longrightarrow> file_call k t"
| dup2: "caller k \<Longrightarrow> sys_dup2 b x k = Some (r, t) \<Longrightarrow> file_call k t"
| lseek: "caller k \<Longrightarrow> sys_lseek x k = Some (r, t) \<Longrightarrow> file_call k t"
| pread: "caller k \<Longrightarrow> sys_pread64 x k = Some (r, t) \<Longrightarrow> file_call k t"
| read: "caller k \<Longrightarrow> do_pipe_read ev x nr fd dst n k = Some (r, t) \<Longrightarrow> file_call k t"
| write_call: "caller k \<Longrightarrow> stream_write ev x nr fd iov k = Some (r, t) \<Longrightarrow> file_call k t"
| shutdown: "caller k \<Longrightarrow> sys_shutdown x k = Some (r, t) \<Longrightarrow> file_call k t"
| socket: "caller k \<Longrightarrow> sys_socket x k = Some (r, t) \<Longrightarrow> file_call k t"
| listen: "caller k \<Longrightarrow> sys_listen x k = Some (r, t) \<Longrightarrow> file_call k t"
| connect: "caller k \<Longrightarrow> heap_ok (kfs k) \<Longrightarrow> fd_rx (fdt k (unat (a1 x))) < 0 \<Longrightarrow> fd_tx (fdt k (unat (a1 x))) < 0 \<Longrightarrow>
    sys_connect x k = Some (r, t) \<Longrightarrow> file_call k t"
| accept: "caller k \<Longrightarrow> sys_accept ev nr fl x k = Some (r, t) \<Longrightarrow> file_call k t"
| close_all: "caller k \<Longrightarrow> close_all_files k = Some t \<Longrightarrow> file_call k t"

lemma file_call_books:
  assumes "file_call k t" and "books k"
  shows "books t"
  using assms
proof (induction rule: file_call.induct)
  case (timer k fr)
  then show ?case by (intro set_ksch_books) (simp_all add: timer_procs)
next
  case (user k m w)
  then show ?case by (simp add: books_def kss_def ptab_def)
next
  case (close k x r t)
  then show ?case using close_inv [of k x] by (auto simp: files_books)
next
  case (close_all k t)
  then show ?case using close_all_inv [of k] by (auto simp: files_books)
next
  case (pread k x r t)
  then show ?case using pread_frame [of x k r t] by (simp add: books_def)
next
  case (pipe2 k x r t)
  then show ?case using pipe2_inv [of k x r t] by (simp add: files_books)
next
  case (socketpair k x r t)
  then show ?case using socketpair_inv [of k x r t] by (simp add: files_books)
next
  case (fcntl k x r t)
  then show ?case using fcntl_inv [of k x r t] by (simp add: files_books)
next
  case (dup k x r t)
  then show ?case using dup_inv [of k x r t] by (simp add: files_books)
next
  case (dup2 k b x r t)
  then show ?case using dup2_inv [of k b x r t] by (simp add: files_books)
next
  case (lseek k x r t)
  then show ?case using lseek_inv [of k x r t] by (simp add: files_books)
next
  case (read k ev x nr fd dst n r t)
  then show ?case using pipe_read_books [of k ev x nr fd dst n r t] by (simp add: files_books)
next
  case (write_call k ev x nr fd iov r t)
  then show ?case using stream_write_books [of k ev x nr fd iov r t] by (simp add: files_books)
next
  case (shutdown k x r t)
  then show ?case using shutdown_inv [of k x r t] by (simp add: files_books)
next
  case (socket k x r t)
  then show ?case using socket_inv [of k x r t] by (simp add: files_books)
next
  case (listen k x r t)
  then show ?case using listen_inv [of k x r t] by (simp add: files_books)
next
  case (connect k x r t)
  then show ?case using connect_call_inv [of k x r t] by (simp add: files_books)
next
  case (accept k ev nr fl x r t)
  then show ?case using accept_books [of k ev nr fl x r t] by (simp add: files_books)
qed

lemma file_calls_books: "rtranclp file_call k t \<Longrightarrow> books k \<Longrightarrow> books t"
  by (induction rule: rtranclp_induct) (auto intro: file_call_books)

lemma books_ends:
  assumes "books k" and "i < PROC64_MAX" and "p_used (procs (ptab k) ! i)" and "d \<in> set (fds (procs (ptab k) ! i))" and "fd_used d" and "fd_kind d \<noteq> FD64_FILE"
  shows "0 \<le> fd_rx d \<Longrightarrow> pipe64_valid (fd_rx d) (kps k) \<and> 0 < readers (pipes (kps k) (fd_rx d))"
    and "0 \<le> fd_tx d \<Longrightarrow> pipe64_valid (fd_tx d) (kps k) \<and> 0 < writers (pipes (kps k) (fd_tx d))"
proof -
  have inv: "pipes_inv (kps k) (owned (kss k) + held_ends (ptab k))" using assms(1) by (simp add: books_def sock_inv_def)
  note C = pipes_invD(3) [OF inv]
  have "fd_ends d \<subseteq># proc_ends (procs (ptab k) ! i)" using assms(4) by (auto simp: proc_ends_def dest: split_list)
  moreover have "proc_ends (procs (ptab k) ! i) \<subseteq># held_ends (ptab k)" by (rule held_ends_split [OF assms(2,3)])
  ultimately have "fd_ends d \<subseteq># held_ends (ptab k)" by (rule subset_mset.order_trans)
  then have "Rd (fd_rx d) \<in># held_ends (ptab k)" "Wr (fd_tx d) \<in># held_ends (ptab k)"
    using assms(5,6) by (auto simp: fd_ends_def dest: mset_subset_eqD)
  moreover have "0 < ends_count (kps k) e" if "e \<in># held_ends (ptab k)" "0 \<le> pend_pipe e" for e using C [OF that(2)] that(1) by (simp flip: count_greater_zero_iff)
  ultimately have "0 \<le> fd_rx d \<Longrightarrow> 0 < ends_count (kps k) (Rd (fd_rx d))" "0 \<le> fd_tx d \<Longrightarrow> 0 < ends_count (kps k) (Wr (fd_tx d))" by simp_all
  then show "0 \<le> fd_rx d \<Longrightarrow> pipe64_valid (fd_rx d) (kps k) \<and> 0 < readers (pipes (kps k) (fd_rx d))"
    "0 \<le> fd_tx d \<Longrightarrow> pipe64_valid (fd_tx d) (kps k) \<and> 0 < writers (pipes (kps k) (fd_tx d))"
    by (simp_all add: ends_count_def split: if_splits)
qed

end
