(* ===== verification/Life64.thy ===== *)
theory Life64
  imports Files64
begin

text \<open>
  \<^verbatim>\<open>kernel/syscall64.c\<close>, how processes and threads begin and end: fork, clone, wait4, exit, death by a signal, and the calls that
  send signals. The state is that of the descriptor layer. \<open>kvm\<close> is the address-space component with the one heap and machine filled in. A process that
  follows a null pointer the code does not check for has no successor (\<open>None\<close>).
\<close>

unbundle bit_operations_syntax

section \<open>Views and constants\<close>

definition kmach :: "kstate \<Rightarrow> machine" where
  "kmach k = umach (us (sigs k))"

definition set_us :: "ustate \<Rightarrow> kstate \<Rightarrow> kstate" where
  "set_us u k = k\<lparr>sigs := (sigs k)\<lparr>us := u\<rparr>\<rparr>"

definition set_kmach :: "machine \<Rightarrow> kstate \<Rightarrow> kstate" where
  "set_kmach m k = set_us ((us (sigs k))\<lparr>umach := m\<rparr>) k"

definition kvm :: "kstate \<Rightarrow> vmstate" where
  "kvm k = (vms k)\<lparr>heap := kh (kfs k)\<rparr>"

definition set_kvm :: "vmstate \<Rightarrow> kstate \<Rightarrow> kstate" where
  "set_kvm v k = set_kfs ((kfs k)\<lparr>kh := heap v\<rparr>) (k\<lparr>vms := v\<rparr>)"

definition zero64 :: "kstate \<Rightarrow> u64" where
  "zero64 k = of_nat (uspace64_zero_frame (us (sigs k)))"

definition upd_proc :: "nat \<Rightarrow> (proc64 \<Rightarrow> proc64) \<Rightarrow> kstate \<Rightarrow> kstate" where
  "upd_proc i f k = set_ptab (proc_upd i f (ptab k)) k"

abbreviation cur_pid :: "kstate \<Rightarrow> int" where "cur_pid k \<equiv> proc64_current_pid (ptab k)"

definition WAIT64_NOHANG :: int where "WAIT64_NOHANG = 1"
definition SYS64_WAIT4 :: u64 where "SYS64_WAIT4 = 61"
definition SYS64_CLONE :: u64 where "SYS64_CLONE = 56"
definition CLONE_VM :: u64 where "CLONE_VM = 0x100"
definition CLONE_VFORK :: u64 where "CLONE_VFORK = 0x4000"
definition CLONE_SETTLS :: u64 where "CLONE_SETTLS = 0x80000"
definition CLONE_PARENT_SETTID :: u64 where "CLONE_PARENT_SETTID = 0x100000"
definition CLONE_CHILD_CLEARTID :: u64 where "CLONE_CHILD_CLEARTID = 0x200000"
definition CLONE_CHILD_SETTID :: u64 where "CLONE_CHILD_SETTID = 0x1000000"

section \<open>Ending\<close>

definition vfork_release :: "nat option \<Rightarrow> kstate \<Rightarrow> kstate" where
  "vfork_release child k =
     (case child of
        None \<Rightarrow> k
      | Some i \<Rightarrow>
          if vfork_parent (procs (ptab k) ! i) = 0 then k
          else wake_all (PROC64_VFORK_KEY (pid (procs (ptab k) ! i))) (upd_proc i (\<lambda>p. p\<lparr>vfork_parent := 0\<rparr>) k))"

definition syscall64_set_leader :: "int \<Rightarrow> kstate \<Rightarrow> kstate" where
  "syscall64_set_leader p k =
     (let k = k\<lparr>leader_pid := p\<rparr>; k = (if p \<ge> 0 then k\<lparr>report_pid := p\<rparr> else k)
      in if p \<ge> 0 then k\<lparr>leader_exited := False\<rparr> else k)"

definition leader_leaves_scheduler :: "kstate \<Rightarrow> kstate" where
  "leader_leaves_scheduler k = set_ksch (snd (sched64_remove_pid (cur_pid k) (ksch k))) k"

text \<open>What follows once the end of a process has been recorded: the run is over if it was the leader, and else its parent is told.\<close>

definition ended :: "int \<Rightarrow> kstate \<Rightarrow> unit flow \<times> kstate" where
  "ended ppid k =
     (if leader_pid k \<ge> 0 \<and> cur_pid k = leader_pid k
      then (Abort, leader_leaves_scheduler (k\<lparr>leader_exited := True\<rparr>))
      else (Val (), if ppid \<noteq> 0 then wake_all (PROC64_WAIT_KEY ppid) k else k))"

definition parent_of :: "kstate \<Rightarrow> int" where
  "parent_of k = (case proc64_current (ptab k) of None \<Rightarrow> 0 | Some i \<Rightarrow> p_parent (procs (ptab k) ! i))"

text \<open>Leaving for a successor, and giving back the address space nobody is left in.\<close>

definition free_space :: "u64 \<Rightarrow> kstate \<Rightarrow> kstate option" where
  "free_space dying k =
     (if sched64_space_in_use dying (ksch k) then Some k
      else do { (vs, v) \<leftarrow> vmspace64_destroy (zero64 k) dying (kvm k); Some (set_kvm v k) })"

definition exit_process :: "events \<Rightarrow> 'a \<Rightarrow> kstate \<Rightarrow> ('a flow \<times> kstate) option" where
  "exit_process ev v k = do {
     (out, s) \<leftarrow> sched64_exit_process ev (cur_pid k) (ksch k);
     let k = set_ksch s k;
     case out of
       None \<Rightarrow> Some (Val v, k)
     | Some x \<Rightarrow>
         (let dying = vmspace64_current_phys (kmach k); (r, k) = leave_to x k
          in do { k \<leftarrow> free_space dying k; Some (r, k) })
   }"

definition die_by_signal :: "events \<Rightarrow> int \<Rightarrow> kstate \<Rightarrow> (unit flow \<times> kstate) option" where
  "die_by_signal ev sig k =
     (let k = vfork_release (proc64_current (ptab k)) (k\<lparr>exit_code := of_int (128 + sig)\<rparr>)
      in do {
        k \<leftarrow> close_all_files k;
        let ppid = parent_of k;
        let k = set_ptab (proc64_exit_signalled (cur_pid k) sig (ptab k)) k;
        andthen (Some (ended ppid k)) (\<lambda>_ k. exit_process ev () k)
      })"

definition syscall64_fault_kill :: "events \<Rightarrow> int \<Rightarrow> kstate \<Rightarrow> (bool flow \<times> kstate) option" where
  "syscall64_fault_kill ev sig k =
     (if leader_pid k < 0 \<or> cur_pid k < 0 \<or> cur_pid k = leader_pid k then Some (Val False, k)
      else andthen (die_by_signal ev sig k) (\<lambda>_ k. Some (Abort, k)))"

definition syscall64_oom_kill :: "events \<Rightarrow> kstate \<Rightarrow> (unit flow \<times> kstate) option" where
  "syscall64_oom_kill ev k = andthen (die_by_signal ev SIG64_KILLSIG (k\<lparr>oom_kills := add64 (oom_kills k) 1\<rparr>)) (\<lambda>_ k. Some (Abort, k))"

definition sys_exit_group :: "events \<Rightarrow> syscall64_args \<Rightarrow> kstate \<Rightarrow> (int flow \<times> kstate) option" where
  "sys_exit_group ev x k =
     (let k = k\<lparr>exit_code := a1 x\<rparr>; ppid = parent_of k; k = vfork_release (proc64_current (ptab k)) k
      in do {
        k \<leftarrow> close_all_files k;
        let k = set_ptab (proc64_exit (cur_pid k) (c_int (a1 x)) (ptab k)) k;
        andthen (Some (ended ppid k)) (\<lambda>_ k. exit_process ev (sint (a1 x)) k)
      })"

section \<open>Pointers of the caller\<close>

partial_function (option) user_pages_ok :: "u64 \<Rightarrow> u64 \<Rightarrow> ustate \<Rightarrow> (bool \<times> ustate) option" where
  "user_pages_ok p end u =
     (if p < end then do {
        (rc, phys) \<leftarrow> paging64_translate p (umach u);
        (ok, u) \<leftarrow> (if rc \<noteq> PAGING64_OK then uspace64_fault (unat p) False u else Some (True, u));
        if \<not> ok then Some (False, u) else user_pages_ok (p + 0x1000) end u
      } else Some (True, u))"

definition take_user_oom :: "kstate \<Rightarrow> bool \<times> kstate" where
  "take_user_oom k = (let (b, p) = pmm64_take_user_oom (pmm (kmach k)) in (b, set_kmach ((kmach k)\<lparr>pmm := p\<rparr>) k))"

definition user_range_ok :: "events \<Rightarrow> u64 \<Rightarrow> u64 \<Rightarrow> kstate \<Rightarrow> (bool flow \<times> kstate) option" where
  "user_range_ok ev addr len k =
     (if addr = 0 \<or> len = 0 then Some (Val False, k)
      else if addr \<ge> 0x0000800000000000 then Some (Val False, k)
      else if addr + len < addr then Some (Val False, k)
      else
      (let (b, k) = take_user_oom k
       in do {
         (ok, u) \<leftarrow> user_pages_ok (addr AND NOT 0xFFF) (addr + len) (us (sigs k));
         let k = set_us u k;
         if ok then Some (Val True, k)
         else
         (let (oom, k) = take_user_oom k
          in if oom then andthen (syscall64_oom_kill ev k) (\<lambda>_ k. Some (Val False, k)) else Some (Val False, k))
       }))"

text \<open>Storing a word for the caller if the pointer is good.\<close>

definition put_word :: "events \<Rightarrow> bool \<Rightarrow> u64 \<Rightarrow> int \<Rightarrow> kstate \<Rightarrow> (unit flow \<times> kstate) option" where
  "put_word ev wanted a v k =
     (if wanted then andthen (user_range_ok ev a 4 k) (\<lambda>ok k. Some (Val (), if ok then store_int a v k else k)) else Some (Val (), k))"

section \<open>Beginning\<close>

text \<open>A child that could not be completed is ended and reaped.\<close>

definition drop_child :: "int \<Rightarrow> kstate \<Rightarrow> kstate" where
  "drop_child child k =
     (let t = proc64_exit child 0 (ptab k) in set_ptab (snd (proc64_reap_child_pid (proc64_current_pid t) child t)) k)"

definition destroy_space :: "nat \<Rightarrow> kstate \<Rightarrow> kstate option" where
  "destroy_space ic k = do {
     (vs, v) \<leftarrow> vmspace64_destroy (zero64 k) (space (procs (ptab k) ! ic)) (kvm k);
     Some (upd_proc ic (\<lambda>p. p\<lparr>space := vs\<rparr>) (set_kvm v k))
   }"

text \<open>The child's slot in the process table, its address space and the task that runs in it. The result is the error, or the slots of the child and of its task.\<close>

definition fork_space :: "int \<Rightarrow> nat \<Rightarrow> kstate \<Rightarrow> (bool \<times> kstate) option" where
  "fork_space child ic k = do {
     ((ok, vs), v) \<leftarrow> vmspace64_create (kvm k);
     let k = set_kvm v k;
     if \<not> ok then Some (False, drop_child child k)
     else
     (let k = upd_proc ic (\<lambda>p. p\<lparr>space := vs\<rparr>) k;
          (ok, m) = vmspace64_clone_cow (zero64 k) (vmspace64_current_phys (kmach k)) vs (kmach k);
          k = set_kmach m k
      in if \<not> ok then do { k \<leftarrow> destroy_space ic k; Some (False, drop_child child k) } else Some (True, k))
   }"

definition fork_task :: "syscall64_args \<Rightarrow> u64 \<Rightarrow> int \<Rightarrow> nat \<Rightarrow> kstate \<Rightarrow> (int \<times> kstate) option" where
  "fork_task x child_stack child ic k =
     (let fr = frame_from_args x 0 k;
          fr = (if child_stack \<noteq> 0 then fr\<lparr>rsp := child_stack\<rparr> else fr);
          (slot, s) = sched64_add_frame_for fr (space (procs (ptab k) ! ic)) (fs_msr (ksch k)) child (ksch k);
          k = set_ksch s k
      in if slot < 0 then do { k \<leftarrow> destroy_space ic k; Some (slot, k) }
         else
         (let k = wait_slot_reset slot k
          in Some (slot, k\<lparr>sigs := signal64_task_inherit_altstack slot (sched64_current (ksch k)) (sigs k)\<rparr>)))"

definition tid_words :: "events \<Rightarrow> syscall64_args \<Rightarrow> int \<Rightarrow> nat \<Rightarrow> kstate \<Rightarrow> (unit flow \<times> kstate) option" where
  "tid_words ev x slot ic k =
     (let cflags = (if arg_nr x = SYS64_CLONE then a1 x else 0); ctid = slot + 1;
          k = (if flag cflags CLONE_CHILD_SETTID
               then set_kmach (snd (vmspace64_write_u32 (zero64 k) (space (procs (ptab k) ! ic)) (a4 x) (of_int ctid) (kmach k))) k else k)
      in andthen (put_word ev (flag cflags CLONE_PARENT_SETTID) (a3 x) ctid k)
           (\<lambda>_ k. Some (Val (), if flag cflags CLONE_CHILD_CLEARTID then k\<lparr>clear_child_tid := (clear_child_tid k)[nat slot := a4 x]\<rparr> else k)))"

text \<open>The counters, and the wait of a parent that has asked for one.\<close>

definition fork_done :: "events \<Rightarrow> syscall64_args \<Rightarrow> bool \<Rightarrow> nat \<Rightarrow> int \<Rightarrow> nat \<Rightarrow> kstate \<Rightarrow> (int flow \<times> kstate) option" where
  "fork_done ev x vfork free_before child ic k =
     (let now = pmm64_free_frames (pmm (kmach k));
          k = k\<lparr>forks := add64 (forks k) 1, last_fork_frames := (if free_before > now then free_before - now else 0)\<rparr>
      in if \<not> vfork then Some (Val child, k)
         else
         (let k = upd_proc ic (\<lambda>p. p\<lparr>vfork_parent := cur_pid k\<rparr>) k; k = k\<lparr>vforks := add64 (vforks k) 1\<rparr>
          in park ev (frame_from_args x (of_int child) k) (PROC64_VFORK_KEY child) (of_int child) (\<lambda>k. Some (Val child, k)) k))"

definition do_fork_common :: "events \<Rightarrow> syscall64_args \<Rightarrow> u64 \<Rightarrow> bool \<Rightarrow> kstate \<Rightarrow> (int flow \<times> kstate) option" where
  "do_fork_common ev x child_stack vfork k =
     (let free_before = pmm64_free_frames (pmm (kmach k)); ppid = cur_pid k
      in do {
        (child, t, p) \<leftarrow> proc64_fork_from ppid (ptab k) (kps k);
        let k = set_kps p (set_ptab t k);
        let k = (if child > 0 then k\<lparr>sigs := signal64_fork ppid child (sigs k)\<rparr> else k);
        if child < 0 then Some (Val (-11), k)
        else do {
          ic \<leftarrow> proc64_get child (ptab k);
          (ok, k) \<leftarrow> fork_space child ic k;
          if \<not> ok then Some (Val (-12), k)
          else do {
            (slot, k) \<leftarrow> fork_task x child_stack child ic k;
            if slot < 0 then Some (Val (-11), k)
            else andthen (tid_words ev x slot ic k) (\<lambda>_. fork_done ev x vfork free_before child ic)
          }
        }
      })"

definition do_fork :: "events \<Rightarrow> syscall64_args \<Rightarrow> kstate \<Rightarrow> (int flow \<times> kstate) option" where
  "do_fork ev x k = do_fork_common ev x 0 False k"

definition thread_frame :: "syscall64_args \<Rightarrow> registers64" where
  "thread_frame x =
     \<lparr>rax = 0, rbx = arg_rbx x, rcx = 0, rdx = a3 x, rsi = a2 x, rdi = a1 x, rbp = arg_rbp x, r8 = a5 x, r9 = a6 x, r10 = a4 x, r11 = 0,
      r12 = arg_r12 x, r13 = arg_r13 x, r14 = arg_r14 x, r15 = arg_r15 x, int_no = 0, err_code = 0, rip = ret_rip x, cs = 0x23,
      rflags = ret_rflags x OR 0x200, rsp = a2 x, ss = 0x1B\<rparr>"

definition sys_clone :: "events \<Rightarrow> syscall64_args \<Rightarrow> kstate \<Rightarrow> (int flow \<times> kstate) option" where
  "sys_clone ev x k =
     (if \<not> flag (a1 x) CLONE_VM then do_fork ev x k
      else if flag (a1 x) CLONE_VFORK then do_fork_common ev x (a2 x) True k
      else if a2 x = 0 then Some (Val (-22), k)
      else
      (case sched64_current_space (ksch k) of
         None \<Rightarrow> Some (Val (-38), k)
       | Some vs \<Rightarrow>
           (let (tid, s) = sched64_add_frame (thread_frame x) vs (if flag (a1 x) CLONE_SETTLS then a5 x else 0) (ksch k); k = set_ksch s k
            in if tid < 0 then Some (Val (-11), k)
               else
               (let k = wait_slot_reset tid k
                in andthen (put_word ev (flag (a1 x) CLONE_PARENT_SETTID) (a3 x) (tid + 1) k) (\<lambda>_ k.
                   andthen (put_word ev (flag (a1 x) CLONE_CHILD_SETTID) (a4 x) (tid + 1) k) (\<lambda>_ k.
                   Some (Val (tid + 1), if flag (a1 x) CLONE_CHILD_CLEARTID
                      then k\<lparr>clear_child_tid := (clear_child_tid k)[nat tid := a4 x]\<rparr> else k)))))))"

section \<open>Waiting for a child\<close>

definition wait_status :: "int \<Rightarrow> int \<Rightarrow> int" where
  "wait_status tsig status = (if tsig \<noteq> 0 then tsig AND 0x7F else push_bit 8 (status AND 0xFF))"

definition sys_wait4 :: "events \<Rightarrow> syscall64_args \<Rightarrow> kstate \<Rightarrow> (int flow \<times> kstate) option" where
  "sys_wait4 ev x k =
     (let want = c_int (a1 x); options = c_int (a3 x)
      in if want < -1 then Some (Val (-10), k)
         else
         (let want = (if want = 0 then -1 else want);
              ((reaped, st), t) = proc64_reap_child_pid (cur_pid k) want (ptab k);
              k = set_ptab t k
          in if reaped \<ge> 0
             then Some (Val reaped, if a2 x \<noteq> 0
                then store_int (a2 x) (wait_status (proc64_reaped_signal (ptab k)) (case st of Some v \<Rightarrow> v | None \<Rightarrow> 0)) k else k)
             else if \<not> proc64_has_child (cur_pid k) want (ptab k) then Some (Val (-10), k)
             else if options AND WAIT64_NOHANG \<noteq> 0 then Some (Val 0, k)
             else if signal_interrupts_wait k then Some (Val (-4), k)
             else park ev (restart_frame x SYS64_WAIT4 k) (PROC64_WAIT_KEY (cur_pid k)) SYS64_WAIT4 (\<lambda>k. Some (Val (-10), k)) k))"

section \<open>The end of a thread\<close>

text \<open>The word that says the thread still runs is cleared, and whoever waits for that is woken.\<close>

definition clear_tid :: "events \<Rightarrow> kstate \<Rightarrow> (unit flow \<times> kstate) option" where
  "clear_tid ev k =
     (let t = sched64_current (ksch k); w = clear_child_tid k ! nat t
      in if \<not> bad_task t \<and> w \<noteq> 0
         then andthen (user_range_ok ev w 4 (k\<lparr>clear_child_tid := (clear_child_tid k)[nat t := 0]\<rparr>)) (\<lambda>ok k.
           if ok
           then (let k = store_int w 0 k; (n, s) = sched64_wake_futex w 1 0xFFFFFFFF (cur_pid k) (ksch k)
                 in Some (Val (), (set_ksch s k)\<lparr>futex_wakes := add64 (futex_wakes k) n\<rparr>))
           else Some (Val (), k))
         else Some (Val (), k))"

definition last_thread :: "syscall64_args \<Rightarrow> kstate \<Rightarrow> (unit flow \<times> kstate) option" where
  "last_thread x k =
     (if sched64_pid_tasks (cur_pid k) (ksch k) \<le> 1
      then (let ppid = parent_of k; k = vfork_release (proc64_current (ptab k)) (k\<lparr>exit_code := a1 x\<rparr>)
            in do {
              k \<leftarrow> close_all_files k;
              Some (ended ppid (set_ptab (proc64_exit (cur_pid k) (c_int (a1 x)) (ptab k)) k))
            })
      else Some (Val (), k))"

definition sys_exit :: "events \<Rightarrow> syscall64_args \<Rightarrow> kstate \<Rightarrow> (int flow \<times> kstate) option" where
  "sys_exit ev x k =
     andthen (clear_tid ev (k\<lparr>thread_exits := add64 (thread_exits k) 1\<rparr>)) (\<lambda>_ k.
     andthen (last_thread x k) (\<lambda>_ k. do {
       (out, s) \<leftarrow> sched64_exit_current ev (ksch k);
       let k = set_ksch s k;
       case out of
         Some y \<Rightarrow> Some (leave_to y k)
       | None \<Rightarrow> Some (Val (sint (a1 x)), k\<lparr>exit_code := a1 x\<rparr>)
     }))"

section \<open>Signals\<close>

definition SIG_BIT :: "int \<Rightarrow> u64" where
  "SIG_BIT sig = push_bit (nat sig) 1"

partial_function (option) deliver_loop :: "events \<Rightarrow> int \<Rightarrow> registers64 \<Rightarrow> kstate \<Rightarrow> (unit flow \<times> kstate) option" where
  "deliver_loop ev p self k =
     (let (sig, s) = signal64_take_pending_task (sched64_current (ksch k)) (sigs k);
          (sig, s) = (if sig > 0 then (sig, s) else signal64_take_pending p s);
          k = k\<lparr>sigs := s\<rparr>
      in if sig > 0
         then (case signal64_disposition p sig (sigs k) of
                 SIG64_DISP_IGNORE \<Rightarrow> deliver_loop ev p self k
               | SIG64_DISP_HANDLER \<Rightarrow> do {
                   (ok, self, s) \<leftarrow> signal64_deliver sig self 0 (sigs k);
                   let k = k\<lparr>sigs := s\<rparr>;
                   if ok then Some (Resume self, k) else die_by_signal ev sig k
                 }
               | SIG64_DISP_TERM \<Rightarrow> die_by_signal ev sig k)
         else Some (Val (), k))"

definition deliver_pending :: "events \<Rightarrow> registers64 \<Rightarrow> kstate \<Rightarrow> (unit flow \<times> kstate) option" where
  "deliver_pending ev self k = (if cur_pid k < 0 then Some (Val (), k) else deliver_loop ev (cur_pid k) self k)"

text \<open>A signal the caller sends itself: entered at once, ignored, or the end of it.\<close>

definition signal_self :: "events \<Rightarrow> syscall64_args \<Rightarrow> int \<Rightarrow> int \<Rightarrow> kstate \<Rightarrow> (int flow \<times> kstate) option" where
  "signal_self ev x p sig k = do {
     (ok, self, s) \<leftarrow> signal64_deliver sig (frame_from_args x 0 k) 0 (sigs k);
     let k = k\<lparr>sigs := s\<rparr>;
     if ok then Some (Resume self, k)
     else if signal64_disposition p sig (sigs k) = SIG64_DISP_IGNORE then Some (Val 0, k)
     else andthen (die_by_signal ev sig k) (\<lambda>_ k. Some (Val 0, k))
   }"

definition raise_pid :: "int \<Rightarrow> int \<Rightarrow> kstate \<Rightarrow> (int flow \<times> kstate) option" where
  "raise_pid p sig k =
     (let (rc, s) = signal64_raise p sig (sigs k); k = k\<lparr>sigs := s\<rparr>
      in Some (Val rc, if rc = 0 then set_ksch (snd (sched64_wake_pid p (ksch k))) k else k))"

definition sys_kill :: "events \<Rightarrow> syscall64_args \<Rightarrow> kstate \<Rightarrow> (int flow \<times> kstate) option" where
  "sys_kill ev x k =
     (let p = c_int (a1 x); sig = c_int (a2 x)
      in if sig < 0 \<or> sig \<ge> 64 then Some (Val (-22), k)
         else if p \<le> 0 then Some (Val (-38), k)
         else
         (case proc64_get p (ptab k) of
            None \<Rightarrow> Some (Val (-3), k)
          | Some i \<Rightarrow>
              if \<not> p_used (procs (ptab k) ! i) \<or> exited (procs (ptab k) ! i) then Some (Val (-3), k)
              else if sig = 0 then Some (Val 0, k)
              else if p = cur_pid k \<and> signal64_blocked (sched64_current (ksch k)) (sigs k) AND SIG_BIT sig \<noteq> 0 then raise_pid p sig k
              else if p = cur_pid k then signal_self ev x p sig k
              else raise_pid p sig k))"

definition sys_tgkill :: "events \<Rightarrow> bool \<Rightarrow> syscall64_args \<Rightarrow> kstate \<Rightarrow> (int flow \<times> kstate) option" where
  "sys_tgkill ev tg x k =
     (let tgid = (if tg then c_int (a1 x) else -1);
          tid = (if tg then c_int (a2 x) else c_int (a1 x));
          sig = (if tg then c_int (a3 x) else c_int (a2 x));
          slot = tid - 1; tpid = sched64_task_pid slot (ksch k)
      in if sig < 0 \<or> sig \<ge> 64 then Some (Val (-22), k)
         else if tid \<le> 0 then Some (Val (-22), k)
         else if tg \<and> tgid \<le> 0 then Some (Val (-22), k)
         else if tpid < 0 then Some (Val (-3), k)
         else if tg \<and> tpid \<noteq> tgid then Some (Val (-3), k)
         else if sig = 0 then Some (Val 0, k)
         else if slot = sched64_current (ksch k) \<and> signal64_blocked slot (sigs k) AND SIG_BIT sig \<noteq> 0
         then (let (rc, s) = signal64_raise_task slot sig (sigs k) in Some (Val rc, k\<lparr>sigs := s\<rparr>))
         else if slot = sched64_current (ksch k) then signal_self ev x tpid sig k
         else
         (let (rc, s) = signal64_raise_task slot sig (sigs k); k = k\<lparr>sigs := s\<rparr>
          in Some (Val rc, if rc = 0 then set_ksch (snd (sched64_wake_tid slot (ksch k))) k else k)))"

definition sys_sched_yield :: "syscall64_args \<Rightarrow> kstate \<Rightarrow> (int flow \<times> kstate) option" where
  "sys_sched_yield x k =
     (let (out, s) = sched64_yield_current (frame_from_args x 0 k) (ksch k); k = set_ksch s k
      in case out of Some y \<Rightarrow> Some (leave_to y k) | None \<Rightarrow> Some (Val 0, k))"

text \<open>The end of every call: pending signals are acted on, with the frame the call would have returned to.\<close>

definition signals_waiting :: "int \<Rightarrow> kstate \<Rightarrow> bool" where
  "signals_waiting p k \<longleftrightarrow> signal64_has_pending_task (sched64_current (ksch k)) (sigs k) \<or> signal64_has_pending p (sigs k)"

definition syscall64_return :: "events \<Rightarrow> syscall64_args \<Rightarrow> int \<Rightarrow> kstate \<Rightarrow> (int flow \<times> kstate) option" where
  "syscall64_return ev x r k =
     (let p = cur_pid k; i = proc64_current (ptab k);
          live = (\<lambda>k. p \<ge> 0 \<and> (case i of None \<Rightarrow> False | Some i \<Rightarrow> \<not> exited (procs (ptab k) ! i)))
      in andthen (if live k \<and> signals_waiting p k then deliver_pending ev (frame_from_args x (of_int r) k) k else Some (Val (), k)) (\<lambda>_ k.
         andthen
           (if live k
            then (let (popped, s) = signal64_pop_mask (sigs k); k = k\<lparr>sigs := s\<rparr>
                  in if popped \<and> signals_waiting p k then deliver_pending ev (frame_from_args x (of_int r) k) k else Some (Val (), k))
            else Some (Val (), k)) (\<lambda>_ k. Some (Val r, k))))"

text \<open>\<open>syscall64_dispatch\<close> over the function that carries the call out.\<close>

definition syscall64_dispatch ::
    "(syscall64_args \<Rightarrow> kstate \<Rightarrow> (int flow \<times> kstate) option) \<Rightarrow> events \<Rightarrow> syscall64_args \<Rightarrow> kstate \<Rightarrow> (int flow \<times> kstate) option" where
  "syscall64_dispatch inner ev x k = andthen (inner x k) (syscall64_return ev x)"

section \<open>Naming a socket\<close>

definition sys_bind :: "events \<Rightarrow> syscall64_args \<Rightarrow> kstate \<Rightarrow> (int flow \<times> kstate) option" where
  "sys_bind ev x k =
     (let fd = unat (a1 x); addr = unat (a2 x)
      in if no_fd (a1 x) k then Some (Val (-9), k)
         else if fd_kind (fdt k fd) = FD64_NETLINK
         then (if addr = 0 \<or> a3 x < 12 then Some (Val (-22), k)
               else andthen (user_range_ok ev (a2 x) 12 k) (\<lambda>ok k.
                 if \<not> ok then Some (Val (-22), k)
                 else Some (Val 0, set_fd fd (\<lambda>d. d\<lparr>fd_sigmask := of_nat (rd_le (umem k) (add64 addr 8) 4)\<rparr>) k)))
         else if no_sock fd k then Some (Val (-88), k)
         else if addr = 0 \<or> rd_le (umem k) addr 2 \<noteq> 1 then Some (Val (-22), k)
         else
         (case abs_path (Some (user_string (umem k) (addr + 2))) k of
            Inl e \<Rightarrow> Some (Val e, k)
          | Inr path \<Rightarrow> do {
              n \<leftarrow> ramfs64_lookup_nofollow path (kfs k);
              if n \<ge> 0 then Some (Val (-98), k)
              else do {
                (n, f) \<leftarrow> ramfs64_create path False (kfs k);
                let k = set_kfs f k;
                if n < 0 then Some (Val (-28), k)
                else
                (let k = set_kfs (ramfs64_set_mode n 493 (snd (ramfs64_set_device n RAMFS64_DEV_SOCK (kfs k)))) k;
                     (r, q) = sock64_bind (fd_sock (fdt k fd)) n (kss k)
                 in Some (Val r, set_kss q k))
              }
            }))"

end
