(* ===== verification/Life64_Refs.thy ===== *)
theory Life64_Refs
  imports Files64_Refs Life64 Signal64_Masks Vmspace64_Destroy
begin

text \<open>
  What the beginning and ending of processes does to the ends of pipes that descriptors hold. Forks that succeed, threads, exits, deaths by signal,
  waits for children and the delivery of signals all keep the books of the descriptor layer: a child's descriptors are counted when it is made,
  and a process has closed its descriptors when it is marked as ended, so reaping it loses nothing. \<open>kernel_call\<close> puts these calls
  together with those of the descriptor layer. A fork without memory is the exception, and what it loses is stated exactly.
\<close>

section \<open>Changes that leave the books alone\<close>

lemma with_machine_kfs: "kss (set_us u k) = (kss k)\<lparr>ps := (kps k)\<lparr>fs := with_machine (umach u) (kfs k)\<rparr>\<rparr>"
  by (simp add: set_us_def kss_def with_machine_def)

lemma ptab_set_us: "ptab (set_us u k) = table u"
  by (simp add: set_us_def ptab_def)

text \<open>The same processes, sockets and pipes, with a file system that is in order.\<close>

lemma books_frame:
  assumes "books k" and "kss t = (kss k)\<lparr>ps := (kps k)\<lparr>fs := f\<rparr>\<rparr>" and "ramfs_ok f" and "procs (ptab t) = procs (ptab k)" and "next_pid (ptab t) = next_pid (ptab k)"
  shows "books t"
proof -
  have "sock_inv (kss t) (held_ends (ptab k))" using assms(1) unfolding assms(2) by (intro sock_inv_fs) (simp_all add: books_def assms(3))
  moreover have "held_ends (ptab t) = held_ends (ptab k)" "procs_inv (ptab t) = procs_inv (ptab k)" "fds_ok (ptab t) = fds_ok (ptab k)"
    using assms(4,5) by (simp_all add: held_ends_def procs_inv_def fds_ok_def)
  ultimately show ?thesis using assms(1) by (simp add: books_def)
qed

lemma books_ramfs: "books k \<Longrightarrow> ramfs_ok (kfs k)"
  using sock_ramfs by (auto simp: books_def)

lemma with_machine_ok: "ramfs_ok f \<Longrightarrow> ramfs_ok (with_machine m f)"
  unfolding with_machine_def by (rule ramfs_ok_heap)

text \<open>What user memory, signals and address spaces do to the state.\<close>

lemma set_us_books: "books k \<Longrightarrow> table u = ptab k \<Longrightarrow> books (set_us u k)"
  using books_frame [of k "set_us u k" "with_machine (umach u) (kfs k)"] with_machine_ok [OF books_ramfs]
  by (simp add: with_machine_kfs ptab_set_us)

lemma set_us_caller: "table u = ptab k \<Longrightarrow> caller (set_us u k) = caller k"
  by (rule caller_cong) (simp_all add: ptab_set_us)

lemma sigs_books: "books k \<Longrightarrow> table (us s) = ptab k \<Longrightarrow> books (k\<lparr>sigs := s\<rparr>)"
  using set_us_books [of k "us s"] by (simp add: books_def set_us_def kss_def ptab_def)

lemma sigs_caller: "table (us s) = ptab k \<Longrightarrow> caller (k\<lparr>sigs := s\<rparr>) = caller k"
  by (rule caller_cong) (simp_all add: ptab_def)

lemma set_kmach_books [simp]: "books k \<Longrightarrow> books (set_kmach m k)" "caller (set_kmach m k) = caller k" "ptab (set_kmach m k) = ptab k"
proof -
  have t: "table ((us (sigs k))\<lparr>umach := m\<rparr>) = ptab k" by (simp add: ptab_def)
  show "books k \<Longrightarrow> books (set_kmach m k)" "caller (set_kmach m k) = caller k" "ptab (set_kmach m k) = ptab k"
    unfolding set_kmach_def using t by (simp_all only: set_us_books set_us_caller ptab_set_us)
qed

lemma set_kvm_views [simp]: "ptab (set_kvm v k) = ptab k"
  by (simp add: set_kvm_def) (simp add: ptab_def)

lemma vms_views [simp]: "kss (k\<lparr>vms := v\<rparr>) = kss k" "ptab (k\<lparr>vms := v\<rparr>) = ptab k"
  by (simp_all add: kss_def ptab_def)

lemma set_kvm_books: "books k \<Longrightarrow> books (set_kvm v k)"
  by (rule books_frame [of k _ "(kfs k)\<lparr>kh := heap v\<rparr>"]) (simp_all add: set_kvm_def ramfs_ok_heap [OF books_ramfs])

lemma set_kvm_caller [simp]: "caller (set_kvm v k) = caller k"
  by (rule caller_cong) simp_all

lemma small_views [simp]:
  "kss (k\<lparr>exit_code := c\<rparr>) = kss k" "ptab (k\<lparr>exit_code := c\<rparr>) = ptab k" "kss (k\<lparr>leader_exited := b\<rparr>) = kss k" "ptab (k\<lparr>leader_exited := b\<rparr>) = ptab k"
  "kss (k\<lparr>oom_kills := n\<rparr>) = kss k" "ptab (k\<lparr>oom_kills := n\<rparr>) = ptab k" "kss (k\<lparr>thread_exits := n\<rparr>) = kss k" "ptab (k\<lparr>thread_exits := n\<rparr>) = ptab k"
  "kss (k\<lparr>clear_child_tid := ws\<rparr>) = kss k" "ptab (k\<lparr>clear_child_tid := ws\<rparr>) = ptab k" "kss (k\<lparr>futex_wakes := n\<rparr>) = kss k" "ptab (k\<lparr>futex_wakes := n\<rparr>) = ptab k"
  "kss (k\<lparr>forks := n, last_fork_frames := m\<rparr>) = kss k" "ptab (k\<lparr>forks := n, last_fork_frames := m\<rparr>) = ptab k"
  "kss (k\<lparr>vforks := n\<rparr>) = kss k" "ptab (k\<lparr>vforks := n\<rparr>) = ptab k"
  by (simp_all add: kss_def ptab_def)

lemma books_cong: "kss t = kss k \<Longrightarrow> ptab t = ptab k \<Longrightarrow> books t = books k"
  by (simp add: books_def)

lemma caller_same: "ptab t = ptab k \<Longrightarrow> caller t = caller k"
  by (rule caller_cong) simp_all

text \<open>A change of one process that leaves its name and descriptors alone.\<close>

lemma upd_proc_views [simp]: "kss (upd_proc i f k) = kss k" "ptab (upd_proc i f k) = proc_upd i f (ptab k)" "umem (upd_proc i f k) = umem k"
  by (simp_all add: upd_proc_def)

lemma proc_upd_procs [simp]: "procs (proc_upd i f s) = (procs s)[i := f (procs s ! i)]"
  by (simp add: proc_upd_def)

lemma upd_held:
  assumes "length (procs s) = PROC64_MAX" and "\<And>p. p_used (f p) = p_used p" and "\<And>p. fds (f p) = fds p"
  shows "held_ends (proc_upd i f s) = held_ends s"
proof -
  have "p_used (procs (proc_upd i f s) ! j) = p_used (procs s ! j)" "proc_ends (procs (proc_upd i f s) ! j) = proc_ends (procs s ! j)" if "j < PROC64_MAX" for j
    using assms that by (cases "i = j"; simp add: nth_list_update proc_ends_def)+
  then show ?thesis unfolding held_ends_def by (intro sum.cong) auto
qed

lemma upd_table:
  assumes "procs_inv s" and "i < PROC64_MAX" and "\<And>p. p_used (f p) = p_used p \<and> fds (f p) = fds p \<and> pid (f p) = pid p \<and> proc_ok (f p) = proc_ok p"
  shows "procs_inv (proc_upd i f s)" "held_ends (proc_upd i f s) = held_ends s" "slot_for q (proc_upd i f s) = slot_for q s"
  using assms procs_inv_upd [of s i f] procs_invD(1,3) [OF assms(1)] upd_held [of s f i] slot_for_upd [of s i f q] by auto

lemma upd_fds_ok:
  assumes "procs_inv s" and "fds_ok s" and "i < PROC64_MAX" and "\<And>p. p_used (f p) = p_used p \<and> fds (f p) = fds p"
    and "exited (f (procs s ! i)) \<longrightarrow> exited (procs s ! i) \<or> list_all (\<lambda>d. \<not> fd_used d) (fds (procs s ! i))"
  shows "fds_ok (proc_upd i f s)"
  using assms procs_invD(1) [OF assms(1)] by (auto simp: fds_ok_def proc_fds_ok_def nth_list_update)

lemma set_ptab_books:
  assumes "books k" and "procs_inv t" and "fds_ok t" and "held_ends t = held_ends (ptab k)"
  shows "books (set_ptab t k)"
  using assms by (simp add: books_def)

lemma upd_proc_books:
  assumes b: "books k" and i: "i < PROC64_MAX" and f: "\<And>p. p_used (f p) = p_used p \<and> fds (f p) = fds p \<and> pid (f p) = pid p \<and> proc_ok (f p) = proc_ok p \<and> exited (f p) = exited p"
  shows "books (upd_proc i f k)" "caller (upd_proc i f k) = caller k" "me (upd_proc i f k) = me k"
proof -
  have inv: "procs_inv (ptab k)" "fds_ok (ptab k)" using b by (simp_all add: books_def)
  note U = upd_table [OF inv(1) i, of f] and O = upd_fds_ok [OF inv i, of f]
  show "books (upd_proc i f k)" unfolding upd_proc_def by (rule set_ptab_books [OF b]) (use U O f in auto)
  show m: "me (upd_proc i f k) = me k" using U(3) f by (simp add: me_def proc64_current_def)
  have "exited (procs (ptab (upd_proc i f k)) ! j) = exited (procs (ptab k) ! j)" for j
    using f procs_invD(1) [OF inv(1)] i by (simp add: nth_list_update)
  then show "caller (upd_proc i f k) = caller k" using U(3) f m by (simp add: caller_def proc64_current_def)
qed
section \<open>Ending\<close>

lemma fold_frame: "(\<And>i s. g (f i s) = g s) \<Longrightarrow> g (fold f is s) = g s"
  by (induction "is" arbitrary: s) simp_all

lemma drop_task_frame [simp]: "ptable (drop_task i s) = ptable s" "smach (drop_task i s) = smach s"
  by (simp_all add: drop_task_def tupd_def Let_def)

lemma remove_pid_frame [simp]: "ptable (snd (sched64_remove_pid p s)) = ptable s"
  unfolding sched64_remove_pid_def
  using fold_frame [of "\<lambda>x. ptable (snd x)" "remove_step p" "[0..<SCHED64_MAX_TASKS]" "(0, s)"] by (simp add: remove_step_def Let_def split: prod.splits)

lemma end_steps_frame [simp]: "ptable (fold (end_step p) is s) = ptable s" "smach (fold (end_step p) is s) = smach s"
  by (rule fold_frame, simp add: end_step_def)+

lemma find_successor_frame:
  assumes "find_successor ev s = Some (out, s')"
  shows "procs (ptable s') = procs (ptable s)" "next_pid (ptable s') = next_pid (ptable s)" "smach s' = smach s"
proof -
  obtain n t where t: "(case first_runnable s of Some n \<Rightarrow> Some (Some n, s) | None \<Rightarrow> if \<not> irq0_masked s \<and> any_deadline s then idle_until_runnable ev s else Some (None, s)) = Some (n, t)"
    "(case n of None \<Rightarrow> (None, t\<lparr>current := -1\<rparr>) | Some n \<Rightarrow> (let (out, s) = switch_to n t in (Some out, s))) = (out, s')"
    using assms by (auto simp: find_successor_def split: bind_splits)
  have "ptable t = ptable s \<and> smach t = smach s" using t(1) idle_frame [of ev s n t] by (auto split: option.splits if_splits)
  moreover have "procs (ptable s') = procs (ptable t) \<and> next_pid (ptable s') = next_pid (ptable t) \<and> smach s' = smach t"
    using t(2) by (auto simp: switch_to_def Let_def split: option.splits)
  ultimately show "procs (ptable s') = procs (ptable s)" "next_pid (ptable s') = next_pid (ptable s)" "smach s' = smach s" by simp_all
qed

lemma wake_all_books [simp]: "books (wake_all n k) = books k" "caller (wake_all n k) = caller k"
  by (simp_all add: books_cong [of "wake_all n k" k] caller_same [of "wake_all n k" k])

lemma ended_books:
  assumes "books k" and "ended p k = (r, t)"
  shows "books t" "procs (ptab t) = procs (ptab k)"
proof -
  have "books (leader_leaves_scheduler (k\<lparr>leader_exited := True\<rparr>))"
    unfolding leader_leaves_scheduler_def by (rule set_ksch_books) (simp_all add: assms(1) books_cong [of "k\<lparr>leader_exited := True\<rparr>" k])
  then show "books t" using assms by (auto simp: ended_def split: if_splits)
  show "procs (ptab t) = procs (ptab k)" using assms(2) by (auto simp: ended_def leader_leaves_scheduler_def split: if_splits)
qed

lemma free_space_books: "free_space d k = Some t \<Longrightarrow> books k \<Longrightarrow> books t \<and> ptab t = ptab k"
  by (auto simp: free_space_def set_kvm_books split: if_splits bind_splits)

lemma exit_process_books:
  assumes b: "books k" and e: "exit_process ev (v :: 'a) k = Some (r, t)"
  shows "books t" "procs (ptab t) = procs (ptab k)"
proof -
  obtain out s where s: "sched64_exit_process ev (cur_pid k) (ksch k) = Some (out, s)"
    "(case out of None \<Rightarrow> Some (Val v, set_ksch s k)
      | Some x \<Rightarrow> (let dying = vmspace64_current_phys (kmach (set_ksch s k)); (r, k) = leave_to x (set_ksch s k) in do { k \<leftarrow> free_space dying k; Some (r, k) })) = Some (r, t)"
    using e by (auto simp: exit_process_def Let_def [of "set_ksch _ k"] split: bind_splits)
  note F = find_successor_frame [OF s(1) [unfolded sched64_exit_process_def], simplified]
  have bs: "books (set_ksch s k)" by (rule set_ksch_books [OF b]) (use F in simp_all)
  have "books t \<and> procs (ptab t) = procs (ptab (set_ksch s k))"
  proof (cases out)
    case (Some x)
    obtain r' :: "'a flow" and u where u: "leave_to x (set_ksch s k) = (r', u)" by fastforce
    then have bu: "books u" "procs (ptab u) = procs (ptab (set_ksch s k))" by (simp_all add: leave_to_books [OF bs]) (auto simp: leave_to_def split: prod.splits)
    obtain w where "free_space (vmspace64_current_phys (kmach (set_ksch s k))) u = Some w" "t = w" using s(2) Some u by (auto simp: Let_def split: bind_splits)
    then show ?thesis using free_space_books [OF _ bu(1)] bu(2) by auto
  qed (use s(2) bs in simp)
  then show "books t" "procs (ptab t) = procs (ptab k)" using F by simp_all
qed

text \<open>The process is marked as ended once it has closed its descriptors.\<close>

lemma vfork_release_books:
  assumes "files_inv k"
  shows "files_inv (vfork_release (proc64_current (ptab k)) k)" "me (vfork_release (proc64_current (ptab k)) k) = me k"
proof -
  obtain i where i: "proc64_current (ptab k) = Some i" "i = me k" using assms by (auto simp: files_books caller_def me_def)
  have "i < PROC64_MAX" using running_me(1) [OF files_invD(1) [OF assms]] i(2) by simp
  note U = upd_proc_books [of k i "\<lambda>p. p\<lparr>vfork_parent := 0\<rparr>", OF _ this]
  have "me (wake_all n u) = me u" for n u by (rule me_cong) simp_all
  moreover have "proc_ok (p\<lparr>vfork_parent := 0\<rparr>) = proc_ok p" for p by (simp add: proc_ok_def)
  ultimately show "files_inv (vfork_release (proc64_current (ptab k)) k)" "me (vfork_release (proc64_current (ptab k)) k) = me k"
    using assms U by (simp_all add: vfork_release_def i(1) files_books)
qed

lemma current_slot:
  assumes "caller k"
  shows "slot_for (cur_pid k) (ptab k) = Some (me k)" "proc64_current (ptab k) = Some (me k)"
  using assms by (auto simp: caller_def me_def proc64_current_def proc64_current_pid_def)

lemma gone_books:
  assumes inv: "files_inv k" and cl: "\<forall>fd < FD_MAX. \<not> fd_used (fdt k fd)"
    and f: "\<And>p. p_used (f p) = p_used p \<and> fds (f p) = fds p \<and> pid (f p) = pid p \<and> proc_ok (f p) = proc_ok p"
  shows "books (set_ptab (proc_upd (me k) f (ptab k)) k)"
proof -
  have b: "books k" and p: "procs_inv (ptab k)" "fds_ok (ptab k)" using inv by (simp_all add: files_books books_def)
  note m = running_me [OF files_invD(1) [OF inv]]
  have "list_all (\<lambda>d. \<not> fd_used d) (fds (procs (ptab k) ! me k))" using cl m(3) by (simp add: list_all_length fdt_def)
  then show ?thesis
    by (intro set_ptab_books [OF b]) (use upd_table [OF p(1) m(1), of f] upd_fds_ok [OF p m(1), of f] f in auto)
qed

text \<open>Closing everything and recording the end, for an exit and for a death.\<close>

lemma ending_books:
  assumes inv: "files_inv k" and c: "close_all_files (vfork_release (proc64_current (ptab k)) k) = Some u"
  shows "books (set_ptab (proc64_exit (cur_pid u) st (ptab u)) u)" "books (set_ptab (proc64_exit_signalled (cur_pid u) sig (ptab u)) u)"
    "me u = me k" "files_inv u" "\<forall>fd < FD_MAX. \<not> fd_used (fdt u fd)"
proof -
  note V = vfork_release_books [OF inv]
  show u: "files_inv u" "\<forall>fd < FD_MAX. \<not> fd_used (fdt u fd)" "me u = me k" using close_all_inv [OF V(1)] c V(2) by auto
  have s: "slot_for (cur_pid u) (ptab u) = Some (me u)" using u(1) current_slot by (simp add: files_books)
  have p: "procs_inv (ptab u)" using u(1) by (simp add: files_books books_def)
  show "books (set_ptab (proc64_exit (cur_pid u) st (ptab u)) u)"
    unfolding exit_eq [OF s] by (rule gone_books [OF u(1,2)]) (simp add: proc_ok_def)
  show "books (set_ptab (proc64_exit_signalled (cur_pid u) sig (ptab u)) u)"
    unfolding exit_signalled_eq [OF p s] by (rule gone_books [OF u(1,2)]) (simp add: proc_ok_def)
qed

lemma andthen_cases:
  assumes "andthen m f = Some (r, t)"
  obtains x k where "m = Some (Val x, k)" "f x k = Some (r, t)" | fr where "m = Some (Resume fr, t)" "r = Resume fr" | "m = Some (Abort, t)" "r = Abort"
  using assms by (auto simp: andthen_def split: bind_splits flow.splits)

lemma ended_exit:
  assumes "books k" and "andthen (Some (ended p k)) (\<lambda>_ k. exit_process ev v k) = Some (r, t)"
  shows "books t"
  using assms(2)
proof (cases rule: andthen_cases)
  case (1 x u)
  then show ?thesis using ended_books(1) [OF assms(1), of p "Val ()" u] exit_process_books(1) [of u ev v r t] by simp
next
  case (2 fr)
  then show ?thesis using ended_books(1) [OF assms(1), of p "Resume fr" t] by simp
next
  case 3
  then show ?thesis using ended_books(1) [OF assms(1), of p Abort t] by simp
qed

lemma die_books:
  assumes inv: "files_inv k" and d: "die_by_signal ev sig k = Some (r, t)"
  shows "books t"
proof -
  define k1 where "k1 = k\<lparr>exit_code := of_int (128 + sig)\<rparr>"
  have i1: "files_inv k1" using inv files_inv_cong [of k1 k] by (simp add: k1_def)
  obtain u where u: "close_all_files (vfork_release (proc64_current (ptab k1)) k1) = Some u"
    "andthen (Some (ended (parent_of u) (set_ptab (proc64_exit_signalled (cur_pid u) sig (ptab u)) u))) (\<lambda>_ k. exit_process ev () k) = Some (r, t)"
    using d by (auto simp: die_by_signal_def k1_def Let_def split: bind_splits)
  note B = ending_books(2) [OF i1 u(1), of sig]
  from u(2) show ?thesis by (rule ended_exit [OF B])
qed

lemma exit_group_books:
  assumes inv: "files_inv k" and d: "sys_exit_group ev x k = Some (r, t)"
  shows "books t"
proof -
  define k1 where "k1 = k\<lparr>exit_code := a1 x\<rparr>"
  have i1: "files_inv k1" using inv files_inv_cong [of k1 k] by (simp add: k1_def)
  obtain u where u: "close_all_files (vfork_release (proc64_current (ptab k1)) k1) = Some u"
    "andthen (Some (ended (parent_of k1) (set_ptab (proc64_exit (cur_pid u) (c_int (a1 x)) (ptab u)) u))) (\<lambda>_ k. exit_process ev (sint (a1 x)) k) = Some (r, t)"
    using d by (auto simp: sys_exit_group_def k1_def Let_def split: bind_splits)
  note B = ending_books(1) [OF i1 u(1), of "c_int (a1 x)"]
  from u(2) show ?thesis by (rule ended_exit [OF B])
qed
section \<open>Pointers of the caller\<close>

text \<open>A part of a call: the books are right after it, and where it comes back the caller is still there.\<close>

definition good :: "'a flow \<Rightarrow> kstate \<Rightarrow> bool" where
  "good r t \<longleftrightarrow> books t \<and> (\<forall>v. r = Val v \<longrightarrow> caller t)"

lemma good_Val [simp]: "good (Val v) t = files_inv t"
  by (simp add: good_def files_books)

lemma andthen_good:
  assumes "andthen m f = Some (r, t)" and "\<And>r u. m = Some (r, u) \<Longrightarrow> good r u" and "\<And>x u. files_inv u \<Longrightarrow> f x u = Some (r, t) \<Longrightarrow> good r t"
  shows "good r t"
  using assms(1)
proof (cases rule: andthen_cases)
  case (1 x u)
  then show ?thesis using assms(2) [of "Val x" u] assms(3) [of u x] by simp
next
  case (2 fr)
  then show ?thesis using assms(2) [of "Resume fr" t] by (simp add: good_def)
next
  case 3
  then show ?thesis using assms(2) [of Abort t] by (simp add: good_def)
qed

lemma back_page_table: "back_page va fl u = Some (b, v) \<Longrightarrow> table v = table u"
  by (auto simp: back_page_def Let_def split: prod.splits if_splits bind_splits)

lemma fault_table: "uspace64_fault va w u = Some (b, v) \<Longrightarrow> table v = table u"
  using back_page_table by (fastforce simp: uspace64_fault_def split: option.splits if_splits bind_splits)

lemma pages_table: "user_pages_ok p e u = Some (b, v) \<Longrightarrow> table v = table u"
proof -
  have "table (snd x) = table u" if "user_pages_ok p e u = Some x" for x
  proof (rule user_pages_ok.raw_induct [where P = "\<lambda>p e u x. table (snd x) = table u", OF _ that], goal_cases)
    case (1 loop p e u x)
    from 1(2) show ?case by (auto split: if_splits bind_splits dest!: 1(1) fault_table)
  qed
  then show "user_pages_ok p e u = Some (b, v) \<Longrightarrow> table v = table u" by fastforce
qed

lemma present_table: "present_loop p e u = Some (b, v) \<Longrightarrow> table v = table u"
proof -
  have "table (snd x) = table u" if "present_loop p e u = Some x" for x
  proof (rule present_loop.raw_induct [where P = "\<lambda>p e u x. table (snd x) = table u", OF _ that], goal_cases)
    case (1 loop p e u x)
    from 1(2) show ?case by (auto split: if_splits bind_splits dest!: 1(1) fault_table)
  qed
  then show "present_loop p e u = Some (b, v) \<Longrightarrow> table v = table u" by fastforce
qed

lemma take_saved_us: "us (snd (take_saved s)) = us s"
  by (auto simp: take_saved_def Let_def)

lemma deliver_table:
  assumes "signal64_deliver sig fr fa s = Some (ok, fr', s')"
  shows "table (us s') = table (us s)"
proof -
  have "table (us s') = table (us s)" if "push_frame sa sig fr fa fp sp s = Some (ok, fr', s')" for sa fp sp s
    using that take_saved_us [of s] by (auto simp: push_frame_def set_my_blocked_def set_action_def Let_def split: bind_splits prod.splits if_splits)
  then show ?thesis
    using assms present_table by (fastforce simp: signal64_deliver_def range_present_def Let_def split: bind_splits if_splits)
qed

lemma take_oom_views: "take_user_oom k = (b, t) \<Longrightarrow> files_inv k \<Longrightarrow> files_inv t"
  by (auto simp: take_user_oom_def files_books split: prod.splits)

lemma oom_kill_good:
  assumes "files_inv k" and "syscall64_oom_kill ev k = Some (r, t)"
  shows "good r t"
proof -
  let ?k = "k\<lparr>oom_kills := add64 (oom_kills k) 1\<rparr>"
  have "files_inv ?k" using assms(1) files_inv_cong [of ?k k] by simp
  note D = die_books [OF this, of ev SIG64_KILLSIG]
  from assms(2) [unfolded syscall64_oom_kill_def] show ?thesis
    by (cases rule: andthen_cases) (use D in \<open>auto simp: good_def\<close>)
qed

lemma range_good:
  assumes inv: "files_inv k" and c: "user_range_ok ev a n k = Some (r, t)"
  shows "good r t"
proof (cases "a = 0 \<or> n = 0 \<or> a \<ge> 0x0000800000000000 \<or> a + n < a")
  case False
  obtain b k1 where k1: "take_user_oom k = (b, k1)" by fastforce
  have i1: "files_inv k1" by (rule take_oom_views [OF k1 inv])
  obtain ok u where u: "user_pages_ok (a AND NOT 0xFFF) (a + n) (us (sigs k1)) = Some (ok, u)"
    using c False k1 by (auto simp: user_range_ok_def split: bind_splits)
  define k2 where "k2 = set_us u k1"
  have i2: "files_inv k2" using pages_table [OF u] i1 by (simp add: k2_def files_books set_us_books set_us_caller ptab_def)
  obtain oom k3 where k3: "take_user_oom k2 = (oom, k3)" by fastforce
  have i3: "files_inv k3" by (rule take_oom_views [OF k3 i2])
  have e: "(if ok then Some (Val True, k2) else if oom then andthen (syscall64_oom_kill ev k3) (\<lambda>_ k. Some (Val False, k)) else Some (Val False, k3)) = Some (r, t)"
    using c False k1 u k3 by (simp add: user_range_ok_def k2_def [symmetric] cong: if_cong split del: if_split)
  show ?thesis
  proof (cases "\<not> ok \<and> oom")
    case True
    then have "andthen (syscall64_oom_kill ev k3) (\<lambda>_ k. Some (Val False, k)) = Some (r, t)" using e by simp
    then show ?thesis by (rule andthen_good) (use oom_kill_good [OF i3] in auto)
  qed (use e i2 i3 in \<open>auto split: if_splits\<close>)
qed (use inv c in \<open>auto simp: user_range_ok_def split: if_splits\<close>)

lemma store_int_inv [simp]: "files_inv (store_int a v k) = files_inv k"
  by (rule files_inv_cong) simp_all

lemma put_word_good:
  assumes inv: "files_inv k" and c: "put_word ev w a v k = Some (r, t)"
  shows "good r t"
proof (cases w)
  case True
  then have "andthen (user_range_ok ev a 4 k) (\<lambda>ok k. Some (Val (), if ok then store_int a v k else k)) = Some (r, t)" using c by (simp add: put_word_def)
  then show ?thesis by (rule andthen_good) (use range_good [OF inv] in auto)
qed (use inv c in \<open>auto simp: put_word_def\<close>)
section \<open>Waiting for a child\<close>

lemma no_ends:
  assumes "list_all (\<lambda>d. \<not> fd_used d) (fds p)"
  shows "proc_ends p = {#}"
proof -
  have "list_all (\<lambda>d. \<not> fd_used d) ds \<Longrightarrow> sum_list (map fd_ends ds) = {#}" for ds by (induction ds) (simp_all add: fd_ends_def)
  then show ?thesis using assms by (simp add: proc_ends_def)
qed

lemma reap_held:
  assumes inv: "procs_inv s" and ok: "fds_ok s"
  shows "held_ends (snd (proc64_reap_child_pid q want s)) = held_ends s" "fds_ok (snd (proc64_reap_child_pid q want s))"
    "next_pid (snd (proc64_reap_child_pid q want s)) = next_pid s" "current_pid (snd (proc64_reap_child_pid q want s)) = current_pid s"
proof -
  let ?t = "snd (proc64_reap_child_pid q want s)"
  have "(held_ends ?t = held_ends s \<and> fds_ok ?t) \<and> next_pid ?t = next_pid s \<and> current_pid ?t = current_pid s"
  proof (cases "\<exists>i. reapable q want s i")
    case True
    then obtain i where i: "reapable q want s i" and e: "?t = proc_upd i (\<lambda>p. p\<lparr>p_used := False\<rparr>) (s\<lparr>reaped_signal := term_sig (procs s ! i)\<rparr>)"
      by (metis reap_first snd_conv)
    have u: "i < PROC64_MAX" "p_used (procs s ! i)" "exited (procs s ! i)" using i by (auto simp: reapable_def)
    then have n: "proc_ends (procs s ! i) = {#}" using ok by (intro no_ends) (simp add: fds_ok_def proc_fds_ok_def)
    have l: "length (procs s) = PROC64_MAX" by (rule procs_invD(1) [OF inv])
    have at: "procs ?t ! j = (if j = i then (procs s ! i)\<lparr>p_used := False\<rparr> else procs s ! j)" for j using u(1) l by (simp add: e nth_list_update)
    have "{j. j < PROC64_MAX \<and> p_used (procs ?t ! j)} = {j. j < PROC64_MAX \<and> p_used (procs s ! j)} - {i}" by (auto simp: at)
    then have "held_ends ?t = (\<Sum>j\<in>{j. j < PROC64_MAX \<and> p_used (procs s ! j)} - {i}. proc_ends (procs s ! j))"
      unfolding held_ends_def by (intro sum.cong) (auto simp: at)
    also have "\<dots> = held_ends s" unfolding held_ends_def using u(1,2) n by (subst sum.remove [of _ i]) auto
    finally show ?thesis using ok by (auto simp: fds_ok_def at) (simp_all add: e)
  next
    case False
    then show ?thesis using ok by (simp add: reap_none held_ends_def fds_ok_def)
  qed
  then show "held_ends ?t = held_ends s" "fds_ok ?t" "next_pid ?t = next_pid s" "current_pid ?t = current_pid s" by simp_all
qed

lemma reap_caller:
  assumes "caller k" and "procs_inv (ptab k)"
  shows "caller (set_ptab (snd (proc64_reap_child_pid q want (ptab k))) k)"
proof -
  let ?s = "ptab k" and ?t = "snd (proc64_reap_child_pid q want (ptab k))"
  have m: "slot_for (current_pid ?s) ?s = Some (me k)" "\<not> exited (procs ?s ! me k)" using assms(1) current_slot [of k] by (auto simp: caller_def proc64_current_pid_def)
  have c: "slot_for (current_pid ?t) ?t = Some (me k) \<and> \<not> exited (procs ?t ! me k)"
  proof (cases "\<exists>i. reapable q want ?s i")
    case True
    then obtain i where i: "reapable q want ?s i" and e: "?t = proc_upd i (\<lambda>p. p\<lparr>p_used := False\<rparr>) (?s\<lparr>reaped_signal := term_sig (procs ?s ! i)\<rparr>)"
      by (metis reap_first snd_conv)
    have u: "i < PROC64_MAX" "exited (procs ?s ! i)" using i by (auto simp: reapable_def)
    then have ne: "i \<noteq> me k" using m(2) by blast
    have inv: "procs_inv ?t" by (rule reap_inv [OF assms(2)])
    have "procs ?t ! me k = procs ?s ! me k" "current_pid ?t = current_pid ?s" using ne by (simp_all add: e)
    then show ?thesis using m slot_for_Some [OF inv] slot_for_Some [OF assms(2)] by simp
  next
    case False
    then show ?thesis using m by (simp add: reap_none)
  qed
  then show ?thesis by (simp add: caller_def proc64_current_def me_def)
qed

lemma wait4_books:
  assumes inv: "files_inv k" and c: "sys_wait4 ev x k = Some (r, t)"
  shows "books t"
proof (cases "c_int (a1 x) < -1")
  case False
  define want where "want = (if c_int (a1 x) = 0 then -1 else c_int (a1 x))"
  obtain reaped st s where s: "proc64_reap_child_pid (cur_pid k) want (ptab k) = ((reaped, st), s)" by (metis surj_pair)
  define u where "u = set_ptab s k"
  have p: "procs_inv (ptab k)" "fds_ok (ptab k)" "books k" "caller k" using inv by (simp_all add: files_books books_def)
  have "books u" unfolding u_def by (rule set_ptab_books [OF p(3)]) (use reap_inv [OF p(1)] reap_held [OF p(1,2)] s in \<open>metis snd_conv\<close>)+
  moreover have "caller u" using reap_caller [OF p(4,1), of "cur_pid k" want] s by (simp add: u_def)
  ultimately have iu: "files_inv u" "books u" by (simp_all add: files_books)
  have b: "books (store_int a v u)" for a v using iu(2) books_cong [of "store_int a v u" u] by simp
  show ?thesis
    using c False iu b s unfolding sys_wait4_def Let_def want_def [symmetric]
    by (auto simp: u_def [symmetric] files_books split: if_splits elim!: park_books [OF iu(1), rotated])
qed (use inv c in \<open>auto simp: sys_wait4_def files_books\<close>)
section \<open>Beginning\<close>

lemma fork_from_books:
  assumes inv: "files_inv k" and f: "proc64_fork_from (cur_pid k) (ptab k) (kps k) = Some (child, s, p)"
  shows "files_inv (set_kps p (set_ptab s k))"
    "0 \<le> child \<Longrightarrow> child = next_pid (ptab k) \<and> (\<exists>ic < PROC64_MAX. slot_for child s = Some ic \<and> \<not> p_used (procs (ptab k) ! ic)
       \<and> procs s = (procs (ptab k))[ic := child_of child (procs (ptab k) ! me k)] \<and> p = fold count_fd (fds (procs (ptab k) ! me k)) (kps k))"
proof -
  let ?s = "ptab k" and ?P = "procs (ptab k) ! me k"
  have b: "procs_inv ?s" "fds_ok ?s" "sock_inv (kss k) (held_ends ?s)" "caller k" using inv by (simp_all add: files_books books_def)
  note m = running_me [OF files_invD(1) [OF inv]] and sl = current_slot(1) [OF b(4)]
  have "files_inv (set_kps p (set_ptab s k)) \<and> (0 \<le> child \<longrightarrow> child = next_pid ?s \<and> (\<exists>ic < PROC64_MAX. slot_for child s = Some ic \<and> \<not> p_used (procs ?s ! ic)
       \<and> procs s = (procs ?s)[ic := child_of child ?P] \<and> p = fold count_fd (fds ?P) (kps k)))"
  proof (cases "\<forall>i < PROC64_MAX. p_used (procs ?s ! i)")
    case True
    then have e: "child = -1" "s = ?s\<lparr>full_said := True\<rparr>" "p = kps k" using f sl by (simp_all add: proc64_fork_from_def create_full)
    have "held_ends s = held_ends ?s" "fds_ok s = fds_ok ?s" "procs_inv s" using b(1) by (simp_all add: e held_ends_def fds_ok_def)
    moreover have "caller (set_kps p (set_ptab s k))" using b(4) caller_cong [of "set_kps p (set_ptab s k)" k] by (simp add: e(2))
    ultimately show ?thesis using b e by (simp add: files_books books_def)
  next
    case False
    obtain ic t where t: "ic < PROC64_MAX" "\<not> p_used (procs ?s ! ic)" "slot_for (next_pid ?s) ?s = None"
      "proc64_fork_from (cur_pid k) ?s (kps k) = Some (next_pid ?s, t, fold count_fd (fds ?P) (kps k))"
      "procs t = (procs ?s)[ic := child_of (next_pid ?s) ?P]" "procs_inv t" "current_pid t = current_pid ?s" "next_pid t = next_pid ?s + 1"
      using fork_from_eq [OF b(1) sl False, of "kps k"] by metis
    have e: "child = next_pid ?s" "s = t" "p = fold count_fd (fds ?P) (kps k)" using f t(4) by simp_all
    have l: "length (procs ?s) = PROC64_MAX" by (rule procs_invD(1) [OF b(1)])
    have at: "procs t ! j = (if j = ic then child_of child ?P else procs ?s ! j)" for j using t(1,5) l by (simp add: nth_list_update e)
    have "held_ends t = held_ends ?s + proc_ends ?P" using held_ends_new [OF t(1,2), of t] by (simp add: at proc_ends_def)
    moreover have "pipes_inv p (held_ends ?s + owned (kss k) + sum_list (map fd_ends (fds ?P)))"
      unfolding e(3) by (rule count_fds_pipes) (use sock_invD(2) [OF b(3)] held_ends_split [OF m(1,2)] in \<open>simp_all add: add.commute proc_ends_def\<close>)
    ultimately have "sock_inv ((kss k)\<lparr>ps := p\<rparr>) (held_ends t)" by (intro sock_inv_ps [OF b(3)]) (simp add: proc_ends_def ac_simps)
    moreover have "fds_ok t"
    proof -
      have "proc_fds_ok ?P" using b(2) m by (simp add: fds_ok_def)
      then show ?thesis using b(2) by (simp add: fds_ok_def at) (simp add: proc_fds_ok_def)
    qed
    moreover have sm: "slot_for (current_pid t) t = Some (me k)" "procs t ! me k = ?P"
    proof -
      show "procs t ! me k = ?P" using m(2) t(2) by (auto simp: at)
      then show "slot_for (current_pid t) t = Some (me k)" using slot_for_Some [OF t(6)] slot_for_Some [OF b(1)] sl t(7) by (simp add: proc64_current_pid_def)
    qed
    moreover have "caller (set_kps p (set_ptab t k))" using b(4) sm by (simp add: caller_def proc64_current_def me_def)
    moreover have "slot_for child t = Some ic" using slot_for_Some [OF t(6)] t(1) by (simp add: at)
    ultimately show ?thesis using t(1,2,5,6) e by (auto simp: files_books books_def)
  qed
  then show "files_inv (set_kps p (set_ptab s k))"
    "0 \<le> child \<Longrightarrow> child = next_pid (ptab k) \<and> (\<exists>ic < PROC64_MAX. slot_for child s = Some ic \<and> \<not> p_used (procs (ptab k) ! ic)
       \<and> procs s = (procs (ptab k))[ic := child_of child (procs (ptab k) ! me k)] \<and> p = fold count_fd (fds (procs (ptab k) ! me k)) (kps k))" by blast+
qed

lemma signal_frames [simp]:
  "us (signal64_fork p c s) = us s" "us (signal64_task_inherit_altstack a b s) = us s" "us (signal64_task_start a b s) = us s"
  by (simp_all add: signal64_fork_def signal64_task_inherit_altstack_def signal64_task_start_def Let_def)

lemma sigs_inv: "files_inv k \<Longrightarrow> table (us s) = ptab k \<Longrightarrow> files_inv (k\<lparr>sigs := s\<rparr>)"
  by (simp add: files_books sigs_books sigs_caller)

lemma us_sigs: "table (us (sigs k)) = ptab k"
  by (simp add: ptab_def)

lemma space_inv: "files_inv k \<Longrightarrow> i < PROC64_MAX \<Longrightarrow> files_inv (upd_proc i (\<lambda>p. p\<lparr>space := vs\<rparr>) k)"
  using upd_proc_books [of k i "\<lambda>p. p\<lparr>space := vs\<rparr>"] by (simp add: files_books proc_ok_def)

lemma fork_space_inv:
  assumes inv: "files_inv k" and ic: "ic < PROC64_MAX" and f: "fork_space child ic k = Some (True, t)"
  shows "files_inv t"
proof -
  obtain vs v where v: "vmspace64_create (kvm k) = Some ((True, vs), v)" "t = set_kmach (snd (vmspace64_clone_cow (zero64 (upd_proc ic (\<lambda>p. p\<lparr>space := vs\<rparr>) (set_kvm v k)))
     (vmspace64_current_phys (kmach (upd_proc ic (\<lambda>p. p\<lparr>space := vs\<rparr>) (set_kvm v k)))) vs (kmach (upd_proc ic (\<lambda>p. p\<lparr>space := vs\<rparr>) (set_kvm v k))))) (upd_proc ic (\<lambda>p. p\<lparr>space := vs\<rparr>) (set_kvm v k))"
    using f by (auto simp: fork_space_def Let_def split: bind_splits if_splits prod.splits)
  have "files_inv (set_kvm v k)" using inv by (simp add: files_books set_kvm_books)
  then show ?thesis using space_inv [OF _ ic, of "set_kvm v k" vs] by (simp add: v(2) files_books)
qed

lemma set_ksch_inv: "files_inv k \<Longrightarrow> ptable s = ptab k \<Longrightarrow> files_inv (set_ksch s k)"
  using set_ksch_books [of k s] caller_cong [of "set_ksch s k" k] by (simp add: files_books)

lemma add_frame_ptable: "sched64_add_frame_for fr vs fb p s = (slot, t) \<Longrightarrow> ptable t = ptable s"
  by (auto simp: sched64_add_frame_for_def tasks_full_def tupd_def Let_def split: option.splits)

lemma wait_reset_inv: "files_inv k \<Longrightarrow> files_inv (wait_slot_reset t k)"
proof -
  assume "files_inv k"
  then have "files_inv (k\<lparr>sigs := signal64_task_start t (sched64_current (ksch k)) (sigs k)\<rparr>)" by (rule sigs_inv) (simp add: us_sigs)
  then show ?thesis using files_inv_cong [of "wait_slot_reset t k" "k\<lparr>sigs := signal64_task_start t (sched64_current (ksch k)) (sigs k)\<rparr>"] \<open>files_inv k\<close>
    by (cases "bad_task t") (simp_all add: wait_slot_reset_def kss_def ptab_def)
qed

lemma fork_task_inv:
  assumes inv: "files_inv k" and f: "fork_task x cst child ic k = Some (slot, t)" "\<not> slot < 0"
  shows "files_inv t"
proof -
  define fr where "fr = (if cst \<noteq> 0 then (frame_from_args x 0 k)\<lparr>rsp := cst\<rparr> else frame_from_args x 0 k)"
  obtain sl s where s: "sched64_add_frame_for fr (space (procs (ptab k) ! ic)) (fs_msr (ksch k)) child (ksch k) = (sl, s)" by fastforce
  define u where "u = wait_slot_reset sl (set_ksch s k)"
  have "files_inv u" unfolding u_def by (intro wait_reset_inv set_ksch_inv [OF inv]) (use add_frame_ptable [OF s] in simp)
  moreover have "t = u\<lparr>sigs := signal64_task_inherit_altstack sl (sched64_current (ksch u)) (sigs u)\<rparr>"
    using f s by (auto simp: fork_task_def Let_def fr_def [symmetric] u_def split: if_splits bind_splits)
  ultimately show ?thesis by (simp add: sigs_inv us_sigs)
qed

lemma destroy_space_books:
  assumes "books k" and "ic < PROC64_MAX" and "destroy_space ic k = Some t"
  shows "books t"
proof -
  obtain vs v where v: "t = upd_proc ic (\<lambda>p. p\<lparr>space := vs\<rparr>) (set_kvm v k)" using assms(3) by (auto simp: destroy_space_def split: bind_splits)
  show ?thesis unfolding v by (rule upd_proc_books [OF set_kvm_books [OF assms(1)] assms(2)]) (simp add: proc_ok_def)
qed

lemma fork_task_books:
  assumes inv: "files_inv k" and ic: "ic < PROC64_MAX" and f: "fork_task x cst child ic k = Some (slot, t)" "slot < 0"
  shows "books t"
proof -
  define fr where "fr = (if cst \<noteq> 0 then (frame_from_args x 0 k)\<lparr>rsp := cst\<rparr> else frame_from_args x 0 k)"
  obtain sl s where s: "sched64_add_frame_for fr (space (procs (ptab k) ! ic)) (fs_msr (ksch k)) child (ksch k) = (sl, s)" by fastforce
  have "files_inv (set_ksch s k)" by (rule set_ksch_inv [OF inv]) (use add_frame_ptable [OF s] in simp)
  moreover have "destroy_space ic (set_ksch s k) = Some t"
    using f s by (auto simp: fork_task_def Let_def fr_def [symmetric] split: if_splits bind_splits)
  ultimately show ?thesis using destroy_space_books [OF _ ic, of "set_ksch s k" t] by (simp add: files_books)
qed

lemma tid_words_good:
  assumes inv: "files_inv k" and c: "tid_words ev x slot ic k = Some (r, t)"
  shows "good r t"
proof -
  define k1 where "k1 = (if flag (if arg_nr x = SYS64_CLONE then a1 x else 0) CLONE_CHILD_SETTID
     then set_kmach (snd (vmspace64_write_u32 (zero64 k) (space (procs (ptab k) ! ic)) (a4 x) (of_int (slot + 1)) (kmach k))) k else k)"
  have i1: "files_inv k1" using inv by (simp add: k1_def files_books)
  have cl: "files_inv (u\<lparr>clear_child_tid := ws\<rparr>) = files_inv u" for u ws by (rule files_inv_cong) simp_all
  from c have "andthen (put_word ev (flag (if arg_nr x = SYS64_CLONE then a1 x else 0) CLONE_PARENT_SETTID) (a3 x) (slot + 1) k1)
     (\<lambda>_ k. Some (Val (), if flag (if arg_nr x = SYS64_CLONE then a1 x else 0) CLONE_CHILD_CLEARTID then k\<lparr>clear_child_tid := (clear_child_tid k)[nat slot := a4 x]\<rparr> else k)) = Some (r, t)"
    unfolding tid_words_def Let_def k1_def [symmetric] by simp
  then show ?thesis by (rule andthen_good) (use put_word_good [OF i1] cl in auto)
qed

lemma park_good:
  assumes "files_inv k" and "\<And>u. files_inv u \<Longrightarrow> f u = Some (r, t) \<Longrightarrow> good r t" and "park ev self key nr f k = Some (r, t)"
  shows "books t"
  using park_books [OF assms(1) _ assms(3)] assms(2) by (auto simp: good_def)

text \<open>A fork that succeeds: the child's descriptors are counted.\<close>

lemma fork_done_books:
  assumes inv: "files_inv u" and ic: "ic < PROC64_MAX" and f: "fork_done ev x vf b child ic u = Some (r, t)"
  shows "books t"
proof -
  define v where "v = u\<lparr>forks := add64 (forks u) 1, last_fork_frames := (if b > pmm64_free_frames (pmm (kmach u)) then b - pmm64_free_frames (pmm (kmach u)) else 0)\<rparr>"
  have iv: "files_inv v" using inv files_inv_cong [of v u] by (simp add: v_def)
  define w where "w = (upd_proc ic (\<lambda>p. p\<lparr>vfork_parent := cur_pid v\<rparr>) v)\<lparr>vforks := add64 (vforks (upd_proc ic (\<lambda>p. p\<lparr>vfork_parent := cur_pid v\<rparr>) v)) 1\<rparr>"
  have "files_inv (upd_proc ic (\<lambda>p. p\<lparr>vfork_parent := cur_pid v\<rparr>) v)"
    using upd_proc_books [of v ic "\<lambda>p. p\<lparr>vfork_parent := cur_pid v\<rparr>"] iv ic by (simp add: files_books proc_ok_def)
  then have iw: "files_inv w" using files_inv_cong [of w "upd_proc ic (\<lambda>p. p\<lparr>vfork_parent := cur_pid v\<rparr>) v"] by (simp add: w_def)
  have e: "fork_done ev x vf b child ic u = (if \<not> vf then Some (Val child, v)
      else park ev (frame_from_args x (of_int child) w) (PROC64_VFORK_KEY child) (of_int child) (\<lambda>k. Some (Val child, k)) w)"
    unfolding fork_done_def Let_def v_def [symmetric] w_def [symmetric] by (rule refl)
  show ?thesis
  proof (cases vf)
    case True
    then have "park ev (frame_from_args x (of_int child) w) (PROC64_VFORK_KEY child) (of_int child) (\<lambda>k. Some (Val child, k)) w = Some (r, t)" using f e by simp
    then show ?thesis by (rule park_books [OF iw, rotated]) (simp add: files_books)
  qed (use f e iv in \<open>auto simp: files_books\<close>)
qed

text \<open>What a fork does once the process table has a child.\<close>

definition fork_tail :: "events \<Rightarrow> syscall64_args \<Rightarrow> u64 \<Rightarrow> bool \<Rightarrow> nat \<Rightarrow> int \<Rightarrow> nat \<Rightarrow> kstate \<Rightarrow> (int flow \<times> kstate) option" where
  "fork_tail ev x cst vf b child ic v = do {
     (ok, k1) \<leftarrow> fork_space child ic v;
     if \<not> ok then Some (Val (-12), k1)
     else do {
       (slot, k1) \<leftarrow> fork_task x cst child ic k1;
       if slot < 0 then Some (Val (-11), k1)
       else andthen (tid_words ev x slot ic k1) (\<lambda>_. fork_done ev x vf b child ic)
     }
   }"

lemma fork_steps:
  assumes inv: "files_inv k" and s: "proc64_fork_from (cur_pid k) (ptab k) (kps k) = Some (child, s, p)" and c: "\<not> child < 0"
  obtains ic v where "ic < PROC64_MAX" "slot_for child s = Some ic" "files_inv v" "ptab v = s" "kmach v = mach (kh (fs p))"
    "\<And>ev x cst vf. do_fork_common ev x cst vf k = fork_tail ev x cst vf (pmm64_free_frames (pmm (kmach k))) child ic v"
proof -
  note F = fork_from_books [OF inv s]
  define u where "u = set_kps p (set_ptab s k)"
  obtain ic where ic: "ic < PROC64_MAX" "slot_for child s = Some ic" using F(2) c by auto
  define v where "v = (if child > 0 then u\<lparr>sigs := signal64_fork (cur_pid k) child (sigs u)\<rparr> else u)"
  have pu: "ptab u = s" "kmach u = mach (kh (fs p))" by (simp_all add: u_def) (simp add: kmach_def set_kps_def set_kss_def)
  have iv: "files_inv v" using F(1) sigs_inv [of u] by (simp add: v_def u_def us_sigs)
  have pv: "ptab v = s" "kmach v = mach (kh (fs p))" using pu by (simp_all add: v_def ptab_def kmach_def)
  have "do_fork_common ev x cst vf k = fork_tail ev x cst vf (pmm64_free_frames (pmm (kmach k))) child ic v" for ev x cst vf
    unfolding fork_tail_def do_fork_common_def Let_def s Option.bind.simps prod.case u_def [symmetric] v_def [symmetric] if_not_P [OF c] pv(1) proc64_get_def ic(2)
    by (rule refl)
  then show ?thesis using that ic iv pv by blast
qed

lemma fork_books:
  assumes inv: "files_inv k" and f: "do_fork_common ev x cst vf k = Some (r, t)" and ok: "r \<noteq> Val (-12)"
  shows "books t"
proof -
  obtain child s p where s: "proc64_fork_from (cur_pid k) (ptab k) (kps k) = Some (child, s, p)"
    using f by (cases "proc64_fork_from (cur_pid k) (ptab k) (kps k)") (auto simp: do_fork_common_def Let_def)
  show ?thesis
  proof (cases "child < 0")
    case True
    then have "t = set_kps p (set_ptab s k)" using f s by (simp add: do_fork_common_def Let_def)
    then show ?thesis using fork_from_books(1) [OF inv s] by (simp add: files_books)
  next
    case False
    obtain ic v where v: "ic < PROC64_MAX" "files_inv v"
      "do_fork_common ev x cst vf k = fork_tail ev x cst vf (pmm64_free_frames (pmm (kmach k))) child ic v" by (rule fork_steps [OF inv s False]) blast
    note e = v(3) [unfolded fork_tail_def]
    obtain w where w: "fork_space child ic v = Some (True, w)" using f ok unfolding e by (auto split: bind_splits if_splits)
    have iw: "files_inv w" by (rule fork_space_inv [OF v(2,1) w])
    obtain slot z where z: "fork_task x cst child ic w = Some (slot, z)" using f unfolding e w by (auto split: bind_splits)
    show ?thesis
    proof (cases "slot < 0")
      case True
      then have "t = z" using f z unfolding e w by simp
      then show ?thesis using fork_task_books [OF iw v(1) z True] by simp
    next
      case False
      have iz: "files_inv z" by (rule fork_task_inv [OF iw z False])
      have "andthen (tid_words ev x slot ic z) (\<lambda>_. fork_done ev x vf (pmm64_free_frames (pmm (kmach k))) child ic) = Some (r, t)"
        using f z False unfolding e w by simp
      then show ?thesis
      proof (cases rule: andthen_cases)
        case (1 y q)
        then show ?thesis using tid_words_good [OF iz 1(1)] fork_done_books [OF _ v(1)] by simp
      qed (use tid_words_good [OF iz] in \<open>auto simp: good_def\<close>)
    qed
  qed
qed
lemma clone_books:
  assumes inv: "files_inv k" and f: "sys_clone ev x k = Some (r, t)" and ok: "r \<noteq> Val (-12)"
  shows "books t"
proof (cases "\<not> flag (a1 x) CLONE_VM \<or> flag (a1 x) CLONE_VFORK \<or> a2 x = 0 \<or> sched64_current_space (ksch k) = None")
  case True
  then show ?thesis
    using f inv fork_books [OF inv _ ok] by (auto simp: sys_clone_def do_fork_def files_books split: if_splits option.splits)
next
  case False
  then obtain vs where vs: "sched64_current_space (ksch k) = Some vs" by blast
  obtain tid s where s: "sched64_add_frame (thread_frame x) vs (if flag (a1 x) CLONE_SETTLS then a5 x else 0) (ksch k) = (tid, s)" by fastforce
  define u where "u = wait_slot_reset tid (set_ksch s k)"
  have iu: "files_inv u"
    unfolding u_def by (intro wait_reset_inv set_ksch_inv [OF inv]) (use add_frame_ptable [OF s [unfolded sched64_add_frame_def]] in simp)
  have cl: "files_inv (v\<lparr>clear_child_tid := ws\<rparr>) = files_inv v" for v ws by (rule files_inv_cong) simp_all
  show ?thesis
  proof (cases "tid < 0")
    case True
    have "files_inv (set_ksch s k)" by (rule set_ksch_inv [OF inv]) (use add_frame_ptable [OF s [unfolded sched64_add_frame_def]] in simp)
    moreover have "t = set_ksch s k" using f False vs s True by (simp add: sys_clone_def Let_def)
    ultimately show ?thesis by (simp add: files_books)
  next
    case tid: False
  then have "andthen (put_word ev (flag (a1 x) CLONE_PARENT_SETTID) (a3 x) (tid + 1) u) (\<lambda>_ k.
     andthen (put_word ev (flag (a1 x) CLONE_CHILD_SETTID) (a4 x) (tid + 1) k) (\<lambda>_ k.
     Some (Val (tid + 1), if flag (a1 x) CLONE_CHILD_CLEARTID then k\<lparr>clear_child_tid := (clear_child_tid k)[nat tid := a4 x]\<rparr> else k))) = Some (r, t)"
    using f False vs s unfolding sys_clone_def Let_def by (simp add: u_def)
  then have "good r t"
  proof (rule andthen_good)
    fix y v
    assume iv: "files_inv v" and c: "andthen (put_word ev (flag (a1 x) CLONE_CHILD_SETTID) (a4 x) (tid + 1) v) (\<lambda>_ k.
       Some (Val (tid + 1), if flag (a1 x) CLONE_CHILD_CLEARTID then k\<lparr>clear_child_tid := (clear_child_tid k)[nat tid := a4 x]\<rparr> else k)) = Some (r, t)"
    from c show "good r t" by (rule andthen_good) (use put_word_good [OF iv] cl in auto)
  qed (use put_word_good [OF iu] in auto)
  then show ?thesis by (simp add: good_def)
  qed
qed

section \<open>The end of a thread\<close>

lemma wake_futex_ptable: "ptable (snd (sched64_wake_futex w n b p s)) = ptable s"
  using wake_loop_frame [of w n b p "[0..<SCHED64_MAX_TASKS]" "(0, s)"] by (auto simp: sched64_wake_futex_def split: prod.splits)

lemma clear_tid_good:
  assumes inv: "files_inv k" and c: "clear_tid ev k = Some (r, t)"
  shows "good r t"
proof (cases "\<not> bad_task (sched64_current (ksch k)) \<and> clear_child_tid k ! nat (sched64_current (ksch k)) \<noteq> 0")
  case True
  define w where "w = clear_child_tid k ! nat (sched64_current (ksch k))"
  define u where "u = k\<lparr>clear_child_tid := (clear_child_tid k)[nat (sched64_current (ksch k)) := 0]\<rparr>"
  have iu: "files_inv u" using inv files_inv_cong [of u k] by (simp add: u_def)
  have "andthen (user_range_ok ev w 4 u) (\<lambda>ok k.
     if ok then (let k = store_int w 0 k; (n, s) = sched64_wake_futex w 1 0xFFFFFFFF (cur_pid k) (ksch k)
                 in Some (Val (), (set_ksch s k)\<lparr>futex_wakes := add64 (futex_wakes k) n\<rparr>))
     else Some (Val (), k)) = Some (r, t)"
    using c True unfolding clear_tid_def Let_def w_def [symmetric] u_def [symmetric] by simp
  then show ?thesis
  proof (rule andthen_good)
    fix ok v
    assume iv: "files_inv v" and e: "(if ok then (let k = store_int w 0 v; (n, s) = sched64_wake_futex w 1 0xFFFFFFFF (cur_pid k) (ksch k)
                 in Some (Val (), (set_ksch s k)\<lparr>futex_wakes := add64 (futex_wakes k) n\<rparr>))
     else Some (Val (), v)) = Some (r, t)"
    show "good r t"
    proof (cases ok)
      case ok: True
      let ?k = "store_int w 0 v"
      obtain n s where s: "sched64_wake_futex w 1 0xFFFFFFFF (cur_pid ?k) (ksch ?k) = (n, s)" by fastforce
      have "files_inv (set_ksch s ?k)" by (rule set_ksch_inv) (use iv wake_futex_ptable [of w 1 "0xFFFFFFFF" "cur_pid ?k" "ksch ?k"] s in simp_all)
      then have "files_inv ((set_ksch s ?k)\<lparr>futex_wakes := m\<rparr>)" for m using files_inv_cong [of "(set_ksch s ?k)\<lparr>futex_wakes := m\<rparr>" "set_ksch s ?k"] by simp
      then show ?thesis using e ok s by (auto simp: Let_def)
    qed (use e iv in auto)
  qed (use range_good [OF iu] in auto)
next
  case False
  then have "r = Val ()" "t = k" using c by (auto simp: clear_tid_def Let_def split: if_splits)
  then show ?thesis using inv by simp
qed

lemma last_thread_books:
  assumes inv: "files_inv k" and c: "last_thread x k = Some (r, t)"
  shows "books t"
proof (cases "sched64_pid_tasks (cur_pid k) (ksch k) \<le> 1")
  case True
  define k1 where "k1 = k\<lparr>exit_code := a1 x\<rparr>"
  have i1: "files_inv k1" using inv files_inv_cong [of k1 k] by (simp add: k1_def)
  obtain u where u: "close_all_files (vfork_release (proc64_current (ptab k1)) k1) = Some u"
    "ended (parent_of k) (set_ptab (proc64_exit (cur_pid u) (c_int (a1 x)) (ptab u)) u) = (r, t)"
    using c True by (auto simp: last_thread_def k1_def Let_def split: bind_splits)
  show ?thesis by (rule ended_books(1) [OF ending_books(1) [OF i1 u(1)] u(2)])
qed (use inv c in \<open>auto simp: last_thread_def files_books\<close>)

lemma exit_current_books:
  assumes b: "books k" and s: "sched64_exit_current ev (ksch k) = Some (out, s)"
  shows "books (set_ksch s k)"
  using s find_successor_frame [of ev "drop_task (nat (current (ksch k))) (ksch k)" out s]
  by (intro set_ksch_books [OF b]) (auto simp: sched64_exit_current_def split: if_splits)

lemma exit_books:
  assumes inv: "files_inv k" and c: "sys_exit ev x k = Some (r, t)"
  shows "books t"
proof -
  define k1 where "k1 = k\<lparr>thread_exits := add64 (thread_exits k) 1\<rparr>"
  have i1: "files_inv k1" using inv files_inv_cong [of k1 k] by (simp add: k1_def)
  define f where "f = (\<lambda>k. do {
       (out, s) \<leftarrow> sched64_exit_current ev (ksch k);
       let k = set_ksch s k;
       case out of Some y \<Rightarrow> Some (leave_to y k) | None \<Rightarrow> Some (Val (sint (a1 x)), k\<lparr>exit_code := a1 x\<rparr>)
     })"
  have last: "books t" if b: "books u" and e: "f u = Some (r, t)" for u
  proof -
    obtain out s where s: "sched64_exit_current ev (ksch u) = Some (out, s)"
      "(case out of Some y \<Rightarrow> Some (leave_to y (set_ksch s u)) | None \<Rightarrow> Some (Val (sint (a1 x)), (set_ksch s u)\<lparr>exit_code := a1 x\<rparr>)) = Some (r, t)"
      using e by (auto simp: f_def Let_def split: bind_splits)
    note B = exit_current_books [OF b s(1)]
    show ?thesis using s(2) B leave_to_books [OF B] books_cong [of t "set_ksch s u"] by (auto split: option.splits)
  qed
  from c have "andthen (clear_tid ev k1) (\<lambda>_ k. andthen (last_thread x k) (\<lambda>_. f)) = Some (r, t)" by (simp add: sys_exit_def k1_def f_def)
  then show ?thesis
  proof (cases rule: andthen_cases)
    case (1 y u)
    have iu: "files_inv u" using clear_tid_good [OF i1 1(1)] by simp
    from 1(2) show ?thesis
      by (cases rule: andthen_cases) (use last_thread_books [OF iu] last in blast)+
  qed (use clear_tid_good [OF i1] in \<open>auto simp: good_def\<close>)
qed
section \<open>Signals\<close>

lemma raise_us [simp]:
  "us (snd (signal64_raise p sig s)) = us s" "us (snd (signal64_raise_task i sig s)) = us s"
  "us (snd (signal64_take_pending p s)) = us s" "us (snd (signal64_take_pending_task i s)) = us s" "us (snd (signal64_pop_mask s)) = us s"
  by (auto simp: signal64_raise_def signal64_raise_task_def signal64_take_pending_def signal64_take_pending_task_def signal64_pop_mask_def
      set_my_blocked_def Let_def split: option.splits)

lemma wake_pid_ptable [simp]: "ptable (snd (sched64_wake_pid p s)) = ptable s" "ptable (snd (sched64_wake_tid i s)) = ptable s"
proof -
  show "ptable (snd (sched64_wake_pid p s)) = ptable s"
    unfolding sched64_wake_pid_def
    using fold_frame [of "\<lambda>x. ptable (snd x)" "wake_pid_step p" "[0..<SCHED64_MAX_TASKS]" "(0, s)"]
    by (simp add: wake_pid_step_def tupd_def Let_def split: prod.splits)
  show "ptable (snd (sched64_wake_tid i s)) = ptable s" by (simp add: sched64_wake_tid_def tupd_def)
qed

lemma raise_pid_inv:
  assumes inv: "files_inv k" and c: "raise_pid p sig k = Some (r, t)"
  shows "files_inv t"
proof -
  define u where "u = k\<lparr>sigs := snd (signal64_raise p sig (sigs k))\<rparr>"
  have iu: "files_inv u" unfolding u_def by (rule sigs_inv [OF inv]) (simp add: us_sigs)
  have "files_inv (set_ksch (snd (sched64_wake_pid p (ksch u))) u)" by (rule set_ksch_inv [OF iu]) simp
  then show ?thesis using c iu by (auto simp: raise_pid_def u_def Let_def split: prod.splits if_splits)
qed

lemma signal_self_books:
  assumes inv: "files_inv k" and c: "signal_self ev x p sig k = Some (r, t)"
  shows "books t"
proof -
  obtain ok self s where s: "signal64_deliver sig (frame_from_args x 0 k) 0 (sigs k) = Some (ok, self, s)"
    "(if ok then Some (Resume self, k\<lparr>sigs := s\<rparr>)
      else if signal64_disposition p sig (sigs (k\<lparr>sigs := s\<rparr>)) = SIG64_DISP_IGNORE then Some (Val 0, k\<lparr>sigs := s\<rparr>)
      else andthen (die_by_signal ev sig (k\<lparr>sigs := s\<rparr>)) (\<lambda>_ k. Some (Val 0, k))) = Some (r, t)"
    using c by (auto simp: signal_self_def Let_def split: bind_splits)
  have iu: "files_inv (k\<lparr>sigs := s\<rparr>)" by (rule sigs_inv [OF inv]) (use deliver_table [OF s(1)] us_sigs in simp)
  note D = die_books [OF iu, of ev sig]
  show ?thesis
  proof (cases "ok \<or> signal64_disposition p sig s = SIG64_DISP_IGNORE")
    case False
    then have "andthen (die_by_signal ev sig (k\<lparr>sigs := s\<rparr>)) (\<lambda>_ k. Some (Val 0, k)) = Some (r, t)" using s(2) by simp
    then show ?thesis by (cases rule: andthen_cases) (use D in auto)
  qed (use s(2) iu in \<open>auto simp: files_books split: if_splits\<close>)
qed

lemma kill_books:
  assumes "files_inv k" and "sys_kill ev x k = Some (r, t)"
  shows "books t"
  using assms(2) raise_pid_inv [OF assms(1)] signal_self_books [OF assms(1)] assms(1)
  unfolding sys_kill_def Let_def by (auto simp: files_books split: if_splits option.splits)

lemma tgkill_books:
  assumes inv: "files_inv k" and c: "sys_tgkill ev tg x k = Some (r, t)"
  shows "books t"
proof -
  have i: "files_inv (k\<lparr>sigs := snd (signal64_raise_task a b (sigs k))\<rparr>)" for a b by (rule sigs_inv [OF inv]) (simp add: us_sigs)
  have j: "files_inv (set_ksch (snd (sched64_wake_tid d (ksch (k\<lparr>sigs := snd (signal64_raise_task a b (sigs k))\<rparr>)))) (k\<lparr>sigs := snd (signal64_raise_task a b (sigs k))\<rparr>))" for a b d
    by (rule set_ksch_inv [OF i]) simp
  show ?thesis
    using c inv signal_self_books [OF inv] i j unfolding sys_tgkill_def Let_def
    by (auto simp: files_books split: if_splits prod.splits) (metis snd_conv)+
qed

lemma yield_frame:
  assumes "sched64_yield_current fr s = (out, t)"
  shows "procs (ptable t) = procs (ptable s) \<and> next_pid (ptable t) = next_pid (ptable s)"
proof -
  define u where "u = tupd (nat (current s)) (\<lambda>t. t\<lparr>t_fs_base := fs_msr s, t_regs := fr\<rparr>) s"
  have "ptable u = ptable s" by (simp add: u_def tupd_def)
  then show ?thesis
    using assms leave_for_frame(1) [of "next_task (nat (current s)) u" u out t] unfolding sched64_yield_current_def Let_def u_def [symmetric]
    by (auto split: if_splits)
qed

lemma yield_books:
  assumes "books k" and "sys_sched_yield x k = Some (r, t)"
  shows "books t"
proof -
  obtain out s where s: "sched64_yield_current (frame_from_args x 0 k) (ksch k) = (out, s)" by fastforce
  have b: "books (set_ksch s k)" by (rule set_ksch_books [OF assms(1)]) (use yield_frame [OF s] in simp_all)
  show ?thesis using assms(2) s b leave_to_books [OF b] by (auto simp: sys_sched_yield_def Let_def split: option.splits)
qed

text \<open>Acting on pending signals at the end of a call.\<close>

lemma die_exited:
  assumes inv: "files_inv k" and d: "die_by_signal ev sig k = Some (Val v, t)"
  shows "exited (procs (ptab t) ! me k)"
proof -
  define k1 where "k1 = k\<lparr>exit_code := of_int (128 + sig)\<rparr>"
  have i1: "files_inv k1" using inv files_inv_cong [of k1 k] by (simp add: k1_def)
  obtain u where u: "close_all_files (vfork_release (proc64_current (ptab k1)) k1) = Some u"
    "andthen (Some (ended (parent_of u) (set_ptab (proc64_exit_signalled (cur_pid u) sig (ptab u)) u))) (\<lambda>_ k. exit_process ev () k) = Some (Val v, t)"
    using d by (auto simp: die_by_signal_def k1_def Let_def split: bind_splits)
  note E = ending_books [OF i1 u(1)]
  have m: "me u = me k" "me u < PROC64_MAX" using E(3) me_cong [of k1 k] running_me(1) [OF files_invD(1) [OF E(4)]] by (simp_all add: k1_def)
  have p: "procs_inv (ptab u)" "slot_for (cur_pid u) (ptab u) = Some (me u)" using E(4) current_slot by (simp_all add: files_books books_def)
  have "procs (ptab t) = procs (proc64_exit_signalled (cur_pid u) sig (ptab u))"
    using u(2)
  proof (cases rule: andthen_cases)
    case (1 y w)
    then have "ended (parent_of u) (set_ptab (proc64_exit_signalled (cur_pid u) sig (ptab u)) u) = (Val y, w)" by simp
    from ended_books [OF E(2) this] show ?thesis using exit_process_books(2) [of w ev "()" "Val v" t] 1(2) by simp
  qed simp_all
  then show ?thesis using m procs_invD(1) [OF p(1)] by (simp add: exit_signalled_eq [OF p])
qed

text \<open>Where acting on the signals of process \<open>i\<close> comes back, the process is still there or has ended.\<close>

definition settled :: "nat \<Rightarrow> unit flow \<Rightarrow> kstate \<Rightarrow> bool" where
  "settled i r t \<longleftrightarrow> books t \<and> (r = Val () \<longrightarrow> files_inv t \<or> exited (procs (ptab t) ! i))"

lemma die_settled: "files_inv k \<Longrightarrow> die_by_signal ev sig k = Some (r, t) \<Longrightarrow> settled (me k) r t"
  using die_books die_exited by (auto simp: settled_def)

lemma deliver_loop_settled:
  assumes "deliver_loop ev p self k = Some x" and "files_inv k"
  shows "settled (me k) (fst x) (snd x)"
proof -
  have "files_inv k \<longrightarrow> settled (me k) (fst x) (snd x)"
  proof (rule deliver_loop.raw_induct [where P = "\<lambda>ev p self k x. files_inv k \<longrightarrow> settled (me k) (fst x) (snd x)", OF _ assms(1)], intro impI, goal_cases)
    case (1 loop ev p self k x)
    obtain sig0 s0 where A: "signal64_take_pending_task (sched64_current (ksch k)) (sigs k) = (sig0, s0)" by fastforce
    obtain sig s1 where Z: "(if sig0 > 0 then (sig0, s0) else signal64_take_pending p s0) = (sig, s1)" by fastforce
    define u where "u = k\<lparr>sigs := s1\<rparr>"
    have "us s0 = us (sigs k)" using raise_us(4) [of "sched64_current (ksch k)" "sigs k"] by (simp add: A)
    then have "us s1 = us (sigs k)" using arg_cong [OF Z, of "\<lambda>x. us (snd x)"] by (simp split: if_splits)
    then have t: "table (us s1) = ptab k" by (simp add: ptab_def)
    have iu: "files_inv u" unfolding u_def by (rule sigs_inv [OF 1(3) t])
    have m: "me u = me k" unfolding u_def by (rule me_cong) (simp_all add: ptab_def t [unfolded ptab_def])
    have e: "(if sig > 0
         then (case signal64_disposition p (sig) (sigs u) of
                 SIG64_DISP_IGNORE \<Rightarrow> loop ev p self u
               | SIG64_DISP_HANDLER \<Rightarrow> do {
                   (ok, self, s) \<leftarrow> signal64_deliver (sig) self 0 (sigs u);
                   if ok then Some (Resume self, u\<lparr>sigs := s\<rparr>) else die_by_signal ev (sig) (u\<lparr>sigs := s\<rparr>)
                 }
               | SIG64_DISP_TERM \<Rightarrow> die_by_signal ev (sig) u)
         else Some (Val (), u)) = Some x"
      using 1(2) unfolding Let_def A prod.case Z u_def [symmetric] .
    show ?case
    proof (cases "sig > 0")
      case True
      show ?thesis
      proof (cases "signal64_disposition p (sig) (sigs u)")
        case SIG64_DISP_TERM
        then show ?thesis using e True die_settled [OF iu, of ev "sig" "fst x" "snd x"] m by simp
      next
        case SIG64_DISP_IGNORE
        then show ?thesis using e True 1(1) [of ev p self u x] iu m by simp
      next
        case SIG64_DISP_HANDLER
        then obtain ok self' s where s: "signal64_deliver (sig) self 0 (sigs u) = Some (ok, self', s)"
          "(if ok then Some (Resume self', u\<lparr>sigs := s\<rparr>) else die_by_signal ev (sig) (u\<lparr>sigs := s\<rparr>)) = Some x"
          using e True by (auto split: bind_splits)
        have t: "table (us s) = ptab u" using deliver_table [OF s(1)] us_sigs by simp
        have i2: "files_inv (u\<lparr>sigs := s\<rparr>)" by (rule sigs_inv [OF iu t])
        have "me (u\<lparr>sigs := s\<rparr>) = me u" by (rule me_cong) (simp_all add: ptab_def t [unfolded ptab_def])
        then show ?thesis using s(2) i2 die_settled [OF i2, of ev "sig" "fst x" "snd x"] m by (auto simp: settled_def files_books split: if_splits)
      qed
    qed (use e iu in \<open>auto simp: settled_def files_books\<close>)
  qed
  then show ?thesis using assms(2) by simp
qed

lemma deliver_pending_settled: "files_inv k \<Longrightarrow> deliver_pending ev self k = Some (r, t) \<Longrightarrow> settled (me k) r t"
  using deliver_loop_settled [of ev "cur_pid k" self k "(r, t)"] by (auto simp: deliver_pending_def settled_def files_books split: if_splits)

lemma return_books:
  assumes inv: "files_inv k" and c: "syscall64_return ev x v k = Some (r, t)"
  shows "books t"
proof -
  have i: "proc64_current (ptab k) = Some (me k)" using inv current_slot(2) by (simp add: files_books)
  define live where "live = (\<lambda>u. cur_pid k \<ge> 0 \<and> \<not> exited (procs (ptab u) ! me k))"
  define f where "f = (\<lambda>u. if live u
            then (let (popped, s) = signal64_pop_mask (sigs u); u = u\<lparr>sigs := s\<rparr>
                  in if popped \<and> signals_waiting (cur_pid k) u then deliver_pending ev (frame_from_args x (of_int v) u) u else Some (Val (), u))
            else Some (Val (), u))"
  have e: "andthen (if live k \<and> signals_waiting (cur_pid k) k then deliver_pending ev (frame_from_args x (of_int v) k) k else Some (Val (), k)) (\<lambda>_ u.
      andthen (f u) (\<lambda>_ u. Some (Val v, u))) = Some (r, t)"
    using c unfolding syscall64_return_def Let_def i option.case live_def f_def by simp
  have one: "settled (me k) q u" if "(if live k \<and> signals_waiting (cur_pid k) k then deliver_pending ev (frame_from_args x (of_int v) k) k else Some (Val (), k)) = Some (q, u)" for q u
    using that inv deliver_pending_settled [OF inv, of ev _ q u] by (auto simp: settled_def files_books split: if_splits)
  have two: "books w" if u: "books u" "files_inv u \<or> exited (procs (ptab u) ! me k)" and w: "f u = Some (q, w)" for q u w
  proof (cases "live u")
    case True
    then have iu: "files_inv u" using u(2) by (simp add: live_def)
    define s where "s = snd (signal64_pop_mask (sigs u))"
    have i2: "files_inv (u\<lparr>sigs := s\<rparr>)" by (rule sigs_inv [OF iu]) (simp add: s_def us_sigs)
    then have b2: "books (u\<lparr>sigs := s\<rparr>)" by (simp add: files_books)
    show ?thesis using w True b2 deliver_pending_settled [OF i2, of ev _ q w] by (auto simp: f_def s_def settled_def Let_def case_prod_beta split: if_splits)
  qed (use u w in \<open>simp add: f_def\<close>)
  from e show ?thesis
  proof (cases rule: andthen_cases)
    case (1 y u)
    have u: "books u" "files_inv u \<or> exited (procs (ptab u) ! me k)" using one [OF 1(1)] by (simp_all add: settled_def)
    from 1(2) show ?thesis by (cases rule: andthen_cases) (use two [OF u] in auto)
  qed (use one in \<open>auto simp: settled_def\<close>)
qed
section \<open>A fork without memory\<close>

text \<open>The child is reaped without its descriptors having been closed, so the ends they were counted for stay counted.\<close>

lemma drop_child_ends:
  assumes b: "sock_inv (kss k) (held_ends (ptab k))" "procs_inv (ptab k)" and c: "slot_for child (ptab k) = Some ic" "p_parent (procs (ptab k) ! ic) = cur_pid k"
  shows "sock_inv (kss (drop_child child k)) (held_ends (ptab (drop_child child k)) + proc_ends (procs (ptab k) ! ic))"
    "procs (ptab (drop_child child k)) = (procs (ptab k))[ic := (procs (ptab k) ! ic)\<lparr>exited := True, exit_status := 0, p_used := False\<rparr>]"
proof -
  let ?s = "ptab k" and ?e = "proc64_exit child 0 (ptab k)" and ?t = "ptab (drop_child child k)"
  have i: "ic < PROC64_MAX" "p_used (procs ?s ! ic)" "pid (procs ?s ! ic) = child" "0 < child"
    using slot_for_Some [OF b(2)] c(1) procs_invD(4) [OF b(2), of ic] by auto
  have l: "length (procs ?s) = PROC64_MAX" by (rule procs_invD(1) [OF b(2)])
  have e: "?e = proc_upd ic (\<lambda>q. q\<lparr>exited := True, exit_status := 0\<rparr>) ?s" by (rule exit_eq [OF c(1)])
  have ei: "procs_inv ?e" by (rule exit_inv [OF b(2)])
  have cp: "proc64_current_pid ?e = cur_pid k" by (simp add: e proc64_current_pid_def)
  have only: "reapable (cur_pid k) child ?e j \<longleftrightarrow> j = ic" for j
  proof
    assume r: "reapable (cur_pid k) child ?e j"
    then have "j < PROC64_MAX" "p_used (procs ?e ! j)" "pid (procs ?e ! j) = child" using i(4) by (auto simp: reapable_def)
    moreover have "p_used (procs ?e ! ic)" "pid (procs ?e ! ic) = child" using i l by (simp_all add: e)
    ultimately show "j = ic" using procs_invD(5) [OF ei, of j ic] i(1) by simp
  qed (use i l c(2) in \<open>simp add: reapable_def e\<close>)
  have r: "reapable (cur_pid k) child ?e ic" using only by simp
  obtain j where "reapable (cur_pid k) child ?e j"
    "proc64_reap_child_pid (cur_pid k) child ?e = ((pid (procs ?e ! j), Some (exit_status (procs ?e ! j))), proc_upd j (\<lambda>p. p\<lparr>p_used := False\<rparr>) (?e\<lparr>reaped_signal := term_sig (procs ?e ! j)\<rparr>))"
    by (rule reap_first [OF r])
  then have t: "?t = proc_upd ic (\<lambda>p. p\<lparr>p_used := False\<rparr>) (?e\<lparr>reaped_signal := term_sig (procs ?e ! ic)\<rparr>)"
    using only by (simp add: drop_child_def Let_def cp)
  then show p: "procs ?t = (procs ?s)[ic := (procs ?s ! ic)\<lparr>exited := True, exit_status := 0, p_used := False\<rparr>]" using i(1) l by (simp add: e)
  have at: "procs ?t ! j = (if j = ic then (procs ?s ! ic)\<lparr>exited := True, exit_status := 0, p_used := False\<rparr> else procs ?s ! j)" for j
    unfolding p using i(1) l by (simp add: nth_list_update)
  have "held_ends ?s = held_ends ?t + proc_ends (procs ?s ! ic)" by (rule held_ends_new) (use i(1,2) in \<open>simp_all add: at\<close>)
  moreover have "kss (drop_child child k) = kss k" by (simp add: drop_child_def Let_def)
  ultimately show "sock_inv (kss (drop_child child k)) (held_ends ?t + proc_ends (procs ?s ! ic))" using b(1) by simp
qed

lemma fork_space_fails:
  assumes b: "sock_inv (kss k) (held_ends (ptab k))" "procs_inv (ptab k)" and c: "slot_for child (ptab k) = Some ic" "p_parent (procs (ptab k) ! ic) = cur_pid k"
    and f: "fork_space child ic k = Some (False, t)"
  shows "sock_inv (kss t) (held_ends (ptab t) + proc_ends (procs (ptab k) ! ic)) \<and> (\<exists>q. \<not> p_used q \<and> procs (ptab t) = (procs (ptab k))[ic := q])"
proof -
  have i: "ic < PROC64_MAX" using slot_for_Some [OF b(2)] c(1) by auto
  have sc: "sock_inv (kss (set_kvm v u)) H" if "sock_inv (kss u) H" for v u H
    using sock_inv_fs [OF that, of "(kfs u)\<lparr>kh := heap v\<rparr>"] ramfs_ok_heap [OF sock_ramfs [OF that]] by (simp add: set_kvm_def)
  have sm: "sock_inv (kss (set_kmach m u)) H" if "sock_inv (kss u) H" for m u H
    using sock_inv_fs [OF that, of "with_machine m (kfs u)"] with_machine_ok [OF sock_ramfs [OF that]] by (simp add: set_kmach_def with_machine_kfs)
  obtain ok vs v where v: "vmspace64_create (kvm k) = Some ((ok, vs), v)" using f by (auto simp: fork_space_def split: bind_splits)
  show ?thesis
  proof (cases ok)
    case False
    then have t: "t = drop_child child (set_kvm v k)" using f v by (simp add: fork_space_def)
    note D = drop_child_ends [of "set_kvm v k" child ic]
    have "sock_inv (kss t) (held_ends (ptab t) + proc_ends (procs (ptab k) ! ic))" using D(1) b c sc [OF b(1)] by (simp add: t)
    moreover have "procs (ptab t) = (procs (ptab k))[ic := (procs (ptab k) ! ic)\<lparr>exited := True, exit_status := 0, p_used := False\<rparr>]"
      using D(2) b c sc [OF b(1)] by (simp add: t)
    moreover have "\<not> p_used ((procs (ptab k) ! ic)\<lparr>exited := True, exit_status := 0, p_used := False\<rparr>)" by simp
    ultimately show ?thesis by blast
  next
    case True
    define u where "u = upd_proc ic (\<lambda>p. p\<lparr>space := vs\<rparr>) (set_kvm v k)"
    define w where "w = set_kmach (snd (vmspace64_clone_cow (zero64 u) (vmspace64_current_phys (kmach u)) vs (kmach u))) u"
    obtain z where z: "destroy_space ic w = Some z" "t = drop_child child z"
      using f v True unfolding fork_space_def by (auto simp: u_def [symmetric] w_def Let_def split: prod.splits if_splits bind_splits)
    obtain vs' v' where v': "z = upd_proc ic (\<lambda>p. p\<lparr>space := vs'\<rparr>) (set_kvm v' w)" using z(1) by (auto simp: destroy_space_def split: bind_splits)
    define g :: "proc64 \<Rightarrow> proc64" where "g = (\<lambda>p. p\<lparr>space := vs'\<rparr>) \<circ> (\<lambda>p. p\<lparr>space := vs\<rparr>)"
    have pz: "ptab z = proc_upd ic g (ptab k)" using i procs_invD(1) [OF b(2)] by (simp add: v' w_def u_def g_def proc_upd_def)
    have G: "\<And>p. p_used (g p) = p_used p \<and> fds (g p) = fds p \<and> pid (g p) = pid p \<and> proc_ok (g p) = proc_ok p" by (simp add: g_def proc_ok_def)
    note U = upd_table [OF b(2) i, of g, OF G]
    have "sock_inv (kss z) (held_ends (ptab k))" unfolding v' by (simp add: sc) (simp add: w_def u_def sc sm b(1))
    then have "sock_inv (kss z) (held_ends (ptab z))" by (simp add: pz U(2))
    moreover have "procs (ptab z) ! ic = g (procs (ptab k) ! ic)" "proc_ends (g p) = proc_ends p" "p_parent (g p) = p_parent p" for p
      using i procs_invD(1) [OF b(2)] by (simp_all add: pz proc_ends_def g_def)
    moreover have "cur_pid z = cur_pid k" by (simp add: pz proc64_current_pid_def)
    ultimately have D: "sock_inv (kss t) (held_ends (ptab t) + proc_ends (procs (ptab k) ! ic))"
      "procs (ptab t) = (procs (ptab z))[ic := (procs (ptab z) ! ic)\<lparr>exited := True, exit_status := 0, p_used := False\<rparr>]"
      using drop_child_ends [of z child ic] U c by (simp_all add: z(2)) (simp_all add: pz U)
    have "procs (ptab t) = (procs (ptab k))[ic := (procs (ptab z) ! ic)\<lparr>exited := True, exit_status := 0, p_used := False\<rparr>]" unfolding D(2) by (simp add: pz)
    moreover have "\<not> p_used ((procs (ptab z) ! ic)\<lparr>exited := True, exit_status := 0, p_used := False\<rparr>)" by simp
    ultimately show ?thesis using D(1) by blast
  qed
qed
lemma leave_to_Resume: "leave_to x k = (r, t) \<Longrightarrow> \<exists>fr. r = Resume fr"
  by (auto simp: leave_to_def Let_def split: prod.splits)

lemma park_result:
  assumes "park ev self key nr f k = Some (r, t)"
  shows "(\<exists>fr. r = Resume fr) \<or> (\<exists>u. f u = Some (r, t))"
  using assms by (auto simp: park_def split: bind_splits option.splits dest!: leave_to_Resume)

lemma fork_done_result: "fork_done ev x vf b child ic k = Some (r, t) \<Longrightarrow> (\<exists>fr. r = Resume fr) \<or> r = Val child"
  by (auto simp: fork_done_def Let_def split: if_splits dest!: park_result)

lemma fork_cases:
  assumes inv: "files_inv k" and f: "do_fork_common ev x cst vf k = Some (Val (-12), t)"
  obtains child ic s p u where "proc64_fork_from (cur_pid k) (ptab k) (kps k) = Some (child, s, p)" "0 \<le> child" "slot_for child s = Some ic"
    "files_inv u" "ptab u = s" "fork_space child ic u = Some (False, t)"
proof -
  obtain child s p where s: "proc64_fork_from (cur_pid k) (ptab k) (kps k) = Some (child, s, p)"
    using f by (cases "proc64_fork_from (cur_pid k) (ptab k) (kps k)") (auto simp: do_fork_common_def Let_def)
  have c: "\<not> child < 0" using f s by (auto simp: do_fork_common_def Let_def)
  obtain ic v where v: "slot_for child s = Some ic" "files_inv v" "ptab v = s"
    "do_fork_common ev x cst vf k = fork_tail ev x cst vf (pmm64_free_frames (pmm (kmach k))) child ic v" by (rule fork_steps [OF inv s c]) blast
  have nf: "andthen m (\<lambda>_. fork_done ev x vf b child ic) \<noteq> Some (Val (-12), t)" for m :: "(unit flow \<times> kstate) option" and b
    using fork_done_result [of ev x vf b child ic _ "Val (-12)" t] c by (auto elim!: andthen_cases)
  have "fork_space child ic v = Some (False, t)"
    using f nf unfolding v(4) fork_tail_def by (auto split: bind_splits if_splits)
  then show ?thesis using that [OF s _ v(1-3)] c by simp
qed

lemma fork_leaks:
  assumes inv: "files_inv k" and f: "do_fork_common ev x cst vf k = Some (Val (-12), t)"
  shows "sock_inv (kss t) (held_ends (ptab t) + proc_ends (procs (ptab k) ! me k))" "held_ends (ptab t) = held_ends (ptab k)"
proof -
  obtain child ic s p u where u: "proc64_fork_from (cur_pid k) (ptab k) (kps k) = Some (child, s, p)" "0 \<le> child" "slot_for child s = Some ic"
    "files_inv u" "ptab u = s" "fork_space child ic u = Some (False, t)" by (rule fork_cases [OF inv f])
  obtain ic' where ic: "ic' < PROC64_MAX" "slot_for child s = Some ic'" "\<not> p_used (procs (ptab k) ! ic')"
    "procs s = (procs (ptab k))[ic' := child_of child (procs (ptab k) ! me k)]" using fork_from_books(2) [OF inv u(1,2)] by blast
  have i: "ic' = ic" using ic(2) u(3) by simp
  have l: "length (procs (ptab k)) = PROC64_MAX" using inv procs_invD(1) by (simp add: files_books books_def)
  have "cur_pid u = cur_pid k"
  proof -
    have "current_pid s = current_pid (ptab k)"
    proof -
      have b: "procs_inv (ptab k)" "caller k" using inv by (simp_all add: files_books books_def)
      have room: "\<not> (\<forall>i < PROC64_MAX. p_used (procs (ptab k) ! i))" using ic(1,3) by blast
      obtain ic2 t2 where "proc64_fork_from (cur_pid k) (ptab k) (kps k) = Some (next_pid (ptab k), t2, fold count_fd (fds (procs (ptab k) ! me k)) (kps k))"
        "current_pid t2 = current_pid (ptab k)" using fork_from_eq [OF b(1) current_slot(1) [OF b(2)] room, of "kps k"] by metis
      then show ?thesis using u(1) by simp
    qed
    then show ?thesis by (simp add: u(5) proc64_current_pid_def)
  qed
  moreover have "p_parent (procs (ptab u) ! ic) = cur_pid k" "proc_ends (procs (ptab u) ! ic) = proc_ends (procs (ptab k) ! me k)"
    using ic(1,4) i l running_me(4) [OF files_invD(1) [OF inv]] by (simp_all add: u(5) proc64_current_pid_def proc_ends_def)
  moreover have "sock_inv (kss u) (held_ends (ptab u))" "procs_inv (ptab u)" using u(4) by (simp_all add: files_books books_def)
  ultimately have "sock_inv (kss t) (held_ends (ptab t) + proc_ends (procs (ptab k) ! me k)) \<and> (\<exists>q. \<not> p_used q \<and> procs (ptab t) = (procs (ptab u))[ic := q])"
    using fork_space_fails [of u child ic t] u(3,5,6) by simp
  then obtain q where q: "\<not> p_used q" "procs (ptab t) = (procs (ptab k))[ic := q]"
    and s: "sock_inv (kss t) (held_ends (ptab t) + proc_ends (procs (ptab k) ! me k))" using ic(4) i u(5) by auto
  have "{j. j < PROC64_MAX \<and> p_used (procs (ptab t) ! j)} = {j. j < PROC64_MAX \<and> p_used (procs (ptab k) ! j)}"
    using q ic(1,3) i l by (auto simp: nth_list_update split: if_splits)
  moreover have "procs (ptab t) ! j = procs (ptab k) ! j" if "p_used (procs (ptab k) ! j)" for j using that q(2) ic(3) i by (cases "j = ic") simp_all
  ultimately show "held_ends (ptab t) = held_ends (ptab k)" unfolding held_ends_def by (intro sum.cong) auto
  show "sock_inv (kss t) (held_ends (ptab t) + proc_ends (procs (ptab k) ! me k))" by (rule s)
qed

section \<open>Runs of the kernel\<close>

text \<open>
  One call of a process that is in the table and has not ended, with what follows it up to the next call; or a timer interrupt, or code of the program. A fork that
  runs out of memory is not among them: what it loses is stated below.
\<close>

inductive kernel_call :: "kstate \<Rightarrow> kstate \<Rightarrow> bool" where
  descriptor: "file_call k t \<Longrightarrow> kernel_call k t"
| fork: "caller k \<Longrightarrow> do_fork_common ev x cst vf k = Some (r, t) \<Longrightarrow> r \<noteq> Val (-12) \<Longrightarrow> kernel_call k t"
| clone: "caller k \<Longrightarrow> sys_clone ev x k = Some (r, t) \<Longrightarrow> r \<noteq> Val (-12) \<Longrightarrow> kernel_call k t"
| wait4: "caller k \<Longrightarrow> sys_wait4 ev x k = Some (r, t) \<Longrightarrow> kernel_call k t"
| exit: "caller k \<Longrightarrow> sys_exit ev x k = Some (r, t) \<Longrightarrow> kernel_call k t"
| exit_group: "caller k \<Longrightarrow> sys_exit_group ev x k = Some (r, t) \<Longrightarrow> kernel_call k t"
| die: "caller k \<Longrightarrow> die_by_signal ev sig k = Some (q, t) \<Longrightarrow> kernel_call k t"
| kill: "caller k \<Longrightarrow> sys_kill ev x k = Some (r, t) \<Longrightarrow> kernel_call k t"
| tgkill: "caller k \<Longrightarrow> sys_tgkill ev tg x k = Some (r, t) \<Longrightarrow> kernel_call k t"
| yield: "caller k \<Longrightarrow> sys_sched_yield x k = Some (r, t) \<Longrightarrow> kernel_call k t"
| return: "caller k \<Longrightarrow> syscall64_return ev x v k = Some (r, t) \<Longrightarrow> kernel_call k t"

lemma kernel_call_books:
  assumes "kernel_call k t" and "books k"
  shows "books t"
  using assms
proof (induction rule: kernel_call.induct)
  case (descriptor k t)
  then show ?case by (rule file_call_books)
next
  case (fork k ev x cst vf r t)
  then show ?case using fork_books [of k ev x cst vf r t] by (simp add: files_books)
next
  case (clone k ev x r t)
  then show ?case using clone_books [of k ev x r t] by (simp add: files_books)
next
  case (wait4 k ev x r t)
  then show ?case using wait4_books [of k ev x r t] by (simp add: files_books)
next
  case (exit k ev x r t)
  then show ?case using exit_books [of k ev x r t] by (simp add: files_books)
next
  case (exit_group k ev x r t)
  then show ?case using exit_group_books [of k ev x r t] by (simp add: files_books)
next
  case (die k ev sig q t)
  then show ?case using die_books [of k ev sig q t] by (simp add: files_books)
next
  case (kill k ev x r t)
  then show ?case using kill_books [of k ev x r t] by (simp add: files_books)
next
  case (tgkill k ev tg x r t)
  then show ?case using tgkill_books [of k ev tg x r t] by (simp add: files_books)
next
  case (yield k x r t)
  then show ?case using yield_books [of k x r t] by simp
next
  case (return k ev x v r t)
  then show ?case using return_books [of k ev x v r t] by (simp add: files_books)
qed

lemma kernel_calls_books: "rtranclp kernel_call k t \<Longrightarrow> books k \<Longrightarrow> books t"
  by (induction rule: rtranclp_induct) (auto intro: kernel_call_books)

lemma counted:
  assumes "sock_inv s H" and "pipe64_valid p (ps s)"
  shows "readers (pipes (ps s) p) = int (count H (Rd p) + count (owned s) (Rd p) + count (flying (ps s) (in_use (ps s))) (Rd p))"
    "writers (pipes (ps s) p) = int (count H (Wr p) + count (owned s) (Wr p) + count (flying (ps s) (in_use (ps s))) (Wr p))"
proof -
  note C = pipes_invD(3) [OF sock_invD(2) [OF assms(1)]]
  have "0 \<le> p" using assms(2) by (simp add: pipe64_valid_def)
  then show "readers (pipes (ps s) p) = int (count H (Rd p) + count (owned s) (Rd p) + count (flying (ps s) (in_use (ps s))) (Rd p))"
    "writers (pipes (ps s) p) = int (count H (Wr p) + count (owned s) (Wr p) + count (flying (ps s) (in_use (ps s))) (Wr p))"
    using C [of "Rd p"] C [of "Wr p"] assms(2) by (simp_all add: ends_count_def)
qed
section \<open>What is left of a process that has ended\<close>

text \<open>What closing descriptors leaves alone: the size of the task table, the leader, and which process runs.\<close>

definition run_frame :: "kstate \<Rightarrow> nat \<times> int \<times> int" where
  "run_frame k = (length (tasks (sch (sigs k))), leader_pid k, current_pid (ptab k))"

lemma leader_views [simp]: "leader_pid (wake_all key k) = leader_pid k" "leader_pid (set_kss q k) = leader_pid k" "leader_pid (set_kps p k) = leader_pid k"
  "leader_pid (set_kfs f k) = leader_pid k" "leader_pid (set_fd fd g k) = leader_pid k" "leader_pid (set_ptab s k) = leader_pid k"
  by (simp_all add: wake_all_def set_ksch_def set_kss_def set_kps_def set_kfs_def set_fd_def set_ptab_def)

lemma wake_loop_length: "length (tasks (snd (wake_loop a lim b p is x))) = length (tasks (snd x))"
  by (induction a lim b p "is" x rule: wake_loop.induct) (auto simp: tupd_def)

lemma wake_all_run [simp]: "run_frame (wake_all key k) = run_frame k"
proof -
  have "length (tasks (snd (sched64_wake key (int SCHED64_MAX_TASKS) (ksch k)))) = length (tasks (ksch k))"
    using wake_loop_length [of key "int SCHED64_MAX_TASKS" "0xFFFFFFFF" "-1" "[0..<SCHED64_MAX_TASKS]" "(0, ksch k)"]
    by (auto simp: sched64_wake_def sched64_wake_bits_def sched64_wake_futex_def split: prod.splits)
  moreover have "sch (sigs (wake_all key k)) = snd (sched64_wake key (int SCHED64_MAX_TASKS) (ksch k))" by (simp add: wake_all_def)
  ultimately show ?thesis by (simp add: run_frame_def)
qed

lemma run_views [simp]: "run_frame (set_kss q k) = run_frame k" "run_frame (set_kps p k) = run_frame k" "run_frame (set_kfs f k) = run_frame k"
  "run_frame (set_fd fd g k) = run_frame k" "run_frame (upd_proc i h k) = run_frame k"
  "run_frame (k\<lparr>wm_closed := w\<rparr>) = run_frame k" "run_frame (k\<lparr>exit_code := c\<rparr>) = run_frame k"
  by (simp_all add: run_frame_def) (simp_all add: upd_proc_def set_fd_def)

lemma release_runs:
  "release_sock fd k = Some t \<Longrightarrow> run_frame t = run_frame k" "run_frame (release_file fd k) = run_frame k"
  "release_stream fd k = Some t \<Longrightarrow> run_frame t = run_frame k" "run_frame (wake_end p k) = run_frame k"
proof -
  show w: "run_frame (wake_end p k) = run_frame k" for p k by (simp add: wake_end_def)
  show "release_sock fd k = Some t \<Longrightarrow> run_frame t = run_frame k" by (auto simp: release_sock_def Let_def split: if_splits bind_splits)
  show "run_frame (release_file fd k) = run_frame k" by (simp add: release_file_def Let_def)
  show "release_stream fd k = Some t \<Longrightarrow> run_frame t = run_frame k" by (auto simp: release_stream_def Let_def w split: if_splits bind_splits)
qed

lemma fd_release_run:
  assumes "fd_release fd k = Some t"
  shows "run_frame t = run_frame k"
proof (cases "fd < 0 \<or> fd \<ge> int FD_MAX \<or> \<not> fd_used (fdt k (nat fd))")
  case False
  then obtain u v where "release_sock (nat fd) k = Some u" "release_stream (nat fd) (release_file (nat fd) u) = Some v"
    "t = set_fd (nat fd) (\<lambda>d. d\<lparr>fd_used := False, fd_rx := -1, fd_tx := -1\<rparr>) v"
    using assms by (auto simp: fd_release_def split: bind_splits)
  then show ?thesis using release_runs by simp
qed (use assms in \<open>simp add: fd_release_def\<close>)

lemma close_all_run: "close_all_files k = Some t \<Longrightarrow> run_frame t = run_frame k"
proof -
  have "each (\<lambda>fd. fd_release (int fd)) fs' u = Some v \<Longrightarrow> run_frame v = run_frame u" for fs' u v
    by (induction fs' arbitrary: u) (auto dest: fd_release_run split: bind_splits)
  then show "close_all_files k = Some t \<Longrightarrow> run_frame t = run_frame k" by (auto simp: close_all_files_def split: if_splits)
qed

lemma vfork_release_run: "run_frame (vfork_release c k) = run_frame k"
  by (simp add: vfork_release_def split: option.splits)

text \<open>No task of a process is in the table.\<close>

definition no_task :: "int \<Rightarrow> sched \<Rightarrow> bool" where
  "no_task p s \<longleftrightarrow> (\<forall>j < length (tasks s). t_used (tasks s ! j) \<longrightarrow> t_pid (tasks s ! j) \<noteq> p)"

lemma drop_task_at: "tasks (drop_task i s) = (tasks s)[i := (tasks s ! i)\<lparr>t_used := False\<rparr>]"
  by (simp add: drop_task_def tupd_def Let_def)

lemma end_steps_none:
  assumes "length (tasks s) \<le> n"
  shows "no_task p (fold (end_step p) [0..<n] s)"
proof -
  have "length (tasks (fold (end_step p) [0..<m] s)) = length (tasks s)
     \<and> (\<forall>j < length (tasks s). j < m \<longrightarrow> t_used (tasks (fold (end_step p) [0..<m] s) ! j) \<longrightarrow> t_pid (tasks (fold (end_step p) [0..<m] s) ! j) \<noteq> p)" for m
  proof (induction m)
    case (Suc m)
    define u where "u = fold (end_step p) [0..<m] s"
    have e: "tasks (end_step p m u) = (if \<not> t_used (tasks u ! m) \<or> t_pid (tasks u ! m) \<noteq> p then tasks u else (tasks u)[m := (tasks u ! m)\<lparr>t_used := False\<rparr>])"
      by (simp add: end_step_def drop_task_at)
    note IH = Suc [folded u_def]
    have "t_used (tasks (end_step p m u) ! j) \<longrightarrow> t_pid (tasks (end_step p m u) ! j) \<noteq> p" if "j < length (tasks s)" "j < Suc m" for j
      using IH that by (cases "j = m") (auto simp: e)
    then show ?case using IH e by (simp add: u_def [symmetric])
  qed simp
  from this [of n] assms show ?thesis by (auto simp: no_task_def)
qed

lemma remove_pid_none:
  assumes "length (tasks s) \<le> SCHED64_MAX_TASKS"
  shows "no_task p (snd (sched64_remove_pid p s))"
proof -
  have "length (tasks (snd (fold (remove_step p) [0..<m] (c, s)))) = length (tasks s)
     \<and> (\<forall>j < length (tasks s). j < m \<longrightarrow> t_used (tasks (snd (fold (remove_step p) [0..<m] (c, s))) ! j) \<longrightarrow> t_pid (tasks (snd (fold (remove_step p) [0..<m] (c, s))) ! j) \<noteq> p)" for m c
  proof (induction m)
    case (Suc m)
    obtain n u where u: "fold (remove_step p) [0..<m] (c, s) = (n, u)" by fastforce
    have e: "tasks (snd (remove_step p m (n, u))) = (if \<not> t_used (tasks u ! m) \<or> t_pid (tasks u ! m) \<noteq> p then tasks u else (tasks u)[m := (tasks u ! m)\<lparr>t_used := False\<rparr>])"
      by (simp add: remove_step_def Let_def drop_task_at)
    then have "t_used (tasks (snd (remove_step p m (n, u))) ! j) \<longrightarrow> t_pid (tasks (snd (remove_step p m (n, u))) ! j) \<noteq> p" if "j < length (tasks s)" "j < Suc m" for j
      using Suc that u by (cases "j = m") auto
    then show ?case using Suc u e by simp
  qed simp
  from this [of SCHED64_MAX_TASKS 0] assms show ?thesis by (auto simp: no_task_def sched64_remove_pid_def)
qed

lemma idle_none:
  assumes "idle_until_runnable ev s = Some (n, s')" and "no_task p s"
  shows "no_task p s'"
proof -
  obtain t where t: "idle_loop ev 0 (s\<lparr>idling := True\<rparr>) = Some (n, t)" "s' = t\<lparr>idling := False\<rparr>"
    using assms(1) by (auto simp: idle_until_runnable_def split: bind_splits)
  have w: "waits_ended (s\<lparr>idling := True\<rparr>) t" using idle_loop_ended [OF t(1)] by simp
  have "t_used (tasks t ! j) = t_used (tasks s ! j) \<and> t_pid (tasks t ! j) = t_pid (tasks s ! j)" if "j < length (tasks s)" for j
    using waits_endedD(10) [OF w, of j] that by (auto simp: timed_out_def)
  then show ?thesis using assms(2) waits_endedD(4) [OF w] by (simp add: no_task_def t(2))
qed

lemma find_successor_none:
  assumes "find_successor ev s = Some (out, s')" and "no_task p s"
  shows "no_task p s'"
proof -
  obtain n t where t: "(case first_runnable s of Some n \<Rightarrow> Some (Some n, s) | None \<Rightarrow> if \<not> irq0_masked s \<and> any_deadline s then idle_until_runnable ev s else Some (None, s)) = Some (n, t)"
    "(case n of None \<Rightarrow> (None, t\<lparr>current := -1\<rparr>) | Some n \<Rightarrow> (let (out, s) = switch_to n t in (Some out, s))) = (out, s')"
    using assms(1) by (auto simp: find_successor_def split: bind_splits)
  have "no_task p t" using t(1) assms(2) idle_none [of ev s n t p] by (auto split: option.splits if_splits)
  moreover have "tasks s' = tasks t" using t(2) by (auto simp: switch_to_def Let_def split: option.splits)
  ultimately show ?thesis by (simp add: no_task_def)
qed

lemma exit_process_none:
  assumes n: "length (tasks (sch (sigs k))) \<le> SCHED64_MAX_TASKS" and e: "exit_process ev (v :: 'a) k = Some (r, t)"
  shows "no_task (cur_pid k) (sch (sigs t))" "r \<noteq> Abort"
proof -
  obtain out s where s: "sched64_exit_process ev (cur_pid k) (ksch k) = Some (out, s)"
    "(case out of None \<Rightarrow> Some (Val v, set_ksch s k)
      | Some x \<Rightarrow> (let dying = vmspace64_current_phys (kmach (set_ksch s k)); (r, k) = leave_to x (set_ksch s k) in do { k \<leftarrow> free_space dying k; Some (r, k) })) = Some (r, t)"
    using e by (auto simp: exit_process_def Let_def [of "set_ksch _ k"] split: bind_splits)
  have ns: "no_task (cur_pid k) s"
    by (rule find_successor_none [OF s(1) [unfolded sched64_exit_process_def]]) (rule end_steps_none, use n in simp)
  have "no_task (cur_pid k) (sch (sigs t)) \<and> r \<noteq> Abort"
  proof (cases out)
    case (Some x)
    obtain r' :: "'a flow" and u where u: "leave_to x (set_ksch s k) = (r', u)" by fastforce
    have "tasks (sch (sigs u)) = tasks s" using u by (auto simp: leave_to_def Let_def split: prod.splits)
    moreover obtain w where w: "free_space (vmspace64_current_phys (kmach (set_ksch s k))) u = Some w" "t = w" "r = r'"
      using s(2) Some u by (auto simp: Let_def split: bind_splits)
    moreover have "sch (sigs w) = sch (sigs u)" using w(1) by (auto simp: free_space_def set_kvm_def set_kfs_def set_kps_def set_kss_def split: if_splits bind_splits)
    ultimately show ?thesis using ns leave_to_Resume [OF u] by (auto simp: no_task_def)
  qed (use s(2) ns in auto)
  then show "no_task (cur_pid k) (sch (sigs t))" "r \<noteq> Abort" by simp_all
qed

lemma ended_run:
  assumes n: "length (tasks (sch (sigs k))) \<le> SCHED64_MAX_TASKS" and e: "ended q k = (r, t)"
  shows "if leader_pid k \<ge> 0 \<and> cur_pid k = leader_pid k then r = Abort \<and> leader_exited t \<and> no_task (cur_pid k) (sch (sigs t))
     else r = Val () \<and> run_frame t = run_frame k \<and> cur_pid t = cur_pid k"
proof (cases "leader_pid k \<ge> 0 \<and> cur_pid k = leader_pid k")
  case True
  let ?k = "k\<lparr>leader_exited := True\<rparr>"
  have t: "r = Abort" "t = set_ksch (snd (sched64_remove_pid (cur_pid k) (ksch ?k))) ?k" using e True by (simp_all add: ended_def leader_leaves_scheduler_def)
  moreover have "no_task (cur_pid k) (snd (sched64_remove_pid (cur_pid k) (ksch ?k)))" by (rule remove_pid_none) (use n in simp)
  moreover have "leader_exited (set_ksch s ?k)" for s by (simp add: set_ksch_def)
  ultimately show ?thesis using True by (simp add: if_P)
next
  case False
  then show ?thesis using e by (auto simp: ended_def if_not_P)
qed
lemma ended_exit_run:
  assumes b: "books v" and n: "length (tasks (sch (sigs v))) \<le> SCHED64_MAX_TASKS"
    and e: "andthen (Some (ended p v)) (\<lambda>_ k. exit_process ev a k) = Some (r, t)"
  shows "books t \<and> procs (ptab t) = procs (ptab v) \<and> no_task (cur_pid v) (sch (sigs t))
    \<and> (if leader_pid v \<ge> 0 \<and> cur_pid v = leader_pid v then r = Abort \<and> leader_exited t else r \<noteq> Abort)"
proof -
  obtain q w where w: "ended p v = (q, w)" by fastforce
  note W = ended_run [OF n w] and B = ended_books [OF b w]
  show ?thesis
  proof (cases "leader_pid v \<ge> 0 \<and> cur_pid v = leader_pid v")
    case True
    then have "q = Abort" "leader_exited w" "no_task (cur_pid v) (sch (sigs w))" using W by simp_all
    then show ?thesis using e w B True by (auto simp: andthen_def)
  next
    case False
    then have q: "q = Val ()" "run_frame w = run_frame v" "cur_pid w = cur_pid v" using W by (auto split: if_splits)
    then have x: "exit_process ev a w = Some (r, t)" using e w by (simp add: andthen_def)
    have "length (tasks (sch (sigs w))) \<le> SCHED64_MAX_TASKS" using q(2) n by (simp add: run_frame_def)
    note X = exit_process_none [OF this x] exit_process_books [OF B(1) x]
    show ?thesis using X B(2) q(3) False by auto
  qed
qed

text \<open>The scheduler's table is in order and its clock short of wrapping; closing descriptors keeps that.\<close>

definition timely :: "kstate \<Rightarrow> bool" where
  "timely k \<longleftrightarrow> table_ok (sch (sigs k)) \<and> clock_ok (sch (sigs k))"

lemma wake_loop_deadlines:
  "\<forall>t \<in> set (tasks (snd x)). t_deadline t < 2 ^ 64 \<Longrightarrow> \<forall>t \<in> set (tasks (snd (wake_loop a lim b p is x))). t_deadline t < 2 ^ 64"
proof (induction a lim b p "is" x rule: wake_loop.induct)
  case (2 a lim b p i "is" n s)
  have "\<forall>t \<in> set (tasks (tupd i woken s)). t_deadline t < 2 ^ 64"
  proof (rule ballI)
    fix t
    assume "t \<in> set (tasks (tupd i woken s))"
    then obtain j where "j < length (tasks s)" "t = (tasks s)[i := woken (tasks s ! i)] ! j" by (auto simp: in_set_conv_nth tupd_def)
    then show "t_deadline t < 2 ^ 64" using "2.prems" by (cases "i = j") (simp_all add: woken_def)
  qed
  then show ?case using 2 by auto
qed simp

lemma wake_loop_ticks: "ticks (snd (wake_loop a lim b p is x)) = ticks (snd x)"
  by (induction a lim b p "is" x rule: wake_loop.induct) (auto simp: tupd_def)

lemma wake_all_timely [simp]: "timely k \<Longrightarrow> timely (wake_all key k)"
proof -
  assume k: "timely k"
  let ?s = "snd (sched64_wake key (int SCHED64_MAX_TASKS) (ksch k))"
  have s: "?s = snd (sched64_wake_futex key (int SCHED64_MAX_TASKS) 0xFFFFFFFF (-1) (ksch k))"
    by (simp add: sched64_wake_def sched64_wake_bits_def)
  define w where "w = snd (wake_loop key (int SCHED64_MAX_TASKS) 0xFFFFFFFF (-1) [0..<SCHED64_MAX_TASKS] (0, ksch k))"
  have w: "?s = w\<lparr>tasks := map release_cond (tasks w)\<rparr>" unfolding s w_def by (simp add: sched64_wake_futex_def split: prod.splits)
  have t: "table_ok (ksch k)" "ticks (ksch k) < 2 ^ 64 - 1" "\<forall>t \<in> set (tasks (ksch k)). t_deadline t < 2 ^ 64"
    using k by (simp_all add: timely_def table_ok_def clock_ok_def ksch_def used_tasks_def)
  have c: "calm (ksch k) ?s" unfolding s by (rule wake_futex_calm)
  then have "map t_used (tasks ?s) = map t_used (tasks (ksch k))" "task_total ?s = task_total (ksch k)" by (simp_all add: calm_def)
  then have "table_ok ?s" using t(1) used_same [of ?s "ksch k"] map_eq_imp_length_eq [of t_used "tasks ?s" t_used "tasks (ksch k)"] by (simp add: table_ok_def)
  moreover have "clock_ok ?s"
    unfolding w clock_ok_def
    using wake_loop_ticks [of key "int SCHED64_MAX_TASKS" "0xFFFFFFFF" "-1" "[0..<SCHED64_MAX_TASKS]" "(0, ksch k)"] t(2)
      wake_loop_deadlines [of "(0, ksch k)" key "int SCHED64_MAX_TASKS" "0xFFFFFFFF" "-1" "[0..<SCHED64_MAX_TASKS]"] t(3)
    by (auto simp: w_def [symmetric] release_cond_def)
  ultimately show ?thesis by (simp add: timely_def wake_all_def)
qed

lemma timely_views [simp]: "timely (set_kss q k) = timely k" "timely (set_kps p k) = timely k" "timely (set_kfs f k) = timely k"
  "timely (set_fd fd g k) = timely k" "timely (upd_proc i h k) = timely k" "timely (set_ptab u k) = timely k"
  "timely (k\<lparr>wm_closed := w\<rparr>) = timely k" "timely (k\<lparr>exit_code := c\<rparr>) = timely k"
  by (simp_all add: timely_def upd_proc_def set_fd_def)

lemma release_timely:
  "release_sock fd k = Some t \<Longrightarrow> timely k \<Longrightarrow> timely t" "timely k \<Longrightarrow> timely (release_file fd k)"
  "release_stream fd k = Some t \<Longrightarrow> timely k \<Longrightarrow> timely t" "timely k \<Longrightarrow> timely (wake_end p k)"
proof -
  show w: "timely k \<Longrightarrow> timely (wake_end p k)" for p k by (simp add: wake_end_def)
  show "release_sock fd k = Some t \<Longrightarrow> timely k \<Longrightarrow> timely t" by (auto simp: release_sock_def Let_def split: if_splits bind_splits)
  show "timely k \<Longrightarrow> timely (release_file fd k)" by (simp add: release_file_def Let_def)
  show "release_stream fd k = Some t \<Longrightarrow> timely k \<Longrightarrow> timely t" by (auto simp: release_stream_def Let_def w split: if_splits bind_splits)
qed

lemma fd_release_timely:
  assumes "fd_release fd k = Some t" and "timely k"
  shows "timely t"
proof (cases "fd < 0 \<or> fd \<ge> int FD_MAX \<or> \<not> fd_used (fdt k (nat fd))")
  case False
  then obtain u v where "release_sock (nat fd) k = Some u" "release_stream (nat fd) (release_file (nat fd) u) = Some v"
    "t = set_fd (nat fd) (\<lambda>d. d\<lparr>fd_used := False, fd_rx := -1, fd_tx := -1\<rparr>) v"
    using assms(1) by (auto simp: fd_release_def split: bind_splits)
  then show ?thesis using release_timely assms(2) by simp
qed (use assms in \<open>simp add: fd_release_def\<close>)

lemma close_all_timely:
  assumes "close_all_files k = Some t" and "timely k"
  shows "timely t"
proof -
  have "each (\<lambda>fd. fd_release (int fd)) fs' u = Some v \<Longrightarrow> timely u \<Longrightarrow> timely v" for fs' u v
    by (induction fs' arbitrary: u) (auto dest: fd_release_timely split: bind_splits)
  then show ?thesis using assms by (auto simp: close_all_files_def split: if_splits)
qed

lemma vfork_release_timely: "timely k \<Longrightarrow> timely (vfork_release c k)"
  by (simp add: vfork_release_def split: option.splits)

text \<open>Ending a process returns: the scheduler finds a successor or nobody, and the tables of the space that is given up are walked to the end.\<close>

lemma paging_inv_root: "paging_inv (m\<lparr>cr3 := c\<rparr>) \<Longrightarrow> c' AND ADDR_MASK = c AND ADDR_MASK \<Longrightarrow> paging_inv (m\<lparr>cr3 := c'\<rparr>)"
proof -
  assume c: "c' AND ADDR_MASK = c AND ADDR_MASK"
  then have r: "frame_of c' = frame_of c" by (simp add: frame_of_def)
  have st: "tstep (m\<lparr>cr3 := a\<rparr>) = tstep m" for a by (intro ext) (simp add: tstep_def)
  have t: "tpath (m\<lparr>cr3 := c'\<rparr>) p = tpath (m\<lparr>cr3 := c\<rparr>) p" for p by (simp add: tpath_def st r)
  show "paging_inv (m\<lparr>cr3 := c\<rparr>) \<Longrightarrow> paging_inv (m\<lparr>cr3 := c'\<rparr>)" by (simp add: paging_inv_def self_ref_def t r)
qed

lemma end_steps_ticks: "ticks (fold (end_step p) is s) = ticks s"
  by (induction "is" arbitrary: s) (simp_all add: end_step_def drop_task_def tupd_def Let_def)

lemma free_space_returns:
  assumes "paging_inv ((kmach k)\<lparr>cr3 := d\<rparr>)"
  shows "\<exists>t. free_space d k = Some t"
proof -
  have m: "mach (heap (kvm k)) = kmach k" by (simp add: kvm_def kss_def with_machine_def kmach_def)
  have "\<exists>m'. free_low_half_tables z ((kmach k)\<lparr>cr3 := d\<rparr>) = Some m'" for z
    using free_low_half_freed [OF assms order_refl] by (auto simp: free_low_half_tables_def)
  then obtain m' where "free_low_half_tables (zero64 k) ((kmach k)\<lparr>cr3 := d\<rparr>) = Some m'" by blast
  then have "\<exists>x. vmspace64_destroy (zero64 k) d (kvm k) = Some x" unfolding vmspace64_destroy_def live_remove_def by (simp add: m Let_def)
  then show ?thesis by (auto simp: free_space_def)
qed

lemma exit_process_returns:
  assumes k: "timely k" and ev: "\<forall>n. \<exists>j \<ge> n. ev j \<noteq> []" and p: "paging_inv (kmach k)"
  shows "\<exists>r t. exit_process ev (v :: 'a) k = Some (r, t)"
proof -
  let ?s = "fold (end_step (cur_pid k)) [0..<SCHED64_MAX_TASKS] (ksch k)"
  have t: "table_ok (ksch k)" "clock_ok (ksch k)" using k by (simp_all add: timely_def table_ok_def clock_ok_def ksch_def used_tasks_def)
  note E = end_tasks [OF t(1) order_refl, of "cur_pid k"]
  then have e: "table_ok ?s" by simp
  have "length (tasks ?s) = length (tasks (ksch k))" using e t(1) by (simp add: table_ok_def)
  then have "clock_ok ?s" using t(2) E unfolding clock_ok_def all_set_conv_all_nth by (simp add: end_steps_ticks)
  note e = e this
  obtain out s where s: "find_successor ev ?s = Some (out, s)" using successor_returns [OF ev e] by fastforce
  note F = find_successor_frame [OF s, simplified]
  show ?thesis
  proof (cases out)
    case None
    then show ?thesis using s by (simp add: exit_process_def sched64_exit_process_def Let_def)
  next
    case (Some x)
    obtain r' :: "'a flow" and u where u: "leave_to x (set_ksch s k) = (r', u)" by fastforce
    have "kmach (set_ksch s k) = kmach k" using F by (simp add: kmach_def set_ksch_def)
    moreover have "(kmach u)\<lparr>cr3 := c\<rparr> = (kmach k)\<lparr>cr3 := c\<rparr>" for c
      using u F by (auto simp: leave_to_def kmach_def set_ksch_def vmspace64_switch_def Let_def split: prod.splits)
    moreover have "paging_inv ((kmach k)\<lparr>cr3 := vmspace64_current_phys (kmach k)\<rparr>)"
      by (rule paging_inv_root [of "cr3 (kmach k)"]) (use p in \<open>simp_all add: vmspace64_current_phys_def\<close>)
    ultimately obtain w where "free_space (vmspace64_current_phys (kmach (set_ksch s k))) u = Some w"
      using free_space_returns [of "vmspace64_current_phys (kmach k)" u] by auto
    then show ?thesis using s Some u by (simp add: exit_process_def sched64_exit_process_def Let_def)
  qed
qed

lemma ended_exit_returns:
  assumes "leader_pid v \<ge> 0 \<and> cur_pid v = leader_pid v \<or> timely v \<and> (\<forall>n. \<exists>j \<ge> n. ev j \<noteq> []) \<and> paging_inv (kmach v)"
  shows "\<exists>r t. andthen (Some (ended p v)) (\<lambda>_ k. exit_process ev (a :: 'a) k) = Some (r, t)"
proof (cases "leader_pid v \<ge> 0 \<and> cur_pid v = leader_pid v")
  case False
  define w where "w = (if p \<noteq> 0 then wake_all (PROC64_WAIT_KEY p) v else v)"
  have "kmach (wake_all key v) = kmach v" for key by (simp add: kmach_def wake_all_def set_ksch_def wake_frame)
  then have "timely w" "kmach w = kmach v" using False assms by (auto simp: w_def)
  moreover have "ended p v = (Val (), w)" using False by (simp add: ended_def if_not_P w_def)
  ultimately show ?thesis using exit_process_returns [of w ev a] False assms by (auto simp: andthen_def)
qed (simp add: ended_def andthen_def)

lemma exit_group_run:
  assumes inv: "files_inv k" and len: "length (tasks (sch (sigs k))) = SCHED64_MAX_TASKS" and e: "sys_exit_group ev x k = Some (r, t)"
  shows "books t \<and> exited (procs (ptab t) ! me k) \<and> exit_status (procs (ptab t) ! me k) = c_int (a1 x)
   \<and> (\<forall>d \<in> set (fds (procs (ptab t) ! me k)). \<not> fd_used d) \<and> no_task (cur_pid k) (sch (sigs t))
   \<and> (\<forall>i < PROC64_MAX. i \<noteq> me k \<longrightarrow> procs (ptab t) ! i = procs (ptab k) ! i)
   \<and> (if leader_pid k \<ge> 0 \<and> cur_pid k = leader_pid k then r = Abort \<and> leader_exited t else r \<noteq> Abort)"
proof -
  define k1 where "k1 = k\<lparr>exit_code := a1 x\<rparr>"
  have i1: "files_inv k1" using inv files_inv_cong [of k1 k] by (simp add: k1_def)
  note V = vfork_release_books [OF i1]
  obtain u where u: "close_all_files (vfork_release (proc64_current (ptab k1)) k1) = Some u"
    "andthen (Some (ended (parent_of k1) (set_ptab (proc64_exit (cur_pid u) (c_int (a1 x)) (ptab u)) u))) (\<lambda>_ k. exit_process ev (sint (a1 x)) k) = Some (r, t)"
    using e by (auto simp: sys_exit_group_def k1_def Let_def split: bind_splits)
  define v where "v = set_ptab (proc64_exit (cur_pid u) (c_int (a1 x)) (ptab u)) u"
  note E = ending_books [OF i1 u(1)]
  have m: "me u = me k" "me u < PROC64_MAX" using E(3) me_cong [of k1 k] running_me(1) [OF files_invD(1) [OF E(4)]] by (simp_all add: k1_def)
  have p: "procs_inv (ptab u)" "slot_for (cur_pid u) (ptab u) = Some (me u)" using E(4) current_slot by (simp_all add: files_books books_def)
  have pv: "procs (ptab v) = (procs (ptab u))[me k := (procs (ptab u) ! me k)\<lparr>exited := True, exit_status := c_int (a1 x)\<rparr>]"
    by (simp add: v_def exit_eq [OF p(2)] m(1))
  have cv: "cur_pid v = cur_pid u" unfolding v_def exit_eq [OF p(2)] by (simp add: proc64_current_pid_def)
  have fu: "run_frame u = run_frame k" using close_all_run [OF u(1)] by (simp add: vfork_release_run k1_def)
  then have cu: "cur_pid u = cur_pid k" by (simp add: run_frame_def proc64_current_pid_def)
  have f: "run_frame v = run_frame k" using fu cv by (simp add: run_frame_def v_def proc64_current_pid_def)
  have o: "procs (ptab u) ! i = procs (ptab k) ! i" if "i < PROC64_MAX" "i \<noteq> me k" for i
  proof -
    have "procs (ptab u) ! i = procs (ptab (vfork_release (proc64_current (ptab k1)) k1)) ! i"
      using close_all_inv [OF V(1)] u(1) that V(2) E(3) m(1) by auto
    then show ?thesis using that current_slot(2) [of k] inv by (simp add: vfork_release_def k1_def files_books)
  qed
  have n: "length (tasks (sch (sigs v))) \<le> SCHED64_MAX_TASKS" and lv: "leader_pid v = leader_pid k" using f len by (simp_all add: run_frame_def)
  note res = ended_exit_run [OF E(1) [of "c_int (a1 x)", folded v_def] n u(2) [folded v_def], unfolded lv cv cu]
  have "list_all (\<lambda>d. \<not> fd_used d) (fds (procs (ptab u) ! me k))"
    using E(5) running_me(3) [OF files_invD(1) [OF E(4)]] m(1) by (simp add: list_all_length fdt_def)
  moreover have "procs (ptab v) ! me k = (procs (ptab u) ! me k)\<lparr>exited := True, exit_status := c_int (a1 x)\<rparr>"
    using m procs_invD(1) [OF p(1)] by (simp add: pv)
  moreover have "procs (ptab v) ! i = procs (ptab k) ! i" if "i < PROC64_MAX" "i \<noteq> me k" for i using o [OF that] that(2) by (simp add: pv)
  ultimately show ?thesis using res by (simp add: list_all_iff)
qed

lemma exit_group_returns:
  assumes inv: "files_inv k"
    and ok: "leader_pid k \<ge> 0 \<and> cur_pid k = leader_pid k \<or> timely k \<and> (\<forall>n. \<exists>j \<ge> n. ev j \<noteq> [])
      \<and> (\<forall>u. close_all_files (vfork_release (proc64_current (ptab k)) (k\<lparr>exit_code := a1 x\<rparr>)) = Some u \<longrightarrow> paging_inv (kmach u))"
  shows "\<exists>r t. sys_exit_group ev x k = Some (r, t)"
proof -
  define k1 where "k1 = k\<lparr>exit_code := a1 x\<rparr>"
  define k2 where "k2 = vfork_release (proc64_current (ptab k1)) k1"
  have i1: "files_inv k1" using inv files_inv_cong [of k1 k] by (simp add: k1_def)
  have pt: "ptab k1 = ptab k" by (simp add: k1_def ptab_def)
  obtain u where u: "close_all_files k2 = Some u" using close_all_inv [OF vfork_release_books(1) [OF i1]] unfolding k2_def by blast
  define v where "v = set_ptab (proc64_exit (cur_pid u) (c_int (a1 x)) (ptab u)) u"
  have "run_frame u = run_frame k" using close_all_run [OF u] by (simp add: k2_def vfork_release_run k1_def)
  then have f: "leader_pid v = leader_pid k" "cur_pid v = cur_pid k"
    by (simp_all add: v_def run_frame_def proc64_current_pid_def) (simp add: proc64_exit_def split: option.splits)
  have "timely v" if "timely k" using that close_all_timely [OF u] vfork_release_timely [of k1] by (simp add: v_def k2_def k1_def)
  moreover have "kmach v = kmach u" by (simp add: v_def kmach_def)
  ultimately obtain r t where "andthen (Some (ended (parent_of k1) v)) (\<lambda>_ k. exit_process ev (sint (a1 x)) k) = Some (r, t)"
    using ended_exit_returns [of v ev "parent_of k1" "sint (a1 x)"] ok u f pt by (auto simp: k2_def k1_def)
  then show ?thesis using u by (simp add: sys_exit_group_def Let_def k1_def [symmetric] k2_def [symmetric] v_def [symmetric])
qed

section \<open>Properties\<close>


text \<open>C6: The end of a process by \<open>exit_group\<close>. The leader's always ends the run. Any other's returns when the scheduler's table is in order, timer interrupts keep
  coming and the page tables are sound once the files are closed. Whenever it is done, the status is recorded, the descriptors are closed with all counts
  right, no thread of the process is left in the scheduler's table, and no other process is touched.\<close>

theorem life64_exit_group_correct:
  assumes "files_inv k" and "length (tasks (sch (sigs k))) = SCHED64_MAX_TASKS"
  shows "(leader_pid k \<ge> 0 \<and> cur_pid k = leader_pid k \<longrightarrow> (\<exists>t. sys_exit_group ev x k = Some (Abort, t)))
   \<and> (timely k \<and> (\<forall>n. \<exists>j \<ge> n. ev j \<noteq> [])
      \<and> (\<forall>u. close_all_files (vfork_release (proc64_current (ptab k)) (k\<lparr>exit_code := a1 x\<rparr>)) = Some u \<longrightarrow> paging_inv (kmach u))
      \<longrightarrow> (\<exists>r t. sys_exit_group ev x k = Some (r, t)))
   \<and> (\<forall>r t. sys_exit_group ev x k = Some (r, t) \<longrightarrow>
        books t \<and> exited (procs (ptab t) ! me k) \<and> exit_status (procs (ptab t) ! me k) = c_int (a1 x)
        \<and> (\<forall>d \<in> set (fds (procs (ptab t) ! me k)). \<not> fd_used d) \<and> no_task (cur_pid k) (sch (sigs t))
        \<and> (\<forall>i < PROC64_MAX. i \<noteq> me k \<longrightarrow> procs (ptab t) ! i = procs (ptab k) ! i)
        \<and> (if leader_pid k \<ge> 0 \<and> cur_pid k = leader_pid k then r = Abort \<and> leader_exited t else r \<noteq> Abort))"
proof (intro conjI impI allI)
  assume l: "leader_pid k \<ge> 0 \<and> cur_pid k = leader_pid k"
  then obtain r t where "sys_exit_group ev x k = Some (r, t)" using exit_group_returns [OF assms(1)] by blast
  then show "\<exists>t. sys_exit_group ev x k = Some (Abort, t)" using exit_group_run [OF assms] l by fastforce
qed (use exit_group_returns [OF assms(1)] exit_group_run [OF assms] in blast)+


section \<open>A process with a pipe\<close>

definition demo_base :: kstate where
  "demo_base = \<lparr>sigs = sig_demo\<lparr>us := uspace_demo\<lparr>table := proc_demo\<lparr>current_pid := 1\<rparr>, umach := machine_demo\<lparr>pmm := (pmm machine_demo)\<lparr>ready := False\<rparr>\<rparr>\<rparr>\<rparr>,
     ksock = \<lparr>socks = (\<lambda>_. blank_sock), accepted = 0, ps = pipe_demo\<rparr>, umem = (\<lambda>_. 0), said_fds = False, wprog = [], wait_deadline = [], wait_call = [],
     wait_pending = [], clear_child_tid = [], saved_user_rsp = 0, pipes_made = 0, socketpairs_made = 0, sockets_made = 0, wm_closed = [],
     vms = \<lparr>heap = kheap_zero, live = [], live_untracked = 0\<rparr>, exit_code = 0, leader_pid = 1, report_pid = 1, leader_exited = False, forks = 0, vforks = 0,
     last_fork_frames = 0, thread_exits = 0, futex_wakes = 0, oom_kills = 0\<rparr>"

definition demo_fd :: "proc64_fd \<Rightarrow> proc64_fd" where
  "demo_fd d = d\<lparr>fd_kind := FD64_PIPE, fd_rx := 0, fd_tx := 0, fd_used := True\<rparr>"

text \<open>Process 1, the leader, holds both ends of pipe 0 at descriptor 3. There is no free memory.\<close>

definition files_demo :: kstate where
  "files_demo = set_fd 3 demo_fd demo_base"

definition demo_args :: syscall64_args where
  "demo_args = \<lparr>arg_nr = 3, a1 = 3, a2 = 0, a3 = 0, a4 = 0, a5 = 0, a6 = 0, arg_rbx = 0, arg_rbp = 0, arg_r12 = 0, arg_r13 = 0, arg_r14 = 0, arg_r15 = 0,
     ret_rflags = 0, ret_rip = 0\<rparr>"

lemma demo_table: "ptab demo_base = proc_demo\<lparr>current_pid := 1\<rparr>" "held_ends (ptab demo_base) = {#}"
  using proc_demo_held by (simp_all add: ptab_def demo_base_def held_ends_def)

lemma demo_me: "me demo_base = 0" "proc64_current (ptab demo_base) = Some 0" "procs (ptab demo_base) ! 0 = new_proc 1"
  using proc_demo_slot proc_demo_slots [of 0] by (simp_all add: me_def demo_table(1) proc64_current_def PROC64_MAX_def)

lemma demo_running: "running demo_base"
proof -
  have "proc_fds_ok (new_proc 1)" by (simp add: proc_fds_ok_def new_proc_def zero_proc_def fd_ok_def zero_fd_def list_all_length)
  then have "fds_ok (ptab demo_base)" using proc_demo_slots by (auto simp: fds_ok_def demo_table(1) zero_proc_def split: if_splits)
  moreover have "\<not> exited (new_proc 1)" by (simp add: new_proc_def zero_proc_def)
  ultimately show ?thesis using proc_demo_inv demo_me by (simp add: running_def caller_def) (simp add: demo_table(1))
qed

lemma demo_sockets: "sock_inv (kss demo_base) {#Rd 0, Wr 0#}"
proof -
  let ?s = "\<lparr>socks = (\<lambda>_. blank_sock), accepted = 0, ps = pipe_demo\<rparr>"
  have "open_socks ?s = {}" by (simp add: open_socks_def sock64_valid_def blank_sock_def)
  then have "sock_inv ?s {#Rd 0, Wr 0#}" using pipe_demo_inv by (simp add: sock_inv_def owned_def sock_ok_def blank_sock_def SOCK64_BACKLOG_def)
  from sock_inv_fs [OF this with_machine_ok [OF sock_ramfs [OF this]]] show ?thesis by (simp add: kss_def demo_base_def)
qed

lemma demo_fdt: "fdt demo_base 3 = zero_fd"
  by (simp add: fdt_def demo_me new_proc_def zero_proc_def PROC64_FD_MAX_def)

lemma files_demo_inv: "files_inv files_demo"
  unfolding files_demo_def
proof (rule set_fd_files [OF demo_running _ _ _ refl])
  show "3 < FD_MAX" by (simp add: FD_MAX_def PROC64_FD_MAX_def)
  show "fd_ok (demo_fd (fdt demo_base 3))" by (simp add: demo_fd_def fd_ok_def fd_is_stream_def)
  show "sock_inv (kss demo_base) (held_ends (ptab demo_base) - fd_ends (fdt demo_base 3) + fd_ends (demo_fd (fdt demo_base 3)))"
    using demo_sockets by (simp add: demo_table(2) fd_ends_def demo_fd_def demo_fdt zero_fd_def FD64_PIPE_def FD64_FILE_def)
qed


lemma demo_fields: "me files_demo = 0" "cur_pid files_demo = 1" "leader_pid files_demo = 1" "length (tasks (sch (sigs files_demo))) = SCHED64_MAX_TASKS"
  "\<not> ready (pmm (kmach files_demo))" "procs (ptab files_demo) ! 1 = zero_proc"
proof -
  show "me files_demo = 0" unfolding files_demo_def using set_fd_me(1) [OF demo_running] by (simp add: demo_me(1))
  show "cur_pid files_demo = 1" unfolding files_demo_def proc64_current_pid_def using set_fd_procs(2) [OF demo_running] by (simp add: demo_table(1))
  show "leader_pid files_demo = 1" by (simp add: files_demo_def) (simp add: demo_base_def)
  show "length (tasks (sch (sigs files_demo))) = SCHED64_MAX_TASKS"
    using sched_demo_ok(6) by (simp add: files_demo_def) (simp add: demo_base_def sig_demo_def)
  show "\<not> ready (pmm (kmach files_demo))" by (simp add: kmach_def files_demo_def set_fd_def set_ptab_def) (simp add: demo_base_def)
  have "1 < PROC64_MAX" by (simp add: PROC64_MAX_def)
  then show "procs (ptab files_demo) ! 1 = zero_proc"
    unfolding files_demo_def using set_fd_proc [OF demo_running, of 1] proc_demo_slots [of 1] by (simp add: demo_me(1) demo_table(1))
qed

theorem life64_exit_group_correct_witness:
  "\<exists>t. sys_exit_group (\<lambda>_. []) demo_args files_demo = Some (Abort, t) \<and> exited (procs (ptab t) ! 0) \<and> exit_status (procs (ptab t) ! 0) = 3 \<and> no_task 1 (sch (sigs t))"
proof -
  note E = life64_exit_group_correct [OF files_demo_inv demo_fields(4), of "\<lambda>_. []" demo_args]
  have l: "leader_pid files_demo \<ge> 0 \<and> cur_pid files_demo = leader_pid files_demo" by (simp add: demo_fields)
  obtain t where t: "sys_exit_group (\<lambda>_. []) demo_args files_demo = Some (Abort, t)" using conjunct1 [OF E] l by blast
  then have "exited (procs (ptab t) ! me files_demo)" "exit_status (procs (ptab t) ! me files_demo) = c_int (a1 demo_args)"
    "no_task (cur_pid files_demo) (sch (sigs t))" using E by blast+
  then show ?thesis using t by (simp add: demo_fields demo_args_def c_int_def)
qed

lemma fork_no_frame:
  assumes inv: "files_inv k" and room: "i < PROC64_MAX" "\<not> p_used (procs (ptab k) ! i)" and nr: "\<not> ready (pmm (kmach k))"
  shows "\<exists>t. do_fork_common ev x cst vf k = Some (Val (-12), t)"
proof -
  have b: "procs_inv (ptab k)" "caller k" using inv by (simp_all add: files_books books_def)
  have rm: "\<not> (\<forall>i < PROC64_MAX. p_used (procs (ptab k) ! i))" using room by blast
  have fm: "mach (kh (fs (fold count_fd ds q))) = mach (kh (fs q))" for ds q
    by (rule fold_frame) (simp add: count_fd_def pipe64_ref_def ramfs64_ref_node_def nupd_def pupd_def Let_def)
  obtain s where s: "proc64_fork_from (cur_pid k) (ptab k) (kps k) = Some (next_pid (ptab k), s, fold count_fd (fds (procs (ptab k) ! me k)) (kps k))"
    using fork_from_eq [OF b(1) current_slot(1) [OF b(2)] rm, of "kps k"] by metis
  have c: "\<not> next_pid (ptab k) < 0" using procs_invD(2) [OF b(1)] by simp
  obtain ic v where v: "kmach v = mach (kh (fs (fold count_fd (fds (procs (ptab k) ! me k)) (kps k))))"
    "do_fork_common ev x cst vf k = fork_tail ev x cst vf (pmm64_free_frames (pmm (kmach k))) (next_pid (ptab k)) ic v" by (rule fork_steps [OF inv s c]) blast
  have "mach (kh (kfs u)) = kmach u" for u by (simp add: kss_def kmach_def with_machine_def)
  then have "\<not> ready (pmm (mach (heap (kvm v))))" using nr v(1) by (simp add: kvm_def fm)
  then have "\<exists>w. vmspace64_create (kvm v) = Some ((False, 0), w)" by (simp add: vmspace64_create_def pmm64_alloc_frame_def)
  then show ?thesis unfolding v(2) fork_tail_def fork_space_def by (auto simp: Let_def)
qed


end
