(* ===== verification/Spec2Isabelle.thy ===== *)
theory Spec2Isabelle
  imports KString Sock64 Ramfs64_Files Initrd64 Vmspace64_Destroy Proc64_Table Input64_Queue Elf64_Load Uspace64_Maps Signal64_Frame Life64_Refs
begin

text \<open>
  \<^bold>\<open>A verification library for the 64-bit kernel of NovarisOS.\<close>

  \<^bold>\<open>The program.\<close> NovarisOS has two kernels in one tree: a 32-bit one with a desktop, and a 64-bit one that
  runs Linux programs. This library models the components of the 64-bit kernel, files
  \<^verbatim>\<open>kernel/*64.c\<close> and the string routines both kernels share, and proves what each promises its callers.
  The components are stacked as follows. \<^verbatim>\<open>pmm64\<close> hands out frames; \<^verbatim>\<open>paging64\<close> maps them, through a recursive slot of the
  top-level table; \<^verbatim>\<open>kheap64\<close> grows a heap on both; \<^verbatim>\<open>ramfs64\<close> keeps files in heap blocks and frames, and is seeded from
  the archive \<^verbatim>\<open>initrd64\<close> reads; \<^verbatim>\<open>pipe64\<close> and \<^verbatim>\<open>sock64\<close> carry bytes and descriptors between processes;
  \<^verbatim>\<open>vmspace64\<close> gives each process its tables, with copy-on-write; \<^verbatim>\<open>proc64\<close> is the table of processes and of what
  each holds; \<^verbatim>\<open>elf64\<close> and \<^verbatim>\<open>uspace64\<close> fill a process's half of memory; \<^verbatim>\<open>sched64\<close> shares the processor out;
  \<^verbatim>\<open>signal64\<close> interrupts programs; \<^verbatim>\<open>input64\<close> queues what the keyboard and the mouse say; \<^verbatim>\<open>syscall64\<close> joins them all behind the system calls.

  \<^bold>\<open>Shared theories.\<close>
  \<^item> \<open>Prelude\<close>: machine integers as words, memory as a function from addresses to bytes, C strings in it, and the
    arithmetic that shows where 64-bit sums do not wrap. The collections \<open>mem_simps\<close> and \<open>wrap_simps\<close> hold them.
  \<^item> \<open>Ring\<close>: circular arrays read as lists; used by pipes, descriptors in flight, pending connections and input events.
  \<^item> \<open>Linked_List\<close>: doubly linked lists in a heap of records; used by the kernel heap.
  \<^item> \<open>Frame_Allocator\<close> and \<open>Heap_Allocator\<close>: the contracts of the two allocators as locales. Their clients' theorems
    (nobody is given what somebody still holds; allocations never overlap) are proved once from the contract.
  \<^item> \<open>User_Pages\<close>: the user half as the processor sees it, page by page, and the three steps (give a page a frame,
    change its permissions, write into it) that the loader, first touch and signal delivery are made of.

  \<^bold>\<open>Components.\<close> Each theory's definitions have the names of the C functions and stand in the order of the file.
  Global variables are fields of a record that the functions take and return.
  \<^item> \<open>KString\<close>, \<^verbatim>\<open>kernel/kstring.c\<close>: every routine over byte-addressed memory. The lemmas give each its meaning on
    C strings and byte ranges: moves with any overlap, ordering of comparisons, bounded copies, the first occurrence
    of a substring, decimal conversion both ways, long division.
  \<^item> \<open>Pmm64\<close>, \<^verbatim>\<open>kernel/pmm64.c\<close>: the bitmap, the extra owners and both scans, initialised from the multiboot map.
    The invariant relates bitmap, owners and counters; an interpretation of \<open>frame_allocator\<close> gives that no frame
    is handed out while it is held.
  \<^item> \<open>Paging64\<close>, \<^verbatim>\<open>kernel/paging64.c\<close>: \<open>mmu\<close> is the hardware's four-level walk over physical memory and stands for the
    processor; the kernel's code reads and writes tables only through virtual addresses, resolved by \<open>mmu\<close> through the
    recursive slot. Mapping, unmapping and translation are proved against the walk of the hardware.
  \<^item> \<open>Kheap64\<close>, \<^verbatim>\<open>kernel/kheap64.c\<close>: block headers, the address-ordered list and the free list at pointer level.
    Blocks tile the heap, no two free blocks are adjacent, and the free list holds exactly the free blocks; from this the
    interpretation of \<open>heap_allocator\<close>.
  \<^item> \<open>Ramfs64\<close>, \<open>Ramfs64_Tree\<close>, \<open>Ramfs64_Files\<close>, \<^verbatim>\<open>kernel/ramfs64.c\<close>: the node table with its sibling lists and
    free list; walking, creating, unlinking and renaming against a map from directories and names to nodes; the bytes of
    files, in a heap block or in frames.
  \<^item> \<open>Initrd64\<close>, \<^verbatim>\<open>kernel/initrd64.c\<close>: reading the archive, and the round trip with a packer of the documented format.
  \<^item> \<open>Pipe64\<close>, \<open>Pipe64_Refs\<close>, \<^verbatim>\<open>kernel/pipe64.c\<close>: the ring refines a byte queue; counts of ends are exact, also for ends
    in flight on other pipes; tearing down a chain of pipes ends.
  \<^item> \<open>Sock64\<close>, \<^verbatim>\<open>kernel/sock64.c\<close>: listening, connecting and accepting over the pipes.
  \<^item> \<open>Vmspace64\<close>, \<open>Vmspace64_Search\<close>, \<open>Vmspace64_Cow\<close>, \<open>Vmspace64_Destroy\<close>, \<^verbatim>\<open>kernel/vmspace64.c\<close>: spaces, the search for the
    next mapped page, copy-on-write and destruction, each stated over what the processor's walk finds and over owner
    counts of frames.
  \<^item> \<open>Proc64\<close>, \<open>Proc64_Table\<close>, \<^verbatim>\<open>kernel/proc64.c\<close>: the table of processes, forking, exit, wait and the sweep for orphans.
  \<^item> \<open>Elf64\<close>, \<open>Elf64_Load\<close>, \<^verbatim>\<open>kernel/elf64.c\<close>: headers, the checks on them, and loading.
  \<^item> \<open>Uspace64\<close>, \<open>Uspace64_Resv\<close>, \<open>Uspace64_Maps\<close>, \<^verbatim>\<open>kernel/uspace64.c\<close>: the sorted table of regions refines a map from
    addresses to protections; faults, the search for a gap, mapping and unmapping are stated over that map and the
    processor's view.
  \<^item> \<open>Sched64\<close>, \<open>Sched64_Tasks\<close>, \<^verbatim>\<open>kernel/sched64.c\<close> with the tick of \<^verbatim>\<open>kernel/clock64.c\<close>: saving and loading of tasks, the
    round robin, waiting, waking and ending. The locale \<open>task_machine\<close> has the law every operation
    obeys towards tasks it is not about; runs of operations are handled once in it.
  \<^item> \<open>Signal64\<close>, \<open>Signal64_Masks\<close>, \<open>Signal64_Frame\<close>, \<^verbatim>\<open>kernel/signal64.c\<close>: pending words as sets, masks, the frame
    on the user's stack byte by byte, and the return through it.
  \<^item> \<open>Input64\<close>, \<open>Input64_Queue\<close>, \<^verbatim>\<open>kernel/input64.c\<close>: scan codes and mouse packets become events; a device is a bounded
    queue of whole events.
  \<^item> \<open>Files64\<close>, \<open>Files64_Refs\<close>, \<^verbatim>\<open>kernel/syscall64.c\<close>, the descriptor layer: the table of descriptors, pipes, pairs, sockets, copies of descriptors and
    waiting, over one state that joins the components. \<open>files_inv\<close> ties the counts of every pipe to the descriptors
    of all processes, and every call keeps it.
  \<^item> \<open>Life64\<close>, \<open>Life64_Refs\<close>, the same file: fork, clone, wait4, exit, death by a signal and the signals taken at the end of a call. \<open>kernel_call\<close>
    is the step relation of all these calls and \<open>books\<close> its invariant; what ends a process is shown to return, to leave no thread of it and
    to touch no other process; the fork that fails and leaves references behind is stated exactly.
  \<^bold>\<open>Loops, fuel and partial operations.\<close> Loops bounded by a table or an argument are structural recursion. A loop
  whose end needs an argument takes fuel or is a \<^verbatim>\<open>partial_function\<close> into options, and a theorem shows that it returns: walking paths
  (at most as many links as \<^verbatim>\<open>RAMFS64_LINK_MAX\<close> allows, and a path that gets shorter), tearing down pipes (fewer live pipes after each), the
  search for mapped pages and for gaps (the address grows), loading (the page grows). \<open>None\<close> of a store through a virtual address is a fault
  in the kernel; the theorems show where none happens.

  \<^bold>\<open>Bounds the theorems assume\<close>, each where the C code would otherwise wrap or the hardware cannot go: heap
  requests below \<open>2 ^ 45\<close> bytes, frame numbers below \<open>2 ^ 40\<close>, files below \<open>2 ^ 43\<close> bytes, user ranges below \<open>2 ^ 47\<close>,
  the tables at their compiled sizes (regions, tasks, processes, pipes, nodes), a clock below \<open>2 ^ 64 - 1\<close> ticks, signal frames
  whose stack lies between 2048 and \<open>2 ^ 47\<close>. What happens outside several of these is a finding with its line.

  \<^bold>\<open>Simplifications.\<close>
  \<^item> The translation cache of the processor is not modelled: a change of a table is seen at once, as if
    every \<^verbatim>\<open>invlpg\<close> the code has (and each it lacks) were performed.
  \<^item> The direct map of physical memory is used as an identity: a store through it is a store to the frame.
  \<^item> The kernel's stores to user pages do not consult the writable bit.
  \<^item> Interrupts arrive only where the code halts or enables them, as a parameter \<open>ev\<close> of the scheduler's idle loop; a handler and the
    code it interrupts are not interleaved otherwise.
  \<^item> Ports, \<^verbatim>\<open>fninit\<close>'s image and the zero page are parameters.
  \<^item> Messages on the serial line are a log or a flag where a caller can observe them and nothing elsewhere.
  \<^item> Process numbers are unbounded; the code's wrap after \<open>2 ^ 31\<close> processes.
  \<^item> The scheduler's state and the user-memory state each carry the process table and the machine; the operations that
    need both run on the one and write it back into the other.

  \<^bold>\<open>Not modelled.\<close>
  \<^item> the rest of \<^verbatim>\<open>kernel/syscall64.c\<close>: execve, the calls on paths and file metadata, mmap of files, poll, select and epoll, futex, sendmsg and recvmsg, netlink,
    signalfd, clocks and timers, and the reports it prints; \<open>syscall64_dispatch\<close> has the function that selects
    the call as an argument.
  \<^item> \<^verbatim>\<open>kernel/kmain64.c\<close> and the assembly entries: a sequence of self-tests over the components, and code that sets registers
    the model does not have.
  \<^item> \<^verbatim>\<open>gdt64\<close>, \<^verbatim>\<open>idt64\<close>, \<^verbatim>\<open>serial64\<close>, \<^verbatim>\<open>fb64\<close>, the drivers: device input and output.
  \<^item> The 32-bit kernel (memory, processes, POSIX layer, file systems, network stack) and its desktop: another program in
    the same tree, whose memory management and processes the 64-bit components above replace.
  \<^item> The PE loader and the Win32 layer of both kernels, the Wine driver: an emulation of a third-party interface.
  \<^item> Fonts, icons, embedded binaries: data. User programs and host tests: clients of the kernel.
\<close>

end
